(* ===== verification/Prelude.thy ===== *)
theory Prelude
  imports Main "HOL-Library.Word"
begin

text \<open>
  Shared vocabulary of the development: the machine integers of the 32 bit kernel, the result
  type of code that can fault or panic, the named collections of rewrite rules the component
  theories extend, and the generic facts on lists, maps and words they have in common.
\<close>

section \<open>Types\<close>

type_synonym u8 = "8 word"
type_synonym u16 = "16 word"
type_synonym u32 = "32 word"
type_synonym u64 = "64 word"

text \<open>
  \<open>i32\<close> and \<open>i64\<close> values are kept as words as well; \<open>sint\<close> reads them where the code
  compares them as signed numbers.
\<close>

type_synonym i32 = "32 word"
type_synonym i64 = "64 word"

text \<open>
  What the kernel can do instead of returning: stop in \<open>EvaKernel::panic\<close>, dereference a null
  pointer, or follow a pointer to memory that holds no object of the expected kind.
\<close>

datatype kerror = Panic string | NullDeref | BadPointer u32

type_synonym 'a kres = "kerror + 'a"

text \<open>Sequencing: the first error ends the computation.\<close>

definition kbind :: "'a kres \<Rightarrow> ('a \<Rightarrow> 'b kres) \<Rightarrow> 'b kres" where
  "kbind m f = (case m of Inl e \<Rightarrow> Inl e | Inr x \<Rightarrow> f x)"

lemma kbind_simps [simp]: "kbind (Inl e) f = Inl e" "kbind (Inr x) f = f x"
  by (simp_all add: kbind_def)

lemma kbind_Inr_iff: "kbind m f = Inr y \<longleftrightarrow> (\<exists>x. m = Inr x \<and> f x = Inr y)"
  by (cases m) auto

lemma kbind_assoc: "kbind (kbind m f) g = kbind m (\<lambda>x. kbind (f x) g)"
  by (cases m) auto

text \<open>The same for code with loops that may not end: \<open>None\<close> stands for not returning.\<close>

definition obind :: "'a kres option \<Rightarrow> ('a \<Rightarrow> 'b kres option) \<Rightarrow> 'b kres option" where
  "obind m f = (case m of None \<Rightarrow> None | Some (Inl e) \<Rightarrow> Some (Inl e) | Some (Inr x) \<Rightarrow> f x)"

lemma obind_simps [simp]: "obind None f = None" "obind (Some (Inl e)) f = Some (Inl e)" "obind (Some (Inr x)) f = f x"
  by (simp_all add: obind_def)

section \<open>Objects\<close>

text \<open>Reading and updating the object a pointer leads to.\<close>

definition at :: "(u32 \<rightharpoonup> 'o) \<Rightarrow> u32 \<Rightarrow> 'o kres" where
  "at m p = (if p = 0 then Inl NullDeref else case m p of None \<Rightarrow> Inl (BadPointer p) | Some x \<Rightarrow> Inr x)"

definition at_upd :: "(u32 \<rightharpoonup> 'o) \<Rightarrow> u32 \<Rightarrow> ('o \<Rightarrow> 'o) \<Rightarrow> (u32 \<rightharpoonup> 'o) kres" where
  "at_upd m p f = kbind (at m p) (\<lambda>x. Inr (m(p \<mapsto> f x)))"

lemma at_Inr: "p \<noteq> 0 \<Longrightarrow> m p = Some x \<Longrightarrow> at m p = Inr x"
  by (simp add: at_def)

lemma at_Inr_iff: "at m p = Inr x \<longleftrightarrow> p \<noteq> 0 \<and> m p = Some x"
  by (simp add: at_def split: option.splits)

section \<open>Collections of rules\<close>

named_theorems kernel_defs \<open>definitions a component unfolds in its own proofs\<close>
named_theorems abs_simps \<open>laws that push an abstraction function through an operation\<close>
named_theorems inv_intros \<open>preservation of a component's invariant\<close>

section \<open>Runs\<close>

text \<open>The runs of a step relation whose steps carry labels, with the labels in order.\<close>

inductive labelled_run :: "('s \<Rightarrow> 'e \<Rightarrow> 's \<Rightarrow> bool) \<Rightarrow> 's \<Rightarrow> 'e list \<Rightarrow> 's \<Rightarrow> bool" for step where
  run_refl: "labelled_run step s [] s"
| run_step: "step s e s' \<Longrightarrow> labelled_run step s' es s'' \<Longrightarrow> labelled_run step s (e # es) s''"

inductive_simps labelled_run_simps [simp]: "labelled_run step s [] s'" "labelled_run step s (e # es) s'"

lemma labelled_run_invariant:
  assumes "labelled_run step s es s'" and "I s" and "\<And>s e s'. I s \<Longrightarrow> step s e s' \<Longrightarrow> I s'"
  shows "I s'"
  using assms by (induction rule: labelled_run.induct) blast+

section \<open>Lists\<close>

lemma sum_list_map_update:
  fixes f :: "'a \<Rightarrow> nat"
  assumes "i < length xs"
  shows "sum_list (map f (xs[i := y])) + f (xs ! i) = sum_list (map f xs) + f y"
  using assms
proof (induction xs arbitrary: i)
  case Nil
  then show ?case by simp
next
  case (Cons x xs)
  then show ?case by (cases i) auto
qed

lemma concat_update_split:
  assumes "i < length xss"
  shows "concat (xss[i := ys]) = concat (take i xss) @ ys @ concat (drop (Suc i) xss)"
  using assms by (simp add: upd_conv_take_nth_drop)

lemma take_drop_mid:
  "i < length xs \<Longrightarrow> take i xs @ xs ! i # drop (Suc i) xs = xs"
  by (rule id_take_nth_drop [symmetric])

lemma map_of_distinct_remove:
  assumes "distinct (map fst (xs @ (k, v) # ys))"
  shows "map_of (xs @ ys) = (map_of (xs @ (k, v) # ys))(k := None)"
proof
  fix a
  have "map_of xs k = None" "map_of ys k = None"
    using assms by (auto simp: map_of_eq_None_iff)
  then show "map_of (xs @ ys) a = ((map_of (xs @ (k, v) # ys))(k := None)) a"
    by (auto simp: map_add_def split: option.splits)
qed

lemma disjoint_mono: "X \<subseteq> X' \<Longrightarrow> Y \<subseteq> Y' \<Longrightarrow> X' \<inter> Y' = {} \<Longrightarrow> X \<inter> Y = {}"
  by blast

section \<open>Words\<close>

lemma unat_mod_bound: "(0 :: 'a :: len word) < n \<Longrightarrow> unat (k mod n) < unat n"
  by (simp add: unat_mod word_gt_0_no word_gt_0 unat_gt_0)

lemma unat_add_lem32: "unat (a :: u32) + unat b < 2 ^ 32 \<Longrightarrow> unat (a + b) = unat a + unat b"
  by (simp add: unat_word_ariths)

lemma unat_sub_le: "(b :: 'a :: len word) \<le> a \<Longrightarrow> unat (a - b) = unat a - unat b"
  by (rule unat_sub)

lemma u32_bound: "unat (x :: u32) < 2 ^ 32"
  using unsigned_less [of x] by simp

lemma sint_small: "unat (w :: u32) < 2 ^ 31 \<Longrightarrow> sint w = int (unat w)"
proof -
  assume "unat w < 2 ^ 31"
  then have "int (unat w) < int (2 ^ 31)" unfolding of_nat_less_iff .
  then have "uint w < 2 ^ 31" by simp
  moreover have "- (2 ^ 31) \<le> uint w" by (rule order_trans [OF _ uint_ge_0]) simp
  ultimately show ?thesis by (simp add: sint_uint signed_take_bit_int_eq_self)
qed

lemma of_nat_u32_inj: "x < 2 ^ 32 \<Longrightarrow> y < 2 ^ 32 \<Longrightarrow> (of_nat x :: u32) = of_nat y \<longleftrightarrow> x = y"
  by (simp add: word_of_nat_eq_iff take_bit_nat_eq_self)

lemma of_nat_u32_le: "x < 2 ^ 32 \<Longrightarrow> y < 2 ^ 32 \<Longrightarrow> (of_nat x :: u32) \<le> of_nat y \<longleftrightarrow> x \<le> y"
  by (simp add: word_of_nat_less_eq_iff take_bit_nat_eq_self)

lemma of_nat_u32_eq_0: "x < 2 ^ 32 \<Longrightarrow> (of_nat x :: u32) = 0 \<longleftrightarrow> x = 0"
  using of_nat_u32_inj [of x 0] by simp

lemma unat_of_nat_u32: "x < 2 ^ 32 \<Longrightarrow> unat (of_nat x :: u32) = x"
  by (simp add: unat_of_nat)

lemma of_nat_diff_u32: "y \<le> x \<Longrightarrow> (of_nat x :: u32) - of_nat y = of_nat (x - y)"
  by (simp add: of_nat_diff)

text \<open>
  \<open>adr n\<close> is the 32 bit word of the number \<open>n\<close>; it is not unfolded by the simplifier, so that
  sums of addresses stay sums of numbers.
\<close>

definition adr :: "nat \<Rightarrow> u32" where
  "adr n = of_nat n"

lemma adr_inj: "x < 2 ^ 32 \<Longrightarrow> y < 2 ^ 32 \<Longrightarrow> adr x = adr y \<longleftrightarrow> x = y"
  by (simp add: adr_def of_nat_u32_inj)

lemma adr_le: "x < 2 ^ 32 \<Longrightarrow> y < 2 ^ 32 \<Longrightarrow> adr x \<le> adr y \<longleftrightarrow> x \<le> y"
  by (simp add: adr_def of_nat_u32_le)

lemma adr_eq_0: "x < 2 ^ 32 \<Longrightarrow> adr x = 0 \<longleftrightarrow> x = 0"
  by (simp add: adr_def of_nat_u32_eq_0)

lemma unat_adr: "x < 2 ^ 32 \<Longrightarrow> unat (adr x) = x"
  by (simp add: adr_def unat_of_nat_u32)

lemma adr_unat [simp]: "adr (unat w) = w"
  by (simp add: adr_def)

lemma adr_plus: "adr x + adr y = adr (x + y)"
  by (simp add: adr_def)

lemma adr_minus: "y \<le> x \<Longrightarrow> adr x - adr y = adr (x - y)"
  by (simp add: adr_def of_nat_diff)

lemma adr_numeral: "adr (numeral n) = numeral n" "adr 0 = 0" "adr 1 = 1"
  by (simp_all add: adr_def)

end
