(* ===== verification/AddressStack.thy ===== *)
theory AddressStack
  imports Prelude
begin

text \<open>
  The stack of addresses (Kernel/Kernel/memory/collections/AddressStack.cpp and .hpp), a doubly
  linked list of frames of 128 entries. The model keeps the frames below the current one, the
  entries of the current frame and the write position in it; the frame above the current one never
  exists, since \<open>push\<close> moves to a frame it creates and \<open>pop\<close> deletes the frame it leaves.
\<close>

section \<open>Data\<close>

definition ADDRESS_STACK_FRAME_ENTRIES :: nat where
  "ADDRESS_STACK_FRAME_ENTRIES = 128"

type_synonym frame = "u32 list"

text \<open>\<open>new AddressStackFrame()\<close> zero-initialises the entries.\<close>

definition new_frame :: frame where
  "new_frame = replicate ADDRESS_STACK_FRAME_ENTRIES 0"

record address_stack =
  as_previous :: "frame list"
  as_current :: "frame option"
  as_position :: nat

definition AddressStack_new :: address_stack where
  "AddressStack_new = \<lparr>as_previous = [], as_current = None, as_position = 0\<rparr>"

section \<open>Operations\<close>

definition AddressStack_push :: "address_stack \<Rightarrow> u32 \<Rightarrow> address_stack" where
  "AddressStack_push s address =
     (let cur = (case as_current s of None \<Rightarrow> new_frame | Some f \<Rightarrow> f);
          cur' = cur[as_position s := address];
          pos = as_position s + 1
      in if pos = ADDRESS_STACK_FRAME_ENTRIES
         then s\<lparr>as_previous := cur' # as_previous s, as_current := Some new_frame, as_position := 0\<rparr>
         else s\<lparr>as_current := Some cur', as_position := pos\<rparr>)"

text \<open>\<open>pop\<close> answers 0 when nothing is left.\<close>

definition AddressStack_pop :: "address_stack \<Rightarrow> u32 \<times> address_stack" where
  "AddressStack_pop s =
     (case as_current s of
        None \<Rightarrow> (0, s)
      | Some f \<Rightarrow>
          if as_position s = 0 then
            (case as_previous s of
               [] \<Rightarrow> (0, s)
             | g # gs \<Rightarrow>
                 let pos = ADDRESS_STACK_FRAME_ENTRIES - 1
                 in (g ! pos, s\<lparr>as_previous := gs, as_current := Some g, as_position := pos\<rparr>))
          else (f ! (as_position s - 1), s\<lparr>as_position := as_position s - 1\<rparr>))"

section \<open>Abstraction to a list\<close>

definition as_list :: "address_stack \<Rightarrow> u32 list" where
  "as_list s =
     (case as_current s of None \<Rightarrow> [] | Some f \<Rightarrow> rev (take (as_position s) f))
     @ concat (map rev (as_previous s))"

definition as_inv :: "address_stack \<Rightarrow> bool" where
  "as_inv s \<longleftrightarrow>
     (\<forall>f \<in> set (as_previous s). length f = ADDRESS_STACK_FRAME_ENTRIES) \<and>
     as_position s < ADDRESS_STACK_FRAME_ENTRIES \<and>
     (case as_current s of
        None \<Rightarrow> as_previous s = [] \<and> as_position s = 0
      | Some f \<Rightarrow> length f = ADDRESS_STACK_FRAME_ENTRIES)"

lemmas as_defs = as_inv_def as_list_def new_frame_def ADDRESS_STACK_FRAME_ENTRIES_def

lemma as_inv_new: "as_inv AddressStack_new"
  by (simp add: AddressStack_new_def as_defs)

lemma as_inv_push: "as_inv s \<Longrightarrow> as_inv (AddressStack_push s a)"
  by (auto simp: AddressStack_push_def Let_def as_defs split: option.splits)

lemma as_list_new: "as_list AddressStack_new = []"
  by (simp add: AddressStack_new_def as_defs)

lemma take_update_last: "i < length xs \<Longrightarrow> take (Suc i) (xs[i := x]) = take i xs @ [x]"
  by (simp add: take_Suc_conv_app_nth)

lemma as_list_push: "as_inv s \<Longrightarrow> as_list (AddressStack_push s a) = a # as_list s"
proof -
  assume inv: "as_inv s"
  define cur where "cur = (case as_current s of None \<Rightarrow> new_frame | Some f \<Rightarrow> f)"
  have len: "length cur = 128" and pos: "as_position s < 128"
    using inv by (auto simp: cur_def as_defs split: option.splits)
  have old: "as_list s = rev (take (as_position s) cur) @ concat (map rev (as_previous s))"
    using inv by (auto simp: cur_def as_defs split: option.splits)
  have new: "take (Suc (as_position s)) (cur[as_position s := a]) = take (as_position s) cur @ [a]"
    using len pos by (intro take_update_last) simp
  show ?thesis
  proof (cases "as_position s + 1 = 128")
    case True
    then have "cur[as_position s := a] = take (as_position s) cur @ [a]"
      using new len by (metis Suc_eq_plus1 length_list_update take_all order_refl)
    with True old show ?thesis
      by (simp add: AddressStack_push_def Let_def cur_def [symmetric] as_list_def
          ADDRESS_STACK_FRAME_ENTRIES_def)
  next
    case False
    with new old show ?thesis
      by (simp add: AddressStack_push_def Let_def cur_def [symmetric] as_list_def
          ADDRESS_STACK_FRAME_ENTRIES_def)
  qed
qed

lemma AddressStack_pop_spec:
  assumes "as_inv s"
  shows "case AddressStack_pop s of (a, s') \<Rightarrow>
     as_inv s' \<and> (case as_list s of [] \<Rightarrow> a = 0 \<and> as_list s' = [] | x # xs \<Rightarrow> a = x \<and> as_list s' = xs)"
proof (cases "as_current s")
  case None
  with assms show ?thesis by (simp add: AddressStack_pop_def as_defs)
next
  case (Some f)
  show ?thesis
  proof (cases "as_position s")
    case 0
    show ?thesis
    proof (cases "as_previous s")
      case Nil
      with Some 0 assms show ?thesis by (simp add: AddressStack_pop_def as_defs)
    next
      case (Cons g gs)
      then have "length g = Suc 127" using assms by (simp add: as_defs)
      then obtain h z where "g = h @ [z]" "length h = 127"
        by (metis append_butlast_last_id diff_Suc_1 length_butlast length_greater_0_conv zero_less_Suc)
      with Some 0 Cons assms show ?thesis
        by (simp add: AddressStack_pop_def as_defs nth_append)
    qed
  next
    case (Suc n)
    with Some assms have "take (Suc n) f = take n f @ [f ! n]"
      by (intro take_Suc_conv_app_nth) (simp add: as_defs)
    with Some Suc assms show ?thesis by (simp add: AddressStack_pop_def as_defs)
  qed
qed

section \<open>The stack interface\<close>

text \<open>What the message pools rely on: a last-in first-out store of addresses.\<close>

locale address_lifo =
  fixes empty :: "'s"
    and push :: "'s \<Rightarrow> u32 \<Rightarrow> 's"
    and pop :: "'s \<Rightarrow> u32 \<times> 's"
    and content :: "'s \<Rightarrow> u32 list"
    and invar :: "'s \<Rightarrow> bool"
  assumes content_empty: "content empty = []"
    and content_push: "invar s \<Longrightarrow> content (push s a) = a # content s"
    and pop_Nil: "invar s \<Longrightarrow> content s = [] \<Longrightarrow> fst (pop s) = 0 \<and> content (snd (pop s)) = []"
    and pop_Cons: "invar s \<Longrightarrow> content s = a # as \<Longrightarrow> fst (pop s) = a \<and> content (snd (pop s)) = as"
    and invar_empty: "invar empty"
    and invar_push: "invar s \<Longrightarrow> invar (push s a)"
    and invar_pop: "invar s \<Longrightarrow> invar (snd (pop s))"
begin

lemma pop_push: "invar s \<Longrightarrow> fst (pop (push s a)) = a \<and> content (snd (pop (push s a))) = content s"
  by (rule pop_Cons) (simp_all add: invar_push content_push)

lemma invar_pushes: "invar s \<Longrightarrow> invar (fold (\<lambda>a s. push s a) as s)"
  by (induction as arbitrary: s) (auto simp: invar_push)

lemma content_pushes: "invar s \<Longrightarrow> content (fold (\<lambda>a s. push s a) as s) = rev as @ content s"
  by (induction as arbitrary: s) (auto simp: invar_push content_push)

end

interpretation ast: address_lifo AddressStack_new AddressStack_push AddressStack_pop as_list as_inv
proof unfold_locales
  fix s a as
  assume inv: "as_inv s"
  show "as_list s = [] \<Longrightarrow> fst (AddressStack_pop s) = 0 \<and> as_list (snd (AddressStack_pop s)) = []"
    using AddressStack_pop_spec [OF inv] by (auto split: prod.splits)
  show "as_list s = a # as \<Longrightarrow> fst (AddressStack_pop s) = a \<and> as_list (snd (AddressStack_pop s)) = as"
    using AddressStack_pop_spec [OF inv] by (auto split: prod.splits)
  show "as_inv (snd (AddressStack_pop s))"
    using AddressStack_pop_spec [OF inv] by (auto split: prod.splits)
qed (simp_all add: as_list_new as_list_push as_inv_new as_inv_push)

fun AddressStack_pops :: "nat \<Rightarrow> address_stack \<Rightarrow> u32 list \<times> address_stack" where
  "AddressStack_pops 0 s = ([], s)"
| "AddressStack_pops (Suc n) s =
     (let (a, s') = AddressStack_pop s; (as, s'') = AddressStack_pops n s' in (a # as, s''))"

lemma AddressStack_pops_spec:
  "as_inv s \<Longrightarrow> n \<le> length (as_list s) \<Longrightarrow>
     fst (AddressStack_pops n s) = take n (as_list s) \<and>
     as_list (snd (AddressStack_pops n s)) = drop n (as_list s)"
proof (induction n arbitrary: s)
  case (Suc n)
  obtain a as where l: "as_list s = a # as" using Suc.prems(2) by (cases "as_list s") auto
  have p: "fst (AddressStack_pop s) = a" "as_list (snd (AddressStack_pop s)) = as"
    using ast.pop_Cons [OF Suc.prems(1) l] by auto
  with Suc.IH [of "snd (AddressStack_pop s)"] ast.invar_pop [OF Suc.prems(1)] Suc.prems(2) l
  show ?case by (auto simp: Let_def split: prod.splits)
qed simp

text \<open>
  C2. Pushing any list of addresses on a new address stack and popping as many of them returns
  the last pushed first and leaves the stack empty, across the borders of the 128 entry frames; one
  more \<open>pop\<close> answers 0.
\<close>

theorem address_stack_lifo:
  "fst (AddressStack_pops (length as) (fold (\<lambda>a s. AddressStack_push s a) as AddressStack_new)) = rev as \<and>
   fst (AddressStack_pop (snd (AddressStack_pops (length as)
          (fold (\<lambda>a s. AddressStack_push s a) as AddressStack_new)))) = 0"
proof -
  let ?s = "fold (\<lambda>a s. AddressStack_push s a) as AddressStack_new"
  have inv: "as_inv ?s" by (rule ast.invar_pushes [OF as_inv_new])
  have l: "as_list ?s = rev as" by (simp add: ast.content_pushes as_inv_new as_list_new)
  have inv': "as_inv (snd (AddressStack_pops n s))" if "as_inv s" for n s
    using that by (induction n s rule: AddressStack_pops.induct)
      (auto simp: Let_def dest: ast.invar_pop split: prod.splits)
  show ?thesis
    using AddressStack_pops_spec [OF inv, of "length as"] l ast.pop_Nil [OF inv' [OF inv]] by simp
qed

end
