(* ===== verification/PageAlloc.thy ===== *)
theory PageAlloc
  imports Prelude "HOL-Library.Word"
begin

unbundle bit_operations_syntax

text \<open>
  Physical pages: the bitmap of Kernel/Shared/memory/bitmap/bitmap.hpp, the allocator over it
  (Kernel/Shared/memory/bitmap/BitmapPageAllocator.cpp), the page counters around it
  (Kernel/Kernel/memory/physical/PPallocator.cpp) and the reference counts of shared pages
  (Kernel/Kernel/memory/physical/PPreferenceTracker.cpp). A set bit is a free page.
\<close>

section \<open>Bitmap\<close>

definition PAGE_SIZE :: u32 where
  "PAGE_SIZE = 0x1000"

definition BITMAP_LENGTH :: nat where
  "BITMAP_LENGTH = 1024 * 1024"

definition BITMAP_BITS_PER_ENTRY :: u32 where
  "BITMAP_BITS_PER_ENTRY = 8"

definition ADDRESS_TO_BITMAP_INDEX :: "u32 \<Rightarrow> u32" where
  "ADDRESS_TO_BITMAP_INDEX address = (address div PAGE_SIZE) div BITMAP_BITS_PER_ENTRY"

definition ADDRESS_TO_BITMAP_BIT :: "u32 \<Rightarrow> u32" where
  "ADDRESS_TO_BITMAP_BIT address = (address div PAGE_SIZE) mod BITMAP_BITS_PER_ENTRY"

definition BITMAP_TO_ADDRESS :: "u32 \<Rightarrow> u32 \<Rightarrow> u32" where
  "BITMAP_TO_ADDRESS i b = (i * BITMAP_BITS_PER_ENTRY * PAGE_SIZE) + (b * PAGE_SIZE)"

text \<open>
  The entries are bytes, the shifted mask is an \<open>int\<close>: the entry is promoted, combined and, in the
  assignments, truncated to a byte again.
\<close>

definition BITMAP_IS_SET :: "u8 list \<Rightarrow> nat \<Rightarrow> nat \<Rightarrow> bool" where
  "BITMAP_IS_SET bitmap i b \<longleftrightarrow> (ucast (bitmap ! i) :: u32) AND push_bit b 1 \<noteq> 0"

definition BITMAP_SET :: "u8 list \<Rightarrow> nat \<Rightarrow> nat \<Rightarrow> u8 list" where
  "BITMAP_SET bitmap i b = bitmap[i := ucast ((ucast (bitmap ! i) :: u32) OR push_bit b 1)]"

definition BITMAP_UNSET :: "u8 list \<Rightarrow> nat \<Rightarrow> nat \<Rightarrow> u8 list" where
  "BITMAP_UNSET bitmap i b = bitmap[i := ucast ((ucast (bitmap ! i) :: u32) AND NOT (push_bit b 1))]"

section \<open>BitMapPageAllocator\<close>

text \<open>
  The length of the bitmap is that of the list, \<open>BITMAP_LENGTH\<close> in the kernel; the theorems hold
  for every length up to it.
\<close>

definition BitMapPageAllocator_initialize :: "u8 list" where
  "BitMapPageAllocator_initialize = replicate BITMAP_LENGTH 0"

definition BitMapPageAllocator_markFree :: "u8 list \<Rightarrow> u32 \<Rightarrow> u8 list" where
  "BitMapPageAllocator_markFree bitmap address =
     BITMAP_SET bitmap (unat (ADDRESS_TO_BITMAP_INDEX address)) (unat (ADDRESS_TO_BITMAP_BIT address))"

text \<open>The inner loop over the bits of entry \<open>i\<close>, from bit \<open>b\<close>.\<close>

function scan_bits :: "u8 list \<Rightarrow> nat \<Rightarrow> nat \<Rightarrow> nat option" where
  "scan_bits bitmap i b =
     (if b < unat BITMAP_BITS_PER_ENTRY
      then (if BITMAP_IS_SET bitmap i b then Some b else scan_bits bitmap i (Suc b))
      else None)"
  by pat_completeness auto
termination
  by (relation "measure (\<lambda>(bitmap, i, b). 8 - b)") (auto simp: BITMAP_BITS_PER_ENTRY_def)

text \<open>The outer loop over the entries, from entry \<open>i\<close>.\<close>

function scan_entries :: "u8 list \<Rightarrow> nat \<Rightarrow> (nat \<times> nat) option" where
  "scan_entries bitmap i =
     (if i < length bitmap
      then (if bitmap ! i > 0
            then (case scan_bits bitmap i 0 of Some b \<Rightarrow> Some (i, b) | None \<Rightarrow> scan_entries bitmap (Suc i))
            else scan_entries bitmap (Suc i))
      else None)"
  by pat_completeness auto
termination
  by (relation "measure (\<lambda>(bitmap, i). length bitmap - i)") auto

definition BitMapPageAllocator_allocate :: "u8 list \<Rightarrow> u32 \<times> u8 list" where
  "BitMapPageAllocator_allocate bitmap =
     (case scan_entries bitmap 0 of
        Some (i, b) \<Rightarrow> (BITMAP_TO_ADDRESS (of_nat i) (of_nat b), BITMAP_UNSET bitmap i b)
      | None \<Rightarrow> (0, bitmap))"

section \<open>PPallocator\<close>

record ppallocator =
  pp_freePageCount :: u32
  pp_initialAmount :: u32
  pp_bitmap :: "u8 list"

text \<open>The counting loop over all entries and bits.\<close>

definition count_free :: "u8 list \<Rightarrow> nat" where
  "count_free bitmap =
     (\<Sum>i \<leftarrow> [0..<length bitmap]. \<Sum>b \<leftarrow> [0..<unat BITMAP_BITS_PER_ENTRY]. if BITMAP_IS_SET bitmap i b then 1 else 0)"

definition PPallocator_initializeFromBitmap :: "ppallocator \<Rightarrow> u8 list \<Rightarrow> ppallocator kres" where
  "PPallocator_initializeFromBitmap pp given =
     (if length given = BITMAP_LENGTH
      then let free = pp_freePageCount pp + of_nat (count_free given)
           in Inr (pp\<lparr>pp_freePageCount := free, pp_initialAmount := free, pp_bitmap := given\<rparr>)
      else Inl (Panic ''bitmap has wrong length''))"

definition PPallocator_allocate :: "ppallocator \<Rightarrow> (u32 \<times> ppallocator) kres" where
  "PPallocator_allocate pp =
     (let (page, bm) = BitMapPageAllocator_allocate (pp_bitmap pp) in
      if page = 0 then Inl (Panic ''out of physical memory'')
      else Inr (page, pp\<lparr>pp_freePageCount := pp_freePageCount pp - 1, pp_bitmap := bm\<rparr>))"

definition PPallocator_free :: "ppallocator \<Rightarrow> u32 \<Rightarrow> ppallocator" where
  "PPallocator_free pp page =
     pp\<lparr>pp_freePageCount := pp_freePageCount pp + 1,
        pp_bitmap := BitMapPageAllocator_markFree (pp_bitmap pp) page\<rparr>"

definition PPallocator_getInitialAmount :: "ppallocator \<Rightarrow> u32" where
  "PPallocator_getInitialAmount pp = pp_initialAmount pp"

definition PPallocator_getFreePageCount :: "ppallocator \<Rightarrow> u32" where
  "PPallocator_getFreePageCount pp = pp_freePageCount pp"

section \<open>PPreferenceTracker\<close>

text \<open>
  1024 tables of 1024 counters, made on the first increment of an address they cover.
\<close>

type_synonym refdir = "u32 \<rightharpoonup> (u32 \<Rightarrow> 16 word)"

definition TABLE_IN_DIRECTORY_INDEX :: "u32 \<Rightarrow> u32" where
  "TABLE_IN_DIRECTORY_INDEX address = (address div PAGE_SIZE) div 1024"

definition PAGE_IN_TABLE_INDEX :: "u32 \<Rightarrow> u32" where
  "PAGE_IN_TABLE_INDEX address = (address div PAGE_SIZE) mod 1024"

definition PPreferenceTracker_increment :: "refdir \<Rightarrow> u32 \<Rightarrow> refdir" where
  "PPreferenceTracker_increment tables address =
     (let ti = TABLE_IN_DIRECTORY_INDEX address; pi = PAGE_IN_TABLE_INDEX address;
          t = (case tables ti of None \<Rightarrow> (\<lambda>_. 0) | Some t \<Rightarrow> t)
      in tables(ti \<mapsto> t(pi := t pi + 1)))"

definition PPreferenceTracker_decrement :: "refdir \<Rightarrow> u32 \<Rightarrow> 16 word \<times> refdir" where
  "PPreferenceTracker_decrement tables address =
     (let ti = TABLE_IN_DIRECTORY_INDEX address; pi = PAGE_IN_TABLE_INDEX address
      in case tables ti of
           None \<Rightarrow> (0, tables)
         | Some t \<Rightarrow> (t pi - 1, tables(ti \<mapsto> t(pi := t pi - 1))))"

section \<open>Page numbers\<close>

text \<open>The pages a bitmap marks free, by page number.\<close>

definition free_pages :: "u8 list \<Rightarrow> nat set" where
  "free_pages bitmap = {p. p div 8 < length bitmap \<and> bit (bitmap ! (p div 8)) (p mod 8)}"

lemma BITMAP_IS_SET_bit: "BITMAP_IS_SET bitmap i b \<longleftrightarrow> bit (bitmap ! i) b"
proof -
  have "bit (ucast (bitmap ! i) :: u32) b \<longleftrightarrow> bit (bitmap ! i) b"
    using bit_imp_le_length [of "bitmap ! i" b] by (auto simp: bit_ucast_iff)
  then show ?thesis by (simp add: BITMAP_IS_SET_def bit_iff_and_push_bit_not_eq_0)
qed

lemma bit_BITMAP_SET:
  assumes "i < length bitmap" and "b < 8" and "c < 8"
  shows "bit (BITMAP_SET bitmap i b ! j) c \<longleftrightarrow> bit (bitmap ! j) c \<or> (j = i \<and> c = b)"
  using assms
  by (auto simp: BITMAP_SET_def nth_list_update bit_ucast_iff bit_or_iff bit_exp_iff)

lemma bit_BITMAP_UNSET:
  assumes "i < length bitmap" and "b < 8" and "c < 8"
  shows "bit (BITMAP_UNSET bitmap i b ! j) c \<longleftrightarrow> bit (bitmap ! j) c \<and> \<not> (j = i \<and> c = b)"
  using assms
  by (auto simp: BITMAP_UNSET_def nth_list_update bit_ucast_iff bit_and_iff bit_not_iff bit_exp_iff)

lemma page_index: "b < 8 \<Longrightarrow> (p div 8 = i \<and> p mod 8 = b) \<longleftrightarrow> p = 8 * i + (b :: nat)"
  by auto

lemma length_BITMAP_SET [simp]: "length (BITMAP_SET bitmap i b) = length bitmap"
  by (simp add: BITMAP_SET_def)

lemma length_BITMAP_UNSET [simp]: "length (BITMAP_UNSET bitmap i b) = length bitmap"
  by (simp add: BITMAP_UNSET_def)

lemma free_pages_SET:
  assumes "i < length bitmap" and "b < 8"
  shows "free_pages (BITMAP_SET bitmap i b) = insert (8 * i + b) (free_pages bitmap)"
  using assms by (auto simp: free_pages_def bit_BITMAP_SET)

lemma free_pages_UNSET:
  assumes "i < length bitmap" and "b < 8"
  shows "free_pages (BITMAP_UNSET bitmap i b) = free_pages bitmap - {8 * i + b}"
  using assms by (auto simp: free_pages_def bit_BITMAP_UNSET)

lemma finite_free_pages [simp]: "finite (free_pages bitmap)"
proof (rule finite_subset)
  show "free_pages bitmap \<subseteq> {..<8 * length bitmap}" by (auto simp: free_pages_def)
qed simp

lemma unat_index: "unat (ADDRESS_TO_BITMAP_INDEX a) = unat a div 4096 div 8"
  by (simp add: ADDRESS_TO_BITMAP_INDEX_def PAGE_SIZE_def BITMAP_BITS_PER_ENTRY_def unat_div)

lemma unat_bit: "unat (ADDRESS_TO_BITMAP_BIT a) = unat a div 4096 mod 8"
  by (simp add: ADDRESS_TO_BITMAP_BIT_def PAGE_SIZE_def BITMAP_BITS_PER_ENTRY_def unat_div unat_mod)

lemma free_pages_markFree:
  assumes "unat a div 4096 div 8 < length bitmap"
  shows "free_pages (BitMapPageAllocator_markFree bitmap a) = insert (unat a div 4096) (free_pages bitmap)"
  using free_pages_SET [OF assms, of "unat a div 4096 mod 8"]
  by (simp add: BitMapPageAllocator_markFree_def unat_index unat_bit)

section \<open>The search\<close>

declare scan_bits.simps [simp del] scan_entries.simps [simp del]

lemma scan_bits_Some:
  "scan_bits bitmap i b = Some c \<Longrightarrow>
     b \<le> c \<and> c < 8 \<and> bit (bitmap ! i) c \<and> (\<forall>d. b \<le> d \<and> d < c \<longrightarrow> \<not> bit (bitmap ! i) d)"
proof (induction bitmap i b rule: scan_bits.induct)
  case (1 bitmap i b)
  show ?case
  proof (cases "b < 8 \<and> \<not> bit (bitmap ! i) b")
    case True
    with "1.IH" "1.prems" have "Suc b \<le> c \<and> c < 8 \<and> bit (bitmap ! i) c \<and>
        (\<forall>d. Suc b \<le> d \<and> d < c \<longrightarrow> \<not> bit (bitmap ! i) d)"
      by (simp add: scan_bits.simps [of bitmap i b] BITMAP_IS_SET_bit BITMAP_BITS_PER_ENTRY_def)
    with True show ?thesis by (metis Suc_leD le_neq_implies_less Suc_leI)
  next
    case False
    with "1.prems" show ?thesis
      by (auto simp: scan_bits.simps [of bitmap i b] BITMAP_IS_SET_bit BITMAP_BITS_PER_ENTRY_def
          split: if_splits)
  qed
qed

lemma scan_bits_None:
  "scan_bits bitmap i b = None \<Longrightarrow> \<forall>d. b \<le> d \<and> d < 8 \<longrightarrow> \<not> bit (bitmap ! i) d"
proof (induction bitmap i b rule: scan_bits.induct)
  case (1 bitmap i b)
  then show ?case
    by (auto simp: scan_bits.simps [of bitmap i b] BITMAP_IS_SET_bit BITMAP_BITS_PER_ENTRY_def
        split: if_splits) (metis Suc_leI le_neq_implies_less)
qed

lemma zero_no_bits: "\<not> 0 < (w :: u8) \<Longrightarrow> \<not> bit w d"
  by (simp add: word_gt_0)

lemma scan_entries_Some:
  "scan_entries bitmap i = Some (j, c) \<Longrightarrow>
     i \<le> j \<and> j < length bitmap \<and> c < 8 \<and> bit (bitmap ! j) c \<and>
     (\<forall>d < c. \<not> bit (bitmap ! j) d) \<and> (\<forall>k d. i \<le> k \<and> k < j \<longrightarrow> \<not> bit (bitmap ! k) d)"
proof (induction bitmap i rule: scan_entries.induct)
  case (1 bitmap i)
  have i: "i < length bitmap"
    using "1.prems" by (auto simp: scan_entries.simps [of bitmap i] split: if_splits)
  show ?case
  proof (cases "0 < bitmap ! i \<and> scan_bits bitmap i 0 \<noteq> None")
    case True
    then obtain b where b: "scan_bits bitmap i 0 = Some b" by blast
    with True i "1.prems" have "j = i" "c = b" by (simp_all add: scan_entries.simps [of bitmap i])
    with scan_bits_Some [OF b] i show ?thesis by auto
  next
    case False
    have none: "\<not> bit (bitmap ! i) d" for d
    proof (cases "d < 8")
      case True
      with False scan_bits_None [of bitmap i 0] zero_no_bits show ?thesis by blast
    next
      case False
      then show ?thesis using bit_imp_le_length [of "bitmap ! i" d] by auto
    qed
    have rec: "scan_entries bitmap (Suc i) = Some (j, c)"
      using False i "1.prems"
      by (auto simp: scan_entries.simps [of bitmap i] split: if_splits option.splits)
    have "Suc i \<le> j \<and> j < length bitmap \<and> c < 8 \<and> bit (bitmap ! j) c \<and>
     (\<forall>d < c. \<not> bit (bitmap ! j) d) \<and> (\<forall>k d. Suc i \<le> k \<and> k < j \<longrightarrow> \<not> bit (bitmap ! k) d)"
      using "1.IH" [OF i] rec False by (cases "0 < bitmap ! i") auto
    with none show ?thesis by (metis Suc_leD Suc_leI le_neq_implies_less)
  qed
qed

lemma scan_entries_None:
  "scan_entries bitmap i = None \<Longrightarrow> \<forall>k d. i \<le> k \<and> k < length bitmap \<longrightarrow> \<not> bit (bitmap ! k) d"
proof (induction bitmap i rule: scan_entries.induct)
  case (1 bitmap i)
  show ?case
  proof (cases "i < length bitmap")
    case True
    have none: "\<not> bit (bitmap ! i) d" for d
    proof (cases "d < 8 \<and> 0 < bitmap ! i")
      case True
      with \<open>i < length bitmap\<close> "1.prems" have "scan_bits bitmap i 0 = None"
        by (auto simp: scan_entries.simps [of bitmap i] split: option.splits)
      with True scan_bits_None show ?thesis by blast
    next
      case False
      then show ?thesis using bit_imp_le_length [of "bitmap ! i" d] zero_no_bits by auto
    qed
    have "scan_entries bitmap (Suc i) = None"
      using True "1.prems" by (auto simp: scan_entries.simps [of bitmap i] split: if_splits option.splits)
    with "1.IH" [OF True] True "1.prems"
    have "\<forall>k d. Suc i \<le> k \<and> k < length bitmap \<longrightarrow> \<not> bit (bitmap ! k) d"
      by (cases "0 < bitmap ! i") (auto simp: scan_entries.simps [of bitmap i] split: option.splits)
    with none show ?thesis by (metis Suc_leI le_neq_implies_less)
  qed auto
qed

lemma page_order:
  fixes p :: nat
  assumes "\<not> 8 * i + b \<le> p" and "b < 8"
  shows "p div 8 < i \<or> (p div 8 = i \<and> p mod 8 < b)"
proof -
  have "8 * (p div 8) + p mod 8 < 8 * i + b" using assms by simp
  then show ?thesis using assms by (cases "p div 8" i rule: linorder_cases) auto
qed

text \<open>\<open>allocate\<close> takes the lowest free page and nothing else.\<close>

lemma scan_entries_lowest:
  assumes "scan_entries bitmap 0 = Some (i, b)"
  shows "8 * i + b = Min (free_pages bitmap)" "8 * i + b \<in> free_pages bitmap" "i < length bitmap" "b < 8"
proof -
  note f = scan_entries_Some [OF assms]
  then show "i < length bitmap" "b < 8" by blast+
  show m: "8 * i + b \<in> free_pages bitmap" using f by (simp add: free_pages_def)
  have "8 * i + b \<le> p" if "p \<in> free_pages bitmap" for p
  proof (rule ccontr)
    assume "\<not> 8 * i + b \<le> p"
    then have "p div 8 < i \<or> (p div 8 = i \<and> p mod 8 < b)" using f by (intro page_order) simp_all
    with f that show False by (auto simp: free_pages_def)
  qed
  with m show "8 * i + b = Min (free_pages bitmap)" by (intro Min_eqI [symmetric]) auto
qed

lemma scan_entries_None_iff: "scan_entries bitmap 0 = None \<longleftrightarrow> free_pages bitmap = {}"
proof
  assume "scan_entries bitmap 0 = None"
  then show "free_pages bitmap = {}" using scan_entries_None by (auto simp: free_pages_def)
next
  assume "free_pages bitmap = {}"
  then show "scan_entries bitmap 0 = None"
    using scan_entries_lowest(2) by (cases "scan_entries bitmap 0") force+
qed

lemma BITMAP_TO_ADDRESS_page:
  assumes "b < 8"
  shows "BITMAP_TO_ADDRESS (of_nat i) (of_nat b) = of_nat ((8 * i + b) * 4096)"
  by (simp add: BITMAP_TO_ADDRESS_def BITMAP_BITS_PER_ENTRY_def PAGE_SIZE_def algebra_simps)

lemma BitMapPageAllocator_allocate_spec:
  assumes "free_pages bitmap \<noteq> {}"
  shows "fst (BitMapPageAllocator_allocate bitmap) = of_nat (Min (free_pages bitmap) * 4096)"
    "free_pages (snd (BitMapPageAllocator_allocate bitmap)) = free_pages bitmap - {Min (free_pages bitmap)}"
    "length (snd (BitMapPageAllocator_allocate bitmap)) = length bitmap"
proof -
  obtain i b where s: "scan_entries bitmap 0 = Some (i, b)"
    using assms scan_entries_None_iff by (metis option.exhaust surj_pair)
  note l = scan_entries_lowest [OF s]
  show "fst (BitMapPageAllocator_allocate bitmap) = of_nat (Min (free_pages bitmap) * 4096)"
    using s BITMAP_TO_ADDRESS_page [OF l(4), of i] l(1) by (simp add: BitMapPageAllocator_allocate_def)
  show "free_pages (snd (BitMapPageAllocator_allocate bitmap)) = free_pages bitmap - {Min (free_pages bitmap)}"
    using s free_pages_UNSET [OF l(3,4)] l(1) by (simp add: BitMapPageAllocator_allocate_def)
  show "length (snd (BitMapPageAllocator_allocate bitmap)) = length bitmap"
    using s by (simp add: BitMapPageAllocator_allocate_def)
qed

section \<open>Counting\<close>

lemma card_page_range: "{p. p div 8 < Suc n \<and> Q p} = {p. p div 8 < n \<and> Q p} \<union> ((+) (8 * n)) ` {b. b < 8 \<and> Q (8 * n + b)}"
proof (intro set_eqI iffI)
  fix p :: nat
  assume "p \<in> {p. p div 8 < Suc n \<and> Q p}"
  then have q: "p div 8 < Suc n" "Q p" by auto
  show "p \<in> {p. p div 8 < n \<and> Q p} \<union> ((+) (8 * n)) ` {b. b < 8 \<and> Q (8 * n + b)}"
  proof (cases "p div 8 < n")
    case False
    with q(1) have "p div 8 = n" by simp
    then have "p = 8 * n + p mod 8" by (metis mult_div_mod_eq)
    with q(2) have "p = 8 * n + p mod 8 \<and> p mod 8 \<in> {b. b < 8 \<and> Q (8 * n + b)}" by simp
    then show ?thesis by blast
  qed (use q in blast)
qed auto

lemma sum_list_if_card: "(\<Sum>b \<leftarrow> [0..<n]. if P b then 1 else 0) = card {b. b < n \<and> P b}"
proof (induction n)
  case (Suc n)
  have "{b. b < Suc n \<and> P b} = (if P n then insert n {b. b < n \<and> P b} else {b. b < n \<and> P b})"
    using less_Suc_eq by auto
  with Suc show ?case by simp
qed simp

lemma count_free_card: "count_free bitmap = card (free_pages bitmap)"
proof -
  let ?Q = "\<lambda>p. bit (bitmap ! (p div 8)) (p mod 8)"
  have "(\<Sum>i \<leftarrow> [0..<n]. \<Sum>b \<leftarrow> [0..<8]. if BITMAP_IS_SET bitmap i b then 1 else 0)
          = card {p. p div 8 < n \<and> ?Q p}" for n
  proof (induction n)
    case (Suc n)
    let ?A = "{p. p div 8 < n \<and> ?Q p}" and ?B = "((+) (8 * n)) ` {b. b < 8 \<and> ?Q (8 * n + b)}"
    have "finite ?A" by (rule finite_subset [of _ "{..<8 * n}"]) auto
    moreover have "?A \<inter> ?B = {}" by auto
    ultimately have "card {p. p div 8 < Suc n \<and> ?Q p} = card ?A + card ?B"
      by (simp add: card_page_range card_Un_disjoint)
    moreover have "card ?B = card {b. b < 8 \<and> bit (bitmap ! n) b}"
      by (subst card_image) (auto intro!: arg_cong [where f = card])
    ultimately show ?case using Suc by (simp add: sum_list_if_card BITMAP_IS_SET_bit)
  qed simp
  from this [of "length bitmap"] show ?thesis
    by (simp add: count_free_def free_pages_def BITMAP_BITS_PER_ENTRY_def)
qed

section \<open>The allocator with its counters\<close>

text \<open>
  The counter is the number of free pages, no free page lies outside the 32 bit address space
  (the bitmap has room for eight times as many), and page 0 is not free.
\<close>

definition pp_inv :: "ppallocator \<Rightarrow> bool" where
  "pp_inv pp \<longleftrightarrow>
     unat (pp_freePageCount pp) = card (free_pages (pp_bitmap pp)) \<and>
     free_pages (pp_bitmap pp) \<subseteq> {0<..<2 ^ 20} \<and> 2 ^ 17 \<le> length (pp_bitmap pp)"

lemma unat_page_address: "p < 2 ^ 20 \<Longrightarrow> unat (of_nat (p * 4096) :: u32) = p * 4096"
  by (subst unat_of_nat) simp

lemma PPallocator_allocate_Inr:
  assumes "pp_inv pp" and "free_pages (pp_bitmap pp) \<noteq> {}"
  shows "\<exists>page pp'. PPallocator_allocate pp = Inr (page, pp') \<and>
           unat page = Min (free_pages (pp_bitmap pp)) * 4096 \<and> page \<noteq> 0 \<and>
           free_pages (pp_bitmap pp') = free_pages (pp_bitmap pp) - {unat page div 4096} \<and>
           pp_inv pp' \<and> pp_freePageCount pp' = pp_freePageCount pp - 1 \<and>
           pp_initialAmount pp' = pp_initialAmount pp"
proof -
  let ?F = "free_pages (pp_bitmap pp)" and ?bm = "snd (BitMapPageAllocator_allocate (pp_bitmap pp))"
  let ?page = "fst (BitMapPageAllocator_allocate (pp_bitmap pp))"
  note spec = BitMapPageAllocator_allocate_spec [OF assms(2)]
  have mem: "Min ?F \<in> ?F" using assms(2) by simp
  with assms(1) have m: "0 < Min ?F" "Min ?F < 2 ^ 20" unfolding pp_inv_def by auto
  then have page: "unat ?page = Min ?F * 4096" using spec(1) unat_page_address by simp
  then have nz: "?page \<noteq> 0" using m by auto
  have pos: "0 < card ?F" using assms(2) by (simp add: card_gt_0_iff)
  have "1 \<le> pp_freePageCount pp"
    using assms(1) pos by (simp add: pp_inv_def word_le_nat_alt)
  then have "unat (pp_freePageCount pp - 1) = card ?F - 1"
    using assms(1) by (simp add: unat_sub pp_inv_def)
  then have "pp_inv (pp\<lparr>pp_freePageCount := pp_freePageCount pp - 1, pp_bitmap := ?bm\<rparr>)"
    using assms(1) spec mem by (auto simp: pp_inv_def card_Diff_singleton)
  then show ?thesis
    using page nz spec by (simp add: PPallocator_allocate_def split_beta)
qed

lemma PPallocator_allocate_Inl:
  "free_pages (pp_bitmap pp) = {} \<Longrightarrow> PPallocator_allocate pp = Inl (Panic ''out of physical memory'')"
  using scan_entries_None_iff [of "pp_bitmap pp"]
  by (simp add: PPallocator_allocate_def BitMapPageAllocator_allocate_def)

text \<open>
  C3. With its invariant (the counter is the number of free pages and every free page is a nonzero
  page of the 32 bit address space), \<open>PPallocator::allocate\<close> panics exactly when no page is free;
  otherwise it returns the page-aligned, nonzero address of the lowest free page, marks that page
  and no other as used and keeps the invariant.
\<close>

theorem page_allocate_lowest_free:
  assumes "pp_inv pp"
  shows "case PPallocator_allocate pp of
      Inl e \<Rightarrow> free_pages (pp_bitmap pp) = {} \<and> e = Panic ''out of physical memory''
    | Inr (page, pp') \<Rightarrow>
        page \<noteq> 0 \<and> page mod PAGE_SIZE = 0 \<and> unat page div 4096 = Min (free_pages (pp_bitmap pp)) \<and>
        unat page div 4096 \<in> free_pages (pp_bitmap pp) \<and>
        free_pages (pp_bitmap pp') = free_pages (pp_bitmap pp) - {unat page div 4096} \<and> pp_inv pp'"
proof (cases "free_pages (pp_bitmap pp) = {}")
  case True
  then show ?thesis by (simp add: PPallocator_allocate_Inl)
next
  case False
  obtain page pp' where a: "PPallocator_allocate pp = Inr (page, pp')"
      "unat page = Min (free_pages (pp_bitmap pp)) * 4096" "page \<noteq> 0" "pp_inv pp'"
      "free_pages (pp_bitmap pp') = free_pages (pp_bitmap pp) - {unat page div 4096}"
    using PPallocator_allocate_Inr [OF assms False] by blast
  have "page mod PAGE_SIZE = 0"
    using a(2) by (simp add: word_unat_eq_iff unat_mod PAGE_SIZE_def)
  moreover have "Min (free_pages (pp_bitmap pp)) \<in> free_pages (pp_bitmap pp)" using False by simp
  ultimately show ?thesis using a by simp
qed

lemma free_pages_replicate: "free_pages (replicate n 0) = {}"
  by (auto simp: free_pages_def)

definition one_page :: ppallocator where
  "one_page = \<lparr>pp_freePageCount = 1, pp_initialAmount = 1,
     pp_bitmap = BitMapPageAllocator_markFree (replicate 131072 0) 0x1000\<rparr>"

lemma one_page_free: "free_pages (pp_bitmap one_page) = {1}"
  using free_pages_markFree [of "0x1000" "replicate 131072 0"]
  by (simp add: one_page_def free_pages_replicate)

lemma one_page_inv: "pp_inv one_page"
  using one_page_free by (simp add: pp_inv_def) (simp add: one_page_def BitMapPageAllocator_markFree_def)

theorem page_allocate_lowest_free_witness:
  "\<exists>pp'. PPallocator_allocate one_page = Inr (0x1000, pp') \<and> free_pages (pp_bitmap pp') = {}"
proof -
  obtain page pp' where "PPallocator_allocate one_page = Inr (page, pp')"
    using page_allocate_lowest_free [OF one_page_inv] one_page_free
    by (auto split: sum.splits)
  moreover from this have "unat page = 4096" "free_pages (pp_bitmap pp') = {}"
    using PPallocator_allocate_Inr [OF one_page_inv] one_page_free by auto
  moreover from this have "page = 0x1000" by (simp add: word_unat_eq_iff)
  ultimately show ?thesis by blast
qed

lemma BITMAP_SET_UNSET:
  assumes "i < length bitmap" and "b < 8" and "bit (bitmap ! i) b"
  shows "BITMAP_SET (BITMAP_UNSET bitmap i b) i b = bitmap"
proof (rule nth_equalityI)
  fix j
  have "bit (BITMAP_SET (BITMAP_UNSET bitmap i b) i b ! j) c = bit (bitmap ! j) c" if "c < 8" for c
    using assms that by (auto simp: bit_BITMAP_SET bit_BITMAP_UNSET)
  then show "BITMAP_SET (BITMAP_UNSET bitmap i b) i b ! j = bitmap ! j"
    by (intro bit_word_eqI) simp
qed simp

text \<open>
  Freeing the page just allocated restores the allocator exactly: bitmap and counters are
  those before the allocation.
\<close>

theorem page_allocate_free_roundtrip:
  assumes "pp_inv pp" and "PPallocator_allocate pp = Inr (page, pp')"
  shows "PPallocator_free pp' page = pp"
proof -
  obtain i b where s: "scan_entries (pp_bitmap pp) 0 = Some (i, b)"
    using assms(2) by (cases "scan_entries (pp_bitmap pp) 0")
      (auto simp: PPallocator_allocate_def BitMapPageAllocator_allocate_def)
  note l = scan_entries_lowest [OF s]
  have pp': "pp' = pp\<lparr>pp_freePageCount := pp_freePageCount pp - 1, pp_bitmap := BITMAP_UNSET (pp_bitmap pp) i b\<rparr>"
    and page: "page = of_nat ((8 * i + b) * 4096)"
    using assms(2) s BITMAP_TO_ADDRESS_page [OF l(4), of i]
    by (auto simp: PPallocator_allocate_def BitMapPageAllocator_allocate_def split: if_splits)
  have "8 * i + b < 2 ^ 20" using l(2) assms(1) unfolding pp_inv_def by auto
  then have "unat page = (8 * i + b) * 4096" unfolding page by (rule unat_page_address)
  then have "unat page div 4096 = 8 * i + b" by simp
  then have "unat (ADDRESS_TO_BITMAP_INDEX page) = i" "unat (ADDRESS_TO_BITMAP_BIT page) = b"
    using l(4) by (simp_all add: unat_index unat_bit)
  moreover have "bit (pp_bitmap pp ! i) b" using scan_entries_Some [OF s] by blast
  ultimately show ?thesis
    using BITMAP_SET_UNSET [OF l(3,4)] by (simp add: PPallocator_free_def pp' BitMapPageAllocator_markFree_def)
qed

theorem page_allocate_free_roundtrip_witness:
  "\<exists>page pp'. PPallocator_allocate one_page = Inr (page, pp') \<and> PPallocator_free pp' page = one_page"
proof -
  obtain page pp' where "PPallocator_allocate one_page = Inr (page, pp')"
    using PPallocator_allocate_Inr [OF one_page_inv] one_page_free by auto
  with page_allocate_free_roundtrip [OF one_page_inv] show ?thesis by blast
qed

section \<open>Reference counts\<close>

definition ref_count :: "refdir \<Rightarrow> u32 \<Rightarrow> 16 word" where
  "ref_count tables address =
     (case tables (TABLE_IN_DIRECTORY_INDEX address) of
        None \<Rightarrow> 0 | Some t \<Rightarrow> t (PAGE_IN_TABLE_INDEX address))"

lemma same_page_iff:
  "TABLE_IN_DIRECTORY_INDEX a = TABLE_IN_DIRECTORY_INDEX b \<and> PAGE_IN_TABLE_INDEX a = PAGE_IN_TABLE_INDEX b
     \<longleftrightarrow> a div PAGE_SIZE = b div PAGE_SIZE"
proof -
  let ?a = "a div PAGE_SIZE" and ?b = "b div PAGE_SIZE"
  have "?a div 1024 = ?b div 1024 \<and> ?a mod 1024 = ?b mod 1024 \<longrightarrow> ?a = ?b"
    by (metis div_mult_mod_eq)
  then show ?thesis by (auto simp: TABLE_IN_DIRECTORY_INDEX_def PAGE_IN_TABLE_INDEX_def)
qed

lemma ref_count_increment:
  "ref_count (PPreferenceTracker_increment tables a) b =
     ref_count tables b + (if a div PAGE_SIZE = b div PAGE_SIZE then 1 else 0)"
  using same_page_iff [of a b]
  by (auto simp: ref_count_def PPreferenceTracker_increment_def Let_def split: option.splits)

lemma ref_count_decrement:
  "ref_count (snd (PPreferenceTracker_decrement (PPreferenceTracker_increment tables a) a)) b = ref_count tables b"
  "fst (PPreferenceTracker_decrement (PPreferenceTracker_increment tables a) a) = ref_count tables a"
  using same_page_iff [of a b]
  by (auto simp: ref_count_def PPreferenceTracker_increment_def PPreferenceTracker_decrement_def Let_def
      split: option.splits)

end
