(* ===== verification/Paging.thy ===== *)
theory Paging
  imports AddressStack PageAlloc
begin

unbundle bit_operations_syntax

text \<open>
  The kernel's view of the page tables (Kernel/Kernel/memory/AddressSpace.cpp,
  Kernel/Kernel/memory/TemporaryPagingUtil.cpp). Physical memory is a store of 1024 words per page;
  every access the code makes through a virtual address walks the page directory in \<open>cr3\<close> as the
  32 bit MMU does, so that the recursive mapping of the directory in the last 4 MB, which the code
  relies on, is not assumed but computed. The TLB is not modelled.
\<close>

section \<open>Memory and the page walk\<close>

record paging =
  pg_cr3 :: u32
  pg_mem :: "u32 \<Rightarrow> u32 \<Rightarrow> u32"
  pg_pp :: ppallocator
  pg_temp :: address_stack

definition PAGE_ALIGN_MASK :: u32 where
  "PAGE_ALIGN_MASK = PAGE_SIZE - 1"

definition PAGE_TABLE_PRESENT :: u32 where
  "PAGE_TABLE_PRESENT = 1"

definition PAGE_TABLE_USERSPACE :: u32 where
  "PAGE_TABLE_USERSPACE = 4"

definition DEFAULT_KERNEL_TABLE_FLAGS :: u32 where
  "DEFAULT_KERNEL_TABLE_FLAGS = 1 OR 2"

definition DEFAULT_KERNEL_PAGE_FLAGS :: u32 where
  "DEFAULT_KERNEL_PAGE_FLAGS = 1 OR 2 OR 128"

definition CONST_RECURSIVE_PAGE_DIRECTORY_AREA :: u32 where
  "CONST_RECURSIVE_PAGE_DIRECTORY_AREA = 0xFFC00000"

definition CONST_RECURSIVE_PAGE_DIRECTORY_ADDRESS :: u32 where
  "CONST_RECURSIVE_PAGE_DIRECTORY_ADDRESS = 0xFFFFF000"

text \<open>Arithmetic on pointers to 32 bit words: \<open>base + i\<close>, which \<open>base[i]\<close> accesses.\<close>

definition word_ptr :: "u32 \<Rightarrow> u32 \<Rightarrow> u32" where
  "word_ptr base i = base + 4 * i"

definition CONST_RECURSIVE_PAGE_TABLE :: "u32 \<Rightarrow> u32" where
  "CONST_RECURSIVE_PAGE_TABLE ti = word_ptr CONST_RECURSIVE_PAGE_DIRECTORY_AREA (0x400 * ti)"

definition CONST_KERNEL_TEMPORARY_VIRTUAL_RANGES_START :: u32 where
  "CONST_KERNEL_TEMPORARY_VIRTUAL_RANGES_START = 0xFFB00000"

definition CONST_KERNEL_TEMPORARY_VIRTUAL_ADDRESS_RANGES_END :: u32 where
  "CONST_KERNEL_TEMPORARY_VIRTUAL_ADDRESS_RANGES_END = 0xFFC00000"

definition frame_of :: "u32 \<Rightarrow> u32" where
  "frame_of e = e AND NOT PAGE_ALIGN_MASK"

definition present :: "u32 \<Rightarrow> bool" where
  "present e \<longleftrightarrow> e AND PAGE_TABLE_PRESENT \<noteq> 0"

text \<open>The physical page and word index a virtual address leads to, or the page fault.\<close>

definition page_walk :: "paging \<Rightarrow> u32 \<Rightarrow> (u32 \<times> u32) kres" where
  "page_walk pg va =
     (let pde = pg_mem pg (pg_cr3 pg) (TABLE_IN_DIRECTORY_INDEX va) in
      if \<not> present pde then Inl (BadPointer va)
      else let pte = pg_mem pg (frame_of pde) (PAGE_IN_TABLE_INDEX va) in
           if \<not> present pte then Inl (BadPointer va)
           else Inr (frame_of pte, (va AND PAGE_ALIGN_MASK) div 4))"

definition read_word :: "paging \<Rightarrow> u32 \<Rightarrow> u32 kres" where
  "read_word pg va = kbind (page_walk pg va) (\<lambda>(frame, i). Inr (pg_mem pg frame i))"

definition write_phys :: "paging \<Rightarrow> u32 \<Rightarrow> u32 \<Rightarrow> u32 \<Rightarrow> paging" where
  "write_phys pg frame i w = pg\<lparr>pg_mem := (pg_mem pg)(frame := (pg_mem pg frame)(i := w))\<rparr>"

definition write_word :: "paging \<Rightarrow> u32 \<Rightarrow> u32 \<Rightarrow> paging kres" where
  "write_word pg va w = kbind (page_walk pg va) (\<lambda>(frame, i). Inr (write_phys pg frame i w))"

text \<open>The loops that set the 1024 words of a table to zero.\<close>

fun clear_words :: "nat \<Rightarrow> paging \<Rightarrow> u32 \<Rightarrow> paging kres" where
  "clear_words 0 pg table = Inr pg"
| "clear_words (Suc n) pg table =
     kbind (clear_words n pg table) (\<lambda>pg. write_word pg (word_ptr table (of_nat n)) 0)"

section \<open>AddressSpace\<close>

text \<open>The branch of \<open>map\<close> that makes a missing table.\<close>

definition create_table :: "paging \<Rightarrow> u32 \<Rightarrow> u32 \<Rightarrow> u32 \<Rightarrow> u32 \<Rightarrow> paging kres" where
  "create_table pg directory table ti tableFlags =
     kbind (PPallocator_allocate (pg_pp pg)) (\<lambda>(newTablePhys, pp).
       if newTablePhys = 0 then Inl (Panic ''no pages left for mapping'')
       else kbind (write_word (pg\<lparr>pg_pp := pp\<rparr>) (word_ptr directory ti) (newTablePhys OR tableFlags))
              (\<lambda>pg. clear_words 1024 pg table))"

definition AddressSpace_map :: "paging \<Rightarrow> u32 \<Rightarrow> u32 \<Rightarrow> u32 \<Rightarrow> u32 \<Rightarrow> bool \<Rightarrow> (bool \<times> paging) kres" where
  "AddressSpace_map pg virtualAddr physicalAddr tableFlags pageFlags allowOverride =
     (if virtualAddr AND PAGE_ALIGN_MASK \<noteq> 0 \<or> physicalAddr AND PAGE_ALIGN_MASK \<noteq> 0
      then Inl (Panic ''tried to map unaligned addresses'')
      else
        let ti = TABLE_IN_DIRECTORY_INDEX virtualAddr;
            pi = PAGE_IN_TABLE_INDEX virtualAddr;
            directory = CONST_RECURSIVE_PAGE_DIRECTORY_ADDRESS;
            table = word_ptr CONST_RECURSIVE_PAGE_DIRECTORY_AREA (0x400 * ti)
        in
        kbind (read_word pg (word_ptr directory ti)) (\<lambda>entry.
        kbind
          (if entry = 0
           then create_table pg directory table ti tableFlags
           else if tableFlags AND PAGE_TABLE_USERSPACE \<noteq> 0 \<and> (entry AND PAGE_ALIGN_MASK) AND PAGE_TABLE_USERSPACE = 0
           then Inl (Panic ''tried to map user page in kernel space table'')
           else Inr pg) (\<lambda>pg.
        kbind (read_word pg (word_ptr table pi)) (\<lambda>old.
          if old = 0 \<or> allowOverride
          then kbind (write_word pg (word_ptr table pi) (physicalAddr OR pageFlags)) (\<lambda>pg. Inr (True, pg))
          else Inr (False, pg)))))"

definition AddressSpace_unmap :: "paging \<Rightarrow> u32 \<Rightarrow> paging kres" where
  "AddressSpace_unmap pg virtualAddress =
     (let ti = TABLE_IN_DIRECTORY_INDEX virtualAddress;
          pi = PAGE_IN_TABLE_INDEX virtualAddress;
          directory = CONST_RECURSIVE_PAGE_DIRECTORY_ADDRESS;
          table = CONST_RECURSIVE_PAGE_TABLE ti
      in kbind (read_word pg (word_ptr directory ti)) (\<lambda>entry.
           if entry = 0 then Inr pg
           else kbind (read_word pg (word_ptr table pi)) (\<lambda>old.
                  if old \<noteq> 0 then write_word pg (word_ptr table pi) 0 else Inr pg)))"

definition AddressSpace_switchToSpace :: "paging \<Rightarrow> u32 \<Rightarrow> paging" where
  "AddressSpace_switchToSpace pg directory = pg\<lparr>pg_cr3 := directory\<rparr>"

definition AddressSpace_getCurrentSpace :: "paging \<Rightarrow> u32" where
  "AddressSpace_getCurrentSpace pg = pg_cr3 pg"

definition AddressSpace_virtualToPhysical :: "paging \<Rightarrow> u32 \<Rightarrow> u32 kres" where
  "AddressSpace_virtualToPhysical pg addr =
     (let ti = TABLE_IN_DIRECTORY_INDEX addr;
          pi = PAGE_IN_TABLE_INDEX addr;
          table = CONST_RECURSIVE_PAGE_TABLE ti
      in if table = 0 then Inr 0
         else kbind (read_word pg (word_ptr table pi)) (\<lambda>entry. Inr (entry AND NOT PAGE_ALIGN_MASK)))"

section \<open>TemporaryPagingUtil\<close>

function temporary_push_loop :: "address_stack \<Rightarrow> nat \<Rightarrow> nat \<Rightarrow> address_stack" where
  "temporary_push_loop s i end' =
     (if i < end' then temporary_push_loop (AddressStack_push s (adr i)) (i + unat PAGE_SIZE) end' else s)"
  by pat_completeness auto
termination
  by (relation "measure (\<lambda>(s, i, end'). end' - i)") (auto simp: PAGE_SIZE_def)

declare temporary_push_loop.simps [simp del]

definition TemporaryPagingUtil_initialize :: "paging \<Rightarrow> paging" where
  "TemporaryPagingUtil_initialize pg =
     (let start = CONST_KERNEL_TEMPORARY_VIRTUAL_RANGES_START;
          end' = CONST_KERNEL_TEMPORARY_VIRTUAL_ADDRESS_RANGES_END
      in pg\<lparr>pg_temp := temporary_push_loop (pg_temp pg) (unat start) (unat end')\<rparr>)"

definition TemporaryPagingUtil_map :: "paging \<Rightarrow> u32 \<Rightarrow> (u32 \<times> paging) kres" where
  "TemporaryPagingUtil_map pg phys =
     (let (virt, s) = AddressStack_pop (pg_temp pg) in
      if virt = 0 then Inl (Panic ''unable to temporary map physical address, no free addresses'')
      else kbind (AddressSpace_map (pg\<lparr>pg_temp := s\<rparr>) virt phys
                    DEFAULT_KERNEL_TABLE_FLAGS DEFAULT_KERNEL_PAGE_FLAGS False)
             (\<lambda>(_, pg). Inr (virt, pg)))"

definition TemporaryPagingUtil_unmap :: "paging \<Rightarrow> u32 \<Rightarrow> paging kres" where
  "TemporaryPagingUtil_unmap pg virt =
     kbind (AddressSpace_unmap pg virt) (\<lambda>pg. Inr (pg\<lparr>pg_temp := AddressStack_push (pg_temp pg) virt\<rparr>))"

definition AddressSpace_mapToTemporaryMappedDirectory ::
    "paging \<Rightarrow> u32 \<Rightarrow> u32 \<Rightarrow> u32 \<Rightarrow> u32 \<Rightarrow> u32 \<Rightarrow> bool \<Rightarrow> paging kres" where
  "AddressSpace_mapToTemporaryMappedDirectory pg directory virtualAddr physicalAddr tableFlags pageFlags allowOverride =
     (if virtualAddr AND PAGE_ALIGN_MASK \<noteq> 0 \<or> physicalAddr AND PAGE_ALIGN_MASK \<noteq> 0
      then Inl (Panic ''tried to map unaligned addresses'')
      else
        let ti = TABLE_IN_DIRECTORY_INDEX virtualAddr; pi = PAGE_IN_TABLE_INDEX virtualAddr in
        kbind (read_word pg (word_ptr directory ti)) (\<lambda>entry.
        kbind
          (if entry = 0
           then kbind (PPallocator_allocate (pg_pp pg)) (\<lambda>(newTablePhys, pp).
                  if newTablePhys = 0 then Inl (Panic ''no pages left for mapping'')
                  else kbind (TemporaryPagingUtil_map (pg\<lparr>pg_pp := pp\<rparr>) newTablePhys) (\<lambda>(table, pg).
                       kbind (clear_words 1024 pg table) (\<lambda>pg.
                       kbind (TemporaryPagingUtil_unmap pg table) (\<lambda>pg.
                         write_word pg (word_ptr directory ti) (newTablePhys OR tableFlags)))))
           else Inr pg) (\<lambda>pg.
        kbind (read_word pg (word_ptr directory ti)) (\<lambda>entry.
        kbind (TemporaryPagingUtil_map pg (entry AND NOT PAGE_ALIGN_MASK)) (\<lambda>(table, pg).
        kbind (read_word pg (word_ptr table pi)) (\<lambda>old.
        kbind (if old = 0 \<or> allowOverride then write_word pg (word_ptr table pi) (physicalAddr OR pageFlags)
               else Inl (Panic ''duplicate mapping'')) (\<lambda>pg.
          TemporaryPagingUtil_unmap pg table))))))) "


section \<open>The recursive mapping\<close>

lemma and_page_mask: "(w :: u32) AND PAGE_ALIGN_MASK = w mod 4096"
proof -
  have "w AND mask 12 = take_bit 12 w" by (simp only: take_bit_eq_mask)
  also have "\<dots> = w mod 2 ^ 12" by (rule take_bit_eq_mod)
  finally show ?thesis by (simp add: PAGE_ALIGN_MASK_def PAGE_SIZE_def mask_eq_exp_minus_1)
qed

lemma unat_recursive_address:
  assumes "t < 1024" and "i < (1024 :: u32)"
  shows "unat (word_ptr (CONST_RECURSIVE_PAGE_TABLE t) i) = 4096 * (1047552 + unat t) + 4 * unat i"
proof -
  have b: "unat t < 1024" "unat i < 1024" using assms by (simp_all add: word_less_nat_alt)
  have t: "unat (4096 * t) = 4096 * unat t" using b by (simp add: unat_word_ariths)
  have i: "unat (4 * i) = 4 * unat i" using b by (simp add: unat_word_ariths)
  show ?thesis
    unfolding word_ptr_def CONST_RECURSIVE_PAGE_TABLE_def CONST_RECURSIVE_PAGE_DIRECTORY_AREA_def
    using b t i by (simp add: unat_add_lem32 del: mult.assoc)
qed

lemma indices_of_address:
  assumes "unat va = 4096 * (1024 * t + p) + 4 * i" and "p < 1024" and "i < 1024"
  shows "TABLE_IN_DIRECTORY_INDEX va = adr t" "PAGE_IN_TABLE_INDEX va = adr p" "(va AND PAGE_ALIGN_MASK) div 4 = adr i"
proof -
  have m: "(4096 * x + y) mod 4096 = y" if "y < (4096 :: nat)" for x y using that by simp
  have d: "unat va div 4096 = 1024 * t + p" "unat va mod 4096 = 4 * i"
    unfolding assms(1) using assms(2,3) m [of "4 * i" "1024 * t + p"] by simp_all
  have "unat va < 2 ^ 32" using unsigned_less [of va] by simp
  then have t: "t < 1024" using assms by auto
  show "TABLE_IN_DIRECTORY_INDEX va = adr t"
    using d assms t by (intro iffD2 [OF word_unat_eq_iff]) (simp add: TABLE_IN_DIRECTORY_INDEX_def PAGE_SIZE_def unat_div unat_adr)
  show "PAGE_IN_TABLE_INDEX va = adr p"
    using d assms t by (intro iffD2 [OF word_unat_eq_iff]) (simp add: PAGE_IN_TABLE_INDEX_def PAGE_SIZE_def unat_div unat_mod unat_adr)
  show "(va AND PAGE_ALIGN_MASK) div 4 = adr i"
    using d assms by (intro iffD2 [OF word_unat_eq_iff]) (simp add: and_page_mask unat_div unat_mod unat_adr)
qed

lemma indices_recursive:
  assumes "t < 1024" and "i < (1024 :: u32)"
  defines "va \<equiv> word_ptr (CONST_RECURSIVE_PAGE_TABLE t) i"
  shows "TABLE_IN_DIRECTORY_INDEX va = 1023" "PAGE_IN_TABLE_INDEX va = t" "(va AND PAGE_ALIGN_MASK) div 4 = i"
proof -
  have b: "unat t < 1024" "unat i < 1024" using assms by (simp_all add: word_less_nat_alt)
  have "unat va = 4096 * (1024 * 1023 + unat t) + 4 * unat i"
    using unat_recursive_address [OF assms(1,2)] by (simp add: va_def)
  from indices_of_address [OF this b] show "TABLE_IN_DIRECTORY_INDEX va = 1023" "PAGE_IN_TABLE_INDEX va = t"
      "(va AND PAGE_ALIGN_MASK) div 4 = i"
    by (simp_all add: adr_numeral)
qed

lemma directory_as_table:
  "word_ptr CONST_RECURSIVE_PAGE_DIRECTORY_ADDRESS i = word_ptr (CONST_RECURSIVE_PAGE_TABLE 1023) i"
  by (simp add: word_ptr_def CONST_RECURSIVE_PAGE_TABLE_def CONST_RECURSIVE_PAGE_DIRECTORY_ADDRESS_def
      CONST_RECURSIVE_PAGE_DIRECTORY_AREA_def)

lemma index_bounds: "TABLE_IN_DIRECTORY_INDEX va < 1024" "PAGE_IN_TABLE_INDEX va < 1024"
proof -
  have "unat va < 2 ^ 32" using unsigned_less [of va] by simp
  then show "TABLE_IN_DIRECTORY_INDEX va < 1024"
    by (simp add: TABLE_IN_DIRECTORY_INDEX_def PAGE_SIZE_def word_less_nat_alt unat_div div_mult2_eq [symmetric])
  show "PAGE_IN_TABLE_INDEX va < 1024"
    by (simp add: PAGE_IN_TABLE_INDEX_def word_less_nat_alt unat_mod)
qed

text \<open>The entries of the directory and of the tables, read physically.\<close>

definition dir_entry :: "paging \<Rightarrow> u32 \<Rightarrow> u32" where
  "dir_entry pg ti = pg_mem pg (pg_cr3 pg) ti"

definition table_entry :: "paging \<Rightarrow> u32 \<Rightarrow> u32 \<Rightarrow> u32" where
  "table_entry pg ti pi = pg_mem pg (frame_of (dir_entry pg ti)) pi"

text \<open>The directory is its own last table.\<close>

definition recursive_dir :: "paging \<Rightarrow> bool" where
  "recursive_dir pg \<longleftrightarrow> present (dir_entry pg 1023) \<and> frame_of (dir_entry pg 1023) = pg_cr3 pg"

lemma page_walk_recursive:
  assumes "recursive_dir pg" and "t < 1024" and "i < 1024"
  shows "page_walk pg (word_ptr (CONST_RECURSIVE_PAGE_TABLE t) i) =
    (if present (dir_entry pg t) then Inr (frame_of (dir_entry pg t), i)
     else Inl (BadPointer (word_ptr (CONST_RECURSIVE_PAGE_TABLE t) i)))"
  using assms(1) indices_recursive [OF assms(2,3)]
  by (simp add: page_walk_def recursive_dir_def dir_entry_def Let_def)

lemma read_directory: "recursive_dir pg \<Longrightarrow> i < 1024 \<Longrightarrow>
    read_word pg (word_ptr CONST_RECURSIVE_PAGE_DIRECTORY_ADDRESS i) = Inr (dir_entry pg i)"
  unfolding directory_as_table recursive_dir_def
  by (simp add: read_word_def page_walk_recursive recursive_dir_def) (simp add: dir_entry_def)

lemma write_directory: "recursive_dir pg \<Longrightarrow> i < 1024 \<Longrightarrow>
    write_word pg (word_ptr CONST_RECURSIVE_PAGE_DIRECTORY_ADDRESS i) w = Inr (write_phys pg (pg_cr3 pg) i w)"
  unfolding directory_as_table by (simp add: write_word_def page_walk_recursive recursive_dir_def)

lemma read_table: "recursive_dir pg \<Longrightarrow> t < 1024 \<Longrightarrow> i < 1024 \<Longrightarrow> present (dir_entry pg t) \<Longrightarrow>
    read_word pg (word_ptr (CONST_RECURSIVE_PAGE_TABLE t) i) = Inr (table_entry pg t i)"
  by (simp add: read_word_def page_walk_recursive table_entry_def)

lemma write_table: "recursive_dir pg \<Longrightarrow> t < 1024 \<Longrightarrow> i < 1024 \<Longrightarrow> present (dir_entry pg t) \<Longrightarrow>
    write_word pg (word_ptr (CONST_RECURSIVE_PAGE_TABLE t) i) w =
      Inr (write_phys pg (frame_of (dir_entry pg t)) i w)"
  by (simp add: write_word_def page_walk_recursive)

lemma write_phys_simps [simp]:
  "pg_mem (write_phys pg f i w) = (pg_mem pg)(f := (pg_mem pg f)(i := w))"
  "pg_cr3 (write_phys pg f i w) = pg_cr3 pg" "pg_pp (write_phys pg f i w) = pg_pp pg"
  "pg_temp (write_phys pg f i w) = pg_temp pg"
  by (simp_all add: write_phys_def)

text \<open>A write outside the directory's page leaves the directory alone.\<close>

lemma dir_write_frame: "f \<noteq> pg_cr3 pg \<Longrightarrow> dir_entry (write_phys pg f i w) t = dir_entry pg t"
  by (simp add: dir_entry_def)

lemma recursive_write_frame: "f \<noteq> pg_cr3 pg \<Longrightarrow> recursive_dir (write_phys pg f i w) = recursive_dir pg"
  by (simp add: recursive_dir_def dir_write_frame)

definition zeroed :: "nat \<Rightarrow> (u32 \<Rightarrow> u32) \<Rightarrow> u32 \<Rightarrow> u32" where
  "zeroed n f i = (if unat i < n then 0 else f i)"

lemma zeroed_0: "zeroed 0 f = f"
  by (simp add: zeroed_def fun_eq_iff)

lemma zeroed_Suc: "n < 2 ^ 32 \<Longrightarrow> (zeroed n f)(of_nat n := 0) = zeroed (Suc n) f"
  by (auto simp: zeroed_def fun_eq_iff unat_of_nat_u32 less_Suc_eq word_unat_eq_iff)

lemma clear_words_table:
  assumes "recursive_dir pg" and "t < 1024" and "present (dir_entry pg t)" and "frame_of (dir_entry pg t) \<noteq> pg_cr3 pg"
    and "n \<le> 1024"
  shows "clear_words n pg (CONST_RECURSIVE_PAGE_TABLE t) =
    Inr (pg\<lparr>pg_mem := (pg_mem pg)(frame_of (dir_entry pg t) := zeroed n (pg_mem pg (frame_of (dir_entry pg t))))\<rparr>)"
  using assms(5)
proof (induction n)
  case 0
  show ?case by (simp add: zeroed_0)
next
  case (Suc n)
  let ?f = "frame_of (dir_entry pg t)"
  let ?pg = "pg\<lparr>pg_mem := (pg_mem pg)(?f := zeroed n (pg_mem pg ?f))\<rparr>"
  have d: "dir_entry ?pg s = dir_entry pg s" for s using assms(4) by (simp add: dir_entry_def)
  then have r: "recursive_dir ?pg" using assms(1) by (simp add: recursive_dir_def)
  have n: "(of_nat n :: u32) < 1024" using Suc.prems by (simp add: word_less_nat_alt unat_of_nat_u32)
  have "write_word ?pg (word_ptr (CONST_RECURSIVE_PAGE_TABLE t) (of_nat n)) 0 = Inr (write_phys ?pg ?f (of_nat n) 0)"
    using write_table [OF r assms(2) n(1)] assms(3) d by simp
  then show ?case
    using Suc.IH Suc.prems zeroed_Suc [of n "pg_mem pg ?f"] by (simp add: write_phys_def fun_upd_same del: fun_upd_apply)
qed

section \<open>Frames and flags\<close>

lemma page_mask: "PAGE_ALIGN_MASK = mask 12"
  by (simp add: PAGE_ALIGN_MASK_def PAGE_SIZE_def mask_eq_exp_minus_1)

lemma bit_page_mask: "bit PAGE_ALIGN_MASK n \<longleftrightarrow> n < 12"
  unfolding page_mask bit_mask_iff possible_bit_def by auto

lemma bit_frame_of: "bit (frame_of e) n \<longleftrightarrow> 12 \<le> n \<and> bit e n"
  by (auto simp: frame_of_def bit_and_iff bit_not_iff bit_page_mask dest: bit_imp_le_length)

lemma small_no_high_bits: "(w :: u32) < 4096 \<Longrightarrow> 12 \<le> n \<Longrightarrow> \<not> bit w n"
proof -
  assume "w < 4096" "12 \<le> n"
  then have "w = take_bit 12 w" by (simp add: take_bit_eq_mod word_mod_less_divisor mod_word_self word_less_nat_alt unat_mod word_unat_eq_iff)
  then show "\<not> bit w n" using \<open>12 \<le> n\<close> by (metis bit_take_bit_iff not_le)
qed

lemma aligned_no_low_bits: "w AND PAGE_ALIGN_MASK = 0 \<Longrightarrow> n < 12 \<Longrightarrow> \<not> bit w n"
  by (metis bit_0_eq bit_and_iff bit_page_mask bot_apply bot_bool_def)

lemma frame_of_or: "w AND PAGE_ALIGN_MASK = 0 \<Longrightarrow> flags < 4096 \<Longrightarrow> frame_of (w OR flags) = w"
  by (rule bit_eqI) (use aligned_no_low_bits in \<open>auto simp: bit_frame_of bit_or_iff small_no_high_bits not_le [symmetric]\<close>)

lemma frame_of_aligned: "frame_of e AND PAGE_ALIGN_MASK = 0"
  by (rule bit_eqI) (auto simp: bit_frame_of bit_and_iff bit_page_mask)

lemma present_bit: "present e \<longleftrightarrow> bit e 0"
  by (simp add: present_def PAGE_TABLE_PRESENT_def and_one_eq odd_iff_mod_2_eq_one bit_0)

lemma present_or: "present flags \<Longrightarrow> present (w OR flags)"
  by (simp add: present_bit bit_or_iff)

lemma present_nonzero: "present e \<Longrightarrow> e \<noteq> 0"
  by (auto simp: present_bit)

section \<open>Well-formed page tables\<close>

definition page_no :: "u32 \<Rightarrow> nat" where
  "page_no f = unat f div 4096"

text \<open>
  The directory maps itself in its last entry; every table is present, has a physical page of its
  own, different from the directory's, and none of these pages is free in the page allocator.
\<close>

definition pg_inv :: "paging \<Rightarrow> bool" where
  "pg_inv pg \<longleftrightarrow>
     pp_inv (pg_pp pg) \<and> recursive_dir pg \<and> page_no (pg_cr3 pg) \<notin> free_pages (pp_bitmap (pg_pp pg)) \<and>
     (\<forall>t < 1023. dir_entry pg t \<noteq> 0 \<longrightarrow>
        present (dir_entry pg t) \<and> frame_of (dir_entry pg t) \<noteq> pg_cr3 pg \<and>
        page_no (frame_of (dir_entry pg t)) \<notin> free_pages (pp_bitmap (pg_pp pg)) \<and>
        (\<forall>s < 1023. s \<noteq> t \<longrightarrow> dir_entry pg s \<noteq> 0 \<longrightarrow> frame_of (dir_entry pg s) \<noteq> frame_of (dir_entry pg t)))"

text \<open>The page table entry that covers an address; 0 when its table does not exist.\<close>

definition pte :: "paging \<Rightarrow> u32 \<Rightarrow> u32" where
  "pte pg va = (if dir_entry pg (TABLE_IN_DIRECTORY_INDEX va) = 0 then 0
     else table_entry pg (TABLE_IN_DIRECTORY_INDEX va) (PAGE_IN_TABLE_INDEX va))"

definition same_page :: "u32 \<Rightarrow> u32 \<Rightarrow> bool" where
  "same_page v w \<longleftrightarrow> TABLE_IN_DIRECTORY_INDEX v = TABLE_IN_DIRECTORY_INDEX w \<and> PAGE_IN_TABLE_INDEX v = PAGE_IN_TABLE_INDEX w"

lemma pg_inv_table:
  assumes "pg_inv pg" and "t < 1023" and "dir_entry pg t \<noteq> 0"
  shows "present (dir_entry pg t)" "frame_of (dir_entry pg t) \<noteq> pg_cr3 pg"
    "page_no (frame_of (dir_entry pg t)) \<notin> free_pages (pp_bitmap (pg_pp pg))"
    "s < 1023 \<Longrightarrow> s \<noteq> t \<Longrightarrow> dir_entry pg s \<noteq> 0 \<Longrightarrow> frame_of (dir_entry pg s) \<noteq> frame_of (dir_entry pg t)"
  using assms by (auto simp: pg_inv_def)

lemma word_less_1023: "(t :: u32) < 1023 \<Longrightarrow> t < 1024"
  by (erule less_trans) simp

lemma pte_write:
  fixes i w :: u32
  assumes "pg_inv pg" and "t < 1023" and "dir_entry pg t \<noteq> 0"
  defines "pg' \<equiv> write_phys pg (frame_of (dir_entry pg t)) i w"
  shows "pg_inv pg'" "dir_entry pg' s = dir_entry pg s"
    "TABLE_IN_DIRECTORY_INDEX va < 1023 \<Longrightarrow>
       pte pg' va = (if TABLE_IN_DIRECTORY_INDEX va = t \<and> PAGE_IN_TABLE_INDEX va = i then w else pte pg va)"
proof -
  have d: "dir_entry pg' s = dir_entry pg s" for s
    using dir_write_frame [OF pg_inv_table(2) [OF assms(1-3)]] by (simp add: pg'_def)
  then show "dir_entry pg' s = dir_entry pg s" .
  have c: "pg_cr3 pg' = pg_cr3 pg" "pg_pp pg' = pg_pp pg" by (simp_all add: pg'_def)
  show "pg_inv pg'" using assms(1) unfolding pg_inv_def recursive_dir_def d c .
  show "pte pg' va = (if TABLE_IN_DIRECTORY_INDEX va = t \<and> PAGE_IN_TABLE_INDEX va = i then w else pte pg va)"
    if "TABLE_IN_DIRECTORY_INDEX va < 1023"
    using pg_inv_table(4) [OF assms(1-3) that] assms(3) by (auto simp: pte_def table_entry_def d) (auto simp: pg'_def)
qed

lemma bit_userspace: "bit PAGE_TABLE_USERSPACE n \<longleftrightarrow> n = 2"
proof -
  have u: "PAGE_TABLE_USERSPACE = 2 ^ 2" by (simp add: PAGE_TABLE_USERSPACE_def)
  show ?thesis unfolding u bit_exp_iff by (auto simp: possible_bit_def)
qed

text \<open>A new table takes one free page, and the other entries of the directory stay.\<close>

definition grown :: "paging \<Rightarrow> paging \<Rightarrow> u32 \<Rightarrow> u32 \<Rightarrow> bool" where
  "grown pg pg' t flags \<longleftrightarrow> (\<forall>s. s \<noteq> t \<longrightarrow> dir_entry pg' s = dir_entry pg s) \<and>
     page_no (frame_of (dir_entry pg' t)) \<in> free_pages (pp_bitmap (pg_pp pg)) \<and>
     free_pages (pp_bitmap (pg_pp pg')) = free_pages (pp_bitmap (pg_pp pg)) - {page_no (frame_of (dir_entry pg' t))} \<and>
     dir_entry pg' t AND PAGE_TABLE_USERSPACE = flags AND PAGE_TABLE_USERSPACE"

lemma create_table_spec:
  assumes inv: "pg_inv pg" and t: "t < 1023" and none: "dir_entry pg t = 0"
    and flags: "flags < 4096" "present flags" and free: "free_pages (pp_bitmap (pg_pp pg)) \<noteq> {}"
  shows "\<exists>pg'. create_table pg CONST_RECURSIVE_PAGE_DIRECTORY_ADDRESS (CONST_RECURSIVE_PAGE_TABLE t) t flags = Inr pg' \<and>
    pg_inv pg' \<and> dir_entry pg' t \<noteq> 0 \<and> pg_cr3 pg' = pg_cr3 pg \<and> pg_temp pg' = pg_temp pg \<and>
    (\<forall>va. TABLE_IN_DIRECTORY_INDEX va < 1023 \<longrightarrow> pte pg' va = pte pg va) \<and> grown pg pg' t flags"
proof -
  let ?F = "free_pages (pp_bitmap (pg_pp pg))"
  obtain page pp where a: "PPallocator_allocate (pg_pp pg) = Inr (page, pp)" "unat page = Min ?F * 4096" "page \<noteq> 0"
      "free_pages (pp_bitmap pp) = ?F - {unat page div 4096}" "pp_inv pp"
    using PPallocator_allocate_Inr [of "pg_pp pg"] inv free unfolding pg_inv_def by blast
  have al: "page AND PAGE_ALIGN_MASK = 0"
    using a(2) by (simp add: and_page_mask word_unat_eq_iff unat_mod)
  have new: "page_no page \<in> ?F" using a(2) free by (simp add: page_no_def)
  have f: "frame_of (page OR flags) = page" by (rule frame_of_or [OF al flags(1)])
  have cr3: "page \<noteq> pg_cr3 pg" using inv new by (auto simp: pg_inv_def)
  define pg1 where "pg1 = write_phys (pg\<lparr>pg_pp := pp\<rparr>) (pg_cr3 pg) t (page OR flags)"
  define pg2 where "pg2 = pg1\<lparr>pg_mem := (pg_mem pg1)(page := zeroed 1024 (pg_mem pg1 page))\<rparr>"
  have c2: "pg_cr3 pg1 = pg_cr3 pg" "pg_cr3 pg2 = pg_cr3 pg" "pg_pp pg2 = pp" "pg_temp pg2 = pg_temp pg"
    by (simp_all add: pg1_def pg2_def)
  have m2: "pg_mem pg2 x = (if x = page then zeroed 1024 (pg_mem pg page) else if x = pg_cr3 pg then (pg_mem pg x)(t := page OR flags) else pg_mem pg x)" for x
    using cr3 by (simp add: pg1_def pg2_def)
  have t': "t < 1024" "t \<noteq> 1023" using t word_less_1023 by auto
  have d1: "dir_entry pg1 s = (if s = t then page OR flags else dir_entry pg s)" for s
    by (simp add: dir_entry_def pg1_def)
  have r1: "recursive_dir pg1" using inv t'(2) by (auto simp: pg_inv_def recursive_dir_def d1 c2)
  have d2: "dir_entry pg2 s = (if s = t then page OR flags else dir_entry pg s)" for s
    using cr3 by (simp add: dir_entry_def c2 m2)
  have w: "write_word (pg\<lparr>pg_pp := pp\<rparr>) (word_ptr CONST_RECURSIVE_PAGE_DIRECTORY_ADDRESS t) (page OR flags) = Inr pg1"
    using inv write_directory [of "pg\<lparr>pg_pp := pp\<rparr>" t "page OR flags"] t'(1)
    by (simp add: pg_inv_def recursive_dir_def dir_entry_def pg1_def)
  have d1t: "dir_entry pg1 t = page OR flags" using d1 by simp
  have c: "clear_words 1024 pg1 (CONST_RECURSIVE_PAGE_TABLE t) = Inr pg2"
    using clear_words_table [OF r1 t'(1), of 1024, unfolded d1t f] present_or [OF flags(2)] cr3 by (simp add: c2 pg2_def)
  have run: "create_table pg CONST_RECURSIVE_PAGE_DIRECTORY_ADDRESS (CONST_RECURSIVE_PAGE_TABLE t) t flags = Inr pg2"
    using a(1,3) w c by (simp add: create_table_def)
  have old: "frame_of (dir_entry pg s) \<noteq> page" if "s < 1023" "dir_entry pg s \<noteq> 0" for s
    using pg_inv_table(3) [OF inv that] new by auto
  have "pg_inv pg2"
    unfolding pg_inv_def
  proof (intro conjI allI impI)
    show "pp_inv (pg_pp pg2)" using a(5) by (simp add: c2)
    show "recursive_dir pg2" using inv t'(2) by (auto simp: pg_inv_def recursive_dir_def d2 c2)
    show "page_no (pg_cr3 pg2) \<notin> free_pages (pp_bitmap (pg_pp pg2))" using inv a(4) by (auto simp: pg_inv_def c2)
    fix s :: u32 assume s: "s < 1023" "dir_entry pg2 s \<noteq> 0"
    then have s': "s \<noteq> t \<Longrightarrow> dir_entry pg s \<noteq> 0" by (simp add: d2)
    show "present (dir_entry pg2 s)" using s' pg_inv_table(1) [OF inv s(1)] present_or [OF flags(2)] by (auto simp: d2)
    show "frame_of (dir_entry pg2 s) \<noteq> pg_cr3 pg2" using s' pg_inv_table(2) [OF inv s(1)] cr3 f by (auto simp: d2 c2)
    show "page_no (frame_of (dir_entry pg2 s)) \<notin> free_pages (pp_bitmap (pg_pp pg2))"
      using s' pg_inv_table(3) [OF inv s(1)] a(4) f by (auto simp: d2 page_no_def c2)
    fix r :: u32 assume r: "r < 1023" "r \<noteq> s" "dir_entry pg2 r \<noteq> 0"
    then have r': "r \<noteq> t \<Longrightarrow> dir_entry pg r \<noteq> 0" by (simp add: d2)
    show "frame_of (dir_entry pg2 r) \<noteq> frame_of (dir_entry pg2 s)"
      using s' r' pg_inv_table(4) [OF inv s(1) _ r(1,2)] old [OF s(1)] old [OF r(1)] r(2) f by (auto simp: d2)
  qed
  moreover have "pte pg2 va = pte pg va" if va: "TABLE_IN_DIRECTORY_INDEX va < 1023" for va
  proof (cases "TABLE_IN_DIRECTORY_INDEX va = t")
    case True
    have "unat (PAGE_IN_TABLE_INDEX va) < 1024" using index_bounds(2) [of va] by (simp add: word_less_nat_alt)
    then have "table_entry pg2 t (PAGE_IN_TABLE_INDEX va) = 0"
      unfolding table_entry_def d2 using f by (simp add: zeroed_def m2)
    then show ?thesis using True none by (simp add: pte_def)
  next
    case False
    note d = d2 [of "TABLE_IN_DIRECTORY_INDEX va"]
    have "frame_of (dir_entry pg (TABLE_IN_DIRECTORY_INDEX va)) \<noteq> pg_cr3 pg" if "dir_entry pg (TABLE_IN_DIRECTORY_INDEX va) \<noteq> 0"
      using pg_inv_table(2) [OF inv va that] .
    with False old [OF va] show ?thesis unfolding pte_def table_entry_def d by (simp add: m2)
  qed
  moreover have "dir_entry pg2 t \<noteq> 0" using present_or [OF flags(2), of page] present_nonzero by (simp add: d2)
  moreover have "(page OR flags) AND PAGE_TABLE_USERSPACE = flags AND PAGE_TABLE_USERSPACE"
    using aligned_no_low_bits [OF al, of 2] by (intro bit_eqI) (auto simp: bit_and_iff bit_or_iff bit_userspace)
  then have "grown pg pg2 t flags" using a(4) new f by (simp add: grown_def d2 c2 page_no_def)
  ultimately show ?thesis using run c2 by (intro exI [of _ pg2]) simp
qed

section \<open>The operations on well-formed tables\<close>

text \<open>Addresses below the recursive area, aligned to a page.\<close>

definition mappable :: "u32 \<Rightarrow> bool" where
  "mappable va \<longleftrightarrow> TABLE_IN_DIRECTORY_INDEX va < 1023 \<and> va AND PAGE_ALIGN_MASK = 0"

definition page_flags :: "u32 \<Rightarrow> bool" where
  "page_flags flags \<longleftrightarrow> flags < 4096 \<and> present flags"

lemma table_pointer: "word_ptr CONST_RECURSIVE_PAGE_DIRECTORY_AREA (0x400 * ti) = CONST_RECURSIVE_PAGE_TABLE ti"
  by (simp add: CONST_RECURSIVE_PAGE_TABLE_def)

lemma pg_inv_recursive: "pg_inv pg \<Longrightarrow> recursive_dir pg"
  by (simp add: pg_inv_def)

lemma map_existing_table:
  assumes "pg_inv pg" and "mappable v" and "p AND PAGE_ALIGN_MASK = 0"
    and "dir_entry pg (TABLE_IN_DIRECTORY_INDEX v) \<noteq> 0"
    and "\<not> (tf AND PAGE_TABLE_USERSPACE \<noteq> 0 \<and>
           (dir_entry pg (TABLE_IN_DIRECTORY_INDEX v) AND PAGE_ALIGN_MASK) AND PAGE_TABLE_USERSPACE = 0)"
  shows "AddressSpace_map pg v p tf pf ov =
    (if pte pg v = 0 \<or> ov
     then Inr (True, write_phys pg (frame_of (dir_entry pg (TABLE_IN_DIRECTORY_INDEX v))) (PAGE_IN_TABLE_INDEX v) (p OR pf))
     else Inr (False, pg))"
  using assms pg_inv_table(1) [OF assms(1) _ assms(4)] pg_inv_recursive [OF assms(1)]
  by (simp add: AddressSpace_map_def mappable_def Let_def table_pointer read_directory index_bounds read_table write_table
      pte_def) auto

lemma map_new_table:
  assumes "pg_inv pg" and "mappable v" and "p AND PAGE_ALIGN_MASK = 0" and "page_flags tf"
    and "dir_entry pg (TABLE_IN_DIRECTORY_INDEX v) = 0" and "free_pages (pp_bitmap (pg_pp pg)) \<noteq> {}"
  shows "\<exists>pg'. AddressSpace_map pg v p tf pf ov =
      Inr (True, write_phys pg' (frame_of (dir_entry pg' (TABLE_IN_DIRECTORY_INDEX v))) (PAGE_IN_TABLE_INDEX v) (p OR pf)) \<and>
    pg_inv pg' \<and> dir_entry pg' (TABLE_IN_DIRECTORY_INDEX v) \<noteq> 0 \<and> pg_cr3 pg' = pg_cr3 pg \<and> pg_temp pg' = pg_temp pg \<and>
    (\<forall>va. TABLE_IN_DIRECTORY_INDEX va < 1023 \<longrightarrow> pte pg' va = pte pg va) \<and> grown pg pg' (TABLE_IN_DIRECTORY_INDEX v) tf"
proof -
  let ?t = "TABLE_IN_DIRECTORY_INDEX v"
  have t: "?t < 1023" using assms(2) by (simp add: mappable_def)
  obtain pg' where c: "create_table pg CONST_RECURSIVE_PAGE_DIRECTORY_ADDRESS (CONST_RECURSIVE_PAGE_TABLE ?t) ?t tf = Inr pg'"
      "pg_inv pg'" "dir_entry pg' ?t \<noteq> 0" "pg_cr3 pg' = pg_cr3 pg" "pg_temp pg' = pg_temp pg"
      "\<forall>va. TABLE_IN_DIRECTORY_INDEX va < 1023 \<longrightarrow> pte pg' va = pte pg va" "grown pg pg' ?t tf"
    using create_table_spec [OF assms(1) t assms(5) _ _ assms(6), of tf] assms(4) by (auto simp: page_flags_def)
  have "pte pg' v = 0" using c(6) t assms(5) by (simp add: pte_def)
  then have z: "table_entry pg' ?t (PAGE_IN_TABLE_INDEX v) = 0" using c(3) by (simp add: pte_def)
  have "AddressSpace_map pg v p tf pf ov =
      Inr (True, write_phys pg' (frame_of (dir_entry pg' ?t)) (PAGE_IN_TABLE_INDEX v) (p OR pf))"
    using assms(2,3,5) c(1) z pg_inv_table(1) [OF c(2) t c(3)] pg_inv_recursive [OF assms(1)] pg_inv_recursive [OF c(2)]
    by (simp add: AddressSpace_map_def mappable_def Let_def table_pointer read_directory index_bounds read_table write_table)
  with c(2-7) show ?thesis by blast
qed

lemma map_ok:
  assumes "pg_inv pg" and "mappable v" and "p AND PAGE_ALIGN_MASK = 0" and "page_flags tf"
    and "tf AND PAGE_TABLE_USERSPACE = 0 \<or> dir_entry pg (TABLE_IN_DIRECTORY_INDEX v) AND PAGE_TABLE_USERSPACE \<noteq> 0 \<or>
         dir_entry pg (TABLE_IN_DIRECTORY_INDEX v) = 0"
    and "dir_entry pg (TABLE_IN_DIRECTORY_INDEX v) \<noteq> 0 \<or> free_pages (pp_bitmap (pg_pp pg)) \<noteq> {}"
    and "pte pg v = 0 \<or> ov"
  shows "\<exists>pg'. AddressSpace_map pg v p tf pf ov = Inr (True, pg') \<and> pg_inv pg' \<and>
    pg_cr3 pg' = pg_cr3 pg \<and> pg_temp pg' = pg_temp pg \<and> dir_entry pg' (TABLE_IN_DIRECTORY_INDEX v) \<noteq> 0 \<and>
    (\<forall>va. TABLE_IN_DIRECTORY_INDEX va < 1023 \<longrightarrow> pte pg' va = (if same_page va v then p OR pf else pte pg va)) \<and>
    (if dir_entry pg (TABLE_IN_DIRECTORY_INDEX v) = 0 then grown pg pg' (TABLE_IN_DIRECTORY_INDEX v) tf
     else (\<forall>t. dir_entry pg' t = dir_entry pg t) \<and> pg_pp pg' = pg_pp pg)"
proof -
  let ?t = "TABLE_IN_DIRECTORY_INDEX v" and ?i = "PAGE_IN_TABLE_INDEX v"
  have t: "?t < 1023" using assms(2) by (simp add: mappable_def)
  have m: "PAGE_ALIGN_MASK AND PAGE_TABLE_USERSPACE = PAGE_TABLE_USERSPACE"
    by (simp add: PAGE_ALIGN_MASK_def PAGE_SIZE_def PAGE_TABLE_USERSPACE_def)
  obtain pg' where run: "AddressSpace_map pg v p tf pf ov = Inr (True, write_phys pg' (frame_of (dir_entry pg' ?t)) ?i (p OR pf))"
      and pg': "pg_inv pg'" "dir_entry pg' ?t \<noteq> 0" "pg_cr3 pg' = pg_cr3 pg" "pg_temp pg' = pg_temp pg"
      and same: "\<And>va. TABLE_IN_DIRECTORY_INDEX va < 1023 \<Longrightarrow> pte pg' va = pte pg va"
      and dir: "if dir_entry pg ?t = 0 then grown pg pg' ?t tf else pg' = pg"
  proof (cases "dir_entry pg ?t = 0")
    case True
    then show thesis using map_new_table [OF assms(1-4) True, of pf ov] assms(6) that by auto
  next
    case False
    then have "tf AND PAGE_TABLE_USERSPACE = 0 \<or> (dir_entry pg ?t AND PAGE_ALIGN_MASK) AND PAGE_TABLE_USERSPACE \<noteq> 0"
      using assms(5) m by (auto simp: and.assoc)
    with False show thesis using map_existing_table [OF assms(1-3), of tf pf ov] assms(1,7) that [of pg] by auto
  qed
  let ?pg = "write_phys pg' (frame_of (dir_entry pg' ?t)) ?i (p OR pf)"
  note w = pte_write [OF pg'(1) t pg'(2), where i = ?i and w = "p OR pf"]
  have "if dir_entry pg ?t = 0 then grown pg ?pg ?t tf else (\<forall>t. dir_entry ?pg t = dir_entry pg t) \<and> pg_pp ?pg = pg_pp pg"
    using dir w(2) by (auto simp: grown_def split: if_splits)
  moreover have "pg_inv ?pg" "pg_cr3 ?pg = pg_cr3 pg" "pg_temp ?pg = pg_temp pg" "dir_entry ?pg ?t \<noteq> 0" using pg' w(1,2) by simp_all
  moreover have "\<forall>va. TABLE_IN_DIRECTORY_INDEX va < 1023 \<longrightarrow> pte ?pg va = (if same_page va v then p OR pf else pte pg va)"
    using w(3) same by (simp add: same_page_def)
  ultimately show ?thesis using run by (intro exI [of _ ?pg] conjI)
qed

lemma unmap_ok:
  assumes "pg_inv pg" and "TABLE_IN_DIRECTORY_INDEX v < 1023"
  shows "\<exists>pg'. AddressSpace_unmap pg v = Inr pg' \<and> pg_inv pg' \<and>
    pg_cr3 pg' = pg_cr3 pg \<and> pg_temp pg' = pg_temp pg \<and>
    (\<forall>va. TABLE_IN_DIRECTORY_INDEX va < 1023 \<longrightarrow> pte pg' va = (if same_page va v then 0 else pte pg va))"
proof (cases "dir_entry pg (TABLE_IN_DIRECTORY_INDEX v) = 0")
  case True
  then show ?thesis
    using assms pg_inv_recursive [OF assms(1)]
    by (auto simp: AddressSpace_unmap_def read_directory index_bounds pte_def same_page_def)
next
  case False
  let ?t = "TABLE_IN_DIRECTORY_INDEX v" and ?i = "PAGE_IN_TABLE_INDEX v"
  let ?pg = "if table_entry pg ?t ?i = 0 then pg else write_phys pg (frame_of (dir_entry pg ?t)) ?i 0"
  have "AddressSpace_unmap pg v = Inr ?pg"
    using False pg_inv_table(1) [OF assms False] pg_inv_recursive [OF assms(1)]
    by (simp add: AddressSpace_unmap_def read_directory index_bounds read_table write_table Let_def)
  then show ?thesis
    using assms False pte_write [OF assms False, where i = ?i and w = 0]
    by (intro exI [of _ ?pg]) (auto simp: pte_def same_page_def)
qed

lemma virtualToPhysical_pte:
  assumes "pg_inv pg" and "TABLE_IN_DIRECTORY_INDEX v < 1023" and "dir_entry pg (TABLE_IN_DIRECTORY_INDEX v) \<noteq> 0"
  shows "AddressSpace_virtualToPhysical pg v = Inr (frame_of (pte pg v))"
proof -
  have u: "unat (TABLE_IN_DIRECTORY_INDEX v) < 1023" using assms(2) by (simp add: word_less_nat_alt)
  have "unat (CONST_RECURSIVE_PAGE_TABLE (TABLE_IN_DIRECTORY_INDEX v)) \<noteq> 0"
    using unat_recursive_address [of "TABLE_IN_DIRECTORY_INDEX v" 0] index_bounds(1) [of v] by (simp add: word_ptr_def)
  then have "CONST_RECURSIVE_PAGE_TABLE (TABLE_IN_DIRECTORY_INDEX v) \<noteq> 0" by auto
  then show ?thesis
    using assms pg_inv_table(1) [OF assms] pg_inv_recursive [OF assms(1)]
    by (simp add: AddressSpace_virtualToPhysical_def read_table index_bounds pte_def frame_of_def)
qed

section \<open>Properties\<close>

lemma map_translates:
  assumes "pg_inv pg'" and "mappable v" and "dir_entry pg' (TABLE_IN_DIRECTORY_INDEX v) \<noteq> 0"
    and "pte pg' v = p OR pf" and "p AND PAGE_ALIGN_MASK = 0" and "pf < 4096"
  shows "AddressSpace_virtualToPhysical pg' v = Inr p"
  using assms virtualToPhysical_pte [OF assms(1) _ assms(3)] frame_of_or [OF assms(5,6)] by (simp add: mappable_def)

text \<open>
  C8. On well-formed page tables, mapping a free page-aligned address below the recursive area
  succeeds when its table exists or a physical page is left for a new one: afterwards the address
  translates to the given physical page, the entry of every other page is what it was, also when
  a table had to be made, the tables are again well-formed, and unmapping the address gives back
  exactly the entries there were before. All accesses go through the recursively mapped directory.
\<close>

theorem address_space_map_unmap:
  assumes "pg_inv pg" and "mappable v" and "p AND PAGE_ALIGN_MASK = 0" and "page_flags tf" and "pf < 4096"
    and "tf AND PAGE_TABLE_USERSPACE = 0 \<or> dir_entry pg (TABLE_IN_DIRECTORY_INDEX v) AND PAGE_TABLE_USERSPACE \<noteq> 0 \<or>
         dir_entry pg (TABLE_IN_DIRECTORY_INDEX v) = 0"
    and "dir_entry pg (TABLE_IN_DIRECTORY_INDEX v) \<noteq> 0 \<or> free_pages (pp_bitmap (pg_pp pg)) \<noteq> {}"
    and "pte pg v = 0"
  shows "\<exists>pg' pg''. AddressSpace_map pg v p tf pf False = Inr (True, pg') \<and> pg_inv pg' \<and>
    AddressSpace_virtualToPhysical pg' v = Inr p \<and>
    (\<forall>va. TABLE_IN_DIRECTORY_INDEX va < 1023 \<longrightarrow> \<not> same_page va v \<longrightarrow> pte pg' va = pte pg va) \<and>
    AddressSpace_unmap pg' v = Inr pg'' \<and> pg_inv pg'' \<and>
    (\<forall>va. TABLE_IN_DIRECTORY_INDEX va < 1023 \<longrightarrow> pte pg'' va = pte pg va)"
proof -
  have t: "TABLE_IN_DIRECTORY_INDEX v < 1023" using assms(2) by (simp add: mappable_def)
  obtain pg' where m: "AddressSpace_map pg v p tf pf False = Inr (True, pg')" "pg_inv pg'"
      "dir_entry pg' (TABLE_IN_DIRECTORY_INDEX v) \<noteq> 0"
      "\<And>va. TABLE_IN_DIRECTORY_INDEX va < 1023 \<Longrightarrow> pte pg' va = (if same_page va v then p OR pf else pte pg va)"
    using map_ok [OF assms(1-4,6,7), of False] assms(8) by auto
  obtain pg'' where u: "AddressSpace_unmap pg' v = Inr pg''" "pg_inv pg''"
      "\<And>va. TABLE_IN_DIRECTORY_INDEX va < 1023 \<Longrightarrow> pte pg'' va = (if same_page va v then 0 else pte pg' va)"
    using unmap_ok [OF m(2) t] by auto
  have "pte pg va = 0" if "same_page va v" for va using that assms(8) by (auto simp: pte_def same_page_def split: if_splits)
  then have "pte pg'' va = pte pg va" if "TABLE_IN_DIRECTORY_INDEX va < 1023" for va
    using m(4) [OF that] u(3) [OF that] by auto
  then show ?thesis
    using m u map_translates [OF m(2) assms(2) m(3) _ assms(3,5)] m(4) [OF t] by (auto simp: same_page_def)
qed

text \<open>An address space with nothing but its directory, in the physical page 0x2000.\<close>

definition empty_space :: paging where
  "empty_space = \<lparr>pg_cr3 = 0x2000, pg_mem = (\<lambda>_ _. 0)(0x2000 := (\<lambda>_. 0)(1023 := 0x2003)),
     pg_pp = one_page, pg_temp = AddressStack_push AddressStack_new 0xFFB00000\<rparr>"

lemma empty_space_inv: "pg_inv empty_space"
proof -
  have "dir_entry empty_space t = (if t = 1023 then 0x2003 else 0)" for t
    by (simp add: empty_space_def dir_entry_def)
  then show ?thesis
    using one_page_inv one_page_free
    by (simp add: pg_inv_def recursive_dir_def present_def PAGE_TABLE_PRESENT_def frame_of_def PAGE_ALIGN_MASK_def
        PAGE_SIZE_def page_no_def) (simp add: empty_space_def)
qed

lemma empty_space_map_facts:
  assumes "TABLE_IN_DIRECTORY_INDEX v \<noteq> 1023"
  shows "pte empty_space v = 0" "dir_entry empty_space (TABLE_IN_DIRECTORY_INDEX v) = 0"
    "free_pages (pp_bitmap (pg_pp empty_space)) \<noteq> {}"
  using assms by (simp_all add: pte_def dir_entry_def empty_space_def one_page_free)

theorem address_space_map_unmap_witness:
  "\<exists>pg'. AddressSpace_map empty_space 0xC0000000 0x5000 3 3 False = Inr (True, pg') \<and>
     AddressSpace_virtualToPhysical pg' 0xC0000000 = Inr 0x5000"
proof -
  have t: "TABLE_IN_DIRECTORY_INDEX 0xC0000000 = 768" by (simp add: TABLE_IN_DIRECTORY_INDEX_def PAGE_SIZE_def)
  have "mappable 0xC0000000" "(0x5000 :: u32) AND PAGE_ALIGN_MASK = 0" "page_flags 3" "(3 :: u32) < 4096"
      "(3 :: u32) AND PAGE_TABLE_USERSPACE = 0"
    by (simp_all add: mappable_def t PAGE_ALIGN_MASK_def PAGE_SIZE_def page_flags_def present_def
        PAGE_TABLE_PRESENT_def PAGE_TABLE_USERSPACE_def)
  then show ?thesis
    using address_space_map_unmap [OF empty_space_inv, of "0xC0000000" "0x5000" 3 3]
      empty_space_map_facts [of "0xC0000000"] t by auto
qed

text \<open>
  C9. A page that is already mapped is never remapped silently: without \<open>allowOverride\<close>, \<open>map\<close>
  answers false and changes nothing; and a user mapping is never entered in a table the user may
  not access: that is a panic.
\<close>

theorem address_space_map_protects:
  assumes "pg_inv pg" and "mappable v" and "p AND PAGE_ALIGN_MASK = 0"
    and "dir_entry pg (TABLE_IN_DIRECTORY_INDEX v) \<noteq> 0"
  shows "if tf AND PAGE_TABLE_USERSPACE \<noteq> 0 \<and> dir_entry pg (TABLE_IN_DIRECTORY_INDEX v) AND PAGE_TABLE_USERSPACE = 0
    then AddressSpace_map pg v p tf pf ov = Inl (Panic ''tried to map user page in kernel space table'')
    else pte pg v \<noteq> 0 \<longrightarrow> AddressSpace_map pg v p tf pf False = Inr (False, pg)"
proof -
  have m: "PAGE_ALIGN_MASK AND PAGE_TABLE_USERSPACE = PAGE_TABLE_USERSPACE"
    by (simp add: PAGE_ALIGN_MASK_def PAGE_SIZE_def PAGE_TABLE_USERSPACE_def)
  have u: "(x AND PAGE_ALIGN_MASK) AND PAGE_TABLE_USERSPACE = x AND PAGE_TABLE_USERSPACE" for x
    by (simp add: and.assoc m)
  have "AddressSpace_map pg v p tf pf ov = Inl (Panic ''tried to map user page in kernel space table'')"
    if "tf AND PAGE_TABLE_USERSPACE \<noteq> 0" "dir_entry pg (TABLE_IN_DIRECTORY_INDEX v) AND PAGE_TABLE_USERSPACE = 0"
    using that assms pg_inv_recursive [OF assms(1)]
    by (simp add: AddressSpace_map_def mappable_def Let_def read_directory index_bounds u)
  moreover have "AddressSpace_map pg v p tf pf False = Inr (False, pg)"
    if "\<not> (tf AND PAGE_TABLE_USERSPACE \<noteq> 0 \<and> dir_entry pg (TABLE_IN_DIRECTORY_INDEX v) AND PAGE_TABLE_USERSPACE = 0)"
      "pte pg v \<noteq> 0"
    using map_existing_table [OF assms, of tf pf False] that by (auto simp: u)
  ultimately show ?thesis by auto
qed

definition kernel_space :: paging where
  "kernel_space = empty_space\<lparr>pg_mem := (\<lambda>_ _. 0)(0x2000 := (\<lambda>_. 0)(1023 := 0x2003, 768 := 0x3003),
     0x3000 := (\<lambda>_. 0)(0 := 0x5003))\<rparr>"

lemma kernel_space_inv: "pg_inv kernel_space"
proof -
  have d: "dir_entry kernel_space t = (if t = 1023 then 0x2003 else if t = 768 then 0x3003 else 0)" for t
    by (simp add: kernel_space_def empty_space_def dir_entry_def)
  have c: "pg_cr3 kernel_space = 0x2000" "pg_pp kernel_space = one_page" by (simp_all add: kernel_space_def empty_space_def)
  show ?thesis
    using one_page_inv one_page_free
    by (simp add: pg_inv_def recursive_dir_def d c present_def PAGE_TABLE_PRESENT_def frame_of_def PAGE_ALIGN_MASK_def
        PAGE_SIZE_def page_no_def)
qed

theorem address_space_map_protects_witness:
  "AddressSpace_map kernel_space 0xC0000000 0x6000 7 7 True =
     Inl (Panic ''tried to map user page in kernel space table'') \<and>
   AddressSpace_map kernel_space 0xC0000000 0x6000 3 3 False = Inr (False, kernel_space)"
proof -
  have t: "TABLE_IN_DIRECTORY_INDEX 0xC0000000 = 768" "PAGE_IN_TABLE_INDEX 0xC0000000 = 0"
    by (simp_all add: TABLE_IN_DIRECTORY_INDEX_def PAGE_IN_TABLE_INDEX_def PAGE_SIZE_def)
  have a: "mappable 0xC0000000" "(0x6000 :: u32) AND PAGE_ALIGN_MASK = 0"
    by (simp_all add: mappable_def t PAGE_ALIGN_MASK_def PAGE_SIZE_def)
  have d: "dir_entry kernel_space 768 = 0x3003" by (simp add: kernel_space_def empty_space_def dir_entry_def)
  then have e: "dir_entry kernel_space (TABLE_IN_DIRECTORY_INDEX 0xC0000000) \<noteq> 0" by (simp add: t)
  have "pte kernel_space 0xC0000000 = 0x5003"
    by (simp add: pte_def t d table_entry_def frame_of_def PAGE_ALIGN_MASK_def PAGE_SIZE_def) (simp add: kernel_space_def)
  then show ?thesis
    using address_space_map_protects [OF kernel_space_inv a e, of 7 7 True]
      address_space_map_protects [OF kernel_space_inv a e, of 3 3 False]
    by (simp add: t d PAGE_TABLE_USERSPACE_def)
qed

lemma pg_temp_update [simp]:
  "pg_inv (pg\<lparr>pg_temp := s\<rparr>) = pg_inv pg" "pte (pg\<lparr>pg_temp := s\<rparr>) va = pte pg va"
  "dir_entry (pg\<lparr>pg_temp := s\<rparr>) t = dir_entry pg t"
  by (simp_all add: pg_inv_def recursive_dir_def dir_entry_def pte_def table_entry_def)

text \<open>
  C10. Mapping a physical page temporarily takes an address from the pool of temporary addresses,
  at which the page is then visible; unmapping it returns the address to the pool, which again holds
  the same addresses in the same order, and restores every page table entry.
\<close>

theorem temporary_mapping_roundtrip:
  assumes "pg_inv pg" and "as_inv (pg_temp pg)" and "as_list (pg_temp pg) = v # vs" and "v \<noteq> 0" and "mappable v"
    and "p AND PAGE_ALIGN_MASK = 0" and "pte pg v = 0"
    and "dir_entry pg (TABLE_IN_DIRECTORY_INDEX v) \<noteq> 0 \<or> free_pages (pp_bitmap (pg_pp pg)) \<noteq> {}"
  shows "\<exists>pg' pg''. TemporaryPagingUtil_map pg p = Inr (v, pg') \<and> AddressSpace_virtualToPhysical pg' v = Inr p \<and>
    TemporaryPagingUtil_unmap pg' v = Inr pg'' \<and> as_list (pg_temp pg'') = v # vs \<and> as_inv (pg_temp pg'') \<and>
    pg_inv pg'' \<and> (\<forall>va. TABLE_IN_DIRECTORY_INDEX va < 1023 \<longrightarrow> pte pg'' va = pte pg va)"
proof -
  have t: "TABLE_IN_DIRECTORY_INDEX v < 1023" using assms(5) by (simp add: mappable_def)
  let ?pg = "pg\<lparr>pg_temp := snd (AddressStack_pop (pg_temp pg))\<rparr>"
  have pop: "AddressStack_pop (pg_temp pg) = (v, snd (AddressStack_pop (pg_temp pg)))"
      "as_list (snd (AddressStack_pop (pg_temp pg))) = vs"
    using ast.pop_Cons [OF assms(2,3)] by (auto simp: prod_eq_iff)
  have fl: "page_flags DEFAULT_KERNEL_TABLE_FLAGS" "DEFAULT_KERNEL_PAGE_FLAGS < 4096"
      "DEFAULT_KERNEL_TABLE_FLAGS AND PAGE_TABLE_USERSPACE = 0"
    by (simp_all add: DEFAULT_KERNEL_TABLE_FLAGS_def DEFAULT_KERNEL_PAGE_FLAGS_def page_flags_def present_def
        PAGE_TABLE_PRESENT_def PAGE_TABLE_USERSPACE_def)
  obtain pg' where m: "AddressSpace_map ?pg v p DEFAULT_KERNEL_TABLE_FLAGS DEFAULT_KERNEL_PAGE_FLAGS False = Inr (True, pg')"
      "pg_inv pg'" "pg_temp pg' = pg_temp ?pg" "dir_entry pg' (TABLE_IN_DIRECTORY_INDEX v) \<noteq> 0"
      "\<And>va. TABLE_IN_DIRECTORY_INDEX va < 1023 \<Longrightarrow>
         pte pg' va = (if same_page va v then p OR DEFAULT_KERNEL_PAGE_FLAGS else pte pg va)"
    using map_ok [of ?pg v p DEFAULT_KERNEL_TABLE_FLAGS False DEFAULT_KERNEL_PAGE_FLAGS, unfolded pg_temp_update] assms fl
    by auto
  obtain pg'' where u: "AddressSpace_unmap pg' v = Inr pg''" "pg_inv pg''" "pg_temp pg'' = pg_temp pg'"
      "\<And>va. TABLE_IN_DIRECTORY_INDEX va < 1023 \<Longrightarrow> pte pg'' va = (if same_page va v then 0 else pte pg' va)"
    using unmap_ok [OF m(2) t] by auto
  have "AddressSpace_virtualToPhysical pg' v = Inr p"
    using map_translates [OF m(2) assms(5) m(4) _ assms(6) fl(2)] m(5) [OF t] by (simp add: same_page_def)
  moreover have z: "pte pg va = 0" if "same_page va v" for va
    using that assms(7) by (auto simp: pte_def same_page_def split: if_splits)
  have "pte pg'' va = pte pg va" if "TABLE_IN_DIRECTORY_INDEX va < 1023" for va
    using m(5) [OF that] u(4) [OF that] z by auto
  moreover have "as_inv (pg_temp pg'')" "as_list (pg_temp pg'') = vs"
    using ast.invar_pop [OF assms(2)] m(3) u(3) pop(2) by simp_all
  moreover have "TemporaryPagingUtil_map pg p = Inr (v, pg')"
    unfolding TemporaryPagingUtil_map_def by (subst pop(1)) (simp add: assms(4) m(1))
  moreover have "TemporaryPagingUtil_unmap pg' v = Inr (pg''\<lparr>pg_temp := AddressStack_push (pg_temp pg'') v\<rparr>)"
    by (simp add: TemporaryPagingUtil_unmap_def u(1))
  ultimately show ?thesis
    using u(2)
    by (intro exI [of _ pg'] exI [of _ "pg''\<lparr>pg_temp := AddressStack_push (pg_temp pg'') v\<rparr>"])
      (simp add: ast.content_push ast.invar_push)
qed

theorem temporary_mapping_roundtrip_witness:
  "\<exists>pg'. TemporaryPagingUtil_map empty_space 0x5000 = Inr (0xFFB00000, pg') \<and>
     AddressSpace_virtualToPhysical pg' 0xFFB00000 = Inr 0x5000"
proof -
  have t: "TABLE_IN_DIRECTORY_INDEX 0xFFB00000 = 1022" by (simp add: TABLE_IN_DIRECTORY_INDEX_def PAGE_SIZE_def)
  have temp: "as_inv (pg_temp empty_space)" "as_list (pg_temp empty_space) = [0xFFB00000]"
    by (simp_all add: empty_space_def ast.invar_push as_inv_new as_list_push as_list_new)
  have "mappable 0xFFB00000" "(0x5000 :: u32) AND PAGE_ALIGN_MASK = 0" "(0xFFB00000 :: u32) \<noteq> 0"
    by (simp_all add: mappable_def t PAGE_ALIGN_MASK_def PAGE_SIZE_def)
  then show ?thesis
    using temporary_mapping_roundtrip [OF empty_space_inv temp, of "0x5000"] empty_space_map_facts [of "0xFFB00000"] t
    by auto
qed

end
