(* ===== verification/RangePool.thy ===== *)
theory RangePool
  imports PageAlloc
begin

text \<open>
  The pool of virtual address ranges (memory/collections/AddressRangePool.cpp), from which kernel
  and processes take runs of pages. The singly linked list of ranges is a list; a loop that
  dereferences the first range of an empty pool is a fault. The objects of the ranges are not
  taken from the modelled heap.
\<close>

section \<open>Ranges and operations\<close>

record address_range =
  ar_used :: bool
  ar_base :: u32
  ar_pages :: u32
  ar_flags :: u8

definition AddressRange_new :: address_range where
  "AddressRange_new = \<lparr>ar_used = False, ar_base = 0, ar_pages = 0, ar_flags = 0\<rparr>"

type_synonym range_pool = "address_range list"

function range_merge_loop :: "range_pool \<Rightarrow> range_pool" where
  "range_merge_loop (current # next # rest) =
     (if \<not> ar_used current \<and> \<not> ar_used next \<and> ar_base current + ar_pages current * PAGE_SIZE = ar_base next
      then range_merge_loop (current\<lparr>ar_pages := ar_pages current + ar_pages next\<rparr> # rest)
      else current # range_merge_loop (next # rest))"
| "range_merge_loop [current] = [current]"
| "range_merge_loop [] = []"
  by pat_completeness auto
termination by (relation "measure length") auto

definition AddressRangePool_merge :: "range_pool \<Rightarrow> range_pool kres" where
  "AddressRangePool_merge rs = (if rs = [] then Inl NullDeref else Inr (range_merge_loop rs))"

text \<open>The index of the last range with a lower base.\<close>

fun last_below :: "u32 \<Rightarrow> range_pool \<Rightarrow> nat \<Rightarrow> nat option \<Rightarrow> nat option" where
  "last_below b [] i acc = acc"
| "last_below b (rng # rs) i acc = last_below b rs (Suc i) (if ar_base rng < b then Some i else acc)"

definition AddressRangePool_initialize :: "range_pool \<Rightarrow> u32 \<Rightarrow> u32 \<Rightarrow> range_pool kres" where
  "AddressRangePool_initialize rs start end' =
     (let newRange = AddressRange_new\<lparr>ar_base := start, ar_used := False, ar_pages := (end' - start) div PAGE_SIZE\<rparr>
      in if rs = [] then AddressRangePool_merge [newRange]
         else case last_below start rs 0 None of
                Some i \<Rightarrow> AddressRangePool_merge (take (Suc i) rs @ newRange # drop (Suc i) rs)
              | None \<Rightarrow> AddressRangePool_merge (newRange # rs))"

definition AddressRangePool_initialize_clone :: "range_pool \<Rightarrow> range_pool kres" where
  "AddressRangePool_initialize_clone other = (if other = [] then Inl NullDeref else Inr other)"

text \<open>The search of \<open>allocate\<close> for the first range that fits, and what it does with it.\<close>

fun allocate_range :: "u32 \<Rightarrow> u8 \<Rightarrow> range_pool \<Rightarrow> range_pool \<times> u32" where
  "allocate_range requestedPages flags [] = ([], 0)"
| "allocate_range requestedPages flags (rng # rs) =
     (if \<not> ar_used rng \<and> ar_pages rng \<ge> requestedPages then
        let remainingPages = ar_pages rng - requestedPages in
        if sint remainingPages > 0 then
          let splinter = AddressRange_new\<lparr>ar_used := False, ar_pages := remainingPages, ar_base := ar_base rng + requestedPages * PAGE_SIZE\<rparr>
          in (rng\<lparr>ar_used := True, ar_flags := flags, ar_pages := requestedPages\<rparr> # splinter # rs, ar_base rng)
        else (rng\<lparr>ar_used := True, ar_flags := flags\<rparr> # rs, ar_base rng)
      else (case allocate_range requestedPages flags rs of (rs', base) \<Rightarrow> (rng # rs', base)))"

definition AddressRangePool_allocate :: "range_pool \<Rightarrow> u32 \<Rightarrow> u8 \<Rightarrow> range_pool \<times> u32" where
  "AddressRangePool_allocate rs pages flags = allocate_range (if pages = 0 then 1 else pages) flags rs"

fun find_base :: "u32 \<Rightarrow> range_pool \<Rightarrow> nat option" where
  "find_base base [] = None"
| "find_base base (rng # rs) = (if ar_base rng = base then Some 0 else map_option Suc (find_base base rs))"

definition AddressRangePool_free :: "range_pool \<Rightarrow> u32 \<Rightarrow> (range_pool \<times> i32) kres" where
  "AddressRangePool_free rs base =
     (if rs = [] then Inl NullDeref
      else case find_base base rs of
             None \<Rightarrow> Inr (rs, - 1)
           | Some i \<Rightarrow>
               if \<not> ar_used (rs ! i) then Inr (rs, - 1)
               else kbind (AddressRangePool_merge (rs[i := (rs ! i)\<lparr>ar_used := False\<rparr>]))
                      (\<lambda>rs'. Inr (rs', ar_pages (rs ! i))))"

definition AddressRangePool_getRanges :: "range_pool \<Rightarrow> range_pool" where
  "AddressRangePool_getRanges rs = rs"

section \<open>Ranges as intervals\<close>

definition rbase :: "address_range \<Rightarrow> nat" where "rbase r = unat (ar_base r)"
definition rpages :: "address_range \<Rightarrow> nat" where "rpages r = unat (ar_pages r)"
definition rend :: "address_range \<Rightarrow> nat" where "rend r = rbase r + rpages r * 4096"

definition range_ok :: "address_range \<Rightarrow> bool" where
  "range_ok r \<longleftrightarrow> 0 < rbase r \<and> 0 < rpages r \<and> rend r < 2 ^ 32"

definition before :: "address_range \<Rightarrow> address_range \<Rightarrow> bool" where
  "before a b \<longleftrightarrow> rend a \<le> rbase b"

text \<open>Two free ranges that follow each other without a gap, which \<open>merge\<close> joins.\<close>

definition joinable :: "address_range \<Rightarrow> address_range \<Rightarrow> bool" where
  "joinable a b \<longleftrightarrow> \<not> ar_used a \<and> \<not> ar_used b \<and> rend a = rbase b"

definition pool_sorted :: "range_pool \<Rightarrow> bool" where
  "pool_sorted rs \<longleftrightarrow> sorted_wrt before rs \<and> (\<forall>r \<in> set rs. range_ok r)"

definition pool_ok :: "range_pool \<Rightarrow> bool" where
  "pool_ok rs \<longleftrightarrow> pool_sorted rs \<and> successively (\<lambda>a b. \<not> joinable a b) rs"

definition addresses :: "address_range \<Rightarrow> nat set" where
  "addresses r = {rbase r..<rend r}"

definition free_space :: "range_pool \<Rightarrow> nat set" where
  "free_space rs = (\<Union>r \<in> {r \<in> set rs. \<not> ar_used r}. addresses r)"

definition allocated :: "range_pool \<Rightarrow> (nat \<times> nat) set" where
  "allocated rs = (\<lambda>r. (rbase r, rpages r)) ` {r \<in> set rs. ar_used r}"

lemma free_space_simps [simp]:
  "free_space [] = {}" "free_space (r # rs) = (if ar_used r then {} else addresses r) \<union> free_space rs"
  "free_space (rs @ rs') = free_space rs \<union> free_space rs'"
  by (auto simp: free_space_def)

lemma allocated_simps [simp]:
  "allocated [] = {}" "allocated (r # rs) = (if ar_used r then {(rbase r, rpages r)} else {}) \<union> allocated rs"
  "allocated (rs @ rs') = allocated rs \<union> allocated rs'"
  by (auto simp: allocated_def)

lemma rend_word:
  assumes "range_ok r"
  shows "unat (ar_base r + ar_pages r * PAGE_SIZE) = rend r" and "rpages r < 2 ^ 20"
proof -
  have b: "rbase r + rpages r * 4096 < 2 ^ 32" using assms by (simp add: range_ok_def rend_def)
  then show "rpages r < 2 ^ 20" by simp
  have "unat (ar_pages r * PAGE_SIZE) = rpages r * 4096"
    using b by (simp add: unat_word_ariths PAGE_SIZE_def rpages_def)
  then show "unat (ar_base r + ar_pages r * PAGE_SIZE) = rend r"
    using b by (simp add: unat_word_ariths rend_def rbase_def)
qed

lemma joinable_word:
  "range_ok a \<Longrightarrow> \<not> ar_used a \<and> \<not> ar_used b \<and> ar_base a + ar_pages a * PAGE_SIZE = ar_base b \<longleftrightarrow> joinable a b"
  using rend_word(1) [of a] by (auto simp: joinable_def rbase_def word_unat_eq_iff)

lemma join_range:
  assumes "range_ok a" and "range_ok b" and "joinable a b"
  defines "c \<equiv> a\<lparr>ar_pages := ar_pages a + ar_pages b\<rparr>"
  shows "rbase c = rbase a" and "rend c = rend b" and "range_ok c" and "addresses c = addresses a \<union> addresses b"
proof -
  have "rpages a + rpages b < 2 ^ 32" using rend_word(2) [OF assms(1)] rend_word(2) [OF assms(2)] by simp
  then have p: "rpages c = rpages a + rpages b" by (simp add: c_def rpages_def unat_word_ariths)
  show b: "rbase c = rbase a" by (simp add: c_def rbase_def)
  show e: "rend c = rend b" using assms(3) p b by (simp add: rend_def joinable_def)
  show "range_ok c" using assms(1,2) b e p by (simp add: range_ok_def)
  have "rbase a \<le> rbase b" "rbase b \<le> rend b" using assms(3) by (simp_all add: joinable_def rend_def)
  then show "addresses c = addresses a \<union> addresses b" using assms(3) b e by (auto simp: addresses_def joinable_def)
qed

section \<open>Merging\<close>

lemma pool_sorted_Cons:
  assumes "pool_sorted rs" and "range_ok a" and "rs \<noteq> [] \<longrightarrow> rend a \<le> rbase (hd rs)"
  shows "pool_sorted (a # rs)"
proof -
  have "before a r" if "r \<in> set rs" for r
  proof (cases rs)
    case (Cons b rest)
    have "rbase b \<le> rbase r"
    proof (cases "r = b")
      case False
      then have "before b r" using that assms(1) Cons by (auto simp: pool_sorted_def)
      then show ?thesis by (simp add: before_def rend_def)
    qed simp
    then show ?thesis using assms(3) Cons by (simp add: before_def)
  qed (use that in simp)
  then show ?thesis using assms(1,2) by (auto simp: pool_sorted_def)
qed

lemma pool_ok_Cons:
  assumes "pool_ok rs" and "range_ok a" and "rs \<noteq> [] \<longrightarrow> rend a \<le> rbase (hd rs) \<and> \<not> joinable a (hd rs)"
  shows "pool_ok (a # rs)"
  using assms pool_sorted_Cons [of rs a] by (cases rs) (auto simp: pool_ok_def)

lemma range_merge_spec:
  "pool_sorted rs \<Longrightarrow> pool_ok (range_merge_loop rs) \<and> free_space (range_merge_loop rs) = free_space rs \<and> allocated (range_merge_loop rs) = allocated rs \<and>
    (rs = [] \<longleftrightarrow> range_merge_loop rs = []) \<and> (rs \<noteq> [] \<longrightarrow> rbase (hd (range_merge_loop rs)) = rbase (hd rs) \<and> ar_used (hd (range_merge_loop rs)) = ar_used (hd rs))"
proof (induction rs rule: range_merge_loop.induct [case_names two one none])
  case (two a b rest)
  have ok: "range_ok a" "range_ok b" "before a b" "pool_sorted (b # rest)" "\<forall>r \<in> set rest. before a r \<and> before b r"
    using two.prems by (auto simp: pool_sorted_def)
  show ?case
  proof (cases "joinable a b")
    case True
    let ?c = "a\<lparr>ar_pages := ar_pages a + ar_pages b\<rparr>"
    note j = join_range [OF ok(1,2) True]
    have "pool_sorted (?c # rest)" using ok j by (auto simp: pool_sorted_def before_def)
    moreover have "\<not> ar_used a" "\<not> ar_used b" "\<not> ar_used ?c" using True by (simp_all add: joinable_def)
    ultimately show ?thesis
      using two.IH(1) True j joinable_word [OF ok(1), of b] by (simp add: Un_assoc)
  next
    case False
    then have m: "range_merge_loop (a # b # rest) = a # range_merge_loop (b # rest)" using joinable_word [OF ok(1), of b] by auto
    let ?M = "range_merge_loop (b # rest)"
    have IH: "pool_ok ?M" "free_space ?M = free_space (b # rest)" "allocated ?M = allocated (b # rest)" "?M \<noteq> []"
        "rbase (hd ?M) = rbase b" "ar_used (hd ?M) = ar_used b"
      using two.IH(2) [OF _ ok(4)] False joinable_word [OF ok(1), of b] by auto
    have "pool_ok (a # ?M)"
      by (rule pool_ok_Cons) (use IH ok(1,3) False in \<open>auto simp: before_def joinable_def\<close>)
    then show ?thesis using IH(2-4) unfolding m by simp
  qed
qed (simp_all add: pool_ok_def)


lemma merge_spec:
  "pool_sorted rs \<Longrightarrow> rs \<noteq> [] \<Longrightarrow> \<exists>rs'. AddressRangePool_merge rs = Inr rs' \<and> pool_ok rs' \<and> rs' \<noteq> [] \<and>
    free_space rs' = free_space rs \<and> allocated rs' = allocated rs"
  using range_merge_spec [of rs] by (simp add: AddressRangePool_merge_def)

section \<open>Allocation\<close>

text \<open>In a well-formed pool a run of free addresses lies in one range.\<close>

lemma run_in_one_range:
  assumes ok: "pool_ok rs" and run: "{x..<y} \<subseteq> free_space rs" and xy: "x < y"
  shows "\<exists>r \<in> set rs. \<not> ar_used r \<and> rbase r \<le> x \<and> y \<le> rend r"
  using ok run
proof (induction rs)
  case (Cons a rs)
  have ok: "pool_ok rs" "range_ok a" "\<forall>r \<in> set rs. before a r" "\<forall>r \<in> set rs. range_ok r"
    using Cons.prems(1) by (cases rs; auto simp: pool_ok_def pool_sorted_def)+
  have above: "rend a \<le> z" if "z \<in> free_space rs" for z
    using that ok(3) by (auto simp: free_space_def addresses_def before_def)
  show ?case
  proof (cases "x \<in> addresses a \<and> \<not> ar_used a")
    case True
    then have x: "rbase a \<le> x" "x < rend a" "\<not> ar_used a" by (simp_all add: addresses_def)
    have "y \<le> rend a"
    proof (rule ccontr)
      assume "\<not> y \<le> rend a"
      then have "rend a \<in> {x..<y}" using x by simp
      then have "rend a \<in> free_space (a # rs)" using Cons.prems(2) by blast
      then have "rend a \<in> free_space rs" by (auto simp: addresses_def split: if_splits)
      then obtain r where r: "r \<in> set rs" "\<not> ar_used r" "rbase r \<le> rend a" by (auto simp: free_space_def addresses_def)
      then obtain b rest where rs: "rs = b # rest" by (cases rs) auto
      have "b = r"
      proof (rule ccontr)
        assume "b \<noteq> r"
        then have "before b r" using r(1) ok(1) rs by (auto simp: pool_ok_def pool_sorted_def)
        moreover have "before a b" "range_ok b" using ok(3,4) rs by simp_all
        ultimately show False using r(3) by (simp add: before_def range_ok_def rend_def)
      qed
      moreover have "before a r" using ok(3) r(1) by blast
      ultimately have "joinable a b" using r x(3) by (simp add: joinable_def before_def)
      then show False using Cons.prems(1) rs by (simp add: pool_ok_def)
    qed
    then show ?thesis using x by auto
  next
    case False
    have "x \<in> free_space (a # rs)" using Cons.prems(2) xy by auto
    then have "x \<in> free_space rs" using False by (auto split: if_splits)
    then have "rend a \<le> x" by (rule above)
    then have "{x..<y} \<subseteq> free_space rs" using Cons.prems(2) by (auto simp: addresses_def split: if_splits)
    then show ?thesis using Cons.IH ok(1) by auto
  qed
qed (use xy in auto)

definition run_block :: "nat \<Rightarrow> nat \<Rightarrow> nat set" where
  "run_block b n = {b..<b + n * 4096}"

text \<open>What taking \<open>n\<close> pages from a free range does, with or without a rest.\<close>

lemma split_range:
  fixes flags :: u8
  assumes a: "range_ok a" "\<not> ar_used a" and n: "0 < n" "n \<le> ar_pages a"
  defines "u \<equiv> a\<lparr>ar_used := True, ar_flags := flags, ar_pages := n\<rparr>"
    and "s \<equiv> AddressRange_new\<lparr>ar_used := False, ar_pages := ar_pages a - n, ar_base := ar_base a + n * PAGE_SIZE\<rparr>"
  shows "rbase u = rbase a" "rpages u = unat n" "range_ok u" "rend u = rbase a + unat n * 4096" "rend u \<le> rend a"
    and "sint (ar_pages a - n) > 0 \<longleftrightarrow> unat n < rpages a"
    and "unat n < rpages a \<Longrightarrow> rbase s = rend u \<and> rend s = rend a \<and> range_ok s"
proof -
  have le: "unat n \<le> rpages a" "0 < unat n" using n by (simp_all add: rpages_def word_le_nat_alt unat_gt_0)
  have sm: "rpages a < 2 ^ 20" by (rule rend_word(2) [OF a(1)])
  show u: "rbase u = rbase a" "rpages u = unat n" by (simp_all add: u_def rbase_def rpages_def)
  show ue: "rend u = rbase a + unat n * 4096" using u by (simp add: rend_def)
  show ul: "rend u \<le> rend a" using le(1) unfolding ue by (simp add: rend_def)
  show uo: "range_ok u" using a(1) u ul le(2) by (simp add: range_ok_def)
  have rem: "unat (ar_pages a - n) = rpages a - unat n" using n(2) by (simp add: unat_sub rpages_def)
  have "sint (ar_pages a - n) = int (unat (ar_pages a - n))" using rem sm by (intro sint_small) simp
  then show "sint (ar_pages a - n) > 0 \<longleftrightarrow> unat n < rpages a" using rem by simp
  assume lt: "unat n < rpages a"
  have "unat (ar_base a + n * PAGE_SIZE) = rend u"
    using rend_word(1) [OF uo] by (simp add: u_def)
  then have "rbase s = rend u" "rpages s = rpages a - unat n" using rem by (simp_all add: s_def rbase_def rpages_def)
  moreover from this have "rend s = rend a" using lt ue by (simp add: rend_def algebra_simps)
  ultimately show "rbase s = rend u \<and> rend s = rend a \<and> range_ok s"
    using a(1) uo lt by (simp add: range_ok_def rend_def)
qed

lemma rest_above:
  "pool_ok (a # rs) \<Longrightarrow> x \<in> free_space rs \<Longrightarrow> rend a \<le> x"
  by (auto simp: pool_ok_def pool_sorted_def before_def free_space_def addresses_def)

lemma pool_okD: "pool_ok (a # rs) \<Longrightarrow> range_ok a \<and> pool_ok rs \<and> (rs \<noteq> [] \<longrightarrow> rend a \<le> rbase (hd rs) \<and> \<not> joinable a (hd rs))"
  by (cases rs) (auto simp: pool_ok_def pool_sorted_def before_def)

lemma cut_front:
  "\<forall>x \<in> F. e \<le> x \<Longrightarrow> b \<le> m \<Longrightarrow> m \<le> e \<Longrightarrow> ({b..<e} \<union> F) - {b..<m} = {m..<e} \<union> (F :: nat set)"
  by fastforce

lemma allocate_range_spec:
  assumes n: "0 < n"
  shows "pool_ok rs \<Longrightarrow> allocate_range n flags rs = (rs', b) \<Longrightarrow>
    (b = 0 \<and> rs' = rs \<and> (\<forall>r \<in> set rs. \<not> ar_used r \<longrightarrow> rpages r < unat n)) \<or>
    (b \<noteq> 0 \<and> pool_ok rs' \<and> run_block (unat b) (unat n) \<subseteq> free_space rs \<and> free_space rs' = free_space rs - run_block (unat b) (unat n) \<and>
     allocated rs' = insert (unat b, unat n) (allocated rs) \<and> rs' \<noteq> [] \<and> rbase (hd rs') = rbase (hd rs) \<and> (hd rs' = hd rs \<or> ar_used (hd rs')))"
proof (induction rs arbitrary: rs')
  case (Cons a rs)
  note a = pool_okD [OF Cons.prems(1)]
  show ?case
  proof (cases "\<not> ar_used a \<and> ar_pages a \<ge> n")
    case True
    let ?u = "a\<lparr>ar_used := True, ar_flags := flags, ar_pages := n\<rparr>"
    let ?s = "AddressRange_new\<lparr>ar_used := False, ar_pages := ar_pages a - n, ar_base := ar_base a + n * PAGE_SIZE\<rparr>"
    note sp = split_range [OF conjunct1 [OF a] _ n]
    have u: "rbase ?u = rbase a" "rpages ?u = unat n" "range_ok ?u" "rend ?u = rbase a + unat n * 4096" "rend ?u \<le> rend a"
        "sint (ar_pages a - n) > 0 \<longleftrightarrow> unat n < rpages a" "unat n < rpages a \<Longrightarrow> rbase ?s = rend ?u \<and> rend ?s = rend a \<and> range_ok ?s"
      using sp True by blast+
    have b: "b = ar_base a" "b \<noteq> 0" using Cons.prems(2) True a by (auto simp: Let_def range_ok_def rbase_def split: if_splits)
    have blk: "run_block (unat b) (unat n) = {rbase a..<rend ?u}" using b u(4) by (simp add: run_block_def rbase_def)
    have ab: "rend a \<le> x" if "x \<in> free_space rs" for x by (rule rest_above [OF Cons.prems(1) that])
    have cut: "free_space (a # rs) - run_block (unat b) (unat n) = {rend ?u..<rend a} \<union> free_space rs"
      using cut_front [of "free_space rs" "rend a" "rbase a" "rend ?u"] ab u(4,5) True unfolding blk by (simp add: addresses_def)
    have sub: "run_block (unat b) (unat n) \<subseteq> free_space (a # rs)" using u(5) True unfolding blk by (simp add: addresses_def le_supI1)
    have ub: "rbase a = unat b" using b by (simp add: rbase_def)
    show ?thesis
    proof (cases "unat n < rpages a")
      case lt: True
      then have rs': "rs' = ?u # ?s # rs" using Cons.prems(2) True u(6) by (auto simp: Let_def)
      have "pool_ok (?s # rs)" using a u(7) [OF lt] True by - (rule pool_ok_Cons; auto simp: joinable_def)
      then have "pool_ok rs'" unfolding rs' using u(3,7) lt by - (rule pool_ok_Cons; auto simp: joinable_def)
      moreover have "free_space rs' = free_space (a # rs) - run_block (unat b) (unat n)"
        unfolding cut rs' using u(7) [OF lt] by (simp add: addresses_def AddressRange_new_def)
      moreover have "allocated rs' = insert (unat b, unat n) (allocated (a # rs))" using u(1,2) ub True unfolding rs' by (simp add: AddressRange_new_def)
      ultimately show ?thesis using b(2) sub u(1) unfolding rs' by simp
    next
      case False
      then have eq: "unat n = rpages a" using True by (simp add: rpages_def word_le_nat_alt)
      then have "n = ar_pages a" by (simp add: rpages_def word_unat_eq_iff)
      then have rs': "rs' = ?u # rs" using Cons.prems(2) True u(6) False by (auto simp: Let_def)
      have re: "rend ?u = rend a" using eq u(4) by (simp add: rend_def)
      then have "pool_ok rs'" unfolding rs' using a u(3) by - (rule pool_ok_Cons; auto simp: joinable_def)
      moreover have "free_space rs' = free_space (a # rs) - run_block (unat b) (unat n)"
        unfolding cut rs' using re by simp
      moreover have "allocated rs' = insert (unat b, unat n) (allocated (a # rs))" using u(1,2) ub True unfolding rs' by simp
      ultimately show ?thesis using b(2) sub u(1) unfolding rs' by simp
    qed
  next
    case False
    obtain rs'' where r: "allocate_range n flags rs = (rs'', b)" "rs' = a # rs''"
      using Cons.prems(2) False by (auto split: prod.splits)
    have small: "\<not> ar_used a \<longrightarrow> rpages a < unat n" using False by (auto simp: rpages_def word_le_nat_alt)
    have ab: "rend a \<le> x" if "x \<in> free_space rs" for x by (rule rest_above [OF Cons.prems(1) that])
    from Cons.IH [OF _ r(1)] a consider
        "b = 0" "rs'' = rs" "\<forall>r \<in> set rs. \<not> ar_used r \<longrightarrow> rpages r < unat n"
      | "b \<noteq> 0" "pool_ok rs''" "run_block (unat b) (unat n) \<subseteq> free_space rs" "free_space rs'' = free_space rs - run_block (unat b) (unat n)"
        "allocated rs'' = insert (unat b, unat n) (allocated rs)" "rs'' \<noteq> []" "rbase (hd rs'') = rbase (hd rs)" "hd rs'' = hd rs \<or> ar_used (hd rs'')"
      by blast
    then show ?thesis
    proof cases
      case 1
      then show ?thesis using r(2) small by simp
    next
      case 2
      have "rs \<noteq> []" using 2(3) n by (auto simp: run_block_def unat_gt_0)
      then have "pool_ok rs'" unfolding r(2) using 2 a by - (rule pool_ok_Cons; auto simp: joinable_def)
      moreover have "addresses a \<inter> run_block (unat b) (unat n) = {}" using 2(3) ab by (fastforce simp: addresses_def)
      ultimately show ?thesis using 2 r(2) by auto
    qed
  qed
qed simp

lemma allocate_spec:
  assumes ok: "pool_ok rs" and n: "n \<noteq> 0" and al: "AddressRangePool_allocate rs n flags = (rs', b)"
  shows "if b = 0 then rs' = rs \<and> (\<forall>x. \<not> run_block x (unat n) \<subseteq> free_space rs)
    else pool_ok rs' \<and> rs' \<noteq> [] \<and> run_block (unat b) (unat n) \<subseteq> free_space rs \<and> free_space rs' = free_space rs - run_block (unat b) (unat n) \<and>
      allocated rs' = insert (unat b, unat n) (allocated rs)"
proof -
  have n0: "0 < n" using n by (simp add: word_neq_0_conv)
  have "\<not> run_block x (unat n) \<subseteq> free_space rs" if all: "\<forall>r \<in> set rs. \<not> ar_used r \<longrightarrow> rpages r < unat n" for x
  proof
    assume "run_block x (unat n) \<subseteq> free_space rs"
    then obtain r where "r \<in> set rs" "\<not> ar_used r" "rbase r \<le> x" "x + unat n * 4096 \<le> rend r"
      using run_in_one_range [OF ok, of x "x + unat n * 4096"] n0 by (auto simp: run_block_def unat_gt_0)
    then show False using all by (fastforce simp: rend_def)
  qed
  then show ?thesis
    using allocate_range_spec [OF n0 ok, of flags rs' b] al n by (auto simp: AddressRangePool_allocate_def)
qed

section \<open>Release and insertion\<close>

lemma range_update_simps [simp]:
  "rbase (r\<lparr>ar_used := u\<rparr>) = rbase r" "rpages (r\<lparr>ar_used := u\<rparr>) = rpages r" "rend (r\<lparr>ar_used := u\<rparr>) = rend r"
  "range_ok (r\<lparr>ar_used := u\<rparr>) = range_ok r" "before (r\<lparr>ar_used := u\<rparr>) x = before r x" "before x (r\<lparr>ar_used := u\<rparr>) = before x r"
  "addresses (r\<lparr>ar_used := u\<rparr>) = addresses r"
  by (simp_all add: rbase_def rpages_def rend_def range_ok_def before_def addresses_def)

lemma pool_split:
  assumes "pool_sorted (xs @ r # ys)" and "x \<in> set (xs @ ys)"
  shows "rbase x \<noteq> rbase r" and "addresses x \<inter> addresses r = {}"
proof -
  have "before x r \<or> before r x" "range_ok r" "range_ok x" using assms by (auto simp: pool_sorted_def sorted_wrt_append)
  then show "rbase x \<noteq> rbase r" "addresses x \<inter> addresses r = {}"
    by (auto simp: before_def range_ok_def rend_def addresses_def)
qed

lemma find_base_spec:
  "case find_base b rs of None \<Rightarrow> \<forall>r \<in> set rs. rbase r \<noteq> unat b
   | Some i \<Rightarrow> i < length rs \<and> rbase (rs ! i) = unat b"
  by (induction rs) (auto simp: rbase_def word_unat_eq_iff split: option.splits)

lemma range_free_spec:
  assumes ok: "pool_ok rs" and live: "(unat b, n) \<in> allocated rs"
  shows "\<exists>rs'. AddressRangePool_free rs b = Inr (rs', of_nat n) \<and> pool_ok rs' \<and> rs' \<noteq> [] \<and>
    free_space rs' = free_space rs \<union> run_block (unat b) n \<and> allocated rs' = allocated rs - {(unat b, n)}"
proof -
  obtain r0 where r0: "r0 \<in> set rs" "ar_used r0" "rbase r0 = unat b" "rpages r0 = n" using live by (auto simp: allocated_def)
  then obtain i where i: "find_base b rs = Some i" "i < length rs" "rbase (rs ! i) = unat b"
    using find_base_spec [of rs b] by (auto split: option.splits)
  define r xs ys where r: "r = rs ! i" and xy: "xs = take i rs" "ys = drop (Suc i) rs"
  have rs: "rs = xs @ r # ys" using i(2) by (simp add: r xy id_take_nth_drop [symmetric])
  have srt: "pool_sorted (xs @ r # ys)" using ok by (simp add: pool_ok_def flip: rs)
  have "rbase r0 = rbase r" using r0(3) i(3) by (simp add: r)
  moreover have "r0 = r \<or> r0 \<in> set (xs @ ys)" using r0(1) unfolding rs by auto
  ultimately have "r0 = r" using pool_split(1) [OF srt, of r0] by blast
  then have u: "ar_used r" "rpages r = n" "rbase r = unat b" using r0 by simp_all
  let ?r = "r\<lparr>ar_used := False\<rparr>"
  have "pool_sorted (xs @ ?r # ys)" using srt by (auto simp: pool_sorted_def sorted_wrt_append)
  then obtain rs' where m: "AddressRangePool_merge (xs @ ?r # ys) = Inr rs'" "pool_ok rs'" "rs' \<noteq> []"
      "free_space rs' = free_space (xs @ ?r # ys)" "allocated rs' = allocated (xs @ ?r # ys)"
    using merge_spec [of "xs @ ?r # ys"] by auto
  have up: "rs[i := ?r] = xs @ ?r # ys" using i(2) by (simp add: xy upd_conv_take_nth_drop)
  have "(unat b, n) \<notin> allocated (xs @ ys)"
  proof
    assume "(unat b, n) \<in> allocated (xs @ ys)"
    then obtain x where "x \<in> set (xs @ ys)" "rbase x = unat b" unfolding allocated_def by (elim imageE) (simp, metis)
    then show False using pool_split(1) [OF srt, of x] u(3) by simp
  qed
  then have "allocated rs' = allocated rs - {(unat b, n)}" unfolding m(5) using u by (subst rs) auto
  moreover have "free_space rs' = free_space rs \<union> run_block (unat b) n"
    unfolding m(4) using u by (subst rs) (auto simp: addresses_def run_block_def rend_def)
  moreover have "AddressRangePool_free rs b = Inr (rs', of_nat n)"
  proof -
    have "rs \<noteq> []" "of_nat n = ar_pages r" using i(2) u(2) by (auto simp: rpages_def)
    then show ?thesis unfolding AddressRangePool_free_def i(1) using u(1) m(1) by (simp add: up flip: r)
  qed
  ultimately show ?thesis using m(2,3) by blast
qed

lemma free_unknown:
  assumes "pool_ok rs" and "rs \<noteq> []" and "\<forall>n. (unat b, n) \<notin> allocated rs"
  shows "AddressRangePool_free rs b = Inr (rs, - 1)"
proof (cases "find_base b rs")
  case (Some i)
  then have i: "rs ! i \<in> set rs" "rbase (rs ! i) = unat b" using find_base_spec [of rs b] by simp_all
  have "\<not> ar_used (rs ! i)"
  proof
    assume "ar_used (rs ! i)"
    then have "(unat b, rpages (rs ! i)) \<in> allocated rs" using i unfolding allocated_def by (intro image_eqI [of _ _ "rs ! i"]) simp_all
    then show False using assms(3) by blast
  qed
  then show ?thesis using Some assms(2) by (simp add: AddressRangePool_free_def)
qed (use assms(2) in \<open>simp add: AddressRangePool_free_def\<close>)

lemma last_below_append: "last_below b (xs @ ys) i acc = last_below b ys (i + length xs) (last_below b xs i acc)"
  by (induction xs arbitrary: i acc) auto

lemma last_below_none: "\<forall>r \<in> set rs. \<not> ar_base r < b \<Longrightarrow> last_below b rs i acc = acc"
  by (induction rs arbitrary: i acc) auto

lemma last_below_all: "\<forall>r \<in> set rs. ar_base r < b \<Longrightarrow> last_below b rs i acc = (if rs = [] then acc else Some (i + length rs - 1))"
  by (induction rs arbitrary: i acc) auto

lemma pool_sorted_bases:
  assumes "pool_sorted rs"
  shows "\<exists>xs ys. rs = xs @ ys \<and> (\<forall>r \<in> set xs. rbase r < k) \<and> (\<forall>r \<in> set ys. k \<le> rbase r)"
  using assms
proof (induction rs)
  case (Cons a rs)
  have s: "pool_sorted rs" "\<forall>r \<in> set rs. rbase a \<le> rbase r"
    using Cons.prems by (auto simp: pool_sorted_def before_def rend_def intro: order_trans [OF le_add1])
  show ?case
  proof (cases "rbase a < k")
    case True
    obtain xs ys where "rs = xs @ ys" "\<forall>r \<in> set xs. rbase r < k" "\<forall>r \<in> set ys. k \<le> rbase r" using Cons.IH [OF s(1)] by auto
    then show ?thesis using True by (intro exI [of _ "a # xs"] exI [of _ ys]) simp
  next
    case False
    then show ?thesis using s(2) by (intro exI [of _ "[]"] exI [of _ "a # rs"]) auto
  qed
qed simp

lemma initialize_spec:
  assumes ok: "pool_ok rs" and s: "0 < start" "start < end'"
    and n: "n = unat (end' - start) div 4096" "0 < n" and free: "\<forall>r \<in> set rs. rend r \<le> unat start \<or> unat start + n * 4096 \<le> rbase r"
  shows "\<exists>rs'. AddressRangePool_initialize rs start end' = Inr rs' \<and> pool_ok rs' \<and> rs' \<noteq> [] \<and>
    free_space rs' = free_space rs \<union> run_block (unat start) n \<and> allocated rs' = allocated rs"
proof -
  let ?new = "AddressRange_new\<lparr>ar_base := start, ar_used := False, ar_pages := (end' - start) div PAGE_SIZE\<rparr>"
  have sub: "unat (end' - start) = unat end' - unat start" using s(2) by (simp add: unat_sub)
  have w: "rbase ?new = unat start" "rpages ?new = n" using n by (simp_all add: rbase_def rpages_def unat_div PAGE_SIZE_def)
  then have e: "rend ?new = unat start + n * 4096" by (simp add: rend_def)
  have "n * 4096 \<le> unat end' - unat start" using n(1) sub by (metis div_times_less_eq_dividend)
  moreover have "unat start \<le> unat end'" using s(2) by (simp add: word_less_nat_alt)
  ultimately have "rend ?new \<le> unat end'" unfolding e by simp
  then have nok: "range_ok ?new" using w s(1) n(2) u32_bound [of end'] by (simp add: range_ok_def unat_gt_0 word_neq_0_conv)
  obtain xs ys where xy: "rs = xs @ ys" "\<forall>r \<in> set xs. rbase r < unat start" "\<forall>r \<in> set ys. unat start \<le> rbase r"
    using pool_sorted_bases [of rs "unat start"] ok by (auto simp: pool_ok_def)
  have srt: "pool_sorted (xs @ ys)" using ok xy(1) by (simp add: pool_ok_def)
  have "before r ?new" if "r \<in> set xs" for r
  proof -
    have "rbase r < unat start" using that xy(2) by simp
    moreover have "rend r \<le> unat start \<or> unat start + n * 4096 \<le> rbase r" using free that xy(1) by simp
    ultimately show ?thesis unfolding before_def w(1) by linarith
  qed
  moreover have "before ?new r" if "r \<in> set ys" for r
  proof -
    have "range_ok r" using that srt by (auto simp: pool_sorted_def)
    then have "unat start < rend r" "unat start \<le> rbase r" using that xy(3) by (auto simp: range_ok_def rend_def)
    moreover have "rend r \<le> unat start \<or> unat start + n * 4096 \<le> rbase r" using free that xy(1) by simp
    ultimately show ?thesis unfolding before_def e by linarith
  qed
  ultimately have new: "pool_sorted (xs @ ?new # ys)" using srt nok by (auto simp: pool_sorted_def sorted_wrt_append)
  have below: "\<forall>r \<in> set xs. ar_base r < start" "\<forall>r \<in> set ys. \<not> ar_base r < start"
    using xy(2,3) by (auto simp: rbase_def word_less_nat_alt)
  have lb: "last_below start rs 0 None = (if xs = [] then None else Some (length xs - 1))"
    unfolding xy(1) last_below_append using last_below_none [OF below(2)] last_below_all [OF below(1)] by simp
  have "AddressRangePool_initialize rs start end' = AddressRangePool_merge (xs @ ?new # ys)"
  proof (cases "xs = []")
    case True
    then show ?thesis using lb xy(1) by (simp add: AddressRangePool_initialize_def Let_def)
  next
    case False
    then have "Suc (length xs - 1) = length xs" by simp
    then show ?thesis using lb xy(1) False by (simp add: AddressRangePool_initialize_def Let_def)
  qed
  moreover have "free_space (xs @ ?new # ys) = free_space rs \<union> run_block (unat start) n" "allocated (xs @ ?new # ys) = allocated rs"
    using xy(1) w e by (auto simp: addresses_def run_block_def AddressRange_new_def)
  ultimately show ?thesis using merge_spec [OF new] by auto
qed

section \<open>The interface of a page range allocator\<close>

text \<open>
  What the users of the pool rely on: an allocation takes a run out of the free space and fails
  only when there is none; a release gives a live run back.
\<close>

locale run_allocator =
  fixes alloc :: "'s \<Rightarrow> u32 \<Rightarrow> 's \<times> u32"
    and release :: "'s \<Rightarrow> u32 \<Rightarrow> ('s \<times> i32) kres"
    and ok :: "'s \<Rightarrow> bool"
    and space :: "'s \<Rightarrow> nat set"
    and live :: "'s \<Rightarrow> (nat \<times> nat) set"
  assumes alloc_run: "ok s \<Longrightarrow> n \<noteq> 0 \<Longrightarrow> alloc s n = (s', b) \<Longrightarrow> b \<noteq> 0 \<Longrightarrow>
      ok s' \<and> run_block (unat b) (unat n) \<subseteq> space s \<and> space s' = space s - run_block (unat b) (unat n) \<and> live s' = insert (unat b, unat n) (live s)"
    and alloc_fail: "ok s \<Longrightarrow> n \<noteq> 0 \<Longrightarrow> alloc s n = (s', 0) \<Longrightarrow> s' = s \<and> (\<forall>x. \<not> run_block x (unat n) \<subseteq> space s)"
    and release_run: "ok s \<Longrightarrow> (unat b, k) \<in> live s \<Longrightarrow>
      \<exists>s'. release s b = Inr (s', of_nat k) \<and> ok s' \<and> space s' = space s \<union> run_block (unat b) k \<and> live s' = live s - {(unat b, k)}"
    and live_not_free: "ok s \<Longrightarrow> (x, k) \<in> live s \<Longrightarrow> 0 < k \<and> run_block x k \<inter> space s = {}"
begin

lemma alloc_release:
  assumes "ok s" and "n \<noteq> 0" and "alloc s n = (s1, b)" and "b \<noteq> 0"
  shows "\<exists>s2. release s1 b = Inr (s2, n) \<and> ok s2 \<and> space s2 = space s \<and> live s2 = live s"
proof -
  note a = alloc_run [OF assms]
  then have l: "(unat b, unat n) \<in> live s1" by simp
  obtain s2 where r: "release s1 b = Inr (s2, of_nat (unat n))" "ok s2" "space s2 = space s1 \<union> run_block (unat b) (unat n)"
      "live s2 = live s1 - {(unat b, unat n)}"
    using release_run [OF _ l] a by auto
  have "(unat b, unat n) \<notin> live s"
  proof
    assume "(unat b, unat n) \<in> live s"
    then have "run_block (unat b) (unat n) \<inter> space s = {}" "0 < unat n" using live_not_free assms(1) by blast+
    then show False using a by (fastforce simp: run_block_def)
  qed
  then have "live s2 = live s" "space s2 = space s" using a r by auto
  then show ?thesis using r by auto
qed

lemma alloc_disjoint:
  assumes "ok s" and "n \<noteq> 0" "m \<noteq> 0" and "alloc s n = (s1, b)" "b \<noteq> 0" and "alloc s1 m = (s2, c)" "c \<noteq> 0"
  shows "run_block (unat b) (unat n) \<inter> run_block (unat c) (unat m) = {}"
  using alloc_run [OF assms(1,2,4,5)] alloc_run [OF _ assms(3,6,7)] by auto

end

lemma allocated_not_free:
  assumes ok: "pool_ok rs" and live: "(b, n) \<in> allocated rs"
  shows "0 < n \<and> run_block b n \<inter> free_space rs = {}"
proof -
  obtain r where r: "r \<in> set rs" "ar_used r" "rbase r = b" "rpages r = n" using live by (auto simp: allocated_def)
  then obtain xs ys where xy: "rs = xs @ r # ys" by (meson split_list)
  have s: "pool_sorted (xs @ r # ys)" using ok unfolding xy by (simp add: pool_ok_def)
  then have "0 < n" using r by (auto simp: pool_sorted_def range_ok_def)
  moreover have "run_block b n = addresses r" using r by (simp add: run_block_def addresses_def rend_def)
  moreover have "addresses r \<inter> addresses x = {}" if "x \<in> set rs" "\<not> ar_used x" for x
    using pool_split(2) [OF s, of x] that r(2) unfolding xy by auto
  ultimately show ?thesis unfolding free_space_def by blast
qed

interpretation rp: run_allocator "\<lambda>rs n. AddressRangePool_allocate rs n flags" AddressRangePool_free pool_ok free_space allocated
  for flags
proof unfold_locales
  fix s s' :: range_pool and n b :: u32
  assume ok: "pool_ok s" and n: "n \<noteq> 0"
  show "pool_ok s' \<and> run_block (unat b) (unat n) \<subseteq> free_space s \<and> free_space s' = free_space s - run_block (unat b) (unat n) \<and>
      allocated s' = insert (unat b, unat n) (allocated s)" if "AddressRangePool_allocate s n flags = (s', b)" "b \<noteq> 0"
    using allocate_spec [OF ok n that(1)] that(2) by simp
  show "s' = s \<and> (\<forall>x. \<not> run_block x (unat n) \<subseteq> free_space s)" if "AddressRangePool_allocate s n flags = (s', 0)"
    using allocate_spec [OF ok n that] by simp
next
  fix s :: range_pool and b :: u32 and n :: nat
  assume "pool_ok s" "(unat b, n) \<in> allocated s"
  then show "\<exists>s'. AddressRangePool_free s b = Inr (s', of_nat n) \<and> pool_ok s' \<and> free_space s' = free_space s \<union> run_block (unat b) n \<and>
      allocated s' = allocated s - {(unat b, n)}"
    using range_free_spec by blast
next
  fix s :: range_pool and b n
  assume "pool_ok s" "(b, n) \<in> allocated s"
  then show "0 < n \<and> run_block b n \<inter> free_space s = {}" by (rule allocated_not_free)
qed

section \<open>Properties\<close>

text \<open>
  C24. Allocation from the pool of ranges: it succeeds whenever there is a run of that many free
  pages anywhere, the result is such a run, which moves from the free space to the allocated ones,
  and the pool stays sorted, disjoint and merged; otherwise the pool is unchanged and the result
  is 0.
\<close>

theorem range_pool_allocate:
  assumes "pool_ok rs" and "n \<noteq> 0" and "AddressRangePool_allocate rs n flags = (rs', b)"
  shows "if \<exists>x. run_block x (unat n) \<subseteq> free_space rs
    then b \<noteq> 0 \<and> pool_ok rs' \<and> run_block (unat b) (unat n) \<subseteq> free_space rs \<and> free_space rs' = free_space rs - run_block (unat b) (unat n) \<and>
      allocated rs' = insert (unat b, unat n) (allocated rs)
    else b = 0 \<and> rs' = rs"
  using allocate_spec [OF assms] by (auto split: if_splits)

theorem range_pool_allocate_witness:
  "\<exists>rs. AddressRangePool_initialize [] 0x1000 0x9000 = Inr rs \<and>
    (let (rs', b) = AddressRangePool_allocate rs 3 0 in b = 0x1000 \<and> free_space rs' = {0x4000..<0x9000})"
proof -
  obtain rs where rs: "AddressRangePool_initialize [] 0x1000 0x9000 = Inr rs" "pool_ok rs" "free_space rs = {0x1000..<0x9000}"
    using initialize_spec [of "[]" "0x1000" "0x9000"] by (auto simp: pool_ok_def pool_sorted_def run_block_def)
  obtain rs' b where al: "AddressRangePool_allocate rs 3 0 = (rs', b)" by fastforce
  have ex: "\<exists>x. run_block x (unat (3 :: u32)) \<subseteq> free_space rs" using rs(3) by (intro exI [of _ "0x1000"]) (simp add: run_block_def)
  have "rs = [AddressRange_new\<lparr>ar_base := 0x1000, ar_used := False, ar_pages := 8\<rparr>]"
    using rs(1) by (simp add: AddressRangePool_initialize_def AddressRangePool_merge_def PAGE_SIZE_def)
  then have "b = 0x1000" using al by (simp add: AddressRangePool_allocate_def AddressRange_new_def Let_def)
  then show ?thesis using range_pool_allocate [OF rs(2) _ al] ex rs by (auto simp: al run_block_def)
qed

text \<open>
  C25. Round trip: releasing an allocated run returns its number of pages and restores the free
  space and the set of allocated runs; releasing an address that is not the base of an allocated
  run changes nothing and returns -1.
\<close>

theorem range_pool_roundtrip:
  assumes "pool_ok rs" and "n \<noteq> 0" and "AddressRangePool_allocate rs n flags = (rs1, b)" and "b \<noteq> 0"
  shows "(\<exists>rs2. AddressRangePool_free rs1 b = Inr (rs2, n) \<and> pool_ok rs2 \<and> free_space rs2 = free_space rs \<and> allocated rs2 = allocated rs) \<and>
    (\<forall>c. (\<forall>m. (unat c, m) \<notin> allocated rs1) \<longrightarrow> AddressRangePool_free rs1 c = Inr (rs1, - 1))"
  using rp.alloc_release [OF assms] free_unknown [of rs1] allocate_spec [OF assms(1-3)] assms(4) by auto

theorem range_pool_roundtrip_witness:
  "\<exists>rs. AddressRangePool_initialize [] 0x1000 0x9000 = Inr rs \<and>
    (let (rs1, b) = AddressRangePool_allocate rs 3 0 in \<exists>rs2. AddressRangePool_free rs1 b = Inr (rs2, 3) \<and> free_space rs2 = {0x1000..<0x9000})"
proof -
  obtain rs where rs: "AddressRangePool_initialize [] 0x1000 0x9000 = Inr rs" "pool_ok rs" "free_space rs = {0x1000..<0x9000}"
    using initialize_spec [of "[]" "0x1000" "0x9000"] by (auto simp: pool_ok_def pool_sorted_def run_block_def)
  obtain rs' b where al: "AddressRangePool_allocate rs 3 0 = (rs', b)" by fastforce
  have "rs = [AddressRange_new\<lparr>ar_base := 0x1000, ar_used := False, ar_pages := 8\<rparr>]"
    using rs(1) by (simp add: AddressRangePool_initialize_def AddressRangePool_merge_def PAGE_SIZE_def)
  then have "b \<noteq> 0" using al by (auto simp: AddressRangePool_allocate_def AddressRange_new_def Let_def)
  then show ?thesis using range_pool_roundtrip [OF rs(2) _ al] rs by (auto simp: al)
qed

end
