(* ===== verification/KString.thy ===== *)
theory KString
  imports Prelude
begin

text \<open>
  The string functions of the kernel (Kernel/Shared/utils/string.cpp, Kernel/Kernel/utils/string.cpp).
  A C string is an array of characters with a zero among them; the functions work on the array, and
  an access outside of it is a fault. The second part shows what they compute for an array that
  holds a string, its terminating zero and anything behind it.
\<close>

section \<open>Arrays\<close>

definition NUL :: char where "NUL = CHR 0x00"

definition char_at :: "string \<Rightarrow> int \<Rightarrow> char kres" where
  "char_at str i = (if 0 \<le> i \<and> i < int (length str) then Inr (str ! nat i) else Inl (BadPointer (word_of_int i)))"

definition put_char :: "string \<Rightarrow> int \<Rightarrow> char \<Rightarrow> string kres" where
  "put_char str i c = (if 0 \<le> i \<and> i < int (length str) then Inr (str[nat i := c]) else Inl (BadPointer (word_of_int i)))"

text \<open>\<open>Memory::copy\<close> of the first \<open>n\<close> characters of an array to the place \<open>pos\<close> of another one.\<close>

definition copy_chars :: "string \<Rightarrow> nat \<Rightarrow> string \<Rightarrow> nat \<Rightarrow> string kres" where
  "copy_chars target pos source n =
     (if pos + n \<le> length target \<and> n \<le> length source then Inr (take pos target @ take n source @ drop (pos + n) target)
      else Inl (BadPointer (of_nat pos)))"

section \<open>Functions\<close>

fun String_length :: "string \<Rightarrow> nat kres" where
  "String_length [] = Inl (BadPointer 0)"
| "String_length (c # str) = (if c = NUL then Inr 0 else kbind (String_length str) (\<lambda>n. Inr (Suc n)))"

definition String_copy :: "string \<Rightarrow> string \<Rightarrow> string kres" where
  "String_copy target source =
     kbind (String_length source) (\<lambda>len. kbind (copy_chars target 0 source len) (\<lambda>target. put_char target (int len) NUL))"

definition String_concat :: "string \<Rightarrow> string \<Rightarrow> string \<Rightarrow> string kres" where
  "String_concat a b out =
     kbind (String_length a) (\<lambda>lenA. kbind (String_length b) (\<lambda>lenB.
     kbind (copy_chars out 0 a lenA) (\<lambda>out. kbind (copy_chars out lenA b lenB) (\<lambda>out. put_char out (int (lenA + lenB)) NUL))))"

text \<open>\<open>junk\<close> is what the new array holds before the copy.\<close>

definition String_duplicate :: "string \<Rightarrow> string \<Rightarrow> string kres" where
  "String_duplicate source junk =
     kbind (String_length source) (\<lambda>len. String_copy (take (len + 1) junk) source)"

fun index_of_loop :: "string \<Rightarrow> char \<Rightarrow> int \<Rightarrow> int kres" where
  "index_of_loop [] c pos = Inl (BadPointer (word_of_int pos))"
| "index_of_loop (x # str) c pos =
     (if x = NUL then Inr (- 1) else if x = c then Inr pos else index_of_loop str c (pos + 1))"

definition String_indexOf :: "string \<Rightarrow> char \<Rightarrow> int kres" where
  "String_indexOf str c = index_of_loop str c 0"

function last_index_loop :: "string \<Rightarrow> char \<Rightarrow> int \<Rightarrow> int kres" where
  "last_index_loop str c pos =
     (case char_at str pos of
        Inl e \<Rightarrow> Inl e
      | Inr x \<Rightarrow> if x = NUL then Inr (- 1) else if x = c then Inr pos else last_index_loop str c (pos - 1))"
  by auto
termination
  by (relation "measure (\<lambda>(str, c, pos). nat (pos + 1))") (auto simp: char_at_def split: if_splits)

definition String_lastIndexOf :: "string \<Rightarrow> char \<Rightarrow> int kres" where
  "String_lastIndexOf str c = kbind (String_length str) (\<lambda>len. last_index_loop str c (int len - 1))"

fun equals_loop :: "string \<Rightarrow> string \<Rightarrow> nat \<Rightarrow> bool kres" where
  "equals_loop a b 0 = Inr True"
| "equals_loop a b (Suc n) =
     kbind (char_at a (int n)) (\<lambda>x. kbind (char_at b (int n)) (\<lambda>y. if x \<noteq> y then Inr False else equals_loop a b n))"

text \<open>The comparison of the two pointers only saves work.\<close>

definition String_equals :: "string \<Rightarrow> string \<Rightarrow> bool kres" where
  "String_equals stra strb =
     kbind (String_length stra) (\<lambda>alen. kbind (String_length strb) (\<lambda>blen.
       if alen \<noteq> blen then Inr False else equals_loop stra strb alen))"

fun String_replace :: "string \<Rightarrow> char \<Rightarrow> char \<Rightarrow> string kres" where
  "String_replace [] character replacement = Inl (BadPointer 0)"
| "String_replace (x # str) character replacement =
     (if x = NUL then Inr (x # str)
      else kbind (String_replace str character replacement) (\<lambda>str. Inr ((if x = character then replacement else x) # str)))"

text \<open>
  \<open>basename\<close> gives the static string with a dot (\<open>None\<close>) or a position of its argument, in which it
  overwrites trailing slashes.
\<close>

fun strip_slashes :: "string \<Rightarrow> nat \<Rightarrow> string \<times> nat" where
  "strip_slashes str 0 = (str, 0)"
| "strip_slashes str (Suc n) = (if str ! n = CHR ''/'' then strip_slashes (str[n := NUL]) n else (str, Suc n))"

fun last_component :: "string \<Rightarrow> nat \<Rightarrow> nat" where
  "last_component str 0 = 0"
| "last_component str (Suc n) = (if str ! n \<noteq> CHR ''/'' then last_component str n else Suc n)"

definition String_basename :: "string option \<Rightarrow> (string \<times> nat option) kres" where
  "String_basename pathname =
     (case pathname of
        None \<Rightarrow> Inr ([], None)
      | Some str \<Rightarrow>
          kbind (String_length str) (\<lambda>len.
            if len = 0 then Inr (str, None)
            else if len = 1 \<and> (str ! 0 = CHR ''.'' \<or> str ! 0 = CHR ''/'') then Inr (str, Some 0)
            else if len = 2 \<and> str ! 0 = CHR ''.'' \<and> str ! 1 = CHR ''.'' then Inr (str, Some 0)
            else case strip_slashes str len of (str, len) \<Rightarrow> Inr (str, Some (last_component str len))))"

fun occurence_loop :: "string \<Rightarrow> char \<Rightarrow> nat \<Rightarrow> nat option kres" where
  "occurence_loop [] c pos = Inl (BadPointer (of_nat pos))"
| "occurence_loop (x # str) c pos = (if x = NUL then Inr None else if x = c then Inr (Some pos) else occurence_loop str c (Suc pos))"

definition String_getOccurenceOf :: "string \<Rightarrow> char \<Rightarrow> nat option kres" where
  "String_getOccurenceOf str c = occurence_loop str c 0"

function reverse_loop :: "string \<Rightarrow> u32 \<Rightarrow> u32 \<Rightarrow> string kres" where
  "reverse_loop str start end' =
     (if start < end' then
        kbind (char_at str (uint start)) (\<lambda>c. kbind (char_at str (uint end')) (\<lambda>d.
        reverse_loop (str[unat start := d, unat end' := c]) (start + 1) (end' - 1)))
      else Inr str)"
  by auto
termination
  by (relation "measure (\<lambda>(str, start, end'). unat end')") (auto intro!: measure_unat)

definition String_reverse :: "string \<Rightarrow> u32 \<Rightarrow> string kres" where
  "String_reverse str len = reverse_loop str 0 (len - 1)"

text \<open>A \<open>char\<close> is signed.\<close>

definition char_value :: "char \<Rightarrow> int" where
  "char_value c = (let n = of_char c in if n < 128 then n else n - 256)"

fun to_int_loop :: "char \<Rightarrow> string \<Rightarrow> i32 \<Rightarrow> i32 option kres" where
  "to_int_loop first [] res = Inl (BadPointer 0)"
| "to_int_loop first (c # str) res =
     (if c = NUL then Inr (Some res)
      else if \<not> (char_value first \<ge> 48 \<and> char_value c \<le> 57) then Inr None
      else to_int_loop first str (res * 10 + word_of_int (char_value c) - 48))"

definition String_toInt :: "string \<Rightarrow> i32 kres" where
  "String_toInt source =
     kbind (char_at source 0) (\<lambda>c0.
       if c0 = NUL then Inr 0
       else let sign = (if c0 = CHR ''-'' then - 1 else 1); i = (if c0 = CHR ''-'' then 1 else 0)
            in kbind (to_int_loop c0 (drop i source) 0) (\<lambda>res. Inr (case res of None \<Rightarrow> 0 | Some r \<Rightarrow> sign * r)))"

text \<open>
  The digits of \<open>fromInt\<close>, last one first, in the array of 1024 characters. The remainder and the
  quotient are those of unsigned numbers, since the base is unsigned. The division by the base
  zero is a processor exception.
\<close>

definition FROM_INT_BUFFER :: nat where "FROM_INT_BUFFER = 1024"

definition digit_char :: "u32 \<Rightarrow> char" where
  "digit_char rem = (if sint rem > 9 then char_of (unat (rem - 10 + 97)) else char_of (unat (rem + 48)))"

function from_int_loop :: "i32 \<Rightarrow> u32 \<Rightarrow> string \<Rightarrow> string kres" where
  "from_int_loop source base str =
     (if source = 0 then Inr str
      else if base = 0 then Inl (Panic ''divide error'')
      else if FROM_INT_BUFFER \<le> length str then Inl (BadPointer (of_nat (length str)))
      else from_int_loop (source div base) base (str @ [digit_char (source mod base)]))"
  by auto
termination
  by (relation "measure (\<lambda>(source, base, str). FROM_INT_BUFFER - length str)") auto

definition String_fromInt :: "i32 \<Rightarrow> u32 \<Rightarrow> string kres" where
  "String_fromInt source base =
     (if source = 0 then Inr [CHR ''0'', NUL]
      else let isNegative = (sint source < 0 \<and> base = 10); source = (if isNegative then - source else source)
           in kbind (from_int_loop source base []) (\<lambda>str.
                let str = (if isNegative then str @ [CHR ''-''] else str) in
                if FROM_INT_BUFFER \<le> length str then Inl (BadPointer (of_nat (length str)))
                else String_reverse (str @ [NUL]) (of_nat (length str))))"

section \<open>Strings and their terminating zero\<close>

declare last_index_loop.simps [simp del] reverse_loop.simps [simp del] from_int_loop.simps [simp del]

lemma char_at_nat: "char_at str (int i) = (if i < length str then Inr (str ! i) else Inl (BadPointer (of_nat i)))"
  by (simp add: char_at_def)

lemma length_string: "NUL \<notin> set s \<Longrightarrow> String_length (s @ NUL # r) = Inr (length s)"
  by (induction s) auto

lemma index_of_string:
  "NUL \<notin> set s \<Longrightarrow> index_of_loop (s @ NUL # r) c pos = Inr (if c \<in> set s then pos + int (length (takeWhile (\<lambda>x. x \<noteq> c) s)) else - 1)"
  by (induction s arbitrary: pos) auto

lemma equals_loop_spec:
  "n \<le> length a \<Longrightarrow> n \<le> length b \<Longrightarrow> equals_loop a b n = Inr (take n a = take n b)"
  by (induction n) (auto simp: char_at_def take_Suc_conv_app_nth)

lemma equals_string:
  assumes "NUL \<notin> set s" and "NUL \<notin> set t"
  shows "String_equals (s @ NUL # r) (t @ NUL # q) = Inr (s = t)"
  using assms by (auto simp: String_equals_def length_string equals_loop_spec)

lemma replace_string:
  "NUL \<notin> set s \<Longrightarrow> String_replace (s @ NUL # r) c d = Inr (map (\<lambda>x. if x = c then d else x) s @ NUL # r)"
  by (induction s) auto

lemma copy_string:
  assumes "NUL \<notin> set s" and "length s < length target"
  shows "String_copy target (s @ NUL # r) = Inr (s @ NUL # drop (Suc (length s)) target)"
proof -
  have "(s @ drop (length s) target)[length s := NUL] = s @ NUL # drop (Suc (length s)) target"
    using assms(2) by (simp add: list_update_append Cons_nth_drop_Suc [symmetric])
  then show ?thesis using assms by (simp add: String_copy_def length_string copy_chars_def put_char_def)
qed

lemma concat_string:
  assumes "NUL \<notin> set s" and "NUL \<notin> set t" and "length s + length t < length out"
  shows "String_concat (s @ NUL # r) (t @ NUL # q) out = Inr (s @ t @ NUL # drop (Suc (length s + length t)) out)"
proof -
  have "(s @ t @ drop (length s + length t) out)[length s + length t := NUL] = s @ t @ NUL # drop (Suc (length s + length t)) out"
    using assms(3) by (simp add: list_update_append Cons_nth_drop_Suc [symmetric])
  then show ?thesis using assms by (simp add: String_concat_def length_string copy_chars_def put_char_def add.commute del: of_nat_add)
qed

lemma last_index_string:
  assumes "NUL \<notin> set s"
  shows "last_index_loop (s @ r) c (int (length s) - 1) =
    (if c \<in> set s then Inr (int (length s) - 1 - int (length (takeWhile (\<lambda>x. x \<noteq> c) (rev s)))) else Inl (BadPointer (- 1)))"
  using assms
proof (induction s arbitrary: r rule: rev_induct)
  case Nil
  then show ?case by (subst last_index_loop.simps) (simp add: char_at_def)
next
  case (snoc x s)
  then have "char_at ((s @ [x]) @ r) (int (length s)) = Inr x" by (simp add: char_at_def nth_append)
  then show ?case using snoc by (subst last_index_loop.simps) auto
qed

lemma reverse_loop_spec:
  assumes "xs \<noteq> [] \<or> m \<noteq> []" and "length (xs @ m @ ys) < 2 ^ 32"
  shows "reverse_loop (xs @ m @ ys) (adr (length xs)) (adr (length xs + length m - 1)) = Inr (xs @ rev m @ ys)"
  using assms
proof (induction "length m" arbitrary: xs m ys rule: less_induct)
  case less
  show ?case
  proof (cases "length m < 2")
    case True
    have "length xs < 2 ^ 32" "length xs + length m - 1 < 2 ^ 32" using less.prems(2) by simp_all
    then have "\<not> adr (length xs) < adr (length xs + length m - 1)" using True by (simp add: not_less adr_le)
    moreover have "rev m = m" using True by (cases m) auto
    ultimately show ?thesis by (subst reverse_loop.simps) simp
  next
    case False
    then obtain c m' where "m = c # m'" "m' \<noteq> []" by (cases m) auto
    then obtain n d where m: "m = c # n @ [d]" by (metis append_butlast_last_id)
    let ?xs = "xs @ [d]" and ?ys = "c # ys" and ?s = "adr (length xs)" and ?e = "adr (length xs + length m - 1)"
    have l: "length xs + length m - 1 < 2 ^ 32" "length xs < 2 ^ 32" using less.prems(2) by simp_all
    have lt: "?s < ?e" using l m by (simp add: adr_le not_le [symmetric])
    have u: "unat ?s = length xs" "unat ?e = length xs + Suc (length n)" using l m by (simp_all add: unat_adr)
    then have ui: "uint ?s = int (length xs)" "uint ?e = int (length xs + Suc (length n))" by (metis of_nat_unat)+
    have next': "?s + 1 = adr (length ?xs)" "?e - 1 = adr (length ?xs + length n - 1)"
      using m by (simp_all add: adr_def)
    have get: "char_at (xs @ m @ ys) (uint ?s) = Inr c" "char_at (xs @ m @ ys) (uint ?e) = Inr d"
      unfolding ui char_at_nat using m by (simp_all add: nth_append)
    have "reverse_loop (xs @ m @ ys) ?s ?e = reverse_loop (?xs @ n @ ?ys) (adr (length ?xs)) (adr (length ?xs + length n - 1))"
      using lt get u next' by (subst reverse_loop.simps) (simp add: m list_update_append)
    also have "\<dots> = Inr (?xs @ rev n @ ?ys)" using less.hyps [of n ?xs ?ys] less.prems(2) m by simp
    finally show ?thesis using m by simp
  qed
qed

lemma reverse_string:
  assumes "s \<noteq> []" and "length (s @ r) < 2 ^ 32"
  shows "String_reverse (s @ r) (of_nat (length s)) = Inr (rev s @ r)"
proof -
  have "of_nat (length s) - 1 = adr (length s - 1)" using assms(1) by (cases s) (simp_all add: adr_def)
  then show ?thesis using reverse_loop_spec [of "[]" s r] assms by (simp add: String_reverse_def adr_def)
qed

section \<open>Numbers\<close>

text \<open>The digits of a number, last one first, as \<open>fromInt\<close> finds them.\<close>

fun digits_of :: "nat \<Rightarrow> nat \<Rightarrow> nat list" where
  "digits_of b n = (if n = 0 \<or> b < 2 then [] else n mod b # digits_of b (n div b))"

declare digits_of.simps [simp del]

definition digit :: "nat \<Rightarrow> char" where
  "digit d = (if 9 < d then char_of (d - 10 + 97) else char_of (d + 48))"

lemma digit_char_of_nat:
  assumes "d < 36"
  shows "digit_char (of_nat d) = digit d"
proof -
  have "sint (of_nat d :: u32) = int d" using assms sint_small [of "of_nat d"] by (simp add: unat_of_nat_u32)
  moreover have "unat (of_nat d - 10 + 97 :: u32) = d - 10 + 97" if "9 < d"
    using that assms unat_of_nat_u32 [of "d - 10 + 97"] by (simp add: of_nat_diff)
  moreover have "unat (of_nat d + 48 :: u32) = d + 48" using assms unat_of_nat_u32 [of "d + 48"] by simp
  ultimately show ?thesis by (auto simp: digit_char_def digit_def)
qed

lemma div_less_bound: "(n :: nat) < c \<Longrightarrow> n div b < c"
  by (meson div_le_dividend le_less_trans)

lemma mod_less_bound: "(n :: nat) < c \<Longrightarrow> n mod b < c"
  by (meson mod_less_eq_dividend le_less_trans)

lemma from_int_loop_digits:
  assumes "2 \<le> b" and "b \<le> 36" and "n < 2 ^ k" and "k \<le> 32" and "length str + k \<le> FROM_INT_BUFFER"
  shows "from_int_loop (of_nat n) (of_nat b) str = Inr (str @ map digit (digits_of b n)) \<and> length (digits_of b n) \<le> k"
  using assms(3-5)
proof (induction k arbitrary: n str)
  case 0
  then show ?case by (subst from_int_loop.simps) (simp add: digits_of.simps)
next
  case (Suc k)
  have n32: "n < 2 ^ 32" using Suc.prems(1,2) by (meson less_le_trans one_le_numeral power_increasing)
  have w: "(of_nat n :: u32) div of_nat b = of_nat (n div b)" "(of_nat n :: u32) mod of_nat b = of_nat (n mod b)" "(of_nat b :: u32) \<noteq> 0"
  proof -
    have b: "b < 2 ^ 32" using assms(2) by simp
    show "(of_nat n :: u32) div of_nat b = of_nat (n div b)"
      by (rule word_unat_eq_iff [THEN iffD2]) (use n32 b in \<open>simp add: unat_div unat_of_nat_u32 div_less_bound\<close>)
    show "(of_nat n :: u32) mod of_nat b = of_nat (n mod b)"
      by (rule word_unat_eq_iff [THEN iffD2]) (use n32 b in \<open>simp add: unat_mod unat_of_nat_u32 mod_less_bound\<close>)
    show "(of_nat b :: u32) \<noteq> 0" using assms(1) b by (simp add: of_nat_u32_eq_0)
  qed
  show ?case
  proof (cases "n = 0")
    case True
    then show ?thesis by (subst from_int_loop.simps) (simp add: digits_of.simps)
  next
    case False
    have mod_b: "n mod b < 36" using mod_less_divisor [of b n] assms(1,2) by linarith
    have "n div b \<le> n div 2" using assms(1) by (simp add: div_le_mono2)
    then have "n div b < 2 ^ k" using Suc.prems(1) by simp
    moreover have "digit_char (of_nat (n mod b)) = digit (n mod b)" using mod_b by (rule digit_char_of_nat)
    moreover have "(of_nat n :: u32) \<noteq> 0" using False n32 by (simp add: of_nat_u32_eq_0)
    moreover have "digits_of b n = n mod b # digits_of b (n div b)" using False assms(1) by (subst digits_of.simps) simp
    ultimately show ?thesis
      using Suc.IH [of "n div b" "str @ [digit (n mod b)]"] Suc.prems w by (subst from_int_loop.simps) simp
  qed
qed

lemma fromInt_nat:
  assumes "2 \<le> b" and "b \<le> 36" and "\<not> (sint n < 0 \<and> b = 10)"
  shows "String_fromInt n (of_nat b) = Inr (rev (map digit (if n = 0 then [0] else digits_of b (unat n))) @ [NUL])"
proof (cases "n = 0")
  case True
  then show ?thesis by (simp add: String_fromInt_def digit_def char_of_def bit_0)
next
  case False
  let ?ds = "map digit (digits_of b (unat n))"
  have loop: "from_int_loop n (of_nat b) [] = Inr ?ds" "length ?ds \<le> 32"
    using from_int_loop_digits [OF assms(1,2) u32_bound [of n], of "[]"] by (auto simp: FROM_INT_BUFFER_def)
  have ne: "?ds \<noteq> []" using False assms(1) by (subst digits_of.simps) (simp add: unat_eq_zero)
  have "(of_nat b :: u32) = 10 \<longleftrightarrow> b = 10" using of_nat_u32_inj [of b 10] assms(2) by simp
  then show ?thesis
    using False assms(3) loop reverse_string [OF ne, of "[NUL]"] by (auto simp: String_fromInt_def FROM_INT_BUFFER_def rev_map Let_def)
qed

lemma fromInt_negative:
  assumes "sint n < 0"
  shows "String_fromInt n 10 = Inr (CHR ''-'' # rev (map digit (digits_of 10 (unat (- n)))) @ [NUL])"
proof -
  let ?ds = "map digit (digits_of 10 (unat (- n)))"
  have loop: "from_int_loop (- n) 10 [] = Inr ?ds" "length ?ds \<le> 32"
    using from_int_loop_digits [of 10, OF _ _ u32_bound [of "- n"], of "[]"] by (auto simp: FROM_INT_BUFFER_def)
  have "n \<noteq> 0" using assms by auto
  then show ?thesis
    using assms loop reverse_string [of "?ds @ [CHR ''-'']" "[NUL]"] by (auto simp: String_fromInt_def FROM_INT_BUFFER_def rev_map Let_def)
qed

lemma digits_small:
  assumes "2 \<le> b" and "d \<in> set (digits_of b n)"
  shows "d < b"
  using assms(2)
proof (induction n rule: less_induct)
  case (less n)
  show ?case
  proof (cases "n = 0")
    case True
    then show ?thesis using less.prems by (simp add: digits_of.simps [of b 0])
  next
    case False
    then have "d = n mod b \<or> d \<in> set (digits_of b (n div b))" using less.prems assms(1) by (simp add: digits_of.simps [of b n])
    then show ?thesis using less.IH [of "n div b"] False assms(1) by (auto simp: div_less_dividend)
  qed
qed

lemma digits_value: "foldr (\<lambda>d r. r * 10 + of_nat d) (digits_of 10 n) 0 = (of_nat n :: u32)"
proof (induction "10 :: nat" n rule: digits_of.induct)
  case (1 n)
  have "of_nat (n div 10) * 10 + of_nat (n mod 10) = (of_nat n :: u32)"
    by (metis div_mult_mod_eq of_nat_add of_nat_mult of_nat_numeral)
  then show ?case using 1 by (subst digits_of.simps) simp
qed

lemma digit_decimal:
  assumes "d < 10"
  shows "char_value (digit d) = int d + 48" "digit d \<noteq> NUL" "digit d \<noteq> CHR ''-''"
proof -
  have "of_char (digit d) = (d + 48 :: nat)" using assms by (simp add: digit_def)
  then have o: "of_char (digit d) = (int d + 48)" by (metis of_char_of of_nat_add of_nat_numeral of_nat_of_char)
  show "char_value (digit d) = int d + 48" using o assms by (simp add: char_value_def)
  then show "digit d \<noteq> NUL" by (auto simp: char_value_def NUL_def)
  show "digit d \<noteq> CHR ''-''" using o by auto
qed

lemma to_int_loop_digits:
  assumes "\<forall>d \<in> set ds. d < 10" and "char_value first \<ge> 48"
  shows "to_int_loop first (map digit ds @ [NUL]) res = Inr (Some (foldl (\<lambda>r d. r * 10 + of_nat d) res ds))"
  using assms(1) by (induction ds arbitrary: res) (simp_all add: digit_decimal assms(2))

section \<open>Properties\<close>

text \<open>
  C38. Numbers as strings: \<open>fromInt\<close> returns for every number, with a sign and decimal digits whose
  value is the number, and \<open>toInt\<close> reads a number that is not negative back. A negative number is
  read as 0: the check for a digit looks at the first character, which is the sign.
\<close>

theorem int_string_roundtrip:
  "\<exists>str. String_fromInt n 10 = Inr str \<and> String_toInt str = Inr (if sint n < 0 then 0 else n)"
proof (cases "sint n < 0")
  case True
  let ?ds = "digits_of 10 (unat (- n))"
  have "n \<noteq> 0" using True by auto
  then have "?ds \<noteq> []" by (subst digits_of.simps) (simp add: unat_eq_zero)
  then obtain d ds where ds: "rev ?ds = d # ds" by (metis neq_Nil_conv rev_is_Nil_conv)
  then have "d \<in> set ?ds" by (metis list.set_intros(1) set_rev)
  then have "d < 10" by (rule digits_small [rotated]) simp
  then have "to_int_loop (CHR ''-'') (rev (map digit ?ds) @ [NUL]) 0 = Inr None"
    using digit_decimal(2) [of d] by (simp add: rev_map ds) (simp add: char_value_def)
  then show ?thesis using True fromInt_negative [OF True] by (simp add: String_toInt_def char_at_def NUL_def)
next
  case False
  let ?ds = "rev (if n = 0 then [0] else digits_of 10 (unat n))"
  have str: "String_fromInt n 10 = Inr (map digit ?ds @ [NUL])" using fromInt_nat [of 10 n] False by (simp add: rev_map)
  have "?ds \<noteq> []" by (simp add: digits_of.simps [of 10 "unat n"] unat_eq_zero)
  then obtain d ds where ds: "?ds = d # ds" by (meson neq_Nil_conv)
  have all: "\<forall>d \<in> set ?ds. d < 10" using digits_small [of 10] by (auto split: if_splits)
  then have d: "d < 10" using ds by simp
  have "to_int_loop (digit d) (map digit ?ds @ [NUL]) 0 = Inr (Some (foldl (\<lambda>r d. r * 10 + of_nat d) 0 ?ds))"
    by (rule to_int_loop_digits [OF all]) (simp add: digit_decimal d)
  moreover have "foldl (\<lambda>r d. r * 10 + of_nat d) 0 ?ds = n" using digits_value [of "unat n"] by (simp add: foldl_conv_foldr)
  ultimately show ?thesis using str False ds digit_decimal [OF d] by (simp add: String_toInt_def char_at_def)
qed

text \<open>
  The string functions on terminated strings: length, equality, search for the first and
  the last character, replacement, copy, concatenation and reversal compute what their
  counterparts on lists do, and touch only the characters up to the end of the string. The search
  for the last occurrence of a character that is not there runs off the front of the array.
\<close>

theorem string_functions:
  assumes "NUL \<notin> set s" and "NUL \<notin> set t" and "length s + length t < length out" and "length s < 2 ^ 31" and "s \<noteq> []"
  shows "String_length (s @ NUL # r) = Inr (length s) \<and>
    String_equals (s @ NUL # r) (t @ NUL # q) = Inr (s = t) \<and>
    String_indexOf (s @ NUL # r) c = Inr (if c \<in> set s then int (length (takeWhile (\<lambda>x. x \<noteq> c) s)) else - 1) \<and>
    String_lastIndexOf (s @ NUL # r) c =
      (if c \<in> set s then Inr (int (length s) - 1 - int (length (takeWhile (\<lambda>x. x \<noteq> c) (rev s)))) else Inl (BadPointer (- 1))) \<and>
    String_replace (s @ NUL # r) c d = Inr (map (\<lambda>x. if x = c then d else x) s @ NUL # r) \<and>
    String_copy out (s @ NUL # r) = Inr (s @ NUL # drop (Suc (length s)) out) \<and>
    String_concat (s @ NUL # r) (t @ NUL # q) out = Inr (s @ t @ NUL # drop (Suc (length s + length t)) out) \<and>
    String_reverse (s @ [NUL]) (of_nat (length s)) = Inr (rev s @ [NUL])"
  using assms by (simp add: length_string equals_string String_indexOf_def index_of_string String_lastIndexOf_def
      last_index_string replace_string copy_string concat_string reverse_string)

theorem string_functions_witness:
  "String_lastIndexOf (''shell:12'' @ [NUL]) (CHR '':'') = Inr 5 \<and> String_lastIndexOf (''shell'' @ [NUL]) (CHR '':'') = Inl (BadPointer (- 1))"
proof -
  have a: "NUL \<notin> set ''shell:12''" "NUL \<notin> set ''shell''" by (simp_all add: NUL_def)
  show ?thesis
    using string_functions [OF a(1) a(1), of "replicate 64 NUL" "[]" "[]" "CHR '':''"]
      string_functions [OF a(2) a(2), of "replicate 64 NUL" "[]" "[]" "CHR '':''"] by simp
qed

end
