(* ===== verification/Ramdisk.thy ===== *)
theory Ramdisk
  imports KString
begin

unbundle bit_operations_syntax

text \<open>
  The ramdisk (Kernel/Kernel/ramdisk/Ramdisk.cpp, ramdisk.hpp, RamdiskEntry.hpp): the image that the
  boot loader hands over is read into a linked list of entries, which are searched by name, path and
  identifier, and extended by new files.

  Entries are never deleted: the objects form a list that only grows, a pointer to an entry is an
  index of it, and the linked list is the list of the pointers in link order. The data of an entry
  are a place in the image, an array from the heap, or a null pointer. Reading past the end of the
  image is a fault. A name is the array of its characters with the terminating zero.
\<close>

section \<open>Entries\<close>

datatype rd_data = NoData | OnImage u32 | InBuffer "u8 list"

record rd_entry =
  re_type :: u8
  re_id :: u32
  re_parentid :: u32
  re_name :: string
  re_datalength :: u32
  re_data :: rd_data
  re_dataOnRamdisk :: bool
  re_notOnRdBufferLength :: u32

definition RAMDISK_ENTRY_TYPE_FOLDER :: u8 where "RAMDISK_ENTRY_TYPE_FOLDER = 0"

definition RAMDISK_ENTRY_TYPE_FILE :: u8 where "RAMDISK_ENTRY_TYPE_FILE = 1"

definition RAMDISK_MAXIMUM_PATH_LENGTH :: nat where "RAMDISK_MAXIMUM_PATH_LENGTH = 512"

text \<open>\<open>new RamdiskEntry()\<close> sets every field to zero.\<close>

definition RamdiskEntry_new :: rd_entry where
  "RamdiskEntry_new = \<lparr>re_type = 0, re_id = 0, re_parentid = 0, re_name = [], re_datalength = 0, re_data = NoData,
     re_dataOnRamdisk = False, re_notOnRdBufferLength = 0\<rparr>"

record ramdisk =
  rd_image :: "u8 list"
  rd_objects :: "rd_entry list"
  rd_first :: "nat list"
  rd_root :: "nat option"
  rd_nextUnusedId :: u32

text \<open>The constructor does not initialise \<open>nextUnusedId\<close>: its value is an argument.\<close>

definition Ramdisk_new :: "u32 \<Rightarrow> ramdisk" where
  "Ramdisk_new junk = \<lparr>rd_image = [], rd_objects = [], rd_first = [], rd_root = None, rd_nextUnusedId = junk\<rparr>"

section \<open>Loading\<close>

definition image_bytes :: "u8 list \<Rightarrow> u32 \<Rightarrow> nat \<Rightarrow> u8 list kres" where
  "image_bytes img pos n =
     (if unat pos + n \<le> length img then Inr (take n (drop (unat pos) img)) else Inl (BadPointer pos))"

definition u32_of_bytes :: "u8 list \<Rightarrow> u32" where
  "u32_of_bytes bs = ucast (bs ! 0) OR push_bit 8 (ucast (bs ! 1)) OR push_bit 16 (ucast (bs ! 2)) OR push_bit 24 (ucast (bs ! 3))"

definition image_u32 :: "u8 list \<Rightarrow> u32 \<Rightarrow> u32 kres" where
  "image_u32 img pos = kbind (image_bytes img pos 4) (\<lambda>bs. Inr (u32_of_bytes bs))"

definition byte_char :: "u8 \<Rightarrow> char" where
  "byte_char b = char_of (unat b)"

definition load_header :: "u8 list \<Rightarrow> u32 \<Rightarrow> u32 \<Rightarrow> (rd_entry \<times> u32 \<times> u32) kres" where
  "load_header img ramdiskPosition nextUnusedId =
     kbind (image_bytes img ramdiskPosition 1) (\<lambda>type.
     let ramdiskPosition = ramdiskPosition + 1 in
     kbind (image_u32 img ramdiskPosition) (\<lambda>id'.
     let ramdiskPosition = ramdiskPosition + 4 in
     kbind (image_u32 img ramdiskPosition) (\<lambda>parentid.
     let ramdiskPosition = ramdiskPosition + 4 in
     kbind (image_u32 img ramdiskPosition) (\<lambda>namelength.
     let ramdiskPosition = ramdiskPosition + 4 in
     kbind (image_bytes img ramdiskPosition (unat namelength)) (\<lambda>name.
     let ramdiskPosition = ramdiskPosition + namelength;
         header = RamdiskEntry_new\<lparr>re_type := type ! 0, re_id := id', re_parentid := parentid,
                    re_name := map byte_char name @ [NUL], re_dataOnRamdisk := True\<rparr>;
         nextUnusedId = (if nextUnusedId < id' then id' + 1 else nextUnusedId)
     in if type ! 0 = RAMDISK_ENTRY_TYPE_FILE
        then kbind (image_u32 img ramdiskPosition) (\<lambda>datalength.
               let ramdiskPosition = ramdiskPosition + 4 in
               Inr (header\<lparr>re_datalength := datalength, re_data := OnImage ramdiskPosition\<rparr>, ramdiskPosition + datalength, nextUnusedId))
        else Inr (header, ramdiskPosition, nextUnusedId))))))"

text \<open>
  The loop over the headers, with the module at \<open>start\<close>. The position is a 32 bit number, and a
  length in the image can send it back: the loop may not end.
\<close>

partial_function (option) load_loop :: "u32 \<Rightarrow> u8 list \<Rightarrow> u32 \<Rightarrow> rd_entry list \<Rightarrow> u32 \<Rightarrow> (rd_entry list \<times> u32) kres option" where
  "load_loop start img ramdiskPosition headers nextUnusedId =
     (if start + ramdiskPosition < start + of_nat (length img)
      then case load_header img ramdiskPosition nextUnusedId of
             Inl e \<Rightarrow> Some (Inl e)
           | Inr (header, ramdiskPosition, nextUnusedId) \<Rightarrow> load_loop start img ramdiskPosition (headers @ [header]) nextUnusedId
      else Some (Inr (headers, nextUnusedId)))"

definition Ramdisk_load :: "ramdisk \<Rightarrow> u32 \<Rightarrow> u8 list \<Rightarrow> ramdisk kres option" where
  "Ramdisk_load rd start img =
     obind (load_loop start img 0 [] (rd_nextUnusedId rd)) (\<lambda>(headers, nextUnusedId).
       Some (Inr (rd\<lparr>rd_image := img, rd_objects := RamdiskEntry_new # headers, rd_first := [1..<Suc (length headers)],
                     rd_root := Some 0, rd_nextUnusedId := nextUnusedId\<rparr>)))"

section \<open>Searching\<close>

fun find_child_loop :: "rd_entry list \<Rightarrow> nat list \<Rightarrow> u32 \<Rightarrow> string \<Rightarrow> nat option kres" where
  "find_child_loop objects [] parent childName = Inr None"
| "find_child_loop objects (current # rest) parent childName =
     (if re_parentid (objects ! current) = parent
      then kbind (String_equals (re_name (objects ! current)) childName) (\<lambda>eq.
             if eq then Inr (Some current) else find_child_loop objects rest parent childName)
      else find_child_loop objects rest parent childName)"

text \<open>The first entry is looked at before the test for the end of the list.\<close>

definition Ramdisk_findChild :: "ramdisk \<Rightarrow> nat option \<Rightarrow> string \<Rightarrow> nat option kres" where
  "Ramdisk_findChild rd parent childName =
     (if rd_first rd = [] then Inl NullDeref
      else case parent of
        None \<Rightarrow> Inl NullDeref
      | Some p \<Rightarrow> find_child_loop (rd_objects rd) (rd_first rd) (re_id (rd_objects rd ! p)) childName)"

text \<open>One turn of the loop of \<open>findRelative\<close>: the layer up to the slash is cut off the front of the buffer.\<close>

definition cut_layer :: "string \<Rightarrow> nat \<Rightarrow> int \<Rightarrow> string kres" where
  "cut_layer buf len slashIndex =
     (let len' = len - nat (slashIndex + 1) in
      kbind (copy_chars buf 0 (drop (nat (slashIndex + 1)) buf) len') (\<lambda>buf. put_char buf (int len') NUL))"

lemma length_put_NUL:
  assumes "put_char buf (int n) NUL = Inr buf'" and "String_length buf' = Inr k"
  shows "k \<le> n"
proof -
  have n: "n < length buf'" "buf' ! n = NUL" using assms(1) by (auto simp: put_char_def split: if_splits)
  have "NUL \<notin> set (take k buf')" if "String_length buf' = Inr k" for k buf'
    using that by (induction buf' arbitrary: k) (auto simp: kbind_Inr_iff split: if_splits)
  from this [OF assms(2)] show ?thesis using n by (metis in_set_conv_nth leI length_take min.absorb4 min_less_iff_conj nth_take)
qed

function find_relative_loop :: "ramdisk \<Rightarrow> string \<Rightarrow> nat option \<Rightarrow> string \<Rightarrow> nat option kres" where
  "find_relative_loop rd junk currentNode buf =
     (case String_length buf of
        Inl e \<Rightarrow> Inl e
      | Inr len \<Rightarrow>
          if len = 0 then Inr currentNode
          else case String_indexOf buf (CHR ''/'') of
            Inl e \<Rightarrow> Inl e
          | Inr slashIndex \<Rightarrow>
              if slashIndex \<ge> 0
              then case (if slashIndex > 0
                         then kbind (copy_chars junk 0 buf (nat slashIndex)) (\<lambda>childpath.
                              kbind (put_char childpath slashIndex NUL) (\<lambda>childpath. Ramdisk_findChild rd currentNode childpath))
                         else Inr currentNode) of
                     Inl e \<Rightarrow> Inl e
                   | Inr currentNode \<Rightarrow>
                       (case cut_layer buf len slashIndex of Inl e \<Rightarrow> Inl e | Inr buf \<Rightarrow> find_relative_loop rd junk currentNode buf)
              else Ramdisk_findChild rd currentNode buf)"
  by auto
termination
proof (relation "measure (\<lambda>(rd, junk, c, buf). case String_length buf of Inl e \<Rightarrow> 0 | Inr n \<Rightarrow> n)", goal_cases)
  case (2 rd junk currentNode buf len slashIndex node buf')
  have "k < len" if "String_length buf' = Inr k" for k
    using 2 that length_put_NUL by (fastforce simp: cut_layer_def Let_def kbind_Inr_iff)
  then show ?case using 2 by (auto split: sum.splits)
qed simp

text \<open>The two arrays on the stack have 512 characters; \<open>junk\<close> is what they hold.\<close>

definition Ramdisk_findRelative :: "ramdisk \<Rightarrow> string \<Rightarrow> nat option \<Rightarrow> string \<Rightarrow> nat option kres" where
  "Ramdisk_findRelative rd junk node path =
     kbind (String_length path) (\<lambda>pathLen.
     kbind (copy_chars (take RAMDISK_MAXIMUM_PATH_LENGTH junk) 0 path pathLen) (\<lambda>buf.
     kbind (put_char buf (int pathLen) NUL) (\<lambda>buf.
       find_relative_loop rd (take RAMDISK_MAXIMUM_PATH_LENGTH junk) node buf)))"

definition Ramdisk_findAbsolute :: "ramdisk \<Rightarrow> string \<Rightarrow> string \<Rightarrow> nat option kres" where
  "Ramdisk_findAbsolute rd junk path = Ramdisk_findRelative rd junk (rd_root rd) path"

fun find_by_id_loop :: "rd_entry list \<Rightarrow> nat list \<Rightarrow> u32 \<Rightarrow> nat option" where
  "find_by_id_loop objects [] id' = None"
| "find_by_id_loop objects (current # rest) id' =
     (if re_id (objects ! current) = id' then Some current else find_by_id_loop objects rest id')"

definition Ramdisk_findById :: "ramdisk \<Rightarrow> u32 \<Rightarrow> nat option" where
  "Ramdisk_findById rd id' = (if id' = 0 then rd_root rd else find_by_id_loop (rd_objects rd) (rd_first rd) id')"

fun child_count_loop :: "rd_entry list \<Rightarrow> nat list \<Rightarrow> u32 \<Rightarrow> u32 \<Rightarrow> u32" where
  "child_count_loop objects [] id' count = count"
| "child_count_loop objects (current # rest) id' count =
     child_count_loop objects rest id' (if re_parentid (objects ! current) = id' then count + 1 else count)"

definition Ramdisk_getChildCount :: "ramdisk \<Rightarrow> u32 \<Rightarrow> u32" where
  "Ramdisk_getChildCount rd id' = child_count_loop (rd_objects rd) (rd_first rd) id' 0"

fun child_at_loop :: "rd_entry list \<Rightarrow> nat list \<Rightarrow> u32 \<Rightarrow> u32 \<Rightarrow> u32 \<Rightarrow> nat option" where
  "child_at_loop objects [] id' index pos = None"
| "child_at_loop objects (current # rest) id' index pos =
     (if re_parentid (objects ! current) = id'
      then if pos = index then Some current else child_at_loop objects rest id' index (pos + 1)
      else child_at_loop objects rest id' index pos)"

definition Ramdisk_getChildAt :: "ramdisk \<Rightarrow> u32 \<Rightarrow> u32 \<Rightarrow> nat option" where
  "Ramdisk_getChildAt rd id' index = child_at_loop (rd_objects rd) (rd_first rd) id' index 0"

definition Ramdisk_getRoot :: "ramdisk \<Rightarrow> nat option" where
  "Ramdisk_getRoot rd = rd_root rd"

section \<open>New files\<close>

definition Ramdisk_createChild :: "ramdisk \<Rightarrow> nat option \<Rightarrow> string \<Rightarrow> string \<Rightarrow> (ramdisk \<times> nat) kres" where
  "Ramdisk_createChild rd parent filename junk =
     kbind (String_length filename) (\<lambda>namelen.
     kbind (String_copy (take (namelen + 1) junk) filename) (\<lambda>name.
       case parent of
         None \<Rightarrow> Inl NullDeref
       | Some p \<Rightarrow>
           let newNode = RamdiskEntry_new\<lparr>re_type := RAMDISK_ENTRY_TYPE_FILE, re_id := rd_nextUnusedId rd,
                  re_parentid := re_id (rd_objects rd ! p), re_name := name, re_data := NoData, re_datalength := 0,
                  re_notOnRdBufferLength := 0, re_dataOnRamdisk := False\<rparr>
           in Inr (rd\<lparr>rd_objects := rd_objects rd @ [newNode], rd_first := length (rd_objects rd) # rd_first rd,
                      rd_nextUnusedId := rd_nextUnusedId rd + 1\<rparr>, length (rd_objects rd))))"

section \<open>Lookups as searches in lists\<close>

declare find_relative_loop.simps [simp del]

definition names_ok :: "ramdisk \<Rightarrow> bool" where
  "names_ok rd \<longleftrightarrow> (\<forall>i \<in> set (rd_first rd). \<exists>s. NUL \<notin> set s \<and> re_name (rd_objects rd ! i) = s @ [NUL])"

definition child_named :: "rd_entry list \<Rightarrow> u32 \<Rightarrow> string \<Rightarrow> nat \<Rightarrow> bool" where
  "child_named objects parent name i \<longleftrightarrow> re_parentid (objects ! i) = parent \<and> re_name (objects ! i) = name @ [NUL]"

lemma find_child_loop_spec:
  assumes "\<forall>i \<in> set is. \<exists>s. NUL \<notin> set s \<and> re_name (objects ! i) = s @ [NUL]" and "NUL \<notin> set name"
  shows "find_child_loop objects is parent (name @ NUL # r) = Inr (List.find (child_named objects parent name) is)"
  using assms(1)
proof (induction "is")
  case (Cons i "is")
  then obtain s where "NUL \<notin> set s" "re_name (objects ! i) = s @ NUL # []" by auto
  then show ?case using Cons assms(2) by (simp add: equals_string child_named_def)
qed simp

lemma findChild_spec:
  assumes "names_ok rd" and "NUL \<notin> set name"
  shows "Ramdisk_findChild rd parent (name @ NUL # r) =
    (case parent of None \<Rightarrow> Inl NullDeref
     | Some p \<Rightarrow> if rd_first rd = [] then Inl NullDeref
         else Inr (List.find (child_named (rd_objects rd) (re_id (rd_objects rd ! p)) name) (rd_first rd)))"
  using assms by (simp add: Ramdisk_findChild_def find_child_loop_spec names_ok_def split: option.splits)

fun follow :: "ramdisk \<Rightarrow> nat option \<Rightarrow> string list \<Rightarrow> nat option kres" where
  "follow rd node [] = Inr node"
| "follow rd node (name # names) = kbind (Ramdisk_findChild rd node (name @ [NUL])) (\<lambda>node. follow rd node names)"

fun slashed :: "string list \<Rightarrow> string" where
  "slashed [] = []"
| "slashed [name] = name"
| "slashed (name # names) = name @ ''/'' @ slashed names"

definition path_name :: "string \<Rightarrow> bool" where
  "path_name name \<longleftrightarrow> name \<noteq> [] \<and> NUL \<notin> set name \<and> CHR ''/'' \<notin> set name"

lemma slashed_no_NUL: "\<forall>name \<in> set names. path_name name \<Longrightarrow> NUL \<notin> set (slashed names)"
  by (induction names rule: slashed.induct) (auto simp: path_name_def NUL_def)

lemma cut_layer_spec:
  "\<exists>r'. cut_layer (s @ c # u @ NUL # r) (Suc (length s + length u)) (int (length s)) = Inr (u @ NUL # r')"
proof -
  let ?buf = "s @ c # u @ NUL # r"
  have "put_char (u @ drop (length u) ?buf) (int (length u)) NUL = Inr (u @ NUL # drop (Suc (length u)) ?buf)"
  proof -
    have "drop (length u) ?buf \<noteq> []" unfolding drop_eq_Nil by simp
    then obtain x xs where "drop (length u) ?buf = x # xs" by (meson neq_Nil_conv)
    moreover from this have "drop (Suc (length u)) ?buf = xs" by (metis drop_Suc list.sel(3) tl_drop)
    ultimately show ?thesis by (simp only: put_char_def) simp
  qed
  moreover have "nat (int (length s) + 1) = Suc (length s)" by simp
  ultimately show ?thesis by (simp add: cut_layer_def Let_def copy_chars_def del: nat_int_add)
qed

lemma find_relative_step:
  assumes "String_length buf = Inr len" and "0 < len" and "String_indexOf buf (CHR ''/'') = Inr i"
    and "copy_chars junk 0 buf (nat i) = Inr childpath" and "put_char childpath i NUL = Inr childpath'" and "cut_layer buf len i = Inr buf'"
  shows "0 < i \<Longrightarrow> find_relative_loop rd junk node buf = kbind (Ramdisk_findChild rd node childpath') (\<lambda>node. find_relative_loop rd junk node buf')"
    and "i = 0 \<Longrightarrow> find_relative_loop rd junk node buf = find_relative_loop rd junk node buf'"
proof -
  note unfold = find_relative_loop.simps [of rd junk node buf]
  show "find_relative_loop rd junk node buf = kbind (Ramdisk_findChild rd node childpath') (\<lambda>node. find_relative_loop rd junk node buf')" if "0 < i"
    using that assms by (cases "Ramdisk_findChild rd node childpath'") (simp_all add: unfold)
  show "find_relative_loop rd junk node buf = find_relative_loop rd junk node buf'" if "i = 0"
    using that assms by (simp add: unfold)
qed

lemma find_relative_slashed:
  assumes "names_ok rd" and "\<forall>name \<in> set names. path_name name" and "names \<noteq> []"
    and "length (slashed names) < length junk"
  shows "find_relative_loop rd junk node (slashed names @ NUL # r) = follow rd node names"
  using assms(2-4)
proof (induction names arbitrary: node r rule: slashed.induct)
  case (2 name)
  then have n: "name \<noteq> []" "NUL \<notin> set name" "CHR ''/'' \<notin> set name" by (auto simp: path_name_def)
  have "Ramdisk_findChild rd node (name @ NUL # r) = Ramdisk_findChild rd node (name @ NUL # [])"
    by (simp only: findChild_spec [OF assms(1) n(2)])
  moreover have "kbind x Inr = x" for x :: "nat option kres" by (cases x) simp_all
  ultimately show ?case
    using n by (subst find_relative_loop.simps) (simp add: length_string String_indexOf_def index_of_string)
next
  case (3 name m names)
  let ?u = "slashed (m # names)"
  have n: "name \<noteq> []" "NUL \<notin> set name" "CHR ''/'' \<notin> set name" using 3 by (auto simp: path_name_def)
  have u: "NUL \<notin> set ?u" using slashed_no_NUL [of "m # names"] 3 by simp
  let ?s = "name @ CHR ''/'' # ?u"
  have s: "NUL \<notin> set ?s" using n u by (auto simp: NUL_def)
  have len: "String_length (?s @ NUL # r) = Inr (Suc (length name + length ?u))" using length_string [OF s, of r] by simp
  have takeWhile_all: "takeWhile (\<lambda>x. x \<noteq> CHR ''/'') name = name" using n(3) unfolding takeWhile_eq_all_conv by auto
  have idx: "String_indexOf (?s @ NUL # r) (CHR ''/'') = Inr (int (length name))"
    using n by (subst String_indexOf_def, subst index_of_string [OF s]) (simp add: takeWhile_tail takeWhile_all)
  obtain r' where cut: "cut_layer (?s @ NUL # r) (Suc (length name + length ?u)) (int (length name)) = Inr (?u @ NUL # r')"
    using cut_layer_spec [of name "CHR ''/''" ?u r] by auto
  have "length name < length junk" using 3(4) by simp
  then obtain x xs where junk: "drop (length name) junk = x # xs" by (metis Cons_nth_drop_Suc)
  have copy: "copy_chars junk 0 (?s @ NUL # r) (nat (int (length name))) = Inr (name @ x # xs)"
    using \<open>length name < length junk\<close> junk by (simp add: copy_chars_def)
  have put: "put_char (name @ x # xs) (int (length name)) NUL = Inr (name @ NUL # xs)" by (simp add: put_char_def)
  have "slashed (name # m # names) @ NUL # r = ?s @ NUL # r" by simp
  also have "find_relative_loop rd junk node (?s @ NUL # r) =
      kbind (Ramdisk_findChild rd node (name @ NUL # xs)) (\<lambda>node. find_relative_loop rd junk node (?u @ NUL # r'))"
    by (rule find_relative_step(1) [OF len _ idx copy put cut]) (use n(1) in simp_all)
  also have "\<dots> = kbind (Ramdisk_findChild rd node (name @ [NUL])) (\<lambda>node. follow rd node (m # names))"
  proof -
    have "find_relative_loop rd junk node' (?u @ NUL # r') = follow rd node' (m # names)" for node'
      by (rule "3.IH") (use 3 in simp_all)
    then show ?thesis by (simp only: findChild_spec [OF assms(1) n(2)])
  qed
  finally show ?case by simp
qed simp

lemma findAbsolute_spec:
  assumes "names_ok rd" and "\<forall>name \<in> set names. path_name name" and "names \<noteq> []"
    and "length (slashed names) + 1 < RAMDISK_MAXIMUM_PATH_LENGTH" and "RAMDISK_MAXIMUM_PATH_LENGTH \<le> length junk"
  shows "Ramdisk_findAbsolute rd junk (CHR ''/'' # slashed names @ NUL # r) = follow rd (rd_root rd) names"
proof -
  let ?u = "slashed names" and ?junk = "take RAMDISK_MAXIMUM_PATH_LENGTH junk"
  have u: "NUL \<notin> set ?u" using slashed_no_NUL assms(2) by blast
  then have s: "NUL \<notin> set (CHR ''/'' # ?u)" by (simp add: NUL_def)
  have junk: "length ?junk = RAMDISK_MAXIMUM_PATH_LENGTH" using assms(5) by simp
  then obtain x xs where x: "drop (Suc (length ?u)) ?junk = x # xs" using assms(4) by (metis Cons_nth_drop_Suc Suc_eq_plus1)
  let ?buf = "CHR ''/'' # ?u @ NUL # xs"
  have path: "Ramdisk_findAbsolute rd junk (CHR ''/'' # ?u @ NUL # r) = find_relative_loop rd ?junk (rd_root rd) ?buf"
  proof -
    have "String_length ((CHR ''/'' # ?u) @ NUL # r) = Inr (Suc (length ?u))" using length_string [OF s, of r] by simp
    moreover have "copy_chars ?junk 0 ((CHR ''/'' # ?u) @ NUL # r) (Suc (length ?u)) = Inr ((CHR ''/'' # ?u) @ x # xs)"
      using junk assms(4) x by (simp add: copy_chars_def)
    moreover have "put_char ((CHR ''/'' # ?u) @ x # xs) (int (Suc (length ?u))) NUL = Inr ?buf" by (simp add: put_char_def del: of_nat_Suc)
    ultimately show ?thesis by (simp add: Ramdisk_findAbsolute_def Ramdisk_findRelative_def del: of_nat_Suc)
  qed
  have len: "String_length ?buf = Inr (Suc (length ?u))" using length_string [OF s, of xs] by simp
  have idx: "String_indexOf ?buf (CHR ''/'') = Inr 0" by (simp add: String_indexOf_def NUL_def)
  obtain r' where cut: "cut_layer ?buf (Suc (length ?u)) 0 = Inr (?u @ NUL # r')" using cut_layer_spec [of "[]" "CHR ''/''" ?u xs] by auto
  obtain y ys where y: "?junk = y # ys" using junk by (cases ?junk) (simp_all add: RAMDISK_MAXIMUM_PATH_LENGTH_def)
  have "copy_chars ?junk 0 ?buf (nat 0) = Inr ?junk" by (simp add: copy_chars_def)
  moreover have "put_char ?junk 0 NUL = Inr (NUL # ys)" unfolding y by (simp add: put_char_def)
  ultimately have "find_relative_loop rd ?junk (rd_root rd) ?buf = find_relative_loop rd ?junk (rd_root rd) (?u @ NUL # r')"
    using find_relative_step(2) [OF len _ idx _ _ cut] by simp
  then show ?thesis using path find_relative_slashed [OF assms(1-3), of ?junk] junk assms(4) by simp
qed

end
