(* ===== verification/ElfLoader.thy ===== *)
theory ElfLoader
  imports Paging RangePool Ramdisk
begin

unbundle bit_operations_syntax

text \<open>
  The loader for executables (Kernel/Kernel/executable/Elf32Loader.cpp): validation of the header, the
  pages for the image, the segments, and the copy of the thread local storage. The file is the
  memory of the ramdisk from its header on, a list of bytes; the pages of the process are written
  byte by byte through the page tables of \<open>Paging\<close>.
\<close>

section \<open>Headers\<close>

record Elf32Ehdr =
  e_ident :: "u8 list"
  e_type :: u16
  e_machine :: u16
  e_version :: u32
  e_entry :: u32
  e_phoff :: u32
  e_shoff :: u32
  e_flags :: u32
  e_ehsize :: u16
  e_phentsize :: u16
  e_phnum :: u16
  e_shentsize :: u16
  e_shnum :: u16
  e_shstrndx :: u16

record Elf32Phdr =
  p_type :: u32
  p_offset :: u32
  p_vaddr :: u32
  p_paddr :: u32
  p_filesz :: u32
  p_memsz :: u32
  p_flags :: u32
  p_align :: u32

definition u16_of_bytes :: "u8 list \<Rightarrow> u16" where
  "u16_of_bytes bs = ucast (bs ! 0) OR push_bit 8 (ucast (bs ! 1))"

definition image_u16 :: "u8 list \<Rightarrow> u32 \<Rightarrow> u16 kres" where
  "image_u16 img pos = kbind (image_bytes img pos 2) (\<lambda>bs. Inr (u16_of_bytes bs))"

definition elf_header :: "u8 list \<Rightarrow> Elf32Ehdr kres" where
  "elf_header img =
     kbind (image_bytes img 0 16) (\<lambda>ident.
     kbind (image_u16 img 16) (\<lambda>type.
     kbind (image_u16 img 18) (\<lambda>machine.
     kbind (image_u32 img 20) (\<lambda>version.
     kbind (image_u32 img 24) (\<lambda>entry.
     kbind (image_u32 img 28) (\<lambda>phoff.
     kbind (image_u32 img 32) (\<lambda>shoff.
     kbind (image_u32 img 36) (\<lambda>flags.
     kbind (image_u16 img 40) (\<lambda>ehsize.
     kbind (image_u16 img 42) (\<lambda>phentsize.
     kbind (image_u16 img 44) (\<lambda>phnum.
     kbind (image_u16 img 46) (\<lambda>shentsize.
     kbind (image_u16 img 48) (\<lambda>shnum.
     kbind (image_u16 img 50) (\<lambda>shstrndx.
       Inr \<lparr>e_ident = ident, e_type = type, e_machine = machine, e_version = version, e_entry = entry, e_phoff = phoff, e_shoff = shoff,
            e_flags = flags, e_ehsize = ehsize, e_phentsize = phentsize, e_phnum = phnum, e_shentsize = shentsize, e_shnum = shnum,
            e_shstrndx = shstrndx\<rparr>))))))))))))))"

definition program_header :: "u8 list \<Rightarrow> Elf32Ehdr \<Rightarrow> u32 \<Rightarrow> Elf32Phdr kres" where
  "program_header img header i =
     (let pos = e_phoff header + ucast (e_phentsize header) * i in
      kbind (image_u32 img pos) (\<lambda>type.
      kbind (image_u32 img (pos + 4)) (\<lambda>offset.
      kbind (image_u32 img (pos + 8)) (\<lambda>vaddr.
      kbind (image_u32 img (pos + 12)) (\<lambda>paddr.
      kbind (image_u32 img (pos + 16)) (\<lambda>filesz.
      kbind (image_u32 img (pos + 20)) (\<lambda>memsz.
      kbind (image_u32 img (pos + 24)) (\<lambda>flags.
      kbind (image_u32 img (pos + 28)) (\<lambda>align.
        Inr \<lparr>p_type = type, p_offset = offset, p_vaddr = vaddr, p_paddr = paddr, p_filesz = filesz, p_memsz = memsz, p_flags = flags,
             p_align = align\<rparr>)))))))))"

definition PT_LOAD :: u32 where "PT_LOAD = 1"
definition PT_TLS :: u32 where "PT_TLS = 7"

datatype Elf32ValidationStatus =
  ElfSUCCESSFUL | NOT_ELF | NOT_EXECUTABLE | NOT_I386 | NOT_32BIT | NOT_LITTLE_ENDIAN | NOT_STANDARD_ELF

definition Elf32Loader_validate :: "Elf32Ehdr \<Rightarrow> Elf32ValidationStatus" where
  "Elf32Loader_validate header =
     (if e_ident header ! 0 \<noteq> 0x7F \<or> e_ident header ! 1 \<noteq> 0x45 \<or> e_ident header ! 2 \<noteq> 0x4C \<or> e_ident header ! 3 \<noteq> 0x46 then NOT_ELF
      else if e_type header \<noteq> 2 then NOT_EXECUTABLE
      else if e_machine header \<noteq> 3 then NOT_I386
      else if e_ident header ! 4 \<noteq> 1 then NOT_32BIT
      else if e_ident header ! 5 \<noteq> 1 then NOT_LITTLE_ENDIAN
      else if e_version header \<noteq> 1 then NOT_STANDARD_ELF
      else ElfSUCCESSFUL)"

section \<open>Bytes of the address space\<close>

text \<open>The byte of a word that an address selects.\<close>

definition byte_of :: "u32 \<Rightarrow> u32 \<Rightarrow> u8" where
  "byte_of va w = ucast (drop_bit (8 * unat (va mod 4)) w)"

definition put_byte :: "u32 \<Rightarrow> u8 \<Rightarrow> u32 \<Rightarrow> u32" where
  "put_byte va b w =
     (let k = 8 * unat (va mod 4) in (w AND NOT (push_bit k 0xFF)) OR push_bit k (ucast b))"

definition read_byte :: "paging \<Rightarrow> u32 \<Rightarrow> u8 kres" where
  "read_byte pg va = kbind (read_word pg va) (\<lambda>w. Inr (byte_of va w))"

definition write_byte :: "paging \<Rightarrow> u32 \<Rightarrow> u8 \<Rightarrow> paging kres" where
  "write_byte pg va b = kbind (read_word pg va) (\<lambda>w. write_word pg va (put_byte va b w))"

fun set_bytes_loop :: "nat \<Rightarrow> paging \<Rightarrow> u32 \<Rightarrow> u8 \<Rightarrow> paging kres" where
  "set_bytes_loop 0 pg pos value = Inr pg"
| "set_bytes_loop (Suc n) pg pos value =
     kbind (write_byte pg pos value) (\<lambda>pg. set_bytes_loop n pg (pos + 1) value)"

definition Memory_setBytes :: "paging \<Rightarrow> u32 \<Rightarrow> u8 \<Rightarrow> u32 \<Rightarrow> paging kres" where
  "Memory_setBytes pg target value number = set_bytes_loop (unat number) pg target value"

text \<open>The source of a copy is a position in the file.\<close>

fun copy_loop :: "nat \<Rightarrow> paging \<Rightarrow> u32 \<Rightarrow> u8 list \<Rightarrow> u32 \<Rightarrow> paging kres" where
  "copy_loop 0 pg targetPos img sourcePos = Inr pg"
| "copy_loop (Suc n) pg targetPos img sourcePos =
     kbind (image_bytes img sourcePos 1) (\<lambda>b.
     kbind (write_byte pg targetPos (b ! 0)) (\<lambda>pg. copy_loop n pg (targetPos + 1) img (sourcePos + 1)))"

definition Memory_copy :: "paging \<Rightarrow> u32 \<Rightarrow> u8 list \<Rightarrow> u32 \<Rightarrow> u32 \<Rightarrow> paging kres" where
  "Memory_copy pg target img source number = copy_loop (unat number) pg target img source"

section \<open>Loading\<close>

definition PAGE_ALIGN_DOWN :: "u32 \<Rightarrow> u32" where
  "PAGE_ALIGN_DOWN value = value AND NOT (PAGE_SIZE - 1)"

definition PAGE_ALIGN_UP :: "u32 \<Rightarrow> u32" where
  "PAGE_ALIGN_UP value = (if value AND (PAGE_SIZE - 1) \<noteq> 0 then PAGE_ALIGN_DOWN value + PAGE_SIZE else value)"

definition DEFAULT_USER_TABLE_FLAGS :: u32 where
  "DEFAULT_USER_TABLE_FLAGS = 1 OR 2 OR 4"

definition DEFAULT_USER_PAGE_FLAGS :: u32 where
  "DEFAULT_USER_PAGE_FLAGS = 1 OR 2 OR 4"

text \<open>The current address space, the counters of references, and the fields of the process that the loader uses.\<close>

record elf_state =
  el_pg :: paging
  el_refs :: refdir
  el_virtualRanges :: range_pool
  el_imageStart :: u32
  el_imageEnd :: u32

definition map_page :: "elf_state \<Rightarrow> u32 \<Rightarrow> elf_state kres" where
  "map_page s virt =
     kbind (PPallocator_allocate (pg_pp (el_pg s))) (\<lambda>(phys, pp).
     kbind (AddressSpace_map ((el_pg s)\<lparr>pg_pp := pp\<rparr>) virt phys DEFAULT_USER_TABLE_FLAGS DEFAULT_USER_PAGE_FLAGS False) (\<lambda>(r, pg).
       Inr (s\<lparr>el_pg := pg, el_refs := PPreferenceTracker_increment (el_refs s) phys\<rparr>)))"

partial_function (option) map_pages :: "elf_state \<Rightarrow> u32 \<Rightarrow> u32 \<Rightarrow> elf_state kres option" where
  "map_pages s virt end' =
     (if virt < end'
      then case map_page s virt of Inl e \<Rightarrow> Some (Inl e) | Inr s \<Rightarrow> map_pages s (virt + PAGE_SIZE) end'
      else Some (Inr s))"

fun image_range :: "u8 list \<Rightarrow> Elf32Ehdr \<Rightarrow> u32 list \<Rightarrow> u32 \<Rightarrow> u32 \<Rightarrow> (u32 \<times> u32) kres" where
  "image_range img header [] imageStart imageEnd = Inr (imageStart, imageEnd)"
| "image_range img header (i # is) imageStart imageEnd =
     kbind (program_header img header i) (\<lambda>ph.
       if p_type ph \<noteq> PT_LOAD then image_range img header is imageStart imageEnd
       else image_range img header is
              (if p_vaddr ph < imageStart then p_vaddr ph else imageStart)
              (if p_vaddr ph + p_memsz ph > imageEnd then p_vaddr ph + p_memsz ph else imageEnd))"

definition write_segment :: "u8 list \<Rightarrow> Elf32Phdr \<Rightarrow> u32 \<Rightarrow> paging \<Rightarrow> paging kres" where
  "write_segment img ph target pg =
     kbind (Memory_setBytes pg target 0 (p_memsz ph)) (\<lambda>pg.
       Memory_copy pg target img (p_offset ph) (p_filesz ph))"

fun write_segments :: "u8 list \<Rightarrow> Elf32Ehdr \<Rightarrow> u32 list \<Rightarrow> paging \<Rightarrow> paging kres" where
  "write_segments img header [] pg = Inr pg"
| "write_segments img header (i # is) pg =
     kbind (program_header img header i) (\<lambda>ph.
       if p_type ph \<noteq> PT_LOAD then write_segments img header is pg
       else kbind (write_segment img ph (p_vaddr ph) pg) (write_segments img header is))"

definition header_indices :: "Elf32Ehdr \<Rightarrow> u32 list" where
  "header_indices header = map of_nat [0..<unat (e_phnum header)]"

definition Elf32Loader_loadLoadSegment :: "u8 list \<Rightarrow> Elf32Ehdr \<Rightarrow> elf_state \<Rightarrow> elf_state kres option" where
  "Elf32Loader_loadLoadSegment img header s =
     obind (Some (image_range img header (header_indices header) 0xFFFFFFFF 0)) (\<lambda>(imageStart, imageEnd).
     let imageStart = PAGE_ALIGN_DOWN imageStart; imageEnd = PAGE_ALIGN_UP imageEnd in
     obind (map_pages s imageStart imageEnd) (\<lambda>s.
     obind (Some (write_segments img header (header_indices header) (el_pg s))) (\<lambda>pg.
       Some (Inr (s\<lparr>el_pg := pg, el_imageStart := imageStart, el_imageEnd := imageEnd\<rparr>)))))"

text \<open>Only the first segment for thread local storage is copied.\<close>

fun load_tls_loop :: "u8 list \<Rightarrow> Elf32Ehdr \<Rightarrow> u32 list \<Rightarrow> elf_state \<Rightarrow> elf_state kres option" where
  "load_tls_loop img header [] s = Some (Inr s)"
| "load_tls_loop img header (i # is) s =
     obind (Some (program_header img header i)) (\<lambda>ph.
       if p_type ph = PT_TLS
       then let tlsSize = PAGE_ALIGN_UP (p_memsz ph); tlsPages = tlsSize div PAGE_SIZE in
            case AddressRangePool_allocate (el_virtualRanges s) tlsPages 0 of (ranges, tlsStart) \<Rightarrow>
            obind (map_pages (s\<lparr>el_virtualRanges := ranges\<rparr>) tlsStart (tlsStart + tlsSize)) (\<lambda>s.
            obind (Some (write_segment img ph tlsStart (el_pg s))) (\<lambda>pg. Some (Inr (s\<lparr>el_pg := pg\<rparr>))))
       else load_tls_loop img header is s)"

definition Elf32Loader_loadTlsMasterCopy :: "u8 list \<Rightarrow> Elf32Ehdr \<Rightarrow> elf_state \<Rightarrow> elf_state kres option" where
  "Elf32Loader_loadTlsMasterCopy img header s = load_tls_loop img header (header_indices header) s"

definition Elf32Loader_loadBinaryToCurrentAddressSpace :: "u8 list \<Rightarrow> Elf32Ehdr \<Rightarrow> elf_state \<Rightarrow> elf_state kres option" where
  "Elf32Loader_loadBinaryToCurrentAddressSpace img header s =
     obind (Elf32Loader_loadLoadSegment img header s) (Elf32Loader_loadTlsMasterCopy img header)"

section \<open>Pages of data\<close>

text \<open>
  Pages whose frames are no tables, not free, and not shared: writes to them change nothing else.
\<close>

definition data_frame :: "paging \<Rightarrow> u32 \<Rightarrow> bool" where
  "data_frame pg f \<longleftrightarrow> f \<noteq> pg_cr3 pg \<and> page_no f \<notin> free_pages (pp_bitmap (pg_pp pg)) \<and>
     (\<forall>t < 1023. dir_entry pg t \<noteq> 0 \<longrightarrow> frame_of (dir_entry pg t) \<noteq> f)"

definition data_pages :: "paging \<Rightarrow> u32 set \<Rightarrow> bool" where
  "data_pages pg V \<longleftrightarrow> (\<forall>v \<in> V. mappable v \<and> present (pte pg v) \<and> data_frame pg (frame_of (pte pg v))) \<and>
     inj_on (\<lambda>v. frame_of (pte pg v)) V"

definition page_of :: "u32 \<Rightarrow> u32" where
  "page_of va = frame_of va"

definition peek :: "paging \<Rightarrow> u32 \<Rightarrow> u8" where
  "peek pg va = byte_of va (pg_mem pg (frame_of (pte pg (page_of va))) ((va AND PAGE_ALIGN_MASK) div 4))"

lemma unat_page_of: "unat (page_of va) = 4096 * (unat va div 4096)"
proof -
  have "page_of va = push_bit 12 (drop_bit 12 va)"
    by (rule bit_eqI) (auto simp: page_of_def bit_frame_of bit_push_bit_iff bit_drop_bit_eq)
  moreover have "unat va div 4096 * 4096 < 2 ^ 32" by (rule le_less_trans [OF div_times_less_eq_dividend]) (use unsigned_less [of va] in simp)
  ultimately show ?thesis
    by (simp add: push_bit_eq_mult drop_bit_eq_div unat_word_ariths unat_div mult.commute)
qed

lemma page_of_div: "page_of va div PAGE_SIZE = va div PAGE_SIZE"
  by (rule iffD2 [OF word_unat_eq_iff]) (simp add: PAGE_SIZE_def unat_div unat_page_of)

lemma page_indices [simp]:
  "TABLE_IN_DIRECTORY_INDEX (page_of va) = TABLE_IN_DIRECTORY_INDEX va" "PAGE_IN_TABLE_INDEX (page_of va) = PAGE_IN_TABLE_INDEX va"
  by (simp_all add: TABLE_IN_DIRECTORY_INDEX_def PAGE_IN_TABLE_INDEX_def page_of_div)

lemma pte_page_of [simp]: "pte pg (page_of va) = pte pg va"
  by (simp add: pte_def)

lemma address_parts:
  assumes "page_of a = page_of b" and "(a AND PAGE_ALIGN_MASK) div 4 = (b AND PAGE_ALIGN_MASK) div 4" and "a mod 4 = b mod 4"
  shows "a = b"
proof -
  have "unat (page_of a) = unat (page_of b)" "unat ((a AND PAGE_ALIGN_MASK) div 4) = unat ((b AND PAGE_ALIGN_MASK) div 4)" "unat (a mod 4) = unat (b mod 4)"
    using assms by simp_all
  then have d: "unat a div 4096 = unat b div 4096" "unat a mod 4096 div 4 = unat b mod 4096 div 4" "unat a mod 4 = unat b mod 4"
    by (simp_all add: unat_page_of and_page_mask unat_div unat_mod)
  then have "unat a mod 4096 mod 4 = unat b mod 4096 mod 4" by (simp add: mod_mod_cancel)
  then have "unat a mod 4096 = unat b mod 4096" using d(2) div_mult_mod_eq [of "unat a mod 4096" 4] div_mult_mod_eq [of "unat b mod 4096" 4] by metis
  then have "unat a = unat b" using d(1) div_mult_mod_eq [of "unat a" 4096] div_mult_mod_eq [of "unat b" 4096] by metis
  then show ?thesis by (rule iffD2 [OF word_unat_eq_iff])
qed

lemma bit_byte_of: "bit (byte_of va w) n \<longleftrightarrow> n < 8 \<and> bit w (8 * unat (va mod 4) + n)"
  by (auto simp: byte_of_def bit_ucast_iff bit_drop_bit_eq)

lemma bit_put_byte:
  "bit (put_byte va b w) n \<longleftrightarrow> n < 32 \<and> (if 8 * unat (va mod 4) \<le> n \<and> n < 8 * unat (va mod 4) + 8 then bit b (n - 8 * unat (va mod 4)) else bit w n)"
proof -
  have ff: "bit (0xFF :: u32) m \<longleftrightarrow> m < 8" for m
  proof -
    have e: "(0xFF :: u32) = mask 8" by (simp add: mask_eq_exp_minus_1)
    show ?thesis unfolding e bit_mask_iff by (auto simp: possible_bit_def)
  qed
  show ?thesis
    unfolding put_byte_def Let_def bit_or_iff bit_and_iff bit_not_iff bit_push_bit_iff ff bit_ucast_iff
    by (auto simp: possible_bit_def dest: bit_imp_le_length)
qed

lemma byte_of_put: "byte_of va (put_byte va b w) = b" "va mod 4 \<noteq> va' mod 4 \<Longrightarrow> byte_of va' (put_byte va b w) = byte_of va' w"
proof -
  have l: "unat (x mod 4) < 4" for x :: u32 by (simp add: unat_mod)
  show "byte_of va (put_byte va b w) = b" using l [of va]
    by (intro bit_eqI) (auto simp: bit_byte_of bit_put_byte dest: bit_imp_le_length)
  assume "va mod 4 \<noteq> va' mod 4"
  then have "unat (va mod 4) \<noteq> unat (va' mod 4)" by (simp add: word_unat_eq_iff)
  then show "byte_of va' (put_byte va b w) = byte_of va' w" using l [of va'] l [of va]
    by (intro bit_eqI) (auto simp: bit_byte_of bit_put_byte)
qed

text \<open>What a write to pages of data changes: their bytes, and nothing of the tables, the allocator and the other frames.\<close>

definition written :: "paging \<Rightarrow> paging \<Rightarrow> u32 set \<Rightarrow> (u32 \<Rightarrow> u8) \<Rightarrow> bool" where
  "written pg pg' V f \<longleftrightarrow> pg_inv pg' \<and> data_pages pg' V \<and> pg_cr3 pg' = pg_cr3 pg \<and> pg_pp pg' = pg_pp pg \<and> pg_temp pg' = pg_temp pg \<and>
     (\<forall>t. dir_entry pg' t = dir_entry pg t) \<and> (\<forall>va. TABLE_IN_DIRECTORY_INDEX va < 1023 \<longrightarrow> pte pg' va = pte pg va) \<and>
     (\<forall>va. page_of va \<in> V \<longrightarrow> peek pg' va = f va) \<and>
     (\<forall>g. (\<forall>v \<in> V. frame_of (pte pg v) \<noteq> g) \<longrightarrow> pg_mem pg' g = pg_mem pg g)"

lemma data_pagesD:
  assumes "data_pages pg V" and "page_of va \<in> V"
  shows "TABLE_IN_DIRECTORY_INDEX va < 1023" "present (pte pg va)" "data_frame pg (frame_of (pte pg va))"
  using assms by (auto simp: data_pages_def mappable_def dest!: bspec [where x = "page_of va"])

lemma written_refl: "pg_inv pg \<Longrightarrow> data_pages pg V \<Longrightarrow> written pg pg V (peek pg)"
  by (simp add: written_def)

lemma written_trans:
  assumes "written pg pg1 V f" and "written pg1 pg2 V g" and "data_pages pg V"
  shows "written pg pg2 V g"
proof -
  have "pte pg1 v = pte pg v" if "v \<in> V" for v using assms(1,3) that by (auto simp: written_def data_pages_def mappable_def)
  then show ?thesis using assms(1,2) by (simp add: written_def)
qed

lemma written_cong: "written pg pg' V f \<Longrightarrow> (\<And>va. page_of va \<in> V \<Longrightarrow> f va = g va) \<Longrightarrow> written pg pg' V g"
  by (simp add: written_def)

lemma data_walk:
  assumes "pg_inv pg" and "data_pages pg V" and "page_of va \<in> V"
  shows "page_walk pg va = Inr (frame_of (pte pg va), (va AND PAGE_ALIGN_MASK) div 4)"
proof -
  note d = data_pagesD [OF assms(2,3)]
  have n: "dir_entry pg (TABLE_IN_DIRECTORY_INDEX va) \<noteq> 0" using d(2) present_nonzero [of 0] by (auto simp: pte_def)
  then show ?thesis using pg_inv_table(1) [OF assms(1) d(1) n] d(2) by (simp add: page_walk_def dir_entry_def pte_def table_entry_def Let_def)
qed

lemma data_write:
  fixes i w :: u32
  assumes "pg_inv pg" and "data_frame pg f"
  defines "pg' \<equiv> write_phys pg f i w"
  shows "pg_inv pg'" "dir_entry pg' t = dir_entry pg t" "TABLE_IN_DIRECTORY_INDEX va < 1023 \<Longrightarrow> pte pg' va = pte pg va" "data_frame pg' g = data_frame pg g"
proof -
  have f: "f \<noteq> pg_cr3 pg" "\<And>t. t < 1023 \<Longrightarrow> dir_entry pg t \<noteq> 0 \<Longrightarrow> frame_of (dir_entry pg t) \<noteq> f" using assms(2) by (auto simp: data_frame_def)
  show dir: "dir_entry pg' t = dir_entry pg t" for t using f(1) by (simp add: pg'_def dir_write_frame)
  show "pg_inv pg'" using assms(1) f(1) unfolding pg_inv_def dir by (simp add: pg'_def recursive_write_frame)
  show "pte pg' va = pte pg va" if "TABLE_IN_DIRECTORY_INDEX va < 1023" using f(2) [OF that] unfolding pte_def table_entry_def dir by (simp add: pg'_def)
  show "data_frame pg' g = data_frame pg g" unfolding data_frame_def dir by (simp add: pg'_def)
qed

lemma write_byte_spec:
  assumes inv: "pg_inv pg" and dp: "data_pages pg V" and va: "page_of va \<in> V"
  shows "\<exists>pg'. write_byte pg va b = Inr pg' \<and> written pg pg' V ((peek pg)(va := b))"
proof -
  let ?f = "frame_of (pte pg va)" and ?i = "(va AND PAGE_ALIGN_MASK) div 4"
  let ?w = "put_byte va b (pg_mem pg ?f ?i)"
  let ?pg = "write_phys pg ?f ?i ?w"
  note d = data_pagesD [OF dp va] and walk = data_walk [OF inv dp va]
  note w = data_write [OF inv d(3), where i = ?i and w = ?w]
  have run: "write_byte pg va b = Inr ?pg" by (simp add: write_byte_def read_word_def write_word_def walk)
  have p: "pte ?pg v = pte pg v" if "v \<in> V" for v using dp that w(3) by (auto simp: data_pages_def mappable_def)
  have "data_pages ?pg V" using dp p unfolding data_pages_def w(4) inj_on_def by simp
  moreover have "peek ?pg x = ((peek pg)(va := b)) x" if x: "page_of x \<in> V" for x
  proof -
    have q: "pte ?pg x = pte pg x" using data_pagesD(1) [OF dp x] w(3) by blast
    show ?thesis
    proof (cases "frame_of (pte pg x) = ?f \<and> (x AND PAGE_ALIGN_MASK) div 4 = ?i")
      case True
      then have "page_of x = page_of va" using dp x va by (auto simp: data_pages_def dest!: inj_onD [where x = "page_of x" and y = "page_of va"])
      then have "x = va \<longleftrightarrow> x mod 4 = va mod 4" using address_parts [of x va] True by auto
      then show ?thesis using True q byte_of_put(1) [of va b] byte_of_put(2) [of va x b] by (auto simp: peek_def)
    next
      case False
      then show ?thesis using q by (auto simp: peek_def)
    qed
  qed
  moreover have "pg_mem ?pg g = pg_mem pg g" if "\<forall>v \<in> V. frame_of (pte pg v) \<noteq> g" for g using that va by (auto dest!: bspec [where x = "page_of va"])
  ultimately have "written pg ?pg V ((peek pg)(va := b))" using w by (simp add: written_def del: write_phys_simps(1) fun_upd_apply)
  then show ?thesis using run by blast
qed

section \<open>Segments\<close>

lemma next_offset: "va \<noteq> pos \<Longrightarrow> unat ((va :: u32) - (pos + 1)) = unat (va - pos) - 1"
  using unat_minus_one [of "va - pos"] by (simp add: diff_diff_eq)

lemma offsets_next:
  "(unat ((va :: u32) - pos) < Suc n) = (va = pos \<or> unat (va - (pos + 1)) < n \<and> va \<noteq> pos)"
proof (cases "va = pos")
  case False
  then have "unat (va - pos) \<noteq> 0" by (simp add: unat_eq_0)
  then show ?thesis using next_offset [OF False] False by auto
qed simp

lemma set_bytes_spec:
  assumes "pg_inv pg" and "data_pages pg V" and "\<forall>i < n. page_of (pos + of_nat i) \<in> V" and "n \<le> 2 ^ 32"
  shows "\<exists>pg'. set_bytes_loop n pg pos v = Inr pg' \<and> written pg pg' V (\<lambda>va. if unat (va - pos) < n then v else peek pg va)"
  using assms
proof (induction n arbitrary: pg pos)
  case 0
  then show ?case using written_refl [OF "0.prems"(1,2)] by simp
next
  case (Suc n)
  have "page_of pos \<in> V" using Suc.prems(3) [rule_format, of 0] by simp
  then obtain pg1 where w1: "write_byte pg pos v = Inr pg1" "written pg pg1 V ((peek pg)(pos := v))"
    using write_byte_spec [OF Suc.prems(1,2)] by blast
  have "\<forall>i < n. page_of (pos + 1 + of_nat i) \<in> V" using Suc.prems(3) by (metis Suc_less_eq add.assoc of_nat_Suc)
  then obtain pg2 where w2: "set_bytes_loop n pg1 (pos + 1) v = Inr pg2" "written pg1 pg2 V (\<lambda>va. if unat (va - (pos + 1)) < n then v else peek pg1 va)"
    using Suc.IH [of pg1 "pos + 1"] Suc.prems(4) w1(2) by (auto simp: written_def)
  have "written pg pg2 V (\<lambda>va. if unat (va - pos) < Suc n then v else peek pg va)"
    using written_trans [OF w1(2) w2(2) Suc.prems(2)]
    by (rule written_cong) (use w1(2) in \<open>auto simp: offsets_next written_def\<close>)
  then show ?case using w1(1) w2(1) by simp
qed

lemma copy_spec:
  assumes "pg_inv pg" and "data_pages pg V" and "\<forall>i < n. page_of (pos + of_nat i) \<in> V" and "unat src + n \<le> length img" and "length img < 2 ^ 32"
  shows "\<exists>pg'. copy_loop n pg pos img src = Inr pg' \<and>
    written pg pg' V (\<lambda>va. if unat (va - pos) < n then img ! (unat src + unat (va - pos)) else peek pg va)"
  using assms
proof (induction n arbitrary: pg pos src)
  case 0
  then show ?case using written_refl [OF "0.prems"(1,2)] by simp
next
  case (Suc n)
  have b: "image_bytes img src 1 = Inr [img ! unat src]" using Suc.prems(4) by (simp add: image_bytes_def take_Suc hd_drop_conv_nth)
  have "page_of pos \<in> V" using Suc.prems(3) [rule_format, of 0] by simp
  then obtain pg1 where w1: "write_byte pg pos (img ! unat src) = Inr pg1" "written pg pg1 V ((peek pg)(pos := img ! unat src))"
    using write_byte_spec [OF Suc.prems(1,2)] by blast
  have "\<forall>i < n. page_of (pos + 1 + of_nat i) \<in> V" using Suc.prems(3) by (metis Suc_less_eq add.assoc of_nat_Suc)
  moreover have src: "unat (src + 1) = Suc (unat src)" using Suc.prems(4,5) by (simp add: unat_word_ariths)
  ultimately obtain pg2 where w2: "copy_loop n pg1 (pos + 1) img (src + 1) = Inr pg2"
      "written pg1 pg2 V (\<lambda>va. if unat (va - (pos + 1)) < n then img ! (unat (src + 1) + unat (va - (pos + 1))) else peek pg1 va)"
    using Suc.IH [of pg1 "pos + 1" "src + 1"] Suc.prems(4,5) w1(2) by (auto simp: written_def)
  have "written pg pg2 V (\<lambda>va. if unat (va - pos) < Suc n then img ! (unat src + unat (va - pos)) else peek pg va)"
    using written_trans [OF w1(2) w2(2) Suc.prems(2)]
  proof (rule written_cong)
    fix va assume va: "page_of va \<in> V"
    show "(if unat (va - (pos + 1)) < n then img ! (unat (src + 1) + unat (va - (pos + 1))) else peek pg1 va) =
        (if unat (va - pos) < Suc n then img ! (unat src + unat (va - pos)) else peek pg va)"
    proof (cases "va = pos")
      case True
      have "\<not> unat (pos - (pos + 1)) < n"
        using Suc.prems(4,5) by (simp add: unsigned_minus_1_eq_mask mask_eq_exp_minus_1)
      then show ?thesis using True w1(2) va by (simp add: written_def)
    next
      case False
      then have "unat (va - pos) \<noteq> 0" by (simp add: unat_eq_0)
      then show ?thesis using False w1(2) va next_offset [OF False] src by (auto simp: written_def)
    qed
  qed
  then show ?case using b w1(1) w2(1) by simp
qed

text \<open>The bytes that a segment puts at an address.\<close>

definition covers :: "u32 \<Rightarrow> Elf32Phdr \<Rightarrow> u32 \<Rightarrow> bool" where
  "covers target ph va \<longleftrightarrow> unat (va - target) < unat (p_memsz ph)"

definition segment_byte :: "u8 list \<Rightarrow> u32 \<Rightarrow> Elf32Phdr \<Rightarrow> u32 \<Rightarrow> u8" where
  "segment_byte img target ph va =
     (if unat (va - target) < unat (p_filesz ph) then img ! (unat (p_offset ph) + unat (va - target)) else 0)"

text \<open>A segment that lies on pages of data and in the file.\<close>

definition segment_ok :: "u8 list \<Rightarrow> u32 set \<Rightarrow> u32 \<Rightarrow> Elf32Phdr \<Rightarrow> bool" where
  "segment_ok img V target ph \<longleftrightarrow> p_filesz ph \<le> p_memsz ph \<and> unat (p_offset ph) + unat (p_filesz ph) \<le> length img \<and>
     (\<forall>i < unat (p_memsz ph). page_of (target + of_nat i) \<in> V)"

lemma write_segment_spec:
  assumes "pg_inv pg" and "data_pages pg V" and "segment_ok img V target ph" and "length img < 2 ^ 32"
  shows "\<exists>pg'. write_segment img ph target pg = Inr pg' \<and>
    written pg pg' V (\<lambda>va. if covers target ph va then segment_byte img target ph va else peek pg va)"
proof -
  have sz: "unat (p_filesz ph) \<le> unat (p_memsz ph)" and pages: "\<forall>i < unat (p_memsz ph). page_of (target + of_nat i) \<in> V"
    using assms(3) by (simp_all add: segment_ok_def word_le_nat_alt)
  obtain pg1 where w1: "Memory_setBytes pg target 0 (p_memsz ph) = Inr pg1"
      "written pg pg1 V (\<lambda>va. if unat (va - target) < unat (p_memsz ph) then 0 else peek pg va)"
    using set_bytes_spec [OF assms(1,2) pages, of 0] less_imp_le [OF u32_bound [of "p_memsz ph"]] by (auto simp: Memory_setBytes_def)
  obtain pg2 where w2: "Memory_copy pg1 target img (p_offset ph) (p_filesz ph) = Inr pg2"
      "written pg1 pg2 V (\<lambda>va. if unat (va - target) < unat (p_filesz ph) then img ! (unat (p_offset ph) + unat (va - target)) else peek pg1 va)"
    using copy_spec [of pg1 V "unat (p_filesz ph)" target "p_offset ph" img] assms(3,4) pages sz w1(2)
    by (auto simp: Memory_copy_def written_def segment_ok_def)
  have "written pg pg2 V (\<lambda>va. if covers target ph va then segment_byte img target ph va else peek pg va)"
    using written_trans [OF w1(2) w2(2) assms(2)]
    by (rule written_cong) (use w1(2) sz in \<open>auto simp: covers_def segment_byte_def written_def\<close>)
  then show ?thesis using w1(1) w2(1) by (simp add: write_segment_def)
qed

text \<open>Several segments, written in their order.\<close>

definition overlay :: "u8 list \<Rightarrow> Elf32Phdr list \<Rightarrow> (u32 \<Rightarrow> u8) \<Rightarrow> u32 \<Rightarrow> u8" where
  "overlay img phs f va = foldl (\<lambda>b ph. if covers (p_vaddr ph) ph va then segment_byte img (p_vaddr ph) ph va else b) (f va) phs"

lemma overlay_other: "(\<forall>ph \<in> set phs. \<not> covers (p_vaddr ph) ph va) \<Longrightarrow> overlay img phs f va = f va"
  unfolding overlay_def by (induction phs rule: rev_induct) simp_all

lemma overlay_at:
  assumes "ph \<in> set phs" and "covers (p_vaddr ph) ph va" and "\<forall>q \<in> set phs. covers (p_vaddr q) q va \<longrightarrow> q = ph"
  shows "overlay img phs f va = segment_byte img (p_vaddr ph) ph va"
  using assms unfolding overlay_def
proof (induction phs rule: rev_induct)
  case (snoc q phs)
  show ?case
  proof (cases "covers (p_vaddr q) q va")
    case True
    then have "q = ph" using snoc.prems(3) by simp
    then show ?thesis using True by simp
  next
    case False
    then have mem: "ph \<in> set phs" using snoc.prems(1,2) by auto
    have "\<forall>q \<in> set phs. covers (p_vaddr q) q va \<longrightarrow> q = ph" by (intro ballI impI) (rule snoc.prems(3) [rule_format], simp_all)
    then have "foldl (\<lambda>b ph. if covers (p_vaddr ph) ph va then segment_byte img (p_vaddr ph) ph va else b) (f va) phs = segment_byte img (p_vaddr ph) ph va"
      by (rule snoc.IH [OF mem snoc.prems(2)])
    then show ?thesis using False by simp
  qed
qed simp

abbreviation program_headers :: "u8 list \<Rightarrow> Elf32Ehdr \<Rightarrow> u32 list \<Rightarrow> Elf32Phdr list \<Rightarrow> bool" where
  "program_headers img header is phs \<equiv> list_all2 (\<lambda>i ph. program_header img header i = Inr ph) is phs"

abbreviation loaded :: "Elf32Phdr list \<Rightarrow> Elf32Phdr list" where
  "loaded phs \<equiv> filter (\<lambda>ph. p_type ph = PT_LOAD) phs"

lemma write_segments_spec:
  assumes "program_headers img header is phs" and "pg_inv pg" and "data_pages pg V"
    and "\<forall>ph \<in> set (loaded phs). segment_ok img V (p_vaddr ph) ph" and "length img < 2 ^ 32"
  shows "\<exists>pg'. write_segments img header is pg = Inr pg' \<and> written pg pg' V (overlay img (loaded phs) (peek pg))"
  using assms
proof (induction "is" arbitrary: phs pg)
  case Nil
  then show ?case using written_refl [OF Nil.prems(2,3)] by (simp add: overlay_def)
next
  case (Cons i "is")
  then obtain ph phs' where ph: "phs = ph # phs'" "program_header img header i = Inr ph" "program_headers img header is phs'"
    by (auto simp: list_all2_Cons1)
  show ?case
  proof (cases "p_type ph = PT_LOAD")
    case True
    then obtain pg1 where w1: "write_segment img ph (p_vaddr ph) pg = Inr pg1"
        "written pg pg1 V (\<lambda>va. if covers (p_vaddr ph) ph va then segment_byte img (p_vaddr ph) ph va else peek pg va)"
      using write_segment_spec [OF Cons.prems(2,3), of img "p_vaddr ph" ph] Cons.prems(4,5) ph(1) by auto
    obtain pg2 where w2: "write_segments img header is pg1 = Inr pg2" "written pg1 pg2 V (overlay img (loaded phs') (peek pg1))"
      using Cons.IH [OF ph(3), of pg1] w1(2) Cons.prems(4,5) ph(1) by (auto simp: written_def)
    have "written pg pg2 V (overlay img (loaded phs) (peek pg))"
      using written_trans [OF w1(2) w2(2) Cons.prems(3)]
      by (rule written_cong) (use w1(2) True ph(1) in \<open>simp add: overlay_def written_def\<close>)
    then show ?thesis using True ph(2) w1(1) w2(1) by simp
  next
    case False
    then show ?thesis using Cons.IH [OF ph(3) Cons.prems(2,3)] Cons.prems(4,5) ph(1,2) by simp
  qed
qed

section \<open>The pages of an image\<close>

text \<open>A page that the loader can map: it has no page yet, and its table, if there is one, is for user space.\<close>

definition ready :: "paging \<Rightarrow> u32 \<Rightarrow> bool" where
  "ready pg v \<longleftrightarrow> mappable v \<and> pte pg v = 0 \<and>
     (dir_entry pg (TABLE_IN_DIRECTORY_INDEX v) = 0 \<or> dir_entry pg (TABLE_IN_DIRECTORY_INDEX v) AND PAGE_TABLE_USERSPACE \<noteq> 0)"

lemma user_flags:
  "page_flags DEFAULT_USER_TABLE_FLAGS" "DEFAULT_USER_PAGE_FLAGS < 4096" "present DEFAULT_USER_PAGE_FLAGS"
  "DEFAULT_USER_TABLE_FLAGS AND PAGE_TABLE_USERSPACE \<noteq> 0"
  by (simp_all add: page_flags_def present_def PAGE_TABLE_PRESENT_def DEFAULT_USER_TABLE_FLAGS_def DEFAULT_USER_PAGE_FLAGS_def PAGE_TABLE_USERSPACE_def)

lemma mappable_same_page: "mappable u \<Longrightarrow> mappable v \<Longrightarrow> same_page u v \<Longrightarrow> u = v"
proof -
  assume a: "mappable u" "mappable v" "same_page u v"
  then have "u div PAGE_SIZE = v div PAGE_SIZE" by (simp add: same_page_def same_page_iff [symmetric])
  then have "unat u div 4096 = unat v div 4096" by (simp add: word_unat_eq_iff unat_div PAGE_SIZE_def)
  moreover have "unat u mod 4096 = 0" "unat v mod 4096 = 0" using a(1,2) by (simp_all add: mappable_def and_page_mask word_unat_eq_iff unat_mod)
  ultimately show "u = v" by (metis div_mult_mod_eq word_unat_eq_iff)
qed

lemma allocated_pages:
  assumes "pg_inv pg" and "free_pages (pp_bitmap (pg_pp pg)) \<noteq> {}"
  obtains p pp where "PPallocator_allocate (pg_pp pg) = Inr (p, pp)" "p AND PAGE_ALIGN_MASK = 0" "page_no p \<in> free_pages (pp_bitmap (pg_pp pg))"
    "free_pages (pp_bitmap pp) = free_pages (pp_bitmap (pg_pp pg)) - {page_no p}" "pg_inv (pg\<lparr>pg_pp := pp\<rparr>)"
proof -
  let ?F = "free_pages (pp_bitmap (pg_pp pg))"
  obtain p pp where a: "PPallocator_allocate (pg_pp pg) = Inr (p, pp)" "unat p = Min ?F * 4096" "free_pages (pp_bitmap pp) = ?F - {unat p div 4096}" "pp_inv pp"
    using PPallocator_allocate_Inr [of "pg_pp pg"] assms(1,2) unfolding pg_inv_def by blast
  have "p AND PAGE_ALIGN_MASK = 0" using a(2) by (simp add: and_page_mask word_unat_eq_iff unat_mod)
  moreover have "page_no p \<in> ?F" using a(2) assms(2) by (simp add: page_no_def)
  moreover have "pg_inv (pg\<lparr>pg_pp := pp\<rparr>)" using assms(1) a(3,4) by (auto simp: pg_inv_def recursive_dir_def dir_entry_def)
  ultimately show ?thesis using a that by (simp add: page_no_def)
qed

text \<open>
  What one mapped page changes: its own entry, at most one entry of the directory, whose new table
  comes from a free page, and at most two free pages.
\<close>

definition mapped :: "paging \<Rightarrow> paging \<Rightarrow> u32 \<Rightarrow> u32 \<Rightarrow> bool" where
  "mapped pg pg' v p \<longleftrightarrow> pg_inv pg' \<and> pg_cr3 pg' = pg_cr3 pg \<and> pg_temp pg' = pg_temp pg \<and>
     p AND PAGE_ALIGN_MASK = 0 \<and> page_no p \<in> free_pages (pp_bitmap (pg_pp pg)) \<and>
     free_pages (pp_bitmap (pg_pp pg')) \<subseteq> free_pages (pp_bitmap (pg_pp pg)) - {page_no p} \<and>
     card (free_pages (pp_bitmap (pg_pp pg))) \<le> card (free_pages (pp_bitmap (pg_pp pg'))) + 2 \<and>
     (\<forall>va. TABLE_IN_DIRECTORY_INDEX va < 1023 \<longrightarrow> pte pg' va = (if same_page va v then p OR DEFAULT_USER_PAGE_FLAGS else pte pg va)) \<and>
     (\<forall>t. dir_entry pg' t = dir_entry pg t \<or> t = TABLE_IN_DIRECTORY_INDEX v \<and> dir_entry pg' t AND PAGE_TABLE_USERSPACE \<noteq> 0 \<and>
        page_no (frame_of (dir_entry pg' t)) \<in> free_pages (pp_bitmap (pg_pp pg)) - {page_no p})"

lemma map_page_mapped:
  assumes inv: "pg_inv (el_pg s)" and rd: "ready (el_pg s) v" and free: "2 \<le> card (free_pages (pp_bitmap (pg_pp (el_pg s))))"
  shows "\<exists>pg' p. map_page s v = Inr (s\<lparr>el_pg := pg', el_refs := PPreferenceTracker_increment (el_refs s) p\<rparr>) \<and> mapped (el_pg s) pg' v p"
proof -
  let ?pg = "el_pg s" and ?F = "free_pages (pp_bitmap (pg_pp (el_pg s)))" and ?t = "TABLE_IN_DIRECTORY_INDEX v"
  have ne: "?F \<noteq> {}" using free by auto
  obtain p pp where a: "PPallocator_allocate (pg_pp ?pg) = Inr (p, pp)" "p AND PAGE_ALIGN_MASK = 0" "page_no p \<in> ?F"
      "free_pages (pp_bitmap pp) = ?F - {page_no p}" "pg_inv (?pg\<lparr>pg_pp := pp\<rparr>)"
    by (rule allocated_pages [OF inv ne])
  define pg0 where "pg0 = ?pg\<lparr>pg_pp := pp\<rparr>"
  have c0: "card (free_pages (pp_bitmap pp)) = card ?F - 1" using a(3,4) by simp
  then have ne0: "free_pages (pp_bitmap (pg_pp pg0)) \<noteq> {}" using free by (auto simp: pg0_def)
  have same: "dir_entry pg0 t = dir_entry ?pg t" "pte pg0 va = pte ?pg va" "pg_cr3 pg0 = pg_cr3 ?pg" "pg_temp pg0 = pg_temp ?pg" "pg_pp pg0 = pp" for t va
    by (simp_all add: pg0_def dir_entry_def pte_def table_entry_def)
  have pre: "mappable v" "DEFAULT_USER_TABLE_FLAGS AND PAGE_TABLE_USERSPACE = 0 \<or> dir_entry ?pg ?t AND PAGE_TABLE_USERSPACE \<noteq> 0 \<or> dir_entry ?pg ?t = 0"
      "dir_entry ?pg ?t \<noteq> 0 \<or> free_pages (pp_bitmap pp) \<noteq> {}" "pte ?pg v = 0 \<or> False"
    using rd ne0 by (auto simp: ready_def same)
  obtain pg' where m: "AddressSpace_map pg0 v p DEFAULT_USER_TABLE_FLAGS DEFAULT_USER_PAGE_FLAGS False = Inr (True, pg')" "pg_inv pg'"
      "pg_cr3 pg' = pg_cr3 ?pg" "pg_temp pg' = pg_temp ?pg"
      "\<forall>va. TABLE_IN_DIRECTORY_INDEX va < 1023 \<longrightarrow> pte pg' va = (if same_page va v then p OR DEFAULT_USER_PAGE_FLAGS else pte ?pg va)"
      "if dir_entry ?pg ?t = 0 then grown pg0 pg' ?t DEFAULT_USER_TABLE_FLAGS else (\<forall>t. dir_entry pg' t = dir_entry ?pg t) \<and> pg_pp pg' = pp"
    using map_ok [OF a(5) [folded pg0_def] pre(1) a(2) user_flags(1), unfolded same, OF pre(2-4), of DEFAULT_USER_PAGE_FLAGS] by blast
  have run: "map_page s v = Inr (s\<lparr>el_pg := pg', el_refs := PPreferenceTracker_increment (el_refs s) p\<rparr>)" using a(1) m(1) by (simp add: map_page_def pg0_def)
  have "mapped ?pg pg' v p"
  proof (cases "dir_entry ?pg ?t = 0")
    case True
    then have g: "grown pg0 pg' ?t DEFAULT_USER_TABLE_FLAGS" using m(6) by simp
    then have f: "page_no (frame_of (dir_entry pg' ?t)) \<in> ?F - {page_no p}"
        "free_pages (pp_bitmap (pg_pp pg')) = ?F - {page_no p} - {page_no (frame_of (dir_entry pg' ?t))}"
        "\<And>t. t \<noteq> ?t \<Longrightarrow> dir_entry pg' t = dir_entry ?pg t" "dir_entry pg' ?t AND PAGE_TABLE_USERSPACE \<noteq> 0"
      using a(4) user_flags(4) by (auto simp: grown_def same)
    have "card ?F \<le> card (free_pages (pp_bitmap (pg_pp pg'))) + 2" unfolding f(2) using f(1) a(3) by (auto simp: card_Diff_singleton_if)
    moreover have "\<forall>t. dir_entry pg' t = dir_entry ?pg t \<or> t = ?t \<and> dir_entry pg' t AND PAGE_TABLE_USERSPACE \<noteq> 0 \<and>
        page_no (frame_of (dir_entry pg' t)) \<in> ?F - {page_no p}" using f(1,3,4) by metis
    ultimately show ?thesis using m(2-5) a(2,3) f(2) unfolding mapped_def by (simp only: simp_thms) blast
  next
    case False
    then have f: "\<And>t. dir_entry pg' t = dir_entry ?pg t" "free_pages (pp_bitmap (pg_pp pg')) = ?F - {page_no p}" using m(6) a(4) by auto
    then show ?thesis using m(2-5) a(2,3) c0 a(4) unfolding mapped_def by auto
  qed
  then show ?thesis using run by blast
qed

lemma mapped_data:
  assumes inv: "pg_inv pg" and dp: "data_pages pg V" and m: "mapped pg pg' v p" and v: "mappable v" "v \<notin> V"
  shows "data_pages pg' (insert v V)"
proof -
  let ?F = "free_pages (pp_bitmap (pg_pp pg))"
  have d: "pg_cr3 pg' = pg_cr3 pg" "page_no p \<in> ?F" "p AND PAGE_ALIGN_MASK = 0" "free_pages (pp_bitmap (pg_pp pg')) \<subseteq> ?F - {page_no p}"
    using m by (auto simp: mapped_def)
  have pv: "pte pg' v = p OR DEFAULT_USER_PAGE_FLAGS" using m v(1) by (auto simp: mapped_def mappable_def same_page_def)
  have fp: "frame_of (pte pg' v) = p" "present (pte pg' v)" unfolding pv using frame_of_or [OF d(3) user_flags(2)] present_or [OF user_flags(3)] by auto
  have pu: "pte pg' u = pte pg u" if "u \<in> V" for u
    using m dp v that mappable_same_page [of u v] unfolding mapped_def data_pages_def mappable_def by auto
  have dir: "dir_entry pg' t = dir_entry pg t \<or> page_no (frame_of (dir_entry pg' t)) \<in> ?F - {page_no p}" for t using m by (auto simp: mapped_def)
  have old: "data_frame pg' f" if "data_frame pg f" for f
    using that d(1,4) dir unfolding data_frame_def by (metis Diff_iff subsetD)
  have tab: "page_no (frame_of (dir_entry pg t)) \<notin> ?F" if "t < 1023" "dir_entry pg t \<noteq> 0" for t using pg_inv_table(3) [OF inv that] .
  have cr3: "page_no (pg_cr3 pg) \<notin> ?F" using inv by (simp add: pg_inv_def)
  have new: "data_frame pg' p" unfolding data_frame_def
  proof (intro conjI allI impI)
    show "p \<noteq> pg_cr3 pg'" using cr3 d(1,2) by auto
    show "page_no p \<notin> free_pages (pp_bitmap (pg_pp pg'))" using d(4) by auto
    show "frame_of (dir_entry pg' t) \<noteq> p" if "t < 1023" "dir_entry pg' t \<noteq> 0" for t using dir [of t] tab [OF that(1)] that(2) d(2) by auto
  qed
  have "p \<noteq> frame_of (pte pg u)" if "u \<in> V" for u using dp that d(2) by (auto simp: data_pages_def data_frame_def)
  moreover have "inj_on (\<lambda>u. frame_of (pte pg' u)) V" using dp pu by (simp add: data_pages_def inj_on_def)
  ultimately have "inj_on (\<lambda>u. frame_of (pte pg' u)) (insert v V)" using fp(1) pu v(2) by (simp add: inj_on_insert image_iff)
  then show ?thesis using dp fp pu old new v(1) by (auto simp: data_pages_def)
qed

lemma mapped_ready: "mapped pg pg' v p \<Longrightarrow> ready pg u \<Longrightarrow> mappable v \<Longrightarrow> u \<noteq> v \<Longrightarrow> ready pg' u"
  using mappable_same_page [of u v] unfolding mapped_def ready_def mappable_def by (metis (no_types, lifting))

text \<open>A range of pages, from an aligned address on.\<close>

definition pages :: "u32 \<Rightarrow> nat \<Rightarrow> u32 set" where
  "pages v n = (\<lambda>k. v + of_nat (4096 * k)) ` {..<n}"

lemma pages_Suc: "pages v (Suc n) = insert v (pages (v + PAGE_SIZE) n)"
  by (auto simp: pages_def PAGE_SIZE_def image_iff lessThan_Suc_eq_insert_0 algebra_simps)

lemma pages_first: "unat v + 4096 * Suc n \<le> 2 ^ 32 \<Longrightarrow> v \<notin> pages (v + PAGE_SIZE) n"
proof
  assume l: "unat v + 4096 * Suc n \<le> 2 ^ 32" and "v \<in> pages (v + PAGE_SIZE) n"
  then obtain k where k: "k < n" "v = v + PAGE_SIZE + of_nat (4096 * k)" by (auto simp: pages_def)
  have "v = v + (of_nat (4096 * Suc k) :: u32)" by (subst k(2)) (simp add: PAGE_SIZE_def algebra_simps)
  then have "(of_nat (4096 * Suc k) :: u32) = 0" by (metis add_cancel_left_right)
  then have "unat (of_nat (4096 * Suc k) :: u32) = 0" by (simp only: unat_0)
  moreover have "4096 * Suc k < 2 ^ 32" using k(1) l by simp
  ultimately have "4096 * Suc k = 0" by (metis unat_of_nat_u32)
  then show False by simp
qed

lemma page_in_pages:
  assumes "unat v mod 4096 = 0" and "unat v \<le> unat va" and "unat va < unat v + 4096 * n"
  shows "page_of va \<in> pages v n"
proof -
  let ?k = "(unat va - unat v) div 4096"
  obtain q where q: "unat v = 4096 * q" using assms(1) by auto
  have k: "?k < n" using assms(2,3) by (simp add: less_mult_imp_div_less mult.commute)
  have "unat va div 4096 = q + ?k" using assms(2) unfolding q by (metis div_mult_self4 le_add_diff_inverse zero_neq_numeral)
  then have "unat (page_of va) = unat v + 4096 * ?k" using q by (simp add: unat_page_of)
  moreover from this have "unat v + 4096 * ?k < 2 ^ 32" using u32_bound [of "page_of va"] by simp
  then have "unat (v + of_nat (4096 * ?k)) = unat v + 4096 * ?k" by (simp only: unat_word_ariths unat_of_nat mod_add_right_eq) simp
  ultimately have "page_of va = v + of_nat (4096 * ?k)" by (intro iffD2 [OF word_unat_eq_iff]) (simp only:)
  then show ?thesis using k by (auto simp: pages_def)
qed

lemma map_pages_spec:
  assumes "pg_inv (el_pg s)" and "data_pages (el_pg s) V" and "\<forall>u \<in> pages v n. ready (el_pg s) u" and "pages v n \<inter> V = {}"
    and "unat v + 4096 * n = unat end'" and "2 * n \<le> card (free_pages (pp_bitmap (pg_pp (el_pg s))))"
  shows "\<exists>pg' refs. map_pages s v end' = Some (Inr (s\<lparr>el_pg := pg', el_refs := refs\<rparr>)) \<and> pg_inv pg' \<and> data_pages pg' (pages v n \<union> V) \<and>
    pg_cr3 pg' = pg_cr3 (el_pg s) \<and>
    (\<forall>va. TABLE_IN_DIRECTORY_INDEX va < 1023 \<longrightarrow> page_of va \<notin> pages v n \<longrightarrow> pte pg' va = pte (el_pg s) va)"
  using assms
proof (induction n arbitrary: s v V)
  case 0
  then have "map_pages s v end' = Some (Inr s)" by (subst map_pages.simps) (simp add: word_less_nat_alt)
  then show ?case using "0.prems"(1,2) by (intro exI [of _ "el_pg s"] exI [of _ "el_refs s"]) (simp add: pages_def)
next
  case (Suc n)
  let ?v = "v + PAGE_SIZE"
  have b: "unat v + 4096 * Suc n < 2 ^ 32" using Suc.prems(5) u32_bound [of end'] by simp
  have v: "unat ?v = unat v + 4096" using b by (simp add: PAGE_SIZE_def unat_word_ariths)
  have rv: "ready (el_pg s) v" and fresh: "v \<notin> V" using Suc.prems(3,4) by (simp_all add: pages_Suc)
  have mv: "mappable v" using rv by (simp add: ready_def)
  obtain pg1 p where m: "map_page s v = Inr (s\<lparr>el_pg := pg1, el_refs := PPreferenceTracker_increment (el_refs s) p\<rparr>)" "mapped (el_pg s) pg1 v p"
    using map_page_mapped [OF Suc.prems(1) rv] Suc.prems(6) by auto
  let ?s1 = "s\<lparr>el_pg := pg1, el_refs := PPreferenceTracker_increment (el_refs s) p\<rparr>"
  have notin: "v \<notin> pages ?v n" by (rule pages_first) (use b in simp)
  have "\<forall>u \<in> pages ?v n. ready (el_pg ?s1) u" using Suc.prems(3) notin mapped_ready [OF m(2) _ mv] by (auto simp: pages_Suc)
  moreover have "data_pages (el_pg ?s1) (insert v V)" using mapped_data [OF Suc.prems(1,2) m(2) mv fresh] by simp
  moreover have "pages ?v n \<inter> insert v V = {}" using Suc.prems(4) notin by (auto simp: pages_Suc)
  moreover have "unat ?v + 4096 * n = unat end'" using v Suc.prems(5) by simp
  moreover have "2 * n \<le> card (free_pages (pp_bitmap (pg_pp (el_pg ?s1))))" "pg_inv (el_pg ?s1)" using m(2) Suc.prems(6) by (auto simp: mapped_def)
  ultimately obtain pg' refs where r: "map_pages ?s1 ?v end' = Some (Inr (?s1\<lparr>el_pg := pg', el_refs := refs\<rparr>))" "pg_inv pg'"
      "data_pages pg' (pages ?v n \<union> insert v V)" "pg_cr3 pg' = pg_cr3 pg1"
      "\<forall>va. TABLE_IN_DIRECTORY_INDEX va < 1023 \<longrightarrow> page_of va \<notin> pages ?v n \<longrightarrow> pte pg' va = pte pg1 va"
    using Suc.IH [of ?s1 "insert v V" ?v] by auto
  have "v < end'" using Suc.prems(5) by (simp add: word_less_nat_alt)
  then have "map_pages s v end' = Some (Inr (s\<lparr>el_pg := pg', el_refs := refs\<rparr>))" using m(1) r(1) by (subst map_pages.simps) simp
  moreover have "pte pg' va = pte (el_pg s) va" if "TABLE_IN_DIRECTORY_INDEX va < 1023" "page_of va \<notin> pages v (Suc n)" for va
  proof -
    have "mappable (page_of va)" using that(1) frame_of_aligned [of va] by (simp add: mappable_def page_of_def [symmetric])
    then have "\<not> same_page va v" using that(2) mappable_same_page [OF _ mv, of "page_of va"] by (auto simp: same_page_def pages_Suc)
    then show ?thesis using that r(5) m(2) by (simp add: mapped_def pages_Suc)
  qed
  moreover have "pages ?v n \<union> insert v V = pages v (Suc n) \<union> V" by (auto simp: pages_Suc)
  ultimately show ?case using r(2-4) m(2) by (intro exI [of _ pg'] exI [of _ refs]) (auto simp: mapped_def)
qed

section \<open>The range of an image\<close>

lemma image_range_fold:
  "program_headers img header is phs \<Longrightarrow> image_range img header is a b =
    Inr (foldl min a (map p_vaddr (loaded phs)), foldl max b (map (\<lambda>ph. p_vaddr ph + p_memsz ph) (loaded phs)))"
proof (induction "is" arbitrary: phs a b)
  case (Cons i "is")
  then obtain ph phs' where ph: "phs = ph # phs'" "program_header img header i = Inr ph" "program_headers img header is phs'"
    by (auto simp: list_all2_Cons1)
  have "min a (p_vaddr ph) = (if p_vaddr ph < a then p_vaddr ph else a)" "max b (p_vaddr ph + p_memsz ph) = (if p_vaddr ph + p_memsz ph > b then p_vaddr ph + p_memsz ph else b)"
    by (auto simp: min_def max_def)
  then show ?case using Cons.IH [OF ph(3)] ph(1,2) by simp
qed simp

lemma unat_min: "unat (min a (b :: u32)) = min (unat a) (unat b)"
  by (simp add: min_def word_le_nat_alt)

lemma unat_max: "unat (max a (b :: u32)) = max (unat a) (unat b)"
  by (simp add: max_def word_le_nat_alt)

lemma unat_foldl_min: "unat (foldl min a (xs :: u32 list)) = Min (insert (unat a) (unat ` set xs))"
proof (induction xs rule: rev_induct)
  case (snoc x xs)
  have "insert (unat a) (unat ` set (xs @ [x])) = insert (unat x) (insert (unat a) (unat ` set xs))" by auto
  then show ?case using snoc by (simp add: unat_min min.commute)
qed simp

lemma unat_foldl_max: "unat (foldl max a (xs :: u32 list)) = Max (insert (unat a) (unat ` set xs))"
proof (induction xs rule: rev_induct)
  case (snoc x xs)
  have "insert (unat a) (unat ` set (xs @ [x])) = insert (unat x) (insert (unat a) (unat ` set xs))" by auto
  then show ?case using snoc by (simp add: unat_max max.commute)
qed simp

lemma align_down: "unat (PAGE_ALIGN_DOWN x) = 4096 * (unat x div 4096)"
  using unat_page_of [of x] by (simp add: PAGE_ALIGN_DOWN_def page_of_def frame_of_def PAGE_ALIGN_MASK_def)

lemma align_up: "unat x \<le> 0xFFC00000 \<Longrightarrow> unat (PAGE_ALIGN_UP x) = 4096 * ((unat x + 4095) div 4096)"
proof -
  assume x: "unat x \<le> 0xFFC00000"
  have m: "x AND (PAGE_SIZE - 1) = 0 \<longleftrightarrow> unat x mod 4096 = 0"
    using and_page_mask [of x] by (simp add: PAGE_ALIGN_MASK_def word_unat_eq_iff unat_mod)
  show ?thesis
  proof (cases "unat x mod 4096 = 0")
    case True
    then have "unat x = 4096 * (unat x div 4096)" by (metis add.right_neutral mult_div_mod_eq)
    moreover have "(4096 * q + 4095) div 4096 = q" for q :: nat by simp
    ultimately have "(unat x + 4095) div 4096 = unat x div 4096" by metis
    then show ?thesis using True m by (simp add: PAGE_ALIGN_UP_def)
  next
    case False
    then have "unat x + 4095 = 4096 * (unat x div 4096 + 1) + (unat x mod 4096 - 1)" using mult_div_mod_eq [of 4096 "unat x"] by (cases "unat x mod 4096") simp_all
    moreover have "(4096 * q + c) div 4096 = q" if "c < 4096" for q c :: nat using that by simp
    moreover have "unat x mod 4096 - 1 < 4096" using mod_less_divisor [of 4096 "unat x"] by linarith
    ultimately have "(unat x + 4095) div 4096 = unat x div 4096 + 1" by metis
    moreover have "unat (PAGE_ALIGN_DOWN x + PAGE_SIZE) = 4096 * (unat x div 4096) + 4096"
      using x align_down [of x] by (subst unat_add_lem32) (simp_all add: PAGE_SIZE_def)
    ultimately show ?thesis using False m by (simp add: PAGE_ALIGN_UP_def)
  qed
qed

text \<open>The first page of an image and the one after its last.\<close>

definition first_page :: "Elf32Phdr list \<Rightarrow> nat" where
  "first_page phs = Min ((\<lambda>ph. unat (p_vaddr ph)) ` set (loaded phs)) div 4096"

definition end_page :: "Elf32Phdr list \<Rightarrow> nat" where
  "end_page phs = (Max ((\<lambda>ph. unat (p_vaddr ph) + unat (p_memsz ph)) ` set (loaded phs)) + 4095) div 4096"

definition loadable :: "u8 list \<Rightarrow> Elf32Phdr \<Rightarrow> bool" where
  "loadable img ph \<longleftrightarrow> p_filesz ph \<le> p_memsz ph \<and> unat (p_offset ph) + unat (p_filesz ph) \<le> length img \<and>
     unat (p_vaddr ph) + unat (p_memsz ph) \<le> 0xFFC00000"

lemma image_pages:
  assumes hs: "program_headers img header is phs" and ne: "loaded phs \<noteq> []" and ok: "\<forall>ph \<in> set (loaded phs). loadable img ph"
  obtains a b where "image_range img header is 0xFFFFFFFF 0 = Inr (a, b)" "unat (PAGE_ALIGN_DOWN a) = 4096 * first_page phs"
    "unat (PAGE_ALIGN_UP b) = 4096 * end_page phs" "first_page phs \<le> end_page phs"
    "\<forall>ph \<in> set (loaded phs). \<forall>i < unat (p_memsz ph). 4096 * first_page phs \<le> unat (p_vaddr ph) + i \<and> unat (p_vaddr ph) + i < 4096 * end_page phs"
proof -
  let ?S = "set (loaded phs)" and ?E = "\<lambda>ph. unat (p_vaddr ph) + unat (p_memsz ph)"
  let ?lo = "Min ((\<lambda>ph. unat (p_vaddr ph)) ` ?S)" and ?hi = "Max (?E ` ?S)"
  have S: "finite ?S" "?S \<noteq> {}" using ne by (simp, simp only: set_empty simp_thms)
  have e: "unat (p_vaddr ph + p_memsz ph) = ?E ph" if "ph \<in> ?S" for ph
    using ok that by (intro unat_add_lem32) (auto simp: loadable_def)
  have "unat (foldl min 0xFFFFFFFF (map p_vaddr (loaded phs))) = min (unat (0xFFFFFFFF :: u32)) ?lo"
    using S by (simp add: unat_foldl_min image_image)
  moreover have "?lo \<le> unat (0xFFFFFFFF :: u32)"
  proof -
    obtain ph where "ph \<in> ?S" using S by auto
    then have "?lo \<le> unat (p_vaddr ph)" using S by simp
    then show ?thesis using u32_bound [of "p_vaddr ph"] by simp
  qed
  ultimately have a: "unat (foldl min 0xFFFFFFFF (map p_vaddr (loaded phs))) = ?lo" by simp
  have "(\<lambda>ph. unat (p_vaddr ph + p_memsz ph)) ` ?S = ?E ` ?S" using e by (intro image_cong) auto
  then have b: "unat (foldl max 0 (map (\<lambda>ph. p_vaddr ph + p_memsz ph) (loaded phs))) = ?hi"
    using S by (simp add: unat_foldl_max image_image)
  have hi: "?hi \<le> 0xFFC00000" using S ok by (auto simp: loadable_def)
  have in_range: "?lo \<le> unat (p_vaddr ph)" "?E ph \<le> ?hi" if "ph \<in> ?S" for ph using S that by simp_all
  show ?thesis
  proof (rule that [OF image_range_fold [OF hs]])
    show "unat (PAGE_ALIGN_DOWN (foldl min 0xFFFFFFFF (map p_vaddr (loaded phs)))) = 4096 * first_page phs" by (simp add: align_down a first_page_def)
    show "unat (PAGE_ALIGN_UP (foldl max 0 (map (\<lambda>ph. p_vaddr ph + p_memsz ph) (loaded phs)))) = 4096 * end_page phs"
      using hi by (simp add: align_up b end_page_def)
    show "first_page phs \<le> end_page phs"
    proof -
      obtain ph where "ph \<in> ?S" using S by auto
      then have "?lo \<le> ?hi" using in_range [of ph] by linarith
      then show ?thesis unfolding first_page_def end_page_def by (intro div_le_mono) simp
    qed
    have "4096 * first_page phs \<le> unat (p_vaddr ph) + i \<and> unat (p_vaddr ph) + i < 4096 * end_page phs" if "ph \<in> ?S" "i < unat (p_memsz ph)" for ph i
    proof
      have "4096 * (?lo div 4096) \<le> ?lo" by simp
      then show "4096 * first_page phs \<le> unat (p_vaddr ph) + i" unfolding first_page_def using in_range(1) [OF that(1)] by linarith
      have "?hi \<le> 4096 * ((?hi + 4095) div 4096)" using mult_div_mod_eq [of 4096 "?hi + 4095"] mod_less_divisor [of 4096 "?hi + 4095"] by linarith
      then show "unat (p_vaddr ph) + i < 4096 * end_page phs" unfolding end_page_def using in_range(2) [OF that(1)] that(2) by linarith
    qed
    then show "\<forall>ph \<in> ?S. \<forall>i < unat (p_memsz ph). 4096 * first_page phs \<le> unat (p_vaddr ph) + i \<and> unat (p_vaddr ph) + i < 4096 * end_page phs" by blast
  qed
qed

lemma read_byte_peek: "pg_inv pg \<Longrightarrow> data_pages pg V \<Longrightarrow> page_of va \<in> V \<Longrightarrow> read_byte pg va = Inr (peek pg va)"
  by (simp add: read_byte_def read_word_def data_walk peek_def)

lemma unat_offset: "unat (v :: u32) + i < 2 ^ 32 \<Longrightarrow> unat (v + of_nat i) = unat v + i"
  by (subst unat_add_lem32) (simp_all add: unat_of_nat_u32)

lemma pages_ready:
  assumes "u \<in> pages v n" and "unat v = 4096 * lo" and "unat v + 4096 * n \<le> 2 ^ 32"
  shows "4096 * lo \<le> unat u" "unat u < 4096 * (lo + n)" "unat u mod 4096 = 0"
proof -
  obtain k where k: "k < n" "u = v + of_nat (4096 * k)" using assms(1) by (auto simp: pages_def)
  have "unat u = 4096 * (lo + k)" unfolding k(2) using k(1) assms(2,3) by (subst unat_offset) auto
  then show "4096 * lo \<le> unat u" "unat u < 4096 * (lo + n)" "unat u mod 4096 = 0" using k(1) by simp_all
qed

text \<open>
  A segment that no other segment of the image overlaps at this byte holds the bytes of the file
  there, and zeros behind them.
\<close>

definition segment_loaded :: "u8 list \<Rightarrow> Elf32Phdr list \<Rightarrow> paging \<Rightarrow> Elf32Phdr \<Rightarrow> bool" where
  "segment_loaded img phs pg ph \<longleftrightarrow> (\<forall>i < unat (p_memsz ph). (\<forall>q \<in> set (loaded phs). covers (p_vaddr q) q (p_vaddr ph + of_nat i) \<longrightarrow> q = ph) \<longrightarrow>
     read_byte pg (p_vaddr ph + of_nat i) = Inr (if i < unat (p_filesz ph) then img ! (unat (p_offset ph) + i) else 0))"

lemma overlay_loaded:
  assumes w: "written pg pg' V (overlay img (loaded phs) (peek pg))" and ph: "ph \<in> set (loaded phs)"
    and V: "\<forall>i < unat (p_memsz ph). page_of (p_vaddr ph + of_nat i) \<in> V"
  shows "segment_loaded img phs pg' ph"
  unfolding segment_loaded_def
proof (intro allI impI)
  fix i assume i: "i < unat (p_memsz ph)" and only: "\<forall>q \<in> set (loaded phs). covers (p_vaddr q) q (p_vaddr ph + of_nat i) \<longrightarrow> q = ph"
  let ?va = "p_vaddr ph + of_nat i"
  have o: "unat (of_nat i :: u32) = i" by (rule unat_of_nat_u32) (use i u32_bound [of "p_memsz ph"] in linarith)
  have page: "page_of ?va \<in> V" using V i by blast
  have "overlay img (loaded phs) (peek pg) ?va = segment_byte img (p_vaddr ph) ph ?va"
    by (rule overlay_at [OF ph _ only]) (simp add: covers_def o i)
  then have "peek pg' ?va = (if i < unat (p_filesz ph) then img ! (unat (p_offset ph) + i) else 0)"
    using w page o by (simp add: written_def segment_byte_def)
  then show "read_byte pg' ?va = Inr (if i < unat (p_filesz ph) then img ! (unat (p_offset ph) + i) else 0)"
    using w page read_byte_peek [of pg' V ?va] by (simp add: written_def)
qed

text \<open>An executable with one segment of four bytes, two of them in the file, and a space with three free pages, for the examples.\<close>

definition example_elf :: "u8 list" where
  "example_elf = [0x7F, 0x45, 0x4C, 0x46, 1, 1, 1, 0, 0, 0, 0, 0, 0, 0, 0, 0, 2, 0, 3, 0, 1, 0, 0, 0, 0, 0x10, 0, 8, 52, 0, 0, 0, 0, 0, 0, 0, 0, 0, 0, 0,
     52, 0, 32, 0, 1, 0, 0, 0, 0, 0, 0, 0,
     1, 0, 0, 0, 84, 0, 0, 0, 0, 0x10, 0, 8, 0, 0, 0, 0, 2, 0, 0, 0, 4, 0, 0, 0, 7, 0, 0, 0, 0, 0x10, 0, 0, 0xAB, 0xCD]"

definition example_ehdr :: Elf32Ehdr where
  "example_ehdr = \<lparr>e_ident = [0x7F, 0x45, 0x4C, 0x46, 1, 1, 1, 0, 0, 0, 0, 0, 0, 0, 0, 0], e_type = 2, e_machine = 3, e_version = 1, e_entry = 0x8001000,
     e_phoff = 52, e_shoff = 0, e_flags = 0, e_ehsize = 52, e_phentsize = 32, e_phnum = 1, e_shentsize = 0, e_shnum = 0, e_shstrndx = 0\<rparr>"

definition example_phdr :: Elf32Phdr where
  "example_phdr = \<lparr>p_type = 1, p_offset = 84, p_vaddr = 0x8001000, p_paddr = 0, p_filesz = 2, p_memsz = 4, p_flags = 7, p_align = 0x1000\<rparr>"

definition three_pages :: ppallocator where
  "three_pages = \<lparr>pp_freePageCount = 3, pp_initialAmount = 3,
     pp_bitmap = BitMapPageAllocator_markFree (BitMapPageAllocator_markFree (BitMapPageAllocator_markFree (replicate 131072 0) 0x1000) 0x3000) 0x4000\<rparr>"

definition example_space :: elf_state where
  "example_space = \<lparr>el_pg = empty_space\<lparr>pg_pp := three_pages\<rparr>, el_refs = (\<lambda>_. None), el_virtualRanges = [], el_imageStart = 0, el_imageEnd = 0\<rparr>"

lemma example_header:
  "elf_header example_elf = Inr example_ehdr" "Elf32Loader_validate example_ehdr = ElfSUCCESSFUL"
  "program_headers example_elf example_ehdr (header_indices example_ehdr) [example_phdr]"
  by (simp_all add: elf_header_def program_header_def image_u16_def image_u32_def image_bytes_def u16_of_bytes_def u32_of_bytes_def
      example_elf_def example_ehdr_def example_phdr_def Elf32Loader_validate_def header_indices_def)

lemma length_markFree: "length (BitMapPageAllocator_markFree bitmap a) = length bitmap"
  by (simp add: BitMapPageAllocator_markFree_def)

lemma three_pages_free: "free_pages (pp_bitmap three_pages) = {1, 3, 4}" "pp_inv three_pages"
proof -
  show f: "free_pages (pp_bitmap three_pages) = {1, 3, 4}"
    by (auto simp: three_pages_def free_pages_markFree length_markFree free_pages_replicate)
  show "pp_inv three_pages" unfolding pp_inv_def f by (simp add: three_pages_def length_markFree)
qed

lemma example_space_ok:
  "pg_inv (el_pg example_space)" "TABLE_IN_DIRECTORY_INDEX va < 1023 \<Longrightarrow> pte (el_pg example_space) va = 0"
  "t < 1023 \<Longrightarrow> dir_entry (el_pg example_space) t = 0" "card (free_pages (pp_bitmap (pg_pp (el_pg example_space)))) = 3"
proof -
  have d: "dir_entry (el_pg example_space) t = (if t = 1023 then 0x2003 else 0)" for t
    by (simp add: example_space_def empty_space_def dir_entry_def)
  show e: "dir_entry (el_pg example_space) t = 0" if "t < 1023" for t using that by (auto simp: d)
  then show "pte (el_pg example_space) va = 0" if "TABLE_IN_DIRECTORY_INDEX va < 1023" using that by (simp add: pte_def)
  show "pg_inv (el_pg example_space)" using three_pages_free
    by (simp add: pg_inv_def recursive_dir_def d present_def PAGE_TABLE_PRESENT_def frame_of_def PAGE_ALIGN_MASK_def PAGE_SIZE_def page_no_def)
      (simp add: example_space_def empty_space_def)
  show "card (free_pages (pp_bitmap (pg_pp (el_pg example_space)))) = 3" by (simp add: example_space_def three_pages_free(1))
qed

section \<open>Properties\<close>

text \<open>
  C12. Loading the segments of an executable: when the segments lie in the file and below the area of
  the page tables, no page of the image is mapped yet and none lies in a table of the kernel, and
  there are two free pages for every page of the image, the loader returns. The image is the range of
  whole pages around the segments; every byte of a segment that no other one overlaps is, read
  through the page tables, the byte of the file, or zero behind the part that is in the file; the
  page tables are well formed, and no page outside the image has been remapped.
\<close>

theorem elf_load_segments:
  assumes "pg_inv (el_pg s)" and "program_headers img header (header_indices header) phs" and "loaded phs \<noteq> []"
    and "\<forall>ph \<in> set (loaded phs). loadable img ph" and "length img < 2 ^ 32"
    and "\<forall>v. 4096 * first_page phs \<le> unat v \<longrightarrow> unat v < 4096 * end_page phs \<longrightarrow> unat v mod 4096 = 0 \<longrightarrow> ready (el_pg s) v"
    and "2 * (end_page phs - first_page phs) \<le> card (free_pages (pp_bitmap (pg_pp (el_pg s))))"
  shows "\<exists>s'. Elf32Loader_loadLoadSegment img header s = Some (Inr s') \<and>
    unat (el_imageStart s') = 4096 * first_page phs \<and> unat (el_imageEnd s') = 4096 * end_page phs \<and> pg_inv (el_pg s') \<and>
    (\<forall>ph \<in> set (loaded phs). segment_loaded img phs (el_pg s') ph) \<and>
    (\<forall>va. TABLE_IN_DIRECTORY_INDEX va < 1023 \<longrightarrow> unat va < 4096 * first_page phs \<or> 4096 * end_page phs \<le> unat va \<longrightarrow> pte (el_pg s') va = pte (el_pg s) va)"
proof -
  obtain a b where r: "image_range img header (header_indices header) 0xFFFFFFFF 0 = Inr (a, b)" "unat (PAGE_ALIGN_DOWN a) = 4096 * first_page phs"
      "unat (PAGE_ALIGN_UP b) = 4096 * end_page phs" "first_page phs \<le> end_page phs"
      "\<forall>ph \<in> set (loaded phs). \<forall>i < unat (p_memsz ph). 4096 * first_page phs \<le> unat (p_vaddr ph) + i \<and> unat (p_vaddr ph) + i < 4096 * end_page phs"
    by (rule image_pages [OF assms(2-4)])
  let ?v = "PAGE_ALIGN_DOWN a" and ?e = "PAGE_ALIGN_UP b" and ?n = "end_page phs - first_page phs"
  let ?V = "pages ?v ?n"
  have n: "unat ?v + 4096 * ?n = unat ?e" using r(2-4) by (simp add: diff_mult_distrib2)
  have lim: "unat ?v + 4096 * ?n \<le> 2 ^ 32" using n u32_bound [of ?e] by simp
  have "ready (el_pg s) u" if "u \<in> ?V" for u
    using assms(6) pages_ready [OF that r(2) lim] r(4) by simp
  then obtain pg refs where m: "map_pages s ?v ?e = Some (Inr (s\<lparr>el_pg := pg, el_refs := refs\<rparr>))" "pg_inv pg" "data_pages pg ?V"
      "\<forall>va. TABLE_IN_DIRECTORY_INDEX va < 1023 \<longrightarrow> page_of va \<notin> ?V \<longrightarrow> pte pg va = pte (el_pg s) va"
    using map_pages_spec [OF assms(1), of "{}" ?v ?n ?e] n assms(7) by (auto simp: data_pages_def)
  have V: "page_of (p_vaddr ph + of_nat i) \<in> ?V" if "ph \<in> set (loaded phs)" "i < unat (p_memsz ph)" for ph i
    using page_in_pages [of ?v "p_vaddr ph + of_nat i" ?n] r(5) [rule_format, OF that] n r(2,3) u32_bound [of ?e] by (simp add: unat_offset)
  then have "\<forall>ph \<in> set (loaded phs). segment_ok img ?V (p_vaddr ph) ph" using assms(4) by (simp add: segment_ok_def loadable_def)
  then obtain pg' where w: "write_segments img header (header_indices header) pg = Inr pg'" "written pg pg' ?V (overlay img (loaded phs) (peek pg))"
    using write_segments_spec [OF assms(2) m(2,3) _ assms(5)] by blast
  let ?s = "s\<lparr>el_pg := pg', el_refs := refs, el_imageStart := ?v, el_imageEnd := ?e\<rparr>"
  have "Elf32Loader_loadLoadSegment img header s = Some (Inr ?s)" using r(1) m(1) w(1) by (simp add: Elf32Loader_loadLoadSegment_def)
  moreover have "segment_loaded img phs pg' ph" if "ph \<in> set (loaded phs)" for ph using overlay_loaded [OF w(2) that] V [OF that] by blast
  moreover have "pte pg' va = pte (el_pg s) va"
    if "TABLE_IN_DIRECTORY_INDEX va < 1023" "unat va < 4096 * first_page phs \<or> 4096 * end_page phs \<le> unat va" for va
  proof -
    have "page_of va \<notin> ?V" using pages_ready [OF _ r(2) lim, of "page_of va"] that(2) r(4) unat_page_of [of va] by auto
    then show ?thesis using m(4) w(2) that(1) by (simp add: written_def)
  qed
  ultimately show ?thesis using r(2,3) w(2) by (intro exI [of _ ?s]) (simp add: written_def)
qed

theorem elf_load_segments_witness:
  "\<exists>s'. Elf32Loader_loadLoadSegment example_elf example_ehdr example_space = Some (Inr s') \<and> unat (el_imageStart s') = 0x8001000 \<and>
    read_byte (el_pg s') 0x8001001 = Inr 0xCD \<and> read_byte (el_pg s') 0x8001003 = Inr 0"
proof -
  have t: "p_type example_phdr = PT_LOAD" "length example_elf = 86" by (simp_all add: example_phdr_def PT_LOAD_def example_elf_def)
  then have l: "loaded [example_phdr] = [example_phdr]" by simp
  have p: "first_page [example_phdr] = 32769" "end_page [example_phdr] = 32770" "loadable example_elf example_phdr"
    unfolding first_page_def end_page_def l loadable_def by (simp_all add: example_phdr_def example_elf_def)
  have rd: "ready (el_pg example_space) v" if "4096 * 32769 \<le> unat v" "unat v < 4096 * 32770" "unat v mod 4096 = 0" for v
  proof -
    have "unat (TABLE_IN_DIRECTORY_INDEX v) = unat v div 4096 div 1024" by (simp add: TABLE_IN_DIRECTORY_INDEX_def PAGE_SIZE_def unat_div)
    also have "\<dots> < 1023" using that(2) by (simp add: less_mult_imp_div_less)
    finally have t: "TABLE_IN_DIRECTORY_INDEX v < 1023" by (simp add: word_less_nat_alt)
    then show ?thesis using that(3) example_space_ok(2,3) by (simp add: ready_def mappable_def and_page_mask word_unat_eq_iff unat_mod)
  qed
  obtain s' where s': "Elf32Loader_loadLoadSegment example_elf example_ehdr example_space = Some (Inr s')" "unat (el_imageStart s') = 4096 * 32769"
      "segment_loaded example_elf [example_phdr] (el_pg s') example_phdr"
    using elf_load_segments [OF example_space_ok(1) example_header(3)] p rd example_space_ok(4) by (auto simp: t)
  have "read_byte (el_pg s') (p_vaddr example_phdr + of_nat i) = Inr (if i < 2 then example_elf ! (84 + i) else 0)" if "i < 4" for i
    using s'(3) that by (simp add: segment_loaded_def t) (simp add: example_phdr_def)
  from this [of 1] this [of 3] show ?thesis using s'(1,2) by (simp add: example_phdr_def example_elf_def)
qed

end
