(* ===== verification/HashMap.thy ===== *)
theory HashMap
  imports Prelude
begin

text \<open>
  The kernel's hash map (Kernel/Shared/utils/HashMap.hpp, Kernel/Shared/utils/hashable.hpp): an
  array of 64 chains of nodes. A chain is the list of the key/value pairs of its linked nodes, in
  link order. The interface its clients rely on (process tables, pipes, message queues, file
  system nodes) is the locale \<open>kv_map\<close>; the last section discharges it for the hash map.
\<close>

section \<open>The interface\<close>

locale kv_map =
  fixes empty :: "'m"
    and get :: "'m \<Rightarrow> 'k \<Rightarrow> 'v option"
    and add :: "'m \<Rightarrow> 'k \<Rightarrow> 'v \<Rightarrow> 'm"
    and erase :: "'m \<Rightarrow> 'k \<Rightarrow> 'm"
    and invar :: "'m \<Rightarrow> bool"
  assumes get_empty: "get empty k = None"
    and get_add: "invar m \<Longrightarrow> get (add m k v) = (get m)(k \<mapsto> v)"
    and get_erase: "invar m \<Longrightarrow> get (erase m k) = (get m)(k := None)"
    and invar_empty: "invar empty"
    and invar_add: "invar m \<Longrightarrow> invar (add m k v)"
    and invar_erase: "invar m \<Longrightarrow> invar (erase m k)"
begin

lemmas kv_laws = get_empty get_add get_erase invar_empty invar_add invar_erase

lemma erase_add: "invar m \<Longrightarrow> get (erase (add m k v) k) = (get m)(k := None)"
  by (simp add: get_add get_erase invar_add)

lemma add_add: "invar m \<Longrightarrow> get (add (add m k v) k w) = (get m)(k \<mapsto> w)"
  by (simp add: get_add invar_add)

lemma invar_fold_add: "invar m \<Longrightarrow> invar (fold (\<lambda>(k, v) m. add m k v) kvs m)"
  by (induction kvs arbitrary: m) (auto simp: invar_add)

lemma get_fold_add:
  "invar m \<Longrightarrow> get (fold (\<lambda>(k, v) m. add m k v) kvs m) = get m ++ map_of (rev kvs)"
  by (induction kvs arbitrary: m) (auto simp: invar_add get_add map_add_upd_left)

end

section \<open>Data\<close>

record ('k, 'v) hashmap =
  hm_size :: u32
  hm_bucketCount :: u32
  hm_buckets :: "('k \<times> 'v) list list"

text \<open>
  An integral key is converted to \<open>uint64_t\<close> and truncated to \<open>uint32_t\<close>. Sign and zero
  extension agree on the low 32 bits, so one definition serves signed and unsigned keys.
\<close>

definition hashcode :: "'k :: len word \<Rightarrow> u32" where
  "hashcode key = (ucast (ucast key :: u64) :: u32)"

definition HashMap_new :: "('k, 'v) hashmap" where
  "HashMap_new = \<lparr>hm_size = 0, hm_bucketCount = 64, hm_buckets = replicate 64 []\<rparr>"

definition bucketIndex :: "('k :: len word, 'v) hashmap \<Rightarrow> 'k word \<Rightarrow> nat" where
  "bucketIndex m key = unat (hashcode key mod hm_bucketCount m)"

section \<open>Operations\<close>

fun chain_get :: "('k \<times> 'v) list \<Rightarrow> 'k \<Rightarrow> 'v option" where
  "chain_get [] key = None"
| "chain_get ((k, v) # entries) key = (if k = key then Some v else chain_get entries key)"

definition HashMap_get :: "('k :: len word, 'v) hashmap \<Rightarrow> 'k word \<Rightarrow> 'v option" where
  "HashMap_get m key = chain_get (hm_buckets m ! bucketIndex m key) key"

fun chain_add :: "('k \<times> 'v) list \<Rightarrow> 'k \<Rightarrow> 'v \<Rightarrow> ('k \<times> 'v) list" where
  "chain_add [] key value = [(key, value)]"
| "chain_add ((k, v) # entries) key value =
     (if k = key then (k, value) # entries else (k, v) # chain_add entries key value)"

text \<open>All three branches of \<open>add\<close> increment the size, the overwriting one included.\<close>

definition HashMap_add ::
    "('k :: len word, 'v) hashmap \<Rightarrow> 'k word \<Rightarrow> 'v \<Rightarrow> ('k word, 'v) hashmap" where
  "HashMap_add m key value =
     (let i = bucketIndex m key in
      m\<lparr>hm_buckets := (hm_buckets m)[i := chain_add (hm_buckets m ! i) key value],
        hm_size := hm_size m + 1\<rparr>)"

fun chain_erase :: "('k \<times> 'v) list \<Rightarrow> 'k \<Rightarrow> ('k \<times> 'v) list option" where
  "chain_erase [] key = None"
| "chain_erase ((k, v) # entries) key =
     (if k = key then Some entries
      else map_option (\<lambda>es. (k, v) # es) (chain_erase entries key))"

definition HashMap_erase ::
    "('k :: len word, 'v) hashmap \<Rightarrow> 'k word \<Rightarrow> ('k word, 'v) hashmap" where
  "HashMap_erase m key =
     (let i = bucketIndex m key in
      case chain_erase (hm_buckets m ! i) key of
        None \<Rightarrow> m
      | Some es \<Rightarrow> m\<lparr>hm_buckets := (hm_buckets m)[i := es], hm_size := hm_size m - 1\<rparr>)"

definition HashMap_size :: "('k, 'v) hashmap \<Rightarrow> u32" where
  "HashMap_size m = hm_size m"

text \<open>
  The iterator is a bucket index and the chain from its current node on; the empty chain is the
  null node of \<open>end()\<close>. \<open>bucket_seek\<close> is the scan for the next bucket that has a node.
\<close>

record 'e hashmap_iterator =
  it_bucketIndex :: nat
  it_current :: "'e list"

function bucket_seek :: "'e list list \<Rightarrow> nat \<Rightarrow> nat \<Rightarrow> 'e hashmap_iterator" where
  "bucket_seek bs n i =
     (if i < n then
        (if bs ! i \<noteq> [] then \<lparr>it_bucketIndex = i, it_current = bs ! i\<rparr>
         else bucket_seek bs n (Suc i))
      else \<lparr>it_bucketIndex = i, it_current = []\<rparr>)"
  by pat_completeness auto
termination
  by (relation "measure (\<lambda>(bs, n, i). n - i)") auto

definition HashMapIterator_begin ::
    "('k, 'v) hashmap \<Rightarrow> ('k \<times> 'v) hashmap_iterator" where
  "HashMapIterator_begin m =
     (let it = bucket_seek (hm_buckets m) (unat (hm_bucketCount m)) 0 in
      if it_current it = [] then \<lparr>it_bucketIndex = 0, it_current = []\<rparr> else it)"

definition HashMapIterator_inc ::
    "('k, 'v) hashmap \<Rightarrow> ('k \<times> 'v) hashmap_iterator \<Rightarrow> ('k \<times> 'v) hashmap_iterator kres" where
  "HashMapIterator_inc m it =
     (case it_current it of
        [] \<Rightarrow> Inl NullDeref
      | [_] \<Rightarrow> Inr (bucket_seek (hm_buckets m) (unat (hm_bucketCount m)) (Suc (it_bucketIndex it)))
      | _ # rest \<Rightarrow> Inr (it\<lparr>it_current := rest\<rparr>))"

text \<open>
  The client loop \<open>for (it = begin(); it != end(); ++it)\<close>: the nodes it visits, in order, within a
  number of rounds; \<open>None\<close> when the rounds do not suffice.
\<close>

fun HashMap_visit ::
    "nat \<Rightarrow> ('k, 'v) hashmap \<Rightarrow> ('k \<times> 'v) hashmap_iterator \<Rightarrow> ('k \<times> 'v) list option" where
  "HashMap_visit 0 m it = (if it_current it = [] then Some [] else None)"
| "HashMap_visit (Suc fuel) m it =
     (case it_current it of
        [] \<Rightarrow> Some []
      | e # _ \<Rightarrow> (case HashMapIterator_inc m it of
                   Inl _ \<Rightarrow> None
                 | Inr it' \<Rightarrow> map_option (\<lambda>es. e # es) (HashMap_visit fuel m it')))"

section \<open>Invariant\<close>

text \<open>
  There are 64 buckets, every node sits in the bucket of its key and no chain holds a key twice.
\<close>

definition hm_inv :: "('k :: len word, 'v) hashmap \<Rightarrow> bool" where
  "hm_inv m \<longleftrightarrow>
     hm_bucketCount m = 64 \<and> length (hm_buckets m) = 64 \<and>
     (\<forall>i < 64. distinct (map fst (hm_buckets m ! i)) \<and>
               (\<forall>k \<in> fst ` set (hm_buckets m ! i). unat (hashcode k mod 64) = i))"

definition hm_entries :: "('k, 'v) hashmap \<Rightarrow> ('k \<times> 'v) list" where
  "hm_entries m = concat (hm_buckets m)"

lemma bucketIndex_bound: "hm_inv m \<Longrightarrow> bucketIndex m k < 64"
  using unat_mod_bound [of 64 "hashcode k"] by (simp add: bucketIndex_def hm_inv_def)

lemma chain_get_map_of: "chain_get es k = map_of es k"
  by (induction es k rule: chain_get.induct) auto

lemma map_of_chain_add: "map_of (chain_add es k v) = (map_of es)(k \<mapsto> v)"
  by (induction es k v rule: chain_add.induct) auto

lemma keys_chain_add: "fst ` set (chain_add es k v) = insert k (fst ` set es)"
  by (induction es k v rule: chain_add.induct) auto

lemma distinct_chain_add:
  "distinct (map fst es) \<Longrightarrow> distinct (map fst (chain_add es k v))"
proof (induction es k v rule: chain_add.induct)
  case (2 k v es key val)
  then show ?case using keys_chain_add [of es key val] by (auto simp: image_iff)
qed simp

lemma length_chain_add:
  "length (chain_add es k v) = length es + (if k \<in> fst ` set es then 0 else 1)"
  by (induction es k v rule: chain_add.induct) auto

lemma chain_erase_None: "chain_erase es k = None \<longleftrightarrow> k \<notin> fst ` set es"
  by (induction es k rule: chain_erase.induct) auto

lemma chain_erase_Some:
  "chain_erase es k = Some es' \<Longrightarrow> \<exists>xs v ys. es = xs @ (k, v) # ys \<and> es' = xs @ ys"
proof (induction es k arbitrary: es' rule: chain_erase.induct)
  case (2 k v entries key)
  show ?case
  proof (cases "k = key")
    case True
    with "2.prems" have "(k, v) # entries = [] @ (key, v) # entries \<and> es' = [] @ entries" by simp
    then show ?thesis by blast
  next
    case False
    with "2.prems" obtain es'' where es: "chain_erase entries key = Some es''" "es' = (k, v) # es''"
      by auto
    from "2.IH" [OF False es(1)] obtain xs w ys
      where "entries = xs @ (key, w) # ys" "es'' = xs @ ys" by blast
    with es(2) have "(k, v) # entries = ((k, v) # xs) @ (key, w) # ys \<and> es' = ((k, v) # xs) @ ys"
      by simp
    then show ?thesis by blast
  qed
qed simp

lemma chain_erase_facts:
  assumes "chain_erase es k = Some es'" and "distinct (map fst es)"
  shows "map_of es' = (map_of es)(k := None)" "distinct (map fst es')"
    "fst ` set es' \<subseteq> fst ` set es" "length es = Suc (length es')"
proof -
  obtain xs v ys where es: "es = xs @ (k, v) # ys" "es' = xs @ ys"
    using chain_erase_Some [OF assms(1)] by blast
  show "map_of es' = (map_of es)(k := None)"
    using map_of_distinct_remove [of xs k v ys] assms(2) es by simp
  show "distinct (map fst es')" "fst ` set es' \<subseteq> fst ` set es" "length es = Suc (length es')"
    using assms(2) es by auto
qed

lemma hm_inv_bucket:
  assumes "hm_inv m"
  shows "distinct (map fst (hm_buckets m ! bucketIndex m k))"
  using assms bucketIndex_bound [OF assms, of k] by (simp add: hm_inv_def)

lemma hm_inv_new: "hm_inv HashMap_new"
  by (simp add: hm_inv_def HashMap_new_def)

lemma hm_inv_update:
  assumes "hm_inv m" and "distinct (map fst es)"
    and "fst ` set es \<subseteq> insert k (fst ` set (hm_buckets m ! bucketIndex m k))"
  shows "hm_inv (m\<lparr>hm_buckets := (hm_buckets m)[bucketIndex m k := es], hm_size := n\<rparr>)"
proof -
  let ?i = "bucketIndex m k"
  define ok where "ok j b \<longleftrightarrow> distinct (map fst b) \<and> (\<forall>x \<in> fst ` set b. unat (hashcode x mod 64) = j)"
    for j :: nat and b :: "('a word \<times> 'b) list"
  have inv: "hm_bucketCount m = 64" "length (hm_buckets m) = 64" "\<forall>j < 64. ok j (hm_buckets m ! j)"
    using assms(1) unfolding hm_inv_def ok_def by blast+
  have i: "?i = unat (hashcode k mod 64)" "?i < 64"
    using inv(1) bucketIndex_bound [OF assms(1)] by (simp_all add: bucketIndex_def)
  then have "ok ?i (hm_buckets m ! ?i)" using inv(3) by blast
  then have keys: "unat (hashcode x mod 64) = ?i" if "x \<in> fst ` set (hm_buckets m ! ?i)" for x
    using that unfolding ok_def by blast
  have "unat (hashcode x mod 64) = ?i" if "x \<in> fst ` set es" for x
    using subsetD [OF assms(3) that] keys [of x] i(1) [symmetric] by (elim insertE) (simp only:)+
  then have "ok ?i es" using assms(2) unfolding ok_def by blast
  then have "\<forall>j < 64. ok j ((hm_buckets m)[?i := es] ! j)"
    using inv(2,3) i(2) by (simp add: nth_list_update)
  then show ?thesis using inv(1,2) unfolding hm_inv_def ok_def by simp
qed

lemma hm_inv_add: "hm_inv m \<Longrightarrow> hm_inv (HashMap_add m k v)"
  using hm_inv_update [of m "chain_add (hm_buckets m ! bucketIndex m k) k v" k] hm_inv_bucket [of m k]
  by (simp add: HashMap_add_def Let_def distinct_chain_add keys_chain_add)

lemma hm_inv_erase: "hm_inv m \<Longrightarrow> hm_inv (HashMap_erase m k)"
  using hm_inv_update [of m _ k] hm_inv_bucket [of m k]
  by (auto simp: HashMap_erase_def Let_def chain_erase_facts subset_insertI2 split: option.splits)

section \<open>The hash map is a map\<close>

lemma HashMap_get_new:
  fixes k :: "'k :: len word"
  shows "HashMap_get (HashMap_new :: ('k word, 'v) hashmap) k = None"
proof -
  have "bucketIndex (HashMap_new :: ('k word, 'v) hashmap) k < 64"
    by (rule bucketIndex_bound [OF hm_inv_new])
  then have "hm_buckets (HashMap_new :: ('k word, 'v) hashmap) ! bucketIndex (HashMap_new :: ('k word, 'v) hashmap) k = []"
    by (subst HashMap_new_def) simp
  then show ?thesis by (simp add: HashMap_get_def)
qed

lemma HashMap_get_update:
  assumes "hm_inv m" and "map_of es = (map_of (hm_buckets m ! bucketIndex m k))(k := w)"
  shows "HashMap_get (m\<lparr>hm_buckets := (hm_buckets m)[bucketIndex m k := es], hm_size := n\<rparr>)
           = (HashMap_get m)(k := w)"
proof
  fix j
  have "bucketIndex m k < length (hm_buckets m)"
    using bucketIndex_bound [OF assms(1)] assms(1) by (simp add: hm_inv_def)
  then show "HashMap_get (m\<lparr>hm_buckets := (hm_buckets m)[bucketIndex m k := es], hm_size := n\<rparr>) j
      = ((HashMap_get m)(k := w)) j"
    using assms(2) by (auto simp: HashMap_get_def bucketIndex_def chain_get_map_of nth_list_update)
qed

lemma HashMap_get_empty: "HashMap_get HashMap_new = Map.empty"
  by (rule ext) (rule HashMap_get_new)

lemma HashMap_get_add: "hm_inv m \<Longrightarrow> HashMap_get (HashMap_add m k v) = (HashMap_get m)(k \<mapsto> v)"
  unfolding HashMap_add_def Let_def by (rule HashMap_get_update) (simp_all add: map_of_chain_add)

lemma HashMap_get_erase:
  assumes "hm_inv m"
  shows "HashMap_get (HashMap_erase m k) = (HashMap_get m)(k := None)"
proof (cases "chain_erase (hm_buckets m ! bucketIndex m k) k")
  case None
  then have "HashMap_get m k = None"
    by (simp add: HashMap_get_def chain_get_map_of chain_erase_None map_of_eq_None_iff)
  with None show ?thesis by (simp add: HashMap_erase_def fun_upd_idem)
next
  case (Some es)
  with HashMap_get_update [OF assms chain_erase_facts(1) [OF Some hm_inv_bucket [OF assms]]]
  show ?thesis by (simp add: HashMap_erase_def)
qed

interpretation hm: kv_map HashMap_new HashMap_get HashMap_add HashMap_erase hm_inv
  by unfold_locales
    (auto simp: HashMap_get_new HashMap_get_add HashMap_get_erase hm_inv_new hm_inv_add hm_inv_erase)

lemmas hm_laws [abs_simps] = hm.kv_laws

section \<open>Entries and iteration\<close>

declare bucket_seek.simps [simp del]

lemma map_of_concat_unique:
  assumes "i < length bs" and "\<forall>j < length bs. j \<noteq> i \<longrightarrow> map_of (bs ! j) k = None"
  shows "map_of (concat bs) k = map_of (bs ! i) k"
  using assms
proof (induction bs arbitrary: i)
  case (Cons b bs)
  show ?case
  proof (cases i)
    case 0
    have "map_of b' k = None" if "b' \<in> set bs" for b'
    proof -
      obtain j where "j < length bs" "bs ! j = b'" using \<open>b' \<in> set bs\<close> by (metis in_set_conv_nth)
      then show ?thesis using Cons.prems(2) 0 by (metis Suc_less_eq length_Cons nat.distinct(1) nth_Cons_Suc)
    qed
    then have "map_of (concat bs) k = None" by (auto simp: map_of_eq_None_iff)
    with 0 show ?thesis by (simp add: map_add_def split: option.splits)
  next
    case (Suc i')
    then have "\<forall>j < length bs. j \<noteq> i' \<longrightarrow> map_of (bs ! j) k = None"
      using Cons.prems(2) by (metis Suc_less_eq length_Cons nat.inject nth_Cons_Suc)
    with Cons.IH [of i'] Cons.prems(1) Suc have "map_of (concat bs) k = map_of (bs ! i') k" by simp
    moreover have "map_of b k = None" using Cons.prems(2) Suc by force
    ultimately show ?thesis using Suc by (simp add: map_add_def split: option.splits)
  qed
qed simp

lemma hm_inv_keys:
  assumes "hm_inv m" and "j < 64" and "k \<in> fst ` set (hm_buckets m ! j)"
  shows "bucketIndex m k = j"
  using assms unfolding hm_inv_def bucketIndex_def by metis

lemma hm_entries_map_of:
  assumes "hm_inv m"
  shows "map_of (hm_entries m) = HashMap_get m"
proof
  fix k
  have len: "length (hm_buckets m) = 64" using assms by (simp add: hm_inv_def)
  have "\<forall>j < length (hm_buckets m). j \<noteq> bucketIndex m k \<longrightarrow> map_of (hm_buckets m ! j) k = None"
    using hm_inv_keys [OF assms] len by (metis map_of_eq_None_iff)
  with map_of_concat_unique [of "bucketIndex m k" "hm_buckets m" k] len bucketIndex_bound [OF assms, of k]
  show "map_of (hm_entries m) k = HashMap_get m k"
    by (simp add: hm_entries_def HashMap_get_def chain_get_map_of)
qed

lemma distinct_concat_buckets:
  assumes "\<forall>j < length bs. distinct (map fst (bs ! j))"
    and "\<forall>j < length bs. \<forall>k \<in> fst ` set (bs ! j). f k = j + n"
  shows "distinct (map fst (concat bs))"
  using assms
proof (induction bs arbitrary: n)
  case (Cons b bs)
  have "distinct (map fst (concat bs))"
  proof (rule Cons.IH)
    show "\<forall>j < length bs. distinct (map fst (bs ! j))" using Cons.prems(1) by force
    show "\<forall>j < length bs. \<forall>k \<in> fst ` set (bs ! j). f k = j + Suc n"
      using Cons.prems(2) by (metis Suc_less_eq add_Suc add_Suc_right length_Cons nth_Cons_Suc)
  qed
  moreover have "fst ` set b \<inter> fst ` set (concat bs) = {}"
  proof -
    have "f k = n" if "k \<in> fst ` set b" for k using Cons.prems(2) that by force
    moreover have "f k \<noteq> n" if k: "k \<in> fst ` set (concat bs)" for k
    proof -
      obtain j where "j < length bs" "k \<in> fst ` set (bs ! j)"
        using k by (auto simp: set_conv_nth [of bs])
      then have "f k = Suc j + n" using Cons.prems(2) by (metis Suc_less_eq length_Cons nth_Cons_Suc)
      then show ?thesis by simp
    qed
    ultimately show ?thesis by blast
  qed
  moreover have "distinct (map fst b)" using Cons.prems(1) by force
  ultimately show ?case by (auto simp: distinct_map)
qed simp

lemma hm_entries_distinct: "hm_inv m \<Longrightarrow> distinct (map fst (hm_entries m))"
  unfolding hm_entries_def hm_inv_def
  by (rule distinct_concat_buckets [where f = "\<lambda>k. unat (hashcode k mod 64)" and n = 0]) simp_all

lemma bucket_seek_facts:
  assumes "n = length bs"
  shows "it_current (bucket_seek bs n i) @ concat (drop (Suc (it_bucketIndex (bucket_seek bs n i))) bs)
           = concat (drop i bs)"
  using assms
proof (induction bs n i rule: bucket_seek.induct)
  case (1 bs n i)
  show ?case
  proof (cases "i < n")
    case True
    then have drop: "drop i bs = bs ! i # drop (Suc i) bs"
      using "1.prems" by (simp add: Cons_nth_drop_Suc)
    with "1.IH" [OF True] "1.prems" True show ?thesis
      by (cases "bs ! i = []") (simp_all add: bucket_seek.simps [of bs "length bs" i])
  next
    case False
    then show ?thesis using "1.prems" by (simp add: bucket_seek.simps [of bs "length bs" i])
  qed
qed

lemma bucket_seek_empty:
  assumes "n = length bs"
  shows "it_current (bucket_seek bs n i) = [] \<longrightarrow>
           concat (drop (Suc (it_bucketIndex (bucket_seek bs n i))) bs) = []"
  using assms
proof (induction bs n i rule: bucket_seek.induct)
  case (1 bs n i)
  then show ?case by (cases "i < n") (simp_all add: bucket_seek.simps [of bs "length bs" i])
qed

lemma HashMap_visit_enough:
  assumes "unat (hm_bucketCount m) = length (hm_buckets m)"
    and "length (it_current it @ concat (drop (Suc (it_bucketIndex it)) (hm_buckets m))) \<le> fuel"
    and "it_current it = [] \<longrightarrow> concat (drop (Suc (it_bucketIndex it)) (hm_buckets m)) = []"
  shows "HashMap_visit fuel m it
           = Some (it_current it @ concat (drop (Suc (it_bucketIndex it)) (hm_buckets m)))"
  using assms(2,3)
proof (induction fuel arbitrary: it)
  case 0
  then show ?case by simp
next
  case (Suc fuel)
  show ?case
  proof (cases "it_current it")
    case Nil
    with Suc.prems show ?thesis by simp
  next
    case (Cons e rest)
    let ?bs = "hm_buckets m"
    show ?thesis
    proof (cases rest)
      case Nil
      define it' where "it' = bucket_seek ?bs (unat (hm_bucketCount m)) (Suc (it_bucketIndex it))"
      have rem: "it_current it' @ concat (drop (Suc (it_bucketIndex it')) ?bs)
          = concat (drop (Suc (it_bucketIndex it)) ?bs)"
        unfolding it'_def by (rule bucket_seek_facts [OF assms(1)])
      have "it_current it' = [] \<longrightarrow> concat (drop (Suc (it_bucketIndex it')) ?bs) = []"
        unfolding it'_def by (rule bucket_seek_empty [OF assms(1)])
      then have "HashMap_visit fuel m it' = Some (concat (drop (Suc (it_bucketIndex it)) ?bs))"
        using Suc.IH [of it'] Suc.prems(1) Cons Nil rem by simp
      then show ?thesis using Cons Nil by (simp add: HashMapIterator_inc_def it'_def)
    next
      case (Cons e' rest')
      with Suc.IH [of "it\<lparr>it_current := rest\<rparr>"] Suc.prems \<open>it_current it = e # rest\<close>
      show ?thesis by (simp add: HashMapIterator_inc_def)
    qed
  qed
qed

lemma HashMap_visit_begin:
  assumes "hm_inv m"
  shows "HashMap_visit (length (hm_entries m)) m (HashMapIterator_begin m) = Some (hm_entries m)"
proof -
  let ?it = "bucket_seek (hm_buckets m) (unat (hm_bucketCount m)) 0"
  have len: "unat (hm_bucketCount m) = length (hm_buckets m)"
    using assms by (simp add: hm_inv_def)
  have all: "it_current ?it @ concat (drop (Suc (it_bucketIndex ?it)) (hm_buckets m)) = hm_entries m"
    using bucket_seek_facts [OF len, of 0] by (simp add: hm_entries_def)
  have none: "it_current ?it = [] \<longrightarrow> concat (drop (Suc (it_bucketIndex ?it)) (hm_buckets m)) = []"
    by (rule bucket_seek_empty [OF len])
  show ?thesis
  proof (cases "it_current ?it = []")
    case True
    with all none have "hm_entries m = []" by simp
    with True show ?thesis by (simp add: HashMapIterator_begin_def)
  next
    case False
    then have "HashMapIterator_begin m = ?it" by (simp add: HashMapIterator_begin_def)
    with HashMap_visit_enough [OF len, of ?it] all none show ?thesis by simp
  qed
qed

section \<open>Runs of operations\<close>

datatype ('k, 'v) hm_op = Add 'k 'v | Erase 'k

fun hm_run :: "('k :: len word, 'v) hm_op list \<Rightarrow> ('k word, 'v) hashmap \<Rightarrow> ('k word, 'v) hashmap" where
  "hm_run [] m = m"
| "hm_run (Add k v # ops) m = hm_run ops (HashMap_add m k v)"
| "hm_run (Erase k # ops) m = hm_run ops (HashMap_erase m k)"

fun map_run :: "('k, 'v) hm_op list \<Rightarrow> ('k \<rightharpoonup> 'v) \<Rightarrow> ('k \<rightharpoonup> 'v)" where
  "map_run [] f = f"
| "map_run (Add k v # ops) f = map_run ops (f(k \<mapsto> v))"
| "map_run (Erase k # ops) f = map_run ops (f(k := None))"

lemma hm_run_inv: "hm_inv m \<Longrightarrow> hm_inv (hm_run ops m)"
  by (induction ops m rule: hm_run.induct) (auto simp: hm_laws)

lemma hm_run_get: "hm_inv m \<Longrightarrow> HashMap_get (hm_run ops m) = map_run ops (HashMap_get m)"
  by (induction ops m rule: hm_run.induct) (auto simp: hm_laws)

text \<open>
  C1. Any sequence of \<open>add\<close> and \<open>erase\<close> on a new hash map, read with \<open>get\<close>, behaves as the same
  updates on a finite map, whatever keys collide in a bucket; and the loop from \<open>begin()\<close> to
  \<open>end()\<close> visits every binding of that map exactly once and then stops.
\<close>

theorem hashmap_refines_map:
  "HashMap_get (hm_run ops HashMap_new) = map_run ops Map.empty \<and>
   (\<exists>es. HashMap_visit (length (hm_entries (hm_run ops HashMap_new))) (hm_run ops HashMap_new)
            (HashMapIterator_begin (hm_run ops HashMap_new)) = Some es \<and>
         distinct (map fst es) \<and> map_of es = map_run ops Map.empty)"
proof -
  let ?m = "hm_run ops HashMap_new"
  have inv: "hm_inv ?m" by (rule hm_run_inv [OF hm_inv_new])
  have get: "HashMap_get ?m = map_run ops Map.empty"
    by (simp add: hm_run_get hm_inv_new HashMap_get_empty)
  show ?thesis
    using get HashMap_visit_begin [OF inv] hm_entries_distinct [OF inv] hm_entries_map_of [OF inv] by simp
qed

text \<open>
  The size counter does not count nodes: adding a key that is already present overwrites its
  value in place and still increments the counter, so that two \<open>add\<close>s of one key leave one node
  and the size 2.
\<close>

theorem hashmap_size_counts_overwrites:
  "HashMap_size (hm_run [Add k v, Add k w] HashMap_new) = 2 \<and>
   length (hm_entries (hm_run [Add k v, Add k w] HashMap_new)) = 1"
proof -
  let ?m = "hm_run [Add k v, Add k w] HashMap_new"
  have inv: "hm_inv ?m" by (rule hm_run_inv [OF hm_inv_new])
  have "map_of (hm_entries ?m) = [k \<mapsto> w]"
    using hm_entries_map_of [OF inv] hm_run_get [OF hm_inv_new, of "[Add k v, Add k w]"]
    by (auto simp: HashMap_get_new fun_eq_iff)
  then have "fst ` set (hm_entries ?m) = {k}" using dom_map_of_conv_image_fst [of "hm_entries ?m"] by simp
  then have "length (hm_entries ?m) = 1"
    using distinct_card [OF hm_entries_distinct [OF inv]] by simp
  then show ?thesis by (simp add: HashMap_size_def HashMap_add_def HashMap_new_def Let_def)
qed

end
