(* ===== verification/ChunkHeap.thy ===== *)
theory ChunkHeap
  imports Prelude
begin

text \<open>
  The chunk allocator (Kernel/Kernel/memory/allocators/ChunkAllocator.cpp and .hpp): a first-fit
  allocator over a linked list of chunk headers that lie in the memory they manage. Headers are
  kept in a store from addresses to headers; the pointer-following loops are partial functions, so
  that following a cyclic list forever is the value \<open>None\<close>. The second half shows that on a
  well-formed heap the loops end and that the operations implement their list counterparts.
\<close>

section \<open>Data\<close>

record chunk_header =
  ch_next :: u32
  ch_used :: bool
  ch_size :: u32

type_synonym chunk_mem = "u32 \<rightharpoonup> chunk_header"

record chunk_allocator =
  ca_first :: u32
  ca_mem :: chunk_mem

definition sizeof_ChunkHeader :: u32 where
  "sizeof_ChunkHeader = 12"

definition CHUNK_ALLOCATOR_MINIMUM_ALLOCATION_SIZE :: u32 where
  "CHUNK_ALLOCATOR_MINIMUM_ALLOCATION_SIZE = 8"

definition ChunkAllocator_new :: "chunk_mem \<Rightarrow> chunk_allocator" where
  "ChunkAllocator_new mem = \<lparr>ca_first = 0, ca_mem = mem\<rparr>"

text \<open>Reading the header a pointer designates.\<close>

definition deref :: "chunk_mem \<Rightarrow> u32 \<Rightarrow> chunk_header kres" where
  "deref mem p =
     (if p = 0 then Inl NullDeref
      else case mem p of None \<Rightarrow> Inl (BadPointer p) | Some h \<Rightarrow> Inr h)"

section \<open>Operations\<close>

partial_function (option) merge_loop :: "chunk_mem \<Rightarrow> u32 \<Rightarrow> chunk_mem kres option" where
  "merge_loop mem current =
     (case deref mem current of
        Inl e \<Rightarrow> Some (Inl e)
      | Inr c \<Rightarrow>
          if ch_next c \<noteq> 0 then
            (case deref mem (ch_next c) of
               Inl e \<Rightarrow> Some (Inl e)
             | Inr n \<Rightarrow>
                 if \<not> ch_used c \<and> \<not> ch_used n
                 then merge_loop (mem(current \<mapsto>
                        c\<lparr>ch_size := ch_size c + (sizeof_ChunkHeader + ch_size n), ch_next := ch_next n\<rparr>)) current
                 else merge_loop mem (ch_next c))
          else Some (Inr mem))"

definition ChunkAllocator_merge :: "chunk_allocator \<Rightarrow> chunk_allocator kres option" where
  "ChunkAllocator_merge ca =
     (case merge_loop (ca_mem ca) (ca_first ca) of
        None \<Rightarrow> None
      | Some (Inl e) \<Rightarrow> Some (Inl e)
      | Some (Inr mem) \<Rightarrow> Some (Inr (ca\<lparr>ca_mem := mem\<rparr>)))"

definition ChunkAllocator_initialize :: "chunk_allocator \<Rightarrow> u32 \<Rightarrow> u32 \<Rightarrow> chunk_allocator" where
  "ChunkAllocator_initialize ca start end' =
     ca\<lparr>ca_first := start,
        ca_mem := (ca_mem ca)(start \<mapsto>
          \<lparr>ch_next = 0, ch_used = False, ch_size = end' - start - sizeof_ChunkHeader\<rparr>)\<rparr>"

text \<open>The loop of \<open>expand\<close> that finds the last chunk.\<close>

partial_function (option) last_loop :: "chunk_mem \<Rightarrow> u32 \<Rightarrow> (u32 \<times> chunk_header) kres option" where
  "last_loop mem lastp =
     (case deref mem lastp of
        Inl e \<Rightarrow> Some (Inl e)
      | Inr h \<Rightarrow> if ch_next h \<noteq> 0 then last_loop mem (ch_next h) else Some (Inr (lastp, h)))"

definition ChunkAllocator_expand :: "chunk_allocator \<Rightarrow> u32 \<Rightarrow> chunk_allocator kres option" where
  "ChunkAllocator_expand ca sz =
     (case last_loop (ca_mem ca) (ca_first ca) of
        None \<Rightarrow> None
      | Some (Inl e) \<Rightarrow> Some (Inl e)
      | Some (Inr (lastp, h)) \<Rightarrow>
          let appendix = lastp + sizeof_ChunkHeader + ch_size h;
              mem = (ca_mem ca)(appendix \<mapsto>
                \<lparr>ch_next = 0, ch_used = False, ch_size = sz - sizeof_ChunkHeader\<rparr>)
          in ChunkAllocator_merge (ca\<lparr>ca_mem := mem(lastp \<mapsto> h\<lparr>ch_next := appendix\<rparr>)\<rparr>))"

partial_function (option) allocate_loop :: "chunk_mem \<Rightarrow> u32 \<Rightarrow> u32 \<Rightarrow> (u32 \<times> chunk_mem) kres option" where
  "allocate_loop mem current sz =
     (case deref mem current of
        Inl e \<Rightarrow> Some (Inl e)
      | Inr c \<Rightarrow>
          if \<not> ch_used c \<and> sz + sizeof_ChunkHeader \<le> ch_size c then
            (let splinter = current + sizeof_ChunkHeader + sz;
                 mem' = mem(splinter \<mapsto>
                   \<lparr>ch_next = ch_next c, ch_used = False, ch_size = ch_size c - sz - sizeof_ChunkHeader\<rparr>)
             in Some (Inr (current + sizeof_ChunkHeader,
                  mem'(current \<mapsto> c\<lparr>ch_next := splinter, ch_used := True, ch_size := sz\<rparr>))))
          else if ch_next c \<noteq> 0 then allocate_loop mem (ch_next c) sz
          else Some (Inr (0, mem)))"

definition ChunkAllocator_allocate :: "chunk_allocator \<Rightarrow> u32 \<Rightarrow> (u32 \<times> chunk_allocator) kres option" where
  "ChunkAllocator_allocate ca sz =
     (if ca_first ca = 0 then Some (Inr (0, ca))
      else let sz' = (if sz < CHUNK_ALLOCATOR_MINIMUM_ALLOCATION_SIZE
                        then CHUNK_ALLOCATOR_MINIMUM_ALLOCATION_SIZE else sz)
           in case allocate_loop (ca_mem ca) (ca_first ca) sz' of
                None \<Rightarrow> None
              | Some (Inl e) \<Rightarrow> Some (Inl e)
              | Some (Inr (p, mem)) \<Rightarrow> Some (Inr (p, ca\<lparr>ca_mem := mem\<rparr>)))"

definition ChunkAllocator_free :: "chunk_allocator \<Rightarrow> u32 \<Rightarrow> (u32 \<times> chunk_allocator) kres option" where
  "ChunkAllocator_free ca mem =
     (if ca_first ca = 0 then Some (Inr (0, ca))
      else let blockHeader = mem - sizeof_ChunkHeader
           in case deref (ca_mem ca) blockHeader of
                Inl e \<Rightarrow> Some (Inl e)
              | Inr h \<Rightarrow>
                  (case ChunkAllocator_merge
                          (ca\<lparr>ca_mem := (ca_mem ca)(blockHeader \<mapsto> h\<lparr>ch_used := False\<rparr>)\<rparr>) of
                     None \<Rightarrow> None
                   | Some (Inl e) \<Rightarrow> Some (Inl e)
                   | Some (Inr ca') \<Rightarrow> Some (Inr (ch_size h, ca'))))"

section \<open>LowerHeap\<close>

text \<open>
  The heap for real mode code (Kernel/Kernel/memory/LowerHeap.cpp) is one chunk allocator.
\<close>

definition LowerHeap_addArea :: "chunk_allocator \<Rightarrow> u32 \<Rightarrow> u32 \<Rightarrow> chunk_allocator" where
  "LowerHeap_addArea ca start end' = ChunkAllocator_initialize ca start end'"

definition LowerHeap_allocate :: "chunk_allocator \<Rightarrow> u32 \<Rightarrow> (u32 \<times> chunk_allocator) kres option" where
  "LowerHeap_allocate ca sz = ChunkAllocator_allocate ca sz"

definition LowerHeap_free :: "chunk_allocator \<Rightarrow> u32 \<Rightarrow> chunk_allocator kres option" where
  "LowerHeap_free ca mem =
     (case ChunkAllocator_free ca mem of
        None \<Rightarrow> None | Some (Inl e) \<Rightarrow> Some (Inl e) | Some (Inr (_, ca')) \<Rightarrow> Some (Inr ca'))"

section \<open>The heap as a list of blocks\<close>

text \<open>
  A heap starting at an address is a list of blocks, each a flag and a size; the header of a block
  takes 12 bytes and the next block begins where its payload ends.
\<close>

type_synonym block = "bool \<times> nat"

fun heap_rep :: "chunk_mem \<Rightarrow> nat \<Rightarrow> block list \<Rightarrow> bool" where
  "heap_rep mem a [] = False"
| "heap_rep mem a [(u, s)] = (mem (adr a) = Some \<lparr>ch_next = 0, ch_used = u, ch_size = adr s\<rparr>)"
| "heap_rep mem a ((u, s) # b # bs) =
     (mem (adr a) = Some \<lparr>ch_next = adr (a + 12 + s), ch_used = u, ch_size = adr s\<rparr> \<and>
      heap_rep mem (a + 12 + s) (b # bs))"

definition heap_bytes :: "block list \<Rightarrow> nat" where
  "heap_bytes bs = (\<Sum>(u, s) \<leftarrow> bs. 12 + s)"

fun amerge :: "block list \<Rightarrow> block list" where
  "amerge ((u, s) # (v, t) # bs) =
     (if \<not> u \<and> \<not> v then amerge ((u, s + (12 + t)) # bs) else (u, s) # amerge ((v, t) # bs))"
| "amerge bs = bs"

fun aalloc :: "nat \<Rightarrow> nat \<Rightarrow> block list \<Rightarrow> (nat \<times> block list) option" where
  "aalloc n a [] = None"
| "aalloc n a ((u, s) # bs) =
     (if \<not> u \<and> n + 12 \<le> s then Some (a + 12, (True, n) # (False, s - n - 12) # bs)
      else map_option (\<lambda>(p, bs'). (p, (u, s) # bs')) (aalloc n (a + 12 + s) bs))"

fun afree :: "nat \<Rightarrow> nat \<Rightarrow> block list \<Rightarrow> (nat \<times> block list) option" where
  "afree p a [] = None"
| "afree p a ((u, s) # bs) =
     (if p = a + 12 then Some (s, (False, s) # bs)
      else map_option (\<lambda>(n, bs'). (n, (u, s) # bs')) (afree p (a + 12 + s) bs))"

section \<open>The loops on a well-formed heap\<close>

lemma heap_rep_Cons:
  "heap_rep mem a ((u, s) # bs) \<longleftrightarrow>
     mem (adr a) = Some \<lparr>ch_next = (if bs = [] then 0 else adr (a + 12 + s)), ch_used = u, ch_size = adr s\<rparr> \<and>
     (bs \<noteq> [] \<longrightarrow> heap_rep mem (a + 12 + s) bs)"
  by (cases bs) auto

lemma heap_bytes_simps [simp]:
  "heap_bytes [] = 0" "heap_bytes ((u, s) # bs) = 12 + s + heap_bytes bs"
  "heap_bytes (bs @ cs) = heap_bytes bs + heap_bytes cs"
  by (simp_all add: heap_bytes_def)

declare heap_rep.simps [simp del]

lemma heap_rep_Nil [simp]: "\<not> heap_rep mem a []"
  by (simp add: heap_rep.simps)

lemma heap_rep_frame:
  assumes "heap_rep mem a bs" and "\<forall>x. a \<le> x \<and> x < a + heap_bytes bs \<longrightarrow> mem' (adr x) = mem (adr x)"
  shows "heap_rep mem' a bs"
  using assms
proof (induction bs arbitrary: a)
  case (Cons b bs)
  obtain u s where b: "b = (u, s)" by (cases b)
  have "heap_rep mem' (a + 12 + s) bs" if "bs \<noteq> []"
    using Cons.IH [of "a + 12 + s"] Cons.prems that unfolding b by (simp add: heap_rep_Cons)
  moreover have "mem' (adr a) = mem (adr a)" using Cons.prems(2) b by simp
  ultimately show ?case using Cons.prems(1) unfolding b by (simp add: heap_rep_Cons)
qed simp

lemma heap_rep_upd_below:
  assumes "heap_rep mem a bs" and "x < a" and "a + heap_bytes bs < 2 ^ 32"
  shows "heap_rep (mem(adr x := h)) a bs"
  using assms by (intro heap_rep_frame [OF assms(1)]) (auto simp: adr_inj)

lemma deref_rep:
  assumes "heap_rep mem a ((u, s) # bs)" and "0 < a" and "a < 2 ^ 32"
  shows "deref mem (adr a) =
    Inr \<lparr>ch_next = (if bs = [] then 0 else adr (a + 12 + s)), ch_used = u, ch_size = adr s\<rparr>"
  using assms by (simp add: deref_def heap_rep_Cons adr_eq_0)

lemma amerge_Nil [simp]: "amerge bs = [] \<longleftrightarrow> bs = []"
  by (induction bs rule: amerge.induct) auto

lemma heap_bytes_amerge [simp]: "heap_bytes (amerge bs) = heap_bytes bs"
  by (induction bs rule: amerge.induct) auto

lemma merge_loop_step:
  assumes "heap_rep mem a ((u, s) # (v, t) # bs)" and "0 < a" and "a + heap_bytes ((u, s) # (v, t) # bs) < 2 ^ 32"
  shows "merge_loop mem (adr a) =
    (if \<not> u \<and> \<not> v then merge_loop (mem(adr a \<mapsto>
         \<lparr>ch_next = (if bs = [] then 0 else adr (a + 12 + (s + (12 + t)))), ch_used = u, ch_size = adr (s + (12 + t))\<rparr>)) (adr a)
     else merge_loop mem (adr (a + 12 + s)))"
proof -
  have rep: "heap_rep mem (a + 12 + s) ((v, t) # bs)" using assms(1) by (simp add: heap_rep_Cons)
  have nz: "adr (a + 12 + s) \<noteq> 0" using assms(2,3) by (subst adr_eq_0) auto
  have d1: "deref mem (adr a) = Inr \<lparr>ch_next = adr (a + 12 + s), ch_used = u, ch_size = adr s\<rparr>"
    using deref_rep [OF assms(1,2)] assms(3) by simp
  have d2: "deref mem (adr (a + 12 + s)) = Inr
      \<lparr>ch_next = (if bs = [] then 0 else adr (a + 12 + (s + (12 + t)))), ch_used = v, ch_size = adr t\<rparr>"
    using deref_rep [OF rep] assms(2,3) by (simp add: add.assoc add.left_commute)
  have sz: "adr s + (sizeof_ChunkHeader + adr t) = adr (s + (12 + t))"
    by (simp add: sizeof_ChunkHeader_def adr_def)
  show ?thesis
    by (subst merge_loop.simps) (simp add: d1 d2 nz sz)
qed

lemma merge_loop_rep:
  assumes "heap_rep mem a bs" and "0 < a" and "a + heap_bytes bs < 2 ^ 32"
  shows "\<exists>mem'. merge_loop mem (adr a) = Some (Inr mem') \<and> heap_rep mem' a (amerge bs) \<and>
    (\<forall>x < a. mem' (adr x) = mem (adr x))"
  using assms
proof (induction bs arbitrary: mem a rule: amerge.induct [case_names two none one])
  case (two u s v t bs)
  have rep: "heap_rep mem (a + 12 + s) ((v, t) # bs)" using two.prems(1) by (simp add: heap_rep_Cons)
  show ?case
  proof (cases "\<not> u \<and> \<not> v")
    case True
    let ?h = "\<lparr>ch_next = (if bs = [] then 0 else adr (a + 12 + (s + (12 + t)))), ch_used = u, ch_size = adr (s + (12 + t))\<rparr> :: chunk_header"
    let ?mem = "mem(adr a \<mapsto> ?h)"
    have "heap_rep ?mem (a + 12 + (s + (12 + t))) bs" if "bs \<noteq> []"
      using rep that two.prems(3)
      by (intro heap_rep_upd_below) (simp_all add: heap_rep_Cons add.assoc add.left_commute)
    then have "heap_rep ?mem a ((u, s + (12 + t)) # bs)" by (simp add: heap_rep_Cons)
    moreover have "a + heap_bytes ((u, s + (12 + t)) # bs) < 2 ^ 32" using two.prems(3) by simp
    ultimately obtain mem' where
      m: "merge_loop ?mem (adr a) = Some (Inr mem')" "heap_rep mem' a (amerge ((u, s + (12 + t)) # bs))"
        "\<forall>x < a. mem' (adr x) = ?mem (adr x)"
      using two.IH(1) [OF True] two.prems(2) by blast
    moreover have "?mem (adr x) = mem (adr x)" if "x < a" for x
      using that two.prems(3) by (auto simp: adr_inj)
    ultimately show ?thesis
      using True merge_loop_step [OF two.prems] by (intro exI [of _ mem']) simp
  next
    case False
    have b: "0 < a + 12 + s" "a + 12 + s + heap_bytes ((v, t) # bs) < 2 ^ 32" using two.prems(3) by simp_all
    obtain mem' where
      m: "merge_loop mem (adr (a + 12 + s)) = Some (Inr mem')" "heap_rep mem' (a + 12 + s) (amerge ((v, t) # bs))"
        "\<forall>x < a + 12 + s. mem' (adr x) = mem (adr x)"
      using two.IH(2) [OF False rep b] by (elim exE conjE)
    have "mem' (adr a) = mem (adr a)" using m(3) by simp
    then have "heap_rep mem' a ((u, s) # amerge ((v, t) # bs))"
      using m(2) two.prems(1) by (simp add: heap_rep_Cons)
    then show ?thesis
      using False m(1,3) merge_loop_step [OF two.prems] by (intro exI [of _ mem']) auto
  qed
next
  case none
  then show ?case by simp
next
  case (one b)
  obtain u s where b: "b = (u, s)" by (cases b)
  have "merge_loop mem (adr a) = Some (Inr mem)"
    using deref_rep [of mem a u s "[]"] one.prems b by (subst merge_loop.simps) simp
  then show ?case using one.prems by auto
qed

lemma last_loop_rep:
  assumes "heap_rep mem a (bs @ [(u, s)])" and "0 < a" and "a + heap_bytes (bs @ [(u, s)]) < 2 ^ 32"
  shows "last_loop mem (adr a) =
    Some (Inr (adr (a + heap_bytes bs), \<lparr>ch_next = 0, ch_used = u, ch_size = adr s\<rparr>))"
  using assms
proof (induction bs arbitrary: a)
  case Nil
  then show ?case using deref_rep [of mem a u s "[]"] by (subst last_loop.simps) simp
next
  case (Cons b bs)
  obtain v t where b: "b = (v, t)" by (cases b)
  have rep: "heap_rep mem (a + 12 + t) (bs @ [(u, s)])" using Cons.prems(1) b by (simp add: heap_rep_Cons)
  have nz: "adr (a + 12 + t) \<noteq> 0" using Cons.prems(2,3) b by (subst adr_eq_0) auto
  have "last_loop mem (adr a) = last_loop mem (adr (a + 12 + t))"
    using deref_rep [of mem a v t "bs @ [(u, s)]"] Cons.prems b nz
    by (subst last_loop.simps) simp
  with Cons.IH [OF rep] Cons.prems(2,3) b show ?case by (simp add: add.assoc add.left_commute)
qed

lemma aalloc_bytes: "aalloc n a bs = Some (p, bs') \<Longrightarrow> heap_bytes bs' = heap_bytes bs"
  by (induction n a bs arbitrary: bs' rule: aalloc.induct) (auto split: if_splits)

lemma aalloc_nonempty: "aalloc n a bs = Some (p, bs') \<Longrightarrow> bs' \<noteq> []"
  by (cases bs) (auto split: if_splits)

lemma sizeof_adr: "sizeof_ChunkHeader = adr 12"
  by (simp add: sizeof_ChunkHeader_def adr_numeral)

lemma allocate_loop_here:
  assumes "heap_rep mem a ((u, s) # bs)" and "0 < a" and "a + heap_bytes ((u, s) # bs) < 2 ^ 32"
    and "\<not> u" and "n + 12 \<le> s"
  shows "\<exists>mem'. allocate_loop mem (adr a) (adr n) = Some (Inr (adr (a + 12), mem')) \<and>
    heap_rep mem' a ((True, n) # (False, s - n - 12) # bs) \<and> (\<forall>x < a. mem' (adr x) = mem (adr x))"
proof -
  define nx where "nx = (if bs = [] then 0 else adr (a + 12 + s))"
  let ?sp = "\<lparr>ch_next = nx, ch_used = False, ch_size = adr (s - n - 12)\<rparr> :: chunk_header"
  let ?hd = "\<lparr>ch_next = adr (a + 12 + n), ch_used = True, ch_size = adr n\<rparr> :: chunk_header"
  let ?mem = "mem(adr (a + 12 + n) \<mapsto> ?sp, adr a \<mapsto> ?hd)"
  have d: "deref mem (adr a) = Inr \<lparr>ch_next = nx, ch_used = u, ch_size = adr s\<rparr>"
    using deref_rep [OF assms(1,2)] assms(3) unfolding nx_def by simp
  have c: "adr n + sizeof_ChunkHeader \<le> adr s" "adr a + sizeof_ChunkHeader + adr n = adr (a + 12 + n)"
      "adr s - adr n - sizeof_ChunkHeader = adr (s - n - 12)" "adr a + sizeof_ChunkHeader = adr (a + 12)"
    using assms(3,5) by (simp_all add: sizeof_adr adr_plus adr_le adr_minus)
  have eval: "allocate_loop mem (adr a) (adr n) = Some (Inr (adr (a + 12), ?mem))"
    using assms(4) by (subst allocate_loop.simps) (simp only: d c adr_plus Let_def sum.case chunk_header.simps simp_thms if_True)
  have ne: "adr (a + 12 + n) \<noteq> adr a" using assms(3,5) by (subst adr_inj) simp_all
  have bs: "heap_rep ?mem (a + 12 + s) bs" if "bs \<noteq> []"
  proof (rule heap_rep_frame)
    show "heap_rep mem (a + 12 + s) bs" using assms(1) that by (simp add: heap_rep_Cons)
    show "\<forall>x. a + 12 + s \<le> x \<and> x < a + 12 + s + heap_bytes bs \<longrightarrow> ?mem (adr x) = mem (adr x)"
      using assms(3,5) by (auto simp: adr_inj)
  qed
  have e: "a + 12 + n + 12 + (s - n - 12) = a + 12 + s" using assms(5) by simp
  have tl: "heap_rep ?mem (a + 12 + n) ((False, s - n - 12) # bs)"
    unfolding heap_rep_Cons e using bs ne by (simp add: nx_def)
  have "heap_rep ?mem a ((True, n) # (False, s - n - 12) # bs)"
    using tl by (subst heap_rep_Cons) simp
  moreover have "\<forall>x < a. ?mem (adr x) = mem (adr x)" using assms(3,5) by (auto simp: adr_inj)
  ultimately show ?thesis using eval by blast
qed

lemma allocate_loop_rep:
  assumes "heap_rep mem a bs" and "0 < a" and "a + heap_bytes bs < 2 ^ 32" and "n + 12 < 2 ^ 32"
  shows "case aalloc n a bs of
      None \<Rightarrow> allocate_loop mem (adr a) (adr n) = Some (Inr (0, mem))
    | Some (p, bs') \<Rightarrow> \<exists>mem'. allocate_loop mem (adr a) (adr n) = Some (Inr (adr p, mem')) \<and>
        heap_rep mem' a bs' \<and> (\<forall>x < a. mem' (adr x) = mem (adr x))"
  using assms(1-3)
proof (induction bs arbitrary: a)
  case Nil
  then show ?case by simp
next
  case (Cons b bs)
  obtain u s where b: "b = (u, s)" by (cases b)
  note rep = Cons.prems(1) [unfolded b]
  have bound: "a + heap_bytes ((u, s) # bs) < 2 ^ 32" using Cons.prems(3) b by simp
  have fits: "adr n + sizeof_ChunkHeader \<le> adr s \<longleftrightarrow> n + 12 \<le> s"
    using bound assms(4) by (simp add: sizeof_adr adr_plus adr_le)
  have d: "deref mem (adr a) = Inr \<lparr>ch_next = (if bs = [] then 0 else adr (a + 12 + s)), ch_used = u, ch_size = adr s\<rparr>"
    using deref_rep [OF rep Cons.prems(2)] bound by simp
  show ?case
  proof (cases "\<not> u \<and> n + 12 \<le> s")
    case True
    then show ?thesis using allocate_loop_here [OF rep Cons.prems(2) bound] b by simp
  next
    case False
    show ?thesis
    proof (cases "bs = []")
      case True
      with False have "allocate_loop mem (adr a) (adr n) = Some (Inr (0, mem))"
        by (subst allocate_loop.simps) (auto simp: d fits)
      with True False b show ?thesis by auto
    next
      case ne: False
      then have "heap_rep mem (a + 12 + s) bs" using rep by (simp add: heap_rep_Cons)
      note IH = Cons.IH [OF this]
      have nz: "adr (a + 12 + s) \<noteq> 0" using bound by (subst adr_eq_0) simp_all
      have step: "allocate_loop mem (adr a) (adr n) = allocate_loop mem (adr (a + 12 + s)) (adr n)"
        using False ne nz by (subst allocate_loop.simps) (auto simp: d fits)
      show ?thesis
      proof (cases "aalloc n (a + 12 + s) bs")
        case None
        with IH bound step False b show ?thesis by auto
      next
        case (Some r)
        obtain p bs' where r: "r = (p, bs')" by (cases r)
        obtain mem' where m: "allocate_loop mem (adr (a + 12 + s)) (adr n) = Some (Inr (adr p, mem'))"
            "heap_rep mem' (a + 12 + s) bs'" "\<forall>x < a + 12 + s. mem' (adr x) = mem (adr x)"
          using IH bound Some r by auto
        have "heap_rep mem' a ((u, s) # bs')"
          using m rep ne aalloc_nonempty [of n "a + 12 + s" bs p bs'] Some r by (simp add: heap_rep_Cons)
        moreover have "aalloc n a ((u, s) # bs) = Some (p, (u, s) # bs')" using False Some r by auto
        ultimately show ?thesis using m step b by auto
      qed
    qed
  qed
qed

lemma afree_mark:
  assumes "heap_rep mem a bs" and "0 < a" and "a + heap_bytes bs < 2 ^ 32" and "afree p a bs = Some (n, bs')"
  shows "\<exists>h. deref mem (adr p - sizeof_ChunkHeader) = Inr h \<and> ch_size h = adr n \<and>
    a + 12 \<le> p \<and> p \<le> a + heap_bytes bs \<and> n < 2 ^ 32 \<and>
    heap_rep (mem(adr p - sizeof_ChunkHeader \<mapsto> h\<lparr>ch_used := False\<rparr>)) a bs'"
  using assms
proof (induction bs arbitrary: a bs')
  case Nil
  then show ?case by simp
next
  case (Cons b bs)
  obtain u s where b: "b = (u, s)" by (cases b)
  note rep = Cons.prems(1) [unfolded b]
  have bound: "a + heap_bytes ((u, s) # bs) < 2 ^ 32" using Cons.prems(3) b by simp
  show ?case
  proof (cases "p = a + 12")
    case True
    define nx where "nx = (if bs = [] then 0 else adr (a + 12 + s))"
    have p: "adr p - sizeof_ChunkHeader = adr a" using True by (simp add: sizeof_adr adr_minus)
    let ?h = "\<lparr>ch_next = nx, ch_used = u, ch_size = adr s\<rparr> :: chunk_header"
    have "heap_rep (mem(adr a := x)) (a + 12 + s) bs" if "bs \<noteq> []" for x
      using rep that bound by (intro heap_rep_upd_below) (auto simp: heap_rep_Cons)
    then have r: "heap_rep (mem(adr a \<mapsto> ?h\<lparr>ch_used := False\<rparr>)) a ((False, s) # bs)"
      by (simp add: heap_rep_Cons nx_def)
    have d: "deref mem (adr a) = Inr ?h"
      using deref_rep [OF rep Cons.prems(2)] bound unfolding nx_def by simp
    have n: "n = s" "bs' = (False, s) # bs" using Cons.prems(4) True b by auto
    have "ch_size ?h = adr n" "a + 12 \<le> p" "p \<le> a + heap_bytes (b # bs)" "n < 2 ^ 32"
      using n True b bound by simp_all
    with r d show ?thesis unfolding p n(2) by blast
  next
    case False
    then obtain bs'' where f: "afree p (a + 12 + s) bs = Some (n, bs'')" "bs' = (u, s) # bs''"
      using Cons.prems(4) b by auto
    then have ne: "bs \<noteq> []" "bs'' \<noteq> []" by (cases bs, auto split: if_splits)+
    then have "heap_rep mem (a + 12 + s) bs" using rep by (simp add: heap_rep_Cons)
    moreover have "0 < a + 12 + s" "a + 12 + s + heap_bytes bs < 2 ^ 32" using bound by simp_all
    ultimately obtain h where
      h: "deref mem (adr p - sizeof_ChunkHeader) = Inr h" "ch_size h = adr n" "a + 12 + s + 12 \<le> p" "n < 2 ^ 32"
        "p \<le> a + 12 + s + heap_bytes bs"
        "heap_rep (mem(adr p - sizeof_ChunkHeader \<mapsto> h\<lparr>ch_used := False\<rparr>)) (a + 12 + s) bs''"
      using Cons.IH [OF _ _ _ f(1)] by metis
    have "adr p - sizeof_ChunkHeader = adr (p - 12)"
      using h(3) by (simp add: sizeof_adr adr_minus)
    then have "adr p - sizeof_ChunkHeader \<noteq> adr a" using h(3,5) bound by (simp add: adr_inj)
    then have "heap_rep (mem(adr p - sizeof_ChunkHeader \<mapsto> h\<lparr>ch_used := False\<rparr>)) a bs'"
      using h(6) rep ne f(2) by (simp add: heap_rep_Cons)
    moreover have "a + 12 \<le> p" "p \<le> a + heap_bytes (b # bs)" using h(3,5) b by simp_all
    ultimately show ?thesis using h(1,2,4) by metis
  qed
qed

lemma heap_rep_snoc:
  assumes "heap_rep mem a (bs @ [(u, s)])" and "0 < a"
    and "a + heap_bytes (bs @ [(u, s), (False, m)]) < 2 ^ 32"
  shows "heap_rep (mem(adr (a + heap_bytes (bs @ [(u, s)])) \<mapsto> \<lparr>ch_next = 0, ch_used = False, ch_size = adr m\<rparr>,
      adr (a + heap_bytes bs) \<mapsto> \<lparr>ch_next = adr (a + heap_bytes (bs @ [(u, s)])), ch_used = u, ch_size = adr s\<rparr>))
    a (bs @ [(u, s), (False, m)])"
  using assms
proof (induction bs arbitrary: a)
  case Nil
  have "adr (a + 12 + s) \<noteq> adr a" using Nil.prems(3) by (simp add: adr_inj)
  then show ?case by (simp add: heap_rep_Cons add.assoc)
next
  case (Cons b bs)
  obtain v t where b: "b = (v, t)" by (cases b)
  have rep: "heap_rep mem (a + 12 + t) (bs @ [(u, s)])" using Cons.prems(1) b by (simp add: heap_rep_Cons)
  have "adr (a + heap_bytes (b # bs @ [(u, s)])) \<noteq> adr a" "adr (a + heap_bytes (b # bs)) \<noteq> adr a"
    using Cons.prems(3) b by (simp_all add: adr_inj)
  with Cons.IH [OF rep] Cons.prems b show ?case
    by (simp add: heap_rep_Cons add.assoc)
qed

section \<open>Blocks in use\<close>

text \<open>The payloads of the used blocks, as pairs of address and size.\<close>

fun used_blocks :: "nat \<Rightarrow> block list \<Rightarrow> (nat \<times> nat) list" where
  "used_blocks a [] = []"
| "used_blocks a ((u, s) # bs) = (if u then [(a + 12, s)] else []) @ used_blocks (a + 12 + s) bs"

fun normal :: "block list \<Rightarrow> bool" where
  "normal ((u, s) # (v, t) # bs) = ((u \<or> v) \<and> normal ((v, t) # bs))"
| "normal bs = True"

lemma used_bounds:
  "(p, n) \<in> set (used_blocks a bs) \<Longrightarrow> a + 12 \<le> p \<and> p + n \<le> a + heap_bytes bs"
  by (induction a bs rule: used_blocks.induct) (auto split: if_splits)

lemma used_disjoint:
  "(p, n) \<in> set (used_blocks a bs) \<Longrightarrow> (q, m) \<in> set (used_blocks a bs) \<Longrightarrow> (p, n) \<noteq> (q, m) \<Longrightarrow>
     p + n \<le> q \<or> q + m \<le> p"
proof (induction a bs rule: used_blocks.induct)
  case (2 a u s bs)
  show ?case
  proof (cases "(p, n) \<in> set (used_blocks (a + 12 + s) bs) \<and> (q, m) \<in> set (used_blocks (a + 12 + s) bs)")
    case True
    with "2" show ?thesis by blast
  next
    case False
    with "2.prems" have "(p, n) = (a + 12, s) \<and> (q, m) \<in> set (used_blocks (a + 12 + s) bs) \<or>
        (q, m) = (a + 12, s) \<and> (p, n) \<in> set (used_blocks (a + 12 + s) bs)"
      by (auto split: if_splits)
    then show ?thesis using used_bounds [of p n "a + 12 + s" bs] used_bounds [of q m "a + 12 + s" bs] by auto
  qed
qed simp

lemma used_amerge [simp]: "used_blocks a (amerge bs) = used_blocks a bs"
  by (induction bs arbitrary: a rule: amerge.induct) (auto simp: add.assoc)

lemma used_aalloc:
  "aalloc n a bs = Some (p, bs') \<Longrightarrow>
     set (used_blocks a bs') = insert (p, n) (set (used_blocks a bs)) \<and> (p, n) \<notin> set (used_blocks a bs)"
proof (induction n a bs arbitrary: bs' rule: aalloc.induct)
  case (2 n a u s bs)
  show ?case
  proof (cases "\<not> u \<and> n + 12 \<le> s")
    case True
    with "2.prems" have "p = a + 12" "bs' = (True, n) # (False, s - n - 12) # bs" by auto
    moreover have "a + 12 + n + 12 + (s - n - 12) = a + 12 + s" using True by simp
    ultimately have "used_blocks a bs' = (p, n) # used_blocks (a + 12 + s) bs"
      by (simp only: used_blocks.simps append.simps if_True if_False)
    then show ?thesis using True used_bounds [of p n "a + 12 + s" bs] \<open>p = a + 12\<close> by auto
  next
    case False
    with "2.prems" obtain bs'' where b: "aalloc n (a + 12 + s) bs = Some (p, bs'')" "bs' = (u, s) # bs''"
      by auto
    from "2.IH" [OF False b(1)] used_bounds [of p n "a + 12 + s" bs''] b(2) show ?thesis by auto
  qed
qed simp

lemma afree_used:
  "(p, n) \<in> set (used_blocks a bs) \<Longrightarrow>
     \<exists>bs'. afree p a bs = Some (n, bs') \<and> set (used_blocks a bs') = set (used_blocks a bs) - {(p, n)} \<and>
           heap_bytes bs' = heap_bytes bs"
proof (induction a bs rule: used_blocks.induct)
  case (2 a u s bs)
  show ?case
  proof (cases "p = a + 12")
    case True
    have "(p, n) \<notin> set (used_blocks (a + 12 + s) bs)" using used_bounds [of p n "a + 12 + s" bs] True by auto
    then show ?thesis
      using True "2.prems" used_bounds [of p n "a + 12 + s" bs] by (auto split: if_splits)
  next
    case False
    then have "(p, n) \<in> set (used_blocks (a + 12 + s) bs)" using "2.prems" by (auto split: if_splits)
    from "2.IH" [OF this] obtain bs' where
      "afree p (a + 12 + s) bs = Some (n, bs')" "heap_bytes bs' = heap_bytes bs"
      "set (used_blocks (a + 12 + s) bs') = set (used_blocks (a + 12 + s) bs) - {(p, n)}" by blast
    then show ?thesis using False by auto
  qed
qed simp

lemma normal_amerge: "normal (amerge bs)"
proof (induction bs rule: amerge.induct)
  case (1 u s v t bs)
  show ?case
  proof (cases "\<not> u \<and> \<not> v")
    case False
    have hd: "fst (hd (amerge ((v, t) # bs))) = v" for v t bs
      by (induction "(v, t) # bs" arbitrary: v t bs rule: amerge.induct) auto
    obtain x xs where x: "amerge ((v, t) # bs) = x # xs" by (metis amerge_Nil list.exhaust list.simps(3))
    then have "fst x = v" using hd [of v t bs] by simp
    then show ?thesis using "1.IH"(2) [OF False] False x by (cases x) auto
  qed (use "1" in auto)
qed simp_all

lemma amerge_normal: "normal bs \<Longrightarrow> amerge bs = bs"
  by (induction bs rule: amerge.induct) auto

lemma normal_tl: "normal (b # bs) \<Longrightarrow> normal bs"
  by (cases b; cases bs) auto

lemma aalloc_afree:
  "normal bs \<Longrightarrow> aalloc n a bs = Some (p, bs') \<Longrightarrow> \<exists>bs''. afree p a bs' = Some (n, bs'') \<and> amerge bs'' = bs"
proof (induction n a bs arbitrary: bs' rule: aalloc.induct)
  case (2 n a u s bs)
  show ?case
  proof (cases "\<not> u \<and> n + 12 \<le> s")
    case True
    with "2.prems"(2) have "p = a + 12" "bs' = (True, n) # (False, s - n - 12) # bs" by auto
    moreover have "amerge ((False, n) # (False, s - n - 12) # bs) = (u, s) # bs"
      using True amerge_normal [OF "2.prems"(1)] by simp
    ultimately show ?thesis by auto
  next
    case False
    with "2.prems"(2) obtain bs1 where b: "aalloc n (a + 12 + s) bs = Some (p, bs1)" "bs' = (u, s) # bs1"
      by auto
    from "2.IH" [OF False normal_tl [OF "2.prems"(1)] b(1)] obtain bs2 where
      f: "afree p (a + 12 + s) bs1 = Some (n, bs2)" "amerge bs2 = bs" by blast
    have "a + 12 + s + 12 \<le> p"
      using used_aalloc [OF b(1)] used_bounds [of p n "a + 12 + s" bs1] by blast
    then have "afree p a bs' = Some (n, (u, s) # bs2)" using f(1) b(2) by simp
    moreover obtain v t cs where c: "bs2 = (v, t) # cs"
      using f(2) b(1) by (cases bs2) auto
    have "fst (hd (amerge ((v, t) # cs))) = v" for v t cs
      by (induction "(v, t) # cs" arbitrary: v t cs rule: amerge.induct) auto
    then have "fst (hd bs) = v" using f(2) c by blast
    then have "u \<or> v" using "2.prems"(1) f(2) c by (cases bs) auto
    then have "amerge ((u, s) # bs2) = (u, s) # bs" using f(2) c by auto
    ultimately show ?thesis by blast
  qed
qed simp

section \<open>The allocator's contract\<close>

definition ca_rep :: "chunk_allocator \<Rightarrow> nat \<Rightarrow> block list \<Rightarrow> bool" where
  "ca_rep ca a bs \<longleftrightarrow>
     ca_first ca = adr a \<and> 0 < a \<and> a + heap_bytes bs < 2 ^ 32 \<and> heap_rep (ca_mem ca) a bs"

locale block_allocator =
  fixes rep :: "'h \<Rightarrow> nat \<Rightarrow> block list \<Rightarrow> bool"
    and alloc :: "'h \<Rightarrow> u32 \<Rightarrow> (u32 \<times> 'h) kres option"
    and free :: "'h \<Rightarrow> u32 \<Rightarrow> (u32 \<times> 'h) kres option"
  assumes rep_bound: "rep h a bs \<Longrightarrow> 0 < a \<and> a + heap_bytes bs < 2 ^ 32"
    and alloc_None: "rep h a bs \<Longrightarrow> unat n + 12 < 2 ^ 32 \<Longrightarrow> aalloc (max 8 (unat n)) a bs = None \<Longrightarrow>
      alloc h n = Some (Inr (0, h))"
    and alloc_Some: "rep h a bs \<Longrightarrow> unat n + 12 < 2 ^ 32 \<Longrightarrow> aalloc (max 8 (unat n)) a bs = Some (p, bs') \<Longrightarrow>
      \<exists>h'. alloc h n = Some (Inr (adr p, h')) \<and> rep h' a bs'"
    and free_Some: "rep h a bs \<Longrightarrow> afree p a bs = Some (m, bs') \<Longrightarrow>
      \<exists>h'. free h (adr p) = Some (Inr (adr m, h')) \<and> rep h' a (amerge bs')"
begin

lemma alloc_spec:
  assumes "rep h a bs" and "unat n + 12 < 2 ^ 32"
  shows "(aalloc (max 8 (unat n)) a bs = None \<and> alloc h n = Some (Inr (0, h))) \<or>
    (\<exists>p h' bs'. alloc h n = Some (Inr (p, h')) \<and> p \<noteq> 0 \<and> rep h' a bs' \<and> heap_bytes bs' = heap_bytes bs \<and>
       aalloc (max 8 (unat n)) a bs = Some (unat p, bs') \<and>
       set (used_blocks a bs') = insert (unat p, max 8 (unat n)) (set (used_blocks a bs)) \<and>
       (\<forall>(q, m) \<in> set (used_blocks a bs). q + m \<le> unat p \<or> unat p + max 8 (unat n) \<le> q))"
proof (cases "aalloc (max 8 (unat n)) a bs")
  case None
  then show ?thesis using alloc_None [OF assms] by simp
next
  case (Some r)
  obtain p bs' where r: "aalloc (max 8 (unat n)) a bs = Some (p, bs')" using Some by (cases r) auto
  obtain h' where h': "alloc h n = Some (Inr (adr p, h'))" "rep h' a bs'" using alloc_Some [OF assms r] by blast
  note used = used_aalloc [OF r]
  have mem: "(p, max 8 (unat n)) \<in> set (used_blocks a bs')" using used by blast
  have b: "a + 12 \<le> p" "p < 2 ^ 32"
    using used_bounds [OF mem] rep_bound [OF h'(2)] aalloc_bytes [OF r] by auto
  then have p: "unat (adr p) = p" "adr p \<noteq> 0" by (simp_all add: unat_adr adr_eq_0)
  have "q + m \<le> p \<or> p + max 8 (unat n) \<le> q" if "(q, m) \<in> set (used_blocks a bs)" for q m
    using used_disjoint [OF mem, of q m] used that by blast
  then show ?thesis using h' p used r aalloc_bytes [OF r] by auto
qed

lemma free_spec:
  assumes "rep h a bs" and "(unat p, n) \<in> set (used_blocks a bs)"
  shows "\<exists>h' bs'. free h p = Some (Inr (adr n, h')) \<and> rep h' a bs' \<and> normal bs' \<and> heap_bytes bs' = heap_bytes bs \<and>
    set (used_blocks a bs') = set (used_blocks a bs) - {(unat p, n)}"
proof -
  obtain bs' where f: "afree (unat p) a bs = Some (n, bs')" "heap_bytes bs' = heap_bytes bs"
      "set (used_blocks a bs') = set (used_blocks a bs) - {(unat p, n)}"
    using afree_used [OF assms(2)] by blast
  obtain h' where "free h p = Some (Inr (adr n, h'))" "rep h' a (amerge bs')"
    using free_Some [OF assms(1) f(1)] by auto
  then show ?thesis using f by (intro exI [of _ h'] exI [of _ "amerge bs'"]) (simp add: normal_amerge)
qed

lemma alloc_free:
  assumes "rep h a bs" and "normal bs" and "unat n + 12 < 2 ^ 32"
    and "alloc h n = Some (Inr (p, h'))" and "p \<noteq> 0"
  shows "\<exists>h''. free h' p = Some (Inr (adr (max 8 (unat n)), h'')) \<and> rep h'' a bs"
proof -
  obtain bs' where b: "rep h' a bs'" "aalloc (max 8 (unat n)) a bs = Some (unat p, bs')"
    using alloc_spec [OF assms(1,3)] assms(4,5) by auto
  obtain bs'' where "afree (unat p) a bs' = Some (max 8 (unat n), bs'')" "amerge bs'' = bs"
    using aalloc_afree [OF assms(2) b(2)] by blast
  with free_Some [OF b(1)] show ?thesis by force
qed

end

interpretation chunk: block_allocator ca_rep ChunkAllocator_allocate ChunkAllocator_free
proof unfold_locales
  fix h a bs n p bs'
  assume rep: "ca_rep h a bs"
  then show "0 < a \<and> a + heap_bytes bs < 2 ^ 32" by (simp add: ca_rep_def)
  have nz: "ca_first h \<noteq> 0" using rep by (simp add: ca_rep_def adr_eq_0)
  have sz: "(if n < CHUNK_ALLOCATOR_MINIMUM_ALLOCATION_SIZE then CHUNK_ALLOCATOR_MINIMUM_ALLOCATION_SIZE else n)
      = adr (max 8 (unat n))" for n
    by (auto simp: CHUNK_ALLOCATOR_MINIMUM_ALLOCATION_SIZE_def word_less_nat_alt max_def adr_numeral)
  note loop = allocate_loop_rep [of "ca_mem h" a bs "max 8 (unat n)"]
  show "ChunkAllocator_allocate h n = Some (Inr (0, h))"
    if "unat n + 12 < 2 ^ 32" "aalloc (max 8 (unat n)) a bs = None" for n
    using allocate_loop_rep [of "ca_mem h" a bs "max 8 (unat n)"] that rep nz
    by (simp add: ChunkAllocator_allocate_def Let_def sz ca_rep_def)
  show "\<exists>h'. ChunkAllocator_allocate h n = Some (Inr (adr p, h')) \<and> ca_rep h' a bs'"
    if "unat n + 12 < 2 ^ 32" "aalloc (max 8 (unat n)) a bs = Some (p, bs')" for n p bs'
    using allocate_loop_rep [of "ca_mem h" a bs "max 8 (unat n)"] that rep nz aalloc_bytes [OF that(2)]
    by (auto simp: ChunkAllocator_allocate_def Let_def sz ca_rep_def)
  show "\<exists>h'. ChunkAllocator_free h (adr p) = Some (Inr (adr n, h')) \<and> ca_rep h' a (amerge bs')"
    if f: "afree p a bs = Some (n, bs')" for p n bs'
  proof -
    obtain x where x: "deref (ca_mem h) (adr p - sizeof_ChunkHeader) = Inr x" "ch_size x = adr n"
        "heap_rep ((ca_mem h)(adr p - sizeof_ChunkHeader \<mapsto> x\<lparr>ch_used := False\<rparr>)) a bs'"
      using afree_mark [OF _ _ _ f] rep unfolding ca_rep_def by metis
    have "heap_bytes bs' = heap_bytes bs" using f
      by (induction p a bs arbitrary: bs' rule: afree.induct) (auto split: if_splits)
    with merge_loop_rep [OF x(3)] rep obtain mem' where
      "merge_loop ((ca_mem h)(adr p - sizeof_ChunkHeader \<mapsto> x\<lparr>ch_used := False\<rparr>)) (adr a) = Some (Inr mem')"
      "heap_rep mem' a (amerge bs')" unfolding ca_rep_def by metis
    with x rep nz \<open>heap_bytes bs' = heap_bytes bs\<close> show ?thesis
      by (simp add: ChunkAllocator_free_def ChunkAllocator_merge_def Let_def ca_rep_def)
  qed
qed

section \<open>Initialisation and growth\<close>

lemma ca_rep_initialize:
  assumes "0 < unat start" and "unat start + 12 \<le> unat end'"
  shows "ca_rep (ChunkAllocator_initialize ca start end') (unat start) [(False, unat end' - unat start - 12)]"
proof -
  have "start \<le> end'" "12 \<le> end' - start" using assms by (simp_all add: word_le_nat_alt unat_sub)
  then have "unat (end' - start - 12) = unat end' - unat start - 12" by (simp add: unat_sub)
  then have "end' - start - sizeof_ChunkHeader = adr (unat end' - unat start - 12)"
    by (metis adr_unat sizeof_ChunkHeader_def)
  moreover have "unat end' < 2 ^ 32" using unsigned_less [of end'] by simp
  ultimately show ?thesis
    using assms by (simp add: ca_rep_def ChunkAllocator_initialize_def heap_rep_Cons)
qed

lemma used_blocks_append:
  "used_blocks a (bs @ cs) = used_blocks a bs @ used_blocks (a + heap_bytes bs) cs"
  by (induction a bs rule: used_blocks.induct) (auto simp: add.assoc)

lemma ca_rep_expand:
  assumes "ca_rep ca a bs" and "12 \<le> unat n" and "a + heap_bytes bs + unat n < 2 ^ 32"
  shows "\<exists>ca'. ChunkAllocator_expand ca n = Some (Inr ca') \<and>
    ca_rep ca' a (amerge (bs @ [(False, unat n - 12)]))"
proof -
  have rep: "heap_rep (ca_mem ca) a bs" and a: "0 < a" and first: "ca_first ca = adr a"
    using assms(1) by (auto simp: ca_rep_def)
  obtain bs0 u s where bs: "bs = bs0 @ [(u, s)]" using rep by (cases bs rule: rev_cases) auto
  have last: "last_loop (ca_mem ca) (adr a) =
      Some (Inr (adr (a + heap_bytes bs0), \<lparr>ch_next = 0, ch_used = u, ch_size = adr s\<rparr>))"
    using last_loop_rep [of "ca_mem ca" a bs0 u s] rep a assms(3) bs by simp
  have app: "adr (a + heap_bytes bs0) + sizeof_ChunkHeader + adr s = adr (a + heap_bytes (bs0 @ [(u, s)]))"
    by (simp add: sizeof_adr adr_plus add.assoc)
  have m: "n - sizeof_ChunkHeader = adr (unat n - 12)"
    using adr_minus [OF assms(2)] by (simp add: sizeof_adr)
  let ?mem = "(ca_mem ca)(adr (a + heap_bytes (bs0 @ [(u, s)])) \<mapsto> \<lparr>ch_next = 0, ch_used = False, ch_size = adr (unat n - 12)\<rparr>,
      adr (a + heap_bytes bs0) \<mapsto> \<lparr>ch_next = adr (a + heap_bytes (bs0 @ [(u, s)])), ch_used = u, ch_size = adr s\<rparr>)"
  have rep': "heap_rep ?mem a (bs0 @ [(u, s), (False, unat n - 12)])"
    using rep a assms(2,3) bs by (intro heap_rep_snoc) auto
  then obtain mem' where mem': "merge_loop ?mem (adr a) = Some (Inr mem')"
      "heap_rep mem' a (amerge (bs0 @ [(u, s), (False, unat n - 12)]))"
    using merge_loop_rep [OF rep' a] assms(2,3) bs by auto
  have "ChunkAllocator_expand ca n = Some (Inr (ca\<lparr>ca_mem := mem'\<rparr>))"
    using mem'(1) by (simp add: ChunkAllocator_expand_def ChunkAllocator_merge_def first last app m Let_def)
  then show ?thesis using mem'(2) assms bs a first by (simp add: ca_rep_def)
qed

lemma aalloc_None: "aalloc n a bs = None \<longleftrightarrow> (\<forall>(u, s) \<in> set bs. u \<or> s < n + 12)"
  by (induction n a bs rule: aalloc.induct) auto

section \<open>Properties\<close>

text \<open>
  C4. On a well-formed heap (the chunks tile the managed area from its first address on) and for
  a size that does not overflow together with a header, \<open>ChunkAllocator::allocate\<close> returns. It
  returns 0 and changes nothing exactly when no free chunk can hold the request and the header of a
  splinter; otherwise the returned block of \<open>max 8 size\<close> bytes lies inside the area, overlaps no
  block in use, is the only block added to those in use, and the heap is again well-formed.
\<close>

theorem chunk_allocate_correct:
  assumes "ca_rep ca a bs" and "unat n + 12 < 2 ^ 32"
  shows "\<exists>p ca'. ChunkAllocator_allocate ca n = Some (Inr (p, ca')) \<and>
    (p = 0 \<longleftrightarrow> (\<forall>(u, s) \<in> set bs. u \<or> s < max 8 (unat n) + 12)) \<and>
    (p = 0 \<longrightarrow> ca' = ca) \<and>
    (p \<noteq> 0 \<longrightarrow> (\<exists>bs'. ca_rep ca' a bs' \<and> heap_bytes bs' = heap_bytes bs \<and>
       a + 12 \<le> unat p \<and> unat p + max 8 (unat n) \<le> a + heap_bytes bs \<and>
       set (used_blocks a bs') = insert (unat p, max 8 (unat n)) (set (used_blocks a bs)) \<and>
       (\<forall>(q, m) \<in> set (used_blocks a bs). q + m \<le> unat p \<or> unat p + max 8 (unat n) \<le> q)))"
  using chunk.alloc_spec [OF assms]
proof (elim disjE exE conjE)
  assume n: "aalloc (max 8 (unat n)) a bs = None" and e: "ChunkAllocator_allocate ca n = Some (Inr (0, ca))"
  have "\<forall>(u, s) \<in> set bs. u \<or> s < max 8 (unat n) + 12" using n by (simp only: aalloc_None)
  with e show ?thesis by auto
next
  fix p ca' bs'
  assume s: "aalloc (max 8 (unat n)) a bs = Some (unat p, bs')" and e: "ChunkAllocator_allocate ca n = Some (Inr (p, ca'))"
    and "p \<noteq> 0" "ca_rep ca' a bs'" "heap_bytes bs' = heap_bytes bs"
    and u: "set (used_blocks a bs') = insert (unat p, max 8 (unat n)) (set (used_blocks a bs))"
    and d: "\<forall>(q, m) \<in> set (used_blocks a bs). q + m \<le> unat p \<or> unat p + max 8 (unat n) \<le> q"
  have "\<not> (\<forall>(u, s) \<in> set bs. u \<or> s < max 8 (unat n) + 12)" using s aalloc_None by (metis option.distinct(1))
  moreover have "a + 12 \<le> unat p \<and> unat p + max 8 (unat n) \<le> a + heap_bytes bs"
    using used_bounds [of "unat p" "max 8 (unat n)" a bs'] u \<open>heap_bytes bs' = heap_bytes bs\<close> by simp
  ultimately show ?thesis
    using e \<open>p \<noteq> 0\<close> \<open>ca_rep ca' a bs'\<close> \<open>heap_bytes bs' = heap_bytes bs\<close> u d by (intro exI [of _ p] exI [of _ ca']) blast
qed

text \<open>A one page heap at 0x1000.\<close>

definition page_heap :: chunk_allocator where
  "page_heap = ChunkAllocator_initialize (ChunkAllocator_new Map.empty) 0x1000 0x2000"

lemma page_heap_rep: "ca_rep page_heap 4096 [(False, 4084)]"
  using ca_rep_initialize [of "0x1000" "0x2000" "ChunkAllocator_new Map.empty"] by (simp add: page_heap_def)

theorem chunk_allocate_correct_witness:
  "\<exists>p ca'. ChunkAllocator_allocate page_heap 100 = Some (Inr (p, ca')) \<and> p \<noteq> 0 \<and> 4108 \<le> unat p"
  using chunk_allocate_correct [OF page_heap_rep, of 100] by auto

text \<open>
  C5. Freeing a block in use returns its size, removes it and nothing else from the blocks in use,
  keeps the heap well-formed over the same area, and leaves no two adjacent free chunks.
\<close>

theorem chunk_free_correct:
  assumes "ca_rep ca a bs" and "(unat p, n) \<in> set (used_blocks a bs)"
  shows "\<exists>ca' bs'. ChunkAllocator_free ca p = Some (Inr (adr n, ca')) \<and> ca_rep ca' a bs' \<and> normal bs' \<and>
    heap_bytes bs' = heap_bytes bs \<and> set (used_blocks a bs') = set (used_blocks a bs) - {(unat p, n)}"
  by (rule chunk.free_spec [OF assms])

definition used_heap :: chunk_allocator where
  "used_heap = \<lparr>ca_first = 0x1000, ca_mem = Map.empty(0x1000 \<mapsto> \<lparr>ch_next = 0, ch_used = True, ch_size = 4084\<rparr>)\<rparr>"

theorem chunk_free_correct_witness:
  "\<exists>ca'. ChunkAllocator_free used_heap 0x100C = Some (Inr (4084, ca'))"
proof -
  have "ca_rep used_heap 4096 [(True, 4084)]"
    by (simp add: ca_rep_def used_heap_def heap_rep_Cons adr_numeral)
  from chunk_free_correct [OF this, of "0x100C" 4084] show ?thesis by (auto simp: adr_numeral)
qed

text \<open>
  C6. On a heap without adjacent free chunks, freeing the block an allocation has just returned
  restores the list of chunks the heap had before the allocation.
\<close>

theorem chunk_allocate_free_roundtrip:
  assumes "ca_rep ca a bs" and "normal bs" and "unat n + 12 < 2 ^ 32"
    and "ChunkAllocator_allocate ca n = Some (Inr (p, ca'))" and "p \<noteq> 0"
  shows "\<exists>ca''. ChunkAllocator_free ca' p = Some (Inr (adr (max 8 (unat n)), ca'')) \<and> ca_rep ca'' a bs"
  by (rule chunk.alloc_free [OF assms])

theorem chunk_allocate_free_roundtrip_witness:
  "\<exists>p ca' ca''. ChunkAllocator_allocate page_heap 100 = Some (Inr (p, ca')) \<and>
     ChunkAllocator_free ca' p = Some (Inr (100, ca'')) \<and> ca_rep ca'' 4096 [(False, 4084)]"
proof -
  obtain p ca' where p: "ChunkAllocator_allocate page_heap 100 = Some (Inr (p, ca'))" "p \<noteq> 0"
    using chunk.alloc_spec [OF page_heap_rep, of 100] by (auto simp: aalloc_None)
  from chunk_allocate_free_roundtrip [OF page_heap_rep _ _ p] p show ?thesis by (auto simp: adr_numeral)
qed

text \<open>
  C7. Expanding a well-formed heap by \<open>n\<close> bytes that follow it returns a well-formed heap over the
  longer area with the same blocks in use and no two adjacent free chunks.
\<close>

theorem chunk_expand_correct:
  assumes "ca_rep ca a bs" and "12 \<le> unat n" and "a + heap_bytes bs + unat n < 2 ^ 32"
  shows "\<exists>ca' bs'. ChunkAllocator_expand ca n = Some (Inr ca') \<and> ca_rep ca' a bs' \<and> normal bs' \<and>
    heap_bytes bs' = heap_bytes bs + unat n \<and> used_blocks a bs' = used_blocks a bs"
proof -
  obtain ca' where "ChunkAllocator_expand ca n = Some (Inr ca')" "ca_rep ca' a (amerge (bs @ [(False, unat n - 12)]))"
    using ca_rep_expand [OF assms] by blast
  then show ?thesis using assms(2)
    by (intro exI [of _ ca'] exI [of _ "amerge (bs @ [(False, unat n - 12)])"])
      (simp add: normal_amerge used_blocks_append)
qed

theorem chunk_expand_correct_witness:
  "\<exists>ca' bs'. ChunkAllocator_expand page_heap 0x1000 = Some (Inr ca') \<and> ca_rep ca' 4096 bs' \<and> heap_bytes bs' = 8192"
  using chunk_expand_correct [OF page_heap_rep, of "0x1000"] by auto

text \<open>
  The size check of \<open>allocate\<close> overflows: on a heap of one page a request of 0xFFFFFFF8
  bytes is granted, since the request plus the header size is 4 modulo 2^32.
\<close>

theorem chunk_allocate_overflow:
  "\<exists>ca'. ChunkAllocator_allocate page_heap 0xFFFFFFF8 = Some (Inr (0x100C, ca'))"
  by (simp add: ChunkAllocator_allocate_def page_heap_def ChunkAllocator_initialize_def ChunkAllocator_new_def
      CHUNK_ALLOCATOR_MINIMUM_ALLOCATION_SIZE_def allocate_loop.simps deref_def sizeof_ChunkHeader_def Let_def)

end
