(* ===== verification/KernelHeap.thy ===== *)
theory KernelHeap
  imports ChunkHeap Paging
begin

text \<open>
  The kernel heap (Kernel/Kernel/memory/KernelHeap.cpp), which is what \<open>new\<close> and \<open>delete\<close> call: a
  chunk allocator over an area that grows by 1 MB when no chunk fits, up to a limit, with physical
  pages mapped behind the new megabyte. The recursion of \<open>allocate\<close> and the mapping loop are partial
  functions here; the theorems show that they return.
\<close>

section \<open>Operations\<close>

definition KERNEL_HEAP_EXPAND_STEP :: u32 where
  "KERNEL_HEAP_EXPAND_STEP = 0x100000"

definition CONST_KERNEL_HEAP_MAXIMUM_END :: u32 where
  "CONST_KERNEL_HEAP_MAXIMUM_END = 0xE0000000"

record kernel_heap =
  kh_allocator :: chunk_allocator
  kh_heapStart :: u32
  kh_heapEnd :: u32
  kh_usedMemoryAmount :: u32
  kh_initialized :: bool
  kh_paging :: paging

definition KernelHeap_initialize :: "kernel_heap \<Rightarrow> u32 \<Rightarrow> u32 \<Rightarrow> kernel_heap" where
  "KernelHeap_initialize kh start end' =
     kh\<lparr>kh_allocator := ChunkAllocator_initialize (kh_allocator kh) start end',
        kh_heapStart := start, kh_heapEnd := end', kh_initialized := True\<rparr>"

text \<open>The loop over the pages of the new area; it answers false when a page cannot be had.\<close>

partial_function (option) expand_pages :: "paging \<Rightarrow> u32 \<Rightarrow> u32 \<Rightarrow> (bool \<times> paging) kres option" where
  "expand_pages pg virt limit =
     (if virt < limit
      then case PPallocator_allocate (pg_pp pg) of
             Inl e \<Rightarrow> Some (Inl e)
           | Inr (page, pp) \<Rightarrow>
               if page = 0 then Some (Inr (False, pg\<lparr>pg_pp := pp\<rparr>))
               else (case AddressSpace_map (pg\<lparr>pg_pp := pp\<rparr>) virt page
                            DEFAULT_KERNEL_TABLE_FLAGS DEFAULT_KERNEL_PAGE_FLAGS False of
                       Inl e \<Rightarrow> Some (Inl e)
                     | Inr (_, pg') \<Rightarrow> expand_pages pg' (virt + PAGE_SIZE) limit)
      else Some (Inr (True, pg)))"

definition KernelHeap_expandHeap :: "kernel_heap \<Rightarrow> (bool \<times> kernel_heap) kres option" where
  "KernelHeap_expandHeap kh =
     (if CONST_KERNEL_HEAP_MAXIMUM_END < kh_heapEnd kh then Some (Inr (False, kh))
      else case expand_pages (kh_paging kh) (kh_heapEnd kh) (kh_heapEnd kh + KERNEL_HEAP_EXPAND_STEP) of
             None \<Rightarrow> None
           | Some (Inl e) \<Rightarrow> Some (Inl e)
           | Some (Inr (False, pg)) \<Rightarrow> Some (Inr (False, kh\<lparr>kh_paging := pg\<rparr>))
           | Some (Inr (True, pg)) \<Rightarrow>
               (case ChunkAllocator_expand (kh_allocator kh) KERNEL_HEAP_EXPAND_STEP of
                  None \<Rightarrow> None
                | Some (Inl e) \<Rightarrow> Some (Inl e)
                | Some (Inr ca) \<Rightarrow>
                    Some (Inr (True, kh\<lparr>kh_paging := pg, kh_allocator := ca,
                                        kh_heapEnd := kh_heapEnd kh + KERNEL_HEAP_EXPAND_STEP\<rparr>))))"

partial_function (option) KernelHeap_allocate :: "kernel_heap \<Rightarrow> u32 \<Rightarrow> (u32 \<times> kernel_heap) kres option" where
  "KernelHeap_allocate kh size' =
     (if \<not> kh_initialized kh then Some (Inl (Panic ''tried to use uninitialized kernel heap''))
      else case ChunkAllocator_allocate (kh_allocator kh) size' of
             None \<Rightarrow> None
           | Some (Inl e) \<Rightarrow> Some (Inl e)
           | Some (Inr (allocated, ca)) \<Rightarrow>
               if allocated \<noteq> 0
               then Some (Inr (allocated, kh\<lparr>kh_allocator := ca, kh_usedMemoryAmount := kh_usedMemoryAmount kh + size'\<rparr>))
               else (case KernelHeap_expandHeap (kh\<lparr>kh_allocator := ca\<rparr>) of
                       None \<Rightarrow> None
                     | Some (Inl e) \<Rightarrow> Some (Inl e)
                     | Some (Inr (expanded, kh')) \<Rightarrow>
                         if expanded then KernelHeap_allocate kh' size'
                         else Some (Inl (Panic ''could not expand kernel heap''))))"

definition KernelHeap_free :: "kernel_heap \<Rightarrow> u32 \<Rightarrow> kernel_heap kres option" where
  "KernelHeap_free kh mem =
     (if \<not> kh_initialized kh then Some (Inl (Panic ''tried to use uninitialized kernel heap''))
      else case ChunkAllocator_free (kh_allocator kh) mem of
             None \<Rightarrow> None
           | Some (Inl e) \<Rightarrow> Some (Inl e)
           | Some (Inr (freed, ca)) \<Rightarrow>
               Some (Inr (kh\<lparr>kh_allocator := ca, kh_usedMemoryAmount := kh_usedMemoryAmount kh - freed\<rparr>)))"

definition KernelHeap_getUsedMemoryAmount :: "kernel_heap \<Rightarrow> u32" where
  "KernelHeap_getUsedMemoryAmount kh = kh_usedMemoryAmount kh"

section \<open>Growth\<close>

lemma expand_pages_returns:
  assumes "unat limit + 0x1000 < 2 ^ 32"
  shows "\<exists>r. expand_pages pg virt limit = Some r"
  using assms
proof (induction "unat limit - unat virt" arbitrary: pg virt rule: less_induct)
  case less
  show ?case
  proof (cases "virt < limit")
    case True
    then have v: "unat virt < unat limit" by (simp add: word_less_nat_alt)
    then have "unat (virt + PAGE_SIZE) = unat virt + 0x1000"
      using less.prems by (simp add: PAGE_SIZE_def unat_add_lem32)
    with less.hyps [of "virt + PAGE_SIZE"] v less.prems
    have "\<exists>r. expand_pages pg' (virt + PAGE_SIZE) limit = Some r" for pg' by simp
    then show ?thesis
      by (subst expand_pages.simps) (auto split: sum.splits prod.splits)
  qed (simp add: expand_pages.simps)
qed

text \<open>The heap whose chunk allocator manages the blocks \<open>bs\<close> from \<open>a\<close> to the heap's end.\<close>

definition kh_rep :: "kernel_heap \<Rightarrow> nat \<Rightarrow> block list \<Rightarrow> bool" where
  "kh_rep kh a bs \<longleftrightarrow> kh_initialized kh \<and> ca_rep (kh_allocator kh) a bs \<and> unat (kh_heapEnd kh) = a + heap_bytes bs"

lemma expandHeap_spec:
  assumes "kh_rep kh a bs"
  shows "\<exists>r. KernelHeap_expandHeap kh = Some r \<and>
    (\<forall>kh'. r = Inr (True, kh') \<longrightarrow> unat (kh_heapEnd kh) \<le> 0xE0000000 \<and> kh_usedMemoryAmount kh' = kh_usedMemoryAmount kh \<and>
       unat (kh_heapEnd kh') = unat (kh_heapEnd kh) + 0x100000 \<and>
       (\<exists>bs'. kh_rep kh' a bs' \<and> normal bs' \<and> used_blocks a bs' = used_blocks a bs))"
proof (cases "CONST_KERNEL_HEAP_MAXIMUM_END < kh_heapEnd kh")
  case True
  then show ?thesis by (simp add: KernelHeap_expandHeap_def)
next
  case False
  then have e: "unat (kh_heapEnd kh) \<le> 0xE0000000" by (simp add: CONST_KERNEL_HEAP_MAXIMUM_END_def word_less_nat_alt)
  then have s: "unat (kh_heapEnd kh + KERNEL_HEAP_EXPAND_STEP) = unat (kh_heapEnd kh) + 0x100000"
    by (simp add: KERNEL_HEAP_EXPAND_STEP_def unat_add_lem32)
  obtain r where p: "expand_pages (kh_paging kh) (kh_heapEnd kh) (kh_heapEnd kh + KERNEL_HEAP_EXPAND_STEP) = Some r"
    using expand_pages_returns e s by fastforce
  have step: "unat KERNEL_HEAP_EXPAND_STEP = 0x100000" by (simp add: KERNEL_HEAP_EXPAND_STEP_def)
  obtain ca where ca: "ChunkAllocator_expand (kh_allocator kh) KERNEL_HEAP_EXPAND_STEP = Some (Inr ca)"
      "ca_rep ca a (amerge (bs @ [(False, 0x100000 - 12)]))"
    using ca_rep_expand [of "kh_allocator kh" a bs KERNEL_HEAP_EXPAND_STEP] assms e step by (auto simp: kh_rep_def)
  let ?bs = "amerge (bs @ [(False, 0x100000 - 12)])"
  have b: "normal ?bs" "used_blocks a ?bs = used_blocks a bs" "heap_bytes ?bs = heap_bytes bs + 0x100000"
    by (simp_all add: normal_amerge used_blocks_append)
  show ?thesis
  proof (cases "\<exists>pg. r = Inr (True, pg)")
    case True
    then obtain pg where r: "r = Inr (True, pg)" by blast
    let ?kh = "kh\<lparr>kh_paging := pg, kh_allocator := ca, kh_heapEnd := kh_heapEnd kh + KERNEL_HEAP_EXPAND_STEP\<rparr>"
    have "KernelHeap_expandHeap kh = Some (Inr (True, ?kh))"
      using False p r ca(1) by (simp add: KernelHeap_expandHeap_def)
    moreover have "kh_rep ?kh a ?bs" using assms ca(2) b(3) s by (simp add: kh_rep_def)
    ultimately show ?thesis using e s b(1,2) by (intro exI [of _ "Inr (True, ?kh)"]) auto
  next
    case f: False
    then show ?thesis using False p
      by (auto simp: KernelHeap_expandHeap_def split: sum.splits prod.splits bool.splits)
  qed
qed

section \<open>Allocation\<close>

lemma KernelHeap_allocate_spec:
  assumes "kh_rep kh a bs" and "unat n + 12 < 2 ^ 32"
  shows "\<exists>r. KernelHeap_allocate kh n = Some r \<and>
    (\<forall>p kh'. r = Inr (p, kh') \<longrightarrow> p \<noteq> 0 \<and> kh_usedMemoryAmount kh' = kh_usedMemoryAmount kh + n \<and>
       (\<exists>bs'. kh_rep kh' a bs' \<and>
         set (used_blocks a bs') = insert (unat p, max 8 (unat n)) (set (used_blocks a bs)) \<and>
         (\<forall>(q, m) \<in> set (used_blocks a bs). q + m \<le> unat p \<or> unat p + max 8 (unat n) \<le> q)))"
  using assms(1)
proof (induction "0xE0100000 - unat (kh_heapEnd kh)" arbitrary: kh bs rule: less_induct)
  case less
  have rep: "ca_rep (kh_allocator kh) a bs" and ready: "kh_initialized kh" using less.prems by (simp_all add: kh_rep_def)
  from chunk.alloc_spec [OF rep assms(2)] show ?case
  proof (elim disjE exE conjE)
    fix p ca bs'
    assume al: "ChunkAllocator_allocate (kh_allocator kh) n = Some (Inr (p, ca))" "p \<noteq> 0"
      and bs': "ca_rep ca a bs'" "heap_bytes bs' = heap_bytes bs"
        "set (used_blocks a bs') = insert (unat p, max 8 (unat n)) (set (used_blocks a bs))"
        "\<forall>(q, m) \<in> set (used_blocks a bs). q + m \<le> unat p \<or> unat p + max 8 (unat n) \<le> q"
    let ?kh = "kh\<lparr>kh_allocator := ca, kh_usedMemoryAmount := kh_usedMemoryAmount kh + n\<rparr>"
    have "KernelHeap_allocate kh n = Some (Inr (p, ?kh))"
      using al ready by (subst KernelHeap_allocate.simps) simp
    moreover have "kh_rep ?kh a bs'" using less.prems bs'(1,2) by (simp add: kh_rep_def)
    ultimately show ?thesis using al(2) bs'(3,4) by (intro exI [of _ "Inr (p, ?kh)"]) auto
  next
    assume al: "ChunkAllocator_allocate (kh_allocator kh) n = Some (Inr (0, kh_allocator kh))"
    obtain r where r: "KernelHeap_expandHeap kh = Some r"
        "\<And>kh'. r = Inr (True, kh') \<Longrightarrow> unat (kh_heapEnd kh) \<le> 0xE0000000 \<and> kh_usedMemoryAmount kh' = kh_usedMemoryAmount kh \<and>
           unat (kh_heapEnd kh') = unat (kh_heapEnd kh) + 0x100000 \<and>
           (\<exists>bs'. kh_rep kh' a bs' \<and> normal bs' \<and> used_blocks a bs' = used_blocks a bs)"
      using expandHeap_spec [OF less.prems] by blast
    show ?thesis
    proof (cases "\<exists>kh'. r = Inr (True, kh')")
      case True
      then obtain kh' where kh': "r = Inr (True, kh')" by blast
      note facts = r(2) [OF kh']
      obtain bs' where bs': "kh_rep kh' a bs'" "used_blocks a bs' = used_blocks a bs" using facts by blast
      have eq: "KernelHeap_allocate kh n = KernelHeap_allocate kh' n"
        using al ready r(1) kh' by (subst KernelHeap_allocate.simps) simp
      have "0xE0100000 - unat (kh_heapEnd kh') < 0xE0100000 - unat (kh_heapEnd kh)" using facts by linarith
      from less.hyps [OF this bs'(1)] show ?thesis using facts unfolding eq bs'(2) by simp
    next
      case False
      have "\<exists>e. KernelHeap_allocate kh n = Some (Inl e)"
        using al ready r(1) False by (subst KernelHeap_allocate.simps) (auto split: sum.splits prod.splits bool.splits)
      then show ?thesis by auto
    qed
  qed
qed

lemma KernelHeap_free_spec:
  assumes "kh_rep kh a bs" and "(unat p, n) \<in> set (used_blocks a bs)"
  shows "\<exists>kh' bs'. KernelHeap_free kh p = Some (Inr kh') \<and> kh_rep kh' a bs' \<and> normal bs' \<and>
    kh_usedMemoryAmount kh' = kh_usedMemoryAmount kh - adr n \<and>
    set (used_blocks a bs') = set (used_blocks a bs) - {(unat p, n)}"
proof -
  have rep: "ca_rep (kh_allocator kh) a bs" using assms(1) by (simp add: kh_rep_def)
  obtain ca bs' where ca: "ChunkAllocator_free (kh_allocator kh) p = Some (Inr (adr n, ca))" "ca_rep ca a bs'" "normal bs'"
      "heap_bytes bs' = heap_bytes bs" "set (used_blocks a bs') = set (used_blocks a bs) - {(unat p, n)}"
    using chunk.free_spec [OF rep assms(2)] by blast
  let ?kh = "kh\<lparr>kh_allocator := ca, kh_usedMemoryAmount := kh_usedMemoryAmount kh - adr n\<rparr>"
  have "KernelHeap_free kh p = Some (Inr ?kh)" using assms(1) ca(1) by (simp add: KernelHeap_free_def kh_rep_def)
  moreover have "kh_rep ?kh a bs'" using assms(1) ca(2,4) by (simp add: kh_rep_def)
  ultimately show ?thesis using ca(3,5) by (intro exI [of _ ?kh] exI [of _ bs']) simp
qed

section \<open>The interface of new and delete\<close>

text \<open>
  What the rest of the kernel relies on. A heap owns a set of blocks, each an address and a
  length; \<open>new\<close> adds a block that overlaps none of them or stops the kernel, and it never answers 0.
\<close>

locale kernel_memory =
  fixes new :: "'h \<Rightarrow> u32 \<Rightarrow> (u32 \<times> 'h) kres option"
    and delete :: "'h \<Rightarrow> u32 \<Rightarrow> 'h kres option"
    and owns :: "'h \<Rightarrow> (nat \<times> nat) set \<Rightarrow> bool"
  assumes new_returns: "owns h B \<Longrightarrow> unat n + 12 < 2 ^ 32 \<Longrightarrow> \<exists>r. new h n = Some r"
    and new_fresh: "owns h B \<Longrightarrow> unat n + 12 < 2 ^ 32 \<Longrightarrow> new h n = Some (Inr (p, h')) \<Longrightarrow>
      p \<noteq> 0 \<and> owns h' (insert (unat p, max 8 (unat n)) B) \<and>
      (\<forall>(q, m) \<in> B. q + m \<le> unat p \<or> unat p + max 8 (unat n) \<le> q)"
    and delete_ok: "owns h B \<Longrightarrow> (unat p, m) \<in> B \<Longrightarrow>
      \<exists>h'. delete h p = Some (Inr h') \<and> owns h' (B - {(unat p, m)})"
    and owned_bounds: "owns h B \<Longrightarrow> (q, m) \<in> B \<Longrightarrow> 0 < q \<and> q + m < 2 ^ 32"
begin

lemma new_address_fresh:
  assumes "owns h B" and "unat n + 12 < 2 ^ 32" and "new h n = Some (Inr (p, h'))"
    and "\<forall>(q, m) \<in> B. 0 < m"
  shows "unat p \<notin> fst ` B"
proof
  assume "unat p \<in> fst ` B"
  then obtain m where m: "(unat p, m) \<in> B" by auto
  then have "unat p + m \<le> unat p \<or> unat p + max 8 (unat n) \<le> unat p" using new_fresh [OF assms(1-3)] by blast
  moreover have "0 < m" using assms(4) m by blast
  ultimately show False by simp
qed

end

definition kh_owns :: "kernel_heap \<Rightarrow> (nat \<times> nat) set \<Rightarrow> bool" where
  "kh_owns kh B \<longleftrightarrow> (\<exists>a bs. kh_rep kh a bs \<and> B = set (used_blocks a bs))"

interpretation kmem: kernel_memory KernelHeap_allocate KernelHeap_free kh_owns
proof unfold_locales
  fix h B n p h' q m
  assume "kh_owns h B"
  then obtain a bs where rep: "kh_rep h a bs" and B: "B = set (used_blocks a bs)" by (auto simp: kh_owns_def)
  show "\<exists>r. KernelHeap_allocate h n = Some r" if "unat n + 12 < 2 ^ 32"
    using KernelHeap_allocate_spec [OF rep that] by blast
  show "p \<noteq> 0 \<and> kh_owns h' (insert (unat p, max 8 (unat n)) B) \<and>
      (\<forall>(q, m) \<in> B. q + m \<le> unat p \<or> unat p + max 8 (unat n) \<le> q)"
    if n: "unat n + 12 < 2 ^ 32" and r: "KernelHeap_allocate h n = Some (Inr (p, h'))"
  proof -
    obtain r' where r': "KernelHeap_allocate h n = Some r'"
        "\<And>p kh'. r' = Inr (p, kh') \<Longrightarrow> p \<noteq> 0 \<and> (\<exists>bs'. kh_rep kh' a bs' \<and>
           set (used_blocks a bs') = insert (unat p, max 8 (unat n)) (set (used_blocks a bs)) \<and>
           (\<forall>(q, m) \<in> set (used_blocks a bs). q + m \<le> unat p \<or> unat p + max 8 (unat n) \<le> q))"
      using KernelHeap_allocate_spec [OF rep n] by blast
    have "r' = Inr (p, h')" using r r'(1) by simp
    note facts = r'(2) [OF this]
    obtain bs' where bs': "kh_rep h' a bs'" "set (used_blocks a bs') = insert (unat p, max 8 (unat n)) (set (used_blocks a bs))"
        "\<forall>(q, m) \<in> set (used_blocks a bs). q + m \<le> unat p \<or> unat p + max 8 (unat n) \<le> q"
      using facts by (elim conjE exE)
    have "kh_owns h' (insert (unat p, max 8 (unat n)) B)"
      unfolding kh_owns_def B by (intro exI conjI, rule bs'(1), rule bs'(2) [symmetric])
    with facts bs'(3) show ?thesis unfolding B by (intro conjI) (elim conjE)
  qed
  show "\<exists>h'. KernelHeap_free h p = Some (Inr h') \<and> kh_owns h' (B - {(unat p, m)})" if "(unat p, m) \<in> B"
  proof -
    note mem = that [unfolded B]
    obtain kh' bs' where f: "KernelHeap_free h p = Some (Inr kh')" "kh_rep kh' a bs'"
        "set (used_blocks a bs') = set (used_blocks a bs) - {(unat p, m)}"
      using KernelHeap_free_spec [OF rep mem] by (elim exE conjE)
    have "kh_owns kh' (B - {(unat p, m)})"
      unfolding kh_owns_def B by (intro exI conjI, rule f(2), rule f(3) [symmetric])
    with f(1) show ?thesis by (intro exI conjI)
  qed
  show "0 < q \<and> q + m < 2 ^ 32" if "(q, m) \<in> B"
    using used_bounds [OF that [unfolded B]] rep by (auto simp: kh_rep_def ca_rep_def)
qed

section \<open>Properties\<close>


text \<open>A heap of one page at 0x1000 in an otherwise empty address space.\<close>

definition small_kernel_heap :: kernel_heap where
  "small_kernel_heap = KernelHeap_initialize
     \<lparr>kh_allocator = ChunkAllocator_new Map.empty, kh_heapStart = 0, kh_heapEnd = 0, kh_usedMemoryAmount = 0,
      kh_initialized = False, kh_paging = empty_space\<rparr> 0x1000 0x2000"

lemma small_kernel_heap_rep: "kh_rep small_kernel_heap 4096 [(False, 4084)]"
  using page_heap_rep by (simp add: kh_rep_def small_kernel_heap_def KernelHeap_initialize_def page_heap_def)


text \<open>
  The heap's usage counter does not survive a pair of \<open>new\<close> and \<open>delete\<close>: allocating adds the
  requested size, freeing subtracts the size of the chunk, which is never below 8 bytes. One block of
  a single byte, allocated and freed, leaves the counter 7 below its value, modulo 2^32.
\<close>

theorem kernel_heap_used_drift:
  assumes "kh_rep kh a bs" and "unat n + 12 < 2 ^ 32" and "KernelHeap_allocate kh n = Some (Inr (p, kh'))"
  shows "\<exists>kh''. KernelHeap_free kh' p = Some (Inr kh'') \<and>
    KernelHeap_getUsedMemoryAmount kh'' = KernelHeap_getUsedMemoryAmount kh + n - adr (max 8 (unat n))"
proof -
  obtain bs' where bs': "kh_usedMemoryAmount kh' = kh_usedMemoryAmount kh + n" "kh_rep kh' a bs'"
      "(unat p, max 8 (unat n)) \<in> set (used_blocks a bs')"
    using KernelHeap_allocate_spec [OF assms(1,2)] assms(3) by auto
  from KernelHeap_free_spec [OF this(2,3)] this(1) show ?thesis
    by (auto simp: KernelHeap_getUsedMemoryAmount_def)
qed

theorem kernel_heap_used_drift_witness:
  "\<exists>p kh' kh''. KernelHeap_allocate small_kernel_heap 1 = Some (Inr (p, kh')) \<and>
     KernelHeap_free kh' p = Some (Inr kh'') \<and> KernelHeap_getUsedMemoryAmount kh'' = 0xFFFFFFF9"
proof -
  have "kh_initialized small_kernel_heap" "kh_allocator small_kernel_heap = page_heap"
    by (simp_all add: small_kernel_heap_def KernelHeap_initialize_def page_heap_def)
  moreover obtain p ca where "ChunkAllocator_allocate page_heap 1 = Some (Inr (p, ca))" "p \<noteq> 0"
    using chunk.alloc_spec [OF page_heap_rep, of 1] by (auto simp: aalloc_None)
  ultimately obtain kh' where a: "KernelHeap_allocate small_kernel_heap 1 = Some (Inr (p, kh'))"
    by (subst (asm) KernelHeap_allocate.simps) (simp add: KernelHeap_allocate.simps)
  have "KernelHeap_getUsedMemoryAmount small_kernel_heap = 0"
    by (simp add: small_kernel_heap_def KernelHeap_initialize_def KernelHeap_getUsedMemoryAmount_def)
  with kernel_heap_used_drift [OF small_kernel_heap_rep _ a] a show ?thesis by (auto simp: adr_numeral)
qed

end
