(* ===== verification/MessagePool.thy ===== *)
theory MessagePool
  imports AddressStack KernelHeap
begin

text \<open>
  The memory of messages (the first half of Kernel/Kernel/tasking/communication/MessageController.cpp):
  six address stacks hold released buffers of the six sizes messages come in, refilled from the kernel
  heap 64 buffers at a time. \<open>getFromPool\<close> calls itself until the pool has a buffer; that it returns
  rests on the laws of \<open>new\<close> (locale \<open>kernel_memory\<close>) and of the stacks (locale \<open>address_lifo\<close>).
\<close>

section \<open>Pools\<close>

datatype pool = messageMemoryPool32 | messageMemoryPool64 | messageMemoryPool256 | messageMemoryPool2048 |
  messageMemoryPool4096 | messageMemoryPool8192

definition MESSAGE_QUEUE_SIZE :: nat where
  "MESSAGE_QUEUE_SIZE = 64"

definition sizeof_MessageHeader :: u32 where
  "sizeof_MessageHeader = 20"

record msg_memory =
  mm_pool :: "pool \<Rightarrow> address_stack"
  mm_heap :: kernel_heap

text \<open>The bucket size the code passes along with each pool.\<close>

fun pool_size :: "pool \<Rightarrow> u32" where
  "pool_size messageMemoryPool32 = 32"
| "pool_size messageMemoryPool64 = 64"
| "pool_size messageMemoryPool256 = 256"
| "pool_size messageMemoryPool2048 = 2048"
| "pool_size messageMemoryPool4096 = 4096"
| "pool_size messageMemoryPool8192 = 8192"

definition pool_push :: "msg_memory \<Rightarrow> pool \<Rightarrow> u32 \<Rightarrow> msg_memory" where
  "pool_push mm c a = mm\<lparr>mm_pool := (mm_pool mm)(c := AddressStack_push (mm_pool mm c) a)\<rparr>"

text \<open>The loop of \<open>refill\<close>, with the number of rounds left.\<close>

fun refill_loop :: "nat \<Rightarrow> msg_memory \<Rightarrow> pool \<Rightarrow> u32 \<Rightarrow> msg_memory kres option" where
  "refill_loop 0 mm c size' = Some (Inr mm)"
| "refill_loop (Suc n) mm c size' =
     (case KernelHeap_allocate (mm_heap mm) size' of
        None \<Rightarrow> None
      | Some (Inl e) \<Rightarrow> Some (Inl e)
      | Some (Inr (addr, h)) \<Rightarrow>
          if addr = 0 then Some (Inr (mm\<lparr>mm_heap := h\<rparr>))
          else refill_loop n (pool_push (mm\<lparr>mm_heap := h\<rparr>) c addr) c size')"

definition refill :: "msg_memory \<Rightarrow> pool \<Rightarrow> u32 \<Rightarrow> msg_memory kres option" where
  "refill mm c size' = refill_loop MESSAGE_QUEUE_SIZE mm c size'"

partial_function (option) getFromPool :: "msg_memory \<Rightarrow> pool \<Rightarrow> u32 \<Rightarrow> (u32 \<times> msg_memory) kres option" where
  "getFromPool mm c size' =
     (let (addr, s) = AddressStack_pop (mm_pool mm c); mm1 = mm\<lparr>mm_pool := (mm_pool mm)(c := s)\<rparr> in
      if addr = 0
      then (case refill mm1 c size' of
              None \<Rightarrow> None
            | Some (Inl e) \<Rightarrow> Some (Inl e)
            | Some (Inr mm2) \<Rightarrow> getFromPool mm2 c size')
      else Some (Inr (addr, mm1)))"

text \<open>The pool for a size, by the chain of comparisons that \<open>get\<close> and \<open>release\<close> share.\<close>

definition pool_of :: "u32 \<Rightarrow> pool option" where
  "pool_of size' =
     (if size' < 32 then Some messageMemoryPool32
      else if size' < 64 then Some messageMemoryPool64
      else if size' < 256 then Some messageMemoryPool256
      else if size' < 2048 then Some messageMemoryPool2048
      else if size' < 4096 then Some messageMemoryPool4096
      else if size' < 8192 then Some messageMemoryPool8192
      else None)"

definition msg_get :: "msg_memory \<Rightarrow> u32 \<Rightarrow> (u32 \<times> msg_memory) kres option" where
  "msg_get mm size' = (case pool_of size' of None \<Rightarrow> Some (Inr (0, mm)) | Some c \<Rightarrow> getFromPool mm c (pool_size c))"

text \<open>\<open>len\<close> is the length field the code reads from the message at \<open>msg\<close>.\<close>

definition msg_release :: "msg_memory \<Rightarrow> u32 \<Rightarrow> u32 \<Rightarrow> msg_memory" where
  "msg_release mm msg len =
     (case pool_of (sizeof_MessageHeader + len) of None \<Rightarrow> mm | Some c \<Rightarrow> pool_push mm c msg)"

section \<open>Invariant\<close>

text \<open>
  \<open>L\<close> is the set of blocks handed out, each an address with its length. They and the buffers in
  the pools are different blocks the heap has allocated.
\<close>

definition pooled :: "msg_memory \<Rightarrow> pool \<Rightarrow> u32 set" where
  "pooled mm c = set (as_list (mm_pool mm c))"

definition mm_inv :: "msg_memory \<Rightarrow> (u32 \<times> nat) set \<Rightarrow> bool" where
  "mm_inv mm L \<longleftrightarrow>
     (\<exists>B. kh_owns (mm_heap mm) B \<and> (\<forall>(p, n) \<in> L. 0 < n \<and> (unat p, n) \<in> B) \<and>
        (\<forall>c. \<forall>p \<in> pooled mm c. (unat p, unat (pool_size c)) \<in> B)) \<and>
     (\<forall>c. as_inv (mm_pool mm c) \<and> distinct (as_list (mm_pool mm c)) \<and> 0 \<notin> pooled mm c \<and> pooled mm c \<inter> fst ` L = {}) \<and>
     (\<forall>c d. c \<noteq> d \<longrightarrow> pooled mm c \<inter> pooled mm d = {})"

lemma pool_size_pos: "8 < unat (pool_size c)" "unat (pool_size c) + 12 < 2 ^ 32"
  by (cases c; simp)+

lemma pool_of_fits: "pool_of n = Some c \<Longrightarrow> unat n < unat (pool_size c)"
  by (auto simp: pool_of_def word_less_nat_alt split: if_splits)

lemma pool_of_None: "pool_of n = None \<longleftrightarrow> 8192 \<le> unat n"
  by (auto simp: pool_of_def word_less_nat_alt)

lemma pooled_push: "as_inv (mm_pool mm c) \<Longrightarrow>
    pooled (pool_push mm c a) d = (if c = d then insert a (pooled mm c) else pooled mm d)"
  by (auto simp: pooled_def pool_push_def as_list_push)

lemma mm_inv_heap:
  assumes "mm_inv mm L"
  shows "\<exists>B. kh_owns (mm_heap mm) B \<and> (\<forall>p n. (p, n) \<in> L \<longrightarrow> 0 < n \<and> (unat p, n) \<in> B) \<and>
    (\<forall>c p. p \<in> pooled mm c \<longrightarrow> (unat p, unat (pool_size c)) \<in> B)"
proof -
  have "\<exists>B. kh_owns (mm_heap mm) B \<and> (\<forall>(p, n) \<in> L. 0 < n \<and> (unat p, n) \<in> B) \<and>
      (\<forall>c. \<forall>p \<in> pooled mm c. (unat p, unat (pool_size c)) \<in> B)"
    using assms unfolding mm_inv_def by (rule conjunct1)
  then show ?thesis by auto
qed

lemma kernel_new:
  assumes "mm_inv mm L" and "8 \<le> unat n" and "unat n + 12 < 2 ^ 32"
  shows "\<exists>r. KernelHeap_allocate (mm_heap mm) n = Some r"
    "KernelHeap_allocate (mm_heap mm) n = Some (Inr (p, h)) \<Longrightarrow>
       p \<noteq> 0 \<and> p \<notin> fst ` L \<and> (\<forall>c. p \<notin> pooled mm c) \<and> mm_inv (mm\<lparr>mm_heap := h\<rparr>) (insert (p, unat n) L)"
proof -
  obtain B where B: "kh_owns (mm_heap mm) B" "\<And>q m. (q, m) \<in> L \<Longrightarrow> 0 < m \<and> (unat q, m) \<in> B"
      "\<And>c q. q \<in> pooled mm c \<Longrightarrow> (unat q, unat (pool_size c)) \<in> B"
    using mm_inv_heap [OF assms(1)] by blast
  show "\<exists>r. KernelHeap_allocate (mm_heap mm) n = Some r" by (rule kmem.new_returns [OF B(1) assms(3)])
  assume r: "KernelHeap_allocate (mm_heap mm) n = Some (Inr (p, h))"
  from kmem.new_fresh [OF B(1) assms(3) r] assms(2)
  have f: "p \<noteq> 0" "kh_owns h (insert (unat p, unat n) B)" "\<And>q m. (q, m) \<in> B \<Longrightarrow> q + m \<le> unat p \<or> unat p + unat n \<le> q"
    by (auto simp: max_def)
  have new: "(unat p, m) \<notin> B" if "0 < m" for m using f(3) [of "unat p" m] that assms(2) by auto
  have p1: "p \<notin> fst ` L"
  proof
    assume "p \<in> fst ` L"
    then obtain m where "(p, m) \<in> L" by auto
    from B(2) [OF this] new show False by blast
  qed
  have p2: "p \<notin> pooled mm c" for c
    using new [of "unat (pool_size c)"] B(3) [of p c] pool_size_pos(1) [of c] by auto
  have po: "pooled (mm\<lparr>mm_heap := h\<rparr>) c = pooled mm c" for c by (simp add: pooled_def)
  have "\<exists>B. kh_owns (mm_heap (mm\<lparr>mm_heap := h\<rparr>)) B \<and> (\<forall>(q, m) \<in> insert (p, unat n) L. 0 < m \<and> (unat q, m) \<in> B) \<and>
      (\<forall>c. \<forall>p \<in> pooled mm c. (unat p, unat (pool_size c)) \<in> B)"
    by (rule exI [of _ "insert (unat p, unat n) B"]) (use f(2) B(2,3) assms(2) in auto)
  moreover have "\<forall>c. as_inv (mm_pool mm c) \<and> distinct (as_list (mm_pool mm c)) \<and> 0 \<notin> pooled mm c \<and>
      pooled mm c \<inter> fst ` insert (p, unat n) L = {}" "\<forall>c d. c \<noteq> d \<longrightarrow> pooled mm c \<inter> pooled mm d = {}"
    using assms(1) p2 by (simp_all add: mm_inv_def)
  ultimately have "mm_inv (mm\<lparr>mm_heap := h\<rparr>) (insert (p, unat n) L)"
    unfolding mm_inv_def po by simp
  with f(1) p1 p2 show "p \<noteq> 0 \<and> p \<notin> fst ` L \<and> (\<forall>c. p \<notin> pooled mm c) \<and> mm_inv (mm\<lparr>mm_heap := h\<rparr>) (insert (p, unat n) L)"
    by blast
qed

lemma mm_inv_push:
  assumes "mm_inv mm (insert (p, unat (pool_size c)) L)" and "p \<noteq> 0" and "p \<notin> fst ` L"
  shows "mm_inv (pool_push mm c p) L"
proof -
  have a: "\<And>d. as_inv (mm_pool mm d)" using assms(1) by (simp add: mm_inv_def)
  have l: "as_list (mm_pool (pool_push mm c p) d) = (if d = c then p # as_list (mm_pool mm c) else as_list (mm_pool mm d))" for d
    by (simp add: pool_push_def as_list_push a)
  have i: "as_inv (mm_pool (pool_push mm c p) d)" for d by (simp add: pool_push_def a as_inv_push)
  have h: "mm_heap (pool_push mm c p) = mm_heap mm" by (simp add: pool_push_def)
  have n: "\<And>d. p \<notin> pooled mm d" using assms(1) by (auto simp: mm_inv_def)
  show ?thesis
    unfolding mm_inv_def
  proof (intro conjI allI impI)
    show "\<exists>B. kh_owns (mm_heap (pool_push mm c p)) B \<and> (\<forall>(p, n) \<in> L. 0 < n \<and> (unat p, n) \<in> B) \<and>
        (\<forall>d. \<forall>q \<in> pooled (pool_push mm c p) d. (unat q, unat (pool_size d)) \<in> B)"
      using assms(1) unfolding mm_inv_def h pooled_push [OF a] by auto
    fix d
    show "as_inv (mm_pool (pool_push mm c p) d)" by (rule i)
    show "distinct (as_list (mm_pool (pool_push mm c p) d))" using assms(1) n [of c] by (auto simp: l mm_inv_def pooled_def)
    show "0 \<notin> pooled (pool_push mm c p) d" using assms(1,2) by (auto simp: pooled_push [OF a] mm_inv_def)
    show "pooled (pool_push mm c p) d \<inter> fst ` L = {}" using assms(1,3) by (auto simp: pooled_push [OF a] mm_inv_def)
    fix e assume "d \<noteq> e"
    then have "pooled mm d \<inter> pooled mm e = {}" using assms(1) by (simp add: mm_inv_def)
    with \<open>d \<noteq> e\<close> n show "pooled (pool_push mm c p) d \<inter> pooled (pool_push mm c p) e = {}"
      by (auto simp: pooled_push [OF a])
  qed
qed

section \<open>Taking and returning buffers\<close>

lemma refill_loop_spec:
  "mm_inv mm L \<Longrightarrow> \<exists>r. refill_loop n mm c (pool_size c) = Some r \<and>
     (\<forall>mm'. r = Inr mm' \<longrightarrow> mm_inv mm' L \<and> pooled mm c \<subseteq> pooled mm' c \<and> (0 < n \<longrightarrow> pooled mm' c \<noteq> {}))"
proof (induction n arbitrary: mm)
  case 0
  then show ?case by simp
next
  case (Suc n)
  have sz: "8 \<le> unat (pool_size c)" using pool_size_pos(1) [of c] by simp
  note new = kernel_new [OF Suc.prems sz pool_size_pos(2)]
  obtain r where r: "KernelHeap_allocate (mm_heap mm) (pool_size c) = Some r" using new(1) by blast
  show ?case
  proof (cases r)
    case (Inl e)
    then show ?thesis using r by simp
  next
    case (Inr x)
    obtain p h where x: "r = Inr (p, h)" using Inr by (cases x) auto
    let ?mm = "pool_push (mm\<lparr>mm_heap := h\<rparr>) c p"
    from new(2) [OF r [unfolded x]] have p: "p \<noteq> 0" "p \<notin> fst ` L" "mm_inv (mm\<lparr>mm_heap := h\<rparr>) (insert (p, unat (pool_size c)) L)"
      by blast+
    have inv: "mm_inv ?mm L" by (rule mm_inv_push [OF p(3,1,2)])
    have po: "pooled ?mm c = insert p (pooled mm c)"
      using pooled_push [of "mm\<lparr>mm_heap := h\<rparr>" c p c] p(3) by (simp add: mm_inv_def) (simp add: pooled_def)
    have "refill_loop (Suc n) mm c (pool_size c) = refill_loop n ?mm c (pool_size c)" using r x p(1) by simp
    with Suc.IH [OF inv] po show ?thesis by auto
  qed
qed

lemma mm_inv_pop:
  assumes "mm_inv mm L" and "as_list (mm_pool mm c) = a # as"
  shows "\<exists>s. AddressStack_pop (mm_pool mm c) = (a, s) \<and> a \<noteq> 0 \<and> a \<notin> fst ` L \<and>
    mm_inv (mm\<lparr>mm_pool := (mm_pool mm)(c := s)\<rparr>) (insert (a, unat (pool_size c)) L)"
proof -
  define s where "s = snd (AddressStack_pop (mm_pool mm c))"
  have a: "as_inv (mm_pool mm d)" for d using assms(1) by (simp add: mm_inv_def)
  have s: "AddressStack_pop (mm_pool mm c) = (a, s)" "as_list s = as" "as_inv s"
    using ast.pop_Cons [OF a assms(2)] ast.invar_pop [OF a] by (auto simp: s_def prod_eq_iff)
  let ?mm = "mm\<lparr>mm_pool := (mm_pool mm)(c := s)\<rparr>"
  have "distinct (as_list (mm_pool mm c))" using assms(1) by (simp add: mm_inv_def)
  then have old: "pooled mm c = insert a (set as)" "distinct (a # as)" using assms(2) by (simp_all add: pooled_def)
  have po: "pooled ?mm d = (if d = c then set as else pooled mm d)" for d by (simp add: pooled_def s(2))
  have all: "\<And>d. 0 \<notin> pooled mm d" "\<And>d. pooled mm d \<inter> fst ` L = {}" "\<And>d e. d \<noteq> e \<Longrightarrow> pooled mm d \<inter> pooled mm e = {}"
    using assms(1) by (simp_all add: mm_inv_def)
  have na: "a \<notin> pooled ?mm d" for d using all(3) [of c d] old by (auto simp: po)
  obtain B where B: "kh_owns (mm_heap mm) B" "\<And>q m. (q, m) \<in> L \<Longrightarrow> 0 < m \<and> (unat q, m) \<in> B"
      "\<And>c q. q \<in> pooled mm c \<Longrightarrow> (unat q, unat (pool_size c)) \<in> B"
    using mm_inv_heap [OF assms(1)] by blast
  have sub: "pooled ?mm d \<subseteq> pooled mm d" for d using old by (auto simp: po)
  have "mm_inv ?mm (insert (a, unat (pool_size c)) L)"
    unfolding mm_inv_def
  proof (intro conjI allI impI)
    show "\<exists>B. kh_owns (mm_heap ?mm) B \<and> (\<forall>(p, n) \<in> insert (a, unat (pool_size c)) L. 0 < n \<and> (unat p, n) \<in> B) \<and>
        (\<forall>d. \<forall>p \<in> pooled ?mm d. (unat p, unat (pool_size d)) \<in> B)"
    proof (intro exI [of _ B] conjI)
      show "\<forall>d. \<forall>p \<in> pooled ?mm d. (unat p, unat (pool_size d)) \<in> B" using B(3) sub by blast
      show "\<forall>(p, n) \<in> insert (a, unat (pool_size c)) L. 0 < n \<and> (unat p, n) \<in> B"
        using B(2) B(3) [of a c] old(1) pool_size_pos(1) [of c] by auto
    qed (simp add: B(1))
    fix d
    show "as_inv (mm_pool ?mm d)" using a s(3) by simp
    show "distinct (as_list (mm_pool ?mm d))" using old(2) s(2) assms(1) by (simp add: mm_inv_def)
    show "0 \<notin> pooled ?mm d" using all(1) sub by blast
    show "pooled ?mm d \<inter> fst ` insert (a, unat (pool_size c)) L = {}" using all(2) [of d] sub [of d] na [of d] by auto
    fix e assume "d \<noteq> e"
    then show "pooled ?mm d \<inter> pooled ?mm e = {}" using all(3) [of d e] sub [of d] sub [of e] by blast
  qed
  moreover have "a \<noteq> 0" "a \<notin> fst ` L" using all(1,2) [of c] old(1) by auto
  ultimately show ?thesis using s(1) by blast
qed

lemma getFromPool_nonempty:
  assumes "mm_inv mm L" and "pooled mm c \<noteq> {}"
  shows "\<exists>p mm'. getFromPool mm c (pool_size c) = Some (Inr (p, mm')) \<and> p \<noteq> 0 \<and> p \<notin> fst ` L \<and>
    mm_inv mm' (insert (p, unat (pool_size c)) L)"
proof -
  obtain a as where "as_list (mm_pool mm c) = a # as" using assms(2) by (cases "as_list (mm_pool mm c)") (auto simp: pooled_def)
  from mm_inv_pop [OF assms(1) this] show ?thesis by (subst getFromPool.simps) auto
qed

lemma getFromPool_spec:
  assumes "mm_inv mm L"
  shows "\<exists>r. getFromPool mm c (pool_size c) = Some r \<and>
    (\<forall>p mm'. r = Inr (p, mm') \<longrightarrow> p \<noteq> 0 \<and> p \<notin> fst ` L \<and> mm_inv mm' (insert (p, unat (pool_size c)) L))"
proof (cases "pooled mm c = {}")
  case False
  then show ?thesis using getFromPool_nonempty [OF assms] by fastforce
next
  case True
  then have nil: "as_list (mm_pool mm c) = []" by (simp add: pooled_def)
  define s where "s = snd (AddressStack_pop (mm_pool mm c))"
  have a: "as_inv (mm_pool mm d)" for d using assms by (simp add: mm_inv_def)
  have s: "AddressStack_pop (mm_pool mm c) = (0, s)" "as_list s = []" "as_inv s"
    using ast.pop_Nil [OF a nil] ast.invar_pop [OF a] by (auto simp: s_def prod_eq_iff)
  let ?mm = "mm\<lparr>mm_pool := (mm_pool mm)(c := s)\<rparr>"
  have po: "pooled ?mm d = pooled mm d" for d by (simp add: pooled_def s(2) nil)
  have inv: "mm_inv ?mm L" using assms s(2,3) unfolding mm_inv_def po by simp
  have eq: "getFromPool mm c (pool_size c) =
      (case refill ?mm c (pool_size c) of None \<Rightarrow> None | Some (Inl e) \<Rightarrow> Some (Inl e)
       | Some (Inr mm2) \<Rightarrow> getFromPool mm2 c (pool_size c))"
    by (subst getFromPool.simps) (simp add: s(1))
  obtain r where r: "refill ?mm c (pool_size c) = Some r" "\<And>mm'. r = Inr mm' \<Longrightarrow> mm_inv mm' L \<and> pooled mm' c \<noteq> {}"
    using refill_loop_spec [OF inv, of MESSAGE_QUEUE_SIZE c] by (auto simp: refill_def MESSAGE_QUEUE_SIZE_def)
  show ?thesis
  proof (cases r)
    case (Inl e)
    then show ?thesis using eq r(1) by simp
  next
    case (Inr mm2)
    with r(2) getFromPool_nonempty [of mm2 L c] eq r(1) show ?thesis by fastforce
  qed
qed

lemma msg_release_inv:
  assumes "mm_inv mm (insert (p, unat (pool_size c)) L)" and "p \<noteq> 0" and "p \<notin> fst ` L"
    and "pool_of (sizeof_MessageHeader + len) = Some c"
  shows "mm_inv (msg_release mm p len) L"
  using mm_inv_push [OF assms(1-3)] assms(4) by (simp add: msg_release_def)

lemma kernel_delete:
  assumes "mm_inv mm (insert (p, n) L)" and "p \<notin> fst ` L"
  shows "\<exists>h. KernelHeap_free (mm_heap mm) p = Some (Inr h) \<and> mm_inv (mm\<lparr>mm_heap := h\<rparr>) L"
proof -
  obtain B where B: "kh_owns (mm_heap mm) B" "\<And>q m. (q, m) \<in> insert (p, n) L \<Longrightarrow> 0 < m \<and> (unat q, m) \<in> B"
      "\<And>c q. q \<in> pooled mm c \<Longrightarrow> (unat q, unat (pool_size c)) \<in> B"
    using mm_inv_heap [OF assms(1)] by blast
  obtain h where h: "KernelHeap_free (mm_heap mm) p = Some (Inr h)" "kh_owns h (B - {(unat p, n)})"
    using kmem.delete_ok [OF B(1), of p n] B(2) by blast
  have po: "pooled (mm\<lparr>mm_heap := h\<rparr>) c = pooled mm c" for c by (simp add: pooled_def)
  have np: "p \<notin> pooled mm c" for c using assms(1) by (auto simp: mm_inv_def)
  have "(unat q, m) \<in> B - {(unat p, n)} \<and> 0 < m" if "(q, m) \<in> L" for q m
  proof -
    have "q \<noteq> p" using that assms(2) by force
    then show ?thesis using B(2) [of q m] that by (simp add: word_unat_eq_iff)
  qed
  moreover have "(unat q, unat (pool_size c)) \<in> B - {(unat p, n)}" if "q \<in> pooled mm c" for c q
  proof -
    have "q \<noteq> p" using that np by blast
    then show ?thesis using B(3) [OF that] by (simp add: word_unat_eq_iff)
  qed
  ultimately have "\<exists>B. kh_owns h B \<and> (\<forall>(p, n) \<in> L. 0 < n \<and> (unat p, n) \<in> B) \<and>
      (\<forall>c. \<forall>p \<in> pooled mm c. (unat p, unat (pool_size c)) \<in> B)"
    using h(2) by (intro exI [of _ "B - {(unat p, n)}"]) auto
  moreover have "\<forall>c. as_inv (mm_pool mm c) \<and> distinct (as_list (mm_pool mm c)) \<and> 0 \<notin> pooled mm c \<and> pooled mm c \<inter> fst ` L = {}"
      "\<forall>c d. c \<noteq> d \<longrightarrow> pooled mm c \<inter> pooled mm d = {}"
    using assms(1) by (simp_all add: mm_inv_def)
  ultimately have "mm_inv (mm\<lparr>mm_heap := h\<rparr>) L" unfolding mm_inv_def po by simp
  with h(1) show ?thesis by blast
qed

end
