(* ===== verification/Messages.thy ===== *)
theory Messages
  imports HashMap MessagePool
begin

text \<open>
  Messages between threads (Kernel/Kernel/tasking/communication/MessageController.cpp, Api/IPC.h): a
  hash map gives each thread its queue head; the messages of a queue are a doubly linked list of
  buffers from the message pools. Heads and messages live in stores of addresses, and every access
  through a pointer reads or updates the store, so that the linking and unlinking are the code's.
\<close>

section \<open>Data\<close>

datatype MessageSendStatus = MESSAGE_SEND_STATUS_SUCCESSFUL | MESSAGE_SEND_STATUS_QUEUE_FULL |
  MESSAGE_SEND_STATUS_FAILED | MESSAGE_SEND_STATUS_EXCEEDS_MAXIMUM

datatype MessageReceiveStatus = MESSAGE_RECEIVE_STATUS_SUCCESSFUL | MESSAGE_RECEIVE_STATUS_QUEUE_EMPTY |
  MESSAGE_RECEIVE_STATUS_FAILED | MESSAGE_RECEIVE_STATUS_FAILED_NOT_PERMITTED |
  MESSAGE_RECEIVE_STATUS_EXCEEDS_BUFFER_SIZE | MESSAGE_RECEIVE_STATUS_INTERRUPTED

definition MESSAGE_TRANSACTION_NONE :: u32 where
  "MESSAGE_TRANSACTION_NONE = 0"

definition MESSAGE_MAXIMUM_LENGTH :: u32 where
  "MESSAGE_MAXIMUM_LENGTH = 8192"

definition MESSAGE_MAXIMUM_QUEUE_CONTENT :: u32 where
  "MESSAGE_MAXIMUM_QUEUE_CONTENT = 8192 * 64"

definition sizeof_MessageQueueHead :: u32 where
  "sizeof_MessageQueueHead = 12"

record message_header =
  m_sender_tid :: u32
  m_transaction :: u32
  m_message_len :: u32
  m_previous :: u32
  m_next :: u32
  m_content :: "u8 list"

record message_queue_head =
  q_first :: u32
  q_last :: u32
  q_total :: u32

definition MessageQueueHead_new :: message_queue_head where
  "MessageQueueHead_new = \<lparr>q_first = 0, q_last = 0, q_total = 0\<rparr>"

record ipc =
  ipc_queues :: "(u32, u32) hashmap option"
  ipc_heads :: "u32 \<rightharpoonup> message_queue_head"
  ipc_msgs :: "u32 \<rightharpoonup> message_header"
  ipc_mm :: msg_memory

section \<open>MessageController\<close>

partial_function (option) release_all :: "(u32 \<rightharpoonup> message_header) \<Rightarrow> msg_memory \<Rightarrow> u32 \<Rightarrow> msg_memory kres option" where
  "release_all msgs mm m =
     (if m = 0 then Some (Inr mm)
      else case at msgs m of
             Inl e \<Rightarrow> Some (Inl e)
           | Inr msg \<Rightarrow> release_all msgs (msg_release mm m (m_message_len msg)) (m_next msg))"

definition MessageController_clear :: "ipc \<Rightarrow> u32 \<Rightarrow> ipc kres option" where
  "MessageController_clear s tid =
     (case ipc_queues s of
        None \<Rightarrow> Some (Inr s)
      | Some queues \<Rightarrow>
          (case HashMap_get queues tid of
             None \<Rightarrow> Some (Inr s)
           | Some head \<Rightarrow>
               obind (Some (at (ipc_heads s) head)) (\<lambda>h.
               obind (release_all (ipc_msgs s) (ipc_mm s) (q_first h)) (\<lambda>mm.
               obind (KernelHeap_free (mm_heap mm) head) (\<lambda>kh.
                 Some (Inr (s\<lparr>ipc_mm := mm\<lparr>mm_heap := kh\<rparr>, ipc_queues := Some (HashMap_erase queues tid)\<rparr>)))))))"

text \<open>The queue head of the target, made when there is none.\<close>

definition find_or_create_queue :: "ipc \<Rightarrow> (u32, u32) hashmap \<Rightarrow> u32 \<Rightarrow> (u32 \<times> ipc) kres option" where
  "find_or_create_queue s queues target =
     (case HashMap_get queues target of
        Some queue \<Rightarrow> Some (Inr (queue, s))
      | None \<Rightarrow>
          obind (KernelHeap_allocate (mm_heap (ipc_mm s)) sizeof_MessageQueueHead) (\<lambda>(queue, kh).
            Some (Inr (queue, s\<lparr>ipc_mm := (ipc_mm s)\<lparr>mm_heap := kh\<rparr>,
                                ipc_heads := (ipc_heads s)(queue \<mapsto> MessageQueueHead_new),
                                ipc_queues := Some (HashMap_add queues target queue)\<rparr>))))"

text \<open>Appending a message to the list of its queue.\<close>

definition append_message ::
    "(u32 \<rightharpoonup> message_header) \<Rightarrow> message_queue_head \<Rightarrow> u32 \<Rightarrow> ((u32 \<rightharpoonup> message_header) \<times> message_queue_head) kres" where
  "append_message msgs q message =
     (let q1 = (if q_first q = 0 then q\<lparr>q_first := message\<rparr> else q) in
      kbind (if q_last q1 \<noteq> 0 then at_upd msgs (q_last q1) (\<lambda>l. l\<lparr>m_next := message\<rparr>) else Inr msgs) (\<lambda>msgs.
      kbind (at_upd msgs message (\<lambda>m. m\<lparr>m_previous := q_last q1, m_next := 0\<rparr>)) (\<lambda>msgs.
        Inr (msgs, q1\<lparr>q_last := message\<rparr>))))"

definition MessageController_sendMessage ::
    "ipc \<Rightarrow> u32 \<Rightarrow> u32 \<Rightarrow> u8 list \<Rightarrow> u32 \<Rightarrow> u32 \<Rightarrow> (MessageSendStatus \<times> ipc) kres option" where
  "MessageController_sendMessage s0 target source content contentLen tx =
     (let queues = (case ipc_queues s0 of None \<Rightarrow> HashMap_new | Some queues \<Rightarrow> queues);
          s = s0\<lparr>ipc_queues := Some queues\<rparr> in
      if MESSAGE_MAXIMUM_LENGTH < contentLen then Some (Inr (MESSAGE_SEND_STATUS_EXCEEDS_MAXIMUM, s))
      else
        obind (find_or_create_queue s queues target) (\<lambda>(queue, s).
        obind (Some (at (ipc_heads s) queue)) (\<lambda>q.
          if MESSAGE_MAXIMUM_QUEUE_CONTENT < q_total q + contentLen
          then Some (Inr (MESSAGE_SEND_STATUS_QUEUE_FULL, s))
          else
            obind (msg_get (ipc_mm s) (sizeof_MessageHeader + contentLen)) (\<lambda>(message, mm).
              if message = 0 then Some (Inr (MESSAGE_SEND_STATUS_FAILED, s\<lparr>ipc_mm := mm\<rparr>))
              else
                let header = (case ipc_msgs s message of
                       None \<Rightarrow> \<lparr>m_sender_tid = 0, m_transaction = 0, m_message_len = 0, m_previous = 0, m_next = 0, m_content = []\<rparr>
                     | Some h \<Rightarrow> h);
                    msgs = (ipc_msgs s)(message \<mapsto> header\<lparr>m_transaction := tx, m_sender_tid := source,
                              m_message_len := contentLen, m_content := take (unat contentLen) content\<rparr>)
                in obind (Some (append_message msgs q message)) (\<lambda>(msgs, q).
                     Some (Inr (MESSAGE_SEND_STATUS_SUCCESSFUL,
                       s\<lparr>ipc_mm := mm, ipc_msgs := msgs,
                          ipc_heads := (ipc_heads s)(queue \<mapsto> q\<lparr>q_total := q_total q + contentLen\<rparr>)\<rparr>)))))))"

text \<open>The search for a message of a transaction.\<close>

partial_function (option) find_transaction :: "(u32 \<rightharpoonup> message_header) \<Rightarrow> u32 \<Rightarrow> u32 \<Rightarrow> u32 kres option" where
  "find_transaction msgs n tx =
     (if n = 0 then Some (Inr 0)
      else case at msgs n of
             Inl e \<Rightarrow> Some (Inl e)
           | Inr msg \<Rightarrow> if m_transaction msg = tx then Some (Inr n) else find_transaction msgs (m_next msg) tx)"

text \<open>Unlinking a message; the fields of the message are read again at each use, as in the code.\<close>

definition unlink_message ::
    "(u32 \<rightharpoonup> message_header) \<Rightarrow> message_queue_head \<Rightarrow> u32 \<Rightarrow> ((u32 \<rightharpoonup> message_header) \<times> message_queue_head) kres" where
  "unlink_message msgs q message =
     kbind (at msgs message) (\<lambda>m.
     kbind (if m_next m \<noteq> 0
            then kbind (at_upd msgs (m_next m) (\<lambda>n. n\<lparr>m_previous := m_previous m\<rparr>)) (\<lambda>msgs. Inr (msgs, q))
            else let q = q\<lparr>q_last := m_previous m\<rparr> in
                 if q_last q \<noteq> 0 then kbind (at_upd msgs (q_last q) (\<lambda>l. l\<lparr>m_next := 0\<rparr>)) (\<lambda>msgs. Inr (msgs, q))
                 else Inr (msgs, q)) (\<lambda>(msgs, q).
     kbind (at msgs message) (\<lambda>m.
       if m_previous m \<noteq> 0
       then kbind (at_upd msgs (m_previous m) (\<lambda>p. p\<lparr>m_next := m_next m\<rparr>)) (\<lambda>msgs. Inr (msgs, q))
       else let q = q\<lparr>q_first := m_next m\<rparr> in
            if q_first q \<noteq> 0 then kbind (at_upd msgs (q_first q) (\<lambda>f. f\<lparr>m_previous := 0\<rparr>)) (\<lambda>msgs. Inr (msgs, q))
            else Inr (msgs, q))))"

text \<open>The buffer of the receiver gets a copy of the header and the content.\<close>

definition MessageController_receiveMessage ::
    "ipc \<Rightarrow> u32 \<Rightarrow> u32 \<Rightarrow> u32 \<Rightarrow> (MessageReceiveStatus \<times> message_header option \<times> ipc) kres option" where
  "MessageController_receiveMessage s target max' tx =
     (case ipc_queues s of
        None \<Rightarrow> Some (Inr (MESSAGE_RECEIVE_STATUS_QUEUE_EMPTY, None, s))
      | Some queues \<Rightarrow>
          (case HashMap_get queues target of
             None \<Rightarrow> Some (Inr (MESSAGE_RECEIVE_STATUS_QUEUE_EMPTY, None, s))
           | Some queue \<Rightarrow>
               if queue = 0 then Some (Inr (MESSAGE_RECEIVE_STATUS_QUEUE_EMPTY, None, s))
               else
                 obind (Some (at (ipc_heads s) queue)) (\<lambda>q.
                 obind (if tx = MESSAGE_TRANSACTION_NONE then Some (Inr (q_first q))
                        else find_transaction (ipc_msgs s) (q_first q) tx) (\<lambda>message.
                   if message = 0 then Some (Inr (MESSAGE_RECEIVE_STATUS_QUEUE_EMPTY, None, s))
                   else
                     obind (Some (at (ipc_msgs s) message)) (\<lambda>m.
                       let contentLen = m_message_len m in
                       if max' < sizeof_MessageHeader + contentLen
                       then Some (Inr (MESSAGE_RECEIVE_STATUS_EXCEEDS_BUFFER_SIZE, None, s))
                       else
                         obind (Some (unlink_message (ipc_msgs s) q message)) (\<lambda>(msgs, q).
                           Some (Inr (MESSAGE_RECEIVE_STATUS_SUCCESSFUL, Some m,
                             s\<lparr>ipc_msgs := msgs, ipc_mm := msg_release (ipc_mm s) message contentLen,
                                ipc_heads := (ipc_heads s)(queue \<mapsto> q\<lparr>q_total := q_total q - contentLen\<rparr>)\<rparr>))))))))"

section \<open>Doubly linked lists\<close>

text \<open>What a message says: its sender, its transaction and its content.\<close>

type_synonym msgv = "u32 \<times> u32 \<times> u8 list"

definition carries :: "message_header \<Rightarrow> msgv \<Rightarrow> bool" where
  "carries m v \<longleftrightarrow> (m_sender_tid m, m_transaction m, m_content m) = v \<and> m_message_len m = of_nat (length (m_content m))"

fun dseg :: "(u32 \<rightharpoonup> message_header) \<Rightarrow> u32 \<Rightarrow> (u32 \<times> msgv) list \<Rightarrow> u32 \<Rightarrow> bool" where
  "dseg m prev [] nxt = True"
| "dseg m prev ((p, v) # ps) nxt =
     (p \<noteq> 0 \<and> (\<exists>x. m p = Some x \<and> carries x v \<and> m_previous x = prev \<and>
        m_next x = (if ps = [] then nxt else fst (hd ps))) \<and> dseg m p ps nxt)"

definition first_of :: "(u32 \<times> msgv) list \<Rightarrow> u32" where
  "first_of ps = (if ps = [] then 0 else fst (hd ps))"

definition last_of :: "(u32 \<times> msgv) list \<Rightarrow> u32" where
  "last_of ps = (if ps = [] then 0 else fst (last ps))"

lemma dseg_append:
  "dseg m prev (xs @ ys) nxt \<longleftrightarrow>
     dseg m prev xs (if ys = [] then nxt else fst (hd ys)) \<and> dseg m (if xs = [] then prev else fst (last xs)) ys nxt"
  by (induction m prev xs nxt rule: dseg.induct) auto

lemma dseg_frame: "(\<And>p. p \<in> fst ` set ps \<Longrightarrow> m' p = m p) \<Longrightarrow> dseg m' prev ps nxt = dseg m prev ps nxt"
  by (induction m prev ps nxt rule: dseg.induct) auto

lemma dseg_upd_other: "p \<notin> fst ` set ps \<Longrightarrow> dseg (m(p \<mapsto> x)) prev ps nxt = dseg m prev ps nxt"
  by (rule dseg_frame) auto

lemma dseg_nonzero: "dseg m prev ps nxt \<Longrightarrow> p \<in> fst ` set ps \<Longrightarrow> p \<noteq> 0"
  by (induction m prev ps nxt rule: dseg.induct) auto

lemma carries_links [simp]: "carries (x\<lparr>m_next := n\<rparr>) v = carries x v" "carries (x\<lparr>m_previous := n\<rparr>) v = carries x v"
  by (simp_all add: carries_def)

lemma dseg_set_next:
  assumes "dseg m prev (xs @ [(p, v)]) nxt" and "distinct (map fst (xs @ [(p, v)]))"
  shows "\<exists>x. m p = Some x \<and> dseg (m(p \<mapsto> x\<lparr>m_next := nxt'\<rparr>)) prev (xs @ [(p, v)]) nxt'"
proof -
  have "p \<notin> fst ` set xs" using assms(2) by auto
  then show ?thesis using assms(1) by (auto simp: dseg_append dseg_upd_other)
qed

lemma dseg_set_prev:
  assumes "dseg m prev ((p, v) # ys) nxt" and "distinct (map fst ((p, v) # ys))"
  shows "\<exists>x. m p = Some x \<and> dseg (m(p \<mapsto> x\<lparr>m_previous := prev'\<rparr>)) prev' ((p, v) # ys) nxt"
proof -
  have "p \<notin> fst ` set ys" using assms(2) by auto
  then show ?thesis using assms(1) by (auto simp: dseg_upd_other)
qed

lemma at_upd_Inr: "p \<noteq> 0 \<Longrightarrow> m p = Some x \<Longrightarrow> at_upd m p f = Inr (m(p \<mapsto> f x))"
  by (simp add: at_upd_def at_Inr)

lemma first_of_mem: "ps \<noteq> [] \<Longrightarrow> first_of ps \<in> fst ` set ps"
  by (simp add: first_of_def)

lemma append_message_spec:
  assumes "dseg msgs 0 ps 0" and "distinct (map fst ps)" and "p \<noteq> 0" and "p \<notin> fst ` set ps"
    and "msgs p = Some x" and "carries x v" and "q_first q = first_of ps" and "q_last q = last_of ps"
  shows "\<exists>msgs' q'. append_message msgs q p = Inr (msgs', q') \<and> dseg msgs' 0 (ps @ [(p, v)]) 0 \<and>
    q_first q' = first_of (ps @ [(p, v)]) \<and> q_last q' = last_of (ps @ [(p, v)]) \<and> q_total q' = q_total q \<and>
    (\<forall>a. a \<notin> insert p (fst ` set ps) \<longrightarrow> msgs' a = msgs a)"
proof (cases ps rule: rev_cases)
  case Nil
  then show ?thesis using assms by (simp add: append_message_def first_of_def last_of_def at_upd_Inr)
next
  case (snoc xs l)
  obtain l w where ps: "ps = xs @ [(l, w)]" using snoc by (cases l) auto
  have l: "l \<noteq> 0" "l \<noteq> p" using assms(1,4) ps by (auto simp: dseg_append)
  obtain y where y: "msgs l = Some y" "dseg (msgs(l \<mapsto> y\<lparr>m_next := p\<rparr>)) 0 (xs @ [(l, w)]) p"
    using dseg_set_next [of msgs 0 xs l w 0 p] assms(1,2) ps by auto
  have f: "first_of ps \<noteq> 0" using dseg_nonzero [OF assms(1) first_of_mem] ps by simp
  have la: "last_of ps = l" by (simp add: ps last_of_def)
  let ?m = "msgs(l \<mapsto> y\<lparr>m_next := p\<rparr>, p \<mapsto> x\<lparr>m_previous := l, m_next := 0\<rparr>)"
  have "append_message msgs q p = Inr (?m, q\<lparr>q_last := p\<rparr>)"
    using assms(3,5,7,8) f l y(1) la by (simp add: append_message_def at_upd_Inr)
  moreover have "dseg ?m 0 (ps @ [(p, v)]) 0"
    using y(2) assms(3,4,6) unfolding dseg_append [of _ _ ps] by (simp add: dseg_upd_other ps)
  moreover have "first_of (ps @ [(p, v)]) = first_of ps" using ps by (cases xs) (simp_all add: first_of_def)
  ultimately show ?thesis using assms(7) ps by (intro exI [of _ ?m] exI [of _ "q\<lparr>q_last := p\<rparr>"]) (auto simp: last_of_def)
qed

lemma unlink_message_spec:
  assumes "dseg msgs 0 (xs @ (p, v) # ys) 0" and "distinct (map fst (xs @ (p, v) # ys))"
    and "q_first q = first_of (xs @ (p, v) # ys)" and "q_last q = last_of (xs @ (p, v) # ys)"
  shows "\<exists>msgs' q'. unlink_message msgs q p = Inr (msgs', q') \<and> dseg msgs' 0 (xs @ ys) 0 \<and>
    q_first q' = first_of (xs @ ys) \<and> q_last q' = last_of (xs @ ys) \<and> q_total q' = q_total q \<and>
    (\<forall>a. a \<notin> fst ` set (xs @ ys) \<longrightarrow> msgs' a = msgs a)"
proof -
  let ?prev = "if xs = [] then 0 else fst (last xs)" and ?next = "if ys = [] then 0 else fst (hd ys)"
  obtain x where x: "p \<noteq> 0" "msgs p = Some x" "m_previous x = ?prev" "m_next x = ?next"
      and dx: "dseg msgs 0 xs p" and dy: "dseg msgs p ys 0"
    using assms(1) by (auto simp: dseg_append)
  have dist: "p \<notin> fst ` set xs" "p \<notin> fst ` set ys" "fst ` set xs \<inter> fst ` set ys = {}"
      "distinct (map fst xs)" "distinct (map fst ys)"
    using assms(2) by auto
  obtain msgs1 q1 where s1: "(if m_next x \<noteq> 0
            then kbind (at_upd msgs (m_next x) (\<lambda>n. n\<lparr>m_previous := m_previous x\<rparr>)) (\<lambda>msgs. Inr (msgs, q))
            else let q = q\<lparr>q_last := m_previous x\<rparr> in
                 if q_last q \<noteq> 0 then kbind (at_upd msgs (q_last q) (\<lambda>l. l\<lparr>m_next := 0\<rparr>)) (\<lambda>msgs. Inr (msgs, q))
                 else Inr (msgs, q)) = Inr (msgs1, q1)"
      and m1: "msgs1 p = Some x" "dseg msgs1 ?prev ys 0" "\<exists>n. dseg msgs1 0 xs n" "q_last q1 = last_of (xs @ ys)"
        "q_first q1 = q_first q" "q_total q1 = q_total q" "\<And>a. a \<notin> fst ` set (xs @ ys) \<Longrightarrow> msgs1 a = msgs a"
  proof (cases ys)
    case (Cons y ys')
    obtain n u where y: "ys = (n, u) # ys'" using Cons by (cases y) auto
    obtain z where z: "msgs n = Some z" "dseg (msgs(n \<mapsto> z\<lparr>m_previous := ?prev\<rparr>)) ?prev ys 0"
      using dseg_set_prev [of msgs p n u ys' 0 ?prev] dy dist(5) y by auto
    have n: "n \<noteq> 0" "n \<noteq> p" "n \<notin> fst ` set xs" using dy dist(2,3) y by auto
    have nx: "m_next x = n" using x(4) y by simp
    show thesis
    proof (rule that [of "msgs(n \<mapsto> z\<lparr>m_previous := ?prev\<rparr>)" q])
      show "\<exists>na. dseg (msgs(n \<mapsto> z\<lparr>m_previous := ?prev\<rparr>)) 0 xs na" using dx n(3) by (auto simp: dseg_upd_other)
    qed (use nx n z x assms(4) y in \<open>auto simp: at_upd_Inr last_of_def\<close>)
  next
    case Nil
    show thesis
    proof (cases xs rule: rev_cases)
      case Nil2: Nil
      show thesis by (rule that [of msgs "q\<lparr>q_last := 0\<rparr>"]) (use x Nil Nil2 in \<open>auto simp: last_of_def\<close>)
    next
      case (snoc xs' l)
      obtain l w where l: "xs = xs' @ [(l, w)]" using snoc by (cases l) auto
      obtain z where z: "msgs l = Some z" "dseg (msgs(l \<mapsto> z\<lparr>m_next := 0\<rparr>)) 0 xs 0"
        using dseg_set_next [of msgs 0 xs' l w p 0] dx dist(4) l by auto
      have l0: "l \<noteq> 0" "l \<noteq> p" using dx dist(1) l by (auto simp: dseg_append)
      show thesis
        by (rule that [of "msgs(l \<mapsto> z\<lparr>m_next := 0\<rparr>)" "q\<lparr>q_last := l\<rparr>"])
          (use x Nil l z l0 in \<open>auto simp: last_of_def at_upd_Inr\<close>)
    qed
  qed
  obtain nn where nn: "dseg msgs1 0 xs nn" using m1(3) by blast
  have a1: "at msgs p = Inr x" "at msgs1 p = Inr x" using x(1,2) m1(1) by (simp_all add: at_Inr)
  have run: "unlink_message msgs q p = (if m_previous x \<noteq> 0
       then kbind (at_upd msgs1 (m_previous x) (\<lambda>p. p\<lparr>m_next := m_next x\<rparr>)) (\<lambda>msgs. Inr (msgs, q1))
       else let q = q1\<lparr>q_first := m_next x\<rparr> in
            if q_first q \<noteq> 0 then kbind (at_upd msgs1 (q_first q) (\<lambda>f. f\<lparr>m_previous := 0\<rparr>)) (\<lambda>msgs. Inr (msgs, q))
            else Inr (msgs1, q))"
    unfolding unlink_message_def a1 kbind_simps s1 by (simp add: a1)
  show ?thesis
  proof (cases xs rule: rev_cases)
    case (snoc xs' l)
    obtain l w where l: "xs = xs' @ [(l, w)]" using snoc by (cases l) auto
    obtain z where z: "msgs1 l = Some z" "dseg (msgs1(l \<mapsto> z\<lparr>m_next := ?next\<rparr>)) 0 xs ?next"
      using dseg_set_next [of msgs1 0 xs' l w nn ?next] nn dist(4) l by auto
    have l0: "l \<noteq> 0" "l \<notin> fst ` set ys" using nn dist(3) l by (auto simp: dseg_append)
    have "dseg (msgs1(l \<mapsto> z\<lparr>m_next := ?next\<rparr>)) 0 (xs @ ys) 0"
      using z(2) m1(2) l0(2) by (simp add: dseg_append [of _ _ xs] dseg_upd_other)
    moreover have "first_of (xs @ ys) = q_first q1" using assms(3) m1(5) l by (cases xs') (simp_all add: first_of_def)
    ultimately show ?thesis
      using run x(3,4) l z l0 m1(4,6,7) by (simp add: at_upd_Inr)
  next
    case Nil
    show ?thesis
    proof (cases ys)
      case (Cons y ys')
      obtain n u where y: "ys = (n, u) # ys'" using Cons by (cases y) auto
      obtain z where z: "msgs1 n = Some z" "dseg (msgs1(n \<mapsto> z\<lparr>m_previous := 0\<rparr>)) 0 ys 0"
        using dseg_set_prev [of msgs1 0 n u ys' 0 0] m1(2) dist(5) y Nil by auto
      have "n \<noteq> 0" using dy y by auto
      then show ?thesis using run x(3,4) Nil y z m1(4,6,7) by (simp add: at_upd_Inr first_of_def)
    next
      case Nil2: Nil
      show ?thesis using run x(3,4) Nil Nil2 m1(4,6,7) by (simp add: first_of_def)
    qed
  qed
qed

section \<open>The abstract mailbox\<close>

text \<open>A receiver takes the first message, or the first of the given transaction.\<close>

fun take_message :: "u32 \<Rightarrow> msgv list \<Rightarrow> (msgv \<times> msgv list) option" where
  "take_message tx [] = None"
| "take_message tx ((a, t, c) # vs) =
     (if tx = MESSAGE_TRANSACTION_NONE \<or> t = tx then Some ((a, t, c), vs)
      else map_option (\<lambda>(w, ws). (w, (a, t, c) # ws)) (take_message tx vs))"

definition mailbox_bytes :: "msgv list \<Rightarrow> nat" where
  "mailbox_bytes vs = sum_list (map (\<lambda>(a, t, c). length c) vs)"

lemma mailbox_bytes_simps [simp]:
  "mailbox_bytes [] = 0" "mailbox_bytes ((a, t, c) # vs) = length c + mailbox_bytes vs"
  "mailbox_bytes (vs @ ws) = mailbox_bytes vs + mailbox_bytes ws"
  by (simp_all add: mailbox_bytes_def)

definition select_message :: "(u32 \<rightharpoonup> message_header) \<Rightarrow> message_queue_head \<Rightarrow> u32 \<Rightarrow> u32 kres option" where
  "select_message msgs q tx =
     (if tx = MESSAGE_TRANSACTION_NONE then Some (Inr (q_first q)) else find_transaction msgs (q_first q) tx)"

lemma find_transaction_spec:
  assumes "dseg msgs prev ps 0" and "tx \<noteq> MESSAGE_TRANSACTION_NONE"
  shows "(take_message tx (map snd ps) = None \<and> find_transaction msgs (first_of ps) tx = Some (Inr 0)) \<or>
    (\<exists>xs p v ys. ps = xs @ (p, v) # ys \<and> find_transaction msgs (first_of ps) tx = Some (Inr p) \<and>
       take_message tx (map snd ps) = Some (v, map snd (xs @ ys)))"
  using assms(1)
proof (induction ps arbitrary: prev)
  case Nil
  then show ?case by (simp add: first_of_def find_transaction.simps)
next
  case (Cons pv ps)
  obtain p a t c where pv: "pv = (p, a, t, c)" by (cases pv) auto
  obtain x where x: "p \<noteq> 0" "msgs p = Some x" "carries x (a, t, c)" "m_next x = first_of ps" "dseg msgs p ps 0"
    using Cons.prems pv by (auto simp: first_of_def)
  have f: "first_of (pv # ps) = p" by (simp add: first_of_def pv)
  have run: "find_transaction msgs p tx = (if t = tx then Some (Inr p) else find_transaction msgs (first_of ps) tx)"
    using x(1-4) by (subst find_transaction.simps) (auto simp: at_Inr carries_def)
  show ?case
  proof (cases "t = tx")
    case True
    then show ?thesis using run f pv by (intro disjI2 exI [of _ "[]"]) auto
  next
    case False
    from Cons.IH [OF x(5)] show ?thesis
    proof (elim disjE exE conjE)
      fix xs p' v ys
      assume "ps = xs @ (p', v) # ys" "find_transaction msgs (first_of ps) tx = Some (Inr p')"
        "take_message tx (map snd ps) = Some (v, map snd (xs @ ys))"
      with False run f pv assms(2) show ?thesis
        by (intro disjI2 exI [of _ "pv # xs"] exI [of _ p'] exI [of _ v] exI [of _ ys]) auto
    qed (use False run f pv assms(2) in auto)
  qed
qed

lemma select_message_spec:
  assumes "dseg msgs 0 ps 0" and "q_first q = first_of ps"
  shows "(take_message tx (map snd ps) = None \<and> select_message msgs q tx = Some (Inr 0)) \<or>
    (\<exists>xs p v ys. ps = xs @ (p, v) # ys \<and> select_message msgs q tx = Some (Inr p) \<and>
       take_message tx (map snd ps) = Some (v, map snd (xs @ ys)))"
proof (cases "tx = MESSAGE_TRANSACTION_NONE")
  case True
  show ?thesis
  proof (cases ps)
    case Nil
    then show ?thesis using True assms(2) by (simp add: select_message_def first_of_def)
  next
    case (Cons pv ps')
    obtain p a t c where pv: "pv = (p, a, t, c)" by (cases pv) auto
    then show ?thesis using True assms(2) Cons
      by (intro disjI2 exI [of _ "[]"] exI [of _ p] exI [of _ "(a, t, c)"] exI [of _ ps'])
        (simp add: select_message_def first_of_def)
  qed
next
  case False
  then show ?thesis using find_transaction_spec [OF assms(1) False] assms(2) by (simp add: select_message_def)
qed

section \<open>The representation\<close>

text \<open>
  \<open>A\<close> gives for each thread with a queue the address of its head and its messages, each an address
  and what the message says.
\<close>

type_synonym mailboxes = "u32 \<rightharpoonup> u32 \<times> (u32 \<times> msgv) list"

definition block_len :: "msgv \<Rightarrow> nat" where
  "block_len v = (case v of (a, t, c) \<Rightarrow> unat (pool_size (the (pool_of (sizeof_MessageHeader + of_nat (length c))))))"

fun queue_blocks :: "(u32 \<times> (u32 \<times> msgv) list) option \<Rightarrow> (u32 \<times> nat) set" where
  "queue_blocks None = {}"
| "queue_blocks (Some (q, ps)) = insert (q, 12) ((\<lambda>(p, v). (p, block_len v)) ` set ps)"

definition mail_blocks :: "mailboxes \<Rightarrow> (u32 \<times> nat) set" where
  "mail_blocks A = (\<Union>t. queue_blocks (A t))"

lemma mail_blocks_upd: "mail_blocks (A(t := x)) = queue_blocks x \<union> (\<Union>u \<in> - {t}. queue_blocks (A u))"
  by (auto simp: mail_blocks_def split: if_splits)

lemma mail_blocks_split: "mail_blocks A = queue_blocks (A t) \<union> (\<Union>u \<in> - {t}. queue_blocks (A u))"
  using mail_blocks_upd [of A t "A t"] by simp

lemma block_addresses: "fst ` (\<lambda>(p, v). (p, block_len v)) ` X = fst ` X"
  by force

lemma queue_blocks_addresses: "fst ` queue_blocks (Some (q, ps)) = insert q (fst ` set ps)"
  by force

definition queue_ok :: "ipc \<Rightarrow> u32 \<Rightarrow> (u32 \<times> msgv) list \<Rightarrow> bool" where
  "queue_ok s q ps \<longleftrightarrow> q \<noteq> 0 \<and>
     (\<exists>h. ipc_heads s q = Some h \<and> q_first h = first_of ps \<and> q_last h = last_of ps \<and>
        unat (q_total h) = mailbox_bytes (map snd ps)) \<and>
     dseg (ipc_msgs s) 0 ps 0 \<and> distinct (map fst ps) \<and> mailbox_bytes (map snd ps) \<le> 8192 * 64 \<and>
     (\<forall>(p, a, t, c) \<in> set ps. length c + 20 < 8192)"

definition queues_ok :: "ipc \<Rightarrow> mailboxes \<Rightarrow> bool" where
  "queues_ok s A \<longleftrightarrow> (case ipc_queues s of
       None \<Rightarrow> A = Map.empty
     | Some hm \<Rightarrow> hm_inv hm \<and> (\<forall>t. HashMap_get hm t = map_option fst (A t)))"

definition separate :: "mailboxes \<Rightarrow> bool" where
  "separate A \<longleftrightarrow>
     (\<forall>t u q ps r qs. A t = Some (q, ps) \<longrightarrow> A u = Some (r, qs) \<longrightarrow>
        q \<notin> fst ` set qs \<and> (t \<noteq> u \<longrightarrow> q \<noteq> r \<and> fst ` set ps \<inter> fst ` set qs = {}))"

definition ipc_rep :: "ipc \<Rightarrow> mailboxes \<Rightarrow> bool" where
  "ipc_rep s A \<longleftrightarrow> queues_ok s A \<and> (\<forall>t q ps. A t = Some (q, ps) \<longrightarrow> queue_ok s q ps) \<and> separate A \<and>
     mm_inv (ipc_mm s) (mail_blocks A)"

text \<open>The messages waiting for a thread.\<close>

definition inbox :: "mailboxes \<Rightarrow> u32 \<Rightarrow> msgv list" where
  "inbox A t = (case A t of None \<Rightarrow> [] | Some (q, ps) \<Rightarrow> map snd ps)"

lemma ipc_repD:
  assumes "ipc_rep s A" and "A t = Some (q, ps)"
  shows "queue_ok s q ps" "q \<notin> fst ` set ps"
    "A u = Some (r, qs) \<Longrightarrow> t \<noteq> u \<Longrightarrow> q \<noteq> r \<and> fst ` set ps \<inter> fst ` set qs = {} \<and> q \<notin> fst ` set qs \<and> r \<notin> fst ` set ps"
  using assms by (auto simp: ipc_rep_def separate_def)

lemma other_blocks:
  assumes "separate A" and "A t = Some (q, ps)" and "a \<in> insert q (fst ` set ps)"
  shows "a \<notin> fst ` (\<Union>u \<in> - {t}. queue_blocks (A u))"
proof
  assume "a \<in> fst ` (\<Union>u \<in> - {t}. queue_blocks (A u))"
  then obtain u where u: "u \<noteq> t" "a \<in> fst ` queue_blocks (A u)" by auto
  then obtain r qs where r: "A u = Some (r, qs)" by (cases "A u") auto
  then have "a = r \<or> a \<in> fst ` set qs" using u(2) unfolding r queue_blocks_addresses by simp
  with assms r u(1) show False unfolding separate_def by (metis IntI empty_iff insertE)
qed

section \<open>Sending\<close>

lemma queue_ok_frame:
  assumes "queue_ok s q ps" and "ipc_heads s' q = ipc_heads s q" and "\<And>p. p \<in> fst ` set ps \<Longrightarrow> ipc_msgs s' p = ipc_msgs s p"
  shows "queue_ok s' q ps"
  using assms(1,2) dseg_frame [of ps "ipc_msgs s'" "ipc_msgs s" 0 0] assms(3) by (simp add: queue_ok_def)

lemma find_or_create_queue_spec:
  assumes rep: "ipc_rep s A" and qs: "ipc_queues s = Some hm"
  shows "\<exists>r. find_or_create_queue s hm target = Some r \<and>
    (\<forall>queue s'. r = Inr (queue, s') \<longrightarrow> (\<exists>A' ps. ipc_rep s' A' \<and> A' target = Some (queue, ps) \<and> inbox A' = inbox A))"
proof -
  have hm: "hm_inv hm" "\<And>t. HashMap_get hm t = map_option fst (A t)"
    using rep qs by (auto simp: ipc_rep_def queues_ok_def)
  show ?thesis
  proof (cases "A target")
    case (Some x)
    obtain q ps where x: "A target = Some (q, ps)" using Some by (cases x) auto
    then have "find_or_create_queue s hm target = Some (Inr (q, s))" by (simp add: find_or_create_queue_def hm(2))
    then show ?thesis using rep x by auto
  next
    case None
    have inv: "mm_inv (ipc_mm s) (mail_blocks A)" using rep by (simp add: ipc_rep_def)
    note new = kernel_new [OF inv, of sizeof_MessageQueueHead]
    obtain r where r: "KernelHeap_allocate (mm_heap (ipc_mm s)) sizeof_MessageQueueHead = Some r"
      using new(1) by (auto simp: sizeof_MessageQueueHead_def)
    show ?thesis
    proof (cases r)
      case (Inl e)
      then show ?thesis using r None by (simp add: find_or_create_queue_def hm(2))
    next
      case (Inr y)
      obtain q kh where y: "r = Inr (q, kh)" using Inr by (cases y) auto
      have f: "q \<noteq> 0" "q \<notin> fst ` mail_blocks A" "mm_inv ((ipc_mm s)\<lparr>mm_heap := kh\<rparr>) (insert (q, 12) (mail_blocks A))"
        using new(2) [OF _ _ r [unfolded y]] by (auto simp: sizeof_MessageQueueHead_def)
      let ?s = "s\<lparr>ipc_mm := (ipc_mm s)\<lparr>mm_heap := kh\<rparr>, ipc_heads := (ipc_heads s)(q \<mapsto> MessageQueueHead_new),
                  ipc_queues := Some (HashMap_add hm target q)\<rparr>"
      let ?A = "A(target \<mapsto> (q, []))"
      have run: "find_or_create_queue s hm target = Some (Inr (q, ?s))"
        using r y None by (simp add: find_or_create_queue_def hm(2))
      have fresh: "q \<noteq> r \<and> q \<notin> fst ` set qs" if "A t = Some (r, qs)" for t r qs
      proof -
        have "fst ` queue_blocks (Some (r, qs)) \<subseteq> fst ` mail_blocks A"
          unfolding mail_blocks_def using that by (metis UN_upper UNIV_I image_mono)
        then show ?thesis using f(2) unfolding queue_blocks_addresses by auto
      qed
      have "mail_blocks ?A = insert (q, 12) (mail_blocks A)"
        using mail_blocks_upd [of A target] mail_blocks_split [of A target] None by simp
      moreover have "queues_ok ?s ?A" using hm by (auto simp: queues_ok_def hm.get_add hm.invar_add)
      moreover have "separate ?A"
        using rep fresh unfolding ipc_rep_def separate_def by (auto split: if_splits)
      moreover have "queue_ok ?s q' ps" if "?A t = Some (q', ps)" for t q' ps
      proof (cases "t = target")
        case True
        then show ?thesis using that f(1) by (auto simp: queue_ok_def MessageQueueHead_new_def first_of_def last_of_def)
      next
        case False
        then have t: "A t = Some (q', ps)" using that by simp
        show ?thesis by (rule queue_ok_frame [OF ipc_repD(1) [OF rep t]]) (use fresh [OF t] in auto)
      qed
      ultimately have "ipc_rep ?s ?A" using f(3) by (simp add: ipc_rep_def)
      moreover have "inbox ?A = inbox A" using None by (auto simp: inbox_def)
      ultimately show ?thesis using run by (intro exI [of _ "Inr (q, ?s)"]) auto
    qed
  qed
qed

lemma unat_header_size: "n \<le> 8192 \<Longrightarrow> unat (sizeof_MessageHeader + of_nat n) = n + 20"
  by (simp add: sizeof_MessageHeader_def unat_word_ariths unat_of_nat)

lemma msg_get_spec:
  assumes "mm_inv mm L" and "length c \<le> 8192"
  shows "\<exists>r. msg_get mm (sizeof_MessageHeader + of_nat (length c)) = Some r \<and>
    (\<forall>p mm'. r = Inr (p, mm') \<longrightarrow>
       (if 8192 \<le> length c + 20 then p = 0 \<and> mm' = mm
        else p \<noteq> 0 \<and> p \<notin> fst ` L \<and> mm_inv mm' (insert (p, block_len (a, t, c)) L)))"
proof (cases "pool_of (sizeof_MessageHeader + of_nat (length c))")
  case None
  then have "8192 \<le> length c + 20" using unat_header_size [OF assms(2)] pool_of_None by metis
  with None show ?thesis by (simp add: msg_get_def)
next
  case (Some k)
  then have "\<not> 8192 \<le> length c + 20" using unat_header_size [OF assms(2)] pool_of_None by (metis option.distinct(1))
  then show ?thesis using getFromPool_spec [OF assms(1), of k] Some by (simp add: msg_get_def block_len_def)
qed

text \<open>What sending does to the mailboxes.\<close>

definition mailbox_send :: "(u32 \<Rightarrow> msgv list) \<Rightarrow> u32 \<Rightarrow> msgv \<Rightarrow> MessageSendStatus \<times> (u32 \<Rightarrow> msgv list)" where
  "mailbox_send M target v = (case v of (a, t, c) \<Rightarrow>
     if 8192 < length c then (MESSAGE_SEND_STATUS_EXCEEDS_MAXIMUM, M)
     else if 8192 * 64 < mailbox_bytes (M target) + length c then (MESSAGE_SEND_STATUS_QUEUE_FULL, M)
     else if 8192 \<le> length c + 20 then (MESSAGE_SEND_STATUS_FAILED, M)
     else (MESSAGE_SEND_STATUS_SUCCESSFUL, M(target := M target @ [v])))"

lemma append_to_queue:
  assumes rep: "ipc_rep s A" and A: "A target = Some (q, ps)" and h: "ipc_heads s q = Some h"
    and p: "p \<noteq> 0" "p \<notin> fst ` mail_blocks A" and mm: "mm_inv mm (insert (p, block_len (a, t, c)) (mail_blocks A))"
    and x: "carries x (a, t, c)" and len: "length c + 20 < 8192"
      "mailbox_bytes (map snd ps) + length c \<le> 8192 * 64"
  shows "\<exists>msgs h'. append_message ((ipc_msgs s)(p \<mapsto> x)) h p = Inr (msgs, h') \<and>
    ipc_rep (s\<lparr>ipc_mm := mm, ipc_msgs := msgs, ipc_heads := (ipc_heads s)(q \<mapsto> h'\<lparr>q_total := q_total h' + of_nat (length c)\<rparr>)\<rparr>)
      (A(target \<mapsto> (q, ps @ [(p, (a, t, c))])))"
proof -
  note ok = ipc_repD(1) [OF rep A]
  have q: "q_first h = first_of ps" "q_last h = last_of ps" "unat (q_total h) = mailbox_bytes (map snd ps)"
      "dseg (ipc_msgs s) 0 ps 0" "distinct (map fst ps)" "q \<noteq> 0"
    using ok h by (auto simp: queue_ok_def)
  have sub: "fst ` queue_blocks (A t) \<subseteq> fst ` mail_blocks A" for t
    unfolding mail_blocks_def by (metis UN_upper UNIV_I image_mono)
  have fresh: "p \<noteq> r \<and> p \<notin> fst ` set qs" if "A t = Some (r, qs)" for t r qs
    using p(2) sub [of t] unfolding that queue_blocks_addresses by auto
  let ?m = "(ipc_msgs s)(p \<mapsto> x)"
  have d: "dseg ?m 0 ps 0" using q(4) fresh [OF A] by (simp add: dseg_upd_other)
  obtain msgs h' where ap: "append_message ?m h p = Inr (msgs, h')" "dseg msgs 0 (ps @ [(p, (a, t, c))]) 0"
      "q_first h' = first_of (ps @ [(p, (a, t, c))])" "q_last h' = last_of (ps @ [(p, (a, t, c))])" "q_total h' = q_total h"
      "\<And>a. a \<notin> insert p (fst ` set ps) \<Longrightarrow> msgs a = ?m a"
    using append_message_spec [OF d q(5) p(1) _ _ x q(1,2)] fresh [OF A] by auto
  let ?h = "h'\<lparr>q_total := q_total h' + of_nat (length c)\<rparr>"
  let ?s = "s\<lparr>ipc_mm := mm, ipc_msgs := msgs, ipc_heads := (ipc_heads s)(q \<mapsto> ?h)\<rparr>"
  let ?A = "A(target \<mapsto> (q, ps @ [(p, (a, t, c))]))"
  have tot: "unat (q_total h + of_nat (length c)) = mailbox_bytes (map snd ps) + length c"
    using q(3) len(2) by (simp add: unat_word_ariths unat_of_nat)
  have blocks: "mail_blocks ?A = insert (p, block_len (a, t, c)) (mail_blocks A)"
    using mail_blocks_upd [of A target] mail_blocks_split [of A target] A by auto
  have "queue_ok ?s q' ps'" if "?A u = Some (q', ps')" for u q' ps'
  proof (cases "u = target")
    case True
    then have "q' = q" "ps' = ps @ [(p, (a, t, c))]" using that by auto
    then show ?thesis
      using ok ap(2-5) tot q(5,6) fresh [OF A] len by (auto simp: queue_ok_def)
  next
    case False
    then have u: "A u = Some (q', ps')" using that by simp
    note o = ipc_repD(3) [OF rep A u] 
    have "msgs b = ipc_msgs s b" if "b \<in> fst ` set ps'" for b
      using ap(6) [of b] that o False fresh [OF u] by auto
    then show ?thesis using o False by (intro queue_ok_frame [OF ipc_repD(1) [OF rep u]]) auto
  qed
  moreover have old: "\<exists>ps'. A u = Some (q', ps') \<and> fst ` set qs \<subseteq> insert p (fst ` set ps') \<and> (u = target \<or> qs = ps')"
    if "?A u = Some (q', qs)" for u q' qs
    using that A by (cases "u = target") (auto simp: subset_insertI)
  have "separate ?A"
    unfolding separate_def
  proof (intro allI impI)
    fix t1 t2 q1 ps1 q2 ps2
    assume n: "?A t1 = Some (q1, ps1)" "?A t2 = Some (q2, ps2)"
    obtain ps1' where B1: "A t1 = Some (q1, ps1')" "fst ` set ps1 \<subseteq> insert p (fst ` set ps1')" "t1 = target \<or> ps1 = ps1'"
      using old [OF n(1)] by (elim exE conjE)
    obtain ps2' where B2: "A t2 = Some (q2, ps2')" "fst ` set ps2 \<subseteq> insert p (fst ` set ps2')" "t2 = target \<or> ps2 = ps2'"
      using old [OF n(2)] by (elim exE conjE)
    have sep: "q1 \<notin> fst ` set ps2'" "t1 \<noteq> t2 \<Longrightarrow> q1 \<noteq> q2 \<and> fst ` set ps1' \<inter> fst ` set ps2' = {}"
      using ipc_repD(2) [OF rep B1(1)] ipc_repD(3) [OF rep B1(1) B2(1)] B1(1) B2(1) by (cases "t1 = t2"; auto)+
    have "fst ` set ps1 \<inter> fst ` set ps2 = {}" if "t1 \<noteq> t2"
      using B1(2,3) B2(2,3) sep(2) [OF that] fresh [OF B1(1)] fresh [OF B2(1)] that by auto
    then show "q1 \<notin> fst ` set ps2 \<and> (t1 \<noteq> t2 \<longrightarrow> q1 \<noteq> q2 \<and> fst ` set ps1 \<inter> fst ` set ps2 = {})"
      using sep B2(2) fresh [OF B1(1)] by auto
  qed
  moreover have "queues_ok ?s ?A" using rep A by (auto simp: ipc_rep_def queues_ok_def split: option.splits)
  ultimately have "ipc_rep ?s ?A" using mm blocks by (simp add: ipc_rep_def)
  then show ?thesis using ap(1) by blast
qed

lemma ensure_queue_map:
  assumes "ipc_rep s A"
  shows "ipc_rep (s\<lparr>ipc_queues := Some (case ipc_queues s of None \<Rightarrow> HashMap_new | Some queues \<Rightarrow> queues)\<rparr>) A"
proof -
  have "queue_ok (s\<lparr>ipc_queues := x\<rparr>) q ps = queue_ok s q ps" for x q ps by (simp add: queue_ok_def)
  with assms show ?thesis
    by (auto simp: ipc_rep_def queues_ok_def hm.get_empty hm.invar_empty split: option.splits)
qed

lemma sendMessage_spec:
  assumes "ipc_rep s A" and "length content < 2 ^ 32"
  shows "\<exists>r. MessageController_sendMessage s target source content (of_nat (length content)) tx = Some r \<and>
    (\<forall>st s'. r = Inr (st, s') \<longrightarrow> (\<exists>A'. ipc_rep s' A' \<and> (st, inbox A') = mailbox_send (inbox A) target (source, tx, content)))"
proof -
  let ?hm = "case ipc_queues s of None \<Rightarrow> HashMap_new | Some queues \<Rightarrow> queues" and ?n = "of_nat (length content) :: u32"
  let ?s = "s\<lparr>ipc_queues := Some ?hm\<rparr>"
  note rep = ensure_queue_map [OF assms(1)]
  have n: "unat ?n = length content" using assms(2) by (simp add: unat_of_nat_u32)
  then have long: "MESSAGE_MAXIMUM_LENGTH < ?n \<longleftrightarrow> 8192 < length content"
    by (simp add: MESSAGE_MAXIMUM_LENGTH_def word_less_nat_alt)
  show ?thesis
  proof (cases "8192 < length content")
    case True
    then show ?thesis using rep long by (auto simp: MessageController_sendMessage_def mailbox_send_def)
  next
    case False
    obtain r where r: "find_or_create_queue ?s ?hm target = Some r" "\<And>queue s'. r = Inr (queue, s') \<Longrightarrow>
        (\<exists>A' ps. ipc_rep s' A' \<and> A' target = Some (queue, ps) \<and> inbox A' = inbox A)"
      using find_or_create_queue_spec [OF rep, of ?hm target] by auto
    show ?thesis
    proof (cases r)
      case (Inl e)
      then show ?thesis using r(1) False long by (simp add: MessageController_sendMessage_def Let_def)
    next
      case (Inr y)
      obtain q s1 where y: "r = Inr (q, s1)" using Inr by (cases y) auto
      obtain A1 ps where A1: "ipc_rep s1 A1" "A1 target = Some (q, ps)" "inbox A1 = inbox A" using r(2) [OF y] by blast
      obtain h where h: "q \<noteq> 0" "ipc_heads s1 q = Some h" "unat (q_total h) = mailbox_bytes (map snd ps)"
          "mailbox_bytes (map snd ps) \<le> 8192 * 64"
        using ipc_repD(1) [OF A1(1,2)] by (auto simp: queue_ok_def)
      have box: "inbox A target = map snd ps" using A1(2,3) by (metis (mono_tags, lifting) case_prod_conv inbox_def option.simps(5))
      have full: "MESSAGE_MAXIMUM_QUEUE_CONTENT < q_total h + ?n \<longleftrightarrow> 8192 * 64 < mailbox_bytes (map snd ps) + length content"
        using h(3,4) n False by (simp add: MESSAGE_MAXIMUM_QUEUE_CONTENT_def word_less_nat_alt unat_add_lem32)
      have mm: "mm_inv (ipc_mm s1) (mail_blocks A1)" using A1(1) by (simp add: ipc_rep_def)
      obtain g where g: "msg_get (ipc_mm s1) (sizeof_MessageHeader + ?n) = Some g" "\<And>p mm'. g = Inr (p, mm') \<Longrightarrow>
          (if 8192 \<le> length content + 20 then p = 0 \<and> mm' = ipc_mm s1
           else p \<noteq> 0 \<and> p \<notin> fst ` mail_blocks A1 \<and> mm_inv mm' (insert (p, block_len (source, tx, content)) (mail_blocks A1)))"
        using msg_get_spec [OF mm, of content source tx] False by auto
      have at: "at (ipc_heads s1) q = Inr h" using h by (simp add: at_Inr)
      note run = MessageController_sendMessage_def [of s target source content ?n tx] r(1) y at g(1) False long
      consider "8192 * 64 < mailbox_bytes (map snd ps) + length content"
        | e where "\<not> 8192 * 64 < mailbox_bytes (map snd ps) + length content" "g = Inl e"
        | p mm' where "\<not> 8192 * 64 < mailbox_bytes (map snd ps) + length content" "g = Inr (p, mm')"
        by (cases g) auto
      then show ?thesis
      proof cases
        case 1
        then show ?thesis using run full A1 False box by (auto simp: Let_def mailbox_send_def)
      next
        case 2
        then show ?thesis using run full by (simp add: Let_def)
      next
        case 3
        show ?thesis
        proof (cases "8192 \<le> length content + 20")
          case True
          then have "p = 0" "mm' = ipc_mm s1" using g(2) [OF 3(2)] by auto
          then show ?thesis using run full 3 A1 False box True by (auto simp: Let_def mailbox_send_def)
        next
          case fits: False
          then have p: "p \<noteq> 0" "p \<notin> fst ` mail_blocks A1" "mm_inv mm' (insert (p, block_len (source, tx, content)) (mail_blocks A1))"
            using g(2) [OF 3(2)] by auto
          let ?x = "(case ipc_msgs s1 p of
                       None \<Rightarrow> \<lparr>m_sender_tid = 0, m_transaction = 0, m_message_len = 0, m_previous = 0, m_next = 0, m_content = []\<rparr>
                     | Some h \<Rightarrow> h)\<lparr>m_transaction := tx, m_sender_tid := source, m_message_len := ?n, m_content := take (unat ?n) content\<rparr>"
          have "carries ?x (source, tx, content)" by (simp add: carries_def n)
          from append_to_queue [OF A1(1,2) h(2) p this] fits 3(1)
          obtain msgs h' where ap: "append_message ((ipc_msgs s1)(p \<mapsto> ?x)) h p = Inr (msgs, h')"
              "ipc_rep (s1\<lparr>ipc_mm := mm', ipc_msgs := msgs, ipc_heads := (ipc_heads s1)(q \<mapsto> h'\<lparr>q_total := q_total h' + ?n\<rparr>)\<rparr>)
                 (A1(target \<mapsto> (q, ps @ [(p, (source, tx, content))])))"
            by auto
          have "inbox (A1(target \<mapsto> (q, ps @ [(p, (source, tx, content))]))) = (inbox A)(target := inbox A target @ [(source, tx, content)])"
            using A1(3) box by (auto simp: inbox_def fun_eq_iff)
          then show ?thesis using run full 3 False box fits p(1) ap
            by (auto simp: Let_def mailbox_send_def)
        qed
      qed
    qed
  qed
qed

section \<open>Receiving\<close>

definition mailbox_receive ::
    "(u32 \<Rightarrow> msgv list) \<Rightarrow> u32 \<Rightarrow> nat \<Rightarrow> u32 \<Rightarrow> MessageReceiveStatus \<times> msgv option \<times> (u32 \<Rightarrow> msgv list)" where
  "mailbox_receive M target max' tx = (case take_message tx (M target) of
       None \<Rightarrow> (MESSAGE_RECEIVE_STATUS_QUEUE_EMPTY, None, M)
     | Some ((a, t, c), rest) \<Rightarrow>
         if max' < length c + 20 then (MESSAGE_RECEIVE_STATUS_EXCEEDS_BUFFER_SIZE, None, M)
         else (MESSAGE_RECEIVE_STATUS_SUCCESSFUL, Some (a, t, c), M(target := rest)))"

definition message_value :: "message_header \<Rightarrow> msgv" where
  "message_value m = (m_sender_tid m, m_transaction m, m_content m)"

lemma carries_value: "carries m v \<Longrightarrow> message_value m = v"
  by (simp add: carries_def message_value_def)

lemma block_len_pool:
  assumes "length c + 20 < 8192"
  shows "\<exists>k. pool_of (sizeof_MessageHeader + of_nat (length c)) = Some k \<and> block_len (a, t, c) = unat (pool_size k)"
proof -
  have "unat (sizeof_MessageHeader + of_nat (length c) :: u32) = length c + 20" using assms by (intro unat_header_size) simp
  then have "pool_of (sizeof_MessageHeader + of_nat (length c)) \<noteq> None" using assms by (simp add: pool_of_None)
  then show ?thesis by (auto simp: block_len_def)
qed

lemma remove_from_queue:
  assumes rep: "ipc_rep s A" and A: "A target = Some (q, xs @ (p, a, t, c) # ys)" and h: "ipc_heads s q = Some h"
  shows "\<exists>msgs h'. unlink_message (ipc_msgs s) h p = Inr (msgs, h') \<and>
    ipc_rep (s\<lparr>ipc_msgs := msgs, ipc_mm := msg_release (ipc_mm s) p (of_nat (length c)),
               ipc_heads := (ipc_heads s)(q \<mapsto> h'\<lparr>q_total := q_total h' - of_nat (length c)\<rparr>)\<rparr>)
      (A(target \<mapsto> (q, xs @ ys)))"
proof -
  let ?ps = "xs @ (p, a, t, c) # ys"
  note ok = ipc_repD(1) [OF rep A]
  have q: "q_first h = first_of ?ps" "q_last h = last_of ?ps" "unat (q_total h) = mailbox_bytes (map snd ?ps)"
      "dseg (ipc_msgs s) 0 ?ps 0" "distinct (map fst ?ps)" "q \<noteq> 0" "length c + 20 < 8192"
    using ok h by (auto simp: queue_ok_def)
  obtain msgs h' where un: "unlink_message (ipc_msgs s) h p = Inr (msgs, h')" "dseg msgs 0 (xs @ ys) 0"
      "q_first h' = first_of (xs @ ys)" "q_last h' = last_of (xs @ ys)" "q_total h' = q_total h"
      "\<And>b. b \<notin> fst ` set (xs @ ys) \<Longrightarrow> msgs b = ipc_msgs s b"
    using unlink_message_spec [OF q(4,5,1,2)] by blast
  let ?h = "h'\<lparr>q_total := q_total h' - of_nat (length c)\<rparr>" and ?A = "A(target \<mapsto> (q, xs @ ys))"
  let ?s = "s\<lparr>ipc_msgs := msgs, ipc_mm := msg_release (ipc_mm s) p (of_nat (length c)), ipc_heads := (ipc_heads s)(q \<mapsto> ?h)\<rparr>"
  have "unat (of_nat (length c) :: u32) = length c" using q(7) by (simp add: unat_of_nat_u32)
  moreover from this have "(of_nat (length c) :: u32) \<le> q_total h" using q(3) by (simp add: word_le_nat_alt)
  ultimately have tot: "unat (q_total h - of_nat (length c)) = mailbox_bytes (map snd (xs @ ys))"
    using q(3) by (simp add: unat_sub)
  obtain k where k: "pool_of (sizeof_MessageHeader + of_nat (length c)) = Some k" "block_len (a, t, c) = unat (pool_size k)"
    using block_len_pool [OF q(7)] by blast
  have blocks: "mail_blocks A = insert (p, block_len (a, t, c)) (mail_blocks ?A)"
    using mail_blocks_upd [of A target] mail_blocks_split [of A target] A by auto
  have p: "p \<noteq> 0" "p \<notin> fst ` set (xs @ ys)" "p \<noteq> q" using dseg_nonzero [OF q(4), of p] q(5) ipc_repD(2) [OF rep A] by auto
  have "p \<notin> fst ` mail_blocks ?A"
  proof -
    have "separate A" using rep by (simp add: ipc_rep_def)
    from other_blocks [OF this A, of p] have "p \<notin> fst ` (\<Union>u \<in> - {target}. queue_blocks (A u))" by simp
    moreover have "p \<notin> fst ` queue_blocks (Some (q, xs @ ys))" using p unfolding queue_blocks_addresses by simp
    ultimately show ?thesis unfolding mail_blocks_upd image_Un by blast
  qed
  then have mm: "mm_inv (msg_release (ipc_mm s) p (of_nat (length c))) (mail_blocks ?A)"
    using rep blocks k p(1) by (intro msg_release_inv [where c = k]) (auto simp: ipc_rep_def)
  have "queue_ok ?s q' ps'" if "?A u = Some (q', ps')" for u q' ps'
  proof (cases "u = target")
    case True
    then have "q' = q" "ps' = xs @ ys" using that by auto
    then show ?thesis using ok un(2-5) tot q(5,6) by (auto simp: queue_ok_def)
  next
    case False
    then have u: "A u = Some (q', ps')" using that by simp
    note o = ipc_repD(3) [OF rep A u]
    have "msgs b = ipc_msgs s b" if "b \<in> fst ` set ps'" for b
      using un(6) [of b] that o False by auto
    then show ?thesis using o False by (intro queue_ok_frame [OF ipc_repD(1) [OF rep u]]) auto
  qed
  moreover have "separate ?A"
    unfolding separate_def
  proof (intro allI impI)
    fix t1 t2 q1 ps1 q2 ps2
    assume n: "?A t1 = Some (q1, ps1)" "?A t2 = Some (q2, ps2)"
    have old: "\<exists>ps'. A u = Some (q', ps') \<and> fst ` set qs \<subseteq> fst ` set ps'" if "?A u = Some (q', qs)" for u q' qs
      using that A by (cases "u = target") auto
    obtain ps1' where B1: "A t1 = Some (q1, ps1')" "fst ` set ps1 \<subseteq> fst ` set ps1'" using old [OF n(1)] by (elim exE conjE)
    obtain ps2' where B2: "A t2 = Some (q2, ps2')" "fst ` set ps2 \<subseteq> fst ` set ps2'" using old [OF n(2)] by (elim exE conjE)
    have "q1 \<notin> fst ` set ps2'" "t1 \<noteq> t2 \<Longrightarrow> q1 \<noteq> q2 \<and> fst ` set ps1' \<inter> fst ` set ps2' = {}"
      using ipc_repD(2) [OF rep B1(1)] ipc_repD(3) [OF rep B1(1) B2(1)] B1(1) B2(1) by (cases "t1 = t2"; auto)+
    then show "q1 \<notin> fst ` set ps2 \<and> (t1 \<noteq> t2 \<longrightarrow> q1 \<noteq> q2 \<and> fst ` set ps1 \<inter> fst ` set ps2 = {})"
      using disjoint_mono [OF B1(2) B2(2)] subsetD [OF B2(2), of q1] by blast
  qed
  moreover have "queues_ok ?s ?A" using rep A by (auto simp: ipc_rep_def queues_ok_def split: option.splits)
  ultimately have "ipc_rep ?s ?A" using mm by (simp add: ipc_rep_def)
  then show ?thesis using un(1) by blast
qed

lemma receiveMessage_spec:
  assumes rep: "ipc_rep s A"
  shows "\<exists>st out s' A'. MessageController_receiveMessage s target max' tx = Some (Inr (st, out, s')) \<and> ipc_rep s' A' \<and>
    (st, map_option message_value out, inbox A') = mailbox_receive (inbox A) target (unat max') tx"
proof (cases "A target")
  case None
  then have "inbox A target = []" by (simp add: inbox_def)
  moreover have "MessageController_receiveMessage s target max' tx = Some (Inr (MESSAGE_RECEIVE_STATUS_QUEUE_EMPTY, None, s))"
    using rep None by (auto simp: MessageController_receiveMessage_def ipc_rep_def queues_ok_def split: option.splits)
  ultimately show ?thesis using rep by (auto simp: mailbox_receive_def)
next
  case (Some x)
  obtain q ps where A: "A target = Some (q, ps)" using Some by (cases x) auto
  obtain hm where hm: "ipc_queues s = Some hm" "HashMap_get hm target = Some q"
    using rep A by (auto simp: ipc_rep_def queues_ok_def split: option.splits)
  obtain h where h: "q \<noteq> 0" "ipc_heads s q = Some h" "q_first h = first_of ps" "dseg (ipc_msgs s) 0 ps 0"
    using ipc_repD(1) [OF rep A] by (auto simp: queue_ok_def)
  have box: "inbox A target = map snd ps" using A by (simp add: inbox_def)
  have run: "MessageController_receiveMessage s target max' tx =
      obind (select_message (ipc_msgs s) h tx) (\<lambda>message.
        if message = 0 then Some (Inr (MESSAGE_RECEIVE_STATUS_QUEUE_EMPTY, None, s))
        else obind (Some (at (ipc_msgs s) message)) (\<lambda>m.
          let contentLen = m_message_len m in
          if max' < sizeof_MessageHeader + contentLen
          then Some (Inr (MESSAGE_RECEIVE_STATUS_EXCEEDS_BUFFER_SIZE, None, s))
          else obind (Some (unlink_message (ipc_msgs s) h message)) (\<lambda>(msgs, h').
                 Some (Inr (MESSAGE_RECEIVE_STATUS_SUCCESSFUL, Some m,
                   s\<lparr>ipc_msgs := msgs, ipc_mm := msg_release (ipc_mm s) message contentLen,
                      ipc_heads := (ipc_heads s)(q \<mapsto> h'\<lparr>q_total := q_total h' - contentLen\<rparr>)\<rparr>)))))"
    using hm h(1,2) by (simp add: MessageController_receiveMessage_def at_Inr select_message_def)
  from select_message_spec [OF h(4,3), of tx] show ?thesis
  proof (elim disjE exE conjE)
    assume "take_message tx (map snd ps) = None" "select_message (ipc_msgs s) h tx = Some (Inr 0)"
    then show ?thesis using run rep box by (auto simp: mailbox_receive_def)
  next
    fix xs p v ys
    assume ps: "ps = xs @ (p, v) # ys" and sel: "select_message (ipc_msgs s) h tx = Some (Inr p)"
      and tk: "take_message tx (map snd ps) = Some (v, map snd (xs @ ys))"
    obtain a t c where v: "v = (a, t, c)" by (cases v)
    obtain m where m: "p \<noteq> 0" "ipc_msgs s p = Some m" "carries m (a, t, c)" using h(4) ps v by (auto simp: dseg_append)
    have lc: "m_message_len m = of_nat (length c)" using m(3) by (simp add: carries_def)
    have "length c + 20 < 8192" using ipc_repD(1) [OF rep A] ps v by (auto simp: queue_ok_def)
    then have sz: "max' < sizeof_MessageHeader + of_nat (length c) \<longleftrightarrow> unat max' < length c + 20"
      using unat_header_size [of "length c"] by (simp add: word_less_nat_alt)
    obtain msgs h' where un: "unlink_message (ipc_msgs s) h p = Inr (msgs, h')"
        "ipc_rep (s\<lparr>ipc_msgs := msgs, ipc_mm := msg_release (ipc_mm s) p (of_nat (length c)),
               ipc_heads := (ipc_heads s)(q \<mapsto> h'\<lparr>q_total := q_total h' - of_nat (length c)\<rparr>)\<rparr>)
           (A(target \<mapsto> (q, xs @ ys)))"
      using remove_from_queue [OF rep _ h(2), of target xs p a t c ys] A ps v by blast
    have "inbox (A(target \<mapsto> (q, xs @ ys))) = (inbox A)(target := map snd (xs @ ys))" by (auto simp: inbox_def)
    then show ?thesis
      using run sel m lc sz un rep box tk v carries_value [OF m(3)]
      by (cases "unat max' < length c + 20") (auto simp: at_Inr Let_def mailbox_receive_def)
  qed
qed

section \<open>Clearing\<close>

lemma release_all_spec:
  assumes "dseg msgs prev ps 0" and "distinct (map fst ps)" and "fst ` set ps \<inter> fst ` L = {}"
    and "\<forall>(p, a, t, c) \<in> set ps. length c + 20 < 8192"
    and "mm_inv mm ((\<lambda>(p, v). (p, block_len v)) ` set ps \<union> L)"
  shows "\<exists>mm'. release_all msgs mm (first_of ps) = Some (Inr mm') \<and> mm_inv mm' L"
  using assms
proof (induction ps arbitrary: prev mm)
  case Nil
  then show ?case by (simp add: first_of_def release_all.simps)
next
  case (Cons pv ps)
  obtain p a t c where pv: "pv = (p, a, t, c)" by (cases pv) auto
  obtain x where x: "p \<noteq> 0" "msgs p = Some x" "carries x (a, t, c)" "m_next x = first_of ps" "dseg msgs p ps 0"
    using Cons.prems(1) pv by (auto simp: first_of_def)
  let ?L = "(\<lambda>(p, v). (p, block_len v)) ` set ps \<union> L" and ?mm = "msg_release mm p (of_nat (length c))"
  have len: "length c + 20 < 8192" using Cons.prems(4) pv by auto
  obtain k where k: "pool_of (sizeof_MessageHeader + of_nat (length c)) = Some k" "block_len (a, t, c) = unat (pool_size k)"
    using block_len_pool [OF len] by blast
  have "p \<notin> fst ` ?L" unfolding image_Un block_addresses using Cons.prems(2,3) pv by simp
  then have "mm_inv ?mm ?L" using Cons.prems(5) pv k x(1) by (intro msg_release_inv [where c = k]) auto
  then have "\<exists>mm'. release_all msgs ?mm (first_of ps) = Some (Inr mm') \<and> mm_inv mm' L"
    using Cons.IH [OF x(5)] Cons.prems(2-4) pv by auto
  moreover have "first_of (pv # ps) = p" by (simp add: first_of_def pv)
  moreover have "release_all msgs mm p = release_all msgs ?mm (first_of ps)"
    using x by (subst release_all.simps) (simp add: at_Inr carries_def)
  ultimately show ?case by simp
qed

lemma clear_spec:
  assumes rep: "ipc_rep s A"
  shows "\<exists>s' A'. MessageController_clear s tid = Some (Inr s') \<and> ipc_rep s' A' \<and> inbox A' = (inbox A)(tid := [])"
proof (cases "A tid")
  case None
  then have "MessageController_clear s tid = Some (Inr s)"
    using rep by (auto simp: MessageController_clear_def ipc_rep_def queues_ok_def split: option.splits)
  moreover have "inbox A = (inbox A)(tid := [])" using None by (auto simp: inbox_def)
  ultimately show ?thesis using rep by auto
next
  case (Some x)
  obtain q ps where A: "A tid = Some (q, ps)" using Some by (cases x) auto
  obtain hm where hm: "ipc_queues s = Some hm" "HashMap_get hm tid = Some q" "hm_inv hm"
      "\<And>t. HashMap_get hm t = map_option fst (A t)"
    using rep A by (auto simp: ipc_rep_def queues_ok_def split: option.splits)
  obtain h where h: "q \<noteq> 0" "ipc_heads s q = Some h" "q_first h = first_of ps" "dseg (ipc_msgs s) 0 ps 0"
      "distinct (map fst ps)" "\<forall>(p, a, t, c) \<in> set ps. length c + 20 < 8192"
    using ipc_repD(1) [OF rep A] by (auto simp: queue_ok_def)
  let ?A = "A(tid := None)"
  have sep: "separate A" and mm: "mm_inv (ipc_mm s) (mail_blocks A)" using rep by (simp_all add: ipc_rep_def)
  have rest: "mail_blocks ?A = (\<Union>u \<in> - {tid}. queue_blocks (A u))" by (simp add: mail_blocks_upd)
  have blocks: "mail_blocks A = (\<lambda>(p, v). (p, block_len v)) ` set ps \<union> insert (q, 12) (mail_blocks ?A)"
    using mail_blocks_split [of A tid] A unfolding rest by auto
  have dis: "fst ` set ps \<inter> fst ` insert (q, 12) (mail_blocks ?A) = {}" "q \<notin> fst ` mail_blocks ?A"
    using other_blocks [OF sep A] ipc_repD(2) [OF rep A] unfolding rest by auto
  obtain mm' where r: "release_all (ipc_msgs s) (ipc_mm s) (first_of ps) = Some (Inr mm')"
      "mm_inv mm' (insert (q, 12) (mail_blocks ?A))"
    using release_all_spec [OF h(4,5) dis(1) h(6)] mm blocks by auto
  obtain kh where kh: "KernelHeap_free (mm_heap mm') q = Some (Inr kh)" "mm_inv (mm'\<lparr>mm_heap := kh\<rparr>) (mail_blocks ?A)"
    using kernel_delete [OF r(2) dis(2)] by blast
  let ?s = "s\<lparr>ipc_mm := mm'\<lparr>mm_heap := kh\<rparr>, ipc_queues := Some (HashMap_erase hm tid)\<rparr>"
  have "MessageController_clear s tid = Some (Inr ?s)"
    using hm(1,2) h(1-3) r(1) kh(1) by (simp add: MessageController_clear_def at_Inr)
  moreover have "ipc_rep ?s ?A"
  proof -
    have "queue_ok ?s r qs = queue_ok s r qs" for r qs by (simp add: queue_ok_def)
    moreover have "queues_ok ?s ?A" using hm(3,4) by (auto simp: queues_ok_def hm.get_erase hm.invar_erase)
    moreover have "separate ?A" using sep by (auto simp: separate_def split: if_splits)
    ultimately show ?thesis using rep kh(2) by (auto simp: ipc_rep_def)
  qed
  moreover have "inbox ?A = (inbox A)(tid := [])" by (auto simp: inbox_def)
  ultimately show ?thesis by blast
qed

section \<open>Runs of the message controller\<close>

datatype ipc_call =
    Send u32 u32 "u8 list" u32
  | Receive u32 u32 u32
  | Clear u32

datatype ipc_reply =
    Sent MessageSendStatus
  | Received MessageReceiveStatus "msgv option"
  | Cleared

fun ipc_step :: "ipc \<Rightarrow> ipc_call \<Rightarrow> (ipc_reply \<times> ipc) kres option" where
  "ipc_step s (Send target source content tx) =
     obind (MessageController_sendMessage s target source content (of_nat (length content)) tx) (\<lambda>(st, s). Some (Inr (Sent st, s)))"
| "ipc_step s (Receive target max' tx) =
     obind (MessageController_receiveMessage s target max' tx) (\<lambda>(st, out, s). Some (Inr (Received st (map_option message_value out), s)))"
| "ipc_step s (Clear tid) = obind (MessageController_clear s tid) (\<lambda>s. Some (Inr (Cleared, s)))"

fun mail_step :: "(u32 \<Rightarrow> msgv list) \<Rightarrow> ipc_call \<Rightarrow> ipc_reply \<times> (u32 \<Rightarrow> msgv list)" where
  "mail_step M (Send target source content tx) = (let (st, M') = mailbox_send M target (source, tx, content) in (Sent st, M'))"
| "mail_step M (Receive target max' tx) = (let (st, out, M') = mailbox_receive M target (unat max') tx in (Received st out, M'))"
| "mail_step M (Clear tid) = (Cleared, M(tid := []))"

fun ipc_run :: "ipc \<Rightarrow> ipc_call list \<Rightarrow> (ipc_reply list \<times> ipc) kres option" where
  "ipc_run s [] = Some (Inr ([], s))"
| "ipc_run s (c # cs) = obind (ipc_step s c) (\<lambda>(r, s). obind (ipc_run s cs) (\<lambda>(rs, s). Some (Inr (r # rs, s))))"

fun mail_run :: "(u32 \<Rightarrow> msgv list) \<Rightarrow> ipc_call list \<Rightarrow> ipc_reply list \<times> (u32 \<Rightarrow> msgv list)" where
  "mail_run M [] = ([], M)"
| "mail_run M (c # cs) = (let (r, M) = mail_step M c; (rs, M) = mail_run M cs in (r # rs, M))"

fun call_ok :: "ipc_call \<Rightarrow> bool" where
  "call_ok (Send target source content tx) = (length content < 2 ^ 32)"
| "call_ok c = True"

lemma ipc_step_refines:
  assumes "ipc_rep s A" and "call_ok c"
  shows "\<exists>r. ipc_step s c = Some r \<and>
    (\<forall>x s'. r = Inr (x, s') \<longrightarrow> (\<exists>A'. ipc_rep s' A' \<and> mail_step (inbox A) c = (x, inbox A')))"
proof (cases c)
  case (Send target source content tx)
  obtain r where r: "MessageController_sendMessage s target source content (of_nat (length content)) tx = Some r"
      "\<And>st s'. r = Inr (st, s') \<Longrightarrow> (\<exists>A'. ipc_rep s' A' \<and> (st, inbox A') = mailbox_send (inbox A) target (source, tx, content))"
    using sendMessage_spec [OF assms(1), of content target source tx] assms(2) Send by auto
  show ?thesis
  proof (cases r)
    case (Inr y)
    obtain st s' where y: "r = Inr (st, s')" using Inr by (cases y) auto
    obtain A' where "ipc_rep s' A'" "(st, inbox A') = mailbox_send (inbox A) target (source, tx, content)" using r(2) [OF y] by blast
    moreover from this(2) [symmetric] have "mail_step (inbox A) c = (Sent st, inbox A')" by (simp add: Send)
    ultimately show ?thesis using r(1) y Send by auto
  qed (use r(1) Send in auto)
next
  case (Receive target max' tx)
  obtain st out s' A' where "MessageController_receiveMessage s target max' tx = Some (Inr (st, out, s'))" "ipc_rep s' A'"
      "(st, map_option message_value out, inbox A') = mailbox_receive (inbox A) target (unat max') tx"
    using receiveMessage_spec [OF assms(1), of target max' tx] by blast
  moreover from this(3) [symmetric] have "mail_step (inbox A) c = (Received st (map_option message_value out), inbox A')"
    by (simp add: Receive)
  ultimately show ?thesis using Receive by auto
next
  case (Clear tid)
  obtain s' A' where "MessageController_clear s tid = Some (Inr s')" "ipc_rep s' A'" "inbox A' = (inbox A)(tid := [])"
    using clear_spec [OF assms(1), of tid] by blast
  then show ?thesis using Clear by auto
qed

lemma ipc_run_refines:
  assumes "ipc_rep s A" and "\<forall>c \<in> set cs. call_ok c"
  shows "\<exists>r. ipc_run s cs = Some r \<and>
    (\<forall>xs s'. r = Inr (xs, s') \<longrightarrow> (\<exists>A'. ipc_rep s' A' \<and> mail_run (inbox A) cs = (xs, inbox A')))"
  using assms
proof (induction cs arbitrary: s A)
  case Nil
  then show ?case by auto
next
  case (Cons c cs)
  obtain r where r: "ipc_step s c = Some r"
      "\<And>x s'. r = Inr (x, s') \<Longrightarrow> (\<exists>A'. ipc_rep s' A' \<and> mail_step (inbox A) c = (x, inbox A'))"
    using ipc_step_refines [OF Cons.prems(1), of c] Cons.prems(2) by auto
  show ?case
  proof (cases r)
    case (Inr y)
    obtain x s1 where y: "r = Inr (x, s1)" using Inr by (cases y) auto
    obtain A1 where A1: "ipc_rep s1 A1" "mail_step (inbox A) c = (x, inbox A1)" using r(2) [OF y] by blast
    obtain r2 where r2: "ipc_run s1 cs = Some r2"
        "\<And>xs s'. r2 = Inr (xs, s') \<Longrightarrow> (\<exists>A'. ipc_rep s' A' \<and> mail_run (inbox A1) cs = (xs, inbox A'))"
      using Cons.IH [OF A1(1)] Cons.prems(2) by auto
    show ?thesis
    proof (cases r2)
      case (Inr z)
      obtain xs s2 where z: "r2 = Inr (xs, s2)" using Inr by (cases z) auto
      obtain A2 where "ipc_rep s2 A2" "mail_run (inbox A1) cs = (xs, inbox A2)" using r2(2) [OF z] by blast
      then show ?thesis using r(1) y r2(1) z A1(2) by auto
    qed (use r(1) y r2(1) in auto)
  qed (use r(1) in auto)
qed

section \<open>Properties\<close>

definition ipc_start :: "kernel_heap \<Rightarrow> ipc" where
  "ipc_start kh = \<lparr>ipc_queues = None, ipc_heads = Map.empty, ipc_msgs = Map.empty,
     ipc_mm = \<lparr>mm_pool = \<lambda>_. AddressStack_new, mm_heap = kh\<rparr>\<rparr>"

lemma ipc_start_rep: "kh_rep kh a bs \<Longrightarrow> ipc_rep (ipc_start kh) Map.empty"
  by (auto simp: ipc_rep_def ipc_start_def queues_ok_def separate_def mail_blocks_def mm_inv_def kh_owns_def pooled_def
      as_list_new as_inv_new)



text \<open>
  The message limit of 8192 bytes cannot be reached: a message of 8172 to 8192 bytes is within
  the limit \<open>sendMessage\<close> checks, yet with its header of 20 bytes it fits no pool, and sending it
  fails or finds the queue full, whatever the state of the queues.
\<close>

theorem message_limit_unreachable:
  assumes "ipc_rep s A" and "8172 \<le> length content" and "length content \<le> 8192"
  shows "\<exists>r. MessageController_sendMessage s target source content (of_nat (length content)) tx = Some r \<and>
    (case r of Inl e \<Rightarrow> True
     | Inr (st, s') \<Rightarrow> st = MESSAGE_SEND_STATUS_FAILED \<or> st = MESSAGE_SEND_STATUS_QUEUE_FULL)"
proof -
  obtain r where r: "MessageController_sendMessage s target source content (of_nat (length content)) tx = Some r"
      "\<And>st s'. r = Inr (st, s') \<Longrightarrow> (\<exists>A'. (st, inbox A') = mailbox_send (inbox A) target (source, tx, content))"
    using sendMessage_spec [OF assms(1), of content target source tx] assms(3) by auto
  have "st = MESSAGE_SEND_STATUS_FAILED \<or> st = MESSAGE_SEND_STATUS_QUEUE_FULL" if "r = Inr (st, s')" for st s'
    using r(2) [OF that] assms(2,3) by (auto simp: mailbox_send_def split: if_splits)
  then show ?thesis using r(1) by (intro exI [of _ r]) (auto split: sum.splits)
qed

theorem message_limit_unreachable_witness:
  "\<exists>r. MessageController_sendMessage (ipc_start small_kernel_heap) 7 3 (replicate 8192 0) 8192 0 = Some r \<and>
    (case r of Inl e \<Rightarrow> True
     | Inr (st, s') \<Rightarrow> st = MESSAGE_SEND_STATUS_FAILED \<or> st = MESSAGE_SEND_STATUS_QUEUE_FULL)"
  using message_limit_unreachable [OF ipc_start_rep [OF small_kernel_heap_rep], of "replicate 8192 0" 7 3 0] by simp

text \<open>
  C14. \<open>receiveMessage\<close> always returns, without a fault and whatever the buffer size: it reports an
  empty queue, a buffer that is too small, leaving the message where it is, or success, and then
  the message handed over fits the buffer together with its header.
\<close>

theorem message_receive_total:
  assumes "ipc_rep s A"
  shows "\<exists>st out s' A'. MessageController_receiveMessage s target max' tx = Some (Inr (st, out, s')) \<and> ipc_rep s' A' \<and>
    (case take_message tx (inbox A target) of
       None \<Rightarrow> st = MESSAGE_RECEIVE_STATUS_QUEUE_EMPTY \<and> out = None \<and> inbox A' = inbox A
     | Some ((a, t, c), rest) \<Rightarrow>
         if unat max' < 20 + length c
         then st = MESSAGE_RECEIVE_STATUS_EXCEEDS_BUFFER_SIZE \<and> out = None \<and> inbox A' = inbox A
         else st = MESSAGE_RECEIVE_STATUS_SUCCESSFUL \<and> map_option message_value out = Some (a, t, c) \<and>
              inbox A' = (inbox A)(target := rest))"
proof -
  obtain st out s' A' where r: "MessageController_receiveMessage s target max' tx = Some (Inr (st, out, s'))" "ipc_rep s' A'"
      "(st, map_option message_value out, inbox A') = mailbox_receive (inbox A) target (unat max') tx"
    using receiveMessage_spec [OF assms, of target max' tx] by blast
  from r(3) have "case take_message tx (inbox A target) of
       None \<Rightarrow> st = MESSAGE_RECEIVE_STATUS_QUEUE_EMPTY \<and> out = None \<and> inbox A' = inbox A
     | Some ((a, t, c), rest) \<Rightarrow>
         if unat max' < 20 + length c
         then st = MESSAGE_RECEIVE_STATUS_EXCEEDS_BUFFER_SIZE \<and> out = None \<and> inbox A' = inbox A
         else st = MESSAGE_RECEIVE_STATUS_SUCCESSFUL \<and> map_option message_value out = Some (a, t, c) \<and>
              inbox A' = (inbox A)(target := rest)"
    by (auto simp: mailbox_receive_def add.commute split: option.splits if_splits)
  with r(1,2) show ?thesis by blast
qed

theorem message_receive_total_witness:
  "\<exists>s'. MessageController_receiveMessage (ipc_start small_kernel_heap) 7 100 0 = Some (Inr (MESSAGE_RECEIVE_STATUS_QUEUE_EMPTY, None, s'))"
  using message_receive_total [OF ipc_start_rep [OF small_kernel_heap_rep], of 7 100 0]
  by (auto simp: inbox_def)

end
