(* ===== verification/FsPipes.thy ===== *)
theory FsPipes
  imports HashMap
begin

text \<open>
  The transaction store (filesystem/FsTransactionStore.cpp), the pipes (filesystem/pipes.cpp) and
  the file system delegate that reads and writes them (filesystem/FsDelegatePipe.cpp).

  A pipe object lives at an address; the ring buffer is the array of bytes at \<open>pi_buffer\<close>, and the
  read and write positions are addresses in it, computed with as in the code. The addresses that
  \<open>new\<close> returns, and the bytes a new array happens to hold, are arguments of \<open>create\<close>. The bytes
  that a read copies to the buffer of its caller are part of the result, a write takes the bytes
  of its caller as a list; a copy that would leave either array is a fault.
\<close>

section \<open>Transactions\<close>

datatype FsTransactionStatus = FS_TRANSACTION_WAITING | FS_TRANSACTION_FINISHED | FS_TRANSACTION_REPEAT

record fs_transactions =
  tx_next :: i64
  tx_store :: "(i64, FsTransactionStatus) hashmap"

definition FsTransactionStore_initialize :: fs_transactions where
  "FsTransactionStore_initialize = \<lparr>tx_next = 0, tx_store = HashMap_new\<rparr>"

definition FsTransactionStore_nextTransaction :: "fs_transactions \<Rightarrow> fs_transactions \<times> i64" where
  "FsTransactionStore_nextTransaction t = (t\<lparr>tx_next := tx_next t + 1\<rparr>, tx_next t)"

definition FsTransactionStore_getStatus :: "fs_transactions \<Rightarrow> i64 \<Rightarrow> FsTransactionStatus" where
  "FsTransactionStore_getStatus t id' =
     (case HashMap_get (tx_store t) id' of Some v \<Rightarrow> v | None \<Rightarrow> FS_TRANSACTION_FINISHED)"

definition FsTransactionStore_setStatus :: "fs_transactions \<Rightarrow> i64 \<Rightarrow> FsTransactionStatus \<Rightarrow> fs_transactions" where
  "FsTransactionStore_setStatus t id' result = t\<lparr>tx_store := HashMap_add (tx_store t) id' result\<rparr>"

definition FsTransactionStore_removeTransaction :: "fs_transactions \<Rightarrow> i64 \<Rightarrow> fs_transactions" where
  "FsTransactionStore_removeTransaction t id' = t\<lparr>tx_store := HashMap_erase (tx_store t) id'\<rparr>"

section \<open>Pipes\<close>

record pipe =
  pi_buffer :: u32
  pi_bytes :: "u8 list"
  pi_write :: u32
  pi_read :: u32
  pi_size :: u32
  pi_capacity :: u32
  pi_references :: "i32 list"

record pipes =
  ps_nextID :: i32
  ps_map :: "(i32, u32) hashmap"
  ps_objects :: "u32 \<Rightarrow> pipe option"

definition PIPE_DEFAULT_CAPACITY :: u32 where "PIPE_DEFAULT_CAPACITY = 0x400"

definition Pipes_initialize :: pipes where
  "Pipes_initialize = \<lparr>ps_nextID = 0, ps_map = HashMap_new, ps_objects = Map.empty\<rparr>"

text \<open>
  \<open>object\<close> and \<open>buffer\<close> are the results of the two \<open>new\<close>, \<open>bytes\<close> what the new array holds.
\<close>

definition Pipes_create :: "pipes \<Rightarrow> u32 \<Rightarrow> u32 \<Rightarrow> u8 list \<Rightarrow> (pipes \<times> i32) kres" where
  "Pipes_create ps object buffer bytes =
     (if object = 0 then Inl NullDeref
      else let pipe = \<lparr>pi_buffer = buffer, pi_bytes = bytes, pi_write = buffer, pi_read = buffer, pi_size = 0,
                       pi_capacity = PIPE_DEFAULT_CAPACITY, pi_references = []\<rparr>;
               ps' = ps\<lparr>ps_objects := (ps_objects ps)(object \<mapsto> pipe)\<rparr>
           in if buffer \<noteq> 0
              then Inr (ps'\<lparr>ps_nextID := ps_nextID ps + 1, ps_map := HashMap_add (ps_map ps) (ps_nextID ps) object\<rparr>, ps_nextID ps)
              else Inr (ps', - 1))"

definition Pipes_get :: "pipes \<Rightarrow> i32 \<Rightarrow> u32 option" where
  "Pipes_get ps id' = HashMap_get (ps_map ps) id'"

definition pipe_at :: "pipes \<Rightarrow> u32 \<Rightarrow> pipe kres" where
  "pipe_at ps p = (case ps_objects ps p of Some pipe \<Rightarrow> Inr pipe | None \<Rightarrow> Inl (BadPointer p))"

definition Pipes_addReference :: "pipes \<Rightarrow> i32 \<Rightarrow> i32 \<Rightarrow> pipes kres" where
  "Pipes_addReference ps id' pid =
     (case Pipes_get ps id' of
        None \<Rightarrow> Inr ps
      | Some p \<Rightarrow> kbind (pipe_at ps p) (\<lambda>pipe.
          Inr (ps\<lparr>ps_objects := (ps_objects ps)(p \<mapsto> pipe\<lparr>pi_references := pid # pi_references pipe\<rparr>)\<rparr>)))"

fun references_other :: "i32 list \<Rightarrow> i32 \<Rightarrow> bool" where
  "references_other [] pid = False"
| "references_other (entry # rest) pid = (if entry \<noteq> pid then True else references_other rest pid)"

definition Pipes_hasReferenceFromOtherProcess :: "pipe \<Rightarrow> i32 \<Rightarrow> bool" where
  "Pipes_hasReferenceFromOtherProcess pipe pid = references_other (pi_references pipe) pid"

text \<open>The loop of \<open>removeReference\<close> unlinks the first entry of the process.\<close>

fun unlink_reference :: "i32 list \<Rightarrow> i32 \<Rightarrow> i32 list" where
  "unlink_reference [] pid = []"
| "unlink_reference (entry # rest) pid = (if entry = pid then rest else entry # unlink_reference rest pid)"

definition Pipes_removeReference :: "pipes \<Rightarrow> i32 \<Rightarrow> i32 \<Rightarrow> pipes kres" where
  "Pipes_removeReference ps id' pid =
     (case Pipes_get ps id' of
        None \<Rightarrow> Inr ps
      | Some p \<Rightarrow> kbind (pipe_at ps p) (\<lambda>pipe.
          let pipe' = pipe\<lparr>pi_references := unlink_reference (pi_references pipe) pid\<rparr> in
          if pi_references pipe' = []
          then Inr (ps\<lparr>ps_map := HashMap_erase (ps_map ps) id', ps_objects := (ps_objects ps)(p := None)\<rparr>)
          else Inr (ps\<lparr>ps_objects := (ps_objects ps)(p \<mapsto> pipe')\<rparr>)))"

section \<open>The ring buffer\<close>

text \<open>Copies out of and into the array of bytes at an address, within its bounds.\<close>

definition array_get :: "u32 \<Rightarrow> u8 list \<Rightarrow> u32 \<Rightarrow> u32 \<Rightarrow> u8 list kres" where
  "array_get array bytes a n =
     (if unat (a - array) + unat n \<le> length bytes then Inr (take (unat n) (drop (unat (a - array)) bytes))
      else Inl (BadPointer a))"

definition array_put :: "u32 \<Rightarrow> u8 list \<Rightarrow> u32 \<Rightarrow> u8 list \<Rightarrow> u8 list kres" where
  "array_put array bytes a xs =
     (let i = unat (a - array) in
      if i + length xs \<le> length bytes then Inr (take i bytes @ xs @ drop (i + length xs) bytes)
      else Inl (BadPointer a))"

text \<open>
  The part of \<open>requestRead\<close> that copies bytes and moves the read position; the number of bytes it
  copies is the third component.
\<close>

definition pipe_copy_out :: "pipe \<Rightarrow> i64 \<Rightarrow> (pipe \<times> u8 list \<times> i64) kres" where
  "pipe_copy_out pipe len =
     (let length' = (if uint (pi_size pipe) \<ge> sint len then len else ucast (pi_size pipe));
          spaceToEnd = pi_buffer pipe + pi_capacity pipe - pi_read pipe;
          wrap = (\<lambda>pipe. if pi_read pipe = pi_buffer pipe + pi_capacity pipe then pipe\<lparr>pi_read := pi_buffer pipe\<rparr> else pipe)
      in if sint length' > uint spaceToEnd
         then kbind (array_get (pi_buffer pipe) (pi_bytes pipe) (pi_read pipe) spaceToEnd) (\<lambda>xs.
                let remaining = ucast (length' - ucast spaceToEnd) in
                kbind (array_get (pi_buffer pipe) (pi_bytes pipe) (pi_buffer pipe) remaining) (\<lambda>ys.
                  Inr (wrap (pipe\<lparr>pi_read := pi_buffer pipe + remaining\<rparr>), xs @ ys, length')))
         else kbind (array_get (pi_buffer pipe) (pi_bytes pipe) (pi_read pipe) (ucast length')) (\<lambda>xs.
                Inr (wrap (pipe\<lparr>pi_read := pi_read pipe + ucast length'\<rparr>), xs, length')))"

text \<open>
  The part of \<open>requestWrite\<close> that copies bytes into a pipe with room and moves the write position;
  \<open>array_get 0\<close> reads the buffer of the caller.
\<close>

definition pipe_copy_in :: "pipe \<Rightarrow> u8 list \<Rightarrow> i64 \<Rightarrow> (pipe \<times> i64) kres" where
  "pipe_copy_in pipe buffer len =
     (let space = pi_capacity pipe - pi_size pipe;
          length' = (if uint space \<ge> sint len then len else ucast space);
          spaceToEnd = pi_buffer pipe + pi_capacity pipe - pi_write pipe;
          wrap = (\<lambda>pipe. if pi_write pipe = pi_buffer pipe + pi_capacity pipe then pipe\<lparr>pi_write := pi_buffer pipe\<rparr> else pipe)
      in kbind
        (if sint length' > uint spaceToEnd
         then kbind (array_get 0 buffer 0 spaceToEnd) (\<lambda>xs.
              kbind (array_put (pi_buffer pipe) (pi_bytes pipe) (pi_write pipe) xs) (\<lambda>bytes.
                let remain = ucast (length' - ucast spaceToEnd) in
                kbind (array_get 0 buffer spaceToEnd remain) (\<lambda>ys.
                kbind (array_put (pi_buffer pipe) bytes (pi_buffer pipe) ys) (\<lambda>bytes'.
                  Inr (pipe\<lparr>pi_bytes := bytes', pi_write := pi_buffer pipe + remain\<rparr>)))))
         else kbind (array_get 0 buffer 0 (ucast length')) (\<lambda>xs.
              kbind (array_put (pi_buffer pipe) (pi_bytes pipe) (pi_write pipe) xs) (\<lambda>bytes.
                Inr (pipe\<lparr>pi_bytes := bytes, pi_write := pi_write pipe + ucast length'\<rparr>))))
        (\<lambda>pipe. Inr ((wrap pipe)\<lparr>pi_size := pi_size pipe + ucast length'\<rparr>, length')))"

section \<open>The delegate\<close>

datatype FsReadStatus = FS_READ_SUCCESSFUL | FS_READ_INVALID_FD | FS_READ_BUSY | FS_READ_ERROR
datatype FsWriteStatus = FS_WRITE_SUCCESSFUL | FS_WRITE_INVALID_FD | FS_WRITE_NOT_SUPPORTED | FS_WRITE_BUSY | FS_WRITE_ERROR
datatype FsLengthStatus = FS_LENGTH_SUCCESSFUL | FS_LENGTH_INVALID_FD | FS_LENGTH_NOT_FOUND | FS_LENGTH_BUSY | FS_LENGTH_ERROR

definition FS_TRANSACTION_NO_REPEAT_ID :: i64 where "FS_TRANSACTION_NO_REPEAT_ID = - 1"

text \<open>What a delegate uses of a read, write or length handler.\<close>

record 'status fs_handler =
  fh_repeatTransaction :: i64
  fh_result :: i64
  fh_status :: 'status

definition wantsRepeatTransaction :: "'status fs_handler \<Rightarrow> bool" where
  "wantsRepeatTransaction h \<longleftrightarrow> fh_repeatTransaction h \<noteq> FS_TRANSACTION_NO_REPEAT_ID"

definition prepareTransactionRepeat :: "'status fs_handler \<Rightarrow> i64 \<Rightarrow> 'status fs_handler" where
  "prepareTransactionRepeat h tr = h\<lparr>fh_repeatTransaction := tr\<rparr>"

definition start_or_repeat :: "fs_transactions \<Rightarrow> 'status fs_handler \<Rightarrow> fs_transactions \<times> i64" where
  "start_or_repeat t h =
     (if wantsRepeatTransaction h then (t, fh_repeatTransaction h) else FsTransactionStore_nextTransaction t)"

text \<open>The transactions and the pipes together, and the fields of a node that the delegate reads.\<close>

record fs_base =
  pf_transactions :: fs_transactions

record pipe_fs = fs_base +
  pf_pipes :: pipes

record pipe_node =
  pn_physFsID :: u64
  pn_isBlocking :: bool

definition finish_io ::
    "pipe_fs \<Rightarrow> i64 \<Rightarrow> 'status fs_handler \<Rightarrow> i64 \<Rightarrow> 'status \<Rightarrow> pipe_fs \<times> 'status fs_handler \<times> i64" where
  "finish_io s id' h result status =
     (s\<lparr>pf_transactions := FsTransactionStore_setStatus (pf_transactions s) id' FS_TRANSACTION_FINISHED\<rparr>,
      h\<lparr>fh_result := result, fh_status := status\<rparr>, id')"

definition repeat_io :: "pipe_fs \<Rightarrow> i64 \<Rightarrow> 'status fs_handler \<Rightarrow> pipe_fs \<times> 'status fs_handler \<times> i64" where
  "repeat_io s id' h =
     (s\<lparr>pf_transactions := FsTransactionStore_setStatus (pf_transactions s) id' FS_TRANSACTION_REPEAT\<rparr>, h, id')"

definition put_pipe :: "pipe_fs \<Rightarrow> u32 \<Rightarrow> pipe \<Rightarrow> pipe_fs" where
  "put_pipe s p pipe = s\<lparr>pf_pipes := (pf_pipes s)\<lparr>ps_objects := (ps_objects (pf_pipes s))(p \<mapsto> pipe)\<rparr>\<rparr>"

definition FsDelegatePipe_requestRead ::
    "pipe_fs \<Rightarrow> i32 \<Rightarrow> pipe_node \<Rightarrow> i64 \<Rightarrow> FsReadStatus fs_handler \<Rightarrow>
     ((pipe_fs \<times> FsReadStatus fs_handler \<times> i64) \<times> u8 list) kres" where
  "FsDelegatePipe_requestRead s pid node len h =
     (case start_or_repeat (pf_transactions s) h of (t, id') \<Rightarrow>
      let s = s\<lparr>pf_transactions := t\<rparr> in
      case Pipes_get (pf_pipes s) (ucast (pn_physFsID node)) of
        None \<Rightarrow> Inr (finish_io s id' h (- 1) FS_READ_ERROR, [])
      | Some p \<Rightarrow>
          kbind (pipe_at (pf_pipes s) p) (\<lambda>pipe.
          kbind (pipe_copy_out pipe len) (\<lambda>(pipe, bytes, length').
            let s = put_pipe s p pipe in
            if sint length' > 0 then
              Inr (finish_io (put_pipe s p (pipe\<lparr>pi_size := pi_size pipe - ucast length'\<rparr>)) id' h length' FS_READ_SUCCESSFUL, bytes)
            else if pn_isBlocking node then
              (if \<not> Pipes_hasReferenceFromOtherProcess pipe pid then Inr (finish_io s id' h 0 FS_READ_ERROR, bytes)
               else Inr (repeat_io s id' h, bytes))
            else Inr (finish_io s id' h 0 FS_READ_SUCCESSFUL, bytes))))"

definition FsDelegatePipe_requestWrite ::
    "pipe_fs \<Rightarrow> i32 \<Rightarrow> pipe_node \<Rightarrow> i64 \<Rightarrow> u8 list \<Rightarrow> FsWriteStatus fs_handler \<Rightarrow>
     (pipe_fs \<times> FsWriteStatus fs_handler \<times> i64) kres" where
  "FsDelegatePipe_requestWrite s pid node len buffer h =
     (case start_or_repeat (pf_transactions s) h of (t, id') \<Rightarrow>
      let s = s\<lparr>pf_transactions := t\<rparr> in
      case Pipes_get (pf_pipes s) (ucast (pn_physFsID node)) of
        None \<Rightarrow> Inr (finish_io s id' h (- 1) FS_WRITE_ERROR)
      | Some p \<Rightarrow>
          kbind (pipe_at (pf_pipes s) p) (\<lambda>pipe.
            if pi_capacity pipe - pi_size pipe > 0 then
              kbind (pipe_copy_in pipe buffer len) (\<lambda>(pipe, length').
                Inr (finish_io (put_pipe s p pipe) id' h length' FS_WRITE_SUCCESSFUL))
            else if pn_isBlocking node then
              (if Pipes_hasReferenceFromOtherProcess pipe pid then Inr (repeat_io s id' h)
               else Inr (finish_io s id' h (- 1) FS_WRITE_ERROR))
            else Inr (finish_io s id' h (- 1) FS_WRITE_SUCCESSFUL)))"

definition FsDelegatePipe_requestGetLength ::
    "pipe_fs \<Rightarrow> pipe_node \<Rightarrow> FsLengthStatus fs_handler \<Rightarrow> (pipe_fs \<times> FsLengthStatus fs_handler \<times> i64) kres" where
  "FsDelegatePipe_requestGetLength s node h =
     (case FsTransactionStore_nextTransaction (pf_transactions s) of (t, id') \<Rightarrow>
      let s = s\<lparr>pf_transactions := t\<rparr> in
      case Pipes_get (pf_pipes s) (ucast (pn_physFsID node)) of
        Some p \<Rightarrow> kbind (pipe_at (pf_pipes s) p) (\<lambda>pipe. Inr (finish_io s id' h (ucast (pi_capacity pipe)) FS_LENGTH_SUCCESSFUL))
      | None \<Rightarrow> Inr (finish_io s id' h (- 1) FS_LENGTH_ERROR))"

datatype FsDiscoveryStatus = FS_DISCOVERY_SUCCESSFUL | FS_DISCOVERY_NOT_FOUND | FS_DISCOVERY_BUSY | FS_DISCOVERY_ERROR
datatype FsOpenStatus = FS_OPEN_SUCCESSFUL | FS_OPEN_NOT_FOUND | FS_OPEN_ERROR | FS_OPEN_BUSY
datatype FsCloseStatus = FS_CLOSE_SUCCESSFUL | FS_CLOSE_INVALID_FD | FS_CLOSE_BUSY | FS_CLOSE_ERROR

text \<open>The requests that a pipe answers at once, with the new status of the handler.\<close>

definition answer_request :: "'a fs_base_scheme \<Rightarrow> 'status \<Rightarrow> 'a fs_base_scheme \<times> 'status \<times> i64" where
  "answer_request s status =
     (case FsTransactionStore_nextTransaction (pf_transactions s) of (t, id') \<Rightarrow>
      (s\<lparr>pf_transactions := FsTransactionStore_setStatus t id' FS_TRANSACTION_FINISHED\<rparr>, status, id'))"

definition FsDelegatePipe_requestDiscovery :: "pipe_fs \<Rightarrow> pipe_fs \<times> FsDiscoveryStatus \<times> i64" where
  "FsDelegatePipe_requestDiscovery s = answer_request s FS_DISCOVERY_ERROR"

definition FsDelegatePipe_requestOpen :: "pipe_fs \<Rightarrow> pipe_fs \<times> FsOpenStatus \<times> i64" where
  "FsDelegatePipe_requestOpen s = answer_request s FS_OPEN_ERROR"

definition FsDelegatePipe_requestClose :: "pipe_fs \<Rightarrow> pipe_fs \<times> FsCloseStatus \<times> i64" where
  "FsDelegatePipe_requestClose s = answer_request s FS_CLOSE_SUCCESSFUL"

datatype FsDirectoryRefreshStatus = FS_DIRECTORY_REFRESH_SUCCESSFUL | FS_DIRECTORY_REFRESH_ERROR | FS_DIRECTORY_REFRESH_BUSY

text \<open>The last component is the new \<open>contentsValid\<close> of the folder.\<close>

definition FsDelegatePipe_requestDirectoryRefresh :: "pipe_fs \<Rightarrow> (pipe_fs \<times> FsDirectoryRefreshStatus \<times> i64) \<times> bool" where
  "FsDelegatePipe_requestDirectoryRefresh s = (answer_request s FS_DIRECTORY_REFRESH_ERROR, True)"

section \<open>The ring buffer as a queue of bytes\<close>

definition pipe_offset :: "pipe \<Rightarrow> nat" where
  "pipe_offset p = unat (pi_read p) - unat (pi_buffer p)"

definition pipe_ok :: "pipe \<Rightarrow> bool" where
  "pipe_ok p \<longleftrightarrow>
     length (pi_bytes p) = unat (pi_capacity p) \<and> unat (pi_buffer p) + unat (pi_capacity p) < 2 ^ 32 \<and>
     unat (pi_buffer p) \<le> unat (pi_read p) \<and> pipe_offset p < unat (pi_capacity p) \<and> unat (pi_size p) \<le> unat (pi_capacity p) \<and>
     unat (pi_write p) = unat (pi_buffer p) + (pipe_offset p + unat (pi_size p)) mod unat (pi_capacity p)"

definition pipe_contents :: "pipe \<Rightarrow> u8 list" where
  "pipe_contents p = take (unat (pi_size p)) (rotate (pipe_offset p) (pi_bytes p))"

lemma length_contents: "pipe_ok p \<Longrightarrow> length (pipe_contents p) = unat (pi_size p)"
  by (simp add: pipe_contents_def pipe_ok_def)

text \<open>What the ring buffer holds when read from an offset, in one piece or in two.\<close>

lemma take_rotate:
  assumes "r < length xs" and "n \<le> length xs"
  shows "take n (rotate r xs) = (if r + n \<le> length xs then take n (drop r xs) else drop r xs @ take (n - (length xs - r)) xs)"
  using assms by (auto simp: rotate_drop_take)

lemma ring_read:
  assumes "r < length xs" and "n \<le> s" and "s \<le> length xs"
  shows "take n (take s (rotate r xs)) = take n (rotate r xs)"
    and "drop n (take s (rotate r xs)) = take (s - n) (rotate ((r + n) mod length xs) xs)"
proof -
  let ?X = "rotate r xs"
  show "take n (take s ?X) = take n ?X" using assms by (simp add: min_absorb1)
  have "rotate ((r + n) mod length xs) xs = rotate n ?X" by (simp add: rotate_rotate add.commute flip: rotate_conv_mod)
  also have "take (s - n) (rotate n ?X) = take (s - n) (drop n ?X)"
  proof (cases "n = length xs")
    case False
    then have "n mod length xs = n" using assms by simp
    then show ?thesis using assms by (simp add: rotate_drop_take)
  qed (use assms in simp)
  finally show "drop n (take s ?X) = take (s - n) (rotate ((r + n) mod length xs) xs)" by (simp add: drop_take)
qed

definition ring_put :: "nat \<Rightarrow> 'a list \<Rightarrow> 'a list \<Rightarrow> 'a list" where
  "ring_put w ys xs =
     (if w + length ys \<le> length xs then take w xs @ ys @ drop (w + length ys) xs
      else (let k = length xs - w in drop k ys @ drop (length ys - k) (take w xs) @ take k ys))"

lemma length_ring_put: "w < length xs \<Longrightarrow> length ys \<le> length xs \<Longrightarrow> length (ring_put w ys xs) = length xs"
  by (auto simp: ring_put_def Let_def)

lemma rotate_ring_put:
  assumes "w < length xs" and "length ys \<le> length xs"
  shows "rotate w (ring_put w ys xs) = ys @ drop (length ys) (rotate w xs)"
proof (cases "w + length ys \<le> length xs")
  case True
  then show ?thesis using assms by (simp add: ring_put_def rotate_drop_take add.commute)
next
  case False
  let ?k = "length xs - w"
  have "rotate w (ring_put w ys xs) = take ?k ys @ drop ?k ys @ drop (length ys - ?k) (take w xs)"
    using False assms length_ring_put [OF assms] by (simp add: rotate_drop_take ring_put_def Let_def)
  moreover have "drop (length ys) (rotate w xs) = drop (length ys - ?k) (take w xs)"
    using False assms by (simp add: rotate_drop_take)
  ultimately show ?thesis by simp
qed

lemma ring_write:
  assumes "r < length xs" and "s + length ys \<le> length xs" and w: "w = (r + s) mod length xs"
  shows "take (s + length ys) (rotate r (ring_put w ys xs)) = take s (rotate r xs) @ ys"
proof (cases "s = length xs")
  case True
  then show ?thesis using assms by (simp add: ring_put_def)
next
  case False
  let ?X = "rotate r xs" and ?X' = "rotate r (ring_put w ys xs)"
  have wl: "w < length xs" using assms(1) w by (cases xs) simp_all
  have l: "length ?X' = length xs" using length_ring_put [OF wl, of ys] assms(2) by simp
  have rot: "rotate s (rotate r zs) = rotate w zs" if "length zs = length xs" for zs :: "'a list"
    unfolding w by (simp add: rotate_rotate add.commute flip: that rotate_conv_mod)
  have s: "s mod length xs = s" using False assms(2) by simp
  have "drop s ?X' @ take s ?X' = rotate s ?X'" using s l by (simp add: rotate_drop_take)
  also have "\<dots> = ys @ drop (length ys) (rotate s ?X)"
    using rot [of "ring_put w ys xs"] rot [of xs] rotate_ring_put [OF wl, of ys] length_ring_put [OF wl, of ys] assms(2) by simp
  also have "rotate s ?X = drop s ?X @ take s ?X" using rotate_drop_take [of s ?X] s by simp
  also have "drop (length ys) (drop s ?X @ take s ?X) = drop (s + length ys) ?X @ take s ?X"
    using assms(2) by (simp add: add.commute)
  finally have "drop s ?X' = ys @ drop (s + length ys) ?X" "take s ?X' = take s ?X"
    using l assms(2) by (simp_all add: append_eq_append_conv flip: append_assoc)
  then have "?X' = take s ?X @ ys @ drop (s + length ys) ?X" by (metis append_take_drop_id)
  moreover have "length (take s ?X @ ys) = s + length ys" using assms(2) by simp
  ultimately show ?thesis by (metis append_assoc append_eq_conv_conj)
qed

section \<open>Copies in and out of a pipe\<close>

text \<open>Lengths are 64 bit numbers, offsets and sizes 32 bit ones.\<close>

lemma i64_nat:
  assumes "n < 2 ^ 32"
  shows "sint (of_nat n :: i64) = int n" and "ucast (of_nat n :: i64) = (of_nat n :: u32)"
proof -
  have "int n < int (2 ^ 32)" using assms unfolding of_nat_less_iff .
  then have "int n < 2 ^ 63" by simp
  moreover have "uint (of_nat n :: i64) = int n"
    using \<open>int n < 2 ^ 63\<close> by (simp add: unsigned_of_nat take_bit_nat_eq_self)
  moreover have "- (2 ^ 63) \<le> int n" by (rule order_trans [of _ 0]) simp_all
  ultimately show "sint (of_nat n :: i64) = int n"
    by (simp add: sint_uint signed_take_bit_int_eq_self)
  show "ucast (of_nat n :: i64) = (of_nat n :: u32)"
    using assms by (simp add: unsigned_of_nat take_bit_nat_eq_self)
qed

lemma i64_of_u32: "ucast (w :: u32) = (of_nat (unat w) :: i64)"
  by simp

lemma i64_minus:
  assumes "unat (w :: u32) \<le> n" and "n < 2 ^ 32"
  shows "ucast (of_nat n - ucast w :: i64) = (of_nat (n - unat w) :: u32)"
  unfolding i64_of_u32 of_nat_diff [OF assms(1), symmetric] using assms(2) by (intro i64_nat(2)) simp

lemma i64_nonneg: "0 \<le> sint (len :: i64) \<Longrightarrow> len = of_nat (nat (sint len))"
  by simp

lemma clamp_length:
  fixes len :: i64 and sz :: u32
  assumes "0 \<le> sint len" and "n = min (unat sz) (nat (sint len))"
  shows "(if uint sz \<ge> sint len then len else ucast sz) = of_nat n"
proof (cases "uint sz \<ge> sint len")
  case True
  then have "nat (sint len) \<le> unat sz" using uint_nat [of sz] by linarith
  then have n: "n = nat (sint len)" using assms(2) by (simp only: min_absorb2)
  have "len = of_nat n" unfolding n by (rule i64_nonneg [OF assms(1)])
  then show ?thesis using True by (simp only: if_True)
next
  case False
  then have "unat sz \<le> nat (sint len)" using uint_nat [of sz] by linarith
  then show ?thesis using False assms(2) by (simp add: min_absorb1)
qed

lemma ring_pointer:
  fixes B q C :: u32
  assumes "unat B + unat C < 2 ^ 32" and "unat B \<le> unat q" and "unat q \<le> unat B + unat C"
  shows "unat (q - B) = unat q - unat B" and "unat (B + C) = unat B + unat C"
    and "unat (B + C - q) = unat C - (unat q - unat B)"
proof -
  show q: "unat (q - B) = unat q - unat B" using assms(2) by (simp add: unat_sub word_le_nat_alt)
  show bc: "unat (B + C) = unat B + unat C" using assms(1) by (rule unat_add_lem32)
  then have "unat (B + C - q) = unat (B + C) - unat q" using assms(3) by (simp add: unat_sub word_le_nat_alt)
  then show "unat (B + C - q) = unat C - (unat q - unat B)" using bc assms by simp
qed

lemma unat_add_of_nat: "unat (b :: u32) + k < 2 ^ 32 \<Longrightarrow> unat (b + of_nat k) = unat b + k"
  by (subst unat_add_lem32) (simp_all add: unat_of_nat_u32)

lemma pipe_copy_out_spec:
  assumes ok: "pipe_ok p" and len: "0 \<le> sint len" and n: "n = min (unat (pi_size p)) (nat (sint len))"
  shows "\<exists>q. pipe_copy_out p len = Inr (p\<lparr>pi_read := q\<rparr>, take n (pipe_contents p), of_nat n) \<and>
    pipe_ok (p\<lparr>pi_read := q, pi_size := pi_size p - of_nat n\<rparr>) \<and>
    pipe_contents (p\<lparr>pi_read := q, pi_size := pi_size p - of_nat n\<rparr>) = drop n (pipe_contents p)"
proof -
  define B C r s where B: "B = unat (pi_buffer p)" and C: "C = unat (pi_capacity p)" and r: "r = pipe_offset p" and s: "s = unat (pi_size p)"
  have l: "length (pi_bytes p) = C" "r < C" "s \<le> C" "n \<le> s" "B + C < 2 ^ 32" "B \<le> unat (pi_read p)"
    using ok n by (simp_all add: pipe_ok_def B C r s)
  then have q: "unat (pi_read p) = B + r" by (simp add: r pipe_offset_def flip: B)
  note ptr = ring_pointer [of "pi_buffer p" "pi_capacity p" "pi_read p"]
  have e: "unat (pi_buffer p + pi_capacity p - pi_read p) = C - r" "unat (pi_read p - pi_buffer p) = r" "unat (pi_buffer p + pi_capacity p) = B + C"
    using ptr l q by (simp_all add: B C)
  have n32: "n < 2 ^ 32" using l by simp
  note c64 = i64_nat [OF n32]
  have take: "take n (pipe_contents p) = (if r + n \<le> C then take n (drop r (pi_bytes p)) else drop r (pi_bytes p) @ take (n - (C - r)) (pi_bytes p))"
    using ring_read(1) [of r "pi_bytes p" n s] take_rotate [of r "pi_bytes p" n] l by (simp add: pipe_contents_def flip: r s)
  define q' where "q' = pi_buffer p + of_nat ((r + n) mod C)"
  have uq: "unat q' = B + (r + n) mod C"
    using unat_add_of_nat [of "pi_buffer p" "(r + n) mod C"] l(2,5) mod_less_divisor [of C "r + n"] unfolding q'_def B by linarith
  have "((r + n) mod C + (s - n)) mod C = (r + s) mod C" using l(4) by (simp only: mod_add_left_eq) simp
  then have md: "((r + n) mod C + s - n) mod C = (r + s) mod C" using l(4) by simp
  have sz: "unat (pi_size p - of_nat n) = s - n"
    using l n32 by (simp add: unat_sub word_le_nat_alt unat_of_nat_u32 s)
  have "pipe_ok (p\<lparr>pi_read := q', pi_size := pi_size p - of_nat n\<rparr>)"
    using ok l uq sz md by (simp add: pipe_ok_def pipe_offset_def flip: B C s) (simp add: q)
  moreover have "pipe_contents (p\<lparr>pi_read := q', pi_size := pi_size p - of_nat n\<rparr>) = drop n (pipe_contents p)"
    using ring_read(2) [of r "pi_bytes p" n s] l uq sz q by (simp add: pipe_contents_def pipe_offset_def flip: B s)
  moreover have "pipe_copy_out p len = Inr (p\<lparr>pi_read := q'\<rparr>, take n (pipe_contents p), of_nat n)"
  proof (cases "r + n \<le> C")
    case True
    then have "\<not> uint (pi_buffer p + pi_capacity p - pi_read p) < int n" using e(1) by (simp add: uint_nat)
    moreover have "array_get (pi_buffer p) (pi_bytes p) (pi_read p) (of_nat n) = Inr (take n (pipe_contents p))"
      using True l e(2) n32 take by (simp add: array_get_def unat_of_nat_u32)
    moreover have "(if pi_read p + of_nat n = pi_buffer p + pi_capacity p then pi_buffer p else pi_read p + of_nat n) = q'"
    proof -
      have "unat (pi_read p + of_nat n) = B + (r + n)" using True l q n32 by (simp add: unat_add_lem32 unat_of_nat_u32)
      then have "pi_read p + of_nat n = pi_buffer p + pi_capacity p \<longleftrightarrow> r + n = C" using e(3) by (simp add: word_unat_eq_iff)
      moreover have "pi_read p + of_nat n = q'" if "r + n \<noteq> C" using that True uq \<open>unat (pi_read p + of_nat n) = B + (r + n)\<close> by (simp add: word_unat_eq_iff)
      ultimately show ?thesis by (auto simp: q'_def)
    qed
    ultimately show ?thesis unfolding pipe_copy_out_def clamp_length [OF len n] Let_def c64 by (auto split: if_splits)
  next
    case False
    then have m: "(r + n) mod C = n - (C - r)" using l by (simp add: mod_if add.commute)
    have "uint (pi_buffer p + pi_capacity p - pi_read p) < int n" using False e(1) l(2) uint_nat [of "pi_buffer p + pi_capacity p - pi_read p"] by linarith
    moreover have "array_get (pi_buffer p) (pi_bytes p) (pi_read p) (pi_buffer p + pi_capacity p - pi_read p) = Inr (drop r (pi_bytes p))"
      using l e by (simp add: array_get_def)
    moreover have "ucast (of_nat n - ucast (pi_buffer p + pi_capacity p - pi_read p) :: i64) = (of_nat (n - (C - r)) :: u32)"
      using i64_minus [of "pi_buffer p + pi_capacity p - pi_read p" n] False e(1) n32 l by simp
    moreover have "array_get (pi_buffer p) (pi_bytes p) (pi_buffer p) (of_nat (n - (C - r))) = Inr (take (n - (C - r)) (pi_bytes p))"
      using l n32 by (simp add: array_get_def unat_of_nat_u32)
    moreover have "q' \<noteq> pi_buffer p + pi_capacity p" using uq e(3) m l by (simp add: word_unat_eq_iff)
    moreover have "take n (pipe_contents p) = drop r (pi_bytes p) @ take (n - (C - r)) (pi_bytes p)" using take False by simp
    ultimately show ?thesis unfolding pipe_copy_out_def clamp_length [OF len n] Let_def c64 by (simp add: q'_def m)
  qed
  ultimately show ?thesis by blast
qed

lemma array_put_ring:
  assumes "length bytes = C" and "w < C" and "length xs \<le> C" and "\<not> w + length xs \<le> C"
    and "unat (a - B) = w" and "array_put B bytes a (take (C - w) xs) = Inr bytes'"
  shows "array_put B bytes' B (drop (C - w) xs) = Inr (ring_put w xs bytes)"
  using assms by (simp add: array_put_def ring_put_def Let_def split: if_splits) auto

lemma pipe_copy_in_spec:
  assumes ok: "pipe_ok p" and len: "0 \<le> sint len" and n: "n = min (unat (pi_capacity p) - unat (pi_size p)) (nat (sint len))"
    and buf: "n \<le> length buffer"
  shows "\<exists>b q. pipe_copy_in p buffer len = Inr (p\<lparr>pi_bytes := b, pi_write := q, pi_size := pi_size p + of_nat n\<rparr>, of_nat n) \<and>
    pipe_ok (p\<lparr>pi_bytes := b, pi_write := q, pi_size := pi_size p + of_nat n\<rparr>) \<and>
    pipe_contents (p\<lparr>pi_bytes := b, pi_write := q, pi_size := pi_size p + of_nat n\<rparr>) = pipe_contents p @ take n buffer"
proof -
  define B C r s where B: "B = unat (pi_buffer p)" and C: "C = unat (pi_capacity p)" and r: "r = pipe_offset p" and s: "s = unat (pi_size p)"
  define w where w: "w = (r + s) mod C"
  have "s \<le> C" "n \<le> C - s" using ok n by (simp_all add: pipe_ok_def C s)
  then have l: "length (pi_bytes p) = C" "r < C" "s + n \<le> C" "B + C < 2 ^ 32" "w < C" and uw: "unat (pi_write p) = B + w"
    using ok by (simp_all add: pipe_ok_def B C r s w)
  note ptr = ring_pointer [of "pi_buffer p" "pi_capacity p" "pi_write p"]
  have e: "unat (pi_buffer p + pi_capacity p - pi_write p) = C - w" "unat (pi_write p - pi_buffer p) = w" "unat (pi_buffer p + pi_capacity p) = B + C"
    using ptr l uw by (simp_all add: B C)
  have n32: "n < 2 ^ 32" using l by simp
  note c64 = i64_nat [OF n32]
  have "unat (pi_capacity p - pi_size p) = C - s" using l by (simp add: unat_sub word_le_nat_alt C s)
  then have n': "n = min (unat (pi_capacity p - pi_size p)) (nat (sint len))" using n by (simp add: C s)
  define xs where xs: "xs = take n buffer"
  have lx: "length xs = n" using buf by (simp add: xs)
  define q' where "q' = pi_buffer p + of_nat ((w + n) mod C)"
  have uq: "unat q' = B + (w + n) mod C"
    using unat_add_of_nat [of "pi_buffer p" "(w + n) mod C"] l(2,4) mod_less_divisor [of C "w + n"] unfolding q'_def B by linarith
  have sz: "unat (pi_size p + of_nat n) = s + n" using unat_add_of_nat [of "pi_size p" n] l by (simp add: s)
  let ?p = "p\<lparr>pi_bytes := ring_put w xs (pi_bytes p), pi_write := q', pi_size := pi_size p + of_nat n\<rparr>"
  have "(w + n) mod C = (r + (s + n)) mod C" by (simp add: w mod_add_left_eq add.assoc)
  then have "pipe_ok ?p"
    using ok l uq sz lx length_ring_put [of w "pi_bytes p" xs] by (simp add: pipe_ok_def pipe_offset_def flip: B C s) (simp add: r pipe_offset_def flip: B)
  moreover have "pipe_contents ?p = pipe_contents p @ take n buffer"
    using ring_write [of r "pi_bytes p" s xs w] l lx sz w by (simp add: pipe_contents_def pipe_offset_def flip: B s) (simp add: r xs pipe_offset_def flip: B)
  moreover have "pipe_copy_in p buffer len = Inr (?p, of_nat n)"
  proof (cases "w + n \<le> C")
    case True
    then have "\<not> uint (pi_buffer p + pi_capacity p - pi_write p) < int n" using e(1) by (simp add: uint_nat)
    moreover have "array_get 0 buffer 0 (of_nat n) = Inr xs" using buf n32 by (simp add: array_get_def unat_of_nat_u32 xs)
    moreover have "array_put (pi_buffer p) (pi_bytes p) (pi_write p) xs = Inr (ring_put w xs (pi_bytes p))"
      using True l e(2) lx by (simp add: array_put_def ring_put_def Let_def)
    moreover have "(if pi_write p + of_nat n = pi_buffer p + pi_capacity p then pi_buffer p else pi_write p + of_nat n) = q'"
    proof -
      have "unat (pi_write p + of_nat n) = B + (w + n)" using unat_add_of_nat [of "pi_write p" n] True l uw by simp
      then have "pi_write p + of_nat n = pi_buffer p + pi_capacity p \<longleftrightarrow> w + n = C" using e(3) by (simp add: word_unat_eq_iff)
      moreover have "pi_write p + of_nat n = q'" if "w + n \<noteq> C" using that True uq \<open>unat (pi_write p + of_nat n) = B + (w + n)\<close> by (simp add: word_unat_eq_iff)
      ultimately show ?thesis by (auto simp: q'_def)
    qed
    ultimately show ?thesis unfolding pipe_copy_in_def Let_def clamp_length [OF len n'] c64 by (auto split: if_splits)
  next
    case False
    let ?space = "pi_buffer p + pi_capacity p - pi_write p"
    have m: "(w + n) mod C = n - (C - w)" using False l by (simp add: mod_if add.commute)
    have "uint ?space < int n" using False e(1) l(5) uint_nat [of ?space] by linarith
    moreover have "array_get 0 buffer 0 ?space = Inr (take (C - w) xs)"
      using False l e buf by (simp add: array_get_def xs min_absorb1)
    moreover obtain bytes' where b: "array_put (pi_buffer p) (pi_bytes p) (pi_write p) (take (C - w) xs) = Inr bytes'"
      using False l e lx by (simp add: array_put_def Let_def)
    moreover have "ucast (of_nat n - ucast ?space :: i64) = (of_nat (n - (C - w)) :: u32)"
      using i64_minus [of ?space n] False e(1) n32 l by simp
    moreover have "array_get 0 buffer ?space (of_nat (n - (C - w))) = Inr (drop (C - w) xs)"
    proof -
      have "unat (of_nat (n - (C - w)) :: u32) = n - (C - w)" using n32 by (intro unat_of_nat_u32) linarith
      moreover have "C - w + (n - (C - w)) \<le> length buffer" using False l buf by linarith
      ultimately show ?thesis using e(1) by (simp only: array_get_def xs drop_take diff_0_right if_True)
    qed
    moreover have "array_put (pi_buffer p) bytes' (pi_buffer p) (drop (C - w) xs) = Inr (ring_put w xs (pi_bytes p))"
      by (rule array_put_ring [OF l(1) l(5) _ _ e(2) b]) (use False lx l in simp_all)
    moreover have "q' \<noteq> pi_buffer p + pi_capacity p" using uq e(3) m l by (simp add: word_unat_eq_iff)
    ultimately show ?thesis unfolding pipe_copy_in_def Let_def clamp_length [OF len n'] c64 by (simp add: q'_def m)
  qed
  ultimately show ?thesis by blast
qed

section \<open>The pipes as queues of bytes\<close>

record apipe =
  ap_bytes :: "u8 list"
  ap_references :: "i32 list"

definition pipe_abs :: "pipe \<Rightarrow> apipe" where
  "pipe_abs p = \<lparr>ap_bytes = pipe_contents p, ap_references = pi_references p\<rparr>"

definition pipes_abs :: "pipes \<Rightarrow> i32 \<Rightarrow> apipe option" where
  "pipes_abs ps id' = (case Pipes_get ps id' of None \<Rightarrow> None | Some p \<Rightarrow> map_option pipe_abs (ps_objects ps p))"

text \<open>
  The pipes of the map are well formed and have the default capacity, and no two share an object.
\<close>

definition pipes_ok :: "pipes \<Rightarrow> bool" where
  "pipes_ok ps \<longleftrightarrow> hm_inv (ps_map ps) \<and> inj_on (Pipes_get ps) (dom (Pipes_get ps)) \<and>
     (\<forall>id' p. Pipes_get ps id' = Some p \<longrightarrow> (\<exists>pipe. ps_objects ps p = Some pipe \<and> pipe_ok pipe \<and> pi_capacity pipe = PIPE_DEFAULT_CAPACITY))"

definition fs_ok :: "pipe_fs \<Rightarrow> bool" where
  "fs_ok s \<longleftrightarrow> pipes_ok (pf_pipes s) \<and> hm_inv (tx_store (pf_transactions s))"

lemma pipes_ok_get:
  assumes "pipes_ok ps" and "Pipes_get ps id' = Some p"
  obtains pipe where "ps_objects ps p = Some pipe" "pipe_ok pipe" "pi_capacity pipe = PIPE_DEFAULT_CAPACITY"
    "pipes_abs ps id' = Some (pipe_abs pipe)"
  using assms by (fastforce simp: pipes_ok_def pipes_abs_def)

lemma pipes_abs_None: "pipes_ok ps \<Longrightarrow> pipes_abs ps id' = None \<longleftrightarrow> Pipes_get ps id' = None"
  using pipes_ok_get [of ps id'] by (auto simp: pipes_abs_def split: option.splits)

lemma pipes_abs_Some:
  assumes ok: "pipes_ok ps" and q: "pipes_abs ps id' = Some q"
  obtains p pipe where "Pipes_get ps id' = Some p" "ps_objects ps p = Some pipe" "pipe_ok pipe"
    "pi_capacity pipe = PIPE_DEFAULT_CAPACITY" "q = pipe_abs pipe"
proof (cases "Pipes_get ps id'")
  case None
  then show ?thesis using q by (simp add: pipes_abs_def)
next
  case (Some p)
  then show ?thesis using pipes_ok_get [OF ok Some] q that by (metis option.inject)
qed

text \<open>An operation that replaces the object of one pipe replaces that one queue.\<close>

lemma pipes_update:
  assumes ok: "pipes_ok ps" and g: "Pipes_get ps id' = Some p" and q: "pipe_ok q" "pi_capacity q = PIPE_DEFAULT_CAPACITY"
  shows "pipes_ok (ps\<lparr>ps_objects := (ps_objects ps)(p \<mapsto> q)\<rparr>)"
    and "pipes_abs (ps\<lparr>ps_objects := (ps_objects ps)(p \<mapsto> q)\<rparr>) = (pipes_abs ps)(id' \<mapsto> pipe_abs q)"
proof -
  let ?ps = "ps\<lparr>ps_objects := (ps_objects ps)(p \<mapsto> q)\<rparr>"
  have get: "Pipes_get ?ps = Pipes_get ps" by (rule ext) (simp add: Pipes_get_def)
  show "pipes_ok ?ps" using ok q unfolding pipes_ok_def get by auto
  have other: "i = id'" if "Pipes_get ps i = Some p" for i
    using ok g that unfolding pipes_ok_def by (metis domI inj_onD)
  have "pipes_abs ?ps i = ((pipes_abs ps)(id' \<mapsto> pipe_abs q)) i" for i
    using g other [of i] by (cases "Pipes_get ps i") (auto simp: pipes_abs_def get)
  then show "pipes_abs ?ps = (pipes_abs ps)(id' \<mapsto> pipe_abs q)" by (rule ext)
qed

lemma pipe_ok_references [simp]:
  "pipe_ok (p\<lparr>pi_references := rs\<rparr>) = pipe_ok p" "pipe_contents (p\<lparr>pi_references := rs\<rparr>) = pipe_contents p"
  by (simp_all add: pipe_ok_def pipe_contents_def pipe_offset_def)

lemma unlink_reference_remove1: "unlink_reference rs pid = remove1 pid rs"
  by (induction rs) auto

lemma references_other_iff: "references_other rs pid \<longleftrightarrow> (\<exists>r \<in> set rs. r \<noteq> pid)"
  by (induction rs) auto

lemma initialize_ok: "pipes_ok Pipes_initialize" "pipes_abs Pipes_initialize = Map.empty"
  by (auto simp: pipes_ok_def Pipes_initialize_def Pipes_get_def [abs_def] pipes_abs_def hm_laws HashMap_get_empty)

lemma create_spec:
  assumes ok: "pipes_ok ps" and o: "object \<noteq> 0" "ps_objects ps object = None"
    and b: "buffer \<noteq> 0" "unat buffer + 0x400 < 2 ^ 32" "length bytes = 0x400"
  shows "\<exists>ps'. Pipes_create ps object buffer bytes = Inr (ps', ps_nextID ps) \<and> pipes_ok ps' \<and>
    pipes_abs ps' = (pipes_abs ps)(ps_nextID ps \<mapsto> \<lparr>ap_bytes = [], ap_references = []\<rparr>)"
proof -
  let ?q = "\<lparr>pi_buffer = buffer, pi_bytes = bytes, pi_write = buffer, pi_read = buffer, pi_size = 0,
    pi_capacity = PIPE_DEFAULT_CAPACITY, pi_references = []\<rparr>"
  let ?ps = "ps\<lparr>ps_objects := (ps_objects ps)(object \<mapsto> ?q), ps_nextID := ps_nextID ps + 1, ps_map := HashMap_add (ps_map ps) (ps_nextID ps) object\<rparr>"
  have inv: "hm_inv (ps_map ps)" using ok by (simp add: pipes_ok_def)
  have get: "Pipes_get ?ps = (Pipes_get ps)(ps_nextID ps \<mapsto> object)"
    by (rule ext) (simp add: Pipes_get_def hm_laws inv)
  have fresh: "Pipes_get ps i \<noteq> Some object" for i using ok o(2) by (fastforce simp: pipes_ok_def)
  have q: "pipe_ok ?q" "pipe_abs ?q = \<lparr>ap_bytes = [], ap_references = []\<rparr>"
    using b by (simp_all add: pipe_ok_def pipe_offset_def PIPE_DEFAULT_CAPACITY_def pipe_abs_def pipe_contents_def)
  have inj: "inj_on (Pipes_get ps) (dom (Pipes_get ps))" using ok by (simp add: pipes_ok_def)
  have "inj_on ((Pipes_get ps)(ps_nextID ps \<mapsto> object)) (dom ((Pipes_get ps)(ps_nextID ps \<mapsto> object)))"
    using inj fresh by (auto simp: inj_on_def dom_def)
  then have "pipes_ok ?ps"
    using ok q(1) fresh unfolding pipes_ok_def get by (auto simp: hm_laws inv)
  moreover have "pipes_abs ?ps = (pipes_abs ps)(ps_nextID ps \<mapsto> pipe_abs ?q)"
  proof
    fix i
    show "pipes_abs ?ps i = ((pipes_abs ps)(ps_nextID ps \<mapsto> pipe_abs ?q)) i"
      using fresh [of i] by (cases "Pipes_get ps i") (auto simp: pipes_abs_def get)
  qed
  ultimately show ?thesis using o b(1) q(2) by (simp add: Pipes_create_def Let_def)
qed

lemma addReference_spec:
  assumes ok: "pipes_ok ps"
  shows "\<exists>ps'. Pipes_addReference ps id' pid = Inr ps' \<and> pipes_ok ps' \<and>
    pipes_abs ps' = (case pipes_abs ps id' of None \<Rightarrow> pipes_abs ps | Some a \<Rightarrow> (pipes_abs ps)(id' \<mapsto> a\<lparr>ap_references := pid # ap_references a\<rparr>))"
proof (cases "Pipes_get ps id'")
  case None
  then show ?thesis using ok by (simp add: Pipes_addReference_def pipes_abs_def)
next
  case (Some p)
  then obtain q where q: "ps_objects ps p = Some q" "pipe_ok q" "pi_capacity q = PIPE_DEFAULT_CAPACITY" "pipes_abs ps id' = Some (pipe_abs q)"
    using pipes_ok_get [OF ok] by blast
  then show ?thesis
    using pipes_update [OF ok Some, of "q\<lparr>pi_references := pid # pi_references q\<rparr>"] Some
    by (simp add: Pipes_addReference_def pipe_at_def pipe_abs_def)
qed

lemma removeReference_spec:
  assumes ok: "pipes_ok ps"
  shows "\<exists>ps'. Pipes_removeReference ps id' pid = Inr ps' \<and> pipes_ok ps' \<and>
    pipes_abs ps' = (case pipes_abs ps id' of None \<Rightarrow> pipes_abs ps
      | Some a \<Rightarrow> let rs = remove1 pid (ap_references a) in
          (pipes_abs ps)(id' := if rs = [] then None else Some (a\<lparr>ap_references := rs\<rparr>)))"
proof (cases "Pipes_get ps id'")
  case None
  then show ?thesis using ok by (simp add: Pipes_removeReference_def pipes_abs_def)
next
  case (Some p)
  then obtain q where q: "ps_objects ps p = Some q" "pipe_ok q" "pi_capacity q = PIPE_DEFAULT_CAPACITY" "pipes_abs ps id' = Some (pipe_abs q)"
    using pipes_ok_get [OF ok] by blast
  show ?thesis
  proof (cases "remove1 pid (pi_references q) = []")
    case False
    then show ?thesis
      using pipes_update [OF ok Some, of "q\<lparr>pi_references := remove1 pid (pi_references q)\<rparr>"] Some q
      by (simp add: Pipes_removeReference_def pipe_at_def pipe_abs_def unlink_reference_remove1 Let_def)
  next
    case True
    let ?ps = "ps\<lparr>ps_map := HashMap_erase (ps_map ps) id', ps_objects := (ps_objects ps)(p := None)\<rparr>"
    have inv: "hm_inv (ps_map ps)" "inj_on (Pipes_get ps) (dom (Pipes_get ps))" using ok by (simp_all add: pipes_ok_def)
    have get: "Pipes_get ?ps = (Pipes_get ps)(id' := None)" by (rule ext) (simp add: Pipes_get_def hm_laws inv)
    have other: "i = id'" if "Pipes_get ps i = Some p" for i using inv(2) Some that by (metis domI inj_onD)
    have "inj_on ((Pipes_get ps)(id' := None)) (dom ((Pipes_get ps)(id' := None)))"
      using inv(2) by (auto simp: inj_on_def dom_def)
    then have "pipes_ok ?ps" using ok other unfolding pipes_ok_def get by (auto simp: hm_laws inv)
    moreover have "pipes_abs ?ps = (pipes_abs ps)(id' := None)"
    proof
      fix i
      show "pipes_abs ?ps i = ((pipes_abs ps)(id' := None)) i"
        using other [of i] by (cases "Pipes_get ps i") (auto simp: pipes_abs_def get)
    qed
    ultimately show ?thesis using Some q True
      by (simp add: Pipes_removeReference_def pipe_at_def pipe_abs_def unlink_reference_remove1 Let_def)
  qed
qed

section \<open>Requests\<close>

lemma start_or_repeat_store [simp]: "tx_store (fst (start_or_repeat t h)) = tx_store t"
  by (simp add: start_or_repeat_def FsTransactionStore_nextTransaction_def)

lemma setStatus_simps [simp]:
  "tx_next (FsTransactionStore_setStatus t i st) = tx_next t"
  "hm_inv (tx_store t) \<Longrightarrow> hm_inv (tx_store (FsTransactionStore_setStatus t i st))"
  "hm_inv (tx_store t) \<Longrightarrow> FsTransactionStore_getStatus (FsTransactionStore_setStatus t i st) j = (if j = i then st else FsTransactionStore_getStatus t j)"
  by (simp_all add: FsTransactionStore_setStatus_def FsTransactionStore_getStatus_def hm_laws)

lemma requestRead_spec:
  assumes ok: "pipes_ok (pf_pipes s)" and g: "Pipes_get (pf_pipes s) (ucast (pn_physFsID node)) = Some p"
    and o: "ps_objects (pf_pipes s) p = Some pipe" and len: "0 \<le> sint len"
    and n: "n = min (unat (pi_size pipe)) (nat (sint len))" and t: "start_or_repeat (pf_transactions s) h = (t, tid)"
  shows "\<exists>q. pipe_ok q \<and> pi_capacity q = pi_capacity pipe \<and> pi_references q = pi_references pipe \<and> pipe_contents q = drop n (pipe_contents pipe) \<and>
    FsDelegatePipe_requestRead s pid node len h =
      Inr (let s' = put_pipe (s\<lparr>pf_transactions := t\<rparr>) p q in
           if 0 < n then finish_io s' tid h (of_nat n) FS_READ_SUCCESSFUL
           else if pn_isBlocking node then
             (if references_other (pi_references pipe) pid then repeat_io s' tid h else finish_io s' tid h 0 FS_READ_ERROR)
           else finish_io s' tid h 0 FS_READ_SUCCESSFUL,
         take n (pipe_contents pipe))"
proof -
  have pok: "pipe_ok pipe" using pipes_ok_get [OF ok g] o by force
  obtain q where q: "pipe_copy_out pipe len = Inr (pipe\<lparr>pi_read := q\<rparr>, take n (pipe_contents pipe), of_nat n)"
      "pipe_ok (pipe\<lparr>pi_read := q, pi_size := pi_size pipe - of_nat n\<rparr>)"
      "pipe_contents (pipe\<lparr>pi_read := q, pi_size := pi_size pipe - of_nat n\<rparr>) = drop n (pipe_contents pipe)"
    using pipe_copy_out_spec [OF pok len n] by blast
  have n32: "n < 2 ^ 32" using n u32_bound [of "pi_size pipe"] by simp
  then have "sint (of_nat n :: i64) > 0 \<longleftrightarrow> 0 < n" by (simp add: i64_nat)
  then show ?thesis
    using g o t q i64_nat(2) [OF n32]
    by (intro exI [of _ "pipe\<lparr>pi_read := q, pi_size := pi_size pipe - of_nat n\<rparr>"])
      (simp add: FsDelegatePipe_requestRead_def pipe_at_def put_pipe_def Pipes_hasReferenceFromOtherProcess_def Let_def)
qed

lemma requestWrite_spec:
  assumes ok: "pipes_ok (pf_pipes s)" and g: "Pipes_get (pf_pipes s) (ucast (pn_physFsID node)) = Some p"
    and o: "ps_objects (pf_pipes s) p = Some pipe" and len: "0 \<le> sint len"
    and n: "n = min (unat (pi_capacity pipe) - unat (pi_size pipe)) (nat (sint len))" and b: "n \<le> length buffer"
    and t: "start_or_repeat (pf_transactions s) h = (t, tid)"
  shows "\<exists>q. pipe_ok q \<and> pi_capacity q = pi_capacity pipe \<and> pi_references q = pi_references pipe \<and> pipe_contents q = pipe_contents pipe @ take n buffer \<and>
    FsDelegatePipe_requestWrite s pid node len buffer h =
      Inr (let s' = put_pipe (s\<lparr>pf_transactions := t\<rparr>) p q in
           if unat (pi_size pipe) < unat (pi_capacity pipe) then finish_io s' tid h (of_nat n) FS_WRITE_SUCCESSFUL
           else if pn_isBlocking node then
             (if references_other (pi_references pipe) pid then repeat_io s' tid h else finish_io s' tid h (- 1) FS_WRITE_ERROR)
           else finish_io s' tid h (- 1) FS_WRITE_SUCCESSFUL)"
proof -
  have pok: "pipe_ok pipe" using pipes_ok_get [OF ok g] o by force
  then have sz: "unat (pi_size pipe) \<le> unat (pi_capacity pipe)" by (simp add: pipe_ok_def)
  then have room: "pi_capacity pipe - pi_size pipe > 0 \<longleftrightarrow> unat (pi_size pipe) < unat (pi_capacity pipe)"
    by (simp add: word_less_nat_alt unat_sub word_le_nat_alt)
  show ?thesis
  proof (cases "unat (pi_size pipe) < unat (pi_capacity pipe)")
    case True
    obtain b' q where "pipe_copy_in pipe buffer len = Inr (pipe\<lparr>pi_bytes := b', pi_write := q, pi_size := pi_size pipe + of_nat n\<rparr>, of_nat n)"
        "pipe_ok (pipe\<lparr>pi_bytes := b', pi_write := q, pi_size := pi_size pipe + of_nat n\<rparr>)"
        "pipe_contents (pipe\<lparr>pi_bytes := b', pi_write := q, pi_size := pi_size pipe + of_nat n\<rparr>) = pipe_contents pipe @ take n buffer"
      using pipe_copy_in_spec [OF pok len n b] by blast
    then show ?thesis
      using g o t True room by (intro exI [of _ "pipe\<lparr>pi_bytes := b', pi_write := q, pi_size := pi_size pipe + of_nat n\<rparr>"])
        (simp add: FsDelegatePipe_requestWrite_def pipe_at_def Let_def)
  next
    case False
    then have "n = 0" using n sz by simp
    moreover have "put_pipe (s\<lparr>pf_transactions := t\<rparr>) p pipe = s\<lparr>pf_transactions := t\<rparr>"
      using o by (simp add: put_pipe_def fun_upd_idem)
    moreover have "\<not> pi_capacity pipe - pi_size pipe > 0" using False room by simp
    ultimately show ?thesis
      using g o t False pok by (intro exI [of _ pipe])
        (simp add: FsDelegatePipe_requestWrite_def pipe_at_def Pipes_hasReferenceFromOtherProcess_def Let_def)
  qed
qed

section \<open>Runs of the pipe file system\<close>

text \<open>
  The specification: a map from pipe identifiers to queues of at most 1024 bytes and their
  references. A step yields nothing where the specification does not allow it: bytes that are not
  the oldest ones of the queue, or more bytes than there is room for.
\<close>

datatype pipe_event = Created i32 | Referenced i32 i32 | Released i32 i32 | Took i32 "u8 list" | Gave i32 "u8 list"

fun queue_step :: "pipe_event \<Rightarrow> (i32 \<Rightarrow> apipe option) \<Rightarrow> (i32 \<Rightarrow> apipe option) option" where
  "queue_step (Created id') a = Some (a(id' \<mapsto> \<lparr>ap_bytes = [], ap_references = []\<rparr>))"
| "queue_step (Referenced id' pid) a =
     Some (case a id' of None \<Rightarrow> a | Some q \<Rightarrow> a(id' \<mapsto> q\<lparr>ap_references := pid # ap_references q\<rparr>))"
| "queue_step (Released id' pid) a =
     Some (case a id' of None \<Rightarrow> a
           | Some q \<Rightarrow> let rs = remove1 pid (ap_references q) in a(id' := if rs = [] then None else Some (q\<lparr>ap_references := rs\<rparr>)))"
| "queue_step (Took id' xs) a =
     (case a id' of None \<Rightarrow> if xs = [] then Some a else None
      | Some q \<Rightarrow> if xs = take (length xs) (ap_bytes q) then Some (a(id' \<mapsto> q\<lparr>ap_bytes := drop (length xs) (ap_bytes q)\<rparr>)) else None)"
| "queue_step (Gave id' xs) a =
     (case a id' of None \<Rightarrow> if xs = [] then Some a else None
      | Some q \<Rightarrow> if length (ap_bytes q) + length xs \<le> 0x400 then Some (a(id' \<mapsto> q\<lparr>ap_bytes := ap_bytes q @ xs\<rparr>)) else None)"

fun queue_run :: "pipe_event list \<Rightarrow> (i32 \<Rightarrow> apipe option) \<Rightarrow> (i32 \<Rightarrow> apipe option) option" where
  "queue_run [] a = Some a"
| "queue_run (e # es) a = Option.bind (queue_step e a) (queue_run es)"

fun taken :: "i32 \<Rightarrow> pipe_event list \<Rightarrow> u8 list" where
  "taken id' [] = []"
| "taken id' (Took i xs # es) = (if i = id' then xs @ taken id' es else taken id' es)"
| "taken id' (e # es) = taken id' es"

fun given :: "i32 \<Rightarrow> pipe_event list \<Rightarrow> u8 list" where
  "given id' [] = []"
| "given id' (Gave i xs # es) = (if i = id' then xs @ given id' es else given id' es)"
| "given id' (e # es) = given id' es"

lemma queue_step_dead:
  assumes "queue_step e a = Some a'" and "a id' = None" and "e \<noteq> Created id'"
  shows "a' id' = None \<and> taken id' [e] = [] \<and> given id' [e] = []"
  using assms by (cases e) (auto simp: Let_def split: option.splits if_splits)

lemma queue_step_fifo:
  assumes "queue_step e a = Some a'" and "a id' = Some q" and "a' id' = Some q'" and "e \<noteq> Created id'"
  shows "ap_bytes q @ given id' [e] = taken id' [e] @ ap_bytes q'"
  using assms by (cases e) (auto simp: Let_def split: option.splits if_splits, (metis append_take_drop_id)?)

lemma taken_given_Cons: "taken id' (e # es) = taken id' [e] @ taken id' es" "given id' (e # es) = given id' [e] @ given id' es"
  by (cases e; simp)+

lemma queue_run_dead:
  assumes "queue_run es a = Some a'" and "a id' = None" and "Created id' \<notin> set es"
  shows "a' id' = None"
  using assms
proof (induction es arbitrary: a)
  case (Cons e es)
  then show ?case using queue_step_dead [of e a _ id'] by (auto simp: bind_eq_Some_conv)
qed simp

lemma queue_run_fifo:
  assumes "queue_run es a = Some a'" and "a id' = Some q" and "a' id' = Some q'" and "Created id' \<notin> set es"
  shows "ap_bytes q @ given id' es = taken id' es @ ap_bytes q'"
  using assms
proof (induction es arbitrary: a q)
  case (Cons e es)
  then obtain b where b: "queue_step e a = Some b" "queue_run es b = Some a'" by (auto simp: bind_eq_Some_conv)
  have c: "e \<noteq> Created id'" "Created id' \<notin> set es" using Cons.prems by auto
  obtain r where r: "b id' = Some r" using queue_run_dead [OF b(2) _ c(2)] Cons.prems(3) by (cases "b id'") auto
  have "ap_bytes q @ given id' [e] = taken id' [e] @ ap_bytes r" by (rule queue_step_fifo [OF b(1) Cons.prems(2) r c(1)])
  moreover have "ap_bytes r @ given id' es = taken id' es @ ap_bytes q'" by (rule Cons.IH [OF b(2) r Cons.prems(3) c(2)])
  ultimately show ?case unfolding taken_given_Cons [of id' e es] by (metis append_assoc)
qed simp

text \<open>
  What a client of the pipes relies on: every step is one the specification allows. A run of such
  a system is a run of the queues, and what comes out of a queue went into it, in order.
\<close>

locale queue_system =
  fixes step :: "'s \<Rightarrow> pipe_event \<Rightarrow> 's \<Rightarrow> bool"
    and ok :: "'s \<Rightarrow> bool"
    and queues :: "'s \<Rightarrow> i32 \<Rightarrow> apipe option"
  assumes step_ok: "ok s \<Longrightarrow> step s e s' \<Longrightarrow> ok s'"
    and step_queues: "ok s \<Longrightarrow> step s e s' \<Longrightarrow> queue_step e (queues s) = Some (queues s')"
begin

lemma run_queues:
  "labelled_run step s es s' \<Longrightarrow> ok s \<Longrightarrow> ok s' \<and> queue_run es (queues s) = Some (queues s')"
  by (induction rule: labelled_run.induct) (auto simp: step_queues intro: step_ok)

lemma run_fifo:
  assumes "labelled_run step s es s'" and "ok s" and "queues s id' = Some q" and "queues s' id' = Some q'" and "Created id' \<notin> set es"
  shows "ap_bytes q @ given id' es = taken id' es @ ap_bytes q'"
  using run_queues [OF assms(1,2)] queue_run_fifo [of es "queues s" "queues s'", OF _ assms(3-5)] by blast

end

text \<open>
  The steps of the pipe file system: an object or a buffer that \<open>new\<close> returns is none of those in
  use and lies within the address space, and the lengths are those of system calls, 32 bit
  numbers that the caller's buffers have room for. A fresh write handler carries the error status,
  so that the bytes a finished write has accepted are those its result counts.
\<close>

inductive pipe_step :: "pipe_fs \<Rightarrow> pipe_event \<Rightarrow> pipe_fs \<Rightarrow> bool" where
  create: "pipe_step s (Created id') (s\<lparr>pf_pipes := ps\<rparr>)"
    if "object \<noteq> 0" "ps_objects (pf_pipes s) object = None" "buffer \<noteq> 0" "unat buffer + 0x400 < 2 ^ 32" "length bytes = 0x400"
      "Pipes_create (pf_pipes s) object buffer bytes = Inr (ps, id')"
| reference: "pipe_step s (Referenced id' pid) (s\<lparr>pf_pipes := ps\<rparr>)"
    if "Pipes_addReference (pf_pipes s) id' pid = Inr ps"
| release: "pipe_step s (Released id' pid) (s\<lparr>pf_pipes := ps\<rparr>)"
    if "Pipes_removeReference (pf_pipes s) id' pid = Inr ps"
| pread: "pipe_step s (Took (ucast (pn_physFsID node)) bytes) s'"
    if "FsDelegatePipe_requestRead s pid node (ucast (len :: u32)) h = Inr ((s', h', tid), bytes)"
| pwrite: "pipe_step s (Gave (ucast (pn_physFsID node)) (if fh_status h' = FS_WRITE_SUCCESSFUL then take (nat (sint (fh_result h'))) buffer else [])) s'"
    if "unat (len :: u32) \<le> length buffer" "fh_status h = FS_WRITE_ERROR"
      "FsDelegatePipe_requestWrite s pid node (ucast len) buffer h = Inr (s', h', tid)"

definition pipe_fs_initial :: pipe_fs where
  "pipe_fs_initial = \<lparr>pf_transactions = FsTransactionStore_initialize, pf_pipes = Pipes_initialize\<rparr>"

lemma u32_length: "sint (ucast (len :: u32) :: i64) = int (unat len)"
  using i64_nat(1) [OF u32_bound [of len]] by simp

lemma pipe_fs_initial_ok: "fs_ok pipe_fs_initial"
  by (simp add: fs_ok_def pipe_fs_initial_def initialize_ok FsTransactionStore_initialize_def hm_laws)

lemma put_pipe_ok:
  assumes "fs_ok s" and "Pipes_get (pf_pipes s) id' = Some p" and "pipe_ok q" and "pi_capacity q = PIPE_DEFAULT_CAPACITY" and "tx_store t = tx_store (pf_transactions s)"
  shows "fs_ok (put_pipe (s\<lparr>pf_transactions := t\<rparr>) p q)"
    and "pipes_abs (pf_pipes (put_pipe (s\<lparr>pf_transactions := t\<rparr>) p q)) = (pipes_abs (pf_pipes s))(id' \<mapsto> pipe_abs q)"
  using assms pipes_update [of "pf_pipes s" id' p q] by (simp_all add: fs_ok_def put_pipe_def)

text \<open>What a request makes of the specification, on every branch.\<close>

definition tx_status :: "pipe_fs \<Rightarrow> i64 \<Rightarrow> FsTransactionStatus" where
  "tx_status s tid = FsTransactionStore_getStatus (pf_transactions s) tid"

definition read_outcome :: "apipe \<Rightarrow> i32 \<Rightarrow> bool \<Rightarrow> nat \<Rightarrow> FsReadStatus fs_handler \<Rightarrow> FsReadStatus fs_handler \<times> FsTransactionStatus" where
  "read_outcome q pid blocking len h =
     (let n = min len (length (ap_bytes q)) in
      if 0 < n then (h\<lparr>fh_result := of_nat n, fh_status := FS_READ_SUCCESSFUL\<rparr>, FS_TRANSACTION_FINISHED)
      else if \<not> blocking then (h\<lparr>fh_result := 0, fh_status := FS_READ_SUCCESSFUL\<rparr>, FS_TRANSACTION_FINISHED)
      else if set (ap_references q) \<subseteq> {pid} then (h\<lparr>fh_result := 0, fh_status := FS_READ_ERROR\<rparr>, FS_TRANSACTION_FINISHED)
      else (h, FS_TRANSACTION_REPEAT))"

definition write_outcome :: "apipe \<Rightarrow> i32 \<Rightarrow> bool \<Rightarrow> nat \<Rightarrow> FsWriteStatus fs_handler \<Rightarrow> FsWriteStatus fs_handler \<times> FsTransactionStatus" where
  "write_outcome q pid blocking len h =
     (if length (ap_bytes q) < 0x400
      then (h\<lparr>fh_result := of_nat (min len (0x400 - length (ap_bytes q))), fh_status := FS_WRITE_SUCCESSFUL\<rparr>, FS_TRANSACTION_FINISHED)
      else if \<not> blocking then (h\<lparr>fh_result := - 1, fh_status := FS_WRITE_SUCCESSFUL\<rparr>, FS_TRANSACTION_FINISHED)
      else if set (ap_references q) \<subseteq> {pid} then (h\<lparr>fh_result := - 1, fh_status := FS_WRITE_ERROR\<rparr>, FS_TRANSACTION_FINISHED)
      else (h, FS_TRANSACTION_REPEAT))"

lemma requestRead_outcome:
  assumes ok: "fs_ok s" and q: "pipes_abs (pf_pipes s) (ucast (pn_physFsID node)) = Some q"
  shows "\<exists>s' tid. FsDelegatePipe_requestRead s pid node (ucast (len :: u32)) h =
      Inr ((s', fst (read_outcome q pid (pn_isBlocking node) (unat len) h), tid), take (unat len) (ap_bytes q)) \<and>
    tx_status s' tid = snd (read_outcome q pid (pn_isBlocking node) (unat len) h) \<and> fs_ok s' \<and>
    pipes_abs (pf_pipes s') = (pipes_abs (pf_pipes s))(ucast (pn_physFsID node) \<mapsto> q\<lparr>ap_bytes := drop (unat len) (ap_bytes q)\<rparr>)"
proof -
  have pok: "pipes_ok (pf_pipes s)" using ok by (simp add: fs_ok_def)
  obtain p pipe where g: "Pipes_get (pf_pipes s) (ucast (pn_physFsID node)) = Some p"
    and p: "ps_objects (pf_pipes s) p = Some pipe" "pipe_ok pipe" "pi_capacity pipe = PIPE_DEFAULT_CAPACITY" "q = pipe_abs pipe"
    by (rule pipes_abs_Some [OF pok q])
  define n where n: "n = min (unat (pi_size pipe)) (nat (sint (ucast len :: i64)))"
  have n': "n = min (unat len) (length (ap_bytes q))" using length_contents [OF p(2)] by (simp add: n u32_length p(4) pipe_abs_def min.commute)
  obtain t tid where t: "start_or_repeat (pf_transactions s) h = (t, tid)" by fastforce
  have ts: "tx_store t = tx_store (pf_transactions s)" using start_or_repeat_store [of "pf_transactions s" h] t by simp
  obtain r where r: "pipe_ok r" "pi_capacity r = PIPE_DEFAULT_CAPACITY" "pi_references r = pi_references pipe" "pipe_contents r = drop n (pipe_contents pipe)"
    and req: "FsDelegatePipe_requestRead s pid node (ucast len) h =
      Inr (let s' = put_pipe (s\<lparr>pf_transactions := t\<rparr>) p r in
           if 0 < n then finish_io s' tid h (of_nat n) FS_READ_SUCCESSFUL
           else if pn_isBlocking node then
             (if references_other (pi_references pipe) pid then repeat_io s' tid h else finish_io s' tid h 0 FS_READ_ERROR)
           else finish_io s' tid h 0 FS_READ_SUCCESSFUL,
         take n (pipe_contents pipe))"
    using requestRead_spec [OF pok g p(1) _ n t, of pid] p(3) by (auto simp: u32_length)
  have c: "take n (pipe_contents pipe) = take (unat len) (ap_bytes q)" "drop n (pipe_contents pipe) = drop (unat len) (ap_bytes q)"
    unfolding n' by (simp_all add: p(4) pipe_abs_def min_def)
  have a: "pipe_abs r = q\<lparr>ap_bytes := drop (unat len) (ap_bytes q)\<rparr>" using r c(2) by (simp add: pipe_abs_def p(4))
  have other: "references_other (pi_references pipe) pid \<longleftrightarrow> \<not> set (ap_references q) \<subseteq> {pid}"
    by (auto simp: references_other_iff p(4) pipe_abs_def)
  note put = put_pipe_ok [OF ok g r(1,2) ts]
  have hm: "hm_inv (tx_store (pf_transactions (put_pipe (s\<lparr>pf_transactions := t\<rparr>) p r)))" using put(1) by (simp add: fs_ok_def)
  show ?thesis unfolding req c(1) using put hm a other n'
    by (auto simp: read_outcome_def Let_def finish_io_def repeat_io_def tx_status_def fs_ok_def)
qed

lemma requestWrite_outcome:
  assumes ok: "fs_ok s" and q: "pipes_abs (pf_pipes s) (ucast (pn_physFsID node)) = Some q" and b: "unat (len :: u32) \<le> length buffer"
  shows "\<exists>s' tid. FsDelegatePipe_requestWrite s pid node (ucast len) buffer h =
      Inr (s', fst (write_outcome q pid (pn_isBlocking node) (unat len) h), tid) \<and>
    tx_status s' tid = snd (write_outcome q pid (pn_isBlocking node) (unat len) h) \<and> fs_ok s' \<and> length (ap_bytes q) \<le> 0x400 \<and>
    pipes_abs (pf_pipes s') = (pipes_abs (pf_pipes s))
      (ucast (pn_physFsID node) \<mapsto> q\<lparr>ap_bytes := ap_bytes q @ take (min (unat len) (0x400 - length (ap_bytes q))) buffer\<rparr>)"
proof -
  have pok: "pipes_ok (pf_pipes s)" using ok by (simp add: fs_ok_def)
  obtain p pipe where g: "Pipes_get (pf_pipes s) (ucast (pn_physFsID node)) = Some p"
    and p: "ps_objects (pf_pipes s) p = Some pipe" "pipe_ok pipe" "pi_capacity pipe = PIPE_DEFAULT_CAPACITY" "q = pipe_abs pipe"
    by (rule pipes_abs_Some [OF pok q])
  have cap: "unat (pi_capacity pipe) = 0x400" using p(3) by (simp add: PIPE_DEFAULT_CAPACITY_def)
  have sz: "unat (pi_size pipe) = length (ap_bytes q)" "length (ap_bytes q) \<le> 0x400"
    using length_contents [OF p(2)] p(2) cap by (simp_all add: p(4) pipe_abs_def pipe_ok_def)
  define n where n: "n = min (unat (pi_capacity pipe) - unat (pi_size pipe)) (nat (sint (ucast len :: i64)))"
  have n': "n = min (unat len) (0x400 - length (ap_bytes q))" using sz cap by (simp add: n u32_length min.commute)
  then have nb: "n \<le> length buffer" using b by simp
  obtain t tid where t: "start_or_repeat (pf_transactions s) h = (t, tid)" by fastforce
  have ts: "tx_store t = tx_store (pf_transactions s)" using start_or_repeat_store [of "pf_transactions s" h] t by simp
  obtain r where r: "pipe_ok r" "pi_capacity r = PIPE_DEFAULT_CAPACITY" "pi_references r = pi_references pipe" "pipe_contents r = pipe_contents pipe @ take n buffer"
    and req: "FsDelegatePipe_requestWrite s pid node (ucast len) buffer h =
      Inr (let s' = put_pipe (s\<lparr>pf_transactions := t\<rparr>) p r in
           if unat (pi_size pipe) < unat (pi_capacity pipe) then finish_io s' tid h (of_nat n) FS_WRITE_SUCCESSFUL
           else if pn_isBlocking node then
             (if references_other (pi_references pipe) pid then repeat_io s' tid h else finish_io s' tid h (- 1) FS_WRITE_ERROR)
           else finish_io s' tid h (- 1) FS_WRITE_SUCCESSFUL)"
    using requestWrite_spec [OF pok g p(1) _ n nb t, of pid] p(3) by (auto simp: u32_length)
  have a: "pipe_abs r = q\<lparr>ap_bytes := ap_bytes q @ take n buffer\<rparr>" using r by (simp add: pipe_abs_def p(4))
  have other: "references_other (pi_references pipe) pid \<longleftrightarrow> \<not> set (ap_references q) \<subseteq> {pid}"
    by (auto simp: references_other_iff p(4) pipe_abs_def)
  note put = put_pipe_ok [OF ok g r(1,2) ts]
  have hm: "hm_inv (tx_store (pf_transactions (put_pipe (s\<lparr>pf_transactions := t\<rparr>) p r)))" using put(1) by (simp add: fs_ok_def)
  show ?thesis unfolding req sz(1) cap n' [symmetric] using put hm a other sz(2) n'
    by (auto simp: write_outcome_def Let_def finish_io_def repeat_io_def tx_status_def fs_ok_def)
qed

lemma request_missing:
  assumes "fs_ok s" and "pipes_abs (pf_pipes s) (ucast (pn_physFsID node)) = None"
  shows "\<exists>s' tid. FsDelegatePipe_requestRead s pid node len h = Inr ((s', h\<lparr>fh_result := - 1, fh_status := FS_READ_ERROR\<rparr>, tid), []) \<and>
      tx_status s' tid = FS_TRANSACTION_FINISHED \<and> fs_ok s' \<and> pf_pipes s' = pf_pipes s"
    and "\<exists>s' tid. FsDelegatePipe_requestWrite s pid node len buffer h' = Inr (s', h'\<lparr>fh_result := - 1, fh_status := FS_WRITE_ERROR\<rparr>, tid) \<and>
      tx_status s' tid = FS_TRANSACTION_FINISHED \<and> fs_ok s' \<and> pf_pipes s' = pf_pipes s"
proof -
  have g: "Pipes_get (pf_pipes s) (ucast (pn_physFsID node)) = None" using assms pipes_abs_None by (simp add: fs_ok_def)
  have hm: "hm_inv (tx_store t)" if "start_or_repeat (pf_transactions s) k = (t, i)" for t i and k :: "'x fs_handler"
    using assms(1) start_or_repeat_store [of "pf_transactions s" k] that by (simp add: fs_ok_def)
  show "\<exists>s' tid. FsDelegatePipe_requestRead s pid node len h = Inr ((s', h\<lparr>fh_result := - 1, fh_status := FS_READ_ERROR\<rparr>, tid), []) \<and>
      tx_status s' tid = FS_TRANSACTION_FINISHED \<and> fs_ok s' \<and> pf_pipes s' = pf_pipes s"
    using g assms(1) hm [of h]
    by (cases "start_or_repeat (pf_transactions s) h") (auto simp: FsDelegatePipe_requestRead_def finish_io_def tx_status_def fs_ok_def Let_def)
  show "\<exists>s' tid. FsDelegatePipe_requestWrite s pid node len buffer h' = Inr (s', h'\<lparr>fh_result := - 1, fh_status := FS_WRITE_ERROR\<rparr>, tid) \<and>
      tx_status s' tid = FS_TRANSACTION_FINISHED \<and> fs_ok s' \<and> pf_pipes s' = pf_pipes s"
    using g assms(1) hm [of h']
    by (cases "start_or_repeat (pf_transactions s) h'") (auto simp: FsDelegatePipe_requestWrite_def finish_io_def tx_status_def fs_ok_def Let_def)
qed

lemma read_refines:
  assumes ok: "fs_ok s" and r: "FsDelegatePipe_requestRead s pid node (ucast (len :: u32)) h = Inr ((s', h', tid), bytes)"
  shows "fs_ok s' \<and> queue_step (Took (ucast (pn_physFsID node)) bytes) (pipes_abs (pf_pipes s)) = Some (pipes_abs (pf_pipes s'))"
proof (cases "pipes_abs (pf_pipes s) (ucast (pn_physFsID node))")
  case None
  then show ?thesis using request_missing(1) [OF ok None, of pid "ucast len" h] r by auto
next
  case (Some q)
  then show ?thesis using requestRead_outcome [OF ok Some, of pid len h] r by (auto simp: min_def)
qed

lemma write_refines:
  assumes ok: "fs_ok s" and b: "unat (len :: u32) \<le> length buffer" and h: "fh_status h = FS_WRITE_ERROR"
    and r: "FsDelegatePipe_requestWrite s pid node (ucast len) buffer h = Inr (s', h', tid)"
  shows "fs_ok s' \<and> queue_step (Gave (ucast (pn_physFsID node)) (if fh_status h' = FS_WRITE_SUCCESSFUL then take (nat (sint (fh_result h'))) buffer else []))
    (pipes_abs (pf_pipes s)) = Some (pipes_abs (pf_pipes s'))"
proof (cases "pipes_abs (pf_pipes s) (ucast (pn_physFsID node))")
  case None
  then show ?thesis using request_missing(2) [OF ok None, of pid "ucast len" buffer h] r by auto
next
  case (Some q)
  let ?n = "min (unat len) (0x400 - length (ap_bytes q))"
  have o: "h' = fst (write_outcome q pid (pn_isBlocking node) (unat len) h)" "fs_ok s'" "length (ap_bytes q) \<le> 0x400"
      "pipes_abs (pf_pipes s') = (pipes_abs (pf_pipes s))(ucast (pn_physFsID node) \<mapsto> q\<lparr>ap_bytes := ap_bytes q @ take ?n buffer\<rparr>)"
    using requestWrite_outcome [OF ok Some b, of pid h] r by auto
  have "sint (of_nat ?n :: i64) = int ?n" by (rule i64_nat) simp
  then have "(if fh_status h' = FS_WRITE_SUCCESSFUL then take (nat (sint (fh_result h'))) buffer else []) = take ?n buffer"
    using o(1,3) h by (auto simp: write_outcome_def)
  then show ?thesis using o b Some by simp
qed

lemma pipe_step_refines:
  assumes "pipe_step s e s'" and ok: "fs_ok s"
  shows "fs_ok s' \<and> queue_step e (pipes_abs (pf_pipes s)) = Some (pipes_abs (pf_pipes s'))"
  using assms(1)
proof cases
  case (create object buffer bytes ps id')
  then show ?thesis using create_spec [of "pf_pipes s" object buffer bytes] ok by (auto simp: fs_ok_def)
next
  case (reference id' pid ps)
  then show ?thesis using addReference_spec [of "pf_pipes s" id' pid] ok by (auto simp: fs_ok_def)
next
  case (release id' pid ps)
  then show ?thesis using removeReference_spec [of "pf_pipes s" id' pid] ok by (auto simp: fs_ok_def)
next
  case (pread pid node len h h' tid bytes)
  then show ?thesis using read_refines [OF ok] by blast
next
  case (pwrite len buffer h pid node h' tid)
  then show ?thesis using write_refines [OF ok] by blast
qed

interpretation pq: queue_system pipe_step fs_ok "\<lambda>s. pipes_abs (pf_pipes s)"
  by unfold_locales (use pipe_step_refines in blast)+

text \<open>A run in which a process makes a pipe, writes three bytes to it and reads two of them.\<close>

lemma sample_run:
  "\<exists>s. labelled_run pipe_step pipe_fs_initial [Created 0, Referenced 0 7, Gave 0 [1, 2, 3], Took 0 [1, 2]] s"
proof -
  let ?node = "\<lparr>pn_physFsID = 0, pn_isBlocking = True\<rparr>"
  let ?h = "\<lparr>fh_repeatTransaction = - 1, fh_result = - 1, fh_status = FS_WRITE_ERROR\<rparr>"
  let ?k = "\<lparr>fh_repeatTransaction = - 1, fh_result = - 1, fh_status = FS_READ_ERROR\<rparr>"
  have "pf_pipes pipe_fs_initial = Pipes_initialize" "ps_nextID Pipes_initialize = 0" "ps_objects Pipes_initialize = Map.empty"
    by (simp_all add: pipe_fs_initial_def Pipes_initialize_def)
  then obtain ps where c: "Pipes_create (pf_pipes pipe_fs_initial) 0x1000 0x2000 (replicate 0x400 0) = Inr (ps, 0)"
      "pipes_abs ps = [0 \<mapsto> \<lparr>ap_bytes = [], ap_references = []\<rparr>]"
    using create_spec [OF initialize_ok(1), of "0x1000" "0x2000" "replicate 0x400 0"] initialize_ok(2) by auto
  define s1 where "s1 = pipe_fs_initial\<lparr>pf_pipes := ps\<rparr>"
  have 1: "pipe_step pipe_fs_initial (Created 0) s1" unfolding s1_def
    by (rule pipe_step.create [OF _ _ _ _ _ c(1)]) (simp_all add: pipe_fs_initial_def Pipes_initialize_def)
  then have ok1: "fs_ok s1" using pq.step_ok pipe_fs_initial_ok by blast
  then obtain ps2 where a: "Pipes_addReference (pf_pipes s1) 0 7 = Inr ps2" "pipes_abs ps2 = [0 \<mapsto> \<lparr>ap_bytes = [], ap_references = [7]\<rparr>]"
    using addReference_spec [of "pf_pipes s1" 0 7] c(2) by (auto simp: fs_ok_def s1_def)
  define s2 where "s2 = s1\<lparr>pf_pipes := ps2\<rparr>"
  have 2: "pipe_step s1 (Referenced 0 7) s2" unfolding s2_def by (rule pipe_step.reference [OF a(1)])
  then have ok2: "fs_ok s2" using pq.step_ok ok1 by blast
  then obtain s3 h' tid where w: "FsDelegatePipe_requestWrite s2 7 ?node (ucast (3 :: u32)) [1, 2, 3] ?h = Inr (s3, h', tid)"
      "h' = ?h\<lparr>fh_result := 3, fh_status := FS_WRITE_SUCCESSFUL\<rparr>" "pipes_abs (pf_pipes s3) = [0 \<mapsto> \<lparr>ap_bytes = [1, 2, 3], ap_references = [7]\<rparr>]"
    using requestWrite_outcome [OF ok2, of ?node _ 3 "[1, 2, 3]" 7 ?h] a(2) by (auto simp: s2_def write_outcome_def)
  have 3: "pipe_step s2 (Gave 0 [1, 2, 3]) s3"
    using pipe_step.pwrite [OF _ _ w(1)] w(2) by simp
  then have ok3: "fs_ok s3" using pq.step_ok ok2 by blast
  then obtain s4 k' tid where r: "FsDelegatePipe_requestRead s3 7 ?node (ucast (2 :: u32)) ?k = Inr ((s4, k', tid), [1, 2])"
    using requestRead_outcome [OF ok3, of ?node _ 7 2 ?k] w(3) by auto
  have "pipe_step s3 (Took 0 [1, 2]) s4" using pipe_step.pread [OF r] by simp
  then show ?thesis using 1 2 3 by auto
qed

lemma run_contents: "labelled_run pipe_step pipe_fs_initial es s \<Longrightarrow> queue_run es Map.empty = Some a \<Longrightarrow> pipes_abs (pf_pipes s) = a"
  using pq.run_queues [OF _ pipe_fs_initial_ok, of es s] initialize_ok(2) by (simp add: pipe_fs_initial_def)

section \<open>Properties\<close>

text \<open>
  C26. The pipes refine queues of bytes: after any sequence of creations, references, releases,
  reads and writes, by any processes, the pipes are well formed and the sequence of events is one
  of the queues of at most 1024 bytes, which ends in the contents of the ring buffers; a pipe is
  gone once its last reference is.
\<close>

theorem pipes_refine_queues:
  assumes "labelled_run pipe_step pipe_fs_initial es s"
  shows "fs_ok s \<and> queue_run es Map.empty = Some (pipes_abs (pf_pipes s))"
  using pq.run_queues [OF assms pipe_fs_initial_ok] initialize_ok(2) by (simp add: pipe_fs_initial_def)

theorem pipes_refine_queues_witness:
  "\<exists>s. labelled_run pipe_step pipe_fs_initial [Created 0, Referenced 0 7, Gave 0 [1, 2, 3], Took 0 [1, 2]] s \<and>
    pipes_abs (pf_pipes s) = [0 \<mapsto> \<lparr>ap_bytes = [3], ap_references = [7]\<rparr>]"
proof -
  obtain s where s: "labelled_run pipe_step pipe_fs_initial [Created 0, Referenced 0 7, Gave 0 [1, 2, 3], Took 0 [1, 2]] s"
    using sample_run by blast
  show ?thesis using pipes_refine_queues [OF s] s by (auto simp: Option.bind_def)
qed

text \<open>
  C27. First in, first out: over any part of a run in which a pipe lives on, the bytes that were in
  it followed by those it accepted are the bytes that were read followed by those still in it.
\<close>

theorem pipe_fifo:
  assumes "labelled_run pipe_step pipe_fs_initial es s" and "labelled_run pipe_step s es' s'"
    and "pipes_abs (pf_pipes s) id' = Some q" and "pipes_abs (pf_pipes s') id' = Some q'" and "Created id' \<notin> set es'"
  shows "ap_bytes q @ given id' es' = taken id' es' @ ap_bytes q'"
  using pq.run_queues [OF assms(1) pipe_fs_initial_ok] pq.run_fifo [OF assms(2) _ assms(3-5)] by blast

theorem pipe_fifo_witness:
  "\<exists>s s' q q'. labelled_run pipe_step pipe_fs_initial [Created 0, Referenced 0 7] s \<and>
    labelled_run pipe_step s [Gave 0 [1, 2, 3], Took 0 [1, 2]] s' \<and> pipes_abs (pf_pipes s) 0 = Some q \<and> pipes_abs (pf_pipes s') 0 = Some q' \<and>
    ap_bytes q @ [1, 2, 3] = [1, 2] @ ap_bytes q'"
proof -
  obtain s' where s': "labelled_run pipe_step pipe_fs_initial [Created 0, Referenced 0 7, Gave 0 [1, 2, 3], Took 0 [1, 2]] s'"
    using sample_run by blast
  then obtain s where s: "labelled_run pipe_step pipe_fs_initial [Created 0, Referenced 0 7] s" "labelled_run pipe_step s [Gave 0 [1, 2, 3], Took 0 [1, 2]] s'"
    by auto
  have q: "pipes_abs (pf_pipes s) 0 = Some \<lparr>ap_bytes = [], ap_references = [7]\<rparr>" "pipes_abs (pf_pipes s') 0 = Some \<lparr>ap_bytes = [3], ap_references = [7]\<rparr>"
    using run_contents [OF s(1)] run_contents [OF s'] by simp_all
  then have "[] @ [1, 2, 3] = [1, 2] @ ap_bytes \<lparr>ap_bytes = [3], ap_references = [7]\<rparr>" using pipe_fifo [OF s q] by simp
  then show ?thesis using s q
    by (intro exI [of _ s] exI [of _ s'] exI [of _ "\<lparr>ap_bytes = [], ap_references = [7]\<rparr>"] exI [of _ "\<lparr>ap_bytes = [3], ap_references = [7]\<rparr>"]) simp
qed

text \<open>
  Requests on a pipe of a reachable state return on every branch: a read delivers the oldest
  bytes, as many as there are and were asked for, a write accepts as many bytes as there is room
  for; on an empty or a full pipe the request is repeated when the node blocks and another process
  holds a reference, fails when there is none, and ends at once when the node does not block, with
  0 bytes for a read but the result -1 and the status of success for a write.
\<close>

theorem pipe_requests:
  assumes "labelled_run pipe_step pipe_fs_initial es s" and "pipes_abs (pf_pipes s) (ucast (pn_physFsID node)) = Some q"
    and "unat (len :: u32) \<le> length buffer"
  shows "(\<exists>s' tid. FsDelegatePipe_requestRead s pid node (ucast len) h =
        Inr ((s', fst (read_outcome q pid (pn_isBlocking node) (unat len) h), tid), take (unat len) (ap_bytes q)) \<and>
      tx_status s' tid = snd (read_outcome q pid (pn_isBlocking node) (unat len) h)) \<and>
    (\<exists>s' tid. FsDelegatePipe_requestWrite s pid node (ucast len) buffer k =
        Inr (s', fst (write_outcome q pid (pn_isBlocking node) (unat len) k), tid) \<and>
      tx_status s' tid = snd (write_outcome q pid (pn_isBlocking node) (unat len) k))"
proof -
  have ok: "fs_ok s" using pq.run_queues [OF assms(1) pipe_fs_initial_ok] by blast
  show ?thesis using requestRead_outcome [OF ok assms(2), of pid len h] requestWrite_outcome [OF ok assms(2,3), of pid k] by blast
qed

theorem pipe_requests_witness:
  "\<exists>s. labelled_run pipe_step pipe_fs_initial [Created 0, Referenced 0 7, Gave 0 [1, 2, 3], Took 0 [1, 2]] s \<and>
    (\<exists>s' h' tid. FsDelegatePipe_requestRead s 7 \<lparr>pn_physFsID = 0, pn_isBlocking = True\<rparr> (ucast (5 :: u32))
      \<lparr>fh_repeatTransaction = - 1, fh_result = - 1, fh_status = FS_READ_ERROR\<rparr> = Inr ((s', h', tid), [3]) \<and>
      fh_result h' = 1 \<and> tx_status s' tid = FS_TRANSACTION_FINISHED)"
proof -
  let ?node = "\<lparr>pn_physFsID = 0, pn_isBlocking = True\<rparr>" and ?h = "\<lparr>fh_repeatTransaction = - 1, fh_result = - 1, fh_status = FS_READ_ERROR\<rparr>"
  obtain s where s: "labelled_run pipe_step pipe_fs_initial [Created 0, Referenced 0 7, Gave 0 [1, 2, 3], Took 0 [1, 2]] s"
    using sample_run by blast
  have "pipes_abs (pf_pipes s) 0 = Some \<lparr>ap_bytes = [3], ap_references = [7]\<rparr>" using run_contents [OF s] by simp
  then have "pipes_abs (pf_pipes s) (ucast (pn_physFsID ?node)) = Some \<lparr>ap_bytes = [3], ap_references = [7]\<rparr>" by simp
  then obtain s' tid where "FsDelegatePipe_requestRead s 7 ?node (ucast (5 :: u32)) ?h = Inr ((s', ?h\<lparr>fh_result := 1, fh_status := FS_READ_SUCCESSFUL\<rparr>, tid), [3])"
      "tx_status s' tid = FS_TRANSACTION_FINISHED"
    using pipe_requests [OF s, of ?node "\<lparr>ap_bytes = [3], ap_references = [7]\<rparr>" 5 "[1, 2, 3, 4, 5]" 7 ?h "\<lparr>fh_repeatTransaction = - 1, fh_result = - 1, fh_status = FS_WRITE_ERROR\<rparr>"]
    by (auto simp: read_outcome_def)
  then show ?thesis using s by (intro exI [of _ s] exI [of _ s'] exI [of _ "?h\<lparr>fh_result := 1, fh_status := FS_READ_SUCCESSFUL\<rparr>"] exI [of _ tid] conjI) simp_all
qed

end
