(* ===== verification/VfsNodes.thy ===== *)
theory VfsNodes
  imports HashMap
begin

text \<open>
  The nodes of the virtual file system (filesystem/FsNode.cpp), the tree that
  filesystem/filesystem.cpp keeps of them, the resolution of paths, and the system call that adds
  nodes (calls/SyscallHandlerFilesystem.cpp).

  Nodes are never deleted: the objects form a list that only grows, and a pointer to a node is an
  index of that list. Strings are lists of characters without the terminating zero; the buffers
  for paths have PATH_MAX bytes, and a write past their end is a fault.
\<close>

section \<open>Nodes\<close>

datatype FsNodeType =
  FS_NODE_TYPE_NONE | FS_NODE_TYPE_ROOT | FS_NODE_TYPE_MOUNTPOINT | FS_NODE_TYPE_FOLDER | FS_NODE_TYPE_FILE | FS_NODE_TYPE_PIPE

text \<open>The delegates of the kernel; a tasked one belongs to a thread.\<close>

datatype fs_delegate = FsDelegateMount | FsDelegateRamdisk | FsDelegatePipe | FsDelegateTasked i32

record fs_node =
  fn_delegate :: "fs_delegate option"
  fn_type :: FsNodeType
  fn_id :: u32
  fn_physFsID :: u64
  fn_name :: "string option"
  fn_parent :: "nat option"
  fn_children :: "nat list"
  fn_isBlocking :: bool
  fn_contentsValid :: bool

definition FsNode_new :: fs_node where
  "FsNode_new = \<lparr>fn_delegate = None, fn_type = FS_NODE_TYPE_NONE, fn_id = 0, fn_physFsID = 0, fn_name = None, fn_parent = None,
     fn_children = [], fn_isBlocking = True, fn_contentsValid = False\<rparr>"

record vfs =
  vf_nodes :: "fs_node list"
  vf_nodeNextID :: u32
  vf_map :: "(u32, nat) hashmap"
  vf_root :: nat
  vf_pipeRoot :: nat
  vf_mountRoot :: nat

definition update_node :: "nat \<Rightarrow> (fs_node \<Rightarrow> fs_node) \<Rightarrow> vfs \<Rightarrow> vfs" where
  "update_node n f v = v\<lparr>vf_nodes := (vf_nodes v)[n := f (vf_nodes v ! n)]\<rparr>"

fun find_child :: "fs_node list \<Rightarrow> nat list \<Rightarrow> string \<Rightarrow> nat option" where
  "find_child nodes [] name = None"
| "find_child nodes (n # rest) name = (if fn_name (nodes ! n) = Some name then Some n else find_child nodes rest name)"

definition FsNode_findChild :: "vfs \<Rightarrow> nat \<Rightarrow> string \<Rightarrow> nat option" where
  "FsNode_findChild v n name = find_child (vf_nodes v) (fn_children (vf_nodes v ! n)) name"

definition FsNode_setDelegate :: "nat \<Rightarrow> fs_delegate \<Rightarrow> vfs \<Rightarrow> vfs" where
  "FsNode_setDelegate n delegate = update_node n (\<lambda>node. node\<lparr>fn_delegate := Some delegate\<rparr>)"

partial_function (option) FsNode_getDelegate :: "vfs \<Rightarrow> nat \<Rightarrow> fs_delegate option option" where
  "FsNode_getDelegate v n =
     (case fn_delegate (vf_nodes v ! n) of
        Some d \<Rightarrow> Some (Some d)
      | None \<Rightarrow> (case fn_parent (vf_nodes v ! n) of Some p \<Rightarrow> FsNode_getDelegate v p | None \<Rightarrow> Some None))"

definition FsNode_addChild :: "nat \<Rightarrow> nat \<Rightarrow> vfs \<Rightarrow> vfs" where
  "FsNode_addChild parent child v =
     update_node parent (\<lambda>node. node\<lparr>fn_children := child # fn_children node\<rparr>)
       (update_node child (\<lambda>node. node\<lparr>fn_parent := Some parent\<rparr>) v)"

section \<open>The tree\<close>

definition FileSystem_createNode :: "vfs \<Rightarrow> vfs \<times> nat" where
  "FileSystem_createNode v =
     (let n = length (vf_nodes v) in
      (v\<lparr>vf_nodes := vf_nodes v @ [FsNode_new\<lparr>fn_id := vf_nodeNextID v\<rparr>], vf_nodeNextID := vf_nodeNextID v + 1,
         vf_map := HashMap_add (vf_map v) (vf_nodeNextID v) n\<rparr>, n))"

definition FileSystem_getNodeById :: "vfs \<Rightarrow> u32 \<Rightarrow> nat option" where
  "FileSystem_getNodeById v id' = HashMap_get (vf_map v) id'"

definition FileSystem_getRoot :: "vfs \<Rightarrow> nat" where
  "FileSystem_getRoot v = vf_root v"

text \<open>A named mount point with a delegate below a node, as \<open>initialize\<close> sets it up.\<close>

definition add_mountpoint :: "nat \<Rightarrow> string \<Rightarrow> fs_delegate \<Rightarrow> vfs \<Rightarrow> vfs \<times> nat" where
  "add_mountpoint parent name delegate v =
     (case FileSystem_createNode v of (v, n) \<Rightarrow>
      (FsNode_addChild parent n
        (update_node n (\<lambda>node. node\<lparr>fn_name := Some name, fn_type := FS_NODE_TYPE_MOUNTPOINT\<rparr>) (FsNode_setDelegate n delegate v)), n))"

definition vfs_empty :: vfs where
  "vfs_empty = \<lparr>vf_nodes = [], vf_nodeNextID = 0, vf_map = HashMap_new, vf_root = 0, vf_pipeRoot = 0, vf_mountRoot = 0\<rparr>"

definition FileSystem_initialize :: vfs where
  "FileSystem_initialize =
     (case FileSystem_createNode vfs_empty of (v, root) \<Rightarrow>
      let v = update_node root (\<lambda>node. node\<lparr>fn_type := FS_NODE_TYPE_ROOT\<rparr>) (v\<lparr>vf_root := root\<rparr>) in
      case add_mountpoint root ''mount'' FsDelegateMount v of (v, mountRoot) \<Rightarrow>
      case add_mountpoint mountRoot ''ramdisk'' FsDelegateRamdisk (v\<lparr>vf_mountRoot := mountRoot\<rparr>) of (v, ramdiskRoot) \<Rightarrow>
      case add_mountpoint mountRoot ''pipe'' FsDelegatePipe v of (v, pipeRoot) \<Rightarrow>
      FsNode_setDelegate root FsDelegateRamdisk (v\<lparr>vf_pipeRoot := pipeRoot\<rparr>))"

section \<open>Paths\<close>

definition PATH_MAX :: nat where "PATH_MAX = 4096"

lemma rest_shorter:
  assumes "takeWhile P (dropWhile Q xs) \<noteq> []"
  shows "length (dropWhile P (dropWhile Q xs)) < length xs"
proof -
  have "length (takeWhile P (dropWhile Q xs)) + length (dropWhile P (dropWhile Q xs)) \<le> length xs"
    unfolding length_append [symmetric] takeWhile_dropWhile_id by (rule length_dropWhile_le)
  then show ?thesis using assms by (cases "takeWhile P (dropWhile Q xs)") auto
qed

function find_loop :: "vfs \<Rightarrow> string \<Rightarrow> nat \<Rightarrow> nat \<times> nat option \<times> string" where
  "find_loop v path child =
     (let parent = child;
          abspos = dropWhile (\<lambda>c. c = CHR ''/'') path;
          nameCurrent = takeWhile (\<lambda>c. c \<noteq> CHR ''/'') abspos;
          rest = dropWhile (\<lambda>c. c \<noteq> CHR ''/'') abspos
      in if nameCurrent = [] then (parent, Some child, nameCurrent)
         else if nameCurrent = ''..'' then
           find_loop v rest (case fn_parent (vf_nodes v ! parent) of Some p \<Rightarrow> p | None \<Rightarrow> child)
         else if nameCurrent = ''.'' then find_loop v rest child
         else case FsNode_findChild v parent nameCurrent of
                None \<Rightarrow> (parent, None, nameCurrent)
              | Some c \<Rightarrow> find_loop v rest c)"
  by auto
termination by (relation "measure (\<lambda>(v, path, child). length path)") (auto simp: rest_shorter)

declare find_loop.simps [simp del]

text \<open>The results: the parent, the child if there is one, and the last name that was looked at.\<close>

definition FileSystem_findExisting :: "vfs \<Rightarrow> string \<Rightarrow> nat \<times> nat option \<times> string" where
  "FileSystem_findExisting v absolutePath = find_loop v absolutePath (vf_root v)"

definition FileSystem_concatAsAbsolutePath :: "string \<Rightarrow> string \<Rightarrow> string kres" where
  "FileSystem_concatAsAbsolutePath relativeBase input =
     (if input = [] then Inr []
      else let out = (if hd input = CHR ''/'' then input else relativeBase @ ''/'' @ input) in
           if length out < PATH_MAX then Inr out else Inl (BadPointer (of_nat PATH_MAX)))"

text \<open>
  The loop of \<open>getRealPathToNode\<close>. Moving the path back to make room for a name writes the
  characters up to and including the one at the old length.
\<close>

partial_function (option) real_path_loop :: "vfs \<Rightarrow> nat option \<Rightarrow> string \<Rightarrow> string kres option" where
  "real_path_loop v current out =
     (case current of
        None \<Rightarrow> Some (Inr out)
      | Some n \<Rightarrow>
          if fn_type (vf_nodes v ! n) = FS_NODE_TYPE_ROOT then Some (Inr out)
          else case fn_name (vf_nodes v ! n) of
                 None \<Rightarrow> Some (Inr out)
               | Some name \<Rightarrow>
                   if length out + length name + 1 > PATH_MAX then Some (Inr out)
                   else if length out + length name + 1 \<ge> PATH_MAX then Some (Inl (BadPointer (of_nat PATH_MAX)))
                   else real_path_loop v (fn_parent (vf_nodes v ! n)) (name @ ''/'' @ out))"

definition FileSystem_getRealPathToNode :: "vfs \<Rightarrow> nat \<Rightarrow> string kres option" where
  "FileSystem_getRealPathToNode v node =
     obind (real_path_loop v (Some node) []) (\<lambda>out.
       if length out + 1 \<ge> PATH_MAX then Some (Inl (BadPointer (of_nat PATH_MAX))) else Some (Inr (CHR ''/'' # out)))"

section \<open>Adding nodes\<close>

datatype FsCreateNodeStatus =
  FS_CREATE_NODE_STATUS_CREATED | FS_CREATE_NODE_STATUS_UPDATED | FS_CREATE_NODE_STATUS_FAILED_NO_PARENT

definition fsCreateNode :: "vfs \<Rightarrow> u32 \<Rightarrow> string \<Rightarrow> FsNodeType \<Rightarrow> u64 \<Rightarrow> vfs \<times> FsCreateNodeStatus \<times> u32 option" where
  "fsCreateNode v parent_id name type physFsID =
     (case FileSystem_getNodeById v parent_id of
        None \<Rightarrow> (v, FS_CREATE_NODE_STATUS_FAILED_NO_PARENT, None)
      | Some parent \<Rightarrow>
          let (v, node, status) =
            (case FsNode_findChild v parent name of
               Some node \<Rightarrow> (v, node, FS_CREATE_NODE_STATUS_UPDATED)
             | None \<Rightarrow> (case FileSystem_createNode v of (v, node) \<Rightarrow>
                 (FsNode_addChild parent node (update_node node (\<lambda>n. n\<lparr>fn_name := Some name\<rparr>) v), node, FS_CREATE_NODE_STATUS_CREATED)));
              v = update_node node (\<lambda>n. n\<lparr>fn_type := type, fn_physFsID := physFsID\<rparr>) v
          in (v, status, Some (fn_id (vf_nodes v ! node))))"

datatype FsRegisterAsDelegateStatus =
  FS_REGISTER_AS_DELEGATE_SUCCESSFUL | FS_REGISTER_AS_DELEGATE_FAILED_EXISTING | FS_REGISTER_AS_DELEGATE_FAILED_DELEGATE_CREATION

text \<open>\<open>prepared\<close> is the result of preparing the storage of the tasked delegate.\<close>

definition FileSystem_createDelegate :: "vfs \<Rightarrow> i32 \<Rightarrow> string \<Rightarrow> u64 \<Rightarrow> bool \<Rightarrow> vfs \<times> FsRegisterAsDelegateStatus \<times> u32 option" where
  "FileSystem_createDelegate v thread name physMountpointID prepared =
     (case FsNode_findChild v (vf_root v) name of
        Some existing \<Rightarrow> (v, FS_REGISTER_AS_DELEGATE_FAILED_EXISTING, None)
      | None \<Rightarrow>
          if \<not> prepared then (v, FS_REGISTER_AS_DELEGATE_FAILED_DELEGATE_CREATION, None)
          else case FileSystem_createNode v of (v, mountpoint) \<Rightarrow>
            let v = update_node mountpoint (\<lambda>n. n\<lparr>fn_name := Some name, fn_type := FS_NODE_TYPE_MOUNTPOINT, fn_physFsID := physMountpointID\<rparr>)
                      (FsNode_setDelegate mountpoint (FsDelegateTasked thread) v);
                v = FsNode_addChild (vf_mountRoot v) mountpoint v
            in (v, FS_REGISTER_AS_DELEGATE_SUCCESSFUL, Some (fn_id (vf_nodes v ! mountpoint))))"

section \<open>Path resolution by components\<close>

text \<open>The reference: a path is the list of its nonempty components, resolved one after the other.\<close>

fun split_path :: "string \<Rightarrow> string list" where
  "split_path [] = [[]]"
| "split_path (c # cs) = (if c = CHR ''/'' then [] # split_path cs else (c # hd (split_path cs)) # tl (split_path cs))"

definition components :: "string \<Rightarrow> string list" where
  "components path = filter (\<lambda>name. name \<noteq> []) (split_path path)"

fun resolve :: "vfs \<Rightarrow> string list \<Rightarrow> nat \<Rightarrow> nat \<times> nat option \<times> string" where
  "resolve v [] n = (n, Some n, [])"
| "resolve v (name # names) n =
     (if name = ''..'' then resolve v names (case fn_parent (vf_nodes v ! n) of Some p \<Rightarrow> p | None \<Rightarrow> n)
      else if name = ''.'' then resolve v names n
      else case FsNode_findChild v n name of None \<Rightarrow> (n, None, name) | Some c \<Rightarrow> resolve v names c)"

lemma split_path_nonempty [simp]: "split_path p \<noteq> []"
  by (cases p) auto

lemma components_slash: "components (CHR ''/'' # p) = components p"
  by (simp add: components_def)

lemma components_dropWhile: "components (dropWhile (\<lambda>c. c = CHR ''/'') p) = components p"
  by (induction p) (auto simp: components_slash)

lemma split_path_takeWhile:
  "split_path p = takeWhile (\<lambda>c. c \<noteq> CHR ''/'') p #
     (case dropWhile (\<lambda>c. c \<noteq> CHR ''/'') p of [] \<Rightarrow> [] | c # cs \<Rightarrow> split_path cs)"
  by (induction p) auto

lemma components_unfold:
  defines "name \<equiv> \<lambda>p. takeWhile (\<lambda>c. c \<noteq> CHR ''/'') (dropWhile (\<lambda>c. c = CHR ''/'') p)"
  shows "components p = (if name p = [] then [] else name p # components (dropWhile (\<lambda>c. c \<noteq> CHR ''/'') (dropWhile (\<lambda>c. c = CHR ''/'') p)))"
proof -
  define q where "q = dropWhile (\<lambda>c. c = CHR ''/'') p"
  have c: "components p = components q" by (simp add: q_def components_dropWhile)
  show ?thesis
  proof (cases q)
    case Nil
    then show ?thesis unfolding c name_def q_def [symmetric] by (simp add: components_def)
  next
    case (Cons a as)
    then have "a \<noteq> CHR ''/''" using hd_dropWhile [of "\<lambda>c. c = CHR ''/''" p] by (auto simp: q_def)
    then have n: "takeWhile (\<lambda>c. c \<noteq> CHR ''/'') q \<noteq> []" using Cons by simp
    have "filter (\<lambda>name. name \<noteq> []) (case dropWhile (\<lambda>c. c \<noteq> CHR ''/'') q of [] \<Rightarrow> [] | c # cs \<Rightarrow> split_path cs) =
        components (dropWhile (\<lambda>c. c \<noteq> CHR ''/'') q)"
    proof (cases "dropWhile (\<lambda>c. c \<noteq> CHR ''/'') q")
      case (Cons a as)
      then have "a = CHR ''/''" by (simp add: dropWhile_eq_Cons_conv)
      then show ?thesis unfolding Cons by (simp add: components_def)
    next
      case Nil
      show ?thesis unfolding Nil by (simp add: components_def)
    qed
    then have "components q = takeWhile (\<lambda>c. c \<noteq> CHR ''/'') q # components (dropWhile (\<lambda>c. c \<noteq> CHR ''/'') q)"
      unfolding components_def [of q] by (subst split_path_takeWhile) (use n in simp)
    then show ?thesis unfolding c name_def q_def [symmetric] using n by simp
  qed
qed

lemma find_loop_resolve: "find_loop v path child = resolve v (components path) child"
proof (induction v path child rule: find_loop.induct)
  case (1 v path child)
  show ?case
    using 1 by (subst find_loop.simps, subst components_unfold) (auto simp: Let_def split: option.splits)
qed

section \<open>Well-formed trees\<close>

text \<open>A parent is older than its children, and identifiers lead to nodes.\<close>

definition vfs_ok :: "vfs \<Rightarrow> bool" where
  "vfs_ok v \<longleftrightarrow> hm_inv (vf_map v) \<and> vf_root v < length (vf_nodes v) \<and> vf_mountRoot v < length (vf_nodes v) \<and> vf_pipeRoot v < length (vf_nodes v) \<and>
     (\<forall>id' n. FileSystem_getNodeById v id' = Some n \<longrightarrow> n < length (vf_nodes v)) \<and>
     (\<forall>n < length (vf_nodes v). (\<forall>c \<in> set (fn_children (vf_nodes v ! n)). c < length (vf_nodes v)) \<and>
        (\<forall>p. fn_parent (vf_nodes v ! n) = Some p \<longrightarrow> p < n))"

text \<open>A new node below \<open>p\<close>: what every way of adding one comes down to.\<close>

definition attach :: "nat \<Rightarrow> fs_node \<Rightarrow> vfs \<Rightarrow> vfs" where
  "attach p node v =
     v\<lparr>vf_nodes := (vf_nodes v)[p := (vf_nodes v ! p)\<lparr>fn_children := length (vf_nodes v) # fn_children (vf_nodes v ! p)\<rparr>] @ [node\<lparr>fn_id := vf_nodeNextID v, fn_parent := Some p, fn_children := []\<rparr>],
       vf_nodeNextID := vf_nodeNextID v + 1, vf_map := HashMap_add (vf_map v) (vf_nodeNextID v) (length (vf_nodes v))\<rparr>"

lemma attach_nodes:
  assumes "p < length (vf_nodes v)"
  shows "length (vf_nodes (attach p node v)) = Suc (length (vf_nodes v))"
    and "vf_nodes (attach p node v) ! length (vf_nodes v) = node\<lparr>fn_id := vf_nodeNextID v, fn_parent := Some p, fn_children := []\<rparr>"
    and "m < length (vf_nodes v) \<Longrightarrow> vf_nodes (attach p node v) ! m =
      (if m = p then (vf_nodes v ! p)\<lparr>fn_children := length (vf_nodes v) # fn_children (vf_nodes v ! p)\<rparr> else vf_nodes v ! m)"
    and "vf_root (attach p node v) = vf_root v" "vf_mountRoot (attach p node v) = vf_mountRoot v" "vf_pipeRoot (attach p node v) = vf_pipeRoot v"
  using assms by (auto simp: attach_def nth_append)

lemma attach_getNodeById:
  "vfs_ok v \<Longrightarrow> FileSystem_getNodeById (attach p node v) id' = (if id' = vf_nodeNextID v then Some (length (vf_nodes v)) else FileSystem_getNodeById v id')"
  by (simp add: FileSystem_getNodeById_def attach_def vfs_ok_def hm_laws)

lemma attach_ok:
  assumes ok: "vfs_ok v" and p: "p < length (vf_nodes v)"
  shows "vfs_ok (attach p node v)"
proof -
  note a = attach_nodes [OF p, where node = node]
  have hm: "hm_inv (vf_map (attach p node v))" using ok by (simp add: attach_def vfs_ok_def hm_laws)
  have old: "(\<forall>c \<in> set (fn_children (vf_nodes (attach p node v) ! n)). c < Suc (length (vf_nodes v))) \<and>
      (\<forall>q. fn_parent (vf_nodes (attach p node v) ! n) = Some q \<longrightarrow> q < n)" if n: "n < Suc (length (vf_nodes v))" for n
  proof (cases "n = length (vf_nodes v)")
    case True
    then show ?thesis using a(2) p by simp
  next
    case False
    then have "n < length (vf_nodes v)" using n by simp
    then show ?thesis using a(3) [of n] ok unfolding vfs_ok_def by (auto simp: less_Suc_eq)
  qed
  have ids: "n < Suc (length (vf_nodes v))" if "FileSystem_getNodeById (attach p node v) id' = Some n" for id' n
    using that ok unfolding attach_getNodeById [OF ok] by (fastforce simp: vfs_ok_def less_Suc_eq split: if_splits)
  show ?thesis unfolding vfs_ok_def a(1,4-6)
    using hm old ids ok by (auto simp: vfs_ok_def)
qed

lemma find_child_name: "find_child nodes cs name = Some n \<Longrightarrow> n \<in> set cs \<and> fn_name (nodes ! n) = Some name"
  by (induction cs) (auto split: if_splits)

lemma find_child_cong: "(\<forall>c \<in> set cs. fn_name (nodes ! c) = fn_name (nodes' ! c)) \<Longrightarrow> find_child nodes cs name = find_child nodes' cs name"
  by (induction cs) auto

lemma findChild_attach:
  assumes ok: "vfs_ok v" and p: "p < length (vf_nodes v)" and m: "m < length (vf_nodes v)"
  shows "FsNode_findChild (attach p node v) m name =
    (if m = p \<and> fn_name node = Some name then Some (length (vf_nodes v)) else FsNode_findChild v m name)"
proof -
  note a = attach_nodes [OF p, where node = node]
  have "find_child (vf_nodes (attach p node v)) (fn_children (vf_nodes v ! m)) name = find_child (vf_nodes v) (fn_children (vf_nodes v ! m)) name"
    using a(3) ok m by (intro find_child_cong) (auto simp: vfs_ok_def)
  then show ?thesis using a(2) a(3) [OF m] by (cases "m = p") (simp_all add: FsNode_findChild_def)
qed

text \<open>The operations that add nodes, in terms of \<open>attach\<close>.\<close>

lemma add_node_attach:
  assumes "p < length (vf_nodes v)" and "\<And>node. fn_id (f node) = fn_id node" and "\<And>node. fn_children (f node) = fn_children node"
  shows "FsNode_addChild p (length (vf_nodes v)) (update_node (length (vf_nodes v)) f (fst (FileSystem_createNode v))) =
    attach p (f (FsNode_new\<lparr>fn_id := vf_nodeNextID v\<rparr>)) v"
  using assms
  by (simp add: FsNode_addChild_def update_node_def FileSystem_createNode_def attach_def Let_def nth_append list_update_append FsNode_new_def)

lemma update_attached:
  assumes "p < length (vf_nodes v)"
  shows "update_node (length (vf_nodes v)) (\<lambda>n. n\<lparr>fn_type := t, fn_physFsID := phys\<rparr>) (attach p node v) = attach p (node\<lparr>fn_type := t, fn_physFsID := phys\<rparr>) v"
  using assms by (cases node; cases v) (simp add: update_node_def attach_def nth_append list_update_append)

definition good_name :: "string \<Rightarrow> bool" where
  "good_name name \<longleftrightarrow> name \<noteq> [] \<and> CHR ''/'' \<notin> set name \<and> name \<noteq> ''.'' \<and> name \<noteq> ''..''"

inductive located :: "vfs \<Rightarrow> nat \<Rightarrow> string list \<Rightarrow> bool" for v where
  root: "fn_type (vf_nodes v ! vf_root v) = FS_NODE_TYPE_ROOT \<Longrightarrow> located v (vf_root v) []"
| child: "located v p names \<Longrightarrow> FsNode_findChild v p name = Some n \<Longrightarrow> fn_parent (vf_nodes v ! n) = Some p \<Longrightarrow>
    fn_type (vf_nodes v ! n) \<noteq> FS_NODE_TYPE_ROOT \<Longrightarrow> good_name name \<Longrightarrow> located v n (names @ [name])"

lemma located_less: "located v n names \<Longrightarrow> vfs_ok v \<Longrightarrow> n < length (vf_nodes v)"
proof (induction rule: located.induct)
  case (child p names name n)
  then show ?case using find_child_name [of "vf_nodes v" "fn_children (vf_nodes v ! p)" name n] by (auto simp: FsNode_findChild_def vfs_ok_def)
qed (simp add: vfs_ok_def)

lemma located_attach:
  assumes ok: "vfs_ok v" and p: "p < length (vf_nodes v)" and fresh: "\<And>name. fn_name node = Some name \<Longrightarrow> FsNode_findChild v p name = None"
  shows "located v n names \<Longrightarrow> located (attach p node v) n names"
proof (induction rule: located.induct)
  case root
  have "vf_root v < length (vf_nodes v)" using ok by (simp add: vfs_ok_def)
  then have "fn_type (vf_nodes (attach p node v) ! vf_root v) = FS_NODE_TYPE_ROOT" using attach_nodes(3) [OF p, of "vf_root v" node] root by auto
  then show ?case using located.root [of "attach p node v"] attach_nodes(4) [OF p, of node] by simp
next
  case (child q names name n)
  have q: "q < length (vf_nodes v)" using located_less [OF child.hyps(1) ok] .
  have n: "n < length (vf_nodes v)" using located_less [OF located.child [OF child.hyps] ok] .
  have "FsNode_findChild (attach p node v) q name = Some n"
    using findChild_attach [OF ok p q, of node name] fresh [of name] child.hyps(2) by auto
  moreover have "fn_parent (vf_nodes (attach p node v) ! n) = Some q" "fn_type (vf_nodes (attach p node v) ! n) \<noteq> FS_NODE_TYPE_ROOT"
    using attach_nodes(3) [OF p n, of node] child.hyps(3,4) by auto
  ultimately show ?case by (rule located.child [OF child.IH _ _ _ child.hyps(5)])
qed

lemma located_new:
  assumes ok: "vfs_ok v" and p: "located v p names" and name: "fn_name node = Some name" "good_name name" "fn_type node \<noteq> FS_NODE_TYPE_ROOT"
    and fresh: "FsNode_findChild v p name = None"
  shows "located (attach p node v) (length (vf_nodes v)) (names @ [name])"
proof -
  have pl: "p < length (vf_nodes v)" by (rule located_less [OF p ok])
  have "located (attach p node v) p names" by (rule located_attach [OF ok pl _ p]) (use name fresh in simp)
  then show ?thesis
    by (rule located.child) (use findChild_attach [OF ok pl pl, of node name] attach_nodes(2) [OF pl, of node] name in simp_all)
qed

lemma fsCreateNode_new:
  assumes ok: "vfs_ok v" and g: "FileSystem_getNodeById v parent_id = Some p" and fresh: "FsNode_findChild v p name = None"
  shows "fsCreateNode v parent_id name type phys =
    (attach p (FsNode_new\<lparr>fn_name := Some name, fn_type := type, fn_physFsID := phys\<rparr>) v, FS_CREATE_NODE_STATUS_CREATED, Some (vf_nodeNextID v))"
proof -
  have p: "p < length (vf_nodes v)" using ok g by (auto simp: vfs_ok_def)
  have c: "FileSystem_createNode v = (fst (FileSystem_createNode v), length (vf_nodes v))" by (simp add: FileSystem_createNode_def Let_def)
  have "fn_id (vf_nodes (attach p x v) ! length (vf_nodes v)) = vf_nodeNextID v" for x using attach_nodes(2) [OF p, of x] by simp
  then have "fsCreateNode v parent_id name type phys =
      (attach p (FsNode_new\<lparr>fn_id := vf_nodeNextID v, fn_name := Some name, fn_type := type, fn_physFsID := phys\<rparr>) v, FS_CREATE_NODE_STATUS_CREATED, Some (vf_nodeNextID v))"
    unfolding fsCreateNode_def g option.case fresh by (subst c) (simp add: add_node_attach [OF p] update_attached [OF p] Let_def)
  then show ?thesis by (simp add: attach_def FsNode_new_def)
qed

lemma createDelegate_new:
  assumes ok: "vfs_ok v" and fresh: "FsNode_findChild v (vf_root v) name = None"
  shows "FileSystem_createDelegate v thread name phys True =
    (attach (vf_mountRoot v) (FsNode_new\<lparr>fn_delegate := Some (FsDelegateTasked thread), fn_name := Some name, fn_type := FS_NODE_TYPE_MOUNTPOINT, fn_physFsID := phys\<rparr>) v,
     FS_REGISTER_AS_DELEGATE_SUCCESSFUL, Some (vf_nodeNextID v))"
proof -
  have p: "vf_mountRoot v < length (vf_nodes v)" using ok by (simp add: vfs_ok_def)
  show ?thesis unfolding FileSystem_createDelegate_def fresh option.case using p
    by (cases v) (simp add: FileSystem_createNode_def FsNode_setDelegate_def update_node_def FsNode_addChild_def attach_def FsNode_new_def Let_def
        nth_append list_update_append)
qed

text \<open>The search for a delegate goes up the parents and ends.\<close>

lemma getDelegate_returns: "vfs_ok v \<Longrightarrow> n < length (vf_nodes v) \<Longrightarrow> \<exists>d. FsNode_getDelegate v n = Some d"
proof (induction n rule: less_induct)
  case (less n)
  then show ?case
    by (subst FsNode_getDelegate.simps) (auto simp: vfs_ok_def split: option.splits)
qed

section \<open>Real paths\<close>

definition path_string :: "string list \<Rightarrow> string" where
  "path_string names = CHR ''/'' # concat (map (\<lambda>name. name @ ''/'') names)"

lemma components_name:
  assumes "good_name name"
  shows "components (name @ CHR ''/'' # rest) = name # components rest"
proof -
  have ne: "name \<noteq> []" "CHR ''/'' \<notin> set name" using assms by (auto simp: good_name_def)
  have "split_path (xs @ CHR ''/'' # rest) = xs # split_path rest" if "CHR ''/'' \<notin> set xs" for xs using that by (induction xs) auto
  then show ?thesis using ne by (simp add: components_def)
qed

lemma components_path: "\<forall>name \<in> set names. good_name name \<Longrightarrow> components (path_string names) = names"
proof -
  have "components (concat (map (\<lambda>name. name @ ''/'') names)) = names" if "\<forall>name \<in> set names. good_name name"
    using that by (induction names) (simp_all add: components_name, simp add: components_def)
  then show "\<forall>name \<in> set names. good_name name \<Longrightarrow> components (path_string names) = names"
    by (simp add: path_string_def components_slash)
qed

lemma located_names: "located v n names \<Longrightarrow> \<forall>name \<in> set names. good_name name"
  by (induction rule: located.induct) auto

lemma resolve_append:
  "resolve v (xs @ ys) n = (case resolve v xs n of (p, Some m, name) \<Rightarrow> resolve v ys m | r \<Rightarrow> r)"
  by (induction v xs n rule: resolve.induct) (auto split: option.splits)

lemma located_resolve: "located v n names \<Longrightarrow> resolve v names (vf_root v) = (n, Some n, [])"
  by (induction rule: located.induct) (auto simp: resolve_append good_name_def)

lemma located_real_path:
  "located v n names \<Longrightarrow> length (concat (map (\<lambda>name. name @ ''/'') names)) + length out < PATH_MAX \<Longrightarrow>
   real_path_loop v (Some n) out = Some (Inr (concat (map (\<lambda>name. name @ ''/'') names) @ out))"
proof (induction arbitrary: out rule: located.induct)
  case root
  then show ?case by (subst real_path_loop.simps) simp
next
  case (child p names name n)
  have "fn_name (vf_nodes v ! n) = Some name" using child.hyps(2) find_child_name by (fastforce simp: FsNode_findChild_def)
  moreover have "length out + length name + 1 < PATH_MAX" using child.prems by simp
  ultimately show ?case using child.hyps(3,4) child.IH [of "name @ ''/'' @ out"] child.prems
    by (subst real_path_loop.simps) simp
qed

lemma overflowing_real_path:
  "located v n names \<Longrightarrow> names \<noteq> [] \<Longrightarrow> length (concat (map (\<lambda>name. name @ ''/'') names)) + length out = PATH_MAX \<Longrightarrow>
   real_path_loop v (Some n) out = Some (Inl (BadPointer (of_nat PATH_MAX)))"
proof (induction arbitrary: out rule: located.induct)
  case (child p names name n)
  have nm: "fn_name (vf_nodes v ! n) = Some name" using child.hyps(2) find_child_name by (fastforce simp: FsNode_findChild_def)
  show ?case
  proof (cases "names = []")
    case True
    then show ?thesis using nm child.hyps(3,4) child.prems by (subst real_path_loop.simps) simp
  next
    case False
    then have "length out + length name + 1 < PATH_MAX" using child.prems by (cases names) auto
    then show ?thesis using nm child.hyps(3,4) child.IH [of "name @ ''/'' @ out"] child.prems False
      by (subst real_path_loop.simps) simp
  qed
qed simp

section \<open>The initial tree\<close>

lemma initialize_nodes:
  "vf_nodes FileSystem_initialize =
     [FsNode_new\<lparr>fn_delegate := Some FsDelegateRamdisk, fn_type := FS_NODE_TYPE_ROOT, fn_id := 0, fn_children := [1]\<rparr>,
      FsNode_new\<lparr>fn_delegate := Some FsDelegateMount, fn_type := FS_NODE_TYPE_MOUNTPOINT, fn_id := 1, fn_name := Some ''mount'', fn_parent := Some 0, fn_children := [3, 2]\<rparr>,
      FsNode_new\<lparr>fn_delegate := Some FsDelegateRamdisk, fn_type := FS_NODE_TYPE_MOUNTPOINT, fn_id := 2, fn_name := Some ''ramdisk'', fn_parent := Some 1\<rparr>,
      FsNode_new\<lparr>fn_delegate := Some FsDelegatePipe, fn_type := FS_NODE_TYPE_MOUNTPOINT, fn_id := 3, fn_name := Some ''pipe'', fn_parent := Some 1\<rparr>]"
  "vf_root FileSystem_initialize = 0" "vf_mountRoot FileSystem_initialize = 1" "vf_pipeRoot FileSystem_initialize = 3"
  "vf_nodeNextID FileSystem_initialize = 4"
  "vf_map FileSystem_initialize = HashMap_add (HashMap_add (HashMap_add (HashMap_add HashMap_new 0 0) 1 1) 2 2) 3 3"
  by (simp_all add: FileSystem_initialize_def FileSystem_createNode_def vfs_empty_def add_mountpoint_def update_node_def FsNode_setDelegate_def
      FsNode_addChild_def FsNode_new_def Let_def numeral_2_eq_2 numeral_3_eq_3)

lemma vfs_initialize_ok: "vfs_ok FileSystem_initialize"
  unfolding vfs_ok_def FileSystem_getNodeById_def initialize_nodes
  by (auto simp: hm_laws FsNode_new_def less_Suc_eq numeral_2_eq_2 numeral_3_eq_3 split: if_splits)

lemma initialize_located: "located FileSystem_initialize 0 []" "located FileSystem_initialize 1 [''mount'']" "located FileSystem_initialize 3 [''mount'', ''pipe'']"
proof -
  show r: "located FileSystem_initialize 0 []" using located.root [of FileSystem_initialize] by (simp add: initialize_nodes FsNode_new_def)
  have "located FileSystem_initialize 1 ([] @ [''mount''])"
    by (rule located.child [OF r]) (simp_all add: FsNode_findChild_def initialize_nodes FsNode_new_def good_name_def)
  then show m: "located FileSystem_initialize 1 [''mount'']" by simp
  have "located FileSystem_initialize 3 ([''mount''] @ [''pipe''])"
    by (rule located.child [OF m]) (simp_all add: FsNode_findChild_def initialize_nodes FsNode_new_def good_name_def numeral_3_eq_3)
  then show "located FileSystem_initialize 3 [''mount'', ''pipe'']" by simp
qed

section \<open>Properties\<close>

text \<open>
  C29. Real paths and path resolution are inverse: for a node that hangs in the tree by usable
  names, with a path that fits the buffer, \<open>getRealPathToNode\<close> ends with the path of its names, and
  \<open>findExisting\<close> resolves this path to the node.
\<close>

theorem vfs_path_roundtrip:
  assumes "located v n names" and "length (path_string names) < PATH_MAX"
  shows "FileSystem_getRealPathToNode v n = Some (Inr (path_string names)) \<and>
    FileSystem_findExisting v (path_string names) = (n, Some n, [])"
proof -
  have "real_path_loop v (Some n) [] = Some (Inr (concat (map (\<lambda>name. name @ ''/'') names)))"
    using located_real_path [OF assms(1), of "[]"] assms(2) by (simp add: path_string_def)
  then have "FileSystem_getRealPathToNode v n = Some (Inr (path_string names))"
    using assms(2) by (simp add: FileSystem_getRealPathToNode_def path_string_def)
  then show ?thesis
    using located_resolve [OF assms(1)] components_path [OF located_names [OF assms(1)]]
    by (simp add: FileSystem_findExisting_def find_loop_resolve)
qed

theorem vfs_path_roundtrip_witness:
  "FileSystem_getRealPathToNode FileSystem_initialize 3 = Some (Inr ''/mount/pipe/'') \<and>
   FileSystem_findExisting FileSystem_initialize ''/mount/pipe/'' = (3, Some 3, [])"
  using vfs_path_roundtrip [OF initialize_located(3)] by (simp add: path_string_def PATH_MAX_def)

text \<open>
  C30. Adding a node keeps the tree well formed: below a node that hangs in the tree, under a usable
  name that is not taken, the system call creates a node that is found under the returned
  identifier and at the path of its parent with the name appended, and every node that hung in the
  tree before hangs there with the same path; without a parent, nothing changes.
\<close>

theorem vfs_create_node:
  assumes "vfs_ok v" and "FileSystem_getNodeById v parent_id = Some p" and "located v p names" and "good_name name"
    and "type \<noteq> FS_NODE_TYPE_ROOT" and "FsNode_findChild v p name = None" and "fsCreateNode v parent_id name type phys = (v', status, id')"
  shows "status = FS_CREATE_NODE_STATUS_CREATED \<and> vfs_ok v' \<and>
    (\<exists>n. Option.bind id' (FileSystem_getNodeById v') = Some n \<and> n \<notin> {..<length (vf_nodes v)} \<and> located v' n (names @ [name])) \<and>
    (\<forall>m ms. located v m ms \<longrightarrow> located v' m ms)"
proof -
  let ?node = "FsNode_new\<lparr>fn_name := Some name, fn_type := type, fn_physFsID := phys\<rparr>"
  have r: "v' = attach p ?node v" "status = FS_CREATE_NODE_STATUS_CREATED" "id' = Some (vf_nodeNextID v)"
    using fsCreateNode_new [OF assms(1,2,6), of type phys] assms(7) by auto
  have p: "p < length (vf_nodes v)" using assms(1,2) by (auto simp: vfs_ok_def)
  have "located v' (length (vf_nodes v)) (names @ [name])"
    unfolding r(1) by (rule located_new [OF assms(1,3) _ assms(4) _ assms(6)]) (use assms(5) in simp_all)
  moreover have "located v' m ms" if "located v m ms" for m ms
    unfolding r(1) by (rule located_attach [OF assms(1) p _ that]) (use assms(6) in simp)
  moreover have "vfs_ok v'" unfolding r(1) by (rule attach_ok [OF assms(1) p])
  moreover have "FileSystem_getNodeById v' (vf_nodeNextID v) = Some (length (vf_nodes v))" unfolding r(1) attach_getNodeById [OF assms(1)] by simp
  ultimately show ?thesis using r(2,3) by auto
qed

theorem vfs_create_node_witness:
  "\<exists>v'. fsCreateNode FileSystem_initialize 1 ''etc'' FS_NODE_TYPE_FOLDER 7 = (v', FS_CREATE_NODE_STATUS_CREATED, Some 4) \<and>
    vfs_ok v' \<and> located v' 3 [''mount'', ''pipe''] \<and> (\<exists>n. located v' n [''mount'', ''etc''])"
proof -
  have g: "FileSystem_getNodeById FileSystem_initialize 1 = Some 1" by (simp add: FileSystem_getNodeById_def initialize_nodes hm_laws)
  have fresh: "FsNode_findChild FileSystem_initialize 1 ''etc'' = None"
    by (simp add: FsNode_findChild_def initialize_nodes FsNode_new_def numeral_2_eq_2 numeral_3_eq_3)
  obtain v' status id' where c: "fsCreateNode FileSystem_initialize 1 ''etc'' FS_NODE_TYPE_FOLDER 7 = (v', status, id')" by (metis prod_cases3)
  have "id' = Some 4" using c fsCreateNode_new [OF vfs_initialize_ok g fresh] by (simp add: initialize_nodes)
  moreover note vfs_create_node [OF vfs_initialize_ok g initialize_located(2) _ _ fresh c]
  ultimately show ?thesis using c initialize_located(3) by (auto simp: good_name_def)
qed

text \<open>
  Registering two delegates under one name succeeds twice: the check for an existing node looks
  at the children of the root, the mount point becomes a child of \<open>mount\<close>. The second mount point
  hides the first one.
\<close>

theorem vfs_duplicate_mount:
  assumes "vfs_ok v" and "vf_mountRoot v \<noteq> vf_root v" and "FsNode_findChild v (vf_root v) name = None"
    and "FileSystem_createDelegate v thread name phys True = (v1, st1, id1)" and "FileSystem_createDelegate v1 thread' name phys' True = (v2, st2, id2)"
  shows "st1 = FS_REGISTER_AS_DELEGATE_SUCCESSFUL \<and> st2 = FS_REGISTER_AS_DELEGATE_SUCCESSFUL \<and>
    (\<exists>m n. m \<noteq> n \<and> FsNode_findChild v1 (vf_mountRoot v) name = Some m \<and> FsNode_findChild v2 (vf_mountRoot v) name = Some n)"
proof -
  have m: "vf_mountRoot v < length (vf_nodes v)" "vf_root v < length (vf_nodes v)" using assms(1) by (simp_all add: vfs_ok_def)
  let ?node = "FsNode_new\<lparr>fn_delegate := Some (FsDelegateTasked thread), fn_name := Some name, fn_type := FS_NODE_TYPE_MOUNTPOINT, fn_physFsID := phys\<rparr>"
  let ?node' = "FsNode_new\<lparr>fn_delegate := Some (FsDelegateTasked thread'), fn_name := Some name, fn_type := FS_NODE_TYPE_MOUNTPOINT, fn_physFsID := phys'\<rparr>"
  have v1: "v1 = attach (vf_mountRoot v) ?node v" "st1 = FS_REGISTER_AS_DELEGATE_SUCCESSFUL" using createDelegate_new [OF assms(1,3)] assms(4) by auto
  have ok1: "vfs_ok v1" unfolding v1(1) by (rule attach_ok [OF assms(1) m(1)])
  have roots: "vf_mountRoot v1 = vf_mountRoot v" "vf_root v1 = vf_root v" "length (vf_nodes v1) = Suc (length (vf_nodes v))"
    using attach_nodes [OF m(1), where node = ?node] v1(1) by auto
  have "FsNode_findChild v1 (vf_root v1) name = None"
    using findChild_attach [OF assms(1) m(1) m(2), of ?node name] assms(2,3) v1(1) roots(2) by auto
  then have v2: "v2 = attach (vf_mountRoot v) ?node' v1" "st2 = FS_REGISTER_AS_DELEGATE_SUCCESSFUL"
    using createDelegate_new [OF ok1, of name thread' phys'] assms(5) roots(1) by auto
  have "FsNode_findChild v1 (vf_mountRoot v) name = Some (length (vf_nodes v))"
    using findChild_attach [OF assms(1) m(1) m(1), of ?node name] v1(1) by (simp add: FsNode_new_def)
  moreover have "FsNode_findChild v2 (vf_mountRoot v) name = Some (Suc (length (vf_nodes v)))"
    using findChild_attach [OF ok1, of "vf_mountRoot v" "vf_mountRoot v" ?node' name] v2(1) roots m(1) by (simp add: FsNode_new_def)
  ultimately show ?thesis using v1(2) v2(2) by auto
qed

theorem vfs_duplicate_mount_witness:
  "\<exists>v1 v2 id1 id2 m n. FileSystem_createDelegate FileSystem_initialize 5 ''usb'' 0 True = (v1, FS_REGISTER_AS_DELEGATE_SUCCESSFUL, id1) \<and>
    FileSystem_createDelegate v1 6 ''usb'' 0 True = (v2, FS_REGISTER_AS_DELEGATE_SUCCESSFUL, id2) \<and>
    m \<noteq> n \<and> FsNode_findChild v1 1 ''usb'' = Some m \<and> FsNode_findChild v2 1 ''usb'' = Some n"
proof -
  have "FsNode_findChild FileSystem_initialize (vf_root FileSystem_initialize) ''usb'' = None"
    by (simp add: FsNode_findChild_def initialize_nodes FsNode_new_def)
  moreover obtain v1 st1 id1 where "FileSystem_createDelegate FileSystem_initialize 5 ''usb'' 0 True = (v1, st1, id1)" by (metis prod_cases3)
  moreover obtain v2 st2 id2 where "FileSystem_createDelegate v1 6 ''usb'' 0 True = (v2, st2, id2)" by (metis prod_cases3)
  ultimately show ?thesis using vfs_duplicate_mount [OF vfs_initialize_ok, of "''usb''" 5 0 v1 st1 id1 6 0 v2 st2 id2] by (auto simp: initialize_nodes)
qed

text \<open>
  The length check of \<open>getRealPathToNode\<close> is too weak: for a node whose path without the leading
  slash has PATH_MAX or PATH_MAX - 1 characters, it writes past the end of the buffer.
\<close>

theorem real_path_overflow:
  assumes "located v n names" and "length (concat (map (\<lambda>name. name @ ''/'') names)) \<in> {PATH_MAX - 1, PATH_MAX}"
  shows "FileSystem_getRealPathToNode v n = Some (Inl (BadPointer (of_nat PATH_MAX)))"
proof (cases "length (concat (map (\<lambda>name. name @ ''/'') names)) = PATH_MAX")
  case True
  then have "names \<noteq> []" by (auto simp: PATH_MAX_def)
  then show ?thesis using overflowing_real_path [OF assms(1), of "[]"] True by (simp add: FileSystem_getRealPathToNode_def)
next
  case False
  then have l: "length (concat (map (\<lambda>name. name @ ''/'') names)) = PATH_MAX - 1" using assms(2) by simp
  then have "real_path_loop v (Some n) [] = Some (Inr (concat (map (\<lambda>name. name @ ''/'') names)))"
    using located_real_path [OF assms(1), of "[]"] by (simp add: PATH_MAX_def)
  then show ?thesis using l unfolding FileSystem_getRealPathToNode_def by (simp add: PATH_MAX_def)
qed

theorem real_path_overflow_witness:
  "\<exists>v n. vfs_ok v \<and> FileSystem_getRealPathToNode v n = Some (Inl (BadPointer 4096))"
proof -
  let ?name = "replicate 4094 (CHR ''a'')"
  let ?node = "FsNode_new\<lparr>fn_name := Some ?name, fn_type := FS_NODE_TYPE_FILE\<rparr>"
  have fresh: "FsNode_findChild FileSystem_initialize 0 ?name = None"
  proof -
    have "''mount'' \<noteq> ?name" by (rule notI, drule arg_cong [where f = length]) simp
    then show ?thesis by (auto simp: FsNode_findChild_def initialize_nodes FsNode_new_def)
  qed
  have "?name \<noteq> ''.''" "?name \<noteq> ''..''" by (rule notI, drule arg_cong [where f = length], simp)+
  then have "good_name ?name" by (auto simp: good_name_def)
  moreover have four: "length (vf_nodes FileSystem_initialize) = 4" by (simp add: initialize_nodes)
  ultimately have l: "located (attach 0 ?node FileSystem_initialize) 4 ([] @ [?name])"
    using located_new [OF vfs_initialize_ok initialize_located(1), of ?node ?name] fresh four by simp
  have "vfs_ok (attach 0 ?node FileSystem_initialize)" by (rule attach_ok [OF vfs_initialize_ok]) (simp add: initialize_nodes)
  moreover have "FileSystem_getRealPathToNode (attach 0 ?node FileSystem_initialize) 4 = Some (Inl (BadPointer (of_nat PATH_MAX)))"
    by (rule real_path_overflow [OF l]) (simp add: PATH_MAX_def)
  moreover have "(of_nat PATH_MAX :: u32) = 4096" by (simp add: PATH_MAX_def)
  ultimately show ?thesis by metis
qed

end
