(* ===== verification/FsDescriptors.thy ===== *)
theory FsDescriptors
  imports FsPipes VfsNodes
begin

text \<open>
  The file descriptors of processes (filesystem/FsDescriptors.cpp) and the operations of
  filesystem/filesystem.cpp that work on them: opening and closing nodes, cloning descriptors, and
  what a fork does to the open files.

  Tables and descriptor contents are objects that can be deleted: their store is a list that only
  grows, with nothing in the place of a deleted object, and a pointer is an index of it. Following
  a pointer to a deleted object is a fault. The reports written to the log are left out.
\<close>

section \<open>Objects\<close>

record fd_content =
  fd_id :: i32
  fd_offset :: i64
  fd_nodeID :: u32
  fd_openFlags :: i32

record fd_table =
  ft_nextFileDescriptor :: i32
  ft_descriptors :: "(i32, nat) hashmap"

record file_system =
  fy_vfs :: vfs
  fy_pipes :: pipes
  fy_tables :: "(i32, nat) hashmap"
  fy_tableObjects :: "fd_table option list"
  fy_contents :: "fd_content option list"

definition obj_at :: "'a option list \<Rightarrow> nat \<Rightarrow> 'a kres" where
  "obj_at store p = (case (if p < length store then store ! p else None) of Some x \<Rightarrow> Inr x | None \<Rightarrow> Inl (BadPointer (of_nat p)))"

definition cloneInto :: "fd_content \<Rightarrow> fd_content \<Rightarrow> fd_content" where
  "cloneInto this other = other\<lparr>fd_offset := fd_offset this, fd_nodeID := fd_nodeID this, fd_openFlags := fd_openFlags this\<rparr>"

section \<open>Descriptor tables\<close>

text \<open>\<open>initialize\<close> makes the map of the tables; the nodes and the pipes are there already.\<close>

definition FileDescriptors_initialize :: "vfs \<Rightarrow> pipes \<Rightarrow> file_system" where
  "FileDescriptors_initialize v ps = \<lparr>fy_vfs = v, fy_pipes = ps, fy_tables = HashMap_new, fy_tableObjects = [], fy_contents = []\<rparr>"

definition FileDescriptors_getProcessTable :: "file_system \<Rightarrow> i32 \<Rightarrow> file_system \<times> nat" where
  "FileDescriptors_getProcessTable s pid =
     (case HashMap_get (fy_tables s) pid of
        Some table \<Rightarrow> (s, table)
      | None \<Rightarrow>
          let table = length (fy_tableObjects s) in
          (s\<lparr>fy_tableObjects := fy_tableObjects s @ [Some \<lparr>ft_nextFileDescriptor = 3, ft_descriptors = HashMap_new\<rparr>],
             fy_tables := HashMap_add (fy_tables s) pid table\<rparr>, table))"

text \<open>\<open>createDescriptor\<close>; the two fields that \<open>map\<close> sets afterwards are arguments.\<close>

definition FileDescriptors_createDescriptor :: "file_system \<Rightarrow> nat \<Rightarrow> i32 \<Rightarrow> (file_system \<times> nat \<times> i32) kres" where
  "FileDescriptors_createDescriptor s table override =
     kbind (obj_at (fy_tableObjects s) table) (\<lambda>t.
       let descriptor = (if override = - 1 then ft_nextFileDescriptor t else override);
           desc = length (fy_contents s);
           t = (if override = - 1 then t\<lparr>ft_nextFileDescriptor := ft_nextFileDescriptor t + 1\<rparr> else t)
       in Inr (s\<lparr>fy_tableObjects := (fy_tableObjects s)[table := Some (t\<lparr>ft_descriptors := HashMap_add (ft_descriptors t) descriptor desc\<rparr>)],
                 fy_contents := fy_contents s @ [Some \<lparr>fd_id = descriptor, fd_offset = 0, fd_nodeID = 0, fd_openFlags = 0\<rparr>]\<rparr>, desc, descriptor))"

definition FileDescriptors_map :: "file_system \<Rightarrow> i32 \<Rightarrow> u32 \<Rightarrow> i32 \<Rightarrow> i32 \<Rightarrow> (file_system \<times> i32) kres" where
  "FileDescriptors_map s pid nodeID fd openFlags =
     (case FileDescriptors_getProcessTable s pid of (s, table) \<Rightarrow>
      kbind (FileDescriptors_createDescriptor s table fd) (\<lambda>(s, desc, descriptor).
      kbind (obj_at (fy_contents s) desc) (\<lambda>c.
        Inr (s\<lparr>fy_contents := (fy_contents s)[desc := Some (c\<lparr>fd_nodeID := nodeID, fd_openFlags := openFlags\<rparr>)]\<rparr>, fd_id c))))"

definition FileDescriptors_unmap :: "file_system \<Rightarrow> i32 \<Rightarrow> i32 \<Rightarrow> file_system kres" where
  "FileDescriptors_unmap s pid fd =
     (case FileDescriptors_getProcessTable s pid of (s, table) \<Rightarrow>
      kbind (obj_at (fy_tableObjects s) table) (\<lambda>t.
        case HashMap_get (ft_descriptors t) fd of
          None \<Rightarrow> Inr s
        | Some content \<Rightarrow>
            kbind (obj_at (fy_contents s) content) (\<lambda>c.
              Inr (s\<lparr>fy_tableObjects := (fy_tableObjects s)[table := Some (t\<lparr>ft_descriptors := HashMap_erase (ft_descriptors t) (fd_id c)\<rparr>)],
                     fy_contents := (fy_contents s)[content := None]\<rparr>))))"

fun delete_contents :: "(i32 \<times> nat) list \<Rightarrow> fd_content option list \<Rightarrow> fd_content option list" where
  "delete_contents [] cs = cs"
| "delete_contents ((fd, content) # es) cs = delete_contents es (cs[content := None])"

definition FileDescriptors_unmapAll :: "file_system \<Rightarrow> i32 \<Rightarrow> file_system kres" where
  "FileDescriptors_unmapAll s pid =
     (case FileDescriptors_getProcessTable s pid of (s, table) \<Rightarrow>
      kbind (obj_at (fy_tableObjects s) table) (\<lambda>t.
        Inr (s\<lparr>fy_contents := delete_contents (hm_entries (ft_descriptors t)) (fy_contents s),
               fy_tables := HashMap_erase (fy_tables s) pid,
               fy_tableObjects := (fy_tableObjects s)[table := None]\<rparr>)))"

definition FileDescriptors_get :: "file_system \<Rightarrow> i32 \<Rightarrow> i32 \<Rightarrow> (file_system \<times> nat option) kres" where
  "FileDescriptors_get s pid fd =
     (case FileDescriptors_getProcessTable s pid of (s, table) \<Rightarrow>
      kbind (obj_at (fy_tableObjects s) table) (\<lambda>t. Inr (s, HashMap_get (ft_descriptors t) fd)))"

section \<open>Open files\<close>

definition FileSystem_mapFile :: "file_system \<Rightarrow> i32 \<Rightarrow> nat \<Rightarrow> i32 \<Rightarrow> i32 \<Rightarrow> (file_system \<times> i32) kres" where
  "FileSystem_mapFile s pid node openFlags fd =
     (let n = vf_nodes (fy_vfs s) ! node in
      if fn_type n = FS_NODE_TYPE_FILE then FileDescriptors_map s pid (fn_id n) fd openFlags
      else if fn_type n = FS_NODE_TYPE_PIPE then
        kbind (Pipes_addReference (fy_pipes s) (ucast (fn_physFsID n)) pid) (\<lambda>ps.
          FileDescriptors_map (s\<lparr>fy_pipes := ps\<rparr>) pid (fn_id n) fd openFlags)
      else Inr (s, - 1))"

definition FileSystem_unmapFile :: "file_system \<Rightarrow> i32 \<Rightarrow> nat \<Rightarrow> nat \<Rightarrow> (file_system \<times> bool) kres" where
  "FileSystem_unmapFile s pid node fd =
     (let n = vf_nodes (fy_vfs s) ! node in
      if fn_type n = FS_NODE_TYPE_FILE then
        kbind (obj_at (fy_contents s) fd) (\<lambda>c. kbind (FileDescriptors_unmap s pid (fd_id c)) (\<lambda>s. Inr (s, True)))
      else if fn_type n = FS_NODE_TYPE_PIPE then
        kbind (Pipes_removeReference (fy_pipes s) (ucast (fn_physFsID n)) pid) (\<lambda>ps.
        kbind (obj_at (fy_contents s) fd) (\<lambda>c. kbind (FileDescriptors_unmap (s\<lparr>fy_pipes := ps\<rparr>) pid (fd_id c)) (\<lambda>s. Inr (s, True))))
      else Inr (s, False))"

text \<open>The node and the descriptor content, when both are there.\<close>

definition FileSystem_nodeForDescriptor :: "file_system \<Rightarrow> i32 \<Rightarrow> i32 \<Rightarrow> (file_system \<times> (nat \<times> nat) option) kres" where
  "FileSystem_nodeForDescriptor s pid fd =
     kbind (FileDescriptors_get s pid fd) (\<lambda>(s, content).
       case content of
         None \<Rightarrow> Inr (s, None)
       | Some c \<Rightarrow> kbind (obj_at (fy_contents s) c) (\<lambda>k.
           case FileSystem_getNodeById (fy_vfs s) (fd_nodeID k) of
             None \<Rightarrow> Inr (s, None)
           | Some node \<Rightarrow> Inr (s, Some (node, c))))"

datatype FsCloneFdStatus = FS_CLONE_FD_SUCCESSFUL | FS_CLONE_FD_INVALID_SOURCE_FD | FS_CLONE_FD_ERROR

definition FileSystem_clonefd :: "file_system \<Rightarrow> i32 \<Rightarrow> i32 \<Rightarrow> i32 \<Rightarrow> i32 \<Rightarrow> (file_system \<times> i32 \<times> FsCloneFdStatus) kres" where
  "FileSystem_clonefd s sourceFd sourcePid targetFd targetPid =
     kbind (FileSystem_nodeForDescriptor s sourcePid sourceFd) (\<lambda>(s, source).
       case source of
         None \<Rightarrow> Inr (s, - 1, FS_CLONE_FD_INVALID_SOURCE_FD)
       | Some (sourceNode, sourceFdContent) \<Rightarrow>
           kbind (if targetFd \<noteq> - 1
                  then kbind (FileSystem_nodeForDescriptor s targetPid targetFd) (\<lambda>(s, target).
                         case target of
                           None \<Rightarrow> Inr s
                         | Some (targetNode, targetFdContent) \<Rightarrow>
                             kbind (FileSystem_unmapFile s sourcePid targetNode targetFdContent) (\<lambda>(s, r). Inr s))
                  else Inr s) (\<lambda>s.
           kbind (FileSystem_mapFile s targetPid sourceNode 0 targetFd) (\<lambda>(s, created).
             if created \<noteq> - 1 then
               kbind (FileSystem_nodeForDescriptor s targetPid created) (\<lambda>(s, target).
                 case target of
                   None \<Rightarrow> Inr (s, - 1, FS_CLONE_FD_ERROR)
                 | Some (createdNode, createdFdContent) \<Rightarrow>
                     kbind (obj_at (fy_contents s) sourceFdContent) (\<lambda>this.
                     kbind (obj_at (fy_contents s) createdFdContent) (\<lambda>other.
                       Inr (s\<lparr>fy_contents := (fy_contents s)[createdFdContent := Some (cloneInto this other)]\<rparr>, created, FS_CLONE_FD_SUCCESSFUL))))
             else Inr (s, - 1, FS_CLONE_FD_ERROR))))"

text \<open>
  \<open>processForked\<close> clones the descriptors in the order in which the iterator visits the table of the
  source. Cloning into another process does not change that table as long as the descriptors of
  the fork are new.
\<close>

fun fork_loop :: "file_system \<Rightarrow> i32 \<Rightarrow> i32 \<Rightarrow> (i32 \<times> nat) list \<Rightarrow> file_system kres" where
  "fork_loop s source fork [] = Inr s"
| "fork_loop s source fork ((fd, content) # es) =
     kbind (obj_at (fy_contents s) content) (\<lambda>c.
     kbind (FileSystem_clonefd s (fd_id c) source (fd_id c) fork) (\<lambda>(s, r). fork_loop s source fork es))"

definition FileSystem_processForked :: "file_system \<Rightarrow> i32 \<Rightarrow> i32 \<Rightarrow> file_system kres" where
  "FileSystem_processForked s source fork =
     (case FileDescriptors_getProcessTable s source of (s, table) \<Rightarrow>
      kbind (obj_at (fy_tableObjects s) table) (\<lambda>t. fork_loop s source fork (hm_entries (ft_descriptors t))))"

text \<open>
  \<open>pipe\<close>: a node below the root of the pipes, and two descriptors for it. The addresses and the
  bytes of the new pipe are arguments as in \<open>Pipes_create\<close>.
\<close>

definition FileSystem_pipe :: "file_system \<Rightarrow> i32 \<Rightarrow> u32 \<Rightarrow> u32 \<Rightarrow> u8 list \<Rightarrow> (file_system \<times> i32 \<times> i32) kres" where
  "FileSystem_pipe s pid object buffer bytes =
     (case FileSystem_createNode (fy_vfs s) of (v, node) \<Rightarrow>
      let v = FsNode_addChild (vf_pipeRoot v) node (update_node node (\<lambda>n. n\<lparr>fn_type := FS_NODE_TYPE_PIPE\<rparr>) v) in
      kbind (Pipes_create (fy_pipes s) object buffer bytes) (\<lambda>(ps, id').
        let v = update_node node (\<lambda>n. n\<lparr>fn_physFsID := scast id'\<rparr>) v;
            s = s\<lparr>fy_vfs := v, fy_pipes := ps\<rparr>
        in kbind (FileSystem_mapFile s pid node 0 (- 1)) (\<lambda>(s, outWrite).
           kbind (FileSystem_mapFile s pid node 0 (- 1)) (\<lambda>(s, outRead). Inr (s, outWrite, outRead)))))"

section \<open>Descriptors of processes as maps\<close>

definition table_of :: "file_system \<Rightarrow> i32 \<Rightarrow> fd_table option" where
  "table_of s pid = (case HashMap_get (fy_tables s) pid of None \<Rightarrow> None | Some t \<Rightarrow> fy_tableObjects s ! t)"

definition lookup :: "file_system \<Rightarrow> i32 \<Rightarrow> i32 \<Rightarrow> nat option" where
  "lookup s pid fd = (case table_of s pid of None \<Rightarrow> None | Some T \<Rightarrow> HashMap_get (ft_descriptors T) fd)"

definition next_fd :: "file_system \<Rightarrow> i32 \<Rightarrow> i32" where
  "next_fd s pid = (case table_of s pid of None \<Rightarrow> 3 | Some T \<Rightarrow> ft_nextFileDescriptor T)"

definition fd_abs :: "file_system \<Rightarrow> i32 \<Rightarrow> i32 \<Rightarrow> fd_content option" where
  "fd_abs s pid fd = (case lookup s pid fd of None \<Rightarrow> None | Some c \<Rightarrow> fy_contents s ! c)"

text \<open>
  Well-formed tables: every table of the map is there, the content of a descriptor is there and
  carries its number, and no table or content is shared.
\<close>

definition fd_ok :: "file_system \<Rightarrow> bool" where
  "fd_ok s \<longleftrightarrow> hm_inv (fy_tables s) \<and>
     (\<forall>pid t. HashMap_get (fy_tables s) pid = Some t \<longrightarrow> t < length (fy_tableObjects s) \<and>
        (\<exists>T. fy_tableObjects s ! t = Some T \<and> hm_inv (ft_descriptors T)) \<and> (\<forall>pid'. HashMap_get (fy_tables s) pid' = Some t \<longrightarrow> pid' = pid)) \<and>
     (\<forall>pid fd c. lookup s pid fd = Some c \<longrightarrow> c < length (fy_contents s) \<and> (\<exists>k. fy_contents s ! c = Some k \<and> fd_id k = fd) \<and>
        (\<forall>pid' fd'. lookup s pid' fd' = Some c \<longrightarrow> pid' = pid \<and> fd' = fd))"

lemma obj_at_Some [simp]: "p < length store \<Longrightarrow> store ! p = Some x \<Longrightarrow> obj_at store p = Inr x"
  by (simp add: obj_at_def)

lemma fd_ok_table:
  assumes "fd_ok s" and "HashMap_get (fy_tables s) pid = Some t"
  obtains T where "t < length (fy_tableObjects s)" "fy_tableObjects s ! t = Some T" "hm_inv (ft_descriptors T)" "table_of s pid = Some T"
    "\<forall>pid'. HashMap_get (fy_tables s) pid' = Some t \<longrightarrow> pid' = pid"
proof -
  have t: "t < length (fy_tableObjects s) \<and> (\<exists>T. fy_tableObjects s ! t = Some T \<and> hm_inv (ft_descriptors T)) \<and>
      (\<forall>pid'. HashMap_get (fy_tables s) pid' = Some t \<longrightarrow> pid' = pid)"
    using assms unfolding fd_ok_def by blast
  then obtain T where T: "fy_tableObjects s ! t = Some T" "hm_inv (ft_descriptors T)" by blast
  moreover have "table_of s pid = Some T" using T(1) assms(2) by (simp add: table_of_def)
  ultimately show ?thesis using t that by blast
qed

lemma fd_ok_lookup:
  assumes "fd_ok s" and "lookup s pid fd = Some c"
  obtains k where "c < length (fy_contents s)" "fy_contents s ! c = Some k" "fd_id k = fd" "fd_abs s pid fd = Some k"
proof -
  have "c < length (fy_contents s) \<and> (\<exists>k. fy_contents s ! c = Some k \<and> fd_id k = fd)" using assms unfolding fd_ok_def by blast
  then obtain k where "c < length (fy_contents s)" "fy_contents s ! c = Some k" "fd_id k = fd" by blast
  then show ?thesis using that assms(2) by (simp add: fd_abs_def)
qed

lemma fd_abs_Some:
  assumes "fd_ok s" and "fd_abs s pid fd = Some k"
  obtains c where "lookup s pid fd = Some c" "c < length (fy_contents s)" "fy_contents s ! c = Some k" "fd_id k = fd"
proof (cases "lookup s pid fd")
  case None
  then show ?thesis using assms(2) by (simp add: fd_abs_def)
next
  case (Some c)
  then show ?thesis using fd_ok_lookup [OF assms(1) Some] assms(2) that by (metis option.inject)
qed

text \<open>The tables are independent of the pipes and of the contents.\<close>

lemma tables_same [simp]:
  "lookup (s\<lparr>fy_pipes := ps\<rparr>) = lookup s" "next_fd (s\<lparr>fy_pipes := ps\<rparr>) = next_fd s"
  "lookup (s\<lparr>fy_contents := cs\<rparr>) = lookup s" "next_fd (s\<lparr>fy_contents := cs\<rparr>) = next_fd s"
  by (simp_all add: fun_eq_iff lookup_def next_fd_def table_of_def split: option.splits)

text \<open>The table of a process is found, or made empty.\<close>

lemma getProcessTable_spec:
  assumes ok: "fd_ok s" and g: "FileDescriptors_getProcessTable s pid = (s', t)"
  shows "fd_ok s' \<and> HashMap_get (fy_tables s') pid = Some t \<and> lookup s' = lookup s \<and> next_fd s' = next_fd s \<and>
    fy_contents s' = fy_contents s \<and> fy_vfs s' = fy_vfs s \<and> fy_pipes s' = fy_pipes s"
proof (cases "HashMap_get (fy_tables s) pid")
  case (Some t')
  then show ?thesis using g ok by (simp add: FileDescriptors_getProcessTable_def)
next
  case None
  let ?T = "\<lparr>ft_nextFileDescriptor = 3, ft_descriptors = HashMap_new\<rparr>"
  have s': "s' = s\<lparr>fy_tableObjects := fy_tableObjects s @ [Some ?T], fy_tables := HashMap_add (fy_tables s) pid (length (fy_tableObjects s))\<rparr>"
    "t = length (fy_tableObjects s)"
    using g None by (auto simp: FileDescriptors_getProcessTable_def Let_def)
  have hm: "hm_inv (fy_tables s)" using ok by (simp add: fd_ok_def)
  have get: "HashMap_get (fy_tables s') = (HashMap_get (fy_tables s))(pid \<mapsto> length (fy_tableObjects s))" by (simp add: s' hm_laws hm)
  have objs: "fy_tableObjects s' = fy_tableObjects s @ [Some ?T]" by (simp add: s')
  have less: "t' < length (fy_tableObjects s)" if "HashMap_get (fy_tables s) q = Some t'" for q t' using ok that by (simp add: fd_ok_def)
  have tab: "table_of s' q = (if q = pid then Some ?T else table_of s q)" for q
    unfolding table_of_def get objs using less [of q] by (auto simp: nth_append split: option.splits)
  have look: "lookup s' q fd = lookup s q fd" for q fd
    unfolding lookup_def tab using None by (simp add: table_of_def hm_laws)
  have "next_fd s' q = next_fd s q" for q unfolding next_fd_def tab using None by (simp add: table_of_def)
  moreover have "fd_ok s'"
  proof -
    have "hm_inv (fy_tables s')" using hm by (simp add: s' hm_laws)
    moreover have "t' < length (fy_tableObjects s') \<and> (\<exists>T. fy_tableObjects s' ! t' = Some T \<and> hm_inv (ft_descriptors T)) \<and>
        (\<forall>q'. HashMap_get (fy_tables s') q' = Some t' \<longrightarrow> q' = q)" if "HashMap_get (fy_tables s') q = Some t'" for q t'
    proof (cases "q = pid")
      case True
      then show ?thesis using that less unfolding get objs by (auto simp: hm_laws dest: less)
    next
      case False
      then have q: "HashMap_get (fy_tables s) q = Some t'" using that by (simp add: get)
      then obtain T where "t' < length (fy_tableObjects s)" "fy_tableObjects s ! t' = Some T" "hm_inv (ft_descriptors T)"
          "\<forall>q'. HashMap_get (fy_tables s) q' = Some t' \<longrightarrow> q' = q"
        using fd_ok_table [OF ok q] by blast
      then show ?thesis using None unfolding get objs by (auto simp: nth_append)
    qed
    moreover have "fy_contents s' = fy_contents s" by (simp add: s')
    ultimately show ?thesis using ok look unfolding fd_ok_def by auto
  qed
  ultimately show ?thesis using look by (auto simp: s' hm_laws hm fun_eq_iff)
qed

text \<open>Replacing the table of a process, and adding or changing a content.\<close>

lemma set_table_lookup:
  assumes ok: "fd_ok s" and g: "HashMap_get (fy_tables s) pid = Some t"
  shows "lookup (s\<lparr>fy_tableObjects := (fy_tableObjects s)[t := Some T'], fy_contents := cs\<rparr>) = (lookup s)(pid := HashMap_get (ft_descriptors T'))"
    and "next_fd (s\<lparr>fy_tableObjects := (fy_tableObjects s)[t := Some T'], fy_contents := cs\<rparr>) = (next_fd s)(pid := ft_nextFileDescriptor T')"
proof -
  let ?s = "s\<lparr>fy_tableObjects := (fy_tableObjects s)[t := Some T'], fy_contents := cs\<rparr>"
  obtain T where T: "t < length (fy_tableObjects s)" "\<forall>pid'. HashMap_get (fy_tables s) pid' = Some t \<longrightarrow> pid' = pid"
    using fd_ok_table [OF ok g] by blast
  have tab: "table_of ?s q = (if q = pid then Some T' else table_of s q)" for q
    using T(1) T(2) [rule_format, of q] g by (cases "HashMap_get (fy_tables s) q") (auto simp: table_of_def nth_list_update)
  show "lookup ?s = (lookup s)(pid := HashMap_get (ft_descriptors T'))" by (rule ext, rule ext) (simp add: lookup_def tab del: tables_same)
  show "next_fd ?s = (next_fd s)(pid := ft_nextFileDescriptor T')" by (rule ext) (simp add: next_fd_def tab del: tables_same)
qed

lemma set_table_ok:
  assumes ok: "fd_ok s" and g: "HashMap_get (fy_tables s) pid = Some t" and T': "hm_inv (ft_descriptors T')"
    and entries: "\<And>fd c. HashMap_get (ft_descriptors T') fd = Some c \<Longrightarrow>
      lookup s pid fd = Some c \<and> cs ! c = fy_contents s ! c \<or> length (fy_contents s) \<le> c \<and> c < length cs \<and> (\<exists>k. cs ! c = Some k \<and> fd_id k = fd)"
    and new: "\<And>fd fd' c. length (fy_contents s) \<le> c \<Longrightarrow> HashMap_get (ft_descriptors T') fd = Some c \<Longrightarrow> HashMap_get (ft_descriptors T') fd' = Some c \<Longrightarrow> fd = fd'"
    and old: "length (fy_contents s) \<le> length cs" "\<And>q fd c. q \<noteq> pid \<Longrightarrow> lookup s q fd = Some c \<Longrightarrow> cs ! c = fy_contents s ! c"
  shows "fd_ok (s\<lparr>fy_tableObjects := (fy_tableObjects s)[t := Some T'], fy_contents := cs\<rparr>)"
proof -
  let ?s = "s\<lparr>fy_tableObjects := (fy_tableObjects s)[t := Some T'], fy_contents := cs\<rparr>"
  note look = set_table_lookup(1) [OF ok g, where T' = T' and cs = cs]
  have tabs: "u < length (fy_tableObjects ?s) \<and> (\<exists>T. fy_tableObjects ?s ! u = Some T \<and> hm_inv (ft_descriptors T)) \<and>
      (\<forall>q'. HashMap_get (fy_tables ?s) q' = Some u \<longrightarrow> q' = q)" if "HashMap_get (fy_tables ?s) q = Some u" for q u
  proof -
    have q: "HashMap_get (fy_tables s) q = Some u" using that by simp
    obtain T where "u < length (fy_tableObjects s)" "fy_tableObjects s ! u = Some T" "hm_inv (ft_descriptors T)"
        "\<forall>q'. HashMap_get (fy_tables s) q' = Some u \<longrightarrow> q' = q"
      using fd_ok_table [OF ok q] by blast
    then show ?thesis using T' by (cases "u = t") simp_all
  qed
  have less: "c < length (fy_contents s)" "\<exists>k. fy_contents s ! c = Some k \<and> fd_id k = fd" if "lookup s q fd = Some c" for q fd c
    using fd_ok_lookup [OF ok that] by blast+
  have uniq: "q' = q \<and> fd' = fd" if "lookup s q fd = Some c" "lookup s q' fd' = Some c" for q q' fd fd' c
    using ok that unfolding fd_ok_def by blast
  have cont: "c < length cs \<and> (\<exists>k. cs ! c = Some k \<and> fd_id k = fd)" if "lookup ?s q fd = Some c" for q fd c
  proof (cases "q = pid")
    case True
    then have h: "HashMap_get (ft_descriptors T') fd = Some c" using that look by simp
    from entries [OF h] show ?thesis
    proof
      assume a: "lookup s pid fd = Some c \<and> cs ! c = fy_contents s ! c"
      then show ?thesis using less [of pid fd c] old(1) by auto
    qed simp
  next
    case False
    then have l: "lookup s q fd = Some c" using that look by simp
    then show ?thesis using less [OF l] old(1) old(2) [OF False l] by auto
  qed
  have uniq': "q' = q \<and> fd' = fd" if a: "lookup ?s q fd = Some c" "lookup ?s q' fd' = Some c" for q q' fd fd' c
  proof -
    have src: "lookup s r e = Some c \<or> r = pid \<and> length (fy_contents s) \<le> c" if "lookup ?s r e = Some c" for r e
      using that entries [of e c] look by (cases "r = pid") auto
    show ?thesis
    proof (cases "length (fy_contents s) \<le> c")
      case True
      then have "q = pid" "q' = pid" using src [OF a(1)] src [OF a(2)] less(1) by (meson leD)+
      then show ?thesis using a look new [OF True] by simp
    next
      case False
      then show ?thesis using src [OF a(1)] src [OF a(2)] uniq by blast
    qed
  qed
  have "hm_inv (fy_tables ?s)" using ok by (simp add: fd_ok_def)
  moreover have "c < length (fy_contents ?s) \<and> (\<exists>k. fy_contents ?s ! c = Some k \<and> fd_id k = fd)" if "lookup ?s q fd = Some c" for q fd c
    using cont [OF that] by simp
  ultimately show ?thesis unfolding fd_ok_def using tabs uniq' by blast
qed

lemma map_spec:
  fixes pid :: i32
  assumes ok: "fd_ok s"
  defines "d \<equiv> \<lambda>fd. if fd = - 1 then next_fd s pid else fd"
  shows "\<exists>s'. FileDescriptors_map s pid nodeID fd flags = Inr (s', d fd) \<and> fd_ok s' \<and>
    lookup s' = (lookup s)(pid := (lookup s pid)(d fd \<mapsto> length (fy_contents s))) \<and>
    next_fd s' = (next_fd s)(pid := if fd = - 1 then next_fd s pid + 1 else next_fd s pid) \<and>
    fy_contents s' = fy_contents s @ [Some \<lparr>fd_id = d fd, fd_offset = 0, fd_nodeID = nodeID, fd_openFlags = flags\<rparr>] \<and>
    fy_vfs s' = fy_vfs s \<and> fy_pipes s' = fy_pipes s"
proof -
  obtain s1 t where g: "FileDescriptors_getProcessTable s pid = (s1, t)" by fastforce
  note g1 = getProcessTable_spec [OF ok g]
  obtain T where T: "t < length (fy_tableObjects s1)" "fy_tableObjects s1 ! t = Some T" "hm_inv (ft_descriptors T)" "table_of s1 pid = Some T"
    using fd_ok_table [of s1 pid t] g1 by blast
  have n: "ft_nextFileDescriptor T = next_fd s pid" using g1 T(4) by (metis next_fd_def option.simps(5))
  have look: "HashMap_get (ft_descriptors T) = lookup s pid"
  proof
    fix e
    show "HashMap_get (ft_descriptors T) e = lookup s pid e" using g1 T(4) by (metis lookup_def option.simps(5))
  qed
  let ?T = "(if fd = - 1 then T\<lparr>ft_nextFileDescriptor := ft_nextFileDescriptor T + 1\<rparr> else T)\<lparr>ft_descriptors := HashMap_add (ft_descriptors T) (d fd) (length (fy_contents s))\<rparr>"
  let ?k = "\<lparr>fd_id = d fd, fd_offset = 0, fd_nodeID = nodeID, fd_openFlags = flags\<rparr>"
  let ?s = "s1\<lparr>fy_tableObjects := (fy_tableObjects s1)[t := Some ?T], fy_contents := fy_contents s1 @ [Some ?k]\<rparr>"
  have desc: "HashMap_get (ft_descriptors ?T) = (lookup s pid)(d fd \<mapsto> length (fy_contents s))" by (simp add: hm_laws T(3) look)
  have less: "c < length (fy_contents s)" if "lookup s q e = Some c" for q e c using fd_ok_lookup [OF ok that] by blast
  have "FileDescriptors_map s pid nodeID fd flags = Inr (?s, d fd)"
    using g g1 T(1,2) n by (simp add: FileDescriptors_map_def FileDescriptors_createDescriptor_def obj_at_def d_def Let_def)
  moreover have "fd_ok ?s"
  proof (rule set_table_ok)
    show "fd_ok s1" "HashMap_get (fy_tables s1) pid = Some t" using g1 by auto
    show "hm_inv (ft_descriptors ?T)" by (simp add: hm_laws T(3))
    show "lookup s1 pid e = Some c \<and> (fy_contents s1 @ [Some ?k]) ! c = fy_contents s1 ! c \<or>
        length (fy_contents s1) \<le> c \<and> c < length (fy_contents s1 @ [Some ?k]) \<and> (\<exists>k. (fy_contents s1 @ [Some ?k]) ! c = Some k \<and> fd_id k = e)"
      if "HashMap_get (ft_descriptors ?T) e = Some c" for e c
      using that less [of pid e c] g1 unfolding desc by (auto simp: nth_append split: if_splits)
    show "e = e'" if "length (fy_contents s1) \<le> c" "HashMap_get (ft_descriptors ?T) e = Some c" "HashMap_get (ft_descriptors ?T) e' = Some c" for e e' c
      using that less [of pid e c] less [of pid e' c] g1 unfolding desc by (auto split: if_splits)
    show "(fy_contents s1 @ [Some ?k]) ! c = fy_contents s1 ! c" if "q \<noteq> pid" "lookup s1 q e = Some c" for q e c
      using that less [of q e c] g1 by (simp add: nth_append)
  qed simp
  moreover have "lookup ?s = (lookup s)(pid := (lookup s pid)(d fd \<mapsto> length (fy_contents s)))"
    using set_table_lookup(1) [of s1 pid t "fy_contents s1 @ [Some ?k]" ?T] g1 desc by simp
  moreover have "next_fd ?s = (next_fd s)(pid := if fd = - 1 then next_fd s pid + 1 else next_fd s pid)"
    using set_table_lookup(2) [of s1 pid t "fy_contents s1 @ [Some ?k]" ?T] g1 n by simp
  ultimately show ?thesis using g1 by (intro exI [of _ ?s]) simp
qed

lemma nodeForDescriptor_spec:
  assumes ok: "fd_ok s"
  shows "\<exists>s'. FileSystem_nodeForDescriptor s pid fd = Inr (s', case lookup s pid fd of None \<Rightarrow> None
      | Some c \<Rightarrow> map_option (\<lambda>n. (n, c)) (FileSystem_getNodeById (fy_vfs s) (fd_nodeID (the (fy_contents s ! c))))) \<and>
    fd_ok s' \<and> lookup s' = lookup s \<and> next_fd s' = next_fd s \<and> fy_contents s' = fy_contents s \<and> fy_vfs s' = fy_vfs s \<and> fy_pipes s' = fy_pipes s"
proof -
  obtain s1 t where g: "FileDescriptors_getProcessTable s pid = (s1, t)" by fastforce
  note g1 = getProcessTable_spec [OF ok g]
  obtain T where T: "t < length (fy_tableObjects s1)" "fy_tableObjects s1 ! t = Some T" "table_of s1 pid = Some T"
    using fd_ok_table [of s1 pid t] g1 by blast
  have look: "HashMap_get (ft_descriptors T) fd = lookup s pid fd" using g1 T(3) by (metis lookup_def option.simps(5))
  then have get: "FileDescriptors_get s pid fd = Inr (s1, lookup s pid fd)" using g T(1,2) by (simp add: FileDescriptors_get_def)
  show ?thesis
  proof (cases "lookup s pid fd")
    case None
    then show ?thesis using get g1 by (simp add: FileSystem_nodeForDescriptor_def)
  next
    case (Some c)
    obtain k where "c < length (fy_contents s)" "fy_contents s ! c = Some k" using fd_ok_lookup [OF ok Some] by blast
    then show ?thesis using get g1 Some by (auto simp: FileSystem_nodeForDescriptor_def split: option.splits)
  qed
qed

section \<open>Cloning and forking\<close>

definition node_open :: "file_system \<Rightarrow> u32 \<Rightarrow> bool" where
  "node_open s id' \<longleftrightarrow> (case FileSystem_getNodeById (fy_vfs s) id' of None \<Rightarrow> False
     | Some n \<Rightarrow> fn_id (vf_nodes (fy_vfs s) ! n) = id' \<and> fn_type (vf_nodes (fy_vfs s) ! n) \<in> {FS_NODE_TYPE_FILE, FS_NODE_TYPE_PIPE})"

lemma node_open_cong: "fy_vfs s' = fy_vfs s \<Longrightarrow> node_open s' = node_open s"
  by (simp add: fun_eq_iff node_open_def split: option.splits)

lemma mapFile_spec:
  assumes ok: "fd_ok s" and ps: "pipes_ok (fy_pipes s)" and ty: "fn_type (vf_nodes (fy_vfs s) ! n) \<in> {FS_NODE_TYPE_FILE, FS_NODE_TYPE_PIPE}" and fd: "fd \<noteq> - 1"
  shows "\<exists>s'. FileSystem_mapFile s pid n flags fd = Inr (s', fd) \<and> fd_ok s' \<and> pipes_ok (fy_pipes s') \<and>
    lookup s' = (lookup s)(pid := (lookup s pid)(fd \<mapsto> length (fy_contents s))) \<and> next_fd s' = next_fd s \<and>
    fy_contents s' = fy_contents s @ [Some \<lparr>fd_id = fd, fd_offset = 0, fd_nodeID = fn_id (vf_nodes (fy_vfs s) ! n), fd_openFlags = flags\<rparr>] \<and>
    fy_vfs s' = fy_vfs s"
proof (cases "fn_type (vf_nodes (fy_vfs s) ! n) = FS_NODE_TYPE_FILE")
  case True
  then show ?thesis using map_spec [OF ok, of pid "fn_id (vf_nodes (fy_vfs s) ! n)" fd flags] fd ps by (auto simp: FileSystem_mapFile_def)
next
  case False
  let ?id = "ucast (fn_physFsID (vf_nodes (fy_vfs s) ! n)) :: i32"
  obtain ps' where ps': "Pipes_addReference (fy_pipes s) ?id pid = Inr ps'" "pipes_ok ps'"
    using addReference_spec [OF ps, of ?id pid] by blast
  let ?s = "s\<lparr>fy_pipes := ps'\<rparr>"
  have "fd_ok ?s" using ok by (simp add: fd_ok_def)
  from map_spec [OF this, of pid "fn_id (vf_nodes (fy_vfs s) ! n)" fd flags] show ?thesis
    using False ty fd ps' by (auto simp: FileSystem_mapFile_def Let_def)
qed

lemma clonefd_spec:
  assumes ok: "fd_ok s" "pipes_ok (fy_pipes s)" and src: "fd_abs s source sfd = Some k" "node_open s (fd_nodeID k)"
    and tgt: "lookup s target fd = None" "fd \<noteq> - 1"
  shows "\<exists>s'. FileSystem_clonefd s sfd source fd target = Inr (s', fd, FS_CLONE_FD_SUCCESSFUL) \<and> fd_ok s' \<and> pipes_ok (fy_pipes s') \<and>
    fd_abs s' = (fd_abs s)(target := (fd_abs s target)(fd \<mapsto> k\<lparr>fd_id := fd\<rparr>)) \<and>
    lookup s' = (lookup s)(target := (lookup s target)(fd \<mapsto> length (fy_contents s))) \<and> next_fd s' = next_fd s \<and> fy_vfs s' = fy_vfs s"
proof -
  obtain c where c: "lookup s source sfd = Some c" "c < length (fy_contents s)" "fy_contents s ! c = Some k" using fd_abs_Some [OF ok(1) src(1)] by blast
  obtain n where n: "FileSystem_getNodeById (fy_vfs s) (fd_nodeID k) = Some n" "fn_id (vf_nodes (fy_vfs s) ! n) = fd_nodeID k"
      "fn_type (vf_nodes (fy_vfs s) ! n) \<in> {FS_NODE_TYPE_FILE, FS_NODE_TYPE_PIPE}"
    using src(2) by (auto simp: node_open_def split: option.splits)
  obtain s1 where s1: "FileSystem_nodeForDescriptor s source sfd = Inr (s1, Some (n, c))" "fd_ok s1" "lookup s1 = lookup s" "next_fd s1 = next_fd s"
      "fy_contents s1 = fy_contents s" "fy_vfs s1 = fy_vfs s" "fy_pipes s1 = fy_pipes s"
    using nodeForDescriptor_spec [OF ok(1), of source sfd] c n by auto
  obtain s2 where s2: "FileSystem_nodeForDescriptor s1 target fd = Inr (s2, None)" "fd_ok s2" "lookup s2 = lookup s" "next_fd s2 = next_fd s"
      "fy_contents s2 = fy_contents s" "fy_vfs s2 = fy_vfs s" "fy_pipes s2 = fy_pipes s"
    using nodeForDescriptor_spec [OF s1(2), of target fd] s1 tgt(1) by auto
  let ?k = "\<lparr>fd_id = fd, fd_offset = 0, fd_nodeID = fd_nodeID k, fd_openFlags = 0\<rparr>" and ?d = "length (fy_contents s)"
  obtain s3 where s3: "FileSystem_mapFile s2 target n 0 fd = Inr (s3, fd)" "fd_ok s3" "pipes_ok (fy_pipes s3)"
      "lookup s3 = (lookup s)(target := (lookup s target)(fd \<mapsto> ?d))" "next_fd s3 = next_fd s" "fy_contents s3 = fy_contents s @ [Some ?k]" "fy_vfs s3 = fy_vfs s"
    using mapFile_spec [OF s2(2), of n fd target 0] s2 ok(2) n tgt(2) by auto
  obtain s4 where s4: "FileSystem_nodeForDescriptor s3 target fd = Inr (s4, Some (n, ?d))" "fd_ok s4" "lookup s4 = lookup s3" "next_fd s4 = next_fd s"
      "fy_contents s4 = fy_contents s @ [Some ?k]" "fy_vfs s4 = fy_vfs s" "pipes_ok (fy_pipes s4)"
    using nodeForDescriptor_spec [OF s3(2), of target fd] s3 n by auto
  let ?s = "s4\<lparr>fy_contents := fy_contents s @ [Some (k\<lparr>fd_id := fd\<rparr>)]\<rparr>"
  have "FileSystem_clonefd s sfd source fd target = Inr (?s, fd, FS_CLONE_FD_SUCCESSFUL)"
    using s1(1) s2(1) s3(1) s4(1,5) tgt(2) c(2,3) by (simp add: FileSystem_clonefd_def cloneInto_def nth_append)
  moreover have same: "lookup ?s = lookup s3" "next_fd ?s = next_fd s" by (simp_all add: s4(3,4))
  moreover have less: "c' < length (fy_contents s)" if "lookup s q e = Some c'" for q e c' using fd_ok_lookup [OF ok(1) that] by blast
  moreover have "fd_ok ?s"
  proof -
    have "c' < length (fy_contents ?s) \<and> (\<exists>k. fy_contents ?s ! c' = Some k \<and> fd_id k = e)" if l: "lookup s3 q e = Some c'" for q e c'
    proof (cases "c' = ?d")
      case True
      then have "q = target \<and> e = fd" using l less [of q e c'] unfolding s3(4) by (auto split: if_splits)
      then show ?thesis using True by (simp add: nth_append)
    next
      case False
      then have "lookup s q e = Some c'" using l unfolding s3(4) by (auto split: if_splits)
      then show ?thesis using fd_ok_lookup [OF ok(1), of q e c'] by (auto simp: nth_append)
    qed
    then show ?thesis using s4(2) unfolding fd_ok_def same(1) s4(3) by simp
  qed
  moreover have "fd_abs ?s = (fd_abs s)(target := (fd_abs s target)(fd \<mapsto> k\<lparr>fd_id := fd\<rparr>))"
  proof (rule ext, rule ext)
    fix q e
    show "fd_abs ?s q e = ((fd_abs s)(target := (fd_abs s target)(fd \<mapsto> k\<lparr>fd_id := fd\<rparr>))) q e"
      using less [of q e] unfolding fd_abs_def same(1) s3(4) by (cases "lookup s q e") (auto simp: nth_append)
  qed
  ultimately show ?thesis using s3(4) s4(6,7) by (intro exI [of _ ?s]) simp
qed

lemma fork_loop_spec:
  assumes "fd_ok s" and "pipes_ok (fy_pipes s)" and "fork \<noteq> source" and "distinct (map fst es)"
    and "\<forall>(fd, c) \<in> set es. lookup s source fd = Some c \<and> lookup s fork fd = None \<and> fd \<noteq> - 1"
    and "\<forall>fd k. fd_abs s source fd = Some k \<longrightarrow> node_open s (fd_nodeID k)"
  shows "\<exists>s'. fork_loop s source fork es = Inr s' \<and> fd_ok s' \<and> pipes_ok (fy_pipes s') \<and> next_fd s' = next_fd s \<and> fy_vfs s' = fy_vfs s \<and>
    fd_abs s' = (fd_abs s)(fork := (\<lambda>fd. if fd \<in> fst ` set es then fd_abs s source fd else fd_abs s fork fd))"
  using assms
proof (induction es arbitrary: s)
  case Nil
  then show ?case by simp
next
  case (Cons e es)
  obtain fd c where e: "e = (fd, c)" by (cases e)
  have l: "lookup s source fd = Some c" "lookup s fork fd = None" "fd \<noteq> - 1" using Cons.prems(5) e by auto
  obtain k where k: "c < length (fy_contents s)" "fy_contents s ! c = Some k" "fd_id k = fd" "fd_abs s source fd = Some k"
    using fd_ok_lookup [OF Cons.prems(1) l(1)] by blast
  then have same: "k\<lparr>fd_id := fd\<rparr> = k" by simp
  have no: "node_open s (fd_nodeID k)" using Cons.prems(6) k(4) by blast
  obtain s1 where s1: "FileSystem_clonefd s fd source fd fork = Inr (s1, fd, FS_CLONE_FD_SUCCESSFUL)" "fd_ok s1" "pipes_ok (fy_pipes s1)"
      "fd_abs s1 = (fd_abs s)(fork := (fd_abs s fork)(fd \<mapsto> k))"
      "lookup s1 = (lookup s)(fork := (lookup s fork)(fd \<mapsto> length (fy_contents s)))" "next_fd s1 = next_fd s" "fy_vfs s1 = fy_vfs s"
    using clonefd_spec [OF Cons.prems(1,2) k(4) no l(2,3)] same by auto
  have d: "distinct (map fst es)" using Cons.prems(4) by simp
  have es: "\<forall>(fd', c') \<in> set es. lookup s1 source fd' = Some c' \<and> lookup s1 fork fd' = None \<and> fd' \<noteq> - 1"
    using Cons.prems(3-5) e unfolding s1(5) by (force simp: image_iff)
  have opened: "\<forall>fd k. fd_abs s1 source fd = Some k \<longrightarrow> node_open s1 (fd_nodeID k)"
    using Cons.prems(3,6) node_open_cong [OF s1(7)] unfolding s1(4) by simp
  obtain s2 where s2: "fork_loop s1 source fork es = Inr s2" "fd_ok s2" "pipes_ok (fy_pipes s2)" "next_fd s2 = next_fd s1" "fy_vfs s2 = fy_vfs s1"
      "fd_abs s2 = (fd_abs s1)(fork := (\<lambda>fd. if fd \<in> fst ` set es then fd_abs s1 source fd else fd_abs s1 fork fd))"
    using Cons.IH [OF s1(2,3) Cons.prems(3) d es opened] by blast
  have "fd_abs s2 = (fd_abs s)(fork := (\<lambda>fd. if fd \<in> fst ` set (e # es) then fd_abs s source fd else fd_abs s fork fd))"
    unfolding s2(6) s1(4) using Cons.prems(3) e k(4) by (auto simp: fun_eq_iff)
  moreover have "fork_loop s source fork (e # es) = Inr s2" using e k(1-3) s1(1) s2(1) by simp
  ultimately show ?case using s2 s1 by auto
qed

definition forkable :: "file_system \<Rightarrow> i32 \<Rightarrow> i32 \<Rightarrow> bool" where
  "forkable s source fork \<longleftrightarrow> fd_ok s \<and> pipes_ok (fy_pipes s) \<and> fork \<noteq> source \<and> (\<forall>fd. fd_abs s fork fd = None) \<and>
     (\<forall>fd k. fd_abs s source fd = Some k \<longrightarrow> fd \<noteq> - 1 \<and> node_open s (fd_nodeID k))"

lemma processForked_spec:
  assumes "forkable s source fork"
  shows "\<exists>s'. FileSystem_processForked s source fork = Inr s' \<and> fd_ok s' \<and> pipes_ok (fy_pipes s') \<and> next_fd s' = next_fd s \<and>
    fy_vfs s' = fy_vfs s \<and> fd_abs s' = (fd_abs s)(fork := fd_abs s source)"
proof -
  note a = assms [unfolded forkable_def]
  obtain s1 t where g: "FileDescriptors_getProcessTable s source = (s1, t)" by fastforce
  have ok: "fd_ok s" using a by blast
  note g1 = getProcessTable_spec [OF ok g]
  obtain T where T: "t < length (fy_tableObjects s1)" "fy_tableObjects s1 ! t = Some T" "hm_inv (ft_descriptors T)" "table_of s1 source = Some T"
    using fd_ok_table [of s1 source t] g1 by blast
  let ?es = "hm_entries (ft_descriptors T)"
  have abs1: "fd_abs s1 = fd_abs s" using g1 by (simp add: fun_eq_iff fd_abs_def split: option.splits)
  have entry: "(fd, c) \<in> set ?es \<longleftrightarrow> lookup s1 source fd = Some c" for fd c
    using map_of_eq_Some_iff [OF hm_entries_distinct [OF T(3)]] T(4) by (simp add: hm_entries_map_of [OF T(3)] lookup_def)
  have bound: "fd_abs s1 q fd = None \<longleftrightarrow> lookup s1 q fd = None" for q fd
    using fd_ok_lookup [of s1 q fd] g1 by (metis fd_abs_def option.simps(4) option.distinct(1) option.exhaust)
  have es: "\<forall>(fd, c) \<in> set ?es. lookup s1 source fd = Some c \<and> lookup s1 fork fd = None \<and> fd \<noteq> - 1"
    using a bound unfolding abs1 by (auto simp: entry) (metis option.distinct(1) option.exhaust)
  have opened: "\<forall>fd k. fd_abs s1 source fd = Some k \<longrightarrow> node_open s1 (fd_nodeID k)"
    using a g1 node_open_cong [of s1 s] unfolding abs1 by simp
  have "fd \<in> fst ` set ?es \<longleftrightarrow> fd_abs s source fd \<noteq> None" for fd
    using bound [of source fd] entry [of fd] unfolding abs1 by force
  then have all: "(\<lambda>fd. if fd \<in> fst ` set ?es then fd_abs s1 source fd else fd_abs s1 fork fd) = fd_abs s source"
    using a abs1 by (auto simp: fun_eq_iff)
  have "fd_ok s1" "pipes_ok (fy_pipes s1)" "fork \<noteq> source" using a g1 by auto
  from fork_loop_spec [OF this hm_entries_distinct [OF T(3)] es opened, unfolded all]
  obtain s2 where "fork_loop s1 source fork ?es = Inr s2" "fd_ok s2" "pipes_ok (fy_pipes s2)" "next_fd s2 = next_fd s1" "fy_vfs s2 = fy_vfs s1"
      "fd_abs s2 = (fd_abs s1)(fork := fd_abs s source)"
    by blast
  then show ?thesis using g g1 T(1,2) abs1 by (simp add: FileSystem_processForked_def)
qed

text \<open>A process with one open file, for the examples.\<close>

definition one_file :: file_system where
  "one_file = FileDescriptors_initialize
     (attach 1 (FsNode_new\<lparr>fn_name := Some ''f'', fn_type := FS_NODE_TYPE_FILE\<rparr>) FileSystem_initialize) Pipes_initialize"

lemma one_file_open:
  obtains s where "FileDescriptors_map one_file 7 4 (- 1) 1 = Inr (s, 3)" "forkable s 7 8" "next_fd s 8 = 3"
    "fd_abs s 7 3 = Some \<lparr>fd_id = 3, fd_offset = 0, fd_nodeID = 4, fd_openFlags = 1\<rparr>"
proof -
  have look: "lookup one_file q fd = None" "next_fd one_file q = 3" for q fd
    by (simp_all add: one_file_def FileDescriptors_initialize_def lookup_def next_fd_def table_of_def hm_laws)
  have ok: "fd_ok one_file"
    unfolding fd_ok_def look(1) by (simp add: one_file_def FileDescriptors_initialize_def hm_laws)
  have c0: "fy_contents one_file = []" by (simp add: one_file_def FileDescriptors_initialize_def)
  let ?k = "\<lparr>fd_id = 3, fd_offset = 0, fd_nodeID = 4, fd_openFlags = 1\<rparr>"
  obtain s where s: "FileDescriptors_map one_file 7 4 (- 1) 1 = Inr (s, 3)" "fd_ok s" "lookup s = (lookup one_file)(7 := [3 \<mapsto> 0])"
      "next_fd s = (next_fd one_file)(7 := 4)" "fy_contents s = [Some ?k]" "fy_vfs s = fy_vfs one_file" "fy_pipes s = fy_pipes one_file"
    using map_spec [OF ok, of 7 4 "- 1" 1] c0 look by (auto simp: fun_eq_iff)
  have abs: "fd_abs s q fd = (if q = 7 \<and> fd = 3 then Some ?k else None)" for q fd
    using s(3,5) look(1) by (simp add: fd_abs_def)
  have "node_open s 4"
    unfolding node_open_def s(6) one_file_def FileDescriptors_initialize_def
    by (simp add: FileSystem_getNodeById_def attach_def initialize_nodes FsNode_new_def nth_append hm_laws)
  moreover have "pipes_ok (fy_pipes s)" using s(7) initialize_ok(1) by (simp add: one_file_def FileDescriptors_initialize_def)
  ultimately have "forkable s 7 8" using s(2) abs by (simp add: forkable_def)
  then show ?thesis using that s(1,4) look(2) abs by simp
qed

section \<open>Properties\<close>

text \<open>
  C31. A fork inherits the open files: for a new process without descriptors and a source whose
  descriptors all refer to files or pipes that exist, \<open>processForked\<close> succeeds and gives the fork
  exactly the descriptors of the source, with number, offset, node and flags, while the
  descriptors of every other process stay as they are. The tables stay well formed, the nodes
  unchanged.
\<close>

theorem fork_inherits_descriptors:
  assumes "forkable s source fork"
  shows "\<exists>s'. FileSystem_processForked s source fork = Inr s' \<and> fd_ok s' \<and> fd_abs s' fork = fd_abs s source \<and>
    (\<forall>pid. pid \<noteq> fork \<longrightarrow> fd_abs s' pid = fd_abs s pid) \<and> fy_vfs s' = fy_vfs s"
  using processForked_spec [OF assms] by auto

theorem fork_inherits_descriptors_witness:
  "\<exists>s s'. FileDescriptors_map one_file 7 4 (- 1) 1 = Inr (s, 3) \<and> FileSystem_processForked s 7 8 = Inr s' \<and>
    fd_abs s' 8 3 = Some \<lparr>fd_id = 3, fd_offset = 0, fd_nodeID = 4, fd_openFlags = 1\<rparr>"
proof -
  obtain s where s: "FileDescriptors_map one_file 7 4 (- 1) 1 = Inr (s, 3)" "forkable s 7 8"
      "fd_abs s 7 3 = Some \<lparr>fd_id = 3, fd_offset = 0, fd_nodeID = 4, fd_openFlags = 1\<rparr>"
    using one_file_open by blast
  then show ?thesis using fork_inherits_descriptors [OF s(2)] by auto
qed

text \<open>
  The fork inherits the descriptors but not the counter: when the source has descriptor 3 open
  and the table of the fork is new, the first file that the fork opens gets number 3 as well, and the
  inherited descriptor 3 is lost.
\<close>

theorem fork_open_replaces_inherited:
  assumes "forkable s source fork" and "next_fd s fork = 3" and "fd_abs s source 3 = Some k"
    and "FileSystem_processForked s source fork = Inr s'" and "FileDescriptors_map s' fork nodeID (- 1) flags = Inr (s'', fd)"
  shows "fd = 3 \<and> fd_abs s' fork 3 = Some k \<and> fd_abs s'' fork 3 = Some \<lparr>fd_id = 3, fd_offset = 0, fd_nodeID = nodeID, fd_openFlags = flags\<rparr>"
proof -
  have s': "fd_ok s'" "next_fd s' fork = 3" "fd_abs s' fork = fd_abs s source" using processForked_spec [OF assms(1)] assms(2,4) by auto
  from map_spec [OF s'(1), of fork nodeID "- 1" flags] assms(5) s'(2)
  have "fd = 3" "lookup s'' fork 3 = Some (length (fy_contents s'))"
    "fy_contents s'' = fy_contents s' @ [Some \<lparr>fd_id = 3, fd_offset = 0, fd_nodeID = nodeID, fd_openFlags = flags\<rparr>]" by auto
  then show ?thesis using assms(3) s'(3) by (simp add: fd_abs_def)
qed

theorem fork_open_replaces_inherited_witness:
  "\<exists>s s' s''. FileDescriptors_map one_file 7 4 (- 1) 1 = Inr (s, 3) \<and> FileSystem_processForked s 7 8 = Inr s' \<and>
    FileDescriptors_map s' 8 2 (- 1) 0 = Inr (s'', 3) \<and> fd_abs s' 8 3 = Some \<lparr>fd_id = 3, fd_offset = 0, fd_nodeID = 4, fd_openFlags = 1\<rparr> \<and>
    fd_abs s'' 8 3 = Some \<lparr>fd_id = 3, fd_offset = 0, fd_nodeID = 2, fd_openFlags = 0\<rparr>"
proof -
  obtain s where s: "FileDescriptors_map one_file 7 4 (- 1) 1 = Inr (s, 3)" "forkable s 7 8" "next_fd s 8 = 3"
      "fd_abs s 7 3 = Some \<lparr>fd_id = 3, fd_offset = 0, fd_nodeID = 4, fd_openFlags = 1\<rparr>"
    using one_file_open by blast
  obtain s' where f: "FileSystem_processForked s 7 8 = Inr s'" "fd_ok s'" using processForked_spec [OF s(2)] by blast
  obtain s'' fd where m: "FileDescriptors_map s' 8 2 (- 1) 0 = Inr (s'', fd)" using map_spec [OF f(2), of 8 2 "- 1" 0] by blast
  show ?thesis using fork_open_replaces_inherited [OF s(2-4) f(1) m] s(1) f(1) m by auto
qed

end
