(* ===== verification/RamdiskFs.thy ===== *)
theory RamdiskFs
  imports Ramdisk FsDescriptors
begin

unbundle bit_operations_syntax

text \<open>
  The delegate of the ramdisk (filesystem/FsDelegateRamdisk.cpp): it answers the requests of the file
  system from the entries of the ramdisk, at once. Files that are written are moved from the image
  to an array of the heap, which grows by a fifth until the data fit.

  The names of nodes are strings without the terminating zero, as in the tree of nodes; those of
  entries are arrays. The bytes that a read copies to its caller are part of the result. \<open>junk\<close>
  gives the bytes that a new array of some length holds.
\<close>

section \<open>State\<close>

record rd_fs = fs_base +
  rf_vfs :: vfs
  rf_rd :: ramdisk

definition rd_entry_at :: "ramdisk \<Rightarrow> nat \<Rightarrow> rd_entry" where
  "rd_entry_at rd p = rd_objects rd ! p"

definition rd_put :: "ramdisk \<Rightarrow> nat \<Rightarrow> rd_entry \<Rightarrow> ramdisk" where
  "rd_put rd p e = rd\<lparr>rd_objects := (rd_objects rd)[p := e]\<rparr>"

definition finish_request :: "'a fs_base_scheme \<Rightarrow> i64 \<Rightarrow> 'a fs_base_scheme" where
  "finish_request s id' = s\<lparr>pf_transactions := FsTransactionStore_setStatus (pf_transactions s) id' FS_TRANSACTION_FINISHED\<rparr>"

text \<open>Reading \<open>n\<close> bytes at a position of the data of an entry.\<close>

definition data_bytes :: "ramdisk \<Rightarrow> rd_data \<Rightarrow> i64 \<Rightarrow> nat \<Rightarrow> u8 list kres" where
  "data_bytes rd data pos n =
     (case data of
        NoData \<Rightarrow> if n = 0 then Inr [] else Inl NullDeref
      | OnImage p \<Rightarrow> image_bytes (rd_image rd) (p + ucast pos) n
      | InBuffer b \<Rightarrow> if 0 \<le> sint pos \<and> nat (sint pos) + n \<le> length b then Inr (take n (drop (nat (sint pos)) b)) else Inl (BadPointer (ucast pos)))"

section \<open>Nodes and discovery\<close>

definition FsDelegateRamdisk_createVfsNode :: "vfs \<Rightarrow> ramdisk \<Rightarrow> nat \<Rightarrow> nat \<Rightarrow> (vfs \<times> nat) kres" where
  "FsDelegateRamdisk_createVfsNode v rd ramdiskNode parent =
     (let e = rd_entry_at rd ramdiskNode in
      case FileSystem_createNode v of (v, node) \<Rightarrow>
      kbind (String_length (re_name e)) (\<lambda>len.
        let v = update_node node (\<lambda>n. n\<lparr>fn_physFsID := ucast (re_id e),
                  fn_type := if re_type e = RAMDISK_ENTRY_TYPE_FILE then FS_NODE_TYPE_FILE else FS_NODE_TYPE_FOLDER,
                  fn_name := Some (take len (re_name e))\<rparr>) v
        in Inr (FsNode_addChild parent node v, node)))"

definition FsDelegateRamdisk_requestDiscovery ::
    "rd_fs \<Rightarrow> nat \<Rightarrow> string \<Rightarrow> (rd_fs \<times> FsDiscoveryStatus \<times> i64) kres" where
  "FsDelegateRamdisk_requestDiscovery s parent child =
     (case FsTransactionStore_nextTransaction (pf_transactions s) of (t, id') \<Rightarrow>
      let s = s\<lparr>pf_transactions := t\<rparr>;
          p = vf_nodes (rf_vfs s) ! parent;
          ramdiskParent = (if fn_type p = FS_NODE_TYPE_MOUNTPOINT then Ramdisk_getRoot (rf_rd s)
                           else Ramdisk_findById (rf_rd s) (ucast (fn_physFsID p)))
      in kbind (case ramdiskParent of
                  None \<Rightarrow> Inr (s, FS_DISCOVERY_NOT_FOUND)
                | Some rp \<Rightarrow>
                    kbind (Ramdisk_findChild (rf_rd s) (Some rp) (child @ [NUL])) (\<lambda>ramdiskNode.
                      case ramdiskNode of
                        None \<Rightarrow> Inr (s, FS_DISCOVERY_NOT_FOUND)
                      | Some rn \<Rightarrow> kbind (FsDelegateRamdisk_createVfsNode (rf_vfs s) (rf_rd s) rn parent) (\<lambda>(v, node).
                          Inr (s\<lparr>rf_vfs := v\<rparr>, FS_DISCOVERY_SUCCESSFUL))))
           (\<lambda>(s, status). Inr (finish_request s id', status, id')))"

section \<open>Reading and writing\<close>

definition copy_amount :: "rd_entry \<Rightarrow> i64 \<Rightarrow> i64 \<Rightarrow> i64" where
  "copy_amount e offset len = (if sint (offset + len) \<ge> uint (re_datalength e) then ucast (re_datalength e) - offset else len)"

definition FsDelegateRamdisk_requestRead ::
    "rd_fs \<Rightarrow> nat \<Rightarrow> i64 \<Rightarrow> fd_content \<Rightarrow> FsReadStatus fs_handler \<Rightarrow>
     ((rd_fs \<times> FsReadStatus fs_handler \<times> i64) \<times> fd_content \<times> u8 list) kres" where
  "FsDelegateRamdisk_requestRead s node len fd h =
     (case start_or_repeat (pf_transactions s) h of (t, id') \<Rightarrow>
      let s = s\<lparr>pf_transactions := t\<rparr> in
      case Ramdisk_findById (rf_rd s) (ucast (fn_physFsID (vf_nodes (rf_vfs s) ! node))) of
        None \<Rightarrow> Inr ((finish_request s id', h\<lparr>fh_status := FS_READ_INVALID_FD\<rparr>, id'), fd, [])
      | Some rn \<Rightarrow>
          let e = rd_entry_at (rf_rd s) rn in
          if re_data e = NoData then Inr ((finish_request s id', h\<lparr>fh_status := FS_READ_ERROR\<rparr>, id'), fd, [])
          else let copyAmount = copy_amount e (fd_offset fd) len in
            kbind (if 0 < sint copyAmount
                   then kbind (data_bytes (rf_rd s) (re_data e) (fd_offset fd) (unat (ucast copyAmount :: u32))) (\<lambda>bytes.
                          Inr (fd\<lparr>fd_offset := fd_offset fd + copyAmount\<rparr>, bytes))
                   else Inr (fd, []))
              (\<lambda>(fd, bytes). Inr ((finish_request s id', h\<lparr>fh_result := copyAmount, fh_status := FS_READ_SUCCESSFUL\<rparr>, id'), fd, bytes)))"

text \<open>
  The product of a length with 1.2, cut to an integer. With the extended precision of the x87 unit
  the rounded constant, which is a little below 1.2, shows for multiples of 5.
\<close>

definition times_1_2 :: "bool \<Rightarrow> u32 \<Rightarrow> u32" where
  "times_1_2 extended n = of_nat (if extended then unat n * 5404319552844595 div 2 ^ 52 else unat n * 6 div 5)"

text \<open>A new array of the given length with the data of the entry at its front.\<close>

definition moved_data :: "ramdisk \<Rightarrow> (u32 \<Rightarrow> nat \<Rightarrow> u8) \<Rightarrow> rd_entry \<Rightarrow> u32 \<Rightarrow> rd_entry kres" where
  "moved_data rd junk e buflen =
     kbind (data_bytes rd (re_data e) 0 (unat (re_datalength e))) (\<lambda>bytes.
       if unat (re_datalength e) \<le> unat buflen
       then Inr (e\<lparr>re_data := InBuffer (bytes @ map (junk buflen) [unat (re_datalength e)..<unat buflen]), re_notOnRdBufferLength := buflen\<rparr>)
       else Inl (BadPointer buflen))"

definition ensure_buffer :: "bool \<Rightarrow> (u32 \<Rightarrow> nat \<Rightarrow> u8) \<Rightarrow> ramdisk \<Rightarrow> rd_entry \<Rightarrow> rd_entry kres" where
  "ensure_buffer extended junk rd e =
     (if re_dataOnRamdisk e
      then kbind (moved_data rd junk e (times_1_2 extended (re_datalength e))) (\<lambda>e. Inr (e\<lparr>re_dataOnRamdisk := False\<rparr>))
      else if re_data e = NoData then Inr (e\<lparr>re_data := InBuffer (map (junk 32) [0..<32]), re_notOnRdBufferLength := 32\<rparr>)
      else Inr e)"

partial_function (option) expand_loop :: "bool \<Rightarrow> (u32 \<Rightarrow> nat \<Rightarrow> u8) \<Rightarrow> ramdisk \<Rightarrow> i64 \<Rightarrow> i64 \<Rightarrow> rd_entry \<Rightarrow> rd_entry kres option" where
  "expand_loop extended junk rd offset len e =
     (let space = (ucast (ucast (re_notOnRdBufferLength e) - offset) :: u32) in
      if uint space < sint len
      then case moved_data rd junk e (times_1_2 extended (re_notOnRdBufferLength e)) of
             Inl x \<Rightarrow> Some (Inl x)
           | Inr e \<Rightarrow> expand_loop extended junk rd offset len e
      else Some (Inr e))"

definition write_data :: "rd_entry \<Rightarrow> i64 \<Rightarrow> u8 list \<Rightarrow> i64 \<Rightarrow> rd_entry kres" where
  "write_data e offset buffer len =
     (let n = unat (ucast len :: u32) in
      case re_data e of
        InBuffer b \<Rightarrow>
          if 0 \<le> sint offset \<and> nat (sint offset) + n \<le> length b \<and> n \<le> length buffer
          then Inr (e\<lparr>re_data := InBuffer (take (nat (sint offset)) b @ take n buffer @ drop (nat (sint offset) + n) b),
                      re_datalength := ucast (offset + len)\<rparr>)
          else Inl (BadPointer (ucast offset))
      | _ \<Rightarrow> Inl (BadPointer (ucast offset)))"

definition FILE_FLAG_MODE_TRUNCATE :: i32 where "FILE_FLAG_MODE_TRUNCATE = push_bit 4 1"
definition FILE_FLAG_MODE_APPEND :: i32 where "FILE_FLAG_MODE_APPEND = push_bit 5 1"
definition FILE_FLAG_MODE_CREATE :: i32 where "FILE_FLAG_MODE_CREATE = push_bit 6 1"

definition FsDelegateRamdisk_requestWrite ::
    "bool \<Rightarrow> (u32 \<Rightarrow> nat \<Rightarrow> u8) \<Rightarrow> rd_fs \<Rightarrow> nat \<Rightarrow> i64 \<Rightarrow> u8 list \<Rightarrow> fd_content \<Rightarrow> FsWriteStatus fs_handler \<Rightarrow>
     ((rd_fs \<times> FsWriteStatus fs_handler \<times> i64) \<times> fd_content) kres option" where
  "FsDelegateRamdisk_requestWrite extended junk s node len buffer fd h =
     (case start_or_repeat (pf_transactions s) h of (t, id') \<Rightarrow>
      let s = s\<lparr>pf_transactions := t\<rparr> in
      case Ramdisk_findById (rf_rd s) (ucast (fn_physFsID (vf_nodes (rf_vfs s) ! node))) of
        None \<Rightarrow> Some (Inr ((finish_request s id', h\<lparr>fh_status := FS_WRITE_INVALID_FD\<rparr>, id'), fd))
      | Some rn \<Rightarrow>
          obind (Some (ensure_buffer extended junk (rf_rd s) (rd_entry_at (rf_rd s) rn))) (\<lambda>e.
          let fd = (if fd_openFlags fd AND FILE_FLAG_MODE_APPEND \<noteq> 0 then fd\<lparr>fd_offset := ucast (re_datalength e)\<rparr> else fd) in
          obind (expand_loop extended junk (rf_rd s) (fd_offset fd) len e) (\<lambda>e.
          obind (Some (write_data e (fd_offset fd) buffer len)) (\<lambda>e.
            Some (Inr ((finish_request (s\<lparr>rf_rd := rd_put (rf_rd s) rn e\<rparr>) id', h\<lparr>fh_result := len, fh_status := FS_WRITE_SUCCESSFUL\<rparr>, id'),
                       fd\<lparr>fd_offset := fd_offset fd + len\<rparr>))))))"

section \<open>Length, directories, opening and closing\<close>

definition FsDelegateRamdisk_requestGetLength ::
    "rd_fs \<Rightarrow> nat \<Rightarrow> FsLengthStatus fs_handler \<Rightarrow> rd_fs \<times> FsLengthStatus fs_handler \<times> i64" where
  "FsDelegateRamdisk_requestGetLength s node h =
     (case FsTransactionStore_nextTransaction (pf_transactions s) of (t, id') \<Rightarrow>
      let s = s\<lparr>pf_transactions := t\<rparr>;
          h = (case Ramdisk_findById (rf_rd s) (ucast (fn_physFsID (vf_nodes (rf_vfs s) ! node))) of
                 None \<Rightarrow> h\<lparr>fh_status := FS_LENGTH_NOT_FOUND, fh_result := 0\<rparr>
               | Some rn \<Rightarrow> h\<lparr>fh_status := FS_LENGTH_SUCCESSFUL, fh_result := ucast (re_datalength (rd_entry_at (rf_rd s) rn))\<rparr>)
      in (finish_request s id', h, id'))"

text \<open>The path of a child: the real path of the folder, a slash and the name, in an array of PATH_MAX characters.\<close>

definition child_path :: "vfs \<Rightarrow> nat \<Rightarrow> string \<Rightarrow> string kres option" where
  "child_path v folder name =
     obind (FileSystem_getRealPathToNode v folder) (\<lambda>absolute.
     obind (Some (String_length name)) (\<lambda>childlen.
       Some (let path = absolute @ ''/'' @ take childlen name in
             if length path < PATH_MAX then Inr path else Inl (BadPointer (of_nat PATH_MAX)))))"

partial_function (option) refresh_loop :: "ramdisk \<Rightarrow> nat \<Rightarrow> vfs \<Rightarrow> u32 \<Rightarrow> vfs kres option" where
  "refresh_loop rd folder v position =
     (case Ramdisk_getChildAt rd (ucast (fn_physFsID (vf_nodes v ! folder))) position of
        None \<Rightarrow> Some (Inr v)
      | Some rdChild \<Rightarrow>
          (case child_path v folder (re_name (rd_entry_at rd rdChild)) of
             None \<Rightarrow> None
           | Some (Inl x) \<Rightarrow> Some (Inl x)
           | Some (Inr absolute) \<Rightarrow>
               (case FileSystem_findExisting v absolute of (parent, child, name) \<Rightarrow>
                case (if child = None then FsDelegateRamdisk_createVfsNode v rd rdChild folder else Inr (v, folder)) of
                  Inl x \<Rightarrow> Some (Inl x)
                | Inr (v, n) \<Rightarrow> refresh_loop rd folder v (position + 1))))"

definition FsDelegateRamdisk_requestDirectoryRefresh ::
    "rd_fs \<Rightarrow> nat \<Rightarrow> (rd_fs \<times> FsDirectoryRefreshStatus \<times> i64) kres option" where
  "FsDelegateRamdisk_requestDirectoryRefresh s folder =
     (case FsTransactionStore_nextTransaction (pf_transactions s) of (t, id') \<Rightarrow>
      let s = s\<lparr>pf_transactions := t\<rparr> in
      case Ramdisk_findById (rf_rd s) (ucast (fn_physFsID (vf_nodes (rf_vfs s) ! folder))) of
        None \<Rightarrow> Some (Inr (finish_request s id', FS_DIRECTORY_REFRESH_ERROR, id'))
      | Some rdFolder \<Rightarrow>
          obind (refresh_loop (rf_rd s) folder (rf_vfs s) 0) (\<lambda>v.
            Some (Inr (finish_request (s\<lparr>rf_vfs := update_node folder (\<lambda>n. n\<lparr>fn_contentsValid := True\<rparr>) v\<rparr>) id', FS_DIRECTORY_REFRESH_SUCCESSFUL, id'))))"

text \<open>The handler of an open request: the status of the discovery before it, its own status and the node.\<close>

record fs_open_handler =
  oh_discoveryStatus :: FsDiscoveryStatus
  oh_node :: nat
  oh_status :: FsOpenStatus

definition FsDelegateRamdisk_requestOpen ::
    "rd_fs \<Rightarrow> nat \<Rightarrow> string \<Rightarrow> i32 \<Rightarrow> string \<Rightarrow> fs_open_handler \<Rightarrow> (rd_fs \<times> fs_open_handler \<times> i64) kres" where
  "FsDelegateRamdisk_requestOpen s node filename flags junk h =
     (case FsTransactionStore_nextTransaction (pf_transactions s) of (t, id') \<Rightarrow>
      let s = s\<lparr>pf_transactions := t\<rparr>;
          ramdiskNode = Ramdisk_findById (rf_rd s) (ucast (fn_physFsID (vf_nodes (rf_vfs s) ! node)))
      in kbind (if oh_discoveryStatus h = FS_DISCOVERY_SUCCESSFUL then
                  (case ramdiskNode of
                     None \<Rightarrow> Inl NullDeref
                   | Some rn \<Rightarrow>
                       let e = rd_entry_at (rf_rd s) rn in
                       if re_type e \<noteq> RAMDISK_ENTRY_TYPE_FILE then Inr (s, h\<lparr>oh_status := FS_OPEN_ERROR\<rparr>)
                       else if flags AND FILE_FLAG_MODE_TRUNCATE \<noteq> 0 \<and> \<not> re_dataOnRamdisk e
                       then Inr (s\<lparr>rf_rd := rd_put (rf_rd s) rn (e\<lparr>re_datalength := 0, re_notOnRdBufferLength := 0, re_data := NoData\<rparr>)\<rparr>,
                                 h\<lparr>oh_status := FS_OPEN_SUCCESSFUL\<rparr>)
                       else Inr (s, h\<lparr>oh_status := FS_OPEN_SUCCESSFUL\<rparr>))
                else if oh_discoveryStatus h = FS_DISCOVERY_NOT_FOUND then
                  (if flags AND FILE_FLAG_MODE_CREATE \<noteq> 0
                   then kbind (Ramdisk_createChild (rf_rd s) ramdiskNode (filename @ [NUL]) junk) (\<lambda>(rd, newRamdiskEntry).
                        kbind (FsDelegateRamdisk_createVfsNode (rf_vfs s) rd newRamdiskEntry node) (\<lambda>(v, n).
                          Inr (s\<lparr>rf_rd := rd, rf_vfs := v\<rparr>, h\<lparr>oh_node := n, oh_status := FS_OPEN_SUCCESSFUL\<rparr>)))
                   else Inr (s, h\<lparr>oh_status := FS_OPEN_NOT_FOUND\<rparr>))
                else Inr (s, h))
           (\<lambda>(s, h). Inr (finish_request s id', h, id')))"

definition FsDelegateRamdisk_requestClose :: "rd_fs \<Rightarrow> rd_fs \<times> FsCloseStatus \<times> i64" where
  "FsDelegateRamdisk_requestClose s = answer_request s FS_CLOSE_SUCCESSFUL"

section \<open>The delegate of the mount points\<close>

text \<open>
  filesystem/FsDelegateMount.cpp: the nodes above the mounted file systems can not be discovered,
  opened or read; their list of children is always complete.
\<close>

definition FsDelegateMount_requestDiscovery :: "'a fs_base_scheme \<Rightarrow> 'a fs_base_scheme \<times> FsDiscoveryStatus \<times> i64" where
  "FsDelegateMount_requestDiscovery s = answer_request s FS_DISCOVERY_NOT_FOUND"

definition mount_io :: "'a fs_base_scheme \<Rightarrow> 'status fs_handler \<Rightarrow> 'status \<Rightarrow> 'a fs_base_scheme \<times> 'status fs_handler \<times> i64" where
  "mount_io s h status =
     (case start_or_repeat (pf_transactions s) h of (t, id') \<Rightarrow> (finish_request (s\<lparr>pf_transactions := t\<rparr>) id', h\<lparr>fh_status := status\<rparr>, id'))"

definition FsDelegateMount_requestRead :: "'a fs_base_scheme \<Rightarrow> FsReadStatus fs_handler \<Rightarrow> 'a fs_base_scheme \<times> FsReadStatus fs_handler \<times> i64" where
  "FsDelegateMount_requestRead s h = mount_io s h FS_READ_ERROR"

definition FsDelegateMount_requestWrite :: "'a fs_base_scheme \<Rightarrow> FsWriteStatus fs_handler \<Rightarrow> 'a fs_base_scheme \<times> FsWriteStatus fs_handler \<times> i64" where
  "FsDelegateMount_requestWrite s h = mount_io s h FS_WRITE_ERROR"

definition FsDelegateMount_requestGetLength :: "'a fs_base_scheme \<Rightarrow> FsLengthStatus fs_handler \<Rightarrow> 'a fs_base_scheme \<times> FsLengthStatus fs_handler \<times> i64" where
  "FsDelegateMount_requestGetLength s h =
     (case answer_request s FS_LENGTH_ERROR of (s, status, id') \<Rightarrow> (s, h\<lparr>fh_status := status, fh_result := - 1\<rparr>, id'))"

definition FsDelegateMount_requestDirectoryRefresh :: "rd_fs \<Rightarrow> nat \<Rightarrow> rd_fs \<times> FsDirectoryRefreshStatus \<times> i64" where
  "FsDelegateMount_requestDirectoryRefresh s folder =
     answer_request (s\<lparr>rf_vfs := update_node folder (\<lambda>n. n\<lparr>fn_contentsValid := True\<rparr>) (rf_vfs s)\<rparr>) FS_DIRECTORY_REFRESH_SUCCESSFUL"

definition FsDelegateMount_requestOpen :: "'a fs_base_scheme \<Rightarrow> 'a fs_base_scheme \<times> FsOpenStatus \<times> i64" where
  "FsDelegateMount_requestOpen s = answer_request s FS_OPEN_ERROR"

definition FsDelegateMount_requestClose :: "'a fs_base_scheme \<Rightarrow> 'a fs_base_scheme \<times> FsCloseStatus \<times> i64" where
  "FsDelegateMount_requestClose s = answer_request s FS_CLOSE_ERROR"

section \<open>Numbers of 32 and 64 bits\<close>

lemma sint_of_nat_i64: "n < 2 ^ 63 \<Longrightarrow> sint (of_nat n :: i64) = int n"
  by (simp add: signed_of_nat signed_take_bit_int_eq_self)

lemma ucast_of_nat_i64: "(ucast (of_nat n :: i64) :: u32) = of_nat n"
  by (rule bit_word_eqI) (simp add: bit_simps)

lemma ucast_u32_i64: "(ucast (w :: u32) :: i64) = of_nat (unat w)"
  by (simp add: unsigned_ucast_eq flip: word_unat_eq_iff)

lemma scaled_bounds:
  fixes n :: nat
  shows "n \<le> n * 5404319552844595 div 4503599627370496" "n * 5404319552844595 div 4503599627370496 \<le> n * 6 div 5"
    and "6 \<le> n \<Longrightarrow> n < n * 5404319552844595 div 4503599627370496"
proof -
  have "n * 4503599627370496 div 4503599627370496 \<le> n * 5404319552844595 div 4503599627370496" by (rule div_le_mono) simp
  then show "n \<le> n * 5404319552844595 div 4503599627370496" by simp
  have "n * 5404319552844595 div 4503599627370496 * 4503599627370496 \<le> n * 5404319552844595" by (rule div_times_less_eq_dividend)
  then have "n * 5404319552844595 div 4503599627370496 * 5 \<le> n * 6" by linarith
  then show "n * 5404319552844595 div 4503599627370496 \<le> n * 6 div 5" by (simp add: less_eq_div_iff_mult_less_eq)
  show "n < n * 5404319552844595 div 4503599627370496" if "6 \<le> n"
  proof -
    have "(n + 1) * 4503599627370496 div 4503599627370496 \<le> n * 5404319552844595 div 4503599627370496" using that by (intro div_le_mono) (simp add: add_mult_distrib)
    then show ?thesis by simp
  qed
qed

lemma times_1_2_spec:
  assumes "unat n < 2 ^ 31"
  shows "unat n \<le> unat (times_1_2 extended n)" "unat (times_1_2 extended n) \<le> unat n * 6 div 5"
    and "6 \<le> unat n \<Longrightarrow> unat n < unat (times_1_2 extended n)"
proof -
  have "unat n * 6 div 5 < 2 ^ 32" using assms by (simp add: less_mult_imp_div_less)
  then have "unat (times_1_2 extended n) = (if extended then unat n * 5404319552844595 div 4503599627370496 else unat n * 6 div 5)"
    using scaled_bounds(2) [of "unat n"] by (auto simp: times_1_2_def intro!: unat_of_nat_u32)
  then show "unat n \<le> unat (times_1_2 extended n)" "unat (times_1_2 extended n) \<le> unat n * 6 div 5"
    "6 \<le> unat n \<Longrightarrow> unat n < unat (times_1_2 extended n)"
    using scaled_bounds [of "unat n"] by auto
qed

lemma times_1_2_small:
  assumes "unat n < 5"
  shows "times_1_2 extended n = n"
proof -
  have "unat n = 0 \<or> unat n = 1 \<or> unat n = 2 \<or> unat n = 3 \<or> unat n = 4" using assms by linarith
  then have "(if extended then unat n * 5404319552844595 div 2 ^ 52 else unat n * 6 div 5) = unat n" by auto
  then show ?thesis by (simp only: times_1_2_def) simp
qed

section \<open>Contents of entries\<close>

definition entry_ok :: "ramdisk \<Rightarrow> rd_entry \<Rightarrow> bool" where
  "entry_ok rd e \<longleftrightarrow>
     (case re_data e of
        NoData \<Rightarrow> \<not> re_dataOnRamdisk e \<and> re_datalength e = 0 \<and> re_notOnRdBufferLength e = 0
      | OnImage p \<Rightarrow> re_dataOnRamdisk e \<and> unat p + unat (re_datalength e) \<le> length (rd_image rd) \<and> length (rd_image rd) < 2 ^ 32
      | InBuffer b \<Rightarrow> \<not> re_dataOnRamdisk e \<and> length b = unat (re_notOnRdBufferLength e) \<and> unat (re_datalength e) \<le> length b)"

definition entry_contents :: "ramdisk \<Rightarrow> rd_entry \<Rightarrow> u8 list" where
  "entry_contents rd e =
     (case re_data e of
        NoData \<Rightarrow> []
      | OnImage p \<Rightarrow> take (unat (re_datalength e)) (drop (unat p) (rd_image rd))
      | InBuffer b \<Rightarrow> take (unat (re_datalength e)) b)"

lemma entry_contents_length: "entry_ok rd e \<Longrightarrow> length (entry_contents rd e) = unat (re_datalength e)"
  by (auto simp: entry_ok_def entry_contents_def split: rd_data.splits)

lemma data_bytes_contents:
  assumes "entry_ok rd e" and "o' + n \<le> unat (re_datalength e)"
  shows "data_bytes rd (re_data e) (of_nat o') n = Inr (take n (drop o' (entry_contents rd e)))"
proof -
  have d: "unat (re_datalength e) < 2 ^ 32" using unsigned_less [of "re_datalength e"] by simp
  then have o64: "sint (of_nat o' :: i64) = int o'" using assms(2) by (intro sint_of_nat_i64) simp
  show ?thesis
  proof (cases "re_data e")
    case NoData
    then show ?thesis using assms by (simp add: data_bytes_def entry_ok_def entry_contents_def)
  next
    case (OnImage p)
    then have len: "unat p + unat (re_datalength e) \<le> length (rd_image rd)" "length (rd_image rd) < 2 ^ 32" using assms(1) by (simp_all add: entry_ok_def)
    have "p + of_nat o' = adr (unat p + o')" by (simp add: adr_def)
    then have "image_bytes (rd_image rd) (p + of_nat o') n = Inr (take n (drop (unat p + o') (rd_image rd)))"
      using len assms(2) by (simp add: image_bytes_def unat_adr)
    then show ?thesis using OnImage assms(2) by (simp add: data_bytes_def entry_contents_def ucast_of_nat_i64 drop_take min_def add.commute)
  next
    case (InBuffer b)
    then show ?thesis using assms o64 by (simp add: data_bytes_def entry_ok_def entry_contents_def drop_take min_def)
  qed
qed

lemma moved_data_spec:
  assumes "entry_ok rd e" and "unat (re_datalength e) \<le> unat buflen"
  shows "\<exists>b. moved_data rd junk e buflen = Inr (e\<lparr>re_data := InBuffer b, re_notOnRdBufferLength := buflen\<rparr>) \<and>
    length b = unat buflen \<and> take (unat (re_datalength e)) b = entry_contents rd e"
  using data_bytes_contents [OF assms(1), of 0] assms(2) entry_contents_length [OF assms(1)]
  by (intro exI [of _ "entry_contents rd e @ map (junk buflen) [unat (re_datalength e)..<unat buflen]"]) (simp add: moved_data_def)

lemma space_less:
  assumes "o' \<le> unat n" and "l < 2 ^ 63"
  shows "uint (ucast (ucast (n :: u32) - of_nat o' :: i64) :: u32) < sint (of_nat l :: i64) \<longleftrightarrow> unat n < o' + l"
proof -
  have "(ucast n - of_nat o' :: i64) = of_nat (unat n - o')" using assms(1) by (simp only: ucast_u32_i64 of_nat_diff)
  moreover have "unat n - o' < 2 ^ 32" using u32_bound [of n] by simp
  ultimately have "uint (ucast (ucast n - of_nat o' :: i64) :: u32) = int (unat n - o')" by (simp only: ucast_of_nat_i64 uint_nat unat_of_nat_u32)
  moreover have "sint (of_nat l :: i64) = int l" using assms(2) by (rule sint_of_nat_i64)
  ultimately show ?thesis using assms(1) by (simp only: of_nat_less_iff) linarith
qed

lemma expand_loop_spec:
  assumes "o' + l < 2 ^ 31" and "entry_ok rd e" and "re_data e = InBuffer b" and "6 \<le> length b \<or> o' + l \<le> length b"
    and "o' \<le> unat (re_datalength e)"
  shows "\<exists>e' b'. expand_loop extended junk rd (of_nat o') (of_nat l) e = Some (Inr e') \<and>
    e' = e\<lparr>re_data := InBuffer b', re_notOnRdBufferLength := of_nat (length b')\<rparr> \<and> length b' < 2 ^ 32 \<and>
    o' + l \<le> length b' \<and> length b \<le> length b' \<and> take (unat (re_datalength e)) b' = entry_contents rd e"
  using assms(2-5)
proof (induction "2 ^ 31 - length b" arbitrary: e b rule: less_induct)
  case less
  let ?n = "re_notOnRdBufferLength e"
  have b: "length b = unat ?n" "unat (re_datalength e) \<le> length b" "\<not> re_dataOnRamdisk e" using less.prems(1,2) by (simp_all add: entry_ok_def)
  have n32: "unat ?n < 2 ^ 32" using unsigned_less [of ?n] by simp
  have space: "uint (ucast (ucast ?n - of_nat o' :: i64) :: u32) < sint (of_nat l :: i64) \<longleftrightarrow> unat ?n < o' + l"
    by (rule space_less) (use less.prems(4) b assms(1) in simp_all)
  show ?case
  proof (cases "o' + l \<le> length b")
    case True
    then have "expand_loop extended junk rd (of_nat o') (of_nat l) e = Some (Inr e)"
      using space b(1) by (subst expand_loop.simps) (simp add: Let_def)
    moreover have "take (unat (re_datalength e)) b = entry_contents rd e" using less.prems(2) by (simp add: entry_contents_def)
    ultimately show ?thesis using True b n32 less.prems(2) by (intro exI [of _ e] exI [of _ b]) simp
  next
    case False
    let ?m = "times_1_2 extended ?n"
    have n: "unat ?n < 2 ^ 31" "6 \<le> unat ?n" using False assms(1) less.prems(3) b(1) by auto
    note m = times_1_2_spec [OF n(1), where extended = extended]
    obtain b' where b': "moved_data rd junk e ?m = Inr (e\<lparr>re_data := InBuffer b', re_notOnRdBufferLength := ?m\<rparr>)" "length b' = unat ?m"
        "take (unat (re_datalength e)) b' = entry_contents rd e"
      using moved_data_spec [OF less.prems(1), of ?m junk] m(1) b by auto
    let ?e = "e\<lparr>re_data := InBuffer b', re_notOnRdBufferLength := ?m\<rparr>"
    have ok: "entry_ok rd ?e" using b b' m(1) by (simp add: entry_ok_def)
    have "\<not> o' + l \<le> unat ?n" using False b(1) by simp
    then have step: "expand_loop extended junk rd (of_nat o') (of_nat l) e = expand_loop extended junk rd (of_nat o') (of_nat l) ?e"
      using space b'(1) less.prems(4) b by (subst expand_loop.simps) (simp add: Let_def)
    have "\<exists>e' b''. expand_loop extended junk rd (of_nat o') (of_nat l) ?e = Some (Inr e') \<and>
        e' = ?e\<lparr>re_data := InBuffer b'', re_notOnRdBufferLength := of_nat (length b'')\<rparr> \<and> length b'' < 2 ^ 32 \<and>
        o' + l \<le> length b'' \<and> length b' \<le> length b'' \<and> take (unat (re_datalength ?e)) b'' = entry_contents rd ?e"
      by (rule less.hyps [OF _ ok]) (use m(3) [OF n(2)] n b b' less.prems(4) in simp_all)
    then obtain b'' where b'': "expand_loop extended junk rd (of_nat o') (of_nat l) ?e = Some (Inr (?e\<lparr>re_data := InBuffer b'', re_notOnRdBufferLength := of_nat (length b'')\<rparr>))"
        "length b'' < 2 ^ 32" "o' + l \<le> length b''" "length b' \<le> length b''" "take (unat (re_datalength e)) b'' = entry_contents rd ?e" by auto
    have "entry_contents rd ?e = entry_contents rd e" using b'(3) by (simp add: entry_contents_def)
    then show ?thesis using step b'' b'(2) m(1) b(1)
      by (intro exI [of _ "e\<lparr>re_data := InBuffer b'', re_notOnRdBufferLength := of_nat (length b'')\<rparr>"] exI [of _ b'']) simp
  qed
qed

lemma expand_loop_stuck:
  assumes "re_data e = InBuffer b" and "entry_ok rd e" and "length b < 5" and "o' \<le> length b" and "length b < o' + l" and "l < 2 ^ 31"
  shows "expand_loop extended junk rd (of_nat o') (of_nat l) e = None"
proof -
  define P where "P = (\<lambda>(extended :: bool) (junk :: u32 \<Rightarrow> nat \<Rightarrow> u8) rd (offset :: i64) (len :: i64) e (y :: rd_entry kres).
    offset = of_nat o' \<and> len = of_nat l \<and> entry_ok rd e \<longrightarrow> (\<forall>b. re_data e = InBuffer b \<and> length b < 5 \<and> o' \<le> length b \<longrightarrow> o' + l \<le> length b))"
  have "P extended junk rd (of_nat o') (of_nat l) e y" if "expand_loop extended junk rd (of_nat o') (of_nat l) e = Some y" for y
  proof (rule expand_loop.raw_induct [of P, OF _ that])
    fix loop extended junk rd offset len e y
    assume IH: "\<And>extended junk rd offset len e y. loop extended junk rd offset len e = Some y \<Longrightarrow> P extended junk rd offset len e y"
      and body: "(let space = (ucast (ucast (re_notOnRdBufferLength e) - offset) :: u32) in
        if uint space < sint len
        then case moved_data rd junk e (times_1_2 extended (re_notOnRdBufferLength e)) of Inl x \<Rightarrow> Some (Inl x) | Inr e \<Rightarrow> loop extended junk rd offset len e
        else Some (Inr e)) = Some y"
    show "P extended junk rd offset len e y"
      unfolding P_def
    proof (intro impI allI, rule ccontr)
      fix b
      assume h: "offset = of_nat o' \<and> len = of_nat l \<and> entry_ok rd e" "re_data e = InBuffer b \<and> length b < 5 \<and> o' \<le> length b" "\<not> o' + l \<le> length b"
      let ?n = "re_notOnRdBufferLength e"
      have b: "length b = unat ?n" "unat (re_datalength e) \<le> length b" "\<not> re_dataOnRamdisk e" using h(1,2) by (auto simp: entry_ok_def)
      have space: "uint (ucast (ucast ?n - of_nat o' :: i64) :: u32) < sint (of_nat l :: i64) \<longleftrightarrow> unat ?n < o' + l"
        by (rule space_less) (use h b assms(6) in simp_all)
      have m: "times_1_2 extended ?n = ?n" using h b by (intro times_1_2_small) simp
      obtain b' where b': "moved_data rd junk e ?n = Inr (e\<lparr>re_data := InBuffer b', re_notOnRdBufferLength := ?n\<rparr>)" "length b' = unat ?n"
        using moved_data_spec [of rd e ?n junk] h b by auto
      let ?e = "e\<lparr>re_data := InBuffer b', re_notOnRdBufferLength := ?n\<rparr>"
      have "loop extended junk rd offset len ?e = Some y" using body h space m b' b by (simp add: Let_def split: if_splits)
      then have "P extended junk rd offset len ?e y" by (rule IH)
      moreover have "entry_ok rd ?e" using b b' by (simp add: entry_ok_def)
      ultimately show False using h b b' by (simp add: P_def)
    qed
  qed
  then show ?thesis using assms by (cases "expand_loop extended junk rd (of_nat o') (of_nat l) e") (auto simp: P_def)
qed

lemma ensure_buffer_spec:
  assumes "entry_ok rd e" and "unat (re_datalength e) < 2 ^ 31"
    and "re_data e = NoData \<or> 6 \<le> length (entry_contents rd e) \<or> 6 \<le> unat (re_notOnRdBufferLength e) \<and> \<not> re_dataOnRamdisk e"
  shows "\<exists>e' b. ensure_buffer extended junk rd e = Inr e' \<and> entry_ok rd e' \<and> re_data e' = InBuffer b \<and>
    entry_contents rd e' = entry_contents rd e \<and> re_datalength e' = re_datalength e \<and> 6 \<le> length b"
proof (cases "re_data e")
  case NoData
  then show ?thesis using assms(1) by (simp add: ensure_buffer_def entry_ok_def entry_contents_def)
next
  case (InBuffer b)
  then show ?thesis using assms entry_contents_length [OF assms(1)] by (auto simp: ensure_buffer_def entry_ok_def)
next
  case (OnImage p)
  let ?m = "times_1_2 extended (re_datalength e)"
  have m: "unat (re_datalength e) \<le> unat ?m" using times_1_2_spec(1) [OF assms(2)] .
  obtain b where b: "moved_data rd junk e ?m = Inr (e\<lparr>re_data := InBuffer b, re_notOnRdBufferLength := ?m\<rparr>)"
      "length b = unat ?m" "take (unat (re_datalength e)) b = entry_contents rd e" using moved_data_spec [OF assms(1) m, of junk] by blast
  have "re_dataOnRamdisk e" using assms(1) OnImage by (simp add: entry_ok_def)
  moreover from this have "6 \<le> unat (re_datalength e)" using assms(3) OnImage entry_contents_length [OF assms(1)] by simp
  moreover have "entry_ok rd (e\<lparr>re_data := InBuffer b, re_notOnRdBufferLength := ?m, re_dataOnRamdisk := False\<rparr>)"
    using b m by (simp add: entry_ok_def)
  ultimately show ?thesis using b m
    by (intro exI [of _ "e\<lparr>re_data := InBuffer b, re_notOnRdBufferLength := ?m, re_dataOnRamdisk := False\<rparr>"] exI [of _ b])
      (simp add: ensure_buffer_def entry_contents_def)
qed

lemma finished_status:
  assumes "hm_inv (tx_store (pf_transactions s))" and "start_or_repeat (pf_transactions s) h = (t, id')"
  shows "FsTransactionStore_getStatus (pf_transactions (finish_request (s'\<lparr>pf_transactions := t\<rparr>) id')) id' = FS_TRANSACTION_FINISHED"
proof -
  have "tx_store t = tx_store (pf_transactions s)"
    using assms(2) by (auto simp: start_or_repeat_def FsTransactionStore_nextTransaction_def split: if_splits)
  then show ?thesis using assms(1) by (simp add: finish_request_def FsTransactionStore_setStatus_def FsTransactionStore_getStatus_def hm_laws)
qed

text \<open>A ramdisk with one file, and its node, for the examples.\<close>

definition one_entry :: "u8 list \<Rightarrow> rd_entry \<Rightarrow> rd_fs" where
  "one_entry img e = \<lparr>pf_transactions = FsTransactionStore_initialize,
     rf_vfs = vfs_empty\<lparr>vf_nodes := [FsNode_new\<lparr>fn_physFsID := 1, fn_type := FS_NODE_TYPE_FILE\<rparr>]\<rparr>,
     rf_rd = \<lparr>rd_image = img, rd_objects = [RamdiskEntry_new, e\<lparr>re_id := 1\<rparr>], rd_first = [1], rd_root = Some 0, rd_nextUnusedId = 2\<rparr>\<rparr>"

definition image_file :: "nat \<Rightarrow> rd_entry" where
  "image_file n = RamdiskEntry_new\<lparr>re_type := RAMDISK_ENTRY_TYPE_FILE, re_data := OnImage 0, re_datalength := of_nat n, re_dataOnRamdisk := True\<rparr>"

lemma one_entry_simps [simp]:
  "Ramdisk_findById (rf_rd (one_entry img e)) (ucast (fn_physFsID (vf_nodes (rf_vfs (one_entry img e)) ! 0))) = Some 1"
  "rd_entry_at (rf_rd (one_entry img e)) (Suc 0) = e\<lparr>re_id := 1\<rparr>" "rd_image (rf_rd (one_entry img e)) = img"
  "length (rd_objects (rf_rd (one_entry img e))) = 2"
  by (simp_all add: one_entry_def Ramdisk_findById_def rd_entry_at_def)

section \<open>Properties\<close>

text \<open>
  C33. Reading a file of the ramdisk: with the data of the entry in place and an offset inside the
  file, a read answers with the bytes from the offset on, at most as many as asked for and as are
  there, advances the offset by their number and finishes the transaction. With an offset behind
  the end the answer is a negative number of bytes and success.
\<close>

theorem ramdisk_read:
  assumes "Ramdisk_findById (rf_rd s) (ucast (fn_physFsID (vf_nodes (rf_vfs s) ! node))) = Some rn"
    and "entry_ok (rf_rd s) (rd_entry_at (rf_rd s) rn)" and "re_data (rd_entry_at (rf_rd s) rn) \<noteq> NoData"
    and "fd_offset fd = of_nat o'" and "o' + l < 2 ^ 63" and "entry_contents (rf_rd s) (rd_entry_at (rf_rd s) rn) = c"
    and "hm_inv (tx_store (pf_transactions s))"
  shows "\<exists>s' h' id'. FsDelegateRamdisk_requestRead s node (of_nat l) fd h =
      Inr ((s', h', id'), fd\<lparr>fd_offset := of_nat (o' + length (take l (drop o' c)))\<rparr>, take l (drop o' c)) \<and>
    fh_status h' = FS_READ_SUCCESSFUL \<and> sint (fh_result h') = (if length c \<le> o' + l then int (length c) - int o' else int l) \<and>
    FsTransactionStore_getStatus (pf_transactions s') id' = FS_TRANSACTION_FINISHED \<and> rf_rd s' = rf_rd s \<and> rf_vfs s' = rf_vfs s"
proof -
  let ?e = "rd_entry_at (rf_rd s) rn"
  obtain t id' where t: "start_or_repeat (pf_transactions s) h = (t, id')" by fastforce
  let ?s = "s\<lparr>pf_transactions := t\<rparr>"
  let ?a = "copy_amount ?e (of_nat o') (of_nat l)"
  have d: "length c = unat (re_datalength ?e)" "length c < 2 ^ 32" using entry_contents_length [OF assms(2)] assms(6) u32_bound by auto
  have dl: "uint (re_datalength ?e) = int (length c)" using d(1) by (simp only: uint_nat)
  have "sint (of_nat o' + of_nat l :: i64) = int (o' + l)" using sint_of_nat_i64 [OF assms(5)] by simp
  then have cmp: "sint (of_nat o' + of_nat l :: i64) \<ge> uint (re_datalength ?e) \<longleftrightarrow> length c \<le> o' + l" unfolding dl by (simp only: of_nat_le_iff)
  have amount: "sint ?a = (if length c \<le> o' + l then int (length c) - int o' else int l)"
    and small: "o' \<le> length c \<Longrightarrow> ?a = of_nat (min l (length c - o'))"
  proof -
    have le: "(ucast (re_datalength ?e) - of_nat o' :: i64) = of_nat (length c - o')" if "o' \<le> length c"
      using that d(1) by (simp only: ucast_u32_i64 of_nat_diff)
    have gt: "sint (ucast (re_datalength ?e) - of_nat o' :: i64) = - int (o' - length c)" if "length c < o'"
    proof -
      have "(ucast (re_datalength ?e) - of_nat o' :: i64) = - of_nat (o' - length c)" using that d(1) by (simp only: ucast_u32_i64 of_nat_diff) simp
      moreover have "sint (- of_nat (o' - length c) :: i64) = - int (o' - length c)"
        using assms(5) by (simp add: sint_word_ariths sint_of_nat_i64 signed_take_bit_int_eq_self)
      ultimately show ?thesis by simp
    qed
    show "o' \<le> length c \<Longrightarrow> ?a = of_nat (min l (length c - o'))" using le unfolding copy_amount_def cmp by (cases "length c \<le> o' + l") (simp_all add: min_absorb1 min_absorb2)
    show "sint ?a = (if length c \<le> o' + l then int (length c) - int o' else int l)"
    proof (cases "length c < o'")
      case True
      then show ?thesis using gt cmp by (simp add: copy_amount_def)
    next
      case False
      then show ?thesis using le cmp sint_of_nat_i64 [of "length c - o'"] sint_of_nat_i64 [of l] d(2) assms(5) by (auto simp: copy_amount_def)
    qed
  qed
  let ?h = "h\<lparr>fh_result := ?a, fh_status := FS_READ_SUCCESSFUL\<rparr>"
  have "FsDelegateRamdisk_requestRead s node (of_nat l) fd h =
      Inr ((finish_request ?s id', ?h, id'), fd\<lparr>fd_offset := of_nat (o' + length (take l (drop o' c)))\<rparr>, take l (drop o' c))"
  proof (cases "o' + min l (length c - o') \<le> length c \<and> 0 < min l (length c - o')")
    case True
    let ?n = "min l (length c - o')"
    have "sint ?a > 0" "unat (ucast ?a :: u32) = ?n"
      using True small sint_of_nat_i64 [of ?n] d(2) by (auto simp: ucast_of_nat_i64 unat_of_nat_u32)
    moreover have "data_bytes (rf_rd s) (re_data ?e) (of_nat o') ?n = Inr (take ?n (drop o' c))"
      using data_bytes_contents [OF assms(2), of o' ?n] True d(1) assms(6) by simp
    moreover have "take ?n (drop o' c) = take l (drop o' c)" by (simp add: min_def)
    ultimately show ?thesis
      using True t assms(1,3,4) small by (simp add: FsDelegateRamdisk_requestRead_def Let_def min.commute)
  next
    case False
    then have none: "take l (drop o' c) = []" by auto
    have "fd\<lparr>fd_offset := of_nat (o' + length (take l (drop o' c)))\<rparr> = fd" unfolding none using assms(4) by (cases fd) simp
    moreover have "\<not> sint ?a > 0" using amount False by auto
    ultimately show ?thesis
      unfolding none using t assms(1,3,4) by (simp add: FsDelegateRamdisk_requestRead_def Let_def)
  qed
  moreover have "FsTransactionStore_getStatus (pf_transactions (finish_request ?s id')) id' = FS_TRANSACTION_FINISHED"
    by (rule finished_status [OF assms(7) t])
  ultimately show ?thesis using amount by (fastforce simp: finish_request_def)
qed

theorem ramdisk_read_witness:
  "\<exists>s' h' id' fd'. FsDelegateRamdisk_requestRead (one_entry [1, 2, 3, 4, 5] (image_file 5)) 0 9
      \<lparr>fd_id = 3, fd_offset = 2, fd_nodeID = 0, fd_openFlags = 0\<rparr> \<lparr>fh_repeatTransaction = - 1, fh_result = 0, fh_status = FS_READ_ERROR\<rparr> =
    Inr ((s', h', id'), fd', [3, 4, 5]) \<and> fd_offset fd' = 5 \<and> sint (fh_result h') = 3"
proof -
  let ?s = "one_entry [1, 2, 3, 4, 5] (image_file 5)" and ?fd = "\<lparr>fd_id = 3, fd_offset = 2, fd_nodeID = 0, fd_openFlags = 0\<rparr>"
    and ?h = "\<lparr>fh_repeatTransaction = - 1, fh_result = 0, fh_status = FS_READ_ERROR\<rparr>"
  have ok: "entry_ok (rf_rd ?s) (rd_entry_at (rf_rd ?s) 1)" "re_data (rd_entry_at (rf_rd ?s) 1) \<noteq> NoData"
    "entry_contents (rf_rd ?s) (rd_entry_at (rf_rd ?s) 1) = [1, 2, 3, 4, 5]"
    by (simp_all add: entry_ok_def entry_contents_def image_file_def)
  have "hm_inv (tx_store (pf_transactions ?s))" by (simp add: one_entry_def FsTransactionStore_initialize_def hm_laws)
  moreover have "fd_offset ?fd = of_nat 2" by simp
  ultimately show ?thesis using ramdisk_read [OF one_entry_simps(1) ok(1,2) _ _ ok(3), of ?fd 2 9 ?h] by auto
qed



text \<open>
  Writing past the end of a file of less than 5 bytes never returns: a fifth of such a length
  is less than one, so the array does not grow. This concerns files of the image with less than 5
  bytes, and files with an array of less than 5 bytes.
\<close>

theorem ramdisk_small_write_diverges:
  assumes "Ramdisk_findById (rf_rd s) (ucast (fn_physFsID (vf_nodes (rf_vfs s) ! node))) = Some rn"
    and "rd_entry_at (rf_rd s) rn = e" and "entry_ok (rf_rd s) e" and "re_data e \<noteq> NoData"
    and "n = (if re_dataOnRamdisk e then unat (re_datalength e) else unat (re_notOnRdBufferLength e))" and "n < 5"
    and "o' = (if fd_openFlags fd AND FILE_FLAG_MODE_APPEND \<noteq> 0 then unat (re_datalength e) else unat (fd_offset fd))"
    and "o' \<le> n" and "n < o' + length buffer" and "length buffer < 2 ^ 31"
  shows "FsDelegateRamdisk_requestWrite extended junk s node (of_nat (length buffer)) buffer fd h = None"
proof -
  let ?rd = "rf_rd s"
  obtain t id' where t: "start_or_repeat (pf_transactions s) h = (t, id')" by fastforce
  have "\<exists>e1 b1. ensure_buffer extended junk ?rd e = Inr e1 \<and> entry_ok ?rd e1 \<and> re_data e1 = InBuffer b1 \<and> length b1 = n \<and> re_datalength e1 = re_datalength e"
  proof (cases "re_data e")
    case NoData
    then show ?thesis using assms(4) by simp
  next
    case (InBuffer b)
    then show ?thesis using assms(3,5) by (auto simp: ensure_buffer_def entry_ok_def)
  next
    case (OnImage p)
    then have on: "re_dataOnRamdisk e" using assms(3) by (simp add: entry_ok_def)
    have m: "times_1_2 extended (re_datalength e) = re_datalength e" using assms(5,6) on by (intro times_1_2_small) simp
    obtain b where b: "moved_data ?rd junk e (re_datalength e) = Inr (e\<lparr>re_data := InBuffer b, re_notOnRdBufferLength := re_datalength e\<rparr>)"
        "length b = unat (re_datalength e)" using moved_data_spec [OF assms(3), of "re_datalength e" junk] by auto
    then have "ensure_buffer extended junk ?rd e = Inr (e\<lparr>re_data := InBuffer b, re_notOnRdBufferLength := re_datalength e, re_dataOnRamdisk := False\<rparr>)"
      using on m by (simp add: ensure_buffer_def)
    moreover have "entry_ok ?rd (e\<lparr>re_data := InBuffer b, re_notOnRdBufferLength := re_datalength e, re_dataOnRamdisk := False\<rparr>)"
      using b by (simp add: entry_ok_def)
    ultimately show ?thesis using b(2) assms(5) on by auto
  qed
  then obtain e1 b1 where e1: "ensure_buffer extended junk ?rd e = Inr e1" "entry_ok ?rd e1" "re_data e1 = InBuffer b1" "length b1 = n"
      "re_datalength e1 = re_datalength e" by blast
  have off: "fd_offset (if fd_openFlags fd AND FILE_FLAG_MODE_APPEND \<noteq> 0 then fd\<lparr>fd_offset := ucast (re_datalength e1)\<rparr> else fd) = of_nat o'"
  proof -
    have "(ucast (re_datalength e1) :: i64) = of_nat (unat (re_datalength e))" by (simp only: ucast_u32_i64 e1(5))
    then show ?thesis using assms(7) by simp
  qed
  have "expand_loop extended junk ?rd (of_nat o') (of_nat (length buffer)) e1 = None"
    by (rule expand_loop_stuck [OF e1(3,2)]) (use assms(6,8-10) e1(4) in simp_all)
  then show ?thesis using assms(1,2) t e1(1) off by (simp add: FsDelegateRamdisk_requestWrite_def Let_def)
qed

theorem ramdisk_small_write_diverges_witness:
  "FsDelegateRamdisk_requestWrite False (\<lambda>n i. 0) (one_entry [1, 2, 3, 4] (image_file 4)) 0 1 [9]
      \<lparr>fd_id = 3, fd_offset = 4, fd_nodeID = 0, fd_openFlags = 0\<rparr> \<lparr>fh_repeatTransaction = - 1, fh_result = 0, fh_status = FS_WRITE_ERROR\<rparr> = None"
proof -
  let ?s = "one_entry [1, 2, 3, 4] (image_file 4)" and ?fd = "\<lparr>fd_id = 3, fd_offset = 4, fd_nodeID = 0, fd_openFlags = 0\<rparr>"
    and ?h = "\<lparr>fh_repeatTransaction = - 1, fh_result = 0, fh_status = FS_WRITE_ERROR\<rparr>"
  have ok: "entry_ok (rf_rd ?s) ((image_file 4)\<lparr>re_id := 1\<rparr>)" "re_data ((image_file 4)\<lparr>re_id := 1\<rparr>) \<noteq> NoData"
    by (simp_all add: entry_ok_def image_file_def)
  show ?thesis
    using ramdisk_small_write_diverges [OF one_entry_simps(1) _ ok, of 4 4 ?fd "[9]" False "\<lambda>n i. 0" ?h] by (simp add: image_file_def)
qed

end
