(* ===== verification/FsWait.thy ===== *)
theory FsWait
  imports FsPipes
begin

text \<open>
  Waiting for a file system transaction (tasking/wait/WaiterFsTransaction.hpp) and the handlers of
  the read and write system calls (filesystem/FsTransactionHandlerRead.cpp and
  FsTransactionHandlerWrite.cpp) on a pipe. The scheduler asks the waiter of a thread again and
  again whether the thread has to wait; a transaction that could not be fulfilled is repeated by
  these checks.

  A handler carries what it reads from and writes to the data of the system call. Objects are not
  deleted in the model, and the check that a handler runs in the address space of its caller is
  left out. Values of a status outside its enumeration do not occur.
\<close>

section \<open>The waiter\<close>

datatype FsTransactionHandlerFinishStatus =
  FS_TRANSACTION_HANDLING_DONE
| FS_TRANSACTION_HANDLING_REPEAT_WITH_SAME_HANDLER
| FS_TRANSACTION_HANDLING_KEEP_WAITING_WITH_NEW_HANDLER

datatype FsTransactionHandlerStartStatus =
  FS_TRANSACTION_START_FAILED | FS_TRANSACTION_START_IMMEDIATE_FINISH | FS_TRANSACTION_START_WITH_WAITER

text \<open>The number of a status, as the code converts it to a transaction identifier.\<close>

fun status_number :: "FsTransactionStatus \<Rightarrow> i64" where
  "status_number FS_TRANSACTION_WAITING = 0"
| "status_number FS_TRANSACTION_FINISHED = 1"
| "status_number FS_TRANSACTION_REPEAT = 2"

text \<open>
  \<open>start\<close> and \<open>finish\<close> are the virtual methods of the handler, \<open>prepare\<close> its
  \<open>prepareTransactionRepeat\<close>; the last component of the result is whether the thread keeps waiting.
\<close>

definition isTransactionWaiting ::
    "('w fs_base_scheme \<Rightarrow> 'h \<Rightarrow> ('w fs_base_scheme \<times> 'h \<times> FsTransactionHandlerStartStatus) kres) \<Rightarrow>
     ('w fs_base_scheme \<Rightarrow> 'h \<Rightarrow> ('w fs_base_scheme \<times> 'h \<times> FsTransactionHandlerFinishStatus) kres) \<Rightarrow>
     ('h \<Rightarrow> i64 \<Rightarrow> 'h) \<Rightarrow> 'w fs_base_scheme \<Rightarrow> 'h \<Rightarrow> i64 \<Rightarrow> ('w fs_base_scheme \<times> 'h \<times> bool) kres" where
  "isTransactionWaiting start finish prepare s h tid =
     (let status = FsTransactionStore_getStatus (pf_transactions s) tid in
      case status of
        FS_TRANSACTION_WAITING \<Rightarrow> Inr (s, h, True)
      | FS_TRANSACTION_REPEAT \<Rightarrow>
          kbind (start s (prepare h tid)) (\<lambda>(s, h, restartStatus).
            if restartStatus \<noteq> FS_TRANSACTION_START_FAILED then Inr (s, h, True)
            else Inr (s\<lparr>pf_transactions := FsTransactionStore_setStatus (pf_transactions s) (status_number status) FS_TRANSACTION_FINISHED\<rparr>, h, True))
      | FS_TRANSACTION_FINISHED \<Rightarrow>
          kbind (finish s h) (\<lambda>(s, h, stat).
            let s = s\<lparr>pf_transactions := FsTransactionStore_removeTransaction (pf_transactions s) tid\<rparr> in
            case stat of
              FS_TRANSACTION_HANDLING_REPEAT_WITH_SAME_HANDLER \<Rightarrow> Inr (s, h, True)
            | FS_TRANSACTION_HANDLING_KEEP_WAITING_WITH_NEW_HANDLER \<Rightarrow> Inr (s, h, True)
            | FS_TRANSACTION_HANDLING_DONE \<Rightarrow> Inr (s, h, False)))"

section \<open>The handlers of reads and writes\<close>

record read_handler =
  rd_hasDelegate :: bool
  rd_node :: pipe_node
  rd_pid :: i32
  rd_out_buffer :: "u8 list"
  rd_out_buffer_len :: u32
  rd_io :: "FsReadStatus fs_handler"
  rd_read_bytes :: u32
  rd_read_status :: FsReadStatus

definition read_prepare :: "read_handler \<Rightarrow> i64 \<Rightarrow> read_handler" where
  "read_prepare h tid = h\<lparr>rd_io := prepareTransactionRepeat (rd_io h) tid\<rparr>"

text \<open>The call of the delegate; the bytes it copies go to the buffer of the caller.\<close>

definition read_request :: "pipe_fs \<Rightarrow> read_handler \<Rightarrow> (pipe_fs \<times> read_handler \<times> i64) kres" where
  "read_request s h =
     kbind (FsDelegatePipe_requestRead s (rd_pid h) (rd_node h) (ucast (rd_out_buffer_len h)) (rd_io h)) (\<lambda>((s, io, tid), bytes).
       Inr (s, h\<lparr>rd_io := io, rd_out_buffer := bytes @ drop (length bytes) (rd_out_buffer h)\<rparr>, tid))"

text \<open>\<open>startTransaction\<close> of a handler that repeats a transaction, as the waiter calls it.\<close>

definition read_restart :: "pipe_fs \<Rightarrow> read_handler \<Rightarrow> (pipe_fs \<times> read_handler \<times> FsTransactionHandlerStartStatus) kres" where
  "read_restart s h =
     (if \<not> rd_hasDelegate h then Inr (s, h, FS_TRANSACTION_START_FAILED)
      else kbind (read_request s h) (\<lambda>(s, h, tid). Inr (s, h, FS_TRANSACTION_START_WITH_WAITER)))"

definition FsTransactionHandlerRead_finishTransaction ::
    "pipe_fs \<Rightarrow> read_handler \<Rightarrow> (pipe_fs \<times> read_handler \<times> FsTransactionHandlerFinishStatus) kres" where
  "FsTransactionHandlerRead_finishTransaction s h =
     Inr (s, h\<lparr>rd_read_bytes := ucast (fh_result (rd_io h)), rd_read_status := fh_status (rd_io h)\<rparr>, FS_TRANSACTION_HANDLING_DONE)"

definition read_waiting :: "pipe_fs \<Rightarrow> read_handler \<Rightarrow> i64 \<Rightarrow> (pipe_fs \<times> read_handler \<times> bool) kres" where
  "read_waiting = isTransactionWaiting read_restart FsTransactionHandlerRead_finishTransaction read_prepare"

text \<open>
  With a waiter the result names the transaction that the thread waits for.
\<close>

definition FsTransactionHandlerRead_startTransaction ::
    "pipe_fs \<Rightarrow> read_handler \<Rightarrow> (pipe_fs \<times> read_handler \<times> FsTransactionHandlerStartStatus \<times> i64 option) kres" where
  "FsTransactionHandlerRead_startTransaction s h =
     (if \<not> rd_hasDelegate h then Inr (s, h, FS_TRANSACTION_START_FAILED, None)
      else if wantsRepeatTransaction (rd_io h) then
        kbind (read_request s h) (\<lambda>(s, h, tid). Inr (s, h, FS_TRANSACTION_START_WITH_WAITER, None))
      else kbind (read_request s h) (\<lambda>(s, h, tid).
        kbind (read_waiting s h tid) (\<lambda>(s, h, waiting).
          if waiting then Inr (s, h, FS_TRANSACTION_START_WITH_WAITER, Some tid)
          else Inr (s, h, FS_TRANSACTION_START_IMMEDIATE_FINISH, None))))"

record write_handler =
  wr_hasDelegate :: bool
  wr_node :: pipe_node
  wr_pid :: i32
  wr_in_buffer :: "u8 list"
  wr_in_buffer_len :: u32
  wr_io :: "FsWriteStatus fs_handler"
  wr_write_bytes :: u32
  wr_write_status :: FsWriteStatus

definition write_prepare :: "write_handler \<Rightarrow> i64 \<Rightarrow> write_handler" where
  "write_prepare h tid = h\<lparr>wr_io := prepareTransactionRepeat (wr_io h) tid\<rparr>"

definition write_request :: "pipe_fs \<Rightarrow> write_handler \<Rightarrow> (pipe_fs \<times> write_handler \<times> i64) kres" where
  "write_request s h =
     kbind (FsDelegatePipe_requestWrite s (wr_pid h) (wr_node h) (ucast (wr_in_buffer_len h)) (wr_in_buffer h) (wr_io h)) (\<lambda>(s, io, tid).
       Inr (s, h\<lparr>wr_io := io\<rparr>, tid))"

definition write_restart :: "pipe_fs \<Rightarrow> write_handler \<Rightarrow> (pipe_fs \<times> write_handler \<times> FsTransactionHandlerStartStatus) kres" where
  "write_restart s h =
     (if \<not> wr_hasDelegate h then Inr (s, h, FS_TRANSACTION_START_FAILED)
      else kbind (write_request s h) (\<lambda>(s, h, tid). Inr (s, h, FS_TRANSACTION_START_WITH_WAITER)))"

definition FsTransactionHandlerWrite_finishTransaction ::
    "pipe_fs \<Rightarrow> write_handler \<Rightarrow> (pipe_fs \<times> write_handler \<times> FsTransactionHandlerFinishStatus) kres" where
  "FsTransactionHandlerWrite_finishTransaction s h =
     Inr (s, h\<lparr>wr_write_bytes := ucast (fh_result (wr_io h)), wr_write_status := fh_status (wr_io h)\<rparr>, FS_TRANSACTION_HANDLING_DONE)"

definition write_waiting :: "pipe_fs \<Rightarrow> write_handler \<Rightarrow> i64 \<Rightarrow> (pipe_fs \<times> write_handler \<times> bool) kres" where
  "write_waiting = isTransactionWaiting write_restart FsTransactionHandlerWrite_finishTransaction write_prepare"

definition FsTransactionHandlerWrite_startTransaction ::
    "pipe_fs \<Rightarrow> write_handler \<Rightarrow> (pipe_fs \<times> write_handler \<times> FsTransactionHandlerStartStatus \<times> i64 option) kres" where
  "FsTransactionHandlerWrite_startTransaction s h =
     (if \<not> wr_hasDelegate h then Inr (s, h, FS_TRANSACTION_START_FAILED, None)
      else if wantsRepeatTransaction (wr_io h) then
        kbind (write_request s h) (\<lambda>(s, h, tid). Inr (s, h, FS_TRANSACTION_START_WITH_WAITER, None))
      else kbind (write_request s h) (\<lambda>(s, h, tid).
        kbind (write_waiting s h tid) (\<lambda>(s, h, waiting).
          if waiting then Inr (s, h, FS_TRANSACTION_START_WITH_WAITER, Some tid)
          else Inr (s, h, FS_TRANSACTION_START_IMMEDIATE_FINISH, None))))"

section \<open>The contract of a handler\<close>

text \<open>
  What the waiter relies on: in a well formed state a repeated transaction is answered under its
  own identifier, leaves the state well formed, and the finishing method always ends the wait.
  \<open>goal\<close> says that the request can be answered now.
\<close>

locale waiting_handler =
  fixes restart :: "pipe_fs \<Rightarrow> 'h \<Rightarrow> (pipe_fs \<times> 'h \<times> FsTransactionHandlerStartStatus) kres"
    and finish :: "pipe_fs \<Rightarrow> 'h \<Rightarrow> (pipe_fs \<times> 'h \<times> FsTransactionHandlerFinishStatus) kres"
    and prepare :: "'h \<Rightarrow> i64 \<Rightarrow> 'h"
    and ok :: "pipe_fs \<Rightarrow> 'h \<Rightarrow> bool"
    and goal :: "pipe_fs \<Rightarrow> 'h \<Rightarrow> bool"
    and result :: "'h \<Rightarrow> 'h"
  assumes restart_answer: "ok s h \<Longrightarrow> tid \<noteq> FS_TRANSACTION_NO_REPEAT_ID \<Longrightarrow>
      \<exists>s' h'. restart s (prepare h tid) = Inr (s', h', FS_TRANSACTION_START_WITH_WAITER) \<and> ok s' h' \<and>
        tx_status s' tid = (if goal s h then FS_TRANSACTION_FINISHED else FS_TRANSACTION_REPEAT)"
    and finish_done: "finish s h = Inr (s, result h, FS_TRANSACTION_HANDLING_DONE)"
begin

abbreviation check :: "pipe_fs \<Rightarrow> 'h \<Rightarrow> i64 \<Rightarrow> (pipe_fs \<times> 'h \<times> bool) kres" where
  "check \<equiv> isTransactionWaiting restart finish prepare"

lemma check_repeat:
  assumes "ok s h" and "tid \<noteq> FS_TRANSACTION_NO_REPEAT_ID" and "tx_status s tid = FS_TRANSACTION_REPEAT"
  shows "\<exists>s' h'. check s h tid = Inr (s', h', True) \<and> restart s (prepare h tid) = Inr (s', h', FS_TRANSACTION_START_WITH_WAITER) \<and> ok s' h' \<and>
    tx_status s' tid = (if goal s h then FS_TRANSACTION_FINISHED else FS_TRANSACTION_REPEAT)"
  using restart_answer [OF assms(1,2)] assms(3) by (auto simp: isTransactionWaiting_def tx_status_def Let_def)

lemma check_finished:
  assumes "tx_status s tid = FS_TRANSACTION_FINISHED"
  shows "\<exists>s'. check s h tid = Inr (s', result h, False) \<and> pf_pipes s' = pf_pipes s"
  using assms finish_done [of s h] by (auto simp: isTransactionWaiting_def tx_status_def Let_def)

end

section \<open>Reads and writes of pipes keep the contract\<close>

definition read_ready :: "pipe_fs \<Rightarrow> read_handler \<Rightarrow> bool" where
  "read_ready s h \<longleftrightarrow>
     (case pipes_abs (pf_pipes s) (ucast (pn_physFsID (rd_node h))) of
        None \<Rightarrow> True
      | Some q \<Rightarrow> ap_bytes q \<noteq> [] \<or> \<not> pn_isBlocking (rd_node h) \<or> set (ap_references q) \<subseteq> {rd_pid h})"

definition read_ok :: "pipe_fs \<Rightarrow> read_handler \<Rightarrow> bool" where
  "read_ok s h \<longleftrightarrow> fs_ok s \<and> rd_hasDelegate h \<and> rd_out_buffer_len h \<noteq> 0"

definition read_result :: "read_handler \<Rightarrow> read_handler" where
  "read_result h = h\<lparr>rd_read_bytes := ucast (fh_result (rd_io h)), rd_read_status := fh_status (rd_io h)\<rparr>"

definition write_ready :: "pipe_fs \<Rightarrow> write_handler \<Rightarrow> bool" where
  "write_ready s h \<longleftrightarrow>
     (case pipes_abs (pf_pipes s) (ucast (pn_physFsID (wr_node h))) of
        None \<Rightarrow> True
      | Some q \<Rightarrow> length (ap_bytes q) < 0x400 \<or> \<not> pn_isBlocking (wr_node h) \<or> set (ap_references q) \<subseteq> {wr_pid h})"

definition write_ok :: "pipe_fs \<Rightarrow> write_handler \<Rightarrow> bool" where
  "write_ok s h \<longleftrightarrow> fs_ok s \<and> wr_hasDelegate h \<and> unat (wr_in_buffer_len h) \<le> length (wr_in_buffer h)"

definition write_result :: "write_handler \<Rightarrow> write_handler" where
  "write_result h = h\<lparr>wr_write_bytes := ucast (fh_result (wr_io h)), wr_write_status := fh_status (wr_io h)\<rparr>"

lemma request_transaction:
  "FsDelegatePipe_requestRead s pid node len h = Inr ((s', h', tid), bytes) \<Longrightarrow> tid = snd (start_or_repeat (pf_transactions s) h)"
  "FsDelegatePipe_requestWrite s pid node len buffer k = Inr (s', k', tid) \<Longrightarrow> tid = snd (start_or_repeat (pf_transactions s) k)"
  by (auto simp: FsDelegatePipe_requestRead_def FsDelegatePipe_requestWrite_def finish_io_def repeat_io_def Let_def kbind_Inr_iff
      split: prod.splits option.splits if_splits)

text \<open>A write leaves the other transactions alone.\<close>

lemma write_other_transactions:
  assumes "fs_ok s" and "FsDelegatePipe_requestWrite s pid node len buffer k = Inr (s', k', tid)" and "j \<noteq> tid"
  shows "tx_status s' j = tx_status s j"
proof -
  obtain t i where t: "start_or_repeat (pf_transactions s) k = (t, i)" by fastforce
  then have "tx_store t = tx_store (pf_transactions s)" using start_or_repeat_store [of "pf_transactions s" k] by simp
  then have "hm_inv (tx_store t)" "FsTransactionStore_getStatus t = FsTransactionStore_getStatus (pf_transactions s)"
    using assms(1) by (auto simp: fs_ok_def FsTransactionStore_getStatus_def)
  then show ?thesis using assms(2,3) t
    by (auto simp: FsDelegatePipe_requestWrite_def finish_io_def repeat_io_def put_pipe_def tx_status_def Let_def kbind_Inr_iff
        split: prod.splits option.splits if_splits)
qed

lemma repeated_transaction:
  "tid \<noteq> FS_TRANSACTION_NO_REPEAT_ID \<Longrightarrow> snd (start_or_repeat t (prepareTransactionRepeat h tid)) = tid"
  by (simp add: start_or_repeat_def prepareTransactionRepeat_def wantsRepeatTransaction_def)

definition read_outcome_of :: "pipe_fs \<Rightarrow> read_handler \<Rightarrow> FsReadStatus fs_handler \<Rightarrow> FsReadStatus fs_handler \<times> u8 list" where
  "read_outcome_of s h io =
     (case pipes_abs (pf_pipes s) (ucast (pn_physFsID (rd_node h))) of
        None \<Rightarrow> (io\<lparr>fh_result := - 1, fh_status := FS_READ_ERROR\<rparr>, [])
      | Some q \<Rightarrow> (fst (read_outcome q (rd_pid h) (pn_isBlocking (rd_node h)) (unat (rd_out_buffer_len h)) io), take (unat (rd_out_buffer_len h)) (ap_bytes q)))"

lemma read_restart_spec:
  assumes ok: "read_ok s h" and tid: "tid \<noteq> FS_TRANSACTION_NO_REPEAT_ID"
  defines "io \<equiv> prepareTransactionRepeat (rd_io h) tid"
  shows "\<exists>s'. read_restart s (read_prepare h tid) =
      Inr (s', h\<lparr>rd_io := fst (read_outcome_of s h io), rd_out_buffer := (case read_outcome_of s h io of (_, xs) \<Rightarrow> xs @ drop (length xs) (rd_out_buffer h))\<rparr>,
        FS_TRANSACTION_START_WITH_WAITER) \<and>
    fs_ok s' \<and> tx_status s' tid = (if read_ready s h then FS_TRANSACTION_FINISHED else FS_TRANSACTION_REPEAT)"
proof -
  have fs: "fs_ok s" "rd_hasDelegate h" "rd_out_buffer_len h \<noteq> 0" using ok by (auto simp: read_ok_def)
  have len: "0 < unat (rd_out_buffer_len h)" using fs(3) by (simp add: unat_gt_0)
  have t: "snd (start_or_repeat (pf_transactions s) io) = tid" unfolding io_def by (rule repeated_transaction [OF tid])
  show ?thesis
  proof (cases "pipes_abs (pf_pipes s) (ucast (pn_physFsID (rd_node h)))")
    case None
    obtain s' tid' where r: "FsDelegatePipe_requestRead s (rd_pid h) (rd_node h) (ucast (rd_out_buffer_len h)) io =
        Inr ((s', io\<lparr>fh_result := - 1, fh_status := FS_READ_ERROR\<rparr>, tid'), [])" "tx_status s' tid' = FS_TRANSACTION_FINISHED" "fs_ok s'"
      using request_missing(1) [OF fs(1) None, of "rd_pid h" "ucast (rd_out_buffer_len h)" io] by blast
    moreover have "tid' = tid" using request_transaction(1) [OF r(1)] t by simp
    ultimately show ?thesis using None fs(2)
      by (simp add: read_restart_def read_request_def read_prepare_def read_outcome_of_def read_ready_def flip: io_def)
  next
    case (Some q)
    obtain s' tid' where r: "FsDelegatePipe_requestRead s (rd_pid h) (rd_node h) (ucast (rd_out_buffer_len h)) io =
        Inr ((s', fst (read_outcome q (rd_pid h) (pn_isBlocking (rd_node h)) (unat (rd_out_buffer_len h)) io), tid'), take (unat (rd_out_buffer_len h)) (ap_bytes q))"
        "tx_status s' tid' = snd (read_outcome q (rd_pid h) (pn_isBlocking (rd_node h)) (unat (rd_out_buffer_len h)) io)" "fs_ok s'"
      using requestRead_outcome [OF fs(1) Some, of "rd_pid h" "rd_out_buffer_len h" io] by blast
    moreover have "tid' = tid" using request_transaction(1) [OF r(1)] t by simp
    moreover have "snd (read_outcome q (rd_pid h) (pn_isBlocking (rd_node h)) (unat (rd_out_buffer_len h)) io) =
        (if read_ready s h then FS_TRANSACTION_FINISHED else FS_TRANSACTION_REPEAT)"
      using Some len by (auto simp: read_outcome_def read_ready_def Let_def)
    ultimately show ?thesis using Some fs(2)
      by (simp add: read_restart_def read_request_def read_prepare_def read_outcome_of_def flip: io_def)
  qed
qed

interpretation rw: waiting_handler read_restart FsTransactionHandlerRead_finishTransaction read_prepare read_ok read_ready read_result
proof unfold_locales
  fix s h tid
  assume "read_ok s h" "tid \<noteq> FS_TRANSACTION_NO_REPEAT_ID"
  then show "\<exists>s' h'. read_restart s (read_prepare h tid) = Inr (s', h', FS_TRANSACTION_START_WITH_WAITER) \<and> read_ok s' h' \<and>
      tx_status s' tid = (if read_ready s h then FS_TRANSACTION_FINISHED else FS_TRANSACTION_REPEAT)"
    using read_restart_spec [of s h tid] by (auto simp: read_ok_def)
qed (simp add: FsTransactionHandlerRead_finishTransaction_def read_result_def)

interpretation ww: waiting_handler write_restart FsTransactionHandlerWrite_finishTransaction write_prepare write_ok write_ready write_result
proof unfold_locales
  fix s h tid
  assume ok: "write_ok s h" and tid: "tid \<noteq> FS_TRANSACTION_NO_REPEAT_ID"
  let ?io = "prepareTransactionRepeat (wr_io h) tid"
  have t: "snd (start_or_repeat (pf_transactions s) ?io) = tid" by (rule repeated_transaction [OF tid])
  have fs: "fs_ok s" "wr_hasDelegate h" "unat (wr_in_buffer_len h) \<le> length (wr_in_buffer h)" using ok by (auto simp: write_ok_def)
  obtain s' io' tid' where r: "FsDelegatePipe_requestWrite s (wr_pid h) (wr_node h) (ucast (wr_in_buffer_len h)) (wr_in_buffer h) ?io = Inr (s', io', tid')"
      "fs_ok s'" "tx_status s' tid' = (if write_ready s h then FS_TRANSACTION_FINISHED else FS_TRANSACTION_REPEAT)"
  proof (cases "pipes_abs (pf_pipes s) (ucast (pn_physFsID (wr_node h)))")
    case None
    then show ?thesis using request_missing(2) [OF fs(1) None, of "wr_pid h" "ucast (wr_in_buffer_len h)" "wr_in_buffer h" ?io] that
      by (auto simp: write_ready_def)
  next
    case (Some q)
    have "snd (write_outcome q (wr_pid h) (pn_isBlocking (wr_node h)) (unat (wr_in_buffer_len h)) ?io) =
        (if write_ready s h then FS_TRANSACTION_FINISHED else FS_TRANSACTION_REPEAT)"
      using Some by (auto simp: write_outcome_def write_ready_def)
    then show ?thesis using requestWrite_outcome [OF fs(1) Some fs(3), of "wr_pid h" ?io] that by auto
  qed
  moreover have "tid' = tid" using request_transaction(2) [OF r(1)] t by simp
  ultimately show "\<exists>s' h'. write_restart s (write_prepare h tid) = Inr (s', h', FS_TRANSACTION_START_WITH_WAITER) \<and> write_ok s' h' \<and>
      tx_status s' tid = (if write_ready s h then FS_TRANSACTION_FINISHED else FS_TRANSACTION_REPEAT)"
    using fs by (auto simp: write_restart_def write_request_def write_prepare_def write_ok_def)
qed (simp add: FsTransactionHandlerWrite_finishTransaction_def write_result_def)

section \<open>Properties\<close>

lemma read_waiting_ready:
  assumes ok: "read_ok s h" and tid: "tid \<noteq> FS_TRANSACTION_NO_REPEAT_ID" and st: "tx_status s tid = FS_TRANSACTION_REPEAT"
    and q: "pipes_abs (pf_pipes s) (ucast (pn_physFsID (rd_node h))) = Some q" and r: "read_ready s h"
  shows "\<exists>s1 h1. read_waiting s h tid = Inr (s1, h1, True) \<and> tx_status s1 tid = FS_TRANSACTION_FINISHED \<and>
    rd_io h1 = fst (read_outcome q (rd_pid h) (pn_isBlocking (rd_node h)) (unat (rd_out_buffer_len h)) (prepareTransactionRepeat (rd_io h) tid)) \<and>
    take (min (unat (rd_out_buffer_len h)) (length (ap_bytes q))) (rd_out_buffer h1) = take (unat (rd_out_buffer_len h)) (ap_bytes q)"
proof -
  obtain s1 h1 where c: "read_waiting s h tid = Inr (s1, h1, True)" "read_restart s (read_prepare h tid) = Inr (s1, h1, FS_TRANSACTION_START_WITH_WAITER)"
      "tx_status s1 tid = FS_TRANSACTION_FINISHED"
    using rw.check_repeat [OF ok tid st] r by (auto simp: read_waiting_def)
  have "rd_io h1 = fst (read_outcome_of s h (prepareTransactionRepeat (rd_io h) tid))"
    "rd_out_buffer h1 = (case read_outcome_of s h (prepareTransactionRepeat (rd_io h) tid) of (_, xs) \<Rightarrow> xs @ drop (length xs) (rd_out_buffer h))"
    using read_restart_spec [OF ok tid] c(2) by auto
  then show ?thesis using c q by (auto simp: read_outcome_of_def min_def)
qed

text \<open>
  C28. A blocked read ends: once its transaction is checked while the pipe holds bytes, or while no
  other process holds a reference any more, the next check, whatever the other threads have done to
  the file system but this transaction in between, ends the wait with the oldest bytes in the
  buffer of the caller, or with the error status; until then the transaction is repeated.
\<close>

theorem blocked_read_completes:
  assumes "labelled_run pipe_step pipe_fs_initial es s" and "rd_hasDelegate h" and "rd_out_buffer_len h \<noteq> 0" and "pn_isBlocking (rd_node h)"
    and "tid \<noteq> FS_TRANSACTION_NO_REPEAT_ID" and "tx_status s tid = FS_TRANSACTION_REPEAT"
    and "pipes_abs (pf_pipes s) (ucast (pn_physFsID (rd_node h))) = Some q"
  shows "\<exists>s1 h1. read_waiting s h tid = Inr (s1, h1, True) \<and>
    (if ap_bytes q \<noteq> [] \<or> set (ap_references q) \<subseteq> {rd_pid h}
     then tx_status s1 tid = FS_TRANSACTION_FINISHED \<and>
       (\<forall>s2. tx_status s2 tid = FS_TRANSACTION_FINISHED \<longrightarrow> (\<exists>s3 h3. read_waiting s2 h1 tid = Inr (s3, h3, False) \<and>
         (let n = min (unat (rd_out_buffer_len h)) (length (ap_bytes q)) in
          rd_read_bytes h3 = of_nat n \<and> take n (rd_out_buffer h3) = take n (ap_bytes q) \<and>
          rd_read_status h3 = (if ap_bytes q = [] then FS_READ_ERROR else FS_READ_SUCCESSFUL))))
     else tx_status s1 tid = FS_TRANSACTION_REPEAT)"
proof -
  have ok: "read_ok s h" using pq.run_queues [OF assms(1) pipe_fs_initial_ok] assms(2,3) by (simp add: read_ok_def)
  have ready: "read_ready s h \<longleftrightarrow> ap_bytes q \<noteq> [] \<or> set (ap_references q) \<subseteq> {rd_pid h}" using assms(4,7) by (simp add: read_ready_def)
  show ?thesis
  proof (cases "read_ready s h")
    case False
    then show ?thesis using rw.check_repeat [OF ok assms(5,6)] ready by (auto simp: read_waiting_def)
  next
    case True
    let ?n = "min (unat (rd_out_buffer_len h)) (length (ap_bytes q))"
    obtain s1 h1 where c: "read_waiting s h tid = Inr (s1, h1, True)" "tx_status s1 tid = FS_TRANSACTION_FINISHED"
        "rd_io h1 = fst (read_outcome q (rd_pid h) True (unat (rd_out_buffer_len h)) (prepareTransactionRepeat (rd_io h) tid))"
        "take ?n (rd_out_buffer h1) = take (unat (rd_out_buffer_len h)) (ap_bytes q)"
      using read_waiting_ready [OF ok assms(5,6,7) True] assms(4) by auto
    have len: "0 < unat (rd_out_buffer_len h)" using assms(3) by (simp add: unat_gt_0)
    have "?n < 2 ^ 32" using u32_bound [of "rd_out_buffer_len h"] by simp
    then have u: "ucast (of_nat ?n :: i64) = (of_nat ?n :: u32)" by (rule i64_nat)
    have io: "ucast (fh_result (rd_io h1)) = (of_nat ?n :: u32)" "fh_status (rd_io h1) = (if ap_bytes q = [] then FS_READ_ERROR else FS_READ_SUCCESSFUL)"
      unfolding c(3) using True ready len u by (auto simp: read_outcome_def Let_def)
    have res: "rd_read_bytes (read_result h1) = of_nat ?n" "take ?n (rd_out_buffer (read_result h1)) = take ?n (ap_bytes q)"
        "rd_read_status (read_result h1) = (if ap_bytes q = [] then FS_READ_ERROR else FS_READ_SUCCESSFUL)"
      using io c(4) by (simp_all add: read_result_def min_def)
    have "\<exists>s3. read_waiting s2 h1 tid = Inr (s3, read_result h1, False)" if "tx_status s2 tid = FS_TRANSACTION_FINISHED" for s2
      using rw.check_finished [OF that, of h1] by (auto simp: read_waiting_def)
    then show ?thesis using c(1,2) res True ready unfolding Let_def by metis
  qed
qed

theorem blocked_read_completes_witness:
  "\<exists>s h s1 h1 s3 h3. tx_status s 9 = FS_TRANSACTION_REPEAT \<and> read_waiting s h 9 = Inr (s1, h1, True) \<and> read_waiting s1 h1 9 = Inr (s3, h3, False) \<and>
    take 1 (rd_out_buffer h3) = [3] \<and> rd_read_bytes h3 = 1"
proof -
  let ?node = "\<lparr>pn_physFsID = 0, pn_isBlocking = True\<rparr>" and ?io = "\<lparr>fh_repeatTransaction = 9, fh_result = - 1, fh_status = FS_READ_ERROR\<rparr>"
  let ?k = "\<lparr>fh_repeatTransaction = 4, fh_result = - 1, fh_status = FS_WRITE_ERROR\<rparr>"
  let ?h = "\<lparr>rd_hasDelegate = True, rd_node = ?node, rd_pid = 5, rd_out_buffer = [0, 0], rd_out_buffer_len = 2, rd_io = ?io,
    rd_read_bytes = 0, rd_read_status = FS_READ_ERROR\<rparr>"
  obtain s where s: "labelled_run pipe_step pipe_fs_initial [Created 0, Referenced 0 7] s" using sample_run by auto
  have ok: "fs_ok s" using pq.run_queues [OF s pipe_fs_initial_ok] by simp
  have q: "pipes_abs (pf_pipes s) = [0 \<mapsto> \<lparr>ap_bytes = [], ap_references = [7]\<rparr>]" using run_contents [OF s] by simp
  have repeat: "snd (start_or_repeat t ?io) = 9" "snd (start_or_repeat t ?k) = 4" for t
    by (simp_all add: start_or_repeat_def wantsRepeatTransaction_def FS_TRANSACTION_NO_REPEAT_ID_def)
  obtain s2 h2 i where r0: "FsDelegatePipe_requestRead s 5 ?node (ucast (2 :: u32)) ?io = Inr ((s2, h2, i), [])"
      "tx_status s2 i = FS_TRANSACTION_REPEAT" "fs_ok s2" "pipes_abs (pf_pipes s2) = [0 \<mapsto> \<lparr>ap_bytes = [], ap_references = [7]\<rparr>]"
    using requestRead_outcome [OF ok, of ?node "\<lparr>ap_bytes = [], ap_references = [7]\<rparr>" 5 2 ?io] q by (auto simp: read_outcome_def)
  have "i = 9" using request_transaction(1) [OF r0(1)] repeat(1) by simp
  note r = r0 [unfolded this]
  obtain s4 k4 i where w0: "FsDelegatePipe_requestWrite s2 7 ?node (ucast (1 :: u32)) [3] ?k = Inr (s4, k4, i)"
      "k4 = ?k\<lparr>fh_result := 1, fh_status := FS_WRITE_SUCCESSFUL\<rparr>"
      "pipes_abs (pf_pipes s4) = [0 \<mapsto> \<lparr>ap_bytes = [3], ap_references = [7]\<rparr>]"
    using requestWrite_outcome [OF r(3), of ?node "\<lparr>ap_bytes = [], ap_references = [7]\<rparr>" 1 "[3]" 7 ?k] r(4) by (auto simp: write_outcome_def)
  have "i = 4" using request_transaction(2) [OF w0(1)] repeat(2) by simp
  note w = w0 [unfolded this]
  have "pipe_step s (Took 0 []) s2" "pipe_step s2 (Gave 0 [3]) s4"
    using pipe_step.pread [OF r(1)] pipe_step.pwrite [OF _ _ w(1)] w(2) by simp_all
  then have run: "labelled_run pipe_step pipe_fs_initial [Created 0, Referenced 0 7, Took 0 [], Gave 0 [3]] s4" using s by auto
  have st: "tx_status s4 9 = FS_TRANSACTION_REPEAT" using write_other_transactions [OF r(3) w(1), of 9] r(2) by simp
  obtain s5 h5 where c: "read_waiting s4 ?h 9 = Inr (s5, h5, True)" "tx_status s5 9 = FS_TRANSACTION_FINISHED"
      "\<forall>s2. tx_status s2 9 = FS_TRANSACTION_FINISHED \<longrightarrow> (\<exists>s3 h3. read_waiting s2 h5 9 = Inr (s3, h3, False) \<and> rd_read_bytes h3 = 1 \<and> take 1 (rd_out_buffer h3) = [3] \<and> rd_read_status h3 = FS_READ_SUCCESSFUL)"
    using blocked_read_completes [OF run, of ?h 9 "\<lparr>ap_bytes = [3], ap_references = [7]\<rparr>"] st w(3)
    by (auto simp: FS_TRANSACTION_NO_REPEAT_ID_def Let_def)
  then show ?thesis using st by blast
qed

text \<open>The checks that the scheduler makes, until one of them ends the wait.\<close>

primrec read_checks :: "nat \<Rightarrow> pipe_fs \<Rightarrow> read_handler \<Rightarrow> i64 \<Rightarrow> (pipe_fs \<times> read_handler \<times> bool) kres" where
  "read_checks 0 s h tid = Inr (s, h, True)"
| "read_checks (Suc n) s h tid = kbind (read_waiting s h tid) (\<lambda>(s, h, waiting). if waiting then read_checks n s h tid else Inr (s, h, False))"

lemma failed_check:
  assumes "hm_inv (tx_store (pf_transactions s))" and "\<not> rd_hasDelegate h" and "tx_status s tid = FS_TRANSACTION_REPEAT" and "tid \<noteq> 2"
  shows "\<exists>s' h'. read_waiting s h tid = Inr (s', h', True) \<and> hm_inv (tx_store (pf_transactions s')) \<and> \<not> rd_hasDelegate h' \<and>
    tx_status s' tid = FS_TRANSACTION_REPEAT \<and> tx_status s' 2 = FS_TRANSACTION_FINISHED"
  using assms by (simp add: read_waiting_def isTransactionWaiting_def tx_status_def read_restart_def read_prepare_def)

text \<open>
  A repeated transaction whose start fails is never finished: the waiter marks the
  transaction with the number of the status instead of the failed one as finished, so that the
  thread is still waiting after any number of checks, and the transaction with identifier 2 is
  reported as finished to whoever waits for it.
\<close>

theorem failed_restart_waits_forever:
  assumes "hm_inv (tx_store (pf_transactions s))" and "\<not> rd_hasDelegate h" and "tx_status s tid = FS_TRANSACTION_REPEAT" and "tid \<noteq> 2"
  shows "\<exists>s' h'. read_checks n s h tid = Inr (s', h', True) \<and> tx_status s' tid = FS_TRANSACTION_REPEAT \<and>
    (n \<noteq> 0 \<longrightarrow> tx_status s' 2 = FS_TRANSACTION_FINISHED)"
  using assms
proof (induction n arbitrary: s h)
  case (Suc n)
  obtain s' h' where c: "read_waiting s h tid = Inr (s', h', True)" "hm_inv (tx_store (pf_transactions s'))" "\<not> rd_hasDelegate h'"
      "tx_status s' tid = FS_TRANSACTION_REPEAT" "tx_status s' 2 = FS_TRANSACTION_FINISHED"
    using failed_check [OF Suc.prems] by blast
  then show ?case using Suc.IH [OF c(2-4) Suc.prems(4)] by (cases n) auto
qed simp

theorem failed_restart_waits_forever_witness:
  "\<exists>s h s' h'. tx_status s 9 = FS_TRANSACTION_REPEAT \<and> tx_status s 2 = FS_TRANSACTION_WAITING \<and>
    read_checks 100 s h 9 = Inr (s', h', True) \<and> tx_status s' 9 = FS_TRANSACTION_REPEAT \<and> tx_status s' 2 = FS_TRANSACTION_FINISHED"
proof -
  let ?s = "pipe_fs_initial\<lparr>pf_transactions := FsTransactionStore_setStatus (FsTransactionStore_setStatus FsTransactionStore_initialize 2 FS_TRANSACTION_WAITING) 9 FS_TRANSACTION_REPEAT\<rparr>"
  let ?h = "\<lparr>rd_hasDelegate = False, rd_node = \<lparr>pn_physFsID = 0, pn_isBlocking = True\<rparr>, rd_pid = 5, rd_out_buffer = [0, 0], rd_out_buffer_len = 2,
    rd_io = \<lparr>fh_repeatTransaction = 9, fh_result = - 1, fh_status = FS_READ_ERROR\<rparr>, rd_read_bytes = 0, rd_read_status = FS_READ_ERROR\<rparr>"
  have hm: "hm_inv (tx_store FsTransactionStore_initialize)" by (simp add: FsTransactionStore_initialize_def hm_laws)
  then have s: "hm_inv (tx_store (pf_transactions ?s))" "tx_status ?s 9 = FS_TRANSACTION_REPEAT" "tx_status ?s 2 = FS_TRANSACTION_WAITING"
    by (simp_all add: tx_status_def)
  obtain s' h' where "read_checks 100 ?s ?h 9 = Inr (s', h', True)" "tx_status s' 9 = FS_TRANSACTION_REPEAT" "tx_status s' 2 = FS_TRANSACTION_FINISHED"
    using failed_restart_waits_forever [OF s(1) _ s(2), of ?h 100] by auto
  then show ?thesis using s(2,3) by blast
qed

end
