(* ===== verification/FsCalls.thy ===== *)
theory FsCalls
  imports Messages RamdiskFs FsWait
begin

text \<open>
  The file system calls of a thread (calls/SyscallHandlerFilesystem.cpp) and the transaction
  handlers behind them: discovery of the nodes of a path (filesystem/FsTransactionHandlerDiscovery.cpp
  and the four handlers derived from it), open, close, length, seek and reading of directories, over
  all delegates, and the delegate of a file system driver (filesystem/FsDelegateTasked.cpp).

  The state is that of the file system seen by one calling thread: the nodes, the ramdisk, the pipes,
  the descriptor tables, the waiter of the thread and the data blocks of its calls. A handler is a
  value that its waiter carries; a pointer to a node or to the content of a descriptor is an index.
  Handlers are not deleted in the model, and the checks that a data block is used in the address
  space of its owner are left out, as are the reports to the log. No delegate looks at the repeat
  identifier of these handlers, and \<open>findExisting\<close> does not look at \<open>followSymlinks\<close>: both
  are left out.
\<close>

unbundle bit_operations_syntax

section \<open>Data of the calls\<close>

record SyscallFsOpen =
  fo_path :: string
  fo_flags :: i32
  fo_open_status :: FsOpenStatus
  fo_open_fd :: i32

record SyscallFsClose =
  fc_open_fd :: i32
  fc_close_status :: FsCloseStatus

record SyscallFsLength =
  fl_length_mode :: i32
  fl_path :: string
  fl_open_fd :: i32
  fl_length_status :: FsLengthStatus
  fl_length :: i64

datatype FsSeekMode = FS_SEEK_SET | FS_SEEK_CUR | FS_SEEK_END

datatype FsSeekStatus = FS_SEEK_SUCCESSFUL | FS_SEEK_INVALID_FD | FS_SEEK_ERROR

record SyscallFsSeek =
  fk_open_fd :: i32
  fk_offset :: i64
  fk_seek_mode :: FsSeekMode
  fk_seek_status :: FsSeekStatus
  fk_result :: i64

datatype FsTellStatus = FS_TELL_SUCCESSFUL | FS_TELL_INVALID_FD

record SyscallFsTell =
  ftl_open_fd :: i32
  ftl_tell_status :: FsTellStatus
  ftl_result :: i64

datatype SetWorkingDirectoryStatus =
  SET_WORKING_DIRECTORY_SUCCESSFUL | SET_WORKING_DIRECTORY_NOT_A_FOLDER | SET_WORKING_DIRECTORY_NOT_FOUND | SET_WORKING_DIRECTORY_ERROR

text \<open>
  The process whose working directory is set: none for the caller's own. The code passes a pointer
  to its main thread.
\<close>

record SyscallFsSetWorkingDirectory =
  sw_path :: string
  sw_process_creation_identifier :: "i32 option"
  sw_working_directory_status :: SetWorkingDirectoryStatus

datatype FsOpenDirectoryStatus = FS_OPEN_DIRECTORY_SUCCESSFUL | FS_OPEN_DIRECTORY_NOT_FOUND | FS_OPEN_DIRECTORY_ERROR

datatype FsReadDirectoryStatus = FS_READ_DIRECTORY_SUCCESSFUL | FS_READ_DIRECTORY_EOD | FS_READ_DIRECTORY_ERROR

record FsDirectoryEntry =
  en_node_id :: u32
  en_node_type :: FsNodeType
  en_name :: string

record FsDirectoryIterator =
  di_node_id :: u32
  di_position :: u32
  di_entry_buffer :: FsDirectoryEntry

record SyscallFsOpenDirectory =
  od_path :: string
  od_open_directory_status :: FsOpenDirectoryStatus

section \<open>Handlers and waiters\<close>

datatype discovery_kind =
  DiscoveryOpen | DiscoveryGetLength | DiscoveryOpenDirectory | DiscoverySetCwd i32

record discovery_handler =
  dh_kind :: discovery_kind
  dh_status :: FsDiscoveryStatus
  dh_node :: "nat option"
  dh_lastDiscoveredParent :: "nat option"
  dh_absolutePath :: string
  dh_allNodesDiscovered :: bool

definition FsTransactionHandlerDiscovery_new :: "discovery_kind \<Rightarrow> string \<Rightarrow> discovery_handler" where
  "FsTransactionHandlerDiscovery_new kind path =
     \<lparr>dh_kind = kind, dh_status = FS_DISCOVERY_ERROR, dh_node = None, dh_lastDiscoveredParent = None, dh_absolutePath = path,
      dh_allNodesDiscovered = False\<rparr>"

record close_handler =
  ch_fd :: nat
  ch_node :: nat
  ch_status :: FsCloseStatus

datatype length_kind = GetLengthDefault | GetLengthSeek nat

record length_handler =
  lh_kind :: length_kind
  lh_node :: nat
  lh_io :: "FsLengthStatus fs_handler"

definition new_length_handler :: "length_kind \<Rightarrow> nat \<Rightarrow> length_handler" where
  "new_length_handler kind node =
     \<lparr>lh_kind = kind, lh_node = node, lh_io = \<lparr>fh_repeatTransaction = FS_TRANSACTION_NO_REPEAT_ID, fh_result = - 1, fh_status = FS_LENGTH_ERROR\<rparr>\<rparr>"

text \<open>The unfinished handler of a refresh is always the one that reads the same folder.\<close>

record refresh_handler =
  eh_folder :: nat
  eh_status :: FsDirectoryRefreshStatus

datatype fs_call =
  Discovering discovery_handler | Opening fs_open_handler | Closing close_handler | GettingLength length_handler | Refreshing refresh_handler

record fs_waiter =
  fw_handler :: fs_call
  fw_transactionID :: i64
  fw_delegate :: fs_delegate

section \<open>State\<close>

record kfs = fs_base +
  kf_vfs :: vfs
  kf_rd :: ramdisk
  kf_pipes :: pipes
  kf_tables :: "(i32, nat) hashmap"
  kf_tableObjects :: "fd_table option list"
  kf_contents :: "fd_content option list"
  kf_cwd :: "i32 \<Rightarrow> string"
  kf_pid :: i32
  kf_waiter :: "fs_waiter option"
  kf_open :: SyscallFsOpen
  kf_close :: SyscallFsClose
  kf_length :: SyscallFsLength
  kf_seek :: SyscallFsSeek
  kf_tell :: SyscallFsTell
  kf_setCwd :: SyscallFsSetWorkingDirectory
  kf_openDirectory :: SyscallFsOpenDirectory
  kf_iterator :: FsDirectoryIterator
  kf_read_directory_status :: FsReadDirectoryStatus

text \<open>The parts of the state that the delegates and the descriptor tables work on.\<close>

definition disk_of :: "kfs \<Rightarrow> rd_fs" where
  "disk_of s = \<lparr>pf_transactions = pf_transactions s, rf_vfs = kf_vfs s, rf_rd = kf_rd s\<rparr>"

definition put_disk :: "rd_fs \<Rightarrow> kfs \<Rightarrow> kfs" where
  "put_disk d s = s\<lparr>pf_transactions := pf_transactions d, kf_vfs := rf_vfs d, kf_rd := rf_rd d\<rparr>"

definition pipes_of :: "kfs \<Rightarrow> pipe_fs" where
  "pipes_of s = \<lparr>pf_transactions = pf_transactions s, pf_pipes = kf_pipes s\<rparr>"

definition put_pipes :: "pipe_fs \<Rightarrow> kfs \<Rightarrow> kfs" where
  "put_pipes p s = s\<lparr>pf_transactions := pf_transactions p, kf_pipes := pf_pipes p\<rparr>"

definition files_of :: "kfs \<Rightarrow> file_system" where
  "files_of s = \<lparr>fy_vfs = kf_vfs s, fy_pipes = kf_pipes s, fy_tables = kf_tables s, fy_tableObjects = kf_tableObjects s, fy_contents = kf_contents s\<rparr>"

definition put_files :: "file_system \<Rightarrow> kfs \<Rightarrow> kfs" where
  "put_files f s = s\<lparr>kf_vfs := fy_vfs f, kf_pipes := fy_pipes f, kf_tables := fy_tables f, kf_tableObjects := fy_tableObjects f, kf_contents := fy_contents f\<rparr>"

definition node_delegate :: "kfs \<Rightarrow> nat \<Rightarrow> fs_delegate option kres option" where
  "node_delegate s n = (case FsNode_getDelegate (kf_vfs s) n of None \<Rightarrow> None | Some d \<Rightarrow> Some (Inr d))"

definition pipe_node_of :: "fs_node \<Rightarrow> pipe_node" where
  "pipe_node_of n = \<lparr>pn_physFsID = fn_physFsID n, pn_isBlocking = fn_isBlocking n\<rparr>"

text \<open>Updates of the transactions come first in the normal form of a state.\<close>

lemma transactions_first [simp]:
  fixes s :: kfs
  shows
  "s\<lparr>kf_vfs := x0, pf_transactions := t\<rparr> = s\<lparr>pf_transactions := t, kf_vfs := x0\<rparr>"
  "s\<lparr>kf_rd := x1, pf_transactions := t\<rparr> = s\<lparr>pf_transactions := t, kf_rd := x1\<rparr>"
  "s\<lparr>kf_pipes := x2, pf_transactions := t\<rparr> = s\<lparr>pf_transactions := t, kf_pipes := x2\<rparr>"
  "s\<lparr>kf_tables := x3, pf_transactions := t\<rparr> = s\<lparr>pf_transactions := t, kf_tables := x3\<rparr>"
  "s\<lparr>kf_tableObjects := x4, pf_transactions := t\<rparr> = s\<lparr>pf_transactions := t, kf_tableObjects := x4\<rparr>"
  "s\<lparr>kf_contents := x5, pf_transactions := t\<rparr> = s\<lparr>pf_transactions := t, kf_contents := x5\<rparr>"
  "s\<lparr>kf_cwd := x6, pf_transactions := t\<rparr> = s\<lparr>pf_transactions := t, kf_cwd := x6\<rparr>"
  "s\<lparr>kf_pid := x7, pf_transactions := t\<rparr> = s\<lparr>pf_transactions := t, kf_pid := x7\<rparr>"
  "s\<lparr>kf_waiter := x8, pf_transactions := t\<rparr> = s\<lparr>pf_transactions := t, kf_waiter := x8\<rparr>"
  "s\<lparr>kf_open := x9, pf_transactions := t\<rparr> = s\<lparr>pf_transactions := t, kf_open := x9\<rparr>"
  "s\<lparr>kf_close := x10, pf_transactions := t\<rparr> = s\<lparr>pf_transactions := t, kf_close := x10\<rparr>"
  "s\<lparr>kf_length := x11, pf_transactions := t\<rparr> = s\<lparr>pf_transactions := t, kf_length := x11\<rparr>"
  "s\<lparr>kf_seek := x12, pf_transactions := t\<rparr> = s\<lparr>pf_transactions := t, kf_seek := x12\<rparr>"
  "s\<lparr>kf_tell := x13, pf_transactions := t\<rparr> = s\<lparr>pf_transactions := t, kf_tell := x13\<rparr>"
  "s\<lparr>kf_setCwd := x14, pf_transactions := t\<rparr> = s\<lparr>pf_transactions := t, kf_setCwd := x14\<rparr>"
  "s\<lparr>kf_openDirectory := x15, pf_transactions := t\<rparr> = s\<lparr>pf_transactions := t, kf_openDirectory := x15\<rparr>"
  "s\<lparr>kf_iterator := x16, pf_transactions := t\<rparr> = s\<lparr>pf_transactions := t, kf_iterator := x16\<rparr>"
  "s\<lparr>kf_read_directory_status := x17, pf_transactions := t\<rparr> = s\<lparr>pf_transactions := t, kf_read_directory_status := x17\<rparr>"
  by (cases s, simp)+

section \<open>The delegate of a driver\<close>

text \<open>
  A request is written to the transaction storage, a page that the driver maps as well, and the
  driver is to be told by a message; the sending is not there yet, and its status is a constant.
  When a transaction is finished, the results are read from the storage, whatever the driver, or a
  request before, has left there: they are an argument. The switches of the address space are left
  out, and so is what is written to the storage.
\<close>

record driver =
  dv_discovery :: FsDiscoveryStatus
  dv_open :: FsOpenStatus
  dv_close :: FsCloseStatus
  dv_length_status :: FsLengthStatus
  dv_length :: i64
  dv_refresh :: FsDirectoryRefreshStatus
  dv_parentVirtFsID :: u64

definition FILENAME_MAX :: nat where "FILENAME_MAX = 512"

definition driver_sendStatus :: MessageSendStatus where "driver_sendStatus = MESSAGE_SEND_STATUS_FAILED"

definition notify_driver :: "'a fs_base_scheme \<Rightarrow> i64 \<Rightarrow> 'status \<Rightarrow> 'status \<Rightarrow> 'status \<Rightarrow> 'a fs_base_scheme \<times> 'status" where
  "notify_driver s id' status busy error =
     (let set = (\<lambda>st. s\<lparr>pf_transactions := FsTransactionStore_setStatus (pf_transactions s) id' st\<rparr>) in
      case driver_sendStatus of
        MESSAGE_SEND_STATUS_SUCCESSFUL \<Rightarrow> (set FS_TRANSACTION_WAITING, status)
      | MESSAGE_SEND_STATUS_QUEUE_FULL \<Rightarrow> (set FS_TRANSACTION_FINISHED, busy)
      | MESSAGE_SEND_STATUS_FAILED \<Rightarrow> (set FS_TRANSACTION_FINISHED, error)
      | MESSAGE_SEND_STATUS_EXCEEDS_MAXIMUM \<Rightarrow> (s, status))"

definition FsDelegateTasked_requestDiscovery ::
    "'a fs_base_scheme \<Rightarrow> string \<Rightarrow> FsDiscoveryStatus \<Rightarrow> 'a fs_base_scheme \<times> FsDiscoveryStatus \<times> i64" where
  "FsDelegateTasked_requestDiscovery s child status =
     (case FsTransactionStore_nextTransaction (pf_transactions s) of (t, id') \<Rightarrow>
      let s = s\<lparr>pf_transactions := t\<rparr> in
      if length child > FILENAME_MAX then (s, FS_DISCOVERY_ERROR, id')
      else case notify_driver s id' status FS_DISCOVERY_BUSY FS_DISCOVERY_ERROR of (s, status) \<Rightarrow> (s, status, id'))"

definition FsDelegateTasked_requestGetLength ::
    "'a fs_base_scheme \<Rightarrow> FsLengthStatus fs_handler \<Rightarrow> 'a fs_base_scheme \<times> FsLengthStatus fs_handler \<times> i64" where
  "FsDelegateTasked_requestGetLength s h =
     (case FsTransactionStore_nextTransaction (pf_transactions s) of (t, id') \<Rightarrow>
      case notify_driver (s\<lparr>pf_transactions := t\<rparr>) id' (fh_status h) FS_LENGTH_BUSY FS_LENGTH_ERROR of (s, status) \<Rightarrow>
      (s, h\<lparr>fh_status := status\<rparr>, id'))"

definition FsDelegateTasked_requestDirectoryRefresh ::
    "'a fs_base_scheme \<Rightarrow> FsDirectoryRefreshStatus \<Rightarrow> 'a fs_base_scheme \<times> FsDirectoryRefreshStatus \<times> i64" where
  "FsDelegateTasked_requestDirectoryRefresh s status =
     (case FsTransactionStore_nextTransaction (pf_transactions s) of (t, id') \<Rightarrow>
      case notify_driver (s\<lparr>pf_transactions := t\<rparr>) id' status FS_DIRECTORY_REFRESH_BUSY FS_DIRECTORY_REFRESH_ERROR of (s, status) \<Rightarrow>
      (s, status, id'))"

definition FsDelegateTasked_requestOpen ::
    "'a fs_base_scheme \<Rightarrow> string \<Rightarrow> FsOpenStatus \<Rightarrow> 'a fs_base_scheme \<times> FsOpenStatus \<times> i64" where
  "FsDelegateTasked_requestOpen s filename status =
     (case FsTransactionStore_nextTransaction (pf_transactions s) of (t, id') \<Rightarrow>
      let s = s\<lparr>pf_transactions := t\<rparr> in
      if length filename > FILENAME_MAX
      then (s\<lparr>pf_transactions := FsTransactionStore_setStatus t id' FS_TRANSACTION_FINISHED\<rparr>, FS_OPEN_ERROR, id')
      else case notify_driver s id' status FS_OPEN_BUSY FS_OPEN_ERROR of (s, status) \<Rightarrow> (s, status, id'))"

definition FsDelegateTasked_requestClose ::
    "'a fs_base_scheme \<Rightarrow> FsCloseStatus \<Rightarrow> 'a fs_base_scheme \<times> FsCloseStatus \<times> i64" where
  "FsDelegateTasked_requestClose s status =
     (case FsTransactionStore_nextTransaction (pf_transactions s) of (t, id') \<Rightarrow>
      case notify_driver (s\<lparr>pf_transactions := t\<rparr>) id' status FS_CLOSE_BUSY FS_CLOSE_ERROR of (s, status) \<Rightarrow> (s, status, id'))"

definition FsDelegateTasked_finishDirectoryRefresh :: "driver \<Rightarrow> vfs \<Rightarrow> vfs" where
  "FsDelegateTasked_finishDirectoryRefresh dv v =
     (case FileSystem_getNodeById v (ucast (dv_parentVirtFsID dv)) of
        None \<Rightarrow> v
      | Some folder \<Rightarrow> update_node folder (\<lambda>n. n\<lparr>fn_contentsValid := True\<rparr>) v)"

section \<open>Requests to the delegate of a node\<close>

text \<open>\<open>ev_junk\<close> is what the array for the name of a new file holds, \<open>ev_driver\<close> the storage of each driver.\<close>

record fs_env =
  ev_junk :: string
  ev_driver :: "i32 \<Rightarrow> driver"

definition request_discovery :: "kfs \<Rightarrow> fs_delegate \<Rightarrow> nat \<Rightarrow> string \<Rightarrow> FsDiscoveryStatus \<Rightarrow> (kfs \<times> FsDiscoveryStatus \<times> i64) kres" where
  "request_discovery s d parent child status =
     (case d of
        FsDelegateMount \<Rightarrow> Inr (FsDelegateMount_requestDiscovery s)
      | FsDelegateRamdisk \<Rightarrow> kbind (FsDelegateRamdisk_requestDiscovery (disk_of s) parent child) (\<lambda>(r, status, id'). Inr (put_disk r s, status, id'))
      | FsDelegatePipe \<Rightarrow> (case FsDelegatePipe_requestDiscovery (pipes_of s) of (p, status, id') \<Rightarrow> Inr (put_pipes p s, status, id'))
      | FsDelegateTasked t \<Rightarrow> Inr (FsDelegateTasked_requestDiscovery s child status))"

definition request_open :: "fs_env \<Rightarrow> kfs \<Rightarrow> fs_delegate \<Rightarrow> fs_open_handler \<Rightarrow> (kfs \<times> fs_open_handler \<times> i64) kres" where
  "request_open ev s d h =
     (let path = fo_path (kf_open s); flags = fo_flags (kf_open s) in
      case d of
        FsDelegateMount \<Rightarrow> (case FsDelegateMount_requestOpen s of (s, status, id') \<Rightarrow> Inr (s, h\<lparr>oh_status := status\<rparr>, id'))
      | FsDelegateRamdisk \<Rightarrow> kbind (FsDelegateRamdisk_requestOpen (disk_of s) (oh_node h) path flags (ev_junk ev) h) (\<lambda>(r, h, id'). Inr (put_disk r s, h, id'))
      | FsDelegatePipe \<Rightarrow> (case FsDelegatePipe_requestOpen (pipes_of s) of (p, status, id') \<Rightarrow> Inr (put_pipes p s, h\<lparr>oh_status := status\<rparr>, id'))
      | FsDelegateTasked t \<Rightarrow> (case FsDelegateTasked_requestOpen s path (oh_status h) of (s, status, id') \<Rightarrow> Inr (s, h\<lparr>oh_status := status\<rparr>, id')))"

definition request_close :: "kfs \<Rightarrow> fs_delegate \<Rightarrow> close_handler \<Rightarrow> kfs \<times> close_handler \<times> i64" where
  "request_close s d h =
     (case (case d of
              FsDelegateMount \<Rightarrow> FsDelegateMount_requestClose s
            | FsDelegateRamdisk \<Rightarrow> (case FsDelegateRamdisk_requestClose (disk_of s) of (r, status, id') \<Rightarrow> (put_disk r s, status, id'))
            | FsDelegatePipe \<Rightarrow> (case FsDelegatePipe_requestClose (pipes_of s) of (p, status, id') \<Rightarrow> (put_pipes p s, status, id'))
            | FsDelegateTasked t \<Rightarrow> FsDelegateTasked_requestClose s (ch_status h)) of (s, status, id') \<Rightarrow>
      (s, h\<lparr>ch_status := status\<rparr>, id'))"

definition request_length :: "kfs \<Rightarrow> fs_delegate \<Rightarrow> length_handler \<Rightarrow> (kfs \<times> length_handler \<times> i64) kres" where
  "request_length s d h =
     kbind (case d of
              FsDelegateMount \<Rightarrow> Inr (FsDelegateMount_requestGetLength s (lh_io h))
            | FsDelegateRamdisk \<Rightarrow> (case FsDelegateRamdisk_requestGetLength (disk_of s) (lh_node h) (lh_io h) of (r, io, id') \<Rightarrow> Inr (put_disk r s, io, id'))
            | FsDelegatePipe \<Rightarrow> kbind (FsDelegatePipe_requestGetLength (pipes_of s) (pipe_node_of (vf_nodes (kf_vfs s) ! lh_node h)) (lh_io h)) (\<lambda>(p, io, id').
                Inr (put_pipes p s, io, id'))
            | FsDelegateTasked t \<Rightarrow> Inr (FsDelegateTasked_requestGetLength s (lh_io h)))
       (\<lambda>(s, io, id'). Inr (s, h\<lparr>lh_io := io\<rparr>, id'))"

definition set_contentsValid :: "nat \<Rightarrow> bool \<Rightarrow> kfs \<Rightarrow> kfs" where
  "set_contentsValid folder valid s = s\<lparr>kf_vfs := update_node folder (\<lambda>n. n\<lparr>fn_contentsValid := valid\<rparr>) (kf_vfs s)\<rparr>"

definition request_refresh :: "kfs \<Rightarrow> fs_delegate \<Rightarrow> refresh_handler \<Rightarrow> (kfs \<times> refresh_handler \<times> i64) kres option" where
  "request_refresh s d h =
     obind (case d of
              FsDelegateMount \<Rightarrow> (case FsDelegateMount_requestDirectoryRefresh (disk_of s) (eh_folder h) of (r, status, id') \<Rightarrow> Some (Inr (put_disk r s, status, id')))
            | FsDelegateRamdisk \<Rightarrow> obind (FsDelegateRamdisk_requestDirectoryRefresh (disk_of s) (eh_folder h)) (\<lambda>(r, status, id'). Some (Inr (put_disk r s, status, id')))
            | FsDelegatePipe \<Rightarrow> (case FsDelegatePipe_requestDirectoryRefresh (pipes_of s) of ((p, status, id'), valid) \<Rightarrow>
                Some (Inr (set_contentsValid (eh_folder h) valid (put_pipes p s), status, id')))
            | FsDelegateTasked t \<Rightarrow> Some (Inr (FsDelegateTasked_requestDirectoryRefresh s (eh_status h))))
       (\<lambda>(s, status, id'). Some (Inr (s, h\<lparr>eh_status := status\<rparr>, id')))"

section \<open>Waiting\<close>

text \<open>\<open>Thread::wait\<close> with a waiter for a transaction replaces the waiter of the thread.\<close>

definition wait_for :: "fs_call \<Rightarrow> i64 \<Rightarrow> fs_delegate \<Rightarrow> kfs \<Rightarrow> kfs" where
  "wait_for h tid d s = s\<lparr>kf_waiter := Some \<lparr>fw_handler = h, fw_transactionID = tid, fw_delegate = d\<rparr>\<rparr>"

text \<open>\<open>WaiterFsTransaction::isTransactionWaiting\<close> for handlers whose methods may not return.\<close>

definition transaction_waiting ::
    "(kfs \<Rightarrow> 'h \<Rightarrow> (kfs \<times> 'h \<times> FsTransactionHandlerStartStatus) kres option) \<Rightarrow>
     (kfs \<Rightarrow> 'h \<Rightarrow> (kfs \<times> 'h \<times> FsTransactionHandlerFinishStatus) kres option) \<Rightarrow> kfs \<Rightarrow> 'h \<Rightarrow> i64 \<Rightarrow> (kfs \<times> 'h \<times> bool) kres option" where
  "transaction_waiting start finish s h tid =
     (let status = FsTransactionStore_getStatus (pf_transactions s) tid in
      case status of
        FS_TRANSACTION_WAITING \<Rightarrow> Some (Inr (s, h, True))
      | FS_TRANSACTION_REPEAT \<Rightarrow>
          obind (start s h) (\<lambda>(s, h, restartStatus).
            if restartStatus \<noteq> FS_TRANSACTION_START_FAILED then Some (Inr (s, h, True))
            else Some (Inr (s\<lparr>pf_transactions := FsTransactionStore_setStatus (pf_transactions s) (status_number status) FS_TRANSACTION_FINISHED\<rparr>, h, True)))
      | FS_TRANSACTION_FINISHED \<Rightarrow>
          obind (finish s h) (\<lambda>(s, h, stat).
            Some (Inr (s\<lparr>pf_transactions := FsTransactionStore_removeTransaction (pf_transactions s) tid\<rparr>, h, stat \<noteq> FS_TRANSACTION_HANDLING_DONE))))"

text \<open>It is the function of the reads and writes when the methods return.\<close>

lemma transaction_waiting_total:
  "transaction_waiting (\<lambda>s h. Some (start s h)) (\<lambda>s h. Some (finish s h)) s h tid = Some (isTransactionWaiting start finish (\<lambda>h tid. h) s h tid)"
  by (cases "start s h"; cases "finish s h")
    (auto simp: transaction_waiting_def isTransactionWaiting_def Let_def split: FsTransactionStatus.splits FsTransactionHandlerFinishStatus.splits)

lemma obind_mono [partial_function_mono]:
  fixes A :: "('x \<Rightarrow> 'y option) \<Rightarrow> 'a kres option" and B :: "'a \<Rightarrow> ('x \<Rightarrow> 'y option) \<Rightarrow> 'b kres option"
  assumes "mono_option A" and "\<And>x. mono_option (\<lambda>f. B x f)"
  shows "mono_option (\<lambda>f. obind (A f) (\<lambda>x. B x f))"
proof (rule monotoneI)
  fix f g :: "'x \<Rightarrow> 'y option"
  assume fg: "option.le_fun f g"
  from assms(1) have a: "option_ord (A f) (A g)" by (rule monotoneD) (rule fg)
  from assms(2) have b: "\<And>x. option_ord (B x f) (B x g)" by (rule monotoneD) (rule fg)
  show "option_ord (obind (A f) (\<lambda>x. B x f)) (obind (A g) (\<lambda>x. B x g))"
  proof (cases "A f")
    case (Some y)
    then have "A g = Some y" using a by (simp add: flat_ord_def)
    then show ?thesis using Some b by (cases y) (simp_all add: flat_ord_def)
  qed (simp add: flat_ord_def)
qed

lemma transaction_waiting_mono [partial_function_mono]:
  assumes "\<And>s h. mono_option (\<lambda>f. start f s h)"
  shows "mono_option (\<lambda>f. transaction_waiting (start f) finish s h tid)"
  unfolding transaction_waiting_def Let_def
  by (cases "FsTransactionStore_getStatus (pf_transactions s) tid") (auto intro!: partial_function_mono assms)

section \<open>Opening and closing\<close>

definition FsTransactionHandlerOpen_finishTransaction ::
    "fs_env \<Rightarrow> fs_delegate \<Rightarrow> kfs \<Rightarrow> fs_open_handler \<Rightarrow> (kfs \<times> fs_open_handler \<times> FsTransactionHandlerFinishStatus) kres option" where
  "FsTransactionHandlerOpen_finishTransaction ev delegate s h =
     (let h = (case delegate of FsDelegateTasked t \<Rightarrow> h\<lparr>oh_status := dv_open (ev_driver ev t)\<rparr> | _ \<Rightarrow> h);
          s = s\<lparr>kf_open := (kf_open s)\<lparr>fo_open_status := oh_status h\<rparr>\<rparr>
      in if oh_status h = FS_OPEN_SUCCESSFUL
         then obind (Some (FileSystem_mapFile (files_of s) (kf_pid s) (oh_node h) (fo_flags (kf_open s)) (- 1))) (\<lambda>(f, fd).
                Some (Inr ((put_files f s)\<lparr>kf_open := (kf_open s)\<lparr>fo_open_fd := fd\<rparr>\<rparr>, h, FS_TRANSACTION_HANDLING_DONE)))
         else Some (Inr (s\<lparr>kf_open := (kf_open s)\<lparr>fo_open_fd := - 1\<rparr>\<rparr>, h, FS_TRANSACTION_HANDLING_DONE)))"

text \<open>
  \<open>startTransaction\<close> checks the transaction at once, and the check starts it again when it is to be
  repeated.
\<close>

partial_function (option) FsTransactionHandlerOpen_startTransaction ::
    "fs_env \<Rightarrow> kfs \<Rightarrow> fs_open_handler \<Rightarrow> (kfs \<times> fs_open_handler \<times> FsTransactionHandlerStartStatus) kres option" where
  "FsTransactionHandlerOpen_startTransaction ev s h =
     obind (node_delegate s (oh_node h)) (\<lambda>d.
       case d of
         None \<Rightarrow> Some (Inr (s, h, FS_TRANSACTION_START_FAILED))
       | Some delegate \<Rightarrow>
           obind (Some (request_open ev s delegate h)) (\<lambda>x. case x of (s, h, transaction) \<Rightarrow>
           obind (transaction_waiting (FsTransactionHandlerOpen_startTransaction ev) (FsTransactionHandlerOpen_finishTransaction ev delegate) s h transaction)
             (\<lambda>x. case x of (s, h, waiting) \<Rightarrow>
               if waiting then Some (Inr (wait_for (Opening h) transaction delegate s, h, FS_TRANSACTION_START_WITH_WAITER))
               else Some (Inr (s, h, FS_TRANSACTION_START_IMMEDIATE_FINISH)))))"

definition FsTransactionHandlerClose_finishTransaction ::
    "fs_env \<Rightarrow> fs_delegate \<Rightarrow> kfs \<Rightarrow> close_handler \<Rightarrow> (kfs \<times> close_handler \<times> FsTransactionHandlerFinishStatus) kres option" where
  "FsTransactionHandlerClose_finishTransaction ev delegate s h =
     (let h = (case delegate of FsDelegateTasked t \<Rightarrow> h\<lparr>ch_status := dv_close (ev_driver ev t)\<rparr> | _ \<Rightarrow> h);
          s = s\<lparr>kf_close := (kf_close s)\<lparr>fc_close_status := ch_status h\<rparr>\<rparr>
      in if ch_status h = FS_CLOSE_SUCCESSFUL
         then obind (Some (FileSystem_unmapFile (files_of s) (kf_pid s) (ch_node h) (ch_fd h))) (\<lambda>(f, ok).
                Some (Inr (put_files f s, if ok then h else h\<lparr>ch_status := FS_CLOSE_ERROR\<rparr>, FS_TRANSACTION_HANDLING_DONE)))
         else Some (Inr (s, h, FS_TRANSACTION_HANDLING_DONE)))"

partial_function (option) FsTransactionHandlerClose_startTransaction ::
    "fs_env \<Rightarrow> kfs \<Rightarrow> close_handler \<Rightarrow> (kfs \<times> close_handler \<times> FsTransactionHandlerStartStatus) kres option" where
  "FsTransactionHandlerClose_startTransaction ev s h =
     obind (node_delegate s (ch_node h)) (\<lambda>d.
       case d of
         None \<Rightarrow> Some (Inr (s, h, FS_TRANSACTION_START_FAILED))
       | Some delegate \<Rightarrow>
           (case request_close s delegate h of (s, h, transaction) \<Rightarrow>
            obind (transaction_waiting (FsTransactionHandlerClose_startTransaction ev) (FsTransactionHandlerClose_finishTransaction ev delegate) s h transaction)
              (\<lambda>x. case x of (s, h, waiting) \<Rightarrow>
                if waiting then Some (Inr (wait_for (Closing h) transaction delegate s, h, FS_TRANSACTION_START_WITH_WAITER))
                else Some (Inr (s, h, FS_TRANSACTION_START_IMMEDIATE_FINISH)))))"

section \<open>Lengths and positions\<close>

definition FsTransactionHandlerGetLength_startTransaction ::
    "kfs \<Rightarrow> length_handler \<Rightarrow> (kfs \<times> length_handler \<times> FsTransactionHandlerStartStatus) kres option" where
  "FsTransactionHandlerGetLength_startTransaction s h =
     obind (node_delegate s (lh_node h)) (\<lambda>d.
       case d of
         Some delegate \<Rightarrow>
           obind (Some (request_length s delegate h)) (\<lambda>(s, h, transaction).
             Some (Inr (wait_for (GettingLength h) transaction delegate s, h, FS_TRANSACTION_START_WITH_WAITER)))
       | None \<Rightarrow> Some (Inr (s, h, FS_TRANSACTION_START_FAILED)))"

definition FsTransactionHandlerGetLengthDefault_performAfterwork :: "kfs \<Rightarrow> FsLengthStatus fs_handler \<Rightarrow> kfs" where
  "FsTransactionHandlerGetLengthDefault_performAfterwork s io =
     (if fh_status io = FS_LENGTH_SUCCESSFUL
      then s\<lparr>kf_length := (kf_length s)\<lparr>fl_length_status := FS_LENGTH_SUCCESSFUL, fl_length := fh_result io\<rparr>\<rparr>
      else s\<lparr>kf_length := (kf_length s)\<lparr>fl_length_status := fh_status io, fl_length := - 1\<rparr>\<rparr>)"

definition seek_offset :: "FsSeekMode \<Rightarrow> i64 \<Rightarrow> i64 \<Rightarrow> i64 \<Rightarrow> i64" where
  "seek_offset mode current amount len =
     (let offset = (case mode of FS_SEEK_CUR \<Rightarrow> current + amount | FS_SEEK_SET \<Rightarrow> amount | FS_SEEK_END \<Rightarrow> len - amount);
          offset = (if sint offset > sint len then len else offset)
      in if sint offset < 0 then 0 else offset)"

definition FsTransactionHandlerGetLengthSeek_performAfterwork :: "kfs \<Rightarrow> nat \<Rightarrow> FsLengthStatus fs_handler \<Rightarrow> kfs kres" where
  "FsTransactionHandlerGetLengthSeek_performAfterwork s fd io =
     (if fh_status io = FS_LENGTH_SUCCESSFUL
      then kbind (obj_at (kf_contents s) fd) (\<lambda>c.
             let offset = seek_offset (fk_seek_mode (kf_seek s)) (fd_offset c) (fk_offset (kf_seek s)) (fh_result io) in
             Inr (s\<lparr>kf_contents := (kf_contents s)[fd := Some (c\<lparr>fd_offset := offset\<rparr>)],
                    kf_seek := (kf_seek s)\<lparr>fk_result := offset, fk_seek_status := FS_SEEK_SUCCESSFUL\<rparr>\<rparr>))
      else Inr (s\<lparr>kf_seek := (kf_seek s)\<lparr>fk_result := - 1, fk_seek_status := FS_SEEK_ERROR\<rparr>\<rparr>))"

definition FsTransactionHandlerGetLength_finishTransaction ::
    "fs_env \<Rightarrow> fs_delegate \<Rightarrow> kfs \<Rightarrow> length_handler \<Rightarrow> (kfs \<times> length_handler \<times> FsTransactionHandlerFinishStatus) kres option" where
  "FsTransactionHandlerGetLength_finishTransaction ev delegate s h =
     (let h = (case delegate of
                 FsDelegateTasked t \<Rightarrow> h\<lparr>lh_io := (lh_io h)\<lparr>fh_result := dv_length (ev_driver ev t), fh_status := dv_length_status (ev_driver ev t)\<rparr>\<rparr>
               | _ \<Rightarrow> h)
      in obind (Some (case lh_kind h of
                        GetLengthDefault \<Rightarrow> Inr (FsTransactionHandlerGetLengthDefault_performAfterwork s (lh_io h))
                      | GetLengthSeek fd \<Rightarrow> FsTransactionHandlerGetLengthSeek_performAfterwork s fd (lh_io h)))
           (\<lambda>s. Some (Inr (s, h, FS_TRANSACTION_HANDLING_DONE))))"

section \<open>Reading directories\<close>

fun nth_child :: "nat list \<Rightarrow> i32 \<Rightarrow> i32 \<Rightarrow> nat option" where
  "nth_child [] iterpos position = None"
| "nth_child (n # rest) iterpos position = (if iterpos = position then Some n else nth_child rest (iterpos + 1) position)"

text \<open>
  \<open>causing\<close> is the status of the refresh before it, if there was one. The array for the name has
  FILENAME_MAX characters, as \<open>s_open_directory\<close> allocates it.
\<close>

definition FsTransactionHandlerReadDirectory_finishTransaction ::
    "kfs \<Rightarrow> nat \<Rightarrow> FsDirectoryRefreshStatus option \<Rightarrow> (kfs \<times> FsTransactionHandlerFinishStatus) kres" where
  "FsTransactionHandlerReadDirectory_finishTransaction s folder causing =
     (if causing \<noteq> None \<and> causing \<noteq> Some FS_DIRECTORY_REFRESH_SUCCESSFUL
      then Inr (s\<lparr>kf_read_directory_status := FS_READ_DIRECTORY_ERROR\<rparr>, FS_TRANSACTION_HANDLING_DONE)
      else case nth_child (fn_children (vf_nodes (kf_vfs s) ! folder)) 0 (di_position (kf_iterator s)) of
             None \<Rightarrow> Inr (s\<lparr>kf_read_directory_status := FS_READ_DIRECTORY_EOD\<rparr>, FS_TRANSACTION_HANDLING_DONE)
           | Some item \<Rightarrow>
               let n = vf_nodes (kf_vfs s) ! item; it = kf_iterator s in
               (case fn_name n of
                  None \<Rightarrow> Inl NullDeref
                | Some name \<Rightarrow>
                    if length name + 1 > FILENAME_MAX then Inl (BadPointer (of_nat FILENAME_MAX))
                    else Inr (s\<lparr>kf_iterator := it\<lparr>di_position := di_position it + 1,
                                  di_entry_buffer := \<lparr>en_node_id = fn_id n, en_node_type = fn_type n, en_name = name\<rparr>\<rparr>,
                                kf_read_directory_status := FS_READ_DIRECTORY_SUCCESSFUL\<rparr>, FS_TRANSACTION_HANDLING_DONE)))"

definition FsTransactionHandlerDirectoryRefresh_startTransaction ::
    "kfs \<Rightarrow> refresh_handler \<Rightarrow> (kfs \<times> refresh_handler \<times> FsTransactionHandlerStartStatus) kres option" where
  "FsTransactionHandlerDirectoryRefresh_startTransaction s h =
     obind (node_delegate s (eh_folder h)) (\<lambda>d.
       case d of
         None \<Rightarrow> Some (Inr (s\<lparr>kf_read_directory_status := FS_READ_DIRECTORY_ERROR\<rparr>, h, FS_TRANSACTION_START_FAILED))
       | Some delegate \<Rightarrow>
           obind (request_refresh s delegate h) (\<lambda>(s, h, transaction).
             Some (Inr (wait_for (Refreshing h) transaction delegate s, h, FS_TRANSACTION_START_WITH_WAITER))))"

definition FsTransactionHandlerDirectoryRefresh_finishTransaction ::
    "fs_env \<Rightarrow> fs_delegate \<Rightarrow> kfs \<Rightarrow> refresh_handler \<Rightarrow> (kfs \<times> refresh_handler \<times> FsTransactionHandlerFinishStatus) kres option" where
  "FsTransactionHandlerDirectoryRefresh_finishTransaction ev delegate s h =
     (case (case delegate of
              FsDelegateTasked t \<Rightarrow> (s\<lparr>kf_vfs := FsDelegateTasked_finishDirectoryRefresh (ev_driver ev t) (kf_vfs s)\<rparr>, h\<lparr>eh_status := dv_refresh (ev_driver ev t)\<rparr>)
            | _ \<Rightarrow> (s, h)) of (s, h) \<Rightarrow>
      obind (Some (FsTransactionHandlerReadDirectory_finishTransaction s (eh_folder h) (Some (eh_status h)))) (\<lambda>(s, stat). Some (Inr (s, h, stat))))"

section \<open>Discovery\<close>

text \<open>
  \<open>afterFinishTransaction\<close> of the four handlers. When all nodes of the path are discovered,
  \<open>finishTransaction\<close> is this function.
\<close>

definition FsTransactionHandlerDiscoveryOpen_afterFinishTransaction ::
    "fs_env \<Rightarrow> kfs \<Rightarrow> discovery_handler \<Rightarrow> (kfs \<times> FsTransactionHandlerFinishStatus) kres option" where
  "FsTransactionHandlerDiscoveryOpen_afterFinishTransaction ev s h =
     (if dh_status h = FS_DISCOVERY_SUCCESSFUL \<or> dh_status h = FS_DISCOVERY_NOT_FOUND
      then case (if dh_status h = FS_DISCOVERY_NOT_FOUND then dh_lastDiscoveredParent h else dh_node h) of
             None \<Rightarrow> Some (Inl NullDeref)
           | Some discoveredNode \<Rightarrow>
               obind (FsTransactionHandlerOpen_startTransaction ev s \<lparr>oh_discoveryStatus = dh_status h, oh_node = discoveredNode, oh_status = FS_OPEN_ERROR\<rparr>)
                 (\<lambda>(s, handler, startStatus).
                   if startStatus = FS_TRANSACTION_START_WITH_WAITER then Some (Inr (s, FS_TRANSACTION_HANDLING_KEEP_WAITING_WITH_NEW_HANDLER))
                   else if startStatus = FS_TRANSACTION_START_IMMEDIATE_FINISH then Some (Inr (s, FS_TRANSACTION_HANDLING_DONE))
                   else Some (Inr (s\<lparr>kf_open := (kf_open s)\<lparr>fo_open_status := FS_OPEN_ERROR\<rparr>\<rparr>, FS_TRANSACTION_HANDLING_DONE)))
      else Some (Inr (s\<lparr>kf_open := (kf_open s)\<lparr>fo_open_fd := - 1, fo_open_status := FS_OPEN_ERROR\<rparr>\<rparr>, FS_TRANSACTION_HANDLING_DONE)))"

definition FsTransactionHandlerDiscoveryGetLength_afterFinishTransaction ::
    "kfs \<Rightarrow> discovery_handler \<Rightarrow> (kfs \<times> FsTransactionHandlerFinishStatus) kres option" where
  "FsTransactionHandlerDiscoveryGetLength_afterFinishTransaction s h =
     (if dh_status h = FS_DISCOVERY_SUCCESSFUL
      then case dh_node h of
             None \<Rightarrow> Some (Inl NullDeref)
           | Some node \<Rightarrow>
               obind (FsTransactionHandlerGetLength_startTransaction s (new_length_handler GetLengthDefault node))
                 (\<lambda>(s, handler, startStatus).
                   if startStatus = FS_TRANSACTION_START_WITH_WAITER then Some (Inr (s, FS_TRANSACTION_HANDLING_KEEP_WAITING_WITH_NEW_HANDLER))
                   else if startStatus = FS_TRANSACTION_START_IMMEDIATE_FINISH then Some (Inr (s, FS_TRANSACTION_HANDLING_DONE))
                   else Some (Inr (s\<lparr>kf_length := (kf_length s)\<lparr>fl_length_status := FS_LENGTH_ERROR\<rparr>\<rparr>, FS_TRANSACTION_HANDLING_DONE)))
      else Some (Inr (s\<lparr>kf_length := (kf_length s)\<lparr>fl_length := - 1, fl_length_status := FS_LENGTH_ERROR\<rparr>\<rparr>, FS_TRANSACTION_HANDLING_DONE)))"

definition FsTransactionHandlerDiscoveryOpenDirectory_afterFinishTransaction ::
    "kfs \<Rightarrow> discovery_handler \<Rightarrow> (kfs \<times> FsTransactionHandlerFinishStatus) kres option" where
  "FsTransactionHandlerDiscoveryOpenDirectory_afterFinishTransaction s h =
     (let set = (\<lambda>status. s\<lparr>kf_openDirectory := (kf_openDirectory s)\<lparr>od_open_directory_status := status\<rparr>\<rparr>) in
      case dh_status h of
        FS_DISCOVERY_SUCCESSFUL \<Rightarrow>
          (case dh_node h of
             None \<Rightarrow> Some (Inl NullDeref)
           | Some node \<Rightarrow>
               Some (Inr ((set FS_OPEN_DIRECTORY_SUCCESSFUL)\<lparr>kf_iterator := (kf_iterator s)\<lparr>di_node_id := fn_id (vf_nodes (kf_vfs s) ! node), di_position := 0\<rparr>\<rparr>,
                          FS_TRANSACTION_HANDLING_DONE)))
      | FS_DISCOVERY_NOT_FOUND \<Rightarrow> Some (Inr (set FS_OPEN_DIRECTORY_NOT_FOUND, FS_TRANSACTION_HANDLING_DONE))
      | _ \<Rightarrow> Some (Inr (set FS_OPEN_DIRECTORY_ERROR, FS_TRANSACTION_HANDLING_DONE)))"

definition FsTransactionHandlerDiscoverySetCwd_afterFinishTransaction ::
    "kfs \<Rightarrow> i32 \<Rightarrow> discovery_handler \<Rightarrow> (kfs \<times> FsTransactionHandlerFinishStatus) kres option" where
  "FsTransactionHandlerDiscoverySetCwd_afterFinishTransaction s target h =
     (let set = (\<lambda>s status. Some (Inr (s\<lparr>kf_setCwd := (kf_setCwd s)\<lparr>sw_working_directory_status := status\<rparr>\<rparr>, FS_TRANSACTION_HANDLING_DONE))) in
      case dh_status h of
        FS_DISCOVERY_SUCCESSFUL \<Rightarrow>
          (case dh_node h of
             None \<Rightarrow> Some (Inl NullDeref)
           | Some node \<Rightarrow>
               if fn_type (vf_nodes (kf_vfs s) ! node) \<noteq> FS_NODE_TYPE_PIPE \<and> fn_type (vf_nodes (kf_vfs s) ! node) \<noteq> FS_NODE_TYPE_FILE
               then obind (FileSystem_getRealPathToNode (kf_vfs s) node) (\<lambda>nodeRealpath.
                      set (s\<lparr>kf_cwd := (kf_cwd s)(target := nodeRealpath)\<rparr>) SET_WORKING_DIRECTORY_SUCCESSFUL)
               else set s SET_WORKING_DIRECTORY_NOT_A_FOLDER)
      | FS_DISCOVERY_NOT_FOUND \<Rightarrow> set s SET_WORKING_DIRECTORY_NOT_FOUND
      | _ \<Rightarrow> set s SET_WORKING_DIRECTORY_ERROR)"

definition afterFinishTransaction :: "fs_env \<Rightarrow> kfs \<Rightarrow> discovery_handler \<Rightarrow> (kfs \<times> FsTransactionHandlerFinishStatus) kres option" where
  "afterFinishTransaction ev s h =
     (case dh_kind h of
        DiscoveryOpen \<Rightarrow> FsTransactionHandlerDiscoveryOpen_afterFinishTransaction ev s h
      | DiscoveryGetLength \<Rightarrow> FsTransactionHandlerDiscoveryGetLength_afterFinishTransaction s h
      | DiscoveryOpenDirectory \<Rightarrow> FsTransactionHandlerDiscoveryOpenDirectory_afterFinishTransaction s h
      | DiscoverySetCwd target \<Rightarrow> FsTransactionHandlerDiscoverySetCwd_afterFinishTransaction s target h)"

definition FsTransactionHandlerDiscovery_startTransaction ::
    "fs_env \<Rightarrow> kfs \<Rightarrow> discovery_handler \<Rightarrow> (kfs \<times> discovery_handler \<times> FsTransactionHandlerStartStatus) kres option" where
  "FsTransactionHandlerDiscovery_startTransaction ev s h =
     (case FileSystem_findExisting (kf_vfs s) (dh_absolutePath h) of (parent, child, lastName) \<Rightarrow>
      case child of
        Some c \<Rightarrow>
          let h = h\<lparr>dh_status := FS_DISCOVERY_SUCCESSFUL, dh_node := Some c, dh_allNodesDiscovered := True\<rparr> in
          obind (node_delegate s c) (\<lambda>d.
          obind (afterFinishTransaction ev s h) (\<lambda>(s, stat). Some (Inr (s, h, FS_TRANSACTION_START_IMMEDIATE_FINISH))))
      | None \<Rightarrow>
          obind (node_delegate s parent) (\<lambda>d.
            case d of
              None \<Rightarrow>
                let h = h\<lparr>dh_status := FS_DISCOVERY_ERROR, dh_allNodesDiscovered := True\<rparr> in
                obind (afterFinishTransaction ev s h) (\<lambda>(s, stat). Some (Inr (s, h, FS_TRANSACTION_START_FAILED)))
            | Some delegate \<Rightarrow>
                let h = h\<lparr>dh_lastDiscoveredParent := Some parent\<rparr> in
                obind (Some (request_discovery s delegate parent lastName (dh_status h))) (\<lambda>(s, status, transaction).
                  let h = h\<lparr>dh_status := status\<rparr> in
                  Some (Inr (wait_for (Discovering h) transaction delegate s, h, FS_TRANSACTION_START_WITH_WAITER)))))"

definition FsTransactionHandlerDiscovery_finishTransaction ::
    "fs_env \<Rightarrow> fs_delegate \<Rightarrow> kfs \<Rightarrow> discovery_handler \<Rightarrow> (kfs \<times> discovery_handler \<times> FsTransactionHandlerFinishStatus) kres option" where
  "FsTransactionHandlerDiscovery_finishTransaction ev delegate s h =
     (let after = (\<lambda>s h. obind (afterFinishTransaction ev s h) (\<lambda>(s, stat). Some (Inr (s, h, stat)))) in
      if dh_allNodesDiscovered h then after s h
      else let h = (case delegate of FsDelegateTasked t \<Rightarrow> h\<lparr>dh_status := dv_discovery (ev_driver ev t)\<rparr> | _ \<Rightarrow> h) in
           if dh_status h = FS_DISCOVERY_SUCCESSFUL
           then obind (FsTransactionHandlerDiscovery_startTransaction ev s h) (\<lambda>(s, h, status).
                  if status = FS_TRANSACTION_START_FAILED then Some (Inr (s, h, FS_TRANSACTION_HANDLING_DONE))
                  else if \<not> dh_allNodesDiscovered h then Some (Inr (s, h, FS_TRANSACTION_HANDLING_REPEAT_WITH_SAME_HANDLER))
                  else after s h)
           else after s h)"

section \<open>The check of the waiter\<close>

text \<open>
  The waiter and the code share the handler: when no new waiter was set, whose transaction would be a
  new one, the waiter has the changed handler. The thread stops waiting when the check says so.
\<close>

definition keep_handler :: "fs_waiter \<Rightarrow> fs_call \<Rightarrow> kfs \<Rightarrow> kfs" where
  "keep_handler w h s = (if kf_waiter s = Some w then s\<lparr>kf_waiter := Some (w\<lparr>fw_handler := h\<rparr>)\<rparr> else s)"

definition WaiterFsTransaction_checkWaiting :: "fs_env \<Rightarrow> kfs \<Rightarrow> fs_waiter \<Rightarrow> (kfs \<times> bool) kres option" where
  "WaiterFsTransaction_checkWaiting ev s w =
     (let tid = fw_transactionID w; d = fw_delegate w in
      case fw_handler w of
        Discovering h \<Rightarrow>
          obind (transaction_waiting (FsTransactionHandlerDiscovery_startTransaction ev) (FsTransactionHandlerDiscovery_finishTransaction ev d) s h tid)
            (\<lambda>(s, h, keep). Some (Inr (keep_handler w (Discovering h) s, keep)))
      | Opening h \<Rightarrow>
          obind (transaction_waiting (FsTransactionHandlerOpen_startTransaction ev) (FsTransactionHandlerOpen_finishTransaction ev d) s h tid)
            (\<lambda>(s, h, keep). Some (Inr (keep_handler w (Opening h) s, keep)))
      | Closing h \<Rightarrow>
          obind (transaction_waiting (FsTransactionHandlerClose_startTransaction ev) (FsTransactionHandlerClose_finishTransaction ev d) s h tid)
            (\<lambda>(s, h, keep). Some (Inr (keep_handler w (Closing h) s, keep)))
      | GettingLength h \<Rightarrow>
          obind (transaction_waiting FsTransactionHandlerGetLength_startTransaction (FsTransactionHandlerGetLength_finishTransaction ev d) s h tid)
            (\<lambda>(s, h, keep). Some (Inr (keep_handler w (GettingLength h) s, keep)))
      | Refreshing h \<Rightarrow>
          obind (transaction_waiting FsTransactionHandlerDirectoryRefresh_startTransaction (FsTransactionHandlerDirectoryRefresh_finishTransaction ev d) s h tid)
            (\<lambda>(s, h, keep). Some (Inr (keep_handler w (Refreshing h) s, keep))))"

definition check_waiting :: "fs_env \<Rightarrow> kfs \<Rightarrow> kfs kres option" where
  "check_waiting ev s =
     (case kf_waiter s of
        None \<Rightarrow> Some (Inr s)
      | Some w \<Rightarrow> obind (WaiterFsTransaction_checkWaiting ev s w) (\<lambda>(s, keep). Some (Inr (if keep then s else s\<lparr>kf_waiter := None\<rparr>))))"

section \<open>System calls\<close>

text \<open>A call returns to its caller at once, or gives the processor to the thread that \<open>Tasking::schedule\<close> chooses.\<close>

datatype call_return = CurrentThread | Scheduled

definition return_after :: "FsTransactionHandlerStartStatus \<Rightarrow> (kfs \<Rightarrow> kfs) \<Rightarrow> kfs \<Rightarrow> (kfs \<times> call_return) kres option" where
  "return_after startStatus failed s =
     (case startStatus of
        FS_TRANSACTION_START_WITH_WAITER \<Rightarrow> Some (Inr (s, Scheduled))
      | FS_TRANSACTION_START_IMMEDIATE_FINISH \<Rightarrow> Some (Inr (s, CurrentThread))
      | FS_TRANSACTION_START_FAILED \<Rightarrow> Some (Inr (failed s, CurrentThread)))"

definition node_for_descriptor :: "kfs \<Rightarrow> i32 \<Rightarrow> (kfs \<times> (nat \<times> nat) option) kres" where
  "node_for_descriptor s fd = kbind (FileSystem_nodeForDescriptor (files_of s) (kf_pid s) fd) (\<lambda>(f, r). Inr (put_files f s, r))"

definition fsOpen :: "fs_env \<Rightarrow> kfs \<Rightarrow> (kfs \<times> call_return) kres option" where
  "fsOpen ev s =
     obind (Some (FileSystem_concatAsAbsolutePath (kf_cwd s (kf_pid s)) (fo_path (kf_open s)))) (\<lambda>targetPath.
     obind (FsTransactionHandlerDiscovery_startTransaction ev s (FsTransactionHandlerDiscovery_new DiscoveryOpen targetPath)) (\<lambda>(s, h, startStatus).
       return_after startStatus (\<lambda>s. s\<lparr>kf_open := (kf_open s)\<lparr>fo_open_status := FS_OPEN_ERROR\<rparr>\<rparr>) s))"

definition fsClose :: "fs_env \<Rightarrow> kfs \<Rightarrow> (kfs \<times> call_return) kres option" where
  "fsClose ev s =
     (let failed = (\<lambda>status s. s\<lparr>kf_close := (kf_close s)\<lparr>fc_close_status := status\<rparr>\<rparr>) in
      obind (Some (node_for_descriptor s (fc_open_fd (kf_close s)))) (\<lambda>(s, r).
        case r of
          None \<Rightarrow> Some (Inr (failed FS_CLOSE_INVALID_FD s, CurrentThread))
        | Some (node, fd) \<Rightarrow>
            obind (FsTransactionHandlerClose_startTransaction ev s \<lparr>ch_fd = fd, ch_node = node, ch_status = FS_CLOSE_ERROR\<rparr>) (\<lambda>(s, h, startStatus).
              return_after startStatus (failed FS_CLOSE_ERROR) s)))"

definition fsSeek :: "kfs \<Rightarrow> (kfs \<times> call_return) kres option" where
  "fsSeek s =
     (let failed = (\<lambda>status s. s\<lparr>kf_seek := (kf_seek s)\<lparr>fk_seek_status := status\<rparr>\<rparr>) in
      obind (Some (node_for_descriptor s (fk_open_fd (kf_seek s)))) (\<lambda>(s, r).
        case r of
          None \<Rightarrow> Some (Inr (failed FS_SEEK_INVALID_FD s, CurrentThread))
        | Some (node, fd) \<Rightarrow>
            obind (FsTransactionHandlerGetLength_startTransaction s (new_length_handler (GetLengthSeek fd) node)) (\<lambda>(s, h, startStatus).
              return_after startStatus (failed FS_SEEK_ERROR) s)))"

definition SYSCALL_FS_LENGTH_MODE_BY_MASK :: i32 where "SYSCALL_FS_LENGTH_MODE_BY_MASK = 1"

definition SYSCALL_FS_LENGTH_BY_FD :: i32 where "SYSCALL_FS_LENGTH_BY_FD = 1"

definition fsLength :: "fs_env \<Rightarrow> kfs \<Rightarrow> (kfs \<times> call_return) kres option" where
  "fsLength ev s =
     (let failed = (\<lambda>status s. s\<lparr>kf_length := (kf_length s)\<lparr>fl_length_status := status\<rparr>\<rparr>) in
      if fl_length_mode (kf_length s) AND SYSCALL_FS_LENGTH_MODE_BY_MASK = SYSCALL_FS_LENGTH_BY_FD
      then obind (Some (node_for_descriptor s (fl_open_fd (kf_length s)))) (\<lambda>(s, r).
             case r of
               None \<Rightarrow> Some (Inr (failed FS_LENGTH_INVALID_FD s, CurrentThread))
             | Some (node, fd) \<Rightarrow>
                 obind (FsTransactionHandlerGetLength_startTransaction s (new_length_handler GetLengthDefault node)) (\<lambda>(s, h, startStatus).
                   return_after startStatus (failed FS_LENGTH_ERROR) s))
      else obind (Some (FileSystem_concatAsAbsolutePath (kf_cwd s (kf_pid s)) (fl_path (kf_length s)))) (\<lambda>absolutePath.
           obind (FsTransactionHandlerDiscovery_startTransaction ev s (FsTransactionHandlerDiscovery_new DiscoveryGetLength absolutePath)) (\<lambda>(s, h, startStatus).
             return_after startStatus (failed FS_LENGTH_ERROR) s)))"

definition fsTell :: "kfs \<Rightarrow> kfs kres" where
  "fsTell s =
     kbind (node_for_descriptor s (ftl_open_fd (kf_tell s))) (\<lambda>(s, r).
       case r of
         Some (node, fd) \<Rightarrow> kbind (obj_at (kf_contents s) fd) (\<lambda>c.
           Inr (s\<lparr>kf_tell := (kf_tell s)\<lparr>ftl_tell_status := FS_TELL_SUCCESSFUL, ftl_result := fd_offset c\<rparr>\<rparr>))
       | None \<Rightarrow> Inr (s\<lparr>kf_tell := (kf_tell s)\<lparr>ftl_tell_status := FS_TELL_INVALID_FD, ftl_result := - 1\<rparr>\<rparr>))"

definition fsOpenDirectory :: "fs_env \<Rightarrow> kfs \<Rightarrow> (kfs \<times> call_return) kres option" where
  "fsOpenDirectory ev s =
     obind (Some (FileSystem_concatAsAbsolutePath (kf_cwd s (kf_pid s)) (od_path (kf_openDirectory s)))) (\<lambda>absolutePath.
     obind (FsTransactionHandlerDiscovery_startTransaction ev s (FsTransactionHandlerDiscovery_new DiscoveryOpenDirectory absolutePath)) (\<lambda>(s, h, startStatus).
       Some (Inr (s, Scheduled))))"

definition fsReadDirectory :: "kfs \<Rightarrow> (kfs \<times> call_return) kres option" where
  "fsReadDirectory s =
     (let failed = (\<lambda>s. s\<lparr>kf_read_directory_status := FS_READ_DIRECTORY_ERROR\<rparr>) in
      case FileSystem_getNodeById (kf_vfs s) (di_node_id (kf_iterator s)) of
        None \<Rightarrow> Some (Inr (failed s, CurrentThread))
      | Some folder \<Rightarrow>
          if fn_contentsValid (vf_nodes (kf_vfs s) ! folder)
          then obind (Some (FsTransactionHandlerReadDirectory_finishTransaction s folder None)) (\<lambda>(s, stat). Some (Inr (s, CurrentThread)))
          else obind (FsTransactionHandlerDirectoryRefresh_startTransaction s \<lparr>eh_folder = folder, eh_status = FS_DIRECTORY_REFRESH_ERROR\<rparr>) (\<lambda>(s, h, startStatus).
                 return_after startStatus failed s))"

definition SECURITY_LEVEL_KERNEL :: nat where "SECURITY_LEVEL_KERNEL = 0"

definition setWorkingDirectory :: "fs_env \<Rightarrow> nat \<Rightarrow> kfs \<Rightarrow> (kfs \<times> call_return) kres option" where
  "setWorkingDirectory ev securityLevel s =
     (let failed = (\<lambda>s. s\<lparr>kf_setCwd := (kf_setCwd s)\<lparr>sw_working_directory_status := SET_WORKING_DIRECTORY_ERROR\<rparr>\<rparr>);
          start = (\<lambda>target.
            obind (Some (FileSystem_concatAsAbsolutePath (kf_cwd s target) (sw_path (kf_setCwd s)))) (\<lambda>absolutePath.
            obind (FsTransactionHandlerDiscovery_startTransaction ev s (FsTransactionHandlerDiscovery_new (DiscoverySetCwd target) absolutePath)) (\<lambda>(s, h, startStatus).
              return_after startStatus failed s)))
      in case sw_process_creation_identifier (kf_setCwd s) of
           None \<Rightarrow> start (kf_pid s)
         | Some target \<Rightarrow> if securityLevel \<le> SECURITY_LEVEL_KERNEL then start target else Some (Inr (failed s, CurrentThread)))"

datatype GetWorkingDirectoryStatus =
  GET_WORKING_DIRECTORY_SUCCESSFUL | GET_WORKING_DIRECTORY_SIZE_EXCEEDED | GET_WORKING_DIRECTORY_ERROR

text \<open>The second component is what is copied to the array of the caller. Every process has a working directory.\<close>

definition getWorkingDirectory :: "kfs \<Rightarrow> u32 \<Rightarrow> GetWorkingDirectoryStatus \<times> string option" where
  "getWorkingDirectory s out_buffer_len =
     (let cwd = kf_cwd s (kf_pid s) in
      if of_nat (length cwd) + 1 > out_buffer_len then (GET_WORKING_DIRECTORY_SIZE_EXCEEDED, None) else (GET_WORKING_DIRECTORY_SUCCESSFUL, Some cwd))"

definition fsSetTransactionStatus :: "kfs \<Rightarrow> i64 \<Rightarrow> FsTransactionStatus \<Rightarrow> kfs" where
  "fsSetTransactionStatus s transaction_id status = s\<lparr>pf_transactions := FsTransactionStore_setStatus (pf_transactions s) transaction_id status\<rparr>"

end
