(* ===== verification/FsDiscovery.thy ===== *)
theory FsDiscovery
  imports FsCalls
begin

text \<open>
  Calls on paths. The nodes of a path are discovered one by one while the thread waits; the contract
  that a delegate has to keep for this to end is a locale, and the delegate of the ramdisk keeps it:
  a call on the path of an entry of the ramdisk ends after at most as many checks as the path has names.
\<close>

section \<open>Repeated checks\<close>

fun checks :: "nat \<Rightarrow> fs_env \<Rightarrow> kfs \<Rightarrow> kfs kres option" where
  "checks 0 ev s = Some (Inr s)"
| "checks (Suc k) ev s = obind (check_waiting ev s) (checks k ev)"

lemma checks_idle: "kf_waiter s = None \<Longrightarrow> checks k ev s = Some (Inr s)"
  by (induction k) (simp_all add: check_waiting_def)

lemma checks_add: "checks (j + k) ev s = obind (checks j ev s) (checks k ev)"
proof (induction j arbitrary: s)
  case (Suc j)
  then show ?case by (cases "check_waiting ev s") (auto simp: obind_def split: option.splits sum.splits)
qed simp

text \<open>An unknown transaction counts as finished.\<close>

lemma removed_transaction:
  assumes "hm_inv (tx_store t)"
  shows "hm_inv (tx_store (FsTransactionStore_removeTransaction t i))"
    and "FsTransactionStore_getStatus t j = FS_TRANSACTION_FINISHED \<Longrightarrow> FsTransactionStore_getStatus (FsTransactionStore_removeTransaction t i) j = FS_TRANSACTION_FINISHED"
  using assms by (simp_all add: FsTransactionStore_removeTransaction_def FsTransactionStore_getStatus_def hm_laws)

lemma checks_end:
  assumes "checks k ev s = Some (Inr s1)" and "check_waiting ev s1 = Some (Inr s2)" and "kf_waiter s2 = None" and "k < n"
  shows "checks n ev s = Some (Inr s2)"
proof -
  have "checks (k + Suc (n - Suc k)) ev s = Some (Inr s2)" unfolding checks_add using assms(1-3) by (simp add: checks_idle)
  moreover have "k + Suc (n - Suc k) = n" using assms(4) by simp
  ultimately show ?thesis by (simp only:)
qed

section \<open>The contract of discovery\<close>

fun follow_entries :: "('e \<Rightarrow> string \<Rightarrow> 'e option) \<Rightarrow> 'e \<Rightarrow> string list \<Rightarrow> 'e option" where
  "follow_entries child e [] = Some e"
| "follow_entries child e (name # names) = (case child e name of None \<Rightarrow> None | Some e' \<Rightarrow> follow_entries child e' names)"

text \<open>
  \<open>depicts v rd n e\<close>: the node \<open>n\<close> stands for the object \<open>e\<close> of the delegate \<open>d\<close>, whose children are
  given by \<open>child\<close>. A node that exists for a child of the object depicts the child; a discovery of a
  child without a node adds one, answers at once, and leaves the rest alone.
\<close>

locale discovering =
  fixes d :: fs_delegate
    and ok :: "vfs \<Rightarrow> ramdisk \<Rightarrow> bool"
    and depicts :: "vfs \<Rightarrow> ramdisk \<Rightarrow> nat \<Rightarrow> 'e \<Rightarrow> bool"
    and child :: "ramdisk \<Rightarrow> 'e \<Rightarrow> string \<Rightarrow> 'e option"
  assumes kernel_delegate: "d \<noteq> FsDelegateTasked t"
    and delegate: "ok v rd \<Longrightarrow> depicts v rd n e \<Longrightarrow> FsNode_getDelegate v n = Some (Some d)"
    and known: "ok v rd \<Longrightarrow> depicts v rd n e \<Longrightarrow> child rd e x = Some e' \<Longrightarrow> FsNode_findChild v n x = Some c \<Longrightarrow> depicts v rd c e'"
    and request: "hm_inv (tx_store (pf_transactions s)) \<Longrightarrow> ok (kf_vfs s) (kf_rd s) \<Longrightarrow> depicts (kf_vfs s) (kf_rd s) n e \<Longrightarrow>
      child (kf_rd s) e x = Some e' \<Longrightarrow> FsNode_findChild (kf_vfs s) n x = None \<Longrightarrow>
      \<exists>t v tid c. request_discovery s d n x st = Inr (s\<lparr>pf_transactions := t, kf_vfs := v\<rparr>, FS_DISCOVERY_SUCCESSFUL, tid) \<and>
        hm_inv (tx_store t) \<and> FsTransactionStore_getStatus t tid = FS_TRANSACTION_FINISHED \<and>
        ok v (kf_rd s) \<and> depicts v (kf_rd s) c e' \<and> FsNode_findChild v n x = Some c \<and> vf_root v = vf_root (kf_vfs s) \<and>
        (\<forall>m o'. depicts (kf_vfs s) (kf_rd s) m o' \<longrightarrow> depicts v (kf_rd s) m o' \<and>
          (\<forall>y z. FsNode_findChild (kf_vfs s) m y = Some z \<longrightarrow> FsNode_findChild v m y = Some z))"
begin

lemma resolve_cases:
  assumes "ok v rd" and "\<forall>name \<in> set names. good_name name"
  shows "depicts v rd n e \<Longrightarrow> follow_entries (child rd) e names = Some f \<Longrightarrow>
    (\<exists>c. resolve v names n = (c, Some c, []) \<and> depicts v rd c f) \<or>
    (\<exists>pre x suf p ep e'. names = pre @ x # suf \<and> resolve v names n = (p, None, x) \<and> resolve v pre n = (p, Some p, []) \<and> depicts v rd p ep \<and>
      follow_entries (child rd) e pre = Some ep \<and> FsNode_findChild v p x = None \<and> child rd ep x = Some e' \<and> follow_entries (child rd) e' suf = Some f)"
  using assms(2)
proof (induction names arbitrary: n e)
  case (Cons x names)
  have x: "x \<noteq> ''..''" "x \<noteq> ''.''" using Cons.prems(3) by (auto simp: good_name_def)
  obtain e' where e': "child rd e x = Some e'" "follow_entries (child rd) e' names = Some f" using Cons.prems(2) by (auto split: option.splits)
  show ?case
  proof (cases "FsNode_findChild v n x")
    case None
    then have "x # names = [] @ x # names \<and> resolve v (x # names) n = (n, None, x) \<and> resolve v [] n = (n, Some n, []) \<and> depicts v rd n e \<and>
        follow_entries (child rd) e [] = Some e \<and> FsNode_findChild v n x = None \<and> child rd e x = Some e' \<and> follow_entries (child rd) e' names = Some f"
      using x e' Cons.prems(1) by simp
    then show ?thesis by blast
  next
    case (Some c)
    have dep: "depicts v rd c e'" by (rule known [OF assms(1) Cons.prems(1) e'(1) Some])
    have good: "\<forall>name \<in> set names. good_name name" using Cons.prems(3) by simp
    from Cons.IH [OF dep e'(2) good] show ?thesis
    proof (elim disjE exE conjE, goal_cases)
      case 1
      then show ?case using Some x by auto
    next
      case (2 pre y suf p ep e'')
      then have "x # names = (x # pre) @ y # suf \<and> resolve v (x # names) n = (p, None, y) \<and> resolve v (x # pre) n = (p, Some p, []) \<and> depicts v rd p ep \<and>
          follow_entries (child rd) e (x # pre) = Some ep \<and> FsNode_findChild v p y = None \<and> child rd ep y = Some e'' \<and> follow_entries (child rd) e'' suf = Some f"
        using Some x e'(1) by simp
      then show ?case by blast
    qed
  qed
qed simp

text \<open>A resolved path stays resolved when the nodes in use keep their children.\<close>

lemma resolve_kept:
  assumes "ok v rd" and "\<forall>m o'. depicts v rd m o' \<longrightarrow> (\<forall>y z. FsNode_findChild v m y = Some z \<longrightarrow> FsNode_findChild v' m y = Some z)"
    and "\<forall>name \<in> set names. good_name name"
  shows "depicts v rd n e \<Longrightarrow> follow_entries (child rd) e names = Some f \<Longrightarrow> resolve v names n = (p, Some p, []) \<Longrightarrow> resolve v' names n = (p, Some p, [])"
  using assms(3)
proof (induction names arbitrary: n e)
  case (Cons x names)
  have x: "x \<noteq> ''..''" "x \<noteq> ''.''" using Cons.prems(4) by (auto simp: good_name_def)
  obtain e' where e': "child rd e x = Some e'" "follow_entries (child rd) e' names = Some f" using Cons.prems(2) by (auto split: option.splits)
  obtain c where c: "FsNode_findChild v n x = Some c" "resolve v names c = (p, Some p, [])" using Cons.prems(3) x by (auto split: option.splits)
  have "depicts v rd c e'" by (rule known [OF assms(1) Cons.prems(1) e'(1) c(1)])
  from Cons.IH [OF this e'(2) c(2)] show ?case using Cons.prems(1,4) c(1) x assms(2) by auto
qed simp

text \<open>The calling thread waits for the discovery of the first names of a path; those of \<open>suf\<close> are left.\<close>

definition awaits :: "kfs \<Rightarrow> discovery_handler \<Rightarrow> string list \<Rightarrow> 'e \<Rightarrow> bool" where
  "awaits s h suf f \<longleftrightarrow> (\<exists>tid pre r p.
     kf_waiter s = Some \<lparr>fw_handler = Discovering h, fw_transactionID = tid, fw_delegate = d\<rparr> \<and>
     FsTransactionStore_getStatus (pf_transactions s) tid = FS_TRANSACTION_FINISHED \<and> hm_inv (tx_store (pf_transactions s)) \<and>
     ok (kf_vfs s) (kf_rd s) \<and> dh_status h = FS_DISCOVERY_SUCCESSFUL \<and> \<not> dh_allNodesDiscovered h \<and>
     components (dh_absolutePath h) = pre @ suf \<and> (\<forall>name \<in> set (pre @ suf). good_name name) \<and>
     depicts (kf_vfs s) (kf_rd s) (vf_root (kf_vfs s)) r \<and> follow_entries (child (kf_rd s)) r (pre @ suf) = Some f \<and>
     resolve (kf_vfs s) pre (vf_root (kf_vfs s)) = (p, Some p, []))"

lemma start_discovery:
  assumes "hm_inv (tx_store (pf_transactions s))" and "ok (kf_vfs s) (kf_rd s)" and "depicts (kf_vfs s) (kf_rd s) (vf_root (kf_vfs s)) r"
    and "components (dh_absolutePath h) = names" and "\<forall>name \<in> set names. good_name name" and "follow_entries (child (kf_rd s)) r names = Some f"
    and "\<not> dh_allNodesDiscovered h" and "resolve (kf_vfs s) names (vf_root (kf_vfs s)) = (p, None, x)"
  shows "\<exists>t v w h' pre suf. FsTransactionHandlerDiscovery_startTransaction ev s h =
      Some (Inr (s\<lparr>pf_transactions := t, kf_vfs := v, kf_waiter := w\<rparr>, h', FS_TRANSACTION_START_WITH_WAITER)) \<and>
    names = pre @ x # suf \<and> resolve (kf_vfs s) pre (vf_root (kf_vfs s)) = (p, Some p, []) \<and> FsNode_findChild (kf_vfs s) p x = None \<and>
    \<not> dh_allNodesDiscovered h' \<and> awaits (s\<lparr>pf_transactions := t, kf_vfs := v, kf_waiter := w\<rparr>) h' suf f \<and> dh_kind h' = dh_kind h \<and> dh_absolutePath h' = dh_absolutePath h \<and>
    (\<exists>tid. w = Some \<lparr>fw_handler = Discovering h', fw_transactionID = tid, fw_delegate = d\<rparr>)"
proof -
  obtain pre suf ep e' where split: "names = pre @ x # suf" "resolve (kf_vfs s) pre (vf_root (kf_vfs s)) = (p, Some p, [])"
      "depicts (kf_vfs s) (kf_rd s) p ep" "follow_entries (child (kf_rd s)) r pre = Some ep" "FsNode_findChild (kf_vfs s) p x = None"
      "child (kf_rd s) ep x = Some e'" "follow_entries (child (kf_rd s)) e' suf = Some f"
    using resolve_cases [OF assms(2,5,3,6)] assms(8) by auto
  have del: "node_delegate s p = Some (Inr (Some d))" using delegate [OF assms(2) split(3)] by (simp add: node_delegate_def)
  obtain t v tid c where req: "request_discovery s d p x (dh_status h) = Inr (s\<lparr>pf_transactions := t, kf_vfs := v\<rparr>, FS_DISCOVERY_SUCCESSFUL, tid)"
      "hm_inv (tx_store t)" "FsTransactionStore_getStatus t tid = FS_TRANSACTION_FINISHED" "ok v (kf_rd s)" "depicts v (kf_rd s) c e'"
      "FsNode_findChild v p x = Some c" "vf_root v = vf_root (kf_vfs s)"
      "\<forall>m o'. depicts (kf_vfs s) (kf_rd s) m o' \<longrightarrow> depicts v (kf_rd s) m o' \<and>
          (\<forall>y z. FsNode_findChild (kf_vfs s) m y = Some z \<longrightarrow> FsNode_findChild v m y = Some z)"
    using request [OF assms(1,2) split(3,6,5), of "dh_status h"] by blast
  let ?h = "h\<lparr>dh_lastDiscoveredParent := Some p, dh_status := FS_DISCOVERY_SUCCESSFUL\<rparr>"
  let ?w = "Some \<lparr>fw_handler = Discovering ?h, fw_transactionID = tid, fw_delegate = d\<rparr>"
  let ?s = "s\<lparr>pf_transactions := t, kf_vfs := v, kf_waiter := ?w\<rparr>"
  have "FsTransactionHandlerDiscovery_startTransaction ev s h = Some (Inr (?s, ?h, FS_TRANSACTION_START_WITH_WAITER))"
    using assms(4,8) del req(1)
    by (simp add: FsTransactionHandlerDiscovery_startTransaction_def FileSystem_findExisting_def find_loop_resolve wait_for_def Let_def)
  moreover have "awaits ?s ?h suf f"
  proof -
    have "resolve v pre (vf_root (kf_vfs s)) = (p, Some p, [])"
      by (rule resolve_kept [OF assms(2) _ _ assms(3) split(4,2)]) (use req(8) assms(5) split(1) in auto)
    moreover have "x \<noteq> ''..''" "x \<noteq> ''.''" using assms(5) split(1) by (auto simp: good_name_def)
    ultimately have "resolve v (pre @ [x]) (vf_root v) = (c, Some c, [])" using req(6,7) by (simp add: resolve_append)
    moreover have "depicts v (kf_rd s) (vf_root v) r" using req(7,8) assms(3) by simp
    moreover have "follow_entries (child (kf_rd s)) r ((pre @ [x]) @ suf) = Some f" using assms(6) split(1) by simp
    ultimately show ?thesis unfolding awaits_def using req assms(4,5,7) split(1)
      by (intro exI [of _ tid] exI [of _ "pre @ [x]"] exI [of _ r] exI [of _ c]) auto
  qed
  moreover have "\<not> dh_allNodesDiscovered ?h" "dh_kind ?h = dh_kind h" "dh_absolutePath ?h = dh_absolutePath h" using assms(7) by simp_all
  ultimately show ?thesis using split(1,2,5) by blast
qed

lemma awaits_remove:
  assumes "awaits s h suf f"
  shows "awaits (s\<lparr>pf_transactions := FsTransactionStore_removeTransaction (pf_transactions s) i\<rparr>) h suf f"
proof -
  have "hm_inv (tx_store (pf_transactions s))" using assms by (auto simp: awaits_def)
  then show ?thesis using assms unfolding awaits_def by (elim ex_forward conj_forward) (simp_all add: removed_transaction)
qed

lemma check_awaiting:
  assumes "awaits s h suf f"
  shows "\<exists>tid. kf_waiter s = Some \<lparr>fw_handler = Discovering h, fw_transactionID = tid, fw_delegate = d\<rparr> \<and>
    check_waiting ev s = obind (FsTransactionHandlerDiscovery_startTransaction ev s h) (\<lambda>(s1, h1, status).
      obind (if status = FS_TRANSACTION_START_FAILED then Some (Inr (s1, FS_TRANSACTION_HANDLING_DONE))
             else if \<not> dh_allNodesDiscovered h1 then Some (Inr (s1, FS_TRANSACTION_HANDLING_REPEAT_WITH_SAME_HANDLER))
             else afterFinishTransaction ev s1 h1) (\<lambda>(s2, stat).
        let s3 = s2\<lparr>pf_transactions := FsTransactionStore_removeTransaction (pf_transactions s2) tid\<rparr> in
        Some (Inr (if stat = FS_TRANSACTION_HANDLING_DONE then s3\<lparr>kf_waiter := None\<rparr>
                   else keep_handler \<lparr>fw_handler = Discovering h, fw_transactionID = tid, fw_delegate = d\<rparr> (Discovering h1) s3))))"
proof -
  obtain tid where w: "kf_waiter s = Some \<lparr>fw_handler = Discovering h, fw_transactionID = tid, fw_delegate = d\<rparr>"
      "FsTransactionStore_getStatus (pf_transactions s) tid = FS_TRANSACTION_FINISHED" "dh_status h = FS_DISCOVERY_SUCCESSFUL" "\<not> dh_allNodesDiscovered h"
    using assms by (auto simp: awaits_def)
  have h: "(case d of FsDelegateTasked t \<Rightarrow> h\<lparr>dh_status := dv_discovery (ev_driver ev t)\<rparr> | _ \<Rightarrow> h) = h"
    using kernel_delegate by (cases d) auto
  have keep: "(keep_handler w x y)\<lparr>kf_waiter := None\<rparr> = y\<lparr>kf_waiter := None\<rparr>" for w x y by (simp add: keep_handler_def)
  show ?thesis
    by (intro exI [of _ tid] conjI w(1), cases "FsTransactionHandlerDiscovery_startTransaction ev s h")
      (auto simp: check_waiting_def WaiterFsTransaction_checkWaiting_def transaction_waiting_def FsTransactionHandlerDiscovery_finishTransaction_def
        Let_def w h keep obind_def split: sum.splits option.splits prod.splits)
qed

lemma await_step:
  assumes "awaits s h suf f" and "\<nexists>c. FileSystem_findExisting (kf_vfs s) (dh_absolutePath h) = (c, Some c, [])"
  shows "\<exists>t v w h' suf'. check_waiting ev s = Some (Inr (s\<lparr>pf_transactions := t, kf_vfs := v, kf_waiter := w\<rparr>)) \<and>
    awaits (s\<lparr>pf_transactions := t, kf_vfs := v, kf_waiter := w\<rparr>) h' suf' f \<and> length suf' < length suf \<and>
    dh_kind h' = dh_kind h \<and> dh_absolutePath h' = dh_absolutePath h"
proof -
  obtain tid pre r q where a: "kf_waiter s = Some \<lparr>fw_handler = Discovering h, fw_transactionID = tid, fw_delegate = d\<rparr>"
      "hm_inv (tx_store (pf_transactions s))" "ok (kf_vfs s) (kf_rd s)" "\<not> dh_allNodesDiscovered h" "components (dh_absolutePath h) = pre @ suf"
      "\<forall>name \<in> set (pre @ suf). good_name name" "depicts (kf_vfs s) (kf_rd s) (vf_root (kf_vfs s)) r"
      "follow_entries (child (kf_rd s)) r (pre @ suf) = Some f" "resolve (kf_vfs s) pre (vf_root (kf_vfs s)) = (q, Some q, [])"
    using assms(1) by (auto simp: awaits_def)
  obtain p x where u: "resolve (kf_vfs s) (pre @ suf) (vf_root (kf_vfs s)) = (p, None, x)"
    using resolve_cases [OF a(3,6,7,8)] assms(2) a(5) by (auto simp: FileSystem_findExisting_def find_loop_resolve)
  obtain t v w h' pre' suf' tid' where st: "FsTransactionHandlerDiscovery_startTransaction ev s h =
        Some (Inr (s\<lparr>pf_transactions := t, kf_vfs := v, kf_waiter := w\<rparr>, h', FS_TRANSACTION_START_WITH_WAITER))"
      "pre @ suf = pre' @ x # suf'" "resolve (kf_vfs s) pre' (vf_root (kf_vfs s)) = (p, Some p, [])" "\<not> dh_allNodesDiscovered h'"
      "awaits (s\<lparr>pf_transactions := t, kf_vfs := v, kf_waiter := w\<rparr>) h' suf' f" "dh_kind h' = dh_kind h" "dh_absolutePath h' = dh_absolutePath h"
      "w = Some \<lparr>fw_handler = Discovering h', fw_transactionID = tid', fw_delegate = d\<rparr>" "FsNode_findChild (kf_vfs s) p x = None"
    using start_discovery [OF a(2,3,7,5,6,8,4) u, of ev] by blast
  let ?t = "FsTransactionStore_removeTransaction t tid" and ?w = "\<lparr>fw_handler = Discovering h, fw_transactionID = tid, fw_delegate = d\<rparr>"
  have "keep_handler ?w (Discovering h') (s\<lparr>pf_transactions := ?t, kf_vfs := v, kf_waiter := w\<rparr>) = s\<lparr>pf_transactions := ?t, kf_vfs := v, kf_waiter := w\<rparr>"
    using st(8) by (simp add: keep_handler_def)
  then have "check_waiting ev s = Some (Inr (s\<lparr>pf_transactions := ?t, kf_vfs := v, kf_waiter := w\<rparr>))"
    using check_awaiting [OF assms(1), of ev] a(1) st(1,4) by (auto simp: Let_def)
  moreover have "awaits (s\<lparr>pf_transactions := ?t, kf_vfs := v, kf_waiter := w\<rparr>) h' suf' f"
    using awaits_remove [OF st(5), of tid] by simp
  moreover have "length suf' < length suf"
  proof (rule ccontr)
    assume "\<not> length suf' < length suf"
    then have "length (pre' @ [x]) \<le> length pre" using arg_cong [OF st(2), of length] by simp
    then obtain zs where "pre = (pre' @ [x]) @ zs" using st(2) by (metis append_Cons append_Nil append_assoc append_eq_append_conv_if append_take_drop_id)
    moreover have "x \<noteq> ''..''" "x \<noteq> ''.''" using a(6) unfolding st(2) by (auto simp: good_name_def)
    ultimately show False using a(9) st(3,9) by (simp add: resolve_append)
  qed
  ultimately show ?thesis using st(6,7) by blast
qed

lemma await_done:
  "awaits s h suf f \<Longrightarrow> \<exists>k t v w h' suf' c. k \<le> length suf \<and> checks k ev s = Some (Inr (s\<lparr>pf_transactions := t, kf_vfs := v, kf_waiter := w\<rparr>)) \<and>
    awaits (s\<lparr>pf_transactions := t, kf_vfs := v, kf_waiter := w\<rparr>) h' suf' f \<and> dh_kind h' = dh_kind h \<and> dh_absolutePath h' = dh_absolutePath h \<and>
    FileSystem_findExisting v (dh_absolutePath h) = (c, Some c, [])"
proof (induction "length suf" arbitrary: s h suf rule: less_induct)
  case less
  show ?case
  proof (cases "\<exists>c. FileSystem_findExisting (kf_vfs s) (dh_absolutePath h) = (c, Some c, [])")
    case True
    moreover have "s\<lparr>pf_transactions := pf_transactions s, kf_vfs := kf_vfs s, kf_waiter := kf_waiter s\<rparr> = s" by simp
    ultimately show ?thesis using less.prems by (metis checks.simps(1) le0)
  next
    case False
    obtain t v w h1 suf1 where st: "check_waiting ev s = Some (Inr (s\<lparr>pf_transactions := t, kf_vfs := v, kf_waiter := w\<rparr>))"
        "awaits (s\<lparr>pf_transactions := t, kf_vfs := v, kf_waiter := w\<rparr>) h1 suf1 f" "length suf1 < length suf" "dh_kind h1 = dh_kind h"
        "dh_absolutePath h1 = dh_absolutePath h"
      using await_step [OF less.prems False, of ev] by blast
    obtain k t' v' w' h' suf' c where k: "k \<le> length suf1"
        "checks k ev (s\<lparr>pf_transactions := t, kf_vfs := v, kf_waiter := w\<rparr>) = Some (Inr (s\<lparr>pf_transactions := t', kf_vfs := v', kf_waiter := w'\<rparr>))"
        "awaits (s\<lparr>pf_transactions := t', kf_vfs := v', kf_waiter := w'\<rparr>) h' suf' f" "dh_kind h' = dh_kind h" "dh_absolutePath h' = dh_absolutePath h"
        "FileSystem_findExisting v' (dh_absolutePath h) = (c, Some c, [])"
      using less.hyps [OF st(3,2)] st(4,5) by auto
    have "checks (Suc k) ev s = Some (Inr (s\<lparr>pf_transactions := t', kf_vfs := v', kf_waiter := w'\<rparr>))" "Suc k \<le> length suf"
      using st(1,3) k(1,2) by simp_all
    then show ?thesis using k(3-6) by blast
  qed
qed

lemma found_entry:
  assumes "ok v rd" and "depicts v rd (vf_root v) r" and "components path = names" and "\<forall>name \<in> set names. good_name name"
    and "follow_entries (child rd) r names = Some f" and "FileSystem_findExisting v path = (p, Some c, x)"
  shows "p = c \<and> x = [] \<and> depicts v rd c f"
  using resolve_cases [OF assms(1,4,2,5)] assms(3,6) by (auto simp: FileSystem_findExisting_def find_loop_resolve)

lemma await_final:
  assumes "awaits s h suf f" and "FileSystem_findExisting (kf_vfs s) (dh_absolutePath h) = (c, Some c, [])"
  shows "\<exists>tid. depicts (kf_vfs s) (kf_rd s) c f \<and> check_waiting ev s =
    (let h1 = h\<lparr>dh_status := FS_DISCOVERY_SUCCESSFUL, dh_node := Some c, dh_allNodesDiscovered := True\<rparr> in
     obind (afterFinishTransaction ev s h1) (\<lambda>(s1, _).
     obind (afterFinishTransaction ev s1 h1) (\<lambda>(s2, stat).
       let s3 = s2\<lparr>pf_transactions := FsTransactionStore_removeTransaction (pf_transactions s2) tid\<rparr> in
       Some (Inr (if stat = FS_TRANSACTION_HANDLING_DONE then s3\<lparr>kf_waiter := None\<rparr>
                  else keep_handler \<lparr>fw_handler = Discovering h, fw_transactionID = tid, fw_delegate = d\<rparr> (Discovering h1) s3)))))"
proof -
  obtain pre r where a: "ok (kf_vfs s) (kf_rd s)" "depicts (kf_vfs s) (kf_rd s) (vf_root (kf_vfs s)) r" "components (dh_absolutePath h) = pre @ suf"
      "\<forall>name \<in> set (pre @ suf). good_name name" "follow_entries (child (kf_rd s)) r (pre @ suf) = Some f"
    using assms(1) by (auto simp: awaits_def)
  have dep: "depicts (kf_vfs s) (kf_rd s) c f" using found_entry [OF a assms(2)] by simp
  then have "node_delegate s c = Some (Inr (Some d))" using delegate [OF a(1)] by (simp add: node_delegate_def)
  then have "FsTransactionHandlerDiscovery_startTransaction ev s h =
      (let h1 = h\<lparr>dh_status := FS_DISCOVERY_SUCCESSFUL, dh_node := Some c, dh_allNodesDiscovered := True\<rparr> in
       obind (afterFinishTransaction ev s h1) (\<lambda>(s1, _). Some (Inr (s1, h1, FS_TRANSACTION_START_IMMEDIATE_FINISH))))"
    using assms(2) by (simp add: FsTransactionHandlerDiscovery_startTransaction_def Let_def)
  then show ?thesis using check_awaiting [OF assms(1), of ev] dep
    by (cases "afterFinishTransaction ev s (h\<lparr>dh_status := FS_DISCOVERY_SUCCESSFUL, dh_node := Some c, dh_allNodesDiscovered := True\<rparr>)")
      (auto simp: Let_def obind_def split: sum.splits prod.splits)
qed

text \<open>
  A handler started on the path of an object: if all nodes are known it goes on at once; else the
  thread waits, and after less checks than the path has names, the next one goes on, twice.
\<close>

lemma discovery_known:
  assumes "ok (kf_vfs s) (kf_rd s)" and "depicts (kf_vfs s) (kf_rd s) (vf_root (kf_vfs s)) r"
    and "components (dh_absolutePath h) = names" and "\<forall>name \<in> set names. good_name name" and "follow_entries (child (kf_rd s)) r names = Some f"
    and "FileSystem_findExisting (kf_vfs s) (dh_absolutePath h) = (c, Some c, [])"
  shows "depicts (kf_vfs s) (kf_rd s) c f \<and> FsTransactionHandlerDiscovery_startTransaction ev s h =
      (let h1 = h\<lparr>dh_status := FS_DISCOVERY_SUCCESSFUL, dh_node := Some c, dh_allNodesDiscovered := True\<rparr> in
       obind (afterFinishTransaction ev s h1) (\<lambda>(s1, _). Some (Inr (s1, h1, FS_TRANSACTION_START_IMMEDIATE_FINISH))))"
proof -
  have dep: "depicts (kf_vfs s) (kf_rd s) c f" using found_entry [OF assms] by simp
  then have "node_delegate s c = Some (Inr (Some d))" using delegate [OF assms(1)] by (simp add: node_delegate_def)
  then show ?thesis using dep assms(6) by (simp add: FsTransactionHandlerDiscovery_startTransaction_def Let_def)
qed

lemma discovery_unknown:
  assumes "hm_inv (tx_store (pf_transactions s))" and "ok (kf_vfs s) (kf_rd s)" and "depicts (kf_vfs s) (kf_rd s) (vf_root (kf_vfs s)) r"
    and "components (dh_absolutePath h) = names" and "\<forall>name \<in> set names. good_name name" and "follow_entries (child (kf_rd s)) r names = Some f"
    and "\<not> dh_allNodesDiscovered h" and "\<nexists>c. FileSystem_findExisting (kf_vfs s) (dh_absolutePath h) = (c, Some c, [])"
  shows "\<exists>s1 h1 k t v w h2 suf c. FsTransactionHandlerDiscovery_startTransaction ev s h = Some (Inr (s1, h1, FS_TRANSACTION_START_WITH_WAITER)) \<and>
    k < length names \<and> checks k ev s1 = Some (Inr (s\<lparr>pf_transactions := t, kf_vfs := v, kf_waiter := w\<rparr>)) \<and>
    awaits (s\<lparr>pf_transactions := t, kf_vfs := v, kf_waiter := w\<rparr>) h2 suf f \<and> dh_kind h2 = dh_kind h \<and> dh_absolutePath h2 = dh_absolutePath h \<and>
    FileSystem_findExisting v (dh_absolutePath h) = (c, Some c, [])"
proof -
  obtain p x where u: "resolve (kf_vfs s) names (vf_root (kf_vfs s)) = (p, None, x)"
    using resolve_cases [OF assms(2,5,3,6)] assms(4,8) by (auto simp: FileSystem_findExisting_def find_loop_resolve)
  obtain t v w h1 pre suf where st: "FsTransactionHandlerDiscovery_startTransaction ev s h =
        Some (Inr (s\<lparr>pf_transactions := t, kf_vfs := v, kf_waiter := w\<rparr>, h1, FS_TRANSACTION_START_WITH_WAITER))" "names = pre @ x # suf"
      "awaits (s\<lparr>pf_transactions := t, kf_vfs := v, kf_waiter := w\<rparr>) h1 suf f" "dh_kind h1 = dh_kind h" "dh_absolutePath h1 = dh_absolutePath h"
    using start_discovery [OF assms(1-7) u, of ev] by blast
  obtain k t' v' w' h2 suf' c where k: "k \<le> length suf"
      "checks k ev (s\<lparr>pf_transactions := t, kf_vfs := v, kf_waiter := w\<rparr>) = Some (Inr (s\<lparr>pf_transactions := t', kf_vfs := v', kf_waiter := w'\<rparr>))"
      "awaits (s\<lparr>pf_transactions := t', kf_vfs := v', kf_waiter := w'\<rparr>) h2 suf' f" "dh_kind h2 = dh_kind h" "dh_absolutePath h2 = dh_absolutePath h"
      "FileSystem_findExisting v' (dh_absolutePath h) = (c, Some c, [])"
    using await_done [OF st(3), of ev] st(4,5) by auto
  have "k < length names" using k(1) st(2) by simp
  then show ?thesis using st(1) k(2-6) by blast
qed

end

section \<open>The ramdisk keeps the contract\<close>

definition rd_ok :: "ramdisk \<Rightarrow> bool" where
  "rd_ok rd \<longleftrightarrow> names_ok rd \<and> (\<exists>r. rd_root rd = Some r \<and> re_id (rd_objects rd ! r) = 0 \<and> re_type (rd_objects rd ! r) \<noteq> RAMDISK_ENTRY_TYPE_FILE) \<and>
     (\<forall>i \<in> set (rd_first rd). i < length (rd_objects rd) \<and> re_id (rd_objects rd ! i) \<noteq> 0 \<and>
       (\<forall>j \<in> set (rd_first rd). re_id (rd_objects rd ! i) = re_id (rd_objects rd ! j) \<longrightarrow> i = j))"

text \<open>A node stands for an entry; below the root the name of the mount points hides an entry.\<close>

definition depicted :: "vfs \<Rightarrow> ramdisk \<Rightarrow> nat \<Rightarrow> nat \<Rightarrow> bool" where
  "depicted v rd n e \<longleftrightarrow> n < length (vf_nodes v) \<and> FsNode_getDelegate v n = Some (Some FsDelegateRamdisk) \<and>
     ucast (fn_physFsID (vf_nodes v ! n)) = re_id (rd_objects rd ! e) \<and> Ramdisk_findById rd (re_id (rd_objects rd ! e)) = Some e \<and>
     (fn_type (vf_nodes v ! n) = FS_NODE_TYPE_MOUNTPOINT \<longrightarrow> rd_root rd = Some e) \<and>
     (re_type (rd_objects rd ! e) = RAMDISK_ENTRY_TYPE_FILE \<longrightarrow> fn_type (vf_nodes v ! n) = FS_NODE_TYPE_FILE)"

definition entry_child :: "ramdisk \<Rightarrow> nat \<Rightarrow> string \<Rightarrow> nat option" where
  "entry_child rd e x =
     (if rd_root rd = Some e \<and> x = ''mount'' then None
      else List.find (child_named (rd_objects rd) (re_id (rd_objects rd ! e)) x) (rd_first rd))"

definition tree_ok :: "vfs \<Rightarrow> ramdisk \<Rightarrow> bool" where
  "tree_ok v rd \<longleftrightarrow> vfs_ok v \<and> rd_ok rd \<and>
     (\<forall>n e x e' c. depicted v rd n e \<longrightarrow> entry_child rd e x = Some e' \<longrightarrow> FsNode_findChild v n x = Some c \<longrightarrow> depicted v rd c e')"

lemma tree_okD:
  "tree_ok v rd \<Longrightarrow> vfs_ok v" "tree_ok v rd \<Longrightarrow> rd_ok rd"
  "tree_ok v rd \<Longrightarrow> depicted v rd n e \<Longrightarrow> entry_child rd e x = Some e' \<Longrightarrow> FsNode_findChild v n x = Some c \<Longrightarrow> depicted v rd c e'"
  unfolding tree_ok_def by blast+

lemma depictedD:
  "depicted v rd n e \<Longrightarrow> n < length (vf_nodes v)" "depicted v rd n e \<Longrightarrow> FsNode_getDelegate v n = Some (Some FsDelegateRamdisk)"
  unfolding depicted_def by blast+

lemma find_by_id_find: "find_by_id_loop objects is i = List.find (\<lambda>e. re_id (objects ! e) = i) is"
  by (induction "is") auto

lemma findById_entry:
  assumes "rd_ok rd" and "i \<in> set (rd_first rd)"
  shows "Ramdisk_findById rd (re_id (rd_objects rd ! i)) = Some i"
proof -
  have "\<exists>j. List.find (\<lambda>e. re_id (rd_objects rd ! e) = re_id (rd_objects rd ! i)) (rd_first rd) = Some j"
    using assms(2) by (cases "List.find (\<lambda>e. re_id (rd_objects rd ! e) = re_id (rd_objects rd ! i)) (rd_first rd)") (auto simp: find_None_iff)
  then obtain j where j: "List.find (\<lambda>e. re_id (rd_objects rd ! e) = re_id (rd_objects rd ! i)) (rd_first rd) = Some j" by blast
  then have "j \<in> set (rd_first rd)" "re_id (rd_objects rd ! j) = re_id (rd_objects rd ! i)" by (auto simp: find_Some_iff)
  then have "j = i" using assms by (simp add: rd_ok_def)
  then show ?thesis using j assms by (simp add: Ramdisk_findById_def find_by_id_find rd_ok_def)
qed

lemma entry_child_spec:
  assumes "rd_ok rd" and "entry_child rd e x = Some e'"
  shows "e' \<in> set (rd_first rd)" "re_name (rd_objects rd ! e') = x @ [NUL]" "NUL \<notin> set x"
    and "Ramdisk_findChild rd (Some e) (x @ [NUL]) = Inr (Some e')"
proof -
  have f: "List.find (child_named (rd_objects rd) (re_id (rd_objects rd ! e)) x) (rd_first rd) = Some e'"
    using assms(2) by (auto simp: entry_child_def split: if_splits)
  then show e': "e' \<in> set (rd_first rd)" "re_name (rd_objects rd ! e') = x @ [NUL]" by (auto simp: find_Some_iff child_named_def)
  then show x: "NUL \<notin> set x" using assms(1) by (auto simp: rd_ok_def names_ok_def)
  have "rd_first rd \<noteq> []" using e'(1) by auto
  then show "Ramdisk_findChild rd (Some e) (x @ [NUL]) = Inr (Some e')"
    using findChild_spec [of rd x "Some e" "[]"] assms(1) x f by (simp add: rd_ok_def)
qed

lemma createVfsNode_attach:
  assumes "vfs_ok v" and "p < length (vf_nodes v)" and "re_name (rd_entry_at rd rn) = x @ [NUL]" and "NUL \<notin> set x"
  shows "FsDelegateRamdisk_createVfsNode v rd rn p =
    Inr (attach p (FsNode_new\<lparr>fn_physFsID := ucast (re_id (rd_entry_at rd rn)),
        fn_type := if re_type (rd_entry_at rd rn) = RAMDISK_ENTRY_TYPE_FILE then FS_NODE_TYPE_FILE else FS_NODE_TYPE_FOLDER, fn_name := Some x\<rparr>) v,
      length (vf_nodes v))"
proof -
  have c: "FileSystem_createNode v = (fst (FileSystem_createNode v), length (vf_nodes v))" by (simp add: FileSystem_createNode_def Let_def)
  have l: "String_length (re_name (rd_entry_at rd rn)) = Inr (length x)" using length_string [OF assms(4), of "[]"] assms(3) by simp
  show ?thesis unfolding FsDelegateRamdisk_createVfsNode_def Let_def l kbind_simps
    by (subst c) (simp add: l assms(3) add_node_attach [OF assms(2)], simp add: attach_def FsNode_new_def)
qed

lemma getDelegate_attach:
  assumes ok: "vfs_ok v" and p: "p < length (vf_nodes v)"
  shows "m < length (vf_nodes v) \<Longrightarrow> FsNode_getDelegate (attach p node v) m = FsNode_getDelegate v m"
    and "fn_delegate node = None \<Longrightarrow> FsNode_getDelegate (attach p node v) (length (vf_nodes v)) = FsNode_getDelegate v p"
proof -
  note a = attach_nodes [OF p, where node = node]
  show old: "FsNode_getDelegate (attach p node v) m = FsNode_getDelegate v m" if "m < length (vf_nodes v)" for m
    using that
  proof (induction m rule: less_induct)
    case (less m)
    have "fn_delegate (vf_nodes (attach p node v) ! m) = fn_delegate (vf_nodes v ! m)" "fn_parent (vf_nodes (attach p node v) ! m) = fn_parent (vf_nodes v ! m)"
      using a(3) [OF less.prems] by auto
    moreover have "q < m" if "fn_parent (vf_nodes v ! m) = Some q" for q using ok less.prems that by (auto simp: vfs_ok_def)
    ultimately show ?case using less.IH less.prems
      by (subst (1 2) FsNode_getDelegate.simps) (auto split: option.splits intro: less_trans)
  qed
  show "FsNode_getDelegate (attach p node v) (length (vf_nodes v)) = FsNode_getDelegate v p" if "fn_delegate node = None"
    using that a(2) old [OF p] by (subst FsNode_getDelegate.simps) simp
qed

lemma depicted_attach:
  assumes "vfs_ok v" and "p < length (vf_nodes v)" and "m < length (vf_nodes v)"
  shows "depicted (attach p node v) rd m e \<longleftrightarrow> depicted v rd m e"
proof -
  have f: "fn_physFsID (vf_nodes (attach p node v) ! m) = fn_physFsID (vf_nodes v ! m)" "fn_type (vf_nodes (attach p node v) ! m) = fn_type (vf_nodes v ! m)"
    unfolding attach_nodes(3) [OF assms(2,3), of node] by simp_all
  show ?thesis unfolding depicted_def f attach_nodes(1) [OF assms(2)] getDelegate_attach(1) [OF assms] by (simp only: assms(3) less_SucI simp_thms)
qed

lemma depicted_unique: "depicted v rd n e \<Longrightarrow> depicted v rd n e' \<Longrightarrow> e = e'"
  by (auto simp: depicted_def)

lemma ucast_u32_u64: "(ucast (ucast (w :: u32) :: u64) :: u32) = w"
  by (rule bit_word_eqI) (simp add: bit_simps)

lemma attach_entry:
  assumes ok: "tree_ok v rd" and dep: "depicted v rd p e" and c: "entry_child rd e x = Some e'" and fresh: "FsNode_findChild v p x = None"
  defines "node \<equiv> FsNode_new\<lparr>fn_physFsID := ucast (re_id (rd_entry_at rd e')),
        fn_type := if re_type (rd_entry_at rd e') = RAMDISK_ENTRY_TYPE_FILE then FS_NODE_TYPE_FILE else FS_NODE_TYPE_FOLDER, fn_name := Some x\<rparr>"
  shows "tree_ok (attach p node v) rd" and "depicted (attach p node v) rd (length (vf_nodes v)) e'"
proof -
  note v = tree_okD(1) [OF ok] and rd = tree_okD(2) [OF ok] and p = depictedD(1) [OF dep]
  note a = attach_nodes [OF p, where node = node] and e' = entry_child_spec [OF rd c]
  show new: "depicted (attach p node v) rd (length (vf_nodes v)) e'"
  proof -
    have "FsNode_getDelegate (attach p node v) (length (vf_nodes v)) = Some (Some FsDelegateRamdisk)"
      using getDelegate_attach(2) [OF v p, of node] depictedD(2) [OF dep] by (simp add: node_def FsNode_new_def)
    then show ?thesis unfolding depicted_def a(1,2) using findById_entry [OF rd e'(1)] by (simp add: node_def rd_entry_at_def ucast_u32_u64)
  qed
  have "depicted (attach p node v) rd m o''"
    if h: "depicted (attach p node v) rd n o'" "entry_child rd o' y = Some o''" "FsNode_findChild (attach p node v) n y = Some m" for n o' y o'' m
  proof (cases "n = length (vf_nodes v)")
    case True
    then show ?thesis using h(3) a(2) by (simp add: FsNode_findChild_def)
  next
    case False
    then have n: "n < length (vf_nodes v)" using h(1) a(1) by (simp add: depicted_def)
    have old: "depicted v rd n o'" using h(1) depicted_attach [OF v p n] by simp
    show ?thesis
    proof (cases "n = p \<and> y = x")
      case True
      then have "o'' = e'" "m = length (vf_nodes v)"
        using h(2,3) c depicted_unique [OF old, of e] dep findChild_attach [OF v p n, of node y] by (auto simp: node_def)
      then show ?thesis using new by simp
    next
      case False
      then have "FsNode_findChild v n y = Some m" using h(3) findChild_attach [OF v p n, of node y] by (auto simp: node_def split: if_splits)
      moreover from this have "m < length (vf_nodes v)"
        using find_child_name [of "vf_nodes v" "fn_children (vf_nodes v ! n)" y m] v n by (auto simp: FsNode_findChild_def vfs_ok_def)
      ultimately show ?thesis using tree_okD(3) [OF ok old h(2)] depicted_attach [OF v p] by blast
    qed
  qed
  then show "tree_ok (attach p node v) rd" using attach_ok [OF v p, of node] rd unfolding tree_ok_def by blast
qed

lemma ramdisk_request:
  assumes tx: "hm_inv (tx_store (pf_transactions s))" and ok: "tree_ok (kf_vfs s) (kf_rd s)" and dep: "depicted (kf_vfs s) (kf_rd s) n e"
    and c: "entry_child (kf_rd s) e x = Some e'" and fresh: "FsNode_findChild (kf_vfs s) n x = None"
  shows "\<exists>t v tid c. request_discovery s FsDelegateRamdisk n x st = Inr (s\<lparr>pf_transactions := t, kf_vfs := v\<rparr>, FS_DISCOVERY_SUCCESSFUL, tid) \<and>
    hm_inv (tx_store t) \<and> FsTransactionStore_getStatus t tid = FS_TRANSACTION_FINISHED \<and>
    tree_ok v (kf_rd s) \<and> depicted v (kf_rd s) c e' \<and> FsNode_findChild v n x = Some c \<and> vf_root v = vf_root (kf_vfs s) \<and>
    (\<forall>m o'. depicted (kf_vfs s) (kf_rd s) m o' \<longrightarrow> depicted v (kf_rd s) m o' \<and>
      (\<forall>y z. FsNode_findChild (kf_vfs s) m y = Some z \<longrightarrow> FsNode_findChild v m y = Some z))"
proof -
  let ?v = "kf_vfs s" and ?rd = "kf_rd s"
  note v = tree_okD(1) [OF ok] and rd = tree_okD(2) [OF ok] and n = depictedD(1) [OF dep]
  note e' = entry_child_spec [OF rd c]
  define node where "node = FsNode_new\<lparr>fn_physFsID := ucast (re_id (rd_entry_at ?rd e')),
        fn_type := if re_type (rd_entry_at ?rd e') = RAMDISK_ENTRY_TYPE_FILE then FS_NODE_TYPE_FILE else FS_NODE_TYPE_FOLDER, fn_name := Some x\<rparr>"
  let ?t = "FsTransactionStore_setStatus (fst (FsTransactionStore_nextTransaction (pf_transactions s))) (snd (FsTransactionStore_nextTransaction (pf_transactions s))) FS_TRANSACTION_FINISHED"
  have parent: "(if fn_type (vf_nodes ?v ! n) = FS_NODE_TYPE_MOUNTPOINT then Ramdisk_getRoot ?rd
      else Ramdisk_findById ?rd (ucast (fn_physFsID (vf_nodes ?v ! n)))) = Some e"
    using dep by (simp add: depicted_def Ramdisk_getRoot_def)
  have create: "FsDelegateRamdisk_createVfsNode ?v ?rd e' n = Inr (attach n node ?v, length (vf_nodes ?v))"
    unfolding node_def by (rule createVfsNode_attach [OF v n _ e'(3)]) (simp add: rd_entry_at_def e'(2))
  have "request_discovery s FsDelegateRamdisk n x st =
      Inr (s\<lparr>pf_transactions := ?t, kf_vfs := attach n node ?v\<rparr>, FS_DISCOVERY_SUCCESSFUL, snd (FsTransactionStore_nextTransaction (pf_transactions s)))"
    using parent e'(4) create
    by (cases "FsTransactionStore_nextTransaction (pf_transactions s)"; cases "fn_type (vf_nodes ?v ! n) = FS_NODE_TYPE_MOUNTPOINT")
      (simp_all add: request_discovery_def FsDelegateRamdisk_requestDiscovery_def disk_of_def put_disk_def finish_request_def Let_def)
  moreover have "hm_inv (tx_store ?t)" "FsTransactionStore_getStatus ?t (snd (FsTransactionStore_nextTransaction (pf_transactions s))) = FS_TRANSACTION_FINISHED"
    using tx by (simp_all add: FsTransactionStore_setStatus_def FsTransactionStore_getStatus_def FsTransactionStore_nextTransaction_def hm_laws)
  moreover have "tree_ok (attach n node ?v) ?rd" "depicted (attach n node ?v) ?rd (length (vf_nodes ?v)) e'"
    unfolding node_def by (rule attach_entry [OF ok dep c fresh])+
  moreover have "FsNode_findChild (attach n node ?v) n x = Some (length (vf_nodes ?v))" using findChild_attach [OF v n n, of node x] by (simp add: node_def)
  moreover have "depicted (attach n node ?v) ?rd m o' \<and> (\<forall>y z. FsNode_findChild ?v m y = Some z \<longrightarrow> FsNode_findChild (attach n node ?v) m y = Some z)"
    if "depicted ?v ?rd m o'" for m o'
  proof -
    have m: "m < length (vf_nodes ?v)" using depictedD(1) [OF that] .
    have "FsNode_findChild (attach n node ?v) m y = Some z" if "FsNode_findChild ?v m y = Some z" for y z
      using that findChild_attach [OF v n m, of node y] fresh by (auto simp: node_def)
    then show ?thesis using that depicted_attach [OF v n m] by blast
  qed
  ultimately show ?thesis using attach_nodes(4) [OF n, of node] by blast
qed

interpretation rp: discovering FsDelegateRamdisk tree_ok depicted entry_child
  by unfold_locales (simp, blast intro: depictedD(2), blast intro: tree_okD(3), blast intro: ramdisk_request)

section \<open>Opening a file that is there\<close>

text \<open>Truncating a file changes its data only.\<close>

definition same_entries :: "ramdisk \<Rightarrow> ramdisk \<Rightarrow> bool" where
  "same_entries rd rd' \<longleftrightarrow> rd_first rd' = rd_first rd \<and> rd_root rd' = rd_root rd \<and> length (rd_objects rd') = length (rd_objects rd) \<and>
     (\<forall>i. re_id (rd_objects rd' ! i) = re_id (rd_objects rd ! i) \<and> re_parentid (rd_objects rd' ! i) = re_parentid (rd_objects rd ! i) \<and>
       re_name (rd_objects rd' ! i) = re_name (rd_objects rd ! i) \<and> re_type (rd_objects rd' ! i) = re_type (rd_objects rd ! i))"

lemma same_entries_cong:
  assumes "same_entries rd rd'"
  shows "depicted v rd' = depicted v rd" "entry_child rd' = entry_child rd" "tree_ok v rd' = tree_ok v rd"
proof -
  have o: "re_id (rd_objects rd' ! i) = re_id (rd_objects rd ! i)" "re_parentid (rd_objects rd' ! i) = re_parentid (rd_objects rd ! i)"
      "re_name (rd_objects rd' ! i) = re_name (rd_objects rd ! i)" "re_type (rd_objects rd' ! i) = re_type (rd_objects rd ! i)" for i
    using assms by (simp_all add: same_entries_def)
  have l: "rd_first rd' = rd_first rd" "rd_root rd' = rd_root rd" "length (rd_objects rd') = length (rd_objects rd)" using assms by (simp_all add: same_entries_def)
  have id: "Ramdisk_findById rd' i = Ramdisk_findById rd i" for i by (simp add: Ramdisk_findById_def find_by_id_find l o)
  show d: "depicted v rd' = depicted v rd" by (intro ext) (simp only: depicted_def id o l)
  have "child_named (rd_objects rd') p x = child_named (rd_objects rd) p x" for p x by (intro ext) (simp only: child_named_def o)
  then show c: "entry_child rd' = entry_child rd" by (intro ext) (simp only: entry_child_def o l)
  have "rd_ok rd' = rd_ok rd" by (simp only: rd_ok_def names_ok_def o l)
  then show "tree_ok v rd' = tree_ok v rd" by (simp only: tree_ok_def d c)
qed

lemma same_entries_refl [simp]: "same_entries rd rd"
  by (simp add: same_entries_def)

lemma same_entries_trans: "same_entries rd rd' \<Longrightarrow> same_entries rd' rd'' \<Longrightarrow> same_entries rd rd''"
  by (simp add: same_entries_def)

lemma same_entries_put:
  assumes "re_id e = re_id (rd_entry_at rd p)" and "re_parentid e = re_parentid (rd_entry_at rd p)" and "re_name e = re_name (rd_entry_at rd p)"
    and "re_type e = re_type (rd_entry_at rd p)"
  shows "same_entries rd (rd_put rd p e)"
proof -
  have "(rd_objects rd)[p := e] ! i = (if i = p \<and> p < length (rd_objects rd) then e else rd_objects rd ! i)" for i
    by (auto simp: nth_list_update list_update_beyond)
  then show ?thesis using assms by (auto simp: same_entries_def rd_put_def rd_entry_at_def)
qed

lemma files_put [simp]: "files_of (put_files f s) = f" "fy_contents (files_of s) = kf_contents s" "fy_vfs (files_of s) = kf_vfs s"
  by (simp_all add: files_of_def put_files_def)

text \<open>What a successful open leaves behind: one more descriptor for the node.\<close>

definition opened :: "kfs \<Rightarrow> nat \<Rightarrow> kfs \<Rightarrow> bool" where
  "opened s n s' \<longleftrightarrow> (let fd = next_fd (files_of s) (kf_pid s); pid = kf_pid s in
     hm_inv (tx_store (pf_transactions s')) \<and> kf_vfs s' = kf_vfs s \<and> same_entries (kf_rd s) (kf_rd s') \<and> fd_ok (files_of s') \<and>
     lookup (files_of s') = (lookup (files_of s))(pid := (lookup (files_of s) pid)(fd \<mapsto> length (kf_contents s))) \<and>
     next_fd (files_of s') = (next_fd (files_of s))(pid := fd + 1) \<and>
     kf_contents s' = kf_contents s @ [Some \<lparr>fd_id = fd, fd_offset = 0, fd_nodeID = fn_id (vf_nodes (kf_vfs s) ! n), fd_openFlags = fo_flags (kf_open s)\<rparr>] \<and>
     kf_open s' = (kf_open s)\<lparr>fo_open_status := FS_OPEN_SUCCESSFUL, fo_open_fd := fd\<rparr> \<and> kf_pid s' = pid \<and> kf_waiter s' = kf_waiter s)"

lemma requestOpen_file:
  assumes "Ramdisk_findById (kf_rd s) (ucast (fn_physFsID (vf_nodes (kf_vfs s) ! oh_node h))) = Some e" and "re_type (rd_entry_at (kf_rd s) e) = RAMDISK_ENTRY_TYPE_FILE"
    and "oh_discoveryStatus h = FS_DISCOVERY_SUCCESSFUL" and "hm_inv (tx_store (pf_transactions s))"
  shows "\<exists>t rd tid. request_open ev s FsDelegateRamdisk h = Inr (s\<lparr>pf_transactions := t, kf_rd := rd\<rparr>, h\<lparr>oh_status := FS_OPEN_SUCCESSFUL\<rparr>, tid) \<and>
    hm_inv (tx_store t) \<and> FsTransactionStore_getStatus t tid = FS_TRANSACTION_FINISHED \<and> same_entries (kf_rd s) rd"
proof -
  obtain t tid where n: "FsTransactionStore_nextTransaction (pf_transactions s) = (t, tid)" by fastforce
  let ?e = "rd_entry_at (kf_rd s) e" and ?t = "FsTransactionStore_setStatus t tid FS_TRANSACTION_FINISHED"
  let ?rd = "if fo_flags (kf_open s) AND FILE_FLAG_MODE_TRUNCATE \<noteq> 0 \<and> \<not> re_dataOnRamdisk ?e
    then rd_put (kf_rd s) e (?e\<lparr>re_datalength := 0, re_notOnRdBufferLength := 0, re_data := NoData\<rparr>) else kf_rd s"
  have "request_open ev s FsDelegateRamdisk h = Inr (s\<lparr>pf_transactions := ?t, kf_rd := ?rd\<rparr>, h\<lparr>oh_status := FS_OPEN_SUCCESSFUL\<rparr>, tid)"
    using assms(1-3) n by (simp add: request_open_def FsDelegateRamdisk_requestOpen_def disk_of_def put_disk_def finish_request_def Let_def)
  moreover have "same_entries (kf_rd s) ?rd" by (simp add: same_entries_put)
  moreover have "tx_store t = tx_store (pf_transactions s)" using n by (auto simp: FsTransactionStore_nextTransaction_def)
  then have "hm_inv (tx_store ?t)" "FsTransactionStore_getStatus ?t tid = FS_TRANSACTION_FINISHED"
    using assms(4) by (simp_all add: FsTransactionStore_setStatus_def FsTransactionStore_getStatus_def hm_laws)
  ultimately show ?thesis by blast
qed

lemma open_file:
  assumes ok: "fd_ok (files_of s)" and tx: "hm_inv (tx_store (pf_transactions s))" and dep: "depicted (kf_vfs s) (kf_rd s) (oh_node h) e"
    and ft: "re_type (rd_objects (kf_rd s) ! e) = RAMDISK_ENTRY_TYPE_FILE" and st: "oh_discoveryStatus h = FS_DISCOVERY_SUCCESSFUL"
  shows "\<exists>s' h'. FsTransactionHandlerOpen_startTransaction ev s h = Some (Inr (s', h', FS_TRANSACTION_START_IMMEDIATE_FINISH)) \<and> opened s (oh_node h) s'"
proof -
  let ?n = "oh_node h" and ?pid = "kf_pid s" and ?fd = "next_fd (files_of s) (kf_pid s)" and ?h = "h\<lparr>oh_status := FS_OPEN_SUCCESSFUL\<rparr>"
  have d: "node_delegate s ?n = Some (Inr (Some FsDelegateRamdisk))" using depictedD(2) [OF dep] by (simp add: node_delegate_def)
  have type: "fn_type (vf_nodes (kf_vfs s) ! ?n) = FS_NODE_TYPE_FILE" and e: "Ramdisk_findById (kf_rd s) (ucast (fn_physFsID (vf_nodes (kf_vfs s) ! ?n))) = Some e"
    using dep ft unfolding depicted_def by simp_all
  obtain t rd tid where r: "request_open ev s FsDelegateRamdisk h = Inr (s\<lparr>pf_transactions := t, kf_rd := rd\<rparr>, ?h, tid)"
      "hm_inv (tx_store t)" "FsTransactionStore_getStatus t tid = FS_TRANSACTION_FINISHED" "same_entries (kf_rd s) rd"
    using requestOpen_file [OF e _ st tx, of ev] ft by (auto simp: rd_entry_at_def)
  obtain f where f: "FileSystem_mapFile (files_of s) ?pid ?n (fo_flags (kf_open s)) (- 1) = Inr (f, ?fd)" "fd_ok f"
      "lookup f = (lookup (files_of s))(?pid := (lookup (files_of s) ?pid)(?fd \<mapsto> length (kf_contents s)))"
      "next_fd f = (next_fd (files_of s))(?pid := ?fd + 1)" "fy_vfs f = kf_vfs s" "fy_pipes f = kf_pipes s"
      "fy_contents f = kf_contents s @ [Some \<lparr>fd_id = ?fd, fd_offset = 0, fd_nodeID = fn_id (vf_nodes (kf_vfs s) ! ?n), fd_openFlags = fo_flags (kf_open s)\<rparr>]"
    using map_spec [OF ok, of ?pid "fn_id (vf_nodes (kf_vfs s) ! ?n)" "- 1" "fo_flags (kf_open s)"] type
    by (auto simp: FileSystem_mapFile_def files_of_def Let_def)
  let ?t = "FsTransactionStore_removeTransaction t tid"
  let ?s = "(put_files f (s\<lparr>pf_transactions := ?t, kf_rd := rd\<rparr>))\<lparr>kf_open := (kf_open s)\<lparr>fo_open_status := FS_OPEN_SUCCESSFUL, fo_open_fd := ?fd\<rparr>\<rparr>"
  have files: "files_of (s\<lparr>pf_transactions := t, kf_rd := rd, kf_open := o'\<rparr>) = files_of s" for o' by (simp add: files_of_def)
  have "FsTransactionHandlerOpen_finishTransaction ev FsDelegateRamdisk (s\<lparr>pf_transactions := t, kf_rd := rd\<rparr>) ?h =
      Some (Inr ((put_files f (s\<lparr>pf_transactions := t, kf_rd := rd\<rparr>))\<lparr>kf_open := (kf_open s)\<lparr>fo_open_status := FS_OPEN_SUCCESSFUL, fo_open_fd := ?fd\<rparr>\<rparr>, ?h, FS_TRANSACTION_HANDLING_DONE))"
    using f(1) by (simp add: FsTransactionHandlerOpen_finishTransaction_def files Let_def put_files_def)
  then have "FsTransactionHandlerOpen_startTransaction ev s h = Some (Inr (?s, ?h, FS_TRANSACTION_START_IMMEDIATE_FINISH))"
    using d r(1,3) by (subst FsTransactionHandlerOpen_startTransaction.simps) (simp add: transaction_waiting_def put_files_def)
  moreover have "files_of ?s = f" using f(5) by (cases f) (simp add: files_of_def put_files_def)
  then have "opened s ?n ?s" using f r(2,4) removed_transaction(1) [OF r(2), of tid] by (simp add: opened_def Let_def put_files_def)
  ultimately show ?thesis by blast
qed

lemma after_discovery_open:
  assumes "fd_ok (files_of s)" and "hm_inv (tx_store (pf_transactions s))" and "depicted (kf_vfs s) (kf_rd s) n e"
    and "re_type (rd_objects (kf_rd s) ! e) = RAMDISK_ENTRY_TYPE_FILE"
    and "dh_kind h = DiscoveryOpen" and "dh_status h = FS_DISCOVERY_SUCCESSFUL" and "dh_node h = Some n"
  shows "\<exists>s'. afterFinishTransaction ev s h = Some (Inr (s', FS_TRANSACTION_HANDLING_DONE)) \<and> opened s n s'"
proof -
  let ?o = "\<lparr>oh_discoveryStatus = FS_DISCOVERY_SUCCESSFUL, oh_node = n, oh_status = FS_OPEN_ERROR\<rparr>"
  obtain s' h' where "FsTransactionHandlerOpen_startTransaction ev s ?o = Some (Inr (s', h', FS_TRANSACTION_START_IMMEDIATE_FINISH))" "opened s n s'"
    using open_file [of s ?o e ev] assms(1-4) by auto
  then show ?thesis using assms(5-7) by (simp add: afterFinishTransaction_def FsTransactionHandlerDiscoveryOpen_afterFinishTransaction_def)
qed

lemma tables_vfs [simp]:
  "lookup (f\<lparr>fy_vfs := v\<rparr>) = lookup f" "next_fd (f\<lparr>fy_vfs := v\<rparr>) = next_fd f"
  by (simp_all add: fun_eq_iff lookup_def next_fd_def table_of_def split: option.splits)

lemma files_waiting [simp]:
  "lookup (files_of (s\<lparr>pf_transactions := t, kf_vfs := v, kf_waiter := w\<rparr>)) = lookup (files_of s)"
  "next_fd (files_of (s\<lparr>pf_transactions := t, kf_vfs := v, kf_waiter := w\<rparr>)) = next_fd (files_of s)"
  "fd_ok (files_of (s\<lparr>pf_transactions := t, kf_vfs := v, kf_waiter := w\<rparr>)) = fd_ok (files_of s)"
proof -
  have "files_of (s\<lparr>pf_transactions := t, kf_vfs := v, kf_waiter := w\<rparr>) = (files_of s)\<lparr>fy_vfs := v\<rparr>" by (simp add: files_of_def)
  then show "lookup (files_of (s\<lparr>pf_transactions := t, kf_vfs := v, kf_waiter := w\<rparr>)) = lookup (files_of s)"
    "next_fd (files_of (s\<lparr>pf_transactions := t, kf_vfs := v, kf_waiter := w\<rparr>)) = next_fd (files_of s)"
    "fd_ok (files_of (s\<lparr>pf_transactions := t, kf_vfs := v, kf_waiter := w\<rparr>)) = fd_ok (files_of s)"
    by (simp_all add: fd_ok_def)
qed

lemma opened_last:
  assumes "opened s n s'" and "kf_vfs s' = v"
  shows "fd_abs (files_of s') (kf_pid s) (fo_open_fd (kf_open s')) =
    Some \<lparr>fd_id = fo_open_fd (kf_open s'), fd_offset = 0, fd_nodeID = fn_id (vf_nodes v ! n), fd_openFlags = fo_flags (kf_open s)\<rparr>"
  using assms by (simp add: opened_def Let_def fd_abs_def nth_append)

text \<open>The last check of a thread that waits for the discovery of a file opens the file twice.\<close>

lemma await_open:
  assumes aw: "rp.awaits s h suf e" and kind: "dh_kind h = DiscoveryOpen" and found: "FileSystem_findExisting (kf_vfs s) (dh_absolutePath h) = (c, Some c, [])"
    and fd: "fd_ok (files_of s)" and ft: "re_type (rd_objects (kf_rd s) ! e) = RAMDISK_ENTRY_TYPE_FILE"
  shows "\<exists>s1 s2 t. check_waiting ev s = Some (Inr (s2\<lparr>pf_transactions := t, kf_waiter := None\<rparr>)) \<and> hm_inv (tx_store t) \<and>
    opened s c s1 \<and> opened s1 c s2 \<and> depicted (kf_vfs s) (kf_rd s) c e"
proof -
  let ?h = "h\<lparr>dh_status := FS_DISCOVERY_SUCCESSFUL, dh_node := Some c, dh_allNodesDiscovered := True\<rparr>"
  obtain tid where tid: "depicted (kf_vfs s) (kf_rd s) c e" "check_waiting ev s =
      obind (afterFinishTransaction ev s ?h) (\<lambda>(s1, _).
      obind (afterFinishTransaction ev s1 ?h) (\<lambda>(s2, stat).
        let s3 = s2\<lparr>pf_transactions := FsTransactionStore_removeTransaction (pf_transactions s2) tid\<rparr> in
        Some (Inr (if stat = FS_TRANSACTION_HANDLING_DONE then s3\<lparr>kf_waiter := None\<rparr>
                   else keep_handler \<lparr>fw_handler = Discovering h, fw_transactionID = tid, fw_delegate = FsDelegateRamdisk\<rparr> (Discovering ?h) s3))))"
    using rp.await_final [OF aw found, of ev] by (auto simp: Let_def)
  have tx: "hm_inv (tx_store (pf_transactions s))" using aw by (auto simp: rp.awaits_def)
  obtain s1 where s1: "afterFinishTransaction ev s ?h = Some (Inr (s1, FS_TRANSACTION_HANDLING_DONE))" "opened s c s1"
    using after_discovery_open [OF fd tx tid(1) ft, of ?h ev] kind by auto
  have o1: "fd_ok (files_of s1)" "hm_inv (tx_store (pf_transactions s1))" "kf_vfs s1 = kf_vfs s" "same_entries (kf_rd s) (kf_rd s1)"
    using s1(2) by (auto simp: opened_def Let_def)
  have "re_type (rd_objects (kf_rd s1) ! e) = RAMDISK_ENTRY_TYPE_FILE" using o1(4) ft by (simp add: same_entries_def)
  moreover have "depicted (kf_vfs s1) (kf_rd s1) c e" using tid(1) o1(3,4) by (simp add: same_entries_cong)
  ultimately obtain s2 where s2: "afterFinishTransaction ev s1 ?h = Some (Inr (s2, FS_TRANSACTION_HANDLING_DONE))" "opened s1 c s2"
    using after_discovery_open [of s1 c e ?h ev] o1(1,2) kind by auto
  have "hm_inv (tx_store (FsTransactionStore_removeTransaction (pf_transactions s2) tid))"
    by (rule removed_transaction(1)) (use s2(2) in \<open>simp add: opened_def Let_def\<close>)
  moreover have "check_waiting ev s = Some (Inr (s2\<lparr>pf_transactions := FsTransactionStore_removeTransaction (pf_transactions s2) tid, kf_waiter := None\<rparr>))"
    using tid(2) s1(1) s2(1) by simp
  ultimately show ?thesis using s1(2) s2(2) tid(1) by blast
qed

lemma opened_twice:
  assumes "opened s c s1" and "opened s1 c s2"
  shows "kf_vfs s2 = kf_vfs s" "same_entries (kf_rd s) (kf_rd s2)" "fd_ok (files_of s2)" "fo_open_status (kf_open s2) = FS_OPEN_SUCCESSFUL"
    and "next_fd (files_of s2) (kf_pid s) = next_fd (files_of s) (kf_pid s) + 2"
    and "fd_abs (files_of s2) (kf_pid s) (fo_open_fd (kf_open s2)) =
      Some \<lparr>fd_id = fo_open_fd (kf_open s2), fd_offset = 0, fd_nodeID = fn_id (vf_nodes (kf_vfs s) ! c), fd_openFlags = fo_flags (kf_open s)\<rparr>"
proof -
  have o1: "kf_pid s1 = kf_pid s" "kf_vfs s1 = kf_vfs s" "fo_flags (kf_open s1) = fo_flags (kf_open s)" "same_entries (kf_rd s) (kf_rd s1)"
    using assms(1) by (auto simp: opened_def Let_def)
  show "kf_vfs s2 = kf_vfs s" "same_entries (kf_rd s) (kf_rd s2)" "fd_ok (files_of s2)" "fo_open_status (kf_open s2) = FS_OPEN_SUCCESSFUL"
    "next_fd (files_of s2) (kf_pid s) = next_fd (files_of s) (kf_pid s) + 2"
    using assms o1 same_entries_trans [OF o1(4)] by (auto simp: opened_def Let_def)
  then show "fd_abs (files_of s2) (kf_pid s) (fo_open_fd (kf_open s2)) =
      Some \<lparr>fd_id = fo_open_fd (kf_open s2), fd_offset = 0, fd_nodeID = fn_id (vf_nodes (kf_vfs s) ! c), fd_openFlags = fo_flags (kf_open s)\<rparr>"
    using opened_last [OF assms(2), of "kf_vfs s"] o1 by simp
qed

section \<open>The file system at the start\<close>

lemma initialize_delegates:
  "FsNode_getDelegate FileSystem_initialize 0 = Some (Some FsDelegateRamdisk)" "FsNode_getDelegate FileSystem_initialize 1 = Some (Some FsDelegateMount)"
  "FsNode_getDelegate FileSystem_initialize 2 = Some (Some FsDelegateRamdisk)" "FsNode_getDelegate FileSystem_initialize 3 = Some (Some FsDelegatePipe)"
  by (subst FsNode_getDelegate.simps, simp add: initialize_nodes FsNode_new_def numeral_2_eq_2 numeral_3_eq_3)+

lemma initial_tree:
  assumes "rd_ok rd" and "rd_root rd = Some r"
  shows "tree_ok FileSystem_initialize rd" and "depicted FileSystem_initialize rd 0 r"
proof -
  have r: "re_id (rd_objects rd ! r) = 0" "re_type (rd_objects rd ! r) \<noteq> RAMDISK_ENTRY_TYPE_FILE" using assms by (auto simp: rd_ok_def)
  then show root: "depicted FileSystem_initialize rd 0 r"
    using assms(2) initialize_delegates(1) by (simp add: depicted_def initialize_nodes FsNode_new_def Ramdisk_findById_def)
  have "c = 1 \<and> n = 0 \<and> x = ''mount''" if "depicted FileSystem_initialize rd n e" "FsNode_findChild FileSystem_initialize n x = Some c" for n e x c
  proof -
    have "n < 4" using that(1) by (simp add: depicted_def initialize_nodes)
    then consider "n = 0" | "n = 1" | "n = 2" | "n = 3" by linarith
    then show ?thesis
      using that initialize_delegates by cases (auto simp: depicted_def FsNode_findChild_def initialize_nodes FsNode_new_def numeral_2_eq_2 split: if_splits)
  qed
  moreover have "entry_child rd e ''mount'' = None" if "depicted FileSystem_initialize rd 0 e" for e
    using depicted_unique [OF that root] assms(2) by (simp add: entry_child_def)
  ultimately have "depicted FileSystem_initialize rd c e'"
    if "depicted FileSystem_initialize rd n e" "entry_child rd e x = Some e'" "FsNode_findChild FileSystem_initialize n x = Some c" for n e x e' c
    using that by (metis option.distinct(1))
  then show "tree_ok FileSystem_initialize rd" unfolding tree_ok_def using vfs_initialize_ok assms(1) by blast
qed

text \<open>A ramdisk with a file in a folder, and a process that has no open files, for the examples.\<close>

definition example_entries :: "rd_entry list" where
  "example_entries = [RamdiskEntry_new,
     RamdiskEntry_new\<lparr>re_id := 1, re_name := ''etc'' @ [NUL]\<rparr>,
     RamdiskEntry_new\<lparr>re_id := 2, re_parentid := 1, re_name := ''rc'' @ [NUL], re_type := RAMDISK_ENTRY_TYPE_FILE, re_data := OnImage 0, re_datalength := 3, re_dataOnRamdisk := True\<rparr>]"

definition example_ramdisk :: ramdisk where
  "example_ramdisk = \<lparr>rd_image = [7, 8, 9], rd_objects = example_entries, rd_first = [1, 2], rd_root = Some 0, rd_nextUnusedId = 3\<rparr>"

definition example_env :: fs_env where
  "example_env = \<lparr>ev_junk = [], ev_driver = (\<lambda>tid. \<lparr>dv_discovery = FS_DISCOVERY_ERROR, dv_open = FS_OPEN_ERROR, dv_close = FS_CLOSE_ERROR,
    dv_length_status = FS_LENGTH_ERROR, dv_length = 0, dv_refresh = FS_DIRECTORY_REFRESH_ERROR, dv_parentVirtFsID = 0\<rparr>)\<rparr>"

definition example_kfs :: "string \<Rightarrow> kfs" where
  "example_kfs path = \<lparr>pf_transactions = FsTransactionStore_initialize, kf_vfs = FileSystem_initialize, kf_rd = example_ramdisk, kf_pipes = Pipes_initialize,
     kf_tables = HashMap_new, kf_tableObjects = [], kf_contents = [], kf_cwd = (\<lambda>pid. ''/''), kf_pid = 5, kf_waiter = None,
     kf_open = \<lparr>fo_path = path, fo_flags = 1, fo_open_status = FS_OPEN_ERROR, fo_open_fd = 0\<rparr>,
     kf_close = \<lparr>fc_open_fd = 3, fc_close_status = FS_CLOSE_ERROR\<rparr>,
     kf_length = \<lparr>fl_length_mode = 0, fl_path = path, fl_open_fd = 3, fl_length_status = FS_LENGTH_ERROR, fl_length = 0\<rparr>,
     kf_seek = \<lparr>fk_open_fd = 3, fk_offset = 0, fk_seek_mode = FS_SEEK_SET, fk_seek_status = FS_SEEK_ERROR, fk_result = 0\<rparr>,
     kf_tell = \<lparr>ftl_open_fd = 3, ftl_tell_status = FS_TELL_INVALID_FD, ftl_result = 0\<rparr>,
     kf_setCwd = \<lparr>sw_path = path, sw_process_creation_identifier = None, sw_working_directory_status = SET_WORKING_DIRECTORY_ERROR\<rparr>,
     kf_openDirectory = \<lparr>od_path = path, od_open_directory_status = FS_OPEN_DIRECTORY_ERROR\<rparr>,
     kf_iterator = \<lparr>di_node_id = 0, di_position = 0, di_entry_buffer = \<lparr>en_node_id = 0, en_node_type = FS_NODE_TYPE_NONE, en_name = []\<rparr>\<rparr>,
     kf_read_directory_status = FS_READ_DIRECTORY_ERROR\<rparr>"

lemma example_ramdisk_ok: "rd_ok example_ramdisk" "rd_root example_ramdisk = Some 0"
proof -
  have "\<exists>s. NUL \<notin> set s \<and> ''etc'' @ [NUL] = s @ [NUL]" "\<exists>s. NUL \<notin> set s \<and> ''rc'' @ [NUL] = s @ [NUL]"
    by (intro exI [of _ "''etc''"], simp add: NUL_def, intro exI [of _ "''rc''"], simp add: NUL_def)
  then show "rd_ok example_ramdisk"
    by (simp add: rd_ok_def names_ok_def example_ramdisk_def example_entries_def RamdiskEntry_new_def RAMDISK_ENTRY_TYPE_FILE_def numeral_2_eq_2)
  show "rd_root example_ramdisk = Some 0" by (simp add: example_ramdisk_def)
qed

lemma example_path:
  "components ''/etc/rc'' = [''etc'', ''rc'']" "\<forall>name \<in> set [''etc'', ''rc'']. good_name name"
  "follow_entries (entry_child example_ramdisk) 0 [''etc'', ''rc''] = Some 2" "re_type (rd_objects example_ramdisk ! 2) = RAMDISK_ENTRY_TYPE_FILE"
  by (simp_all add: components_def good_name_def entry_child_def child_named_def example_ramdisk_def example_entries_def RamdiskEntry_new_def numeral_2_eq_2)

lemma example_files: "fd_ok (files_of (example_kfs path))" "next_fd (files_of (example_kfs path)) pid = 3" "hm_inv (tx_store (pf_transactions (example_kfs path)))"
proof -
  have "lookup (files_of (example_kfs path)) q fd = None" for q fd by (simp add: example_kfs_def files_of_def lookup_def table_of_def hm_laws)
  then show "fd_ok (files_of (example_kfs path))" by (simp add: fd_ok_def) (simp add: example_kfs_def files_of_def hm_laws)
  show "next_fd (files_of (example_kfs path)) pid = 3" by (simp add: example_kfs_def files_of_def next_fd_def table_of_def hm_laws)
  show "hm_inv (tx_store (pf_transactions (example_kfs path)))" by (simp add: example_kfs_def FsTransactionStore_initialize_def hm_laws)
qed

lemma example_state [simp]:
  "kf_vfs (example_kfs path) = FileSystem_initialize" "kf_rd (example_kfs path) = example_ramdisk" "kf_waiter (example_kfs path) = None"
  "kf_pid (example_kfs path) = 5" "kf_cwd (example_kfs path) q = ''/''" "fo_path (kf_open (example_kfs path)) = path" "fo_flags (kf_open (example_kfs path)) = 1"
  by (simp_all add: example_kfs_def)

section \<open>Properties\<close>

text \<open>
  C35. Opening a file of the ramdisk by its path ends: whatever nodes of the path are known, the call
  is over after at most as many checks of the waiting thread as the path has names, and leaves a
  descriptor at offset 0 for the node that the path leads to then, which stands for the file. A path
  whose nodes are all known is opened at once; else the nodes are added, and the file is opened
  twice, so that a second descriptor, which nobody knows, stays behind.
\<close>

theorem ramdisk_open_by_path:
  assumes "tree_ok (kf_vfs s) (kf_rd s)" and "hm_inv (tx_store (pf_transactions s))" and "fd_ok (files_of s)" and "kf_waiter s = None"
    and "depicted (kf_vfs s) (kf_rd s) (vf_root (kf_vfs s)) r"
    and "FileSystem_concatAsAbsolutePath (kf_cwd s (kf_pid s)) (fo_path (kf_open s)) = Inr path"
    and "components path = names" and "\<forall>name \<in> set names. good_name name"
    and "follow_entries (entry_child (kf_rd s)) r names = Some e" and "re_type (rd_objects (kf_rd s) ! e) = RAMDISK_ENTRY_TYPE_FILE"
  defines "known \<equiv> \<exists>c. FileSystem_findExisting (kf_vfs s) path = (c, Some c, [])"
  shows "\<exists>s1 s2 n. fsOpen ev s = Some (Inr (s1, if known then CurrentThread else Scheduled)) \<and> checks (length names) ev s1 = Some (Inr s2) \<and>
    kf_waiter s2 = None \<and> fo_open_status (kf_open s2) = FS_OPEN_SUCCESSFUL \<and>
    FileSystem_findExisting (kf_vfs s2) path = (n, Some n, []) \<and> depicted (kf_vfs s2) (kf_rd s2) n e \<and>
    fd_abs (files_of s2) (kf_pid s) (fo_open_fd (kf_open s2)) =
      Some \<lparr>fd_id = fo_open_fd (kf_open s2), fd_offset = 0, fd_nodeID = fn_id (vf_nodes (kf_vfs s2) ! n), fd_openFlags = fo_flags (kf_open s)\<rparr> \<and>
    next_fd (files_of s2) (kf_pid s) = next_fd (files_of s) (kf_pid s) + (if known then 1 else 2) \<and>
    tree_ok (kf_vfs s2) (kf_rd s2) \<and> hm_inv (tx_store (pf_transactions s2)) \<and> fd_ok (files_of s2)"
proof -
  let ?h = "FsTransactionHandlerDiscovery_new DiscoveryOpen path"
  have h: "dh_absolutePath ?h = path" "dh_kind ?h = DiscoveryOpen" "\<not> dh_allNodesDiscovered ?h" by (simp_all add: FsTransactionHandlerDiscovery_new_def)
  show ?thesis
  proof (cases known)
    case True
    then obtain c where c: "FileSystem_findExisting (kf_vfs s) (dh_absolutePath ?h) = (c, Some c, [])" using h by (auto simp: known_def)
    note k = rp.discovery_known [OF assms(1,5) _ assms(8,9) c, of ev]
    have dep: "depicted (kf_vfs s) (kf_rd s) c e" using k h assms(7) by simp
    obtain s' where s': "afterFinishTransaction ev s (?h\<lparr>dh_status := FS_DISCOVERY_SUCCESSFUL, dh_node := Some c, dh_allNodesDiscovered := True\<rparr>) =
        Some (Inr (s', FS_TRANSACTION_HANDLING_DONE))" "opened s c s'"
      using after_discovery_open [OF assms(3,2) dep assms(10), of "?h\<lparr>dh_status := FS_DISCOVERY_SUCCESSFUL, dh_node := Some c, dh_allNodesDiscovered := True\<rparr>" ev] h by auto
    have "fsOpen ev s = Some (Inr (s', CurrentThread))"
      using k h assms(6,7) s'(1) by (simp add: fsOpen_def return_after_def)
    moreover have "checks (length names) ev s' = Some (Inr s')" using s'(2) assms(4) by (intro checks_idle) (simp add: opened_def Let_def)
    ultimately show ?thesis using s'(2) opened_last [OF s'(2), of "kf_vfs s'"] c dep h assms(1,4) True
      by (intro exI [of _ s'] exI [of _ c]) (auto simp: opened_def Let_def same_entries_cong)
  next
    case False
    have un: "\<nexists>c. FileSystem_findExisting (kf_vfs s) (dh_absolutePath ?h) = (c, Some c, [])" using False h by (simp add: known_def)
    obtain s1 h1 k t v w h2 suf c where d: "FsTransactionHandlerDiscovery_startTransaction ev s ?h = Some (Inr (s1, h1, FS_TRANSACTION_START_WITH_WAITER))"
        "k < length names" "checks k ev s1 = Some (Inr (s\<lparr>pf_transactions := t, kf_vfs := v, kf_waiter := w\<rparr>))"
        "rp.awaits (s\<lparr>pf_transactions := t, kf_vfs := v, kf_waiter := w\<rparr>) h2 suf e" "dh_kind h2 = DiscoveryOpen" "dh_absolutePath h2 = path"
        "FileSystem_findExisting v path = (c, Some c, [])"
      using rp.discovery_unknown [OF assms(2,1,5) _ assms(8,9) h(3) un, of ev] h assms(7) by auto
    obtain s3 s4 t' where w: "check_waiting ev (s\<lparr>pf_transactions := t, kf_vfs := v, kf_waiter := w\<rparr>) = Some (Inr (s4\<lparr>pf_transactions := t', kf_waiter := None\<rparr>))"
        "hm_inv (tx_store t')" "opened (s\<lparr>pf_transactions := t, kf_vfs := v, kf_waiter := w\<rparr>) c s3" "opened s3 c s4" "depicted v (kf_rd s) c e"
      using await_open [OF d(4,5), of c ev] d(6,7) assms(3,10) by auto
    let ?s = "s4\<lparr>pf_transactions := t', kf_waiter := None\<rparr>"
    have "checks (length names) ev s1 = Some (Inr ?s)"
      by (rule checks_end [of k]) (use d(2,3) w(1) in simp_all)
    moreover have "fsOpen ev s = Some (Inr (s1, Scheduled))" using d(1) assms(6) by (simp add: fsOpen_def return_after_def)
    moreover have "files_of ?s = files_of s4" by (simp add: files_of_def)
    moreover have "tree_ok v (kf_rd s)" using d(4) by (auto simp: rp.awaits_def)
    ultimately show ?thesis using opened_twice [OF w(3,4)] w(2,5) d(7) False
      by (intro exI [of _ s1] exI [of _ ?s] exI [of _ c]) (auto simp: same_entries_cong)
  qed
qed

theorem ramdisk_open_by_path_witness:
  "\<exists>s1 s2. fsOpen example_env (example_kfs ''/etc/rc'') = Some (Inr (s1, Scheduled)) \<and> checks 2 example_env s1 = Some (Inr s2) \<and>
    fo_open_status (kf_open s2) = FS_OPEN_SUCCESSFUL \<and> next_fd (files_of s2) 5 = 5"
proof -
  let ?s = "example_kfs ''/etc/rc''"
  have t: "tree_ok (kf_vfs ?s) (kf_rd ?s)" "depicted (kf_vfs ?s) (kf_rd ?s) (vf_root (kf_vfs ?s)) 0"
    using initial_tree [OF example_ramdisk_ok] by (simp_all add: initialize_nodes)
  have p: "FileSystem_concatAsAbsolutePath (kf_cwd ?s (kf_pid ?s)) (fo_path (kf_open ?s)) = Inr ''/etc/rc''"
    by (simp add: FileSystem_concatAsAbsolutePath_def PATH_MAX_def)
  have f: "follow_entries (entry_child (kf_rd ?s)) 0 [''etc'', ''rc''] = Some 2" "re_type (rd_objects (kf_rd ?s) ! 2) = RAMDISK_ENTRY_TYPE_FILE"
    using example_path(3,4) by simp_all
  have un: "\<nexists>c. FileSystem_findExisting (kf_vfs ?s) ''/etc/rc'' = (c, Some c, [])"
    by (simp add: FileSystem_findExisting_def find_loop_resolve example_path(1) initialize_nodes FsNode_findChild_def FsNode_new_def)
  show ?thesis
    using ramdisk_open_by_path [OF t(1) example_files(3,1) example_state(3) t(2) p example_path(1,2) f, of example_env] un
    by (auto simp: example_files(2) numeral_2_eq_2)
qed

end
