(* ===== verification/FsSeek.thy ===== *)
theory FsSeek
  imports FsDiscovery
begin

text \<open>
  Positions, lengths and listings: a seek on an open file of the ramdisk ends with the next check of
  the thread, and a tell after it returns the position; the length by path comes after its call has
  returned; repeated reads of a folder whose contents are known list its children in order.
\<close>

section \<open>Positions\<close>

lemma seek_offset_value:
  fixes current amount len :: i64
  assumes "0 \<le> sint len"
    and "x = (case mode of FS_SEEK_CUR \<Rightarrow> sint current + sint amount | FS_SEEK_SET \<Rightarrow> sint amount | FS_SEEK_END \<Rightarrow> sint len - sint amount)"
    and "- (2 ^ 63) \<le> x" and "x < 2 ^ 63"
  shows "sint (seek_offset mode current amount len) = max 0 (min (sint len) x)"
proof -
  have wrap: "sint (word_of_int x :: i64) = x" using assms(3,4) by (simp add: sint_sbintrunc' signed_take_bit_int_eq_self)
  have "(case mode of FS_SEEK_CUR \<Rightarrow> current + amount | FS_SEEK_SET \<Rightarrow> amount | FS_SEEK_END \<Rightarrow> len - amount) = word_of_int x"
    unfolding assms(2) by (cases mode) simp_all
  then show ?thesis using wrap assms(1) by (simp add: seek_offset_def Let_def)
qed

lemma length_sint: "sint (ucast (n :: u32) :: i64) = uint n"
proof -
  have "- (2 ^ 63) \<le> uint n" by (rule order_trans [OF _ uint_ge_0]) simp
  moreover have "uint n < 2 ^ 63" using uint_lt2p [of n] by simp
  ultimately have "signed_take_bit 63 (uint n) = uint n" by (rule signed_take_bit_int_eq_self)
  then show ?thesis by (simp add: signed_ucast_eq)
qed

text \<open>Changing the content of one descriptor.\<close>

lemma set_content:
  assumes ok: "fd_ok f" and c: "lookup f pid fd = Some c" and id: "fd_id k = fd"
  shows "fd_ok (f\<lparr>fy_contents := (fy_contents f)[c := Some k]\<rparr>)"
    and "fd_abs (f\<lparr>fy_contents := (fy_contents f)[c := Some k]\<rparr>) q x = (if q = pid \<and> x = fd then Some k else fd_abs f q x)"
proof -
  have own: "\<And>q x. lookup f q x = Some c \<Longrightarrow> q = pid \<and> x = fd" and l: "c < length (fy_contents f)" using ok c by (auto simp: fd_ok_def)
  show "fd_ok (f\<lparr>fy_contents := (fy_contents f)[c := Some k]\<rparr>)" using ok own id l unfolding fd_ok_def by (auto simp: nth_list_update)
  show "fd_abs (f\<lparr>fy_contents := (fy_contents f)[c := Some k]\<rparr>) q x = (if q = pid \<and> x = fd then Some k else fd_abs f q x)"
  proof (cases "lookup f q x = Some c")
    case True
    then show ?thesis using own [OF True] l by (simp add: fd_abs_def)
  next
    case False
    then have "\<not> (q = pid \<and> x = fd)" using c by auto
    then show ?thesis using False by (cases "lookup f q x") (auto simp: fd_abs_def)
  qed
qed

lemma fd_abs_cong: "lookup f = lookup g \<Longrightarrow> fy_contents f = fy_contents g \<Longrightarrow> fd_abs f = fd_abs g"
  by (intro ext) (simp only: fd_abs_def)

lemma node_of_descriptor:
  assumes "fd_ok (files_of s)" and "fd_abs (files_of s) (kf_pid s) fd = Some k" and "FileSystem_getNodeById (kf_vfs s) (fd_nodeID k) = Some n"
  obtains f c where "node_for_descriptor s fd = Inr (put_files f s, Some (n, c))" "fd_ok f" "lookup f = lookup (files_of s)" "lookup f (kf_pid s) fd = Some c"
    "c < length (kf_contents s)" "kf_contents s ! c = Some k" "fd_id k = fd" "fy_contents f = kf_contents s" "fy_vfs f = kf_vfs s" "fy_pipes f = kf_pipes s"
proof -
  obtain c where c: "lookup (files_of s) (kf_pid s) fd = Some c" "c < length (kf_contents s)" "kf_contents s ! c = Some k" "fd_id k = fd"
    using fd_abs_Some [OF assms(1,2)] by auto
  show ?thesis using nodeForDescriptor_spec [OF assms(1), of "kf_pid s" fd] c assms(3) that
    by (auto simp: node_for_descriptor_def) (simp add: files_of_def)
qed

lemma tell_spec:
  assumes "fd_ok (files_of s)" and "fd_abs (files_of s) (kf_pid s) (ftl_open_fd (kf_tell s)) = Some k"
    and "FileSystem_getNodeById (kf_vfs s) (fd_nodeID k) = Some n"
  shows "\<exists>f. fsTell s = Inr ((put_files f s)\<lparr>kf_tell := (kf_tell s)\<lparr>ftl_tell_status := FS_TELL_SUCCESSFUL, ftl_result := fd_offset k\<rparr>\<rparr>) \<and>
    fd_ok f \<and> fd_abs f = fd_abs (files_of s)"
proof -
  obtain f c where f: "node_for_descriptor s (ftl_open_fd (kf_tell s)) = Inr (put_files f s, Some (n, c))" "fd_ok f" "lookup f = lookup (files_of s)"
      "c < length (kf_contents s)" "kf_contents s ! c = Some k" "fy_contents f = kf_contents s"
    by (rule node_of_descriptor [OF assms])
  have "kf_contents (put_files f s) = kf_contents s" "kf_tell (put_files f s) = kf_tell s" using f(6) by (simp_all add: put_files_def)
  then have "fsTell s = Inr ((put_files f s)\<lparr>kf_tell := (kf_tell s)\<lparr>ftl_tell_status := FS_TELL_SUCCESSFUL, ftl_result := fd_offset k\<rparr>\<rparr>)"
    using f(1,4,5) by (simp add: fsTell_def)
  moreover have "fd_abs f = fd_abs (files_of s)" by (rule fd_abs_cong) (simp_all add: f(3,6))
  ultimately show ?thesis using f(2) by blast
qed

text \<open>The length of an entry is there at once; its transaction is finished.\<close>

lemma start_length:
  assumes "depicted (kf_vfs s) (kf_rd s) n e" and "hm_inv (tx_store (pf_transactions s))"
  obtains t tid h where "FsTransactionHandlerGetLength_startTransaction s (new_length_handler kind n) =
      Some (Inr (wait_for (GettingLength h) tid FsDelegateRamdisk (s\<lparr>pf_transactions := t\<rparr>), h, FS_TRANSACTION_START_WITH_WAITER))"
    "hm_inv (tx_store t)" "FsTransactionStore_getStatus t tid = FS_TRANSACTION_FINISHED" "lh_kind h = kind"
    "fh_status (lh_io h) = FS_LENGTH_SUCCESSFUL" "fh_result (lh_io h) = ucast (re_datalength (rd_objects (kf_rd s) ! e))"
proof -
  obtain t tid where n: "FsTransactionStore_nextTransaction (pf_transactions s) = (t, tid)" by fastforce
  let ?t = "FsTransactionStore_setStatus t tid FS_TRANSACTION_FINISHED"
  let ?io = "(lh_io (new_length_handler kind n))\<lparr>fh_status := FS_LENGTH_SUCCESSFUL, fh_result := ucast (re_datalength (rd_objects (kf_rd s) ! e))\<rparr>"
  let ?h = "(new_length_handler kind n)\<lparr>lh_io := ?io\<rparr>"
  have "node_delegate s n = Some (Inr (Some FsDelegateRamdisk))" using depictedD(2) [OF assms(1)] by (simp add: node_delegate_def)
  moreover have "request_length s FsDelegateRamdisk (new_length_handler kind n) = Inr (s\<lparr>pf_transactions := ?t\<rparr>, ?h, tid)"
    using assms(1) n by (simp add: request_length_def FsDelegateRamdisk_requestGetLength_def disk_of_def put_disk_def finish_request_def depicted_def
        new_length_handler_def rd_entry_at_def Let_def)
  moreover have "tx_store t = tx_store (pf_transactions s)" using n by (auto simp: FsTransactionStore_nextTransaction_def)
  then have "hm_inv (tx_store ?t)" "FsTransactionStore_getStatus ?t tid = FS_TRANSACTION_FINISHED"
    using assms(2) by (simp_all add: FsTransactionStore_setStatus_def FsTransactionStore_getStatus_def hm_laws)
  ultimately show ?thesis using that [of ?h tid ?t] by (simp add: FsTransactionHandlerGetLength_startTransaction_def new_length_handler_def)
qed

lemma seek_done:
  assumes "kf_waiter s = Some \<lparr>fw_handler = GettingLength h, fw_transactionID = tid, fw_delegate = FsDelegateRamdisk\<rparr>" and "lh_kind h = GetLengthSeek c"
    and "FsTransactionStore_getStatus (pf_transactions s) tid = FS_TRANSACTION_FINISHED" and "fh_status (lh_io h) = FS_LENGTH_SUCCESSFUL"
    and "c < length (kf_contents s)" and "kf_contents s ! c = Some k"
  defines "p \<equiv> seek_offset (fk_seek_mode (kf_seek s)) (fd_offset k) (fk_offset (kf_seek s)) (fh_result (lh_io h))"
  shows "check_waiting ev s = Some (Inr (s\<lparr>pf_transactions := FsTransactionStore_removeTransaction (pf_transactions s) tid,
      kf_contents := (kf_contents s)[c := Some (k\<lparr>fd_offset := p\<rparr>)],
      kf_seek := (kf_seek s)\<lparr>fk_result := p, fk_seek_status := FS_SEEK_SUCCESSFUL\<rparr>, kf_waiter := None\<rparr>))"
  using assms by (simp add: check_waiting_def WaiterFsTransaction_checkWaiting_def transaction_waiting_def FsTransactionHandlerGetLength_finishTransaction_def
      FsTransactionHandlerGetLengthSeek_performAfterwork_def keep_handler_def Let_def)

lemma seek_spec:
  assumes "fd_ok (files_of s)" and "hm_inv (tx_store (pf_transactions s))"
    and "fd_abs (files_of s) (kf_pid s) (fk_open_fd (kf_seek s)) = Some k" and "FileSystem_getNodeById (kf_vfs s) (fd_nodeID k) = Some n"
    and "depicted (kf_vfs s) (kf_rd s) n e"
  defines "p \<equiv> seek_offset (fk_seek_mode (kf_seek s)) (fd_offset k) (fk_offset (kf_seek s)) (ucast (re_datalength (rd_objects (kf_rd s) ! e)))"
  shows "\<exists>s1 f t. fsSeek s = Some (Inr (s1, Scheduled)) \<and>
    check_waiting ev s1 = Some (Inr ((put_files f s)\<lparr>pf_transactions := t, kf_seek := (kf_seek s)\<lparr>fk_result := p, fk_seek_status := FS_SEEK_SUCCESSFUL\<rparr>, kf_waiter := None\<rparr>)) \<and>
    fd_ok f \<and> hm_inv (tx_store t) \<and> fy_vfs f = kf_vfs s \<and>
    fd_abs f = (fd_abs (files_of s))(kf_pid s := (fd_abs (files_of s) (kf_pid s))(fk_open_fd (kf_seek s) \<mapsto> k\<lparr>fd_offset := p\<rparr>))"
proof -
  let ?fd = "fk_open_fd (kf_seek s)" and ?pid = "kf_pid s" and ?len = "ucast (re_datalength (rd_objects (kf_rd s) ! e)) :: i64"
  let ?k = "k\<lparr>fd_offset := p\<rparr>"
  obtain f c where f: "node_for_descriptor s ?fd = Inr (put_files f s, Some (n, c))" "fd_ok f" "lookup f = lookup (files_of s)" "lookup f ?pid ?fd = Some c"
      "c < length (kf_contents s)" "kf_contents s ! c = Some k" "fd_id k = ?fd" "fy_contents f = kf_contents s" "fy_vfs f = kf_vfs s" "fy_pipes f = kf_pipes s"
    by (rule node_of_descriptor [OF assms(1,3,4)])
  have r: "kf_rd (put_files f s) = kf_rd s" "kf_vfs (put_files f s) = kf_vfs s" "pf_transactions (put_files f s) = pf_transactions s"
    using f(9) by (simp_all add: put_files_def)
  obtain t tid h where l: "FsTransactionHandlerGetLength_startTransaction (put_files f s) (new_length_handler (GetLengthSeek c) n) =
      Some (Inr (wait_for (GettingLength h) tid FsDelegateRamdisk ((put_files f s)\<lparr>pf_transactions := t\<rparr>), h, FS_TRANSACTION_START_WITH_WAITER))"
    "hm_inv (tx_store t)" "FsTransactionStore_getStatus t tid = FS_TRANSACTION_FINISHED" "lh_kind h = GetLengthSeek c"
    "fh_status (lh_io h) = FS_LENGTH_SUCCESSFUL" "fh_result (lh_io h) = ?len"
    using start_length [of "put_files f s" n e "GetLengthSeek c", unfolded r, OF assms(5,2)] by blast
  let ?s1 = "wait_for (GettingLength h) tid FsDelegateRamdisk ((put_files f s)\<lparr>pf_transactions := t\<rparr>)"
  let ?s2 = "(put_files (f\<lparr>fy_contents := (fy_contents f)[c := Some ?k]\<rparr>) s)\<lparr>pf_transactions := FsTransactionStore_removeTransaction t tid,
      kf_seek := (kf_seek s)\<lparr>fk_result := p, fk_seek_status := FS_SEEK_SUCCESSFUL\<rparr>, kf_waiter := None\<rparr>"
  have s1: "fsSeek s = Some (Inr (?s1, Scheduled))" using f(1) l(1) by (simp add: fsSeek_def return_after_def)
  have s2: "check_waiting ev ?s1 = Some (Inr ?s2)"
    using seek_done [of ?s1 h tid c k ev] l f(5,6,8) by (simp add: wait_for_def put_files_def p_def)
  let ?f = "f\<lparr>fy_contents := (fy_contents f)[c := Some ?k]\<rparr>"
  have same: "fd_abs f = fd_abs (files_of s)" by (rule fd_abs_cong) (simp_all add: f(3,8))
  have ok: "fd_ok ?f" by (rule set_content(1) [OF f(2,4)]) (simp add: f(7))
  have "fd_abs ?f = (fd_abs (files_of s))(?pid := (fd_abs (files_of s) ?pid)(?fd \<mapsto> ?k))"
    by (intro ext, subst set_content(2) [OF f(2,4)]) (simp_all add: f(7) same)
  then show ?thesis using s1 s2 ok f(9) removed_transaction(1) [OF l(2), of tid]
    by (intro exI [of _ ?s1] exI [of _ ?f] exI [of _ "FsTransactionStore_removeTransaction t tid"]) (simp only: simp_thms, simp)
qed

section \<open>Listings\<close>

lemma nth_child_nth:
  "length ns \<le> 2 ^ 32 \<Longrightarrow> j + length ns \<le> 2 ^ 32 \<Longrightarrow> p < 2 ^ 32 \<Longrightarrow> j \<le> p \<Longrightarrow>
    nth_child ns (of_nat j) (of_nat p) = (if p - j < length ns then Some (ns ! (p - j)) else None)"
proof (induction ns arbitrary: j)
  case (Cons n ns)
  have "(of_nat j :: i32) = of_nat p \<longleftrightarrow> j = p" using Cons.prems by (simp add: word_of_nat_eq_iff take_bit_nat_eq_self)
  moreover have "nth_child ns (of_nat (Suc j)) (of_nat p) = (if p - Suc j < length ns then Some (ns ! (p - Suc j)) else None)" if "j \<noteq> p"
    using Cons.IH [of "Suc j"] Cons.prems that by simp
  ultimately show ?case using Cons.prems by (auto simp: nth_Cons' Suc_diff_Suc add.commute)
qed simp

text \<open>What a program does that reads a directory until a read does not succeed.\<close>

fun list_folder :: "nat \<Rightarrow> kfs \<Rightarrow> (FsDirectoryEntry list \<times> kfs) kres option" where
  "list_folder 0 s = Some (Inr ([], s))"
| "list_folder (Suc k) s =
     obind (fsReadDirectory s) (\<lambda>(s, r).
       if kf_read_directory_status s = FS_READ_DIRECTORY_SUCCESSFUL
       then obind (list_folder k s) (\<lambda>(es, s'). Some (Inr (di_entry_buffer (kf_iterator s) # es, s')))
       else Some (Inr ([], s)))"

definition entry_of :: "vfs \<Rightarrow> nat \<Rightarrow> FsDirectoryEntry" where
  "entry_of v n = \<lparr>en_node_id = fn_id (vf_nodes v ! n), en_node_type = fn_type (vf_nodes v ! n), en_name = the (fn_name (vf_nodes v ! n))\<rparr>"

text \<open>A folder whose children are known, and have names that fit the entry.\<close>

definition listable :: "vfs \<Rightarrow> nat \<Rightarrow> bool" where
  "listable v folder \<longleftrightarrow> fn_contentsValid (vf_nodes v ! folder) \<and> length (fn_children (vf_nodes v ! folder)) < 2 ^ 32 \<and>
     (\<forall>c \<in> set (fn_children (vf_nodes v ! folder)). \<exists>name. fn_name (vf_nodes v ! c) = Some name \<and> length name < FILENAME_MAX)"

lemma read_folder:
  assumes "FileSystem_getNodeById (kf_vfs s) (di_node_id (kf_iterator s)) = Some folder" and "listable (kf_vfs s) folder"
    and "di_position (kf_iterator s) = of_nat p" and "p \<le> length (fn_children (vf_nodes (kf_vfs s) ! folder))"
  shows "fsReadDirectory s = Some (Inr (if p < length (fn_children (vf_nodes (kf_vfs s) ! folder))
    then s\<lparr>kf_iterator := (kf_iterator s)\<lparr>di_position := of_nat (Suc p), di_entry_buffer := entry_of (kf_vfs s) (fn_children (vf_nodes (kf_vfs s) ! folder) ! p)\<rparr>,
           kf_read_directory_status := FS_READ_DIRECTORY_SUCCESSFUL\<rparr>
    else s\<lparr>kf_read_directory_status := FS_READ_DIRECTORY_EOD\<rparr>, CurrentThread))"
proof -
  let ?ns = "fn_children (vf_nodes (kf_vfs s) ! folder)"
  have l: "length ?ns < 2 ^ 32" using assms(2) by (simp add: listable_def)
  then have n: "nth_child ?ns 0 (of_nat p) = (if p < length ?ns then Some (?ns ! p) else None)"
    using nth_child_nth [of ?ns 0 p] assms(4) by simp
  note defs = fsReadDirectory_def FsTransactionHandlerReadDirectory_finishTransaction_def listable_def entry_of_def Let_def add.commute
  show ?thesis
  proof (cases "p < length ?ns")
    case True
    then obtain name where "fn_name (vf_nodes (kf_vfs s) ! (?ns ! p)) = Some name" "length name < FILENAME_MAX"
      using assms(2) nth_mem [of p ?ns] unfolding listable_def by blast
    then show ?thesis using assms n True by (simp add: defs)
  next
    case False
    then show ?thesis using assms n by (simp add: defs)
  qed
qed

lemma list_folder_from:
  assumes "FileSystem_getNodeById (kf_vfs s) (di_node_id (kf_iterator s)) = Some folder" and "listable (kf_vfs s) folder"
    and "di_position (kf_iterator s) = of_nat p" and "p + k = length (fn_children (vf_nodes (kf_vfs s) ! folder))"
  shows "\<exists>it. list_folder (Suc k) s = Some (Inr (map (entry_of (kf_vfs s)) (drop p (fn_children (vf_nodes (kf_vfs s) ! folder))),
    s\<lparr>kf_iterator := it, kf_read_directory_status := FS_READ_DIRECTORY_EOD\<rparr>)) \<and> di_position it = of_nat (p + k)"
  using assms
proof (induction k arbitrary: s p)
  case 0
  then show ?case using read_folder [OF "0.prems"(1-3)] by (intro exI [of _ "kf_iterator s"]) simp
next
  case (Suc k)
  let ?ns = "fn_children (vf_nodes (kf_vfs s) ! folder)"
  let ?s = "s\<lparr>kf_iterator := (kf_iterator s)\<lparr>di_position := of_nat (Suc p), di_entry_buffer := entry_of (kf_vfs s) (?ns ! p)\<rparr>,
    kf_read_directory_status := FS_READ_DIRECTORY_SUCCESSFUL\<rparr>"
  have r: "fsReadDirectory s = Some (Inr (?s, CurrentThread))" using read_folder [OF Suc.prems(1-3)] Suc.prems(4) by simp
  obtain it where it: "list_folder (Suc k) ?s = Some (Inr (map (entry_of (kf_vfs s)) (drop (Suc p) ?ns), ?s\<lparr>kf_iterator := it, kf_read_directory_status := FS_READ_DIRECTORY_EOD\<rparr>))"
      "di_position it = of_nat (p + Suc k)"
    using Suc.IH [of ?s "Suc p"] Suc.prems by auto
  have "drop p ?ns = ?ns ! p # drop (Suc p) ?ns" using Suc.prems(4) by (simp add: Cons_nth_drop_Suc)
  moreover have "list_folder (Suc (Suc k)) s = obind (list_folder (Suc k) ?s) (\<lambda>(es, s'). Some (Inr (entry_of (kf_vfs s) (?ns ! p) # es, s')))"
    by (subst list_folder.simps(2)) (simp add: r)
  ultimately show ?case using it by (intro exI [of _ it]) (simp del: list_folder.simps)
qed

text \<open>The state after a successful opening of a folder.\<close>

definition opened_directory :: "nat \<Rightarrow> kfs \<Rightarrow> kfs" where
  "opened_directory folder s = s\<lparr>kf_openDirectory := (kf_openDirectory s)\<lparr>od_open_directory_status := FS_OPEN_DIRECTORY_SUCCESSFUL\<rparr>,
     kf_iterator := (kf_iterator s)\<lparr>di_node_id := fn_id (vf_nodes (kf_vfs s) ! folder), di_position := 0\<rparr>\<rparr>"

text \<open>A process that has opened a file of three bytes and seeks to one byte before its end, for the examples.\<close>

definition example_opened :: kfs where
  "example_opened = (example_kfs ''/rc'')
     \<lparr>kf_vfs := attach 0 (FsNode_new\<lparr>fn_physFsID := 2, fn_type := FS_NODE_TYPE_FILE, fn_name := Some ''rc''\<rparr>) FileSystem_initialize,
      kf_tables := HashMap_add HashMap_new 5 0,
      kf_tableObjects := [Some \<lparr>ft_nextFileDescriptor = 4, ft_descriptors = HashMap_add HashMap_new 3 0\<rparr>],
      kf_contents := [Some \<lparr>fd_id = 3, fd_offset = 0, fd_nodeID = 4, fd_openFlags = 1\<rparr>],
      kf_seek := \<lparr>fk_open_fd = 3, fk_offset = 1, fk_seek_mode = FS_SEEK_END, fk_seek_status = FS_SEEK_ERROR, fk_result = 0\<rparr>\<rparr>"

lemma example_opened_ok:
  "fd_ok (files_of example_opened)" "hm_inv (tx_store (pf_transactions example_opened))"
  "fd_abs (files_of example_opened) (kf_pid example_opened) (fk_open_fd (kf_seek example_opened)) = Some \<lparr>fd_id = 3, fd_offset = 0, fd_nodeID = 4, fd_openFlags = 1\<rparr>"
  "FileSystem_getNodeById (kf_vfs example_opened) (fd_nodeID \<lparr>fd_id = 3, fd_offset = 0, fd_nodeID = 4, fd_openFlags = 1\<rparr>) = Some 4"
  "depicted (kf_vfs example_opened) (kf_rd example_opened) 4 2"
  "ftl_open_fd (kf_tell example_opened) = fk_open_fd (kf_seek example_opened)" "fk_seek_mode (kf_seek example_opened) = FS_SEEK_END"
  "fk_offset (kf_seek example_opened) = 1" "re_datalength (rd_objects (kf_rd example_opened) ! 2) = 3"
proof -
  let ?f = "files_of example_opened"
  have tab: "table_of ?f q = (if q = 5 then Some \<lparr>ft_nextFileDescriptor = 4, ft_descriptors = HashMap_add HashMap_new 3 0\<rparr> else None)" for q
    by (simp add: table_of_def files_of_def example_opened_def hm_laws)
  have look: "lookup ?f q x = (if q = 5 \<and> x = 3 then Some 0 else None)" for q x by (simp add: lookup_def tab hm_laws)
  show "fd_ok ?f" unfolding fd_ok_def look by (simp add: files_of_def example_opened_def hm_laws split: if_splits)
  show "fd_abs ?f (kf_pid example_opened) (fk_open_fd (kf_seek example_opened)) = Some \<lparr>fd_id = 3, fd_offset = 0, fd_nodeID = 4, fd_openFlags = 1\<rparr>"
    unfolding fd_abs_def look by (simp add: files_of_def example_opened_def)
  show "hm_inv (tx_store (pf_transactions example_opened))" using example_files(3) by (simp add: example_opened_def)
  show "FileSystem_getNodeById (kf_vfs example_opened) (fd_nodeID \<lparr>fd_id = 3, fd_offset = 0, fd_nodeID = 4, fd_openFlags = 1\<rparr>) = Some 4"
    by (simp add: example_opened_def FileSystem_getNodeById_def attach_def initialize_nodes FsNode_new_def hm_laws)
  have v: "kf_vfs example_opened = attach 0 (FsNode_new\<lparr>fn_physFsID := 2, fn_type := FS_NODE_TYPE_FILE, fn_name := Some ''rc''\<rparr>) FileSystem_initialize"
    by (simp add: example_opened_def)
  have "FsNode_getDelegate (kf_vfs example_opened) (length (vf_nodes FileSystem_initialize)) = FsNode_getDelegate FileSystem_initialize 0"
    unfolding v by (rule getDelegate_attach(2) [OF vfs_initialize_ok]) (simp_all add: initialize_nodes FsNode_new_def)
  then have "FsNode_getDelegate (kf_vfs example_opened) 4 = Some (Some FsDelegateRamdisk)" using initialize_delegates(1) by (simp add: initialize_nodes eval_nat_numeral)
  then show "depicted (kf_vfs example_opened) (kf_rd example_opened) 4 2"
    by (simp add: depicted_def) (simp add: example_opened_def attach_def initialize_nodes FsNode_new_def example_ramdisk_def example_entries_def RamdiskEntry_new_def Ramdisk_findById_def RAMDISK_ENTRY_TYPE_FILE_def)
qed (simp_all add: example_opened_def example_kfs_def example_ramdisk_def example_entries_def RamdiskEntry_new_def numeral_2_eq_2)

text \<open>A process that lists the mount points, which are known from the start, for the examples.\<close>

definition example_mounts :: kfs where
  "example_mounts = (example_kfs ''/mount'')\<lparr>kf_vfs := update_node 1 (\<lambda>n. n\<lparr>fn_contentsValid := True\<rparr>) FileSystem_initialize\<rparr>"

lemma example_mounts_ok:
  "vfs_ok (kf_vfs example_mounts)" "located (kf_vfs example_mounts) 1 [''mount'']"
  "FileSystem_concatAsAbsolutePath (kf_cwd example_mounts (kf_pid example_mounts)) (od_path (kf_openDirectory example_mounts)) = Inr ''/mount''"
  "FileSystem_getNodeById (kf_vfs example_mounts) (fn_id (vf_nodes (kf_vfs example_mounts) ! 1)) = Some 1" "listable (kf_vfs example_mounts) 1"
  "fn_children (vf_nodes (kf_vfs example_mounts) ! 1) = [3, 2]" "fn_name (vf_nodes (kf_vfs example_mounts) ! 3) = Some ''pipe''"
  "fn_name (vf_nodes (kf_vfs example_mounts) ! 2) = Some ''ramdisk''"
proof -
  note v = example_mounts_def update_node_def initialize_nodes FsNode_new_def
  show "vfs_ok (kf_vfs example_mounts)"
    unfolding vfs_ok_def FileSystem_getNodeById_def by (auto simp: v hm_laws less_Suc_eq numeral_2_eq_2 numeral_3_eq_3 split: if_splits)
  have "located (kf_vfs example_mounts) 0 []" using located.root [of "kf_vfs example_mounts"] by (simp add: v)
  then have "located (kf_vfs example_mounts) 1 ([] @ [''mount''])"
    by (rule located.child) (simp_all add: v FsNode_findChild_def good_name_def)
  then show "located (kf_vfs example_mounts) 1 [''mount'']" by simp
  show "listable (kf_vfs example_mounts) 1" by (simp add: listable_def v FILENAME_MAX_def)
  show "FileSystem_concatAsAbsolutePath (kf_cwd example_mounts (kf_pid example_mounts)) (od_path (kf_openDirectory example_mounts)) = Inr ''/mount''"
    by (simp add: example_mounts_def example_kfs_def FileSystem_concatAsAbsolutePath_def PATH_MAX_def)
qed (simp_all add: example_mounts_def update_node_def initialize_nodes FsNode_new_def FileSystem_getNodeById_def hm_laws)

section \<open>Properties\<close>



text \<open>
  C37. Opening a folder that is known by its path, and then reading it until a read does not succeed,
  returns its children in their order, each once, with their identifiers, types and names, and ends
  with the status for the end of the directory; a listing changes neither the nodes nor the open
  files. The children have to be valid, to fit their counter, and to have names that fit an entry.
\<close>

theorem known_folder_listing:
  assumes "vfs_ok (kf_vfs s)" and "located (kf_vfs s) folder names"
    and "FileSystem_concatAsAbsolutePath (kf_cwd s (kf_pid s)) (od_path (kf_openDirectory s)) = Inr path" and "components path = names"
    and "FileSystem_getNodeById (kf_vfs s) (fn_id (vf_nodes (kf_vfs s) ! folder)) = Some folder" and "listable (kf_vfs s) folder"
  shows "\<exists>s1 s2. fsOpenDirectory ev s = Some (Inr (s1, Scheduled)) \<and> od_open_directory_status (kf_openDirectory s1) = FS_OPEN_DIRECTORY_SUCCESSFUL \<and>
    list_folder (Suc (length (fn_children (vf_nodes (kf_vfs s) ! folder)))) s1 = Some (Inr (map (entry_of (kf_vfs s)) (fn_children (vf_nodes (kf_vfs s) ! folder)), s2)) \<and>
    kf_read_directory_status s2 = FS_READ_DIRECTORY_EOD \<and> kf_vfs s2 = kf_vfs s \<and> files_of s2 = files_of s \<and> kf_waiter s2 = kf_waiter s"
proof -
  have found: "FileSystem_findExisting (kf_vfs s) path = (folder, Some folder, [])"
    using located_resolve [OF assms(2)] assms(4) by (simp add: FileSystem_findExisting_def find_loop_resolve)
  obtain d where "node_delegate s folder = Some (Inr d)"
    using getDelegate_returns [OF assms(1) located_less [OF assms(2,1)]] by (auto simp: node_delegate_def)
  then have o: "fsOpenDirectory ev s = Some (Inr (opened_directory folder s, Scheduled))"
    using found assms(3) by (simp add: fsOpenDirectory_def FsTransactionHandlerDiscovery_startTransaction_def FsTransactionHandlerDiscovery_new_def afterFinishTransaction_def
        FsTransactionHandlerDiscoveryOpenDirectory_afterFinishTransaction_def opened_directory_def Let_def)
  have "FileSystem_getNodeById (kf_vfs (opened_directory folder s)) (di_node_id (kf_iterator (opened_directory folder s))) = Some folder"
    "listable (kf_vfs (opened_directory folder s)) folder" "di_position (kf_iterator (opened_directory folder s)) = of_nat 0" "kf_vfs (opened_directory folder s) = kf_vfs s"
    using assms(5,6) by (simp_all add: opened_directory_def)
  then obtain it where "list_folder (Suc (length (fn_children (vf_nodes (kf_vfs s) ! folder)))) (opened_directory folder s) =
      Some (Inr (map (entry_of (kf_vfs s)) (fn_children (vf_nodes (kf_vfs s) ! folder)),
        (opened_directory folder s)\<lparr>kf_iterator := it, kf_read_directory_status := FS_READ_DIRECTORY_EOD\<rparr>))"
    using list_folder_from [of "opened_directory folder s" folder 0 "length (fn_children (vf_nodes (kf_vfs s) ! folder))"] by auto
  then show ?thesis using o
    by (intro exI [of _ "opened_directory folder s"] exI [of _ "(opened_directory folder s)\<lparr>kf_iterator := it, kf_read_directory_status := FS_READ_DIRECTORY_EOD\<rparr>"])
      (simp add: opened_directory_def files_of_def)
qed

theorem known_folder_listing_witness:
  "\<exists>s1 s2 es. fsOpenDirectory example_env example_mounts = Some (Inr (s1, Scheduled)) \<and> list_folder 3 s1 = Some (Inr (es, s2)) \<and>
    map en_name es = [''pipe'', ''ramdisk''] \<and> kf_read_directory_status s2 = FS_READ_DIRECTORY_EOD"
proof -
  have "components ''/mount'' = [''mount'']" by (simp add: components_def)
  then obtain s1 s2 where s: "fsOpenDirectory example_env example_mounts = Some (Inr (s1, Scheduled))"
      "list_folder (Suc (length [3 :: nat, 2])) s1 = Some (Inr (map (entry_of (kf_vfs example_mounts)) [3, 2], s2))" "kf_read_directory_status s2 = FS_READ_DIRECTORY_EOD"
    using known_folder_listing [OF example_mounts_ok(1,2,3) _ example_mounts_ok(4,5), of example_env] unfolding example_mounts_ok(6) by blast
  have "list_folder 3 s1 = Some (Inr (map (entry_of (kf_vfs example_mounts)) [3, 2], s2))" using s(2) by (simp add: numeral_3_eq_3 del: list_folder.simps)
  moreover have "map en_name (map (entry_of (kf_vfs example_mounts)) [3, 2]) = [''pipe'', ''ramdisk'']" by (simp add: entry_of_def example_mounts_ok(7,8))
  ultimately show ?thesis using s(1,3) by (intro exI conjI)
qed

text \<open>
  The length of a file of the ramdisk, asked for by a path whose nodes are known: the call returns
  to the thread with the fields of the call as they were, while the thread has a waiter, although
  it goes on at once; only the next check of this waiter writes the length and the status. The start
  of the discovery reports that it is finished, and does not look at what the end of the discovery,
  which has started a transaction for the length, returns.
\<close>

theorem length_returns_early:
  assumes "depicted (kf_vfs s) (kf_rd s) n e" and "hm_inv (tx_store (pf_transactions s))"
    and "fl_length_mode (kf_length s) AND SYSCALL_FS_LENGTH_MODE_BY_MASK \<noteq> SYSCALL_FS_LENGTH_BY_FD"
    and "FileSystem_concatAsAbsolutePath (kf_cwd s (kf_pid s)) (fl_path (kf_length s)) = Inr path"
    and "FileSystem_findExisting (kf_vfs s) path = (n, Some n, [])"
  shows "\<exists>s1 s2. fsLength ev s = Some (Inr (s1, CurrentThread)) \<and> kf_length s1 = kf_length s \<and> kf_waiter s1 \<noteq> None \<and>
    check_waiting ev s1 = Some (Inr s2) \<and> kf_waiter s2 = None \<and>
    kf_length s2 = (kf_length s)\<lparr>fl_length_status := FS_LENGTH_SUCCESSFUL, fl_length := ucast (re_datalength (rd_objects (kf_rd s) ! e))\<rparr>"
proof -
  obtain t tid h where l: "FsTransactionHandlerGetLength_startTransaction s (new_length_handler GetLengthDefault n) =
      Some (Inr (wait_for (GettingLength h) tid FsDelegateRamdisk (s\<lparr>pf_transactions := t\<rparr>), h, FS_TRANSACTION_START_WITH_WAITER))"
    "FsTransactionStore_getStatus t tid = FS_TRANSACTION_FINISHED" "lh_kind h = GetLengthDefault"
    "fh_status (lh_io h) = FS_LENGTH_SUCCESSFUL" "fh_result (lh_io h) = ucast (re_datalength (rd_objects (kf_rd s) ! e))"
    using start_length [OF assms(1,2), of GetLengthDefault] by blast
  let ?s1 = "wait_for (GettingLength h) tid FsDelegateRamdisk (s\<lparr>pf_transactions := t\<rparr>)"
  have "node_delegate s n = Some (Inr (Some FsDelegateRamdisk))" using depictedD(2) [OF assms(1)] by (simp add: node_delegate_def)
  then have "fsLength ev s = Some (Inr (?s1, CurrentThread))" using assms(3-5) l(1)
    by (simp add: fsLength_def FsTransactionHandlerDiscovery_startTransaction_def FsTransactionHandlerDiscovery_new_def afterFinishTransaction_def
        FsTransactionHandlerDiscoveryGetLength_afterFinishTransaction_def return_after_def)
  moreover have "\<exists>s2. check_waiting ev ?s1 = Some (Inr s2) \<and> kf_waiter s2 = None \<and>
      kf_length s2 = (kf_length s)\<lparr>fl_length_status := FS_LENGTH_SUCCESSFUL, fl_length := ucast (re_datalength (rd_objects (kf_rd s) ! e))\<rparr>"
    using l(2-5) by (simp add: check_waiting_def wait_for_def WaiterFsTransaction_checkWaiting_def transaction_waiting_def FsTransactionHandlerGetLength_finishTransaction_def
        FsTransactionHandlerGetLengthDefault_performAfterwork_def keep_handler_def Let_def)
  moreover have "kf_length ?s1 = kf_length s" "kf_waiter ?s1 \<noteq> None" by (simp_all add: wait_for_def)
  ultimately show ?thesis by blast
qed

theorem length_returns_early_witness:
  "\<exists>s1 s2. fsLength example_env example_opened = Some (Inr (s1, CurrentThread)) \<and> fl_length_status (kf_length s1) = FS_LENGTH_ERROR \<and>
    check_waiting example_env s1 = Some (Inr s2) \<and> fl_length_status (kf_length s2) = FS_LENGTH_SUCCESSFUL \<and> fl_length (kf_length s2) = 3"
proof -
  have "fl_length_mode (kf_length example_opened) AND SYSCALL_FS_LENGTH_MODE_BY_MASK \<noteq> SYSCALL_FS_LENGTH_BY_FD" "fl_length_status (kf_length example_opened) = FS_LENGTH_ERROR"
    "FileSystem_concatAsAbsolutePath (kf_cwd example_opened (kf_pid example_opened)) (fl_path (kf_length example_opened)) = Inr ''/rc''"
    by (simp_all add: example_opened_def example_kfs_def SYSCALL_FS_LENGTH_BY_FD_def SYSCALL_FS_LENGTH_MODE_BY_MASK_def FileSystem_concatAsAbsolutePath_def PATH_MAX_def)
  moreover have "FileSystem_findExisting (kf_vfs example_opened) ''/rc'' = (4, Some 4, [])"
    by (simp add: FileSystem_findExisting_def find_loop_resolve components_def example_opened_def attach_def initialize_nodes FsNode_findChild_def FsNode_new_def)
  ultimately show ?thesis using length_returns_early [OF example_opened_ok(5,2), of "''/rc''" example_env] example_opened_ok(9) by fastforce
qed

end
