(* ===== verification/RamdiskWriter.thy ===== *)
theory RamdiskWriter
  imports Ramdisk
begin

unbundle bit_operations_syntax

text \<open>
  The tool that packs a directory into a ramdisk image (Meta/Tools/RamdiskWriter/RamdiskWriter.cc and
  .hh), and the two ends together: what the kernel loads from a packed image.

  The directory on the host is a tree, with the entries of a directory in the order in which the
  directory iterator visits them. The image is the list of the bytes written. Strings of the
  library \<open>std::string\<close> are lists, and a search that finds nothing is \<open>None\<close>.
\<close>

section \<open>Source files\<close>

datatype source_file = Regular string "u8 list" | Directory string "source_file list" | Special string

primrec filename :: "source_file \<Rightarrow> string" where
  "filename (Regular name data) = name"
| "filename (Directory name es) = name"
| "filename (Special name) = name"

primrec is_directory :: "source_file \<Rightarrow> bool" where
  "is_directory (Regular name data) = False"
| "is_directory (Directory name es) = True"
| "is_directory (Special name) = False"

primrec is_special :: "source_file \<Rightarrow> bool" where
  "is_special (Regular name data) = False"
| "is_special (Directory name es) = False"
| "is_special (Special name) = True"

definition path_join :: "string \<Rightarrow> string \<Rightarrow> string" where
  "path_join path name = (if path = [] \<or> last path = CHR ''/'' then path @ name else path @ ''/'' @ name)"

section \<open>Files to ignore\<close>

fun str_find :: "string \<Rightarrow> string \<Rightarrow> nat option" where
  "str_find part s =
     (if take (length part) s = part then Some 0
      else case s of [] \<Rightarrow> None | c # s \<Rightarrow> map_option Suc (str_find part s))"

definition blank :: "char \<Rightarrow> bool" where
  "blank c \<longleftrightarrow> c = CHR '' '' \<or> c = CHR 0x0A \<or> c = CHR 0x09"

text \<open>\<open>trim\<close> of a string of blanks calls \<open>substr\<close> with an invalid position, which raises an exception (\<open>None\<close>).\<close>

definition trim :: "string \<Rightarrow> string option" where
  "trim str = (if str = [] then Some str
     else if list_all blank str then None
     else Some (rev (dropWhile blank (rev (dropWhile blank str)))))"

definition ignored_by :: "string \<Rightarrow> string \<Rightarrow> string \<Rightarrow> bool" where
  "ignored_by base_path path ignore \<longleftrightarrow>
     (str_find ''*'' ignore = Some 0 \<and>
        (let part = drop 1 ignore in length part \<le> length path \<and> str_find part path = Some (length path - length part))) \<or>
     (str_find ''*'' ignore = (if ignore = [] then None else Some (length ignore - 1)) \<and>
        (let part = take (length ignore - 1) ignore in str_find (base_path @ ''/'' @ part) path = Some 0)) \<or>
     base_path @ ''/'' @ ignore = path"

fun ignored :: "string list \<Rightarrow> string \<Rightarrow> string \<Rightarrow> bool" where
  "ignored [] base_path path = False"
| "ignored (ignore # ignores) base_path path = (if ignored_by base_path path ignore then True else ignored ignores base_path path)"

section \<open>Writing\<close>

definition le_bytes :: "u32 \<Rightarrow> u8 list" where
  "le_bytes w = [ucast w, ucast (drop_bit 8 w), ucast (drop_bit 16 w), ucast (drop_bit 24 w)]"

text \<open>The fields before the contents; the root, which has the identifier 0, has none.\<close>

definition entry_header :: "i32 \<Rightarrow> u32 \<Rightarrow> string \<Rightarrow> bool \<Rightarrow> u8 list" where
  "entry_header entry_id parent_id name is_file =
     (if 0 < sint entry_id
      then (if is_file then 1 else 0) # le_bytes entry_id @ le_bytes parent_id @ le_bytes (of_nat (length name)) @ map of_char name
      else [])"

fun write_recursive :: "string list \<Rightarrow> string \<Rightarrow> string \<Rightarrow> string \<Rightarrow> u32 \<Rightarrow> source_file \<Rightarrow> i32 \<times> u8 list \<Rightarrow> i32 \<times> u8 list"
  and write_directory :: "string list \<Rightarrow> string \<Rightarrow> string \<Rightarrow> u32 \<Rightarrow> source_file list \<Rightarrow> i32 \<times> u8 list \<Rightarrow> i32 \<times> u8 list" where
  "write_recursive ignores base_path path name parent_id (Regular n data) (m_next_id, m_out_file) =
     (if ignored ignores base_path path then (m_next_id, m_out_file)
      else (m_next_id + 1, m_out_file @ entry_header m_next_id parent_id name True @ le_bytes (of_nat (length data)) @ data))"
| "write_recursive ignores base_path path name parent_id (Directory n es) (m_next_id, m_out_file) =
     (if ignored ignores base_path path then (m_next_id, m_out_file)
      else write_directory ignores base_path path m_next_id es (m_next_id + 1, m_out_file @ entry_header m_next_id parent_id name False))"
| "write_recursive ignores base_path path name parent_id (Special n) s = s"
| "write_directory ignores base_path path entry_id [] s = s"
| "write_directory ignores base_path path entry_id (e # es) s =
     write_directory ignores base_path path entry_id es
       (if is_special e \<or> (is_directory e \<and> (filename e = ''.'' \<or> filename e = ''..'')) then s
        else write_recursive ignores base_path (path_join path (filename e)) (filename e) entry_id e s)"

fun read_ignores :: "string list \<Rightarrow> string list \<Rightarrow> string list option" where
  "read_ignores [] ignores = Some ignores"
| "read_ignores (line # lines) ignores =
     (if line = [] then read_ignores lines ignores
      else case trim line of None \<Rightarrow> None | Some t \<Rightarrow> read_ignores lines (ignores @ [t]))"

text \<open>\<open>create\<close>: \<open>read_ignore\<close> has the lines of the file of that name, when it is there.\<close>

definition writer_ignores :: "string \<Rightarrow> string list option \<Rightarrow> string list option" where
  "writer_ignores source_path read_ignore =
     (case read_ignore of
        None \<Rightarrow> Some [''*.keep'']
      | Some lines \<Rightarrow> read_ignores lines [''*.keep'', source_path @ ''/.read_ignore''])"

definition RamdiskWriter_create :: "string \<Rightarrow> string list option \<Rightarrow> source_file list \<Rightarrow> u8 list option" where
  "RamdiskWriter_create source_path read_ignore es =
     (case writer_ignores source_path read_ignore of
        None \<Rightarrow> None
      | Some ignores \<Rightarrow> Some (snd (write_recursive ignores source_path source_path [] 0 (Directory [] es) (0, []))))"

text \<open>
  The list of the files to ignore gets the full path of the list itself, but a path to ignore is
  compared relative to the source directory: the list is packed.
\<close>

lemma str_find_char: "c \<notin> set s \<Longrightarrow> str_find [c] s = None"
  by (induction s) auto

lemma read_ignore_not_ignored:
  assumes "CHR ''*'' \<notin> set source_path"
  shows "\<not> ignored_by source_path (source_path @ ''/.read_ignore'') (source_path @ ''/.read_ignore'')"
proof -
  have "str_find ''*'' (source_path @ ''/.read_ignore'') = None" using assms by (intro str_find_char) simp
  moreover have "source_path @ ''/'' @ source_path @ ''/.read_ignore'' \<noteq> source_path @ ''/.read_ignore''"
    by (rule notI, drule arg_cong [where f = length]) simp
  ultimately show ?thesis unfolding ignored_by_def by auto
qed

section \<open>What is packed\<close>

text \<open>The tree without what the tool leaves out, and the list of its entries with identifiers and parents.\<close>

fun packed :: "string list \<Rightarrow> string \<Rightarrow> string \<Rightarrow> source_file list \<Rightarrow> source_file list" where
  "packed ignores base_path path [] = []"
| "packed ignores base_path path (Special name # es) = packed ignores base_path path es"
| "packed ignores base_path path (Regular name data # es) =
     (if ignored ignores base_path (path_join path name) then packed ignores base_path path es
      else Regular name data # packed ignores base_path path es)"
| "packed ignores base_path path (Directory name cs # es) =
     (if name = ''.'' \<or> name = ''..'' \<or> ignored ignores base_path (path_join path name) then packed ignores base_path path es
      else Directory name (packed ignores base_path (path_join path name) cs) # packed ignores base_path path es)"

fun listing :: "nat \<Rightarrow> nat \<Rightarrow> source_file list \<Rightarrow> (nat \<times> nat \<times> source_file) list" where
  "listing next' parent [] = []"
| "listing next' parent (Special name # es) = listing next' parent es"
| "listing next' parent (Regular name data # es) = (next', parent, Regular name data) # listing (Suc next') parent es"
| "listing next' parent (Directory name cs # es) =
     (next', parent, Directory name cs) # listing (Suc next') next' cs @ listing (Suc next' + length (listing (Suc next') next' cs)) parent es"

definition encode :: "nat \<times> nat \<times> source_file \<Rightarrow> u8 list" where
  "encode x = (case x of (id', parent, f) \<Rightarrow>
     (if is_directory f then 0 else 1) # le_bytes (of_nat id') @ le_bytes (of_nat parent) @
     le_bytes (of_nat (length (filename f))) @ map of_char (filename f) @
     (case f of Regular name data \<Rightarrow> le_bytes (of_nat (length data)) @ data | _ \<Rightarrow> []))"

lemma sint_of_nat_pos:
  assumes "0 < n" and "n < 2 ^ 31"
  shows "0 < sint (of_nat n :: u32)"
proof -
  have "unat (of_nat n :: u32) = n" using assms(2) by (intro unat_of_nat_u32) simp
  then show ?thesis using assms sint_small [of "of_nat n"] by simp
qed

lemma entry_header_encode:
  assumes "0 < n" and "n < 2 ^ 31"
  shows "entry_header (of_nat n) (of_nat parent) name True @ le_bytes (of_nat (length data)) @ data = encode (n, parent, Regular name data)"
    and "entry_header (of_nat n) (of_nat parent) name False = encode (n, parent, Directory name cs)"
  using sint_of_nat_pos [OF assms] by (simp_all add: entry_header_def encode_def)

lemma write_directory_listing:
  assumes "0 < next'" and "next' + length (listing next' parent (packed ignores base_path path es)) < 2 ^ 31"
  shows "write_directory ignores base_path path (of_nat parent) es (of_nat next', out) =
    (of_nat (next' + length (listing next' parent (packed ignores base_path path es))),
     out @ concat (map encode (listing next' parent (packed ignores base_path path es))))"
  using assms
proof (induction ignores base_path path es arbitrary: next' parent out rule: packed.induct)
  case (1 ignores base_path path)
  then show ?case by simp
next
  case (2 ignores base_path path name es)
  then show ?case by simp
next
  case (3 ignores base_path path name data es)
  show ?case
  proof (cases "ignored ignores base_path (path_join path name)")
    case True
    then show ?thesis using 3 by simp
  next
    case False
    then have "next' < 2 ^ 31" using 3(4) by simp
    with False show ?thesis
      using 3(2) [OF False, of "Suc next'" parent] 3(4) entry_header_encode(1) [OF 3(3), of parent name data]
      by (simp add: add.commute)
  qed
next
  case (4 ignores base_path path name cs es)
  show ?case
  proof (cases "name = ''.'' \<or> name = ''..'' \<or> ignored ignores base_path (path_join path name)")
    case True
    then show ?thesis using 4 by auto
  next
    case False
    let ?cs = "packed ignores base_path (path_join path name) cs"
    let ?L = "listing (Suc next') next' ?cs"
    have less: "next' < 2 ^ 31" "Suc next' + length ?L < 2 ^ 31" using 4(5) False by simp_all
    have sub: "write_directory ignores base_path (path_join path name) (of_nat next') cs (of_nat (Suc next'), out @ encode (next', parent, Directory name ?cs)) =
        (of_nat (Suc next' + length ?L), (out @ encode (next', parent, Directory name ?cs)) @ concat (map encode ?L))"
      by (rule 4(2) [OF False]) (use less in simp_all)
    have enc: "encode (next', parent, Directory name ?cs) = encode (next', parent, Directory name cs)" by (simp add: encode_def)
    have "write_directory ignores base_path path (of_nat parent) es (of_nat (Suc next' + length ?L), (out @ encode (next', parent, Directory name ?cs)) @ concat (map encode ?L)) =
        (of_nat (Suc next' + length ?L + length (listing (Suc next' + length ?L) parent (packed ignores base_path path es))),
         ((out @ encode (next', parent, Directory name ?cs)) @ concat (map encode ?L)) @ concat (map encode (listing (Suc next' + length ?L) parent (packed ignores base_path path es))))"
      by (rule 4(3) [OF False]) (use 4(5) False in simp_all)
    then show ?thesis
      using False sub entry_header_encode(2) [OF 4(4) less(1), of parent name cs] enc by (simp add: add.commute add.left_commute)
  qed
qed

section \<open>Loading a packed image\<close>

lemma le_bytes_length [simp]: "length (le_bytes w) = 4"
  by (simp add: le_bytes_def)

lemma u32_le_bytes [simp]: "u32_of_bytes (le_bytes w) = w"
proof (rule bit_word_eqI)
  fix n
  assume "n < LENGTH(32)"
  then consider "n < 8" | "8 \<le> n" "n < 16" | "16 \<le> n" "n < 24" | "24 \<le> n" "n < 32" by fastforce
  then show "bit (u32_of_bytes (le_bytes w)) n = bit w n"
    by cases (auto simp: u32_of_bytes_def le_bytes_def bit_simps)
qed

lemma byte_char_of_char [simp]: "byte_char (of_char c) = c"
proof -
  have "(of_char c :: nat) mod 256 = of_char c" by simp
  then have "(of_char c :: nat) < 2 ^ 8" using mod_less_divisor [of 256 "of_char c :: nat"] by simp
  then have "unat (of_nat (of_char c) :: u8) = of_char c" by (simp add: unat_of_nat)
  then have "unat (of_char c :: u8) = of_char c" by (simp only: of_nat_of_char)
  then show ?thesis by (simp add: byte_char_def)
qed

lemma image_bytes_at:
  assumes "p + n \<le> length img" and "length img < 2 ^ 32"
  shows "image_bytes img (adr p) n = Inr (take n (drop p img))"
  using assms by (simp add: image_bytes_def unat_adr)

lemma image_u32_at:
  assumes "p + 4 \<le> length img" and "length img < 2 ^ 32" and "take 4 (drop p img) = le_bytes w"
  shows "image_u32 img (adr p) = Inr w"
  using assms by (simp add: image_u32_def image_bytes_at)

lemma image_u32_mid:
  assumes "length (xs @ le_bytes w @ ys) < 2 ^ 32"
  shows "image_u32 (xs @ le_bytes w @ ys) (adr (length xs)) = Inr w"
  using assms by (intro image_u32_at) simp_all

definition entry_of :: "nat \<Rightarrow> nat \<times> nat \<times> source_file \<Rightarrow> rd_entry" where
  "entry_of p x = (case x of (id', parent, f) \<Rightarrow>
     let e = RamdiskEntry_new\<lparr>re_type := if is_directory f then RAMDISK_ENTRY_TYPE_FOLDER else RAMDISK_ENTRY_TYPE_FILE, re_id := of_nat id',
               re_parentid := of_nat parent, re_name := filename f @ [NUL], re_dataOnRamdisk := True\<rparr>
     in case f of Regular name data \<Rightarrow> e\<lparr>re_datalength := of_nat (length data), re_data := OnImage (adr (p + 17 + length name))\<rparr> | _ \<Rightarrow> e)"

definition next_unused :: "u32 \<Rightarrow> nat \<times> nat \<times> source_file \<Rightarrow> u32" where
  "next_unused next' x = (if next' < of_nat (fst x) then of_nat (fst x) + 1 else next')"

lemma adr_plus_numeral: "adr x + numeral k = adr (x + numeral k)" "adr x + 1 = adr (x + 1)" "adr x + of_nat n = adr (x + n)"
  by (simp_all add: adr_def)

lemma load_header_encode:
  assumes "length (pre @ encode x @ post) < 2 ^ 32" and "\<not> is_special (snd (snd x))"
  shows "load_header (pre @ encode x @ post) (adr (length pre)) next' =
    Inr (entry_of (length pre) x, adr (length pre + length (encode x)), next_unused next' x)"
proof -
  obtain i q f where x: "x = (i, q, f)" by (cases x)
  let ?img = "pre @ encode x @ post" and ?p = "length pre" and ?n = "length (filename f)"
  have len: "length (encode x) = 13 + ?n + (case f of Regular name data \<Rightarrow> 4 + length data | _ \<Rightarrow> 0)"
    by (auto simp: x encode_def split: source_file.split)
  have n32: "?n < 2 ^ 32" using assms(1) len by simp
  have type: "image_bytes ?img (adr ?p) 1 = Inr [if is_directory f then 0 else 1]"
    using assms(1) len by (subst image_bytes_at) (simp_all add: x encode_def)
  have id': "image_u32 ?img (adr ?p + 1) = Inr (of_nat i)"
    unfolding adr_plus_numeral using assms(1) len by (intro image_u32_at) (simp_all add: x encode_def)
  have parent: "image_u32 ?img (adr ?p + 1 + 4) = Inr (of_nat q)"
    unfolding adr_plus_numeral using assms(1) len by (intro image_u32_at) (simp_all add: x encode_def)
  have namelen: "image_u32 ?img (adr ?p + 1 + 4 + 4) = Inr (of_nat ?n)"
    unfolding adr_plus_numeral using assms(1) len by (intro image_u32_at) (simp_all add: x encode_def)
  have name: "image_bytes ?img (adr ?p + 1 + 4 + 4 + 4) ?n = Inr (map of_char (filename f))"
    unfolding adr_plus_numeral using assms(1) len by (subst image_bytes_at) (simp_all add: x encode_def)
  show ?thesis
  proof (cases f)
    case (Regular nm data)
    have d32: "length data < 2 ^ 32" using assms(1) len Regular by simp
    have datalen: "image_u32 ?img (adr ?p + 1 + 4 + 4 + 4 + of_nat ?n) = Inr (of_nat (length data))"
    proof -
      let ?h = "1 # le_bytes (of_nat i) @ le_bytes (of_nat q) @ le_bytes (of_nat ?n) @ map of_char (filename f)"
      have "?img = (pre @ ?h) @ le_bytes (of_nat (length data)) @ data @ post" using Regular by (simp add: x encode_def)
      moreover have "adr ?p + 1 + 4 + 4 + 4 + of_nat ?n = adr (length (pre @ ?h))" by (simp add: adr_def)
      ultimately show ?thesis using assms(1) by (metis image_u32_mid)
    qed
    show ?thesis
      using type id' parent namelen name datalen len Regular n32 d32
      by (simp add: load_header_def Let_def unat_of_nat_u32 x entry_of_def next_unused_def adr_def comp_def
          RAMDISK_ENTRY_TYPE_FILE_def RamdiskEntry_new_def)
  next
    case (Directory nm cs)
    show ?thesis
      using type id' parent namelen name len Directory n32
      by (simp add: load_header_def Let_def unat_of_nat_u32 x entry_of_def next_unused_def adr_def comp_def
          RAMDISK_ENTRY_TYPE_FILE_def RAMDISK_ENTRY_TYPE_FOLDER_def RamdiskEntry_new_def)
  next
    case (Special nm)
    then show ?thesis using assms(2) x by simp
  qed
qed

fun entries_at :: "nat \<Rightarrow> (nat \<times> nat \<times> source_file) list \<Rightarrow> rd_entry list" where
  "entries_at p [] = []"
| "entries_at p (x # xs) = entry_of p x # entries_at (p + length (encode x)) xs"

lemma load_loop_encode:
  assumes "unat start + length (pre @ concat (map encode xs)) < 2 ^ 32" and "\<forall>x \<in> set xs. \<not> is_special (snd (snd x))"
  shows "load_loop start (pre @ concat (map encode xs)) (adr (length pre)) headers next' =
    Some (Inr (headers @ entries_at (length pre) xs, foldl next_unused next' xs))"
  using assms
proof (induction xs arbitrary: pre headers next')
  case Nil
  then show ?case by (subst load_loop.simps) (simp add: adr_def)
next
  case (Cons x xs)
  let ?img = "pre @ concat (map encode (x # xs))"
  have "length (encode x) \<noteq> 0" by (auto simp: encode_def split: prod.splits)
  then have less: "unat start + length pre < unat start + length ?img" by simp
  have "start + adr k = adr (unat start + k)" for k by (metis adr_plus adr_unat)
  then have cond: "start + adr (length pre) < start + of_nat (length ?img)"
    using less Cons.prems(1) by (simp only: adr_def [symmetric] not_le [symmetric] adr_le) (simp add: adr_le)
  have "load_header ?img (adr (length pre)) next' = Inr (entry_of (length pre) x, adr (length pre + length (encode x)), next_unused next' x)"
    using load_header_encode [of pre x "concat (map encode xs)"] Cons.prems by simp
  moreover have "load_loop start ((pre @ encode x) @ concat (map encode xs)) (adr (length (pre @ encode x))) (headers @ [entry_of (length pre) x]) (next_unused next' x) =
      Some (Inr ((headers @ [entry_of (length pre) x]) @ entries_at (length (pre @ encode x)) xs, foldl next_unused (next_unused next' x) xs))"
    by (rule Cons.IH) (use Cons.prems in simp_all)
  ultimately show ?case using cond by (subst load_loop.simps) simp
qed

text \<open>An entry of the kernel stands for a packed file: identifiers, name, type and contents are its own.\<close>

definition represents :: "u8 list \<Rightarrow> rd_entry \<Rightarrow> nat \<times> nat \<times> source_file \<Rightarrow> bool" where
  "represents img e x \<longleftrightarrow> (case x of (id', parent, f) \<Rightarrow>
     re_id e = of_nat id' \<and> re_parentid e = of_nat parent \<and> re_name e = filename f @ [NUL] \<and>
     re_type e = (if is_directory f then RAMDISK_ENTRY_TYPE_FOLDER else RAMDISK_ENTRY_TYPE_FILE) \<and>
     (case f of Regular name data \<Rightarrow> re_datalength e = of_nat (length data) \<and>
        (\<exists>p. re_data e = OnImage p \<and> image_bytes img p (length data) = Inr data) | _ \<Rightarrow> re_data e = NoData))"

lemma entries_at_represent:
  assumes "length (pre @ concat (map encode xs)) < 2 ^ 32"
  shows "list_all2 (represents (pre @ concat (map encode xs))) (entries_at (length pre) xs) xs"
  using assms
proof (induction xs arbitrary: pre)
  case Nil
  then show ?case by simp
next
  case (Cons x xs)
  obtain i q f where x: "x = (i, q, f)" by (cases x)
  have "represents (pre @ encode x @ concat (map encode xs)) (entry_of (length pre) x) x"
  proof (cases f)
    case (Regular nm data)
    let ?h = "pre @ 1 # le_bytes (of_nat i) @ le_bytes (of_nat q) @ le_bytes (of_nat (length nm)) @ map of_char nm @ le_bytes (of_nat (length data))"
    have h: "pre @ encode x @ concat (map encode xs) = ?h @ data @ concat (map encode xs)" by (simp add: x Regular encode_def)
    have "length ?h + length data \<le> length (?h @ data @ concat (map encode xs))" by simp
    moreover have "length (?h @ data @ concat (map encode xs)) < 2 ^ 32" using Cons.prems unfolding h [symmetric] by simp
    ultimately have "image_bytes (pre @ encode x @ concat (map encode xs)) (adr (length ?h)) (length data) = Inr data"
      unfolding h by (metis append_eq_conv_conj image_bytes_at)
    moreover have "length ?h = length pre + 17 + length nm" by simp
    ultimately show ?thesis by (simp add: represents_def entry_of_def x Regular RamdiskEntry_new_def add.assoc)
  qed (simp_all add: represents_def entry_of_def x RamdiskEntry_new_def)
  then show ?case using Cons.IH [of "pre @ encode x"] Cons.prems by simp
qed

section \<open>Identifiers and children in the listing\<close>

lemma listing_ids: "map fst (listing next' parent es) = [next'..<next' + length (listing next' parent es)]"
proof (induction next' parent es rule: listing.induct)
  case (4 next' parent name cs es)
  let ?m = "next' + length (listing (Suc next') next' cs)"
  have "[Suc next'..<Suc ?m] @ [Suc ?m..<Suc ?m + length (listing (Suc ?m) parent es)] = [Suc next'..<Suc ?m + length (listing (Suc ?m) parent es)]"
    by (metis append_same_eq le_add1 upt_add_eq_append le_SucI add_Suc)
  then show ?case using 4 by (simp add: upt_conv_Cons add.assoc del: upt_Suc)
qed (simp_all add: upt_conv_Cons del: upt_Suc)

lemma listing_id_less: "(i, q, f) \<in> set (listing next' parent es) \<Longrightarrow> next' \<le> i \<and> i < next' + length (listing next' parent es)"
  using arg_cong [OF listing_ids [of next' parent es], of set] by (force simp: image_iff)

lemma listing_parents:
  "(i, q, f) \<in> set (listing next' parent es) \<Longrightarrow> q = parent \<or> next' \<le> q \<and> q < next' + length (listing next' parent es)"
proof (induction next' parent es arbitrary: i q f rule: listing.induct)
  case (4 next' parent name cs es)
  then show ?case by (fastforce dest: listing_id_less)
qed fastforce+

definition children :: "nat \<Rightarrow> (nat \<times> nat \<times> source_file) list \<Rightarrow> (nat \<times> source_file) list" where
  "children i L = map (\<lambda>(j, q, f). (j, f)) (filter (\<lambda>(j, q, f). q = i) L)"

lemma children_append [simp]: "children i (xs @ ys) = children i xs @ children i ys"
  by (simp add: children_def)

lemma children_Cons [simp]: "children i ((j, q, f) # L) = (if q = i then [(j, f)] else []) @ children i L"
  by (simp add: children_def)

lemma children_none: "(\<And>j q f. (j, q, f) \<in> set L \<Longrightarrow> q \<noteq> i) \<Longrightarrow> children i L = []"
  by (auto simp: children_def filter_empty_conv)

lemma children_files: "parent < next' \<Longrightarrow> map snd (children parent (listing next' parent es)) = filter (\<lambda>f. \<not> is_special f) es"
proof (induction next' parent es rule: listing.induct)
  case (4 next' parent name cs es)
  have "children parent (listing (Suc next') next' cs) = []"
    by (rule children_none) (use "4.prems" listing_parents in fastforce)
  then show ?case using 4 by simp
qed (simp_all add: children_def)

lemma children_of_directory:
  "(i, q, Directory name cs) \<in> set (listing next' parent es) \<Longrightarrow> parent < next' \<Longrightarrow>
    children i (listing next' parent es) = children i (listing (Suc i) i cs)"
proof (induction next' parent es arbitrary: i q name cs rule: listing.induct)
  case (3 next' parent nm data es)
  then have m: "(i, q, Directory name cs) \<in> set (listing (Suc next') parent es)" by simp
  then show ?case using "3.IH" [OF m] "3.prems"(2) listing_id_less [OF m] by simp
next
  case (4 next' parent nm ds es)
  let ?S = "listing (Suc next') next' ds" and ?R = "listing (Suc next' + length (listing (Suc next') next' ds)) parent es"
  consider "i = next'" "ds = cs" | "(i, q, Directory name cs) \<in> set ?S" | "(i, q, Directory name cs) \<in> set ?R"
    using "4.prems"(1) by auto
  then show ?case
  proof cases
    case 1
    have "children i ?R = []" by (rule children_none) (use 1 "4.prems"(2) listing_parents in fastforce)
    then show ?thesis using 1 "4.prems"(2) by simp
  next
    case 2
    have "children i ?R = []" by (rule children_none) (use listing_id_less [OF 2] "4.prems"(2) listing_parents in fastforce)
    then show ?thesis using "4.IH"(1) [OF 2] listing_id_less [OF 2] "4.prems"(2) by simp
  next
    case 3
    have "children i ?S = []" by (rule children_none) (use listing_id_less [OF 3] listing_parents in fastforce)
    then show ?thesis using "4.IH"(3) [OF 3] listing_id_less [OF 3] "4.prems"(2) by simp
  qed
qed auto

lemma children_of_file:
  assumes "(i, q, f) \<in> set (listing next' parent es)" and "\<not> is_directory f" and "parent < next'"
  shows "children i (listing next' parent es) = []"
  using assms(1,3)
proof (induction next' parent es arbitrary: i q rule: listing.induct)
  case (3 next' parent name data es)
  have "children next' (listing (Suc next') parent es) = []" by (rule children_none) (use "3.prems"(2) listing_parents in fastforce)
  then show ?case using 3 listing_id_less by fastforce
next
  case (4 next' parent nm ds es)
  let ?S = "listing (Suc next') next' ds" and ?R = "listing (Suc next' + length (listing (Suc next') next' ds)) parent es"
  consider "(i, q, f) \<in> set ?S" | "(i, q, f) \<in> set ?R" using "4.prems"(1) assms(2) by auto
  then show ?case
  proof cases
    case 1
    have "children i ?R = []" by (rule children_none) (use listing_id_less [OF 1] "4.prems"(2) listing_parents in fastforce)
    then show ?thesis using "4.IH"(1) [OF 1] listing_id_less [OF 1] "4.prems"(2) by simp
  next
    case 2
    have "children i ?S = []" by (rule children_none) (use listing_id_less [OF 2] listing_parents in fastforce)
    then show ?thesis using "4.IH"(3) [OF 2] listing_id_less [OF 2] "4.prems"(2) by simp
  qed
qed auto

section \<open>Searching a loaded image\<close>

text \<open>A ramdisk whose list is the listing of a tree.\<close>

definition loaded :: "source_file list \<Rightarrow> ramdisk \<Rightarrow> bool" where
  "loaded es rd \<longleftrightarrow> (\<exists>headers. rd_objects rd = RamdiskEntry_new # headers \<and> rd_first rd = [1..<Suc (length headers)] \<and> rd_root rd = Some 0 \<and>
     list_all2 (represents (rd_image rd)) headers (listing 1 0 es)) \<and> length (listing 1 0 es) < 2 ^ 31"

fun names_of :: "source_file list \<Rightarrow> string set" where
  "names_of [] = {}"
| "names_of (Directory name cs # es) = insert name (names_of cs \<union> names_of es)"
| "names_of (Regular name data # es) = insert name (names_of es)"
| "names_of (Special name # es) = insert name (names_of es)"

lemma listing_names: "(i, q, f) \<in> set (listing next' parent es) \<Longrightarrow> filename f \<in> names_of es"
  by (induction next' parent es arbitrary: i q rule: listing.induct) auto

lemma loaded_object:
  assumes "loaded es rd" and "(i, q, f) \<in> set (listing 1 0 es)"
  shows "represents (rd_image rd) (rd_objects rd ! i) (i, q, f)" "i \<in> set (rd_first rd)"
proof -
  obtain headers where h: "rd_objects rd = RamdiskEntry_new # headers" "rd_first rd = [1..<Suc (length headers)]"
      "list_all2 (represents (rd_image rd)) headers (listing 1 0 es)" using assms(1) by (auto simp: loaded_def)
  obtain k where k: "k < length (listing 1 0 es)" "listing 1 0 es ! k = (i, q, f)" using assms(2) by (meson in_set_conv_nth)
  have "map fst (listing 1 0 es) ! k = 1 + k" using k(1) by (simp only: listing_ids nth_upt)
  then have i: "i = Suc k" using k by simp
  show "represents (rd_image rd) (rd_objects rd ! i) (i, q, f)"
    using list_all2_nthD2 [OF h(3) k(1)] k(2) by (simp add: h(1) i)
  show "i \<in> set (rd_first rd)" using k(1) list_all2_lengthD [OF h(3)] by (auto simp: h(2) i)
qed

lemma loaded_first: "loaded es rd \<Longrightarrow> rd_first rd = map fst (listing 1 0 es)"
  unfolding listing_ids by (auto simp: loaded_def dest: list_all2_lengthD)

lemma loaded_names_ok:
  assumes "loaded es rd" and "\<forall>name \<in> names_of es. NUL \<notin> set name"
  shows "names_ok rd"
  unfolding names_ok_def
proof
  fix i
  assume "i \<in> set (rd_first rd)"
  then obtain q f where f: "(i, q, f) \<in> set (listing 1 0 es)" using loaded_first [OF assms(1)] by auto
  then show "\<exists>s. NUL \<notin> set s \<and> re_name (rd_objects rd ! i) = s @ [NUL]"
    using loaded_object(1) [OF assms(1) f] assms(2) listing_names [OF f] by (auto simp: represents_def)
qed

lemma find_children: "List.find (\<lambda>(j, q, f). q = p \<and> P f) L = map_option (\<lambda>(j, f). (j, p, f)) (List.find (\<lambda>(j, f). P f) (children p L))"
  by (induction L) (auto simp: children_def)

lemma find_cong_map: "(\<And>x. x \<in> set L \<Longrightarrow> P (g x) = Q x) \<Longrightarrow> List.find P (map g L) = map_option g (List.find Q L)"
  by (induction L) auto

lemma loaded_find:
  assumes "loaded es rd" and "p < 2 ^ 31"
  shows "List.find (child_named (rd_objects rd) (of_nat p) name) (rd_first rd) =
    map_option fst (List.find (\<lambda>(j, f). filename f = name) (children p (listing 1 0 es)))"
proof -
  have "child_named (rd_objects rd) (of_nat p) name (fst x) = (case x of (j, q, f) \<Rightarrow> q = p \<and> filename f = name)"
    if "x \<in> set (listing 1 0 es)" for x
  proof -
    obtain j q f where x: "x = (j, q, f)" by (cases x)
    have "q = 0 \<or> q < 1 + length (listing 1 0 es)" using listing_parents that x by blast
    then have "q < 2 ^ 32" using assms(1) by (auto simp: loaded_def)
    then have "(of_nat q :: u32) = of_nat p \<longleftrightarrow> q = p" using assms(2) by (intro of_nat_u32_inj) simp_all
    then show ?thesis using loaded_object(1) [OF assms(1)] that x by (auto simp: child_named_def represents_def)
  qed
  then have "List.find (child_named (rd_objects rd) (of_nat p) name) (rd_first rd) =
      map_option fst (List.find (\<lambda>(j, q, f). q = p \<and> filename f = name) (listing 1 0 es))"
    unfolding loaded_first [OF assms(1)] by (rule find_cong_map)
  also have "\<dots> = map_option fst (List.find (\<lambda>(j, f). filename f = name) (children p (listing 1 0 es)))"
    unfolding find_children [where P = "\<lambda>f. filename f = name"] by (simp add: option.map_comp comp_def case_prod_beta')
  finally show ?thesis .
qed

text \<open>The search along a path, in the tree: searching below nothing follows a null pointer.\<close>

primrec contents :: "source_file \<Rightarrow> source_file list" where
  "contents (Regular name data) = []"
| "contents (Directory name cs) = cs"
| "contents (Special name) = []"

fun tree_lookup :: "source_file list \<Rightarrow> string list \<Rightarrow> source_file option kres" where
  "tree_lookup es [] = Inr None"
| "tree_lookup es [name] = Inr (List.find (\<lambda>f. filename f = name) es)"
| "tree_lookup es (name # names) =
     (case List.find (\<lambda>f. filename f = name) es of None \<Rightarrow> Inl NullDeref | Some f \<Rightarrow> tree_lookup (contents f) names)"

text \<open>The node with identifier \<open>i\<close> of the tree has the given entries; the root has the identifier 0.\<close>

definition node_entries :: "source_file list \<Rightarrow> nat \<Rightarrow> source_file list \<Rightarrow> bool" where
  "node_entries es i cs \<longleftrightarrow> map snd (children i (listing 1 0 es)) = cs \<and>
     (i = 0 \<or> (\<exists>q f. (i, q, f) \<in> set (listing 1 0 es)))"

fun no_special :: "source_file list \<Rightarrow> bool" where
  "no_special [] \<longleftrightarrow> True"
| "no_special (Directory name cs # es) \<longleftrightarrow> no_special cs \<and> no_special es"
| "no_special (Regular name data # es) \<longleftrightarrow> no_special es"
| "no_special (Special name # es) \<longleftrightarrow> False"

lemma no_special_filter: "no_special es \<Longrightarrow> filter (\<lambda>f. \<not> is_special f) es = es"
  by (induction es rule: no_special.induct) auto

lemma no_special_listing: "(i, q, f) \<in> set (listing next' parent es) \<Longrightarrow> no_special es \<Longrightarrow> no_special (contents f) \<and> \<not> is_special f"
  by (induction next' parent es arbitrary: i q rule: listing.induct) auto

lemma packed_no_special: "no_special (packed ignores base_path path es)"
  by (induction ignores base_path path es rule: packed.induct) auto

lemma node_entries_contents:
  assumes "(i, q, f) \<in> set (listing 1 0 es)" and "no_special es"
  shows "node_entries es i (contents f)"
proof (cases f)
  case (Directory name cs)
  then have "children i (listing 1 0 es) = children i (listing (Suc i) i cs)" using children_of_directory [of i q name cs 1 0 es] assms(1) by simp
  moreover have "no_special cs" using no_special_listing [OF assms] Directory by simp
  ultimately show ?thesis using assms(1) Directory by (auto simp: node_entries_def children_files no_special_filter)
next
  case (Regular name data)
  then show ?thesis using children_of_file [of i q f 1 0 es] assms(1) by (auto simp: node_entries_def)
next
  case (Special name)
  then show ?thesis using no_special_listing [OF assms] by simp
qed

lemma node_entries_root: "no_special es \<Longrightarrow> node_entries es 0 es"
  using children_files [of 0 1 es] by (simp add: node_entries_def no_special_filter)

lemma find_map_snd: "List.find (\<lambda>f. P f) (map snd xs) = map_option snd (List.find (\<lambda>(j, f). P f) xs)"
  by (induction xs) auto

lemma loaded_findChild:
  assumes "loaded es rd" and "names_ok rd" and "node_entries es i cs" and "NUL \<notin> set name" and "rd_first rd \<noteq> []"
  shows "\<exists>node. Ramdisk_findChild rd (Some i) (name @ NUL # r) = Inr node \<and>
    (case List.find (\<lambda>f. filename f = name) cs of None \<Rightarrow> node = None
     | Some f \<Rightarrow> \<exists>j. node = Some j \<and> (j, i, f) \<in> set (listing 1 0 es))"
proof -
  have i: "i < 2 ^ 31 \<and> re_id (rd_objects rd ! i) = of_nat i"
  proof (cases "i = 0")
    case True
    then show ?thesis using assms(1) by (auto simp: loaded_def RamdiskEntry_new_def)
  next
    case False
    then obtain q f where f: "(i, q, f) \<in> set (listing 1 0 es)" using assms(3) by (auto simp: node_entries_def)
    then show ?thesis using loaded_object(1) [OF assms(1) f] listing_id_less [OF f] assms(1) by (auto simp: represents_def loaded_def)
  qed
  let ?c = "List.find (\<lambda>(j, f). filename f = name) (children i (listing 1 0 es))"
  have "Ramdisk_findChild rd (Some i) (name @ NUL # r) = Inr (map_option fst ?c)"
    using loaded_find [OF assms(1), of i name] i assms(5) by (simp add: findChild_spec [OF assms(2,4)])
  moreover have "List.find (\<lambda>f. filename f = name) cs = map_option snd ?c"
    using assms(3) find_map_snd [of "\<lambda>f. filename f = name" "children i (listing 1 0 es)"] by (simp add: node_entries_def)
  moreover have "(j, i, f) \<in> set (listing 1 0 es)" if "?c = Some (j, f)" for j f
  proof -
    have "(j, f) \<in> set (children i (listing 1 0 es))" using that by (metis find_Some_iff nth_mem)
    then show ?thesis by (auto simp: children_def)
  qed
  ultimately show ?thesis by (cases ?c) auto
qed

text \<open>What a search in the kernel gives for the result of the search in the tree.\<close>

definition found :: "source_file list \<Rightarrow> ramdisk \<Rightarrow> source_file option kres \<Rightarrow> nat option kres \<Rightarrow> bool" where
  "found es rd t r \<longleftrightarrow> (case t of Inl e \<Rightarrow> r = Inl e | Inr None \<Rightarrow> r = Inr None
     | Inr (Some f) \<Rightarrow> \<exists>j q. r = Inr (Some j) \<and> represents (rd_image rd) (rd_objects rd ! j) (j, q, f))"

lemma follow_tree_lookup:
  assumes "loaded es rd" and "names_ok rd" and "rd_first rd \<noteq> []" and "no_special es"
    and "node_entries es i cs" and "\<forall>name \<in> set names. NUL \<notin> set name" and "names \<noteq> []"
  shows "found es rd (tree_lookup cs names) (follow rd (Some i) names)"
  using assms(5-7)
proof (induction cs names arbitrary: i rule: tree_lookup.induct)
  case (1 cs)
  then show ?case by simp
next
  case (2 cs name)
  then obtain node where "Ramdisk_findChild rd (Some i) (name @ [NUL]) = Inr node"
      "case List.find (\<lambda>f. filename f = name) cs of None \<Rightarrow> node = None | Some f \<Rightarrow> \<exists>j. node = Some j \<and> (j, i, f) \<in> set (listing 1 0 es)"
    using loaded_findChild [OF assms(1,2), of i cs name "[]"] assms(3) by auto
  then show ?case using loaded_object(1) [OF assms(1)] by (fastforce simp: found_def split: option.splits)
next
  case (3 cs name m names)
  then obtain node where node: "Ramdisk_findChild rd (Some i) (name @ [NUL]) = Inr node"
      "case List.find (\<lambda>f. filename f = name) cs of None \<Rightarrow> node = None | Some f \<Rightarrow> \<exists>j. node = Some j \<and> (j, i, f) \<in> set (listing 1 0 es)"
    using loaded_findChild [OF assms(1,2), of i cs name "[]"] assms(3) by auto
  show ?case
  proof (cases "List.find (\<lambda>f. filename f = name) cs")
    case None
    then show ?thesis using node findChild_spec [OF assms(2), of m None "[]"] 3 by (simp add: found_def)
  next
    case (Some f)
    then obtain j where j: "node = Some j" "(j, i, f) \<in> set (listing 1 0 es)" using node by auto
    show ?thesis using "3.IH" [OF Some node_entries_contents [OF j(2) assms(4)]] 3 Some node j by simp
  qed
qed

lemma load_created:
  assumes "write_recursive ignores base_path base_path [] 0 (Directory [] es) (0, []) = (n, img)" and "\<not> ignored ignores base_path base_path"
    and "length (listing 1 0 (packed ignores base_path base_path es)) + 1 < 2 ^ 31" and "unat start + length img < 2 ^ 32"
  shows "\<exists>rd. Ramdisk_load (Ramdisk_new junk) start img = Some (Inr rd) \<and> loaded (packed ignores base_path base_path es) rd \<and>
    rd_image rd = img \<and> rd_nextUnusedId rd = foldl next_unused junk (listing 1 0 (packed ignores base_path base_path es))"
proof -
  let ?L = "listing 1 0 (packed ignores base_path base_path es)"
  have img: "img = concat (map encode ?L)"
    using assms(1,2) write_directory_listing [of 1 0 ignores base_path base_path es "[]"] assms(3) by (simp add: entry_header_def)
  have "\<forall>x \<in> set ?L. \<not> is_special (snd (snd x))" using no_special_listing packed_no_special by fastforce
  then have "load_loop start img 0 [] junk = Some (Inr (entries_at 0 ?L, foldl next_unused junk ?L))"
    using load_loop_encode [of start "[]" ?L "[]" junk] assms(4) img by (simp add: adr_def)
  moreover have "list_all2 (represents img) (entries_at 0 ?L) ?L"
    using entries_at_represent [of "[]" ?L] assms(4) img by simp
  ultimately show ?thesis using assms(3) by (auto simp: Ramdisk_load_def Ramdisk_new_def loaded_def)
qed

section \<open>Properties\<close>



lemma next_unused_sequence:
  assumes "n + k < 2 ^ 32"
  shows "map fst xs = [Suc n..<Suc (n + k)] \<Longrightarrow>
    foldl next_unused (of_nat (if even n then n else Suc n)) xs = of_nat (if even (n + k) then n + k else Suc (n + k))"
  using assms
proof (induction k arbitrary: n xs)
  case 0
  then show ?case by simp
next
  case (Suc k)
  then obtain x ys where xs: "xs = x # ys" "fst x = Suc n" "map fst ys = [Suc (Suc n)..<Suc (Suc n + k)]"
    by (cases xs) (auto simp: upt_conv_Cons simp del: upt_Suc)
  have "next_unused (of_nat (if even n then n else Suc n)) x = of_nat (if even (Suc n) then Suc n else Suc (Suc n))"
  proof -
    have "\<not> (of_nat (Suc n) :: u32) \<le> of_nat n" using Suc.prems(2) by (simp add: of_nat_u32_le del: of_nat_Suc)
    then have "(of_nat n :: u32) < of_nat (Suc n)" by (simp only: not_le)
    then show ?thesis using xs(2) by (auto simp: next_unused_def simp del: of_nat_Suc) (simp_all add: ac_simps)
  qed
  then show ?case using Suc.IH [OF xs(3)] xs(1) Suc.prems(2) by simp
qed

lemma find_by_id_loaded:
  assumes "loaded es rd" and "0 < i" and "i \<le> length (listing 1 0 es)"
  shows "Ramdisk_findById rd (of_nat i) = Some i"
proof -
  let ?L = "listing 1 0 es"
  have n: "length ?L < 2 ^ 31" using assms(1) by (simp add: loaded_def)
  have first: "rd_first rd = [1..<1 + length ?L]" using loaded_first [OF assms(1)] by (simp only: listing_ids)
  have id': "re_id (rd_objects rd ! j) = of_nat j" if "j \<in> set (rd_first rd)" for j
    using that loaded_first [OF assms(1)] loaded_object(1) [OF assms(1)] by (force simp: represents_def)
  have "find_by_id_loop (rd_objects rd) js (of_nat i) = (if i \<in> set js then Some i else None)" if "set js \<subseteq> set (rd_first rd)" for js
    using that
  proof (induction js)
    case (Cons j js)
    then have "j < 2 ^ 32" "re_id (rd_objects rd ! j) = of_nat j" using first n id' by auto
    moreover from this have "(of_nat j :: u32) = of_nat i \<longleftrightarrow> j = i" using assms(3) n by (intro of_nat_u32_inj) simp_all
    ultimately show ?case using Cons by simp
  qed simp
  moreover have "(of_nat i :: u32) \<noteq> 0" using assms(2,3) n by (simp add: of_nat_u32_eq_0)
  moreover have "i \<in> set (rd_first rd)" using first assms(2,3) by auto
  ultimately show ?thesis by (simp add: Ramdisk_findById_def)
qed

text \<open>
  Identifiers of new files: when an image with an even number of entries is loaded by a ramdisk
  whose counter starts at 0, the counter ends at the identifier of the last entry. The first file
  that is created gets this identifier, and from then on the search for it gives the new file
  instead of the loaded one.
\<close>

theorem ramdisk_id_reused:
  assumes "writer_ignores source_path read_ignore = Some ignores" and "RamdiskWriter_create source_path read_ignore es = Some img"
    and "\<not> ignored ignores source_path source_path" and "length (listing 1 0 (packed ignores source_path source_path es)) = n"
    and "0 < n" and "even n" and "n + 1 < 2 ^ 31" and "unat start + length img < 2 ^ 32" and "NUL \<notin> set filename'" and "length filename' < length junk"
  shows "\<exists>rd rd' fresh. Ramdisk_load (Ramdisk_new 0) start img = Some (Inr rd) \<and> Ramdisk_findById rd (of_nat n) = Some n \<and>
    Ramdisk_createChild rd (rd_root rd) (filename' @ [NUL]) junk = Inr (rd', fresh) \<and> fresh \<noteq> n \<and>
    re_id (rd_objects rd' ! fresh) = of_nat n \<and> re_id (rd_objects rd' ! n) = of_nat n \<and> Ramdisk_findById rd' (of_nat n) = Some fresh"
proof -
  let ?T = "packed ignores source_path source_path es"
  obtain m where w: "write_recursive ignores source_path source_path [] 0 (Directory [] es) (0, []) = (m, img)"
    using assms(1,2) by (simp only: RamdiskWriter_create_def option.case option.inject) (metis prod.collapse)
  obtain rd where rd: "Ramdisk_load (Ramdisk_new 0) start img = Some (Inr rd)" "loaded ?T rd" "rd_nextUnusedId rd = foldl next_unused 0 (listing 1 0 ?T)"
    using load_created [OF w assms(3), of start 0] assms(4,7,8) by auto
  have "map fst (listing 1 0 ?T) = [Suc 0..<Suc (0 + n)]" using listing_ids [of 1 0 ?T] assms(4) by simp
  from next_unused_sequence [OF _ this] have next': "rd_nextUnusedId rd = of_nat n" using rd(3) assms(6,7) by simp
  have find: "Ramdisk_findById rd (of_nat n) = Some n" using find_by_id_loaded [OF rd(2)] assms(4,5) by simp
  have objs: "length (rd_objects rd) = Suc n" "rd_root rd = Some 0" using rd(2) assms(4) by (auto simp: loaded_def dest: list_all2_lengthD)
  have id': "re_id (rd_objects rd ! n) = of_nat n"
  proof -
    have "n \<in> fst ` set (listing 1 0 ?T)" using arg_cong [OF listing_ids [of 1 0 ?T], of set] assms(4,5) by simp
    then show ?thesis using loaded_object(1) [OF rd(2)] by (force simp: represents_def)
  qed
  have name: "String_copy (take (length filename' + 1) junk) (filename' @ NUL # []) = Inr (filename' @ NUL # [])"
    using copy_string [OF assms(9), of "take (length filename' + 1) junk" "[]"] assms(10) by simp
  have n0: "(of_nat n :: u32) \<noteq> 0" using assms(5,7) by (simp add: of_nat_u32_eq_0)
  obtain rd' fresh where c: "Ramdisk_createChild rd (rd_root rd) (filename' @ [NUL]) junk = Inr (rd', fresh)" "fresh = Suc n"
      "rd_first rd' = fresh # rd_first rd" "\<exists>e. rd_objects rd' = rd_objects rd @ [e] \<and> re_id e = of_nat n"
    using name objs next' length_string [OF assms(9), of "[]"] by (auto simp: Ramdisk_createChild_def Let_def)
  have "Ramdisk_findById rd' (of_nat n) = Some fresh" using c n0 objs(1) by (auto simp: Ramdisk_findById_def nth_append)
  then show ?thesis using rd(1) find c objs(1) id' by (fastforce simp: nth_append)
qed

theorem ramdisk_id_reused_witness:
  "\<exists>rd rd' fresh. Ramdisk_load (Ramdisk_new 0) 0x1000 (encode (1, 0, Directory ''bin'' []) @ encode (2, 1, Regular ''sh'' [7, 8])) = Some (Inr rd) \<and>
    Ramdisk_findById rd 2 = Some 2 \<and> Ramdisk_createChild rd (rd_root rd) (''tmp'' @ [NUL]) (replicate 9 NUL) = Inr (rd', fresh) \<and> Ramdisk_findById rd' 2 = Some fresh \<and> fresh \<noteq> 2"
proof -
  let ?es = "[Directory ''bin'' [Regular ''sh'' [7, 8]]]"
  have ig: "writer_ignores ''r'' None = Some [''*.keep'']" by (simp add: writer_ignores_def)
  have root: "\<not> ignored [''*.keep''] ''r'' ''r''" by (simp add: ignored_by_def)
  have T: "length (listing 1 0 (packed [''*.keep''] ''r'' ''r'' ?es)) = 2" by (simp add: ignored_by_def path_join_def)
  have img: "RamdiskWriter_create ''r'' None ?es = Some (encode (1, 0, Directory ''bin'' []) @ encode (2, 1, Regular ''sh'' [7, 8]))"
    by (simp add: RamdiskWriter_create_def ig ignored_by_def path_join_def entry_header_def encode_def)
  have "unat (0x1000 :: u32) + length (encode (1, 0, Directory ''bin'' []) @ encode (2, 1, Regular ''sh'' [7, 8])) < 2 ^ 32"
    by (simp add: encode_def)
  from ramdisk_id_reused [OF ig img root T _ _ _ this, of "''tmp''" "replicate 9 NUL"] show ?thesis by (fastforce simp: NUL_def)
qed

end
