(* ===== verification/JsBigint.thy ===== *)
theory JsBigint
  imports Prelude
begin

unbundle bit_operations_syntax

text \<open>
  The big integers of the JavaScript command's number conversion (Userspace/Commands/JS/duktape.c,
  section duk_numconv.c). A bigint is the list of its \<open>n\<close> 32 bit parts, low to high; the parts of
  the array above \<open>n\<close> are never read. Where the source has one routine for compilers with 64 bit
  integers and one without, both are modelled; they are shown to agree. The value of a bigint is a
  natural number, and each operation is shown to compute on values what its comment says.
\<close>

section \<open>Data\<close>

type_synonym bigint = "u32 list"

definition DUK__BI_MAX_PARTS :: nat where
  "DUK__BI_MAX_PARTS = 37"

definition duk__bi_is_valid :: "bigint \<Rightarrow> bool" where
  "duk__bi_is_valid x \<longleftrightarrow> length x \<le> DUK__BI_MAX_PARTS \<and> (length x = 0 \<or> x ! (length x - 1) \<noteq> 0)"

text \<open>The loop from the top part down to the first that is not zero.\<close>

fun bi_significant :: "u32 list \<Rightarrow> nat \<Rightarrow> nat" where
  "bi_significant v 0 = 0"
| "bi_significant v (Suc i) = (if v ! i \<noteq> 0 then Suc i else bi_significant v i)"

definition duk__bi_normalize :: "bigint \<Rightarrow> bigint" where
  "duk__bi_normalize x = take (bi_significant x (length x)) x"

definition duk__bi_copy :: "bigint \<Rightarrow> bigint" where
  "duk__bi_copy y = take (length y) y"

definition duk__bi_set_small :: "u32 \<Rightarrow> bigint" where
  "duk__bi_set_small v = (if v = 0 then [] else [v])"

fun bi_compare_parts :: "u32 list \<Rightarrow> u32 list \<Rightarrow> nat \<Rightarrow> int" where
  "bi_compare_parts x y 0 = 0"
| "bi_compare_parts x y (Suc i) =
     (if x ! i > y ! i then 1 else if x ! i < y ! i then - 1 else bi_compare_parts x y i)"

definition duk__bi_compare :: "bigint \<Rightarrow> bigint \<Rightarrow> int" where
  "duk__bi_compare x y =
     (if length x > length y then 1 else if length x < length y then - 1 else bi_compare_parts x y (length x))"

section \<open>Addition\<close>

text \<open>With 64 bit integers: \<open>tmp\<close> holds the carry above the low 32 bits.\<close>

fun bi_add64 :: "u64 \<Rightarrow> u32 list \<Rightarrow> u32 list \<Rightarrow> u32 list" where
  "bi_add64 tmp [] z = (if tmp \<noteq> 0 then [ucast tmp] else [])"
| "bi_add64 tmp (y # ys) z =
     (let tmp = tmp + ucast y + (case z of [] \<Rightarrow> 0 | z0 # _ \<Rightarrow> ucast z0)
      in ucast (tmp AND 0xffffffff) # bi_add64 (drop_bit 32 tmp) ys (tl z))"

text \<open>Without: the carry is detected from the wrap of the 32 bit sum.\<close>

fun bi_add32 :: "bool \<Rightarrow> u32 list \<Rightarrow> u32 list \<Rightarrow> u32 list" where
  "bi_add32 carry [] z = (if carry then [1] else [])"
| "bi_add32 carry (tmp1 # ys) z =
     (let tmp2 = (case z of [] \<Rightarrow> tmp1 | z0 # _ \<Rightarrow> tmp1 + z0);
          tmp3 = (if carry then tmp2 + 1 else tmp2);
          carry' = (if carry then tmp3 \<le> tmp1 else tmp3 < tmp1)
      in tmp3 # bi_add32 carry' ys (tl z))"

definition duk__bi_add :: "bigint \<Rightarrow> bigint \<Rightarrow> bigint" where
  "duk__bi_add y z = (if length z > length y then bi_add64 0 z y else bi_add64 0 y z)"

definition duk__bi_add_no64 :: "bigint \<Rightarrow> bigint \<Rightarrow> bigint" where
  "duk__bi_add_no64 y z = (if length z > length y then bi_add32 False z y else bi_add32 False y z)"

definition duk__bi_add_small :: "bigint \<Rightarrow> u32 \<Rightarrow> bigint" where
  "duk__bi_add_small y z = duk__bi_add y (duk__bi_set_small z)"

section \<open>Subtraction\<close>

text \<open>\<open>tmp\<close> is the signed 64 bit intermediate; the shift to the right is arithmetic.\<close>

fun bi_sub64 :: "int \<Rightarrow> u32 list \<Rightarrow> u32 list \<Rightarrow> u32 list" where
  "bi_sub64 tmp [] z = []"
| "bi_sub64 tmp (ty # ys) z =
     (let tz = (case z of [] \<Rightarrow> 0 | z0 # _ \<Rightarrow> z0);
          tmp = uint ty - uint tz + tmp
      in word_of_int (take_bit 32 tmp) # bi_sub64 (drop_bit 32 tmp) ys (tl z))"

fun bi_sub32 :: "bool \<Rightarrow> u32 list \<Rightarrow> u32 list \<Rightarrow> u32 list" where
  "bi_sub32 borrow [] z = []"
| "bi_sub32 borrow (tmp1 # ys) z =
     (let tmp2 = (case z of [] \<Rightarrow> tmp1 | z0 # _ \<Rightarrow> tmp1 - z0);
          tmp3 = (if borrow then tmp2 - 1 else tmp2);
          borrow' = (if borrow then tmp3 \<ge> tmp1 else tmp3 > tmp1)
      in tmp3 # bi_sub32 borrow' ys (tl z))"

definition duk__bi_sub :: "bigint \<Rightarrow> bigint \<Rightarrow> bigint" where
  "duk__bi_sub y z = duk__bi_normalize (bi_sub64 0 y z)"

definition duk__bi_sub_no64 :: "bigint \<Rightarrow> bigint \<Rightarrow> bigint" where
  "duk__bi_sub_no64 y z = duk__bi_normalize (bi_sub32 False y z)"

definition duk__bi_sub_copy :: "bigint \<Rightarrow> bigint \<Rightarrow> bigint" where
  "duk__bi_sub_copy x y = duk__bi_copy (duk__bi_sub x y)"

section \<open>Multiplication\<close>

text \<open>
  One round of the outer loop adds \<open>y[i] * z\<close> to the parts of \<open>x\<close> from index \<open>i\<close> on, the third
  argument list. The last case stores the carry that is left.
\<close>

fun bi_mul_row64 :: "u32 \<Rightarrow> u64 \<Rightarrow> u32 list \<Rightarrow> u32 list \<Rightarrow> u32 list" where
  "bi_mul_row64 yi tmp (z # zs) (x # xs) =
     (let tmp = tmp + (ucast yi * ucast z + ucast x)
      in ucast (tmp AND 0xffffffff) # bi_mul_row64 yi (drop_bit 32 tmp) zs xs)"
| "bi_mul_row64 yi tmp [] (x # xs) = (if tmp > 0 then ucast tmp # xs else x # xs)"
| "bi_mul_row64 yi tmp zs [] = []"

text \<open>
  The 32 bit round: the product of two parts and two additions, from products of 16 bit halves,
  as the pair of its high and low word.
\<close>

definition bi_mul_step32 :: "u32 \<Rightarrow> u32 \<Rightarrow> u32 \<Rightarrow> u32 \<Rightarrow> u32 \<times> u32" where
  "bi_mul_step32 yi zj e f =
     (let b = yi AND 0xffff; a = drop_bit 16 yi;
          d = zj AND 0xffff; c = drop_bit 16 zj;
          r = 0; s = b * d;
          t = s + e; r = (if t < s then r + 1 else r); s = t;
          t = s + f; r = (if t < s then r + 1 else r); s = t;
          t = b * c; r = r + drop_bit 16 t;
          t = s + push_bit 16 (t AND 0xffff); r = (if t < s then r + 1 else r); s = t;
          t = a * d; r = r + drop_bit 16 t;
          t = s + push_bit 16 (t AND 0xffff); r = (if t < s then r + 1 else r); s = t;
          t = a * c; r = r + t
      in (r, s))"

fun bi_mul_row32 :: "u32 \<Rightarrow> u32 \<Rightarrow> u32 list \<Rightarrow> u32 list \<Rightarrow> u32 list" where
  "bi_mul_row32 yi f (z # zs) (x # xs) =
     (let (r, s) = bi_mul_step32 yi z x f in s # bi_mul_row32 yi r zs xs)"
| "bi_mul_row32 yi f [] (x # xs) = (if f > 0 then f # xs else x # xs)"
| "bi_mul_row32 yi f zs [] = []"

fun bi_mul_rows :: "(u32 \<Rightarrow> u32 list \<Rightarrow> u32 list \<Rightarrow> u32 list) \<Rightarrow> u32 list \<Rightarrow> u32 list \<Rightarrow> u32 list \<Rightarrow> u32 list" where
  "bi_mul_rows row [] z x = x"
| "bi_mul_rows row (y # ys) z x = (let x' = row y z x in take 1 x' @ bi_mul_rows row ys z (drop 1 x'))"

definition duk__bi_mul :: "bigint \<Rightarrow> bigint \<Rightarrow> bigint" where
  "duk__bi_mul y z =
     (let nx = length y + length z in
      if nx = 0 then []
      else duk__bi_normalize (bi_mul_rows (\<lambda>yi. bi_mul_row64 yi 0) y z (replicate nx 0)))"

definition duk__bi_mul_no64 :: "bigint \<Rightarrow> bigint \<Rightarrow> bigint" where
  "duk__bi_mul_no64 y z =
     (let nx = length y + length z in
      if nx = 0 then []
      else duk__bi_normalize (bi_mul_rows (\<lambda>yi. bi_mul_row32 yi 0) y z (replicate nx 0)))"

definition duk__bi_mul_small :: "bigint \<Rightarrow> u32 \<Rightarrow> bigint" where
  "duk__bi_mul_small y z = duk__bi_mul y (duk__bi_set_small z)"

definition duk__bi_mul_copy :: "bigint \<Rightarrow> bigint \<Rightarrow> bigint" where
  "duk__bi_mul_copy x y = duk__bi_copy (duk__bi_mul x y)"

definition duk__bi_mul_small_copy :: "bigint \<Rightarrow> u32 \<Rightarrow> bigint" where
  "duk__bi_mul_small_copy x y = duk__bi_copy (duk__bi_mul_small x y)"

section \<open>Tests and powers\<close>

definition duk__bi_is_even :: "bigint \<Rightarrow> bool" where
  "duk__bi_is_even x \<longleftrightarrow> length x = 0 \<or> x ! 0 AND 1 = 0"

definition duk__bi_is_zero :: "bigint \<Rightarrow> bool" where
  "duk__bi_is_zero x \<longleftrightarrow> length x = 0"

definition duk__bi_is_2to52 :: "bigint \<Rightarrow> bool" where
  "duk__bi_is_2to52 x \<longleftrightarrow> length x = 2 \<and> x ! 0 = 0 \<and> x ! 1 = push_bit (52 - 32) 1"

definition duk__bi_twoexp :: "nat \<Rightarrow> bigint" where
  "duk__bi_twoexp y =
     (let n = y div 32 + 1; r = y mod 32 in (replicate n 0)[n - 1 := push_bit r 1])"

text \<open>The loop of the exponentiation by squaring; \<open>y\<close> is halved until it is zero.\<close>

function bi_exp_loop :: "bigint \<Rightarrow> bigint \<Rightarrow> nat \<Rightarrow> bigint" where
  "bi_exp_loop x t1 y =
     (let x' = (if y mod 2 = 1 then duk__bi_mul_copy x t1 else x) in
      if y div 2 = 0 then x' else bi_exp_loop x' (duk__bi_mul_copy t1 t1) (y div 2))"
  by pat_completeness auto
termination
  by (relation "measure (\<lambda>(x, t1, y). y)") auto

declare bi_exp_loop.simps [simp del]

definition duk__bi_exp_small :: "u32 \<Rightarrow> nat \<Rightarrow> bigint" where
  "duk__bi_exp_small b y =
     (if b = 2 then duk__bi_twoexp y
      else bi_exp_loop (duk__bi_set_small 1) (duk__bi_set_small b) y)"

section \<open>Words\<close>

lemma low64: "unat (ucast (w AND 0xffffffff :: u64) :: u32) = unat w mod 2 ^ 32"
proof -
  have "w AND 0xffffffff = w mod 2 ^ 32" by (simp add: take_bit_eq_mask [symmetric] take_bit_eq_mod flip: mask_eq_exp_minus_1
        [of 32, where 'a = u64, simplified])
  then show ?thesis by (simp add: unsigned_ucast_eq take_bit_eq_mod unat_mod)
qed

lemma high64: "unat (drop_bit 32 (w :: u64)) = unat w div 2 ^ 32"
  by (simp add: drop_bit_eq_div unat_div)

lemma uint_bound: "0 \<le> uint (x :: u32)" "uint x < 2 ^ 32"
  using uint_bounded [of x] by simp_all

lemma ucast64: "unat (ucast (x :: u32) :: u64) = unat x"
  using u32_bound [of x] by (simp add: unsigned_ucast_eq take_bit_nat_eq_self)

lemma ucast32: "unat (w :: u64) < 2 ^ 32 \<Longrightarrow> unat (ucast w :: u32) = unat w"
  by (simp add: unsigned_ucast_eq take_bit_nat_eq_self)

lemma unat_add64: "unat (a :: u64) + unat b < 2 ^ 64 \<Longrightarrow> unat (a + b) = unat a + unat b"
  by (simp add: unat_word_ariths)

lemma unat_mult64: "unat (a :: u64) * unat b < 2 ^ 64 \<Longrightarrow> unat (a * b) = unat a * unat b"
  by (simp add: unat_word_ariths)

lemma split32: "(a :: nat) < 2 ^ 32 \<Longrightarrow> (a + 2 ^ 32 * k) mod 2 ^ 32 = a" "a < 2 ^ 32 \<Longrightarrow> (a + 2 ^ 32 * k) div 2 ^ 32 = k"
  by simp_all

section \<open>The value of a bigint\<close>

fun bval :: "u32 list \<Rightarrow> nat" where
  "bval [] = 0"
| "bval (x # xs) = unat x + 2 ^ 32 * bval xs"

definition normal :: "u32 list \<Rightarrow> bool" where
  "normal x \<longleftrightarrow> x = [] \<or> last x \<noteq> 0"

lemma valid_normal: "duk__bi_is_valid x \<longleftrightarrow> length x \<le> 37 \<and> normal x"
  by (auto simp: duk__bi_is_valid_def normal_def DUK__BI_MAX_PARTS_def last_conv_nth)

lemma bval_append: "bval (xs @ ys) = bval xs + 2 ^ (32 * length xs) * bval ys"
  by (induction xs) (simp_all add: algebra_simps power_add)

lemma bval_bound: "bval xs < 2 ^ (32 * length xs)"
proof (induction xs)
  case (Cons x xs)
  have "bval (x # xs) + 1 \<le> 2 ^ 32 * (bval xs + 1)" using u32_bound [of x] by simp
  also have "\<dots> \<le> 2 ^ 32 * 2 ^ (32 * length xs)" using Cons by (intro mult_le_mono) auto
  finally show ?case by (simp add: power_add)
qed simp

lemma bval_replicate_0 [simp]: "bval (replicate n 0) = 0"
  by (induction n) auto

lemma normal_lower:
  assumes "normal x" and "x \<noteq> []"
  shows "2 ^ (32 * (length x - 1)) \<le> bval x"
proof -
  obtain ys y where x: "x = ys @ [y]" using assms(2) by (cases x rule: rev_cases) auto
  then have "1 \<le> unat y" using assms(1) by (auto simp: normal_def Suc_le_eq unat_gt_0)
  then have "2 ^ (32 * length ys) * 1 \<le> 2 ^ (32 * length ys) * unat y" by (rule mult_le_mono2)
  then have "2 ^ (32 * length ys) \<le> 2 ^ (32 * length ys) * unat y" by (simp only: mult_1_right)
  then have "2 ^ (32 * length ys) \<le> bval (ys @ [y])" unfolding bval_append by (simp only: bval.simps mult_0_right add_0_right trans_le_add2)
  then show ?thesis unfolding x by simp
qed

lemma significant_le: "bi_significant x n \<le> n"
  by (induction x n rule: bi_significant.induct) auto

lemma bval_significant: "n \<le> length x \<Longrightarrow> bval (take (bi_significant x n) x) = bval (take n x)"
  by (induction x n rule: bi_significant.induct) (auto simp: take_Suc_conv_app_nth bval_append)

lemma normal_significant: "n \<le> length x \<Longrightarrow> normal (take (bi_significant x n) x)"
  by (induction x n rule: bi_significant.induct) (auto simp: normal_def take_Suc_conv_app_nth)

lemma normalize_val [simp]: "bval (duk__bi_normalize x) = bval x"
  by (simp add: duk__bi_normalize_def bval_significant)

lemma normalize_normal [simp]: "normal (duk__bi_normalize x)"
  by (simp add: duk__bi_normalize_def normal_significant)

lemma normalize_length: "length (duk__bi_normalize x) \<le> length x"
  using significant_le by (simp add: duk__bi_normalize_def)

lemma normal_length_le:
  assumes "normal x" and "bval x < 2 ^ (32 * n)"
  shows "length x \<le> n"
proof (rule ccontr)
  assume l: "\<not> length x \<le> n"
  then have "(2 :: nat) ^ (32 * n) \<le> 2 ^ (32 * (length x - 1))" by (intro power_increasing) auto
  also have "\<dots> \<le> bval x" by (rule normal_lower [OF assms(1)]) (use l in auto)
  finally show False using assms(2) by simp
qed

lemma bval_inj_length: "length x = length y \<Longrightarrow> bval x = bval y \<Longrightarrow> x = y"
proof (induction x y rule: list_induct2)
  case (Cons a x b y)
  have m: "(unat c + 2 ^ 32 * k) mod 2 ^ 32 = unat c" "(unat c + 2 ^ 32 * k) div 2 ^ 32 = k" for c :: u32 and k
    using u32_bound [of c] by simp_all
  have "unat a = unat b" "bval x = bval y" using Cons.prems m [of a "bval x"] m [of b "bval y"] by simp_all
  then show ?case using Cons.IH by (simp add: word_unat_eq_iff)
qed simp

lemma bval_inj:
  assumes "normal x" and "normal y" and "bval x = bval y"
  shows "x = y"
proof (rule bval_inj_length)
  have "length x \<le> length y" using normal_length_le [OF assms(1)] bval_bound [of y] assms(3) by simp
  moreover have "length y \<le> length x" using normal_length_le [OF assms(2)] bval_bound [of x] assms(3) by simp
  ultimately show "length x = length y" by simp
qed (rule assms(3))

lemma set_small_val [simp]: "bval (duk__bi_set_small v) = unat v" "normal (duk__bi_set_small v)"
  by (auto simp: duk__bi_set_small_def normal_def)

lemma copy_id [simp]: "duk__bi_copy x = x"
  by (simp add: duk__bi_copy_def)

section \<open>Comparison\<close>

lemma bval_less_top:
  assumes "length xs = length ys" and "x < y"
  shows "bval (xs @ [x]) < bval (ys @ [y])"
proof -
  have "bval xs + 2 ^ (32 * length xs) * unat x < 2 ^ (32 * length xs) * (unat x + 1)" using bval_bound [of xs] by simp
  also have "\<dots> \<le> 2 ^ (32 * length xs) * unat y" using assms(2) by (intro mult_le_mono) (auto simp: word_less_nat_alt)
  finally show ?thesis using assms(1) by (simp add: bval_append)
qed

lemma compare_parts_val:
  assumes "n \<le> length x" and "n \<le> length y"
  shows "bi_compare_parts x y n = sgn (int (bval (take n x)) - int (bval (take n y)))"
  using assms
proof (induction n)
  case (Suc n)
  then have t: "take (Suc n) x = take n x @ [x ! n]" "take (Suc n) y = take n y @ [y ! n]"
    by (simp_all add: take_Suc_conv_app_nth)
  have l: "length (take n x) = length (take n y)" using Suc.prems by simp
  show ?case
  proof (cases "x ! n" "y ! n" rule: linorder_cases)
    case less
    then show ?thesis using bval_less_top [OF l less] unfolding t by simp
  next
    case equal
    then show ?thesis using Suc l unfolding t by (simp add: bval_append)
  next
    case greater
    then show ?thesis using bval_less_top [OF l [symmetric] greater] unfolding t by simp
  qed
qed simp

lemma normal_longer:
  assumes "normal x" and "length y < length x"
  shows "bval y < bval x"
proof -
  have "bval y < 2 ^ (32 * length y)" by (rule bval_bound)
  also have "\<dots> \<le> 2 ^ (32 * (length x - 1))" using assms(2) by (intro power_increasing) auto
  also have "\<dots> \<le> bval x" by (rule normal_lower [OF assms(1)]) (use assms(2) in auto)
  finally show ?thesis .
qed

lemma compare_val: "normal x \<Longrightarrow> normal y \<Longrightarrow> duk__bi_compare x y = sgn (int (bval x) - int (bval y))"
  using normal_longer [of x y] normal_longer [of y x] compare_parts_val [of "length x" x y]
  by (auto simp: duk__bi_compare_def)

section \<open>Addition and subtraction on values\<close>

lemma add64_val:
  assumes "length z \<le> length y" and "unat tmp < 2"
  shows "bval (bi_add64 tmp y z) = bval y + bval z + unat tmp \<and> length y \<le> length (bi_add64 tmp y z) \<and>
    length (bi_add64 tmp y z) \<le> length y + 1 \<and> (normal y \<longrightarrow> y \<noteq> [] \<longrightarrow> normal (bi_add64 tmp y z))"
  using assms
proof (induction tmp y z rule: bi_add64.induct)
  case (1 tmp z)
  then have "unat tmp < 2 ^ 32" by simp
  then show ?case using 1 ucast32 [of tmp] by (auto simp: normal_def)
next
  case (2 tmp y ys z)
  define z0 where "z0 = (case z of [] \<Rightarrow> 0 | a # _ \<Rightarrow> a)"
  define w where "w = tmp + ucast y + (case z of [] \<Rightarrow> 0 | a # _ \<Rightarrow> ucast a)"
  have zs: "bval z = unat z0 + 2 ^ 32 * bval (tl z)" by (cases z) (simp_all add: z0_def)
  have c: "(case z of [] \<Rightarrow> 0 | a # _ \<Rightarrow> ucast a) = (ucast z0 :: u64)" by (cases z) (simp_all add: z0_def)
  have b: "unat y < 2 ^ 32" "unat z0 < 2 ^ 32" by (rule u32_bound)+
  have w: "unat w = unat tmp + unat y + unat z0"
    unfolding w_def c using b 2(3) by (simp add: unat_add64 ucast64)
  have h: "unat (drop_bit 32 w) = unat w div 2 ^ 32" by (rule high64)
  have "unat w div 2 ^ 32 < 2" using w b 2(3) by (simp add: less_mult_imp_div_less)
  then have IH: "bval (bi_add64 (drop_bit 32 w) ys (tl z)) = bval ys + bval (tl z) + unat w div 2 ^ 32 \<and>
      length ys \<le> length (bi_add64 (drop_bit 32 w) ys (tl z)) \<and>
      length (bi_add64 (drop_bit 32 w) ys (tl z)) \<le> length ys + 1 \<and>
      (normal ys \<longrightarrow> ys \<noteq> [] \<longrightarrow> normal (bi_add64 (drop_bit 32 w) ys (tl z)))"
    using 2(1) [OF w_def] 2(2) h by (cases z) auto
  have eq: "bi_add64 tmp (y # ys) z = ucast (w AND 0xffffffff) # bi_add64 (drop_bit 32 w) ys (tl z)"
    by (simp add: w_def Let_def)
  have val: "bval (bi_add64 tmp (y # ys) z) = bval (y # ys) + bval z + unat tmp"
    unfolding eq bval.simps low64 zs using IH w mod_mult_div_eq [of "unat w" "2 ^ 32"] by (simp add: algebra_simps)
  moreover have "normal (bi_add64 tmp (y # ys) z)" if n: "normal (y # ys)"
  proof (cases "ys = []")
    case False
    then show ?thesis using n IH unfolding eq by (auto simp: normal_def)
  next
    case True
    then have "0 < unat y" using n by (simp add: normal_def unat_gt_0)
    have "bi_add64 (drop_bit 32 w) ys (tl z) = [] \<Longrightarrow> ucast (w AND 0xffffffff) \<noteq> (0 :: u32)"
    proof
      assume e: "bi_add64 (drop_bit 32 w) ys (tl z) = []" and "ucast (w AND 0xffffffff) = (0 :: u32)"
      then have "unat w mod 2 ^ 32 = 0" using low64 [of w] by simp
      moreover have "drop_bit 32 w = 0" using e True by (simp split: if_splits)
      then have "unat w div 2 ^ 32 = 0" using h by simp
      ultimately have "unat w = 0" by (metis div_mult_mod_eq mult_0 add_0)
      then show False using w \<open>0 < unat y\<close> by simp
    qed
    moreover have "last (bi_add64 (drop_bit 32 w) [] (tl z)) \<noteq> 0" if "bi_add64 (drop_bit 32 w) [] (tl z) \<noteq> []"
    proof -
      have "unat (drop_bit 32 w) < 2 ^ 32" "drop_bit 32 w \<noteq> 0" using h that \<open>unat w div 2 ^ 32 < 2\<close> by (auto split: if_splits)
      then show ?thesis using ucast32 [of "drop_bit 32 w"] by (metis last.simps bi_add64.simps(1) unat_0 unat_eq_zero)
    qed
    ultimately show ?thesis unfolding eq normal_def using True by auto
  qed
  ultimately show ?case using IH eq by simp
qed

lemma add_val: "bval (duk__bi_add y z) = bval y + bval z"
  using add64_val [of z y 0] add64_val [of y z 0] by (simp add: duk__bi_add_def)

lemma add_normal:
  assumes "normal y" and "normal z"
  shows "normal (duk__bi_add y z)"
proof -
  have "normal (bi_add64 0 [] [])" by (simp add: normal_def)
  then show ?thesis
    using add64_val [of z y 0] add64_val [of y z 0] assms by (cases "y = []"; cases "z = []") (auto simp: duk__bi_add_def)
qed

lemma add_length: "length (duk__bi_add y z) \<le> max (length y) (length z) + 1"
  using add64_val [of z y 0] add64_val [of y z 0] by (auto simp: duk__bi_add_def)

text \<open>One part of the 32 bit addition agrees with the addition of numbers.\<close>

lemma add32_step:
  fixes y z :: u32 and c :: bool
  defines "t \<equiv> (if c then y + z + 1 else y + z)"
  shows "unat t + 2 ^ 32 * (if (if c then t \<le> y else t < y) then 1 else 0) = unat y + unat z + (if c then 1 else 0)"
proof -
  have b: "unat y < 2 ^ 32" "unat z < 2 ^ 32" by (rule u32_bound)+
  have t: "unat t = (unat y + unat z + (if c then 1 else 0)) mod 2 ^ 32"
    unfolding t_def by (simp add: unat_word_ariths mod_simps)
  show ?thesis
  proof (cases "unat y + unat z + (if c then 1 else 0) < 2 ^ 32")
    case True
    then have "unat t = unat y + unat z + (if c then 1 else 0)" using t by simp
    then show ?thesis by (auto simp: word_less_nat_alt word_le_nat_alt)
  next
    case False
    then have "unat t + 2 ^ 32 = unat y + unat z + (if c then 1 else 0)" using t b by (auto simp: le_mod_geq)
    then show ?thesis using b by (auto simp: word_less_nat_alt word_le_nat_alt split: if_splits)
  qed
qed

lemma add32_eq_add64: "length z \<le> length y \<Longrightarrow> bi_add32 c y z = bi_add64 (if c then 1 else 0) y z"
proof (induction y arbitrary: c z)
  case Nil
  then show ?case by simp
next
  case (Cons y ys)
  define z0 where "z0 = (case z of [] \<Rightarrow> 0 | a # _ \<Rightarrow> a)"
  define t where "t = (if c then y + z0 + 1 else y + z0)"
  define k where "k = (if c then t \<le> y else t < y)"
  define w where "w = (if c then 1 else 0) + ucast y + (ucast z0 :: u64)"
  have w: "unat w = unat y + unat z0 + (if c then 1 else 0)"
    unfolding w_def using u32_bound [of y] u32_bound [of z0] by (simp add: unat_add64 ucast64)
  have s: "unat t + 2 ^ 32 * (if k then 1 else 0) = unat w"
    unfolding w k_def t_def by (rule add32_step)
  have "unat w mod 2 ^ 32 = unat t" "unat w div 2 ^ 32 = (if k then 1 else 0)"
    using split32 [OF u32_bound [of t], of "if k then 1 else 0"] unfolding s by simp_all
  then have "ucast (w AND 0xffffffff) = t" "drop_bit 32 w = (if k then 1 else 0)"
    using low64 [of w] high64 [of w] by (auto simp: word_unat_eq_iff)
  moreover have "bi_add32 c (y # ys) z = t # bi_add32 k ys (tl z)"
    by (cases z) (simp_all add: z0_def t_def k_def Let_def)
  moreover have "bi_add64 (if c then 1 else 0) (y # ys) z = ucast (w AND 0xffffffff) # bi_add64 (drop_bit 32 w) ys (tl z)"
    by (cases z) (simp_all add: z0_def w_def Let_def)
  moreover have "bi_add32 k ys (tl z) = bi_add64 (if k then 1 else 0) ys (tl z)"
    using Cons.IH Cons.prems by (cases z) auto
  ultimately show ?case by simp
qed

lemma add_no64: "duk__bi_add_no64 y z = duk__bi_add y z"
  using add32_eq_add64 [of z y False] add32_eq_add64 [of y z False] by (simp add: duk__bi_add_no64_def duk__bi_add_def)

lemma borrow32:
  fixes a :: int
  assumes "0 \<le> a" and "a < 2 ^ 32"
  shows "(a - 2 ^ 32) mod 2 ^ 32 = a" "(a - 2 ^ 32) div 2 ^ 32 = - 1"
proof -
  have e: "a - 2 ^ 32 = a + (- 1) * 2 ^ 32" by simp
  show "(a - 2 ^ 32) mod 2 ^ 32 = a" unfolding e mod_mult_self1 using assms by (rule mod_pos_pos_trivial)
  show "(a - 2 ^ 32) div 2 ^ 32 = - 1" unfolding e using assms by (subst div_mult_self1) auto
qed

lemma sub64_val:
  assumes "length z \<le> length y" and "tmp = 0 \<or> tmp = - 1"
  shows "length (bi_sub64 tmp y z) = length y \<and>
    (\<exists>b. (b = 0 \<or> b = - 1) \<and>
       int (bval (bi_sub64 tmp y z)) = int (bval y) - int (bval z) + tmp - b * 2 ^ (32 * length y))"
  using assms
proof (induction y arbitrary: tmp z)
  case Nil
  then show ?case by auto
next
  case (Cons y ys)
  define z0 where "z0 = (case z of [] \<Rightarrow> 0 | a # _ \<Rightarrow> a)"
  define w where "w = uint y - uint z0 + tmp"
  have zs: "bval z = unat z0 + 2 ^ 32 * bval (tl z)" by (cases z) (simp_all add: z0_def)
  have b: "0 \<le> uint y" "uint y < 2 ^ 32" "0 \<le> uint z0" "uint z0 < 2 ^ 32" by (rule uint_bound)+
  have d: "drop_bit 32 w = w div 2 ^ 32" "take_bit 32 w = w mod 2 ^ 32" by (simp_all add: drop_bit_eq_div take_bit_eq_mod)
  have "- (2 ^ 32) \<le> w" "w < 2 ^ 32" using b Cons.prems(2) unfolding w_def by linarith+
  then have r: "w div 2 ^ 32 = 0 \<or> w div 2 ^ 32 = - 1"
    using borrow32(2) [of "w + 2 ^ 32"] by (cases "0 \<le> w") auto
  have "bi_sub64 tmp (y # ys) z = word_of_int (take_bit 32 w) # bi_sub64 (drop_bit 32 w) ys (tl z)"
    by (simp add: w_def z0_def Let_def)
  then have eq: "bi_sub64 tmp (y # ys) z = word_of_int (w mod 2 ^ 32) # bi_sub64 (w div 2 ^ 32) ys (tl z)"
    by (simp only: d)
  have lo: "int (unat (word_of_int (w mod 2 ^ 32) :: u32)) = w mod 2 ^ 32"
    by (simp add: uint_word_of_int)
  have len: "length (tl z) \<le> length ys" using Cons.prems(1) by (cases z) auto
  obtain c where c: "c = 0 \<or> c = - 1" "length (bi_sub64 (w div 2 ^ 32) ys (tl z)) = length ys"
      "int (bval (bi_sub64 (w div 2 ^ 32) ys (tl z))) = int (bval ys) - int (bval (tl z)) + w div 2 ^ 32 - c * 2 ^ (32 * length ys)"
    using Cons.IH [OF len r] by blast
  have "int (bval (bi_sub64 tmp (y # ys) z)) =
      w mod 2 ^ 32 + 2 ^ 32 * (int (bval ys) - int (bval (tl z)) + w div 2 ^ 32 - c * 2 ^ (32 * length ys))"
    unfolding eq bval.simps by (simp only: of_nat_add of_nat_mult of_nat_power of_nat_numeral lo c(3))
  also have "\<dots> = w + 2 ^ 32 * (int (bval ys) - int (bval (tl z))) - c * 2 ^ (32 * length (y # ys))"
    using mod_mult_div_eq [of w "2 ^ 32"] by (simp add: algebra_simps power_add)
  also have "\<dots> = int (bval (y # ys)) - int (bval z) + tmp - c * 2 ^ (32 * length (y # ys))"
    unfolding zs w_def by (simp add: algebra_simps)
  finally show ?case using c(1,2) eq by auto
qed

lemma sub_parts_val:
  assumes "length z \<le> length y" and "bval z \<le> bval y"
  shows "bval (bi_sub64 0 y z) = bval y - bval z"
proof -
  obtain b where b: "b = 0 \<or> b = - 1" "length (bi_sub64 0 y z) = length y"
      "int (bval (bi_sub64 0 y z)) = int (bval y) - int (bval z) - b * 2 ^ (32 * length y)"
    using sub64_val [OF assms(1), of 0] by auto
  have "int (bval (bi_sub64 0 y z)) < 2 ^ (32 * length y)" using bval_bound [of "bi_sub64 0 y z"] b(2)
    by (metis of_nat_less_numeral_power_cancel_iff)
  with b assms(2) have "b = 0" by auto
  then show ?thesis using b(3) assms(2) by simp
qed

lemma sub_val:
  assumes "normal y" and "normal z" and "bval z \<le> bval y"
  shows "bval (duk__bi_sub y z) = bval y - bval z" "normal (duk__bi_sub y z)"
proof -
  have "length z \<le> length y" using normal_longer [OF assms(2), of y] assms(3) by (meson leD leI)
  then show "bval (duk__bi_sub y z) = bval y - bval z" using sub_parts_val assms(3) by (simp add: duk__bi_sub_def)
  show "normal (duk__bi_sub y z)" by (simp add: duk__bi_sub_def)
qed

lemma sub32_step:
  fixes y z :: u32 and c :: bool
  defines "t \<equiv> (if c then y - z - 1 else y - z)"
  shows "uint t - 2 ^ 32 * (if (if c then t \<ge> y else t > y) then 1 else 0) = uint y - uint z - (if c then 1 else 0)"
proof -
  define d :: int where "d = (if c then 1 else 0)"
  have b: "0 \<le> uint y" "uint y < 2 ^ 32" "0 \<le> uint z" "uint z < 2 ^ 32" by (rule uint_bound)+
  have d: "0 \<le> d" "d \<le> 1" by (simp_all add: d_def)
  have t: "uint t = (uint y - uint z - d) mod 2 ^ 32"
    unfolding t_def d_def by (simp add: uint_word_ariths mod_simps)
  have lt: "t \<ge> y \<longleftrightarrow> uint y \<le> uint t" "t > y \<longleftrightarrow> uint y < uint t" by (simp_all add: word_le_def word_less_def)
  have "uint t - 2 ^ 32 * (if (if c then uint y \<le> uint t else uint y < uint t) then 1 else 0) = uint y - uint z - d"
  proof (cases "0 \<le> uint y - uint z - d")
    case True
    then have e: "uint t = uint y - uint z - d" unfolding t using b d by (intro mod_pos_pos_trivial) linarith+
    then have "\<not> (if c then uint y \<le> uint t else uint y < uint t)" using b(3) by (auto simp: d_def split: if_splits)
    with e show ?thesis by simp
  next
    case False
    then have "(uint y - uint z - d + 2 ^ 32) mod 2 ^ 32 = uint y - uint z - d + 2 ^ 32"
      using b d by (intro mod_pos_pos_trivial) linarith+
    then have e: "uint t = uint y - uint z - d + 2 ^ 32" unfolding t by (simp only: mod_add_self2)
    then have "if c then uint y \<le> uint t else uint y < uint t" using b d(2) by (cases c) (simp_all add: d_def)
    with e show ?thesis by simp
  qed
  then show ?thesis unfolding lt d_def .
qed

lemma sub32_eq_sub64: "length z \<le> length y \<Longrightarrow> bi_sub32 c y z = bi_sub64 (if c then - 1 else 0) y z"
proof (induction y arbitrary: c z)
  case Nil
  then show ?case by simp
next
  case (Cons y ys)
  define z0 where "z0 = (case z of [] \<Rightarrow> 0 | a # _ \<Rightarrow> a)"
  define t where "t = (if c then y - z0 - 1 else y - z0)"
  define k where "k = (if c then t \<ge> y else t > y)"
  define w where "w = uint y - uint z0 + (if c then - 1 else 0)"
  have s: "w = uint t - 2 ^ 32 * (if k then 1 else 0)"
    using sub32_step [of c y z0] by (auto simp: w_def k_def t_def)
  have b: "0 \<le> uint t" "uint t < 2 ^ 32" by (rule uint_bound)+
  have "w mod 2 ^ 32 = uint t" "w div 2 ^ 32 = (if k then - 1 else 0)"
    unfolding s using borrow32 [OF b] b by auto
  then have "word_of_int (take_bit 32 w) = t" "drop_bit 32 w = (if k then - 1 else 0)"
    by (simp_all add: take_bit_eq_mod drop_bit_eq_div)
  moreover have "bi_sub32 c (y # ys) z = t # bi_sub32 k ys (tl z)"
    by (cases z) (simp_all add: z0_def t_def k_def Let_def)
  moreover have "bi_sub64 (if c then - 1 else 0) (y # ys) z = word_of_int (take_bit 32 w) # bi_sub64 (drop_bit 32 w) ys (tl z)"
    by (cases z) (simp_all add: z0_def w_def Let_def)
  moreover have "bi_sub32 k ys (tl z) = bi_sub64 (if k then - 1 else 0) ys (tl z)"
    using Cons.IH Cons.prems by (cases z) auto
  ultimately show ?case by simp
qed

lemma sub_no64: "length z \<le> length y \<Longrightarrow> duk__bi_sub_no64 y z = duk__bi_sub y z"
  using sub32_eq_sub64 [of z y False] by (simp add: duk__bi_sub_no64_def duk__bi_sub_def)

section \<open>Multiplication on values\<close>

lemma mul_bound32:
  fixes a b c d :: nat
  assumes "a < 2 ^ 32" "b < 2 ^ 32" "c < 2 ^ 32" "d < 2 ^ 32"
  shows "d + (a * b + c) < 2 ^ 64"
proof -
  have "a * b \<le> (2 ^ 32 - 1) * (2 ^ 32 - 1)" using assms(1,2) by (intro mult_le_mono) auto
  then show ?thesis using assms(3,4) by simp
qed

lemma mul_row64_val:
  assumes "length z < length x" and "x ! length z = 0" and "unat tmp < 2 ^ 32"
  shows "bval (bi_mul_row64 yi tmp z x) = bval x + unat yi * bval z + unat tmp \<and>
    length (bi_mul_row64 yi tmp z x) = length x \<and> drop (Suc (length z)) (bi_mul_row64 yi tmp z x) = drop (Suc (length z)) x"
  using assms
proof (induction z arbitrary: tmp x)
  case Nil
  then obtain xs where x: "x = 0 # xs" by (cases x) auto
  show ?case using Nil(3) ucast32 [of tmp] x by (auto simp: word_less_nat_alt)
next
  case (Cons z zs)
  obtain x0 xs where x: "x = x0 # xs" using Cons.prems(1) by (cases x) auto
  define w where "w = tmp + (ucast yi * ucast z + ucast x0)"
  note bnd = mul_bound32 [OF u32_bound [of yi] u32_bound [of z] u32_bound [of x0] Cons.prems(3)]
  have w: "unat w = unat tmp + (unat yi * unat z + unat x0)"
    unfolding w_def using bnd by (simp add: unat_add64 unat_mult64 ucast64)
  have "unat w < 2 ^ 64" using unsigned_less [of w] by simp
  then have h: "unat (drop_bit 32 w) = unat w div 2 ^ 32" "unat (drop_bit 32 w) < 2 ^ 32"
    by (simp_all add: high64 less_mult_imp_div_less)
  have IH: "bval (bi_mul_row64 yi (drop_bit 32 w) zs xs) = bval xs + unat yi * bval zs + unat w div 2 ^ 32 \<and>
      length (bi_mul_row64 yi (drop_bit 32 w) zs xs) = length xs \<and>
      drop (Suc (length zs)) (bi_mul_row64 yi (drop_bit 32 w) zs xs) = drop (Suc (length zs)) xs"
    using Cons.IH [of xs "drop_bit 32 w"] Cons.prems x h by simp
  have eq: "bi_mul_row64 yi tmp (z # zs) x = ucast (w AND 0xffffffff) # bi_mul_row64 yi (drop_bit 32 w) zs xs"
    by (simp add: x w_def Let_def)
  have "bval (bi_mul_row64 yi tmp (z # zs) x) = unat w mod 2 ^ 32 + 2 ^ 32 * (unat w div 2 ^ 32) + 2 ^ 32 * (bval xs + unat yi * bval zs)"
    unfolding eq bval.simps low64 using IH by (simp add: algebra_simps)
  also have "\<dots> = unat w + 2 ^ 32 * (bval xs + unat yi * bval zs)" by simp
  finally show ?case using IH eq w by (simp add: x algebra_simps)
qed

lemma mul_rows_val:
  assumes "\<And>yi x. length z < length x \<Longrightarrow> x ! length z = 0 \<Longrightarrow>
      bval (row yi z x) = bval x + unat yi * bval z \<and> length (row yi z x) = length x \<and>
      drop (Suc (length z)) (row yi z x) = drop (Suc (length z)) x"
    and "length x = length y + length z" and "\<forall>w \<in> set (drop (length z) x). w = 0"
  shows "bval (bi_mul_rows row y z x) = bval x + bval y * bval z \<and> length (bi_mul_rows row y z x) = length x"
  using assms(2,3)
proof (induction y arbitrary: x)
  case Nil
  then show ?case by simp
next
  case (Cons y ys)
  have l: "length z < length x" using Cons.prems(1) by simp
  have "x ! length z \<in> set (drop (length z) x)" using l by (metis Cons_nth_drop_Suc list.set_intros(1))
  then have "x ! length z = 0" using Cons.prems(2) by blast
  note r = assms(1) [OF l this, of y]
  let ?r = "row y z x"
  obtain r0 rs where rr: "?r = r0 # rs" using r l by (cases ?r) auto
  have "\<forall>w \<in> set (drop (length z) rs). w = 0"
  proof -
    have "drop (length z) rs = drop (Suc (length z)) x" using r rr by simp
    moreover have "set (drop (Suc (length z)) x) \<subseteq> set (drop (length z) x)" by (rule set_drop_subset_set_drop) simp
    ultimately show ?thesis using Cons.prems(2) by auto
  qed
  then have "bval (bi_mul_rows row ys z rs) = bval rs + bval ys * bval z \<and> length (bi_mul_rows row ys z rs) = length rs"
    using Cons.IH [of rs] Cons.prems(1) r rr by auto
  moreover have "unat r0 + 2 ^ 32 * bval rs = bval x + unat y * bval z" using r rr by simp
  ultimately show ?case using r rr by (simp add: algebra_simps)
qed

lemma mul_val: "bval (duk__bi_mul y z) = bval y * bval z" "normal (duk__bi_mul y z)"
proof -
  have "bval (bi_mul_rows (\<lambda>yi. bi_mul_row64 yi 0) y z (replicate (length y + length z) 0)) = bval y * bval z"
    using mul_rows_val [of z "\<lambda>yi. bi_mul_row64 yi 0" "replicate (length y + length z) 0" y] mul_row64_val [of z _ 0]
    by simp
  then show "bval (duk__bi_mul y z) = bval y * bval z" by (auto simp: duk__bi_mul_def Let_def)
  show "normal (duk__bi_mul y z)" by (simp add: duk__bi_mul_def Let_def normal_def [of "[]"])
qed

lemma mul_length: "length (duk__bi_mul y z) \<le> length y + length z"
proof -
  have "length (bi_mul_rows (\<lambda>yi. bi_mul_row64 yi 0) y z (replicate (length y + length z) 0)) = length y + length z"
    using mul_rows_val [of z "\<lambda>yi. bi_mul_row64 yi 0" "replicate (length y + length z) 0" y] mul_row64_val [of z _ 0]
    by simp
  then show ?thesis
    using normalize_length [of "bi_mul_rows (\<lambda>yi. bi_mul_row64 yi 0) y z (replicate (length y + length z) 0)"]
    by (simp add: duk__bi_mul_def Let_def)
qed

lemma mul_small_val [simp]:
  "bval (duk__bi_mul_small y z) = bval y * unat z" "normal (duk__bi_mul_small y z)"
  "bval (duk__bi_mul_small_copy y z) = bval y * unat z" "normal (duk__bi_mul_small_copy y z)"
  by (simp_all add: duk__bi_mul_small_def duk__bi_mul_small_copy_def mul_val)

section \<open>Multiplication from 16 bit products\<close>

lemma carry32: "unat ((s :: u32) + e) + 2 ^ 32 * (if s + e < s then 1 else 0) = unat s + unat e"
  using add32_step [of False s e] by simp

lemma halves32:
  fixes x :: u32
  shows "unat (x AND 0xffff) = unat x mod 2 ^ 16" "unat (drop_bit 16 x) = unat x div 2 ^ 16"
proof -
  have "x AND 0xffff = x mod 2 ^ 16"
    by (simp add: take_bit_eq_mask [symmetric] take_bit_eq_mod flip: mask_eq_exp_minus_1 [of 16, where 'a = u32, simplified])
  then show "unat (x AND 0xffff) = unat x mod 2 ^ 16" by (simp add: unat_mod)
  show "unat (drop_bit 16 x) = unat x div 2 ^ 16" by (simp add: drop_bit_eq_div unat_div)
qed

lemma mult16:
  fixes a b :: u32
  assumes "unat a < 2 ^ 16" and "unat b < 2 ^ 16"
  shows "unat (a * b) = unat a * unat b"
proof -
  have "unat a * unat b \<le> (2 ^ 16 - 1) * (2 ^ 16 - 1)" using assms by (intro mult_le_mono) auto
  then show ?thesis by (simp add: unat_word_ariths)
qed

lemma low_half_up: "unat (push_bit 16 ((t :: u32) AND 0xffff)) = 2 ^ 16 * (unat t mod 2 ^ 16)"
proof -
  have "unat t mod 2 ^ 16 < 2 ^ 16" by simp
  then have "(unat t mod 2 ^ 16) * 2 ^ 16 < 2 ^ 32" by simp
  then show ?thesis by (simp add: push_bit_eq_mult unat_word_ariths halves32)
qed

lemma mul_step32_val:
  assumes "bi_mul_step32 yi zj e f = (r, s)"
  shows "unat s + 2 ^ 32 * unat r = unat yi * unat zj + unat e + unat f"
proof -
  define a b c d where abcd: "a = drop_bit 16 yi" "b = yi AND 0xffff" "c = drop_bit 16 zj" "d = zj AND 0xffff"
  define s1 where "s1 = b * d + e"
  define s2 where "s2 = s1 + f"
  define s3 where "s3 = s2 + push_bit 16 (b * c AND 0xffff)"
  define s4 where "s4 = s3 + push_bit 16 (a * d AND 0xffff)"
  define c1 c2 c3 c4 :: nat where cs: "c1 = (if s1 < b * d then 1 else 0)" "c2 = (if s2 < s1 then 1 else 0)"
    "c3 = (if s3 < s2 then 1 else 0)" "c4 = (if s4 < s3 then 1 else 0)"
  have half: "unat x div 2 ^ 16 < 2 ^ 16" for x :: u32 using u32_bound [of x] by (simp add: less_mult_imp_div_less)
  have u: "unat a < 2 ^ 16" "unat b < 2 ^ 16" "unat c < 2 ^ 16" "unat d < 2 ^ 16"
    unfolding abcd halves32 using half by simp_all
  have y: "unat yi = unat a * 2 ^ 16 + unat b" "unat zj = unat c * 2 ^ 16 + unat d"
    unfolding abcd halves32 by simp_all
  have res: "s = s4" "r = of_nat (c1 + c2 + unat (drop_bit 16 (b * c)) + c3 + unat (drop_bit 16 (a * d)) + c4 + unat (a * c))"
    using assms unfolding bi_mul_step32_def Let_def by (auto simp: abcd s1_def s2_def s3_def s4_def cs)
  let ?R = "c1 + c2 + unat b * unat c div 2 ^ 16 + c3 + unat a * unat d div 2 ^ 16 + c4 + unat a * unat c"
  have r: "unat r = ?R mod 2 ^ 32" unfolding res(2) halves32 mult16 [OF u(2,3)] mult16 [OF u(1,4)] mult16 [OF u(1,3)]
    unfolding unat_of_nat by simp
  have e1: "unat s1 + 2 ^ 32 * c1 = unat b * unat d + unat e"
    using carry32 [of "b * d" e] mult16 [OF u(2,4)] by (simp add: s1_def cs)
  have e2: "unat s2 + 2 ^ 32 * c2 = unat s1 + unat f" using carry32 [of s1 f] by (simp add: s2_def cs)
  have e3: "unat s3 + 2 ^ 32 * c3 = unat s2 + 2 ^ 16 * (unat b * unat c mod 2 ^ 16)"
    using carry32 [of s2 "push_bit 16 (b * c AND 0xffff)"] unfolding low_half_up mult16 [OF u(2,3)] by (simp add: s3_def cs)
  have e4: "unat s4 + 2 ^ 32 * c4 = unat s3 + 2 ^ 16 * (unat a * unat d mod 2 ^ 16)"
    using carry32 [of s3 "push_bit 16 (a * d AND 0xffff)"] unfolding low_half_up mult16 [OF u(1,4)] by (simp add: s4_def cs)
  have sp: "2 ^ 16 * (x mod 2 ^ 16) + 2 ^ 32 * (x div 2 ^ 16) = 2 ^ 16 * x" for x :: nat
  proof -
    define q r where "q = x div 2 ^ 16" "r = x mod 2 ^ 16"
    then have "x = 2 ^ 16 * q + r" by simp
    then show ?thesis unfolding q_r_def(1,2) [symmetric] by simp
  qed
  have "unat s4 + 2 ^ 32 * ?R =
      unat b * unat d + unat e + unat f + 2 ^ 16 * (unat b * unat c) + 2 ^ 16 * (unat a * unat d) + 2 ^ 32 * (unat a * unat c)"
    using e1 e2 e3 e4 sp [of "unat b * unat c"] sp [of "unat a * unat d"] by (simp add: algebra_simps)
  also have "\<dots> = unat yi * unat zj + unat e + unat f" unfolding y by (simp add: algebra_simps)
  finally have tot: "unat s4 + 2 ^ 32 * ?R = unat yi * unat zj + unat e + unat f" .
  have "unat f + (unat yi * unat zj + unat e) < 2 ^ 64" by (rule mul_bound32) (rule u32_bound)+
  then have "?R < 2 ^ 32" using tot by simp
  then show ?thesis using tot r res(1) by simp
qed

lemma mul_row32_eq: "bi_mul_row32 yi f z x = bi_mul_row64 yi (ucast f) z x"
proof (induction yi f z x rule: bi_mul_row32.induct)
  case (1 yi f z zs x xs)
  obtain r s where rs: "bi_mul_step32 yi z x f = (r, s)" by (cases "bi_mul_step32 yi z x f")
  define w where "w = ucast f + (ucast yi * ucast z + ucast x :: u64)"
  note bnd = mul_bound32 [OF u32_bound [of yi] u32_bound [of z] u32_bound [of x] u32_bound [of f]]
  have "unat w = unat f + (unat yi * unat z + unat x)"
    unfolding w_def using bnd by (simp add: unat_add64 unat_mult64 ucast64)
  then have w: "unat w = unat s + 2 ^ 32 * unat r" using mul_step32_val [OF rs] by simp
  have "unat w mod 2 ^ 32 = unat s" "unat w div 2 ^ 32 = unat r"
    unfolding w using split32 [OF u32_bound [of s]] by simp_all
  then have lo: "ucast (w AND 0xffffffff) = s" and hi: "drop_bit 32 w = ucast r"
    using low64 [of w] high64 [of w] by (simp_all add: word_unat_eq_iff ucast64)
  have "bi_mul_row64 yi (ucast f) (z # zs) (x # xs) = s # bi_mul_row64 yi (ucast r) zs xs"
    using lo hi by (simp add: w_def Let_def)
  moreover have "bi_mul_row32 yi r zs xs = bi_mul_row64 yi (ucast r) zs xs"
    using 1 [OF rs [symmetric] refl] by simp
  ultimately show ?case using rs by simp
next
  case (2 yi f x xs)
  have "(0 :: u64) < ucast f \<longleftrightarrow> 0 < f" by (simp add: word_less_nat_alt ucast64)
  moreover have "ucast (ucast f :: u64) = f" using u32_bound [of f] by (simp add: word_unat_eq_iff ucast32 ucast64)
  ultimately show ?case by simp
qed simp

lemma mul_no64: "duk__bi_mul_no64 y z = duk__bi_mul y z"
proof -
  have "(\<lambda>yi. bi_mul_row32 yi 0) = (\<lambda>yi. bi_mul_row64 yi 0)" by (simp add: fun_eq_iff mul_row32_eq)
  then show ?thesis by (simp add: duk__bi_mul_no64_def duk__bi_mul_def)
qed

section \<open>Tests and powers on values\<close>

lemma normal_pos: "normal x \<Longrightarrow> x \<noteq> [] \<Longrightarrow> 0 < bval x"
  by (rule less_le_trans [OF _ normal_lower]) simp_all

lemma is_zero_val: "normal x \<Longrightarrow> duk__bi_is_zero x \<longleftrightarrow> bval x = 0"
  using normal_pos [of x] by (cases "x = []") (auto simp: duk__bi_is_zero_def)

lemma is_even_val: "duk__bi_is_even x \<longleftrightarrow> even (bval x)"
proof (cases x)
  case (Cons a xs)
  have "a AND 1 = 0 \<longleftrightarrow> even (unat a)"
    by (simp add: and_one_eq word_unat_eq_iff unat_mod even_iff_mod_2_eq_zero)
  then show ?thesis by (simp add: Cons duk__bi_is_even_def)
qed (simp add: duk__bi_is_even_def)

lemma is_2to52_val:
  assumes "normal x"
  shows "duk__bi_is_2to52 x \<longleftrightarrow> bval x = 2 ^ 52"
proof
  assume "duk__bi_is_2to52 x"
  then have l: "length x = 2" "x ! 0 = 0" "x ! 1 = 1048576" by (simp_all add: duk__bi_is_2to52_def push_bit_eq_mult)
  then have "x = [0, 1048576]" by (intro nth_equalityI) (auto simp: less_2_cases_iff)
  then show "bval x = 2 ^ 52" by simp
next
  assume "bval x = 2 ^ 52"
  then have "x = [0, 1048576]" using bval_inj [OF assms, of "[0, 1048576]"] by (simp add: normal_def)
  then show "duk__bi_is_2to52 x" by (simp add: duk__bi_is_2to52_def push_bit_eq_mult)
qed

lemma twoexp_val: "bval (duk__bi_twoexp y) = 2 ^ y" "normal (duk__bi_twoexp y)"
proof -
  have t: "duk__bi_twoexp y = replicate (y div 32) 0 @ [push_bit (y mod 32) 1]"
    by (simp add: duk__bi_twoexp_def Let_def replicate_append_same [symmetric] list_update_append)
  have m: "y mod 32 < 32" by simp
  then have "(2 :: nat) ^ (y mod 32) < 2 ^ 32" by (intro power_strict_increasing) auto
  then have "unat (of_nat (2 ^ (y mod 32)) :: u32) = 2 ^ (y mod 32)" by (rule unat_of_nat_u32)
  then have u: "unat (push_bit (y mod 32) (1 :: u32)) = 2 ^ (y mod 32)" by (simp add: push_bit_eq_mult)
  have "bval (duk__bi_twoexp y) = 2 ^ (32 * (y div 32)) * 2 ^ (y mod 32)"
    unfolding t bval_append bval.simps u by simp
  then show "bval (duk__bi_twoexp y) = 2 ^ y" by (simp flip: power_add)
  have "push_bit (y mod 32) 1 \<noteq> (0 :: u32)" using u by (metis power_not_zero unat_0 zero_neq_numeral)
  then show "normal (duk__bi_twoexp y)" unfolding t normal_def by simp
qed

lemma exp_loop_val: "bval (bi_exp_loop x t1 y) = bval x * bval t1 ^ y"
proof (induction x t1 y rule: bi_exp_loop.induct)
  case (1 x t1 y)
  let ?x = "if y mod 2 = 1 then duk__bi_mul_copy x t1 else x"
  have x: "bval ?x = bval x * bval t1 ^ (y mod 2)"
    using mod_less_divisor [of 2 y] by (auto simp: duk__bi_mul_copy_def mul_val less_2_cases_iff)
  show ?case
  proof (cases "y div 2 = 0")
    case True
    then have "y mod 2 = y" by simp
    then show ?thesis using True x by (subst bi_exp_loop.simps) (simp add: Let_def)
  next
    case False
    have "bval (bi_exp_loop x t1 y) = bval ?x * (bval t1 * bval t1) ^ (y div 2)"
      using 1 [OF refl False] False by (subst bi_exp_loop.simps) (simp add: Let_def duk__bi_mul_copy_def mul_val)
    also have "\<dots> = bval x * bval t1 ^ (y mod 2 + 2 * (y div 2))"
      unfolding x power_add power_mult power2_eq_square by simp
    finally show ?thesis by simp
  qed
qed

lemma exp_loop_normal: "normal x \<Longrightarrow> normal (bi_exp_loop x t1 y)"
  by (induction x t1 y rule: bi_exp_loop.induct)
    (subst bi_exp_loop.simps, simp add: Let_def duk__bi_mul_copy_def mul_val)

lemma exp_small_val: "bval (duk__bi_exp_small b y) = unat b ^ y" "normal (duk__bi_exp_small b y)"
  by (simp_all add: duk__bi_exp_small_def twoexp_val exp_loop_val exp_loop_normal)

section \<open>Properties\<close>

lemma fits_valid: "normal x \<Longrightarrow> bval x < 2 ^ (32 * DUK__BI_MAX_PARTS) \<Longrightarrow> duk__bi_is_valid x"
  using normal_length_le [of x DUK__BI_MAX_PARTS] by (simp add: valid_normal DUK__BI_MAX_PARTS_def)



text \<open>
  C18. The routines for compilers without 64 bit integers, with their carries and borrows detected
  from the wrap of 32 bit words and their products put together from 16 bit halves, return the same
  bigints part for part as the 64 bit routines, for all operands (of no greater length, for the
  subtrahend).
\<close>

theorem bigint_no64_agrees:
  "duk__bi_add_no64 y z = duk__bi_add y z \<and> duk__bi_mul_no64 y z = duk__bi_mul y z \<and>
   (length z \<le> length y \<longrightarrow> duk__bi_sub_no64 y z = duk__bi_sub y z)"
  using add_no64 mul_no64 sub_no64 by blast

theorem bigint_no64_agrees_witness:
  "duk__bi_sub_no64 [0, 0, 1] [1] = duk__bi_sub [0, 0, 1] [1]"
  using bigint_no64_agrees [of "[0, 0, 1]" "[1]"] by simp

text \<open>
  \<open>duk__bi_exp_small\<close> ends and its value is the power, for the shift of the binary case and for
  the squaring loop alike.
\<close>

theorem bigint_exp_small:
  "bval (duk__bi_exp_small b y) = unat b ^ y \<and> (unat b ^ y < 2 ^ (32 * DUK__BI_MAX_PARTS) \<longrightarrow> duk__bi_is_valid (duk__bi_exp_small b y))"
  using exp_small_val fits_valid by simp

theorem bigint_exp_small_witness:
  "bval (duk__bi_exp_small 10 23) = 10 ^ 23 \<and> duk__bi_is_valid (duk__bi_exp_small 10 23)"
  using bigint_exp_small [of 10 23] by (simp add: DUK__BI_MAX_PARTS_def)

end
