(* ===== verification/JsDragon4.thy ===== *)
theory JsDragon4
  imports Complex_Main JsBigint
begin

unbundle bit_operations_syntax

text \<open>
  Number to string conversion of the JavaScript command (Userspace/Commands/JS/duktape.c, section
  duk_numconv.c): the Dragon4 variant on the bigints of \<open>JsBigint\<close>. The scratch bigints \<open>t1\<close> and
  \<open>t2\<close> are local values here. The loops are partial functions; it is shown that they end. The main
  result is the one the algorithm is used for: the digits denote a number inside the rounding
  interval of the input, so that reading them back gives the input.
\<close>

section \<open>Context\<close>

record nc_ctx =
  nc_f :: bigint
  nc_r :: bigint
  nc_s :: bigint
  nc_mp :: bigint
  nc_mm :: bigint
  nc_is_s2n :: bool
  nc_is_fixed :: bool
  nc_req_digits :: int
  nc_abs_pos :: bool
  nc_e :: int
  nc_b :: u32
  nc_B :: u32
  nc_k :: int
  nc_low_ok :: bool
  nc_high_ok :: bool
  nc_unequal_gaps :: bool
  nc_digits :: "nat list"
  nc_count :: int

definition DUK__IEEE_DOUBLE_EXP_BIAS :: int where
  "DUK__IEEE_DOUBLE_EXP_BIAS = 1023"

definition DUK__IEEE_DOUBLE_EXP_MIN :: int where
  "DUK__IEEE_DOUBLE_EXP_MIN = - 1022"

definition duk_lc_digits :: string where
  "duk_lc_digits = ''0123456789abcdefghijklmnopqrstuvwxyz''"

definition DUK__DIGITCHAR :: "nat \<Rightarrow> char" where
  "DUK__DIGITCHAR x = duk_lc_digits ! x"

text \<open>
  The loop of \<open>duk__dragon4_format_uint32\<close> writes the digits backwards; the argument \<open>acc\<close> is what
  has been written behind the position. The source asserts a radix of at least 2, without which its
  loop would not end; here a smaller radix ends it.
\<close>

function format_uint32_loop :: "u32 \<Rightarrow> u32 \<Rightarrow> string \<Rightarrow> string" where
  "format_uint32_loop x radix acc =
     (let t = x div radix; dig = x - t * radix; acc' = DUK__DIGITCHAR (unat dig) # acc
      in if t = 0 \<or> radix < 2 then acc' else format_uint32_loop t radix acc')"
  by pat_completeness auto
termination
proof (relation "measure (\<lambda>(x, radix, acc). unat x)", goal_cases)
  case (2 x radix acc t dig acc')
  then have "x \<noteq> 0" "2 \<le> unat radix" by (auto simp: word_less_nat_alt)
  then have "unat x div unat radix < unat x" by (intro div_less_dividend) (auto simp: unat_gt_0)
  then show ?case using 2 by (simp add: unat_div)
qed simp

declare format_uint32_loop.simps [simp del]

definition duk__dragon4_format_uint32 :: "u32 \<Rightarrow> u32 \<Rightarrow> string" where
  "duk__dragon4_format_uint32 x radix = format_uint32_loop x radix []"

section \<open>Preparation\<close>

definition duk__dragon4_prepare :: "nc_ctx \<Rightarrow> nc_ctx" where
  "duk__dragon4_prepare c0 =
     (let round = duk__bi_is_even (nc_f c0);
          lowest_mantissa = (if nc_is_s2n c0 then False else duk__bi_is_2to52 (nc_f c0));
          c = c0\<lparr>nc_low_ok := round, nc_high_ok := round, nc_unequal_gaps := False\<rparr>;
          f = nc_f c; b = nc_b c; e = nc_e c
      in if e \<ge> 0 then
           if lowest_mantissa then
             let mm = duk__bi_exp_small b (nat e);
                 mp = duk__bi_mul_small mm b;
                 t1 = duk__bi_mul_small f 2
             in c\<lparr>nc_mm := mm, nc_mp := mp, nc_r := duk__bi_mul t1 mp, nc_s := duk__bi_set_small (b * 2),
                  nc_unequal_gaps := True\<rparr>
           else
             let mm = duk__bi_exp_small b (nat e);
                 mp = duk__bi_copy mm;
                 t1 = duk__bi_mul_small f 2
             in c\<lparr>nc_mm := mm, nc_mp := mp, nc_r := duk__bi_mul t1 mp, nc_s := duk__bi_set_small 2\<rparr>
         else
           if e > DUK__IEEE_DOUBLE_EXP_MIN \<and> lowest_mantissa then
             let t1 = duk__bi_exp_small b (nat (1 - e))
             in c\<lparr>nc_r := duk__bi_mul_small f (b * 2), nc_s := duk__bi_mul_small t1 2,
                  nc_mp := duk__bi_set_small 2, nc_mm := duk__bi_set_small 1, nc_unequal_gaps := True\<rparr>
           else
             let t1 = duk__bi_exp_small b (nat (- e))
             in c\<lparr>nc_r := duk__bi_mul_small f 2, nc_s := duk__bi_mul_small t1 2,
                  nc_mp := duk__bi_set_small 1, nc_mm := duk__bi_set_small 1\<rparr>)"

section \<open>Scaling\<close>

partial_function (option) scale_inc :: "nc_ctx \<Rightarrow> int \<Rightarrow> (nc_ctx \<times> int) option" where
  "scale_inc c k =
     (if duk__bi_compare (duk__bi_add (nc_r c) (nc_mp c)) (nc_s c) \<ge> (if nc_high_ok c then 0 else 1)
      then scale_inc (c\<lparr>nc_s := duk__bi_mul_small_copy (nc_s c) (nc_B c)\<rparr>) (k + 1)
      else Some (c, k))"

partial_function (option) scale_dec :: "nc_ctx \<Rightarrow> int \<Rightarrow> (nc_ctx \<times> int) option" where
  "scale_dec c k =
     (if duk__bi_compare (duk__bi_mul_small (duk__bi_add (nc_r c) (nc_mp c)) (nc_B c)) (nc_s c) \<le> (if nc_high_ok c then - 1 else 0)
      then scale_dec
             (c\<lparr>nc_r := duk__bi_mul_small_copy (nc_r c) (nc_B c),
                nc_mp := duk__bi_mul_small_copy (nc_mp c) (nc_B c),
                nc_mm := (if nc_unequal_gaps c then duk__bi_mul_small_copy (nc_mm c) (nc_B c) else nc_mm c)\<rparr>) (k - 1)
      else Some (c, k))"

definition duk__dragon4_scale :: "nc_ctx \<Rightarrow> nc_ctx option" where
  "duk__dragon4_scale c0 =
     Option.bind (scale_inc c0 0) (\<lambda>(c, k).
     Option.bind (if k > 0 then Some (c, k) else scale_dec c k) (\<lambda>(c, k).
       let c = (if \<not> nc_unequal_gaps c then c\<lparr>nc_mm := duk__bi_copy (nc_mp c)\<rparr> else c)
       in Some (c\<lparr>nc_k := k\<rparr>)))"

section \<open>Digit generation\<close>

text \<open>Quotient and remainder by repeated subtraction.\<close>

partial_function (option) quotient_loop :: "bigint \<Rightarrow> bigint \<Rightarrow> nat \<Rightarrow> (nat \<times> bigint) option" where
  "quotient_loop t1 s d =
     (if duk__bi_compare t1 s < 0 then Some (d, t1)
      else quotient_loop (duk__bi_sub_copy t1 s) s (d + 1))"

text \<open>One round up to the terminating conditions: the digit, the conditions and the new context.\<close>

definition generate_round :: "nc_ctx \<Rightarrow> (nat \<times> bool \<times> bool \<times> nc_ctx) option" where
  "generate_round c =
     Option.bind (quotient_loop (duk__bi_mul_small (nc_r c) (nc_B c)) (nc_s c) 0) (\<lambda>(d, t1).
       let c = c\<lparr>nc_r := duk__bi_copy t1,
                 nc_mp := duk__bi_mul_small_copy (nc_mp c) (nc_B c),
                 nc_mm := duk__bi_mul_small_copy (nc_mm c) (nc_B c)\<rparr>;
           tc1 = (\<not> nc_is_fixed c \<and> duk__bi_compare (nc_r c) (nc_mm c) \<le> (if nc_low_ok c then 0 else - 1));
           tc2 = (\<not> nc_is_fixed c \<and>
                  duk__bi_compare (duk__bi_add (nc_r c) (nc_mp c)) (nc_s c) \<ge> (if nc_high_ok c then 0 else 1))
       in Some (d, tc1, tc2, c))"

partial_function (option) generate_loop :: "nc_ctx \<Rightarrow> int \<Rightarrow> nc_ctx option" where
  "generate_loop c count =
     Option.bind (generate_round c) (\<lambda>(d, tc1, tc2, c).
       let count = count + 1;
           out = (\<lambda>x. c\<lparr>nc_digits := nc_digits c @ [x], nc_count := count\<rparr>)
       in if tc1 \<and> tc2 then
            (if duk__bi_compare (duk__bi_mul_small (nc_r c) 2) (nc_s c) < 0 then Some (out d) else Some (out (d + 1)))
          else if tc1 then Some (out d)
          else if tc2 then Some (out (d + 1))
          else
            let c = out d in
            if nc_is_fixed c then
              if nc_abs_pos c
              then (if nc_k c - count + 1 \<le> nc_req_digits c then Some c else generate_loop c count)
              else (if count \<ge> nc_req_digits c then Some c else generate_loop c count)
            else generate_loop c count)"

definition duk__dragon4_generate :: "nc_ctx \<Rightarrow> nc_ctx option" where
  "duk__dragon4_generate c = generate_loop (c\<lparr>nc_digits := []\<rparr>) 0"

section \<open>Rounding of fixed format output\<close>

text \<open>
  The carry loop from index \<open>i\<close> to the front; the flag says that it ran over the first digit.
\<close>

fun round_carry :: "nat list \<Rightarrow> nat \<Rightarrow> nat \<Rightarrow> nat list \<times> bool" where
  "round_carry ds 0 B = (1 # ds[0 := 0], True)"
| "round_carry ds (Suc i) B =
     (let ds = ds[Suc i := 0]; t = ds ! i + 1
      in if t < B then (ds[i := t], False) else round_carry ds i B)"

definition duk__dragon4_fixed_format_round :: "nc_ctx \<Rightarrow> int \<Rightarrow> nc_ctx \<times> bool" where
  "duk__dragon4_fixed_format_round c round_idx =
     (if round_idx \<ge> nc_count c then (c, False)
      else if round_idx < 0 then (c, False)
      else
        let roundup_limit = (unat (nc_B c) + 1) div 2 in
        if nc_digits c ! nat round_idx \<ge> roundup_limit
        then (case round_carry (nc_digits c) (nat round_idx) (unat (nc_B c)) of
                (ds, True) \<Rightarrow> (c\<lparr>nc_digits := ds, nc_k := nc_k c + 1, nc_count := nc_count c + 1\<rparr>, True)
              | (ds, False) \<Rightarrow> (c\<lparr>nc_digits := ds\<rparr>, False))
        else (c, False))"

section \<open>Formatting\<close>

definition DUK__NO_EXP :: int where
  "DUK__NO_EXP = 65536"

definition DUK_N2S_FLAG_FORCE_EXP :: u32 where
  "DUK_N2S_FLAG_FORCE_EXP = push_bit 1 1"

definition DUK_N2S_FLAG_NO_ZERO_PAD :: u32 where
  "DUK_N2S_FLAG_NO_ZERO_PAD = push_bit 2 1"

text \<open>The digit loop over the positions from \<open>pos\<close> down to \<open>pos_end\<close>, exclusive.\<close>

function format_digits :: "nc_ctx \<Rightarrow> int \<Rightarrow> int \<Rightarrow> int \<Rightarrow> string" where
  "format_digits c k pos pos_end =
     (if pos > pos_end then
        (if pos = 0 then ''.'' else '''') @
        [if pos > k then CHR ''0''
         else if pos \<le> k - nc_count c then CHR ''0''
         else DUK__DIGITCHAR (nc_digits c ! nat (k - pos))] @
        format_digits c k (pos - 1) pos_end
      else '''')"
  by pat_completeness auto
termination
  by (relation "measure (\<lambda>(c, k, pos, pos_end). nat (pos - pos_end))") auto

declare format_digits.simps [simp del]

definition duk__dragon4_convert_and_push :: "nc_ctx \<Rightarrow> u32 \<Rightarrow> int \<Rightarrow> u32 \<Rightarrow> bool \<Rightarrow> string" where
  "duk__dragon4_convert_and_push c radix digits flags neg =
     (let k0 = nc_k c;
          use_exp = (\<not> nc_abs_pos c \<and>
            (flags AND DUK_N2S_FLAG_FORCE_EXP \<noteq> 0 \<or>
             (flags AND DUK_N2S_FLAG_NO_ZERO_PAD \<noteq> 0 \<and> k0 - digits \<ge> 1) \<or>
             ((k0 > 21 \<or> k0 \<le> - 6) \<and> radix = 10)));
          expt = (if use_exp then k0 - 1 else DUK__NO_EXP);
          k = (if use_exp then 1 else k0);
          pos = (if k \<ge> 1 then k else 1);
          pos_end0 = (if nc_is_fixed c then (if nc_abs_pos c then - digits else k - digits) else k - nc_count c);
          pos_end = (if pos_end0 > 0 then 0 else pos_end0)
      in (if neg then ''-'' else '''') @ format_digits c k pos pos_end @
         (if expt \<noteq> DUK__NO_EXP
          then ''e'' @ [if expt \<ge> 0 then CHR ''+'' else CHR ''-''] @
               duk__dragon4_format_uint32 (word_of_int (if expt \<ge> 0 then expt else - expt)) radix
          else ''''))"

section \<open>Doubles\<close>

text \<open>The context of a double, given by the high and low word of its IEEE representation.\<close>

definition duk__dragon4_double_to_ctx :: "nc_ctx \<Rightarrow> u32 \<Rightarrow> u32 \<Rightarrow> nc_ctx" where
  "duk__dragon4_double_to_ctx c high32 low32 =
     (let f = [low32, high32 AND 0x000fffff];
          expt = uint (drop_bit 20 high32 AND 0x07ff)
      in if expt = 0
         then c\<lparr>nc_f := duk__bi_normalize f, nc_e := DUK__IEEE_DOUBLE_EXP_MIN - 52\<rparr>
         else c\<lparr>nc_f := f[1 := f ! 1 OR 0x00100000], nc_e := expt - DUK__IEEE_DOUBLE_EXP_BIAS - 52\<rparr>)"

text \<open>The slow path shared by the two directions: preparation, scaling and digit generation.\<close>

definition dragon4_run :: "nc_ctx \<Rightarrow> nc_ctx option" where
  "dragon4_run c = Option.bind (duk__dragon4_scale (duk__dragon4_prepare c)) duk__dragon4_generate"

section \<open>Comparisons and quotients on values\<close>

text \<open>A comparison that accepts equality when \<open>ok\<close> holds.\<close>

definition reaches :: "bool \<Rightarrow> nat \<Rightarrow> nat \<Rightarrow> bool" where
  "reaches ok a b \<longleftrightarrow> (if ok then b \<le> a else b < a)"

lemma compare_ge: "normal x \<Longrightarrow> normal y \<Longrightarrow>
    (duk__bi_compare x y \<ge> (if ok then 0 else 1)) = reaches ok (bval x) (bval y)"
  by (simp add: compare_val reaches_def sgn_if)

lemma compare_le: "normal x \<Longrightarrow> normal y \<Longrightarrow>
    (duk__bi_compare x y \<le> (if ok then 0 else - 1)) = reaches ok (bval y) (bval x)"
  by (simp add: compare_val reaches_def sgn_if)

lemma compare_le_neg: "normal x \<Longrightarrow> normal y \<Longrightarrow>
    (duk__bi_compare x y \<le> (if ok then - 1 else 0)) = (\<not> reaches ok (bval x) (bval y))"
  by (simp add: compare_val reaches_def sgn_if)

lemma compare_less: "normal x \<Longrightarrow> normal y \<Longrightarrow> duk__bi_compare x y < 0 \<longleftrightarrow> bval x < bval y"
  by (simp add: compare_val sgn_if)

lemma quotient_loop_spec:
  assumes "normal t1" and "normal s" and "0 < bval s"
  shows "\<exists>t. quotient_loop t1 s d = Some (d + bval t1 div bval s, t) \<and> normal t \<and> bval t = bval t1 mod bval s"
  using assms(1)
proof (induction "bval t1" arbitrary: t1 d rule: less_induct)
  case less
  show ?case
  proof (cases "bval t1 < bval s")
    case True
    then show ?thesis using less.prems assms(2) by (subst quotient_loop.simps) (simp add: compare_less)
  next
    case False
    let ?t = "duk__bi_sub_copy t1 s"
    have le: "bval s \<le> bval t1" using False by simp
    have t: "bval ?t = bval t1 - bval s" "normal ?t"
      using sub_val [OF less.prems assms(2) le] by (simp_all add: duk__bi_sub_copy_def)
    have "bval t1 div bval s = Suc ((bval t1 - bval s) div bval s)" "bval t1 mod bval s = (bval t1 - bval s) mod bval s"
      using le assms(3) by (simp_all add: le_div_geq le_mod_geq)
    moreover have "quotient_loop t1 s d = quotient_loop ?t s (d + 1)"
      using False less.prems assms(2) by (subst quotient_loop.simps) (simp add: compare_less)
    ultimately show ?thesis using less.hyps [of ?t "d + 1"] t assms(3) le by simp
  qed
qed

section \<open>Scaling on values\<close>

definition nc_normal :: "nc_ctx \<Rightarrow> bool" where
  "nc_normal c \<longleftrightarrow> normal (nc_r c) \<and> normal (nc_s c) \<and> normal (nc_mp c) \<and> normal (nc_mm c)"

lemma scale_inc_spec:
  assumes "nc_normal c" and "0 < bval (nc_s c)" and "2 \<le> unat (nc_B c)"
  shows "\<exists>n s. scale_inc c k = Some (c\<lparr>nc_s := s\<rparr>, k + int n) \<and> normal s \<and> bval s = bval (nc_s c) * unat (nc_B c) ^ n \<and>
    \<not> reaches (nc_high_ok c) (bval (nc_r c) + bval (nc_mp c)) (bval s) \<and>
    (0 < n \<longrightarrow> reaches (nc_high_ok c) ((bval (nc_r c) + bval (nc_mp c)) * unat (nc_B c)) (bval s))"
  using assms
proof (induction "bval (nc_r c) + bval (nc_mp c) + 1 - bval (nc_s c)" arbitrary: c k rule: less_induct)
  case less
  let ?a = "bval (nc_r c) + bval (nc_mp c)" and ?B = "unat (nc_B c)"
  have n: "normal (duk__bi_add (nc_r c) (nc_mp c))" "normal (nc_s c)"
    using less.prems(1) by (simp_all add: nc_normal_def add_normal)
  show ?case
  proof (cases "reaches (nc_high_ok c) ?a (bval (nc_s c))")
    case False
    then show ?thesis using n compare_ge [OF n, of "nc_high_ok c"]
      by (subst scale_inc.simps) (intro exI [of _ 0] exI [of _ "nc_s c"], simp add: add_val)
  next
    case True
    let ?s = "duk__bi_mul_small_copy (nc_s c) (nc_B c)" and ?c = "c\<lparr>nc_s := duk__bi_mul_small_copy (nc_s c) (nc_B c)\<rparr>"
    have "bval (nc_s c) * 2 \<le> bval (nc_s c) * ?B" using less.prems(3) by (intro mult_le_mono2)
    then have grow: "bval (nc_s c) < bval ?s" using less.prems(2) by simp
    have "bval (nc_s c) \<le> ?a" using True by (auto simp: reaches_def split: if_splits)
    then have m: "?a + 1 - bval ?s < ?a + 1 - bval (nc_s c)" using grow by linarith
    have c: "nc_normal ?c" "0 < bval (nc_s ?c)" "2 \<le> unat (nc_B ?c)" using less.prems grow by (simp_all add: nc_normal_def)
    obtain n' s' where IH: "scale_inc ?c (k + 1) = Some (?c\<lparr>nc_s := s'\<rparr>, k + 1 + int n')" "normal s'"
        "bval s' = bval ?s * ?B ^ n'" "\<not> reaches (nc_high_ok c) ?a (bval s')"
        "0 < n' \<longrightarrow> reaches (nc_high_ok c) (?a * ?B) (bval s')"
      using less.hyps [of ?c "k + 1"] m c by (auto simp del: mul_small_val)
    have run: "scale_inc c k = scale_inc ?c (k + 1)"
      using True compare_ge [OF n, of "nc_high_ok c"] by (subst scale_inc.simps) (simp add: add_val)
    have "reaches (nc_high_ok c) (?a * ?B) (bval s')"
    proof (cases n')
      case 0
      then show ?thesis using True IH(3) less.prems(3) by (auto simp: reaches_def)
    qed (use IH(5) in simp)
    then show ?thesis
      using IH run by (intro exI [of _ "Suc n'"] exI [of _ s']) (simp add: algebra_simps)
  qed
qed

lemma scale_dec_spec:
  assumes "nc_normal c" and "0 < bval (nc_mp c)" and "2 \<le> unat (nc_B c)"
    and "\<not> reaches (nc_high_ok c) (bval (nc_r c) + bval (nc_mp c)) (bval (nc_s c))"
  shows "\<exists>n r mp mm. scale_dec c k = Some (c\<lparr>nc_r := r, nc_mp := mp, nc_mm := mm\<rparr>, k - int n) \<and>
    normal r \<and> normal mp \<and> normal mm \<and> bval r = bval (nc_r c) * unat (nc_B c) ^ n \<and> bval mp = bval (nc_mp c) * unat (nc_B c) ^ n \<and>
    (nc_unequal_gaps c \<longrightarrow> bval mm = bval (nc_mm c) * unat (nc_B c) ^ n) \<and>
    \<not> reaches (nc_high_ok c) (bval r + bval mp) (bval (nc_s c)) \<and>
    reaches (nc_high_ok c) ((bval r + bval mp) * unat (nc_B c)) (bval (nc_s c))"
  using assms
proof (induction "bval (nc_s c) - (bval (nc_r c) + bval (nc_mp c))" arbitrary: c k rule: less_induct)
  case less
  let ?a = "bval (nc_r c) + bval (nc_mp c)" and ?B = "unat (nc_B c)"
  have n: "normal (duk__bi_mul_small (duk__bi_add (nc_r c) (nc_mp c)) (nc_B c))" "normal (nc_s c)"
    using less.prems(1) by (simp_all add: nc_normal_def)
  note cmp = compare_le_neg [OF n, of "nc_high_ok c", simplified mul_small_val add_val]
  show ?case
  proof (cases "reaches (nc_high_ok c) (?a * ?B) (bval (nc_s c))")
    case True
    then show ?thesis using cmp less.prems(1,4)
      by (subst scale_dec.simps)
        (intro exI [of _ 0] exI [of _ "nc_r c"] exI [of _ "nc_mp c"] exI [of _ "nc_mm c"], simp add: nc_normal_def)
  next
    case False
    let ?mm = "if nc_unequal_gaps c then duk__bi_mul_small_copy (nc_mm c) (nc_B c) else nc_mm c"
    let ?c = "c\<lparr>nc_r := duk__bi_mul_small_copy (nc_r c) (nc_B c), nc_mp := duk__bi_mul_small_copy (nc_mp c) (nc_B c), nc_mm := ?mm\<rparr>"
    have run: "scale_dec c k = scale_dec ?c (k - 1)"
      using False cmp by (subst scale_dec.simps) simp
    have a: "bval (nc_r ?c) + bval (nc_mp ?c) = ?a * ?B" by (simp add: algebra_simps)
    have x1: "?a < ?a * ?B" using less.prems(2,3) by simp
    have x2: "?a * ?B \<le> bval (nc_s c)" using False by (auto simp: reaches_def split: if_splits)
    have "bval (nc_s c) - ?a * ?B < bval (nc_s c) - ?a" by (rule diff_less_mono2 [OF x1 less_le_trans [OF x1 x2]])
    then have m: "bval (nc_s ?c) - (bval (nc_r ?c) + bval (nc_mp ?c)) < bval (nc_s c) - ?a" unfolding a by simp
    have c: "nc_normal ?c" "0 < bval (nc_mp ?c)" "2 \<le> unat (nc_B ?c)"
        "\<not> reaches (nc_high_ok ?c) (bval (nc_r ?c) + bval (nc_mp ?c)) (bval (nc_s ?c))"
      unfolding a using less.prems False by (simp_all add: nc_normal_def)
    obtain n' r mp mm where IH: "scale_dec ?c (k - 1) = Some (?c\<lparr>nc_r := r, nc_mp := mp, nc_mm := mm\<rparr>, k - 1 - int n')"
        "normal r" "normal mp" "normal mm" "bval r = bval (nc_r ?c) * ?B ^ n'" "bval mp = bval (nc_mp ?c) * ?B ^ n'"
        "nc_unequal_gaps c \<longrightarrow> bval mm = bval (nc_mm ?c) * ?B ^ n'"
        "\<not> reaches (nc_high_ok c) (bval r + bval mp) (bval (nc_s c))"
        "reaches (nc_high_ok c) ((bval r + bval mp) * ?B) (bval (nc_s c))"
      using less.hyps [OF m c, of "k - 1"] by (auto simp del: mul_small_val)
    show ?thesis
      using IH(1-4,7-9) IH(5,6) run
      by (intro exI [of _ "Suc n'"] exI [of _ r] exI [of _ mp] exI [of _ mm]) (simp add: algebra_simps)
  qed
qed

section \<open>Digit generation on values\<close>

fun dval :: "nat \<Rightarrow> nat list \<Rightarrow> nat" where
  "dval B [] = 0"
| "dval B (d # ds) = d * B ^ length ds + dval B ds"

lemma dval_append: "dval B (xs @ ys) = dval B xs * B ^ length ys + dval B ys"
  by (induction xs) (simp_all add: algebra_simps power_add)

lemma dval_bound: "(\<forall>d \<in> set ds. d < B) \<Longrightarrow> dval B ds < B ^ length ds"
proof (induction ds)
  case (Cons d ds)
  then have "d * B ^ length ds + dval B ds < (d + 1) * B ^ length ds" by simp
  also have "\<dots> \<le> B * B ^ length ds" using Cons.prems by (intro mult_le_mono1) auto
  finally show ?case by simp
qed simp

lemma generate_round_spec:
  assumes "nc_normal c" and "0 < bval (nc_s c)"
  shows "\<exists>r mp mm. generate_round c = Some (bval (nc_r c) * unat (nc_B c) div bval (nc_s c),
       \<not> nc_is_fixed c \<and> reaches (nc_low_ok c) (bval mm) (bval r),
       \<not> nc_is_fixed c \<and> reaches (nc_high_ok c) (bval r + bval mp) (bval (nc_s c)),
       c\<lparr>nc_r := r, nc_mp := mp, nc_mm := mm\<rparr>) \<and>
    normal r \<and> normal mp \<and> normal mm \<and> bval r = bval (nc_r c) * unat (nc_B c) mod bval (nc_s c) \<and>
    bval mp = bval (nc_mp c) * unat (nc_B c) \<and> bval mm = bval (nc_mm c) * unat (nc_B c)"
proof -
  have ns: "normal (nc_s c)" using assms(1) by (simp add: nc_normal_def)
  obtain t where t: "quotient_loop (duk__bi_mul_small (nc_r c) (nc_B c)) (nc_s c) 0 =
        Some (bval (nc_r c) * unat (nc_B c) div bval (nc_s c), t)" "normal t"
      "bval t = bval (nc_r c) * unat (nc_B c) mod bval (nc_s c)"
    using quotient_loop_spec [of "duk__bi_mul_small (nc_r c) (nc_B c)" "nc_s c" 0] assms(2) ns by auto
  let ?mp = "duk__bi_mul_small_copy (nc_mp c) (nc_B c)" and ?mm = "duk__bi_mul_small_copy (nc_mm c) (nc_B c)"
  have "(duk__bi_compare t ?mm \<le> (if nc_low_ok c then 0 else - 1)) = reaches (nc_low_ok c) (bval ?mm) (bval t)"
    by (rule compare_le) (simp_all add: t(2))
  moreover have "(duk__bi_compare (duk__bi_add t ?mp) (nc_s c) \<ge> (if nc_high_ok c then 0 else 1)) =
      reaches (nc_high_ok c) (bval t + bval ?mp) (bval (nc_s c))"
    using compare_ge [of "duk__bi_add t ?mp" "nc_s c" "nc_high_ok c"] t(2) ns by (simp add: add_normal add_val)
  ultimately show ?thesis
    using t
    by (intro exI [of _ t] exI [of _ ?mp] exI [of _ ?mm]) (simp add: generate_round_def Let_def)
qed

text \<open>
  The digits \<open>ds\<close> generated from a state denote, with one division by the radix per digit, a number
  within \<open>mm\<close> below and \<open>mp\<close> above \<open>r\<close>, all in units of \<open>s\<close>.
\<close>

definition digits_between :: "nc_ctx \<Rightarrow> nat list \<Rightarrow> bool" where
  "digits_between c ds \<longleftrightarrow>
     (let B = unat (nc_B c); S = bval (nc_s c); n = length ds in
      reaches (nc_low_ok c) (dval B ds * S + bval (nc_mm c) * B ^ n) (bval (nc_r c) * B ^ n) \<and>
      reaches (nc_high_ok c) ((bval (nc_r c) + bval (nc_mp c)) * B ^ n) (dval B ds * S))"

lemma reaches_add: "reaches ok (a + x) (b + x) = reaches ok a b"
  by (simp add: reaches_def)

lemma last_digit_between:
  assumes B: "2 \<le> unat (nc_B c)" and S: "0 < bval (nc_s c)" and mp: "0 < bval (nc_mp c)"
  defines "rB \<equiv> bval (nc_r c) * unat (nc_B c)"
  shows "reaches (nc_low_ok c) (bval (nc_mm c) * unat (nc_B c)) (rB mod bval (nc_s c)) \<Longrightarrow>
      digits_between c [rB div bval (nc_s c)]"
    and "reaches (nc_high_ok c) (rB mod bval (nc_s c) + bval (nc_mp c) * unat (nc_B c)) (bval (nc_s c)) \<Longrightarrow>
      digits_between c [rB div bval (nc_s c) + 1]"
proof -
  let ?S = "bval (nc_s c)" and ?B = "unat (nc_B c)"
  define d r' where dr: "d = rB div ?S" "r' = rB mod ?S"
  have e: "bval (nc_r c) * ?B = d * ?S + r'" by (simp add: dr rB_def)
  have r': "r' < ?S" using S by (simp add: dr)
  have pos: "0 < bval (nc_mp c) * ?B" using mp B by simp
  { assume "reaches (nc_low_ok c) (bval (nc_mm c) * ?B) r'"
    then show "digits_between c [d]"
      unfolding digits_between_def Let_def using e pos by (auto simp: reaches_def algebra_simps split: if_splits) }
  { assume "reaches (nc_high_ok c) (r' + bval (nc_mp c) * ?B) ?S"
    then show "digits_between c [d + 1]"
      unfolding digits_between_def Let_def using e r' by (auto simp: reaches_def algebra_simps split: if_splits) }
qed

lemma next_digits_between:
  assumes S: "0 < bval (nc_s c)"
    and c': "nc_s c' = nc_s c" "nc_B c' = nc_B c" "nc_low_ok c' = nc_low_ok c" "nc_high_ok c' = nc_high_ok c"
      "bval (nc_r c') = bval (nc_r c) * unat (nc_B c) mod bval (nc_s c)"
      "bval (nc_mp c') = bval (nc_mp c) * unat (nc_B c)" "bval (nc_mm c') = bval (nc_mm c) * unat (nc_B c)"
    and ds: "digits_between c' ds"
  shows "digits_between c ((bval (nc_r c) * unat (nc_B c) div bval (nc_s c)) # ds)"
proof -
  let ?S = "bval (nc_s c)" and ?B = "unat (nc_B c)" and ?n = "length ds"
  define d r' where dr: "d = bval (nc_r c) * ?B div ?S" "r' = bval (nc_r c) * ?B mod ?S"
  have e: "bval (nc_r c) * ?B = d * ?S + r'" by (simp add: dr)
  then have "bval (nc_r c) * ?B * ?B ^ ?n = (d * ?S + r') * ?B ^ ?n" by simp
  then have eN: "bval (nc_r c) * ?B ^ Suc ?n = d * ?B ^ ?n * ?S + r' * ?B ^ ?n" by (simp add: algebra_simps)
  have lo: "reaches (nc_low_ok c) (dval ?B ds * ?S + bval (nc_mm c) * ?B * ?B ^ ?n) (r' * ?B ^ ?n)"
    and hi: "reaches (nc_high_ok c) ((r' + bval (nc_mp c) * ?B) * ?B ^ ?n) (dval ?B ds * ?S)"
    using ds unfolding digits_between_def Let_def c' dr by simp_all
  have "reaches (nc_low_ok c) (dval ?B (d # ds) * ?S + bval (nc_mm c) * ?B ^ Suc ?n) (bval (nc_r c) * ?B ^ Suc ?n)"
    using reaches_add [of "nc_low_ok c" "dval ?B ds * ?S + bval (nc_mm c) * ?B * ?B ^ ?n" "d * ?B ^ ?n * ?S" "r' * ?B ^ ?n"] lo
    unfolding eN by (simp add: algebra_simps)
  moreover have "reaches (nc_high_ok c) ((bval (nc_r c) + bval (nc_mp c)) * ?B ^ Suc ?n) (dval ?B (d # ds) * ?S)"
    using reaches_add [of "nc_high_ok c" "(r' + bval (nc_mp c) * ?B) * ?B ^ ?n" "d * ?B ^ ?n * ?S" "dval ?B ds * ?S"] hi
    unfolding distrib_right [of "bval (nc_r c)"] eN by (simp add: algebra_simps)
  ultimately show ?thesis unfolding digits_between_def Let_def dr by simp
qed

lemma digit_below_radix:
  assumes "0 < S" and "r < S" and "0 < (B :: nat)"
  shows "r * B div S < B" "\<not> reaches ok (r + mp) S \<Longrightarrow> reaches ok (r * B mod S + mp * B) S \<Longrightarrow> r * B div S + 1 < B"
proof -
  show d: "r * B div S < B" using assms by (simp add: div_less_iff_less_mult mult.commute)
  show "r * B div S + 1 < B" if n: "\<not> reaches ok (r + mp) S" and t: "reaches ok (r * B mod S + mp * B) S"
  proof (rule ccontr)
    assume "\<not> r * B div S + 1 < B"
    then have B: "B = r * B div S + 1" using d by simp
    have "r * B = (B - 1) * S + r * B mod S" using B by (metis add_diff_cancel_right' div_mult_mod_eq)
    then have "(r + mp) * B + S = B * S + (r * B mod S + mp * B)"
      using B assms(1) by (cases B) (simp_all add: algebra_simps)
    with t have "reaches ok ((r + mp) * B) (S * B)" by (auto simp: reaches_def algebra_simps split: if_splits)
    with n show False using B by (auto simp: reaches_def split: if_splits)
  qed
qed

lemma generate_loop_last:
  assumes "generate_round c = Some (d, tc1, tc2, c')" and "tc1 \<or> tc2"
  shows "\<exists>x. generate_loop c n = Some (c'\<lparr>nc_digits := nc_digits c' @ [x], nc_count := n + 1\<rparr>) \<and> (x = d \<and> tc1 \<or> x = d + 1 \<and> tc2)"
proof -
  let ?x = "if tc1 \<and> tc2 then (if duk__bi_compare (duk__bi_mul_small (nc_r c') 2) (nc_s c') < 0 then d else d + 1)
    else if tc1 then d else d + 1"
  have "generate_loop c n = Some (c'\<lparr>nc_digits := nc_digits c' @ [?x], nc_count := n + 1\<rparr>)"
    using assms by (subst generate_loop.simps) (auto simp: Let_def)
  then show ?thesis using assms(2) by (intro exI [of _ ?x]) auto
qed

lemma generate_loop_spec:
  assumes "nc_normal c" and "0 < bval (nc_s c)" and "2 \<le> unat (nc_B c)" and "0 < bval (nc_mp c)" and "\<not> nc_is_fixed c"
    and "bval (nc_r c) < bval (nc_s c)"
    and "\<not> reaches (nc_high_ok c) (bval (nc_r c) + bval (nc_mp c)) (bval (nc_s c))"
  shows "\<exists>c' ds. generate_loop c n = Some c' \<and> nc_digits c' = nc_digits c @ ds \<and> nc_count c' = n + int (length ds) \<and>
    nc_k c' = nc_k c \<and> nc_B c' = nc_B c \<and> ds \<noteq> [] \<and> (\<forall>d \<in> set ds. d < unat (nc_B c)) \<and> digits_between c ds"
  using assms
proof (induction "bval (nc_s c) - bval (nc_mp c)" arbitrary: c n rule: less_induct)
  case less
  let ?S = "bval (nc_s c)" and ?B = "unat (nc_B c)"
  let ?d = "bval (nc_r c) * ?B div ?S"
  obtain r mp mm where g: "generate_round c = Some (?d, reaches (nc_low_ok c) (bval mm) (bval r),
         reaches (nc_high_ok c) (bval r + bval mp) ?S, c\<lparr>nc_r := r, nc_mp := mp, nc_mm := mm\<rparr>)"
      and n: "normal r" "normal mp" "normal mm"
      and v: "bval r = bval (nc_r c) * ?B mod ?S" "bval mp = bval (nc_mp c) * ?B" "bval mm = bval (nc_mm c) * ?B"
    using generate_round_spec [OF less.prems(1,2)] less.prems(5) by auto
  have B0: "0 < ?B" using less.prems(3) by simp
  note dig = digit_below_radix [OF less.prems(2,6) B0]
  note fin = last_digit_between [OF less.prems(3,2,4)]
  let ?out = "\<lambda>x. c\<lparr>nc_r := r, nc_mp := mp, nc_mm := mm, nc_digits := nc_digits c @ [x], nc_count := n + 1\<rparr>"
  show ?case
  proof (cases "reaches (nc_low_ok c) (bval mm) (bval r) \<or> reaches (nc_high_ok c) (bval r + bval mp) ?S")
    case True
    then obtain x where run: "generate_loop c n = Some (?out x)"
      and x: "x = ?d \<and> reaches (nc_low_ok c) (bval mm) (bval r) \<or> x = ?d + 1 \<and> reaches (nc_high_ok c) (bval r + bval mp) ?S"
      using generate_loop_last [OF g] by auto
    have "x < ?B" "digits_between c [x]"
      using x dig fin less.prems(7) unfolding v by auto
    then show ?thesis using run by (intro exI [of _ "?out x"] exI [of _ "[x]"]) simp
  next
    case False
    then have hi: "\<not> reaches (nc_high_ok c) (bval r + bval mp) ?S" by simp
    have run: "generate_loop c n = generate_loop (?out ?d) (n + 1)"
      using g False less.prems(5) by (subst generate_loop.simps) (simp add: Let_def)
    have "bval mp \<le> ?S" using hi by (auto simp: reaches_def split: if_splits)
    moreover have "bval (nc_mp c) < bval mp" unfolding v using less.prems(3,4) by simp
    ultimately have m: "bval (nc_s (?out ?d)) - bval (nc_mp (?out ?d)) < ?S - bval (nc_mp c)" by simp
    have "bval r < ?S" unfolding v using less.prems(2) by simp
    then have pre: "nc_normal (?out ?d)" "0 < bval (nc_s (?out ?d))" "2 \<le> unat (nc_B (?out ?d))" "0 < bval (nc_mp (?out ?d))"
        "\<not> nc_is_fixed (?out ?d)" "bval (nc_r (?out ?d)) < bval (nc_s (?out ?d))"
        "\<not> reaches (nc_high_ok (?out ?d)) (bval (nc_r (?out ?d)) + bval (nc_mp (?out ?d))) (bval (nc_s (?out ?d)))"
      using less.prems hi n \<open>bval (nc_mp c) < bval mp\<close> by (simp_all add: nc_normal_def)
    obtain c' ds where IH: "generate_loop (?out ?d) (n + 1) = Some c'" "nc_digits c' = nc_digits c @ [?d] @ ds"
        "nc_count c' = n + 1 + int (length ds)" "nc_k c' = nc_k c" "nc_B c' = nc_B c" "\<forall>d \<in> set ds. d < ?B" "digits_between (?out ?d) ds"
      using less.hyps [OF m pre, of "n + 1"] by auto
    have "digits_between c (?d # ds)"
      by (rule next_digits_between [OF less.prems(2) _ _ _ _ _ _ _ IH(7)]) (simp_all add: v)
    then show ?thesis using IH run dig(1) by (intro exI [of _ c'] exI [of _ "?d # ds"]) auto
  qed
qed

section \<open>Preparation and scaling in rational terms\<close>

text \<open>The condition under which the code uses a lower gap of half the size.\<close>

definition narrow_gap :: "nc_ctx \<Rightarrow> bool" where
  "narrow_gap c \<longleftrightarrow> \<not> nc_is_s2n c \<and> bval (nc_f c) = 2 ^ 52 \<and> (0 \<le> nc_e c \<or> DUK__IEEE_DOUBLE_EXP_MIN < nc_e c)"

text \<open>The context represents the value \<open>v\<close> with the distances \<open>lo\<close> and \<open>hi\<close> to the ends of its rounding interval.\<close>

definition represents :: "nc_ctx \<Rightarrow> real \<Rightarrow> real \<Rightarrow> real \<Rightarrow> bool" where
  "represents c v lo hi \<longleftrightarrow> 0 < bval (nc_s c) \<and> real (bval (nc_r c)) = v * bval (nc_s c) \<and>
     real (bval (nc_mm c)) = lo * bval (nc_s c) \<and> real (bval (nc_mp c)) = hi * bval (nc_s c)"

definition ctx_value :: "nc_ctx \<Rightarrow> real" where
  "ctx_value c = real (bval (nc_f c)) * real (unat (nc_b c)) powi nc_e c"

definition low_gap :: "nc_ctx \<Rightarrow> real" where
  "low_gap c = (if narrow_gap c then real (unat (nc_b c)) powi (nc_e c - 1) / 2 else real (unat (nc_b c)) powi nc_e c / 2)"

definition high_gap :: "nc_ctx \<Rightarrow> real" where
  "high_gap c = real (unat (nc_b c)) powi nc_e c / 2"

lemma powi_nat: "0 \<le> e \<Longrightarrow> (b :: real) powi e = b ^ nat e" "e < 0 \<Longrightarrow> (b :: real) powi e = 1 / b ^ nat (- e)"
  by (simp_all add: power_int_def power_one_over inverse_eq_divide)

text \<open>The input radix: 2 for a double, any supported one for a string.\<close>

definition ctx_base :: "nc_ctx \<Rightarrow> bool" where
  "ctx_base c \<longleftrightarrow> 2 \<le> unat (nc_b c) \<and> unat (nc_b c) \<le> 36 \<and> (nc_is_s2n c \<or> nc_b c = 2)"

lemmas prepare_defs = duk__dragon4_prepare_def narrow_gap_def represents_def ctx_value_def low_gap_def high_gap_def
  exp_small_val mul_val nc_normal_def is_even_val Let_def

lemma prepare_spec:
  assumes base: "ctx_base c" and norm: "normal (nc_f c)"
  shows "represents (duk__dragon4_prepare c) (ctx_value c) (low_gap c) (high_gap c) \<and> nc_normal (duk__dragon4_prepare c) \<and>
    nc_low_ok (duk__dragon4_prepare c) = even (bval (nc_f c)) \<and> nc_high_ok (duk__dragon4_prepare c) = even (bval (nc_f c)) \<and>
    nc_unequal_gaps (duk__dragon4_prepare c) = narrow_gap c \<and> nc_B (duk__dragon4_prepare c) = nc_B c \<and>
    nc_is_fixed (duk__dragon4_prepare c) = nc_is_fixed c \<and> nc_abs_pos (duk__dragon4_prepare c) = nc_abs_pos c \<and>
    nc_req_digits (duk__dragon4_prepare c) = nc_req_digits c"
proof -
  have l: "duk__bi_is_2to52 (nc_f c) = (bval (nc_f c) = 2 ^ 52)" by (rule is_2to52_val [OF norm])
  obtain b where b: "unat (nc_b c) = b" "2 \<le> b" "b \<le> 36" using base by (simp add: ctx_base_def)
  have b2: "unat (nc_b c * 2) = b * 2" using b by (simp add: unat_word_ariths)
  have b0: "real b \<noteq> 0" using b(2) by simp
  have pred: "real b powi (nc_e c - 1) = real b powi nc_e c / b" using b0 by (simp add: power_int_diff)
  consider "0 \<le> nc_e c" "narrow_gap c" | "0 \<le> nc_e c" "\<not> narrow_gap c"
    | "nc_e c < 0" "narrow_gap c" | "nc_e c < 0" "\<not> narrow_gap c" by linarith
  then show ?thesis
  proof cases
    case 1
    then show ?thesis using b b0 b2 by (simp add: prepare_defs pred powi_nat(1) l)
  next
    case 2
    then show ?thesis using b b0 b2 by (auto simp: prepare_defs powi_nat(1) l)
  next
    case 3
    have u: "nat (1 - nc_e c) = Suc (nat (- nc_e c))" "b = 2" using 3 base b(1) by (auto simp: ctx_base_def narrow_gap_def)
    show ?thesis using 3 b b0 b2 u by (simp add: prepare_defs pred powi_nat(2) l)
  next
    case 4
    then show ?thesis using b b0 b2 by (auto simp: prepare_defs powi_nat(2) l)
  qed
qed

lemma scale_spec:
  assumes n: "nc_normal c" and v: "represents c v lo hi" and hi: "0 < hi" and B: "2 \<le> B" and Bd: "unat (nc_B c) = B"
    and eq: "\<not> nc_unequal_gaps c \<longrightarrow> lo = hi"
  shows "\<exists>c' k. duk__dragon4_scale c = Some c' \<and> nc_k c' = k \<and> nc_normal c' \<and>
    represents c' (v / real B powi k) (lo / real B powi k) (hi / real B powi k) \<and>
    \<not> reaches (nc_high_ok c) (bval (nc_r c') + bval (nc_mp c')) (bval (nc_s c')) \<and>
    reaches (nc_high_ok c) ((bval (nc_r c') + bval (nc_mp c')) * B) (bval (nc_s c')) \<and>
    nc_low_ok c' = nc_low_ok c \<and> nc_high_ok c' = nc_high_ok c \<and> nc_B c' = nc_B c \<and> nc_is_fixed c' = nc_is_fixed c \<and>
    nc_abs_pos c' = nc_abs_pos c \<and> nc_req_digits c' = nc_req_digits c"
proof -
  have S: "0 < bval (nc_s c)" and rv: "real (bval (nc_r c)) = v * bval (nc_s c)"
    and mmv: "real (bval (nc_mm c)) = lo * bval (nc_s c)" and mpv: "real (bval (nc_mp c)) = hi * bval (nc_s c)"
    using v by (simp_all add: represents_def)
  obtain i s where inc: "scale_inc c 0 = Some (c\<lparr>nc_s := s\<rparr>, int i)" "normal s" "bval s = bval (nc_s c) * B ^ i"
      "\<not> reaches (nc_high_ok c) (bval (nc_r c) + bval (nc_mp c)) (bval s)"
      "0 < i \<longrightarrow> reaches (nc_high_ok c) ((bval (nc_r c) + bval (nc_mp c)) * B) (bval s)"
    using scale_inc_spec [OF n S, of 0] B Bd by auto
  show ?thesis
  proof (cases "0 < i")
    case True
    define c' where "c' = c\<lparr>nc_s := s, nc_mm := (if nc_unequal_gaps c then nc_mm c else nc_mp c), nc_k := int i\<rparr>"
    have run: "duk__dragon4_scale c = Some c'"
      using True inc(1) by (simp add: duk__dragon4_scale_def c'_def)
    have "represents c' (v / real B powi int i) (lo / real B powi int i) (hi / real B powi int i)"
      using S B inc(3) rv mmv mpv eq by (auto simp: represents_def c'_def)
    moreover have "nc_normal c'" using n inc(2) by (simp add: nc_normal_def c'_def)
    ultimately show ?thesis using run inc(4,5) True by (intro exI [of _ c'] exI [of _ "int i"]) (simp add: c'_def)
  next
    case False
    then have i: "i = 0" by simp
    have s: "bval s = bval (nc_s c)" using inc(3) i by simp
    have mp0: "0 < bval (nc_mp c)" using mpv hi S by (metis mult_pos_pos of_nat_0_less_iff)
    let ?c = "c\<lparr>nc_s := s\<rparr>"
    have pre: "nc_normal ?c" "0 < bval (nc_mp ?c)" "2 \<le> unat (nc_B ?c)"
        "\<not> reaches (nc_high_ok ?c) (bval (nc_r ?c) + bval (nc_mp ?c)) (bval (nc_s ?c))"
      using n inc(2,4) B Bd mp0 by (simp_all add: nc_normal_def)
    obtain j r mp mm where dec: "scale_dec ?c 0 = Some (?c\<lparr>nc_r := r, nc_mp := mp, nc_mm := mm\<rparr>, - int j)"
        "normal r" "normal mp" "normal mm" "bval r = bval (nc_r c) * B ^ j" "bval mp = bval (nc_mp c) * B ^ j"
        "nc_unequal_gaps c \<longrightarrow> bval mm = bval (nc_mm c) * B ^ j"
        "\<not> reaches (nc_high_ok c) (bval r + bval mp) (bval s)" "reaches (nc_high_ok c) ((bval r + bval mp) * B) (bval s)"
      using scale_dec_spec [OF pre, of 0] Bd by auto
    define c' where "c' = c\<lparr>nc_s := s, nc_r := r, nc_mp := mp, nc_mm := (if nc_unequal_gaps c then mm else mp), nc_k := - int j\<rparr>"
    have run: "duk__dragon4_scale c = Some c'"
      using inc(1) dec(1) i by (simp add: duk__dragon4_scale_def c'_def)
    have "represents c' (v / real B powi (- int j)) (lo / real B powi (- int j)) (hi / real B powi (- int j))"
      using S B s dec(5-7) rv mmv mpv eq by (auto simp: represents_def c'_def power_int_minus field_simps)
    moreover have "nc_normal c'" using n inc(2) dec(2-4) by (simp add: nc_normal_def c'_def)
    ultimately show ?thesis using run dec(8,9) by (intro exI [of _ c'] exI [of _ "- int j"]) (simp add: c'_def)
  qed
qed

section \<open>Fixed format digits\<close>

text \<open>The number of digits after which fixed format generation stops.\<close>

definition fixed_count :: "nc_ctx \<Rightarrow> int" where
  "fixed_count c = (if nc_abs_pos c then nc_k c + 1 - nc_req_digits c else nc_req_digits c)"

text \<open>In fixed format, \<open>m\<close> further digits are the truncated expansion of the remainder.\<close>

lemma generate_loop_fixed:
  assumes "nc_normal c" and "0 < bval (nc_s c)" and "2 \<le> unat (nc_B c)" and "nc_is_fixed c" and "bval (nc_r c) < bval (nc_s c)"
    and "int m = max 1 (fixed_count c - n)"
  shows "\<exists>c' ds. generate_loop c n = Some c' \<and> nc_digits c' = nc_digits c @ ds \<and> length ds = m \<and> nc_count c' = n + int m \<and>
    nc_k c' = nc_k c \<and> nc_B c' = nc_B c \<and> nc_abs_pos c' = nc_abs_pos c \<and> nc_is_fixed c' \<and>
    (\<forall>d \<in> set ds. d < unat (nc_B c)) \<and> dval (unat (nc_B c)) ds = bval (nc_r c) * unat (nc_B c) ^ m div bval (nc_s c)"
  using assms
proof (induction m arbitrary: c n)
  case (Suc m)
  let ?S = "bval (nc_s c)" and ?B = "unat (nc_B c)"
  let ?d = "bval (nc_r c) * ?B div ?S"
  obtain r mp mm where g: "generate_round c = Some (?d, False, False, c\<lparr>nc_r := r, nc_mp := mp, nc_mm := mm\<rparr>)"
      and nr: "normal r" "normal mp" "normal mm" and v: "bval r = bval (nc_r c) * ?B mod ?S"
    using generate_round_spec [OF Suc.prems(1,2)] Suc.prems(4) by auto
  let ?out = "c\<lparr>nc_r := r, nc_mp := mp, nc_mm := mm, nc_digits := nc_digits c @ [?d], nc_count := n + 1\<rparr>"
  have B0: "0 < ?B" using Suc.prems(3) by simp
  have dB: "?d < ?B" by (rule digit_below_radix(1) [OF Suc.prems(2,5) B0])
  have run: "generate_loop c n = (if fixed_count c \<le> n + 1 then Some ?out else generate_loop ?out (n + 1))"
    using g Suc.prems(4) by (subst generate_loop.simps) (auto simp: Let_def fixed_count_def)
  show ?case
  proof (cases "fixed_count c \<le> n + 1")
    case True
    then have "m = 0" using Suc.prems(6) by (simp add: max_def split: if_splits)
    then show ?thesis using True run Suc.prems(4) dB by (intro exI [of _ ?out] exI [of _ "[?d]"]) simp
  next
    case False
    have pre: "nc_normal ?out" "0 < bval (nc_s ?out)" "2 \<le> unat (nc_B ?out)" "nc_is_fixed ?out" "bval (nc_r ?out) < bval (nc_s ?out)"
        "int m = max 1 (fixed_count ?out - (n + 1))"
      using Suc.prems nr v False by (simp_all add: nc_normal_def fixed_count_def max_def split: if_splits)
    obtain c' ds where IH: "generate_loop ?out (n + 1) = Some c'" "nc_digits c' = nc_digits c @ [?d] @ ds" "length ds = m"
        "nc_count c' = n + 1 + int m" "nc_k c' = nc_k c" "nc_B c' = nc_B c" "nc_abs_pos c' = nc_abs_pos c" "nc_is_fixed c'"
        "\<forall>d \<in> set ds. d < ?B" "dval ?B ds = bval r * ?B ^ m div ?S"
      using Suc.IH [OF pre] by auto
    have "bval (nc_r c) * ?B ^ Suc m = (?d * ?S + bval r) * ?B ^ m"
      unfolding v by (simp add: mult.assoc)
    also have "\<dots> = bval r * ?B ^ m + ?d * ?B ^ m * ?S" by (simp add: algebra_simps)
    finally have "bval (nc_r c) * ?B ^ Suc m div ?S = ?d * ?B ^ m + bval r * ?B ^ m div ?S"
      using Suc.prems(2) by simp
    then have "dval ?B (?d # ds) = bval (nc_r c) * ?B ^ Suc m div ?S" using IH(3,10) by simp
    then show ?thesis using False run IH dB by (intro exI [of _ c'] exI [of _ "?d # ds"]) simp
  qed
qed simp

section \<open>Results on the slow path\<close>

lemma gaps_pos:
  assumes "ctx_base c"
  shows "0 < high_gap c"
proof -
  have "0 < unat (nc_b c)" using assms by (simp add: ctx_base_def)
  then show ?thesis unfolding high_gap_def by (intro divide_pos_pos zero_less_power_int, unfold of_nat_0_less_iff) simp_all
qed

lemma gaps_eq: "\<not> narrow_gap c \<Longrightarrow> low_gap c = high_gap c"
  by (simp add: high_gap_def low_gap_def)

text \<open>The state in which digit generation starts.\<close>

lemma scaled_state:
  assumes "ctx_base c" and "normal (nc_f c)" and "2 \<le> B" and "unat (nc_B c) = B"
  shows "\<exists>c'. duk__dragon4_scale (duk__dragon4_prepare c) = Some c' \<and> nc_normal c' \<and>
    represents c' (ctx_value c / real B powi nc_k c') (low_gap c / real B powi nc_k c') (high_gap c / real B powi nc_k c') \<and>
    \<not> reaches (even (bval (nc_f c))) (bval (nc_r c') + bval (nc_mp c')) (bval (nc_s c')) \<and>
    reaches (even (bval (nc_f c))) ((bval (nc_r c') + bval (nc_mp c')) * B) (bval (nc_s c')) \<and>
    nc_low_ok c' = even (bval (nc_f c)) \<and> nc_high_ok c' = even (bval (nc_f c)) \<and> nc_B c' = nc_B c \<and> nc_is_fixed c' = nc_is_fixed c \<and>
    nc_abs_pos c' = nc_abs_pos c \<and> nc_req_digits c' = nc_req_digits c"
proof -
  let ?p = "duk__dragon4_prepare c"
  have p: "nc_normal ?p" "represents ?p (ctx_value c) (low_gap c) (high_gap c)" "unat (nc_B ?p) = B"
      "\<not> nc_unequal_gaps ?p \<longrightarrow> low_gap c = high_gap c" "nc_low_ok ?p = even (bval (nc_f c))" "nc_high_ok ?p = even (bval (nc_f c))"
      "nc_B ?p = nc_B c" "nc_is_fixed ?p = nc_is_fixed c" "nc_abs_pos ?p = nc_abs_pos c" "nc_req_digits ?p = nc_req_digits c"
    using prepare_spec [OF assms(1,2)] gaps_eq assms(4) by auto
  show ?thesis using scale_spec [OF p(1,2) gaps_pos [OF assms(1)] assms(3) p(3,4)] unfolding p(5-10) by blast
qed

lemma reaches_real:
  assumes "0 < S" and "real a = x * S" and "real b = y * S"
  shows "reaches ok a b \<longleftrightarrow> (if ok then y \<le> x else y < x)"
proof -
  have "b \<le> a \<longleftrightarrow> y \<le> x" "b < a \<longleftrightarrow> y < x"
    using assms by (metis mult_le_cancel_right_pos of_nat_le_iff, metis mult_less_cancel_right_pos of_nat_less_iff)
  then show ?thesis by (simp add: reaches_def)
qed

text \<open>The position \<open>k\<close> is determined by the upper end of the rounding interval.\<close>

lemma scaled_position:
  assumes "represents c (v / P) lo (hi / P)" and "0 < P" and "\<not> reaches ok (bval (nc_r c) + bval (nc_mp c)) (bval (nc_s c))"
    and "reaches ok ((bval (nc_r c) + bval (nc_mp c)) * B) (bval (nc_s c))"
  shows "v + hi \<le> P \<and> P \<le> (v + hi) * B"
proof -
  let ?S = "real (bval (nc_s c))"
  have S: "0 < ?S" and r: "real (bval (nc_r c) + bval (nc_mp c)) = (v / P + hi / P) * ?S"
    and rB: "real ((bval (nc_r c) + bval (nc_mp c)) * B) = (v / P + hi / P) * B * ?S" and one: "?S = 1 * ?S"
    using assms(1) by (simp_all add: represents_def algebra_simps)
  have "v / P + hi / P \<le> 1" using assms(3) unfolding reaches_real [OF S r one] by (auto split: if_splits)
  moreover have "1 \<le> (v / P + hi / P) * B" using assms(4) unfolding reaches_real [OF S rB one] by (auto split: if_splits)
  ultimately show ?thesis using assms(2) by (simp add: field_simps)
qed

lemma digits_between_real:
  assumes v: "represents c v lo hi" and d: "digits_between c ds" and B: "0 < B" "unat (nc_B c) = B"
  shows "(if nc_low_ok c then v - lo \<le> dval B ds / B ^ length ds else v - lo < dval B ds / B ^ length ds) \<and>
    (if nc_high_ok c then dval B ds / B ^ length ds \<le> v + hi else dval B ds / B ^ length ds < v + hi)"
proof -
  let ?S = "bval (nc_s c)" and ?n = "length ds"
  have S: "0 < real ?S * real B ^ ?n" and S': "0 < ?S" and vs: "real (bval (nc_r c)) = v * ?S" "real (bval (nc_mm c)) = lo * ?S"
      "real (bval (nc_mp c)) = hi * ?S"
    using v B by (simp_all add: represents_def)
  have "real (dval B ds * ?S + bval (nc_mm c) * B ^ ?n) = (dval B ds / B ^ ?n + lo) * (real ?S * real B ^ ?n)"
    using vs B by (simp add: field_simps)
  moreover have "real (bval (nc_r c) * B ^ ?n) = v * (real ?S * real B ^ ?n)" using vs by simp
  ultimately have l: "reaches ok (dval B ds * ?S + bval (nc_mm c) * B ^ ?n) (bval (nc_r c) * B ^ ?n) \<longleftrightarrow>
      (if ok then v \<le> dval B ds / B ^ ?n + lo else v < dval B ds / B ^ ?n + lo)" for ok
    by (rule reaches_real [OF S])
  have "real ((bval (nc_r c) + bval (nc_mp c)) * B ^ ?n) = (v + hi) * (real ?S * real B ^ ?n)"
    using vs by (simp add: algebra_simps)
  moreover have "real (dval B ds * ?S) = dval B ds / B ^ ?n * (real ?S * real B ^ ?n)" using B by simp
  ultimately have h: "reaches ok ((bval (nc_r c) + bval (nc_mp c)) * B ^ ?n) (dval B ds * ?S) \<longleftrightarrow>
      (if ok then dval B ds / B ^ ?n \<le> v + hi else dval B ds / B ^ ?n < v + hi)" for ok
    by (rule reaches_real [OF S])
  show ?thesis using d unfolding digits_between_def Let_def B(2) l h by (auto split: if_splits)
qed

text \<open>The number denoted by generated digits: \<open>0.d\<^sub>1d\<^sub>2\<dots> \<cdot> B\<^sup>k\<close>.\<close>

definition digits_value :: "nc_ctx \<Rightarrow> real" where
  "digits_value c = dval (unat (nc_B c)) (nc_digits c) * real (unat (nc_B c)) powi (nc_k c - int (length (nc_digits c)))"

lemma digits_value_scaled:
  assumes "0 < B" and "unat (nc_B c) = B"
  shows "digits_value c = dval B (nc_digits c) / B ^ length (nc_digits c) * real B powi nc_k c"
  using assms by (simp add: digits_value_def power_int_diff)

lemma free_format_run:
  assumes "ctx_base c" and "normal (nc_f c)" and "2 \<le> B" and "unat (nc_B c) = B" and "\<not> nc_is_fixed c"
  shows "\<exists>c'. dragon4_run c = Some c' \<and> nc_digits c' \<noteq> [] \<and> nc_count c' = int (length (nc_digits c')) \<and>
    (\<forall>d \<in> set (nc_digits c'). d < B) \<and>
    (if even (bval (nc_f c)) then ctx_value c - low_gap c \<le> digits_value c' \<and> digits_value c' \<le> ctx_value c + high_gap c
     else ctx_value c - low_gap c < digits_value c' \<and> digits_value c' < ctx_value c + high_gap c)"
proof -
  obtain s where s: "duk__dragon4_scale (duk__dragon4_prepare c) = Some s" "nc_normal s"
      "represents s (ctx_value c / real B powi nc_k s) (low_gap c / real B powi nc_k s) (high_gap c / real B powi nc_k s)"
      "\<not> reaches (even (bval (nc_f c))) (bval (nc_r s) + bval (nc_mp s)) (bval (nc_s s))"
      "nc_low_ok s = even (bval (nc_f c))" "nc_high_ok s = even (bval (nc_f c))" "nc_B s = nc_B c" "\<not> nc_is_fixed s"
    using scaled_state [OF assms(1-4)] assms(5) by auto
  let ?s = "s\<lparr>nc_digits := []\<rparr>" and ?P = "real B powi nc_k s"
  have P: "0 < ?P" using assms(3) by simp
  have S: "0 < bval (nc_s s)" using s(3) by (simp add: represents_def)
  have "real (bval (nc_mp s)) = high_gap c / ?P * bval (nc_s s)" using s(3) by (simp add: represents_def)
  then have mp: "0 < bval (nc_mp s)" using gaps_pos [OF assms(1)] P S by (metis divide_pos_pos mult_pos_pos of_nat_0_less_iff)
  have "bval (nc_r s) < bval (nc_s s)" using s(4) mp by (auto simp: reaches_def split: if_splits)
  then have pre: "nc_normal ?s" "0 < bval (nc_s ?s)" "2 \<le> unat (nc_B ?s)" "0 < bval (nc_mp ?s)" "\<not> nc_is_fixed ?s"
      "bval (nc_r ?s) < bval (nc_s ?s)" "\<not> reaches (nc_high_ok ?s) (bval (nc_r ?s) + bval (nc_mp ?s)) (bval (nc_s ?s))"
    using s S mp assms(3,4) by (simp_all add: nc_normal_def)
  obtain c' where c': "generate_loop ?s 0 = Some c'" "nc_count c' = int (length (nc_digits c'))" "nc_k c' = nc_k s" "nc_B c' = nc_B s"
      "nc_digits c' \<noteq> []" "\<forall>d \<in> set (nc_digits c'). d < B" "digits_between ?s (nc_digits c')"
    using generate_loop_spec [OF pre, of 0] s(7) assms(4) by auto
  let ?D = "dval B (nc_digits c') / B ^ length (nc_digits c')"
  have r: "represents ?s (ctx_value c / ?P) (low_gap c / ?P) (high_gap c / ?P)" using s(3) by (simp add: represents_def)
  have D: "digits_value c' = ?D * ?P" using digits_value_scaled [of B c'] c'(3,4) s(7) assms(3,4) by simp
  have "(if even (bval (nc_f c)) then ctx_value c / ?P - low_gap c / ?P \<le> ?D else ctx_value c / ?P - low_gap c / ?P < ?D) \<and>
      (if even (bval (nc_f c)) then ?D \<le> ctx_value c / ?P + high_gap c / ?P else ?D < ctx_value c / ?P + high_gap c / ?P)"
    using digits_between_real [OF r c'(7), of B] s(5-7) assms(3,4) by simp
  then have "if even (bval (nc_f c)) then ctx_value c - low_gap c \<le> digits_value c' \<and> digits_value c' \<le> ctx_value c + high_gap c
     else ctx_value c - low_gap c < digits_value c' \<and> digits_value c' < ctx_value c + high_gap c"
    unfolding D diff_divide_distrib [symmetric] add_divide_distrib [symmetric]
    using P by (simp add: pos_divide_le_eq pos_divide_less_eq pos_le_divide_eq pos_less_divide_eq split: if_splits)
  then show ?thesis using c' s(1) by (auto simp: dragon4_run_def duk__dragon4_generate_def)
qed

section \<open>Rounding\<close>

lemma dval_take_Suc: "i < length ds \<Longrightarrow> dval B (take (Suc i) ds) = dval B (take i ds) * B + ds ! i"
  by (simp add: take_Suc_conv_app_nth dval_append)

lemma round_carry_tail:
  "round_carry ds i B = (ds', ov) \<Longrightarrow> i < length ds \<Longrightarrow> i < j \<Longrightarrow> j < length ds \<Longrightarrow>
    ds' ! (j + (if ov then 1 else 0)) = ds ! j"
proof (induction i arbitrary: ds j)
  case (Suc i)
  show ?case
  proof (cases "ds ! i + 1 < B")
    case True
    then have "ds' = ds[Suc i := 0, i := ds ! i + 1]" "\<not> ov" using Suc.prems(1) by (auto simp: Let_def)
    then show ?thesis using Suc.prems by simp
  next
    case False
    then have "round_carry (ds[Suc i := 0]) i B = (ds', ov)" using Suc.prems(1) by (simp add: Let_def)
    then have "ds' ! (j + (if ov then 1 else 0)) = ds[Suc i := 0] ! j" by (rule Suc.IH) (use Suc.prems in simp_all)
    then show ?thesis using Suc.prems(3) by simp
  qed
qed auto

text \<open>The carry adds one to the digits in front of the rounding position.\<close>

lemma round_carry_spec:
  assumes "2 \<le> B" and "i < length ds" and "\<forall>d \<in> set ds. d < B" and "round_carry ds i B = (ds', ov)"
  shows "dval B (take (i + (if ov then 1 else 0)) ds') = dval B (take i ds) + 1 \<and> ds' ! (i + (if ov then 1 else 0)) = 0 \<and>
    length ds' = length ds + (if ov then 1 else 0) \<and> (\<forall>d \<in> set ds'. d < B)"
  using assms(2-4)
proof (induction i arbitrary: ds)
  case 0
  then have "ds' = 1 # ds[0 := 0]" "ov" by auto
  moreover have "\<forall>d \<in> set (ds[0 := 0]). d < B" using 0 assms(1) set_update_subset_insert [of ds 0 0] by auto
  ultimately show ?case using assms(1) 0 by simp
next
  case (Suc i)
  let ?ds = "ds[Suc i := 0]"
  have i: "i < length ds" "ds ! i < B" using Suc.prems(1,2) nth_mem [of i ds] by simp_all
  have all: "\<forall>d \<in> set ?ds. d < B" using Suc.prems(2) assms(1) set_update_subset_insert [of ds "Suc i" 0] by auto
  have tk: "take i ?ds = take i ds" "?ds ! i = ds ! i" by simp_all
  show ?case
  proof (cases "ds ! i + 1 < B")
    case True
    then have r: "ds' = ?ds[i := ds ! i + 1]" "\<not> ov" using Suc.prems(3) by (auto simp: Let_def)
    have "\<forall>d \<in> set ds'. d < B" using all True set_update_subset_insert [of ?ds i "ds ! i + 1"] unfolding r(1) by auto
    then show ?thesis using r i Suc.prems(1) dval_take_Suc [of i ds' B] dval_take_Suc [of i ds B] by simp
  next
    case False
    then have r: "round_carry ?ds i B = (ds', ov)" and t: "ds ! i = B - 1" using Suc.prems(3) i by (auto simp: Let_def)
    note IH = Suc.IH [OF _ all r, unfolded tk]
    let ?o = "if ov then 1 else 0 :: nat"
    have "dval B (take (Suc (i + ?o)) ds') = (dval B (take i ds) + 1) * B"
      using dval_take_Suc [of "i + ?o" ds' B] IH i by simp
    also have "\<dots> = dval B (take (Suc i) ds) + 1"
      using dval_take_Suc [OF i(1), of B] t assms(1) by simp
    finally show ?thesis using IH i round_carry_tail [OF r, of "Suc i"] Suc.prems(1) by simp
  qed
qed

lemma half_up_digit:
  assumes B: "even B" "0 < B" and S: "0 < S" and d: "d < B" and x: "x * B div S = D * B + d"
  shows "\<lfloor>real x / real S + 1 / 2\<rfloor> = int (D + (if B \<le> 2 * d then 1 else 0))"
proof -
  define q where "q = x * B mod S"
  have q: "q < S" "x * B = (D * B + d) * S + q" using S x by (simp_all add: q_def flip: x)
  define y where "y = (d + real q / S) / B"
  have "real x * B = (D * B + d) * S + q" using q(2) by (metis of_nat_add of_nat_mult)
  then have xy: "real x / S = D + y" using B(2) S by (simp add: y_def field_simps)
  have qS: "0 \<le> real q / S" "real q / S < 1" using q(1) S by simp_all
  show ?thesis
  proof (cases "B \<le> 2 * d")
    case True
    have "real d + real q / S < B" using d qS(2) by linarith
    then have "y < 1" unfolding y_def using B(2) by simp
    moreover have "real B / 2 \<le> real d + real q / S" using True qS(1) by linarith
    then have "1 / 2 \<le> y" unfolding y_def using B(2) by (simp add: pos_le_divide_eq)
    ultimately show ?thesis using True xy by (simp add: floor_eq_iff)
  next
    case False
    then have "2 * d + 2 \<le> B" using B(1) by (elim evenE) simp
    then have "real d + real q / S < B / 2" using qS(2) by linarith
    then have "y < 1 / 2" unfolding y_def using B(2) by (simp add: pos_divide_less_eq)
    moreover have "0 \<le> y" unfolding y_def using qS(1) by simp
    ultimately show ?thesis using False xy by (simp add: floor_eq_iff)
  qed
qed

text \<open>Rounding at an index keeps, in front of it, the digits before or those plus one.\<close>

lemma fixed_format_round_spec:
  assumes "2 \<le> B" and "unat (nc_B c) = B" and "nc_count c = int (length (nc_digits c))" and "i < length (nc_digits c)"
    and "\<forall>d \<in> set (nc_digits c). d < B" and "duk__dragon4_fixed_format_round c (int i) = (c', ov)"
  shows "dval B (take (i + (if ov then 1 else 0)) (nc_digits c')) =
      dval B (take i (nc_digits c)) + (if B \<le> 2 * nc_digits c ! i then 1 else 0) \<and>
    nc_k c' = nc_k c + (if ov then 1 else 0) \<and> nc_count c' = int (length (nc_digits c')) \<and>
    length (nc_digits c') = length (nc_digits c) + (if ov then 1 else 0) \<and> (\<forall>d \<in> set (nc_digits c'). d < B) \<and>
    (ov \<longrightarrow> B \<le> 2 * nc_digits c ! i)"
proof -
  have lim: "(B + 1) div 2 \<le> nc_digits c ! i \<longleftrightarrow> B \<le> 2 * nc_digits c ! i" by auto
  obtain ds o' where rc: "round_carry (nc_digits c) i B = (ds, o')" by fastforce
  have idx: "\<not> nc_count c \<le> int i" using assms(3,4) by simp
  show ?thesis
  proof (cases "B \<le> 2 * nc_digits c ! i")
    case True
    then have "c' = c\<lparr>nc_digits := ds, nc_k := nc_k c + (if ov then 1 else 0), nc_count := nc_count c + (if ov then 1 else 0)\<rparr>" "ov = o'"
      using assms(2,6) rc idx lim by (auto simp: duk__dragon4_fixed_format_round_def Let_def split: bool.splits)
    then show ?thesis using True round_carry_spec [OF assms(1,4,5) rc] assms(3) by simp
  next
    case False
    then have "c' = c" "\<not> ov" using assms(2,6) idx lim by (auto simp: duk__dragon4_fixed_format_round_def Let_def)
    then show ?thesis using False assms(3,5) by simp
  qed
qed

lemma fixed_format_run:
  assumes "ctx_base c" and "normal (nc_f c)" and "2 \<le> B" and "unat (nc_B c) = B" and "nc_is_fixed c"
  shows "\<exists>c'. dragon4_run c = Some c' \<and> nc_B c' = nc_B c \<and> nc_is_fixed c' \<and> nc_abs_pos c' = nc_abs_pos c \<and>
    nc_count c' = int (length (nc_digits c')) \<and>
    int (length (nc_digits c')) = max 1 (if nc_abs_pos c then nc_k c' + 1 - nc_req_digits c else nc_req_digits c) \<and>
    (\<forall>d \<in> set (nc_digits c'). d < B) \<and> ctx_value c < real B powi nc_k c' \<and>
    ctx_value c + high_gap c \<le> real B powi nc_k c' \<and> real B powi nc_k c' \<le> (ctx_value c + high_gap c) * B \<and>
    (\<exists>r S. 0 < S \<and> real r / real S = ctx_value c / real B powi nc_k c' \<and>
       dval B (nc_digits c') = r * B ^ length (nc_digits c') div S)"
proof -
  obtain s where s: "duk__dragon4_scale (duk__dragon4_prepare c) = Some s" "nc_normal s"
      "represents s (ctx_value c / real B powi nc_k s) (low_gap c / real B powi nc_k s) (high_gap c / real B powi nc_k s)"
      "\<not> reaches (even (bval (nc_f c))) (bval (nc_r s) + bval (nc_mp s)) (bval (nc_s s))"
      "nc_B s = nc_B c" "nc_is_fixed s" "nc_abs_pos s = nc_abs_pos c" "nc_req_digits s = nc_req_digits c"
      "reaches (even (bval (nc_f c))) ((bval (nc_r s) + bval (nc_mp s)) * B) (bval (nc_s s))"
    using scaled_state [OF assms(1-4)] assms(5) by auto
  let ?s = "s\<lparr>nc_digits := []\<rparr>" and ?P = "real B powi nc_k s"
  have P: "0 < ?P" using assms(3) by simp
  have S: "0 < bval (nc_s s)" and rv: "real (bval (nc_r s)) / real (bval (nc_s s)) = ctx_value c / ?P"
    and "real (bval (nc_mp s)) = high_gap c / ?P * bval (nc_s s)" using s(3) by (simp_all add: represents_def)
  then have mp: "0 < bval (nc_mp s)" using gaps_pos [OF assms(1)] P by (metis divide_pos_pos mult_pos_pos of_nat_0_less_iff)
  then have rs: "bval (nc_r s) < bval (nc_s s)" using s(4) by (auto simp: reaches_def split: if_splits)
  then have "real (bval (nc_r s)) / real (bval (nc_s s)) < 1" by simp
  then have lt: "ctx_value c < ?P" unfolding rv using P by simp
  have pre: "nc_normal ?s" "0 < bval (nc_s ?s)" "2 \<le> unat (nc_B ?s)" "nc_is_fixed ?s" "bval (nc_r ?s) < bval (nc_s ?s)"
      "int (nat (max 1 (fixed_count ?s))) = max 1 (fixed_count ?s - 0)"
    using s S rs assms(3,4) by (simp_all add: nc_normal_def)
  have fc: "fixed_count ?s = (if nc_abs_pos c then nc_k s + 1 - nc_req_digits c else nc_req_digits c)"
    using s(7,8) by (simp add: fixed_count_def)
  obtain c' where c': "generate_loop ?s 0 = Some c'" "length (nc_digits c') = nat (max 1 (fixed_count ?s))"
      "nc_count c' = int (length (nc_digits c'))" "nc_k c' = nc_k s" "nc_B c' = nc_B s" "nc_abs_pos c' = nc_abs_pos s" "nc_is_fixed c'"
      "\<forall>d \<in> set (nc_digits c'). d < B" "dval B (nc_digits c') = bval (nc_r s) * B ^ length (nc_digits c') div bval (nc_s s)"
    using generate_loop_fixed [OF pre] s(5) assms(4) by auto
  have "\<exists>r S. 0 < S \<and> real r / real S = ctx_value c / real B powi nc_k c' \<and>
       dval B (nc_digits c') = r * B ^ length (nc_digits c') div S"
    by (intro exI [of _ "bval (nc_r s)"] exI [of _ "bval (nc_s s)"] conjI S) (simp_all only: rv c'(4,9))
  moreover have "dragon4_run c = Some c'" using c'(1) s(1) by (simp add: dragon4_run_def duk__dragon4_generate_def)
  moreover have "int (length (nc_digits c')) = max 1 (if nc_abs_pos c then nc_k c' + 1 - nc_req_digits c else nc_req_digits c)"
    using c'(2,4) unfolding fc by (simp add: le_max_iff_disj)
  moreover have "ctx_value c + high_gap c \<le> ?P \<and> ?P \<le> (ctx_value c + high_gap c) * B"
    by (rule scaled_position [OF s(3) P s(4,9)])
  ultimately show ?thesis
    using c'(3-8) s(5,7) lt by (intro exI [of _ c']) metis
qed

lemma dval_take: "i \<le> length ds \<Longrightarrow> \<forall>d \<in> set ds. d < B \<Longrightarrow> dval B (take i ds) = dval B ds div B ^ (length ds - i)"
proof -
  assume i: "i \<le> length ds" and d: "\<forall>d \<in> set ds. d < B"
  have "dval B ds = dval B (take i ds) * B ^ (length ds - i) + dval B (drop i ds)"
    using dval_append [of B "take i ds" "drop i ds"] i by simp
  moreover have "dval B (drop i ds) < B ^ (length ds - i)"
    using dval_bound [of "drop i ds" B] d by (auto dest: in_set_dropD)
  ultimately show ?thesis by (metis add.right_neutral div_less div_mult_self3 less_nat_zero_code)
qed

text \<open>Digit generation followed by rounding: round half up of the scaled value.\<close>

lemma fixed_format_rounded:
  assumes c: "ctx_base c" "normal (nc_f c)" "2 \<le> B" "unat (nc_B c) = B" "nc_is_fixed c" and ev: "even B"
    and run: "dragon4_run c = Some c'"
    and i: "int i = (if nc_abs_pos c then nc_k c' - nc_req_digits c else nc_req_digits c - 1)"
    and rd: "duk__dragon4_fixed_format_round c' (int i) = (c'', ov)"
  shows "\<lfloor>ctx_value c * real B powi (int i - nc_k c') + 1 / 2\<rfloor> = int (dval B (take (i + (if ov then 1 else 0)) (nc_digits c''))) \<and>
    nc_k c'' = nc_k c' + (if ov then 1 else 0) \<and> length (nc_digits c'') = Suc i + (if ov then 1 else 0) \<and>
    nc_count c'' = int (length (nc_digits c'')) \<and> (\<forall>d \<in> set (nc_digits c''). d < B)"
proof -
  obtain r S where c': "nc_B c' = nc_B c" "nc_count c' = int (length (nc_digits c'))"
      "int (length (nc_digits c')) = max 1 (if nc_abs_pos c then nc_k c' + 1 - nc_req_digits c else nc_req_digits c)"
      "\<forall>d \<in> set (nc_digits c'). d < B" "0 < S" "real r / real S = ctx_value c / real B powi nc_k c'"
      "dval B (nc_digits c') = r * B ^ length (nc_digits c') div S"
    using fixed_format_run [OF c] run by auto
  have l: "length (nc_digits c') = Suc i" using c'(3) i by (auto split: if_splits)
  have x: "r * B ^ i * B div S = dval B (take i (nc_digits c')) * B + nc_digits c' ! i"
    using c'(7) dval_take_Suc [of i "nc_digits c'" B] l by (simp add: mult.commute mult.left_commute)
  have d: "nc_digits c' ! i < B" using c'(4) l nth_mem [of i "nc_digits c'"] by simp
  have B0: "0 < B" using c(3) by simp
  have "real (r * B ^ i) / real S = ctx_value c * real B powi (int i - nc_k c')"
    using arg_cong [OF c'(6), of "\<lambda>y. y * real B ^ i"] B0 by (simp add: power_int_diff)
  then have fl: "\<lfloor>ctx_value c * real B powi (int i - nc_k c') + 1 / 2\<rfloor> =
      int (dval B (take i (nc_digits c')) + (if B \<le> 2 * nc_digits c' ! i then 1 else 0))"
    using half_up_digit [OF ev B0 c'(5) d x] by simp
  have "unat (nc_B c') = B" "i < length (nc_digits c')" using c'(1) c(4) l by simp_all
  then show ?thesis
    using fixed_format_round_spec [OF c(3) _ c'(2) _ c'(4) rd] fl l by simp
qed

section \<open>Formatting of small integers\<close>

text \<open>The value of a digit character, the inverse of \<open>DUK__DIGITCHAR\<close>.\<close>

definition digit_of :: "char \<Rightarrow> nat" where
  "digit_of ch = (let n = of_char ch in if n \<le> 57 then n - 48 else n - 87)"

lemma digit_of_DIGITCHAR: "x < 36 \<Longrightarrow> digit_of (DUK__DIGITCHAR x) = x"
proof -
  have "\<forall>x \<in> set [0..<36]. digit_of (DUK__DIGITCHAR x) = x"
    by (simp add: upt_rec digit_of_def DUK__DIGITCHAR_def duk_lc_digits_def)
  then show "x < 36 \<Longrightarrow> digit_of (DUK__DIGITCHAR x) = x" by simp
qed

lemma format_uint32_loop_spec:
  assumes "2 \<le> unat radix" and "unat radix \<le> 36"
  shows "\<exists>ds. format_uint32_loop x radix acc = map DUK__DIGITCHAR ds @ acc \<and> ds \<noteq> [] \<and> (\<forall>d \<in> set ds. d < unat radix) \<and>
    dval (unat radix) ds = unat x \<and> (hd ds = 0 \<longrightarrow> ds = [0])"
  using assms
proof (induction x radix acc rule: format_uint32_loop.induct)
  case (1 x radix acc)
  let ?t = "x div radix" and ?B = "unat radix"
  let ?c = "DUK__DIGITCHAR (unat x mod ?B)"
  have d: "unat (x - ?t * radix) = unat x mod ?B" by (simp add: minus_div_mult_eq_mod unat_mod)
  have r: "\<not> radix < 2" using 1(2) by (simp add: word_less_nat_alt)
  show ?case
  proof (cases "?t = 0")
    case True
    then have "unat x div ?B = 0" by (metis unat_0 unat_div)
    then have "unat x < ?B" using 1(2) by (simp add: div_eq_0_iff)
    then show ?thesis using True d
      by (subst format_uint32_loop.simps) (intro exI [of _ "[unat x]"], simp add: Let_def)
  next
    case False
    then have x: "unat x div ?B \<noteq> 0" by (metis unat_div word_unat_eq_iff unat_0)
    have "\<exists>ds. format_uint32_loop ?t radix (?c # acc) = map DUK__DIGITCHAR ds @ (?c # acc) \<and> ds \<noteq> [] \<and>
        (\<forall>d \<in> set ds. d < ?B) \<and> dval ?B ds = unat ?t \<and> (hd ds = 0 \<longrightarrow> ds = [0])"
      by (rule 1(1) [OF refl refl _ _ 1(2,3)]) (use d False r in simp_all)
    then obtain ds where ds: "format_uint32_loop ?t radix (?c # acc) = map DUK__DIGITCHAR ds @ (?c # acc)" "ds \<noteq> []"
        "\<forall>d \<in> set ds. d < ?B" "dval ?B ds = unat x div ?B" "hd ds = 0 \<longrightarrow> ds = [0]"
      by (auto simp: unat_div)
    have "hd ds \<noteq> 0" using ds(4,5) x by auto
    moreover have "format_uint32_loop x radix acc = map DUK__DIGITCHAR (ds @ [unat x mod ?B]) @ acc"
      using ds(1) d False r by (subst format_uint32_loop.simps) (simp add: Let_def)
    ultimately show ?thesis
      using ds(2-4) 1(2) by (intro exI [of _ "ds @ [unat x mod ?B]"]) (simp add: dval_append)
  qed
qed

end
