(* ===== verification/JsNumString.thy ===== *)
theory JsNumString
  imports JsDragon4
begin

unbundle bit_operations_syntax

text \<open>
  The exposed number to string conversion of the JavaScript command (\<open>duk_numconv_stringify\<close>). A
  double is the pair of the high and low word of its IEEE representation. The value stack is left
  out: the argument is the popped number, the result the pushed string. The context, which the
  source leaves uninitialised on the stack, is an argument.
\<close>

section \<open>Doubles\<close>

type_synonym double = "u32 \<times> u32"

datatype fp_class = DUK_FP_NAN | DUK_FP_INFINITE | DUK_FP_ZERO | DUK_FP_FINITE

definition double_exponent :: "double \<Rightarrow> u32" where
  "double_exponent x = drop_bit 20 (fst x) AND 0x7ff"

definition double_mantissa :: "double \<Rightarrow> nat" where
  "double_mantissa x = unat (fst x AND 0xfffff) * 2 ^ 32 + unat (snd x)"

definition double_sign :: "double \<Rightarrow> bool" where
  "double_sign x = bit (fst x) 31"

definition double_abs :: "double \<Rightarrow> double" where
  "double_abs x = (fst x AND 0x7fffffff, snd x)"

definition fp_classify :: "double \<Rightarrow> fp_class" where
  "fp_classify x =
     (if double_exponent x = 0x7ff then (if double_mantissa x = 0 then DUK_FP_INFINITE else DUK_FP_NAN)
      else if double_exponent x = 0 \<and> double_mantissa x = 0 then DUK_FP_ZERO
      else DUK_FP_FINITE)"

text \<open>
  The integer an absolute value equals when it is one in the range of a 32-bit word: the case in
  which the cast of the source and the cast back give the number.
\<close>

definition double_uint32 :: "double \<Rightarrow> u32 option" where
  "double_uint32 x =
     (let e = unat (double_exponent x); m = 2 ^ 52 + double_mantissa x; s = 1075 - e in
      if e = 0 \<and> double_mantissa x = 0 then Some 0
      else if 1023 \<le> e \<and> e < 1055 \<and> m mod 2 ^ s = 0 then Some (of_nat (m div 2 ^ s))
      else None)"

text \<open>The number a finite double denotes, without its sign.\<close>

definition double_value :: "double \<Rightarrow> real" where
  "double_value x =
     (let e = uint (double_exponent x); m = double_mantissa x in
      if e = 0 then real m * 2 powi (- 1074) else real (2 ^ 52 + m) * 2 powi (e - 1075))"

section \<open>Conversion\<close>

definition DUK_N2S_FLAG_FIXED_FORMAT :: u32 where
  "DUK_N2S_FLAG_FIXED_FORMAT = push_bit 0 1"

definition DUK_N2S_FLAG_FRACTION_DIGITS :: u32 where
  "DUK_N2S_FLAG_FRACTION_DIGITS = push_bit 3 1"

text \<open>The set up of the context.\<close>

definition stringify_setup :: "nc_ctx \<Rightarrow> u32 \<Rightarrow> int \<Rightarrow> u32 \<Rightarrow> nc_ctx" where
  "stringify_setup u radix digits flags =
     (let c = u\<lparr>nc_is_s2n := False, nc_b := 2, nc_B := radix, nc_abs_pos := False\<rparr>
      in if flags AND DUK_N2S_FLAG_FIXED_FORMAT \<noteq> 0 then
           if flags AND DUK_N2S_FLAG_FRACTION_DIGITS \<noteq> 0
           then c\<lparr>nc_is_fixed := True, nc_abs_pos := True, nc_req_digits := (- digits + 1) - 1\<rparr>
           else c\<lparr>nc_is_fixed := True, nc_req_digits := digits + 1\<rparr>
         else c\<lparr>nc_is_fixed := False, nc_req_digits := 0\<rparr>)"

text \<open>The digits of zero.\<close>

definition stringify_zero :: "nc_ctx \<Rightarrow> int \<Rightarrow> nc_ctx" where
  "stringify_zero c digits =
     (let count = (if nc_is_fixed c then if nc_abs_pos c then digits + 2 else digits + 1 else 1)
      in c\<lparr>nc_digits := replicate (nat count) 0, nc_count := count, nc_k := 1\<rparr>)"

text \<open>The part after the digits are known.\<close>

definition stringify_finish :: "nc_ctx \<Rightarrow> u32 \<Rightarrow> int \<Rightarrow> u32 \<Rightarrow> bool \<Rightarrow> string" where
  "stringify_finish c radix digits flags neg =
     (let c = (if flags AND DUK_N2S_FLAG_FIXED_FORMAT \<noteq> 0
               then let roundpos = (if flags AND DUK_N2S_FLAG_FRACTION_DIGITS \<noteq> 0 then nc_k c - (- digits) else digits)
                    in fst (duk__dragon4_fixed_format_round c roundpos)
               else c)
      in duk__dragon4_convert_and_push c radix digits flags neg)"

definition duk_numconv_stringify :: "nc_ctx \<Rightarrow> double \<Rightarrow> u32 \<Rightarrow> int \<Rightarrow> u32 \<Rightarrow> string option" where
  "duk_numconv_stringify u x0 radix digits flags =
     (let neg = double_sign x0; x = double_abs x0 in
      case fp_classify x0 of
        DUK_FP_NAN \<Rightarrow> Some ''NaN''
      | DUK_FP_INFINITE \<Rightarrow> Some (if neg then ''-Infinity'' else ''Infinity'')
      | cls \<Rightarrow>
          (case (double_uint32 x, flags = 0) of
             (Some uval, True) \<Rightarrow>
               Some ((if neg \<and> uval \<noteq> 0 then ''-'' else '''') @ duk__dragon4_format_uint32 uval radix)
           | _ \<Rightarrow>
               let c = stringify_setup u radix digits flags in
               if cls = DUK_FP_ZERO then Some (stringify_finish (stringify_zero c digits) radix digits flags False)
               else Option.bind (dragon4_run (duk__dragon4_double_to_ctx c (fst x) (snd x)))
                      (\<lambda>c. Some (stringify_finish c radix digits flags neg))))"

section \<open>Contexts of doubles\<close>

lemma low20: "unat ((h :: u32) AND 0xfffff) < 2 ^ 20"
  by (rule le_less_trans [OF word_le_nat_alt [THEN iffD1, OF word_and_le1]]) simp

lemma hidden_bit: "unat (((h :: u32) AND 0xfffff) OR 0x100000) = unat (h AND 0xfffff) + 2 ^ 20"
proof -
  have "(h AND 0xfffff) AND 0x100000 = 0" by (simp add: and.assoc)
  then have "(h AND 0xfffff) OR 0x100000 = (h AND 0xfffff) + 0x100000" by (simp add: disjunctive_add_eq_or)
  moreover have "unat ((h AND 0xfffff) + 0x100000) = unat (h AND 0xfffff) + unat (0x100000 :: u32)"
    using low20 [of h] by (intro unat_add_lem [THEN iffD1]) simp
  ultimately show ?thesis by simp
qed

lemma double_to_ctx_value:
  assumes "nc_b c = 2"
  shows "ctx_value (duk__dragon4_double_to_ctx c (fst x) (snd x)) = double_value x \<and> normal (nc_f (duk__dragon4_double_to_ctx c (fst x) (snd x)))"
proof (cases "double_exponent x = 0")
  case True
  then show ?thesis
    unfolding duk__dragon4_double_to_ctx_def double_exponent_def [symmetric]
    by (simp add: assms ctx_value_def double_value_def double_mantissa_def DUK__IEEE_DOUBLE_EXP_MIN_def Let_def mult.commute)
next
  case False
  then have e: "uint (double_exponent x) \<noteq> 0" by (simp only: uint_0_iff not_False_eq_True)
  let ?t = "(fst x AND 0xfffff) OR 0x100000"
  have t: "unat ?t = unat (fst x AND 0xfffff) + 2 ^ 20" by (rule hidden_bit)
  then have "?t \<noteq> 0" by (metis add_is_0 power_not_zero unat_0 zero_neq_numeral)
  then show ?thesis using e
    unfolding duk__dragon4_double_to_ctx_def double_exponent_def [symmetric]
    by (simp add: assms ctx_value_def double_value_def double_mantissa_def DUK__IEEE_DOUBLE_EXP_BIAS_def normal_def t Let_def algebra_simps)
qed

text \<open>The distance to the next larger double, and the distances of the rounding interval as the code sets them up.\<close>

definition double_ulp :: "double \<Rightarrow> real" where
  "double_ulp x = 2 powi (max 1 (uint (double_exponent x)) - 1075)"

definition double_low_gap :: "double \<Rightarrow> real" where
  "double_low_gap x = (if double_mantissa x = 0 \<and> 53 < uint (double_exponent x) then double_ulp x / 4 else double_ulp x / 2)"

lemma mantissa_bound: "double_mantissa x < 2 ^ 52"
  using low20 [of "fst x"] u32_bound [of "snd x"] by (simp add: double_mantissa_def)

lemma double_to_ctx_fields:
  fixes x :: double
  defines "c' \<equiv> \<lambda>c. duk__dragon4_double_to_ctx c (fst x) (snd x)"
  shows "bval (nc_f (c' c)) = (if double_exponent x = 0 then double_mantissa x else 2 ^ 52 + double_mantissa x)"
    and "nc_e (c' c) = max 1 (uint (double_exponent x)) - 1075"
    and "nc_b (c' c) = nc_b c" "nc_B (c' c) = nc_B c" "nc_is_s2n (c' c) = nc_is_s2n c" "nc_is_fixed (c' c) = nc_is_fixed c"
    "nc_abs_pos (c' c) = nc_abs_pos c" "nc_req_digits (c' c) = nc_req_digits c"
proof -
  show "bval (nc_f (c' c)) = (if double_exponent x = 0 then double_mantissa x else 2 ^ 52 + double_mantissa x)"
    unfolding c'_def duk__dragon4_double_to_ctx_def double_exponent_def [symmetric]
    by (simp add: double_mantissa_def hidden_bit Let_def uint_0_iff algebra_simps)
  show "nc_e (c' c) = max 1 (uint (double_exponent x)) - 1075"
    unfolding c'_def duk__dragon4_double_to_ctx_def double_exponent_def [symmetric]
    by (simp add: DUK__IEEE_DOUBLE_EXP_MIN_def DUK__IEEE_DOUBLE_EXP_BIAS_def Let_def max_def)
      (use uint_ge_0 [of "double_exponent x"] in linarith)
qed (simp_all add: c'_def duk__dragon4_double_to_ctx_def Let_def)

lemma double_to_ctx_gaps:
  assumes b: "nc_b c = 2" and "\<not> nc_is_s2n c"
  shows "high_gap (duk__dragon4_double_to_ctx c (fst x) (snd x)) = double_ulp x / 2"
    and "low_gap (duk__dragon4_double_to_ctx c (fst x) (snd x)) = double_low_gap x"
proof -
  show "high_gap (duk__dragon4_double_to_ctx c (fst x) (snd x)) = double_ulp x / 2"
    by (simp add: high_gap_def double_ulp_def double_to_ctx_fields b)
  have "narrow_gap (duk__dragon4_double_to_ctx c (fst x) (snd x)) \<longleftrightarrow> double_mantissa x = 0 \<and> 53 < uint (double_exponent x)"
    using assms mantissa_bound [of x] uint_0_iff [of "double_exponent x"]
    by (auto simp: narrow_gap_def double_to_ctx_fields DUK__IEEE_DOUBLE_EXP_MIN_def max_def)
  then show "low_gap (duk__dragon4_double_to_ctx c (fst x) (snd x)) = double_low_gap x"
    by (simp add: low_gap_def double_low_gap_def double_ulp_def double_to_ctx_fields b power_int_diff)
qed

lemma double_even: "even (bval (nc_f (duk__dragon4_double_to_ctx c (fst x) (snd x)))) = even (double_mantissa x)"
  by (simp add: double_to_ctx_fields)

section \<open>Formatted digits\<close>

definition no_points :: "string \<Rightarrow> string" where
  "no_points = filter (\<lambda>ch. ch \<noteq> CHR ''.'')"

lemma no_points_id: "CHR ''.'' \<notin> set xs \<Longrightarrow> no_points xs = xs"
  unfolding no_points_def by (rule filter_True) auto

lemma no_points_append: "no_points (xs @ ys) = no_points xs @ no_points ys" "no_points (CHR ''.'' # ys) = no_points ys"
  by (simp_all add: no_points_def)

lemma DIGITCHAR_no_point: "x < 36 \<Longrightarrow> DUK__DIGITCHAR x \<noteq> CHR ''.''"
  using digit_of_DIGITCHAR [of x] by (auto simp: digit_of_def DUK__DIGITCHAR_def duk_lc_digits_def)

text \<open>At and below the position of the first digit, the digits themselves are printed.\<close>

lemma format_digits_below:
  assumes "nc_count c = int (length (nc_digits c))" and "\<forall>d \<in> set (nc_digits c). d < 36"
  shows "pos \<le> k \<Longrightarrow> k - pos_end \<le> nc_count c \<Longrightarrow> no_points (format_digits c k pos pos_end) =
    map DUK__DIGITCHAR (take (nat (pos - pos_end)) (drop (nat (k - pos)) (nc_digits c)))"
proof (induction "nat (pos - pos_end)" arbitrary: pos)
  case 0
  then show ?case by (subst format_digits.simps) (simp add: no_points_def)
next
  case (Suc n)
  let ?i = "nat (k - pos)"
  have gt: "pos > pos_end" and n: "nat (pos - 1 - pos_end) = n" using Suc(2) by auto
  have i: "?i < length (nc_digits c)" using Suc.prems gt assms(1) by linarith
  then have d: "nc_digits c ! ?i < 36" using assms(2) nth_mem by blast
  have "nat (k - (pos - 1)) = Suc ?i" using Suc.prems by simp
  then have "no_points (format_digits c k (pos - 1) pos_end) = map DUK__DIGITCHAR (take n (drop (Suc ?i) (nc_digits c)))"
    using Suc(1) [of "pos - 1"] n Suc.prems by simp
  moreover have "no_points (format_digits c k pos pos_end) = DUK__DIGITCHAR (nc_digits c ! ?i) # no_points (format_digits c k (pos - 1) pos_end)"
    using gt Suc.prems i DIGITCHAR_no_point [OF d] by (subst format_digits.simps) (auto simp: no_points_def)
  moreover have "take (nat (pos - pos_end)) (drop ?i (nc_digits c)) = nc_digits c ! ?i # take n (drop (Suc ?i) (nc_digits c))"
    unfolding Suc(2) [symmetric] using i by (simp add: Cons_nth_drop_Suc [symmetric])
  ultimately show ?case by simp
qed

text \<open>Above it, zeros.\<close>

lemma format_digits_above:
  "k \<le> pos \<Longrightarrow> pos_end \<le> pos \<Longrightarrow> no_points (format_digits c k pos pos_end) =
    replicate (nat (pos - max k pos_end)) CHR ''0'' @ no_points (format_digits c k (max k pos_end) pos_end)"
proof (induction "nat (pos - max k pos_end)" arbitrary: pos)
  case 0
  then have "pos = max k pos_end" by linarith
  then show ?case by simp
next
  case (Suc n)
  have gt: "pos > pos_end" "pos > k" and n: "nat (pos - 1 - max k pos_end) = n" using Suc(2) by auto
  then have "no_points (format_digits c k pos pos_end) = CHR ''0'' # no_points (format_digits c k (pos - 1) pos_end)"
    by (subst format_digits.simps) (simp add: no_points_def)
  moreover have "no_points (format_digits c k (pos - 1) pos_end) =
      replicate n CHR ''0'' @ no_points (format_digits c k (max k pos_end) pos_end)"
    using Suc(1) [of "pos - 1"] n gt by simp
  ultimately show ?case unfolding Suc(2) [symmetric] by simp
qed

lemma format_digits_split:
  "m \<le> pos \<Longrightarrow> pos_end \<le> m \<Longrightarrow> format_digits c k pos pos_end = format_digits c k pos m @ format_digits c k m pos_end"
proof (induction "nat (pos - m)" arbitrary: pos)
  case 0
  then show ?case by (simp add: format_digits.simps [of c k m m])
next
  case (Suc n)
  then have "m < pos" "pos_end < pos" by linarith+
  then show ?case using Suc(1) [of "pos - 1"] Suc(2-4)
    by (subst (1 2) format_digits.simps) simp
qed

lemma format_digits_plain: "0 \<le> pos_end \<or> pos < 0 \<Longrightarrow> \<forall>d \<in> set (nc_digits c). d < 36 \<Longrightarrow> nc_count c = int (length (nc_digits c)) \<Longrightarrow>
    CHR ''.'' \<notin> set (format_digits c k pos pos_end) \<and> length (format_digits c k pos pos_end) = nat (pos - pos_end)"
proof (induction "nat (pos - pos_end)" arbitrary: pos)
  case 0
  then show ?case by (subst (1 2) format_digits.simps) simp
next
  case (Suc n)
  then have gt: "pos > pos_end" and n: "n = nat (pos - 1 - pos_end)" by linarith+
  have "DUK__DIGITCHAR (nc_digits c ! nat (k - pos)) \<noteq> CHR ''.''" if "pos \<le> k" "k - nc_count c < pos"
    using that Suc.prems(2,3) by (intro DIGITCHAR_no_point) (simp add: nat_less_iff)
  then show ?case using Suc.prems(1) gt Suc(1) [OF n _ Suc.prems(2,3)] Suc(2) n
    by (subst (1 2) format_digits.simps) auto
qed

lemma digit_of_zero: "digit_of CHR ''0'' = 0"
  by (simp add: digit_of_def)


lemma dval_zeros: "dval B (replicate n 0 @ ds) = dval B ds"
  by (induction n) simp_all

lemma map_digit_of: "\<forall>d \<in> set ds. d < 36 \<Longrightarrow> map digit_of (map DUK__DIGITCHAR ds) = ds"
  by (simp add: map_idI digit_of_DIGITCHAR)

text \<open>The digits printed down to position \<open>- p\<close> read as a number are the leading digits of the context.\<close>

lemma format_digits_value:
  assumes c: "nc_count c = int (length (nc_digits c))" "\<forall>d \<in> set (nc_digits c). d < 36" and k: "k + p \<le> nc_count c"
    and pos: "k \<le> pos" "- p \<le> pos"
  shows "dval B (map digit_of (no_points (format_digits c k pos (- p)))) = dval B (take (nat (k + p)) (nc_digits c))"
proof -
  have "no_points (format_digits c k (max k (- p)) (- p)) = map DUK__DIGITCHAR (take (nat (k + p)) (nc_digits c))"
  proof (cases "- p \<le> k")
    case True
    then show ?thesis using format_digits_below [OF c, of k k "- p"] k by (simp add: max_def)
  next
    case False
    then have "max k (- p) = - p" by simp
    then show ?thesis using False by (simp add: format_digits.simps [of c k "- p" "- p"] no_points_def)
  qed
  then have "map digit_of (no_points (format_digits c k pos (- p))) =
      replicate (nat (pos - max k (- p))) 0 @ map digit_of (map DUK__DIGITCHAR (take (nat (k + p)) (nc_digits c)))"
    using format_digits_above [OF pos] by (simp add: digit_of_zero)
  moreover have "map digit_of (map DUK__DIGITCHAR (take (nat (k + p)) (nc_digits c))) = take (nat (k + p)) (nc_digits c)"
    using c(2) by (intro map_digit_of) (auto dest: in_set_takeD)
  ultimately show ?thesis using dval_zeros by metis
qed

lemma fixed_round_keeps:
  "nc_abs_pos (fst (duk__dragon4_fixed_format_round c i)) = nc_abs_pos c \<and>
   nc_is_fixed (fst (duk__dragon4_fixed_format_round c i)) = nc_is_fixed c \<and> nc_B (fst (duk__dragon4_fixed_format_round c i)) = nc_B c"
  by (auto simp: duk__dragon4_fixed_format_round_def Let_def split: prod.splits bool.splits)

lemma format_digits_point:
  assumes c: "nc_count c = int (length (nc_digits c))" "\<forall>d \<in> set (nc_digits c). d < 36" and p: "0 < p"
  shows "\<exists>b. format_digits c k 0 (- p) = CHR ''.'' # b \<and> CHR ''.'' \<notin> set b \<and> length b = nat p"
proof -
  let ?d = "if 0 > k then CHR ''0'' else if 0 \<le> k - nc_count c then CHR ''0'' else DUK__DIGITCHAR (nc_digits c ! nat k)"
  have e: "format_digits c k 0 (- p) = CHR ''.'' # ?d # format_digits c k (- 1) (- p)"
    using p by (subst format_digits.simps) simp
  have "?d \<noteq> CHR ''.''" using c by (auto intro!: DIGITCHAR_no_point simp: nat_less_iff)
  moreover have "CHR ''.'' \<notin> set (format_digits c k (- 1) (- p))" "length (format_digits c k (- 1) (- p)) = nat (p - 1)"
    using format_digits_plain [OF _ c(2,1), of "- p" "- 1" k] by auto
  ultimately show ?thesis using e p by auto
qed

text \<open>The output for an absolute digit position.\<close>

lemma absolute_output:
  assumes c: "nc_count c = int (length (nc_digits c))" "\<forall>d \<in> set (nc_digits c). d < 36" and k: "nc_k c + p \<le> nc_count c"
    and p: "0 \<le> p" and ab: "nc_abs_pos c" "nc_is_fixed c"
  shows "\<exists>a b. duk__dragon4_convert_and_push c radix p flags neg = (if neg then ''-'' else '''') @ a @ (if p = 0 then '''' else CHR ''.'' # b) \<and>
    a \<noteq> '''' \<and> length b = nat p \<and> CHR ''.'' \<notin> set (a @ b) \<and>
    dval B (map digit_of (a @ b)) = dval B (take (nat (nc_k c + p)) (nc_digits c))"
proof -
  let ?k = "nc_k c" let ?pos = "if ?k \<ge> 1 then ?k else 1"
  define a where "a = format_digits c ?k ?pos 0"
  have pos: "?k \<le> ?pos" "0 \<le> ?pos" "- p \<le> ?pos" using p by auto
  have a: "CHR ''.'' \<notin> set a" "a \<noteq> ''''" using format_digits_plain [OF _ c(2,1), of 0 ?pos ?k] by (auto simp: a_def)
  obtain b where frac: "format_digits c ?k 0 (- p) = (if p = 0 then '''' else CHR ''.'' # b)" "CHR ''.'' \<notin> set b" "length b = nat p"
  proof (cases "p = 0")
    case True
    then show ?thesis using that [of "''''"] by (simp add: format_digits.simps)
  next
    case False
    then show ?thesis using that format_digits_point [OF c, of p ?k] p by auto
  qed
  have all: "format_digits c ?k ?pos (- p) = a @ (if p = 0 then '''' else CHR ''.'' # b)"
    using format_digits_split [of 0 ?pos "- p" c ?k] p pos(2) frac(1) by (simp add: a_def)
  then have "no_points (format_digits c ?k ?pos (- p)) = a @ b"
    using a(1) frac(2,3) no_points_id [of a] no_points_id [of b] by (auto simp: no_points_append)
  then have "dval B (map digit_of (a @ b)) = dval B (take (nat (?k + p)) (nc_digits c))"
    using format_digits_value [OF c k pos(1,3), of B] by simp
  moreover have "duk__dragon4_convert_and_push c radix p flags neg = (if neg then ''-'' else '''') @ format_digits c ?k ?pos (- p)"
    using ab p by (simp add: duk__dragon4_convert_and_push_def Let_def)
  ultimately show ?thesis using a frac all by (intro exI [of _ a] exI [of _ b]) simp
qed

text \<open>Rounding at an absolute position, also in front of all digits.\<close>

lemma to_fixed_rounded:
  assumes c: "ctx_base c" "normal (nc_f c)" "2 \<le> B" "unat (nc_B c) = B" "nc_is_fixed c" and ev: "even B"
    and ab: "nc_abs_pos c" "nc_req_digits c = - p" and run: "dragon4_run c = Some c'"
  defines "r \<equiv> fst (duk__dragon4_fixed_format_round c' (nc_k c' - (- p)))"
  shows "nc_count r = int (length (nc_digits r)) \<and> (\<forall>d \<in> set (nc_digits r). d < B) \<and> nc_k r + p \<le> nc_count r \<and>
    int (dval B (take (nat (nc_k r + p)) (nc_digits r))) = \<lfloor>ctx_value c * real B powi p + 1 / 2\<rfloor>"
proof (cases "0 \<le> nc_k c' + p")
  case True
  obtain ov where rd: "duk__dragon4_fixed_format_round c' (int (nat (nc_k c' + p))) = (r, ov)"
    using True by (auto simp: r_def intro: prod.collapse [symmetric])
  have "int (nat (nc_k c' + p)) = (if nc_abs_pos c then nc_k c' - nc_req_digits c else nc_req_digits c - 1)"
    using True ab by simp
  note R = fixed_format_rounded [OF c ev run this rd]
  have "nat (nc_k r + p) = nat (nc_k c' + p) + (if ov then 1 else 0)" using R True by auto
  then show ?thesis using R True by simp
next
  case False
  have "r = c'" using False by (simp add: r_def duk__dragon4_fixed_format_round_def)
  moreover have "nc_count c' = int (length (nc_digits c'))" "\<forall>d \<in> set (nc_digits c'). d < B"
      "ctx_value c < real B powi nc_k c'"
    using fixed_format_run [OF c] run by auto
  moreover have "\<lfloor>ctx_value c * real B powi p + 1 / 2\<rfloor> = 0" if lt: "ctx_value c < real B powi nc_k c'"
  proof -
    have "ctx_value c * real B powi p < real B powi nc_k c' * real B powi p" using lt c(3) by simp
    also have "\<dots> = real B powi (nc_k c' + p)" using c(3) by (simp add: power_int_add)
    also have "\<dots> \<le> real B powi (- 1)" using c(3) False by (intro power_int_increasing) auto
    also have "\<dots> \<le> 1 / 2" using c(3) by (simp add: power_int_minus field_simps)
    finally have "ctx_value c * real B powi p < 1 / 2" .
    moreover have "0 \<le> ctx_value c * real B powi p"
      unfolding ctx_value_def by (intro mult_nonneg_nonneg zero_le_power_int of_nat_0_le_iff)
    ultimately show ?thesis by (simp add: floor_eq_iff)
  qed
  ultimately show ?thesis using run False by simp
qed

section \<open>Properties\<close>

text \<open>
  C19. Shortest conversion: for every finite double that is not a small integer and every radix,
  the conversion ends, and its digits denote a number in the rounding interval of the double that
  the code has set up, whose ends count only for an even mantissa: half a unit in the last place
  above, and below half a unit or, for a power of two, a quarter.
\<close>

theorem numconv_free_format:
  assumes "fp_classify x = DUK_FP_FINITE" and "double_uint32 (double_abs x) = None" and "2 \<le> unat radix"
  shows "\<exists>c'. duk_numconv_stringify u x radix digits 0 =
      Some (duk__dragon4_convert_and_push c' radix digits 0 (double_sign x)) \<and>
    nc_digits c' \<noteq> [] \<and> nc_count c' = int (length (nc_digits c')) \<and> (\<forall>d \<in> set (nc_digits c'). d < unat radix) \<and>
    (let v = double_value (double_abs x); lo = double_low_gap (double_abs x); hi = double_ulp (double_abs x) / 2; V = digits_value c' in
     if even (double_mantissa (double_abs x)) then v - lo \<le> V \<and> V \<le> v + hi else v - lo < V \<and> V < v + hi)"
proof -
  let ?x = "double_abs x" and ?s = "stringify_setup u radix digits 0"
  let ?c = "duk__dragon4_double_to_ctx ?s (fst ?x) (snd ?x)"
  have s: "nc_b ?s = 2" "nc_B ?s = radix" "\<not> nc_is_fixed ?s" "\<not> nc_is_s2n ?s" by (simp_all add: stringify_setup_def Let_def)
  have c: "ctx_base ?c" "unat (nc_B ?c) = unat radix" "\<not> nc_is_fixed ?c" "normal (nc_f ?c)"
    using s double_to_ctx_value [OF s(1), of ?x] by (simp_all add: double_to_ctx_fields ctx_base_def)
  obtain c' where c': "dragon4_run ?c = Some c'" "nc_digits c' \<noteq> []" "nc_count c' = int (length (nc_digits c'))"
      "\<forall>d \<in> set (nc_digits c'). d < unat radix"
      "if even (double_mantissa ?x) then double_value ?x - double_low_gap ?x \<le> digits_value c' \<and> digits_value c' \<le> double_value ?x + double_ulp ?x / 2
       else double_value ?x - double_low_gap ?x < digits_value c' \<and> digits_value c' < double_value ?x + double_ulp ?x / 2"
    using free_format_run [OF c(1,4) assms(3) c(2,3)]
    unfolding double_even double_to_ctx_gaps [OF s(1,4)] conjunct1 [OF double_to_ctx_value [OF s(1)]] by blast
  have "duk_numconv_stringify u x radix digits 0 = Some (duk__dragon4_convert_and_push c' radix digits 0 (double_sign x))"
    using assms(1,2) c'(1) by (simp add: duk_numconv_stringify_def stringify_finish_def Let_def)
  then show ?thesis using c' by (intro exI [of _ c']) simp
qed

text \<open>The double 0.1 is converted with digits in its rounding interval.\<close>

theorem numconv_free_format_witness:
  "\<exists>u c'. duk_numconv_stringify u (0x3fb99999, 0x9999999a) 10 0 0 = Some (duk__dragon4_convert_and_push c' 10 0 0 False) \<and>
    double_value (0x3fb99999, 0x9999999a) - double_low_gap (0x3fb99999, 0x9999999a) \<le> digits_value c' \<and>
    digits_value c' \<le> double_value (0x3fb99999, 0x9999999a) + double_ulp (0x3fb99999, 0x9999999a) / 2"
proof -
  let ?x = "(0x3fb99999, 0x9999999a) :: double"
  have a: "double_abs ?x = ?x" "\<not> double_sign ?x" by (simp_all add: double_abs_def double_sign_def)
  have "fp_classify ?x = DUK_FP_FINITE" "double_uint32 (double_abs ?x) = None" "2 \<le> unat (10 :: u32)"
    "even (double_mantissa ?x)"
    by (simp_all add: a fp_classify_def double_exponent_def double_uint32_def double_mantissa_def Let_def)
  then show ?thesis using numconv_free_format [of ?x 10 _ 0] a by (simp add: Let_def) metis
qed



end
