(* ===== verification/JsNumParse.thy ===== *)
theory JsNumParse
  imports JsNumString
begin

unbundle bit_operations_syntax

text \<open>
  String to number conversion of the JavaScript command (\<open>duk_numconv_parse\<close> and
  \<open>duk__dragon4_ctx_to_double\<close>). The argument is the string after the optional trimming, a list of
  bytes that a NUL byte follows. Counters that are bounded by the length of the string are
  unbounded integers. A failed parse (a NaN on the value stack) and the range error are results of
  their own.
\<close>

section \<open>Flags and tables\<close>

definition DUK_S2N_MAX_EXPONENT :: int where
  "DUK_S2N_MAX_EXPONENT = 1000000000"

definition DUK_S2N_FLAG_ALLOW_EXP :: u32 where "DUK_S2N_FLAG_ALLOW_EXP = push_bit 1 1"
definition DUK_S2N_FLAG_ALLOW_GARBAGE :: u32 where "DUK_S2N_FLAG_ALLOW_GARBAGE = push_bit 2 1"
definition DUK_S2N_FLAG_ALLOW_PLUS :: u32 where "DUK_S2N_FLAG_ALLOW_PLUS = push_bit 3 1"
definition DUK_S2N_FLAG_ALLOW_MINUS :: u32 where "DUK_S2N_FLAG_ALLOW_MINUS = push_bit 4 1"
definition DUK_S2N_FLAG_ALLOW_INF :: u32 where "DUK_S2N_FLAG_ALLOW_INF = push_bit 5 1"
definition DUK_S2N_FLAG_ALLOW_FRAC :: u32 where "DUK_S2N_FLAG_ALLOW_FRAC = push_bit 6 1"
definition DUK_S2N_FLAG_ALLOW_NAKED_FRAC :: u32 where "DUK_S2N_FLAG_ALLOW_NAKED_FRAC = push_bit 7 1"
definition DUK_S2N_FLAG_ALLOW_EMPTY_FRAC :: u32 where "DUK_S2N_FLAG_ALLOW_EMPTY_FRAC = push_bit 8 1"
definition DUK_S2N_FLAG_ALLOW_EMPTY_AS_ZERO :: u32 where "DUK_S2N_FLAG_ALLOW_EMPTY_AS_ZERO = push_bit 9 1"
definition DUK_S2N_FLAG_ALLOW_LEADING_ZERO :: u32 where "DUK_S2N_FLAG_ALLOW_LEADING_ZERO = push_bit 10 1"
definition DUK_S2N_FLAG_ALLOW_AUTO_HEX_INT :: u32 where "DUK_S2N_FLAG_ALLOW_AUTO_HEX_INT = push_bit 11 1"
definition DUK_S2N_FLAG_ALLOW_AUTO_OCT_INT :: u32 where "DUK_S2N_FLAG_ALLOW_AUTO_OCT_INT = push_bit 13 1"
definition DUK_S2N_FLAG_ALLOW_AUTO_BIN_INT :: u32 where "DUK_S2N_FLAG_ALLOW_AUTO_BIN_INT = push_bit 14 1"

definition flag_on :: "u32 \<Rightarrow> u32 \<Rightarrow> bool" where
  "flag_on flags m \<longleftrightarrow> flags AND m \<noteq> 0"

definition duk__str2num_digits_for_radix :: "nat list" where
  "duk__str2num_digits_for_radix =
     [69, 44, 35, 30, 27, 25, 23, 22, 20, 20,
      20, 19, 19, 18, 18, 17, 17, 17, 16, 16,
      16, 16, 16, 15, 15, 15, 15, 15, 15, 14,
      14, 14, 14, 14, 14]"

definition duk__str2num_exp_limits :: "(int \<times> int) list" where
  "duk__str2num_exp_limits =
     [(957, - 1147), (605, - 725), (479, - 575), (414, - 496),
      (372, - 446), (342, - 411), (321, - 384), (304, - 364),
      (291, - 346), (279, - 334), (268, - 323), (260, - 312),
      (252, - 304), (247, - 296), (240, - 289), (236, - 283),
      (231, - 278), (227, - 273), (223, - 267), (220, - 263),
      (216, - 260), (213, - 256), (210, - 253), (208, - 249),
      (205, - 246), (203, - 244), (201, - 241), (198, - 239),
      (196, - 237), (195, - 234), (193, - 232), (191, - 230),
      (190, - 228), (188, - 226), (187, - 225)]"

section \<open>Binary digits to a double\<close>

text \<open>The biased exponent and the index of the first mantissa digit for a position \<open>k\<close>.\<close>

definition ieee_fields :: "int \<Rightarrow> int \<times> int" where
  "ieee_fields k =
     (let expt = k - 1 in
      if expt > 1023 then (2047, - 255)
      else if expt \<ge> - 1022 then (expt + DUK__IEEE_DOUBLE_EXP_BIAS, 1)
      else (0, 1023 + expt))"

definition mantissa_digit :: "nc_ctx \<Rightarrow> int \<Rightarrow> nat \<Rightarrow> u32" where
  "mantissa_digit c bitstart i =
     (let bitidx = bitstart + 52 - 1 - int i in
      if bitidx \<ge> nc_count c then 0
      else if bitidx < 0 then 0
      else of_nat (nc_digits c ! nat bitidx))"

fun mantissa_loop :: "nc_ctx \<Rightarrow> int \<Rightarrow> nat \<Rightarrow> nat \<Rightarrow> u32 \<Rightarrow> u32" where
  "mantissa_loop c bitstart i 0 t = t"
| "mantissa_loop c bitstart i (Suc n) t =
     mantissa_loop c bitstart (Suc i) n (t + push_bit (i mod 32) (mantissa_digit c bitstart i))"

definition duk__dragon4_ctx_to_double :: "nc_ctx \<Rightarrow> double" where
  "duk__dragon4_ctx_to_double c0 =
     (let (expt0, bitstart0) = ieee_fields (nc_k c0);
          (c, carry) = duk__dragon4_fixed_format_round c0 (bitstart0 + 52);
          (expt, bitstart) = (if carry then ieee_fields (nc_k c) else (expt0, bitstart0));
          low = mantissa_loop c bitstart 0 32 0;
          t = mantissa_loop c bitstart 32 20 0
      in (t + push_bit 20 (word_of_int expt), low))"

section \<open>Scanning\<close>

record scan_state =
  sc_f :: bigint
  sc_dig_prec :: int
  sc_dig_lzero :: int
  sc_dig_whole :: int
  sc_dig_frac :: int
  sc_dig_expt :: int
  sc_expt :: int
  sc_expt_adj :: int
  sc_expt_neg :: bool

datatype scan_result = ScanDone scan_state | ScanFail | ScanLimit

definition scan_start :: scan_state where
  "scan_start = \<lparr>sc_f = duk__bi_set_small 0, sc_dig_prec = 0, sc_dig_lzero = 0, sc_dig_whole = 0, sc_dig_frac = - 1,
     sc_dig_expt = - 1, sc_expt = 0, sc_expt_adj = 0, sc_expt_neg = False\<rparr>"

text \<open>The value of a digit character; 255 for any other character.\<close>

definition scan_digit :: "char \<Rightarrow> int" where
  "scan_digit ch =
     (let n = int (of_char ch) in
      if 48 \<le> n \<and> n \<le> 57 then n - 48
      else if 97 \<le> n \<and> n \<le> 122 then n - 97 + 10
      else if 65 \<le> n \<and> n \<le> 90 then n - 65 + 10
      else 255)"

definition digit_limit :: "int \<Rightarrow> int" where
  "digit_limit radix = int (duk__str2num_digits_for_radix ! nat (radix - 2))"

text \<open>A digit of the whole or fraction part.\<close>

definition scan_mantissa_digit :: "int \<Rightarrow> int \<Rightarrow> scan_state \<Rightarrow> scan_state" where
  "scan_mantissa_digit radix dig st =
     (let st = (if sc_dig_prec st < digit_limit radix then
                  if duk__bi_is_zero (sc_f st) \<and> dig = 0
                  then (if sc_dig_frac st < 0 then st\<lparr>sc_dig_lzero := sc_dig_lzero st + 1\<rparr> else st)
                  else st\<lparr>sc_f := duk__bi_add_small (duk__bi_mul_small (sc_f st) (word_of_int radix)) (word_of_int dig),
                          sc_dig_prec := sc_dig_prec st + 1\<rparr>
                else st\<lparr>sc_expt_adj := sc_expt_adj st + 1\<rparr>)
      in if sc_dig_frac st \<ge> 0
         then st\<lparr>sc_dig_frac := sc_dig_frac st + 1, sc_expt_adj := sc_expt_adj st - 1\<rparr>
         else st\<lparr>sc_dig_whole := sc_dig_whole st + 1\<rparr>)"

text \<open>The scanning loop; the end of the list is the NUL byte.\<close>

fun scan_loop :: "u32 \<Rightarrow> int \<Rightarrow> string \<Rightarrow> scan_state \<Rightarrow> scan_result" where
  "scan_loop flags radix [] st = ScanDone st"
| "scan_loop flags radix (ch # p) st =
     (if ch = CHR ''.'' then
        if (sc_dig_frac st \<ge> 0 \<or> sc_dig_expt st \<ge> 0)
        then (if flag_on flags DUK_S2N_FLAG_ALLOW_GARBAGE then ScanDone st else ScanFail)
        else if \<not> flag_on flags DUK_S2N_FLAG_ALLOW_FRAC \<and> flag_on flags DUK_S2N_FLAG_ALLOW_GARBAGE then ScanDone st
        else scan_loop flags radix p (st\<lparr>sc_dig_frac := 0\<rparr>)
      else if of_char ch = (0 :: nat) then ScanDone st
      else if flag_on flags DUK_S2N_FLAG_ALLOW_EXP \<and> sc_dig_expt st < 0 \<and> (ch = CHR ''e'' \<or> ch = CHR ''E'') then
        (case p of
           [] \<Rightarrow> scan_loop flags radix p (st\<lparr>sc_dig_expt := 0\<rparr>)
         | ch' # p' \<Rightarrow>
             if ch' = CHR ''-'' then scan_loop flags radix p' (st\<lparr>sc_expt_neg := True, sc_dig_expt := 0\<rparr>)
             else if ch' = CHR ''+'' then scan_loop flags radix p' (st\<lparr>sc_dig_expt := 0\<rparr>)
             else scan_loop flags radix p (st\<lparr>sc_dig_expt := 0\<rparr>))
      else
        let dig = scan_digit ch in
        if dig \<ge> radix then (if flag_on flags DUK_S2N_FLAG_ALLOW_GARBAGE then ScanDone st else ScanFail)
        else if sc_dig_expt st < 0 then scan_loop flags radix p (scan_mantissa_digit radix dig st)
        else
          let expt = sc_expt st * radix + dig in
          if expt > DUK_S2N_MAX_EXPONENT then ScanLimit
          else scan_loop flags radix p (st\<lparr>sc_expt := expt, sc_dig_expt := sc_dig_expt st + 1\<rparr>))"

text \<open>The validity checks after the loop.\<close>

definition scan_valid :: "u32 \<Rightarrow> scan_state \<Rightarrow> bool" where
  "scan_valid flags st \<longleftrightarrow>
     \<not> (sc_dig_lzero st > 0 \<and> sc_dig_whole st > 1 \<and> \<not> flag_on flags DUK_S2N_FLAG_ALLOW_LEADING_ZERO) \<and>
     (if sc_dig_whole st = 0
      then if sc_dig_frac st = 0 then False
           else if sc_dig_frac st > 0 then flag_on flags DUK_S2N_FLAG_ALLOW_NAKED_FRAC
           else flag_on flags DUK_S2N_FLAG_ALLOW_EMPTY_AS_ZERO
      else (sc_dig_frac st = 0 \<longrightarrow> flag_on flags DUK_S2N_FLAG_ALLOW_EMPTY_FRAC)) \<and>
     (sc_dig_expt st = 0 \<longrightarrow> flag_on flags DUK_S2N_FLAG_ALLOW_GARBAGE)"

section \<open>Conversion\<close>

datatype parse_result = Parsed double | ParseNaN | ParseRangeError

definition double_infinity :: double where
  "double_infinity = (0x7ff00000, 0)"

definition double_negate :: "double \<Rightarrow> double" where
  "double_negate x = (fst x XOR 0x80000000, snd x)"

text \<open>The conversion of a 32-bit integer, which is exact.\<close>

fun top_bit :: "nat \<Rightarrow> nat" where
  "top_bit n = (if n < 2 then 0 else Suc (top_bit (n div 2)))"

declare top_bit.simps [simp del]

definition double_of_uint32 :: "u32 \<Rightarrow> double" where
  "double_of_uint32 v =
     (if v = 0 then (0, 0)
      else let e = top_bit (unat v); m = unat v * 2 ^ (52 - e) - 2 ^ 52
           in (push_bit 20 (of_nat (1023 + e)) + of_nat (m div 2 ^ 32), of_nat (m mod 2 ^ 32)))"

text \<open>The padding of the significand.\<close>

fun pad_significand :: "nat \<Rightarrow> int \<Rightarrow> bigint \<Rightarrow> bigint" where
  "pad_significand 0 radix f = f"
| "pad_significand (Suc n) radix f = pad_significand n radix (duk__bi_mul_small_copy f (word_of_int radix))"

text \<open>The slow path; \<open>None\<close> would be a loop that does not end.\<close>

definition parse_ctx :: "nc_ctx \<Rightarrow> int \<Rightarrow> bigint \<Rightarrow> int \<Rightarrow> nc_ctx" where
  "parse_ctx u radix f expt = u\<lparr>nc_f := f, nc_is_s2n := True, nc_e := expt, nc_b := word_of_int radix, nc_B := 2, nc_is_fixed := True,
     nc_abs_pos := False, nc_req_digits := 53 + 1\<rparr>"

definition parse_slow :: "nc_ctx \<Rightarrow> int \<Rightarrow> bigint \<Rightarrow> int \<Rightarrow> double option" where
  "parse_slow u radix f expt =
     (if length f = 0 then Some (0, 0)
      else if expt > fst (duk__str2num_exp_limits ! nat (radix - 2)) then Some double_infinity
      else if expt < snd (duk__str2num_exp_limits ! nat (radix - 2)) then Some (0, 0)
      else Option.bind (dragon4_run (parse_ctx u radix f expt)) (\<lambda>c. Some (duk__dragon4_ctx_to_double c)))"

text \<open>The conversion of a scanned significand and exponent.\<close>

definition parse_finish :: "nc_ctx \<Rightarrow> int \<Rightarrow> scan_state \<Rightarrow> double option" where
  "parse_finish u radix st =
     (let expt = (if sc_expt_neg st then - sc_expt st else sc_expt st) + sc_expt_adj st; f = sc_f st in
      if length f \<le> 1 \<and> expt = 0 then Some (if length f = 1 then double_of_uint32 (f ! 0) else (0, 0))
      else let n = nat (digit_limit radix - sc_dig_prec st) in parse_slow u radix (pad_significand n radix f) (expt - int n))"

text \<open>The number after sign, Infinity and radix prefix have been dealt with.\<close>

definition parse_number :: "nc_ctx \<Rightarrow> u32 \<Rightarrow> int \<Rightarrow> bool \<Rightarrow> string \<Rightarrow> parse_result option" where
  "parse_number u flags radix neg p =
     (case scan_loop flags radix p scan_start of
        ScanFail \<Rightarrow> Some ParseNaN
      | ScanLimit \<Rightarrow> Some ParseRangeError
      | ScanDone st \<Rightarrow>
          if \<not> scan_valid flags st then Some ParseNaN
          else map_option (\<lambda>x. Parsed (if neg then double_negate x else x)) (parse_finish u radix st))"

text \<open>The radix that a prefix selects; 0 for none.\<close>

definition detect_radix :: "u32 \<Rightarrow> string \<Rightarrow> int" where
  "detect_radix flags p =
     (case p of
        ch0 # ch1 # _ \<Rightarrow>
          if ch0 = CHR ''0'' then
            let ch = (of_char ch1 :: nat) OR 0x20 in
            if flag_on flags DUK_S2N_FLAG_ALLOW_AUTO_HEX_INT \<and> ch = of_char CHR ''x'' then 16
            else if flag_on flags DUK_S2N_FLAG_ALLOW_AUTO_OCT_INT \<and> ch = of_char CHR ''o'' then 8
            else if flag_on flags DUK_S2N_FLAG_ALLOW_AUTO_BIN_INT \<and> ch = of_char CHR ''b'' then 2
            else 0
          else 0
      | _ \<Rightarrow> 0)"

definition parse_unsigned :: "nc_ctx \<Rightarrow> u32 \<Rightarrow> int \<Rightarrow> bool \<Rightarrow> string \<Rightarrow> parse_result option" where
  "parse_unsigned u flags radix neg p =
     (if flag_on flags DUK_S2N_FLAG_ALLOW_INF \<and> take 8 p = ''Infinity'' then
        if \<not> flag_on flags DUK_S2N_FLAG_ALLOW_GARBAGE \<and> \<not> (length p = 8 \<or> of_char (p ! 8) = (0 :: nat))
        then Some ParseNaN
        else Some (Parsed (if neg then double_negate double_infinity else double_infinity))
      else
        let dr = detect_radix flags p in
        if dr > 0 then
          parse_number u
            ((flags AND NOT (DUK_S2N_FLAG_ALLOW_EXP OR DUK_S2N_FLAG_ALLOW_EMPTY_FRAC OR DUK_S2N_FLAG_ALLOW_FRAC OR
                DUK_S2N_FLAG_ALLOW_NAKED_FRAC OR DUK_S2N_FLAG_ALLOW_EMPTY_AS_ZERO)) OR DUK_S2N_FLAG_ALLOW_LEADING_ZERO)
            dr neg (drop 2 p)
        else parse_number u flags radix neg p)"

definition duk_numconv_parse :: "nc_ctx \<Rightarrow> int \<Rightarrow> u32 \<Rightarrow> string \<Rightarrow> parse_result option" where
  "duk_numconv_parse u radix flags p =
     (case p of
        [] \<Rightarrow> parse_unsigned u flags radix False p
      | ch # p' \<Rightarrow>
          if ch = CHR ''+'' then
            (if flag_on flags DUK_S2N_FLAG_ALLOW_PLUS then parse_unsigned u flags radix False p' else Some ParseNaN)
          else if ch = CHR ''-'' then
            (if flag_on flags DUK_S2N_FLAG_ALLOW_MINUS then parse_unsigned u flags radix True p' else Some ParseNaN)
          else parse_unsigned u flags radix False p)"

section \<open>Integers as doubles\<close>

lemma top_bit_bounds: "0 < n \<Longrightarrow> 2 ^ top_bit n \<le> n \<and> n < 2 ^ Suc (top_bit n)"
proof (induction n rule: top_bit.induct)
  case (1 n)
  show ?case
  proof (cases "n < 2")
    case True
    then show ?thesis using 1(2) by (simp add: top_bit.simps)
  next
    case False
    then have "2 ^ top_bit (n div 2) \<le> n div 2 \<and> n div 2 < 2 ^ Suc (top_bit (n div 2))" using 1(1) by simp
    then show ?thesis using False by (subst (1 2) top_bit.simps) auto
  qed
qed

lemma and_low11: "unat ((w :: u32) AND 0x7ff) = unat w mod 2 ^ 11"
  using arg_cong [of _ _ unat, OF take_bit_eq_mask [of 11 w]]
  by (simp add: mask_eq_exp_minus_1 take_bit_eq_mod unat_mod)

lemma and_low20: "unat ((w :: u32) AND 0xfffff) = unat w mod 2 ^ 20"
  using arg_cong [of _ _ unat, OF take_bit_eq_mask [of 20 w]]
  by (simp add: mask_eq_exp_minus_1 take_bit_eq_mod unat_mod)

text \<open>A double put together from its biased exponent and its mantissa.\<close>

lemma packed_double:
  assumes E: "E < 2 ^ 11" and m: "m < 2 ^ 52"
  defines "x \<equiv> (push_bit 20 (of_nat E) + of_nat (m div 2 ^ 32), of_nat (m mod 2 ^ 32)) :: double"
  shows "unat (double_exponent x) = E" and "double_mantissa x = m" and "\<not> bit (fst x) 31"
proof -
  define h where "h = fst x"
  have mh: "m div 2 ^ 32 < 2 ^ 20" using m by (simp add: div_less_iff_less_mult)
  have lt: "E * 2 ^ 20 + m div 2 ^ 32 < 2 ^ 31" using E mh by simp
  have "h = of_nat (E * 2 ^ 20 + m div 2 ^ 32)" by (simp add: h_def x_def push_bit_eq_mult algebra_simps)
  then have "unat h = (E * 2 ^ 20 + m div 2 ^ 32) mod 2 ^ LENGTH(32)" by (simp only: unat_of_nat)
  also have "\<dots> = E * 2 ^ 20 + m div 2 ^ 32" by (rule mod_less) (use lt in simp)
  finally have H: "unat h = E * 2 ^ 20 + m div 2 ^ 32" .
  have "unat (double_exponent x) = unat h div 2 ^ 20 mod 2 ^ 11"
    by (simp add: h_def [symmetric] double_exponent_def and_low11 drop_bit_eq_div unat_div)
  moreover have "unat h div 2 ^ 20 = E" unfolding H using mh by simp
  ultimately show "unat (double_exponent x) = E" using E by simp
  have "unat (h AND 0xfffff) = m div 2 ^ 32" unfolding and_low20 H using mh by (simp only: mod_mult_self3 mod_less)
  then show "double_mantissa x = m" by (simp add: h_def [symmetric] double_mantissa_def) (simp add: x_def unat_of_nat)
  have "unat (drop_bit 31 h) = 0" using lt H by (simp add: drop_bit_eq_div unat_div)
  then have "drop_bit 31 h = 0" by (simp only: unat_eq_0)
  then show "\<not> bit (fst x) 31" unfolding h_def [symmetric] bit_iff_odd_drop_bit by simp
qed

lemma double_of_uint32_fields:
  assumes "v \<noteq> 0"
  defines "e \<equiv> top_bit (unat v)"
  shows "e < 32" and "unat (double_exponent (double_of_uint32 v)) = 1023 + e"
    and "2 ^ 52 + double_mantissa (double_of_uint32 v) = unat v * 2 ^ (52 - e)" and "\<not> bit (fst (double_of_uint32 v)) 31"
proof -
  have b: "2 ^ e \<le> unat v" "unat v < 2 ^ Suc e" using assms(1) top_bit_bounds [of "unat v"] by (simp_all add: e_def unat_gt_0)
  have "2 ^ e < (2 :: nat) ^ 32" using b(1) u32_bound [of v] by (rule le_less_trans)
  then show e: "e < 32" using power_strict_increasing_iff [of "2 :: nat" e 32] by simp
  define m where "m = unat v * 2 ^ (52 - e) - 2 ^ 52"
  have p: "(2 :: nat) ^ e * 2 ^ (52 - e) = 2 ^ 52" using e by (simp flip: power_add)
  have lo: "2 ^ 52 \<le> unat v * 2 ^ (52 - e)" using mult_le_mono1 [OF b(1), of "2 ^ (52 - e)"] p by simp
  have "unat v * 2 ^ (52 - e) < 2 ^ Suc e * 2 ^ (52 - e)" using b(2) by (intro mult_strict_right_mono) simp_all
  also have "\<dots> = 2 * 2 ^ 52" using p by simp
  finally have m: "m < 2 ^ 52" using lo by (simp add: m_def)
  have d: "double_of_uint32 v = (push_bit 20 (of_nat (1023 + e)) + of_nat (m div 2 ^ 32), of_nat (m mod 2 ^ 32))"
    using assms(1) by (simp add: double_of_uint32_def e_def m_def Let_def)
  have "1023 + e < 2 ^ 11" using e by simp
  note x = packed_double [OF this m, folded d]
  show "unat (double_exponent (double_of_uint32 v)) = 1023 + e" by (rule x(1))
  show "2 ^ 52 + double_mantissa (double_of_uint32 v) = unat v * 2 ^ (52 - e)" using x(2) lo by (simp add: m_def)
  show "\<not> bit (fst (double_of_uint32 v)) 31" by (rule x(3))
qed

lemma sign_masks: "bit (0x7fffffff :: u32) n \<longleftrightarrow> n < 31" "bit (0x80000000 :: u32) n \<longleftrightarrow> n = 31"
proof -
  have m: "(0x7fffffff :: u32) = mask 31" "(0x80000000 :: u32) = 2 ^ 31" by (simp_all add: mask_eq_exp_minus_1)
  show "bit (0x7fffffff :: u32) n \<longleftrightarrow> n < 31" unfolding m(1) by (auto simp: bit_mask_iff)
  show "bit (0x80000000 :: u32) n \<longleftrightarrow> n = 31" unfolding m(2) bit_exp_iff by auto
qed

lemma clear_sign: "\<not> bit (h :: u32) 31 \<Longrightarrow> h AND 0x7fffffff = h" "((h :: u32) XOR 0x80000000) AND 0x7fffffff = h AND 0x7fffffff"
    "bit ((h :: u32) XOR 0x80000000) 31 \<longleftrightarrow> \<not> bit h 31"
proof -
  show "h AND 0x7fffffff = h" if "\<not> bit h 31"
  proof (rule bit_word_eqI)
    fix n assume n: "n < LENGTH(32)"
    have "n = 31 \<or> n < 31" using n by auto
    then show "bit (h AND 0x7fffffff) n = bit h n" unfolding bit_and_iff sign_masks using that by auto
  qed
  show "(h XOR 0x80000000) AND 0x7fffffff = h AND 0x7fffffff"
    by (rule bit_word_eqI) (unfold bit_and_iff bit_xor_iff sign_masks, auto)
  show "bit (h XOR 0x80000000) 31 \<longleftrightarrow> \<not> bit h 31" unfolding bit_xor_iff sign_masks by simp
qed

definition signed_uint32 :: "bool \<Rightarrow> u32 \<Rightarrow> double" where
  "signed_uint32 neg v = (if neg then double_negate (double_of_uint32 v) else double_of_uint32 v)"

lemma signed_uint32_parts:
  "double_sign (signed_uint32 neg v) = neg" "double_abs (signed_uint32 neg v) = double_of_uint32 v"
proof -
  have b: "\<not> bit (fst (double_of_uint32 v)) 31"
    using double_of_uint32_fields(4) [of v] by (cases "v = 0") (simp_all add: double_of_uint32_def)
  show "double_sign (signed_uint32 neg v) = neg"
    using b by (simp add: signed_uint32_def double_sign_def double_negate_def clear_sign)
  show "double_abs (signed_uint32 neg v) = double_of_uint32 v"
    using b by (simp add: signed_uint32_def double_abs_def double_negate_def clear_sign)
qed

lemma double_uint32_of_uint32: "double_uint32 (double_of_uint32 v) = Some v"
proof (cases "v = 0")
  case True
  then show ?thesis by (simp add: double_of_uint32_def double_uint32_def double_exponent_def double_mantissa_def)
next
  case False
  let ?x = "double_of_uint32 v" and ?e = "top_bit (unat v)"
  note f = double_of_uint32_fields [OF False]
  have "1075 - unat (double_exponent ?x) = 52 - ?e" using f(2) by simp
  then show ?thesis using f(1,2,3) by (simp add: double_uint32_def Let_def)
qed

lemma fp_classify_uint32: "fp_classify (signed_uint32 neg v) = (if v = 0 then DUK_FP_ZERO else DUK_FP_FINITE)"
proof -
  have ab: "double_exponent (double_abs x) = double_exponent x" "double_mantissa (double_abs x) = double_mantissa x" for x
  proof -
    have "(fst x AND 0x7fffffff) AND 0xfffff = fst x AND 0xfffff" by (simp add: and.assoc)
    moreover have "drop_bit 20 (fst x AND 0x7fffffff) AND 0x7ff = drop_bit 20 (fst x) AND 0x7ff"
      by (simp add: drop_bit_and and.assoc)
    ultimately show "double_exponent (double_abs x) = double_exponent x" "double_mantissa (double_abs x) = double_mantissa x"
      by (simp_all add: double_exponent_def double_mantissa_def double_abs_def)
  qed
  have *: "double_exponent (signed_uint32 neg v) = double_exponent (double_of_uint32 v)"
    "double_mantissa (signed_uint32 neg v) = double_mantissa (double_of_uint32 v)"
    using ab [of "signed_uint32 neg v"] by (simp_all add: signed_uint32_parts)
  show ?thesis
  proof (cases "v = 0")
    case True
    then show ?thesis unfolding fp_classify_def * by (simp add: double_of_uint32_def double_exponent_def double_mantissa_def)
  next
    case False
    have "unat (double_exponent (double_of_uint32 v)) \<noteq> unat (0x7ff :: u32)" "unat (double_exponent (double_of_uint32 v)) \<noteq> 0"
      using double_of_uint32_fields(1,2) [OF False] by simp_all
    then have "double_exponent (double_of_uint32 v) \<noteq> 0x7ff" "double_exponent (double_of_uint32 v) \<noteq> 0" by auto
    then show ?thesis unfolding fp_classify_def * using False by simp
  qed
qed

section \<open>Scanning of plain digits\<close>

lemma scan_digit_DIGITCHAR: "x < 36 \<Longrightarrow> scan_digit (DUK__DIGITCHAR x) = int x \<and> DUK__DIGITCHAR x \<noteq> CHR ''.'' \<and>
    of_char (DUK__DIGITCHAR x) \<noteq> (0 :: nat) \<and> DUK__DIGITCHAR x \<notin> set ''EI+-'' \<and> (DUK__DIGITCHAR x = CHR ''e'' \<longleftrightarrow> x = 14) \<and>
    (DUK__DIGITCHAR x = CHR ''0'' \<longleftrightarrow> x = 0)"
proof -
  have all: "\<forall>x \<in> set [0..<36]. scan_digit (DUK__DIGITCHAR x) = int x \<and> DUK__DIGITCHAR x \<noteq> CHR ''.'' \<and>
    of_char (DUK__DIGITCHAR x) \<noteq> (0 :: nat) \<and> DUK__DIGITCHAR x \<notin> set ''EI+-'' \<and> (DUK__DIGITCHAR x = CHR ''e'' \<longleftrightarrow> x = 14) \<and>
    (DUK__DIGITCHAR x = CHR ''0'' \<longleftrightarrow> x = 0)"
    by (simp add: upt_rec scan_digit_def DUK__DIGITCHAR_def duk_lc_digits_def)
  assume "x < 36"
  then have "x \<in> set [0..<36]" by simp
  from bspec [OF all this] show ?thesis .
qed

text \<open>Significant digits of the whole part are accumulated in the significand.\<close>

lemma scan_digits:
  assumes B: "2 \<le> B" "B \<le> 36" and ex: "flag_on flags DUK_S2N_FLAG_ALLOW_EXP \<longrightarrow> B \<le> 14"
  shows "\<forall>d \<in> set ds. d < B \<Longrightarrow> sc_dig_expt st < 0 \<Longrightarrow> sc_dig_frac st < 0 \<Longrightarrow> normal (sc_f st) \<Longrightarrow>
    bval (sc_f st) \<noteq> 0 \<or> ds = [] \<or> hd ds \<noteq> 0 \<Longrightarrow> sc_dig_prec st + int (length ds) \<le> digit_limit (int B) \<Longrightarrow>
    \<exists>f. scan_loop flags (int B) (map DUK__DIGITCHAR ds) st =
      ScanDone (st\<lparr>sc_f := f, sc_dig_prec := sc_dig_prec st + int (length ds), sc_dig_whole := sc_dig_whole st + int (length ds)\<rparr>) \<and>
      normal f \<and> bval f = bval (sc_f st) * B ^ length ds + dval B ds"
proof (induction ds arbitrary: st)
  case Nil
  then show ?case by (intro exI [of _ "sc_f st"]) simp
next
  case (Cons d ds)
  have d: "d < B" "d < 36" using Cons.prems(1) B by auto
  note ch = scan_digit_DIGITCHAR [OF d(2)]
  let ?f = "duk__bi_add_small (duk__bi_mul_small (sc_f st) (word_of_int (int B))) (word_of_int (int d))"
  let ?st = "st\<lparr>sc_f := ?f, sc_dig_prec := sc_dig_prec st + 1, sc_dig_whole := sc_dig_whole st + 1\<rparr>"
  have w: "unat (word_of_int (int B) :: u32) = B" "unat (word_of_int (int d) :: u32) = d"
    using B d by (simp_all add: unat_of_nat)
  have f: "bval ?f = bval (sc_f st) * B + d" "normal ?f"
    using w by (simp_all add: duk__bi_add_small_def add_val add_normal)
  have nz: "\<not> (duk__bi_is_zero (sc_f st) \<and> int d = 0)" using Cons.prems(4,5) by (auto simp: is_zero_val)
  have "scan_mantissa_digit (int B) (int d) st = ?st"
    using nz Cons.prems(2,3,6) by (auto simp: scan_mantissa_digit_def Let_def)
  then have run: "scan_loop flags (int B) (map DUK__DIGITCHAR (d # ds)) st = scan_loop flags (int B) (map DUK__DIGITCHAR ds) ?st"
    using ch d ex Cons.prems(2) by (auto simp: Let_def)
  have "bval ?f \<noteq> 0" using f(1) nz B Cons.prems(4) by (auto simp: is_zero_val)
  then obtain g where "scan_loop flags (int B) (map DUK__DIGITCHAR ds) ?st =
      ScanDone (?st\<lparr>sc_f := g, sc_dig_prec := sc_dig_prec ?st + int (length ds), sc_dig_whole := sc_dig_whole ?st + int (length ds)\<rparr>)"
      "normal g" "bval g = bval ?f * B ^ length ds + dval B ds"
    using Cons.IH [of ?st] Cons.prems f(2) by auto
  then show ?case using run f(1) by (intro exI [of _ g]) (simp add: algebra_simps)
qed

lemma digit_limit_enough: "2 \<le> B \<Longrightarrow> B \<le> 36 \<Longrightarrow> 2 ^ 32 \<le> B ^ nat (digit_limit (int B))"
proof -
  have all: "\<forall>B \<in> set [2..<37]. 2 ^ 32 \<le> B ^ nat (digit_limit (int B))"
    by (simp add: upt_rec digit_limit_def duk__str2num_digits_for_radix_def)
  assume "2 \<le> B" "B \<le> 36"
  then have "B \<in> set [2..<37]" by (simp only: set_upt atLeastLessThan_iff) simp
  from bspec [OF all this] show ?thesis .
qed

lemma dval_leading: "ds \<noteq> [] \<Longrightarrow> hd ds \<noteq> 0 \<Longrightarrow> B ^ (length ds - 1) \<le> dval B ds"
  by (cases ds) (simp_all add: trans_le_add1)

lemma bval_small: "normal f \<Longrightarrow> bval f = unat (v :: u32) \<Longrightarrow> v \<noteq> 0 \<Longrightarrow> f = [v]"
  by (rule bval_inj) (simp_all add: normal_def)

lemma parse_uint32:
  assumes B: "2 \<le> B" "B \<le> 36" and ex: "flag_on flags DUK_S2N_FLAG_ALLOW_EXP \<longrightarrow> B \<le> 14"
    and ds: "\<forall>d \<in> set ds. d < B" "ds \<noteq> []" "hd ds = 0 \<longrightarrow> ds = [0]" "dval B ds = unat (v :: u32)"
  shows "parse_number u flags (int B) neg (map DUK__DIGITCHAR ds) = Some (Parsed (signed_uint32 neg v))"
proof (cases "hd ds = 0")
  case True
  then have "ds = [0]" "v = 0" using ds by (auto simp: unat_eq_0)
  moreover have "DUK__DIGITCHAR 0 = CHR ''0''" by (simp add: DUK__DIGITCHAR_def duk_lc_digits_def)
  moreover have "0 < digit_limit (int B)"
  proof (rule ccontr)
    assume "\<not> ?thesis"
    then have "nat (digit_limit (int B)) = 0" by simp
    from digit_limit_enough [OF B, unfolded this] show False by simp
  qed
  ultimately show ?thesis using B
    by (simp add: parse_number_def scan_start_def scan_mantissa_digit_def scan_digit_def scan_valid_def parse_finish_def
        duk__bi_set_small_def duk__bi_is_zero_def signed_uint32_def double_of_uint32_def Let_def)
next
  case False
  have "B ^ (length ds - 1) < 2 ^ 32"
    using dval_leading [OF ds(2) False, of B] ds(4) u32_bound [of v] by linarith
  then have "B ^ (length ds - 1) < B ^ nat (digit_limit (int B))" using digit_limit_enough [OF B] by linarith
  then have "length ds - 1 < nat (digit_limit (int B))" using B(1) by (simp add: power_strict_increasing_iff)
  then have len: "int (length ds) \<le> digit_limit (int B)" by linarith
  have v: "v \<noteq> 0" using dval_leading [OF ds(2) False, of B] ds(4) B by auto
  have st: "sc_dig_expt scan_start < 0" "sc_dig_frac scan_start < 0" "normal (sc_f scan_start)" "bval (sc_f scan_start) = 0"
      "sc_dig_prec scan_start = 0"
    by (simp_all add: scan_start_def)
  obtain f where f: "scan_loop flags (int B) (map DUK__DIGITCHAR ds) scan_start =
      ScanDone (scan_start\<lparr>sc_f := f, sc_dig_prec := int (length ds), sc_dig_whole := sc_dig_whole scan_start + int (length ds)\<rparr>)"
      "normal f" "bval f = unat v"
    using scan_digits [OF B ex ds(1) st(1-3)] False len ds(4) by (auto simp: st(4,5))
  then have "f = [v]" using v by (intro bval_small)
  then show ?thesis using f(1) ds(2)
    by (simp add: parse_number_def scan_valid_def parse_finish_def scan_start_def signed_uint32_def Let_def)
qed

section \<open>Termination\<close>

lemma mantissa_digit_normal: "normal (sc_f st) \<Longrightarrow> normal (sc_f (scan_mantissa_digit radix dig st))"
  by (simp add: scan_mantissa_digit_def duk__bi_add_small_def add_normal Let_def)

lemma scan_loop_normal: "normal (sc_f st) \<Longrightarrow> scan_loop flags radix p st = ScanDone st' \<Longrightarrow> normal (sc_f st')"
proof (induction "length p" arbitrary: p st rule: less_induct)
  case less
  show ?case
  proof (cases p)
    case (Cons ch q)
    note E = trans [OF scan_loop.simps(2) [symmetric] less.prems(2) [unfolded Cons]]
    have IH: "normal (sc_f st')" if "scan_loop flags radix q' st2 = ScanDone st'" "length q' \<le> length q" "sc_f st2 = sc_f st \<or> normal (sc_f st2)"
      for q' st2
      using less.hyps [of q' st2] that less.prems(1) Cons by auto
    let ?exp = "flag_on flags DUK_S2N_FLAG_ALLOW_EXP \<and> sc_dig_expt st < 0 \<and> (ch = CHR ''e'' \<or> ch = CHR ''E'')"
    consider "ch = CHR ''.''" | "ch \<noteq> CHR ''.''" "of_char ch = (0 :: nat)" | "ch \<noteq> CHR ''.''" "of_char ch \<noteq> (0 :: nat)" ?exp
      | "ch \<noteq> CHR ''.''" "of_char ch \<noteq> (0 :: nat)" "\<not> ?exp" by blast
    then show ?thesis
    proof cases
      case 1
      have "st' = st \<or> scan_loop flags radix q (st\<lparr>sc_dig_frac := 0\<rparr>) = ScanDone st'"
        using E 1 by (simp only: simp_thms if_True split: if_splits) simp_all
      then show ?thesis using IH [of q "st\<lparr>sc_dig_frac := 0\<rparr>"] less.prems(1) by auto
    next
      case 2
      then show ?thesis using less.prems by (simp add: Cons)
    next
      case 3
      let ?t = "st\<lparr>sc_dig_expt := 0\<rparr>" and ?n = "st\<lparr>sc_expt_neg := True, sc_dig_expt := 0\<rparr>"
      have e: "(case q of [] \<Rightarrow> scan_loop flags radix q ?t
         | ch' # p' \<Rightarrow> if ch' = CHR ''-'' then scan_loop flags radix p' ?n
             else if ch' = CHR ''+'' then scan_loop flags radix p' ?t else scan_loop flags radix q ?t) = ScanDone st'"
        using E 3 by (simp only: simp_thms if_True if_False)
      show ?thesis
      proof (cases q)
        case Nil
        then show ?thesis using e IH [of q ?t] by (simp del: scan_loop.simps)
      next
        case (Cons c r)
        then show ?thesis using e IH [of r ?n] IH [of r ?t] IH [of q ?t]
          by (cases "c = CHR ''-''"; cases "c = CHR ''+''") (simp_all del: scan_loop.simps)
      qed
    next
      case 4
      let ?d = "scan_digit ch"
      let ?x = "st\<lparr>sc_expt := sc_expt st * radix + ?d, sc_dig_expt := sc_dig_expt st + 1\<rparr>"
      have "(if radix \<le> ?d then if flag_on flags DUK_S2N_FLAG_ALLOW_GARBAGE then ScanDone st else ScanFail
         else if sc_dig_expt st < 0 then scan_loop flags radix q (scan_mantissa_digit radix ?d st)
         else if DUK_S2N_MAX_EXPONENT < sc_expt st * radix + ?d then ScanLimit else scan_loop flags radix q ?x) = ScanDone st'"
        using E 4 by (simp only: simp_thms if_False Let_def)
      then have "st' = st \<or> scan_loop flags radix q (scan_mantissa_digit radix ?d st) = ScanDone st' \<or> scan_loop flags radix q ?x = ScanDone st'"
        by (simp split: if_splits)
      then show ?thesis
        using IH [of q ?x] IH [of q "scan_mantissa_digit radix ?d st"] mantissa_digit_normal [OF less.prems(1)] less.prems(1) by auto
    qed
  qed (use less.prems in simp)
qed

lemma pad_normal: "normal f \<Longrightarrow> normal (pad_significand n radix f)"
  by (induction n arbitrary: f) simp_all

lemma parse_ctx_base: "2 \<le> radix \<Longrightarrow> radix \<le> 36 \<Longrightarrow> ctx_base (parse_ctx u radix f expt) \<and> unat (nc_b (parse_ctx u radix f expt)) = nat radix"
  by (auto simp: ctx_base_def parse_ctx_def unat_eq_nat_uint uint_word_of_int)

lemma parse_slow_total: "2 \<le> radix \<Longrightarrow> radix \<le> 36 \<Longrightarrow> normal f \<Longrightarrow> \<exists>x. parse_slow u radix f expt = Some x"
  using fixed_format_run [of "parse_ctx u radix f expt" 2] parse_ctx_base [of radix u f expt]
  by (auto simp: parse_slow_def parse_ctx_def)

lemma parse_finish_total: "2 \<le> radix \<Longrightarrow> radix \<le> 36 \<Longrightarrow> normal (sc_f st) \<Longrightarrow> \<exists>x. parse_finish u radix st = Some x"
  unfolding parse_finish_def Let_def using parse_slow_total pad_normal by (metis option.distinct(1))

lemma parse_number_total: "2 \<le> radix \<Longrightarrow> radix \<le> 36 \<Longrightarrow> \<exists>r. parse_number u flags radix neg p = Some r"
  using parse_finish_total [of radix _ u] scan_loop_normal [of scan_start flags radix p]
  by (fastforce simp: parse_number_def scan_start_def split: scan_result.splits)

section \<open>The double of binary digits\<close>

text \<open>The mantissa digits \<open>i\<close> up to \<open>i + n\<close>, most significant first.\<close>

definition mantissa_digits :: "nc_ctx \<Rightarrow> int \<Rightarrow> nat \<Rightarrow> nat \<Rightarrow> nat list" where
  "mantissa_digits c bitstart i n = map (\<lambda>j. unat (mantissa_digit c bitstart j)) (rev [i..<i + n])"

lemma mantissa_digits_Suc:
  "mantissa_digits c b i (Suc n) = mantissa_digits c b (Suc i) n @ [unat (mantissa_digit c b i)]"
  by (simp add: mantissa_digits_def upt_rec [of i] del: upt_Suc)

lemma mantissa_digits_split: "mantissa_digits c b i (m + n) = mantissa_digits c b (i + m) n @ mantissa_digits c b i m"
  using upt_add_eq_append [of i "i + m" n] by (simp add: mantissa_digits_def add.assoc)

lemma mantissa_loop_val:
  assumes "\<forall>j. unat (mantissa_digit c b j) < 2"
  shows "i mod 32 + n \<le> 32 \<Longrightarrow> unat t < 2 ^ (i mod 32) \<Longrightarrow>
    unat (mantissa_loop c b i n t) = unat t + 2 ^ (i mod 32) * dval 2 (mantissa_digits c b i n)"
proof (induction n arbitrary: i t)
  case 0
  then show ?case by (simp add: mantissa_digits_def)
next
  case (Suc n)
  let ?d = "mantissa_digit c b i" and ?k = "i mod 32"
  have d: "unat ?d < 2" using assms by blast
  have k: "?k < 32" by simp
  have sh: "unat (push_bit ?k ?d) = 2 ^ ?k * unat ?d"
  proof -
    have "2 ^ ?k * unat ?d < 2 ^ Suc ?k" using d by (simp add: mult.commute)
    also have "\<dots> \<le> 2 ^ 32" using k by (intro power_increasing) simp_all
    finally have "2 ^ ?k * unat ?d < 2 ^ LENGTH(32)" by simp
    moreover have "push_bit ?k ?d = of_nat (2 ^ ?k * unat ?d)" by (simp add: push_bit_eq_mult mult.commute)
    ultimately show ?thesis by (simp only: unat_of_nat mod_less)
  qed
  have "2 ^ ?k * unat ?d \<le> 2 ^ ?k" using d by (cases "unat ?d") simp_all
  then have sum: "unat t + unat (push_bit ?k ?d) < 2 ^ Suc ?k" unfolding sh power_Suc using Suc.prems(2) by linarith
  also have "\<dots> \<le> 2 ^ 32" using k by (intro power_increasing) simp_all
  finally have t: "unat (t + push_bit ?k ?d) = unat t + 2 ^ ?k * unat ?d" unfolding sh by (simp add: unat_word_ariths sh)
  show ?case
  proof (cases n)
    case 0
    then show ?thesis using t by (simp add: mantissa_digits_def)
  next
    case (Suc m)
    then have k': "Suc i mod 32 = Suc ?k" using Suc.prems(1) by (simp add: mod_Suc)
    have "unat (mantissa_loop c b (Suc i) n (t + push_bit ?k ?d)) =
        unat (t + push_bit ?k ?d) + 2 ^ Suc ?k * dval 2 (mantissa_digits c b (Suc i) n)"
      using Suc.IH [of "Suc i" "t + push_bit ?k ?d"] Suc.prems(1) sum unfolding k' t sh by simp
    then show ?thesis unfolding mantissa_digits_Suc by (simp add: t dval_append algebra_simps)
  qed
qed

lemma mantissa_words:
  assumes "\<forall>j. unat (mantissa_digit c b j) < 2"
  shows "mantissa_loop c b 0 32 0 = of_nat (dval 2 (mantissa_digits c b 0 52) mod 2 ^ 32)"
    and "mantissa_loop c b 32 20 0 = of_nat (dval 2 (mantissa_digits c b 0 52) div 2 ^ 32)"
proof -
  have word_id: "of_nat (unat w) = w" for w :: u32 by simp
  have len: "length (mantissa_digits c b i n) = n" for i n by (simp add: mantissa_digits_def)
  have "\<forall>d \<in> set (mantissa_digits c b 0 32). d < 2" using assms by (auto simp: mantissa_digits_def)
  then have lt: "dval 2 (mantissa_digits c b 0 32) < 2 ^ 32" using dval_bound len by metis
  have m: "dval 2 (mantissa_digits c b 0 52) = dval 2 (mantissa_digits c b 32 20) * 2 ^ 32 + dval 2 (mantissa_digits c b 0 32)"
    using mantissa_digits_split [of c b 0 32 20] by (simp add: dval_append len)
  have "unat (mantissa_loop c b 0 32 0) = dval 2 (mantissa_digits c b 0 32)"
    using mantissa_loop_val [OF assms, of 0 32 0] by simp
  then show "mantissa_loop c b 0 32 0 = of_nat (dval 2 (mantissa_digits c b 0 52) mod 2 ^ 32)"
    unfolding m using lt word_id by (simp only: mod_mult_self3 mod_less) metis
  have "unat (mantissa_loop c b 32 20 0) = dval 2 (mantissa_digits c b 32 20)"
    using mantissa_loop_val [OF assms, of 32 20 0] by simp
  moreover have "dval 2 (mantissa_digits c b 0 52) div 2 ^ 32 = dval 2 (mantissa_digits c b 32 20)" unfolding m using lt by simp
  ultimately show "mantissa_loop c b 32 20 0 = of_nat (dval 2 (mantissa_digits c b 0 52) div 2 ^ 32)"
    using word_id by metis
qed

lemma mantissa_digits_normal:
  assumes "nc_count c = int (length (nc_digits c))" and "53 \<le> length (nc_digits c)" and "\<forall>d \<in> set (nc_digits c). d < 2"
  shows "mantissa_digits c 1 0 52 = take 52 (drop 1 (nc_digits c))" and "\<forall>j. unat (mantissa_digit c b j) < 2"
proof -
  have d: "nc_digits c ! i < 2" if "i < length (nc_digits c)" for i using assms(3) that by simp
  have w: "unat (of_nat (nc_digits c ! i) :: u32) = nc_digits c ! i" if "i < length (nc_digits c)" for i
    using d [OF that] by (simp add: unat_of_nat)
  show "mantissa_digits c 1 0 52 = take 52 (drop 1 (nc_digits c))"
  proof (rule nth_equalityI)
    fix i assume "i < length (mantissa_digits c 1 0 52)"
    then have i: "i < 52" by (simp add: mantissa_digits_def)
    have "mantissa_digits c 1 0 52 ! i = unat (mantissa_digit c 1 (51 - i))"
      using i by (simp add: mantissa_digits_def rev_nth)
    also have "\<dots> = nc_digits c ! (Suc i)"
      using i assms(1,2) w [of "Suc i"] by (simp add: mantissa_digit_def Let_def nat_add_distrib of_nat_diff)
    finally show "mantissa_digits c 1 0 52 ! i = take 52 (drop 1 (nc_digits c)) ! i" using i assms(2) by simp
  qed (use assms(2) in \<open>simp add: mantissa_digits_def\<close>)
  show "\<forall>j. unat (mantissa_digit c b j) < 2"
    using w d assms(1) by (simp add: mantissa_digit_def Let_def nat_less_iff)
qed

lemma round_carry_overflow: "round_carry ds i B = (ds', True) \<Longrightarrow> hd ds' = 1"
  by (induction ds i B rule: round_carry.induct) (auto simp: Let_def split: if_splits)

lemma fixed_round_overflow: "duk__dragon4_fixed_format_round c i = (c', True) \<Longrightarrow> hd (nc_digits c') = 1"
  by (auto simp: duk__dragon4_fixed_format_round_def Let_def split: if_splits prod.splits bool.splits dest: round_carry_overflow)

text \<open>In the normal range, the kept digits \<open>n\<close> are the mantissa with its leading bit.\<close>

lemma ctx_to_double_normal:
  assumes c: "unat (nc_B c) = 2" "nc_count c = int (length (nc_digits c))" "length (nc_digits c) = 54" "\<forall>d \<in> set (nc_digits c). d < 2"
    and k: "- 1021 \<le> nc_k c" "nc_k c \<le> 1023" and rd: "duk__dragon4_fixed_format_round c 53 = (c', ov)"
    and n: "n = dval 2 (take (53 + (if ov then 1 else 0)) (nc_digits c'))" "2 ^ 52 \<le> n"
  shows "fp_classify (duk__dragon4_ctx_to_double c) = DUK_FP_FINITE"
    and "double_value (duk__dragon4_ctx_to_double c) = n * 2 powi (nc_k c - 53)"
proof -
  let ?D = "nc_digits c'" and ?o = "if ov then 1 else 0 :: nat" and ?E = "nat (nc_k c + 1022 + (if ov then 1 else 0))"
  have r: "n = dval 2 (take 53 (nc_digits c)) + (if 2 \<le> 2 * nc_digits c ! 53 then 1 else 0)"
      "nc_k c' = nc_k c + (if ov then 1 else 0)" "nc_count c' = int (length ?D)" "length ?D = 54 + ?o" "\<forall>d \<in> set ?D. d < 2"
    using fixed_format_round_spec [of 2 c 53 c' ov] c rd n(1) by simp_all
  obtain d D where D: "?D = d # D" using r(4) by (cases ?D) auto
  have M: "mantissa_digits c' 1 0 52 = take 52 D" "\<forall>j. unat (mantissa_digit c' 1 j) < 2"
    using mantissa_digits_normal [OF r(3) _ r(5)] r(4) D by auto
  let ?M = "dval 2 (take 52 D)"
  have lD: "length D = 53 + ?o" "\<forall>x \<in> set D. x < 2" "d < 2" using r(4,5) D by auto
  have bnd: "dval 2 (take j D) < 2 ^ min (length D) j" for j
    using dval_bound [of "take j D" 2] lD(2) by (auto dest: in_set_takeD)
  have nd: "n = d * 2 ^ (52 + ?o) + dval 2 (take (52 + ?o) D)"
    using n(1) D lD(1) by (simp add: min_def)
  have val: "real n = (2 ^ 52 + ?M) * 2 ^ ?o"
  proof (cases ov)
    case True
    then have "d = 1" using fixed_round_overflow [of c 53 c'] rd D by simp
    moreover have "dval 2 (take 53 (nc_digits c)) < 2 ^ 53"
      using dval_bound [of "take 53 (nc_digits c)" 2] c(3,4) by (auto dest: in_set_takeD)
    ultimately have z: "dval 2 (take 53 D) = 0" "n = 2 ^ 53" using nd r(1) True by (simp_all split: if_splits)
    have "dval 2 (take 53 D) = ?M * 2 + D ! 52" using dval_take_Suc [of 52 D 2] lD(1) by simp
    then show ?thesis using z True by simp
  next
    case False
    have "d \<noteq> 0"
    proof
      assume "d = 0"
      then show False using n(2) nd bnd [of 52] False lD(1) by simp
    qed
    then have "d = 1" using lD(3) by simp
    then show ?thesis using nd False by simp
  qed
  have E: "?E < 2 ^ 11" "0 < ?E" "?E \<noteq> 2047" using k by auto
  have m: "?M < 2 ^ 52" using bnd [of 52] lD(1) by simp
  have fields: "ieee_fields (nc_k c) = (nc_k c + 1022, 1)" "ov \<Longrightarrow> ieee_fields (nc_k c') = (nc_k c + 1023, 1)"
    using k r(2) by (simp_all add: ieee_fields_def Let_def DUK__IEEE_DOUBLE_EXP_BIAS_def)
  have "word_of_int (int ?E) = (word_of_nat ?E :: u32)" by simp
  moreover have "int ?E = nc_k c + 1022 + (if ov then 1 else 0)" using k by simp
  ultimately have x: "duk__dragon4_ctx_to_double c = (push_bit 20 (of_nat ?E) + of_nat (?M div 2 ^ 32), of_nat (?M mod 2 ^ 32))"
    using rd fields mantissa_words [OF M(2)] M(1)
    by (cases ov) (simp_all add: duk__dragon4_ctx_to_double_def Let_def add.commute)
  note p = packed_double [OF E(1) m, folded x]
  have ex: "double_exponent (duk__dragon4_ctx_to_double c) \<noteq> 0" "double_exponent (duk__dragon4_ctx_to_double c) \<noteq> 0x7ff"
    using p(1) E by auto
  then show "fp_classify (duk__dragon4_ctx_to_double c) = DUK_FP_FINITE" by (simp add: fp_classify_def)
  have "uint (double_exponent (duk__dragon4_ctx_to_double c)) = int ?E" using p(1) by (metis uint_nat)
  then have "double_value (duk__dragon4_ctx_to_double c) = real (2 ^ 52 + ?M) * 2 powi (int ?E - 1075)"
    using E(2) p(2) by (simp add: double_value_def Let_def)
  also have "\<dots> = n * 2 powi (nc_k c - 53)"
    using k val by (cases ov) (simp_all add: power_int_add power_int_diff algebra_simps)
  finally show "double_value (duk__dragon4_ctx_to_double c) = n * 2 powi (nc_k c - 53)" .
qed

lemma position_unique:
  assumes "2 powi (k - 1) \<le> (v :: real)" and "v + hi < 2 powi k" and "0 < hi" and "v + hi \<le> 2 powi k'" and "2 powi k' \<le> (v + hi) * 2"
  shows "k' = k"
proof (rule antisym)
  have "(v + hi) * 2 < 2 * 2 powi k" using assms(2) by simp
  with assms(5) have "2 powi k' < 2 * (2 :: real) powi k" by (rule le_less_trans)
  then have "(2 :: real) powi k' < 2 powi (k + 1)" by (simp add: power_int_add)
  then show "k' \<le> k" using power_int_increasing [of "k + 1" k' "2 :: real"] by linarith
  have "v < 2 powi k'" using assms(3,4) by simp
  with assms(1) have "2 powi (k - 1) < (2 :: real) powi k'" by (rule le_less_trans)
  then show "k \<le> k'" using power_int_increasing [of k' "k - 1" "2 :: real"] by linarith
qed

lemma parse_slow_rounded:
  fixes radix :: int and f :: bigint
  defines "v \<equiv> \<lambda>expt. real (bval f) * real_of_int radix powi expt"
  assumes radix: "2 \<le> radix" "radix \<le> 36" and f: "normal f" "f \<noteq> []"
    and lim: "snd (duk__str2num_exp_limits ! nat (radix - 2)) \<le> expt" "expt \<le> fst (duk__str2num_exp_limits ! nat (radix - 2))"
    and k: "- 1021 \<le> k" "k \<le> 1023" and lo: "2 powi (k - 1) \<le> v expt" and hi: "v expt + real_of_int radix powi expt / 2 < 2 powi k"
  shows "\<exists>x. parse_slow u radix f expt = Some x \<and> fp_classify x = DUK_FP_FINITE \<and>
    double_value x = of_int \<lfloor>v expt * 2 powi (53 - k) + 1 / 2\<rfloor> * 2 powi (k - 53)"
proof -
  let ?c = "parse_ctx u radix f expt"
  have base: "ctx_base ?c" and "unat (nc_b ?c) = nat radix" using parse_ctx_base [OF radix] by simp_all
  then have b: "real (unat (nc_b ?c)) = real_of_int radix" using radix(1) by simp
  have v: "ctx_value ?c = v expt" "high_gap ?c = real_of_int radix powi expt / 2"
    unfolding ctx_value_def high_gap_def b by (simp_all add: v_def parse_ctx_def)
  have pre: "normal (nc_f ?c)" "2 \<le> (2 :: nat)" "unat (nc_B ?c) = 2" "nc_is_fixed ?c" using f by (simp_all add: parse_ctx_def)
  have ab: "\<not> nc_abs_pos ?c" "nc_req_digits ?c = 54" by (simp_all add: parse_ctx_def)
  obtain c' where c': "dragon4_run ?c = Some c'" "nc_B c' = nc_B ?c" "nc_count c' = int (length (nc_digits c'))"
      "int (length (nc_digits c')) = 54" "\<forall>d \<in> set (nc_digits c'). d < 2"
      "v expt + high_gap ?c \<le> 2 powi nc_k c'" "2 powi nc_k c' \<le> (v expt + high_gap ?c) * 2"
    using fixed_format_run [OF base pre] ab unfolding v(1) by auto
  have "nc_k c' = k" by (rule position_unique [OF lo _ _ c'(6,7)]) (use hi gaps_pos [OF base] in \<open>simp_all add: v(2)\<close>)
  obtain c'' ov where rd: "duk__dragon4_fixed_format_round c' (int 53) = (c'', ov)" by fastforce
  let ?n = "dval 2 (take (53 + (if ov then 1 else 0)) (nc_digits c''))"
  have i: "int 53 = (if nc_abs_pos ?c then nc_k c' - nc_req_digits ?c else nc_req_digits ?c - 1)" using ab by simp
  have fl: "\<lfloor>v expt * 2 powi (53 - k) + 1 / 2\<rfloor> = int ?n"
    using fixed_format_rounded [OF base pre _ c'(1) i rd] \<open>nc_k c' = k\<close> unfolding v(1) by simp
  have "2 powi (k - 1) * 2 powi (53 - k) \<le> v expt * 2 powi (53 - k)" using lo by (rule mult_right_mono) simp
  moreover have "(2 :: real) powi (k - 1) * 2 powi (53 - k) = 2 ^ 52" by (simp flip: power_int_add)
  ultimately have "2 ^ 52 \<le> \<lfloor>v expt * 2 powi (53 - k) + 1 / 2\<rfloor>" by (simp add: le_floor_iff)
  then have n: "2 ^ 52 \<le> ?n" unfolding fl by simp
  have l: "unat (nc_B c') = 2" "length (nc_digits c') = 54" "- 1021 \<le> nc_k c'" "nc_k c' \<le> 1023" "duk__dragon4_fixed_format_round c' 53 = (c'', ov)"
    using c'(2,4) pre(3) k rd \<open>nc_k c' = k\<close> by simp_all
  have "parse_slow u radix f expt = Some (duk__dragon4_ctx_to_double c')"
    using c'(1) lim f(2) by (simp add: parse_slow_def)
  then show ?thesis
    using ctx_to_double_normal [OF l(1) c'(3) l(2) c'(5) l(3,4,5) refl n] \<open>nc_k c' = k\<close> unfolding fl by simp
qed

section \<open>The fraction flag\<close>

lemma flag_or: "flag_on (flags OR m) n \<longleftrightarrow> flag_on flags n \<or> flag_on m n"
  by (simp add: flag_on_def bit.conj_disj_distrib2 or_eq_0_iff)

lemma frac_flag_only:
  "\<not> flag_on DUK_S2N_FLAG_ALLOW_FRAC DUK_S2N_FLAG_ALLOW_GARBAGE" "\<not> flag_on DUK_S2N_FLAG_ALLOW_FRAC DUK_S2N_FLAG_ALLOW_EXP"
  "\<not> flag_on DUK_S2N_FLAG_ALLOW_FRAC DUK_S2N_FLAG_ALLOW_LEADING_ZERO" "\<not> flag_on DUK_S2N_FLAG_ALLOW_FRAC DUK_S2N_FLAG_ALLOW_NAKED_FRAC"
  "\<not> flag_on DUK_S2N_FLAG_ALLOW_FRAC DUK_S2N_FLAG_ALLOW_EMPTY_AS_ZERO" "\<not> flag_on DUK_S2N_FLAG_ALLOW_FRAC DUK_S2N_FLAG_ALLOW_EMPTY_FRAC"
  by (simp_all add: flag_on_def DUK_S2N_FLAG_ALLOW_FRAC_def DUK_S2N_FLAG_ALLOW_GARBAGE_def DUK_S2N_FLAG_ALLOW_EXP_def
      DUK_S2N_FLAG_ALLOW_LEADING_ZERO_def DUK_S2N_FLAG_ALLOW_NAKED_FRAC_def DUK_S2N_FLAG_ALLOW_EMPTY_AS_ZERO_def
      DUK_S2N_FLAG_ALLOW_EMPTY_FRAC_def push_bit_eq_mult)

lemma scan_valid_fraction: "scan_valid (flags OR DUK_S2N_FLAG_ALLOW_FRAC) st = scan_valid flags st"
  by (simp add: scan_valid_def flag_or frac_flag_only)

lemma scan_loop_fraction:
  assumes "\<not> flag_on flags DUK_S2N_FLAG_ALLOW_GARBAGE"
  shows "scan_loop (flags OR DUK_S2N_FLAG_ALLOW_FRAC) radix p st = scan_loop flags radix p st"
proof (induction "length p" arbitrary: p st rule: less_induct)
  case less
  show ?case
  proof (cases p)
    case (Cons ch q)
    have IH: "scan_loop (flags OR DUK_S2N_FLAG_ALLOW_FRAC) radix q' st2 = scan_loop flags radix q' st2" if "length q' \<le> length q" for q' st2
      using less.hyps [of q' st2] that Cons by simp
    note IHq = IH [OF order_refl]
    show ?thesis
    proof (cases q)
      case Nil
      show ?thesis unfolding Cons
        by (subst (1 2) scan_loop.simps(2)) (simp only: Nil list.case flag_or frac_flag_only assms simp_thms IHq [unfolded Nil] if_False)
    next
      case (Cons c r)
      have "length r \<le> length q" using Cons by simp
      note IHr = IH [OF this]
      show ?thesis unfolding \<open>p = ch # q\<close>
        by (subst (1 2) scan_loop.simps(2)) (simp only: Cons list.case flag_or frac_flag_only assms simp_thms IHq [unfolded Cons] IHr if_False)
    qed
  qed simp
qed

section \<open>Properties\<close>

text \<open>
  C21. Round trip: a 32-bit integer of either sign printed in any radix and parsed back in that
  radix gives the same double, whatever other parts the parser allows, as long as the exponent
  marker is no digit of the radix.
\<close>

theorem numconv_uint32_roundtrip:
  assumes "2 \<le> unat radix" and "unat radix \<le> 36" and "neg \<longrightarrow> v \<noteq> 0 \<and> flag_on flags DUK_S2N_FLAG_ALLOW_MINUS"
    and "flag_on flags DUK_S2N_FLAG_ALLOW_EXP \<longrightarrow> unat radix \<le> 14"
  shows "\<exists>str. duk_numconv_stringify u (signed_uint32 neg v) radix digits 0 = Some str \<and>
    duk_numconv_parse u' (int (unat radix)) flags str = Some (Parsed (signed_uint32 neg v))"
proof -
  let ?B = "unat radix"
  obtain ds where ds: "duk__dragon4_format_uint32 v radix = map DUK__DIGITCHAR ds" "ds \<noteq> []" "\<forall>d \<in> set ds. d < ?B"
      "dval ?B ds = unat v" "hd ds = 0 \<longrightarrow> ds = [0]"
    using format_uint32_loop_spec [OF assms(1,2), of v "[]"] by (auto simp: duk__dragon4_format_uint32_def)
  let ?s = "map DUK__DIGITCHAR ds"
  obtain d ds' where d: "ds = d # ds'" "d < 36" using ds(2,3) assms(2) by (cases ds) auto
  note ch = scan_digit_DIGITCHAR [OF d(2)]
  have "take 8 ?s \<noteq> ''Infinity''" using ch d(1) by auto
  moreover have "detect_radix flags ?s = 0"
    using ch d(1) ds(5) by (auto simp: detect_radix_def split: list.splits)
  ultimately have p: "parse_unsigned u' flags (int ?B) neg ?s = Some (Parsed (signed_uint32 neg v))"
    using parse_uint32 [OF assms(1,2,4) ds(3,2,5,4), of u' neg] by (simp add: parse_unsigned_def Let_def)
  have s: "duk_numconv_stringify u (signed_uint32 neg v) radix digits 0 = Some ((if neg then ''-'' else '''') @ ?s)"
    using ds(1) assms(3)
    by (auto simp: duk_numconv_stringify_def fp_classify_uint32 signed_uint32_parts double_uint32_of_uint32 Let_def)
  have "duk_numconv_parse u' (int ?B) flags ((if neg then ''-'' else '''') @ ?s) = Some (Parsed (signed_uint32 neg v))"
    using p ch d(1) assms(3) by (auto simp: duk_numconv_parse_def)
  then show ?thesis using s by blast
qed

theorem numconv_uint32_roundtrip_witness:
  "\<exists>u str. duk_numconv_stringify u (signed_uint32 True 4095) 16 0 0 = Some str \<and>
    duk_numconv_parse u 16 DUK_S2N_FLAG_ALLOW_MINUS str = Some (Parsed (signed_uint32 True 4095))"
  using numconv_uint32_roundtrip [of 16 True 4095 DUK_S2N_FLAG_ALLOW_MINUS _ 0]
  by (simp add: flag_on_def DUK_S2N_FLAG_ALLOW_MINUS_def DUK_S2N_FLAG_ALLOW_EXP_def push_bit_eq_mult)





text \<open>
  Unless trailing garbage is accepted, the flag that allows a fraction has no effect: a parse
  without it accepts the same strings with the same result (the check that should reject the
  string only prints a message).
\<close>

theorem numconv_fraction_flag_ignored:
  assumes "\<not> flag_on flags DUK_S2N_FLAG_ALLOW_GARBAGE"
  shows "parse_number u (flags OR DUK_S2N_FLAG_ALLOW_FRAC) radix neg p = parse_number u flags radix neg p"
  using scan_loop_fraction [OF assms] scan_valid_fraction by (simp add: parse_number_def cong: scan_result.case_cong)

theorem numconv_fraction_flag_ignored_witness:
  "\<exists>u. parse_number u DUK_S2N_FLAG_ALLOW_FRAC 16 False ''1.8'' = parse_number u 0 16 False ''1.8''"
  using numconv_fraction_flag_ignored [of 0 _ 16 False "''1.8''"] by (simp add: flag_on_def)

end
