(* ===== verification/LList.thy ===== *)
theory LList
  imports Prelude
begin

text \<open>
  The linked list \<open>llist\<close> of \<open>src/Libs/LibApi/Api/utils/llist.hpp\<close>, in which the kernel keeps the
  registered servers: nodes with a next and a previous pointer, the first and the last node, the
  number of nodes and the node of the last access by position. A node that is made gets its address
  as an argument; deleted nodes are no longer objects, so that a pointer to one of them is an error.
\<close>

section \<open>Data\<close>

record 'v lnode =
  ln_value :: 'v
  ln_next :: u32
  ln_prev :: u32

record 'v llist =
  ll_nodes :: "u32 \<rightharpoonup> 'v lnode"
  ll_size :: u32
  ll_firstNode :: u32
  ll_lastNode :: u32
  ll_currentNode :: u32
  ll_lastIndex :: u32

definition Node_new :: "'v \<Rightarrow> 'v lnode" where
  "Node_new v = \<lparr>ln_value = v, ln_next = 0, ln_prev = 0\<rparr>"

definition llist_new :: "'v llist" where
  "llist_new = \<lparr>ll_nodes = Map.empty, ll_size = 0, ll_firstNode = 0, ll_lastNode = 0, ll_currentNode = 0, ll_lastIndex = 0\<rparr>"

section \<open>Operations\<close>

definition llist_add :: "'v llist \<Rightarrow> u32 \<Rightarrow> 'v \<Rightarrow> 'v llist kres" where
  "llist_add l p v =
     (if ll_firstNode l = 0
      then Inr (l\<lparr>ll_nodes := (ll_nodes l)(p \<mapsto> Node_new v), ll_firstNode := p, ll_lastNode := p, ll_size := ll_size l + 1\<rparr>)
      else kbind (at (ll_nodes l) (ll_lastNode l)) (\<lambda>n.
             if ln_next n = 0
             then Inr (l\<lparr>ll_nodes := (ll_nodes l)(ll_lastNode l \<mapsto> n\<lparr>ln_next := p\<rparr>, p \<mapsto> (Node_new v)\<lparr>ln_prev := ll_lastNode l\<rparr>),
                          ll_lastNode := p, ll_size := ll_size l + 1\<rparr>)
             else Inr l))"

definition llist_addFront :: "'v llist \<Rightarrow> u32 \<Rightarrow> 'v \<Rightarrow> 'v llist kres" where
  "llist_addFront l p v =
     kbind (if ll_firstNode l = 0
            then Inr (l\<lparr>ll_nodes := (ll_nodes l)(p \<mapsto> Node_new v), ll_firstNode := p, ll_lastNode := p\<rparr>)
            else let nodes = (ll_nodes l)(p \<mapsto> (Node_new v)\<lparr>ln_next := ll_firstNode l, ln_prev := ll_lastNode l\<rparr>) in
                 kbind (at_upd nodes (ll_firstNode l) (\<lambda>n. n\<lparr>ln_prev := p\<rparr>)) (\<lambda>nodes.
                 kbind (at_upd nodes (ll_lastNode l) (\<lambda>n. n\<lparr>ln_next := p\<rparr>)) (\<lambda>nodes.
                   Inr (l\<lparr>ll_nodes := nodes, ll_firstNode := p\<rparr>))))
       (\<lambda>l. Inr (l\<lparr>ll_size := ll_size l + 1\<rparr>))"

text \<open>Access by position goes forwards or backwards from the node of the last access.\<close>

fun node_get_loop :: "(u32 \<rightharpoonup> 'v lnode) \<Rightarrow> bool \<Rightarrow> nat \<Rightarrow> u32 \<Rightarrow> u32 kres" where
  "node_get_loop nodes backwards 0 current = Inr current"
| "node_get_loop nodes backwards (Suc k) current =
     kbind (if current = 0 then Inr 0
            else kbind (at nodes current) (\<lambda>n.
              Inr (if \<not> backwards \<and> ln_next n \<noteq> 0 then ln_next n
                   else if ln_prev n \<noteq> 0 then ln_prev n else current)))
       (node_get_loop nodes backwards k)"

definition llist_get :: "'v \<Rightarrow> 'v llist \<Rightarrow> u32 \<Rightarrow> ('v \<times> 'v llist) kres" where
  "llist_get none l position =
     (if position = 0 \<and> ll_firstNode l \<noteq> 0
      then kbind (at (ll_nodes l) (ll_firstNode l)) (\<lambda>n. Inr (ln_value n, l\<lparr>ll_currentNode := ll_firstNode l\<rparr>))
      else if position < ll_size l
      then let start = (if position > ll_lastIndex l then ll_lastIndex l else position);
               end' = (if position > ll_lastIndex l then position else ll_lastIndex l);
               backwards = (\<not> position > ll_lastIndex l) in
           kbind (node_get_loop (ll_nodes l) backwards (unat end' - unat start) (ll_currentNode l)) (\<lambda>current.
           kbind (at (ll_nodes l) current) (\<lambda>n.
             Inr (ln_value n, l\<lparr>ll_currentNode := current, ll_lastIndex := position\<rparr>)))
      else Inr (none, l))"

text \<open>The search needs two elements: a list of one never finds its element.\<close>

fun node_find_loop :: "(u32 \<rightharpoonup> 'v lnode) \<Rightarrow> 'v \<Rightarrow> nat \<Rightarrow> u32 \<Rightarrow> u32 kres" where
  "node_find_loop nodes v 0 current = Inr 0"
| "node_find_loop nodes v (Suc k) current =
     (if current = 0 then Inr 0
      else kbind (at nodes current) (\<lambda>n. if ln_value n = v then Inr current else node_find_loop nodes v k (ln_next n)))"

definition llist_find :: "'v llist \<Rightarrow> 'v \<Rightarrow> u32 kres" where
  "llist_find l v = (if 2 \<le> ll_size l then node_find_loop (ll_nodes l) v (unat (ll_size l)) (ll_firstNode l) else Inr 0)"

definition llist_remove :: "'v llist \<Rightarrow> u32 \<Rightarrow> 'v llist kres" where
  "llist_remove l node =
     (if node = 0 then Inr l
      else kbind (at (ll_nodes l) node) (\<lambda>n.
           kbind (if node = ll_firstNode l then Inr (l\<lparr>ll_firstNode := ln_next n\<rparr>)
                  else if node = ll_lastNode l then Inr (l\<lparr>ll_lastNode := ln_prev n\<rparr>)
                  else kbind (at_upd (ll_nodes l) (ln_prev n) (\<lambda>m. m\<lparr>ln_next := ln_next n\<rparr>)) (\<lambda>nodes.
                       kbind (at_upd nodes (ln_next n) (\<lambda>m. m\<lparr>ln_prev := ln_prev n\<rparr>)) (\<lambda>nodes.
                         Inr (l\<lparr>ll_nodes := nodes\<rparr>))))
             (\<lambda>l. Inr (l\<lparr>ll_nodes := (ll_nodes l)(node := None), ll_size := ll_size l - 1\<rparr>))))"

definition llist_front :: "'v \<Rightarrow> 'v llist \<Rightarrow> 'v kres" where
  "llist_front none l = (if ll_firstNode l \<noteq> 0 then kbind (at (ll_nodes l) (ll_firstNode l)) (\<lambda>n. Inr (ln_value n)) else Inr none)"

definition llist_popFront :: "'v llist \<Rightarrow> 'v llist kres" where
  "llist_popFront l = llist_remove l (ll_firstNode l)"

definition llist_back :: "'v \<Rightarrow> 'v llist \<Rightarrow> 'v kres" where
  "llist_back none l = (if ll_lastNode l \<noteq> 0 then kbind (at (ll_nodes l) (ll_lastNode l)) (\<lambda>n. Inr (ln_value n)) else Inr none)"

definition llist_popBack :: "'v llist \<Rightarrow> 'v llist kres" where
  "llist_popBack l = llist_remove l (ll_lastNode l)"

definition llist_erase :: "'v llist \<Rightarrow> 'v \<Rightarrow> 'v llist kres" where
  "llist_erase l v = kbind (llist_find l v) (llist_remove l)"

text \<open>
  \<open>for it = begin(); it != end(); ++it\<close> with a test that leaves the loop: the first value in the
  order of the iterator that passes the test. The iterator stops where there is no next node or its
  index has reached the size of the list.
\<close>

fun iterate_find :: "(u32 \<rightharpoonup> 'v lnode) \<Rightarrow> ('v \<Rightarrow> bool kres) \<Rightarrow> nat \<Rightarrow> u32 \<Rightarrow> 'v option kres" where
  "iterate_find nodes test k current =
     (if current = 0 then Inr None
      else kbind (at nodes current) (\<lambda>n.
           kbind (test (ln_value n)) (\<lambda>found.
             if found then Inr (Some (ln_value n))
             else if ln_next n = 0 then Inr None
             else case k of 0 \<Rightarrow> Inr None | Suc k' \<Rightarrow> iterate_find nodes test k' (ln_next n))))"

declare iterate_find.simps [simp del]

definition llist_iterate :: "'v llist \<Rightarrow> ('v \<Rightarrow> bool kres) \<Rightarrow> 'v option kres" where
  "llist_iterate l test = iterate_find (ll_nodes l) test (unat (ll_size l)) (ll_firstNode l)"

text \<open>The same search on a list of values.\<close>

fun first_with :: "('v \<Rightarrow> bool kres) \<Rightarrow> 'v list \<Rightarrow> 'v option kres" where
  "first_with test [] = Inr None"
| "first_with test (v # vs) = kbind (test v) (\<lambda>found. if found then Inr (Some v) else first_with test vs)"

section \<open>Lists built at the end\<close>

text \<open>The nodes of a list as they stand: their addresses with their values.\<close>

fun linked :: "(u32 \<rightharpoonup> 'v lnode) \<Rightarrow> u32 \<Rightarrow> (u32 \<times> 'v) list \<Rightarrow> bool" where
  "linked nodes prev [] = True"
| "linked nodes prev ((p, v) # ns) = (p \<noteq> 0 \<and> nodes p = Some \<lparr>ln_value = v, ln_next = (case ns of [] \<Rightarrow> 0 | (q, _) # _ \<Rightarrow> q), ln_prev = prev\<rparr> \<and>
     linked nodes p ns)"

definition rep :: "'v llist \<Rightarrow> (u32 \<times> 'v) list \<Rightarrow> bool" where
  "rep l ns = (linked (ll_nodes l) 0 ns \<and> distinct (map fst ns) \<and> length ns < 2 ^ 32 \<and> ll_size l = of_nat (length ns) \<and>
     ll_firstNode l = (case ns of [] \<Rightarrow> 0 | (p, _) # _ \<Rightarrow> p) \<and> (ns \<noteq> [] \<longrightarrow> ll_lastNode l = fst (last ns)))"

lemma linked_frame:
  assumes "\<And>a. a \<in> fst ` set ns \<Longrightarrow> nodes' a = nodes a" and "linked nodes prev ns"
  shows "linked nodes' prev ns"
  using assms by (induction nodes prev ns rule: linked.induct) auto

lemma linked_nonzero: "linked nodes prev ns \<Longrightarrow> (p, v) \<in> set ns \<Longrightarrow> p \<noteq> 0"
  by (induction nodes prev ns rule: linked.induct) auto

lemma linked_snoc:
  assumes "linked nodes prev (ns @ [(l, w)])" and "distinct (map fst (ns @ [(l, w)]))" and "p \<notin> fst ` set (ns @ [(l, w)])" and "p \<noteq> 0"
  shows "\<exists>n. nodes l = Some n \<and> ln_next n = 0 \<and>
    linked (nodes(l \<mapsto> n\<lparr>ln_next := p\<rparr>, p \<mapsto> (Node_new v)\<lparr>ln_prev := l\<rparr>)) prev (ns @ [(l, w), (p, v)])"
  using assms
proof (induction ns arbitrary: prev)
  case Nil
  then show ?case by (auto simp: Node_new_def)
next
  case (Cons a ns)
  obtain q u where a: "a = (q, u)" by (cases a)
  obtain n where n: "nodes l = Some n" "ln_next n = 0"
    "linked (nodes(l \<mapsto> n\<lparr>ln_next := p\<rparr>, p \<mapsto> (Node_new v)\<lparr>ln_prev := l\<rparr>)) q (ns @ [(l, w), (p, v)])"
    using Cons.IH [of q] Cons.prems a by (auto simp del: fun_upd_apply)
  have "q \<noteq> l" "q \<noteq> p" using Cons.prems a by auto
  moreover have "(case ns @ [(l, w)] of [] \<Rightarrow> 0 | (q, _) # _ \<Rightarrow> q) = (case ns @ [(l, w), (p, v)] of [] \<Rightarrow> 0 | (q, _) # _ \<Rightarrow> q)"
    by (cases ns) auto
  ultimately show ?case using n Cons.prems a by (auto simp: fun_upd_def)
qed

lemma rep_new: "rep llist_new []"
  by (simp add: rep_def llist_new_def)

lemma llist_add_rep:
  assumes "rep l ns" and "p \<noteq> 0" and "p \<notin> fst ` set ns" and "Suc (length ns) < 2 ^ 32"
  shows "\<exists>l'. llist_add l p v = Inr l' \<and> rep l' (ns @ [(p, v)])"
proof (cases ns rule: rev_cases)
  case Nil
  then show ?thesis using assms by (simp add: llist_add_def rep_def Node_new_def)
next
  case (snoc ms lw)
  obtain q w where ns: "ns = ms @ [(q, w)]" using snoc by (cases lw) auto
  have nz: "ll_firstNode l \<noteq> 0" using assms(1) ns by (cases ms) (auto simp: rep_def)
  have l: "ll_lastNode l = q" "linked (ll_nodes l) 0 ns" "distinct (map fst ns)" using assms(1) ns by (auto simp: rep_def)
  obtain n where n: "ll_nodes l q = Some n" "ln_next n = 0"
    "linked ((ll_nodes l)(q \<mapsto> n\<lparr>ln_next := p\<rparr>, p \<mapsto> (Node_new v)\<lparr>ln_prev := q\<rparr>)) 0 (ms @ [(q, w), (p, v)])"
    using linked_snoc [of "ll_nodes l" 0 ms q w p v] l(2,3) assms(2,3) ns by auto
  have "q \<noteq> 0" using linked_nonzero [OF l(2), of q w] ns by simp
  have "(case ms @ [(q, w), (p, v)] of [] \<Rightarrow> 0 | (p, _) # _ \<Rightarrow> p) = ll_firstNode l"
    using assms(1) ns by (cases ms) (auto simp: rep_def)
  then show ?thesis using assms ns nz l n \<open>q \<noteq> 0\<close> by (auto simp: llist_add_def at_Inr rep_def algebra_simps)
qed

lemma iterate_linked:
  assumes "linked nodes prev ns" and "length ns \<le> Suc k"
  shows "iterate_find nodes test k (case ns of [] \<Rightarrow> 0 | (p, _) # _ \<Rightarrow> p) = first_with test (map snd ns)"
  using assms
proof (induction ns arbitrary: prev k)
  case Nil
  then show ?case by (simp add: iterate_find.simps)
next
  case (Cons a ns)
  obtain p v where a: "a = (p, v)" by (cases a)
  show ?case
  proof (cases ns)
    case Nil
    then show ?thesis using Cons.prems a by (cases "test v") (auto simp: iterate_find.simps [of _ _ _ p] at_Inr)
  next
    case (Cons b ms)
    obtain q w where b: "b = (q, w)" by (cases b)
    obtain k' where "k = Suc k'" using Cons.prems(2) Cons by (cases k) auto
    moreover have "linked nodes p ns" "length ns \<le> Suc k'" "q \<noteq> 0" using Cons.prems a Cons b calculation by auto
    ultimately show ?thesis using Cons.IH [of p k'] Cons.prems a Cons b
      by (cases "test v") (auto simp: iterate_find.simps [of _ _ _ p] at_Inr)
  qed
qed

lemma llist_iterate_rep: "rep l ns \<Longrightarrow> llist_iterate l test = first_with test (map snd ns)"
  unfolding llist_iterate_def rep_def
  by (auto simp: unat_of_nat take_bit_nat_eq_self intro!: iterate_linked)

lemma find_linked:
  assumes "linked nodes prev ns" and "length ns \<le> k"
  shows "node_find_loop nodes v k (case ns of [] \<Rightarrow> 0 | (p, _) # _ \<Rightarrow> p) =
    Inr (case filter (\<lambda>(p, w). w = v) ns of [] \<Rightarrow> 0 | (p, _) # _ \<Rightarrow> p)"
  using assms
proof (induction ns arbitrary: prev k)
  case Nil
  then show ?case by (cases k) auto
next
  case (Cons a ns)
  obtain p w where a: "a = (p, w)" by (cases a)
  obtain k' where "k = Suc k'" using Cons.prems(2) by (cases k) auto
  then show ?case using Cons.IH [of p k'] Cons.prems a by (simp add: at_Inr)
qed

lemma llist_find_rep:
  assumes "rep l ns"
  shows "llist_find l v = Inr (if length ns < 2 then 0 else case filter (\<lambda>(p, w). w = v) ns of [] \<Rightarrow> 0 | (p, _) # _ \<Rightarrow> p)"
proof -
  have u: "unat (ll_size l) = length ns" using assms by (simp add: rep_def unat_of_nat take_bit_nat_eq_self)
  then have "2 \<le> ll_size l \<longleftrightarrow> 2 \<le> length ns" by (simp add: word_le_nat_alt)
  then show ?thesis using assms u by (auto simp: llist_find_def rep_def intro!: find_linked)
qed

text \<open>A list with one element does not find it, and erasing it by value does nothing.\<close>

lemma llist_erase_single: "rep l [(p, v)] \<Longrightarrow> llist_erase l v = Inr l"
  by (simp add: llist_erase_def llist_find_rep llist_remove_def)

text \<open>
  Removing the last of several nodes leaves the new last node pointing to the deleted one. An
  element added then is dropped, and an iteration over the list follows the pointer.
\<close>

lemma llist_popBack_dangling:
  assumes "rep l (ns @ [(p, v), (q, w)])"
  shows "\<exists>l'. llist_popBack l = Inr l' \<and> llist_add l' r u = Inr l' \<and> ll_nodes l' q = None \<and>
    (\<exists>n. ll_nodes l' p = Some n \<and> ln_next n = q)"
proof -
  have l: "linked (ll_nodes l) 0 (ns @ [(p, v), (q, w)])" "distinct (map fst (ns @ [(p, v), (q, w)]))" "ll_lastNode l = q"
    using assms by (auto simp: rep_def)
  have mid: "linked nodes prev (ms @ [(p, v), (q, w)]) \<Longrightarrow> q \<noteq> 0 \<and> p \<noteq> 0 \<and>
    (\<exists>n. nodes p = Some n \<and> ln_next n = q) \<and> (\<exists>n. nodes q = Some n \<and> ln_prev n = p)" for nodes prev ms
    by (induction ms arbitrary: prev) auto
  have first: "ll_firstNode l \<noteq> q" "ll_firstNode l \<noteq> 0"
    using assms l(2) mid [OF l(1)] by (cases ns; auto simp: rep_def)+
  obtain n m where nm: "ll_nodes l p = Some n" "ln_next n = q" "ll_nodes l q = Some m" "ln_prev m = p" "q \<noteq> 0" "p \<noteq> 0"
    using mid [OF l(1)] by auto
  have "p \<noteq> q" using l(2) by auto
  then show ?thesis using l(3) first nm by (simp add: llist_popBack_def llist_remove_def llist_add_def at_Inr)
qed

end
