(* ===== verification/Tasking.thy ===== *)
theory Tasking
  imports Messages KString LList
begin

text \<open>
  Threads, processes and the schedulers of the processors: \<open>thread.hpp\<close>, \<open>process.hpp\<close>,
  \<open>scheduling/scheduler.cpp\<close>, \<open>tasking.cpp\<close> and \<open>ThreadManager::deleteTask\<close> of
  \<open>src/Kernel/Kernel/tasking\<close>. Each scheduler keeps a queue of the threads that run and one of those
  that wait, as lists of entries linked by pointers, the entry of the idle thread and the entry that
  runs. Entries, threads and processes are objects at addresses; an object that has been deleted is
  none, and following a pointer to it is an error. The objects the kernel makes get their addresses
  as arguments. What a waiting thread waits for is checked by a virtual function, which the
  operations that call it have as the argument \<open>check\<close>; the theory \<open>Waiters\<close> has the checks of the
  kernel.
\<close>

section \<open>Data\<close>

text \<open>The waiters with their fields; schedulers are given by the number of their processor.\<close>

datatype 'f waiter =
    WaiterSleep nat u64 u64
  | WaiterJoin u32
  | WaiterAtomicWait u32 u32 bool
  | WaiterSendMessage u32
  | WaiterReceiveMessage u32
  | WaiterWaitForIrq u32
  | WaiterPerformInterruption u32 u32
  | WaiterCallVm86 u32 u32 u32
  | WaiterFsTransaction 'f

record processor_state =
  ps_gs :: u32
  ps_fs :: u32
  ps_es :: u32
  ps_ds :: u32
  ps_eax :: u32
  ps_ecx :: u32
  ps_edx :: u32
  ps_ebx :: u32
  ps_ebp :: u32
  ps_esi :: u32
  ps_edi :: u32
  ps_intr :: u32
  ps_error :: u32
  ps_eip :: u32
  ps_cs :: u32
  ps_eflags :: u32
  ps_esp :: u32
  ps_ss :: u32

datatype ThreadInterruptionInfoType = InterruptionNONE | InterruptionIRQ | InterruptionSIGNAL

text \<open>The saved context is not set before the first store.\<close>

record 'f interruption =
  in_cpuState :: "processor_state option"
  in_cpuStateAddress :: u32
  in_waitManager :: "'f waiter option"
  in_type :: ThreadInterruptionInfoType
  in_handledIrq :: u8
  in_handledSignal :: i32

definition ThreadInterruptionInfo_new :: "'f interruption" where
  "ThreadInterruptionInfo_new = \<lparr>in_cpuState = None, in_cpuStateAddress = 0, in_waitManager = None,
     in_type = InterruptionNONE, in_handledIrq = - 1, in_handledSignal = - 1\<rparr>"

definition THREAD_TYPE_MAIN :: u8 where "THREAD_TYPE_MAIN = 1"
definition THREAD_TYPE_SUB :: u8 where "THREAD_TYPE_SUB = 2"
definition THREAD_TYPE_VM86 :: u8 where "THREAD_TYPE_VM86 = 4"

datatype ThreadPriority = THREAD_PRIORITY_NORMAL | THREAD_PRIORITY_IDLE

record 'f thread =
  th_id :: u32
  th_alive :: bool
  th_type :: u8
  th_priority :: ThreadPriority
  th_process :: u32
  th_scheduler :: "nat option"
  th_rounds :: u64
  th_waitManager :: "'f waiter option"
  th_waitCount :: u32
  th_cpuState :: u32
  th_identifier :: "string option"
  th_interruptionInfo :: "'f interruption option"

record signal_handler =
  sh_handler :: u32
  sh_callback :: u32
  sh_threadID :: u32

record process =
  pr_main :: u32
  pr_parent :: u32
  pr_securityLevel :: nat
  pr_isServer :: bool
  pr_signalHandlers :: "signal_handler list"

record task_entry =
  te_value :: u32
  te_next :: u32

record scheduler =
  sc_milliseconds :: u64
  sc_coreId :: u32
  sc_waitQueue :: u32
  sc_runQueue :: u32
  sc_idleEntry :: u32
  sc_currentEntry :: u32

text \<open>What the waiters and the system calls use of the memory of a process, and the interrupts that wait.\<close>

record send_data =
  sd_receiver :: u32
  sd_buffer :: "u8 list"
  sd_buffer_len :: u32
  sd_transaction :: u32
  sd_blocking :: bool
  sd_status :: MessageSendStatus

record receive_data =
  rc_buffer :: "message_header option"
  rc_buffer_len :: u32
  rc_transaction :: u32
  rc_blocking :: bool
  rc_break :: u32
  rc_status :: MessageReceiveStatus

record user_memory =
  um_bools :: "u32 \<rightharpoonup> bool"
  um_sends :: "u32 \<rightharpoonup> send_data"
  um_receives :: "u32 \<rightharpoonup> receive_data"
  um_words :: "u32 \<rightharpoonup> u32"

record irq_handler =
  ih_threadID :: u32
  ih_handler :: u32
  ih_callback :: u32

text \<open>The state; the number of processors is the length of the list of schedulers.\<close>

record 'f tasking =
  ts_entries :: "u32 \<rightharpoonup> task_entry"
  ts_threads :: "u32 \<rightharpoonup> 'f thread"
  ts_processes :: "u32 \<rightharpoonup> process"
  ts_cpus :: "u32 \<rightharpoonup> processor_state"
  ts_schedulers :: "scheduler option list"
  ts_servers :: "u32 llist"
  ts_taskIdCounter :: u32
  ts_ipc :: ipc
  ts_user :: "u32 \<Rightarrow> user_memory"
  ts_irqsWaiting :: "u8 \<Rightarrow> bool"
  ts_irqHandlers :: "u8 \<Rightarrow> irq_handler option"

definition get_scheduler :: "'f tasking \<Rightarrow> nat \<Rightarrow> scheduler kres" where
  "get_scheduler s c = (if c < length (ts_schedulers s) then (case ts_schedulers s ! c of None \<Rightarrow> Inl NullDeref | Some sc \<Rightarrow> Inr sc)
     else Inl NullDeref)"

definition put_scheduler :: "'f tasking \<Rightarrow> nat \<Rightarrow> scheduler \<Rightarrow> 'f tasking" where
  "put_scheduler s c sc = s\<lparr>ts_schedulers := (ts_schedulers s)[c := Some sc]\<rparr>"

definition upd_thread :: "'f tasking \<Rightarrow> u32 \<Rightarrow> ('f thread \<Rightarrow> 'f thread) \<Rightarrow> 'f tasking kres" where
  "upd_thread s t f = kbind (at_upd (ts_threads s) t f) (\<lambda>m. Inr (s\<lparr>ts_threads := m\<rparr>))"

section \<open>Queues\<close>

partial_function (option) remove_loop ::
    "(u32 \<rightharpoonup> task_entry) \<Rightarrow> u32 \<Rightarrow> u32 \<Rightarrow> u32 \<Rightarrow> ((u32 \<rightharpoonup> task_entry) \<times> u32) kres option" where
  "remove_loop entries thread previous entry =
     (if entry = 0 then Some (Inr (entries, 0))
      else case at entries entry of
             Inl err \<Rightarrow> Some (Inl err)
           | Inr e \<Rightarrow>
               if te_value e = thread
               then Some (kbind (at_upd entries previous (\<lambda>p. p\<lparr>te_next := te_next e\<rparr>)) (\<lambda>entries. Inr (entries, entry)))
               else remove_loop entries thread entry (te_next e))"

text \<open>The result is the changed entries, the new head of the queue and the removed entry or 0.\<close>

definition Scheduler_removeFromQueue ::
    "(u32 \<rightharpoonup> task_entry) \<Rightarrow> u32 \<Rightarrow> u32 \<Rightarrow> ((u32 \<rightharpoonup> task_entry) \<times> u32 \<times> u32) kres option" where
  "Scheduler_removeFromQueue entries queueHead thread =
     (if queueHead = 0 then Some (Inr (entries, queueHead, 0))
      else obind (Some (at entries queueHead)) (\<lambda>e.
             if te_value e = thread then Some (Inr (entries, te_next e, queueHead))
             else obind (remove_loop entries thread 0 queueHead) (\<lambda>(entries, removed).
                    Some (Inr (entries, queueHead, removed)))))"

section \<open>Scheduler: queues\<close>

definition Scheduler_new :: "u32 \<Rightarrow> scheduler" where
  "Scheduler_new coreId = \<lparr>sc_milliseconds = 0, sc_coreId = coreId, sc_waitQueue = 0, sc_runQueue = 0, sc_idleEntry = 0, sc_currentEntry = 0\<rparr>"

definition Scheduler_add :: "'f tasking \<Rightarrow> nat \<Rightarrow> u32 \<Rightarrow> u32 \<Rightarrow> 'f tasking kres" where
  "Scheduler_add s c p newThread =
     kbind (get_scheduler s c) (\<lambda>sc.
     kbind (upd_thread s newThread (\<lambda>th. th\<lparr>th_scheduler := Some c\<rparr>)) (\<lambda>s.
     kbind (at (ts_threads s) newThread) (\<lambda>th.
       if th_priority th = THREAD_PRIORITY_IDLE
       then Inr (put_scheduler (s\<lparr>ts_entries := (ts_entries s)(p \<mapsto> \<lparr>te_value = newThread, te_next = 0\<rparr>)\<rparr>) c (sc\<lparr>sc_idleEntry := p\<rparr>))
       else Inr (put_scheduler (s\<lparr>ts_entries := (ts_entries s)(p \<mapsto> \<lparr>te_value = newThread, te_next = sc_runQueue sc\<rparr>)\<rparr>) c
                  (sc\<lparr>sc_runQueue := p\<rparr>)))))"

definition Scheduler_increaseWaitPriority :: "'f tasking \<Rightarrow> nat \<Rightarrow> u32 \<Rightarrow> 'f tasking kres option" where
  "Scheduler_increaseWaitPriority s c thread =
     obind (Some (get_scheduler s c)) (\<lambda>sc.
     obind (Scheduler_removeFromQueue (ts_entries s) (sc_waitQueue sc) thread) (\<lambda>(entries, head, entry).
       if entry \<noteq> 0
       then obind (Some (at_upd entries entry (\<lambda>e. e\<lparr>te_next := head\<rparr>))) (\<lambda>entries.
              Some (Inr (put_scheduler (s\<lparr>ts_entries := entries\<rparr>) c (sc\<lparr>sc_waitQueue := entry\<rparr>))))
       else Some (Inr (put_scheduler (s\<lparr>ts_entries := entries\<rparr>) c (sc\<lparr>sc_waitQueue := head\<rparr>)))))"

definition Scheduler_moveToRunQueue :: "'f tasking \<Rightarrow> nat \<Rightarrow> u32 \<Rightarrow> 'f tasking kres option" where
  "Scheduler_moveToRunQueue s c thread =
     obind (Some (get_scheduler s c)) (\<lambda>sc.
     obind (Scheduler_removeFromQueue (ts_entries s) (sc_waitQueue sc) thread) (\<lambda>(entries, head, moveEntry).
       let sc = sc\<lparr>sc_waitQueue := head\<rparr> in
       if moveEntry = 0 then Some (Inr (put_scheduler (s\<lparr>ts_entries := entries\<rparr>) c sc))
       else obind (Some (at_upd entries moveEntry (\<lambda>e. e\<lparr>te_next := sc_runQueue sc\<rparr>))) (\<lambda>entries.
              Some (Inr (put_scheduler (s\<lparr>ts_entries := entries\<rparr>) c (sc\<lparr>sc_runQueue := moveEntry\<rparr>))))))"

definition Scheduler_moveToWaitQueue :: "'f tasking \<Rightarrow> nat \<Rightarrow> u32 \<Rightarrow> 'f tasking kres option" where
  "Scheduler_moveToWaitQueue s c thread =
     obind (Some (get_scheduler s c)) (\<lambda>sc.
     obind (Scheduler_removeFromQueue (ts_entries s) (sc_runQueue sc) thread) (\<lambda>(entries, head, moveEntry).
       let sc = sc\<lparr>sc_runQueue := head\<rparr> in
       if moveEntry = 0 then Some (Inr (put_scheduler (s\<lparr>ts_entries := entries\<rparr>) c sc))
       else obind (Some (at_upd entries moveEntry (\<lambda>e. e\<lparr>te_next := sc_waitQueue sc\<rparr>))) (\<lambda>entries.
              let sc = sc\<lparr>sc_waitQueue := moveEntry\<rparr> in
              Some (Inr (put_scheduler (s\<lparr>ts_entries := entries\<rparr>) c
                (if moveEntry = sc_currentEntry sc then sc\<lparr>sc_currentEntry := 0\<rparr> else sc))))))"

section \<open>Threads\<close>

definition Thread_new :: "'f tasking \<Rightarrow> u32 \<Rightarrow> u8 \<Rightarrow> 'f tasking" where
  "Thread_new s p type =
     s\<lparr>ts_taskIdCounter := ts_taskIdCounter s + 1,
       ts_threads := (ts_threads s)(p \<mapsto> \<lparr>th_id = ts_taskIdCounter s, th_alive = True, th_type = type,
         th_priority = THREAD_PRIORITY_NORMAL, th_process = 0, th_scheduler = None, th_rounds = 0, th_waitManager = None,
         th_waitCount = 0, th_cpuState = 0, th_identifier = None, th_interruptionInfo = None\<rparr>)\<rparr>"

text \<open>
  The names of threads; \<open>junk\<close> is the contents of the memory that the new names get. A type of
  thread that is none of the three keeps its name.
\<close>

definition Thread_setIdentifier :: "(nat \<Rightarrow> char) \<Rightarrow> 'f tasking \<Rightarrow> u32 \<Rightarrow> string \<Rightarrow> 'f tasking kres" where
  "Thread_setIdentifier junk s t newIdentifier =
     kbind (at (ts_threads s) t) (\<lambda>th.
     kbind (String_length newIdentifier) (\<lambda>newlength.
       if th_type th = THREAD_TYPE_MAIN \<or> th_type th = THREAD_TYPE_VM86
       then kbind (String_copy (map junk [0..<newlength + 1]) newIdentifier) (\<lambda>i. upd_thread s t (\<lambda>th. th\<lparr>th_identifier := Some i\<rparr>))
       else if th_type th = THREAD_TYPE_SUB
       then (case th_identifier th of
               Some old \<Rightarrow>
                 kbind (String_length old) (\<lambda>oldlength.
                 kbind (String_concat old newIdentifier (map junk [0..<newlength + oldlength + 1])) (\<lambda>i.
                   upd_thread s t (\<lambda>th. th\<lparr>th_identifier := Some i\<rparr>)))
             | None \<Rightarrow>
                 kbind (String_copy (map junk [0..<newlength + 1]) newIdentifier) (\<lambda>i. upd_thread s t (\<lambda>th. th\<lparr>th_identifier := Some i\<rparr>)))
       else Inr s))"

definition Thread_wait :: "'f tasking \<Rightarrow> u32 \<Rightarrow> 'f waiter option \<Rightarrow> 'f tasking kres option" where
  "Thread_wait s t newWaitManager =
     obind (Some (at (ts_threads s) t)) (\<lambda>th.
     obind (case th_waitManager th of
              Some w \<Rightarrow> Some (Inr s)
            | None \<Rightarrow> (case th_scheduler th of None \<Rightarrow> Some (Inl NullDeref) | Some c \<Rightarrow> Scheduler_moveToWaitQueue s c t)) (\<lambda>s.
       Some (upd_thread s t (\<lambda>th. th\<lparr>th_waitManager := newWaitManager\<rparr>))))"

definition Thread_unwait :: "'f tasking \<Rightarrow> u32 \<Rightarrow> 'f tasking kres option" where
  "Thread_unwait s t =
     obind (Some (at (ts_threads s) t)) (\<lambda>th.
       case th_waitManager th of
         None \<Rightarrow> Some (Inr s)
       | Some w \<Rightarrow>
           obind (Some (upd_thread s t (\<lambda>th. th\<lparr>th_waitManager := None\<rparr>))) (\<lambda>s.
             case th_scheduler th of None \<Rightarrow> Some (Inl NullDeref) | Some c \<Rightarrow> Scheduler_moveToRunQueue s c t))"

section \<open>Removal of threads\<close>

text \<open>
  \<open>ThreadManager::deleteTask\<close>: the stacks, the image and the heap that it unmaps are not part of the
  state, nor the descriptors \<open>FileSystem::processClosed\<close> closes; both need the process of the thread.
\<close>

definition ThreadManager_deleteTask :: "'f tasking \<Rightarrow> u32 \<Rightarrow> 'f tasking kres option" where
  "ThreadManager_deleteTask s thread =
     obind (Some (at (ts_threads s) thread)) (\<lambda>th.
     obind (MessageController_clear (ts_ipc s) (th_id th)) (\<lambda>ipc.
     let s = s\<lparr>ts_ipc := ipc\<rparr> in
     obind (if th_type th = THREAD_TYPE_VM86 then Some (Inr ()) else Some (kbind (at (ts_processes s) (th_process th)) (\<lambda>_. Inr ()))) (\<lambda>_.
     obind (if th_type th = THREAD_TYPE_MAIN
            then Some (kbind (at (ts_processes s) (th_process th)) (\<lambda>p.
                       kbind (at (ts_threads s) (pr_main p)) (\<lambda>_.
                         Inr (s\<lparr>ts_processes := (ts_processes s)(th_process th := None)\<rparr>))))
            else Some (Inr s)) (\<lambda>s.
       Some (Inr (s\<lparr>ts_threads := (ts_threads s)(thread := None)\<rparr>))))))"

text \<open>The entry of a thread taken out of the run queue or, when it is not there, of the wait queue.\<close>

definition unlink_thread :: "(u32 \<rightharpoonup> task_entry) \<Rightarrow> scheduler \<Rightarrow> u32 \<Rightarrow> ((u32 \<rightharpoonup> task_entry) \<times> scheduler \<times> u32) kres option" where
  "unlink_thread entries sc thread =
     obind (Scheduler_removeFromQueue entries (sc_runQueue sc) thread) (\<lambda>(entries, head, entry).
     let sc = sc\<lparr>sc_runQueue := head\<rparr> in
       if entry = 0
       then obind (Scheduler_removeFromQueue entries (sc_waitQueue sc) thread) (\<lambda>(entries, head, entry).
              Some (Inr (entries, sc\<lparr>sc_waitQueue := head\<rparr>, entry)))
       else Some (Inr (entries, sc, entry)))"

definition Scheduler_remove :: "'f tasking \<Rightarrow> nat \<Rightarrow> u32 \<Rightarrow> 'f tasking kres option" where
  "Scheduler_remove s c thread =
     obind (Some (get_scheduler s c)) (\<lambda>sc.
     obind (unlink_thread (ts_entries s) sc thread) (\<lambda>(entries, sc, entry).
       if entry = 0 then Some (Inr (put_scheduler (s\<lparr>ts_entries := entries\<rparr>) c sc))
       else ThreadManager_deleteTask (put_scheduler (s\<lparr>ts_entries := entries(entry := None)\<rparr>) c sc) thread))"

text \<open>The number of the main thread of a process, read through the pointers as in the code.\<close>

definition main_id :: "'f tasking \<Rightarrow> u32 \<Rightarrow> u32 kres" where
  "main_id s process = kbind (at (ts_processes s) process) (\<lambda>p. kbind (at (ts_threads s) (pr_main p)) (\<lambda>th. Inr (th_id th)))"

partial_function (option) remove_threads_loop :: "nat \<Rightarrow> u32 \<Rightarrow> u32 \<Rightarrow> 'f tasking \<Rightarrow> 'f tasking kres option" where
  "remove_threads_loop c process entry s =
     (if entry = 0 then Some (Inr s)
      else case kbind (at (ts_entries s) entry) (\<lambda>e.
                kbind (at (ts_threads s) (te_value e)) (\<lambda>th.
                kbind (main_id s (th_process th)) (\<lambda>a.
                kbind (main_id s process) (\<lambda>b. Inr (e, a = b))))) of
             Inl err \<Rightarrow> Some (Inl err)
           | Inr (e, same) \<Rightarrow>
               (case (if same then Scheduler_remove s c (te_value e) else Some (Inr s)) of
                  None \<Rightarrow> None
                | Some (Inl err) \<Rightarrow> Some (Inl err)
                | Some (Inr s) \<Rightarrow> remove_threads_loop c process (te_next e) s))"

definition Scheduler_removeThreads :: "'f tasking \<Rightarrow> nat \<Rightarrow> u32 \<Rightarrow> 'f tasking kres option" where
  "Scheduler_removeThreads s c process =
     obind (Some (get_scheduler s c)) (\<lambda>sc.
     obind (remove_threads_loop c process (sc_runQueue sc) s) (\<lambda>s.
     obind (Some (get_scheduler s c)) (\<lambda>sc.
       remove_threads_loop c process (sc_waitQueue sc) s)))"

fun remove_threads_cores :: "u32 \<Rightarrow> nat list \<Rightarrow> 'f tasking \<Rightarrow> 'f tasking kres option" where
  "remove_threads_cores process [] s = Some (Inr s)"
| "remove_threads_cores process (c # cs) s =
     (if ts_schedulers s ! c = None then remove_threads_cores process cs s
      else obind (Scheduler_removeThreads s c process) (remove_threads_cores process cs))"

definition Tasking_removeThreads :: "'f tasking \<Rightarrow> u32 \<Rightarrow> 'f tasking kres option" where
  "Tasking_removeThreads s process =
     obind (Some (at (ts_processes s) process)) (\<lambda>p.
     obind (Some (if pr_isServer p then llist_erase (ts_servers s) process else Inr (ts_servers s))) (\<lambda>servers.
       remove_threads_cores process [0..<length (ts_schedulers s)] (s\<lparr>ts_servers := servers\<rparr>)))"

section \<open>Scheduling\<close>

text \<open>The address space of the process is the one to switch to.\<close>

definition Scheduler_applyContextSwitch :: "'f tasking \<Rightarrow> u32 \<Rightarrow> unit kres" where
  "Scheduler_applyContextSwitch s thread =
     kbind (at (ts_threads s) thread) (\<lambda>th. kbind (at (ts_processes s) (th_process th)) (\<lambda>_. Inr ()))"

definition Scheduler_checkAliveState :: "'f tasking \<Rightarrow> nat \<Rightarrow> u32 \<Rightarrow> ('f tasking \<times> bool) kres option" where
  "Scheduler_checkAliveState s c thread =
     obind (Some (at (ts_threads s) thread)) (\<lambda>th.
       if th_alive th then Some (Inr (s, True))
       else obind (if th_type th = THREAD_TYPE_MAIN then Tasking_removeThreads s (th_process th)
                   else Scheduler_remove s c thread) (\<lambda>s. Some (Inr (s, False))))"

definition Scheduler_finishSwitch :: "'f tasking \<Rightarrow> u32 \<Rightarrow> 'f tasking kres" where
  "Scheduler_finishSwitch s thread =
     kbind (at (ts_threads s) thread) (\<lambda>th.
     kbind (at_upd (ts_cpus s) (th_cpuState th) (\<lambda>ps. ps\<lparr>ps_gs := 0x30\<rparr>)) (\<lambda>cpus. Inr (s\<lparr>ts_cpus := cpus\<rparr>)))"

type_synonym 'f check = "'f tasking \<Rightarrow> u32 \<Rightarrow> 'f waiter \<Rightarrow> (bool \<times> 'f tasking) kres option"

definition Scheduler_checkWaitingState :: "'f check \<Rightarrow> 'f tasking \<Rightarrow> u32 \<Rightarrow> 'f tasking kres option" where
  "Scheduler_checkWaitingState check s thread =
     obind (Some (at (ts_threads s) thread)) (\<lambda>th.
       case th_waitManager th of
         None \<Rightarrow> Some (Inr s)
       | Some w \<Rightarrow>
           obind (check s thread w) (\<lambda>(keep, s).
             if keep then Some (upd_thread s thread (\<lambda>th. th\<lparr>th_waitCount := th_waitCount th + 1\<rparr>))
             else obind (Some (upd_thread s thread (\<lambda>th. th\<lparr>th_waitCount := 0\<rparr>))) (\<lambda>s. Thread_unwait s thread)))"

definition set_current :: "'f tasking \<Rightarrow> nat \<Rightarrow> u32 \<Rightarrow> 'f tasking kres" where
  "set_current s c entry = kbind (get_scheduler s c) (\<lambda>sc. Inr (put_scheduler s c (sc\<lparr>sc_currentEntry := entry\<rparr>)))"

text \<open>One entry of the wait queue: the result is the entry after it, as it was before.\<close>

definition process_entry :: "'f check \<Rightarrow> nat \<Rightarrow> 'f tasking \<Rightarrow> u32 \<Rightarrow> ('f tasking \<times> u32) kres option" where
  "process_entry check c s entry =
     obind (Some (at (ts_entries s) entry)) (\<lambda>e.
     obind (Some (Scheduler_applyContextSwitch s (te_value e))) (\<lambda>_.
     obind (Scheduler_checkAliveState s c (te_value e)) (\<lambda>(s, alive).
     obind (if alive then Scheduler_checkWaitingState check s (te_value e) else Some (Inr s)) (\<lambda>s.
     obind (Some (set_current s c (te_next e))) (\<lambda>s.
       Some (Inr (s, te_next e)))))))"

partial_function (option) process_loop :: "'f check \<Rightarrow> nat \<Rightarrow> 'f tasking \<Rightarrow> u32 \<Rightarrow> 'f tasking kres option" where
  "process_loop check c s entry =
     (if entry = 0 then Some (Inr s)
      else case process_entry check c s entry of
             None \<Rightarrow> None
           | Some (Inl err) \<Rightarrow> Some (Inl err)
           | Some (Inr (s, next)) \<Rightarrow> process_loop check c s next)"

definition Scheduler_processWaitQueue :: "'f check \<Rightarrow> 'f tasking \<Rightarrow> nat \<Rightarrow> 'f tasking kres option" where
  "Scheduler_processWaitQueue check s c =
     obind (Some (get_scheduler s c)) (\<lambda>sc.
     obind (Some (set_current s c (sc_waitQueue sc))) (\<lambda>s.
       process_loop check c s (sc_waitQueue sc)))"

text \<open>The entry that is tried next: the one after the current one, around the run queue, or the idle one.\<close>

definition next_entry :: "'f tasking \<Rightarrow> scheduler \<Rightarrow> u32 kres" where
  "next_entry s sc =
     kbind (if sc_currentEntry sc = 0 then Inr (sc_runQueue sc)
            else kbind (at (ts_entries s) (sc_currentEntry sc)) (\<lambda>e.
                   Inr (if te_next e = 0 then sc_runQueue sc else te_next e))) (\<lambda>entry.
       if entry \<noteq> 0 then Inr entry
       else if sc_idleEntry sc \<noteq> 0 then Inr (sc_idleEntry sc)
       else Inl (Panic ''%! idle thread does not exist on core %i''))"

definition try_entry :: "nat \<Rightarrow> 'f tasking \<Rightarrow> ('f tasking \<times> u32 option) kres option" where
  "try_entry c s =
     obind (Some (get_scheduler s c)) (\<lambda>sc.
     obind (Some (next_entry s sc)) (\<lambda>entry.
     obind (Some (set_current s c entry)) (\<lambda>s.
     obind (Some (at (ts_entries s) entry)) (\<lambda>e.
     obind (Some (at (ts_threads s) (te_value e))) (\<lambda>th.
       if th_waitManager th \<noteq> None then Some (Inl (Panic ''task %i is in run queue had wait manager''))
       else obind (Some (Scheduler_applyContextSwitch s (te_value e))) (\<lambda>_.
            obind (Scheduler_checkAliveState s c (te_value e)) (\<lambda>(s, alive).
              if alive then Some (Inr (s, Some (te_value e)))
              else obind (Some (set_current s c 0)) (\<lambda>s. Some (Inr (s, None))))))))))"

partial_function (option) schedule_loop :: "nat \<Rightarrow> 'f tasking \<Rightarrow> ('f tasking \<times> u32) kres option" where
  "schedule_loop c s =
     (case try_entry c s of
        None \<Rightarrow> None
      | Some (Inl err) \<Rightarrow> Some (Inl err)
      | Some (Inr (s, Some thread)) \<Rightarrow> Some (Inr (s, thread))
      | Some (Inr (s, None)) \<Rightarrow> schedule_loop c s)"

definition Scheduler_schedule :: "'f check \<Rightarrow> 'f tasking \<Rightarrow> nat \<Rightarrow> ('f tasking \<times> u32) kres option" where
  "Scheduler_schedule check s c =
     obind (Some (get_scheduler s c)) (\<lambda>sc.
     obind (Scheduler_processWaitQueue check s c) (\<lambda>s.
     obind (Some (set_current s c (sc_currentEntry sc))) (\<lambda>s.
     obind (schedule_loop c s) (\<lambda>(s, thread).
     obind (Some (Scheduler_finishSwitch s thread)) (\<lambda>s.
     obind (Some (upd_thread s thread (\<lambda>th. th\<lparr>th_rounds := th_rounds th + 1\<rparr>))) (\<lambda>s.
       Some (Inr (s, thread))))))))"

definition Scheduler_save :: "'f check \<Rightarrow> 'f tasking \<Rightarrow> nat \<Rightarrow> u32 \<Rightarrow> ('f tasking \<times> u32) kres option" where
  "Scheduler_save check s c cpuState =
     obind (Some (get_scheduler s c)) (\<lambda>sc.
       if sc_currentEntry sc \<noteq> 0
       then obind (Some (at (ts_entries s) (sc_currentEntry sc))) (\<lambda>e.
            obind (Some (upd_thread s (te_value e) (\<lambda>th. th\<lparr>th_cpuState := cpuState\<rparr>))) (\<lambda>s.
              Some (Inr (s, te_value e))))
       else Scheduler_schedule check s c)"

section \<open>Scheduler: queries\<close>

partial_function (option) find_task :: "(u32 \<rightharpoonup> task_entry) \<Rightarrow> (u32 \<Rightarrow> bool kres) \<Rightarrow> u32 \<Rightarrow> u32 kres option" where
  "find_task entries test entry =
     (if entry = 0 then Some (Inr 0)
      else case at entries entry of
             Inl err \<Rightarrow> Some (Inl err)
           | Inr e \<Rightarrow> (case test (te_value e) of
                        Inl err \<Rightarrow> Some (Inl err)
                      | Inr found \<Rightarrow> if found then Some (Inr (te_value e)) else find_task entries test (te_next e)))"

definition find_in_queues :: "'f tasking \<Rightarrow> nat \<Rightarrow> (u32 \<Rightarrow> bool kres) \<Rightarrow> u32 kres option" where
  "find_in_queues s c test =
     obind (Some (get_scheduler s c)) (\<lambda>sc.
     obind (find_task (ts_entries s) test (sc_runQueue sc)) (\<lambda>thread.
       if thread \<noteq> 0 then Some (Inr thread) else find_task (ts_entries s) test (sc_waitQueue sc)))"

definition Scheduler_getTaskById :: "'f tasking \<Rightarrow> nat \<Rightarrow> u32 \<Rightarrow> u32 kres option" where
  "Scheduler_getTaskById s c id' =
     find_in_queues s c (\<lambda>t. kbind (at (ts_threads s) t) (\<lambda>th. Inr (th_alive th \<and> th_id th = id')))"

definition Scheduler_getTaskByIdentifier :: "'f tasking \<Rightarrow> nat \<Rightarrow> string \<Rightarrow> u32 kres option" where
  "Scheduler_getTaskByIdentifier s c identifier =
     find_in_queues s c (\<lambda>t. kbind (at (ts_threads s) t) (\<lambda>th.
       if th_alive th then (case th_identifier th of None \<Rightarrow> Inr False | Some i \<Rightarrow> String_equals i identifier) else Inr False))"

partial_function (option) count_entries :: "(u32 \<rightharpoonup> task_entry) \<Rightarrow> (u32 \<Rightarrow> bool kres) \<Rightarrow> u32 \<Rightarrow> u32 \<Rightarrow> u32 kres option" where
  "count_entries entries test entry count =
     (if entry = 0 then Some (Inr count)
      else case at entries entry of
             Inl err \<Rightarrow> Some (Inl err)
           | Inr e \<Rightarrow> (case test (te_value e) of
                        Inl err \<Rightarrow> Some (Inl err)
                      | Inr c \<Rightarrow> count_entries entries test (te_next e) (if c then count + 1 else count)))"

definition count_queues :: "'f tasking \<Rightarrow> nat \<Rightarrow> (u32 \<Rightarrow> bool kres) \<Rightarrow> u32 kres option" where
  "count_queues s c test =
     obind (Some (get_scheduler s c)) (\<lambda>sc.
     obind (count_entries (ts_entries s) test (sc_runQueue sc) 0) (\<lambda>count.
       count_entries (ts_entries s) test (sc_waitQueue sc) count))"

definition Scheduler_calculateLoad :: "'f tasking \<Rightarrow> nat \<Rightarrow> u32 kres option" where
  "Scheduler_calculateLoad s c = count_queues s c (\<lambda>t. Inr True)"

definition has_type :: "'f tasking \<Rightarrow> u8 \<Rightarrow> u32 \<Rightarrow> bool kres" where
  "has_type s type t = kbind (at (ts_threads s) t) (\<lambda>th. Inr (th_type th = type))"

definition Scheduler_count :: "'f tasking \<Rightarrow> nat \<Rightarrow> u8 \<Rightarrow> u32 kres option" where
  "Scheduler_count s c type = count_queues s c (has_type s type)"

partial_function (option) task_ids_loop :: "'f tasking \<Rightarrow> u8 \<Rightarrow> nat \<Rightarrow> u32 \<Rightarrow> u32 list \<Rightarrow> u32 list kres option" where
  "task_ids_loop s type len entry out =
     (if \<not> (length out < len \<and> entry \<noteq> 0) then Some (Inr out)
      else case at (ts_entries s) entry of
             Inl err \<Rightarrow> Some (Inl err)
           | Inr e \<Rightarrow> (case at (ts_threads s) (te_value e) of
                        Inl err \<Rightarrow> Some (Inl err)
                      | Inr th \<Rightarrow> task_ids_loop s type len (te_next e) (if th_type th = type then out @ [th_id th] else out)))"

text \<open>The numbers that are written to the buffer, of which there are at most as many as it can hold.\<close>

definition Scheduler_getTaskIDs :: "'f tasking \<Rightarrow> nat \<Rightarrow> u32 \<Rightarrow> u8 \<Rightarrow> u32 list kres option" where
  "Scheduler_getTaskIDs s c len type =
     obind (Some (get_scheduler s c)) (\<lambda>sc.
     obind (task_ids_loop s type (unat len) (sc_runQueue sc) []) (\<lambda>out.
       task_ids_loop s type (unat len) (sc_waitQueue sc) out))"

definition Scheduler_lastThread :: "'f tasking \<Rightarrow> nat \<Rightarrow> u32 kres" where
  "Scheduler_lastThread s c =
     kbind (get_scheduler s c) (\<lambda>sc.
       if sc_currentEntry sc \<noteq> 0 then kbind (at (ts_entries s) (sc_currentEntry sc)) (\<lambda>e. Inr (te_value e)) else Inr 0)"

definition APIC_MILLISECONDS_PER_TICK :: u64 where "APIC_MILLISECONDS_PER_TICK = 1"

definition Scheduler_updateMilliseconds :: "'f tasking \<Rightarrow> nat \<Rightarrow> 'f tasking kres" where
  "Scheduler_updateMilliseconds s c =
     kbind (get_scheduler s c) (\<lambda>sc. Inr (put_scheduler s c (sc\<lparr>sc_milliseconds := sc_milliseconds sc + APIC_MILLISECONDS_PER_TICK\<rparr>)))"

section \<open>Tasking\<close>

definition Tasking_enableForThisCore :: "'f tasking \<Rightarrow> nat \<Rightarrow> 'f tasking" where
  "Tasking_enableForThisCore s coreID = put_scheduler s coreID (Scheduler_new (of_nat coreID))"

definition Tasking_currentScheduler :: "'f tasking \<Rightarrow> nat \<Rightarrow> nat kres" where
  "Tasking_currentScheduler s coreID =
     (if ts_schedulers s ! coreID = None then Inl (Panic ''%! no scheduler exists for core %i'') else Inr coreID)"

fun lowest_load :: "'f tasking \<Rightarrow> nat list \<Rightarrow> nat option \<Rightarrow> u32 \<Rightarrow> nat option kres option" where
  "lowest_load s [] lowest lowestLoad = Some (Inr lowest)"
| "lowest_load s (i # is) lowest lowestLoad =
     (if ts_schedulers s ! i = None then lowest_load s is lowest lowestLoad
      else obind (Scheduler_calculateLoad s i) (\<lambda>load.
             if lowest = None \<or> load < lowestLoad then lowest_load s is (Some i) load
             else lowest_load s is lowest lowestLoad))"

definition Tasking_addTask :: "'f tasking \<Rightarrow> nat \<Rightarrow> u32 \<Rightarrow> u32 \<Rightarrow> bool \<Rightarrow> 'f tasking kres option" where
  "Tasking_addTask s core p task enforceCurrentCore =
     obind (if enforceCurrentCore then Some (kbind (Tasking_currentScheduler s core) (\<lambda>c. Inr (Some c)))
            else lowest_load s [0..<length (ts_schedulers s)] None 0) (\<lambda>target.
       case target of
         None \<Rightarrow> Some (Inl (Panic ''%! could not find scheduler to add task to''))
       | Some c \<Rightarrow> Some (Scheduler_add s c p task))"

definition Tasking_schedule :: "'f check \<Rightarrow> 'f tasking \<Rightarrow> nat \<Rightarrow> ('f tasking \<times> u32) kres option" where
  "Tasking_schedule check s core = obind (Some (Tasking_currentScheduler s core)) (Scheduler_schedule check s)"

definition Tasking_save :: "'f check \<Rightarrow> 'f tasking \<Rightarrow> nat \<Rightarrow> u32 \<Rightarrow> ('f tasking \<times> u32) kres option" where
  "Tasking_save check s core cpuState = obind (Some (Tasking_currentScheduler s core)) (\<lambda>c. Scheduler_save check s c cpuState)"

definition Tasking_increaseWaitPriority :: "'f tasking \<Rightarrow> nat \<Rightarrow> u32 \<Rightarrow> 'f tasking kres option" where
  "Tasking_increaseWaitPriority s core thread =
     obind (Some (Tasking_currentScheduler s core)) (\<lambda>c. Scheduler_increaseWaitPriority s c thread)"

definition Tasking_lastThread :: "'f tasking \<Rightarrow> nat \<Rightarrow> u32 kres" where
  "Tasking_lastThread s core = kbind (Tasking_currentScheduler s core) (Scheduler_lastThread s)"

fun search_cores :: "'f tasking \<Rightarrow> (nat \<Rightarrow> u32 kres option) \<Rightarrow> nat list \<Rightarrow> u32 kres option" where
  "search_cores s query [] = Some (Inr 0)"
| "search_cores s query (i # is) =
     (if ts_schedulers s ! i = None then search_cores s query is
      else obind (query i) (\<lambda>task. if task \<noteq> 0 then Some (Inr task) else search_cores s query is))"

definition Tasking_getTaskById :: "'f tasking \<Rightarrow> u32 \<Rightarrow> u32 kres option" where
  "Tasking_getTaskById s id' = search_cores s (\<lambda>c. Scheduler_getTaskById s c id') [0..<length (ts_schedulers s)]"

definition Tasking_getTaskByIdentifier :: "'f tasking \<Rightarrow> string \<Rightarrow> u32 kres option" where
  "Tasking_getTaskByIdentifier s identifier =
     search_cores s (\<lambda>c. Scheduler_getTaskByIdentifier s c identifier) [0..<length (ts_schedulers s)]"

definition Tasking_registerTaskForIdentifier ::
    "(nat \<Rightarrow> char) \<Rightarrow> 'f tasking \<Rightarrow> u32 \<Rightarrow> string \<Rightarrow> ('f tasking \<times> bool) kres option" where
  "Tasking_registerTaskForIdentifier junk s task newIdentifier =
     obind (Tasking_getTaskByIdentifier s newIdentifier) (\<lambda>existing.
       if existing \<noteq> 0 then Some (Inr (s, False))
       else obind (Some (Thread_setIdentifier junk s task newIdentifier)) (\<lambda>s. Some (Inr (s, True))))"

fun sum_cores :: "(nat \<Rightarrow> u32 kres option) \<Rightarrow> nat list \<Rightarrow> u32 \<Rightarrow> u32 kres option" where
  "sum_cores query [] acc = Some (Inr acc)"
| "sum_cores query (i # is) acc = obind (query i) (\<lambda>n. sum_cores query is (acc + n))"

text \<open>The kinds of thread that a set of bits asks for, in the order of the code.\<close>

definition requested_types :: "u8 \<Rightarrow> u8 list" where
  "requested_types type = filter (\<lambda>t. and type t \<noteq> 0) [THREAD_TYPE_MAIN, THREAD_TYPE_VM86, THREAD_TYPE_SUB]"

fun sum_types :: "(u8 \<Rightarrow> u32 \<Rightarrow> u32 kres option) \<Rightarrow> u8 list \<Rightarrow> u32 \<Rightarrow> u32 kres option" where
  "sum_types query [] acc = Some (Inr acc)"
| "sum_types query (t # ts) acc = obind (query t acc) (sum_types query ts)"

definition Tasking_count :: "'f tasking \<Rightarrow> u8 \<Rightarrow> u32 kres option" where
  "Tasking_count s type =
     (if None \<in> set (ts_schedulers s) then Some (Inr 0)
      else sum_types (\<lambda>t. sum_cores (\<lambda>c. Scheduler_count s c t) [0..<length (ts_schedulers s)]) (requested_types type) 0)"

fun ids_cores :: "'f tasking \<Rightarrow> u32 \<Rightarrow> u8 \<Rightarrow> nat list \<Rightarrow> u32 list \<Rightarrow> u32 list kres option" where
  "ids_cores s len type [] out = Some (Inr out)"
| "ids_cores s len type (i # is) out =
     obind (Scheduler_getTaskIDs s i (len - of_nat (length out)) type) (\<lambda>ids. ids_cores s len type is (out @ ids))"

fun ids_types :: "'f tasking \<Rightarrow> u32 \<Rightarrow> u8 list \<Rightarrow> u32 list \<Rightarrow> u32 list kres option" where
  "ids_types s len [] out = Some (Inr out)"
| "ids_types s len (t # ts) out = obind (ids_cores s len t [0..<length (ts_schedulers s)] out) (ids_types s len ts)"

definition Tasking_getTaskIDs :: "'f tasking \<Rightarrow> u32 \<Rightarrow> u8 \<Rightarrow> u32 list kres option" where
  "Tasking_getTaskIDs s len type =
     (if None \<in> set (ts_schedulers s) then Some (Inr []) else ids_types s len (requested_types type) [])"

text \<open>Servers: two names are equal also when there are none, since then the pointers are.\<close>

definition main_name :: "'f tasking \<Rightarrow> u32 \<Rightarrow> string option kres" where
  "main_name s process =
     kbind (at (ts_processes s) process) (\<lambda>p. kbind (at (ts_threads s) (pr_main p)) (\<lambda>th. Inr (th_identifier th)))"

fun names_equal :: "string option \<Rightarrow> string option \<Rightarrow> bool kres" where
  "names_equal None None = Inr True"
| "names_equal (Some a) (Some b) = String_equals a b"
| "names_equal _ _ = Inl NullDeref"

definition Tasking_addServer :: "'f tasking \<Rightarrow> u32 \<Rightarrow> u32 \<Rightarrow> ('f tasking \<times> bool) kres" where
  "Tasking_addServer s node process =
     kbind (at (ts_processes s) process) (\<lambda>p.
       if pr_isServer p then Inr (s, True)
       else kbind (llist_iterate (ts_servers s) (\<lambda>q. kbind (main_name s process) (\<lambda>a. kbind (main_name s q) (names_equal a)))) (\<lambda>found.
              case found of
                Some _ \<Rightarrow> Inr (s, False)
              | None \<Rightarrow> kbind (llist_add (ts_servers s) node process) (\<lambda>servers.
                  Inr (s\<lparr>ts_processes := (ts_processes s)(process \<mapsto> p\<lparr>pr_isServer := True\<rparr>), ts_servers := servers\<rparr>, True))))"

definition Tasking_getServer :: "'f tasking \<Rightarrow> string \<Rightarrow> u32 kres" where
  "Tasking_getServer s identifier =
     kbind (llist_iterate (ts_servers s) (\<lambda>q. kbind (main_name s q) (names_equal (Some identifier)))) (\<lambda>found.
       Inr (case found of None \<Rightarrow> 0 | Some process \<Rightarrow> process))"

end
