(* ===== verification/SchedulerQueues.thy ===== *)
theory SchedulerQueues
  imports Tasking
begin

text \<open>
  The queues of the schedulers as lists: segments of linked entries, what removing and moving an
  entry does to them, and the invariant of the schedulers of all processors: the queues are lists
  without repetition, the threads in a wait queue have a waiter and those in a run queue have none,
  and every thread knows its scheduler.
\<close>

section \<open>Segments of linked entries\<close>

fun seg :: "(u32 \<rightharpoonup> task_entry) \<Rightarrow> u32 \<Rightarrow> u32 list \<Rightarrow> u32 \<Rightarrow> bool" where
  "seg m p [] q = (p = q)"
| "seg m p (a # as) q = (p = a \<and> a \<noteq> 0 \<and> (\<exists>e. m a = Some e \<and> seg m (te_next e) as q))"

definition val :: "(u32 \<rightharpoonup> task_entry) \<Rightarrow> u32 \<Rightarrow> u32" where
  "val m a = te_value (the (m a))"

lemma seg_append: "seg m p (xs @ ys) q \<longleftrightarrow> (\<exists>r. seg m p xs r \<and> seg m r ys q)"
  by (induction xs arbitrary: p) auto

lemma seg_cong: "(\<And>a. a \<in> set as \<Longrightarrow> m' a = m a) \<Longrightarrow> seg m' p as q = seg m p as q"
  by (induction as arbitrary: p) auto

lemma seg_upd_other [simp]: "b \<notin> set as \<Longrightarrow> seg (m(b \<mapsto> e)) p as q = seg m p as q"
  by (rule seg_cong) auto

lemma seg_del_other [simp]: "b \<notin> set as \<Longrightarrow> seg (m(b := None)) p as q = seg m p as q"
  by (rule seg_cong) auto

lemma seg_null: "seg m 0 as q \<Longrightarrow> as = []"
  by (cases as) auto

lemma seg_head: "seg m p as 0 \<Longrightarrow> p \<noteq> 0 \<Longrightarrow> \<exists>bs. as = p # bs"
  by (cases as) auto

lemma seg_mem: "seg m p as q \<Longrightarrow> a \<in> set as \<Longrightarrow> a \<noteq> 0 \<and> (\<exists>e. m a = Some e)"
  by (induction as arbitrary: p) auto

text \<open>Two maps with the same threads in the entries.\<close>

definition same_vals :: "(u32 \<rightharpoonup> task_entry) \<Rightarrow> (u32 \<rightharpoonup> task_entry) \<Rightarrow> bool" where
  "same_vals m m' \<longleftrightarrow> (\<forall>b. map_option te_value (m' b) = map_option te_value (m b))"

lemma same_vals_val:
  assumes "same_vals m m'"
  shows "val m' a = val m a"
proof -
  have "map_option te_value (m' a) = map_option te_value (m a)" using assms by (simp add: same_vals_def)
  then show ?thesis by (cases "m a"; cases "m' a") (auto simp: val_def)
qed

lemma same_vals_refl [simp]: "same_vals m m"
  by (simp add: same_vals_def)

lemma same_vals_upd: "same_vals m m' \<Longrightarrow> m' a = Some e \<Longrightarrow> same_vals m (m'(a \<mapsto> e\<lparr>te_next := n\<rparr>))"
  by (auto simp: same_vals_def) (metis option.simps(9))

lemma same_vals_Some: "same_vals m m' \<Longrightarrow> m a = Some e \<Longrightarrow> \<exists>e'. m' a = Some e' \<and> te_value e' = te_value e"
  unfolding same_vals_def by (metis map_option_eq_Some)

section \<open>Removal from a queue\<close>

lemma remove_loop_absent:
  assumes "seg m p as 0" and "t \<notin> val m ` set as"
  shows "remove_loop m t prev p = Some (Inr (m, 0))"
  using assms
proof (induction as arbitrary: p prev)
  case Nil
  then show ?case by (simp add: remove_loop.simps)
next
  case (Cons a as)
  then show ?case by (subst remove_loop.simps) (auto simp: at_Inr val_def)
qed

lemma remove_loop_found:
  assumes "seg m p (xs @ a # ys) 0" and "t \<notin> val m ` set xs" and "val m a = t"
    and "last (prev # xs) \<noteq> 0" and "m (last (prev # xs)) = Some q" and "m a = Some e"
  shows "remove_loop m t prev p = Some (Inr (m(last (prev # xs) \<mapsto> q\<lparr>te_next := te_next e\<rparr>), a))"
  using assms
proof (induction xs arbitrary: p prev)
  case Nil
  then show ?case by (subst remove_loop.simps) (auto simp: at_Inr at_upd_def val_def)
next
  case (Cons x xs)
  obtain ex where ex: "m x = Some ex" "p = x" "x \<noteq> 0" "seg m (te_next ex) (xs @ a # ys) 0" using Cons.prems(1) by auto
  have "te_value ex \<noteq> t" using Cons.prems(2) ex by (auto simp: val_def)
  then have "remove_loop m t prev p = remove_loop m t x (te_next ex)"
    using ex by (subst remove_loop.simps) (simp add: at_Inr)
  also have "\<dots> = Some (Inr (m(last (x # xs) \<mapsto> q\<lparr>te_next := te_next e\<rparr>), a))"
    by (rule Cons.IH) (use Cons.prems ex in auto)
  finally show ?case unfolding last_ConsR [OF list.distinct(2)] .
qed

lemma remove_absent:
  assumes "seg m h as 0" and "t \<notin> val m ` set as"
  shows "Scheduler_removeFromQueue m h t = Some (Inr (m, h, 0))"
proof (cases as)
  case Nil
  then show ?thesis using assms by (simp add: Scheduler_removeFromQueue_def)
next
  case (Cons a bs)
  then show ?thesis using assms remove_loop_absent [OF assms]
    by (auto simp: Scheduler_removeFromQueue_def at_Inr val_def)
qed

lemma seg_relink:
  assumes "seg m p (xs @ [x]) a" and "distinct (xs @ [x])" and "m x = Some q"
  shows "seg (m(x \<mapsto> q\<lparr>te_next := n\<rparr>)) p (xs @ [x]) n"
  using assms by (auto simp: seg_append)

lemma remove_found:
  assumes "seg m h (xs @ a # ys) 0" and "distinct (map (val m) (xs @ a # ys))"
  shows "\<exists>m' h'. Scheduler_removeFromQueue m h (val m a) = Some (Inr (m', h', a)) \<and> seg m' h' (xs @ ys) 0 \<and>
    (\<forall>b. b \<notin> set xs \<longrightarrow> m' b = m b) \<and> same_vals m m'"
proof (cases xs rule: rev_cases)
  case Nil
  then show ?thesis using assms by (auto simp: Scheduler_removeFromQueue_def at_Inr val_def intro!: exI [of _ m])
next
  case (snoc zs z)
  obtain q where q: "z \<noteq> 0" "m z = Some q" using seg_mem [OF assms(1), of z] snoc by auto
  obtain e where e: "m a = Some e" "a \<noteq> 0" using seg_mem [OF assms(1), of a] by auto
  have nin: "val m a \<notin> val m ` set xs" using assms(2) by auto
  have dist: "distinct (xs @ a # ys)" using assms(2) unfolding distinct_map by blast
  obtain x xs' where x: "xs = x # xs'" using snoc by (metis Nil_is_append_conv list.exhaust not_Cons_self2)
  have lz: "last (x # xs') = z" using snoc x by (metis last_snoc)
  obtain ex where ex: "m x = Some ex" "h = x" "x \<noteq> 0" "seg m (te_next ex) (xs' @ a # ys) 0" using assms(1) x by auto
  have vx: "te_value ex \<noteq> val m a" using nin x ex by (auto simp: val_def)
  let ?m = "m(z \<mapsto> q\<lparr>te_next := te_next e\<rparr>)"
  have "remove_loop m (val m a) 0 h = remove_loop m (val m a) x (te_next ex)"
    using ex vx by (subst remove_loop.simps) (simp add: at_Inr)
  also have "\<dots> = Some (Inr (m(last (x # xs') \<mapsto> q\<lparr>te_next := te_next e\<rparr>), a))"
    by (rule remove_loop_found [OF ex(4)]) (use nin x lz q e in \<open>auto simp del: last.simps\<close>)
  also note lz
  finally have "Scheduler_removeFromQueue m h (val m a) = Some (Inr (?m, h, a))"
    using ex vx snoc x by (auto simp: Scheduler_removeFromQueue_def at_Inr)
  moreover have "seg ?m h (xs @ ys) 0"
  proof -
    have "seg m h (zs @ [z]) a" "seg m (te_next e) ys 0" using assms(1) snoc e by (auto simp: seg_append)
    then have "seg ?m h (zs @ [z]) (te_next e)" "seg ?m (te_next e) ys 0"
      using seg_relink [of m h zs z a q "te_next e"] q dist snoc by auto
    then show ?thesis using snoc by (auto simp: seg_append)
  qed
  moreover have "same_vals m ?m" using q by (intro same_vals_upd) auto
  ultimately show ?thesis using snoc by (intro exI [of _ ?m] exI [of _ h]) auto
qed

text \<open>Removing an entry and putting it in front of another queue.\<close>

lemma remove_push:
  assumes "seg m h (xs @ a # ys) 0" and "seg m p Q 0" and "distinct (map (val m) (Q @ xs @ a # ys))"
  shows "\<exists>m' h' m''. Scheduler_removeFromQueue m h (val m a) = Some (Inr (m', h', a)) \<and>
    at_upd m' a (\<lambda>e. e\<lparr>te_next := p\<rparr>) = Inr m'' \<and> seg m'' h' (xs @ ys) 0 \<and> seg m'' a (a # Q) 0 \<and>
    (\<forall>b. b \<notin> insert a (set xs) \<longrightarrow> m'' b = m b) \<and> same_vals m m''"
proof -
  obtain m' h' where r: "Scheduler_removeFromQueue m h (val m a) = Some (Inr (m', h', a))" "seg m' h' (xs @ ys) 0"
    "\<And>b. b \<notin> set xs \<Longrightarrow> m' b = m b" "same_vals m m'"
    using remove_found [OF assms(1)] assms(3) by auto
  obtain e where e: "m a = Some e" "a \<noteq> 0" using seg_mem [OF assms(1), of a] by auto
  have dist: "distinct (Q @ xs @ a # ys)" using assms(3) unfolding distinct_map by blast
  then have a': "m' a = Some e" using r(3) e by simp
  have Q: "seg m' p Q 0" using seg_cong [of Q m' m p 0] r(3) dist assms(2) by auto
  let ?m = "m'(a \<mapsto> e\<lparr>te_next := p\<rparr>)"
  have "at_upd m' a (\<lambda>e. e\<lparr>te_next := p\<rparr>) = Inr ?m" using a' e by (simp add: at_upd_def at_Inr)
  moreover have "seg ?m h' (xs @ ys) 0" using r(2) dist by (subst seg_upd_other) auto
  moreover have "seg ?m a (a # Q) 0" using Q dist e by auto
  moreover have "same_vals m ?m" by (rule same_vals_upd [OF r(4) a'])
  ultimately show ?thesis using r by (intro exI [of _ m'] exI [of _ h'] exI [of _ ?m]) auto
qed

lemma remove_raise:
  assumes "seg m h (xs @ a # ys) 0" and "distinct (map (val m) (xs @ a # ys))"
  shows "\<exists>m' h' m''. Scheduler_removeFromQueue m h (val m a) = Some (Inr (m', h', a)) \<and>
    at_upd m' a (\<lambda>e. e\<lparr>te_next := h'\<rparr>) = Inr m'' \<and> seg m'' a (a # xs @ ys) 0 \<and>
    (\<forall>b. b \<notin> insert a (set xs) \<longrightarrow> m'' b = m b) \<and> same_vals m m''"
proof -
  obtain m' h' where r: "Scheduler_removeFromQueue m h (val m a) = Some (Inr (m', h', a))" "seg m' h' (xs @ ys) 0"
    "\<And>b. b \<notin> set xs \<Longrightarrow> m' b = m b" "same_vals m m'"
    using remove_found [OF assms] by auto
  obtain e where e: "m a = Some e" "a \<noteq> 0" using seg_mem [OF assms(1), of a] by auto
  have dist: "distinct (xs @ a # ys)" using assms(2) unfolding distinct_map by blast
  then have a': "m' a = Some e" using r(3) e by simp
  let ?m = "m'(a \<mapsto> e\<lparr>te_next := h'\<rparr>)"
  have "at_upd m' a (\<lambda>e. e\<lparr>te_next := h'\<rparr>) = Inr ?m" using a' e by (simp add: at_upd_def at_Inr)
  moreover have "seg ?m a (a # xs @ ys) 0" using r(2) dist e seg_upd_other [of a "xs @ ys" m'] by auto
  moreover have "same_vals m ?m" by (rule same_vals_upd [OF r(4) a'])
  ultimately show ?thesis using r by (intro exI [of _ m'] exI [of _ h'] exI [of _ ?m]) auto
qed

section \<open>The queues of a scheduler\<close>

lemma get_put [simp]: "c < length (ts_schedulers s) \<Longrightarrow> get_scheduler (put_scheduler s c sc) d = (if c = d then Inr sc else get_scheduler s d)"
  by (simp add: get_scheduler_def put_scheduler_def nth_list_update)

lemma get_less: "get_scheduler s c = Inr sc \<Longrightarrow> c < length (ts_schedulers s)"
  by (simp add: get_scheduler_def split: if_splits)

lemma get_entries [simp]: "get_scheduler (s\<lparr>ts_entries := m\<rparr>) c = get_scheduler s c"
  "get_scheduler (s\<lparr>ts_threads := ths\<rparr>) c = get_scheduler s c" "get_scheduler (s\<lparr>ts_ipc := ipc\<rparr>) c = get_scheduler s c"
  "get_scheduler (s\<lparr>ts_cpus := cpus\<rparr>) c = get_scheduler s c"
  by (simp_all add: get_scheduler_def)

lemma put_fields [simp]:
  "ts_entries (put_scheduler s c sc) = ts_entries s" "ts_threads (put_scheduler s c sc) = ts_threads s"
  "ts_processes (put_scheduler s c sc) = ts_processes s" "ts_cpus (put_scheduler s c sc) = ts_cpus s"
  "ts_ipc (put_scheduler s c sc) = ts_ipc s" "ts_user (put_scheduler s c sc) = ts_user s"
  "ts_servers (put_scheduler s c sc) = ts_servers s" "ts_irqsWaiting (put_scheduler s c sc) = ts_irqsWaiting s"
  "ts_irqHandlers (put_scheduler s c sc) = ts_irqHandlers s" "ts_taskIdCounter (put_scheduler s c sc) = ts_taskIdCounter s"
  "length (ts_schedulers (put_scheduler s c sc)) = length (ts_schedulers s)"
  by (simp_all add: put_scheduler_def)

definition queues :: "'f tasking \<Rightarrow> nat \<Rightarrow> scheduler \<Rightarrow> u32 list \<Rightarrow> u32 list \<Rightarrow> bool" where
  "queues s c sc R W \<longleftrightarrow> get_scheduler s c = Inr sc \<and> seg (ts_entries s) (sc_runQueue sc) R 0 \<and>
     seg (ts_entries s) (sc_waitQueue sc) W 0 \<and> distinct (map (val (ts_entries s)) (R @ W))"

text \<open>What an operation on the queues of one scheduler may change.\<close>

definition relinked :: "'f tasking \<Rightarrow> nat \<Rightarrow> u32 set \<Rightarrow> scheduler \<Rightarrow> 'f tasking \<Rightarrow> bool" where
  "relinked s c A sc s' \<longleftrightarrow> (\<exists>m. s' = put_scheduler (s\<lparr>ts_entries := m\<rparr>) c sc \<and> same_vals (ts_entries s) m \<and>
     (\<forall>b. b \<notin> A \<longrightarrow> m b = ts_entries s b))"

lemma moveToRunQueue_found:
  assumes "queues s c sc R (xs @ a # ys)"
  shows "\<exists>s' h. Scheduler_moveToRunQueue s c (val (ts_entries s) a) = Some (Inr s') \<and>
    relinked s c (set (xs @ [a])) (sc\<lparr>sc_waitQueue := h, sc_runQueue := a\<rparr>) s' \<and>
    queues s' c (sc\<lparr>sc_waitQueue := h, sc_runQueue := a\<rparr>) (a # R) (xs @ ys)"
proof -
  have q: "get_scheduler s c = Inr sc" "seg (ts_entries s) (sc_runQueue sc) R 0" "seg (ts_entries s) (sc_waitQueue sc) (xs @ a # ys) 0"
    "distinct (map (val (ts_entries s)) (R @ xs @ a # ys))" using assms by (auto simp: queues_def)
  obtain m h m' where r: "Scheduler_removeFromQueue (ts_entries s) (sc_waitQueue sc) (val (ts_entries s) a) = Some (Inr (m, h, a))"
    "at_upd m a (\<lambda>e. e\<lparr>te_next := sc_runQueue sc\<rparr>) = Inr m'" "seg m' h (xs @ ys) 0" "seg m' a (a # R) 0"
    "\<forall>b. b \<notin> insert a (set xs) \<longrightarrow> m' b = ts_entries s b" "same_vals (ts_entries s) m'"
    using remove_push [OF q(3,2,4)] by blast
  have v: "val m' = val (ts_entries s)" using same_vals_val [OF r(6)] by (rule ext)
  let ?sc = "sc\<lparr>sc_waitQueue := h, sc_runQueue := a\<rparr>" and ?s = "s\<lparr>ts_entries := m'\<rparr>"
  have "Scheduler_moveToRunQueue s c (val (ts_entries s) a) = Some (Inr (put_scheduler ?s c ?sc))"
    using q(1) r(1,2,4) by (simp add: Scheduler_moveToRunQueue_def Let_def)
  moreover have "relinked s c (set (xs @ [a])) ?sc (put_scheduler ?s c ?sc)" unfolding relinked_def using r(5,6) by auto
  moreover have "queues (put_scheduler ?s c ?sc) c ?sc (a # R) (xs @ ys)"
    using q(4) r(3,4) get_less [OF q(1)] v by (auto simp: queues_def simp del: seg.simps)
  ultimately show ?thesis by blast
qed

lemma moveToWaitQueue_found:
  assumes "queues s c sc (xs @ a # ys) W"
  shows "\<exists>s' h sc'. Scheduler_moveToWaitQueue s c (val (ts_entries s) a) = Some (Inr s') \<and>
    sc' = sc\<lparr>sc_runQueue := h, sc_waitQueue := a, sc_currentEntry := if a = sc_currentEntry sc then 0 else sc_currentEntry sc\<rparr> \<and>
    relinked s c (set (xs @ [a])) sc' s' \<and> queues s' c sc' (xs @ ys) (a # W)"
proof -
  have q: "get_scheduler s c = Inr sc" "seg (ts_entries s) (sc_runQueue sc) (xs @ a # ys) 0" "seg (ts_entries s) (sc_waitQueue sc) W 0"
    "distinct (map (val (ts_entries s)) (W @ xs @ a # ys))" using assms by (auto simp: queues_def)
  obtain m h m' where r: "Scheduler_removeFromQueue (ts_entries s) (sc_runQueue sc) (val (ts_entries s) a) = Some (Inr (m, h, a))"
    "at_upd m a (\<lambda>e. e\<lparr>te_next := sc_waitQueue sc\<rparr>) = Inr m'" "seg m' h (xs @ ys) 0" "seg m' a (a # W) 0"
    "\<forall>b. b \<notin> insert a (set xs) \<longrightarrow> m' b = ts_entries s b" "same_vals (ts_entries s) m'"
    using remove_push [OF q(2,3,4)] by blast
  have v: "val m' = val (ts_entries s)" using same_vals_val [OF r(6)] by (rule ext)
  let ?sc = "sc\<lparr>sc_runQueue := h, sc_waitQueue := a, sc_currentEntry := if a = sc_currentEntry sc then 0 else sc_currentEntry sc\<rparr>"
    and ?s = "s\<lparr>ts_entries := m'\<rparr>"
  have "Scheduler_moveToWaitQueue s c (val (ts_entries s) a) = Some (Inr (put_scheduler ?s c ?sc))"
    using q(1) r(1,2,4) by (simp add: Scheduler_moveToWaitQueue_def Let_def)
  moreover have "relinked s c (set (xs @ [a])) ?sc (put_scheduler ?s c ?sc)" unfolding relinked_def using r(5,6) by auto
  moreover have "queues (put_scheduler ?s c ?sc) c ?sc (xs @ ys) (a # W)"
    using q(4) r(3,4) get_less [OF q(1)] v by (auto simp: queues_def simp del: seg.simps)
  ultimately show ?thesis by blast
qed

lemma increaseWaitPriority_found:
  assumes "queues s c sc R (xs @ a # ys)"
  shows "\<exists>s'. Scheduler_increaseWaitPriority s c (val (ts_entries s) a) = Some (Inr s') \<and>
    relinked s c (set (xs @ [a])) (sc\<lparr>sc_waitQueue := a\<rparr>) s' \<and> queues s' c (sc\<lparr>sc_waitQueue := a\<rparr>) R (a # xs @ ys)"
proof -
  have q: "get_scheduler s c = Inr sc" "seg (ts_entries s) (sc_runQueue sc) R 0" "seg (ts_entries s) (sc_waitQueue sc) (xs @ a # ys) 0"
    "distinct (map (val (ts_entries s)) (R @ xs @ a # ys))" using assms by (auto simp: queues_def)
  obtain m h m' where r: "Scheduler_removeFromQueue (ts_entries s) (sc_waitQueue sc) (val (ts_entries s) a) = Some (Inr (m, h, a))"
    "at_upd m a (\<lambda>e. e\<lparr>te_next := h\<rparr>) = Inr m'" "seg m' a (a # xs @ ys) 0"
    "\<forall>b. b \<notin> insert a (set xs) \<longrightarrow> m' b = ts_entries s b" "same_vals (ts_entries s) m'"
    using remove_raise [OF q(3)] q(4) by auto
  have "distinct (R @ xs @ a # ys)" using q(4) unfolding distinct_map by blast
  then have "\<And>b. b \<in> set R \<Longrightarrow> m' b = ts_entries s b" using r(4) by auto
  then have R: "seg m' (sc_runQueue sc) R 0" using q(2) seg_cong [of R m' "ts_entries s" "sc_runQueue sc" 0] by blast
  have v: "val m' = val (ts_entries s)" using same_vals_val [OF r(5)] by (rule ext)
  let ?sc = "sc\<lparr>sc_waitQueue := a\<rparr>" and ?s = "s\<lparr>ts_entries := m'\<rparr>"
  have "Scheduler_increaseWaitPriority s c (val (ts_entries s) a) = Some (Inr (put_scheduler ?s c ?sc))"
    using q(1) r(1,2,3) by (simp add: Scheduler_increaseWaitPriority_def)
  moreover have "relinked s c (set (xs @ [a])) ?sc (put_scheduler ?s c ?sc)" unfolding relinked_def using r(4,5) by auto
  moreover have "queues (put_scheduler ?s c ?sc) c ?sc R (a # xs @ ys)"
    using q(4) R r(3) get_less [OF q(1)] v by (auto simp: queues_def simp del: seg.simps)
  ultimately show ?thesis by blast
qed

lemma move_absent:
  assumes "queues s c sc R W"
  shows "t \<notin> val (ts_entries s) ` set W \<Longrightarrow> Scheduler_moveToRunQueue s c t = Some (Inr s)"
    and "t \<notin> val (ts_entries s) ` set W \<Longrightarrow> Scheduler_increaseWaitPriority s c t = Some (Inr s)"
    and "t \<notin> val (ts_entries s) ` set R \<Longrightarrow> Scheduler_moveToWaitQueue s c t = Some (Inr s)"
proof -
  have "ts_schedulers s ! c = Some sc" using assms by (auto simp: queues_def get_scheduler_def split: if_splits option.splits)
  then have "(ts_schedulers s)[c := Some sc] = ts_schedulers s" by (metis list_update_id)
  then have same: "put_scheduler s c sc = s" by (simp add: put_scheduler_def)
  have q: "get_scheduler s c = Inr sc" "seg (ts_entries s) (sc_runQueue sc) R 0" "seg (ts_entries s) (sc_waitQueue sc) W 0"
    using assms by (auto simp: queues_def)
  have id': "s\<lparr>ts_entries := ts_entries s\<rparr> = s" "sc\<lparr>sc_waitQueue := sc_waitQueue sc\<rparr> = sc" "sc\<lparr>sc_runQueue := sc_runQueue sc\<rparr> = sc"
    by simp_all
  show "Scheduler_moveToRunQueue s c t = Some (Inr s)" "Scheduler_increaseWaitPriority s c t = Some (Inr s)"
    if "t \<notin> val (ts_entries s) ` set W"
    using remove_absent [OF q(3) that] q(1) same id'
    by (simp_all add: Scheduler_moveToRunQueue_def Scheduler_increaseWaitPriority_def)
  show "Scheduler_moveToWaitQueue s c t = Some (Inr s)" if "t \<notin> val (ts_entries s) ` set R"
    using remove_absent [OF q(2) that] q(1) same id' by (simp add: Scheduler_moveToWaitQueue_def)
qed

section \<open>The invariant\<close>

text \<open>
  A thread in a queue of a processor: it belongs to its scheduler, it has a waiter exactly when it
  is in the wait queue, and its process and its saved context exist.
\<close>

definition thread_ok :: "'f tasking \<Rightarrow> nat \<Rightarrow> bool \<Rightarrow> 'f thread \<Rightarrow> bool" where
  "thread_ok s c waiting th \<longleftrightarrow> th_scheduler th = Some c \<and> (th_waitManager th \<noteq> None \<longleftrightarrow> waiting) \<and>
     th_process th \<noteq> 0 \<and> ts_processes s (th_process th) \<noteq> None \<and> th_cpuState th \<noteq> 0 \<and> ts_cpus s (th_cpuState th) \<noteq> None"

definition task_ok :: "'f tasking \<Rightarrow> nat \<Rightarrow> bool \<Rightarrow> u32 \<Rightarrow> bool" where
  "task_ok s c waiting t \<longleftrightarrow> t \<noteq> 0 \<and> (\<exists>th. ts_threads s t = Some th \<and> thread_ok s c waiting th)"

definition idle_ok :: "'f tasking \<Rightarrow> nat \<Rightarrow> scheduler \<Rightarrow> u32 list \<Rightarrow> bool" where
  "idle_ok s c sc Q \<longleftrightarrow> (sc_idleEntry sc \<noteq> 0 \<longrightarrow> (\<exists>e. ts_entries s (sc_idleEntry sc) = Some e \<and> te_next e = 0 \<and>
     te_value e \<notin> val (ts_entries s) ` set Q \<and> task_ok s c False (te_value e)))"

definition core_ok :: "'f tasking \<Rightarrow> nat \<Rightarrow> scheduler \<Rightarrow> u32 list \<Rightarrow> u32 list \<Rightarrow> bool" where
  "core_ok s c sc R W \<longleftrightarrow> queues s c sc R W \<and> (\<forall>a\<in>set R. task_ok s c False (val (ts_entries s) a)) \<and>
     (\<forall>a\<in>set W. task_ok s c True (val (ts_entries s) a)) \<and> idle_ok s c sc (R @ W)"

definition wf :: "'f tasking \<Rightarrow> (nat \<Rightarrow> u32 list \<times> u32 list) \<Rightarrow> bool" where
  "wf s V \<longleftrightarrow> (\<forall>c sc. get_scheduler s c = Inr sc \<longrightarrow> core_ok s c sc (fst (V c)) (snd (V c))) \<and> (\<exists>A. ipc_rep (ts_ipc s) A)"

text \<open>Steps that only touch one processor: the entries and the threads of the others stay.\<close>

definition only_core :: "'f tasking \<Rightarrow> nat \<Rightarrow> 'f tasking \<Rightarrow> bool" where
  "only_core s c s' \<longleftrightarrow> (\<forall>d. d \<noteq> c \<longrightarrow> get_scheduler s' d = get_scheduler s d) \<and>
     (\<forall>d w a. d \<noteq> c \<longrightarrow> ts_entries s a \<noteq> None \<longrightarrow> task_ok s d w (val (ts_entries s) a) \<longrightarrow> ts_entries s' a = ts_entries s a) \<and>
     (\<forall>d w t. d \<noteq> c \<longrightarrow> task_ok s d w t \<longrightarrow> task_ok s' d w t)"

lemma core_ok_other:
  assumes "core_ok s d sc R W" and "only_core s c s'" and "d \<noteq> c"
  shows "core_ok s' d sc R W"
proof -
  have q: "queues s d sc R W" and t: "\<forall>a\<in>set R. task_ok s d False (val (ts_entries s) a)" "\<forall>a\<in>set W. task_ok s d True (val (ts_entries s) a)"
    and i: "idle_ok s d sc (R @ W)" using assms(1) by (auto simp: core_ok_def)
  have e: "ts_entries s' a = ts_entries s a" if "a \<in> set (R @ W)" for a
  proof -
    have "ts_entries s a \<noteq> None" using seg_mem q that by (fastforce simp: queues_def)
    moreover have "\<exists>w. task_ok s d w (val (ts_entries s) a)" using t that by auto
    ultimately show ?thesis using assms(2,3) by (auto simp: only_core_def)
  qed
  then have v: "val (ts_entries s') a = val (ts_entries s) a" if "a \<in> set (R @ W)" for a using that by (simp add: val_def)
  have "seg (ts_entries s') p R 0 = seg (ts_entries s) p R 0" "seg (ts_entries s') p W 0 = seg (ts_entries s) p W 0" for p
    using e by (auto intro!: seg_cong)
  moreover have "map (val (ts_entries s')) (R @ W) = map (val (ts_entries s)) (R @ W)" using v by simp
  moreover have "get_scheduler s' d = get_scheduler s d" using assms(2,3) by (simp add: only_core_def)
  ultimately have "queues s' d sc R W" using q by (simp only: queues_def simp_thms)
  moreover have "idle_ok s' d sc (R @ W)"
  proof (cases "sc_idleEntry sc = 0")
    case False
    then obtain e where e': "ts_entries s (sc_idleEntry sc) = Some e" "te_next e = 0" "te_value e \<notin> val (ts_entries s) ` set (R @ W)"
      "task_ok s d False (te_value e)" using i by (auto simp: idle_ok_def)
    then have "ts_entries s' (sc_idleEntry sc) = Some e" using assms(2,3) by (auto simp: only_core_def val_def)
    moreover have "val (ts_entries s') ` set (R @ W) = val (ts_entries s) ` set (R @ W)" using v by (intro image_cong) auto
    moreover have "task_ok s' d False (te_value e)" using assms(2,3) e'(4) by (simp add: only_core_def)
    ultimately show ?thesis using e' by (simp add: idle_ok_def)
  qed (simp add: idle_ok_def)
  moreover have "\<forall>a\<in>set R. task_ok s' d False (val (ts_entries s') a)" "\<forall>a\<in>set W. task_ok s' d True (val (ts_entries s') a)"
    using t v assms(2,3) by (auto simp: only_core_def)
  ultimately show ?thesis by (simp add: core_ok_def)
qed

lemma wf_core: "wf s V \<Longrightarrow> get_scheduler s c = Inr sc \<Longrightarrow> core_ok s c sc (fst (V c)) (snd (V c))"
  by (simp add: wf_def)

lemma wf_ipc: "wf s V \<Longrightarrow> \<exists>A. ipc_rep (ts_ipc s) A"
  by (simp add: wf_def)

lemma wf_step:
  assumes "wf s V" and "only_core s c s'" and "core_ok s' c sc' R W" and "\<exists>A. ipc_rep (ts_ipc s') A"
  shows "wf s' (V(c := (R, W)))"
proof -
  have "core_ok s' d sc (fst ((V(c := (R, W))) d)) (snd ((V(c := (R, W))) d))" if "get_scheduler s' d = Inr sc" for d sc
  proof (cases "d = c")
    case True
    then show ?thesis using assms(3) that by (simp add: core_ok_def queues_def)
  next
    case False
    then have "get_scheduler s d = Inr sc" using assms(2) that by (simp add: only_core_def)
    then show ?thesis using core_ok_other [OF wf_core [OF assms(1)] assms(2)] False by simp
  qed
  then show ?thesis using assms(4) by (auto simp: wf_def)
qed

text \<open>Changes of the entries of one processor that keep their threads, and of its threads.\<close>

lemma only_core_I:
  assumes "core_ok s c sc R W" and "\<And>d. d \<noteq> c \<Longrightarrow> get_scheduler s' d = get_scheduler s d"
    and "\<And>b. b \<notin> set (R @ W) \<Longrightarrow> ts_entries s b \<noteq> None \<Longrightarrow> ts_entries s' b = ts_entries s b"
    and "\<And>u th. ts_threads s u = Some th \<Longrightarrow> th_scheduler th \<noteq> Some c \<Longrightarrow> ts_threads s' u = Some th"
    and "\<And>p. ts_processes s p \<noteq> None \<Longrightarrow> ts_processes s' p \<noteq> None"
    and "\<And>p. ts_cpus s p \<noteq> None \<Longrightarrow> ts_cpus s' p \<noteq> None"
  shows "only_core s c s'"
proof -
  have "a \<notin> set (R @ W)" if "d \<noteq> c" "task_ok s d w (val (ts_entries s) a)" for d w a
    using assms(1) that by (auto simp: core_ok_def task_ok_def thread_ok_def)
  moreover have "task_ok s' d w t" if "d \<noteq> c" "task_ok s d w t" for d w t
    using that assms(4-6) by (fastforce simp: task_ok_def thread_ok_def)
  ultimately show ?thesis using assms(2,3) unfolding only_core_def by blast
qed

lemma core_ok_relink:
  assumes "core_ok s c sc R W" and "queues s' c sc' R' W'" and "sc_idleEntry sc' = sc_idleEntry sc"
    and "set (R' @ W') \<subseteq> set (R @ W)" and "\<And>b. b \<in> set (R' @ W') \<Longrightarrow> val (ts_entries s') b = val (ts_entries s) b"
    and "\<And>b. b \<notin> set (R @ W) \<Longrightarrow> ts_entries s' b = ts_entries s b"
    and "\<And>a. a \<in> set R' \<Longrightarrow> task_ok s' c False (val (ts_entries s) a)"
    and "\<And>a. a \<in> set W' \<Longrightarrow> task_ok s' c True (val (ts_entries s) a)"
    and "\<And>t. t \<notin> val (ts_entries s) ` set (R @ W) \<Longrightarrow> task_ok s c False t \<Longrightarrow> task_ok s' c False t"
  shows "core_ok s' c sc' R' W'"
proof -
  have "idle_ok s' c sc' (R' @ W')"
  proof (cases "sc_idleEntry sc = 0")
    case False
    then obtain e where e: "ts_entries s (sc_idleEntry sc) = Some e" "te_next e = 0" "te_value e \<notin> val (ts_entries s) ` set (R @ W)"
      "task_ok s c False (te_value e)" using assms(1) by (auto simp: core_ok_def idle_ok_def)
    have "val (ts_entries s) (sc_idleEntry sc) = te_value e" using e(1) by (simp add: val_def)
    then have "sc_idleEntry sc \<notin> set (R @ W)" using e(3) by (metis imageI)
    moreover have "val (ts_entries s') ` set (R' @ W') \<subseteq> val (ts_entries s) ` set (R @ W)" using assms(4,5) by fastforce
    ultimately show ?thesis using e assms(3,6,9) by (auto simp: idle_ok_def)
  qed (use assms(3) in \<open>simp add: idle_ok_def\<close>)
  then show ?thesis using assms(2,5,7,8) by (auto simp: core_ok_def)
qed

section \<open>Waiting and removal\<close>

lemma thread_ok_upd [simp]:
  "thread_ok (s\<lparr>ts_threads := T\<rparr>) c w th = thread_ok s c w th" "thread_ok (s\<lparr>ts_entries := m\<rparr>) c w th = thread_ok s c w th"
  "thread_ok (s\<lparr>ts_ipc := i\<rparr>) c w th = thread_ok s c w th" "thread_ok (put_scheduler s d sc) c w th = thread_ok s c w th"
  by (simp_all add: thread_ok_def)

text \<open>Everything but the entries, the threads, the schedulers, the messages and the contents of the saved contexts.\<close>

definition same_rest :: "'f tasking \<Rightarrow> 'f tasking \<Rightarrow> bool" where
  "same_rest s s' \<longleftrightarrow> ts_processes s' = ts_processes s \<and> dom (ts_cpus s') = dom (ts_cpus s) \<and> ts_user s' = ts_user s \<and>
     ts_irqsWaiting s' = ts_irqsWaiting s \<and> ts_irqHandlers s' = ts_irqHandlers s \<and> ts_servers s' = ts_servers s"

lemma same_rest_refl [simp]: "same_rest s s"
  by (simp add: same_rest_def)

lemma same_rest_trans [trans]: "same_rest s s' \<Longrightarrow> same_rest s' s'' \<Longrightarrow> same_rest s s''"
  by (simp add: same_rest_def)

lemma same_rest_simps [simp]:
  "same_rest s (put_scheduler s' c sc) = same_rest s s'" "same_rest s (s'\<lparr>ts_entries := m\<rparr>) = same_rest s s'"
  "same_rest s (s'\<lparr>ts_threads := T\<rparr>) = same_rest s s'" "same_rest s (s'\<lparr>ts_ipc := i\<rparr>) = same_rest s s'"
  "same_rest (s\<lparr>ts_threads := T\<rparr>) s' = same_rest s s'"
  by (simp_all add: same_rest_def)

lemma unwait_wf:
  assumes "wf s V" and "get_scheduler s c = Inr sc" and "V c = (R, xs @ a # ys)"
    and "ts_threads s (val (ts_entries s) a) = Some th"
  shows "\<exists>s' h. Thread_unwait s (val (ts_entries s) a) = Some (Inr s') \<and> wf s' (V(c := (a # R, xs @ ys))) \<and>
    get_scheduler s' c = Inr (sc\<lparr>sc_waitQueue := h, sc_runQueue := a\<rparr>) \<and>
    (\<forall>d. d \<noteq> c \<longrightarrow> get_scheduler s' d = get_scheduler s d) \<and>
    same_vals (ts_entries s) (ts_entries s') \<and> (\<forall>b. b \<notin> set (xs @ [a]) \<longrightarrow> ts_entries s' b = ts_entries s b) \<and>
    ts_threads s' = (ts_threads s)(val (ts_entries s) a \<mapsto> th\<lparr>th_waitManager := None\<rparr>) \<and> same_rest s s' \<and> ts_ipc s' = ts_ipc s"
proof -
  let ?t = "val (ts_entries s) a"
  let ?s = "s\<lparr>ts_threads := (ts_threads s)(?t \<mapsto> th\<lparr>th_waitManager := None\<rparr>)\<rparr>"
  have core: "core_ok s c sc R (xs @ a # ys)" using wf_core [OF assms(1,2)] assms(3) by simp
  then have q: "queues s c sc R (xs @ a # ys)" and a: "task_ok s c True ?t" by (auto simp: core_ok_def)
  have th: "?t \<noteq> 0" "th_waitManager th \<noteq> None" "thread_ok s c True th" "th_scheduler th = Some c"
    using a assms(4) by (auto simp: task_ok_def thread_ok_def)
  have "queues ?s c sc R (xs @ a # ys)" using q by (simp add: queues_def)
  then obtain s' h where s': "Scheduler_moveToRunQueue ?s c ?t = Some (Inr s')"
    "relinked ?s c (set (xs @ [a])) (sc\<lparr>sc_waitQueue := h, sc_runQueue := a\<rparr>) s'"
    "queues s' c (sc\<lparr>sc_waitQueue := h, sc_runQueue := a\<rparr>) (a # R) (xs @ ys)"
    using moveToRunQueue_found [of ?s c sc R xs a ys] by auto
  obtain m where m: "s' = put_scheduler (?s\<lparr>ts_entries := m\<rparr>) c (sc\<lparr>sc_waitQueue := h, sc_runQueue := a\<rparr>)"
    "same_vals (ts_entries s) m" "\<forall>b. b \<notin> set (xs @ [a]) \<longrightarrow> m b = ts_entries s b"
    using s'(2) by (auto simp: relinked_def)
  have run: "Thread_unwait s ?t = Some (Inr s')"
    using s'(1) th assms(4) by (auto simp: Thread_unwait_def at_Inr upd_thread_def at_upd_def)
  have "?t \<notin> val (ts_entries s) ` set (R @ xs @ ys)" using q by (auto simp: queues_def)
  then have other: "val (ts_entries s) b \<noteq> ?t" if "b \<in> set (R @ xs @ ys)" for b using that by (metis imageI)
  have ok: "task_ok s' c False ?t" using th m(1) by (auto simp: task_ok_def thread_ok_def)
  have keep: "task_ok s' d w u" if "task_ok s d w u" "u \<noteq> ?t" for d w u using that m(1) by (auto simp: task_ok_def)
  have own: "core_ok s' c (sc\<lparr>sc_waitQueue := h, sc_runQueue := a\<rparr>) (a # R) (xs @ ys)"
    by (rule core_ok_relink [OF core s'(3)])
      (use core m ok keep other same_vals_val [OF m(2)] in \<open>auto simp: core_ok_def\<close>)
  have "only_core s c s'"
    by (rule only_core_I [OF core]) (use m get_less [OF assms(2)] th assms(4) in auto)
  then have "wf s' (V(c := (a # R, xs @ ys)))"
    using wf_step [OF assms(1) _ own] wf_ipc [OF assms(1)] m(1) by simp
  then show ?thesis using run m get_less [OF assms(2)] by auto
qed

lemma wait_wf:
  assumes "wf s V" and "get_scheduler s c = Inr sc" and "V c = (xs @ a # ys, W)"
    and "ts_threads s (val (ts_entries s) a) = Some th"
  shows "\<exists>s' h. Thread_wait s (val (ts_entries s) a) (Some w) = Some (Inr s') \<and> wf s' (V(c := (xs @ ys, a # W))) \<and>
    get_scheduler s' c = Inr (sc\<lparr>sc_runQueue := h, sc_waitQueue := a,
      sc_currentEntry := if a = sc_currentEntry sc then 0 else sc_currentEntry sc\<rparr>) \<and>
    (\<forall>d. d \<noteq> c \<longrightarrow> get_scheduler s' d = get_scheduler s d) \<and> same_vals (ts_entries s) (ts_entries s') \<and>
    ts_threads s' = (ts_threads s)(val (ts_entries s) a \<mapsto> th\<lparr>th_waitManager := Some w\<rparr>) \<and> same_rest s s' \<and> ts_ipc s' = ts_ipc s"
proof -
  let ?t = "val (ts_entries s) a"
  have core: "core_ok s c sc (xs @ a # ys) W" using wf_core [OF assms(1,2)] assms(3) by simp
  then have q: "queues s c sc (xs @ a # ys) W" and a: "task_ok s c False ?t" by (auto simp: core_ok_def)
  have th: "?t \<noteq> 0" "th_waitManager th = None" "thread_ok s c False th" "th_scheduler th = Some c"
    using a assms(4) by (auto simp: task_ok_def thread_ok_def)
  obtain s1 h sc' where s1: "Scheduler_moveToWaitQueue s c ?t = Some (Inr s1)"
    "sc' = sc\<lparr>sc_runQueue := h, sc_waitQueue := a, sc_currentEntry := if a = sc_currentEntry sc then 0 else sc_currentEntry sc\<rparr>"
    "relinked s c (set (xs @ [a])) sc' s1" "queues s1 c sc' (xs @ ys) (a # W)"
    using moveToWaitQueue_found [OF q] by blast
  obtain m where m: "s1 = put_scheduler (s\<lparr>ts_entries := m\<rparr>) c sc'" "same_vals (ts_entries s) m"
    "\<forall>b. b \<notin> set (xs @ [a]) \<longrightarrow> m b = ts_entries s b"
    using s1(3) by (auto simp: relinked_def)
  let ?s = "s1\<lparr>ts_threads := (ts_threads s)(?t \<mapsto> th\<lparr>th_waitManager := Some w\<rparr>)\<rparr>"
  have run: "Thread_wait s ?t (Some w) = Some (Inr ?s)"
    using s1(1) th assms(4) m(1) by (auto simp: Thread_wait_def at_Inr upd_thread_def at_upd_def)
  have "?t \<notin> val (ts_entries s) ` set (xs @ ys @ W)" using q by (auto simp: queues_def)
  then have other: "val (ts_entries s) b \<noteq> ?t" if "b \<in> set (xs @ ys @ W)" for b using that by (metis imageI)
  have ok: "task_ok ?s c True ?t" using th m(1) by (auto simp: task_ok_def thread_ok_def)
  have keep: "task_ok ?s d v u" if "task_ok s d v u" "u \<noteq> ?t" for d v u using that m(1) by (auto simp: task_ok_def)
  have q': "queues ?s c sc' (xs @ ys) (a # W)" using s1(4) by (simp add: queues_def)
  have own: "core_ok ?s c sc' (xs @ ys) (a # W)"
    by (rule core_ok_relink [OF core q'])
      (use core s1(2) m ok keep other same_vals_val [OF m(2)] in \<open>auto simp: core_ok_def\<close>)
  have "only_core s c ?s"
    by (rule only_core_I [OF core]) (use m get_less [OF assms(2)] th assms(4) in auto)
  then have "wf ?s (V(c := (xs @ ys, a # W)))"
    using wf_step [OF assms(1) _ own] wf_ipc [OF assms(1)] m(1) by simp
  then show ?thesis using run m get_less [OF assms(2)] s1(2) by auto
qed

text \<open>Removing a thread that is not a main thread, from either queue.\<close>

lemma unlink_found:
  assumes "seg m (sc_runQueue sc) R 0" and "seg m (sc_waitQueue sc) W 0" and "distinct (map (val m) (R @ W))" and "a \<in> set (R @ W)"
  shows "\<exists>m' h h'. unlink_thread m sc (val m a) = Some (Inr (m', sc\<lparr>sc_runQueue := h, sc_waitQueue := h'\<rparr>, a)) \<and>
    seg m' h (removeAll a R) 0 \<and> seg m' h' (removeAll a W) 0 \<and> same_vals m m' \<and> (\<forall>b. b \<notin> set (R @ W) \<longrightarrow> m' b = m b) \<and>
    (\<forall>xs ys. W = xs @ a # ys \<longrightarrow> (\<forall>b\<in>set ys. m' b = m b))"
proof (cases "a \<in> set R")
  case True
  have dist: "distinct (R @ W)" using assms(3) unfolding distinct_map by blast
  obtain xs ys where R: "R = xs @ a # ys" using True by (meson split_list)
  then have dv: "distinct (map (val m) (xs @ a # ys))" using assms(3) by (simp only: map_append distinct_append)
  obtain m' h where m: "Scheduler_removeFromQueue m (sc_runQueue sc) (val m a) = Some (Inr (m', h, a))" "seg m' h (xs @ ys) 0"
    "\<forall>b. b \<notin> set xs \<longrightarrow> m' b = m b" "same_vals m m'"
    using R remove_found [of m "sc_runQueue sc" xs a ys] assms(1) dv by auto
  have "a \<noteq> 0" using seg_mem [OF assms(1) True] by simp
  have nW: "a \<notin> set W" and xW: "\<forall>b\<in>set W. m' b = m b" using dist R m(3) by auto
  have "seg m' (sc_waitQueue sc) W 0" using assms(2) xW seg_cong [of W m' m] by blast
  moreover have "removeAll a R = xs @ ys" using dist R by simp
  ultimately show ?thesis using m R \<open>a \<noteq> 0\<close> nW
    by (intro exI [of _ m'] exI [of _ h] exI [of _ "sc_waitQueue sc"]) (auto simp: unlink_thread_def)
next
  case False
  have dist: "distinct (R @ W)" using assms(3) unfolding distinct_map by blast
  obtain xs ys where W: "W = xs @ a # ys" using False assms(4) by (auto dest: split_list)
  then obtain m' h where m: "Scheduler_removeFromQueue m (sc_waitQueue sc) (val m a) = Some (Inr (m', h, a))" "seg m' h (xs @ ys) 0"
    "\<forall>b. b \<notin> set xs \<longrightarrow> m' b = m b" "same_vals m m'"
    using remove_found [of m "sc_waitQueue sc" xs a ys] assms(2,3) by auto
  have "val m a \<notin> val m ` set R" using assms(3) W by auto
  note ra = remove_absent [OF assms(1) this]
  have "\<forall>b\<in>set R. m' b = m b" using dist W m(3) by auto
  then have "seg m' (sc_runQueue sc) R 0" using assms(1) seg_cong [of R m' m] by blast
  moreover have "\<forall>b\<in>set ys'. m' b = m b" if "W = xs' @ a # ys'" for xs' ys'
  proof -
    have "a \<notin> set xs" "a \<notin> set ys" using W dist by auto
    then have "ys' = ys" using append_Cons_eq_iff [of a xs ys xs' ys'] that W by simp
    then show ?thesis using dist W m(3) by auto
  qed
  moreover have "removeAll a W = xs @ ys" "removeAll a R = R" using dist W False by simp_all
  ultimately show ?thesis using m W ra
    by (intro exI [of _ m'] exI [of _ "sc_runQueue sc"] exI [of _ h]) (auto simp: unlink_thread_def)
qed

lemma remove_wf:
  assumes "wf s V" and "get_scheduler s c = Inr sc" and "V c = (R, W)" and "a \<in> set (R @ W)"
    and "ts_threads s (val (ts_entries s) a) = Some th" and "th_type th \<noteq> THREAD_TYPE_MAIN"
  shows "\<exists>s' sc'. Scheduler_remove s c (val (ts_entries s) a) = Some (Inr s') \<and>
    wf s' (V(c := (removeAll a R, removeAll a W))) \<and> get_scheduler s' c = Inr sc' \<and>
    sc_idleEntry sc' = sc_idleEntry sc \<and> sc_currentEntry sc' = sc_currentEntry sc \<and> sc_milliseconds sc' = sc_milliseconds sc \<and>
    (\<forall>d. d \<noteq> c \<longrightarrow> get_scheduler s' d = get_scheduler s d) \<and>
    (\<forall>b. b \<noteq> a \<longrightarrow> map_option te_value (ts_entries s' b) = map_option te_value (ts_entries s b)) \<and>
    (\<forall>xs ys. W = xs @ a # ys \<longrightarrow> (\<forall>b\<in>set ys. ts_entries s' b = ts_entries s b)) \<and>
    ts_threads s' = (ts_threads s)(val (ts_entries s) a := None) \<and> same_rest s s'"
proof -
  let ?t = "val (ts_entries s) a"
  have core: "core_ok s c sc R W" using wf_core [OF assms(1,2)] assms(3) by simp
  then have q: "queues s c sc R W" and a: "\<exists>w. task_ok s c w ?t" using assms(4) by (auto simp: core_ok_def)
  have th: "?t \<noteq> 0" "th_scheduler th = Some c" "th_process th \<noteq> 0" "ts_processes s (th_process th) \<noteq> None"
    using a assms(5) by (auto simp: task_ok_def thread_ok_def)
  have segs: "seg (ts_entries s) (sc_runQueue sc) R 0" "seg (ts_entries s) (sc_waitQueue sc) W 0"
    and dvals: "distinct (map (val (ts_entries s)) (R @ W))" using q by (auto simp: queues_def)
  have dist: "distinct (R @ W)" using dvals unfolding distinct_map by blast
  obtain m h h' where m: "unlink_thread (ts_entries s) sc ?t = Some (Inr (m, sc\<lparr>sc_runQueue := h, sc_waitQueue := h'\<rparr>, a))"
    "seg m h (removeAll a R) 0" "seg m h' (removeAll a W) 0" "same_vals (ts_entries s) m"
    "\<forall>b. b \<notin> set (R @ W) \<longrightarrow> m b = ts_entries s b" "\<forall>xs ys. W = xs @ a # ys \<longrightarrow> (\<forall>b\<in>set ys. m b = ts_entries s b)"
    using unlink_found [OF segs dvals assms(4)] by blast
  obtain A ipc B where ipc: "ipc_rep (ts_ipc s) A" "MessageController_clear (ts_ipc s) (th_id th) = Some (Inr ipc)" "ipc_rep ipc B"
    using wf_ipc [OF assms(1)] clear_spec by blast
  obtain p where p: "ts_processes s (th_process th) = Some p" using th(4) by blast
  have "a \<noteq> 0" using seg_mem segs assms(4) by fastforce
  let ?sc = "sc\<lparr>sc_runQueue := h, sc_waitQueue := h'\<rparr>"
  let ?s = "(put_scheduler (s\<lparr>ts_entries := m(a := None)\<rparr>) c ?sc)\<lparr>ts_ipc := ipc, ts_threads := (ts_threads s)(?t := None)\<rparr>"
  have run: "Scheduler_remove s c ?t = Some (Inr ?s)"
    using assms(2,5,6) m(1) th ipc(2) p \<open>a \<noteq> 0\<close>
    by (simp add: Scheduler_remove_def ThreadManager_deleteTask_def at_Inr Let_def)
  have v: "val (m(a := None)) b = val (ts_entries s) b" if "b \<noteq> a" for b
    using same_vals_val [OF m(4), of b] that by (simp add: val_def)
  have "map (val (m(a := None))) (removeAll a R @ removeAll a W) = map (val (ts_entries s)) (removeAll a R @ removeAll a W)"
    using v by (intro map_cong) auto
  moreover have "distinct (map (val (ts_entries s)) (removeAll a R @ removeAll a W))"
    using dvals unfolding distinct_map by (auto intro: inj_on_subset simp: distinct_removeAll)
  ultimately have "distinct (map (val (m(a := None))) (removeAll a R @ removeAll a W))" by (simp only:)
  then have q': "queues ?s c ?sc (removeAll a R) (removeAll a W)"
    using m(2,3) get_less [OF assms(2)] by (simp add: queues_def)
  have "?t \<notin> val (ts_entries s) ` set (removeAll a R @ removeAll a W)" using dvals assms(4) unfolding distinct_map by (auto simp: inj_on_def)
  then have other: "val (ts_entries s) b \<noteq> ?t" if "b \<in> set (removeAll a R @ removeAll a W)" for b using that by (metis imageI)
  have keep: "task_ok ?s d w u" if "task_ok s d w u" "u \<noteq> ?t" for d w u using that by (auto simp: task_ok_def)
  have notin: "u \<noteq> ?t" if "u \<notin> val (ts_entries s) ` (set R \<union> set W)" for u
    using assms(4) that imageI [of a "set R \<union> set W" "val (ts_entries s)"] by auto
  have own: "core_ok ?s c ?sc (removeAll a R) (removeAll a W)"
    by (rule core_ok_relink [OF core q'])
      (use core m(5) assms(4) notin keep other v in \<open>auto simp: core_ok_def\<close>)
  have "only_core s c ?s"
    by (rule only_core_I [OF core]) (use m(5) assms(4,5) get_less [OF assms(2)] th in auto)
  then have "wf ?s (V(c := (removeAll a R, removeAll a W)))"
    using wf_step [OF assms(1) _ own] ipc(3) by auto
  moreover have "\<forall>b\<in>set ys. (m(a := None)) b = ts_entries s b" if "W = xs @ a # ys" for xs ys using m(6) that dist by auto
  moreover have "map_option te_value ((m(a := None)) b) = map_option te_value (ts_entries s b)" if "b \<noteq> a" for b
    using m(4) that by (simp add: same_vals_def)
  ultimately show ?thesis using run get_less [OF assms(2)] by (intro exI [of _ ?s] exI [of _ ?sc]) auto
qed

end
