(* ===== verification/Scheduling.thy ===== *)
theory Scheduling
  imports SchedulerQueues
begin

text \<open>
  What a round of the scheduler does, for any waiters that keep the queues alone: the interface that
  the scheduler needs of a waiter is the locale \<open>waiters\<close>. The waiting threads are checked once, in
  the order of the wait queue; those that need not wait any more come to the front of the run queue,
  dead threads are removed, and the thread after the one that ran is the next one.
\<close>

section \<open>What a step leaves alone\<close>

definition clock :: "'f tasking \<Rightarrow> nat \<Rightarrow> u64 option" where
  "clock s d = (case get_scheduler s d of Inl _ \<Rightarrow> None | Inr sc \<Rightarrow> Some (sc_milliseconds sc))"

definition alive :: "'f tasking \<Rightarrow> u32 \<Rightarrow> bool" where
  "alive s t \<longleftrightarrow> (\<exists>th. ts_threads s t = Some th \<and> th_alive th)"

text \<open>A thread whose end does not end its process.\<close>

definition mortal :: "'f tasking \<Rightarrow> u32 \<Rightarrow> bool" where
  "mortal s t \<longleftrightarrow> (\<forall>th. ts_threads s t = Some th \<longrightarrow> th_alive th \<or> th_type th \<noteq> THREAD_TYPE_MAIN)"

definition manager :: "'f tasking \<Rightarrow> u32 \<Rightarrow> 'f waiter option" where
  "manager s t = (case ts_threads s t of None \<Rightarrow> None | Some th \<Rightarrow> th_waitManager th)"

definition kept :: "'f thread \<Rightarrow> 'f thread \<Rightarrow> bool" where
  "kept th th' \<longleftrightarrow> th_id th' = th_id th \<and> th_alive th' = th_alive th \<and> th_type th' = th_type th \<and> th_priority th' = th_priority th \<and>
     th_process th' = th_process th \<and> th_scheduler th' = th_scheduler th \<and> th_cpuState th' = th_cpuState th \<and>
     th_identifier th' = th_identifier th \<and> (th_waitManager th' = None \<longleftrightarrow> th_waitManager th = None)"

text \<open>The fields that the scheduler itself does not write.\<close>

definition alike :: "'f thread \<Rightarrow> 'f thread \<Rightarrow> bool" where
  "alike th th' \<longleftrightarrow> th_id th' = th_id th \<and> th_process th' = th_process th \<and> th_cpuState th' = th_cpuState th \<and>
     th_interruptionInfo th' = th_interruptionInfo th"

definition checked :: "'f tasking \<Rightarrow> u32 \<Rightarrow> 'f tasking \<Rightarrow> bool" where
  "checked s t s' \<longleftrightarrow> ts_entries s' = ts_entries s \<and> ts_schedulers s' = ts_schedulers s \<and> ts_processes s' = ts_processes s \<and>
     (\<forall>p. ts_cpus s p \<noteq> None \<longrightarrow> ts_cpus s' p \<noteq> None) \<and> (\<forall>u. rel_option kept (ts_threads s u) (ts_threads s' u)) \<and>
     (\<forall>u. u \<noteq> t \<longrightarrow> manager s' u = manager s u) \<and> (\<exists>A. ipc_rep (ts_ipc s') A)"

lemma kept_refl [simp]: "kept th th"
  by (simp add: kept_def)

lemma rel_kept_refl [simp]: "rel_option kept x x"
  by (cases x) auto

lemma task_ok_kept:
  assumes "\<And>u. rel_option kept (ts_threads s u) (ts_threads s' u)" and "ts_processes s' = ts_processes s"
    and "\<And>p. ts_cpus s p \<noteq> None \<Longrightarrow> ts_cpus s' p \<noteq> None" and "task_ok s c w t"
  shows "task_ok s' c w t"
  using assms(1) [of t] assms(2-4) by (auto simp: task_ok_def thread_ok_def kept_def elim!: option.rel_cases)

lemma checked_wf:
  assumes "wf s V" and "checked s t s'"
  shows "wf s' V"
proof -
  have same: "ts_entries s' = ts_entries s" "get_scheduler s' = get_scheduler s" using assms(2) by (auto simp: checked_def get_scheduler_def)
  have task: "task_ok s' c w u" if "task_ok s c w u" for c w u
    using task_ok_kept [OF _ _ _ that, of s'] assms(2) by (auto simp: checked_def)
  have "core_ok s' c sc (fst (V c)) (snd (V c))" if "get_scheduler s' c = Inr sc" for c sc
    using wf_core [OF assms(1), of c sc] that same task by (auto simp: core_ok_def queues_def idle_ok_def)
  then show ?thesis using assms(2) by (auto simp: wf_def checked_def)
qed

lemma set_current_Inr: "get_scheduler s c = Inr sc \<Longrightarrow> set_current s c e = Inr (put_scheduler s c (sc\<lparr>sc_currentEntry := e\<rparr>))"
  by (simp add: set_current_def)

lemma wf_set_current:
  assumes "wf s V" and "get_scheduler s c = Inr sc"
  shows "wf (put_scheduler s c (sc\<lparr>sc_currentEntry := e\<rparr>)) V"
proof -
  let ?s = "put_scheduler s c (sc\<lparr>sc_currentEntry := e\<rparr>)"
  have "core_ok ?s d sd (fst (V d)) (snd (V d))" if "get_scheduler ?s d = Inr sd" for d sd
    using wf_core [OF assms(1), of d] that assms(2) get_less [OF assms(2)]
    by (auto simp: core_ok_def queues_def idle_ok_def task_ok_def split: if_splits)
  then show ?thesis using wf_ipc [OF assms(1)] by (simp add: wf_def)
qed

lemma wf_threads:
  assumes "wf s V" and "ts_threads s t = Some th" and "th_scheduler th' = th_scheduler th" and "th_waitManager th' = th_waitManager th"
    and "th_process th' = th_process th" and "th_cpuState th' = th_cpuState th"
  shows "wf (s\<lparr>ts_threads := (ts_threads s)(t \<mapsto> th')\<rparr>) V"
proof -
  let ?s = "s\<lparr>ts_threads := (ts_threads s)(t \<mapsto> th')\<rparr>"
  have task: "task_ok ?s c w u" if "task_ok s c w u" for c w u
    using that assms(2-6) by (auto simp: task_ok_def thread_ok_def)
  have "core_ok ?s d sd (fst (V d)) (snd (V d))" if "get_scheduler ?s d = Inr sd" for d sd
    using wf_core [OF assms(1), of d sd] that task by (auto simp: core_ok_def queues_def idle_ok_def)
  then show ?thesis using wf_ipc [OF assms(1)] by (simp add: wf_def)
qed

text \<open>What steps for some threads keep of the others; \<open>fine\<close> is a condition on waiters.\<close>

definition stepped :: "('f tasking \<Rightarrow> u32 \<Rightarrow> 'f waiter \<Rightarrow> bool) \<Rightarrow> 'f tasking \<Rightarrow> u32 set \<Rightarrow> 'f tasking \<Rightarrow> bool" where
  "stepped fine s T s' \<longleftrightarrow> (\<forall>u. u \<notin> T \<longrightarrow> rel_option kept (ts_threads s u) (ts_threads s' u) \<and> manager s' u = manager s u) \<and>
     ts_processes s' = ts_processes s \<and> (\<forall>p. ts_cpus s p \<noteq> None \<longrightarrow> ts_cpus s' p \<noteq> None) \<and> clock s' = clock s \<and>
     (\<forall>u v. u \<notin> T \<longrightarrow> fine s u v \<longrightarrow> fine s' u v)"

definition good :: "('f tasking \<Rightarrow> u32 \<Rightarrow> 'f waiter \<Rightarrow> bool) \<Rightarrow> 'f tasking \<Rightarrow> u32 \<Rightarrow> bool" where
  "good fine s t \<longleftrightarrow> mortal s t \<and> (\<forall>w. manager s t = Some w \<longrightarrow> fine s t w)"

lemma stepped_trans:
  assumes "stepped fine s T s'" and "stepped fine s' T' s''"
  shows "stepped fine s (T \<union> T') s''"
proof -
  have "rel_option kept (ts_threads s u) (ts_threads s'' u)"
    if "rel_option kept (ts_threads s u) (ts_threads s' u)" "rel_option kept (ts_threads s' u) (ts_threads s'' u)" for u
    using that by (auto simp: kept_def elim!: option.rel_cases)
  then show ?thesis using assms by (auto simp: stepped_def)
qed

lemma stepped_alive:
  assumes "stepped fine s T s'" and "u \<notin> T"
  shows "alive s' u = alive s u" "mortal s' u = mortal s u" "manager s' u = manager s u"
  using assms by (auto simp: stepped_def alive_def mortal_def kept_def elim!: option.rel_cases dest!: spec [of _ u])

lemma stepped_good: "stepped fine s T s' \<Longrightarrow> u \<notin> T \<Longrightarrow> good fine s u \<Longrightarrow> good fine s' u"
  using stepped_alive [of fine s T s' u] by (auto simp: good_def stepped_def)

lemma clock_put [simp]:
  assumes "get_scheduler s c = Inr sc" and "sc_milliseconds sc' = sc_milliseconds sc"
  shows "clock (put_scheduler s c sc') = clock s"
  using assms get_less [OF assms(1)] by (auto simp: clock_def fun_eq_iff)

lemma clock_own:
  assumes "get_scheduler s c = Inr sc" and "get_scheduler s' c = Inr sc'" and "sc_milliseconds sc' = sc_milliseconds sc"
    and "\<forall>d. d \<noteq> c \<longrightarrow> get_scheduler s' d = get_scheduler s d"
  shows "clock s' = clock s"
proof
  fix d
  show "clock s' d = clock s d" using assms by (cases "d = c") (auto simp: clock_def)
qed

lemma clock_cong: "(\<And>d. get_scheduler s' d = get_scheduler s d) \<Longrightarrow> clock s' = clock s"
  by (simp add: clock_def fun_eq_iff)

section \<open>The run queue\<close>

text \<open>The entry after another one around a queue; after an entry that is not in the queue comes the first.\<close>

definition after :: "u32 list \<Rightarrow> u32 \<Rightarrow> u32" where
  "after R cur = (case dropWhile (\<lambda>b. b \<noteq> cur) R of a # b # bs \<Rightarrow> b | _ \<Rightarrow> hd R)"

lemma after_mem: "R \<noteq> [] \<Longrightarrow> after R cur \<in> set R"
  by (auto simp: after_def split: list.splits) (metis list.set_intros(1) list.set_intros(2) set_dropWhileD)

lemma drop_notin: "cur \<notin> set xs \<Longrightarrow> dropWhile (\<lambda>b. b \<noteq> cur) xs = []"
  by (auto simp: dropWhile_eq_Nil_conv)

lemma after_split: "cur \<notin> set xs \<Longrightarrow> after (xs @ cur # ys) cur = (if ys = [] then hd (xs @ [cur]) else hd ys)"
  by (cases ys) (auto simp: after_def dropWhile_append3 drop_notin)

lemma after_notin: "cur \<notin> set R \<Longrightarrow> after R cur = hd R"
  by (simp add: after_def drop_notin)

definition pick :: "scheduler \<Rightarrow> u32 list \<Rightarrow> u32" where
  "pick sc R = (if R = [] then sc_idleEntry sc else after R (sc_currentEntry sc))"

text \<open>The scheduler can go on: the running entry is in its run queue or the idle one, which exists.\<close>

definition current_ok :: "'f tasking \<Rightarrow> scheduler \<Rightarrow> u32 list \<Rightarrow> bool" where
  "current_ok s sc R \<longleftrightarrow> sc_currentEntry sc \<in> {0, sc_idleEntry sc} \<union> set R \<and> sc_idleEntry sc \<noteq> 0 \<and>
     alive s (val (ts_entries s) (sc_idleEntry sc))"

lemma idle_notin: "core_ok s c sc R W \<Longrightarrow> sc_idleEntry sc \<noteq> 0 \<Longrightarrow> sc_idleEntry sc \<notin> set (R @ W)"
  unfolding core_ok_def idle_ok_def val_def by (metis imageI option.sel)

lemma next_entry_pick:
  assumes core: "core_ok s c sc R W" and cur: "current_ok s sc R"
  shows "next_entry s sc = Inr (pick sc R)"
proof -
  have seg: "seg (ts_entries s) (sc_runQueue sc) R 0" using core by (simp add: core_ok_def queues_def)
  then have head: "sc_runQueue sc = (if R = [] then 0 else hd R)" "R \<noteq> [] \<Longrightarrow> hd R \<noteq> 0" by (cases R; simp)+
  have idle: "sc_idleEntry sc \<noteq> 0" "\<exists>e. ts_entries s (sc_idleEntry sc) = Some e \<and> te_next e = 0"
    using core cur by (auto simp: core_ok_def idle_ok_def current_ok_def)
  have "0 \<notin> set R" using seg_mem [OF seg] by blast
  have nidle: "sc_idleEntry sc \<notin> set R" using idle_notin [OF core idle(1)] by simp
  consider "sc_currentEntry sc = 0" | "sc_currentEntry sc = sc_idleEntry sc" | "sc_currentEntry sc \<in> set R"
    using cur by (auto simp: current_ok_def)
  then show ?thesis
  proof cases
    case 1
    then show ?thesis using head idle \<open>0 \<notin> set R\<close> by (auto simp: next_entry_def pick_def after_notin)
  next
    case 2
    then show ?thesis using head idle nidle by (auto simp: next_entry_def pick_def after_notin at_Inr)
  next
    case 3
    obtain xs ys where R: "R = xs @ sc_currentEntry sc # ys" "sc_currentEntry sc \<notin> set xs" using split_list_first [OF 3] by blast
    obtain e where e: "ts_entries s (sc_currentEntry sc) = Some e" "sc_currentEntry sc \<noteq> 0" "seg (ts_entries s) (te_next e) ys 0"
      using seg R(1) by (auto simp: seg_append)
    have "R \<noteq> []" using R by simp
    show ?thesis
    proof (cases ys)
      case Nil
      then have "te_next e = 0" "after R (sc_currentEntry sc) = hd R" using e(3) R after_split [OF R(2), of "[]"] by auto
      then show ?thesis using e head \<open>R \<noteq> []\<close> by (simp add: next_entry_def pick_def at_Inr)
    next
      case (Cons y zs)
      then have "te_next e = y" "y \<noteq> 0" "after R (sc_currentEntry sc) = y" using e(3) R after_split [OF R(2), of ys] by auto
      then show ?thesis using e \<open>R \<noteq> []\<close> by (simp add: next_entry_def pick_def at_Inr)
    qed
  qed
qed

lemma pick_mem: "core_ok s c sc R W \<Longrightarrow> current_ok s sc R \<Longrightarrow> pick sc R \<in> insert (sc_idleEntry sc) (set R)"
  by (auto simp: pick_def after_mem)

lemma try_entry_next:
  assumes "wf s V" and "get_scheduler s c = Inr sc" and "V c = (R, W)" and "current_ok s sc R"
  defines "s1 \<equiv> put_scheduler s c (sc\<lparr>sc_currentEntry := pick sc R\<rparr>)" and "t \<equiv> val (ts_entries s) (pick sc R)"
  shows "wf s1 V \<and> task_ok s1 c False t \<and>
    try_entry c s = obind (Scheduler_checkAliveState s1 c t) (\<lambda>(s, alive).
      if alive then Some (Inr (s, Some t)) else obind (Some (set_current s c 0)) (\<lambda>s. Some (Inr (s, None))))"
proof -
  have core: "core_ok s c sc R W" using wf_core [OF assms(1,2)] assms(3) by simp
  have pm: "pick sc R \<in> insert (sc_idleEntry sc) (set R)" by (rule pick_mem [OF core assms(4)])
  have w: "wf s1 V" unfolding s1_def by (rule wf_set_current [OF assms(1,2)])
  have "\<exists>e. pick sc R \<noteq> 0 \<and> ts_entries s (pick sc R) = Some e \<and> task_ok s c False (te_value e)"
  proof (cases "pick sc R = sc_idleEntry sc")
    case True
    then show ?thesis using core assms(4) by (auto simp: core_ok_def idle_ok_def current_ok_def)
  next
    case False
    then have "pick sc R \<in> set R" using pm by simp
    then show ?thesis using core seg_mem [of "ts_entries s" "sc_runQueue sc" R 0] by (fastforce simp: core_ok_def queues_def val_def)
  qed
  then obtain e where e: "pick sc R \<noteq> 0" "ts_entries s (pick sc R) = Some e" "task_ok s c False (te_value e)" by blast
  then have t: "te_value e = t" by (simp add: t_def val_def)
  then obtain th where th: "t \<noteq> 0" "ts_threads s t = Some th" "thread_ok s c False th" using e(3) by (auto simp: task_ok_def)
  have "try_entry c s = obind (Scheduler_checkAliveState s1 c t) (\<lambda>(s, alive).
      if alive then Some (Inr (s, Some t)) else obind (Some (set_current s c 0)) (\<lambda>s. Some (Inr (s, None))))"
    using assms(2) next_entry_pick [OF core assms(4)] e th t
    by (auto simp: try_entry_def set_current_def at_Inr s1_def Scheduler_applyContextSwitch_def thread_ok_def)
  then show ?thesis using w th by (simp add: task_ok_def s1_def)
qed

lemma try_alive:
  assumes "wf s V" and "get_scheduler s c = Inr sc" and "V c = (R, W)" and "current_ok s sc R"
    and "alive s (val (ts_entries s) (pick sc R))"
  shows "schedule_loop c s = Some (Inr (put_scheduler s c (sc\<lparr>sc_currentEntry := pick sc R\<rparr>), val (ts_entries s) (pick sc R)))"
proof -
  have "try_entry c s = Some (Inr (put_scheduler s c (sc\<lparr>sc_currentEntry := pick sc R\<rparr>), Some (val (ts_entries s) (pick sc R))))"
    using try_entry_next [OF assms(1-4)] assms(5) by (auto simp: Scheduler_checkAliveState_def at_Inr alive_def task_ok_def)
  then show ?thesis by (simp add: schedule_loop.simps)
qed

lemma try_dead:
  assumes "wf s V" and "get_scheduler s c = Inr sc" and "V c = (R, W)" and "current_ok s sc R"
    and "\<not> alive s (val (ts_entries s) (pick sc R))" and "mortal s (val (ts_entries s) (pick sc R))"
  shows "\<exists>s' sc'. schedule_loop c s = schedule_loop c s' \<and> wf s' (V(c := (removeAll (pick sc R) R, W))) \<and> pick sc R \<in> set R \<and>
    get_scheduler s' c = Inr sc' \<and> sc_idleEntry sc' = sc_idleEntry sc \<and> current_ok s' sc' (removeAll (pick sc R) R) \<and>
    ts_threads s' = (ts_threads s)(val (ts_entries s) (pick sc R) := None) \<and> same_rest s s' \<and> clock s' = clock s \<and>
    (\<forall>b. b \<noteq> pick sc R \<longrightarrow> map_option te_value (ts_entries s' b) = map_option te_value (ts_entries s b))"
proof -
  let ?a = "pick sc R" and ?t = "val (ts_entries s) (pick sc R)" and ?s1 = "put_scheduler s c (sc\<lparr>sc_currentEntry := pick sc R\<rparr>)"
  have core: "core_ok s c sc R W" using wf_core [OF assms(1,2)] assms(3) by simp
  have "?a \<noteq> sc_idleEntry sc" using assms(4,5) by (auto simp: current_ok_def)
  then have a: "?a \<in> set R" using pick_mem [OF core assms(4)] by simp
  have s1: "wf ?s1 V" "task_ok ?s1 c False ?t" "get_scheduler ?s1 c = Inr (sc\<lparr>sc_currentEntry := ?a\<rparr>)" "ts_entries ?s1 = ts_entries s"
    using try_entry_next [OF assms(1-4)] get_less [OF assms(2)] by simp_all
  then obtain th where th: "ts_threads s ?t = Some th" "?t \<noteq> 0" by (auto simp: task_ok_def)
  have dead: "\<not> th_alive th" "th_type th \<noteq> THREAD_TYPE_MAIN" using assms(5,6) th by (auto simp: alive_def mortal_def)
  have aR: "?a \<in> set (R @ W)" and thr: "ts_threads ?s1 (val (ts_entries ?s1) ?a) = Some th" using a th by simp_all
  have "?a \<notin> set W" using core a unfolding core_ok_def queues_def distinct_map by auto
  from remove_wf [OF s1(1,3) assms(3) aR thr dead(2)]
  obtain s2 sc2 where s2: "Scheduler_remove ?s1 c ?t = Some (Inr s2)" "wf s2 (V(c := (removeAll ?a R, W)))" "get_scheduler s2 c = Inr sc2"
    "sc_idleEntry sc2 = sc_idleEntry sc" "sc_milliseconds sc2 = sc_milliseconds sc" "\<forall>d. d \<noteq> c \<longrightarrow> get_scheduler s2 d = get_scheduler ?s1 d"
    "\<forall>b. b \<noteq> ?a \<longrightarrow> map_option te_value (ts_entries s2 b) = map_option te_value (ts_entries s b)"
    "ts_threads s2 = (ts_threads s)(?t := None)" "same_rest s s2"
    using \<open>?a \<notin> set W\<close> by (auto simp: same_rest_def removeAll_id)
  let ?s = "put_scheduler s2 c (sc2\<lparr>sc_currentEntry := 0\<rparr>)"
  have "try_entry c s = Some (Inr (?s, None))"
    using try_entry_next [OF assms(1-4)] s2(1) th dead set_current_Inr [OF s2(3)] by (simp add: Scheduler_checkAliveState_def at_Inr)
  then have run: "schedule_loop c s = schedule_loop c ?s" by (subst schedule_loop.simps) simp
  have "get_scheduler s2 d = get_scheduler s d" if "d \<noteq> c" for d using s2(6) get_less [OF assms(2)] that by simp
  then have "clock s2 = clock s" by (intro clock_own [OF assms(2) s2(3,5)]) simp
  then have clk: "clock ?s = clock s" using clock_put [OF s2(3), of "sc2\<lparr>sc_currentEntry := 0\<rparr>"] by simp
  have "val (ts_entries s) (sc_idleEntry sc) \<noteq> ?t" using assms(4,5) by (auto simp: current_ok_def)
  moreover have "val (ts_entries s2) (sc_idleEntry sc) = val (ts_entries s) (sc_idleEntry sc)"
  proof -
    have "map_option te_value (ts_entries s2 (sc_idleEntry sc)) = map_option te_value (ts_entries s (sc_idleEntry sc))"
      using s2(7) \<open>?a \<noteq> sc_idleEntry sc\<close> by simp
    then show ?thesis using core assms(4) by (auto simp: val_def core_ok_def idle_ok_def current_ok_def)
  qed
  ultimately have "current_ok ?s (sc2\<lparr>sc_currentEntry := 0\<rparr>) (removeAll ?a R)"
    using assms(4) s2(4,8) by (auto simp: current_ok_def alive_def)
  then show ?thesis using run wf_set_current [OF s2(2,3)] a s2 clk get_less [OF s2(3)]
    by (intro exI [of _ ?s] exI [of _ "sc2\<lparr>sc_currentEntry := 0\<rparr>"]) auto
qed

text \<open>The loop of the scheduler ends: each turn that does not find a thread removes a dead one.\<close>

lemma schedule_loop_total:
  assumes "wf s V" and "get_scheduler s c = Inr sc" and "V c = (R, W)" and "current_ok s sc R"
    and "\<forall>a\<in>set R. mortal s (val (ts_entries s) a)"
  shows "\<exists>s' sc' D. schedule_loop c s = Some (Inr (s', val (ts_entries s') (sc_currentEntry sc'))) \<and>
    wf s' (V(c := (filter (\<lambda>b. b \<notin> D) R, W))) \<and> get_scheduler s' c = Inr sc' \<and> sc_idleEntry sc' = sc_idleEntry sc \<and>
    current_ok s' sc' (filter (\<lambda>b. b \<notin> D) R) \<and> D \<subseteq> {b \<in> set R. \<not> alive s (val (ts_entries s) b)} \<and>
    (if filter (\<lambda>b. b \<notin> D) R = [] then sc_currentEntry sc' = sc_idleEntry sc else sc_currentEntry sc' \<in> set R - D) \<and>
    alive s' (val (ts_entries s') (sc_currentEntry sc')) \<and> same_rest s s' \<and> clock s' = clock s \<and>
    (\<forall>u. u \<notin> val (ts_entries s) ` D \<longrightarrow> ts_threads s' u = ts_threads s u) \<and>
    (\<forall>b. b \<notin> D \<longrightarrow> map_option te_value (ts_entries s' b) = map_option te_value (ts_entries s b))"
  using assms
proof (induction "length R" arbitrary: s V sc R rule: less_induct)
  case less
  show ?case
  proof (cases "alive s (val (ts_entries s) (pick sc R))")
    case True
    let ?sc = "sc\<lparr>sc_currentEntry := pick sc R\<rparr>"
    let ?s = "put_scheduler s c ?sc"
    have core: "core_ok s c sc R W" using wf_core [OF less.prems(1,2)] less.prems(3) by simp
    have V: "V(c := (R, W)) = V" using less.prems(3) by auto
    have "current_ok ?s ?sc R" using less.prems(4) pick_mem [OF core less.prems(4)] by (auto simp: current_ok_def alive_def)
    then show ?thesis
      using try_alive [OF less.prems(1-4) True] wf_set_current [OF less.prems(1,2)] get_less [OF less.prems(2)] True V
        clock_put [OF less.prems(2), of ?sc] after_mem [of R]
      by (intro exI [of _ ?s] exI [of _ ?sc] exI [of _ "{}"]) (auto simp: alive_def pick_def)
  next
    case False
    let ?a = "pick sc R" and ?t = "val (ts_entries s) (pick sc R)" and ?R = "removeAll (pick sc R) R"
    have core: "core_ok s c sc R W" using wf_core [OF less.prems(1,2)] less.prems(3) by simp
    have "mortal s ?t" using less.prems(4,5) False pick_mem [OF core less.prems(4)] by (auto simp: current_ok_def)
    from try_dead [OF less.prems(1-4) False this]
    obtain s1 sc1 where s1: "schedule_loop c s = schedule_loop c s1" "wf s1 (V(c := (?R, W)))" "?a \<in> set R"
      "get_scheduler s1 c = Inr sc1" "sc_idleEntry sc1 = sc_idleEntry sc" "current_ok s1 sc1 ?R"
      "ts_threads s1 = (ts_threads s)(?t := None)" "same_rest s s1" "clock s1 = clock s"
      "\<forall>b. b \<noteq> ?a \<longrightarrow> map_option te_value (ts_entries s1 b) = map_option te_value (ts_entries s b)" by blast
    have len: "length ?R < length R" by (rule length_removeAll_less [OF s1(3)])
    have seg: "seg (ts_entries s) (sc_runQueue sc) R 0" and dv: "distinct (map (val (ts_entries s)) R)" using core by (auto simp: core_ok_def queues_def)
    have v: "val (ts_entries s1) b = val (ts_entries s) b" "val (ts_entries s) b \<noteq> ?t" if "b \<in> set ?R" for b
    proof -
      have "map_option te_value (ts_entries s1 b) = map_option te_value (ts_entries s b)" using s1(10) that by simp
      moreover have "b \<in> set R" using that by simp
      then obtain e where "ts_entries s b = Some e" using seg_mem [OF seg, of b] by blast
      ultimately show "val (ts_entries s1) b = val (ts_entries s) b" by (auto simp: val_def)
      show "val (ts_entries s) b \<noteq> ?t" using dv s1(3) that unfolding distinct_map inj_on_def by auto
    qed
    have "\<forall>b\<in>set ?R. mortal s1 (val (ts_entries s1) b)" using less.prems(5) v s1(7) by (auto simp: mortal_def)
    from less.hyps [OF len s1(2,4) fun_upd_same s1(6) this]
    obtain s2 sc2 D where s2: "schedule_loop c s1 = Some (Inr (s2, val (ts_entries s2) (sc_currentEntry sc2)))"
      "wf s2 ((V(c := (?R, W)))(c := (filter (\<lambda>b. b \<notin> D) ?R, W)))" "get_scheduler s2 c = Inr sc2" "sc_idleEntry sc2 = sc_idleEntry sc1"
      "current_ok s2 sc2 (filter (\<lambda>b. b \<notin> D) ?R)" "D \<subseteq> {b \<in> set ?R. \<not> alive s1 (val (ts_entries s1) b)}"
      "if filter (\<lambda>b. b \<notin> D) ?R = [] then sc_currentEntry sc2 = sc_idleEntry sc1 else sc_currentEntry sc2 \<in> set ?R - D"
      "alive s2 (val (ts_entries s2) (sc_currentEntry sc2))" "same_rest s1 s2" "clock s2 = clock s1"
      "\<forall>u. u \<notin> val (ts_entries s1) ` D \<longrightarrow> ts_threads s2 u = ts_threads s1 u"
      "\<forall>b. b \<notin> D \<longrightarrow> map_option te_value (ts_entries s2 b) = map_option te_value (ts_entries s1 b)" by blast
    let ?D = "insert ?a D"
    have filt: "filter (\<lambda>b. b \<notin> D) ?R = filter (\<lambda>b. b \<notin> ?D) R" by (auto simp: removeAll_filter_not_eq intro: filter_cong)
    have img: "val (ts_entries s1) ` D = val (ts_entries s) ` D" using v(1) s2(6) by (intro image_cong) auto
    have "D \<subseteq> {b \<in> set R. \<not> alive s (val (ts_entries s) b)}" using s2(6) v s1(7) by (auto simp: alive_def)
    then have D: "?D \<subseteq> {b \<in> set R. \<not> alive s (val (ts_entries s) b)}" using s1(3) False by auto
    show ?thesis
      by (rule exI [of _ s2], rule exI [of _ sc2], rule exI [of _ ?D])
        (use s1 s2 filt D img same_rest_trans [OF s1(8) s2(9)] in \<open>auto split: if_splits\<close>)
  qed
qed

text \<open>The end of a round: the segment register of the context and the count of the rounds.\<close>

lemma finish_wf:
  assumes "wf s V" and "task_ok s c False t"
  shows "\<exists>s'. obind (Some (Scheduler_finishSwitch s t)) (\<lambda>s. obind (Some (upd_thread s t (\<lambda>th. th\<lparr>th_rounds := th_rounds th + 1\<rparr>))) (\<lambda>s.
      Some (Inr (s, t)))) = Some (Inr (s', t)) \<and> wf s' V \<and> ts_entries s' = ts_entries s \<and> get_scheduler s' = get_scheduler s \<and>
    same_rest s s' \<and>
    (\<exists>th. ts_threads s t = Some th \<and> ts_threads s' = (ts_threads s)(t \<mapsto> th\<lparr>th_rounds := th_rounds th + 1\<rparr>))"
proof -
  obtain th ps where th: "t \<noteq> 0" "ts_threads s t = Some th" "th_cpuState th \<noteq> 0" "ts_cpus s (th_cpuState th) = Some ps"
    using assms(2) by (auto simp: task_ok_def thread_ok_def)
  let ?s1 = "s\<lparr>ts_cpus := (ts_cpus s)(th_cpuState th \<mapsto> ps\<lparr>ps_gs := 0x30\<rparr>)\<rparr>"
  let ?s = "?s1\<lparr>ts_threads := (ts_threads ?s1)(t \<mapsto> th\<lparr>th_rounds := th_rounds th + 1\<rparr>)\<rparr>"
  have task: "task_ok ?s1 d w u" if "task_ok s d w u" for d w u
    using that by (auto simp: task_ok_def thread_ok_def)
  have "core_ok ?s1 d sd (fst (V d)) (snd (V d))" if "get_scheduler ?s1 d = Inr sd" for d sd
    using wf_core [OF assms(1), of d sd] that task by (auto simp: core_ok_def queues_def idle_ok_def)
  then have "wf ?s1 V" using wf_ipc [OF assms(1)] by (simp add: wf_def)
  then have "wf ?s V" by (rule wf_threads) (use th in simp_all)
  then show ?thesis using th
    by (intro exI [of _ ?s]) (auto simp: Scheduler_finishSwitch_def upd_thread_def at_upd_def at_Inr fun_eq_iff same_rest_def)
qed

section \<open>Waiters\<close>

text \<open>
  The interface of the waiters: under conditions \<open>fine\<close> on the memory a waiter uses, which the
  scheduler keeps, its check returns, changes nothing of the queues and keeps these conditions for
  all waiters. \<open>ready\<close> says whether the wait is over where the clocks alone decide it.
\<close>

locale waiters =
  fixes check :: "'f check" and fine :: "'f tasking \<Rightarrow> u32 \<Rightarrow> 'f waiter \<Rightarrow> bool" and ready :: "'f tasking \<Rightarrow> 'f waiter \<Rightarrow> bool option"
  assumes check_returns: "wf s V \<Longrightarrow> task_ok s c True t \<Longrightarrow> manager s t = Some w \<Longrightarrow> fine s t w \<Longrightarrow>
      \<exists>b s'. check s t w = Some (Inr (b, s')) \<and> checked s t s' \<and> (\<forall>u v. fine s u v \<longrightarrow> fine s' u v) \<and>
        (\<forall>w'. manager s' t = Some w' \<longrightarrow> fine s' t w') \<and> (\<forall>r. ready s w = Some r \<longrightarrow> b = (\<not> r))"
    and fine_frame: "same_rest s s' \<Longrightarrow> clock s' = clock s \<Longrightarrow> rel_option alike (ts_threads s t) (ts_threads s' t) \<Longrightarrow>
      fine s t w \<Longrightarrow> fine s' t w"
    and ready_frame: "clock s' = clock s \<Longrightarrow> ready s' w = ready s w"
begin

text \<open>Steps of the scheduler itself, which only write what no waiter reads.\<close>

lemma stepped_own:
  assumes "same_rest s s'" and "clock s' = clock s" and "\<And>u. u \<notin> T \<Longrightarrow> ts_threads s' u = ts_threads s u"
  shows "stepped fine s T s'"
proof -
  have "fine s' u v" if "u \<notin> T" "fine s u v" for u v
    using fine_frame [OF assms(1,2) _ that(2)] assms(3) [OF that(1)] by (auto simp: alike_def option.rel_refl)
  moreover have "ts_cpus s' p \<noteq> None" if "ts_cpus s p \<noteq> None" for p
    using assms(1) that unfolding same_rest_def by (metis domIff)
  ultimately show ?thesis using assms by (auto simp: stepped_def same_rest_def manager_def)
qed

lemma stepped_checked:
  assumes "checked s t s'" and "\<And>u v. fine s u v \<Longrightarrow> fine s' u v"
  shows "stepped fine s {t} s'"
proof -
  have "clock s' = clock s" using assms(1) by (auto simp: checked_def get_scheduler_def intro!: clock_cong)
  then show ?thesis using assms by (auto simp: stepped_def checked_def)
qed

section \<open>One entry of the wait queue\<close>

lemma process_dead:
  assumes "wf s V" and "get_scheduler s c = Inr sc" and "V c = (R, xs @ a # ys)" and "ts_entries s a = Some e"
    and "ts_threads s (te_value e) = Some th" and "\<not> th_alive th" and "th_type th \<noteq> THREAD_TYPE_MAIN"
  shows "\<exists>s' sc'. process_entry check c s a = Some (Inr (s', te_next e)) \<and> wf s' (V(c := (R, xs @ ys))) \<and>
    get_scheduler s' c = Inr sc' \<and> sc_idleEntry sc' = sc_idleEntry sc \<and> stepped fine s {te_value e} s' \<and>
    (\<forall>b\<in>set ys. ts_entries s' b = ts_entries s b) \<and>
    (\<forall>b. b \<noteq> a \<longrightarrow> map_option te_value (ts_entries s' b) = map_option te_value (ts_entries s b)) \<and> ts_threads s' (te_value e) = None"
proof -
  have v: "val (ts_entries s) a = te_value e" using assms(4) by (simp add: val_def)
  have core: "core_ok s c sc R (xs @ a # ys)" using wf_core [OF assms(1,2)] assms(3) by simp
  then have q: "queues s c sc R (xs @ a # ys)" and t: "task_ok s c True (te_value e)" using v by (auto simp: core_ok_def)
  have "distinct (R @ xs @ a # ys)" using q unfolding queues_def distinct_map by blast
  then have rem: "removeAll a R = R" "removeAll a (xs @ a # ys) = xs @ ys" by auto
  obtain s1 sc1 where s1: "Scheduler_remove s c (te_value e) = Some (Inr s1)" "wf s1 (V(c := (R, xs @ ys)))" "get_scheduler s1 c = Inr sc1"
    "sc_idleEntry sc1 = sc_idleEntry sc" "sc_milliseconds sc1 = sc_milliseconds sc" "\<forall>d. d \<noteq> c \<longrightarrow> get_scheduler s1 d = get_scheduler s d"
    "\<forall>b. b \<noteq> a \<longrightarrow> map_option te_value (ts_entries s1 b) = map_option te_value (ts_entries s b)"
    "\<forall>b\<in>set ys. ts_entries s1 b = ts_entries s b" "ts_threads s1 = (ts_threads s)(te_value e := None)" "same_rest s s1"
    using remove_wf [OF assms(1-3), of a th] assms(5,7) v rem by (auto simp del: removeAll_append)
  let ?s = "put_scheduler s1 c (sc1\<lparr>sc_currentEntry := te_next e\<rparr>)"
  have "a \<noteq> 0" "te_value e \<noteq> 0" "th_process th \<noteq> 0" "ts_processes s (th_process th) \<noteq> None"
    using q seg_mem [of "ts_entries s" "sc_waitQueue sc" "xs @ a # ys" 0 a] t assms(5) by (auto simp: queues_def task_ok_def thread_ok_def)
  then have run: "process_entry check c s a = Some (Inr (?s, te_next e))"
    using assms(4-7) s1(1) set_current_Inr [OF s1(3)]
    by (auto simp: process_entry_def at_Inr Scheduler_applyContextSwitch_def Scheduler_checkAliveState_def)
  have clk: "clock s1 = clock s" by (rule clock_own [OF assms(2) s1(3,5,6)])
  have "stepped fine s {te_value e} ?s"
    by (rule stepped_own) (use s1 clk in \<open>auto simp: clock_put\<close>)
  then show ?thesis using run wf_set_current [OF s1(2,3)] s1 get_less [OF s1(3)] by (intro exI [of _ ?s] exI) auto
qed

text \<open>The check of a thread that is alive, and what follows it.\<close>

lemma process_check:
  assumes "wf s V" and "get_scheduler s c = Inr sc" and "V c = (R, xs @ a # ys)" and "ts_entries s a = Some e"
    and "ts_threads s (te_value e) = Some th" and "th_alive th" and "th_waitManager th = Some w" and "fine s (te_value e) w"
  shows "\<exists>b s1 th1. check s (te_value e) w = Some (Inr (b, s1)) \<and> wf s1 V \<and> get_scheduler s1 = get_scheduler s \<and>
    ts_entries s1 = ts_entries s \<and> stepped fine s {te_value e} s1 \<and> ts_threads s1 (te_value e) = Some th1 \<and> kept th th1 \<and>
    ready s w \<noteq> Some b \<and> (\<forall>w'. manager s1 (te_value e) = Some w' \<longrightarrow> fine s1 (te_value e) w') \<and>
    process_entry check c s a =
      obind (if b then Some (Inr (s1\<lparr>ts_threads := (ts_threads s1)(te_value e \<mapsto> th1\<lparr>th_waitCount := th_waitCount th1 + 1\<rparr>)\<rparr>))
             else Thread_unwait (s1\<lparr>ts_threads := (ts_threads s1)(te_value e \<mapsto> th1\<lparr>th_waitCount := 0\<rparr>)\<rparr>) (te_value e)) (\<lambda>s.
      obind (Some (set_current s c (te_next e))) (\<lambda>s. Some (Inr (s, te_next e))))"
proof -
  have v: "val (ts_entries s) a = te_value e" using assms(4) by (simp add: val_def)
  have core: "core_ok s c sc R (xs @ a # ys)" using wf_core [OF assms(1,2)] assms(3) by simp
  then have q: "queues s c sc R (xs @ a # ys)" and t: "task_ok s c True (te_value e)" using v by (auto simp: core_ok_def)
  have nz: "a \<noteq> 0" "te_value e \<noteq> 0" "th_process th \<noteq> 0" "ts_processes s (th_process th) \<noteq> None"
    using q seg_mem [of "ts_entries s" "sc_waitQueue sc" "xs @ a # ys" 0 a] t assms(5) by (auto simp: queues_def task_ok_def thread_ok_def)
  have "manager s (te_value e) = Some w" using assms(5,7) by (simp add: manager_def)
  from check_returns [OF assms(1) t this assms(8)]
  obtain b s1 where c1: "check s (te_value e) w = Some (Inr (b, s1))" "checked s (te_value e) s1" "\<forall>u v. fine s u v \<longrightarrow> fine s1 u v"
    "ready s w \<noteq> Some b" "\<forall>w'. manager s1 (te_value e) = Some w' \<longrightarrow> fine s1 (te_value e) w'" by blast
  obtain th1 where th1: "ts_threads s1 (te_value e) = Some th1" "kept th th1"
    using c1(2) assms(5) by (auto simp: checked_def option_rel_Some1 dest!: spec [of _ "te_value e"])
  have same: "get_scheduler s1 = get_scheduler s" "ts_entries s1 = ts_entries s"
    using c1(2) by (auto simp: checked_def get_scheduler_def fun_eq_iff)
  show ?thesis
    using c1 th1 nz same assms(4-7) checked_wf [OF assms(1) c1(2)] stepped_checked [OF c1(2)]
    by (auto simp: process_entry_def at_Inr Scheduler_applyContextSwitch_def Scheduler_checkAliveState_def
        Scheduler_checkWaitingState_def upd_thread_def at_upd_def)
qed

lemma process_keep:
  assumes "wf s V" and "get_scheduler s c = Inr sc" and "V c = (R, xs @ a # ys)" and "ts_entries s a = Some e"
    and "ts_threads s (te_value e) = Some th" and "th_alive th" and "th_waitManager th = Some w" and "fine s (te_value e) w"
    and "check s (te_value e) w = Some (Inr (True, s1))"
  shows "\<exists>s' sc'. process_entry check c s a = Some (Inr (s', te_next e)) \<and> wf s' (V(c := (R, xs @ a # ys))) \<and>
    get_scheduler s' c = Inr sc' \<and> sc_idleEntry sc' = sc_idleEntry sc \<and> stepped fine s {te_value e} s' \<and>
    ts_entries s' = ts_entries s \<and> alive s' (te_value e) \<and> good fine s' (te_value e) \<and> ready s w \<noteq> Some True"
proof -
  from process_check [OF assms(1-8)] assms(9)
  obtain th1 where c1: "wf s1 V" "get_scheduler s1 = get_scheduler s" "ts_entries s1 = ts_entries s" "stepped fine s {te_value e} s1"
    "ts_threads s1 (te_value e) = Some th1" "kept th th1" "ready s w \<noteq> Some True"
    "\<forall>w'. manager s1 (te_value e) = Some w' \<longrightarrow> fine s1 (te_value e) w'"
    "process_entry check c s a =
      obind (Some (Inr (s1\<lparr>ts_threads := (ts_threads s1)(te_value e \<mapsto> th1\<lparr>th_waitCount := th_waitCount th1 + 1\<rparr>)\<rparr>))) (\<lambda>s.
      obind (Some (set_current s c (te_next e))) (\<lambda>s. Some (Inr (s, te_next e))))"
    by auto
  let ?s2 = "s1\<lparr>ts_threads := (ts_threads s1)(te_value e \<mapsto> th1\<lparr>th_waitCount := th_waitCount th1 + 1\<rparr>)\<rparr>"
  let ?s = "put_scheduler ?s2 c (sc\<lparr>sc_currentEntry := te_next e\<rparr>)"
  have g: "get_scheduler s1 c = Inr sc" "get_scheduler ?s2 c = Inr sc" using assms(2) c1(2) by simp_all
  have V: "V(c := (R, xs @ a # ys)) = V" using assms(3) by auto
  have "wf ?s2 V" by (rule wf_threads [OF c1(1,5)]) simp_all
  then have w: "wf ?s V" using wf_set_current [of ?s2 V c sc] g by simp
  have clk: "clock ?s2 = clock s1" by (rule clock_cong) simp
  then have "stepped fine s1 {te_value e} ?s"
    using clock_put [OF g(2), of "sc\<lparr>sc_currentEntry := te_next e\<rparr>"] by (intro stepped_own) auto
  then have "stepped fine s {te_value e} ?s" using stepped_trans [OF c1(4)] by fastforce
  moreover have "alive ?s (te_value e)" using c1(6) assms(6) by (simp add: alive_def kept_def)
  moreover have "good fine ?s (te_value e)"
  proof -
    have "fine ?s (te_value e) w'" if "fine s1 (te_value e) w'" for w'
      by (rule fine_frame [OF _ _ _ that])
        (use c1(5) clk clock_put [OF g(2), of "sc\<lparr>sc_currentEntry := te_next e\<rparr>"] in \<open>auto simp: alike_def\<close>)
    then show ?thesis using c1(5,6,8) assms(6) by (auto simp: good_def mortal_def manager_def kept_def)
  qed
  moreover have "process_entry check c s a = Some (Inr (?s, te_next e))" using c1(9) set_current_Inr [OF g(2)] by simp
  ultimately show ?thesis using w V c1(3,7) get_less [OF g(1)] by (intro exI [of _ ?s] exI) auto
qed

lemma process_wake:
  assumes "wf s V" and "get_scheduler s c = Inr sc" and "V c = (R, xs @ a # ys)" and "ts_entries s a = Some e"
    and "ts_threads s (te_value e) = Some th" and "th_alive th" and "th_waitManager th = Some w" and "fine s (te_value e) w"
    and "check s (te_value e) w = Some (Inr (False, s1))"
  shows "\<exists>s' sc'. process_entry check c s a = Some (Inr (s', te_next e)) \<and> wf s' (V(c := (a # R, xs @ ys))) \<and>
    get_scheduler s' c = Inr sc' \<and> sc_idleEntry sc' = sc_idleEntry sc \<and> stepped fine s {te_value e} s' \<and>
    (\<forall>b\<in>set ys. ts_entries s' b = ts_entries s b) \<and> same_vals (ts_entries s) (ts_entries s') \<and>
    alive s' (te_value e) \<and> good fine s' (te_value e) \<and> ready s w \<noteq> Some False \<and>
    (\<exists>th'. ts_threads s' (te_value e) = Some th' \<and> th_id th' = th_id th)"
proof -
  from process_check [OF assms(1-8)] assms(9)
  obtain th1 where c1: "wf s1 V" "get_scheduler s1 = get_scheduler s" "ts_entries s1 = ts_entries s" "stepped fine s {te_value e} s1"
    "ts_threads s1 (te_value e) = Some th1" "kept th th1" "ready s w \<noteq> Some False"
    "process_entry check c s a =
      obind (Thread_unwait (s1\<lparr>ts_threads := (ts_threads s1)(te_value e \<mapsto> th1\<lparr>th_waitCount := 0\<rparr>)\<rparr>) (te_value e)) (\<lambda>s.
      obind (Some (set_current s c (te_next e))) (\<lambda>s. Some (Inr (s, te_next e))))"
    by auto
  let ?s2 = "s1\<lparr>ts_threads := (ts_threads s1)(te_value e \<mapsto> th1\<lparr>th_waitCount := 0\<rparr>)\<rparr>"
  have g: "get_scheduler ?s2 c = Inr sc" using assms(2) c1(2) by simp
  have v: "val (ts_entries ?s2) a = te_value e" using assms(4) c1(3) by (simp add: val_def)
  have "wf ?s2 V" by (rule wf_threads [OF c1(1,5)]) simp_all
  from unwait_wf [OF this g assms(3), unfolded v]
  obtain s3 h where s3: "Thread_unwait ?s2 (te_value e) = Some (Inr s3)" "wf s3 (V(c := (a # R, xs @ ys)))"
    "get_scheduler s3 c = Inr (sc\<lparr>sc_waitQueue := h, sc_runQueue := a\<rparr>)" "\<forall>d. d \<noteq> c \<longrightarrow> get_scheduler s3 d = get_scheduler s d"
    "same_vals (ts_entries s) (ts_entries s3)" "\<forall>b. b \<notin> set (xs @ [a]) \<longrightarrow> ts_entries s3 b = ts_entries s b"
    "ts_threads s3 = (ts_threads s1)(te_value e \<mapsto> th1\<lparr>th_waitCount := 0, th_waitManager := None\<rparr>)" "same_rest s1 s3"
    using c1(2,3) by auto
  let ?sc = "sc\<lparr>sc_waitQueue := h, sc_runQueue := a, sc_currentEntry := te_next e\<rparr>"
  let ?s = "put_scheduler s3 c ?sc"
  have w: "wf ?s (V(c := (a # R, xs @ ys)))" using wf_set_current [OF s3(2,3), of "te_next e"] by simp
  have "clock s3 = clock s1" using c1(2) by (intro clock_own [of s1 c sc, OF _ s3(3)]) (use assms(2) s3(4) in auto)
  then have "stepped fine s1 {te_value e} ?s"
    using clock_put [OF s3(3), of ?sc] s3(7,8) by (intro stepped_own) auto
  then have "stepped fine s {te_value e} ?s" using stepped_trans [OF c1(4)] by fastforce
  moreover have "alive ?s (te_value e)" "good fine ?s (te_value e)" "\<exists>th'. ts_threads ?s (te_value e) = Some th' \<and> th_id th' = th_id th"
    using c1(6) assms(6) s3(7) by (simp_all add: alive_def kept_def good_def mortal_def manager_def)
  moreover have "process_entry check c s a = Some (Inr (?s, te_next e))" using c1(8) s3(1) set_current_Inr [OF s3(3)] by simp
  moreover have "distinct (R @ xs @ a # ys)"
    using wf_core [OF assms(1,2)] assms(3) unfolding core_ok_def queues_def distinct_map by simp
  ultimately show ?thesis using w s3(5,6) c1(7) get_less [OF s3(3)] by (intro exI [of _ ?s] exI) auto
qed

text \<open>The three cases in one: the thread is dead and removed, it is woken (\<open>k\<close>), or it goes on waiting.\<close>

lemma process_entry_spec:
  assumes "wf s V" and "get_scheduler s c = Inr sc" and "V c = (R, xs @ a # ys)" and "ts_entries s a = Some e"
    and "good fine s (te_value e)"
  shows "\<exists>s' sc' k. process_entry check c s a = Some (Inr (s', te_next e)) \<and>
    wf s' (V(c := (if k then a # R else R, if alive s (te_value e) \<and> \<not> k then xs @ a # ys else xs @ ys))) \<and>
    get_scheduler s' c = Inr sc' \<and> sc_idleEntry sc' = sc_idleEntry sc \<and> stepped fine s {te_value e} s' \<and>
    (\<forall>b\<in>set ys. ts_entries s' b = ts_entries s b) \<and>
    (\<forall>b. b \<noteq> a \<longrightarrow> map_option te_value (ts_entries s' b) = map_option te_value (ts_entries s b)) \<and>
    (k \<longrightarrow> alive s (te_value e)) \<and>
    (alive s (te_value e) \<longrightarrow> alive s' (te_value e) \<and> good fine s' (te_value e) \<and> map_option te_value (ts_entries s' a) = Some (te_value e) \<and>
      (\<forall>w r. manager s (te_value e) = Some w \<longrightarrow> ready s w = Some r \<longrightarrow> k = r))"
proof -
  have "val (ts_entries s) a = te_value e" using assms(4) by (simp add: val_def)
  then have "task_ok s c True (te_value e)" using wf_core [OF assms(1,2)] assms(3) by (auto simp: core_ok_def)
  then obtain th w where th: "ts_threads s (te_value e) = Some th" "th_waitManager th = Some w" by (auto simp: task_ok_def thread_ok_def)
  have m: "manager s (te_value e) = Some w" "alive s (te_value e) = th_alive th" using th by (simp_all add: manager_def alive_def)
  then have fine: "fine s (te_value e) w" using assms(5) by (simp add: good_def)
  show ?thesis
  proof (cases "th_alive th")
    case False
    then have "th_type th \<noteq> THREAD_TYPE_MAIN" using assms(5) th by (auto simp: good_def mortal_def)
    from process_dead [OF assms(1-4) th(1) False this]
    obtain s' sc' where "process_entry check c s a = Some (Inr (s', te_next e))" "wf s' (V(c := (R, xs @ ys)))"
      "get_scheduler s' c = Inr sc'" "sc_idleEntry sc' = sc_idleEntry sc" "stepped fine s {te_value e} s'"
      "\<forall>b\<in>set ys. ts_entries s' b = ts_entries s b"
      "\<forall>b. b \<noteq> a \<longrightarrow> map_option te_value (ts_entries s' b) = map_option te_value (ts_entries s b)" by blast
    then show ?thesis using m(2) False by (intro exI [of _ s'] exI [of _ sc'] exI [of _ False]) simp
  next
    case True
    from process_check [OF assms(1-4) th(1) True th(2) fine] obtain b s1 where b: "check s (te_value e) w = Some (Inr (b, s1))" by blast
    show ?thesis
    proof (cases b)
      case True
      then have b': "check s (te_value e) w = Some (Inr (True, s1))" using b by simp
      from process_keep [OF assms(1-4) th(1) \<open>th_alive th\<close> th(2) fine b']
      obtain s' sc' where s': "process_entry check c s a = Some (Inr (s', te_next e))" "wf s' (V(c := (R, xs @ a # ys)))"
        "get_scheduler s' c = Inr sc'" "sc_idleEntry sc' = sc_idleEntry sc" "stepped fine s {te_value e} s'"
        "ts_entries s' = ts_entries s" "alive s' (te_value e)" "good fine s' (te_value e)" "ready s w \<noteq> Some True" by blast
      show ?thesis using s' m \<open>th_alive th\<close> assms(4) by (intro exI [of _ s'] exI [of _ sc'] exI [of _ False]) auto
    next
      case False
      then have b': "check s (te_value e) w = Some (Inr (False, s1))" using b by simp
      from process_wake [OF assms(1-4) th(1) \<open>th_alive th\<close> th(2) fine b']
      obtain s' sc' where s': "process_entry check c s a = Some (Inr (s', te_next e))" "wf s' (V(c := (a # R, xs @ ys)))"
        "get_scheduler s' c = Inr sc'" "sc_idleEntry sc' = sc_idleEntry sc" "stepped fine s {te_value e} s'"
        "\<forall>b\<in>set ys. ts_entries s' b = ts_entries s b" "same_vals (ts_entries s) (ts_entries s')" "alive s' (te_value e)" "good fine s' (te_value e)" "ready s w \<noteq> Some False" by blast
      then show ?thesis using m \<open>th_alive th\<close> assms(4)
        by (intro exI [of _ s'] exI [of _ sc'] exI [of _ True]) (auto simp: same_vals_def)
    qed
  qed
qed

section \<open>The wait queue\<close>

lemma process_loop_spec:
  assumes "wf s V" and "get_scheduler s c = Inr sc" and "V c = (R, xs @ ys)" and "seg (ts_entries s) p ys 0"
    and "\<forall>a\<in>set ys. good fine s (val (ts_entries s) a)"
  shows "\<exists>s' sc' K. process_loop check c s p = Some (Inr s') \<and>
    wf s' (V(c := (rev (filter (\<lambda>a. a \<in> K) ys) @ R, xs @ filter (\<lambda>a. a \<notin> K \<and> alive s (val (ts_entries s) a)) ys))) \<and>
    get_scheduler s' c = Inr sc' \<and> sc_idleEntry sc' = sc_idleEntry sc \<and> stepped fine s (val (ts_entries s) ` set ys) s' \<and>
    K \<subseteq> {a \<in> set ys. alive s (val (ts_entries s) a)} \<and>
    (\<forall>b. b \<notin> set ys \<or> alive s (val (ts_entries s) b) \<longrightarrow> map_option te_value (ts_entries s' b) = map_option te_value (ts_entries s b)) \<and>
    (\<forall>a\<in>set ys. alive s (val (ts_entries s) a) \<longrightarrow> alive s' (val (ts_entries s) a) \<and> good fine s' (val (ts_entries s) a) \<and>
      (\<forall>w r. manager s (val (ts_entries s) a) = Some w \<longrightarrow> ready s w = Some r \<longrightarrow> (a \<in> K) = r))"
  using assms
proof (induction ys arbitrary: s V sc R xs p)
  case Nil
  have "V(c := (R, xs)) = V" using Nil(3) by auto
  then show ?case using Nil by (intro exI [of _ s] exI [of _ sc] exI [of _ "{}"]) (auto simp: process_loop.simps intro!: stepped_own)
next
  case (Cons a ys)
  obtain e where e: "p = a" "a \<noteq> 0" "ts_entries s a = Some e" "seg (ts_entries s) (te_next e) ys 0" using Cons.prems(4) by auto
  have v: "val (ts_entries s) a = te_value e" using e(3) by (simp add: val_def)
  have "good fine s (te_value e)" using Cons.prems(5) v by auto
  from process_entry_spec [OF Cons.prems(1-3) e(3) this]
  obtain s1 sc1 k where s1: "process_entry check c s a = Some (Inr (s1, te_next e))"
    "wf s1 (V(c := (if k then a # R else R, if alive s (te_value e) \<and> \<not> k then xs @ a # ys else xs @ ys)))"
    "get_scheduler s1 c = Inr sc1" "sc_idleEntry sc1 = sc_idleEntry sc" "stepped fine s {te_value e} s1"
    "\<forall>b\<in>set ys. ts_entries s1 b = ts_entries s b"
    "\<forall>b. b \<noteq> a \<longrightarrow> map_option te_value (ts_entries s1 b) = map_option te_value (ts_entries s b)"
    "k \<longrightarrow> alive s (te_value e)"
    "alive s (te_value e) \<longrightarrow> alive s1 (te_value e) \<and> good fine s1 (te_value e) \<and> map_option te_value (ts_entries s1 a) = Some (te_value e) \<and>
      (\<forall>w r. manager s (te_value e) = Some w \<longrightarrow> ready s w = Some r \<longrightarrow> k = r)" by blast
  let ?xs = "if alive s (te_value e) \<and> \<not> k then xs @ [a] else xs" and ?R = "if k then a # R else R"
  let ?V = "V(c := (?R, ?xs @ ys))"
  have wf1: "wf s1 ?V" using s1(2) by (cases "alive s (te_value e) \<and> \<not> k") auto
  have dv: "distinct (map (val (ts_entries s)) (a # ys))" using wf_core [OF Cons.prems(1,2)] Cons.prems(3) by (auto simp: core_ok_def queues_def)
  have nin: "te_value e \<notin> val (ts_entries s) ` set ys" using dv v by simp
  have ys: "val (ts_entries s1) b = val (ts_entries s) b" "val (ts_entries s) b \<noteq> te_value e" if "b \<in> set ys" for b
    using s1(6) that nin by (simp add: val_def) (metis imageI nin that)
  have "a \<notin> set ys" using nin v by (metis imageI)
  have seg1: "seg (ts_entries s1) (te_next e) ys 0" using e(4) s1(6) seg_cong [of ys "ts_entries s1" "ts_entries s"] by blast
  have st: "alive s1 (val (ts_entries s) b) = alive s (val (ts_entries s) b)" "mortal s1 (val (ts_entries s) b) = mortal s (val (ts_entries s) b)"
    "manager s1 (val (ts_entries s) b) = manager s (val (ts_entries s) b)" if "b \<in> set ys" for b
    using stepped_alive [OF s1(5)] ys(2) [OF that] by auto
  have "\<forall>b\<in>set ys. good fine s1 (val (ts_entries s1) b)" using Cons.prems(5) stepped_good [OF s1(5)] ys by auto
  moreover have "?V c = (?R, ?xs @ ys)" by simp
  ultimately have "\<exists>s' sc' K. process_loop check c s1 (te_next e) = Some (Inr s') \<and>
      wf s' (?V(c := (rev (filter (\<lambda>b. b \<in> K) ys) @ ?R, ?xs @ filter (\<lambda>b. b \<notin> K \<and> alive s1 (val (ts_entries s1) b)) ys))) \<and>
      get_scheduler s' c = Inr sc' \<and> sc_idleEntry sc' = sc_idleEntry sc1 \<and> stepped fine s1 (val (ts_entries s1) ` set ys) s' \<and>
      K \<subseteq> {b \<in> set ys. alive s1 (val (ts_entries s1) b)} \<and>
      (\<forall>b. b \<notin> set ys \<or> alive s1 (val (ts_entries s1) b) \<longrightarrow> map_option te_value (ts_entries s' b) = map_option te_value (ts_entries s1 b)) \<and>
      (\<forall>b\<in>set ys. alive s1 (val (ts_entries s1) b) \<longrightarrow> alive s' (val (ts_entries s1) b) \<and> good fine s' (val (ts_entries s1) b) \<and>
        (\<forall>w r. manager s1 (val (ts_entries s1) b) = Some w \<longrightarrow> ready s1 w = Some r \<longrightarrow> (b \<in> K) = r))"
    using Cons.IH [of s1 ?V sc1 ?R ?xs "te_next e"] wf1 s1(3) seg1 by blast
  then
  obtain s2 sc2 K where s2: "process_loop check c s1 (te_next e) = Some (Inr s2)"
    "wf s2 (?V(c := (rev (filter (\<lambda>b. b \<in> K) ys) @ ?R, ?xs @ filter (\<lambda>b. b \<notin> K \<and> alive s1 (val (ts_entries s1) b)) ys)))"
    "get_scheduler s2 c = Inr sc2" "sc_idleEntry sc2 = sc_idleEntry sc1" "stepped fine s1 (val (ts_entries s1) ` set ys) s2"
    "K \<subseteq> {b \<in> set ys. alive s1 (val (ts_entries s1) b)}"
    "\<forall>b. b \<notin> set ys \<or> alive s1 (val (ts_entries s1) b) \<longrightarrow> map_option te_value (ts_entries s2 b) = map_option te_value (ts_entries s1 b)"
    "\<forall>b\<in>set ys. alive s1 (val (ts_entries s1) b) \<longrightarrow> alive s2 (val (ts_entries s1) b) \<and> good fine s2 (val (ts_entries s1) b) \<and>
      (\<forall>w r. manager s1 (val (ts_entries s1) b) = Some w \<longrightarrow> ready s1 w = Some r \<longrightarrow> (b \<in> K) = r)"
    by blast
  let ?K = "if k then insert a K else K"
  have "a \<notin> K" using s2(6) \<open>a \<notin> set ys\<close> by auto
  have run: "process_loop check c s p = Some (Inr s2)" using e(1,2) s1(1) s2(1) by (subst process_loop.simps) simp
  have "rev (filter (\<lambda>b. b \<in> ?K) (a # ys)) @ R = rev (filter (\<lambda>b. b \<in> K) ys) @ ?R"
    using \<open>a \<notin> set ys\<close> \<open>a \<notin> K\<close> by (auto intro: filter_cong)
  moreover have "filter (\<lambda>b. b \<notin> ?K \<and> alive s (val (ts_entries s) b)) ys = filter (\<lambda>b. b \<notin> K \<and> alive s1 (val (ts_entries s1) b)) ys"
    using \<open>a \<notin> set ys\<close> st(1) ys(1) by (auto intro!: filter_cong)
  then have "xs @ filter (\<lambda>b. b \<notin> ?K \<and> alive s (val (ts_entries s) b)) (a # ys) =
      ?xs @ filter (\<lambda>b. b \<notin> K \<and> alive s1 (val (ts_entries s1) b)) ys"
    using v s1(8) \<open>a \<notin> K\<close> by (cases "alive s (te_value e)"; cases k) simp_all
  ultimately have wf2: "wf s2 (V(c := (rev (filter (\<lambda>b. b \<in> ?K) (a # ys)) @ R,
      xs @ filter (\<lambda>b. b \<notin> ?K \<and> alive s (val (ts_entries s) b)) (a # ys))))"
    using s2(2) by simp
  have img: "val (ts_entries s1) ` set ys = val (ts_entries s) ` set ys" using ys(1) by (intro image_cong) auto
  then have stp: "stepped fine s (val (ts_entries s) ` set (a # ys)) s2" using stepped_trans [OF s1(5) s2(5)] v by simp
  have sub: "?K \<subseteq> {b \<in> set (a # ys). alive s (val (ts_entries s) b)}" using s2(6) s1(8) st(1) ys(1) v by auto
  have "map_option te_value (ts_entries s2 b) = map_option te_value (ts_entries s b)"
    if "b \<notin> set (a # ys) \<or> alive s (val (ts_entries s) b)" for b
    using that s2(7) s1(7,9) st(1) ys(1) v e(3) \<open>a \<notin> set ys\<close> by (cases "b = a"; cases "b \<in> set ys") auto
  then have ents: "\<forall>b. b \<notin> set (a # ys) \<or> alive s (val (ts_entries s) b) \<longrightarrow>
      map_option te_value (ts_entries s2 b) = map_option te_value (ts_entries s b)" by blast
  have idle: "sc_idleEntry sc2 = sc_idleEntry sc" using s2(4) s1(4) by simp
  have rdy: "ready s1 = ready s" using ready_frame s1(5) by (auto simp: stepped_def)
  have "te_value e \<notin> val (ts_entries s1) ` set ys" using nin img by simp
  then have "alive s2 (te_value e)" "good fine s2 (te_value e)" if "alive s (te_value e)"
    using stepped_alive(1) [OF s2(5)] stepped_good [OF s2(5)] s1(9) that by auto
  then have last: "\<forall>b\<in>set (a # ys). alive s (val (ts_entries s) b) \<longrightarrow> alive s2 (val (ts_entries s) b) \<and> good fine s2 (val (ts_entries s) b) \<and>
      (\<forall>w r. manager s (val (ts_entries s) b) = Some w \<longrightarrow> ready s w = Some r \<longrightarrow> (b \<in> ?K) = r)"
    using s2(8) s1(9) st ys(1) v rdy \<open>a \<notin> K\<close> \<open>a \<notin> set ys\<close> by auto
  show ?case
    by (intro exI [of _ s2] exI [of _ sc2] exI [of _ ?K] conjI; fact)
qed

section \<open>A round\<close>

lemma process_queue_spec:
  assumes "wf s V" and "get_scheduler s c = Inr sc" and "V c = (R, W)" and "\<forall>a\<in>set W. good fine s (val (ts_entries s) a)"
  shows "\<exists>s' sc' K. Scheduler_processWaitQueue check s c = Some (Inr s') \<and>
    wf s' (V(c := (rev (filter (\<lambda>a. a \<in> K) W) @ R, filter (\<lambda>a. a \<notin> K \<and> alive s (val (ts_entries s) a)) W))) \<and>
    get_scheduler s' c = Inr sc' \<and> sc_idleEntry sc' = sc_idleEntry sc \<and> stepped fine s (val (ts_entries s) ` set W) s' \<and>
    K \<subseteq> {a \<in> set W. alive s (val (ts_entries s) a)} \<and>
    (\<forall>b. b \<notin> set W \<or> alive s (val (ts_entries s) b) \<longrightarrow> map_option te_value (ts_entries s' b) = map_option te_value (ts_entries s b)) \<and>
    (\<forall>a\<in>set W. alive s (val (ts_entries s) a) \<longrightarrow> alive s' (val (ts_entries s) a) \<and> good fine s' (val (ts_entries s) a) \<and>
      (\<forall>w r. manager s (val (ts_entries s) a) = Some w \<longrightarrow> ready s w = Some r \<longrightarrow> (a \<in> K) = r))"
proof -
  let ?sc = "sc\<lparr>sc_currentEntry := sc_waitQueue sc\<rparr>"
  let ?s = "put_scheduler s c ?sc"
  have core: "core_ok s c sc R W" using wf_core [OF assms(1,2)] assms(3) by simp
  have w: "wf ?s V" and g: "get_scheduler ?s c = Inr ?sc" using wf_set_current [OF assms(1,2)] get_less [OF assms(2)] by simp_all
  have st: "stepped fine s {} ?s" by (rule stepped_own) (use clock_put [OF assms(2)] in auto)
  have same: "alive ?s = alive s" "manager ?s = manager s" by (simp_all add: alive_def manager_def fun_eq_iff)
  have rdy: "ready ?s = ready s" using ready_frame st by (auto simp: stepped_def)
  have gd: "\<forall>a\<in>set W. good fine ?s (val (ts_entries ?s) a)" using assms(4) stepped_good [OF st] by simp
  have seg: "seg (ts_entries ?s) (sc_waitQueue sc) W 0" using core by (simp add: core_ok_def queues_def)
  have run: "Scheduler_processWaitQueue check s c = process_loop check c ?s (sc_waitQueue sc)"
    using assms(2) by (simp add: Scheduler_processWaitQueue_def set_current_def)
  have Vc: "V c = (R, [] @ W)" using assms(3) by simp
  from process_loop_spec [OF w g Vc seg gd] obtain s' sc' K where s': "process_loop check c ?s (sc_waitQueue sc) = Some (Inr s')"
    "wf s' (V(c := (rev (filter (\<lambda>a. a \<in> K) W) @ R, filter (\<lambda>a. a \<notin> K \<and> alive s (val (ts_entries s) a)) W)))"
    "get_scheduler s' c = Inr sc'" "sc_idleEntry sc' = sc_idleEntry sc" "stepped fine ?s (val (ts_entries s) ` set W) s'"
    "K \<subseteq> {a \<in> set W. alive s (val (ts_entries s) a)}"
    "\<forall>b. b \<notin> set W \<or> alive s (val (ts_entries s) b) \<longrightarrow> map_option te_value (ts_entries s' b) = map_option te_value (ts_entries s b)"
    "\<forall>a\<in>set W. alive s (val (ts_entries s) a) \<longrightarrow> alive s' (val (ts_entries s) a) \<and> good fine s' (val (ts_entries s) a) \<and>
      (\<forall>w r. manager s (val (ts_entries s) a) = Some w \<longrightarrow> ready s w = Some r \<longrightarrow> (a \<in> K) = r)"
    by (auto simp: same rdy)
  have "stepped fine s (val (ts_entries s) ` set W) s'" using stepped_trans [OF st s'(5)] by simp
  show ?thesis unfolding run by (intro exI [of _ s'] exI [of _ sc'] exI [of _ K] conjI; fact)
qed

text \<open>
  The state in which the next thread is chosen: the woken threads are in front of the run queue, and
  the running entry is still in it.
\<close>

lemma before_choice:
  assumes "wf s V" and "get_scheduler s c = Inr sc" and "V c = (R, W)" and "current_ok s sc R"
    and "\<forall>a\<in>set (R @ W). good fine s (val (ts_entries s) a)"
  shows "\<exists>s' sc' K. obind (Scheduler_processWaitQueue check s c) (\<lambda>s. Some (set_current s c (sc_currentEntry sc))) = Some (Inr s') \<and>
    wf s' (V(c := (rev (filter (\<lambda>a. a \<in> K) W) @ R, filter (\<lambda>a. a \<notin> K \<and> alive s (val (ts_entries s) a)) W))) \<and>
    get_scheduler s' c = Inr sc' \<and> sc_idleEntry sc' = sc_idleEntry sc \<and> sc_currentEntry sc' = sc_currentEntry sc \<and>
    current_ok s' sc' (rev (filter (\<lambda>a. a \<in> K) W) @ R) \<and> K \<subseteq> {a \<in> set W. alive s (val (ts_entries s) a)} \<and>
    stepped fine s (val (ts_entries s) ` set W) s' \<and>
    (\<forall>a\<in>set R \<union> {a \<in> set W. alive s (val (ts_entries s) a)}. val (ts_entries s') a = val (ts_entries s) a \<and>
      good fine s' (val (ts_entries s) a) \<and> alive s' (val (ts_entries s) a) = alive s (val (ts_entries s) a)) \<and>
    (\<forall>a\<in>set W. alive s (val (ts_entries s) a) \<longrightarrow>
      (\<forall>w r. manager s (val (ts_entries s) a) = Some w \<longrightarrow> ready s w = Some r \<longrightarrow> (a \<in> K) = r))"
proof -
  have core: "core_ok s c sc R W" using wf_core [OF assms(1,2)] assms(3) by simp
  then have q: "queues s c sc R W" by (simp add: core_ok_def)
  obtain s1 sc1 K where s1: "Scheduler_processWaitQueue check s c = Some (Inr s1)"
    "wf s1 (V(c := (rev (filter (\<lambda>a. a \<in> K) W) @ R, filter (\<lambda>a. a \<notin> K \<and> alive s (val (ts_entries s) a)) W)))"
    "get_scheduler s1 c = Inr sc1" "sc_idleEntry sc1 = sc_idleEntry sc" "stepped fine s (val (ts_entries s) ` set W) s1"
    "K \<subseteq> {a \<in> set W. alive s (val (ts_entries s) a)}"
    "\<forall>b. b \<notin> set W \<or> alive s (val (ts_entries s) b) \<longrightarrow> map_option te_value (ts_entries s1 b) = map_option te_value (ts_entries s b)"
    "\<forall>a\<in>set W. alive s (val (ts_entries s) a) \<longrightarrow> alive s1 (val (ts_entries s) a) \<and> good fine s1 (val (ts_entries s) a) \<and>
      (\<forall>w r. manager s (val (ts_entries s) a) = Some w \<longrightarrow> ready s w = Some r \<longrightarrow> (a \<in> K) = r)"
    using process_queue_spec [OF assms(1-3)] assms(5) by auto
  let ?sc = "sc1\<lparr>sc_currentEntry := sc_currentEntry sc\<rparr>"
  let ?s = "put_scheduler s1 c ?sc"
  have st: "stepped fine s1 {} ?s" by (rule stepped_own) (use clock_put [OF s1(3)] in auto)
  have val1: "val (ts_entries s1) b = val (ts_entries s) b"
    if "b \<notin> set W \<or> alive s (val (ts_entries s) b)" "\<exists>e. ts_entries s b = Some e" for b
  proof -
    have "map_option te_value (ts_entries s1 b) = map_option te_value (ts_entries s b)" using s1(7) that(1) by blast
    then show ?thesis using that(2) by (auto simp: val_def)
  qed
  have RW: "\<exists>e. ts_entries s b = Some e" if "b \<in> set (R @ W)" for b
    using q that seg_mem [of "ts_entries s" "sc_runQueue sc" R 0 b] seg_mem [of "ts_entries s" "sc_waitQueue sc" W 0 b] by (auto simp: queues_def)
  have R: "val (ts_entries s) b \<notin> val (ts_entries s) ` set W" "b \<notin> set W" if "b \<in> set R" for b
  proof -
    have "val (ts_entries s) ` set R \<inter> val (ts_entries s) ` set W = {}" using q by (auto simp: queues_def)
    then show "val (ts_entries s) b \<notin> val (ts_entries s) ` set W" using that by blast
    then show "b \<notin> set W" by blast
  qed
  have keep: "val (ts_entries ?s) a = val (ts_entries s) a \<and> good fine ?s (val (ts_entries s) a) \<and>
      alive ?s (val (ts_entries s) a) = alive s (val (ts_entries s) a)"
    if "a \<in> set R \<union> {a \<in> set W. alive s (val (ts_entries s) a)}" for a
  proof (cases "a \<in> set R")
    case True
    then show ?thesis using R [OF True] val1 RW assms(5) stepped_good [OF s1(5)] stepped_good [OF st] stepped_alive(1) [OF s1(5)]
      stepped_alive(1) [OF st] by auto
  next
    case False
    then show ?thesis using that val1 RW s1(8) stepped_good [OF st] stepped_alive(1) [OF st] by auto
  qed
  have "current_ok ?s ?sc (rev (filter (\<lambda>a. a \<in> K) W) @ R)"
  proof -
    have idle: "sc_idleEntry sc \<noteq> 0" "alive s (val (ts_entries s) (sc_idleEntry sc))" using assms(4) by (simp_all add: current_ok_def)
    obtain e where e: "ts_entries s (sc_idleEntry sc) = Some e" "te_value e \<notin> val (ts_entries s) ` set (R @ W)"
      using core idle(1) by (auto simp: core_ok_def idle_ok_def)
    then have "val (ts_entries s1) (sc_idleEntry sc) = te_value e" "val (ts_entries s) (sc_idleEntry sc) = te_value e"
      using val1 [of "sc_idleEntry sc"] idle(2) by (auto simp: val_def)
    then have "alive s1 (val (ts_entries s1) (sc_idleEntry sc))" using idle(2) e(2) stepped_alive(1) [OF s1(5)] by auto
    then show ?thesis using assms(4) s1(4) by (auto simp: current_ok_def alive_def)
  qed
  moreover have "stepped fine s (val (ts_entries s) ` set W) ?s" using stepped_trans [OF s1(5) st] by simp
  moreover have "obind (Scheduler_processWaitQueue check s c) (\<lambda>s. Some (set_current s c (sc_currentEntry sc))) = Some (Inr ?s)"
    using s1(1) set_current_Inr [OF s1(3)] by simp
  ultimately show ?thesis using wf_set_current [OF s1(2,3)] get_less [OF s1(3)] s1(4,6,8) keep
    by (intro exI [of _ ?s] exI [of _ ?sc] exI [of _ K]) auto
qed

text \<open>The choice itself, with the end of the round.\<close>

lemma choice:
  assumes "wf s V" and "get_scheduler s c = Inr sc" and "V c = (R, W)" and "current_ok s sc R"
    and "\<forall>a\<in>set (R @ W). good fine s (val (ts_entries s) a)"
  shows "\<exists>s' sc' D. obind (schedule_loop c s) (\<lambda>(s, thread).
      obind (Some (Scheduler_finishSwitch s thread)) (\<lambda>s.
      obind (Some (upd_thread s thread (\<lambda>th. th\<lparr>th_rounds := th_rounds th + 1\<rparr>))) (\<lambda>s. Some (Inr (s, thread))))) =
      Some (Inr (s', val (ts_entries s') (sc_currentEntry sc'))) \<and>
    wf s' (V(c := (filter (\<lambda>b. b \<notin> D) R, W))) \<and> get_scheduler s' c = Inr sc' \<and> sc_idleEntry sc' = sc_idleEntry sc \<and>
    current_ok s' sc' (filter (\<lambda>b. b \<notin> D) R) \<and> D \<subseteq> {b \<in> set R. \<not> alive s (val (ts_entries s) b)} \<and>
    (if filter (\<lambda>b. b \<notin> D) R = [] then sc_currentEntry sc' = sc_idleEntry sc else sc_currentEntry sc' \<in> set R - D) \<and>
    alive s' (val (ts_entries s') (sc_currentEntry sc')) \<and> clock s' = clock s \<and>
    (\<forall>a\<in>set (filter (\<lambda>b. b \<notin> D) R @ W). val (ts_entries s') a = val (ts_entries s) a \<and> good fine s' (val (ts_entries s) a) \<and>
      alive s' (val (ts_entries s) a) = alive s (val (ts_entries s) a)) \<and>
    ((\<forall>a\<in>set R. alive s (val (ts_entries s) a)) \<longrightarrow> D = {} \<and> sc_currentEntry sc' = pick sc R) \<and>
    (\<forall>u. u \<notin> val (ts_entries s) ` D \<longrightarrow> rel_option kept (ts_threads s u) (ts_threads s' u))"
proof -
  have core: "core_ok s c sc R W" using wf_core [OF assms(1,2)] assms(3) by simp
  then have q: "queues s c sc R W" by (simp add: core_ok_def)
  have "\<forall>a\<in>set R. mortal s (val (ts_entries s) a)" using assms(5) by (simp add: good_def)
  from schedule_loop_total [OF assms(1-4) this]
  obtain s2 sc2 D where s2: "schedule_loop c s = Some (Inr (s2, val (ts_entries s2) (sc_currentEntry sc2)))"
    "wf s2 (V(c := (filter (\<lambda>b. b \<notin> D) R, W)))" "get_scheduler s2 c = Inr sc2" "sc_idleEntry sc2 = sc_idleEntry sc"
    "current_ok s2 sc2 (filter (\<lambda>b. b \<notin> D) R)" "D \<subseteq> {b \<in> set R. \<not> alive s (val (ts_entries s) b)}"
    "if filter (\<lambda>b. b \<notin> D) R = [] then sc_currentEntry sc2 = sc_idleEntry sc else sc_currentEntry sc2 \<in> set R - D"
    "alive s2 (val (ts_entries s2) (sc_currentEntry sc2))" "same_rest s s2" "clock s2 = clock s"
    "\<forall>u. u \<notin> val (ts_entries s) ` D \<longrightarrow> ts_threads s2 u = ts_threads s u"
    "\<forall>b. b \<notin> D \<longrightarrow> map_option te_value (ts_entries s2 b) = map_option te_value (ts_entries s b)" by blast
  let ?t = "val (ts_entries s2) (sc_currentEntry sc2)" and ?R = "filter (\<lambda>b. b \<notin> D) R"
  have core2: "core_ok s2 c sc2 ?R W" using wf_core [OF s2(2,3)] by simp
  have "task_ok s2 c False ?t"
  proof (cases "?R = []")
    case True
    then show ?thesis using s2(4,5,7) core2 by (auto simp: core_ok_def idle_ok_def current_ok_def val_def)
  next
    case False
    then have "sc_currentEntry sc2 \<in> set ?R" using s2(7) by (simp split: if_splits)
    then show ?thesis using core2 by (simp add: core_ok_def)
  qed
  from finish_wf [OF s2(2) this]
  obtain s3 th where s3: "obind (Some (Scheduler_finishSwitch s2 ?t)) (\<lambda>s. obind (Some (upd_thread s ?t (\<lambda>th. th\<lparr>th_rounds := th_rounds th + 1\<rparr>))) (\<lambda>s.
      Some (Inr (s, ?t)))) = Some (Inr (s3, ?t))" "wf s3 (V(c := (?R, W)))" "ts_entries s3 = ts_entries s2" "get_scheduler s3 = get_scheduler s2"
    "same_rest s2 s3" "ts_threads s2 ?t = Some th" "ts_threads s3 = (ts_threads s2)(?t \<mapsto> th\<lparr>th_rounds := th_rounds th + 1\<rparr>)" by blast
  have clk: "clock s3 = clock s2" using s3(4) by (intro clock_cong) simp
  have al: "alive s3 u = alive s2 u" "mortal s3 u = mortal s2 u" "manager s3 u = manager s2 u" for u
    using s3(6,7) by (auto simp: alive_def mortal_def manager_def)
  have fin: "fine s3 u w" if "fine s2 u w" for u w
  proof -
    have "rel_option alike (ts_threads s2 u) (ts_threads s3 u)" using s3(6,7) by (cases "ts_threads s2 u") (auto simp: alike_def)
    then show ?thesis by (rule fine_frame [OF s3(5) clk _ that])
  qed
  have all: "val (ts_entries s3) a = val (ts_entries s) a \<and> good fine s3 (val (ts_entries s) a) \<and>
      alive s3 (val (ts_entries s) a) = alive s (val (ts_entries s) a)" if a: "a \<in> set (?R @ W)" for a
  proof -
    have "distinct (R @ W)" and inj: "inj_on (val (ts_entries s)) (set (R @ W))" using q unfolding queues_def distinct_map by auto
    then have "a \<in> set (R @ W)" "a \<notin> D" using a s2(6) by auto
    then have nin: "val (ts_entries s) a \<notin> val (ts_entries s) ` D" using inj s2(6) by (auto simp: inj_on_def)
    obtain e where "ts_entries s a = Some e"
      using q a seg_mem [of "ts_entries s" "sc_runQueue sc" R 0 a] seg_mem [of "ts_entries s" "sc_waitQueue sc" W 0 a] by (auto simp: queues_def)
    moreover have "map_option te_value (ts_entries s2 a) = map_option te_value (ts_entries s a)" using s2(12) \<open>a \<notin> D\<close> by blast
    ultimately have "val (ts_entries s2) a = val (ts_entries s) a" by (auto simp: val_def)
    moreover have "stepped fine s (val (ts_entries s) ` D) s2" by (rule stepped_own) (use s2 in auto)
    then have "good fine s2 (val (ts_entries s) a)" "alive s2 (val (ts_entries s) a) = alive s (val (ts_entries s) a)"
      using nin stepped_good stepped_alive(1) assms(5) \<open>a \<in> set (R @ W)\<close> by blast+
    ultimately show ?thesis using s3(3) al fin by (auto simp: good_def)
  qed
  have exact: "D = {} \<and> sc_currentEntry sc2 = pick sc R" if "\<forall>a\<in>set R. alive s (val (ts_entries s) a)"
  proof -
    have "alive s (val (ts_entries s) (pick sc R))"
      using that assms(4) pick_mem [OF core assms(4)] by (auto simp: current_ok_def)
    from try_alive [OF assms(1-4) this] have "get_scheduler s2 c = Inr (sc\<lparr>sc_currentEntry := pick sc R\<rparr>)"
      using s2(1) get_less [OF assms(2)] by auto
    then show ?thesis using s2(3,6) that by auto
  qed
  have cur: "current_ok s3 sc2 ?R" using s2(5) al(1) s3(3) by (simp add: current_ok_def)
  have keeps: "rel_option kept (ts_threads s u) (ts_threads s3 u)" if "u \<notin> val (ts_entries s) ` D" for u
    using s2(11) s3(6,7) that by (cases "u = ?t") (auto simp: kept_def)
  have run: "obind (schedule_loop c s) (\<lambda>(s, thread).
      obind (Some (Scheduler_finishSwitch s thread)) (\<lambda>s.
      obind (Some (upd_thread s thread (\<lambda>th. th\<lparr>th_rounds := th_rounds th + 1\<rparr>))) (\<lambda>s. Some (Inr (s, thread))))) =
      Some (Inr (s3, val (ts_entries s3) (sc_currentEntry sc2)))" using s2(1) s3(1,3) by simp
  show ?thesis
    by (intro exI [of _ s3] exI [of _ sc2] exI [of _ D])
      (use run s3(2-4) s2(3,4,6-8,10) cur all exact clk al keeps in \<open>auto split: if_splits\<close>)
qed

lemma schedule_spec:
  assumes "wf s V" and "get_scheduler s c = Inr sc" and "V c = (R, W)" and "current_ok s sc R"
    and "\<forall>a\<in>set (R @ W). good fine s (val (ts_entries s) a)"
  shows "\<exists>s' sc' K D R' W'. Scheduler_schedule check s c = Some (Inr (s', val (ts_entries s') (sc_currentEntry sc'))) \<and>
    R' = filter (\<lambda>b. b \<notin> D) (rev (filter (\<lambda>a. a \<in> K) W) @ R) \<and> W' = filter (\<lambda>a. a \<notin> K \<and> alive s (val (ts_entries s) a)) W \<and>
    wf s' (V(c := (R', W'))) \<and> get_scheduler s' c = Inr sc' \<and> sc_idleEntry sc' = sc_idleEntry sc \<and> current_ok s' sc' R' \<and>
    K \<subseteq> {a \<in> set W. alive s (val (ts_entries s) a)} \<and> D \<subseteq> {b \<in> set R. \<not> alive s (val (ts_entries s) b)} \<and>
    (if R' = [] then sc_currentEntry sc' = sc_idleEntry sc else sc_currentEntry sc' \<in> set R') \<and>
    alive s' (val (ts_entries s') (sc_currentEntry sc')) \<and> clock s' = clock s \<and>
    (\<forall>a\<in>set (R' @ W'). val (ts_entries s') a = val (ts_entries s) a \<and> good fine s' (val (ts_entries s) a) \<and>
      alive s' (val (ts_entries s) a) = alive s (val (ts_entries s) a)) \<and>
    (\<forall>a\<in>set W. alive s (val (ts_entries s) a) \<longrightarrow>
      (\<forall>w r. manager s (val (ts_entries s) a) = Some w \<longrightarrow> ready s w = Some r \<longrightarrow> (a \<in> K) = r)) \<and>
    ((\<forall>a\<in>set R. alive s (val (ts_entries s) a)) \<longrightarrow> D = {} \<and> sc_currentEntry sc' = pick sc R') \<and>
    (\<forall>u. u \<notin> val (ts_entries s) ` (set W \<union> D) \<longrightarrow> rel_option kept (ts_threads s u) (ts_threads s' u))"
proof -
  obtain s1 sc1 K where s1: "obind (Scheduler_processWaitQueue check s c) (\<lambda>s. Some (set_current s c (sc_currentEntry sc))) = Some (Inr s1)"
    "wf s1 (V(c := (rev (filter (\<lambda>a. a \<in> K) W) @ R, filter (\<lambda>a. a \<notin> K \<and> alive s (val (ts_entries s) a)) W)))"
    "get_scheduler s1 c = Inr sc1" "sc_idleEntry sc1 = sc_idleEntry sc" "sc_currentEntry sc1 = sc_currentEntry sc"
    "current_ok s1 sc1 (rev (filter (\<lambda>a. a \<in> K) W) @ R)" "K \<subseteq> {a \<in> set W. alive s (val (ts_entries s) a)}"
    "stepped fine s (val (ts_entries s) ` set W) s1"
    "\<forall>a\<in>set R \<union> {a \<in> set W. alive s (val (ts_entries s) a)}. val (ts_entries s1) a = val (ts_entries s) a \<and>
      good fine s1 (val (ts_entries s) a) \<and> alive s1 (val (ts_entries s) a) = alive s (val (ts_entries s) a)"
    "\<forall>a\<in>set W. alive s (val (ts_entries s) a) \<longrightarrow>
      (\<forall>w r. manager s (val (ts_entries s) a) = Some w \<longrightarrow> ready s w = Some r \<longrightarrow> (a \<in> K) = r)"
    using before_choice [OF assms] by blast
  define R1 where "R1 = rev (filter (\<lambda>a. a \<in> K) W) @ R"
  define W' where "W' = filter (\<lambda>a. a \<notin> K \<and> alive s (val (ts_entries s) a)) W"
  have mem: "set R1 = K \<union> set R" "set (R1 @ W') \<subseteq> set R \<union> {a \<in> set W. alive s (val (ts_entries s) a)}"
    using s1(7) by (auto simp: R1_def W'_def)
  have gd: "\<forall>a\<in>set (R1 @ W'). good fine s1 (val (ts_entries s1) a)" using s1(9) mem(2) by auto
  have Vc: "(V(c := (R1, W'))) c = (R1, W')" by simp
  from choice [OF s1(2) [folded R1_def W'_def] s1(3) Vc s1(6) [folded R1_def] gd, unfolded fun_upd_upd]
  obtain s2 sc2 D where s2: "obind (schedule_loop c s1) (\<lambda>(s, thread).
      obind (Some (Scheduler_finishSwitch s thread)) (\<lambda>s.
      obind (Some (upd_thread s thread (\<lambda>th. th\<lparr>th_rounds := th_rounds th + 1\<rparr>))) (\<lambda>s. Some (Inr (s, thread))))) =
      Some (Inr (s2, val (ts_entries s2) (sc_currentEntry sc2)))"
    "wf s2 (V(c := (filter (\<lambda>b. b \<notin> D) R1, W')))" "get_scheduler s2 c = Inr sc2" "sc_idleEntry sc2 = sc_idleEntry sc1"
    "current_ok s2 sc2 (filter (\<lambda>b. b \<notin> D) R1)" "D \<subseteq> {b \<in> set R1. \<not> alive s1 (val (ts_entries s1) b)}"
    "if filter (\<lambda>b. b \<notin> D) R1 = [] then sc_currentEntry sc2 = sc_idleEntry sc1 else sc_currentEntry sc2 \<in> set R1 - D"
    "alive s2 (val (ts_entries s2) (sc_currentEntry sc2))" "clock s2 = clock s1"
    "\<forall>a\<in>set (filter (\<lambda>b. b \<notin> D) R1 @ W'). val (ts_entries s2) a = val (ts_entries s1) a \<and> good fine s2 (val (ts_entries s1) a) \<and>
      alive s2 (val (ts_entries s1) a) = alive s1 (val (ts_entries s1) a)"
    "(\<forall>a\<in>set R1. alive s1 (val (ts_entries s1) a)) \<longrightarrow> D = {} \<and> sc_currentEntry sc2 = pick sc1 R1"
    "\<forall>u. u \<notin> val (ts_entries s1) ` D \<longrightarrow> rel_option kept (ts_threads s1 u) (ts_threads s2 u)" by blast
  have run: "Scheduler_schedule check s c = Some (Inr (s2, val (ts_entries s2) (sc_currentEntry sc2)))"
  proof -
    obtain s0 where "Scheduler_processWaitQueue check s c = Some (Inr s0)" "set_current s0 c (sc_currentEntry sc) = Inr s1"
      using s1(1) by (auto simp: obind_def split: option.splits sum.splits)
    then show ?thesis using assms(2) s2(1) by (simp add: Scheduler_schedule_def)
  qed
  have alv: "alive s1 (val (ts_entries s1) b) = alive s (val (ts_entries s) b)" if "b \<in> set R1" for b
    using s1(9) subsetD [OF mem(2), of b] that by auto
  have D: "D \<subseteq> {b \<in> set R. \<not> alive s (val (ts_entries s) b)}"
  proof
    fix b
    assume "b \<in> D"
    then have "b \<in> set R1" "\<not> alive s (val (ts_entries s) b)" using s2(6) alv by auto
    then show "b \<in> {b \<in> set R. \<not> alive s (val (ts_entries s) b)}" using s1(7) mem(1) by auto
  qed
  have clk: "clock s2 = clock s" using s2(9) s1(8) by (simp add: stepped_def)
  have keeps: "\<forall>u. u \<notin> val (ts_entries s) ` (set W \<union> D) \<longrightarrow> rel_option kept (ts_threads s u) (ts_threads s2 u)"
  proof (intro allI impI)
    fix u
    assume u: "u \<notin> val (ts_entries s) ` (set W \<union> D)"
    have "val (ts_entries s1) ` D = val (ts_entries s) ` D" by (rule image_cong) (use D s1(9) in auto)
    then have "rel_option kept (ts_threads s1 u) (ts_threads s2 u)" using u s2(12) by auto
    moreover have "rel_option kept (ts_threads s u) (ts_threads s1 u)" using u s1(8) by (auto simp: stepped_def)
    ultimately show "rel_option kept (ts_threads s u) (ts_threads s2 u)" by (auto simp: kept_def elim!: option.rel_cases)
  qed
  have all: "\<forall>a\<in>set (filter (\<lambda>b. b \<notin> D) R1 @ W'). val (ts_entries s2) a = val (ts_entries s) a \<and> good fine s2 (val (ts_entries s) a) \<and>
      alive s2 (val (ts_entries s) a) = alive s (val (ts_entries s) a)" using s2(10) s1(9) mem(2) by fastforce
  have exact: "D = {} \<and> sc_currentEntry sc2 = pick sc (filter (\<lambda>b. b \<notin> D) R1)" if "\<forall>a\<in>set R. alive s (val (ts_entries s) a)"
  proof -
    have "\<forall>a\<in>set R1. alive s1 (val (ts_entries s1) a)" using that s1(7) alv mem(1) by auto
    then show ?thesis using s2(11) s1(4,5) by (simp add: pick_def)
  qed
  define R' where "R' = filter (\<lambda>b. b \<notin> D) R1"
  have R': "R' = filter (\<lambda>b. b \<notin> D) (rev (filter (\<lambda>a. a \<in> K) W) @ R)" by (simp only: R'_def R1_def)
  have idle: "sc_idleEntry sc2 = sc_idleEntry sc" using s2(4) s1(4) by simp
  have cur: "if R' = [] then sc_currentEntry sc2 = sc_idleEntry sc else sc_currentEntry sc2 \<in> set R'"
    using s2(7) s1(4) unfolding R'_def by (cases "filter (\<lambda>b. b \<notin> D) R1 = []") auto
  have ex: "(\<forall>a\<in>set R. alive s (val (ts_entries s) a)) \<longrightarrow> D = {} \<and> sc_currentEntry sc2 = pick sc R'"
    using exact unfolding R'_def by blast
  note W' = W'_def and rest = s2(2,5) [folded R'_def] all [folded R'_def]
  show ?thesis
    by (intro exI [of _ s2] exI [of _ sc2] exI [of _ K] exI [of _ D] exI [of _ R'] exI [of _ W'] conjI;
        fact run R' W' rest s2(3,8) idle cur s1(7,10) D clk ex keeps)
qed

end

end
