(* ===== verification/Waiters.thy ===== *)
theory Waiters
  imports Scheduling
begin

text \<open>
  The waiters of \<open>src/Kernel/Kernel/tasking/wait\<close>, the interruption of threads by signals and
  interrupts of \<open>thread.cpp\<close>, the handling of interrupt requests, and the system calls of
  \<open>calls/SyscallHandlerTasking.cpp\<close> and \<open>calls/SyscallHandlerMessaging.cpp\<close>. The check of a waiter
  for a transaction of the file system, which is the subject of the theory \<open>FsWait\<close>, is the argument
  \<open>fs\<close>; the register block a virtual 8086 call copies is not part of the state.
\<close>

section \<open>Interrupts that wait\<close>

definition InterruptRequestHandler_pollIrq :: "'f tasking \<Rightarrow> u8 \<Rightarrow> bool \<times> 'f tasking" where
  "InterruptRequestHandler_pollIrq s irq =
     (if ts_irqsWaiting s irq then (True, s\<lparr>ts_irqsWaiting := (ts_irqsWaiting s)(irq := False)\<rparr>) else (False, s))"

definition InterruptRequestHandler_setHandler :: "'f tasking \<Rightarrow> u8 \<Rightarrow> u32 \<Rightarrow> u32 \<Rightarrow> u32 \<Rightarrow> 'f tasking" where
  "InterruptRequestHandler_setHandler s irq threadID handlerAddr callbackAddr =
     s\<lparr>ts_irqHandlers := (ts_irqHandlers s)(irq \<mapsto> \<lparr>ih_threadID = threadID, ih_handler = handlerAddr, ih_callback = callbackAddr\<rparr>)\<rparr>"

section \<open>Waiters\<close>

text \<open>The memory of the process of a thread.\<close>

definition upd_user :: "'f tasking \<Rightarrow> u32 \<Rightarrow> (user_memory \<Rightarrow> user_memory) \<Rightarrow> 'f tasking" where
  "upd_user s p f = s\<lparr>ts_user := (ts_user s)(p := f (ts_user s p))\<rparr>"

definition WaiterSleep_new :: "'f tasking \<Rightarrow> u32 \<Rightarrow> u64 \<Rightarrow> 'f waiter kres" where
  "WaiterSleep_new s task ms =
     kbind (at (ts_threads s) task) (\<lambda>th.
       case th_scheduler th of
         None \<Rightarrow> Inl NullDeref
       | Some c \<Rightarrow> kbind (get_scheduler s c) (\<lambda>sc. Inr (WaiterSleep c (sc_milliseconds sc) ms)))"

definition WaiterSleep_checkWaiting :: "'f tasking \<Rightarrow> nat \<Rightarrow> u64 \<Rightarrow> u64 \<Rightarrow> (bool \<times> 'f tasking) kres option" where
  "WaiterSleep_checkWaiting s c timeStart timeSleep =
     Some (kbind (get_scheduler s c) (\<lambda>sc. Inr (sc_milliseconds sc - timeStart < timeSleep, s)))"

definition WaiterJoin_checkWaiting :: "'f tasking \<Rightarrow> u32 \<Rightarrow> (bool \<times> 'f tasking) kres option" where
  "WaiterJoin_checkWaiting s waitTask =
     obind (Tasking_getTaskById s waitTask) (\<lambda>other.
       if other = 0 then Some (Inr (False, s))
       else obind (Some (at (ts_threads s) other)) (\<lambda>th. Some (Inr (th_alive th, s))))"

text \<open>The second atom is only read when the first one is set.\<close>

definition atoms_set :: "(u32 \<rightharpoonup> bool) \<Rightarrow> u32 \<Rightarrow> u32 \<Rightarrow> bool kres" where
  "atoms_set bools atom1 atom2 =
     kbind (at bools atom1) (\<lambda>a. if \<not> a then Inr False else if atom2 = 0 then Inr True else at bools atom2)"

definition set_atoms :: "(u32 \<rightharpoonup> bool) \<Rightarrow> u32 \<Rightarrow> u32 \<Rightarrow> (u32 \<rightharpoonup> bool) kres" where
  "set_atoms bools atom1 atom2 =
     kbind (at_upd bools atom1 (\<lambda>_. True)) (\<lambda>bools. if atom2 = 0 then Inr bools else at_upd bools atom2 (\<lambda>_. True))"

definition WaiterAtomicWait_checkWaiting :: "'f tasking \<Rightarrow> u32 \<Rightarrow> u32 \<Rightarrow> u32 \<Rightarrow> bool \<Rightarrow> (bool \<times> 'f tasking) kres option" where
  "WaiterAtomicWait_checkWaiting s p atom1 atom2 setOnFinish =
     Some (kbind (atoms_set (um_bools (ts_user s p)) atom1 atom2) (\<lambda>keepWaiting.
       if \<not> keepWaiting \<and> setOnFinish
       then kbind (set_atoms (um_bools (ts_user s p)) atom1 atom2) (\<lambda>bools. Inr (keepWaiting, upd_user s p (\<lambda>m. m\<lparr>um_bools := bools\<rparr>)))
       else Inr (keepWaiting, s)))"

definition WaiterSendMessage_checkWaiting :: "'f tasking \<Rightarrow> u32 \<Rightarrow> u32 \<Rightarrow> u32 \<Rightarrow> (bool \<times> 'f tasking) kres option" where
  "WaiterSendMessage_checkWaiting s p tid data =
     obind (Some (at (um_sends (ts_user s p)) data)) (\<lambda>d.
     obind (MessageController_sendMessage (ts_ipc s) (sd_receiver d) tid (sd_buffer d) (sd_buffer_len d) (sd_transaction d)) (\<lambda>(status, ipc).
       Some (Inr (status = MESSAGE_SEND_STATUS_QUEUE_FULL,
         upd_user (s\<lparr>ts_ipc := ipc\<rparr>) p (\<lambda>m. m\<lparr>um_sends := (um_sends m)(data \<mapsto> d\<lparr>sd_status := status\<rparr>)\<rparr>)))))"

definition received :: "receive_data \<Rightarrow> MessageReceiveStatus \<Rightarrow> message_header option \<Rightarrow> receive_data" where
  "received d status out = d\<lparr>rc_status := status, rc_buffer := (case out of None \<Rightarrow> rc_buffer d | Some h \<Rightarrow> Some h)\<rparr>"

definition WaiterReceiveMessage_checkWaiting :: "'f tasking \<Rightarrow> u32 \<Rightarrow> u32 \<Rightarrow> u32 \<Rightarrow> (bool \<times> 'f tasking) kres option" where
  "WaiterReceiveMessage_checkWaiting s p tid data =
     obind (Some (at (um_receives (ts_user s p)) data)) (\<lambda>d.
     obind (Some (if rc_break d = 0 then Inr False else at (um_bools (ts_user s p)) (rc_break d))) (\<lambda>break.
       if break
       then Some (Inr (False, upd_user s p (\<lambda>m. m\<lparr>um_receives := (um_receives m)(data \<mapsto> d\<lparr>rc_status := MESSAGE_RECEIVE_STATUS_INTERRUPTED\<rparr>)\<rparr>)))
       else obind (MessageController_receiveMessage (ts_ipc s) tid (rc_buffer_len d) (rc_transaction d)) (\<lambda>(status, out, ipc).
              Some (Inr (status = MESSAGE_RECEIVE_STATUS_QUEUE_EMPTY,
                upd_user (s\<lparr>ts_ipc := ipc\<rparr>) p (\<lambda>m. m\<lparr>um_receives := (um_receives m)(data \<mapsto> received d status out)\<rparr>))))))"

definition WaiterWaitForIrq_checkWaiting :: "'f tasking \<Rightarrow> u32 \<Rightarrow> (bool \<times> 'f tasking) kres option" where
  "WaiterWaitForIrq_checkWaiting s interrupt =
     (case InterruptRequestHandler_pollIrq s (ucast interrupt) of (fired, s) \<Rightarrow> Some (Inr (\<not> fired, s)))"

definition Thread_storeForInterruption :: "'f tasking \<Rightarrow> u32 \<Rightarrow> 'f tasking kres" where
  "Thread_storeForInterruption s t =
     kbind (at (ts_threads s) t) (\<lambda>th.
       case th_interruptionInfo th of
         None \<Rightarrow> Inl NullDeref
       | Some info \<Rightarrow> kbind (at (ts_cpus s) (th_cpuState th)) (\<lambda>ps.
           upd_thread s t (\<lambda>th. th\<lparr>th_interruptionInfo := Some (info\<lparr>in_cpuState := Some ps, in_cpuStateAddress := th_cpuState th\<rparr>)\<rparr>)))"

text \<open>The words that go on the stack of the thread: the number of the interrupt or signal, and the callback.\<close>

definition WaiterPerformInterruption_checkWaiting :: "'f tasking \<Rightarrow> u32 \<Rightarrow> u32 \<Rightarrow> u32 \<Rightarrow> (bool \<times> 'f tasking) kres option" where
  "WaiterPerformInterruption_checkWaiting s task entry callback =
     obind (Some (Thread_storeForInterruption s task)) (\<lambda>s.
     obind (Some (at (ts_threads s) task)) (\<lambda>th.
     obind (Some (at (ts_cpus s) (th_cpuState th))) (\<lambda>ps.
       case th_interruptionInfo th of
         None \<Rightarrow> Some (Inl NullDeref)
       | Some info \<Rightarrow>
           let (esp, words) =
             (case in_type info of
                InterruptionIRQ \<Rightarrow> (ps_esp ps - 4, [(ps_esp ps - 4, ucast (in_handledIrq info))])
              | InterruptionSIGNAL \<Rightarrow> (ps_esp ps - 4, [(ps_esp ps - 4, in_handledSignal info)])
              | InterruptionNONE \<Rightarrow> (ps_esp ps, []));
               esp = esp - 4;
               words = words @ [(esp, callback)]
           in Some (Inr (False,
                upd_user (s\<lparr>ts_cpus := (ts_cpus s)(th_cpuState th \<mapsto> ps\<lparr>ps_eip := entry, ps_esp := esp\<rparr>)\<rparr>) (th_process th)
                  (\<lambda>m. m\<lparr>um_words := um_words m ++ map_of (rev words)\<rparr>))))))"

definition WaiterCallVm86_checkWaiting :: "'f tasking \<Rightarrow> u32 \<Rightarrow> (bool \<times> 'f tasking) kres option" where
  "WaiterCallVm86_checkWaiting s virtual8086ProcessId =
     obind (Tasking_getTaskById s virtual8086ProcessId) (\<lambda>vm86task. Some (Inr (vm86task \<noteq> 0, s)))"

text \<open>\<open>Thread::checkWaiting\<close>: the virtual function of the waiter of the thread.\<close>

definition Thread_checkWaiting :: "('f tasking \<Rightarrow> u32 \<Rightarrow> 'f \<Rightarrow> (bool \<times> 'f tasking) kres option) \<Rightarrow> 'f check" where
  "Thread_checkWaiting fs s t w =
     obind (Some (at (ts_threads s) t)) (\<lambda>th.
       case w of
         WaiterSleep c start ms \<Rightarrow> WaiterSleep_checkWaiting s c start ms
       | WaiterJoin tid \<Rightarrow> WaiterJoin_checkWaiting s tid
       | WaiterAtomicWait a b set' \<Rightarrow> WaiterAtomicWait_checkWaiting s (th_process th) a b set'
       | WaiterSendMessage data \<Rightarrow> WaiterSendMessage_checkWaiting s (th_process th) (th_id th) data
       | WaiterReceiveMessage data \<Rightarrow> WaiterReceiveMessage_checkWaiting s (th_process th) (th_id th) data
       | WaiterWaitForIrq irq \<Rightarrow> WaiterWaitForIrq_checkWaiting s irq
       | WaiterPerformInterruption entry callback \<Rightarrow> WaiterPerformInterruption_checkWaiting s t entry callback
       | WaiterCallVm86 data out tid \<Rightarrow> WaiterCallVm86_checkWaiting s tid
       | WaiterFsTransaction f \<Rightarrow> fs s t f)"

section \<open>Interruption of threads\<close>

definition Thread_startPrepareInterruption :: "'f tasking \<Rightarrow> u32 \<Rightarrow> ('f tasking \<times> bool) kres" where
  "Thread_startPrepareInterruption s t =
     kbind (at (ts_threads s) t) (\<lambda>th.
       if th_interruptionInfo th \<noteq> None then Inr (s, False)
       else kbind (upd_thread s t (\<lambda>th. th\<lparr>th_interruptionInfo := Some (ThreadInterruptionInfo_new\<lparr>in_waitManager := th_waitManager th\<rparr>)\<rparr>))
              (\<lambda>s. Inr (s, True)))"

definition Thread_finishPrepareInterruption :: "'f tasking \<Rightarrow> u32 \<Rightarrow> u32 \<Rightarrow> u32 \<Rightarrow> 'f tasking kres option" where
  "Thread_finishPrepareInterruption s t address callback =
     obind (Some (upd_thread s t (\<lambda>th. th\<lparr>th_waitManager := None\<rparr>))) (\<lambda>s.
       Thread_wait s t (Some (WaiterPerformInterruption address callback)))"

text \<open>A thread that is being interrupted is not interrupted again.\<close>

definition enter_handler ::
    "('f interruption \<Rightarrow> 'f interruption) \<Rightarrow> 'f tasking \<Rightarrow> u32 \<Rightarrow> u32 \<Rightarrow> u32 \<Rightarrow> 'f tasking kres option" where
  "enter_handler f s t address callback =
     obind (Some (Thread_startPrepareInterruption s t)) (\<lambda>(s, started).
       if \<not> started then Some (Inr s)
       else obind (Some (upd_thread s t (\<lambda>th. th\<lparr>th_interruptionInfo := map_option f (th_interruptionInfo th)\<rparr>))) (\<lambda>s.
              Thread_finishPrepareInterruption s t address callback))"

definition Thread_enterIrqHandler :: "'f tasking \<Rightarrow> u32 \<Rightarrow> u32 \<Rightarrow> u8 \<Rightarrow> u32 \<Rightarrow> 'f tasking kres option" where
  "Thread_enterIrqHandler s t address irq callback =
     enter_handler (\<lambda>i. i\<lparr>in_type := InterruptionIRQ, in_handledIrq := irq\<rparr>) s t address callback"

definition Thread_enterSignalHandler :: "'f tasking \<Rightarrow> u32 \<Rightarrow> u32 \<Rightarrow> i32 \<Rightarrow> u32 \<Rightarrow> 'f tasking kres option" where
  "Thread_enterSignalHandler s t address signal callback =
     enter_handler (\<lambda>i. i\<lparr>in_type := InterruptionSIGNAL, in_handledSignal := signal\<rparr>) s t address callback"

text \<open>The saved context is written back through the pointer that was saved with it.\<close>

definition Thread_restoreInterruptedState :: "'f tasking \<Rightarrow> u32 \<Rightarrow> 'f tasking kres option" where
  "Thread_restoreInterruptedState s t =
     obind (Some (at (ts_threads s) t)) (\<lambda>th.
       case th_interruptionInfo th of
         None \<Rightarrow> Some (Inl NullDeref)
       | Some info \<Rightarrow>
           obind (Thread_wait s t (in_waitManager info)) (\<lambda>s.
           obind (Some (case in_cpuState info of
                          None \<Rightarrow> at (ts_cpus s) (in_cpuStateAddress info)
                        | Some ps \<Rightarrow> Inr ps)) (\<lambda>ps.
           obind (Some (at_upd (ts_cpus s) (in_cpuStateAddress info) (\<lambda>_. ps))) (\<lambda>cpus.
             Some (upd_thread (s\<lparr>ts_cpus := cpus\<rparr>) t (\<lambda>th. th\<lparr>th_cpuState := in_cpuStateAddress info, th_interruptionInfo := None\<rparr>))))))"

definition SIGSEGV :: i32 where "SIGSEGV = 4"
definition SIG_COUNT :: nat where "SIG_COUNT = 32"

text \<open>Without a handler a signal other than \<open>SIGSEGV\<close> is ignored; the number has been checked by the caller.\<close>

definition Thread_raiseSignal :: "'f tasking \<Rightarrow> u32 \<Rightarrow> i32 \<Rightarrow> 'f tasking kres option" where
  "Thread_raiseSignal s t signal =
     obind (Some (at (ts_threads s) t)) (\<lambda>th.
     obind (Some (at (ts_processes s) (th_process th))) (\<lambda>p.
       let handler = pr_signalHandlers p ! unat signal in
       if sh_handler handler \<noteq> 0
       then obind (if sh_threadID handler = th_id th then Some (Inr t) else Tasking_getTaskById s (sh_threadID handler)) (\<lambda>handlingThread.
              if handlingThread \<noteq> 0
              then Thread_enterSignalHandler s handlingThread (sh_handler handler) signal (sh_callback handler)
              else Some (Inr s))
       else if signal = SIGSEGV
       then obind (Some (upd_thread s t (\<lambda>th. th\<lparr>th_alive := False\<rparr>))) (\<lambda>s.
              Some (upd_thread s (pr_main p) (\<lambda>th. th\<lparr>th_alive := False\<rparr>)))
       else Some (Inr s)))"

section \<open>System calls of threads\<close>

text \<open>
  The handlers get the number of the processor, the current thread and the fields of the data of the
  call that they read, and return the fields they write with the state and the next thread.
\<close>

type_synonym 'f handled = "('f tasking \<times> u32) kres option"

definition SysCallHandler_join :: "'f check \<Rightarrow> 'f tasking \<Rightarrow> nat \<Rightarrow> u32 \<Rightarrow> u32 \<Rightarrow> 'f handled" where
  "SysCallHandler_join check s core currentThread tid =
     obind (Thread_wait s currentThread (Some (WaiterJoin tid))) (\<lambda>s. Tasking_schedule check s core)"

definition SysCallHandler_yield :: "'f check \<Rightarrow> 'f tasking \<Rightarrow> nat \<Rightarrow> 'f handled" where
  "SysCallHandler_yield check s core = Tasking_schedule check s core"

definition SysCallHandler_getTid :: "'f tasking \<Rightarrow> u32 \<Rightarrow> u32 kres" where
  "SysCallHandler_getTid s currentThread = kbind (at (ts_threads s) currentThread) (\<lambda>th. Inr (th_id th))"

definition SysCallHandler_getPid :: "'f tasking \<Rightarrow> u32 \<Rightarrow> u32 kres" where
  "SysCallHandler_getPid s currentThread = kbind (at (ts_threads s) currentThread) (\<lambda>th. main_id s (th_process th))"

definition SysCallHandler_millis :: "'f tasking \<Rightarrow> nat \<Rightarrow> u64 kres" where
  "SysCallHandler_millis s core =
     kbind (Tasking_currentScheduler s core) (\<lambda>c. kbind (get_scheduler s c) (\<lambda>sc. Inr (sc_milliseconds sc)))"

definition SysCallHandler_getPidForTid :: "'f tasking \<Rightarrow> u32 \<Rightarrow> u32 kres option" where
  "SysCallHandler_getPidForTid s tid =
     obind (Tasking_getTaskById s tid) (\<lambda>thread.
       if thread \<noteq> 0 then Some (kbind (at (ts_threads s) thread) (\<lambda>th. main_id s (th_process th))) else Some (Inr (- 1)))"

text \<open>The thread is used without a check that it exists.\<close>

definition SysCallHandler_getParentPid :: "'f tasking \<Rightarrow> u32 \<Rightarrow> u32 kres option" where
  "SysCallHandler_getParentPid s pid =
     obind (Tasking_getTaskById s pid) (\<lambda>targetTask.
       Some (kbind (at (ts_threads s) targetTask) (\<lambda>th.
             kbind (at (ts_processes s) (th_process th)) (\<lambda>p.
               if pr_parent p \<noteq> 0 then main_id s (pr_parent p) else Inr (- 1)))))"

definition SysCallHandler_getTidByName :: "'f tasking \<Rightarrow> string \<Rightarrow> u32 kres option" where
  "SysCallHandler_getTidByName s identifier =
     obind (Tasking_getTaskByIdentifier s identifier) (\<lambda>task.
       if task \<noteq> 0 then Some (kbind (at (ts_threads s) task) (\<lambda>th. Inr (th_id th))) else Some (Inr (- 1)))"

definition SysCallHandler_registerThreadName :: "(nat \<Rightarrow> char) \<Rightarrow> 'f tasking \<Rightarrow> u32 \<Rightarrow> string \<Rightarrow> ('f tasking \<times> bool) kres option" where
  "SysCallHandler_registerThreadName junk s currentThread identifier = Tasking_registerTaskForIdentifier junk s currentThread identifier"

datatype KillStatus = KILL_STATUS_SUCCESSFUL | KILL_STATUS_NOT_FOUND | KILL_STATUS_FAILED

definition SysCallHandler_kill :: "'f check \<Rightarrow> 'f tasking \<Rightarrow> nat \<Rightarrow> u32 \<Rightarrow> (KillStatus \<times> 'f tasking \<times> u32) kres option" where
  "SysCallHandler_kill check s core pid =
     obind (Tasking_getTaskById s pid) (\<lambda>target.
     obind (if target = 0 then Some (Inr (s, KILL_STATUS_NOT_FOUND))
            else Some (kbind (at (ts_threads s) target) (\<lambda>th.
                   kbind (if th_type th = THREAD_TYPE_MAIN
                          then kbind (at (ts_processes s) (th_process th)) (\<lambda>p. upd_thread s (pr_main p) (\<lambda>th. th\<lparr>th_alive := False\<rparr>))
                          else upd_thread s target (\<lambda>th. th\<lparr>th_alive := False\<rparr>)) (\<lambda>s.
                     Inr (s, KILL_STATUS_SUCCESSFUL))))) (\<lambda>(s, status).
     obind (Tasking_schedule check s core) (\<lambda>(s, thread). Some (Inr (status, s, thread)))))"

definition SysCallHandler_exit :: "'f check \<Rightarrow> 'f tasking \<Rightarrow> nat \<Rightarrow> u32 \<Rightarrow> 'f handled" where
  "SysCallHandler_exit check s core currentThread =
     obind (Some (kbind (at (ts_threads s) currentThread) (\<lambda>th.
                  kbind (at (ts_processes s) (th_process th)) (\<lambda>p. upd_thread s (pr_main p) (\<lambda>th. th\<lparr>th_alive := False\<rparr>))))) (\<lambda>s.
       Tasking_schedule check s core)"

definition SysCallHandler_exitThread :: "'f check \<Rightarrow> 'f tasking \<Rightarrow> nat \<Rightarrow> u32 \<Rightarrow> 'f handled" where
  "SysCallHandler_exitThread check s core currentThread =
     obind (Some (upd_thread s currentThread (\<lambda>th. th\<lparr>th_alive := False\<rparr>))) (\<lambda>s. Tasking_schedule check s core)"

definition SysCallHandler_sleep :: "'f check \<Rightarrow> 'f tasking \<Rightarrow> nat \<Rightarrow> u32 \<Rightarrow> u32 \<Rightarrow> 'f handled" where
  "SysCallHandler_sleep check s core currentThread ms =
     obind (if 0 < ms then obind (Some (WaiterSleep_new s currentThread (ucast ms))) (\<lambda>w. Thread_wait s currentThread (Some w)) else Some (Inr s)) (\<lambda>s.
       Tasking_schedule check s core)"

text \<open>The atoms are in the memory of the current process; the result has \<open>m_was_set\<close> when it is written.\<close>

definition SysCallHandler_atomicWait ::
    "'f check \<Rightarrow> 'f tasking \<Rightarrow> nat \<Rightarrow> u32 \<Rightarrow> u32 \<Rightarrow> u32 \<Rightarrow> bool \<Rightarrow> bool \<Rightarrow> (bool option \<times> 'f tasking \<times> u32) kres option" where
  "SysCallHandler_atomicWait check s core currentThread atom1 atom2 is_try set_on_finish =
     obind (Some (at (ts_threads s) currentThread)) (\<lambda>th.
     let p = th_process th; bools = um_bools (ts_user s p) in
     obind (Some (atoms_set bools atom1 atom2)) (\<lambda>locked.
       if is_try
       then (if locked then Some (Inr (Some False, s, currentThread))
             else Some (kbind (set_atoms bools atom1 atom2) (\<lambda>bools.
                    Inr (Some True, upd_user s p (\<lambda>m. m\<lparr>um_bools := bools\<rparr>), currentThread))))
       else if locked
       then obind (Thread_wait s currentThread (Some (WaiterAtomicWait atom1 atom2 set_on_finish))) (\<lambda>s.
            obind (Tasking_schedule check s core) (\<lambda>(s, thread). Some (Inr (None, s, thread))))
       else if set_on_finish
       then Some (kbind (set_atoms bools atom1 atom2) (\<lambda>bools. Inr (None, upd_user s p (\<lambda>m. m\<lparr>um_bools := bools\<rparr>), currentThread)))
       else Some (Inr (None, s, currentThread))))"

definition SECURITY_LEVEL_DRIVER :: nat where "SECURITY_LEVEL_DRIVER = 1"

definition SysCallHandler_waitForIrq :: "'f check \<Rightarrow> 'f tasking \<Rightarrow> nat \<Rightarrow> u32 \<Rightarrow> u8 \<Rightarrow> 'f handled" where
  "SysCallHandler_waitForIrq check s core currentThread irq =
     obind (Some (at (ts_threads s) currentThread)) (\<lambda>th.
     obind (Some (at (ts_processes s) (th_process th))) (\<lambda>p.
       if pr_securityLevel p = SECURITY_LEVEL_DRIVER
       then (case InterruptRequestHandler_pollIrq s irq of (fired, s) \<Rightarrow>
              if fired then Some (Inr (s, currentThread))
              else obind (Thread_wait s currentThread (Some (WaiterWaitForIrq (ucast irq)))) (\<lambda>s. Tasking_schedule check s core))
       else Some (Inr (s, currentThread))))"

definition SysCallHandler_registerIrqHandler :: "'f tasking \<Rightarrow> u32 \<Rightarrow> u8 \<Rightarrow> u32 \<Rightarrow> u32 \<Rightarrow> ('f tasking \<times> bool) kres" where
  "SysCallHandler_registerIrqHandler s currentThread irq user_handler return_callback =
     kbind (at (ts_threads s) currentThread) (\<lambda>th.
     kbind (at (ts_processes s) (th_process th)) (\<lambda>p.
       if pr_securityLevel p \<le> SECURITY_LEVEL_DRIVER
       then Inr (InterruptRequestHandler_setHandler s irq (th_id th) user_handler return_callback, True)
       else Inr (s, False)))"

definition SysCallHandler_restoreInterruptedState :: "'f check \<Rightarrow> 'f tasking \<Rightarrow> nat \<Rightarrow> u32 \<Rightarrow> 'f handled" where
  "SysCallHandler_restoreInterruptedState check s core currentThread =
     obind (Thread_restoreInterruptedState s currentThread) (\<lambda>s. Tasking_schedule check s core)"

text \<open>The result is the previous handler, or none for a number that is no signal.\<close>

definition SysCallHandler_registerSignalHandler ::
    "'f tasking \<Rightarrow> u32 \<Rightarrow> i32 \<Rightarrow> u32 \<Rightarrow> u32 \<Rightarrow> ('f tasking \<times> u32 option) kres" where
  "SysCallHandler_registerSignalHandler s currentThread signal user_handler return_callback =
     (if 0 \<le> sint signal \<and> sint signal < int SIG_COUNT
      then kbind (at (ts_threads s) currentThread) (\<lambda>th.
           kbind (at (ts_processes s) (th_process th)) (\<lambda>p.
             Inr (s\<lparr>ts_processes := (ts_processes s)(th_process th \<mapsto> p\<lparr>pr_signalHandlers := (pr_signalHandlers p)[unat signal :=
                    \<lparr>sh_handler = user_handler, sh_callback = return_callback, sh_threadID = th_id th\<rparr>]\<rparr>)\<rparr>,
                  Some (sh_handler (pr_signalHandlers p ! unat signal)))))
      else Inr (s, None))"

datatype RaiseSignalStatus = RAISE_SIGNAL_STATUS_SUCCESSFUL | RAISE_SIGNAL_STATUS_INVALID_SIGNAL | RAISE_SIGNAL_STATUS_INVALID_TARGET

definition SysCallHandler_raiseSignal ::
    "'f check \<Rightarrow> 'f tasking \<Rightarrow> nat \<Rightarrow> u32 \<Rightarrow> i32 \<Rightarrow> u32 \<Rightarrow> (RaiseSignalStatus \<times> 'f tasking \<times> u32) kres option" where
  "SysCallHandler_raiseSignal check s core currentThread signal pid =
     obind (if 0 \<le> sint signal \<and> sint signal < int SIG_COUNT
            then obind (Some (at (ts_threads s) currentThread)) (\<lambda>th.
                 obind (if th_id th = pid then Some (Inr currentThread)
                        else obind (Some (main_id s (th_process th))) (\<lambda>m.
                               if m = pid then Some (kbind (at (ts_processes s) (th_process th)) (\<lambda>p. Inr (pr_main p)))
                               else Tasking_getTaskById s pid)) (\<lambda>targetThread.
                   if targetThread = 0 then Some (Inr (RAISE_SIGNAL_STATUS_INVALID_TARGET, s))
                   else obind (Thread_raiseSignal s targetThread signal) (\<lambda>s. Some (Inr (RAISE_SIGNAL_STATUS_SUCCESSFUL, s)))))
            else Some (Inr (RAISE_SIGNAL_STATUS_INVALID_SIGNAL, s))) (\<lambda>(status, s).
     obind (Tasking_schedule check s core) (\<lambda>(s, thread). Some (Inr (status, s, thread))))"

section \<open>System calls of messages\<close>

definition SysCallHandler_sendMessage :: "'f check \<Rightarrow> 'f tasking \<Rightarrow> nat \<Rightarrow> u32 \<Rightarrow> u32 \<Rightarrow> 'f handled" where
  "SysCallHandler_sendMessage check s core currentThread data =
     obind (Some (at (ts_threads s) currentThread)) (\<lambda>th.
     obind (Some (at (um_sends (ts_user s (th_process th))) data)) (\<lambda>d.
     obind (MessageController_sendMessage (ts_ipc s) (sd_receiver d) (th_id th) (sd_buffer d) (sd_buffer_len d) (sd_transaction d)) (\<lambda>(status, ipc).
     let s = upd_user (s\<lparr>ts_ipc := ipc\<rparr>) (th_process th) (\<lambda>m. m\<lparr>um_sends := (um_sends m)(data \<mapsto> d\<lparr>sd_status := status\<rparr>)\<rparr>) in
       if status = MESSAGE_SEND_STATUS_SUCCESSFUL
       then obind (Tasking_getTaskById s (sd_receiver d)) (\<lambda>receiver.
            obind (if receiver \<noteq> 0 then Tasking_increaseWaitPriority s core receiver else Some (Inr s)) (\<lambda>s.
              Some (Inr (s, currentThread))))
       else if sd_blocking d \<and> status = MESSAGE_SEND_STATUS_QUEUE_FULL
       then obind (Thread_wait s currentThread (Some (WaiterSendMessage data))) (\<lambda>s. Tasking_schedule check s core)
       else Some (Inr (s, currentThread)))))"

definition SysCallHandler_receiveMessage :: "'f check \<Rightarrow> 'f tasking \<Rightarrow> nat \<Rightarrow> u32 \<Rightarrow> u32 \<Rightarrow> 'f handled" where
  "SysCallHandler_receiveMessage check s core currentThread data =
     obind (Some (at (ts_threads s) currentThread)) (\<lambda>th.
     obind (Some (at (um_receives (ts_user s (th_process th))) data)) (\<lambda>d.
     obind (MessageController_receiveMessage (ts_ipc s) (th_id th) (rc_buffer_len d) (rc_transaction d)) (\<lambda>(status, out, ipc).
     let s = upd_user (s\<lparr>ts_ipc := ipc\<rparr>) (th_process th) (\<lambda>m. m\<lparr>um_receives := (um_receives m)(data \<mapsto> received d status out)\<rparr>) in
       if status = MESSAGE_RECEIVE_STATUS_QUEUE_EMPTY \<and> rc_blocking d
       then obind (Thread_wait s currentThread (Some (WaiterReceiveMessage data))) (\<lambda>s. Tasking_schedule check s core)
       else Some (Inr (s, currentThread)))))"

section \<open>Interrupt requests\<close>

text \<open>System calls are dispatched on a register by \<open>SysCallHandler::handle\<close>, here the argument \<open>syscall\<close>.\<close>

definition InterruptRequestHandler_handle ::
    "('f tasking \<Rightarrow> u32 \<Rightarrow> 'f handled) \<Rightarrow> 'f check \<Rightarrow> 'f tasking \<Rightarrow> nat \<Rightarrow> u32 \<Rightarrow> 'f handled" where
  "InterruptRequestHandler_handle syscall check s core currentThread =
     obind (Some (kbind (at (ts_threads s) currentThread) (\<lambda>th. at (ts_cpus s) (th_cpuState th)))) (\<lambda>ps.
     let irq = ps_intr ps - 0x20 in
       if ps_intr ps = 0x80 then syscall s currentThread
       else if irq = 0xFF then Some (Inr (s, currentThread))
       else if irq = 0
       then obind (Some (kbind (Tasking_currentScheduler s core) (Scheduler_updateMilliseconds s))) (\<lambda>s. Tasking_schedule check s core)
       else if irq < 256
       then (case ts_irqHandlers s (ucast irq) of
               Some handler \<Rightarrow>
                 obind (Tasking_getTaskById s (ih_threadID handler)) (\<lambda>thread.
                   if thread \<noteq> 0
                   then obind (Thread_enterIrqHandler s thread (ih_handler handler) (ucast irq) (ih_callback handler)) (\<lambda>s.
                          Tasking_schedule check s core)
                   else Some (Inr (s, currentThread)))
             | None \<Rightarrow> Some (Inr (s\<lparr>ts_irqsWaiting := (ts_irqsWaiting s)(ucast irq := True)\<rparr>, currentThread)))
       else Some (Inr (s, currentThread)))"

section \<open>Finding threads\<close>

lemma find_task_seg:
  assumes "seg m p as 0" and "\<forall>a\<in>set as. \<exists>b. test (val m a) = Inr b"
  shows "find_task m test p = Some (Inr (case filter (\<lambda>a. test (val m a) = Inr True) as of [] \<Rightarrow> 0 | a # _ \<Rightarrow> val m a))"
  using assms
proof (induction as arbitrary: p)
  case Nil
  then show ?case by (simp add: find_task.simps)
next
  case (Cons a as)
  obtain e where e: "p = a" "a \<noteq> 0" "m a = Some e" "seg m (te_next e) as 0" using Cons.prems(1) by auto
  obtain b where b: "test (val m a) = Inr b" using Cons.prems(2) by auto
  have "find_task m test (te_next e) = Some (Inr (case filter (\<lambda>a. test (val m a) = Inr True) as of [] \<Rightarrow> 0 | a # _ \<Rightarrow> val m a))"
    using Cons.IH [OF e(4)] Cons.prems(2) by simp
  then show ?case using e b by (subst find_task.simps) (auto simp: at_Inr val_def)
qed

text \<open>The threads in the queues of a processor, and a search among them.\<close>

definition queued :: "'f tasking \<Rightarrow> (nat \<Rightarrow> u32 list \<times> u32 list) \<Rightarrow> nat \<Rightarrow> u32 set" where
  "queued s V c = val (ts_entries s) ` (set (fst (V c)) \<union> set (snd (V c)))"

lemma filter_head:
  assumes "filter P as = a # bs"
  shows "a \<in> set as" "P a"
  using assms by (metis filter_eq_ConsD in_set_conv_decomp, metis filter_eq_ConsD)

lemma find_in_queues_spec:
  assumes "wf s V" and "get_scheduler s c = Inr sc" and "\<And>t. t \<in> queued s V c \<Longrightarrow> test t = Inr (P t)"
  shows "\<exists>t. find_in_queues s c test = Some (Inr t) \<and> (t \<noteq> 0 \<longrightarrow> t \<in> queued s V c \<and> P t) \<and> (t = 0 \<longrightarrow> (\<forall>u\<in>queued s V c. \<not> P u))"
proof -
  let ?m = "ts_entries s" and ?R = "fst (V c)" and ?W = "snd (V c)"
  have core: "core_ok s c sc ?R ?W" by (rule wf_core [OF assms(1,2)])
  have segs: "seg ?m (sc_runQueue sc) ?R 0" "seg ?m (sc_waitQueue sc) ?W 0" using core by (auto simp: core_ok_def queues_def)
  have nz: "t \<noteq> 0" if "t \<in> queued s V c" for t using that core by (auto simp: queued_def core_ok_def task_ok_def)
  have test: "\<forall>a\<in>set ?R. test (val ?m a) = Inr (P (val ?m a))" "\<forall>a\<in>set ?W. test (val ?m a) = Inr (P (val ?m a))"
    using assms(3) by (auto simp: queued_def)
  have f: "find_task ?m test (sc_runQueue sc) = Some (Inr (case filter (\<lambda>a. test (val ?m a) = Inr True) ?R of [] \<Rightarrow> 0 | a # _ \<Rightarrow> val ?m a))"
    "find_task ?m test (sc_waitQueue sc) = Some (Inr (case filter (\<lambda>a. test (val ?m a) = Inr True) ?W of [] \<Rightarrow> 0 | a # _ \<Rightarrow> val ?m a))"
    using find_task_seg segs test by blast+
  have none: "\<forall>u\<in>val ?m ` set as. \<not> P u" if "filter (\<lambda>a. test (val ?m a) = Inr True) as = []" "\<forall>a\<in>set as. test (val ?m a) = Inr (P (val ?m a))" for as
    using that by (auto simp: filter_empty_conv)
  have some: "val ?m a \<in> val ?m ` set as \<and> P (val ?m a)"
    if "filter (\<lambda>a. test (val ?m a) = Inr True) as = a # bs" "\<forall>a\<in>set as. test (val ?m a) = Inr (P (val ?m a))" for as a bs
    using filter_head [OF that(1)] that(2) by auto
  show ?thesis
  proof (cases "filter (\<lambda>a. test (val ?m a) = Inr True) ?R")
    case (Cons a bs)
    then have "val ?m a \<in> queued s V c" "P (val ?m a)" using some [OF Cons test(1)] by (auto simp: queued_def)
    then show ?thesis using assms(2) f(1) Cons nz by (auto simp: find_in_queues_def)
  next
    case Nil
    show ?thesis
    proof (cases "filter (\<lambda>a. test (val ?m a) = Inr True) ?W")
      case (Cons a bs)
      then have "val ?m a \<in> queued s V c" "P (val ?m a)" using some [OF Cons test(2)] by (auto simp: queued_def)
      then show ?thesis using assms(2) f Nil Cons nz by (auto simp: find_in_queues_def)
    next
      case N: Nil
      then show ?thesis using assms(2) f Nil none [OF Nil test(1)] none [OF N test(2)] by (auto simp: find_in_queues_def queued_def)
    qed
  qed
qed

lemma search_cores_spec:
  assumes "\<And>c. c \<in> set cs \<Longrightarrow> ts_schedulers s ! c \<noteq> None \<Longrightarrow>
      \<exists>t. query c = Some (Inr t) \<and> (t \<noteq> 0 \<longrightarrow> t \<in> Q c \<and> P t) \<and> (t = 0 \<longrightarrow> (\<forall>u\<in>Q c. \<not> P u))"
    and "\<And>c. c \<in> set cs \<Longrightarrow> ts_schedulers s ! c = None \<Longrightarrow> Q c = {}"
  shows "\<exists>t. search_cores s query cs = Some (Inr t) \<and> (t \<noteq> 0 \<longrightarrow> (\<exists>c\<in>set cs. t \<in> Q c) \<and> P t) \<and>
    (t = 0 \<longrightarrow> (\<forall>c\<in>set cs. \<forall>u\<in>Q c. \<not> P u))"
  using assms
proof (induction cs)
  case (Cons c cs)
  obtain t where t: "search_cores s query cs = Some (Inr t)" "t \<noteq> 0 \<longrightarrow> (\<exists>c\<in>set cs. t \<in> Q c) \<and> P t"
    "t = 0 \<longrightarrow> (\<forall>c\<in>set cs. \<forall>u\<in>Q c. \<not> P u)" using Cons by auto
  show ?case
  proof (cases "ts_schedulers s ! c = None")
    case True
    then have "Q c = {}" using Cons.prems(2) by simp
    then show ?thesis using t True by auto
  next
    case False
    then obtain u where "query c = Some (Inr u)" "u \<noteq> 0 \<longrightarrow> u \<in> Q c \<and> P u" "u = 0 \<longrightarrow> (\<forall>u\<in>Q c. \<not> P u)"
      using Cons.prems(1) [of c] by auto
    then show ?thesis using t False by (cases "u = 0") auto
  qed
qed simp

text \<open>The threads in the queues of all processors.\<close>

definition tasks :: "'f tasking \<Rightarrow> (nat \<Rightarrow> u32 list \<times> u32 list) \<Rightarrow> u32 set" where
  "tasks s V = (\<Union>c\<in>{c. c < length (ts_schedulers s) \<and> ts_schedulers s ! c \<noteq> None}. queued s V c)"

lemma queued_thread:
  assumes "wf s V" and "get_scheduler s c = Inr sc" and "t \<in> queued s V c"
  shows "t \<noteq> 0 \<and> (\<exists>th. ts_threads s t = Some th)"
  using wf_core [OF assms(1,2)] assms(3) by (auto simp: queued_def core_ok_def task_ok_def)

lemma getTaskById_spec:
  assumes "wf s V"
  shows "\<exists>t. Tasking_getTaskById s tid = Some (Inr t) \<and>
    (t \<noteq> 0 \<longrightarrow> t \<in> tasks s V \<and> (\<exists>th. ts_threads s t = Some th \<and> th_alive th \<and> th_id th = tid)) \<and>
    (t = 0 \<longrightarrow> (\<forall>u\<in>tasks s V. \<forall>th. ts_threads s u = Some th \<longrightarrow> \<not> (th_alive th \<and> th_id th = tid)))"
proof -
  let ?P = "\<lambda>t. \<exists>th. ts_threads s t = Some th \<and> th_alive th \<and> th_id th = tid"
  let ?Q = "\<lambda>c. if ts_schedulers s ! c = None then {} else queued s V c"
  have "\<exists>t. Scheduler_getTaskById s c tid = Some (Inr t) \<and> (t \<noteq> 0 \<longrightarrow> t \<in> ?Q c \<and> ?P t) \<and> (t = 0 \<longrightarrow> (\<forall>u\<in>?Q c. \<not> ?P u))"
    if c: "c \<in> set [0..<length (ts_schedulers s)]" "ts_schedulers s ! c \<noteq> None" for c
  proof -
    obtain sc where "ts_schedulers s ! c = Some sc" using c(2) by blast
    then have g: "get_scheduler s c = Inr sc" using c(1) by (simp add: get_scheduler_def)
    have "kbind (at (ts_threads s) t) (\<lambda>th. Inr (th_alive th \<and> th_id th = tid)) = Inr (?P t)" if "t \<in> queued s V c" for t
      using queued_thread [OF assms g that] by (auto simp: at_Inr)
    from find_in_queues_spec [OF assms g, of "\<lambda>t. kbind (at (ts_threads s) t) (\<lambda>th. Inr (th_alive th \<and> th_id th = tid))" ?P, OF this]
    show ?thesis unfolding Scheduler_getTaskById_def if_not_P [OF c(2)] .
  qed
  from search_cores_spec [of "[0..<length (ts_schedulers s)]" s _ ?Q ?P, OF this]
  obtain t where t: "Tasking_getTaskById s tid = Some (Inr t)" "t \<noteq> 0 \<longrightarrow> (\<exists>c\<in>set [0..<length (ts_schedulers s)]. t \<in> ?Q c) \<and> ?P t"
    "t = 0 \<longrightarrow> (\<forall>c\<in>set [0..<length (ts_schedulers s)]. \<forall>u\<in>?Q c. \<not> ?P u)"
    unfolding Tasking_getTaskById_def by auto
  have "t \<noteq> 0 \<longrightarrow> t \<in> tasks s V" using t(2) by (auto simp: tasks_def split: if_splits)
  moreover have "\<not> ?P u" if "t = 0" "u \<in> tasks s V" for u
  proof -
    obtain c where "c < length (ts_schedulers s)" "ts_schedulers s ! c \<noteq> None" "u \<in> queued s V c" using \<open>u \<in> tasks s V\<close> by (auto simp: tasks_def)
    then show ?thesis using bspec [OF mp [OF t(3) \<open>t = 0\<close>], of c] by auto
  qed
  ultimately show ?thesis using t(1,2) by blast
qed

section \<open>The checks of the waiters\<close>

text \<open>
  What a check needs: the scheduler whose time a sleeping thread reads, the memory of the process
  that the waiter points to, the record of the interruption that is to be performed. A blocked
  sender is left out, since sending again may find the kernel heap exhausted, and so are the
  transactions of the file system, whose check is an argument.
\<close>

definition readable :: "'f tasking \<Rightarrow> u32 \<Rightarrow> u32 \<Rightarrow> bool" where
  "readable s p a \<longleftrightarrow> a \<noteq> 0 \<and> um_bools (ts_user s p) a \<noteq> None"

definition waiter_fine :: "'f tasking \<Rightarrow> u32 \<Rightarrow> 'f waiter \<Rightarrow> bool" where
  "waiter_fine s t w \<longleftrightarrow> (\<exists>th. ts_threads s t = Some th \<and>
     (case w of
        WaiterSleep c start ms \<Rightarrow> clock s c \<noteq> None
      | WaiterAtomicWait a b set' \<Rightarrow> readable s (th_process th) a \<and> (b = 0 \<or> readable s (th_process th) b)
      | WaiterReceiveMessage data \<Rightarrow> data \<noteq> 0 \<and> (\<exists>d. um_receives (ts_user s (th_process th)) data = Some d \<and>
          (rc_break d = 0 \<or> readable s (th_process th) (rc_break d)))
      | WaiterPerformInterruption entry callback \<Rightarrow> th_interruptionInfo th \<noteq> None
      | WaiterSendMessage data \<Rightarrow> False
      | WaiterFsTransaction f \<Rightarrow> False
      | _ \<Rightarrow> True))"

text \<open>When a sleeping thread is ready is decided by the time of its scheduler alone, modulo \<open>2\<^sup>6\<^sup>4\<close>.\<close>

definition waiter_ready :: "'f tasking \<Rightarrow> 'f waiter \<Rightarrow> bool option" where
  "waiter_ready s w = (case w of WaiterSleep c start ms \<Rightarrow> map_option (\<lambda>now. ms \<le> now - start) (clock s c) | _ \<Rightarrow> None)"

definition user_kept :: "'f tasking \<Rightarrow> 'f tasking \<Rightarrow> bool" where
  "user_kept s s' \<longleftrightarrow> (\<forall>p. (\<forall>a. um_bools (ts_user s p) a \<noteq> None \<longrightarrow> um_bools (ts_user s' p) a \<noteq> None) \<and>
     (\<forall>a d. um_receives (ts_user s p) a = Some d \<longrightarrow> (\<exists>d'. um_receives (ts_user s' p) a = Some d' \<and> rc_break d' = rc_break d)))"

lemma user_kept_refl [simp]: "ts_user s' = ts_user s \<Longrightarrow> user_kept s s'"
  by (simp add: user_kept_def)

lemma waiter_fine_mono:
  assumes "waiter_fine s u w" and "clock s' = clock s" and "user_kept s s'"
    and "\<And>th. ts_threads s u = Some th \<Longrightarrow> \<exists>th'. ts_threads s' u = Some th' \<and> th_process th' = th_process th \<and>
      (th_interruptionInfo th \<noteq> None \<longrightarrow> th_interruptionInfo th' \<noteq> None)"
  shows "waiter_fine s' u w"
proof -
  obtain th th' where th: "ts_threads s u = Some th" "ts_threads s' u = Some th'" "th_process th' = th_process th"
    "th_interruptionInfo th \<noteq> None \<longrightarrow> th_interruptionInfo th' \<noteq> None"
    using assms(1,4) unfolding waiter_fine_def by blast
  have r: "readable s' p a" if "readable s p a" for p a using that assms(3) by (simp add: readable_def user_kept_def)
  have rc: "\<exists>d'. um_receives (ts_user s' p) a = Some d' \<and> rc_break d' = rc_break d" if "um_receives (ts_user s p) a = Some d" for p a d
    using that assms(3) by (simp add: user_kept_def)
  show ?thesis using assms(1,2) th r
    by (cases w) (auto simp: waiter_fine_def dest!: rc)
qed

text \<open>A check that leaves the queues, the threads and the processes alone.\<close>

lemma checked_simple:
  assumes "ts_entries s' = ts_entries s" and "ts_schedulers s' = ts_schedulers s" and "ts_processes s' = ts_processes s"
    and "ts_cpus s' = ts_cpus s" and "ts_threads s' = ts_threads s" and "ipc_rep (ts_ipc s') A"
  shows "checked s t s'"
  using assms by (auto simp: checked_def manager_def)

lemma check_simple:
  assumes "Thread_checkWaiting fs s t w = Some (Inr (b, s'))" and "manager s t = Some w" and "waiter_fine s t w"
    and "ts_entries s' = ts_entries s" and "ts_schedulers s' = ts_schedulers s" and "ts_processes s' = ts_processes s"
    and "ts_cpus s' = ts_cpus s" and "ts_threads s' = ts_threads s" and "ipc_rep (ts_ipc s') A" and "user_kept s s'"
    and "\<And>r. waiter_ready s w = Some r \<Longrightarrow> b = (\<not> r)"
  shows "\<exists>b s'. Thread_checkWaiting fs s t w = Some (Inr (b, s')) \<and> checked s t s' \<and>
    (\<forall>u v. waiter_fine s u v \<longrightarrow> waiter_fine s' u v) \<and> (\<forall>w'. manager s' t = Some w' \<longrightarrow> waiter_fine s' t w') \<and>
    (\<forall>r. waiter_ready s w = Some r \<longrightarrow> b = (\<not> r))"
proof -
  have clk: "clock s' = clock s" by (rule clock_cong) (simp add: get_scheduler_def assms(5))
  have "waiter_fine s' u v" if "waiter_fine s u v" for u v
    by (rule waiter_fine_mono [OF that clk assms(10)]) (simp add: assms(8))
  moreover have "manager s' = manager s" by (simp add: manager_def fun_eq_iff assms(8))
  ultimately show ?thesis using assms checked_simple [OF assms(4-9)] by auto
qed

lemma atoms_read:
  assumes "readable s p a" and "b = 0 \<or> readable s p b"
  shows "\<exists>v. atoms_set (um_bools (ts_user s p)) a b = Inr v"
    "\<exists>m. set_atoms (um_bools (ts_user s p)) a b = Inr m \<and> (\<forall>x. um_bools (ts_user s p) x \<noteq> None \<longrightarrow> m x \<noteq> None)"
  using assms by (auto simp: readable_def atoms_set_def set_atoms_def at_upd_def at_def)

lemma user_kept_bools:
  assumes "\<forall>x. um_bools (ts_user s p) x \<noteq> None \<longrightarrow> m x \<noteq> None"
  shows "user_kept s (upd_user s p (\<lambda>u. u\<lparr>um_bools := m\<rparr>))"
  using assms by (auto simp: user_kept_def upd_user_def)

lemma user_kept_receive:
  assumes "um_receives (ts_user s p) data = Some d" and "rc_break d' = rc_break d"
  shows "user_kept s (upd_user (s\<lparr>ts_ipc := ipc\<rparr>) p (\<lambda>u. u\<lparr>um_receives := (um_receives u)(data \<mapsto> d')\<rparr>))"
  using assms by (auto simp: user_kept_def upd_user_def)

lemma rc_break_received [simp]: "rc_break (received d st out) = rc_break d"
  by (simp add: received_def)

lemma upd_user_simps [simp]:
  "ts_entries (upd_user s p f) = ts_entries s" "ts_schedulers (upd_user s p f) = ts_schedulers s" "ts_processes (upd_user s p f) = ts_processes s"
  "ts_cpus (upd_user s p f) = ts_cpus s" "ts_threads (upd_user s p f) = ts_threads s" "ts_ipc (upd_user s p f) = ts_ipc s"
  by (simp_all add: upd_user_def)

lemma store_returns:
  assumes "t \<noteq> 0" and "ts_threads s t = Some th" and "th_interruptionInfo th = Some info"
    and "th_cpuState th \<noteq> 0" and "ts_cpus s (th_cpuState th) = Some ps"
  shows "Thread_storeForInterruption s t = Inr (s\<lparr>ts_threads := (ts_threads s)(t \<mapsto> th\<lparr>th_interruptionInfo :=
    Some (info\<lparr>in_cpuState := Some ps, in_cpuStateAddress := th_cpuState th\<rparr>)\<rparr>)\<rparr>)"
  using assms by (simp add: Thread_storeForInterruption_def at_Inr upd_thread_def at_upd_def)

lemma interruption_check:
  assumes "t \<noteq> 0" and "ts_threads s t = Some th" and "th_interruptionInfo th = Some info"
    and "th_cpuState th \<noteq> 0" and "ts_cpus s (th_cpuState th) = Some ps"
  shows "\<exists>s' info'. WaiterPerformInterruption_checkWaiting s t entry callback = Some (Inr (False, s')) \<and>
    ts_threads s' = (ts_threads s)(t \<mapsto> th\<lparr>th_interruptionInfo := Some info'\<rparr>) \<and> ts_entries s' = ts_entries s \<and>
    ts_schedulers s' = ts_schedulers s \<and> ts_processes s' = ts_processes s \<and> ts_ipc s' = ts_ipc s \<and>
    (\<forall>p. ts_cpus s p \<noteq> None \<longrightarrow> ts_cpus s' p \<noteq> None) \<and> user_kept s s'"
  using assms store_returns [OF assms]
  by (cases "in_type info") (auto simp: WaiterPerformInterruption_checkWaiting_def at_Inr Let_def user_kept_def upd_user_def)

lemma interruption_returns:
  assumes "wf s V" and "task_ok s c True t" and "manager s t = Some w" and "waiter_fine s t w" and "w = WaiterPerformInterruption entry callback"
  shows "\<exists>b s'. Thread_checkWaiting fs s t w = Some (Inr (b, s')) \<and> checked s t s' \<and>
    (\<forall>u v. waiter_fine s u v \<longrightarrow> waiter_fine s' u v) \<and> (\<forall>w'. manager s' t = Some w' \<longrightarrow> waiter_fine s' t w') \<and>
    (\<forall>r. waiter_ready s w = Some r \<longrightarrow> b = (\<not> r))"
proof -
  obtain th where th: "t \<noteq> 0" "ts_threads s t = Some th" "th_cpuState th \<noteq> 0" "ts_cpus s (th_cpuState th) \<noteq> None"
    "th_interruptionInfo th \<noteq> None" "th_waitManager th = Some w"
    using assms(2-5) by (auto simp: task_ok_def thread_ok_def waiter_fine_def manager_def)
  obtain info ps where "th_interruptionInfo th = Some info" "ts_cpus s (th_cpuState th) = Some ps" using th by blast
  from interruption_check [OF th(1,2) this(1) th(3) this(2)]
  obtain s' info' where s': "WaiterPerformInterruption_checkWaiting s t entry callback = Some (Inr (False, s'))"
    "ts_threads s' = (ts_threads s)(t \<mapsto> th\<lparr>th_interruptionInfo := Some info'\<rparr>)" "ts_entries s' = ts_entries s"
    "ts_schedulers s' = ts_schedulers s" "ts_processes s' = ts_processes s" "ts_ipc s' = ts_ipc s"
    "\<forall>p. ts_cpus s p \<noteq> None \<longrightarrow> ts_cpus s' p \<noteq> None" "user_kept s s'" by blast
  obtain A where A: "ipc_rep (ts_ipc s') A" using assms(1) s'(6) by (auto simp: wf_def)
  have clk: "clock s' = clock s" by (rule clock_cong) (simp add: get_scheduler_def s'(4))
  have fine: "waiter_fine s' u v" if "waiter_fine s u v" for u v
    by (rule waiter_fine_mono [OF that clk s'(8)]) (use s'(2) th(2) in auto)
  have "rel_option kept (ts_threads s u) (ts_threads s' u)" for u
    using s'(2) th(2) by (cases "ts_threads s u") (auto simp: kept_def)
  moreover have man: "manager s' u = manager s u" for u using s'(2) th(2) by (simp add: manager_def)
  ultimately have "checked s t s'" using s' A by (auto simp: checked_def)
  then show ?thesis using s'(1) th(1,2) assms(3-5) man fine
    by (auto simp: Thread_checkWaiting_def at_Inr waiter_ready_def)
qed

lemma waiter_returns:
  assumes "wf s V" and "task_ok s c True t" and "manager s t = Some w" and "waiter_fine s t w"
  shows "\<exists>b s'. Thread_checkWaiting fs s t w = Some (Inr (b, s')) \<and> checked s t s' \<and>
    (\<forall>u v. waiter_fine s u v \<longrightarrow> waiter_fine s' u v) \<and> (\<forall>w'. manager s' t = Some w' \<longrightarrow> waiter_fine s' t w') \<and>
    (\<forall>r. waiter_ready s w = Some r \<longrightarrow> b = (\<not> r))"
proof -
  obtain th where t: "t \<noteq> 0" and th: "ts_threads s t = Some th" using assms(2) by (auto simp: task_ok_def)
  obtain A where A: "ipc_rep (ts_ipc s) A" using assms(1) by (auto simp: wf_def)
  note go = check_simple [where fs = fs, OF _ assms(3,4)] and c = Thread_checkWaiting_def at_Inr t th
  show ?thesis
  proof (cases w)
    case (WaiterSleep d start ms)
    then obtain sd where "get_scheduler s d = Inr sd" using assms(4) by (auto simp: waiter_fine_def clock_def split: sum.splits)
    then show ?thesis by (intro go [of "sc_milliseconds sd - start < ms" s A])
      (use WaiterSleep A in \<open>auto simp: c WaiterSleep_checkWaiting_def waiter_ready_def clock_def\<close>)
  next
    case (WaiterJoin tid)
    obtain u where u: "Tasking_getTaskById s tid = Some (Inr u)" "u \<noteq> 0 \<longrightarrow> (\<exists>thu. ts_threads s u = Some thu)"
      using getTaskById_spec [OF assms(1), of tid] by blast
    show ?thesis by (intro go [of "u \<noteq> 0 \<and> th_alive (the (ts_threads s u))" s A])
      (use WaiterJoin A u in \<open>auto simp: c WaiterJoin_checkWaiting_def waiter_ready_def at_Inr\<close>)
  next
    case (WaiterAtomicWait a b set')
    have r: "readable s (th_process th) a" "b = 0 \<or> readable s (th_process th) b" using assms(4) WaiterAtomicWait th by (auto simp: waiter_fine_def)
    obtain v m where v: "atoms_set (um_bools (ts_user s (th_process th))) a b = Inr v" "set_atoms (um_bools (ts_user s (th_process th))) a b = Inr m"
      "\<forall>x. um_bools (ts_user s (th_process th)) x \<noteq> None \<longrightarrow> m x \<noteq> None" using atoms_read [OF r] by blast
    note k = user_kept_bools [OF v(3)]
    show ?thesis by (intro go [of v "if \<not> v \<and> set' then upd_user s (th_process th) (\<lambda>u. u\<lparr>um_bools := m\<rparr>) else s" A])
      (use WaiterAtomicWait A v k in \<open>auto simp: c WaiterAtomicWait_checkWaiting_def waiter_ready_def\<close>)
  next
    case (WaiterSendMessage data)
    then show ?thesis using assms(4) by (simp add: waiter_fine_def)
  next
    case (WaiterReceiveMessage data)
    let ?p = "th_process th"
    obtain d where d: "data \<noteq> 0" "um_receives (ts_user s ?p) data = Some d" "rc_break d = 0 \<or> readable s ?p (rc_break d)"
      using assms(4) WaiterReceiveMessage th by (auto simp: waiter_fine_def)
    obtain br where br: "(if rc_break d = 0 then Inr False else at (um_bools (ts_user s ?p)) (rc_break d)) = Inr br"
      using d(3) by (cases "rc_break d = 0") (auto simp: readable_def at_Inr intro: that [of False])
    obtain st out ipc A' where r: "MessageController_receiveMessage (ts_ipc s) (th_id th) (rc_buffer_len d) (rc_transaction d) = Some (Inr (st, out, ipc))"
      "ipc_rep ipc A'" using receiveMessage_spec [OF A] by blast
    let ?s = "\<lambda>ipc d'. upd_user (s\<lparr>ts_ipc := ipc\<rparr>) ?p (\<lambda>u. u\<lparr>um_receives := (um_receives u)(data \<mapsto> d')\<rparr>)"
    show ?thesis
    proof (cases br)
      case True
      show ?thesis by (intro go [of False "?s (ts_ipc s) (d\<lparr>rc_status := MESSAGE_RECEIVE_STATUS_INTERRUPTED\<rparr>)" A])
        (use WaiterReceiveMessage A d br True user_kept_receive [OF d(2), of "d\<lparr>rc_status := MESSAGE_RECEIVE_STATUS_INTERRUPTED\<rparr>" "ts_ipc s"] in
          \<open>auto simp: c WaiterReceiveMessage_checkWaiting_def waiter_ready_def at_Inr simp del: if_split split del: if_split\<close>)
    next
      case False
      show ?thesis by (intro go [of "st = MESSAGE_RECEIVE_STATUS_QUEUE_EMPTY" "?s ipc (received d st out)" A'])
        (use WaiterReceiveMessage r d br False user_kept_receive [OF d(2)] in
          \<open>auto simp: c WaiterReceiveMessage_checkWaiting_def waiter_ready_def at_Inr split del: if_split\<close>)
    qed
  next
    case (WaiterWaitForIrq irq)
    show ?thesis by (intro go [of "\<not> fst (InterruptRequestHandler_pollIrq s (ucast irq))" "snd (InterruptRequestHandler_pollIrq s (ucast irq))" A])
      (use WaiterWaitForIrq A in \<open>auto simp: c WaiterWaitForIrq_checkWaiting_def InterruptRequestHandler_pollIrq_def waiter_ready_def\<close>)
  next
    case (WaiterPerformInterruption entry callback)
    then show ?thesis by (rule interruption_returns [OF assms])
  next
    case (WaiterCallVm86 data out tid)
    obtain u where u: "Tasking_getTaskById s tid = Some (Inr u)" using getTaskById_spec [OF assms(1), of tid] by blast
    show ?thesis by (intro go [of "u \<noteq> 0" s A])
      (use WaiterCallVm86 A u in \<open>auto simp: c WaiterCallVm86_checkWaiting_def waiter_ready_def\<close>)
  next
    case (WaiterFsTransaction f)
    then show ?thesis using assms(4) by (simp add: waiter_fine_def)
  qed
qed

text \<open>The waiters of the kernel keep what the scheduler needs of them.\<close>

interpretation kw: waiters "Thread_checkWaiting fs" waiter_fine waiter_ready for fs
proof
  fix s s' :: "'f tasking" and t w
  assume "same_rest s s'" "clock s' = clock s" "rel_option alike (ts_threads s t) (ts_threads s' t)" "waiter_fine s t w"
  then show "waiter_fine s' t w"
    by (intro waiter_fine_mono [of s t w s']) (auto simp: same_rest_def alike_def elim!: option.rel_cases)
next
  fix s s' :: "'f tasking" and w
  assume "clock s' = clock s"
  then show "waiter_ready s' w = waiter_ready s w" by (simp add: waiter_ready_def split: waiter.splits)
qed (rule waiter_returns)

end
