(* ===== verification/Rounds.thy ===== *)
theory Rounds
  imports Waiters
begin

text \<open>
  What the scheduler does over many rounds, with the waiters of the kernel: a round wakes the threads
  that need not wait any more and picks the next one, rounds without waiting threads are fair, and
  what goes wrong: threads that wait for nothing keep the others from running, the end of a process
  follows a pointer to the process it has deleted, and a thread that was interrupted while it ran is
  never run again.
\<close>

section \<open>An example\<close>

text \<open>
  One processor with a process of the idle thread, two threads that run and one that sleeps for 5
  milliseconds, which are over.
\<close>

definition example_thread :: "u32 \<Rightarrow> u8 \<Rightarrow> ThreadPriority \<Rightarrow> unit waiter option \<Rightarrow> unit thread" where
  "example_thread i type pr w = \<lparr>th_id = i, th_alive = True, th_type = type, th_priority = pr, th_process = 0x1000,
     th_scheduler = Some 0, th_rounds = 0, th_waitManager = w, th_waitCount = 0, th_cpuState = 0x2000, th_identifier = None,
     th_interruptionInfo = None\<rparr>"

definition example_cpu :: processor_state where
  "example_cpu = \<lparr>ps_gs = 0, ps_fs = 0, ps_es = 0, ps_ds = 0, ps_eax = 0, ps_ecx = 0, ps_edx = 0, ps_ebx = 0, ps_ebp = 0, ps_esi = 0,
     ps_edi = 0, ps_intr = 0x20, ps_error = 0, ps_eip = 0x400000, ps_cs = 0, ps_eflags = 0, ps_esp = 0x800000, ps_ss = 0\<rparr>"

definition example_tasking :: "unit tasking" where
  "example_tasking = \<lparr>
     ts_entries = [10 \<mapsto> \<lparr>te_value = 100, te_next = 0\<rparr>, 11 \<mapsto> \<lparr>te_value = 101, te_next = 12\<rparr>, 12 \<mapsto> \<lparr>te_value = 102, te_next = 0\<rparr>,
       13 \<mapsto> \<lparr>te_value = 103, te_next = 0\<rparr>],
     ts_threads = [100 \<mapsto> example_thread 0 THREAD_TYPE_SUB THREAD_PRIORITY_IDLE None, 101 \<mapsto> example_thread 1 THREAD_TYPE_MAIN THREAD_PRIORITY_NORMAL None,
       102 \<mapsto> example_thread 2 THREAD_TYPE_SUB THREAD_PRIORITY_NORMAL None, 103 \<mapsto> example_thread 3 THREAD_TYPE_SUB THREAD_PRIORITY_NORMAL (Some (WaiterSleep 0 10 5))],
     ts_processes = [0x1000 \<mapsto> \<lparr>pr_main = 101, pr_parent = 0, pr_securityLevel = 0, pr_isServer = False, pr_signalHandlers = []\<rparr>],
     ts_cpus = [0x2000 \<mapsto> example_cpu],
     ts_schedulers = [Some \<lparr>sc_milliseconds = 15, sc_coreId = 0, sc_waitQueue = 13, sc_runQueue = 11, sc_idleEntry = 10, sc_currentEntry = 11\<rparr>],
     ts_servers = llist_new, ts_taskIdCounter = 4, ts_ipc = ipc_start small_kernel_heap,
     ts_user = (\<lambda>p. \<lparr>um_bools = Map.empty, um_sends = Map.empty, um_receives = Map.empty, um_words = Map.empty\<rparr>),
     ts_irqsWaiting = (\<lambda>i. False), ts_irqHandlers = Map.empty\<rparr>"

definition example_queues :: "u32 list \<Rightarrow> u32 list \<Rightarrow> nat \<Rightarrow> u32 list \<times> u32 list" where
  "example_queues R W c = (if c = 0 then (R, W) else ([], []))"

lemma example_scheduler [simp]: "get_scheduler example_tasking 0 =
  Inr \<lparr>sc_milliseconds = 15, sc_coreId = 0, sc_waitQueue = 13, sc_runQueue = 11, sc_idleEntry = 10, sc_currentEntry = 11\<rparr>"
  by (simp add: get_scheduler_def example_tasking_def)

lemma example_wf: "wf example_tasking (example_queues [11, 12] [13])"
proof -
  have "core_ok example_tasking 0 \<lparr>sc_milliseconds = 15, sc_coreId = 0, sc_waitQueue = 13, sc_runQueue = 11, sc_idleEntry = 10, sc_currentEntry = 11\<rparr>
    [11, 12] [13]"
    by (simp add: core_ok_def queues_def idle_ok_def task_ok_def thread_ok_def val_def example_tasking_def example_thread_def get_scheduler_def)
  moreover have "c = 0" if "get_scheduler example_tasking c = Inr sc" for c sc
    using that by (auto simp: get_scheduler_def example_tasking_def split: if_splits)
  moreover have "\<exists>A. ipc_rep (ts_ipc example_tasking) A" using ipc_start_rep [OF small_kernel_heap_rep] by (auto simp: example_tasking_def)
  ultimately show ?thesis by (fastforce simp: wf_def example_queues_def)
qed

lemma example_vals [simp]:
  "val (ts_entries example_tasking) 10 = 100" "val (ts_entries example_tasking) 11 = 101"
  "val (ts_entries example_tasking) 12 = 102" "val (ts_entries example_tasking) 13 = 103"
  by (simp_all add: val_def example_tasking_def)

lemma example_clock [simp]: "clock example_tasking 0 = Some 15"
  by (simp add: clock_def)

lemma example_threads [simp]:
  "ts_threads example_tasking 101 = Some (example_thread 1 THREAD_TYPE_MAIN THREAD_PRIORITY_NORMAL None)"
  "ts_threads example_tasking 102 = Some (example_thread 2 THREAD_TYPE_SUB THREAD_PRIORITY_NORMAL None)"
  "ts_threads example_tasking 103 = Some (example_thread 3 THREAD_TYPE_SUB THREAD_PRIORITY_NORMAL (Some (WaiterSleep 0 10 5)))"
  by (simp_all add: example_tasking_def)

lemma example_process [simp]: "ts_processes example_tasking 0x1000 =
  Some \<lparr>pr_main = 101, pr_parent = 0, pr_securityLevel = 0, pr_isServer = False, pr_signalHandlers = []\<rparr>"
  by (simp add: example_tasking_def)

lemma example_alive [simp]: "t \<in> {100, 101, 102, 103} \<Longrightarrow> alive example_tasking t"
  by (auto simp: alive_def example_tasking_def example_thread_def)

lemma example_good: "\<forall>a\<in>set ([11, 12] @ [13]). good waiter_fine example_tasking (val (ts_entries example_tasking) a)"
  by (simp add: good_def mortal_def manager_def waiter_fine_def) (simp add: example_thread_def)

section \<open>A round\<close>

lemma schedule_here:
  assumes "get_scheduler s c = Inr sc"
  shows "Tasking_schedule check s c = Scheduler_schedule check s c"
  using assms by (auto simp: Tasking_schedule_def Tasking_currentScheduler_def get_scheduler_def split: if_splits option.splits)



section \<open>Many rounds\<close>

text \<open>The threads that the next rounds choose.\<close>

fun rounds :: "'f check \<Rightarrow> nat \<Rightarrow> nat \<Rightarrow> 'f tasking \<Rightarrow> ('f tasking \<times> u32 list) kres option" where
  "rounds check c 0 s = Some (Inr (s, []))"
| "rounds check c (Suc n) s =
     obind (Tasking_schedule check s c) (\<lambda>(s, t). obind (rounds check c n s) (\<lambda>(s, ts). Some (Inr (s, t # ts))))"

lemma after_nth:
  assumes "distinct R" and "i < length R"
  shows "after R (R ! i) = R ! (Suc i mod length R)"
proof -
  have R: "R = take i R @ R ! i # drop (Suc i) R" by (rule id_take_nth_drop [OF assms(2)])
  have n: "R ! i \<notin> set (take i R)" using assms by (auto simp: in_set_conv_nth nth_eq_iff_index_eq)
  have a: "after R (R ! i) = (if drop (Suc i) R = [] then hd (take i R @ [R ! i]) else hd (drop (Suc i) R))"
    using after_split [OF n, of "drop (Suc i) R"] R by simp
  show ?thesis
  proof (cases "Suc i < length R")
    case True
    then show ?thesis using a by (simp add: hd_drop_conv_nth)
  next
    case False
    then have "length R = Suc i" using assms(2) by simp
    moreover have "hd (take i R @ [R ! i]) = R ! 0" using assms(2) by (cases R; cases i) auto
    ultimately show ?thesis using a by simp
  qed
qed

text \<open>One round when nothing waits and nobody has died.\<close>

lemma quiet_round:
  assumes "wf s V" and "get_scheduler s c = Inr sc" and "V c = (R, [])" and "R \<noteq> []" and "current_ok s sc R"
    and "\<forall>a\<in>set R. good waiter_fine s (val (ts_entries s) a) \<and> alive s (val (ts_entries s) a)"
  shows "\<exists>s' sc'. Tasking_schedule (Thread_checkWaiting fs) s c = Some (Inr (s', val (ts_entries s) (after R (sc_currentEntry sc)))) \<and>
    wf s' V \<and> get_scheduler s' c = Inr sc' \<and> current_ok s' sc' R \<and> sc_currentEntry sc' = after R (sc_currentEntry sc) \<and>
    (\<forall>a\<in>set R. val (ts_entries s') a = val (ts_entries s) a \<and> good waiter_fine s' (val (ts_entries s') a) \<and> alive s' (val (ts_entries s') a)) \<and>
    (\<forall>u. rel_option kept (ts_threads s u) (ts_threads s' u))"
proof -
  have V: "V(c := (R, [])) = V" using assms(3) by auto
  have "\<forall>a\<in>set (R @ []). good waiter_fine s (val (ts_entries s) a)" using assms(6) by simp
  from kw.schedule_spec [OF assms(1-3,5) this, of fs] obtain s' sc' where
    s': "Scheduler_schedule (Thread_checkWaiting fs) s c = Some (Inr (s', val (ts_entries s') (sc_currentEntry sc')))"
    "wf s' (V(c := (R, [])))" "get_scheduler s' c = Inr sc'" "current_ok s' sc' R" "sc_currentEntry sc' = pick sc R"
    "\<forall>a\<in>set R. val (ts_entries s') a = val (ts_entries s) a \<and> good waiter_fine s' (val (ts_entries s) a) \<and>
      alive s' (val (ts_entries s) a) = alive s (val (ts_entries s) a)"
    "\<forall>u. rel_option kept (ts_threads s u) (ts_threads s' u)"
    using assms(6) by auto
  have "pick sc R = after R (sc_currentEntry sc)" "after R (sc_currentEntry sc) \<in> set R" using assms(4) after_mem by (auto simp: pick_def)
  then show ?thesis using s' V assms(6) schedule_here [OF assms(2)] by (intro exI [of _ s'] exI [of _ sc']) auto
qed

lemma rounds_from:
  assumes "wf s V" and "get_scheduler s c = Inr sc" and "V c = (R, [])" and "current_ok s sc R" and "distinct R"
    and "\<forall>a\<in>set R. good waiter_fine s (val (ts_entries s) a) \<and> alive s (val (ts_entries s) a)"
    and "i < length R" and "after R (sc_currentEntry sc) = R ! i"
  shows "\<exists>s' sc'. rounds (Thread_checkWaiting fs) c n s =
      Some (Inr (s', map (\<lambda>j. val (ts_entries s) (R ! ((i + j) mod length R))) [0..<n])) \<and>
    wf s' V \<and> get_scheduler s' c = Inr sc' \<and> current_ok s' sc' R \<and>
    (\<forall>a\<in>set R. val (ts_entries s') a = val (ts_entries s) a \<and> alive s' (val (ts_entries s') a))"
  using assms
proof (induction n arbitrary: s sc i)
  case 0
  then show ?case by auto
next
  case (Suc n)
  let ?L = "length R" and ?i = "Suc i mod length R"
  have "R \<noteq> []" using Suc.prems(7) by auto
  from quiet_round [OF Suc.prems(1-3) this Suc.prems(4,6), of fs, unfolded Suc.prems(8)]
  obtain s1 sc1 where s1: "Tasking_schedule (Thread_checkWaiting fs) s c = Some (Inr (s1, val (ts_entries s) (R ! i)))"
    "wf s1 V" "get_scheduler s1 c = Inr sc1" "current_ok s1 sc1 R" "sc_currentEntry sc1 = R ! i"
    "\<forall>a\<in>set R. val (ts_entries s1) a = val (ts_entries s) a \<and> good waiter_fine s1 (val (ts_entries s1) a) \<and> alive s1 (val (ts_entries s1) a)"
    by auto
  have i: "?i < ?L" "after R (sc_currentEntry sc1) = R ! ?i" using s1(5) after_nth [OF Suc.prems(5,7)] \<open>R \<noteq> []\<close> by auto
  have "\<forall>a\<in>set R. good waiter_fine s1 (val (ts_entries s1) a) \<and> alive s1 (val (ts_entries s1) a)" using s1(6) by blast
  from Suc.IH [OF s1(2,3) Suc.prems(3) s1(4) Suc.prems(5) this i]
  obtain s2 sc2 where s2: "rounds (Thread_checkWaiting fs) c n s1 = Some (Inr (s2, map (\<lambda>j. val (ts_entries s1) (R ! ((?i + j) mod ?L))) [0..<n]))"
    "wf s2 V" "get_scheduler s2 c = Inr sc2" "current_ok s2 sc2 R" "\<forall>a\<in>set R. val (ts_entries s2) a = val (ts_entries s1) a \<and> alive s2 (val (ts_entries s2) a)"
    by blast
  have "val (ts_entries s1) (R ! ((?i + j) mod ?L)) = val (ts_entries s) (R ! ((i + Suc j) mod ?L))" for j
    using s1(6) \<open>R \<noteq> []\<close> by (simp add: mod_add_left_eq)
  then have "map (\<lambda>j. val (ts_entries s) (R ! ((i + j) mod ?L))) [0..<Suc n] =
    val (ts_entries s) (R ! i) # map (\<lambda>j. val (ts_entries s1) (R ! ((?i + j) mod ?L))) [0..<n]"
    using Suc.prems(7) by (simp only: upt_conv_Cons zero_less_Suc map_Suc_upt [symmetric] list.map map_map) simp
  then show ?case using s1 s2 by auto
qed

text \<open>
  C16. As long as no thread waits or dies, the scheduler is fair: from the thread after the one that
  ran, the rounds go through the run queue in its order and start again at its front, so that in as
  many rounds as it has entries every thread runs exactly once.
\<close>

theorem round_robin:
  assumes "wf s V" and "get_scheduler s c = Inr sc" and "V c = (R, [])" and "R \<noteq> []" and "current_ok s sc R"
    and "\<forall>a\<in>set R. good waiter_fine s (val (ts_entries s) a) \<and> alive s (val (ts_entries s) a)"
  shows "\<exists>i < length R. R ! i = after R (sc_currentEntry sc) \<and>
    (\<forall>n. \<exists>s'. rounds (Thread_checkWaiting fs) c n s = Some (Inr (s', map (\<lambda>j. val (ts_entries s) (R ! ((i + j) mod length R))) [0..<n])) \<and>
      wf s' V)"
proof -
  have "distinct R" using wf_core [OF assms(1,2)] assms(3) unfolding core_ok_def queues_def distinct_map by simp
  moreover obtain i where i: "i < length R" "R ! i = after R (sc_currentEntry sc)" using after_mem [OF assms(4)] by (metis in_set_conv_nth)
  ultimately show ?thesis using rounds_from [OF assms(1-3,5) _ assms(6) i(1) i(2) [symmetric]] by metis
qed

text \<open>The example without the sleeping thread.\<close>

definition example_quiet :: "unit tasking" where
  "example_quiet = put_scheduler example_tasking 0
     \<lparr>sc_milliseconds = 15, sc_coreId = 0, sc_waitQueue = 0, sc_runQueue = 11, sc_idleEntry = 10, sc_currentEntry = 11\<rparr>"

lemma example_quiet_scheduler [simp]: "get_scheduler example_quiet c =
  (if c = 0 then Inr \<lparr>sc_milliseconds = 15, sc_coreId = 0, sc_waitQueue = 0, sc_runQueue = 11, sc_idleEntry = 10, sc_currentEntry = 11\<rparr>
   else Inl NullDeref)"
  by (simp add: example_quiet_def put_scheduler_def get_scheduler_def example_tasking_def)

lemma example_quiet_simps [simp]:
  "ts_entries example_quiet = ts_entries example_tasking" "ts_threads example_quiet = ts_threads example_tasking"
  "ts_processes example_quiet = ts_processes example_tasking" "ts_cpus example_quiet = ts_cpus example_tasking"
  "alive example_quiet = alive example_tasking"
  by (simp_all add: example_quiet_def alive_def fun_eq_iff)

lemma example_quiet_wf: "wf example_quiet (example_queues [11, 12] [])"
proof -
  have "core_ok example_quiet 0 \<lparr>sc_milliseconds = 15, sc_coreId = 0, sc_waitQueue = 0, sc_runQueue = 11, sc_idleEntry = 10, sc_currentEntry = 11\<rparr>
    [11, 12] []"
    by (simp add: core_ok_def queues_def idle_ok_def task_ok_def thread_ok_def) (simp add: val_def example_tasking_def example_thread_def)
  moreover have "\<exists>A. ipc_rep (ts_ipc example_quiet) A"
    using ipc_start_rep [OF small_kernel_heap_rep] by (auto simp: example_quiet_def example_tasking_def)
  ultimately show ?thesis by (auto simp: wf_def example_queues_def)
qed

theorem round_robin_witness:
  "\<exists>s'. rounds (Thread_checkWaiting (\<lambda>s t f. None)) 0 4 example_quiet = Some (Inr (s', [102, 101, 102, 101]))"
proof -
  let ?sc = "\<lparr>sc_milliseconds = 15, sc_coreId = 0, sc_waitQueue = 0, sc_runQueue = 11, sc_idleEntry = 10, sc_currentEntry = 11\<rparr>"
  have V: "example_queues [11, 12] [] 0 = ([11, 12], [])" by (simp add: example_queues_def)
  have g: "get_scheduler example_quiet 0 = Inr ?sc" by simp
  have cur: "current_ok example_quiet ?sc [11, 12]" by (simp add: current_ok_def)
  have ok: "\<forall>a\<in>set [11, 12]. good waiter_fine example_quiet (val (ts_entries example_quiet) a) \<and> alive example_quiet (val (ts_entries example_quiet) a)"
    by (simp add: good_def mortal_def manager_def) (simp add: example_thread_def)
  obtain i :: nat where i: "i < length [11 :: u32, 12]" "[11, 12] ! i = after [11, 12] (sc_currentEntry ?sc)"
    "\<exists>s'. rounds (Thread_checkWaiting (\<lambda>s t f. None)) 0 4 example_quiet =
      Some (Inr (s', map (\<lambda>j. val (ts_entries example_quiet) ([11, 12] ! ((i + j) mod length [11 :: u32, 12]))) [0..<4]))"
    using round_robin [OF example_quiet_wf g V _ cur ok, of "\<lambda>s t f. None"] by blast
  have "i = 1" using i(1,2) by (cases i) (auto simp: after_def)
  have n: "[0..<4] = [0, 1, 2, 3 :: nat]" and l: "length [11 :: u32, 12] = 2" by (simp_all add: upt_rec)
  show ?thesis using i(3) unfolding n l \<open>i = 1\<close> by simp
qed

section \<open>The end of a process\<close>

text \<open>A thread of another process, told apart by the number of the main thread as the code does.\<close>

definition of_other_process :: "'f tasking \<Rightarrow> u32 \<Rightarrow> u32 \<Rightarrow> bool" where
  "of_other_process s i t \<longleftrightarrow> (\<exists>th m. ts_threads s t = Some th \<and> main_id s (th_process th) = Inr m \<and> m \<noteq> i)"

lemma remove_loop_skips:
  assumes "seg (ts_entries s) p (xs @ ys) 0" and "\<forall>x\<in>set xs. val (ts_entries s) x \<noteq> 0 \<and> of_other_process s i (val (ts_entries s) x)"
    and "main_id s P = Inr i"
  shows "\<exists>q. remove_threads_loop c P p s = remove_threads_loop c P q s \<and> seg (ts_entries s) q ys 0"
  using assms(1,2)
proof (induction xs arbitrary: p)
  case (Cons x xs)
  obtain e where e: "p = x" "x \<noteq> 0" "ts_entries s x = Some e" "seg (ts_entries s) (te_next e) (xs @ ys) 0" using Cons.prems(1) by auto
  have "te_value e \<noteq> 0" "of_other_process s i (te_value e)" using Cons.prems(2) e(3) by (auto simp: val_def)
  then have "remove_threads_loop c P p s = remove_threads_loop c P (te_next e) s"
    using e assms(3) by (subst remove_threads_loop.simps) (auto simp: at_Inr of_other_process_def)
  then show ?case using Cons.IH [OF e(4)] Cons.prems(2) by auto
qed auto

lemma remove_main:
  assumes "wf s V" and "get_scheduler s c = Inr sc" and "V c = (xs @ a # ys, W)" and "ts_threads s (val (ts_entries s) a) = Some th"
    and "th_type th = THREAD_TYPE_MAIN" and "ts_processes s (th_process th) = Some pr" and "pr_main pr = val (ts_entries s) a"
  shows "\<exists>s' m. Scheduler_remove s c (val (ts_entries s) a) = Some (Inr s') \<and> ts_entries s' = m(a := None) \<and> same_vals (ts_entries s) m \<and>
    ts_threads s' = (ts_threads s)(val (ts_entries s) a := None) \<and> ts_processes s' = (ts_processes s)(th_process th := None)"
proof -
  let ?t = "val (ts_entries s) a"
  have core: "core_ok s c sc (xs @ a # ys) W" using wf_core [OF assms(1,2)] assms(3) by simp
  then have q: "queues s c sc (xs @ a # ys) W" and a: "task_ok s c False ?t" by (auto simp: core_ok_def)
  have th: "?t \<noteq> 0" "th_process th \<noteq> 0" using a assms(4) by (auto simp: task_ok_def thread_ok_def)
  have segs: "seg (ts_entries s) (sc_runQueue sc) (xs @ a # ys) 0" "seg (ts_entries s) (sc_waitQueue sc) W 0"
    "distinct (map (val (ts_entries s)) ((xs @ a # ys) @ W))" using q by (auto simp: queues_def)
  then have "a \<noteq> 0" using seg_mem by fastforce
  obtain m h h' where m: "unlink_thread (ts_entries s) sc ?t = Some (Inr (m, sc\<lparr>sc_runQueue := h, sc_waitQueue := h'\<rparr>, a))"
    "same_vals (ts_entries s) m" using unlink_found [OF segs, of a] by auto
  obtain ipc where ipc: "MessageController_clear (ts_ipc s) (th_id th) = Some (Inr ipc)" using wf_ipc [OF assms(1)] clear_spec by blast
  show ?thesis using assms(2,4-7) m th ipc \<open>a \<noteq> 0\<close>
    by (auto simp: Scheduler_remove_def ThreadManager_deleteTask_def at_Inr Let_def THREAD_TYPE_MAIN_def THREAD_TYPE_VM86_def)
qed



section \<open>Interrupted threads\<close>

text \<open>
  A thread that runs when a signal or an interrupt reaches it is sent to the wait queue with the
  waiter that performs the interruption; the waiter that is saved is none.
\<close>

lemma enter_saves_none:
  assumes "wf s V" and "get_scheduler s c = Inr sc" and "V c = (xs @ a # ys, W)" and "t = val (ts_entries s) a"
    and "ts_threads s t = Some th" and "th_interruptionInfo th = None"
  shows "\<exists>s' th' info. Thread_enterSignalHandler s t address signal callback = Some (Inr s') \<and> wf s' (V(c := (xs @ ys, a # W))) \<and>
    ts_threads s' t = Some th' \<and> th_waitManager th' = Some (WaiterPerformInterruption address callback) \<and>
    th_interruptionInfo th' = Some info \<and> in_waitManager info = None"
proof -
  have "task_ok s c False t" using wf_core [OF assms(1,2)] assms(3,4) by (auto simp: core_ok_def)
  then have th: "t \<noteq> 0" "th_waitManager th = None" using assms(5) by (auto simp: task_ok_def thread_ok_def)
  let ?info = "ThreadInterruptionInfo_new\<lparr>in_type := InterruptionSIGNAL, in_handledSignal := signal\<rparr>"
  let ?th = "th\<lparr>th_interruptionInfo := Some ?info\<rparr>"
  let ?s = "s\<lparr>ts_threads := (ts_threads s)(t \<mapsto> ?th)\<rparr>"
  have n: "th\<lparr>th_interruptionInfo := Some (ThreadInterruptionInfo_new\<lparr>in_waitManager := None, in_type := InterruptionSIGNAL, in_handledSignal := signal\<rparr>),
    th_waitManager := None\<rparr> = ?th" using th(2) by (cases th) (simp add: ThreadInterruptionInfo_new_def)
  have run: "Thread_enterSignalHandler s t address signal callback = Thread_wait ?s t (Some (WaiterPerformInterruption address callback))"
    using th assms(5,6) n
    by (simp add: Thread_enterSignalHandler_def enter_handler_def Thread_startPrepareInterruption_def Thread_finishPrepareInterruption_def
        upd_thread_def at_upd_def at_Inr)
  have "wf ?s V" by (rule wf_threads [OF assms(1,5)]) simp_all
  from wait_wf [OF this, of c sc xs a ys W ?th "WaiterPerformInterruption address callback"] assms(2-4)
  show ?thesis unfolding run by (auto simp: ThreadInterruptionInfo_new_def)
qed

text \<open>
  A thread that was interrupted while it ran never runs again. When it leaves the handler it is
  in the run queue without a waiter, and the waiter saved for it is none; restoring its state moves
  it to the wait queue, where no check of the scheduler and no \<open>unwait\<close> moves it back, since they
  do nothing for a thread without a waiter.
\<close>

theorem interrupted_thread_lost:
  assumes "wf s V" and "get_scheduler s c = Inr sc" and "V c = (xs @ a # ys, W)" and "t = val (ts_entries s) a"
    and "ts_threads s t = Some th" and "th_interruptionInfo th = Some info" and "in_waitManager info = None"
    and "in_cpuState info \<noteq> None" and "in_cpuStateAddress info \<noteq> 0" and "ts_cpus s (in_cpuStateAddress info) \<noteq> None"
  shows "\<exists>s' sc' th'. Thread_restoreInterruptedState s t = Some (Inr s') \<and> queues s' c sc' (xs @ ys) (a # W) \<and>
    val (ts_entries s') a = t \<and> ts_threads s' t = Some th' \<and> th_waitManager th' = None \<and> ts_cpus s' (th_cpuState th') = in_cpuState info \<and>
    (\<forall>check. Scheduler_checkWaitingState check s' t = Some (Inr s')) \<and> Thread_unwait s' t = Some (Inr s')"
proof -
  have core: "core_ok s c sc (xs @ a # ys) W" using wf_core [OF assms(1,2)] assms(3) by simp
  then have q: "queues s c sc (xs @ a # ys) W" and "task_ok s c False t" using assms(4) by (auto simp: core_ok_def)
  then have th: "t \<noteq> 0" "th_waitManager th = None" "th_scheduler th = Some c" using assms(5) by (auto simp: task_ok_def thread_ok_def)
  obtain s1 h sc' where s1: "Scheduler_moveToWaitQueue s c t = Some (Inr s1)" "relinked s c (set (xs @ [a])) sc' s1"
    "queues s1 c sc' (xs @ ys) (a # W)"
    using moveToWaitQueue_found [OF q] assms(4) by blast
  obtain m where m: "s1 = put_scheduler (s\<lparr>ts_entries := m\<rparr>) c sc'" "same_vals (ts_entries s) m" using s1(2) by (auto simp: relinked_def)
  obtain ps old where ps: "in_cpuState info = Some ps" "ts_cpus s (in_cpuStateAddress info) = Some old" using assms(8,10) by blast
  let ?th = "th\<lparr>th_cpuState := in_cpuStateAddress info, th_interruptionInfo := None\<rparr>"
  let ?s = "s1\<lparr>ts_cpus := (ts_cpus s)(in_cpuStateAddress info \<mapsto> ps), ts_threads := (ts_threads s)(t \<mapsto> ?th)\<rparr>"
  have same: "th\<lparr>th_waitManager := None\<rparr> = th" using th(2) by simp
  have "Thread_wait s t None = Some (Inr s1)"
    using s1(1) m(1) th same assms(5) by (simp add: Thread_wait_def at_Inr upd_thread_def at_upd_def) (simp add: put_scheduler_def fun_upd_idem)
  then have "Thread_restoreInterruptedState s t = Some (Inr ?s)"
    using th assms(5-7,9) ps m(1) by (simp add: Thread_restoreInterruptedState_def at_Inr upd_thread_def at_upd_def)
  moreover have "queues ?s c sc' (xs @ ys) (a # W)" using s1(3) by (simp add: queues_def)
  moreover have "val (ts_entries ?s) a = t" using same_vals_val [OF m(2)] m(1) assms(4) by simp
  ultimately show ?thesis using th ps
    by (intro exI [of _ ?s] exI [of _ sc'] exI [of _ ?th]) (simp add: Scheduler_checkWaitingState_def Thread_unwait_def at_Inr)
qed

definition example_info :: "unit interruption" where
  "example_info = ThreadInterruptionInfo_new\<lparr>in_cpuState := Some example_cpu, in_cpuStateAddress := 0x2000\<rparr>"

theorem interrupted_thread_lost_witness:
  "\<exists>s' sc'. Thread_restoreInterruptedState (example_quiet\<lparr>ts_threads := (ts_threads example_quiet)(102 \<mapsto>
      (example_thread 2 THREAD_TYPE_SUB THREAD_PRIORITY_NORMAL None)\<lparr>th_interruptionInfo := Some example_info\<rparr>)\<rparr>) 102 = Some (Inr s') \<and>
    queues s' 0 sc' [11] [12]"
proof -
  let ?th = "(example_thread 2 THREAD_TYPE_SUB THREAD_PRIORITY_NORMAL None)\<lparr>th_interruptionInfo := Some example_info\<rparr>"
  let ?s = "example_quiet\<lparr>ts_threads := (ts_threads example_quiet)(102 \<mapsto> ?th)\<rparr>"
  have w: "wf ?s (example_queues [11, 12] [])" by (rule wf_threads [OF example_quiet_wf]) simp_all
  have g: "get_scheduler ?s 0 =
    Inr \<lparr>sc_milliseconds = 15, sc_coreId = 0, sc_waitQueue = 0, sc_runQueue = 11, sc_idleEntry = 10, sc_currentEntry = 11\<rparr>" by simp
  have V: "example_queues [11, 12] [] 0 = ([11] @ 12 # [], [])" by (simp add: example_queues_def)
  have t: "102 = val (ts_entries ?s) 12" "ts_threads ?s 102 = Some ?th" by simp_all
  have cpu: "ts_cpus ?s (in_cpuStateAddress example_info) \<noteq> None" by (simp add: example_info_def) (simp add: example_tasking_def)
  show ?thesis
    using interrupted_thread_lost [OF w g V t, of example_info] cpu by (auto simp: example_info_def ThreadInterruptionInfo_new_def)
qed

section \<open>Threads that wait for nothing\<close>

text \<open>Nothing waits and all threads in the run queue are alive.\<close>

definition running :: "'f tasking \<Rightarrow> (nat \<Rightarrow> u32 list \<times> u32 list) \<Rightarrow> nat \<Rightarrow> scheduler \<Rightarrow> u32 list \<Rightarrow> bool" where
  "running s V c sc R \<longleftrightarrow> wf s V \<and> get_scheduler s c = Inr sc \<and> V c = (R, []) \<and> current_ok s sc R \<and>
     (\<forall>a\<in>set R. alive s (val (ts_entries s) a))"

definition unnumbered :: "'f tasking \<Rightarrow> u32 \<Rightarrow> bool" where
  "unnumbered s tid \<longleftrightarrow> (\<forall>u th. ts_threads s u = Some th \<longrightarrow> th_id th \<noteq> tid)"

lemma run_good:
  assumes "wf s V" and "get_scheduler s c = Inr sc" and "a \<in> set (fst (V c))" and "alive s (val (ts_entries s) a)"
  shows "good waiter_fine s (val (ts_entries s) a)"
  using wf_core [OF assms(1,2)] assms(3,4) by (auto simp: core_ok_def task_ok_def thread_ok_def good_def mortal_def manager_def alive_def)

lemma unnumbered_kept:
  assumes "unnumbered s tid" and "\<And>u th'. ts_threads s' u = Some th' \<Longrightarrow> \<exists>th. ts_threads s u = Some th \<and> th_id th' = th_id th"
  shows "unnumbered s' tid"
  using assms unfolding unnumbered_def by metis

lemma unnumbered_rel:
  assumes "unnumbered s tid" and "\<forall>u. rel_option kept (ts_threads s u) (ts_threads s' u)"
  shows "unnumbered s' tid"
proof (rule unnumbered_kept [OF assms(1)])
  fix u th'
  assume "ts_threads s' u = Some th'"
  then show "\<exists>th. ts_threads s u = Some th \<and> th_id th' = th_id th"
    using spec [OF assms(2), of u] by (auto simp: option_rel_Some2 kept_def)
qed

lemma running_round:
  assumes "running s V c sc R" and "R \<noteq> []" and "unnumbered s tid"
  shows "\<exists>s' sc'. Tasking_schedule (Thread_checkWaiting fs) s c = Some (Inr (s', val (ts_entries s) (after R (sc_currentEntry sc)))) \<and>
    running s' V c sc' R \<and> sc_currentEntry sc' = after R (sc_currentEntry sc) \<and> unnumbered s' tid \<and>
    (\<forall>a\<in>set R. val (ts_entries s') a = val (ts_entries s) a)"
proof -
  have r: "wf s V" "get_scheduler s c = Inr sc" "V c = (R, [])" "current_ok s sc R" "\<forall>a\<in>set R. alive s (val (ts_entries s) a)"
    using assms(1) by (simp_all add: running_def)
  have "\<forall>a\<in>set R. good waiter_fine s (val (ts_entries s) a) \<and> alive s (val (ts_entries s) a)" using run_good [OF r(1,2)] r(3,5) by simp
  from quiet_round [OF r(1-3) assms(2) r(4) this, of fs]
  obtain s' sc' where s': "Tasking_schedule (Thread_checkWaiting fs) s c = Some (Inr (s', val (ts_entries s) (after R (sc_currentEntry sc))))"
    "wf s' V" "get_scheduler s' c = Inr sc'" "current_ok s' sc' R" "sc_currentEntry sc' = after R (sc_currentEntry sc)"
    "\<forall>a\<in>set R. val (ts_entries s') a = val (ts_entries s) a \<and> good waiter_fine s' (val (ts_entries s') a) \<and> alive s' (val (ts_entries s') a)"
    "\<forall>u. rel_option kept (ts_threads s u) (ts_threads s' u)" by blast
  have "unnumbered s' tid" by (rule unnumbered_rel [OF assms(3) s'(7)])
  then show ?thesis using s' r(3) by (auto simp: running_def)
qed

lemma join_nobody:
  assumes "wf s V" and "unnumbered s tid" and "t \<noteq> 0" and "ts_threads s t \<noteq> None"
  shows "Thread_checkWaiting fs s t (WaiterJoin tid) = Some (Inr (False, s))"
proof -
  have "Tasking_getTaskById s tid = Some (Inr 0)" using getTaskById_spec [OF assms(1), of tid] assms(2) by (auto simp: unnumbered_def)
  then show ?thesis using assms(3,4) by (auto simp: Thread_checkWaiting_def WaiterJoin_checkWaiting_def at_Inr)
qed

text \<open>A round in which the only waiting thread waits for a thread that does not exist: it is woken.\<close>

lemma wake_joining:
  assumes "wf s V" and "get_scheduler s c = Inr sc" and "V c = (R, [a])" and "alive s (val (ts_entries s) a)"
    and "manager s (val (ts_entries s) a) = Some (WaiterJoin tid)" and "unnumbered s tid"
  shows "\<exists>s' sc'. obind (Scheduler_processWaitQueue (Thread_checkWaiting fs) s c) (\<lambda>s. Some (set_current s c (sc_currentEntry sc))) = Some (Inr s') \<and>
    wf s' (V(c := (a # R, []))) \<and> get_scheduler s' c = Inr sc' \<and> sc_idleEntry sc' = sc_idleEntry sc \<and>
    sc_currentEntry sc' = sc_currentEntry sc \<and> same_vals (ts_entries s) (ts_entries s') \<and> (\<forall>u. alive s' u = alive s u) \<and> unnumbered s' tid"
proof -
  let ?t = "val (ts_entries s) a" and ?w = "WaiterJoin tid"
  let ?s = "put_scheduler s c (sc\<lparr>sc_currentEntry := a\<rparr>)"
  have core: "core_ok s c sc R [a]" using wf_core [OF assms(1,2)] assms(3) by simp
  then obtain e where e: "sc_waitQueue sc = a" "a \<noteq> 0" "ts_entries s a = Some e" "te_next e = 0" "?t \<noteq> 0"
    by (auto simp: core_ok_def queues_def task_ok_def)
  have v: "te_value e = ?t" using e(3) by (simp add: val_def)
  obtain th where th: "ts_threads s ?t = Some th" "th_alive th" "th_waitManager th = Some ?w"
    using assms(4,5) by (auto simp: alive_def manager_def)
  have w: "wf ?s V" by (rule wf_set_current [OF assms(1,2)])
  have g: "get_scheduler ?s c = Inr (sc\<lparr>sc_currentEntry := a\<rparr>)" using get_less [OF assms(2)] by simp
  have un: "unnumbered ?s tid" using assms(6) by (simp add: unnumbered_def)
  have fine: "waiter_fine ?s ?t ?w" using th(1) by (simp add: waiter_fine_def)
  have chk: "Thread_checkWaiting fs ?s (te_value e) ?w = Some (Inr (False, ?s))" using join_nobody [OF w un] th(1) v e(5) by simp
  have Vc: "V c = (R, [] @ a # [])" using assms(3) by simp
  from kw.process_wake [OF w g Vc _ _ th(2,3) _ chk] e(3) th(1) fine v
  obtain s1 sc1 where s1: "process_entry (Thread_checkWaiting fs) c ?s a = Some (Inr (s1, 0))" "wf s1 (V(c := (a # R, [])))"
    "get_scheduler s1 c = Inr sc1" "sc_idleEntry sc1 = sc_idleEntry sc" "stepped waiter_fine ?s {?t} s1"
    "same_vals (ts_entries s) (ts_entries s1)" "alive s1 ?t" "\<exists>th'. ts_threads s1 ?t = Some th' \<and> th_id th' = th_id th"
    using e(4) by auto
  let ?s1 = "put_scheduler s1 c (sc1\<lparr>sc_currentEntry := sc_currentEntry sc\<rparr>)"
  have "obind (Scheduler_processWaitQueue (Thread_checkWaiting fs) s c) (\<lambda>s. Some (set_current s c (sc_currentEntry sc))) = Some (Inr ?s1)"
    using assms(2) e(1,2) s1(1) set_current_Inr [OF s1(3)]
    by (simp add: Scheduler_processWaitQueue_def set_current_def process_loop.simps [of _ _ _ 0] process_loop.simps [of _ _ _ a])
  moreover have "alive ?s1 u = alive s u" for u
    using stepped_alive(1) [OF s1(5)] s1(7) assms(4) by (cases "u = ?t") (auto simp: alive_def)
  moreover have "unnumbered s1 tid"
  proof (rule unnumbered_kept [OF assms(6)])
    fix u th'
    assume u: "ts_threads s1 u = Some th'"
    show "\<exists>th. ts_threads s u = Some th \<and> th_id th' = th_id th"
    proof (cases "u = ?t")
      case False
      then have "rel_option kept (ts_threads s u) (ts_threads s1 u)" using s1(5) by (auto simp: stepped_def)
      then show ?thesis using u by (auto simp: option_rel_Some2 kept_def)
    qed (use u s1(8) th(1) in auto)
  qed
  ultimately show ?thesis using wf_set_current [OF s1(2,3)] get_less [OF s1(3)] s1(4,6)
    by (intro exI [of _ ?s1] exI [of _ "sc1\<lparr>sc_currentEntry := sc_currentEntry sc\<rparr>"]) (simp add: unnumbered_def)
qed

lemma join_round:
  assumes "wf s V" and "get_scheduler s c = Inr sc" and "V c = (R, [a])" and "current_ok s sc R"
    and "\<forall>b\<in>set (a # R). alive s (val (ts_entries s) b)" and "manager s (val (ts_entries s) a) = Some (WaiterJoin tid)" and "unnumbered s tid"
  shows "\<exists>s' sc'. Scheduler_schedule (Thread_checkWaiting fs) s c = Some (Inr (s', val (ts_entries s) (pick sc (a # R)))) \<and>
    running s' (V(c := (a # R, []))) c sc' (a # R) \<and> sc_currentEntry sc' = pick sc (a # R) \<and> unnumbered s' tid \<and>
    (\<forall>b\<in>set (a # R). val (ts_entries s') b = val (ts_entries s) b)"
proof -
  let ?V = "V(c := (a # R, []))"
  have "alive s (val (ts_entries s) a)" using assms(5) by simp
  from wake_joining [OF assms(1-3) this assms(6,7)] obtain s1 sc1 where
    s1: "obind (Scheduler_processWaitQueue (Thread_checkWaiting fs) s c) (\<lambda>s. Some (set_current s c (sc_currentEntry sc))) = Some (Inr s1)"
    "wf s1 ?V" "get_scheduler s1 c = Inr sc1" "sc_idleEntry sc1 = sc_idleEntry sc" "sc_currentEntry sc1 = sc_currentEntry sc"
    "same_vals (ts_entries s) (ts_entries s1)" "\<forall>u. alive s1 u = alive s u" "unnumbered s1 tid" by blast
  have vs: "val (ts_entries s1) b = val (ts_entries s) b" for b by (rule same_vals_val [OF s1(6)])
  have cur: "current_ok s1 sc1 (a # R)" using assms(4) s1(4,5,7) vs by (auto simp: current_ok_def)
  have alive1: "\<forall>b\<in>set (a # R). alive s1 (val (ts_entries s1) b)" using assms(5) s1(7) vs by auto
  then have gd: "\<forall>b\<in>set ((a # R) @ []). good waiter_fine s1 (val (ts_entries s1) b)" using run_good [OF s1(2,3)] by auto
  have V1: "?V c = (a # R, [])" by simp
  from kw.choice [OF s1(2,3) V1 cur gd, unfolded fun_upd_upd] obtain s2 sc2 D where
    s2: "obind (schedule_loop c s1) (\<lambda>(s, thread).
      obind (Some (Scheduler_finishSwitch s thread)) (\<lambda>s.
      obind (Some (upd_thread s thread (\<lambda>th. th\<lparr>th_rounds := th_rounds th + 1\<rparr>))) (\<lambda>s. Some (Inr (s, thread))))) =
      Some (Inr (s2, val (ts_entries s2) (sc_currentEntry sc2)))"
    "wf s2 (V(c := (filter (\<lambda>b. b \<notin> D) (a # R), [])))" "get_scheduler s2 c = Inr sc2" "current_ok s2 sc2 (filter (\<lambda>b. b \<notin> D) (a # R))"
    "(\<forall>b\<in>set (a # R). alive s1 (val (ts_entries s1) b)) \<longrightarrow> D = {} \<and> sc_currentEntry sc2 = pick sc1 (a # R)"
    "\<forall>b\<in>set (filter (\<lambda>b. b \<notin> D) (a # R) @ []). val (ts_entries s2) b = val (ts_entries s1) b \<and>
      good waiter_fine s2 (val (ts_entries s1) b) \<and> alive s2 (val (ts_entries s1) b) = alive s1 (val (ts_entries s1) b)"
    "\<forall>u. u \<notin> val (ts_entries s1) ` D \<longrightarrow> rel_option kept (ts_threads s1 u) (ts_threads s2 u)"
    by blast
  have D: "D = {}" "sc_currentEntry sc2 = pick sc (a # R)" using s2(5) alive1 s1(4,5) by (auto simp: pick_def)
  obtain s0 where "Scheduler_processWaitQueue (Thread_checkWaiting fs) s c = Some (Inr s0)" "set_current s0 c (sc_currentEntry sc) = Inr s1"
    using s1(1) by (auto simp: obind_def split: option.splits sum.splits)
  then have "Scheduler_schedule (Thread_checkWaiting fs) s c = Some (Inr (s2, val (ts_entries s2) (sc_currentEntry sc2)))"
    using assms(2) s2(1) by (simp add: Scheduler_schedule_def)
  moreover have "running s2 ?V c sc2 (a # R)" "\<forall>b\<in>set (a # R). val (ts_entries s2) b = val (ts_entries s) b"
    using s2(2-4,6) V1 assms(5) vs s1(7) unfolding running_def D by simp_all
  moreover have "unnumbered s2 tid"
    using s2(7) D(1) by (intro unnumbered_rel [OF s1(8)]) simp
  moreover have "pick sc (a # R) \<in> set (a # R)" using after_mem [of "a # R"] by (simp add: pick_def)
  ultimately show ?thesis using D(2) by (intro exI [of _ s2] exI [of _ sc2]) auto
qed

text \<open>Joining a thread that does not exist: the caller goes to the front of the run queue and runs on.\<close>

lemma join_first:
  assumes "running s V c sc R" and "R = xs @ a # ys" and "sc_currentEntry sc = a" and "unnumbered s tid"
  shows "\<exists>s' sc'. SysCallHandler_join (Thread_checkWaiting fs) s c (val (ts_entries s) a) tid = Some (Inr (s', val (ts_entries s) a)) \<and>
    running s' (V(c := (a # xs @ ys, []))) c sc' (a # xs @ ys) \<and> sc_currentEntry sc' = a \<and> unnumbered s' tid \<and>
    (\<forall>b\<in>set R. val (ts_entries s') b = val (ts_entries s) b)"
proof -
  let ?t = "val (ts_entries s) a" and ?w = "WaiterJoin tid" and ?V = "V(c := (xs @ ys, [a]))"
  have r: "wf s V" "get_scheduler s c = Inr sc" "V c = (xs @ a # ys, [])" "current_ok s sc R" "\<forall>b\<in>set R. alive s (val (ts_entries s) b)"
    using assms(1,2) by (simp_all add: running_def)
  obtain th where th: "ts_threads s ?t = Some th" "th_alive th" using r(5) assms(2) by (auto simp: alive_def)
  have core: "core_ok s c sc (xs @ a # ys) []" using wf_core [OF r(1,2)] r(3) by simp
  then have t: "?t \<noteq> 0" "0 \<notin> set R" using assms(2) seg_mem [of "ts_entries s" "sc_runQueue sc" "xs @ a # ys" 0]
    by (auto simp: core_ok_def task_ok_def queues_def)
  obtain s1 sc1 h where s1: "Thread_wait s ?t (Some ?w) = Some (Inr s1)" "wf s1 ?V"
    "get_scheduler s1 c = Inr sc1" "sc1 = sc\<lparr>sc_runQueue := h, sc_waitQueue := a, sc_currentEntry := 0\<rparr>"
    "same_vals (ts_entries s) (ts_entries s1)" "ts_threads s1 = (ts_threads s)(?t \<mapsto> th\<lparr>th_waitManager := Some ?w\<rparr>)"
    using wait_wf [OF r(1-3) th(1), of ?w] assms(3) by auto
  have vs: "val (ts_entries s1) b = val (ts_entries s) b" for b using same_vals_val [OF s1(5)] .
  have al: "alive s1 u = alive s u" for u using s1(6) th by (auto simp: alive_def)
  have un: "unnumbered s1 tid" by (rule unnumbered_kept [OF assms(4)]) (use s1(6) th in \<open>auto split: if_splits\<close>)
  have cur: "current_ok s1 sc1 (xs @ ys)" using r(4) s1(4) vs al by (auto simp: current_ok_def)
  have Vc: "?V c = (xs @ ys, [a])" by simp
  have av: "\<forall>b\<in>set (a # xs @ ys). alive s1 (val (ts_entries s1) b)" using r(5) assms(2) al vs by auto
  have mg: "manager s1 (val (ts_entries s1) a) = Some ?w" using s1(6) vs by (simp add: manager_def)
  have p: "pick sc1 (a # xs @ ys) = a" using s1(4) t(2) assms(2) by (simp add: pick_def after_notin)
  from join_round [OF s1(2,3) Vc cur av mg un, of fs, unfolded p fun_upd_upd vs] obtain s2 sc2 where
    s2: "Scheduler_schedule (Thread_checkWaiting fs) s1 c = Some (Inr (s2, ?t))" "running s2 (V(c := (a # xs @ ys, []))) c sc2 (a # xs @ ys)"
    "sc_currentEntry sc2 = a" "unnumbered s2 tid" "\<forall>b\<in>set (a # xs @ ys). val (ts_entries s2) b = val (ts_entries s) b" by blast
  then show ?thesis using s1(1) schedule_here [OF s1(3)] assms(2)
    by (intro exI [of _ s2] exI [of _ sc2]) (auto simp: SysCallHandler_join_def)
qed

text \<open>
  A slice: the thread that runs joins the thread \<open>tid\<close>, and then the timer interrupts it. The result
  has the threads that run after the call and after the interrupt.
\<close>

definition slice :: "'f check \<Rightarrow> nat \<Rightarrow> u32 \<Rightarrow> 'f tasking \<Rightarrow> ('f tasking \<times> u32 list) kres option" where
  "slice check c tid s =
     obind (Some (Tasking_lastThread s c)) (\<lambda>t.
     obind (SysCallHandler_join check s c t tid) (\<lambda>(s, t).
     obind (Some (Scheduler_updateMilliseconds s c)) (\<lambda>s.
     obind (Tasking_schedule check s c) (\<lambda>(s, u). Some (Inr (s, [t, u]))))))"

fun slices :: "'f check \<Rightarrow> nat \<Rightarrow> u32 \<Rightarrow> nat \<Rightarrow> 'f tasking \<Rightarrow> ('f tasking \<times> u32 list) kres option" where
  "slices check c tid 0 s = Some (Inr (s, []))"
| "slices check c tid (Suc n) s =
     obind (slice check c tid s) (\<lambda>(s, ts). obind (slices check c tid n s) (\<lambda>(s, us). Some (Inr (s, ts @ us))))"

lemma running_tick:
  assumes "running s V c sc R"
  shows "\<exists>s' sc'. Scheduler_updateMilliseconds s c = Inr s' \<and> running s' V c sc' R \<and> sc_currentEntry sc' = sc_currentEntry sc \<and>
    ts_entries s' = ts_entries s \<and> ts_threads s' = ts_threads s"
proof -
  let ?sc = "sc\<lparr>sc_milliseconds := sc_milliseconds sc + APIC_MILLISECONDS_PER_TICK\<rparr>"
  let ?s = "put_scheduler s c ?sc"
  have r: "wf s V" "get_scheduler s c = Inr sc" using assms by (simp_all add: running_def)
  have "core_ok ?s d sd (fst (V d)) (snd (V d))" if "get_scheduler ?s d = Inr sd" for d sd
    using wf_core [OF r(1), of d] that r(2) get_less [OF r(2)]
    by (auto simp: core_ok_def queues_def idle_ok_def task_ok_def split: if_splits)
  then have "wf ?s V" using wf_ipc [OF r(1)] by (simp add: wf_def)
  then have "running ?s V c ?sc R" using assms get_less [OF r(2)] by (auto simp: running_def current_ok_def alive_def)
  then show ?thesis using r(2) by (intro exI [of _ ?s] exI [of _ ?sc]) (simp add: Scheduler_updateMilliseconds_def)
qed

lemma slice_front:
  assumes "running s V c sc (xs @ a # ys)" and "sc_currentEntry sc = a" and "xs @ ys = b # zs" and "unnumbered s tid"
  shows "\<exists>s' sc'. slice (Thread_checkWaiting fs) c tid s = Some (Inr (s', [val (ts_entries s) a, val (ts_entries s) b])) \<and>
    running s' (V(c := (a # b # zs, []))) c sc' (a # b # zs) \<and> sc_currentEntry sc' = b \<and> unnumbered s' tid \<and>
    (\<forall>d\<in>set (xs @ a # ys). val (ts_entries s') d = val (ts_entries s) d)"
proof -
  have r: "wf s V" "get_scheduler s c = Inr sc" "V c = (xs @ a # ys, [])" using assms(1) by (simp_all add: running_def)
  have core: "core_ok s c sc (xs @ a # ys) []" using wf_core [OF r(1,2)] r(3) by simp
  then obtain e where e: "a \<noteq> 0" "ts_entries s a = Some e"
    using seg_mem [of "ts_entries s" "sc_runQueue sc" "xs @ a # ys" 0 a] by (auto simp: core_ok_def queues_def)
  then have last: "Tasking_lastThread s c = Inr (val (ts_entries s) a)"
    using r(2) assms(2) by (auto simp: Tasking_lastThread_def Tasking_currentScheduler_def Scheduler_lastThread_def get_scheduler_def
        at_Inr val_def split: if_splits option.splits)
  obtain s1 sc1 where s1: "SysCallHandler_join (Thread_checkWaiting fs) s c (val (ts_entries s) a) tid = Some (Inr (s1, val (ts_entries s) a))"
    "running s1 (V(c := (a # b # zs, []))) c sc1 (a # b # zs)" "sc_currentEntry sc1 = a" "unnumbered s1 tid"
    "\<forall>d\<in>set (xs @ a # ys). val (ts_entries s1) d = val (ts_entries s) d"
    using join_first [OF assms(1) refl assms(2,4), of fs] assms(3) by auto
  obtain s2 sc2 where s2: "Scheduler_updateMilliseconds s1 c = Inr s2" "running s2 (V(c := (a # b # zs, []))) c sc2 (a # b # zs)"
    "sc_currentEntry sc2 = a" "ts_entries s2 = ts_entries s1" "ts_threads s2 = ts_threads s1"
    using running_tick [OF s1(2)] s1(3) by auto
  have un: "unnumbered s2 tid" using s1(4) s2(5) by (simp add: unnumbered_def)
  have nx: "after (a # b # zs) a = b" by (simp add: after_def)
  from running_round [OF s2(2) _ un, of fs, unfolded s2(3) nx] obtain s3 sc3 where
    s3: "Tasking_schedule (Thread_checkWaiting fs) s2 c = Some (Inr (s3, val (ts_entries s2) b))"
    "running s3 (V(c := (a # b # zs, []))) c sc3 (a # b # zs)" "sc_currentEntry sc3 = b" "unnumbered s3 tid"
    "\<forall>d\<in>set (a # b # zs). val (ts_entries s3) d = val (ts_entries s2) d" by auto
  have sets: "set (xs @ a # ys) = set (a # b # zs)" using assms(3) by (metis list.simps(15) set_append Un_insert_right)
  then have vb: "val (ts_entries s2) b = val (ts_entries s) b" "\<forall>d\<in>set (xs @ a # ys). val (ts_entries s3) d = val (ts_entries s) d"
    using s1(5) s2(4) s3(5) by auto
  then show ?thesis using last s1(1) s2(1) s3 by (intro exI [of _ s3] exI [of _ sc3]) (auto simp: slice_def)
qed

text \<open>
  C39. Two threads starve all others. When the two threads at the front of the run queue both join a
  thread that does not exist once in each of their time slices, only these two ever run: the wait
  ends at once, the woken thread goes to the front of the run queue, and since it is no longer the
  running entry the queue is walked from its front again.
\<close>

theorem joining_threads_starve:
  assumes "running s V c sc (a # b # zs)" and "sc_currentEntry sc = a" and "unnumbered s tid"
  shows "\<exists>s' ts. slices (Thread_checkWaiting fs) c tid n s = Some (Inr (s', ts)) \<and> length ts = 2 * n \<and>
    set ts \<subseteq> {val (ts_entries s) a, val (ts_entries s) b}"
proof -
  have front: "\<exists>s' ts. slices (Thread_checkWaiting fs) c tid n s = Some (Inr (s', ts)) \<and> length ts = 2 * n \<and>
      set ts \<subseteq> {val (ts_entries s) x, val (ts_entries s) y}"
    if "running s V c sc (xs @ x # ys)" "sc_currentEntry sc = x" "xs @ ys = y # zs" "unnumbered s tid" for s :: "'a tasking" and V sc xs x ys y
    using that
  proof (induction n arbitrary: s V sc xs x ys y)
    case (Suc n)
    obtain s1 sc1 where s1: "slice (Thread_checkWaiting fs) c tid s = Some (Inr (s1, [val (ts_entries s) x, val (ts_entries s) y]))"
      "running s1 (V(c := (x # y # zs, []))) c sc1 ([x] @ y # zs)" "sc_currentEntry sc1 = y" "unnumbered s1 tid"
      "\<forall>d\<in>set (xs @ x # ys). val (ts_entries s1) d = val (ts_entries s) d"
      using slice_front [OF Suc.prems, of fs] by auto
    obtain s2 ts where s2: "slices (Thread_checkWaiting fs) c tid n s1 = Some (Inr (s2, ts))" "length ts = 2 * n"
      "set ts \<subseteq> {val (ts_entries s1) y, val (ts_entries s1) x}"
      using Suc.IH [OF s1(2,3) _ s1(4)] by auto
    have "y \<in> set (xs @ ys)" unfolding Suc.prems(3) by simp
    then have "val (ts_entries s1) x = val (ts_entries s) x" "val (ts_entries s1) y = val (ts_entries s) y" using s1(5) by auto
    then show ?case using s1(1) s2 by auto
  qed simp
  show ?thesis using front [of s V sc "[]" a "b # zs" b] assms by simp
qed

theorem joining_threads_starve_witness:
  "\<exists>s' ts. slices (Thread_checkWaiting (\<lambda>s t f. None)) 0 77 1000 example_quiet = Some (Inr (s', ts)) \<and> length ts = 2000 \<and> set ts \<subseteq> {101, 102}"
proof -
  let ?sc = "\<lparr>sc_milliseconds = 15, sc_coreId = 0, sc_waitQueue = 0, sc_runQueue = 11, sc_idleEntry = 10, sc_currentEntry = 11\<rparr>"
  have "running example_quiet (example_queues [11, 12] []) 0 ?sc [11, 12]"
    using example_quiet_wf by (simp add: running_def example_queues_def current_ok_def)
  moreover have "unnumbered example_quiet 77" by (auto simp: unnumbered_def) (auto simp: example_tasking_def example_thread_def split: if_splits)
  ultimately show ?thesis using joining_threads_starve [of example_quiet _ 0 ?sc 11 12 "[]" 77 "\<lambda>s t f. None" 1000] by simp
qed

end
