(* ===== verification/Spec2Isabelle.thy ===== *)
theory Spec2Isabelle
  imports ElfLoader FsSeek RamdiskWriter JsNumParse Rounds
begin

text \<open>
  MeetixOS: a verification development for the core of the kernel and for the number conversion of
  the JavaScript command.

  \<^bold>\<open>The system.\<close> MeetixOS is a 32 bit operating system. A loader (src/Kernel/Loader) prepares memory
  and starts the kernel (src/Kernel/Kernel, with helpers in src/Kernel/Shared). The kernel manages
  physical pages, page tables and a heap; on top of these it runs threads and processes, which send
  messages to each other and use a virtual file system through system calls. User programs
  (src/Userspace) run over the libraries of src/Libs. The development follows the layers of the
  kernel from the bottom up, and one large self-contained algorithm of user space.

  \<^bold>\<open>Theories and sources.\<close> Names of definitions are those of the code, with the class as a prefix.
    \<^item> \<open>Prelude\<close>: machine integers as words, the result type \<open>kres\<close> of code that can fault or panic,
      and the general lemmas, among them invariants of labelled runs.
    \<^item> \<open>HashMap\<close>: utils/HashMap.hpp and hashable.hpp, an array of 64 chains, with its iterator. The
      locale \<open>kv_map\<close> states what a map promises; the interpretation \<open>hm\<close> discharges it, and the
      clients (messages, pipes, transactions, nodes, descriptors) use only its laws.
    \<^item> \<open>AddressStack\<close>: memory/collections/AddressStack.cpp, frames of 128 addresses, with the locale
      \<open>address_lifo\<close>.
    \<^item> \<open>PageAlloc\<close>: the bitmap of physical pages, BitmapPageAllocator.cpp, PPallocator.cpp and
      PPreferenceTracker.cpp.
    \<^item> \<open>ChunkHeap\<close>: memory/allocators/ChunkAllocator.cpp, a first-fit allocator whose headers lie in
      the memory it manages, and the lower heap. The locale \<open>block_allocator\<close> is its contract.
    \<^item> \<open>Paging\<close>: AddressSpace.cpp and TemporaryPagingUtil.cpp. Every access walks the page tables as
      the processor does, so that the recursive mapping is computed and not assumed.
    \<^item> \<open>KernelHeap\<close>: KernelHeap.cpp, the composition of the chunk allocator with the page tables; the
      locale \<open>kernel_memory\<close> is what \<open>new\<close> and \<open>delete\<close> promise.
    \<^item> \<open>MessagePool\<close> and \<open>Messages\<close>: tasking/communication/MessageController.cpp, the pools of message
      buffers over the kernel heap and the queues of messages over the hash map.
    \<^item> \<open>RangePool\<close>: memory/collections/AddressRangePool.cpp, with the locale \<open>run_allocator\<close>.
    \<^item> \<open>ElfLoader\<close>: executable/Elf32Loader.cpp, the validation of an executable and the loading of its
      segments and of its thread local storage. It composes the page tables, the page allocator, the
      counters of references and the range pool of the process; the bytes of the image are written
      and read through the page tables.
    \<^item> \<open>FsPipes\<close>: filesystem/FsTransactionStore.cpp, pipes.cpp and FsDelegatePipe.cpp, with the locale
      \<open>queue_system\<close> for what a system of byte queues promises about every run.
    \<^item> \<open>FsWait\<close>: tasking/wait/WaiterFsTransaction.hpp and the handlers of read and write; the locale
      \<open>waiting_handler\<close> has one interpretation for each of the two.
    \<^item> \<open>VfsNodes\<close>: filesystem/FsNode.cpp, the tree and the paths of filesystem/filesystem.cpp, and the
      system call that creates a node.
    \<^item> \<open>FsDescriptors\<close>: filesystem/FsDescriptors.cpp and the operations of filesystem.cpp on open
      files, over the nodes and the pipes.
    \<^item> \<open>KString\<close>: the strings of src/Kernel/Shared/utils/string.cpp, on character memory with an end.
    \<^item> \<open>Ramdisk\<close> and \<open>RamdiskFs\<close>: ramdisk/Ramdisk.cpp, from the image to the lookups, and the delegates
      FsDelegateRamdisk.cpp and FsDelegateMount.cpp. \<open>RamdiskWriter\<close>: the tool that makes the image,
      src/Meta/Tools/RamdiskWriter.
    \<^item> \<open>FsCalls\<close>: the calls of calls/SyscallHandlerFilesystem.cpp on files and folders, the handlers for
      discovery, opening, closing, lengths and directories (the FsTransactionHandler classes), the
      requests to the delegate of a node, and FsDelegateTasked.cpp, over the record \<open>kfs\<close> of the
      file system with the waiter of one thread. \<open>FsDiscovery\<close>: paths are discovered name by name; the
      locale \<open>discovering\<close> is what a delegate has to keep for this to end, and the interpretation \<open>rp\<close>
      shows that the ramdisk keeps it. \<open>FsSeek\<close>: positions, lengths and listings of folders.
    \<^item> \<open>LList\<close>: the linked list of src/Libs/LibApi/Api/utils/llist.hpp, with which the kernel keeps its
      servers.
    \<^item> \<open>Tasking\<close>: threads, processes and schedulers (tasking/thread.cpp, tasking/scheduling/scheduler.cpp,
      tasking/tasking.cpp, the deletion of ThreadManager.cpp): queues of entries linked by pointers.
    \<^item> \<open>SchedulerQueues\<close>: the queues as lists and the invariant \<open>wf\<close> of the schedulers of all
      processors. \<open>Scheduling\<close>: a round of the scheduler over any waiters that keep the laws of the
      locale \<open>waiters\<close>.
    \<^item> \<open>Waiters\<close>: the checks of tasking/wait, signals and interrupts of threads, the interrupt requests and
      the system calls of calls/SyscallHandlerTasking.cpp and calls/SyscallHandlerMessaging.cpp; the
      interpretation \<open>kw\<close> discharges the laws for the waiters of the kernel. \<open>Rounds\<close>: what follows over
      many rounds.
    \<^item> \<open>JsBigint\<close>, \<open>JsDragon4\<close>, \<open>JsNumString\<close>, \<open>JsNumParse\<close>: the section duk_numconv.c of
      src/Userspace/Commands/JS/duktape.c, from the bigints to \<open>duk_numconv_stringify\<close> and
      \<open>duk_numconv_parse\<close>.

  \<^bold>\<open>State.\<close> A class is a record, its static variables are fields of the record of its component.
  Objects that the code reaches through pointers and relinks (chunk headers, message queues,
  pipes) are kept in stores of addresses; where an object only ever has one owner, the model has a
  list. Faults (a null or dangling pointer, a write past a buffer) and panics are the left values
  of \<open>kres\<close>. Integers keep their width; \<open>sint\<close> reads them where the code compares signed values.
  Signed counters wrap where the code leaves an overflow undefined.

  \<^bold>\<open>What is shown.\<close> In the order of the properties:
    \<^item> C1 and C2: the hash map implements finite maps and the address stack a stack.
    \<^item> C3: the page allocator returns the lowest free page and counts it.
    \<^item> C4 to C7: allocating, freeing and expanding the chunk heap refine operations on a list of
      blocks, and allocate and free are inverse.
    \<^item> C8 to C11: mapping and unmapping of pages and temporary mappings, that a mapping never
      replaces another unless asked to, and that an allocation of the kernel heap returns.
    \<^item> C12: the loader of executables returns with the segments in memory, byte for byte, and with no
      other page remapped.
    \<^item> C13 and C14: messages refine a mailbox for each thread, and every receive answers.
    \<^item> C15 and C16: a round of the scheduler keeps its queues, wakes who is ready and chooses a live
      thread; without waiting threads the rounds are fair.
    \<^item> C17 to C23: the bigint operations compute on numbers what they say; the variants with and
      without 64 bit integers agree; the digits of a number lie in its rounding interval; fixed
      format is rounded; parsing ends for every string and gives a double next to the number that
      was read; printing an unsigned number and parsing it gives it back.
    \<^item> C24 and C25: the range pool hands out disjoint runs and takes them back.
    \<^item> C26 to C28: the pipes refine byte queues, what is read is what was written in order, and a
      blocked read completes when data arrive.
    \<^item> C29 to C31: paths and nodes, and descriptors across a fork.
    \<^item> C32 to C34: loading the image that the writer makes finds every file; reads and writes of the
      ramdisk.
    \<^item> C35 to C37: opening a file of the ramdisk by its path ends, with a descriptor for it, and with a
      second one when the path was not known; a seek ends at a position within the file, which a tell
      returns; a known folder is listed completely and in order.
    \<^item> C38: printing a number as a string and reading it back, and what becomes of its sign.
    \<^item> C39 and C40: what the scheduler does wrong: threads whose waits end at once starve the others, and
      the end of a process reads the process it has deleted.
  Beside these, \<open>pipe_requests\<close> (the answers of the pipes on every branch), \<open>page_allocate_free_roundtrip\<close>, \<open>real_path_overflow\<close>, \<open>interrupted_thread_lost\<close> (a thread
  interrupted while it runs is lost) and \<open>length_returns_early\<close> (the length by path is written after the
  call has returned) are proved in the theories of their components.

  \<^bold>\<open>Loops.\<close> Loops over a list or down a counter are total functions with a measure. Loops along
  pointers, and recursions that need not end in every state, are partial functions whose value is
  \<open>None\<close> when they run forever; the properties state that they return. \<open>HashMap_visit\<close> has fuel: as
  much as there are entries is enough.

  \<^bold>\<open>Parameters.\<close> Addresses that \<open>new\<close> returns for objects outside the modelled heap, and the bytes
  that uninitialised memory holds, are arguments of the operations that use them; so is what a driver
  has left in the storage it shares with the kernel.

  \<^bold>\<open>Not modelled.\<close> The creation of threads and processes and the fork of a thread, which write stacks
  and register blocks for the processor; the reads and writes of the tasked delegate and the setup of
  its storage, which is shared with a driver; \<open>processClosed\<close>, which erases from the table it iterates
  over; the dispatch of system calls; \<open>spawnFromRamdisk\<close>, which creates the process of an executable; ACPI, PCI, interrupt
  controllers and processors, whose meaning is that of the devices; locks, so that an operation of
  the kernel is one step; descriptor tables and virtual 8086 mode; logging and video; the loader; the
  libraries and programs of user space and the rest of duktape; the other tools. The TLB is not
  modelled, and neither is the report of messages to the log. Of a deleted thread, the memory that is
  unmapped and the files that are closed are not part of the state. In the properties of the
  scheduler a blocked sender of messages is left out, since its check may exhaust the kernel heap.

  \<^bold>\<open>What could follow.\<close> The contract of discovery for the other delegates, and the
  collections of the libraries.
\<close>

end
